(* ===== verification/Prelude.thy ===== *)
theory Prelude
  imports Main "HOL-Library.Word" "HOL-Library.Monad_Syntax"
begin

text \<open>
  Shared vocabulary of the development: the machine-integer types of \<^verbatim>\<open>core/types.hpp\<close>, the enums
  and the \<^verbatim>\<open>Symbol\<close> class declared there, the decode status of \<^verbatim>\<open>core/decode_status.hpp\<close>, the model
  of raw memory that the codecs use (a span is a byte list; a read or write outside it is
  \<^term>\<open>None\<close>), and the generic lemmas on lists, words and sums that the component theories share.

  Conventions used in every theory.
  \<^item> Unsigned machine integers are words of their width, so \<open>+\<close>, \<open>-\<close> and \<open>*\<close> wrap exactly as the
    C++ does. \<^verbatim>\<open>std::size_t\<close> values that index or count storage the program has really allocated are
    \<^typ>\<open>nat\<close>.
  \<^item> Signed 64-bit and 128-bit values (\<^verbatim>\<open>Price\<close>, \<^verbatim>\<open>Int128\<close>) are \<^typ>\<open>int\<close>: signed overflow is
    undefined in C++, so the model computes the exact value and the bounds theorems show that the
    exact value fits where the code relies on it.
  \<^item> A C++ \<^verbatim>\<open>char\<close> is the byte it occupies, an \<open>8 word\<close>; \<open>asc c\<close> is the byte of the ASCII
    character \<open>c\<close>.
\<close>

unbundle bit_operations_syntax

named_theorems mem_simps \<open>reading and writing byte spans whose length is known\<close>

type_synonym u8 = "8 word"
type_synonym u16 = "16 word"
type_synonym u32 = "32 word"
type_synonym u64 = "64 word"

section \<open>core/types.hpp\<close>

type_synonym Price = int
type_synonym Qty = u32
type_synonym OrderRef = u64
type_synonym Locate = u16
type_synonym Nanos = u64

definition kPriceScale :: int where
  "kPriceScale = 10000"

definition kMaxOrderQty :: Qty where
  "kMaxOrderQty = 999999"

text \<open>
  A C++ scoped enum with a fixed underlying type can hold any byte, and the code guards against
  values that are neither \<^verbatim>\<open>buy\<close> nor \<^verbatim>\<open>sell\<close>; \<open>Side_other\<close> is such a value.
\<close>

datatype Side = Side_buy | Side_sell | Side_other u8

definition opposite :: "Side \<Rightarrow> Side" where
  "opposite s = (if s = Side_buy then Side_sell else Side_buy)"

fun side_index :: "Side \<Rightarrow> nat" where
  "side_index Side_buy = 0"
| "side_index Side_sell = 1"
| "side_index (Side_other b) = unat b"

definition valid_side :: "Side \<Rightarrow> bool" where
  "valid_side s = (s = Side_buy \<or> s = Side_sell)"

lemma valid_side_simps [simp]:
  "valid_side Side_buy" "valid_side Side_sell" "\<not> valid_side (Side_other b)"
  by (auto simp: valid_side_def)

lemma valid_side_cases:
  assumes "valid_side s"
  obtains "s = Side_buy" | "s = Side_sell"
  using assms by (auto simp: valid_side_def)

lemma opposite_simps [simp]:
  "opposite Side_buy = Side_sell" "opposite Side_sell = Side_buy"
  by (auto simp: opposite_def)

lemma opposite_valid [simp]: "valid_side (opposite s)"
  by (simp add: opposite_def)

lemma opposite_neq: "valid_side s \<Longrightarrow> opposite s \<noteq> s"
  by (auto simp: opposite_def)

lemma side_index_less: "valid_side s \<Longrightarrow> side_index s < 2"
  by (auto elim: valid_side_cases)

lemma side_index_opposite: "valid_side s \<Longrightarrow> side_index (opposite s) = 1 - side_index s"
  by (auto elim: valid_side_cases)

abbreviation asc :: "char \<Rightarrow> u8" where
  "asc c \<equiv> of_char c"

text \<open>Eight bytes, kept exactly as given.\<close>

type_synonym Symbol = "u8 list"

definition kSymbolSize :: nat where
  "kSymbolSize = 8"

definition Symbol_blank :: Symbol where
  "Symbol_blank = replicate 8 (asc CHR '' '')"

definition Symbol_of_text :: "u8 list \<Rightarrow> Symbol" where
  "Symbol_of_text text = take 8 text @ drop (length (take 8 text)) Symbol_blank"

text \<open>The loop of \<^verbatim>\<open>view()\<close> strips trailing spaces and NULs.\<close>

definition Symbol_view :: "Symbol \<Rightarrow> u8 list" where
  "Symbol_view s = rev (dropWhile (\<lambda>c. c = asc CHR '' '' \<or> c = 0) (rev s))"

definition Symbol_empty :: "Symbol \<Rightarrow> bool" where
  "Symbol_empty s = (Symbol_view s = [])"

lemma Symbol_empty_iff: "Symbol_empty s \<longleftrightarrow> (\<forall>c \<in> set s. c = asc CHR '' '' \<or> c = 0)"
  by (simp add: Symbol_empty_def Symbol_view_def)

lemma Symbol_empty_blank [simp]: "Symbol_empty Symbol_blank"
  by (simp add: Symbol_empty_iff Symbol_blank_def)

lemma length_Symbol_blank [simp]: "length Symbol_blank = 8"
  by (simp add: Symbol_blank_def)

lemma length_Symbol_of_text: "length (Symbol_of_text t) = 8"
  by (simp add: Symbol_of_text_def)

section \<open>core/decode\_status.hpp\<close>

datatype DecodeStatus = DS_ok | DS_truncated | DS_unknown_type | DS_bad_length | DS_bad_field

section \<open>Raw memory: spans of bytes\<close>

text \<open>
  \<^verbatim>\<open>p[i]\<close> through a \<^verbatim>\<open>std::byte\<close> pointer, and \<^verbatim>\<open>std::memcpy\<close> of a block out of and into a span. A
  result \<^term>\<open>None\<close> is an access outside the span, which C++ leaves undefined.
\<close>

definition rd8 :: "u8 list \<Rightarrow> nat \<Rightarrow> u8 option" where
  "rd8 p i = (if i < length p then Some (p ! i) else None)"

definition wr8 :: "u8 list \<Rightarrow> nat \<Rightarrow> u8 \<Rightarrow> u8 list option" where
  "wr8 p i b = (if i < length p then Some (p[i := b]) else None)"

definition rd_bytes :: "u8 list \<Rightarrow> nat \<Rightarrow> nat \<Rightarrow> u8 list option" where
  "rd_bytes p i n = (if i + n \<le> length p then Some (take n (drop i p)) else None)"

definition blit :: "u8 list \<Rightarrow> nat \<Rightarrow> u8 list \<Rightarrow> u8 list" where
  "blit p i bs = take i p @ bs @ drop (i + length bs) p"

definition wr_bytes :: "u8 list \<Rightarrow> nat \<Rightarrow> u8 list \<Rightarrow> u8 list option" where
  "wr_bytes p i bs = (if i + length bs \<le> length p then Some (blit p i bs) else None)"

lemma length_blit [simp]: "i + length bs \<le> length p \<Longrightarrow> length (blit p i bs) = length p"
  by (simp add: blit_def)

lemma wr_bytes_ok [mem_simps]:
  "i + length bs \<le> length p \<Longrightarrow> wr_bytes p i bs = Some (blit p i bs)"
  by (simp add: wr_bytes_def)

lemma rd_bytes_ok: "i + n \<le> length p \<Longrightarrow> rd_bytes p i n = Some (take n (drop i p))"
  by (simp add: rd_bytes_def)

lemma rd_bytes_blit_same [mem_simps]:
  "i + length bs \<le> length p \<Longrightarrow> n = length bs \<Longrightarrow> rd_bytes (blit p i bs) i n = Some bs"
  by (simp add: rd_bytes_def blit_def)

lemma rd_bytes_blit_before [mem_simps]:
  assumes "i + length bs \<le> length p" "j + n \<le> i"
  shows "rd_bytes (blit p i bs) j n = rd_bytes p j n"
proof -
  have "take n (drop j (take i p)) = take n (drop j p)"
    using assms by (simp add: drop_take min_def)
  then show ?thesis
    using assms by (simp add: rd_bytes_def blit_def)
qed

lemma rd_bytes_blit_after [mem_simps]:
  assumes "i + length bs \<le> length p" "i + length bs \<le> j"
  shows "rd_bytes (blit p i bs) j n = rd_bytes p j n"
  using assms by (simp add: rd_bytes_def blit_def)

lemma take_blit_before: "i + length bs \<le> length p \<Longrightarrow> n \<le> i \<Longrightarrow> take n (blit p i bs) = take n p"
  by (simp add: blit_def min_def)

lemma drop_blit_after:
  "i + length bs \<le> length p \<Longrightarrow> i + length bs \<le> n \<Longrightarrow> drop n (blit p i bs) = drop n p"
  by (simp add: blit_def)

lemma rd_bytes_take [mem_simps]: "i + n \<le> m \<Longrightarrow> m \<le> length p \<Longrightarrow> rd_bytes (take m p) i n = rd_bytes p i n"
  by (simp add: rd_bytes_def drop_take min_def)

lemma rd8_rd_bytes: "rd8 p i = map_option hd (rd_bytes p i 1)"
  by (auto simp: rd8_def rd_bytes_def hd_drop_conv_nth take_Suc split: list.splits)

lemma wr8_wr_bytes: "wr8 p i b = wr_bytes p i [b]"
  by (auto simp: wr8_def wr_bytes_def blit_def upd_conv_take_nth_drop)

lemma blit_blit_adjacent:
  "i + length bs + length cs \<le> length p \<Longrightarrow> blit (blit p i bs) (i + length bs) cs = blit p i (bs @ cs)"
  by (simp add: blit_def ac_simps)

lemma wr_bytes_append:
  "do { p' \<leftarrow> wr_bytes p i bs; wr_bytes p' (i + length bs) cs } =
     (if i + length bs + length cs \<le> length p then Some (blit p i (bs @ cs)) else None)"
  by (auto simp: wr_bytes_def blit_blit_adjacent)

section \<open>The C++ standard library: std::bit\_ceil\<close>

function bit_ceil_from :: "nat \<Rightarrow> nat \<Rightarrow> nat" where
  "bit_ceil_from p n = (if n \<le> p \<or> p = 0 then p else bit_ceil_from (2 * p) n)"
  by pat_completeness auto
termination
  by (relation "measure (\<lambda>(p, n). n - p)") auto

declare bit_ceil_from.simps [simp del]

text \<open>The smallest power of two that is not below \<open>n\<close>.\<close>

definition bit_ceil :: "nat \<Rightarrow> nat" where
  "bit_ceil n = bit_ceil_from 1 n"

lemma bit_ceil_from_spec:
  "p = 2 ^ j \<Longrightarrow> \<exists>k. bit_ceil_from p n = 2 ^ k \<and> j \<le> k \<and> n \<le> 2 ^ k \<and> (j < k \<longrightarrow> 2 ^ (k - 1) < n)"
proof (induction p n arbitrary: j rule: bit_ceil_from.induct)
  case (1 p n)
  show ?case
  proof (cases "n \<le> p")
    case True
    then have "bit_ceil_from p n = p" by (subst bit_ceil_from.simps) simp
    with True 1(2) show ?thesis by (intro exI [of _ j]) simp
  next
    case False
    have dbl: "2 * p = 2 ^ Suc j" using 1(2) by simp
    have "\<not> (n \<le> p \<or> p = 0)" using False 1(2) by simp
    from 1(1) [OF this dbl] obtain k where k: "bit_ceil_from (2 * p) n = 2 ^ k" "Suc j \<le> k" "n \<le> 2 ^ k"
        "Suc j < k \<longrightarrow> 2 ^ (k - 1) < n"
      by blast
    moreover have "2 ^ (k - 1) < n"
    proof (cases "Suc j < k")
      case False
      with k(2) have "k - 1 = j" by simp
      with \<open>\<not> n \<le> p\<close> 1(2) show ?thesis by simp
    qed (use k(4) in simp)
    moreover have "bit_ceil_from p n = bit_ceil_from (2 * p) n"
      using False 1(2) by (subst bit_ceil_from.simps) simp
    ultimately show ?thesis by (intro exI [of _ k]) simp
  qed
qed

lemma bit_ceil_spec: "\<exists>k. bit_ceil n = 2 ^ k \<and> n \<le> 2 ^ k \<and> (0 < k \<longrightarrow> 2 ^ (k - 1) < n)"
  using bit_ceil_from_spec [of 1 0 n] by (auto simp: bit_ceil_def)

lemma bit_ceil_ge: "n \<le> bit_ceil n"
  using bit_ceil_spec [of n] by auto

section \<open>Lemmas on lists, options and sums\<close>

lemma nat_and_mask_eq_mod: "(x::nat) AND (2 ^ k - 1) = x mod 2 ^ k"
  by (metis mask_eq_exp_minus_1 take_bit_eq_mask take_bit_eq_mod)

lemma nat_and_mask_Suc_eq_mod [simp]: "(x::nat) AND (2 ^ k - Suc 0) = x mod 2 ^ k"
  using nat_and_mask_eq_mod [of x k] by simp

lemma take_update_less: "i < n \<Longrightarrow> take n (xs[i := x]) = (take n xs)[i := x]"
  by (simp add: take_update_swap)

lemma sum_list_update_int:
  "i < length xs \<Longrightarrow> sum_list (map f (xs[i := x])) = sum_list (map f xs) + f x - (f (xs ! i) :: int)"
  by (induction xs arbitrary: i) (auto split: nat.splits)

lemma sum_list_update_nat:
  "i < length xs \<Longrightarrow> sum_list (map f (xs[i := x])) + f (xs ! i) = sum_list (map f xs) + (f x :: nat)"
  by (induction xs arbitrary: i) (auto split: nat.splits)

lemma mem_sum_list_le_int:
  "\<forall>x \<in> set xs. 0 \<le> f x \<Longrightarrow> y \<in> set xs \<Longrightarrow> (f y :: int) \<le> sum_list (map f xs)"
proof (induction xs)
  case Nil
  then show ?case by simp
next
  case (Cons a xs)
  have "0 \<le> sum_list (map f xs)" using Cons.prems(1) by (intro sum_list_nonneg) auto
  then show ?case using Cons by auto
qed

section \<open>Machine words\<close>

lemma unat_minus_le: "b \<le> a \<Longrightarrow> unat (a - b) = unat a - unat (b :: 'a::len word)"
  by (simp add: unat_sub)

lemma unat_add_no_overflow:
  "unat a + unat b < 2 ^ LENGTH('a) \<Longrightarrow> unat (a + b) = unat a + unat (b :: 'a::len word)"
  by (simp add: unat_word_ariths)

lemma word_gt_max_minus_iff:
  "a > - 1 - (b :: 'a::len word) \<longleftrightarrow> 2 ^ LENGTH('a) \<le> unat a + unat b"
proof -
  have "b \<le> - 1" by simp
  then have "unat (- 1 - b) = unat (- 1 :: 'a word) - unat b" by (rule unat_minus_le)
  moreover have "unat (- 1 :: 'a word) = 2 ^ LENGTH('a) - 1" by (simp add: unsigned_minus_1_eq_mask mask_eq_exp_minus_1)
  moreover have "unat b < 2 ^ LENGTH('a)" "unat a < 2 ^ LENGTH('a)" by auto
  ultimately show ?thesis unfolding word_less_nat_alt by linarith
qed

lemma unat_ucast_small: "unat w < 2 ^ LENGTH('b) \<Longrightarrow> unat (ucast w :: 'b::len word) = unat w" for w :: "'a::len word"
  by (simp only: unsigned_ucast_eq take_bit_nat_eq_self)

lemma unat_minus_one: "unat (- 1 :: 'a::len word) = 2 ^ LENGTH('a) - 1"
  by (simp add: unsigned_minus_1_eq_mask mask_eq_exp_minus_1)

lemma word_eq_max_iff: "(n :: 'a::len word) = - 1 \<longleftrightarrow> unat n = 2 ^ LENGTH('a) - 1"
  by (metis unat_minus_one word_unat_eq_iff)

lemma unat_plus_one:
  assumes "n \<noteq> - 1"
  shows "unat (n + 1) = unat (n :: 'a::len word) + 1"
proof -
  have "1 + n \<noteq> 0" using assms by (metis add.commute add_eq_0_iff2)
  then show ?thesis using unatSuc [of n] by (simp add: add.commute)
qed

lemma word_less_plus_one:
  assumes "n \<noteq> - 1"
  shows "n < n + (1 :: 'a::len word)" "i < n \<Longrightarrow> i < n + 1" "n + 1 \<noteq> 0"
  using unat_plus_one [OF assms] by (auto simp: word_less_nat_alt word_unat_eq_iff)

lemma xor_swap:
  fixes x y :: "'a::len word"
  assumes "x XOR a = y XOR b"
  shows "x XOR y = a XOR b"
proof (rule bit_word_eqI)
  fix n
  have "bit (x XOR a) n = bit (y XOR b) n" by (simp only: assms)
  then show "bit (x XOR y) n = bit (a XOR b) n" by (auto simp: bit_xor_iff)
qed

lemma xor_zero:
  fixes x y :: "'a::len word"
  assumes "x XOR y = 0"
  shows "x = y"
  using xor_swap [of x y 0 0] assms by simp

lemma mult_unit_inj:
  fixes x y c d :: "'a::len word"
  assumes "x * c = y * c" "c * d = 1"
  shows "x = y"
proof -
  have "x * c * d = y * c * d" by (simp only: assms(1))
  then show ?thesis by (simp only: mult.assoc assms(2) mult_1_right)
qed

end
