(* ===== verification/Endian.thy ===== *)
theory Endian
  imports Prelude
begin

text \<open>
  \<^verbatim>\<open>core/endian.hpp\<close>: big-endian (wire formats) and little-endian (capture files) loads and
  stores of 16, 32, 48 and 64 bit values, composed from two-byte accesses as the header does. Every
  access goes through \<open>rd8\<close> / \<open>wr8\<close>, so a load or store that leaves its span is \<^term>\<open>None\<close>.

  The lemmas reduce a store of a value to one block write of its bytes (\<open>be_bytes16\<close>, ...) and a
  load of that block to the value: the codecs never look inside an integer again.
\<close>

section \<open>namespace optitrade::be\<close>

definition be_load16 :: "u8 list \<Rightarrow> nat \<Rightarrow> u16 option" where
  "be_load16 p i = do {
     a \<leftarrow> rd8 p i;
     b \<leftarrow> rd8 p (i + 1);
     Some (push_bit 8 (ucast a) OR ucast b) }"

definition be_load32 :: "u8 list \<Rightarrow> nat \<Rightarrow> u32 option" where
  "be_load32 p i = do {
     a \<leftarrow> be_load16 p i;
     b \<leftarrow> be_load16 p (i + 2);
     Some (push_bit 16 (ucast a) OR ucast b) }"

definition be_load48 :: "u8 list \<Rightarrow> nat \<Rightarrow> u64 option" where
  "be_load48 p i = do {
     a \<leftarrow> be_load16 p i;
     b \<leftarrow> be_load32 p (i + 2);
     Some (push_bit 32 (ucast a) OR ucast b) }"

definition be_load64 :: "u8 list \<Rightarrow> nat \<Rightarrow> u64 option" where
  "be_load64 p i = do {
     a \<leftarrow> be_load32 p i;
     b \<leftarrow> be_load32 p (i + 4);
     Some (push_bit 32 (ucast a) OR ucast b) }"

definition be_store16 :: "u8 list \<Rightarrow> nat \<Rightarrow> u16 \<Rightarrow> u8 list option" where
  "be_store16 p i v = do {
     p \<leftarrow> wr8 p i (ucast (drop_bit 8 v));
     wr8 p (i + 1) (ucast v) }"

definition be_store32 :: "u8 list \<Rightarrow> nat \<Rightarrow> u32 \<Rightarrow> u8 list option" where
  "be_store32 p i v = do {
     p \<leftarrow> be_store16 p i (ucast (drop_bit 16 v));
     be_store16 p (i + 2) (ucast v) }"

definition be_store48 :: "u8 list \<Rightarrow> nat \<Rightarrow> u64 \<Rightarrow> u8 list option" where
  "be_store48 p i v = do {
     p \<leftarrow> be_store16 p i (ucast (drop_bit 32 v));
     be_store32 p (i + 2) (ucast v) }"

definition be_store64 :: "u8 list \<Rightarrow> nat \<Rightarrow> u64 \<Rightarrow> u8 list option" where
  "be_store64 p i v = do {
     p \<leftarrow> be_store32 p i (ucast (drop_bit 32 v));
     be_store32 p (i + 4) (ucast v) }"

section \<open>namespace optitrade::le\<close>

definition le_load16 :: "u8 list \<Rightarrow> nat \<Rightarrow> u16 option" where
  "le_load16 p i = do {
     a \<leftarrow> rd8 p i;
     b \<leftarrow> rd8 p (i + 1);
     Some (ucast a OR push_bit 8 (ucast b)) }"

definition le_load32 :: "u8 list \<Rightarrow> nat \<Rightarrow> u32 option" where
  "le_load32 p i = do {
     a \<leftarrow> le_load16 p i;
     b \<leftarrow> le_load16 p (i + 2);
     Some (ucast a OR push_bit 16 (ucast b)) }"

definition le_load64 :: "u8 list \<Rightarrow> nat \<Rightarrow> u64 option" where
  "le_load64 p i = do {
     a \<leftarrow> le_load32 p i;
     b \<leftarrow> le_load32 p (i + 4);
     Some (ucast a OR push_bit 32 (ucast b)) }"

definition le_store16 :: "u8 list \<Rightarrow> nat \<Rightarrow> u16 \<Rightarrow> u8 list option" where
  "le_store16 p i v = do {
     p \<leftarrow> wr8 p i (ucast v);
     wr8 p (i + 1) (ucast (drop_bit 8 v)) }"

definition le_store32 :: "u8 list \<Rightarrow> nat \<Rightarrow> u32 \<Rightarrow> u8 list option" where
  "le_store32 p i v = do {
     p \<leftarrow> le_store16 p i (ucast v);
     le_store16 p (i + 2) (ucast (drop_bit 16 v)) }"

definition le_store64 :: "u8 list \<Rightarrow> nat \<Rightarrow> u64 \<Rightarrow> u8 list option" where
  "le_store64 p i v = do {
     p \<leftarrow> le_store32 p i (ucast v);
     le_store32 p (i + 4) (ucast (drop_bit 32 v)) }"

section \<open>The bytes of a value\<close>

definition be_bytes16 :: "u16 \<Rightarrow> u8 list" where
  "be_bytes16 v = [ucast (drop_bit 8 v), ucast v]"

definition be_bytes32 :: "u32 \<Rightarrow> u8 list" where
  "be_bytes32 v = be_bytes16 (ucast (drop_bit 16 v)) @ be_bytes16 (ucast v)"

definition be_bytes48 :: "u64 \<Rightarrow> u8 list" where
  "be_bytes48 v = be_bytes16 (ucast (drop_bit 32 v)) @ be_bytes32 (ucast v)"

definition be_bytes64 :: "u64 \<Rightarrow> u8 list" where
  "be_bytes64 v = be_bytes32 (ucast (drop_bit 32 v)) @ be_bytes32 (ucast v)"

definition le_bytes16 :: "u16 \<Rightarrow> u8 list" where
  "le_bytes16 v = [ucast v, ucast (drop_bit 8 v)]"

definition le_bytes32 :: "u32 \<Rightarrow> u8 list" where
  "le_bytes32 v = le_bytes16 (ucast v) @ le_bytes16 (ucast (drop_bit 16 v))"

definition le_bytes64 :: "u64 \<Rightarrow> u8 list" where
  "le_bytes64 v = le_bytes32 (ucast v) @ le_bytes32 (ucast (drop_bit 32 v))"

lemma length_be_bytes [simp]:
  "length (be_bytes16 a) = 2" "length (be_bytes32 b) = 4"
  "length (be_bytes48 c) = 6" "length (be_bytes64 c) = 8"
  by (simp_all add: be_bytes16_def be_bytes32_def be_bytes48_def be_bytes64_def)

lemma length_le_bytes [simp]:
  "length (le_bytes16 a) = 2" "length (le_bytes32 b) = 4" "length (le_bytes64 c) = 8"
  by (simp_all add: le_bytes16_def le_bytes32_def le_bytes64_def)

section \<open>A store is one block write\<close>

lemma wr_bytes_bind_append:
  assumes "n = i + length bs"
  shows "do { q \<leftarrow> wr_bytes p i bs; wr_bytes q n cs } = wr_bytes p i (bs @ cs)"
  using assms blit_blit_adjacent [of i bs cs p] by (auto simp: wr_bytes_def add.assoc)

lemma be_store16_wr [mem_simps]: "be_store16 p i v = wr_bytes p i (be_bytes16 v)"
  by (simp add: be_store16_def wr8_wr_bytes be_bytes16_def wr_bytes_bind_append)

lemma be_store32_wr [mem_simps]: "be_store32 p i v = wr_bytes p i (be_bytes32 v)"
  by (simp add: be_store32_def be_store16_wr be_bytes32_def wr_bytes_bind_append)

lemma be_store48_wr [mem_simps]: "be_store48 p i v = wr_bytes p i (be_bytes48 v)"
  by (simp add: be_store48_def be_store16_wr be_store32_wr be_bytes48_def wr_bytes_bind_append)

lemma be_store64_wr [mem_simps]: "be_store64 p i v = wr_bytes p i (be_bytes64 v)"
  by (simp add: be_store64_def be_store32_wr be_bytes64_def wr_bytes_bind_append)

lemma le_store16_wr [mem_simps]: "le_store16 p i v = wr_bytes p i (le_bytes16 v)"
  by (simp add: le_store16_def wr8_wr_bytes le_bytes16_def wr_bytes_bind_append)

lemma le_store32_wr [mem_simps]: "le_store32 p i v = wr_bytes p i (le_bytes32 v)"
  by (simp add: le_store32_def le_store16_wr le_bytes32_def wr_bytes_bind_append)

lemma le_store64_wr [mem_simps]: "le_store64 p i v = wr_bytes p i (le_bytes64 v)"
  by (simp add: le_store64_def le_store32_wr le_bytes64_def wr_bytes_bind_append)

section \<open>A load stays inside its span and inverts the store\<close>

lemma be_load16_Some: "i + 2 \<le> length p \<Longrightarrow> \<exists>v. be_load16 p i = Some v"
  by (simp add: be_load16_def rd8_def)

lemma be_load32_Some: "i + 4 \<le> length p \<Longrightarrow> \<exists>v. be_load32 p i = Some v"
  using be_load16_Some [of i p] be_load16_Some [of "i + 2" p] by (auto simp: be_load32_def)

lemma be_load48_Some: "i + 6 \<le> length p \<Longrightarrow> \<exists>v. be_load48 p i = Some v"
  using be_load16_Some [of i p] be_load32_Some [of "i + 2" p] by (auto simp: be_load48_def)

lemma be_load64_Some: "i + 8 \<le> length p \<Longrightarrow> \<exists>v. be_load64 p i = Some v"
  using be_load32_Some [of i p] be_load32_Some [of "i + 4" p] by (auto simp: be_load64_def)

lemma rd_bytes_split:
  assumes "rd_bytes p i n = Some (bs @ cs)" "length bs = m"
  shows "rd_bytes p i m = Some bs" "rd_bytes p (i + m) (n - m) = Some cs"
proof -
  from assms have t: "take n (drop i p) = bs @ cs" and le: "i + n \<le> length p"
    by (auto simp: rd_bytes_def split: if_splits)
  then have "length (bs @ cs) = n" by (metis add_le_imp_le_diff length_drop length_take min.absorb2 add.commute)
  with assms(2) have m: "m \<le> n" by auto
  have "take m (drop i p) = take m (take n (drop i p))" using m by (simp add: min_def)
  also have "\<dots> = bs" using t assms(2) by simp
  finally show "rd_bytes p i m = Some bs" using le m by (simp add: rd_bytes_def)
  have "take (n - m) (drop (i + m) p) = drop m (take n (drop i p))"
    by (simp add: drop_take add.commute)
  also have "\<dots> = cs" using t assms(2) by simp
  finally show "rd_bytes p (i + m) (n - m) = Some cs" using le m by (simp add: rd_bytes_def)
qed

lemma rd_bytes_one: "rd_bytes p i 1 = Some [b] \<Longrightarrow> rd8 p i = Some b"
  by (simp add: rd8_rd_bytes)

lemma be_load16_block [mem_simps]: "rd_bytes p i 2 = Some (be_bytes16 v) \<Longrightarrow> be_load16 p i = Some v"
proof -
  assume "rd_bytes p i 2 = Some (be_bytes16 v)"
  then have "rd_bytes p i 2 = Some ([ucast (drop_bit 8 v)] @ [ucast v])" by (simp add: be_bytes16_def)
  from rd_bytes_split [OF this, of 1] have "rd8 p i = Some (ucast (drop_bit 8 v))" "rd8 p (i + 1) = Some (ucast v)"
    by (simp_all add: rd_bytes_one numeral_2_eq_2)
  moreover have "push_bit 8 (ucast (ucast (drop_bit 8 v) :: u8)) OR ucast (ucast v :: u8) = v"
    by (rule bit_word_eqI) (auto simp: bit_simps)
  ultimately show ?thesis by (simp add: be_load16_def)
qed

lemma be_load32_block [mem_simps]: "rd_bytes p i 4 = Some (be_bytes32 v) \<Longrightarrow> be_load32 p i = Some v"
proof -
  assume "rd_bytes p i 4 = Some (be_bytes32 v)"
  from rd_bytes_split [OF this [unfolded be_bytes32_def], of 2]
  have "be_load16 p i = Some (ucast (drop_bit 16 v))" "be_load16 p (i + 2) = Some (ucast v)"
    by (simp_all add: be_load16_block)
  moreover have "push_bit 16 (ucast (ucast (drop_bit 16 v) :: u16)) OR ucast (ucast v :: u16) = v"
    by (rule bit_word_eqI) (auto simp: bit_simps)
  ultimately show ?thesis by (simp add: be_load32_def)
qed

lemma be_load48_block [mem_simps]:
  "rd_bytes p i 6 = Some (be_bytes48 v) \<Longrightarrow> be_load48 p i = Some (take_bit 48 v)"
proof -
  assume "rd_bytes p i 6 = Some (be_bytes48 v)"
  from rd_bytes_split [OF this [unfolded be_bytes48_def], of 2]
  have "be_load16 p i = Some (ucast (drop_bit 32 v))" "be_load32 p (i + 2) = Some (ucast v)"
    by (simp_all add: be_load16_block be_load32_block)
  moreover have "push_bit 32 (ucast (ucast (drop_bit 32 v) :: u16)) OR ucast (ucast v :: u32) = take_bit 48 v"
    by (rule bit_word_eqI) (auto simp: bit_simps)
  ultimately show ?thesis by (simp add: be_load48_def)
qed

lemma be_load64_block [mem_simps]: "rd_bytes p i 8 = Some (be_bytes64 v) \<Longrightarrow> be_load64 p i = Some v"
proof -
  assume "rd_bytes p i 8 = Some (be_bytes64 v)"
  from rd_bytes_split [OF this [unfolded be_bytes64_def], of 4]
  have "be_load32 p i = Some (ucast (drop_bit 32 v))" "be_load32 p (i + 4) = Some (ucast v)"
    by (simp_all add: be_load32_block)
  moreover have "push_bit 32 (ucast (ucast (drop_bit 32 v) :: u32)) OR ucast (ucast v :: u32) = v"
    by (rule bit_word_eqI) (auto simp: bit_simps)
  ultimately show ?thesis by (simp add: be_load64_def)
qed

lemma le_load16_block [mem_simps]: "rd_bytes p i 2 = Some (le_bytes16 v) \<Longrightarrow> le_load16 p i = Some v"
proof -
  assume "rd_bytes p i 2 = Some (le_bytes16 v)"
  then have "rd_bytes p i 2 = Some ([ucast v] @ [ucast (drop_bit 8 v)])" by (simp add: le_bytes16_def)
  from rd_bytes_split [OF this, of 1] have "rd8 p i = Some (ucast v)" "rd8 p (i + 1) = Some (ucast (drop_bit 8 v))"
    by (simp_all add: rd_bytes_one numeral_2_eq_2)
  moreover have "ucast (ucast v :: u8) OR push_bit 8 (ucast (ucast (drop_bit 8 v) :: u8)) = v"
    by (rule bit_word_eqI) (auto simp: bit_simps)
  ultimately show ?thesis by (simp add: le_load16_def)
qed

lemma le_load32_block [mem_simps]: "rd_bytes p i 4 = Some (le_bytes32 v) \<Longrightarrow> le_load32 p i = Some v"
proof -
  assume "rd_bytes p i 4 = Some (le_bytes32 v)"
  from rd_bytes_split [OF this [unfolded le_bytes32_def], of 2]
  have "le_load16 p i = Some (ucast v)" "le_load16 p (i + 2) = Some (ucast (drop_bit 16 v))"
    by (simp_all add: le_load16_block)
  moreover have "ucast (ucast v :: u16) OR push_bit 16 (ucast (ucast (drop_bit 16 v) :: u16)) = v"
    by (rule bit_word_eqI) (auto simp: bit_simps)
  ultimately show ?thesis by (simp add: le_load32_def)
qed

lemma le_load64_block [mem_simps]: "rd_bytes p i 8 = Some (le_bytes64 v) \<Longrightarrow> le_load64 p i = Some v"
proof -
  assume "rd_bytes p i 8 = Some (le_bytes64 v)"
  from rd_bytes_split [OF this [unfolded le_bytes64_def], of 4]
  have "le_load32 p i = Some (ucast v)" "le_load32 p (i + 4) = Some (ucast (drop_bit 32 v))"
    by (simp_all add: le_load32_block)
  moreover have "ucast (ucast v :: u32) OR push_bit 32 (ucast (ucast (drop_bit 32 v) :: u32)) = v"
    by (rule bit_word_eqI) (auto simp: bit_simps)
  ultimately show ?thesis by (simp add: le_load64_def)
qed

lemma rd8_ok: "i < length p \<Longrightarrow> \<exists>b. rd8 p i = Some b"
  by (simp add: rd8_def)

lemmas load_total = be_load16_Some be_load32_Some be_load48_Some be_load64_Some rd8_ok

lemma rd8_block [mem_simps]: "rd_bytes p i 1 = Some [b] \<Longrightarrow> rd8 p i = Some b"
  by (rule rd_bytes_one)

section \<open>Images built by consecutive stores\<close>

lemma wr_bytes_bind_more:
  assumes "n = i + length bs"
  shows "do { q \<leftarrow> wr_bytes p i bs; r \<leftarrow> wr_bytes q n cs; f r } = do { r \<leftarrow> wr_bytes p i (bs @ cs); f r }"
  using wr_bytes_bind_append [OF assms, of p cs] by (metis bind_assoc)

lemma wr_bytes_front: "length bs \<le> length p \<Longrightarrow> wr_bytes p 0 bs = Some (bs @ drop (length bs) p)"
  by (simp add: wr_bytes_def blit_def)

lemma wr_bytes_behind:
  "length a \<le> n \<Longrightarrow> wr_bytes (a @ b) n bs = map_option ((@) a) (wr_bytes b (n - length a) bs)"
  "0 < n \<Longrightarrow> wr_bytes (x # b) n bs = map_option ((#) x) (wr_bytes b (n - 1) bs)"
  by (auto simp: wr_bytes_def blit_def take_Cons' drop_Cons')

lemma rd_bytes_append_skip: "length a \<le> i \<Longrightarrow> rd_bytes (a @ b) i n = rd_bytes b (i - length a) n"
  by (auto simp: rd_bytes_def)

lemma rd_bytes_Cons_skip: "0 < i \<Longrightarrow> rd_bytes (x # b) i n = rd_bytes b (i - 1) n"
  using rd_bytes_append_skip [of "[x]" i b n] by simp

lemma rd_bytes_Cons_here: "rd_bytes (x # b) 0 (Suc 0) = Some [x]"
  by (simp add: rd_bytes_def)

lemma rd_bytes_append_here: "n = length a \<Longrightarrow> rd_bytes (a @ b) 0 n = Some a"
  by (simp add: rd_bytes_def)

lemma rd_bytes_all: "n = length a \<Longrightarrow> rd_bytes a 0 n = Some a"
  by (simp add: rd_bytes_def)

lemmas image_simps = be_load16_block be_load32_block be_load48_block be_load64_block rd8_block
  rd_bytes_append_skip rd_bytes_append_here rd_bytes_all
  rd_bytes_Cons_skip rd_bytes_Cons_here

lemma rd_block_ok:
  "i + n \<le> length p \<Longrightarrow> \<exists>bs. rd_bytes p i n = Some bs"
  "rd_bytes p i n = Some bs \<Longrightarrow> length bs = n"
  by (auto simp: rd_bytes_def split: if_splits)

section \<open>A load determines its bytes\<close>

lemma rd8_at: "rd8 p i = Some c \<Longrightarrow> i < length p \<and> c = p ! i"
  by (auto simp: rd8_def split: if_splits)

lemma be_load16_bytes: "be_load16 p i = Some v \<Longrightarrow> i + 2 \<le> length p \<and> be_bytes16 v = take 2 (drop i p)"
proof -
  assume "be_load16 p i = Some v"
  then obtain a b where ab: "i + 1 < length p" "a = p ! i" "b = p ! (i + 1)" "v = push_bit 8 (ucast a) OR ucast b"
    by (auto simp: be_load16_def bind_eq_Some_conv dest!: rd8_at)
  have "ucast (drop_bit 8 v) = a" "ucast v = b"
    unfolding ab(4) by (rule bit_word_eqI, auto simp: bit_simps dest: bit_imp_le_length)+
  moreover have "take 2 (drop i p) = [a, b]"
    using ab(1-3) by (simp add: numeral_2_eq_2 Cons_nth_drop_Suc [symmetric])
  ultimately show ?thesis using ab(1) by (simp add: be_bytes16_def)
qed

lemma take_take_drop: "take (m + n) (drop i p) = take m (drop i p) @ take n (drop (i + m) p)"
  by (simp add: take_add add.commute)

lemma be_load32_bytes: "be_load32 p i = Some v \<Longrightarrow> i + 4 \<le> length p \<and> be_bytes32 v = take 4 (drop i p)"
proof -
  assume "be_load32 p i = Some v"
  then obtain a b where ab: "be_load16 p i = Some a" "be_load16 p (i + 2) = Some b" "v = push_bit 16 (ucast a) OR ucast b"
    by (auto simp: be_load32_def bind_eq_Some_conv)
  have "ucast (drop_bit 16 v) = a" "ucast v = b"
    unfolding ab(3) by (rule bit_word_eqI, auto simp: bit_simps dest: bit_imp_le_length)+
  then show ?thesis
    using be_load16_bytes [OF ab(1)] be_load16_bytes [OF ab(2)] take_take_drop [of 2 2 i p] by (simp add: be_bytes32_def)
qed

lemma be_load48_bytes: "be_load48 p i = Some v \<Longrightarrow> i + 6 \<le> length p \<and> be_bytes48 v = take 6 (drop i p)"
proof -
  assume "be_load48 p i = Some v"
  then obtain a b where ab: "be_load16 p i = Some a" "be_load32 p (i + 2) = Some b" "v = push_bit 32 (ucast a) OR ucast b"
    by (auto simp: be_load48_def bind_eq_Some_conv)
  have "ucast (drop_bit 32 v) = a" "ucast v = b"
    unfolding ab(3) by (rule bit_word_eqI, auto simp: bit_simps dest: bit_imp_le_length)+
  then show ?thesis
    using be_load16_bytes [OF ab(1)] be_load32_bytes [OF ab(2)] take_take_drop [of 2 4 i p] by (simp add: be_bytes48_def)
qed

lemma be_load64_bytes: "be_load64 p i = Some v \<Longrightarrow> i + 8 \<le> length p \<and> be_bytes64 v = take 8 (drop i p)"
proof -
  assume "be_load64 p i = Some v"
  then obtain a b where ab: "be_load32 p i = Some a" "be_load32 p (i + 4) = Some b" "v = push_bit 32 (ucast a) OR ucast b"
    by (auto simp: be_load64_def bind_eq_Some_conv)
  have "ucast (drop_bit 32 v) = a" "ucast v = b"
    unfolding ab(3) by (rule bit_word_eqI, auto simp: bit_simps dest: bit_imp_le_length)+
  then show ?thesis
    using be_load32_bytes [OF ab(1)] be_load32_bytes [OF ab(2)] take_take_drop [of 4 4 i p] by (simp add: be_bytes64_def)
qed

lemma rd_bytes_at: "rd_bytes p i n = Some bs \<Longrightarrow> i + n \<le> length p \<and> bs = take n (drop i p)"
  by (auto simp: rd_bytes_def split: if_splits)

lemma be_load32_zero: "be_load32 p i = Some v \<Longrightarrow> (take 4 (drop i p) = replicate 4 0) = (v = 0)"
proof -
  assume v: "be_load32 p i = Some v"
  have z: "be_bytes32 0 = replicate 4 0" by (simp add: be_bytes32_def be_bytes16_def numeral_eq_Suc)
  show ?thesis
  proof
    assume "take 4 (drop i p) = replicate 4 0"
    then have "rd_bytes p i 4 = Some (be_bytes32 0)" using be_load32_bytes [OF v] by (simp add: rd_bytes_def z)
    then show "v = 0" using be_load32_block v by (metis option.inject)
  qed (use be_load32_bytes [OF v] z in simp)
qed

lemmas load_bytes = rd8_at be_load16_bytes be_load32_bytes be_load48_bytes be_load64_bytes rd_bytes_at

text \<open>Adjacent slices of a span put together again.\<close>

lemma slice_glue:
  "j = i + a \<Longrightarrow> take a (drop i p) @ take b (drop j p) = take (a + b) (drop i p)"
  "j = i + a \<Longrightarrow> take a (drop i p) @ take b (drop j p) @ zs = take (a + b) (drop i p) @ zs"
  "i < length p \<Longrightarrow> j = Suc i \<Longrightarrow> p ! i # take b (drop j p) = take (Suc b) (drop i p)"
  "i < length p \<Longrightarrow> j = Suc i \<Longrightarrow> p ! i # take b (drop j p) @ zs = take (Suc b) (drop i p) @ zs"
  "j = a \<Longrightarrow> take a p @ take b (drop j p) = take (a + b) p"
  "j = a \<Longrightarrow> take a p @ take b (drop j p) @ zs = take (a + b) p @ zs"
  "j = i + a \<Longrightarrow> take a (drop i p) @ drop j p = drop i p"
  "i < length p \<Longrightarrow> j = Suc i \<Longrightarrow> p ! i # drop j p = drop i p"
  "Suc i = length p \<Longrightarrow> [p ! i] = drop i p"
  using append_take_drop_id [of a "drop i p"]
  by (simp_all add: take_take_drop take_add Cons_nth_drop_Suc add.commute) (simp_all add: Cons_nth_drop_Suc [symmetric])

end
