(* ===== verification/Flat_Hash_Map.thy ===== *)
theory Flat_Hash_Map
  imports Prelude
begin

text \<open>
  \<^verbatim>\<open>core/flat_hash_map.hpp\<close>: the open-addressing hash table with linear probing and backward-shift
  deletion behind the order table of the books, the id and token indexes of the order manager and
  the token index of the simulator.

  A \<^verbatim>\<open>Slot\<close> is \<^term>\<open>Some (key, value)\<close> when \<^verbatim>\<open>used\<close> is set and \<^term>\<open>None\<close> otherwise (the key and
  value of an unused slot are never read). The two loops of the class (the probe run and the backward
  shift) have no bound in the code, so they are partial functions: \<^term>\<open>None\<close> is a loop that never
  ends. \<open>fhm_probe_returns\<close> and \<open>fhm_shift_correct\<close> show that this cannot happen on a table that
  satisfies \<open>fhm_inv\<close>; every operation keeps \<open>fhm_inv\<close>.

  The interface the rest of the program relies on is the locale \<open>bounded_map\<close>, a finite map of
  bounded size; the interpretation \<open>fhm\<close> discharges its laws for the table.
\<close>

section \<open>mix64 and Hash\<close>

definition mix64 :: "u64 \<Rightarrow> u64" where
  "mix64 x0 =
     (let x = x0 + 0x9E3779B97F4A7C15;
          x = (x XOR drop_bit 30 x) * 0xBF58476D1CE4E5B9;
          x = (x XOR drop_bit 27 x) * 0x94D049BB133111EB
      in x XOR drop_bit 31 x)"

definition Hash_u64 :: "u64 \<Rightarrow> u64" where
  "Hash_u64 k = mix64 k"

text \<open>
  \<^verbatim>\<open>memcpy\<close> of the eight bytes into a \<^verbatim>\<open>uint64_t\<close>, first byte least significant (the platforms the
  project targets are little endian). The value only chooses a slot: no result depends on it.
\<close>

definition Hash_Symbol :: "Symbol \<Rightarrow> u64" where
  "Hash_Symbol s = mix64 (horner_sum ucast 256 (take 8 s))"

section \<open>The table\<close>

type_synonym ('k, 'v) fhm_slot = "('k \<times> 'v) option"

record ('k, 'v) fhm =
  fhm_max :: nat
  fhm_mask :: nat
  fhm_size :: nat
  fhm_slots :: "('k, 'v) fhm_slot list"

text \<open>\<^term>\<open>None\<close> is the \<^verbatim>\<open>std::length_error\<close> of the constructor.\<close>

definition fhm_table_size :: "nat \<Rightarrow> nat option" where
  "fhm_table_size max_elements =
     (if max_elements > 2 ^ 62 then None else Some (bit_ceil (max (max_elements * 2) 8)))"

definition fhm_new :: "nat \<Rightarrow> ('k, 'v) fhm option" where
  "fhm_new max_elements = do {
     n \<leftarrow> fhm_table_size max_elements;
     Some \<lparr>fhm_max = max_elements, fhm_mask = n - 1, fhm_size = 0, fhm_slots = replicate n None\<rparr> }"

definition fhm_home :: "('k \<Rightarrow> u64) \<Rightarrow> nat \<Rightarrow> 'k \<Rightarrow> nat" where
  "fhm_home h m k = unat (h k) AND m"

partial_function (option) fhm_probe_from ::
  "('k, 'v) fhm_slot list \<Rightarrow> nat \<Rightarrow> 'k \<Rightarrow> nat \<Rightarrow> nat option" where
  "fhm_probe_from s m k i =
     (case s ! i of
        None \<Rightarrow> Some i
      | Some (k', _) \<Rightarrow> if k' = k then Some i else fhm_probe_from s m k ((i + 1) AND m))"

definition fhm_probe :: "('k \<Rightarrow> u64) \<Rightarrow> ('k, 'v) fhm \<Rightarrow> 'k \<Rightarrow> nat option" where
  "fhm_probe h t k = fhm_probe_from (fhm_slots t) (fhm_mask t) k (fhm_home h (fhm_mask t) k)"

definition fhm_find :: "('k \<Rightarrow> u64) \<Rightarrow> ('k, 'v) fhm \<Rightarrow> 'k \<Rightarrow> 'v option" where
  "fhm_find h t k = map_option snd (fhm_slots t ! the (fhm_probe h t k))"

text \<open>The pair that \<^verbatim>\<open>insert\<close> returns: the value pointed to, if any, and whether it was inserted.\<close>

definition fhm_insert ::
  "('k \<Rightarrow> u64) \<Rightarrow> ('k, 'v) fhm \<Rightarrow> 'k \<Rightarrow> 'v \<Rightarrow> ('k, 'v) fhm \<times> ('v option \<times> bool)" where
  "fhm_insert h t k v =
     (let i = the (fhm_probe h t k) in
      case fhm_slots t ! i of
        Some (_, old) \<Rightarrow> (t, (Some old, False))
      | None \<Rightarrow>
          if fhm_max t \<le> fhm_size t then (t, (None, False))
          else (t\<lparr>fhm_slots := (fhm_slots t)[i := Some (k, v)], fhm_size := fhm_size t + 1\<rparr>,
                (Some v, True)))"

text \<open>An assignment through the pointer that \<^verbatim>\<open>find\<close> returned (no effect on a null pointer).\<close>

definition fhm_store :: "('k \<Rightarrow> u64) \<Rightarrow> ('k, 'v) fhm \<Rightarrow> 'k \<Rightarrow> 'v \<Rightarrow> ('k, 'v) fhm" where
  "fhm_store h t k v =
     (let i = the (fhm_probe h t k) in
      case fhm_slots t ! i of
        None \<Rightarrow> t
      | Some (k', _) \<Rightarrow> t\<lparr>fhm_slots := (fhm_slots t)[i := Some (k', v)]\<rparr>)"

text \<open>The loop of \<^verbatim>\<open>erase\<close>: the slots and the final hole.\<close>

definition fhm_stays :: "nat \<Rightarrow> nat \<Rightarrow> nat \<Rightarrow> bool" where
  "fhm_stays hole j k = (if hole \<le> j then hole < k \<and> k \<le> j else hole < k \<or> k \<le> j)"

partial_function (option) fhm_shift ::
  "('k \<Rightarrow> u64) \<Rightarrow> nat \<Rightarrow> ('k, 'v) fhm_slot list \<Rightarrow> nat \<Rightarrow> nat \<Rightarrow> (('k, 'v) fhm_slot list \<times> nat) option" where
  "fhm_shift h m s hole j0 =
     (let j = (j0 + 1) AND m in
      case s ! j of
        None \<Rightarrow> Some (s, hole)
      | Some (k', _) \<Rightarrow>
          if fhm_stays hole j (fhm_home h m k') then fhm_shift h m s hole j
          else fhm_shift h m (s[hole := s ! j]) j j)"

definition fhm_erase :: "('k \<Rightarrow> u64) \<Rightarrow> ('k, 'v) fhm \<Rightarrow> 'k \<Rightarrow> ('k, 'v) fhm \<times> bool" where
  "fhm_erase h t k =
     (let hole = the (fhm_probe h t k) in
      case fhm_slots t ! hole of
        None \<Rightarrow> (t, False)
      | Some _ \<Rightarrow>
          (let (s, hole') = the (fhm_shift h (fhm_mask t) (fhm_slots t) hole hole)
           in (t\<lparr>fhm_slots := s[hole' := None], fhm_size := fhm_size t - 1\<rparr>, True)))"

definition fhm_clear :: "('k, 'v) fhm \<Rightarrow> ('k, 'v) fhm" where
  "fhm_clear t = t\<lparr>fhm_slots := map (\<lambda>_. None) (fhm_slots t), fhm_size := 0\<rparr>"

text \<open>The entries \<^verbatim>\<open>for_each\<close> visits, in table order.\<close>

definition fhm_entries :: "('k, 'v) fhm \<Rightarrow> ('k \<times> 'v) list" where
  "fhm_entries t = List.map_filter (\<lambda>x. x) (fhm_slots t)"

section \<open>Cyclic distance\<close>

definition cdist :: "nat \<Rightarrow> nat \<Rightarrow> nat \<Rightarrow> nat" where
  "cdist n a b = (if a \<le> b then b - a else b + n - a)"

definition cnext :: "nat \<Rightarrow> nat \<Rightarrow> nat" where
  "cnext n a = (if a + 1 = n then 0 else a + 1)"

lemma cnext_less: "a < n \<Longrightarrow> cnext n a < n"
  by (auto simp: cnext_def)

lemma and_mask_cnext: "n = 2 ^ e \<Longrightarrow> a < n \<Longrightarrow> (a + 1) AND (n - 1) = cnext n a"
  by (auto simp: cnext_def)

lemma cdist_self [simp]: "cdist n a a = 0"
  by (simp add: cdist_def)

lemma cdist_eq_0_iff: "a < n \<Longrightarrow> b < n \<Longrightarrow> cdist n a b = 0 \<longleftrightarrow> a = b"
  by (auto simp: cdist_def)

lemma cdist_less: "a < n \<Longrightarrow> b < n \<Longrightarrow> cdist n a b < n"
  by (auto simp: cdist_def)

lemma cdist_cnext: "a < n \<Longrightarrow> b < n \<Longrightarrow> a \<noteq> b \<Longrightarrow> Suc (cdist n (cnext n a) b) = cdist n a b"
  by (auto simp: cdist_def cnext_def split: if_splits)

lemma cdist_to_cnext:
  "a < n \<Longrightarrow> b < n \<Longrightarrow> cnext n b \<noteq> a \<Longrightarrow> cdist n a (cnext n b) = Suc (cdist n a b)"
  by (auto simp: cdist_def cnext_def split: if_splits)

lemma cdist_between:
  "a < n \<Longrightarrow> b < n \<Longrightarrow> c < n \<Longrightarrow> cdist n a b \<le> cdist n a c \<Longrightarrow> cdist n a c = cdist n a b + cdist n b c"
  by (auto simp: cdist_def split: if_splits)

lemma fhm_stays_iff:
  "hole < n \<Longrightarrow> j < n \<Longrightarrow> k < n \<Longrightarrow> hole \<noteq> j \<Longrightarrow> fhm_stays hole j k \<longleftrightarrow> cdist n k j < cdist n hole j"
  by (auto simp: fhm_stays_def cdist_def split: if_splits)

section \<open>The table invariant\<close>

definition slot_key :: "('k, 'v) fhm_slot list \<Rightarrow> nat \<Rightarrow> 'k" where
  "slot_key s i = fst (the (s ! i))"

definition keys_distinct :: "('k, 'v) fhm_slot list \<Rightarrow> bool" where
  "keys_distinct s = (\<forall>i < length s. \<forall>j < length s.
     s ! i \<noteq> None \<longrightarrow> s ! j \<noteq> None \<longrightarrow> slot_key s i = slot_key s j \<longrightarrow> i = j)"

text \<open>No unused slot lies on the probe run from an entry's home slot to the entry.\<close>

definition run_full :: "('k \<Rightarrow> u64) \<Rightarrow> nat \<Rightarrow> ('k, 'v) fhm_slot list \<Rightarrow> nat \<Rightarrow> bool" where
  "run_full h m s i = (\<forall>q < length s.
     cdist (length s) (fhm_home h m (slot_key s i)) q < cdist (length s) (fhm_home h m (slot_key s i)) i
       \<longrightarrow> s ! q \<noteq> None)"

definition count_used :: "('k, 'v) fhm_slot list \<Rightarrow> nat" where
  "count_used s = card {i. i < length s \<and> s ! i \<noteq> None}"

definition fhm_inv :: "('k \<Rightarrow> u64) \<Rightarrow> ('k, 'v) fhm \<Rightarrow> bool" where
  "fhm_inv h t = (let s = fhm_slots t; n = length s in
     (\<exists>e. n = 2 ^ e) \<and> fhm_mask t = n - 1 \<and> 2 * fhm_max t \<le> n \<and> 8 \<le> n
     \<and> fhm_size t = count_used s \<and> fhm_size t \<le> fhm_max t
     \<and> keys_distinct s \<and> (\<forall>i < n. s ! i \<noteq> None \<longrightarrow> run_full h (fhm_mask t) s i))"

lemma fhm_home_less: "n = 2 ^ e \<Longrightarrow> fhm_home h (n - 1) k < n"
  by (simp add: fhm_home_def)

lemma count_used_finite [simp]: "finite {i. i < length s \<and> s ! i \<noteq> None}"
  by simp

lemma count_used_upd_None:
  assumes "i < length s" "s ! i = None" "x \<noteq> None"
  shows "count_used (s[i := x]) = Suc (count_used s)"
proof -
  have "{j. j < length (s[i := x]) \<and> s[i := x] ! j \<noteq> None} = insert i {j. j < length s \<and> s ! j \<noteq> None}"
    using assms by (auto simp: nth_list_update)
  then show ?thesis using assms by (simp add: count_used_def)
qed

lemma count_used_upd_Some:
  assumes "i < length s" "s ! i \<noteq> None" "x \<noteq> None"
  shows "count_used (s[i := x]) = count_used s"
proof -
  have "{j. j < length (s[i := x]) \<and> s[i := x] ! j \<noteq> None} = {j. j < length s \<and> s ! j \<noteq> None}"
    using assms by (auto simp: nth_list_update)
  then show ?thesis by (simp add: count_used_def)
qed

lemma count_used_clear_slot:
  assumes "i < length s" "s ! i \<noteq> None"
  shows "Suc (count_used (s[i := None])) = count_used s"
proof -
  have "count_used s = count_used ((s[i := None])[i := s ! i])" by simp
  also have "\<dots> = Suc (count_used (s[i := None]))"
    using assms by (intro count_used_upd_None) auto
  finally show ?thesis by simp
qed

lemma exists_unused:
  assumes "count_used s < length s"
  shows "\<exists>e < length s. s ! e = None"
proof (rule ccontr)
  assume "\<not> ?thesis"
  then have "{i. i < length s \<and> s ! i \<noteq> None} = {..<length s}" by auto
  with assms show False by (simp add: count_used_def)
qed

lemma fhm_invD:
  assumes "fhm_inv h t"
  obtains e where "length (fhm_slots t) = 2 ^ e" "fhm_mask t = length (fhm_slots t) - 1"
    "2 * fhm_max t \<le> length (fhm_slots t)" "8 \<le> length (fhm_slots t)"
    "fhm_size t = count_used (fhm_slots t)" "fhm_size t \<le> fhm_max t"
    "keys_distinct (fhm_slots t)"
    "\<And>i. i < length (fhm_slots t) \<Longrightarrow> fhm_slots t ! i \<noteq> None \<Longrightarrow> run_full h (fhm_mask t) (fhm_slots t) i"
  using assms by (auto simp: fhm_inv_def Let_def)

lemma fhm_inv_unused:
  assumes "fhm_inv h t"
  shows "\<exists>e < length (fhm_slots t). fhm_slots t ! e = None"
  using assms by (elim fhm_invD, intro exists_unused) linarith

section \<open>The probe run\<close>

lemma fhm_probe_from_eq:
  assumes "length s = 2 ^ e" "i < length s" "t < length s"
    and stop: "s ! t = None \<or> slot_key s t = k"
    and go: "\<And>q. q < length s \<Longrightarrow> cdist (length s) i q < cdist (length s) i t
               \<Longrightarrow> s ! q \<noteq> None \<and> slot_key s q \<noteq> k"
  shows "fhm_probe_from s (length s - 1) k i = Some t"
  using assms(2) go
proof (induction "cdist (length s) i t" arbitrary: i)
  case 0
  then have "i = t" using assms(3) by (simp add: cdist_eq_0_iff)
  with stop show ?case
    by (subst fhm_probe_from.simps) (auto simp: slot_key_def split: option.splits)
next
  case (Suc d)
  then have neq: "i \<noteq> t" by auto
  have here: "s ! i \<noteq> None" "slot_key s i \<noteq> k"
    using Suc.prems(2) [of i] Suc.hyps(2) Suc.prems(1) by auto
  have step: "(i + 1) AND (length s - 1) = cnext (length s) i"
    using assms(1) Suc.prems(1) by (rule and_mask_cnext)
  have d: "d = cdist (length s) (cnext (length s) i) t"
    using cdist_cnext [OF Suc.prems(1) assms(3) neq] Suc.hyps(2) by simp
  have "fhm_probe_from s (length s - 1) k (cnext (length s) i) = Some t"
  proof (rule Suc.hyps(1) [OF d])
    show "cnext (length s) i < length s" using Suc.prems(1) by (rule cnext_less)
    fix q assume q: "q < length s" "cdist (length s) (cnext (length s) i) q < cdist (length s) (cnext (length s) i) t"
    show "s ! q \<noteq> None \<and> slot_key s q \<noteq> k"
    proof (cases "q = i")
      case True then show ?thesis using here by simp
    next
      case False
      then have "cdist (length s) i q < cdist (length s) i t"
        using cdist_cnext [OF Suc.prems(1) q(1)] cdist_cnext [OF Suc.prems(1) assms(3) neq] q(2) by simp
      with q(1) show ?thesis by (rule Suc.prems(2))
    qed
  qed
  then show ?case
    using here step by (subst fhm_probe_from.simps) (auto simp: slot_key_def)
qed

lemma nearest_unused:
  assumes "\<exists>e < n. P e" "a < n"
  shows "\<exists>t < n. P t \<and> (\<forall>q < n. cdist n a q < cdist n a t \<longrightarrow> \<not> P q)"
proof -
  obtain t where "t < n \<and> P t" "\<And>q. q < n \<and> P q \<Longrightarrow> cdist n a t \<le> cdist n a q"
    using assms ex_has_least_nat [of "\<lambda>x. x < n \<and> P x" _ "cdist n a"] by blast
  then show ?thesis by (metis not_le)
qed

text \<open>The probe of a present key ends at its slot, that of an absent key at an unused slot.\<close>

lemma fhm_probe_present:
  assumes inv: "fhm_inv h t" and i: "i < length (fhm_slots t)" "fhm_slots t ! i = Some (k, v)"
  shows "fhm_probe h t k = Some i"
proof -
  let ?s = "fhm_slots t"
  from inv obtain e where e: "length ?s = 2 ^ e" "fhm_mask t = length ?s - 1" "keys_distinct ?s"
    and run: "run_full h (fhm_mask t) ?s i" using i by (elim fhm_invD) auto
  have key: "slot_key ?s i = k" using i by (simp add: slot_key_def)
  have hm: "fhm_home h (fhm_mask t) k < length ?s" unfolding e(2) using e(1) by (rule fhm_home_less)
  show ?thesis unfolding fhm_probe_def e(2)
  proof (rule fhm_probe_from_eq [OF e(1) hm [unfolded e(2)] i(1)])
    show "?s ! i = None \<or> slot_key ?s i = k" using key by simp
    fix q assume q: "q < length ?s"
      "cdist (length ?s) (fhm_home h (length ?s - 1) k) q < cdist (length ?s) (fhm_home h (length ?s - 1) k) i"
    then have used: "?s ! q \<noteq> None" using run key e(2) by (simp add: run_full_def)
    have "q \<noteq> i" using q by auto
    then have "slot_key ?s q \<noteq> k"
      using e(3) used q(1) i key unfolding keys_distinct_def by (metis option.distinct(1))
    with used show "?s ! q \<noteq> None \<and> slot_key ?s q \<noteq> k" by simp
  qed
qed

lemma fhm_probe_absent:
  assumes inv: "fhm_inv h t" and abs: "\<And>i. i < length (fhm_slots t) \<Longrightarrow> fhm_slots t ! i \<noteq> None \<Longrightarrow> slot_key (fhm_slots t) i \<noteq> k"
  obtains i where "fhm_probe h t k = Some i" "i < length (fhm_slots t)" "fhm_slots t ! i = None"
    "\<And>q. q < length (fhm_slots t) \<Longrightarrow>
       cdist (length (fhm_slots t)) (fhm_home h (fhm_mask t) k) q < cdist (length (fhm_slots t)) (fhm_home h (fhm_mask t) k) i
       \<Longrightarrow> fhm_slots t ! q \<noteq> None"
proof -
  let ?s = "fhm_slots t"
  from inv obtain e where e: "length ?s = 2 ^ e" "fhm_mask t = length ?s - 1" by (elim fhm_invD)
  have hm: "fhm_home h (fhm_mask t) k < length ?s" unfolding e(2) using e(1) by (rule fhm_home_less)
  from nearest_unused [OF fhm_inv_unused [OF inv] hm] obtain i where
    i: "i < length ?s" "?s ! i = None" and near: "\<And>q. q < length ?s \<Longrightarrow>
       cdist (length ?s) (fhm_home h (fhm_mask t) k) q < cdist (length ?s) (fhm_home h (fhm_mask t) k) i \<Longrightarrow> ?s ! q \<noteq> None"
    by blast
  have "fhm_probe h t k = Some i" unfolding fhm_probe_def e(2)
    by (rule fhm_probe_from_eq [OF e(1) hm [unfolded e(2)] i(1)]) (use i near abs e(2) in auto)
  with i near show ?thesis by (intro that) auto
qed

section \<open>The table as a finite map\<close>

definition slots_map :: "('k, 'v) fhm_slot list \<Rightarrow> 'k \<rightharpoonup> 'v" where
  "slots_map s = map_of (List.map_filter (\<lambda>x. x) s)"

definition fhm_map :: "('k, 'v) fhm \<Rightarrow> 'k \<rightharpoonup> 'v" where
  "fhm_map t = slots_map (fhm_slots t)"

lemma keys_distinct_pairs:
  assumes "keys_distinct s" "Some (k, v) \<in> set s" "Some (k, v') \<in> set s"
  shows "v = v'"
  using assms unfolding keys_distinct_def in_set_conv_nth slot_key_def
  by (metis Pair_inject fst_conv option.distinct(1) option.inject option.sel)

lemma slots_map_Some_iff:
  assumes "keys_distinct s"
  shows "slots_map s k = Some v \<longleftrightarrow> Some (k, v) \<in> set s"
proof
  assume "slots_map s k = Some v"
  then show "Some (k, v) \<in> set s"
    by (auto simp: slots_map_def List.map_filter_def dest!: map_of_SomeD)
next
  assume a: "Some (k, v) \<in> set s"
  then have "(k, v) \<in> set (List.map_filter (\<lambda>x. x) s)" by (force simp: List.map_filter_def)
  then obtain v' where v': "slots_map s k = Some v'"
    unfolding slots_map_def by (metis weak_map_of_SomeI)
  then have "Some (k, v') \<in> set s"
    by (auto simp: slots_map_def List.map_filter_def dest!: map_of_SomeD)
  with assms a v' show "slots_map s k = Some v" by (metis keys_distinct_pairs)
qed

lemma slots_map_None_iff:
  "slots_map s k = None \<longleftrightarrow> (\<forall>i < length s. s ! i \<noteq> None \<longrightarrow> slot_key s i \<noteq> k)"
  by (force simp: slots_map_def map_of_eq_None_iff List.map_filter_def slot_key_def in_set_conv_nth)

lemma dom_slots_map: "dom (slots_map s) = fst ` {x. Some x \<in> set s}"
  by (force simp: slots_map_def dom_map_of_conv_image_fst List.map_filter_def)

lemma card_dom_slots_map:
  assumes "keys_distinct s"
  shows "card (dom (slots_map s)) = count_used s" "finite (dom (slots_map s))"
proof -
  have "bij_betw (slot_key s) {i. i < length s \<and> s ! i \<noteq> None} (dom (slots_map s))"
  proof (rule bij_betw_imageI)
    show "inj_on (slot_key s) {i. i < length s \<and> s ! i \<noteq> None}"
      using assms by (auto simp: inj_on_def keys_distinct_def)
    show "slot_key s ` {i. i < length s \<and> s ! i \<noteq> None} = dom (slots_map s)"
    proof -
      have "{x. Some x \<in> set s} = (\<lambda>i. the (s ! i)) ` {i. i < length s \<and> s ! i \<noteq> None}"
        by (force simp: in_set_conv_nth)
      then show ?thesis by (simp add: dom_slots_map slot_key_def image_image)
    qed
  qed
  then show "card (dom (slots_map s)) = count_used s"
    by (metis bij_betw_same_card count_used_def)
  show "finite (dom (slots_map s))" by (simp add: slots_map_def finite_dom_map_of)
qed

lemma fhm_map_inv: "fhm_inv h t \<Longrightarrow> fhm_map t k = Some v \<longleftrightarrow> Some (k, v) \<in> set (fhm_slots t)"
  by (elim fhm_invD) (simp add: fhm_map_def slots_map_Some_iff)

text \<open>The loop of \<^verbatim>\<open>probe\<close> ends for every key, and inside the table.\<close>

lemma fhm_probe_returns:
  assumes "fhm_inv h t"
  shows "\<exists>i < length (fhm_slots t). fhm_probe h t k = Some i"
proof (cases "fhm_map t k")
  case None
  then have "\<And>i. i < length (fhm_slots t) \<Longrightarrow> fhm_slots t ! i \<noteq> None \<Longrightarrow> slot_key (fhm_slots t) i \<noteq> k"
    by (simp add: fhm_map_def slots_map_None_iff)
  from fhm_probe_absent [OF assms this] show ?thesis by metis
next
  case (Some v)
  then obtain i where "i < length (fhm_slots t)" "fhm_slots t ! i = Some (k, v)"
    using assms by (auto simp: fhm_map_inv in_set_conv_nth)
  with fhm_probe_present [OF assms] show ?thesis by metis
qed

lemma fhm_probe_Some:
  assumes "fhm_inv h t" "fhm_map t k = Some v"
  obtains i where "fhm_probe h t k = Some i" "i < length (fhm_slots t)" "fhm_slots t ! i = Some (k, v)"
  using assms fhm_probe_present [OF assms(1)] by (auto simp: fhm_map_inv in_set_conv_nth)

lemma fhm_probe_None:
  assumes "fhm_inv h t" "fhm_map t k = None"
  obtains i where "fhm_probe h t k = Some i" "i < length (fhm_slots t)" "fhm_slots t ! i = None"
    "\<And>q. q < length (fhm_slots t) \<Longrightarrow>
       cdist (length (fhm_slots t)) (fhm_home h (fhm_mask t) k) q < cdist (length (fhm_slots t)) (fhm_home h (fhm_mask t) k) i
       \<Longrightarrow> fhm_slots t ! q \<noteq> None"
proof -
  have "\<And>i. i < length (fhm_slots t) \<Longrightarrow> fhm_slots t ! i \<noteq> None \<Longrightarrow> slot_key (fhm_slots t) i \<noteq> k"
    using assms(2) by (simp add: fhm_map_def slots_map_None_iff)
  then show ?thesis by (rule fhm_probe_absent [OF assms(1)]) (use that in blast)+
qed

lemma fhm_find_map:
  assumes inv: "fhm_inv h t"
  shows "fhm_find h t k = fhm_map t k"
proof (cases "fhm_map t k")
  case None
  show ?thesis by (rule fhm_probe_None [OF inv None]) (simp add: fhm_find_def None)
next
  case (Some v)
  show ?thesis by (rule fhm_probe_Some [OF inv Some]) (simp add: fhm_find_def Some)
qed

lemma fhm_size_card: "fhm_inv h t \<Longrightarrow> fhm_size t = card (dom (fhm_map t)) \<and> finite (dom (fhm_map t))"
  by (elim fhm_invD) (simp add: fhm_map_def card_dom_slots_map)

lemma slots_map_updI:
  assumes "keys_distinct s" "keys_distinct s'"
    and "\<And>x. Some x \<in> set s' \<longleftrightarrow> x = (k, v) \<or> (Some x \<in> set s \<and> fst x \<noteq> k)"
  shows "slots_map s' = (slots_map s)(k \<mapsto> v)"
proof
  fix j
  have "slots_map s' j = Some w \<longleftrightarrow> ((slots_map s)(k \<mapsto> v)) j = Some w" for w
    using assms by (auto simp: slots_map_Some_iff)
  then show "slots_map s' j = ((slots_map s)(k \<mapsto> v)) j" by (metis not_Some_eq)
qed

lemma slots_map_delI:
  assumes "keys_distinct s" "keys_distinct s'"
    and "\<And>x. Some x \<in> set s' \<longleftrightarrow> Some x \<in> set s \<and> fst x \<noteq> k"
  shows "slots_map s' = (slots_map s)(k := None)"
proof
  fix j
  have "slots_map s' j = Some w \<longleftrightarrow> ((slots_map s)(k := None)) j = Some w" for w
    using assms by (auto simp: slots_map_Some_iff)
  then show "slots_map s' j = ((slots_map s)(k := None)) j" by (metis not_Some_eq)
qed

lemma set_update_nth:
  "i < length s \<Longrightarrow> x \<in> set (s[i := y]) \<longleftrightarrow> x = y \<or> (\<exists>j < length s. j \<noteq> i \<and> s ! j = x)"
  by (auto simp: in_set_conv_nth nth_list_update)

lemma set_update_pairs:
  assumes "i < length s" "s ! i = None \<or> slot_key s i = k"
    and other: "\<And>j. j < length s \<Longrightarrow> j \<noteq> i \<Longrightarrow> s ! j \<noteq> None \<Longrightarrow> slot_key s j \<noteq> k"
  shows "Some x \<in> set (s[i := Some (k, v)]) \<longleftrightarrow> x = (k, v) \<or> (Some x \<in> set s \<and> fst x \<noteq> k)"
proof
  assume "Some x \<in> set (s[i := Some (k, v)])"
  then consider "x = (k, v)" | j where "j < length s" "j \<noteq> i" "s ! j = Some x"
    using assms(1) by (auto simp: set_update_nth)
  then show "x = (k, v) \<or> (Some x \<in> set s \<and> fst x \<noteq> k)"
  proof cases
    case 2
    then have "slot_key s j \<noteq> k" using other by simp
    with 2 show ?thesis by (auto simp: slot_key_def in_set_conv_nth)
  qed simp
next
  assume "x = (k, v) \<or> (Some x \<in> set s \<and> fst x \<noteq> k)"
  then consider "x = (k, v)" | j where "j < length s" "s ! j = Some x" "fst x \<noteq> k"
    by (auto simp: in_set_conv_nth)
  then show "Some x \<in> set (s[i := Some (k, v)])"
  proof cases
    case 2
    then have "j \<noteq> i" using assms(2) by (auto simp: slot_key_def)
    with 2 assms(1) show ?thesis by (auto simp: set_update_nth)
  qed (simp add: assms(1) set_update_nth)
qed

lemma set_clear_pairs:
  assumes kd: "keys_distinct s" and i: "i < length s" "s ! i \<noteq> None" "slot_key s i = k"
  shows "Some x \<in> set (s[i := None]) \<longleftrightarrow> Some x \<in> set s \<and> fst x \<noteq> k"
proof
  assume "Some x \<in> set (s[i := None])"
  then obtain j where j: "j < length s" "j \<noteq> i" "s ! j = Some x" using i(1) by (auto simp: set_update_nth)
  then have "slot_key s j \<noteq> slot_key s i" using kd i unfolding keys_distinct_def by (metis option.distinct(1))
  with j i(3) show "Some x \<in> set s \<and> fst x \<noteq> k" by (auto simp: slot_key_def in_set_conv_nth)
next
  assume "Some x \<in> set s \<and> fst x \<noteq> k"
  then obtain j where j: "j < length s" "s ! j = Some x" "fst x \<noteq> k" by (auto simp: in_set_conv_nth)
  then have "j \<noteq> i" using i(3) by (auto simp: slot_key_def)
  with j i(1) show "Some x \<in> set (s[i := None])" by (auto simp: set_update_nth)
qed

section \<open>insert and store\<close>

lemma fhm_insert_present:
  assumes "fhm_inv h t" "fhm_map t k = Some old"
  shows "fhm_insert h t k v = (t, (Some old, False))"
  by (rule fhm_probe_Some [OF assms]) (simp add: fhm_insert_def)

lemma fhm_insert_full:
  assumes "fhm_inv h t" "fhm_map t k = None" "fhm_max t \<le> fhm_size t"
  shows "fhm_insert h t k v = (t, (None, False))"
  by (rule fhm_probe_None [OF assms(1,2)]) (simp add: fhm_insert_def assms(3))

lemma fhm_inv_slot_update:
  assumes inv: "fhm_inv h t" and i: "i < length (fhm_slots t)"
    and other: "\<And>j. j < length (fhm_slots t) \<Longrightarrow> j \<noteq> i \<Longrightarrow> fhm_slots t ! j \<noteq> None \<Longrightarrow> slot_key (fhm_slots t) j \<noteq> k"
    and run: "\<And>q. q < length (fhm_slots t) \<Longrightarrow>
       cdist (length (fhm_slots t)) (fhm_home h (fhm_mask t) k) q < cdist (length (fhm_slots t)) (fhm_home h (fhm_mask t) k) i
       \<Longrightarrow> fhm_slots t ! q \<noteq> None"
    and sz: "n = count_used ((fhm_slots t)[i := Some (k, v)])" "n \<le> fhm_max t"
  shows "fhm_inv h (t\<lparr>fhm_slots := (fhm_slots t)[i := Some (k, v)], fhm_size := n\<rparr>)"
    and "keys_distinct ((fhm_slots t)[i := Some (k, v)])"
proof -
  let ?s = "fhm_slots t" and ?s' = "(fhm_slots t)[i := Some (k, v)]"
  have key: "slot_key ?s' j = (if j = i then k else slot_key ?s j)" if "j < length ?s" for j
    using i that by (simp add: slot_key_def nth_list_update)
  from inv have kd: "keys_distinct ?s" by (elim fhm_invD)
  then show kd': "keys_distinct ?s'"
    unfolding keys_distinct_def using other by (auto simp: key nth_list_update) metis+
  have runs: "run_full h (fhm_mask t) ?s' j" if j: "j < length ?s" "?s' ! j \<noteq> None" for j
  proof (cases "j = i")
    case True
    then show ?thesis using run i by (auto simp: run_full_def key nth_list_update)
  next
    case False
    then have "run_full h (fhm_mask t) ?s j" using inv j by (elim fhm_invD) (auto simp: nth_list_update)
    then have "?s' ! q \<noteq> None" if "q < length ?s" "cdist (length ?s) (fhm_home h (fhm_mask t) (slot_key ?s j)) q
        < cdist (length ?s) (fhm_home h (fhm_mask t) (slot_key ?s j)) j" for q
      using that i by (simp add: run_full_def nth_list_update)
    then show ?thesis using False j by (simp add: run_full_def key)
  qed
  show "fhm_inv h (t\<lparr>fhm_slots := ?s', fhm_size := n\<rparr>)"
    using inv kd' runs sz by (auto simp: fhm_inv_def Let_def)
qed

lemma fhm_insert_new:
  assumes inv: "fhm_inv h t" and new: "fhm_map t k = None" and room: "fhm_size t < fhm_max t"
  obtains t' where "fhm_insert h t k v = (t', (Some v, True))" "fhm_inv h t'"
    "fhm_map t' = (fhm_map t)(k \<mapsto> v)" "fhm_size t' = fhm_size t + 1" "fhm_max t' = fhm_max t"
proof (rule fhm_probe_None [OF inv new])
  let ?s = "fhm_slots t"
  fix i
  assume i: "fhm_probe h t k = Some i" "i < length ?s" "?s ! i = None"
    and run: "\<And>q. q < length ?s \<Longrightarrow> cdist (length ?s) (fhm_home h (fhm_mask t) k) q
        < cdist (length ?s) (fhm_home h (fhm_mask t) k) i \<Longrightarrow> ?s ! q \<noteq> None"
  let ?t = "t\<lparr>fhm_slots := ?s[i := Some (k, v)], fhm_size := fhm_size t + 1\<rparr>"
  have other: "\<And>j. j < length ?s \<Longrightarrow> j \<noteq> i \<Longrightarrow> ?s ! j \<noteq> None \<Longrightarrow> slot_key ?s j \<noteq> k"
    using new by (simp add: fhm_map_def slots_map_None_iff)
  have cnt: "fhm_size t = count_used ?s" using inv by (elim fhm_invD)
  have sz: "fhm_size t + 1 = count_used (?s[i := Some (k, v)])"
    using count_used_upd_None [of i ?s "Some (k, v)"] i cnt by simp
  note upd = fhm_inv_slot_update [OF inv i(2) other run sz]
  have kd: "keys_distinct ?s" using inv by (elim fhm_invD)
  have "Some x \<in> set (?s[i := Some (k, v)]) \<longleftrightarrow> x = (k, v) \<or> (Some x \<in> set ?s \<and> fst x \<noteq> k)" for x
    using i other by (intro set_update_pairs) auto
  then have "slots_map (?s[i := Some (k, v)]) = (slots_map ?s)(k \<mapsto> v)"
    using kd upd(2) room by (intro slots_map_updI) auto
  then have "fhm_map ?t = (fhm_map t)(k \<mapsto> v)" by (simp add: fhm_map_def)
  moreover have "fhm_insert h t k v = (?t, (Some v, True))"
    using i room by (simp add: fhm_insert_def)
  ultimately show ?thesis using upd(1) room by (intro that [of ?t]) auto
qed

lemma fhm_store_spec:
  assumes inv: "fhm_inv h t" and old: "fhm_map t k = Some old"
  shows "fhm_inv h (fhm_store h t k v)" "fhm_map (fhm_store h t k v) = (fhm_map t)(k \<mapsto> v)"
    "fhm_size (fhm_store h t k v) = fhm_size t" "fhm_max (fhm_store h t k v) = fhm_max t"
proof -
  let ?s = "fhm_slots t"
  obtain i where i: "fhm_probe h t k = Some i" "i < length ?s" "?s ! i = Some (k, old)"
    using fhm_probe_Some [OF inv old] .
  have st: "fhm_store h t k v = t\<lparr>fhm_slots := ?s[i := Some (k, v)], fhm_size := fhm_size t\<rparr>"
    using i by (simp add: fhm_store_def)
  have kd: "keys_distinct ?s" and cnt: "fhm_size t = count_used ?s" "fhm_size t \<le> fhm_max t"
    and run: "run_full h (fhm_mask t) ?s i" using inv i by (auto elim: fhm_invD)
  have key: "slot_key ?s i = k" using i by (simp add: slot_key_def)
  have other: "\<And>j. j < length ?s \<Longrightarrow> j \<noteq> i \<Longrightarrow> ?s ! j \<noteq> None \<Longrightarrow> slot_key ?s j \<noteq> k"
    using kd i key unfolding keys_distinct_def by (metis option.distinct(1))
  have sz: "fhm_size t = count_used (?s[i := Some (k, v)])"
    using count_used_upd_Some [of i ?s "Some (k, v)"] i cnt by simp
  have run': "\<And>q. q < length ?s \<Longrightarrow> cdist (length ?s) (fhm_home h (fhm_mask t) k) q
      < cdist (length ?s) (fhm_home h (fhm_mask t) k) i \<Longrightarrow> ?s ! q \<noteq> None"
    using run key by (simp add: run_full_def)
  note upd = fhm_inv_slot_update [OF inv i(2) other run' sz cnt(2)]
  show "fhm_inv h (fhm_store h t k v)" unfolding st by (rule upd(1))
  have "Some x \<in> set (?s[i := Some (k, v)]) \<longleftrightarrow> x = (k, v) \<or> (Some x \<in> set ?s \<and> fst x \<noteq> k)" for x
    using i other key by (intro set_update_pairs) auto
  then show "fhm_map (fhm_store h t k v) = (fhm_map t)(k \<mapsto> v)"
    unfolding st fhm_map_def using kd upd(2) by (simp add: slots_map_updI)
  show "fhm_size (fhm_store h t k v) = fhm_size t" "fhm_max (fhm_store h t k v) = fhm_max t"
    by (simp_all add: st)
qed

section \<open>erase: the backward shift\<close>

lemma cdist_chain:
  "a < n \<Longrightarrow> b < n \<Longrightarrow> c < n \<Longrightarrow> d < n \<Longrightarrow> cdist n a b \<le> cdist n a d \<Longrightarrow> cdist n b c < cdist n b d
     \<Longrightarrow> cdist n a c < cdist n a d"
  by (auto simp: cdist_def split: if_splits)

lemma cdist_inj: "a < n \<Longrightarrow> b < n \<Longrightarrow> c < n \<Longrightarrow> cdist n a b = cdist n a c \<Longrightarrow> b = c"
  by (auto simp: cdist_def split: if_splits)

lemma cdist_full_turn: "a < n \<Longrightarrow> b < n \<Longrightarrow> cnext n b = a \<Longrightarrow> c < n \<Longrightarrow> cdist n a c \<le> cdist n a b"
  by (auto simp: cdist_def cnext_def split: if_splits)

lemma cdist_prefix:
  "a < n \<Longrightarrow> b < n \<Longrightarrow> c < n \<Longrightarrow> b \<noteq> c \<Longrightarrow> cdist n b c \<le> cdist n a c \<Longrightarrow> cdist n a b < cdist n a c"
  by (auto simp: cdist_def split: if_splits)

text \<open>
  Between two iterations: the slots from the hole to \<open>j\<close> are used, the entries other than the one in
  the hole have distinct keys and full probe runs, and the entries between the hole and \<open>j\<close> are
  reachable without passing the hole.
\<close>

definition shift_inv :: "('k \<Rightarrow> u64) \<Rightarrow> nat \<Rightarrow> ('k, 'v) fhm_slot list \<Rightarrow> nat \<Rightarrow> nat \<Rightarrow> bool" where
  "shift_inv h m s hole j = (let n = length s in
     hole < n \<and> j < n
     \<and> (\<forall>q < n. cdist n hole q \<le> cdist n hole j \<longrightarrow> s ! q \<noteq> None)
     \<and> keys_distinct (s[hole := None])
     \<and> (\<forall>i < n. i \<noteq> hole \<longrightarrow> s ! i \<noteq> None \<longrightarrow> run_full h m s i)
     \<and> (\<forall>i < n. i \<noteq> hole \<longrightarrow> s ! i \<noteq> None \<longrightarrow> cdist n hole i \<le> cdist n hole j
          \<longrightarrow> cdist n (fhm_home h m (slot_key s i)) i < cdist n hole i))"

definition shift_done :: "('k \<Rightarrow> u64) \<Rightarrow> nat \<Rightarrow> ('k, 'v) fhm_slot list \<Rightarrow> bool" where
  "shift_done h m s = (keys_distinct s \<and> (\<forall>i < length s. s ! i \<noteq> None \<longrightarrow> run_full h m s i))"

lemma shift_invD:
  assumes "shift_inv h m s hole j"
  shows "hole < length s" "j < length s"
    "\<And>q. q < length s \<Longrightarrow> cdist (length s) hole q \<le> cdist (length s) hole j \<Longrightarrow> s ! q \<noteq> None"
    "keys_distinct (s[hole := None])"
    "\<And>i. i < length s \<Longrightarrow> i \<noteq> hole \<Longrightarrow> s ! i \<noteq> None \<Longrightarrow> run_full h m s i"
    "\<And>i. i < length s \<Longrightarrow> i \<noteq> hole \<Longrightarrow> s ! i \<noteq> None \<Longrightarrow> cdist (length s) hole i \<le> cdist (length s) hole j
       \<Longrightarrow> cdist (length s) (fhm_home h m (slot_key s i)) i < cdist (length s) hole i"
  using assms by (auto simp: shift_inv_def Let_def)

lemma shift_inv_finish:
  assumes inv: "shift_inv h m s hole j" and m: "length s = 2 ^ x" "m = length s - 1"
    and stop: "s ! cnext (length s) j = None"
  shows "shift_done h m (s[hole := None])"
proof -
  let ?n = "length s" and ?jn = "cnext (length s) j"
  note I = shift_invD [OF inv]
  have jn: "?jn < ?n" "?jn \<noteq> hole" using I(1,2) I(3) [OF I(1)] stop cnext_less by auto
  have "run_full h m (s[hole := None]) i" if i: "i < ?n" "s[hole := None] ! i \<noteq> None" for i
  proof -
    have ih: "i \<noteq> hole" "s ! i \<noteq> None" using i I(1) by (auto simp: nth_list_update split: if_splits)
    let ?hm = "fhm_home h m (slot_key s i)"
    have hm: "?hm < ?n" using m fhm_home_less by metis
    have avoid: "\<not> cdist ?n ?hm hole < cdist ?n ?hm i"
    proof
      assume pass: "cdist ?n ?hm hole < cdist ?n ?hm i"
      then have split: "cdist ?n ?hm i = cdist ?n ?hm hole + cdist ?n hole i"
        using cdist_between [OF hm I(1) i(1)] by simp
      then have far: "\<not> cdist ?n hole i \<le> cdist ?n hole j" using I(6) [OF i(1) ih] by linarith
      have "cdist ?n hole ?jn = Suc (cdist ?n hole j)" using cdist_to_cnext I(1,2) jn(2) by simp
      moreover have "i \<noteq> ?jn" using stop ih(2) by auto
      ultimately have "cdist ?n hole ?jn < cdist ?n hole i"
        using far cdist_inj [OF I(1) i(1) jn(1)] by linarith
      then have "cdist ?n ?hm ?jn < cdist ?n ?hm i"
        using cdist_chain [OF hm I(1) jn(1) i(1)] pass by simp
      then show False using I(5) [OF i(1) ih] jn(1) stop unfolding run_full_def by blast
    qed
    have key: "slot_key (s[hole := None]) i = slot_key s i" using ih by (simp add: slot_key_def)
    have "s[hole := None] ! q \<noteq> None" if q: "q < ?n" "cdist ?n ?hm q < cdist ?n ?hm i" for q
    proof -
      have "q \<noteq> hole" using avoid q(2) by auto
      then show ?thesis using I(5) [OF i(1) ih] q by (simp add: run_full_def)
    qed
    then show ?thesis by (simp add: run_full_def key)
  qed
  then show ?thesis using I(4) by (simp add: shift_done_def)
qed

lemma shift_inv_stay:
  assumes inv: "shift_inv h m s hole j" and jn: "cnext (length s) j \<noteq> hole" "s ! cnext (length s) j \<noteq> None"
    and stay: "cdist (length s) (fhm_home h m (slot_key s (cnext (length s) j))) (cnext (length s) j)
                 < cdist (length s) hole (cnext (length s) j)"
  shows "shift_inv h m s hole (cnext (length s) j)"
proof -
  let ?n = "length s" and ?jn = "cnext (length s) j"
  note I = shift_invD [OF inv]
  have lt: "?jn < ?n" using I(2) by (rule cnext_less)
  have suc: "cdist ?n hole ?jn = Suc (cdist ?n hole j)" using cdist_to_cnext I(1,2) jn(1) by simp
  have near: "q = ?jn \<or> cdist ?n hole q \<le> cdist ?n hole j" if "q < ?n" "cdist ?n hole q \<le> cdist ?n hole ?jn" for q
    using that suc cdist_inj [OF I(1) that(1) lt] by linarith
  show ?thesis unfolding shift_inv_def Let_def
  proof (intro conjI allI impI)
    fix q assume "q < ?n" "cdist ?n hole q \<le> cdist ?n hole ?jn"
    then show "s ! q \<noteq> None" using near I(3) jn(2) by blast
  next
    fix i assume "i < ?n" "i \<noteq> hole" "s ! i \<noteq> None" "cdist ?n hole i \<le> cdist ?n hole ?jn"
    then show "cdist ?n (fhm_home h m (slot_key s i)) i < cdist ?n hole i"
      using near I(6) stay by blast
  qed (use I lt in auto)
qed

lemma keys_distinct_swap:
  assumes "keys_distinct u" "a < length u" "b < length u"
  shows "keys_distinct (u[a := u ! b, b := u ! a])"
proof -
  define f where "f p = (if p = b then a else if p = a then b else p)" for p
  have nth: "u[a := u ! b, b := u ! a] ! p = u ! f p" if "p < length u" for p
    using that assms(2,3) by (auto simp: f_def nth_list_update)
  have "f p < length u" if "p < length u" for p using that assms by (simp add: f_def)
  moreover have "f p = f q \<Longrightarrow> p = q" for p q by (auto simp: f_def split: if_splits)
  ultimately show ?thesis
    using assms(1) unfolding keys_distinct_def slot_key_def by (simp add: nth)
qed

lemma shift_inv_move:
  fixes s :: "('k, 'v) fhm_slot list"
  assumes inv: "shift_inv h m s hole j" and m: "length s = 2 ^ x" "m = length s - 1"
    and jn: "cnext (length s) j \<noteq> hole" "s ! cnext (length s) j \<noteq> None"
    and move: "cdist (length s) hole (cnext (length s) j)
                 \<le> cdist (length s) (fhm_home h m (slot_key s (cnext (length s) j))) (cnext (length s) j)"
  defines "s' \<equiv> s[hole := s ! cnext (length s) j]"
  shows "shift_inv h m s' (cnext (length s) j) (cnext (length s) j)"
    and "set (s'[cnext (length s) j := None]) = set (s[hole := None])"
    and "count_used s' = count_used s"
proof -
  let ?n = "length s" and ?jn = "cnext (length s) j"
  note I = shift_invD [OF inv]
  have lt: "?jn < ?n" using I(2) by (rule cnext_less)
  have len: "length s' = ?n" by (simp add: s'_def)
  have used: "s' ! q \<noteq> None \<longleftrightarrow> s ! q \<noteq> None" if "q < ?n" for q
    using jn(2) I(1) I(3) [OF I(1)] by (cases "q = hole") (simp_all add: s'_def)
  let ?u = "s[hole := None]"
  have swap: "s'[?jn := None] = ?u[hole := ?u ! ?jn, ?jn := ?u ! hole]"
    using I(1) lt jn(1) by (simp add: s'_def)
  show "set (s'[?jn := None]) = set ?u" unfolding swap using I(1) lt by (intro set_swap) auto
  show "count_used s' = count_used s"
    unfolding s'_def using I(1) I(3) [OF I(1)] jn(2) by (intro count_used_upd_Some) auto
  have kd: "keys_distinct (s'[?jn := None])"
    unfolding swap using I(1,4) lt by (intro keys_distinct_swap) auto
  have run: "run_full h m s' i" if i: "i < ?n" "i \<noteq> ?jn" "s' ! i \<noteq> None" for i
  proof (cases "i = hole")
    case True
    let ?hm = "fhm_home h m (slot_key s ?jn)"
    have hm: "?hm < ?n" using m fhm_home_less by metis
    have key: "slot_key s' hole = slot_key s ?jn" using I(1) by (simp add: s'_def slot_key_def)
    have pre: "cdist ?n ?hm hole < cdist ?n ?hm ?jn"
      using cdist_prefix [OF hm I(1) lt] jn(1) move by auto
    have "s' ! q \<noteq> None" if "q < ?n" "cdist ?n ?hm q < cdist ?n ?hm hole" for q
      using I(5) [OF lt jn] that pre used by (simp add: run_full_def)
    then show ?thesis using True by (simp add: run_full_def key len)
  next
    case False
    then have "slot_key s' i = slot_key s i" by (simp add: s'_def slot_key_def)
    moreover have "run_full h m s i" using I(5) i False used by auto
    ultimately show ?thesis using used by (simp add: run_full_def len)
  qed
  show "shift_inv h m s' ?jn ?jn" unfolding shift_inv_def Let_def len
    using lt kd run jn(2) used cdist_eq_0_iff [OF lt] by auto
qed

text \<open>The loop of \<^verbatim>\<open>erase\<close> ends and leaves a table without the erased entry.\<close>

lemma fhm_shift_correct:
  fixes s :: "('k, 'v) fhm_slot list"
  assumes "length s = 2 ^ x" "m = length s - 1" "e < length s" "s ! e = None" "shift_inv h m s hole j"
  shows "\<exists>s' hole'. fhm_shift h m s hole j = Some (s', hole') \<and> length s' = length s \<and> hole' < length s
     \<and> s' ! hole' \<noteq> None \<and> count_used s' = count_used s
     \<and> set (s'[hole' := None]) = set (s[hole := None]) \<and> shift_done h m (s'[hole' := None])"
  using assms
proof (induction "cdist (length s) (cnext (length s) j) e" arbitrary: s hole j rule: less_induct)
  case less
  let ?n = "length s" and ?jn = "cnext (length s) j"
  note I = shift_invD [OF less.prems(5)]
  have lt: "?jn < ?n" using I(2) by (rule cnext_less)
  have step: "(j + 1) AND m = ?jn" using and_mask_cnext [OF less.prems(1) I(2)] less.prems(2) by simp
  show ?case
  proof (cases "s ! ?jn")
    case None
    then have "fhm_shift h m s hole j = Some (s, hole)"
      using step by (subst fhm_shift.simps) simp
    then show ?thesis using I(1) I(3) [OF I(1)] shift_inv_finish [OF less.prems(5,1,2) None] by auto
  next
    case (Some kv)
    then obtain k' v' where kv: "s ! ?jn = Some (k', v')" by (cases kv) auto
    then have used: "s ! ?jn \<noteq> None" and key: "slot_key s ?jn = k'" by (auto simp: slot_key_def)
    have nh: "?jn \<noteq> hole"
      using cdist_full_turn [OF I(1,2) _ less.prems(3)] I(3) [OF less.prems(3)] less.prems(4) by auto
    have ne: "?jn \<noteq> e" using used less.prems(4) by auto
    have closer: "cdist ?n (cnext ?n ?jn) e < cdist ?n ?jn e"
      using cdist_cnext [OF lt less.prems(3) ne] by simp
    have hm: "fhm_home h m k' < ?n" using less.prems(1,2) fhm_home_less by metis
    have stays: "fhm_stays hole ?jn (fhm_home h m k') \<longleftrightarrow> cdist ?n (fhm_home h m k') ?jn < cdist ?n hole ?jn"
      using fhm_stays_iff [OF I(1) lt hm] nh by simp
    show ?thesis
    proof (cases "fhm_stays hole ?jn (fhm_home h m k')")
      case True
      then have "fhm_shift h m s hole j = fhm_shift h m s hole ?jn"
        using step kv by (subst fhm_shift.simps) simp
      moreover have "shift_inv h m s hole ?jn"
        using shift_inv_stay [OF less.prems(5) nh used] True stays key by simp
      ultimately show ?thesis using less.hyps [OF closer less.prems(1-4)] by simp
    next
      case False
      let ?s = "s[hole := s ! ?jn]"
      have eq: "fhm_shift h m s hole j = fhm_shift h m ?s ?jn ?jn"
        using step kv False by (subst fhm_shift.simps) (simp add: Let_def)
      have mv: "cdist ?n hole ?jn \<le> cdist ?n (fhm_home h m (slot_key s ?jn)) ?jn"
        using False stays key by simp
      note M = shift_inv_move [OF less.prems(5,1,2) nh used mv]
      have empty: "?s ! e = None" using less.prems(3,4) I(1) I(3) [OF I(1)] by (auto simp: nth_list_update)
      have "\<exists>s' hole'. fhm_shift h m ?s ?jn ?jn = Some (s', hole') \<and> length s' = length ?s \<and> hole' < length ?s
         \<and> s' ! hole' \<noteq> None \<and> count_used s' = count_used ?s
         \<and> set (s'[hole' := None]) = set (?s[?jn := None]) \<and> shift_done h m (s'[hole' := None])"
        by (rule less.hyps) (use closer less.prems M(1) empty in simp_all)
      then show ?thesis unfolding eq M(2,3) by simp
    qed
  qed
qed

lemma shift_inv_start:
  assumes inv: "fhm_inv h t" and i: "i < length (fhm_slots t)" "fhm_slots t ! i \<noteq> None"
  shows "shift_inv h (fhm_mask t) (fhm_slots t) i i"
proof -
  let ?s = "fhm_slots t"
  have "keys_distinct ?s" and run: "\<And>j. j < length ?s \<Longrightarrow> ?s ! j \<noteq> None \<Longrightarrow> run_full h (fhm_mask t) ?s j"
    using inv by (auto elim: fhm_invD)
  then have "keys_distinct (?s[i := None])"
    using i(1) unfolding keys_distinct_def slot_key_def by (simp add: nth_list_update)
  then show ?thesis
    using i run cdist_eq_0_iff [OF i(1)] by (auto simp: shift_inv_def Let_def)
qed

lemma fhm_erase_absent:
  assumes "fhm_inv h t" "fhm_map t k = None"
  shows "fhm_erase h t k = (t, False)"
  by (rule fhm_probe_None [OF assms]) (simp add: fhm_erase_def)

lemma fhm_erase_present:
  fixes t :: "('k, 'v) fhm"
  assumes inv: "fhm_inv h t" and old: "fhm_map t k = Some v"
  obtains t' where "fhm_erase h t k = (t', True)" "fhm_inv h t'" "fhm_map t' = (fhm_map t)(k := None)"
    "fhm_size t = fhm_size t' + 1" "fhm_max t' = fhm_max t"
proof -
  let ?s = "fhm_slots t"
  obtain i where i: "fhm_probe h t k = Some i" "i < length ?s" "?s ! i = Some (k, v)"
    using fhm_probe_Some [OF inv old] .
  obtain x where I: "length ?s = 2 ^ x" "fhm_mask t = length ?s - 1" "2 * fhm_max t \<le> length ?s" "8 \<le> length ?s"
    "fhm_size t = count_used ?s" "fhm_size t \<le> fhm_max t" "keys_distinct ?s"
    using inv by (elim fhm_invD)
  obtain e where e: "e < length ?s" "?s ! e = None" using fhm_inv_unused [OF inv] by auto
  have used: "?s ! i \<noteq> None" using i by simp
  obtain s' hole' where S: "fhm_shift h (fhm_mask t) ?s i i = Some (s', hole')" "length s' = length ?s"
    "hole' < length ?s" "s' ! hole' \<noteq> None" "count_used s' = count_used ?s"
    "set (s'[hole' := None]) = set (?s[i := None])" "shift_done h (fhm_mask t) (s'[hole' := None])"
    using fhm_shift_correct [OF I(1,2) e shift_inv_start [OF inv i(2) used]] by blast
  let ?t = "t\<lparr>fhm_slots := s'[hole' := None], fhm_size := fhm_size t - 1\<rparr>"
  have cnt: "Suc (count_used (s'[hole' := None])) = fhm_size t"
    using count_used_clear_slot [of hole' s'] S I(5) by simp
  have "fhm_erase h t k = (?t, True)" using i S(1) by (simp add: fhm_erase_def)
  moreover have "fhm_inv h ?t"
    using I S(2,7) cnt by (auto simp: fhm_inv_def Let_def shift_done_def)
  moreover have "fhm_map ?t = (fhm_map t)(k := None)"
  proof -
    have key: "slot_key ?s i = k" using i by (simp add: slot_key_def)
    have "Some x \<in> set (?s[i := None]) \<longleftrightarrow> Some x \<in> set ?s \<and> fst x \<noteq> k" for x
      using I(7) i(2) used key by (rule set_clear_pairs)
    then show ?thesis unfolding fhm_map_def using S(6,7) I(7)
      by (simp add: slots_map_delI shift_done_def)
  qed
  ultimately show ?thesis using cnt by (intro that [of ?t]) auto
qed

section \<open>Construction and clear\<close>

lemma fhm_new_spec:
  assumes "fhm_new n = Some t"
  shows "fhm_inv h t" "fhm_map t = Map.empty" "fhm_max t = n" "fhm_size t = 0"
proof -
  let ?m = "bit_ceil (max (n * 2) 8)"
  obtain k where k: "?m = 2 ^ k" using bit_ceil_spec by blast
  have t: "t = \<lparr>fhm_max = n, fhm_mask = ?m - 1, fhm_size = 0, fhm_slots = replicate ?m None\<rparr>"
    using assms by (auto simp: fhm_new_def fhm_table_size_def split: if_splits)
  have "max (n * 2) 8 \<le> ?m" by (rule bit_ceil_ge)
  moreover have "keys_distinct (replicate ?m None)" by (simp add: keys_distinct_def)
  moreover have "count_used (replicate ?m None) = 0" by (simp add: count_used_def)
  ultimately show "fhm_inv h t" using k by (auto simp: t fhm_inv_def Let_def)
  show "fhm_map t = Map.empty"
    by (simp add: t fhm_map_def slots_map_def List.map_filter_def)
  show "fhm_max t = n" "fhm_size t = 0" by (simp_all add: t)
qed

lemma fhm_new_returns: "n \<le> 2 ^ 62 \<longleftrightarrow> (\<exists>t :: ('k, 'v) fhm. fhm_new n = Some t)"
  by (auto simp: fhm_new_def fhm_table_size_def)

lemma fhm_clear_spec:
  assumes "fhm_inv h t"
  shows "fhm_inv h (fhm_clear t)" "fhm_map (fhm_clear t) = Map.empty"
proof -
  have "keys_distinct (map (\<lambda>_. None) (fhm_slots t))" by (simp add: keys_distinct_def)
  moreover have "count_used (map (\<lambda>_. None) (fhm_slots t)) = 0" by (simp add: count_used_def)
  ultimately show "fhm_inv h (fhm_clear t)"
    using assms by (auto simp: fhm_clear_def fhm_inv_def Let_def)
  show "fhm_map (fhm_clear t) = Map.empty"
    by (simp add: fhm_clear_def fhm_map_def slots_map_def List.map_filter_def)
qed

section \<open>The interface: a finite map of bounded size\<close>

locale bounded_map =
  fixes find :: "'m \<Rightarrow> 'k \<Rightarrow> 'v option"
    and insert :: "'m \<Rightarrow> 'k \<Rightarrow> 'v \<Rightarrow> 'm \<times> ('v option \<times> bool)"
    and store :: "'m \<Rightarrow> 'k \<Rightarrow> 'v \<Rightarrow> 'm"
    and erase :: "'m \<Rightarrow> 'k \<Rightarrow> 'm \<times> bool"
    and size :: "'m \<Rightarrow> nat"
    and max_size :: "'m \<Rightarrow> nat"
    and invar :: "'m \<Rightarrow> bool"
  assumes insert_old: "invar m \<Longrightarrow> find m k = Some old \<Longrightarrow> insert m k v = (m, (Some old, False))"
    and insert_full: "invar m \<Longrightarrow> find m k = None \<Longrightarrow> max_size m \<le> size m \<Longrightarrow> insert m k v = (m, (None, False))"
    and insert_new: "invar m \<Longrightarrow> find m k = None \<Longrightarrow> size m < max_size m \<Longrightarrow>
      \<exists>m'. insert m k v = (m', (Some v, True)) \<and> invar m' \<and> find m' = (find m)(k \<mapsto> v)
           \<and> size m' = size m + 1 \<and> max_size m' = max_size m"
    and store_old: "invar m \<Longrightarrow> find m k = Some old \<Longrightarrow>
      invar (store m k v) \<and> find (store m k v) = (find m)(k \<mapsto> v)
      \<and> size (store m k v) = size m \<and> max_size (store m k v) = max_size m"
    and erase_none: "invar m \<Longrightarrow> find m k = None \<Longrightarrow> erase m k = (m, False)"
    and erase_old: "invar m \<Longrightarrow> find m k = Some old \<Longrightarrow>
      \<exists>m'. erase m k = (m', True) \<and> invar m' \<and> find m' = (find m)(k := None)
           \<and> size m = size m' + 1 \<and> max_size m' = max_size m"
    and size_card: "invar m \<Longrightarrow> size m = card (dom (find m)) \<and> finite (dom (find m))"
    and size_le_max: "invar m \<Longrightarrow> size m \<le> max_size m"
begin

lemma insert_keeps_invar: "invar m \<Longrightarrow> invar (fst (insert m k v))"
  by (cases "find m k"; cases "size m < max_size m")
    (auto simp: insert_old insert_full dest: insert_new [of m k v])

lemma erase_fst:
  assumes "invar m"
  shows "invar (fst (erase m k))" "find (fst (erase m k)) = (find m)(k := None)"
    "max_size (fst (erase m k)) = max_size m"
proof -
  have "invar (fst (erase m k)) \<and> find (fst (erase m k)) = (find m)(k := None)
      \<and> max_size (fst (erase m k)) = max_size m"
  proof (cases "find m k")
    case None
    then show ?thesis using erase_none [OF assms None] assms by (auto simp: fun_eq_iff)
  next
    case (Some old)
    then show ?thesis using erase_old [OF assms Some] by auto
  qed
  then show "invar (fst (erase m k))" "find (fst (erase m k)) = (find m)(k := None)"
    "max_size (fst (erase m k)) = max_size m" by auto
qed

lemma insert_fst:
  assumes "invar m" "find m k = None" "size m < max_size m"
  shows "invar (fst (insert m k v))" "find (fst (insert m k v)) = (find m)(k \<mapsto> v)"
    "max_size (fst (insert m k v)) = max_size m" "snd (snd (insert m k v))"
  using insert_new [OF assms, of v] by auto

lemma erase_makes_room: "invar m \<Longrightarrow> find m k = Some old \<Longrightarrow> size (fst (erase m k)) < max_size (fst (erase m k))"
  using erase_old [of m k old] size_le_max [of m] by auto

lemma insert_erase_other:
  "invar m \<Longrightarrow> find m k = None \<Longrightarrow> size m < max_size m \<Longrightarrow> find (fst (erase (fst (insert m k v)) k)) = find m"
  by (simp add: insert_fst erase_fst fun_eq_iff)

end

interpretation fhm: bounded_map "fhm_find h" "fhm_insert h" "fhm_store h" "fhm_erase h" fhm_size fhm_max "fhm_inv h"
  for h :: "'k \<Rightarrow> u64"
proof (unfold_locales, goal_cases)
  case (1 m k old v) then show ?case by (simp add: fhm_find_map fhm_insert_present)
next
  case (2 m k v) then show ?case by (simp add: fhm_find_map fhm_insert_full)
next
  case (3 m k v)
  then obtain t' where "fhm_insert h m k v = (t', (Some v, True))" "fhm_inv h t'"
    "fhm_map t' = (fhm_map m)(k \<mapsto> v)" "fhm_size t' = fhm_size m + 1" "fhm_max t' = fhm_max m"
    by (auto simp: fhm_find_map elim: fhm_insert_new [of h m k v])
  then show ?case using 3 by (auto simp: fhm_find_map fun_eq_iff)
next
  case (4 m k old v) then show ?case by (auto simp: fhm_find_map fhm_store_spec fun_eq_iff)
next
  case (5 m k) then show ?case by (simp add: fhm_find_map fhm_erase_absent)
next
  case (6 m k old)
  then obtain t' where "fhm_erase h m k = (t', True)" "fhm_inv h t'" "fhm_map t' = (fhm_map m)(k := None)"
    "fhm_size m = fhm_size t' + 1" "fhm_max t' = fhm_max m"
    by (auto simp: fhm_find_map elim: fhm_erase_present [of h m k old])
  then show ?case using 6 by (auto simp: fhm_find_map fun_eq_iff)
next
  case (7 m)
  then have "fhm_find h m = fhm_map m" by (auto simp: fhm_find_map)
  with fhm_size_card [OF 7] show ?case by simp
next
  case (8 m) then show ?case by (elim fhm_invD)
qed

lemma fhm_new_find: "fhm_new n = Some t \<Longrightarrow> fhm_find h t = Map.empty"
  by (auto simp: fhm_find_map fhm_new_spec fun_eq_iff)

section \<open>Refinement: any sequence of calls behaves as on a bounded finite map\<close>

datatype ('k, 'v) map_op = MInsert 'k 'v | MStore 'k 'v | MErase 'k | MFind 'k | MSize | MClear

datatype 'v map_out = OInsert "'v option" bool | OErase bool | OFind "'v option" | OSize nat | OUnit

fun fhm_step :: "('k \<Rightarrow> u64) \<Rightarrow> ('k, 'v) fhm \<Rightarrow> ('k, 'v) map_op \<Rightarrow> ('k, 'v) fhm \<times> 'v map_out" where
  "fhm_step h t (MInsert k v) = (let (t', (r, b)) = fhm_insert h t k v in (t', OInsert r b))"
| "fhm_step h t (MStore k v) = (fhm_store h t k v, OUnit)"
| "fhm_step h t (MErase k) = (let (t', b) = fhm_erase h t k in (t', OErase b))"
| "fhm_step h t (MFind k) = (t, OFind (fhm_find h t k))"
| "fhm_step h t MSize = (t, OSize (fhm_size t))"
| "fhm_step h t MClear = (fhm_clear t, OUnit)"

fun map_step :: "nat \<Rightarrow> ('k \<rightharpoonup> 'v) \<Rightarrow> ('k, 'v) map_op \<Rightarrow> ('k \<rightharpoonup> 'v) \<times> 'v map_out" where
  "map_step n m (MInsert k v) = (case m k of
      Some old \<Rightarrow> (m, OInsert (Some old) False)
    | None \<Rightarrow> if n \<le> card (dom m) then (m, OInsert None False) else (m(k \<mapsto> v), OInsert (Some v) True))"
| "map_step n m (MStore k v) = (if m k = None then (m, OUnit) else (m(k \<mapsto> v), OUnit))"
| "map_step n m (MErase k) = (m(k := None), OErase (m k \<noteq> None))"
| "map_step n m (MFind k) = (m, OFind (m k))"
| "map_step n m MSize = (m, OSize (card (dom m)))"
| "map_step n m MClear = (Map.empty, OUnit)"

fun fhm_run :: "('k \<Rightarrow> u64) \<Rightarrow> ('k, 'v) fhm \<Rightarrow> ('k, 'v) map_op list \<Rightarrow> 'v map_out list" where
  "fhm_run h t [] = []"
| "fhm_run h t (x # xs) = (let (t', r) = fhm_step h t x in r # fhm_run h t' xs)"

fun map_run :: "nat \<Rightarrow> ('k \<rightharpoonup> 'v) \<Rightarrow> ('k, 'v) map_op list \<Rightarrow> 'v map_out list" where
  "map_run n m [] = []"
| "map_run n m (x # xs) = (let (m', r) = map_step n m x in r # map_run n m' xs)"

lemma fhm_store_absent: "fhm_inv h t \<Longrightarrow> fhm_map t k = None \<Longrightarrow> fhm_store h t k v = t"
  by (rule fhm_probe_None [of h t k]) (simp_all add: fhm_store_def)

lemma fhm_step_refines:
  assumes inv: "fhm_inv h t"
  shows "fhm_inv h (fst (fhm_step h t x))" "fhm_max (fst (fhm_step h t x)) = fhm_max t"
    "map_step (fhm_max t) (fhm_map t) x = (fhm_map (fst (fhm_step h t x)), snd (fhm_step h t x))"
proof -
  note sz = fhm_size_card [OF inv]
  have "fhm_inv h (fst (fhm_step h t x)) \<and> fhm_max (fst (fhm_step h t x)) = fhm_max t
     \<and> map_step (fhm_max t) (fhm_map t) x = (fhm_map (fst (fhm_step h t x)), snd (fhm_step h t x))"
  proof (cases x)
    case (MInsert k v)
    show ?thesis
    proof (cases "fhm_map t k")
      case None
      show ?thesis
      proof (cases "fhm_max t \<le> fhm_size t")
        case True
        then show ?thesis using None MInsert inv sz by (simp add: fhm_insert_full)
      next
        case False
        then have "fhm_size t < fhm_max t" by simp
        from fhm_insert_new [OF inv None this, of v] obtain t' where
          "fhm_insert h t k v = (t', (Some v, True))" "fhm_inv h t'" "fhm_map t' = (fhm_map t)(k \<mapsto> v)"
          "fhm_max t' = fhm_max t" .
        then show ?thesis using None MInsert False sz by simp
      qed
    next
      case (Some old)
      then show ?thesis using MInsert inv by (simp add: fhm_insert_present)
    qed
  next
    case (MStore k v)
    then show ?thesis
      by (cases "fhm_map t k") (use inv in \<open>auto simp: fhm_store_absent fhm_store_spec\<close>)
  next
    case (MErase k)
    show ?thesis
    proof (cases "fhm_map t k")
      case None
      then show ?thesis using MErase inv by (simp add: fhm_erase_absent fun_upd_idem)
    next
      case (Some old)
      from fhm_erase_present [OF inv Some] obtain t' where
        "fhm_erase h t k = (t', True)" "fhm_inv h t'" "fhm_map t' = (fhm_map t)(k := None)" "fhm_max t' = fhm_max t" .
      then show ?thesis using MErase Some by simp
    qed
  next
    case MClear
    then show ?thesis using fhm_clear_spec [OF inv] by (simp add: fhm_clear_def)
  qed (use inv sz in \<open>simp_all add: fhm_find_map\<close>)
  then show "fhm_inv h (fst (fhm_step h t x))" "fhm_max (fst (fhm_step h t x)) = fhm_max t"
    "map_step (fhm_max t) (fhm_map t) x = (fhm_map (fst (fhm_step h t x)), snd (fhm_step h t x))"
    by auto
qed

lemma fhm_run_map_run: "fhm_inv h t \<Longrightarrow> fhm_run h t xs = map_run (fhm_max t) (fhm_map t) xs"
proof (induction xs arbitrary: t)
  case (Cons x xs)
  note S = fhm_step_refines [OF Cons.prems, of x]
  show ?case using Cons.IH [OF S(1)] S(2,3) by (simp add: case_prod_beta)
qed simp

text \<open>
  Claim C4: a \<^verbatim>\<open>FlatHashMap\<close> built for at most \<open>n\<close> entries answers every sequence of \<^verbatim>\<open>insert\<close>,
  \<^verbatim>\<open>find\<close>, \<^verbatim>\<open>erase\<close>, \<^verbatim>\<open>size\<close>, \<^verbatim>\<open>clear\<close> and writes through found pointers exactly as a finite map
  limited to \<open>n\<close> entries does, for every hash function: open addressing, probe runs and the
  backward-shift deletion are invisible.
\<close>

theorem fhm_refines_bounded_map:
  assumes "fhm_new n = Some t"
  shows "fhm_run h t ops = map_run n Map.empty ops"
  using fhm_run_map_run [of h t ops] fhm_new_spec(1) [OF assms, of h] fhm_new_spec(2,3) [OF assms] by simp

theorem fhm_refines_bounded_map_witness:
  "fhm_run (\<lambda>_. 3) (the (fhm_new 2))
      [MInsert (7 :: u64) (1 :: u8), MInsert 5 2, MInsert 9 3, MErase 7, MFind 5, MSize]
     = [OInsert (Some 1) True, OInsert (Some 2) True, OInsert None False, OErase True, OFind (Some 2), OSize 1]"
proof -
  have new: "fhm_new 2 = Some (the (fhm_new 2) :: (u64, u8) fhm)"
    by (simp add: fhm_new_def fhm_table_size_def)
  show ?thesis unfolding fhm_refines_bounded_map [OF new] by simp
qed

text \<open>
  Claim C40: on every table that satisfies the class invariant both unbounded loops end. The probe run
  of any key reaches the key's slot or an unused slot inside the table, and the backward shift that
  \<^verbatim>\<open>erase\<close> starts at a used slot ends with a used hole inside the table.
\<close>

theorem fhm_loops_terminate:
  assumes inv: "fhm_inv h t"
  shows "\<exists>i < length (fhm_slots t). fhm_probe h t k = Some i
    \<and> (fhm_slots t ! i \<noteq> None \<longrightarrow>
        (\<exists>s' hole'. fhm_shift h (fhm_mask t) (fhm_slots t) i i = Some (s', hole')
           \<and> length s' = length (fhm_slots t) \<and> hole' < length s' \<and> s' ! hole' \<noteq> None))"
proof -
  obtain i where i: "i < length (fhm_slots t)" "fhm_probe h t k = Some i"
    using fhm_probe_returns [OF inv] by blast
  obtain e where e: "e < length (fhm_slots t)" "fhm_slots t ! e = None"
    using fhm_inv_unused [OF inv] by auto
  obtain x where x: "length (fhm_slots t) = 2 ^ x" "fhm_mask t = length (fhm_slots t) - 1"
    using inv by (elim fhm_invD)
  have "\<exists>s' hole'. fhm_shift h (fhm_mask t) (fhm_slots t) i i = Some (s', hole')
           \<and> length s' = length (fhm_slots t) \<and> hole' < length s' \<and> s' ! hole' \<noteq> None"
    if "fhm_slots t ! i \<noteq> None"
    using fhm_shift_correct [OF x e shift_inv_start [OF inv i(1) that]] by metis
  with i show ?thesis by blast
qed

theorem fhm_loops_terminate_witness:
  "\<exists>i < 8. fhm_probe Hash_u64 (the (fhm_new 4) :: (u64, u8) fhm) 42 = Some i"
proof -
  have new: "fhm_new 4 = Some (the (fhm_new 4) :: (u64, u8) fhm)"
    by (simp add: fhm_new_def fhm_table_size_def)
  have "bit_ceil 8 = 8" by (simp add: bit_ceil_def bit_ceil_from.simps)
  then have "length (fhm_slots (the (fhm_new 4) :: (u64, u8) fhm)) = 8"
    by (simp add: fhm_new_def fhm_table_size_def)
  with fhm_loops_terminate [OF fhm_new_spec(1) [OF new], of Hash_u64 42] show ?thesis by auto
qed

end
