(* ===== verification/Order_Book.thy ===== *)
theory Order_Book
  imports Prelude
begin

text \<open>
  The aggregated price ladder of one instrument, \<^verbatim>\<open>src/include/optitrade/book/order_book.hpp\<close>: each
  side is an array of fixed capacity, worst price first. The theory models every operation of
  \<^verbatim>\<open>OrderBook\<close>, shows that the touch-window-plus-binary search of \<^verbatim>\<open>find_pos\<close> is a plain linear search,
  that every operation keeps the ladder strictly ordered with non-empty levels, and that the class
  implements a bounded finite map from prices to levels (\<open>ob_lookup\<close>) whose overflow policy keeps
  the best prices. The locale \<open>level_book\<close> is the contract that MarketBooks relies on.
\<close>

section \<open>Data\<close>

record Level =
  lv_price :: Price
  lv_qty :: Qty
  lv_orders :: u32

datatype Applied = Ap_ok | Ap_ignored | Ap_unknown_order | Ap_duplicate_order | Ap_unknown_symbol
  | Ap_capacity | Ap_invalid

type_synonym LevelId = u64

record Entry =
  en_lv :: Level
  en_id :: LevelId

record SideBook =
  sb_e :: "Entry list"
  sb_size :: nat

record OrderBook =
  ob_bids :: SideBook
  ob_asks :: SideBook
  ob_next_id :: LevelId
  ob_updates :: u64
  ob_overflows :: u64

definition kNoLevel :: LevelId where
  "kNoLevel = 0"

definition kQtyMax :: Qty where
  "kQtyMax = - 1"

definition kOrdersMax :: u32 where
  "kOrdersMax = - 1"

definition kEmptyLevel :: Level where
  "kEmptyLevel = \<lparr>lv_price = 0, lv_qty = 0, lv_orders = 0\<rparr>"

definition SideBook_new :: "nat \<Rightarrow> SideBook" where
  "SideBook_new cap = \<lparr>sb_e = replicate cap \<lparr>en_lv = kEmptyLevel, en_id = 0\<rparr>, sb_size = 0\<rparr>"

definition OrderBook_new :: "nat \<Rightarrow> OrderBook" where
  "OrderBook_new max_levels = \<lparr>ob_bids = SideBook_new max_levels, ob_asks = SideBook_new max_levels,
     ob_next_id = 1, ob_updates = 0, ob_overflows = 0\<rparr>"

definition max_levels_per_side :: "OrderBook \<Rightarrow> nat" where
  "max_levels_per_side b = length (sb_e (ob_bids b))"

definition side_book :: "OrderBook \<Rightarrow> Side \<Rightarrow> SideBook" where
  "side_book b s = (if s = Side_buy then ob_bids b else ob_asks b)"

text \<open>Writing through the reference that \<^verbatim>\<open>side_book\<close> returns.\<close>

definition set_side_book :: "OrderBook \<Rightarrow> Side \<Rightarrow> SideBook \<Rightarrow> OrderBook" where
  "set_side_book b s sb = (if s = Side_buy then b\<lparr>ob_bids := sb\<rparr> else b\<lparr>ob_asks := sb\<rparr>)"

section \<open>Search\<close>

definition better :: "Side \<Rightarrow> Price \<Rightarrow> Price \<Rightarrow> bool" where
  "better s a b = (if s = Side_buy then a > b else a < b)"

abbreviation entry_price :: "Entry \<Rightarrow> Price" where
  "entry_price e \<equiv> lv_price (en_lv e)"

text \<open>The loop over the last \<^verbatim>\<open>kWindow\<close> levels, then the binary search below them.\<close>

definition kWindow :: nat where
  "kWindow = 8"

primrec find_window :: "SideBook \<Rightarrow> Side \<Rightarrow> Price \<Rightarrow> nat \<Rightarrow> nat \<Rightarrow> nat" where
  "find_window sb s price stop 0 = 0"
| "find_window sb s price stop (Suc i) =
     (if Suc i > stop \<and> \<not> better s price (entry_price (sb_e sb ! i))
      then find_window sb s price stop i else Suc i)"

function find_binary :: "SideBook \<Rightarrow> Side \<Rightarrow> Price \<Rightarrow> nat \<Rightarrow> nat \<Rightarrow> nat" where
  "find_binary sb s price lo hi =
     (if lo < hi then
        let mid = lo + (hi - lo) div 2 in
        if better s price (entry_price (sb_e sb ! mid))
        then find_binary sb s price (mid + 1) hi
        else find_binary sb s price lo mid
      else lo)"
  by pat_completeness auto
termination
  by (relation "measure (\<lambda>(sb, s, price, lo, hi). hi - lo)") auto

declare find_binary.simps [simp del]

definition find_pos :: "SideBook \<Rightarrow> Side \<Rightarrow> Price \<Rightarrow> nat" where
  "find_pos sb s price =
     (let hi = sb_size sb;
          stop = (if hi > kWindow then hi - kWindow else 0);
          i = find_window sb s price stop hi in
      if i > stop \<or> stop = 0 then i
      else find_binary sb s price 0 stop)"

section \<open>Moving levels\<close>

text \<open>\<^verbatim>\<open>std::copy\<close> and \<^verbatim>\<open>std::copy_backward\<close> of \<open>[first, last)\<close>; both are used in the direction in
  which overlapping ranges are safe, so the destination receives the old contents.\<close>

definition std_copy :: "'a list \<Rightarrow> nat \<Rightarrow> nat \<Rightarrow> nat \<Rightarrow> 'a list" where
  "std_copy e first lst d = take d e @ take (lst - first) (drop first e) @ drop (d + (lst - first)) e"

definition std_copy_backward :: "'a list \<Rightarrow> nat \<Rightarrow> nat \<Rightarrow> nat \<Rightarrow> 'a list" where
  "std_copy_backward e first lst d_last =
     take (d_last - (lst - first)) e @ take (lst - first) (drop first e) @ drop d_last e"

definition shift_up :: "SideBook \<Rightarrow> nat \<Rightarrow> SideBook" where
  "shift_up sb pos = sb\<lparr>sb_e := std_copy_backward (sb_e sb) pos (sb_size sb) (sb_size sb + 1)\<rparr>"

definition shift_down :: "SideBook \<Rightarrow> nat \<Rightarrow> nat \<Rightarrow> SideBook" where
  "shift_down sb from to = sb\<lparr>sb_e := std_copy (sb_e sb) from to (from - 1)\<rparr>"

section \<open>Operations\<close>

text \<open>The common tail of \<^verbatim>\<open>add_order\<close>: the new level is written into the hole.\<close>

definition place_level :: "OrderBook \<Rightarrow> Side \<Rightarrow> SideBook \<Rightarrow> nat \<Rightarrow> Price \<Rightarrow> Qty \<Rightarrow> OrderBook \<times> LevelId" where
  "place_level b side sb at price qty =
     (let lid = ob_next_id b;
          e = \<lparr>en_lv = \<lparr>lv_price = price, lv_qty = qty, lv_orders = 1\<rparr>, en_id = lid\<rparr> in
      (set_side_book (b\<lparr>ob_next_id := lid + 1, ob_updates := ob_updates b + 1\<rparr>) side
         (sb\<lparr>sb_e := (sb_e sb)[at := e]\<rparr>), lid))"

definition add_order :: "OrderBook \<Rightarrow> Side \<Rightarrow> Price \<Rightarrow> Qty \<Rightarrow> OrderBook \<times> LevelId" where
  "add_order b side price qty =
     (if qty = 0 then (b, kNoLevel) else
      let sb = side_book b side;
          pos = find_pos sb side price in
      if pos < sb_size sb \<and> entry_price (sb_e sb ! pos) = price then
        let e = sb_e sb ! pos; lv = en_lv e in
        if lv_qty lv > kQtyMax - qty \<or> lv_orders lv = kOrdersMax
        then (b\<lparr>ob_overflows := ob_overflows b + 1\<rparr>, kNoLevel)
        else (set_side_book (b\<lparr>ob_updates := ob_updates b + 1\<rparr>) side
                (sb\<lparr>sb_e := (sb_e sb)[pos := e\<lparr>en_lv := lv\<lparr>lv_qty := lv_qty lv + qty, lv_orders := lv_orders lv + 1\<rparr>\<rparr>]\<rparr>),
              en_id e)
      else if sb_size sb = length (sb_e sb) then
        let b = b\<lparr>ob_overflows := ob_overflows b + 1\<rparr> in
        if pos = 0 then (b, kNoLevel)
        else place_level b side (shift_down sb 1 pos) (pos - 1) price qty
      else place_level b side ((shift_up sb pos)\<lparr>sb_size := sb_size sb + 1\<rparr>) pos price qty)"

definition add :: "OrderBook \<Rightarrow> Side \<Rightarrow> Price \<Rightarrow> Qty \<Rightarrow> OrderBook \<times> bool" where
  "add b side price qty = (let (b', lid) = add_order b side price qty in (b', lid \<noteq> kNoLevel))"

definition take_qty :: "OrderBook \<Rightarrow> Side \<Rightarrow> Price \<Rightarrow> Qty \<Rightarrow> LevelId \<Rightarrow> bool \<Rightarrow> OrderBook \<times> bool" where
  "take_qty b side price qty lid whole_order =
     (if qty = 0 then (b, False) else
      let sb = side_book b side;
          pos = find_pos sb side price in
      if pos \<ge> sb_size sb \<or> entry_price (sb_e sb ! pos) \<noteq> price then (b, False)
      else if lid \<noteq> kNoLevel \<and> en_id (sb_e sb ! pos) \<noteq> lid then (b, False)
      else let e = sb_e sb ! pos; lv = en_lv e in
      if qty > lv_qty lv then (b, False)
      else
        let lv = lv\<lparr>lv_qty := lv_qty lv - qty\<rparr>;
            sb1 = sb\<lparr>sb_e := (sb_e sb)[pos := e\<lparr>en_lv := lv\<rparr>]\<rparr>;
            sb2 = (if lv_qty lv = 0 then
                     (shift_down sb1 (pos + 1) (sb_size sb))\<lparr>sb_size := sb_size sb - 1\<rparr>
                   else if whole_order \<and> lv_orders lv > 1 then
                     sb\<lparr>sb_e := (sb_e sb)[pos := e\<lparr>en_lv := lv\<lparr>lv_orders := lv_orders lv - 1\<rparr>\<rparr>]\<rparr>
                   else sb1) in
        (set_side_book (b\<lparr>ob_updates := ob_updates b + 1\<rparr>) side sb2, True))"

definition remove_lvl :: "OrderBook \<Rightarrow> Side \<Rightarrow> Price \<Rightarrow> Qty \<Rightarrow> OrderBook \<times> bool" where
  "remove_lvl b side price qty = take_qty b side price qty kNoLevel True"

definition reduce_lvl :: "OrderBook \<Rightarrow> Side \<Rightarrow> Price \<Rightarrow> Qty \<Rightarrow> OrderBook \<times> bool" where
  "reduce_lvl b side price qty = take_qty b side price qty kNoLevel False"

definition remove_order :: "OrderBook \<Rightarrow> Side \<Rightarrow> Price \<Rightarrow> Qty \<Rightarrow> LevelId \<Rightarrow> OrderBook \<times> bool" where
  "remove_order b side price qty lid =
     (if lid \<noteq> kNoLevel then take_qty b side price qty lid True else (b, False))"

definition reduce_order :: "OrderBook \<Rightarrow> Side \<Rightarrow> Price \<Rightarrow> Qty \<Rightarrow> LevelId \<Rightarrow> OrderBook \<times> bool" where
  "reduce_order b side price qty lid =
     (if lid \<noteq> kNoLevel then take_qty b side price qty lid False else (b, False))"

definition depth :: "OrderBook \<Rightarrow> Side \<Rightarrow> nat" where
  "depth b side = sb_size (side_book b side)"

definition level :: "OrderBook \<Rightarrow> Side \<Rightarrow> nat \<Rightarrow> Level" where
  "level b side i =
     (let sb = side_book b side in
      if i < sb_size sb then en_lv (sb_e sb ! (sb_size sb - 1 - i)) else kEmptyLevel)"

definition best :: "OrderBook \<Rightarrow> Side \<Rightarrow> Level option" where
  "best b side =
     (let sb = side_book b side in
      if sb_size sb = 0 then None else Some (en_lv (sb_e sb ! (sb_size sb - 1))))"

definition qty_at :: "OrderBook \<Rightarrow> Side \<Rightarrow> Price \<Rightarrow> Qty" where
  "qty_at b side price =
     (let sb = side_book b side; pos = find_pos sb side price in
      if pos < sb_size sb \<and> entry_price (sb_e sb ! pos) = price
      then lv_qty (en_lv (sb_e sb ! pos)) else 0)"

text \<open>The loop of \<^verbatim>\<open>total_qty\<close>: \<open>n\<close> iterations are left, the next one reads index \<open>i\<close>.\<close>

primrec total_qty_loop :: "SideBook \<Rightarrow> nat \<Rightarrow> nat \<Rightarrow> u64 \<Rightarrow> Qty" where
  "total_qty_loop sb 0 i acc = ucast acc"
| "total_qty_loop sb (Suc n) i acc =
     (let acc = acc + ucast (lv_qty (en_lv (sb_e sb ! (sb_size sb - 1 - i)))) in
      if acc \<ge> ucast kQtyMax then kQtyMax else total_qty_loop sb n (i + 1) acc)"

definition total_qty :: "OrderBook \<Rightarrow> Side \<Rightarrow> nat \<Rightarrow> Qty" where
  "total_qty b side top_n =
     (let sb = side_book b side in total_qty_loop sb (min top_n (sb_size sb)) 0 0)"

definition crossed :: "OrderBook \<Rightarrow> bool" where
  "crossed b =
     (let bids = ob_bids b; asks = ob_asks b in
      sb_size bids \<noteq> 0 \<and> sb_size asks \<noteq> 0 \<and>
      entry_price (sb_e bids ! (sb_size bids - 1)) \<ge> entry_price (sb_e asks ! (sb_size asks - 1)))"

section \<open>The ladder and its invariant\<close>

definition ladder :: "SideBook \<Rightarrow> Entry list" where
  "ladder sb = take (sb_size sb) (sb_e sb)"

definition ordered :: "Side \<Rightarrow> Entry list \<Rightarrow> bool" where
  "ordered s L = sorted_wrt (\<lambda>x y. better s (entry_price y) (entry_price x)) L"

definition entry_ok :: "Entry \<Rightarrow> bool" where
  "entry_ok e = (0 < lv_qty (en_lv e) \<and> 1 \<le> lv_orders (en_lv e))"

definition sb_inv :: "Side \<Rightarrow> SideBook \<Rightarrow> bool" where
  "sb_inv s sb = (sb_size sb \<le> length (sb_e sb) \<and> ordered s (ladder sb) \<and> (\<forall>e \<in> set (ladder sb). entry_ok e))"

definition ob_inv :: "OrderBook \<Rightarrow> bool" where
  "ob_inv b = (sb_inv Side_buy (ob_bids b) \<and> sb_inv Side_sell (ob_asks b) \<and>
     length (sb_e (ob_bids b)) = length (sb_e (ob_asks b)))"

text \<open>The abstract value of one side: the tracked prices with their level and incarnation.\<close>

definition lookup_of :: "Entry list \<Rightarrow> Price \<rightharpoonup> Entry" where
  "lookup_of L = map_of (map (\<lambda>e. (entry_price e, e)) L)"

definition ob_lookup :: "OrderBook \<Rightarrow> Side \<Rightarrow> Price \<rightharpoonup> Entry" where
  "ob_lookup b s = lookup_of (ladder (side_book b s))"

lemma better_irrefl [simp]: "\<not> better s a a"
  by (simp add: better_def)

lemma better_trans: "better s a b \<Longrightarrow> better s b c \<Longrightarrow> better s a c"
  by (auto simp: better_def split: if_splits)

lemma better_total: "a \<noteq> b \<Longrightarrow> better s a b \<or> better s b a"
  by (auto simp: better_def)

lemma better_asym: "better s a b \<Longrightarrow> \<not> better s b a"
  by (auto simp: better_def split: if_splits)

lemma not_better_trans: "\<not> better s p a \<Longrightarrow> better s b a \<Longrightarrow> \<not> better s p b"
  by (auto simp: better_def split: if_splits)

lemma length_ladder: "sb_size sb \<le> length (sb_e sb) \<Longrightarrow> length (ladder sb) = sb_size sb"
  by (simp add: ladder_def)

lemma nth_ladder: "i < sb_size sb \<Longrightarrow> ladder sb ! i = sb_e sb ! i"
  by (simp add: ladder_def)

lemma ordered_nth: "ordered s L \<Longrightarrow> i < j \<Longrightarrow> j < length L \<Longrightarrow> better s (entry_price (L ! j)) (entry_price (L ! i))"
  by (simp add: ordered_def sorted_wrt_iff_nth_less)

lemma ordered_append:
  "ordered s (A @ B) \<longleftrightarrow> ordered s A \<and> ordered s B \<and>
     (\<forall>x \<in> set A. \<forall>y \<in> set B. better s (entry_price y) (entry_price x))"
  by (simp add: ordered_def sorted_wrt_append)

lemma ordered_Cons:
  "ordered s (x # L) \<longleftrightarrow> (\<forall>y \<in> set L. better s (entry_price y) (entry_price x)) \<and> ordered s L"
  by (simp add: ordered_def)

lemma ordered_Nil [simp]: "ordered s []"
  by (simp add: ordered_def)

lemma ordered_tl: "ordered s L \<Longrightarrow> ordered s (tl L)"
  by (cases L) (simp_all add: ordered_Cons)

section \<open>find\_pos is the linear search\<close>

text \<open>The reference definition: the number of levels strictly worse than \<open>price\<close>, from the front.\<close>

definition worse_prefix :: "Side \<Rightarrow> Price \<Rightarrow> Entry list \<Rightarrow> Entry list" where
  "worse_prefix s price L = takeWhile (\<lambda>e. better s price (entry_price e)) L"

lemma worse_prefix_length_eqI:
  assumes "k \<le> length L" "\<forall>i < k. better s p (entry_price (L ! i))"
    "\<forall>i. k \<le> i \<longrightarrow> i < length L \<longrightarrow> \<not> better s p (entry_price (L ! i))"
  shows "length (worse_prefix s p L) = k"
proof (cases "k = length L")
  case True
  then have "\<forall>x \<in> set L. better s p (entry_price x)"
    using assms(2) by (auto simp: in_set_conv_nth)
  then show ?thesis using True unfolding worse_prefix_def by (subst takeWhile_eq_all_conv [THEN iffD2]) auto
next
  case False
  with assms(1) have "k < length L" by simp
  then have "takeWhile (\<lambda>e. better s p (entry_price e)) L = take k L"
    using assms(2,3) by (intro takeWhile_eq_take_P_nth) auto
  with \<open>k < length L\<close> show ?thesis by (simp add: worse_prefix_def)
qed

lemma find_window_spec:
  assumes "i = find_window sb s p stop j" "stop \<le> j"
  shows "stop \<le> i" "i \<le> j" "\<forall>k. i \<le> k \<longrightarrow> k < j \<longrightarrow> \<not> better s p (entry_price (sb_e sb ! k))"
    "stop < i \<longrightarrow> better s p (entry_price (sb_e sb ! (i - 1)))"
proof -
  have "stop \<le> i \<and> i \<le> j \<and> (\<forall>k. i \<le> k \<longrightarrow> k < j \<longrightarrow> \<not> better s p (entry_price (sb_e sb ! k))) \<and>
    (stop < i \<longrightarrow> better s p (entry_price (sb_e sb ! (i - 1))))"
    using assms
  proof (induction j arbitrary: i)
    case 0
    then show ?case by simp
  next
    case (Suc j)
    show ?case
    proof (cases "Suc j > stop \<and> \<not> better s p (entry_price (sb_e sb ! j))")
      case True
      with Suc.prems have "i = find_window sb s p stop j" "stop \<le> j" by auto
      from Suc.IH [OF this] True show ?thesis by (auto simp: less_Suc_eq)
    next
      case False
      with Suc.prems show ?thesis by auto
    qed
  qed
  then show "stop \<le> i" "i \<le> j" "\<forall>k. i \<le> k \<longrightarrow> k < j \<longrightarrow> \<not> better s p (entry_price (sb_e sb ! k))"
    "stop < i \<longrightarrow> better s p (entry_price (sb_e sb ! (i - 1)))" by blast+
qed

lemma find_binary_spec:
  assumes "ordered s (ladder sb)" "sb_size sb \<le> length (sb_e sb)" "lo \<le> hi" "hi \<le> sb_size sb"
    "\<forall>i < lo. better s p (entry_price (sb_e sb ! i))"
    "\<forall>i. hi \<le> i \<longrightarrow> i < sb_size sb \<longrightarrow> \<not> better s p (entry_price (sb_e sb ! i))"
  shows "find_binary sb s p lo hi = length (worse_prefix s p (ladder sb))"
  using assms
proof (induction sb s p lo hi rule: find_binary.induct)
  case (1 sb s p lo hi)
  have mono: "better s (entry_price (sb_e sb ! j)) (entry_price (sb_e sb ! i))" if "i < j" "j < sb_size sb" for i j
    using ordered_nth [OF 1(3) that(1)] that 1(4) by (simp add: length_ladder nth_ladder)
  show ?case
  proof (cases "lo < hi")
    case False
    with 1 have "find_binary sb s p lo hi = lo" "lo = hi" by (simp_all add: find_binary.simps)
    moreover have "length (worse_prefix s p (ladder sb)) = lo"
      using 1(4-8) \<open>lo = hi\<close> by (intro worse_prefix_length_eqI) (auto simp: length_ladder nth_ladder)
    ultimately show ?thesis by simp
  next
    case True
    define mid where "mid = lo + (hi - lo) div 2"
    have mid: "lo \<le> mid" "mid < hi" "mid < sb_size sb" using True 1(6) by (auto simp: mid_def)
    show ?thesis
    proof (cases "better s p (entry_price (sb_e sb ! mid))")
      case B: True
      have "\<forall>i < mid + 1. better s p (entry_price (sb_e sb ! i))"
        using B mono [OF _ mid(3)] better_trans [OF B] by (metis Suc_eq_plus1 less_SucE)
      with 1(1) [OF True mid_def B] 1(3-8) mid B True show ?thesis
        by (subst find_binary.simps) (simp add: mid_def [symmetric] Let_def)
    next
      case B: False
      have "\<forall>i. mid \<le> i \<longrightarrow> i < sb_size sb \<longrightarrow> \<not> better s p (entry_price (sb_e sb ! i))"
        using B mono not_better_trans [OF B] by (metis le_neq_implies_less)
      with 1(2) [OF True mid_def B] 1(3-8) mid B True show ?thesis
        by (subst find_binary.simps) (simp add: mid_def [symmetric] Let_def)
    qed
  qed
qed

lemma find_pos_eq:
  assumes "sb_inv s sb"
  shows "find_pos sb s p = length (worse_prefix s p (ladder sb))"
proof -
  have sz: "sb_size sb \<le> length (sb_e sb)" and ord: "ordered s (ladder sb)"
    using assms by (auto simp: sb_inv_def)
  define stop where "stop = (if sb_size sb > kWindow then sb_size sb - kWindow else 0)"
  define i where "i = find_window sb s p stop (sb_size sb)"
  have "stop \<le> sb_size sb" by (simp add: stop_def)
  note w = find_window_spec [OF i_def this]
  have mono: "better s (entry_price (sb_e sb ! j)) (entry_price (sb_e sb ! i))" if "i < j" "j < sb_size sb" for i j
    using ordered_nth [OF ord that(1)] that sz by (simp add: length_ladder nth_ladder)
  show ?thesis
  proof (cases "i > stop \<or> stop = 0")
    case True
    have "better s p (entry_price (sb_e sb ! k))" if "k < i" for k
    proof -
      have "stop < i" using True that by auto
      with w(4) have b: "better s p (entry_price (sb_e sb ! (i - 1)))" by simp
      show ?thesis
      proof (cases "k = i - 1")
        case True
        with b show ?thesis by simp
      next
        case False
        with that w(2) have "better s (entry_price (sb_e sb ! (i - 1))) (entry_price (sb_e sb ! k))"
          by (intro mono) auto
        then show ?thesis by (rule better_trans [OF b])
      qed
    qed
    with w sz have "length (worse_prefix s p (ladder sb)) = i"
      by (intro worse_prefix_length_eqI) (auto simp: length_ladder nth_ladder)
    with True show ?thesis by (simp add: find_pos_def stop_def [symmetric] i_def [symmetric] Let_def)
  next
    case False
    with w(1) have "i = stop" by simp
    then have "find_binary sb s p 0 stop = length (worse_prefix s p (ladder sb))"
      using w(3) \<open>stop \<le> sb_size sb\<close> by (intro find_binary_spec [OF ord sz]) auto
    with False show ?thesis by (simp add: find_pos_def stop_def [symmetric] i_def [symmetric] Let_def)
  qed
qed

section \<open>What the array operations do to the ladder\<close>

lemma ladder_split: "sb_e sb = ladder sb @ drop (sb_size sb) (sb_e sb)"
  by (simp add: ladder_def)

lemma ladder_write:
  assumes "ladder sb = A @ e # B" "sb_size sb \<le> length (sb_e sb)"
  shows "ladder (sb\<lparr>sb_e := (sb_e sb)[length A := e']\<rparr>) = A @ e' # B"
proof -
  have "length A < sb_size sb" using assms length_ladder [of sb] by simp
  then have "ladder (sb\<lparr>sb_e := (sb_e sb)[length A := e']\<rparr>) = (ladder sb)[length A := e']"
    by (simp add: ladder_def take_update_less)
  then show ?thesis using assms(1) by simp
qed

lemma ladder_insert:
  assumes "ladder sb = A @ B" "sb_size sb < length (sb_e sb)"
  defines "sb' \<equiv> (shift_up sb (length A))\<lparr>sb_size := sb_size sb + 1\<rparr>"
  shows "ladder (sb'\<lparr>sb_e := (sb_e sb')[length A := e']\<rparr>) = A @ e' # B"
    and "length (sb_e sb') = length (sb_e sb)"
proof -
  define R where "R = drop (sb_size sb) (sb_e sb)"
  have R: "sb_e sb = A @ B @ R" "length A + length B = sb_size sb" "R \<noteq> []"
    using ladder_split [of sb] length_ladder [of sb] assms(1,2) by (simp_all add: R_def)
  then obtain r R' where r: "R = r # R'" by (cases R) auto
  show "ladder (sb'\<lparr>sb_e := (sb_e sb')[length A := e']\<rparr>) = A @ e' # B"
    using R(1) unfolding sb'_def shift_up_def ladder_def std_copy_backward_def R(2) [symmetric] r
    by (cases B) (auto simp: list_update_append)
  show "length (sb_e sb') = length (sb_e sb)"
    using R assms(2) by (simp add: sb'_def shift_up_def std_copy_backward_def)
qed

lemma ladder_evict:
  assumes "ladder sb = A @ B" "A \<noteq> []" "sb_size sb \<le> length (sb_e sb)"
  defines "sb' \<equiv> shift_down sb 1 (length A)"
  shows "ladder (sb'\<lparr>sb_e := (sb_e sb')[length A - 1 := e']\<rparr>) = tl A @ e' # B"
    and "length (sb_e sb') = length (sb_e sb)"
proof -
  define R where "R = drop (sb_size sb) (sb_e sb)"
  have R: "sb_e sb = A @ B @ R" "length A + length B = sb_size sb"
    using ladder_split [of sb] length_ladder [of sb] assms(1,3) by (simp_all add: R_def)
  obtain a A' where A: "A = a # A'" using assms(2) by (cases A) auto
  have e: "sb_e sb' = A' @ drop (length A') (sb_e sb)"
    using R by (simp add: sb'_def shift_down_def std_copy_def A)
  have "drop (length A') (a # A' @ B @ R) = drop (length A') (a # A') @ B @ R"
    using drop_append [of "length A'" "a # A'" "B @ R"] by simp
  moreover have "length (drop (length A') (a # A')) = 1" by simp
  then obtain z where "drop (length A') (a # A') = [z]" by (metis One_nat_def length_0_conv length_Suc_conv)
  ultimately have e2: "sb_e sb' = A' @ z # B @ R" using e R by (simp add: A)
  then show "ladder (sb'\<lparr>sb_e := (sb_e sb')[length A - 1 := e']\<rparr>) = tl A @ e' # B"
    unfolding ladder_def by (simp add: A sb'_def shift_down_def R(2) [symmetric])
  show "length (sb_e sb') = length (sb_e sb)" using e2 R by (simp add: A)
qed

lemma ladder_erase:
  fixes e' :: Entry
  assumes "ladder sb = A @ e # B" "sb_size sb \<le> length (sb_e sb)"
  defines "sb1 \<equiv> sb\<lparr>sb_e := (sb_e sb)[length A := e']\<rparr>"
  defines "sb2 \<equiv> (shift_down sb1 (length A + 1) (sb_size sb))\<lparr>sb_size := sb_size sb - 1\<rparr>"
  shows "ladder sb2 = A @ B" and "length (sb_e sb2) = length (sb_e sb)"
proof -
  define R where "R = drop (sb_size sb) (sb_e sb)"
  have R: "sb_e sb = A @ e # B @ R" "Suc (length A + length B) = sb_size sb"
    using ladder_split [of sb] length_ladder [of sb] assms(1,2) by (simp_all add: R_def)
  show "ladder sb2 = A @ B" "length (sb_e sb2) = length (sb_e sb)"
    using R(1) unfolding sb2_def sb1_def shift_down_def ladder_def std_copy_def R(2) [symmetric] by simp_all
qed

text \<open>The two outcomes of the search: the level at the price, or the hole it would go into.\<close>

lemma search_cases:
  assumes "sb_inv s sb"
  obtains (found) A e B where "ladder sb = A @ e # B" "find_pos sb s p = length A" "entry_price e = p"
      "length A < sb_size sb" "sb_e sb ! length A = e"
  | (absent) A B where "ladder sb = A @ B" "find_pos sb s p = length A"
      "\<forall>x \<in> set A. better s p (entry_price x)" "\<forall>x \<in> set B. better s (entry_price x) p"
      "\<not> (length A < sb_size sb \<and> entry_price (sb_e sb ! length A) = p)"
proof -
  define A where "A = worse_prefix s p (ladder sb)"
  define B where "B = dropWhile (\<lambda>e. better s p (entry_price e)) (ladder sb)"
  have L: "ladder sb = A @ B" by (simp add: A_def B_def worse_prefix_def)
  have pos: "find_pos sb s p = length A" by (simp add: find_pos_eq [OF assms] A_def)
  have Ab: "\<forall>x \<in> set A. better s p (entry_price x)"
    by (auto simp: A_def worse_prefix_def dest: set_takeWhileD)
  have sz: "length A + length B = sb_size sb" using assms L length_ladder [of sb] by (simp add: sb_inv_def)
  have ord: "ordered s (A @ B)" using assms L by (simp add: sb_inv_def)
  have nth: "sb_e sb ! length A = hd B" if "B \<noteq> []"
    using nth_ladder [of "length A" sb] L sz that by (cases B) (auto simp: nth_append)
  show thesis
  proof (cases "B \<noteq> [] \<and> entry_price (hd B) = p")
    case True
    then have B: "B = hd B # tl B" by simp
    show thesis
    proof (rule found)
      show "ladder sb = A @ hd B # tl B" using L B by simp
      show "length A < sb_size sb" using sz B by (metis True length_greater_0_conv less_add_same_cancel1)
    qed (use pos True nth in auto)
  next
    case False
    have "\<forall>x \<in> set B. better s (entry_price x) p"
    proof (cases B)
      case (Cons y B')
      have "\<not> better s p (entry_price y)" using hd_dropWhile Cons B_def by (metis list.sel(1) list.distinct(1))
      moreover have "entry_price y \<noteq> p" using False Cons by simp
      ultimately have "better s (entry_price y) p" using better_total by blast
      moreover have "\<forall>x \<in> set B'. better s (entry_price x) (entry_price y)"
        using ord Cons by (simp add: ordered_append ordered_Cons)
      ultimately show ?thesis using Cons better_trans by auto
    qed simp
    moreover have "\<not> (length A < sb_size sb \<and> entry_price (sb_e sb ! length A) = p)"
      using False nth sz by (cases "B = []") auto
    ultimately show thesis using absent L pos Ab by blast
  qed
qed

lemma dom_lookup_of: "dom (lookup_of L) = entry_price ` set L"
  by (force simp: lookup_of_def dom_map_of_conv_image_fst)

lemma ordered_distinct: "ordered s L \<Longrightarrow> distinct (map entry_price L)"
  by (induction L) (auto simp: ordered_Cons)

lemma lookup_of_SomeD: "lookup_of L p = Some e \<Longrightarrow> e \<in> set L \<and> entry_price e = p"
  by (auto simp: lookup_of_def dest: map_of_SomeD)

lemma lookup_of_mem: "ordered s L \<Longrightarrow> e \<in> set L \<Longrightarrow> lookup_of L (entry_price e) = Some e"
  unfolding lookup_of_def by (rule map_of_is_SomeI) (auto dest: ordered_distinct simp: comp_def)

lemma lookup_of_none: "p \<notin> entry_price ` set L \<Longrightarrow> lookup_of L p = None"
  using dom_lookup_of [of L] by blast

lemma lookup_of_append: "lookup_of (A @ B) = lookup_of B ++ lookup_of A"
  by (simp add: lookup_of_def)

lemma lookup_of_Cons: "lookup_of (e # B) = (lookup_of B)(entry_price e \<mapsto> e)"
  by (simp add: lookup_of_def)

lemma lookup_of_Nil [simp]: "lookup_of [] = Map.empty"
  by (simp add: lookup_of_def)

lemma lookup_of_insert:
  "entry_price e \<notin> entry_price ` set A \<Longrightarrow> lookup_of (A @ e # B) = (lookup_of (A @ B))(entry_price e \<mapsto> e)"
  using lookup_of_none [of "entry_price e" A]
  by (auto simp: lookup_of_append lookup_of_Cons map_add_def fun_eq_iff split: option.splits)

lemma lookup_of_replace:
  assumes "ordered s (A @ e # B)" "entry_price e' = entry_price e"
  shows "lookup_of (A @ e' # B) = (lookup_of (A @ e # B))(entry_price e \<mapsto> e')"
proof -
  have "entry_price e \<notin> entry_price ` set A" using assms(1) by (auto simp: ordered_append)
  then show ?thesis using assms(2) by (simp add: lookup_of_insert)
qed

lemma lookup_of_delete:
  assumes "ordered s (A @ e # B)"
  shows "lookup_of (A @ B) = (lookup_of (A @ e # B))(entry_price e := None)"
proof -
  have "entry_price e \<notin> entry_price ` set A" "entry_price e \<notin> entry_price ` set (A @ B)"
    using assms by (auto simp: ordered_append ordered_Cons)
  then show ?thesis by (simp add: lookup_of_insert lookup_of_none fun_upd_idem)
qed

lemma card_dom_lookup_of: "ordered s L \<Longrightarrow> card (dom (lookup_of L)) = length L"
  using ordered_distinct [of s L] distinct_card by (fastforce simp: dom_lookup_of)

lemma finite_dom_lookup_of [simp]: "finite (dom (lookup_of L))"
  by (simp add: dom_lookup_of)

section \<open>Specification: a bounded map from prices to levels\<close>

text \<open>
  What the class promises, with no array in sight: each side is a finite map; a price that is
  tracked is joined unless a 32-bit counter would overflow; a new price is stored while there is
  room; on a full side it replaces the worst tracked price unless it is itself the worst.
\<close>

record abs_book =
  ab_side :: "bool \<Rightarrow> Price \<rightharpoonup> Entry"
  ab_next :: LevelId
  ab_cap :: nat

definition new_entry :: "Price \<Rightarrow> Qty \<Rightarrow> LevelId \<Rightarrow> Entry" where
  "new_entry p q i = \<lparr>en_lv = \<lparr>lv_price = p, lv_qty = q, lv_orders = 1\<rparr>, en_id = i\<rparr>"

definition joined_entry :: "Entry \<Rightarrow> Qty \<Rightarrow> Entry" where
  "joined_entry e q = e\<lparr>en_lv := (en_lv e)\<lparr>lv_qty := lv_qty (en_lv e) + q, lv_orders := lv_orders (en_lv e) + 1\<rparr>\<rparr>"

definition reduced_entry :: "Entry \<Rightarrow> Qty \<Rightarrow> bool \<Rightarrow> Entry" where
  "reduced_entry e q whole = e\<lparr>en_lv := (en_lv e)\<lparr>lv_qty := lv_qty (en_lv e) - q,
     lv_orders := (if whole \<and> lv_orders (en_lv e) > 1 then lv_orders (en_lv e) - 1 else lv_orders (en_lv e))\<rparr>\<rparr>"

definition worst_price :: "bool \<Rightarrow> Price set \<Rightarrow> Price" where
  "worst_price buy P = (if buy then Min P else Max P)"

definition spec_store :: "abs_book \<Rightarrow> bool \<Rightarrow> (Price \<rightharpoonup> Entry) \<Rightarrow> Price \<Rightarrow> Qty \<Rightarrow> abs_book \<times> LevelId" where
  "spec_store a buy m p q =
     (a\<lparr>ab_side := (ab_side a)(buy := m(p \<mapsto> new_entry p q (ab_next a))), ab_next := ab_next a + 1\<rparr>, ab_next a)"

definition spec_add_order :: "abs_book \<Rightarrow> Side \<Rightarrow> Price \<Rightarrow> Qty \<Rightarrow> abs_book \<times> LevelId" where
  "spec_add_order a s p q =
     (let buy = (s = Side_buy); m = ab_side a buy; w = worst_price buy (dom m) in
      if q = 0 then (a, 0) else
      case m p of
        Some e \<Rightarrow>
          if 2 ^ 32 \<le> unat (lv_qty (en_lv e)) + unat q \<or> unat (lv_orders (en_lv e)) = 2 ^ 32 - 1 then (a, 0)
          else (a\<lparr>ab_side := (ab_side a)(buy := m(p \<mapsto> joined_entry e q))\<rparr>, en_id e)
      | None \<Rightarrow>
          if card (dom m) < ab_cap a then spec_store a buy m p q
          else if dom m = {} \<or> better s w p then (a, 0)
          else spec_store a buy (m(w := None)) p q)"

definition spec_take :: "abs_book \<Rightarrow> Side \<Rightarrow> Price \<Rightarrow> Qty \<Rightarrow> LevelId \<Rightarrow> bool \<Rightarrow> abs_book \<times> bool" where
  "spec_take a s p q lid whole =
     (let buy = (s = Side_buy); m = ab_side a buy in
      case m p of
        None \<Rightarrow> (a, False)
      | Some e \<Rightarrow>
          if q = 0 \<or> (lid \<noteq> 0 \<and> en_id e \<noteq> lid) \<or> unat (lv_qty (en_lv e)) < unat q then (a, False)
          else (a\<lparr>ab_side := (ab_side a)(buy :=
                  m(p := if q = lv_qty (en_lv e) then None else Some (reduced_entry e q whole)))\<rparr>, True))"

definition ob_abs :: "OrderBook \<Rightarrow> abs_book" where
  "ob_abs b = \<lparr>ab_side = (\<lambda>buy. ob_lookup b (if buy then Side_buy else Side_sell)),
     ab_next = ob_next_id b, ab_cap = max_levels_per_side b\<rparr>"

lemma side_book_set [simp]:
  "side_book (set_side_book b s sb) t = (if (t = Side_buy) = (s = Side_buy) then sb else side_book b t)"
  by (simp add: side_book_def set_side_book_def)

lemma set_side_book_sel [simp]:
  "ob_next_id (set_side_book b s sb) = ob_next_id b"
  "ob_updates (set_side_book b s sb) = ob_updates b"
  "ob_overflows (set_side_book b s sb) = ob_overflows b"
  by (simp_all add: set_side_book_def)

lemma side_book_upd [simp]:
  "side_book (b\<lparr>ob_next_id := n\<rparr>) s = side_book b s"
  "side_book (b\<lparr>ob_updates := n\<rparr>) s = side_book b s"
  "side_book (b\<lparr>ob_overflows := n\<rparr>) s = side_book b s"
  by (simp_all add: side_book_def)

lemma better_same_side: "(s = Side_buy) = (t = Side_buy) \<Longrightarrow> better s = better t"
  by (auto simp: better_def fun_eq_iff)

lemma sb_inv_same_side: "(s = Side_buy) = (t = Side_buy) \<Longrightarrow> sb_inv s = sb_inv t"
  by (simp add: sb_inv_def ordered_def fun_eq_iff better_same_side [of s t])

lemma ob_inv_iff:
  "ob_inv b \<longleftrightarrow> (\<forall>s. sb_inv s (side_book b s)) \<and> (\<forall>s. length (sb_e (side_book b s)) = max_levels_per_side b)"
  (is "?L = ?R")
proof
  assume L: ?L
  have "sb_inv s (side_book b s) \<and> length (sb_e (side_book b s)) = max_levels_per_side b" for s
    using L sb_inv_same_side [of s Side_sell] by (cases "s = Side_buy") (auto simp: ob_inv_def side_book_def max_levels_per_side_def)
  then show ?R by blast
next
  assume R: ?R
  then have "sb_inv Side_buy (side_book b Side_buy)" "sb_inv Side_sell (side_book b Side_sell)"
    "length (sb_e (side_book b Side_sell)) = max_levels_per_side b" by blast+
  then show ?L by (simp add: ob_inv_def side_book_def max_levels_per_side_def)
qed

lemma ob_abs_side: "ab_side (ob_abs b) (s = Side_buy) = ob_lookup b s"
  by (auto simp: ob_abs_def ob_lookup_def side_book_def)

text \<open>Replacing one side keeps the invariant when the new side is in order.\<close>

lemma ob_inv_set:
  assumes "ob_inv b" "sb_inv s sb" "length (sb_e sb) = max_levels_per_side b"
  shows "ob_inv (set_side_book b s sb)"
proof -
  have "max_levels_per_side (set_side_book b s sb) = max_levels_per_side b"
    using assms(3) by (simp add: max_levels_per_side_def set_side_book_def)
  moreover have "sb_inv t (side_book (set_side_book b s sb) t) \<and>
      length (sb_e (side_book (set_side_book b s sb) t)) = max_levels_per_side b" for t
    using assms sb_inv_same_side [of s t] by (cases "(t = Side_buy) = (s = Side_buy)") (simp_all add: ob_inv_iff)
  ultimately show ?thesis by (simp add: ob_inv_iff)
qed

lemma ob_inv_side:
  assumes "ob_inv b"
  shows "sb_inv s (side_book b s)" "sb_size (side_book b s) \<le> length (sb_e (side_book b s))"
    "ordered s (ladder (side_book b s))" "\<forall>e \<in> set (ladder (side_book b s)). entry_ok e"
    "length (sb_e (side_book b s)) = max_levels_per_side b"
proof -
  show 1: "sb_inv s (side_book b s)" and "length (sb_e (side_book b s)) = max_levels_per_side b"
    using assms by (simp_all add: ob_inv_iff)
  from 1 show "sb_size (side_book b s) \<le> length (sb_e (side_book b s))"
    "ordered s (ladder (side_book b s))" "\<forall>e \<in> set (ladder (side_book b s)). entry_ok e"
    unfolding sb_inv_def by blast+
qed

lemma ob_inv_upd [simp]:
  "ob_inv (b\<lparr>ob_next_id := n\<rparr>) = ob_inv b" "ob_inv (b\<lparr>ob_updates := n\<rparr>) = ob_inv b"
  "ob_inv (b\<lparr>ob_overflows := n\<rparr>) = ob_inv b"
  by (simp_all add: ob_inv_def)

lemma max_levels_upd [simp]:
  "max_levels_per_side (b\<lparr>ob_next_id := n\<rparr>) = max_levels_per_side b"
  "max_levels_per_side (b\<lparr>ob_updates := n\<rparr>) = max_levels_per_side b"
  "max_levels_per_side (b\<lparr>ob_overflows := n\<rparr>) = max_levels_per_side b"
  by (simp_all add: max_levels_per_side_def)

lemma ob_abs_set:
  assumes "ob_inv b" "length (sb_e sb) = max_levels_per_side b"
  shows "ob_abs (set_side_book b s sb) =
    (ob_abs b)\<lparr>ab_side := (ab_side (ob_abs b))((s = Side_buy) := lookup_of (ladder sb))\<rparr>"
proof -
  have "max_levels_per_side (set_side_book b s sb) = max_levels_per_side b"
    using assms(2) by (simp add: max_levels_per_side_def set_side_book_def)
  then show ?thesis by (auto simp: ob_abs_def ob_lookup_def fun_eq_iff)
qed

lemma ob_abs_upd [simp]:
  "ob_abs (b\<lparr>ob_next_id := n\<rparr>) = (ob_abs b)\<lparr>ab_next := n\<rparr>"
  "ob_abs (b\<lparr>ob_updates := n\<rparr>) = ob_abs b"
  "ob_abs (b\<lparr>ob_overflows := n\<rparr>) = ob_abs b"
  by (simp_all add: ob_abs_def ob_lookup_def)

lemma ob_abs_next [simp]: "ab_next (ob_abs b) = ob_next_id b" "ab_cap (ob_abs b) = max_levels_per_side b"
  by (simp_all add: ob_abs_def)

lemma kQtyMax_check: "lv_qty lv > kQtyMax - q \<longleftrightarrow> 2 ^ 32 \<le> unat (lv_qty lv) + unat q"
  using word_gt_max_minus_iff [of q "lv_qty lv"] by (simp add: kQtyMax_def)

lemma kOrdersMax_check: "n = kOrdersMax \<longleftrightarrow> unat n = 2 ^ 32 - 1"
  by (simp add: kOrdersMax_def word_unat_eq_iff unsigned_minus_1_eq_mask mask_eq_exp_minus_1)

lemma joined_entry_ok:
  assumes "entry_ok e" "q \<noteq> 0" "\<not> 2 ^ 32 \<le> unat (lv_qty (en_lv e)) + unat q" "\<not> unat (lv_orders (en_lv e)) = 2 ^ 32 - 1"
  shows "entry_ok (joined_entry e q)"
proof -
  have "unat (lv_orders (en_lv e)) < 2 ^ 32" using unsigned_less [of "lv_orders (en_lv e)"] by simp
  with assms(4) have "unat (lv_orders (en_lv e) + 1) = unat (lv_orders (en_lv e)) + 1"
    by (subst unat_add_no_overflow) auto
  moreover have "unat (lv_qty (en_lv e) + q) = unat (lv_qty (en_lv e)) + unat q"
    using assms(3) by (intro unat_add_no_overflow) simp
  ultimately show ?thesis using assms(1)
    by (simp add: entry_ok_def joined_entry_def word_less_nat_alt word_le_nat_alt)
qed

lemma entry_price_simps [simp]:
  "entry_price (joined_entry e q) = entry_price e" "entry_price (reduced_entry e q w) = entry_price e"
  "entry_price (new_entry p q i) = p"
  "en_id (joined_entry e q) = en_id e" "en_id (reduced_entry e q w) = en_id e" "en_id (new_entry p q i) = i"
  by (simp_all add: joined_entry_def reduced_entry_def new_entry_def)

lemma reduced_entry_ok:
  assumes "entry_ok e" "q \<noteq> lv_qty (en_lv e)"
  shows "entry_ok (reduced_entry e q w)"
proof -
  have "lv_qty (en_lv e) - q \<noteq> 0" using assms(2) by auto
  moreover have "1 \<le> lv_orders (en_lv e) - 1" if "lv_orders (en_lv e) > 1"
    using that unat_minus_le [of 1 "lv_orders (en_lv e)"] by (simp add: word_less_nat_alt word_le_nat_alt)
  ultimately show ?thesis using assms(1) by (auto simp: entry_ok_def reduced_entry_def word_gt_0)
qed

lemma ordered_replace: "ordered s (A @ e # B) \<Longrightarrow> entry_price e' = entry_price e \<Longrightarrow> ordered s (A @ e' # B)"
  by (simp add: ordered_append ordered_Cons)

lemma ordered_delete: "ordered s (A @ e # B) \<Longrightarrow> ordered s (A @ B)"
  by (simp add: ordered_append ordered_Cons)

lemma ordered_between:
  "ordered s (A @ B) \<Longrightarrow> \<forall>x \<in> set A. better s (entry_price e) (entry_price x) \<Longrightarrow>
   \<forall>x \<in> set B. better s (entry_price x) (entry_price e) \<Longrightarrow> ordered s (A @ e # B)"
  by (simp add: ordered_append ordered_Cons)

section \<open>Every operation implements its specification\<close>

text \<open>A rewritten side: array length kept, ladder ordered, levels non-empty.\<close>

lemma set_side_ok:
  assumes "ob_inv b" "length (sb_e sb) = length (sb_e (side_book b s))" "sb_size sb \<le> length (sb_e sb)"
    "ordered s (ladder sb)" "\<forall>e \<in> set (ladder sb). entry_ok e"
  shows "ob_inv (set_side_book b s sb)"
    "ob_abs (set_side_book b s sb) =
      (ob_abs b)\<lparr>ab_side := (ab_side (ob_abs b))((s = Side_buy) := lookup_of (ladder sb))\<rparr>"
proof -
  have len: "length (sb_e sb) = max_levels_per_side b" using assms(1,2) by (simp add: ob_inv_iff)
  show "ob_inv (set_side_book b s sb)"
    by (rule ob_inv_set [OF assms(1) _ len]) (use assms(3-5) in \<open>simp add: sb_inv_def\<close>)
  show "ob_abs (set_side_book b s sb) =
      (ob_abs b)\<lparr>ab_side := (ab_side (ob_abs b))((s = Side_buy) := lookup_of (ladder sb))\<rparr>"
    by (rule ob_abs_set [OF assms(1) len])
qed

lemma place_level_spec:
  assumes "ob_inv b" "length (sb_e sb) = length (sb_e (side_book b s))" "sb_size sb \<le> length (sb_e sb)"
    "ladder (sb\<lparr>sb_e := (sb_e sb)[at := new_entry p q (ob_next_id b)]\<rparr>) = L"
    "ordered s L" "\<forall>e \<in> set L. entry_ok e"
    "lookup_of L = m(p \<mapsto> new_entry p q (ob_next_id b))"
  shows "ob_inv (fst (place_level b s sb at p q))"
    "map_prod ob_abs id (place_level b s sb at p q) = spec_store (ob_abs b) (s = Side_buy) m p q"
proof -
  define b' where "b' = b\<lparr>ob_next_id := ob_next_id b + 1, ob_updates := ob_updates b + 1\<rparr>"
  define sb' where "sb' = sb\<lparr>sb_e := (sb_e sb)[at := new_entry p q (ob_next_id b)]\<rparr>"
  have eq: "place_level b s sb at p q = (set_side_book b' s sb', ob_next_id b)"
    by (simp add: place_level_def b'_def sb'_def new_entry_def Let_def)
  have sb': "length (sb_e sb') = length (sb_e (side_book b' s))" "ordered s (ladder sb')"
    "\<forall>e \<in> set (ladder sb'). entry_ok e"
    using assms(2,5,6) unfolding b'_def sb'_def by (simp_all add: assms(4))
  have "ob_inv b'" "sb_size sb' \<le> length (sb_e sb')" using assms(1,3) by (simp_all add: b'_def sb'_def)
  note ok = set_side_ok [OF this(1) sb'(1) this(2) sb'(2,3)]
  show "ob_inv (fst (place_level b s sb at p q))" using ok(1) by (simp add: eq)
  show "map_prod ob_abs id (place_level b s sb at p q) = spec_store (ob_abs b) (s = Side_buy) m p q"
    using ok(2) assms(4,7) by (simp add: eq spec_store_def b'_def sb'_def)
qed

lemma add_order_joins:
  assumes inv: "ob_inv b" and q: "q \<noteq> 0"
    and f: "ladder (side_book b s) = A @ e # B" "find_pos (side_book b s) s p = length A" "entry_price e = p"
      "length A < sb_size (side_book b s)" "sb_e (side_book b s) ! length A = e"
  shows "ob_inv (fst (add_order b s p q)) \<and>
    map_prod ob_abs id (add_order b s p q) = spec_add_order (ob_abs b) s p q"
proof -
  define sb where "sb = side_book b s"
  have si: "sb_size sb \<le> length (sb_e sb)" "ordered s (A @ e # B)" "\<forall>x \<in> set (A @ e # B). entry_ok x"
    using ob_inv_side(2-4) [OF inv, of s] f(1) by (simp_all add: sb_def)
  have look: "ob_lookup b s p = Some e"
    using lookup_of_mem [OF si(2), of e] f(1,3) by (simp add: ob_lookup_def)
  show ?thesis
  proof (cases "2 ^ 32 \<le> unat (lv_qty (en_lv e)) + unat q \<or> unat (lv_orders (en_lv e)) = 2 ^ 32 - 1")
    case True
    then have c: "lv_qty (en_lv e) > kQtyMax - q \<or> lv_orders (en_lv e) = kOrdersMax"
      by (simp only: kQtyMax_check kOrdersMax_check)
    have a: "add_order b s p q = (b\<lparr>ob_overflows := ob_overflows b + 1\<rparr>, kNoLevel)"
      using c q f(2-5) by (simp add: add_order_def Let_def)
    have "spec_add_order (ob_abs b) s p q = (ob_abs b, 0)"
      using True q look by (simp add: spec_add_order_def ob_abs_side)
    then show ?thesis using inv by (simp add: a kNoLevel_def)
  next
    case False
    then have c: "\<not> (lv_qty (en_lv e) > kQtyMax - q \<or> lv_orders (en_lv e) = kOrdersMax)"
      by (simp only: kQtyMax_check kOrdersMax_check not_False_eq_True)
    define sb' where "sb' = sb\<lparr>sb_e := (sb_e sb)[length A := joined_entry e q]\<rparr>"
    define b' where "b' = b\<lparr>ob_updates := ob_updates b + 1\<rparr>"
    have a: "add_order b s p q = (set_side_book b' s sb', en_id e)"
      using c q f(2-5) by (simp add: add_order_def Let_def sb'_def b'_def sb_def joined_entry_def)
    have L': "ladder sb' = A @ joined_entry e q # B"
      unfolding sb'_def using f(1) si(1) sb_def by (intro ladder_write [of sb A e B]) simp_all
    have "entry_ok (joined_entry e q)" using False q si(3) by (intro joined_entry_ok) auto
    then have "ob_inv b'" "length (sb_e sb') = length (sb_e (side_book b' s))" "sb_size sb' \<le> length (sb_e sb')"
      "ordered s (ladder sb')" "\<forall>x \<in> set (ladder sb'). entry_ok x"
      using inv si ordered_replace [OF si(2), of "joined_entry e q"] by (auto simp: b'_def sb'_def sb_def L' [unfolded sb'_def sb_def])
    note ok = set_side_ok [OF this]
    have "lookup_of (ladder sb') = (ob_lookup b s)(p \<mapsto> joined_entry e q)"
      using lookup_of_replace [OF si(2), of "joined_entry e q"] f(1,3) by (simp add: L' ob_lookup_def)
    moreover have "spec_add_order (ob_abs b) s p q =
        ((ob_abs b)\<lparr>ab_side := (ab_side (ob_abs b))((s = Side_buy) := (ob_lookup b s)(p \<mapsto> joined_entry e q))\<rparr>, en_id e)"
      using False q look by (simp add: spec_add_order_def ob_abs_side)
    ultimately show ?thesis using ok by (simp add: a b'_def)
  qed
qed

lemma worst_price_hd:
  assumes "ordered s L" "L \<noteq> []"
  shows "worst_price (s = Side_buy) (dom (lookup_of L)) = entry_price (hd L)"
proof -
  obtain a L' where L: "L = a # L'" using assms(2) by (cases L) auto
  have "\<forall>y \<in> set L'. better s (entry_price y) (entry_price a)" using assms(1) by (simp add: L ordered_Cons)
  then show ?thesis
    unfolding worst_price_def dom_lookup_of L
    by (auto simp: better_def intro!: Min_eqI Max_eqI split: if_splits)
qed

lemma add_order_absent:
  assumes "q \<noteq> 0" "find_pos (side_book b s) s p = n"
    "\<not> (n < sb_size (side_book b s) \<and> entry_price (sb_e (side_book b s) ! n) = p)"
  shows "add_order b s p q =
    (let sb = side_book b s in
     if sb_size sb = length (sb_e sb) then
       let b = b\<lparr>ob_overflows := ob_overflows b + 1\<rparr> in
       if n = 0 then (b, kNoLevel) else place_level b s (shift_down sb 1 n) (n - 1) p q
     else place_level b s ((shift_up sb n)\<lparr>sb_size := sb_size sb + 1\<rparr>) n p q)"
  unfolding add_order_def Let_def assms(2) using assms(1,3) by (simp only: if_False)

lemma add_order_new:
  assumes inv: "ob_inv b" and q: "q \<noteq> 0"
    and f: "ladder (side_book b s) = A @ B" "find_pos (side_book b s) s p = length A"
      "\<forall>x \<in> set A. better s p (entry_price x)" "\<forall>x \<in> set B. better s (entry_price x) p"
      "\<not> (length A < sb_size (side_book b s) \<and> entry_price (sb_e (side_book b s) ! length A) = p)"
  shows "ob_inv (fst (add_order b s p q)) \<and>
    map_prod ob_abs id (add_order b s p q) = spec_add_order (ob_abs b) s p q"
proof -
  define sb where "sb = side_book b s"
  have si: "sb_size sb \<le> length (sb_e sb)" "ordered s (A @ B)" "\<forall>x \<in> set (A @ B). entry_ok x"
      "length (sb_e sb) = max_levels_per_side b"
    using ob_inv_side(2-5) [OF inv, of s] f(1) by (simp_all add: sb_def)
  have nw: "entry_ok (new_entry p q i)" for i using q by (simp add: entry_ok_def new_entry_def word_gt_0)
  have notA: "p \<notin> entry_price ` set A" and notB: "p \<notin> entry_price ` set B" using f(3,4) by auto
  have look: "ob_lookup b s = lookup_of (A @ B)" by (simp add: ob_lookup_def f(1))
  then have none: "ob_lookup b s p = None" using notA notB lookup_of_none [of p "A @ B"] by auto
  have card: "card (dom (ob_lookup b s)) = sb_size sb"
    using card_dom_lookup_of [OF si(2)] look f(1) length_ladder [of sb] si(1) by (simp add: sb_def)
  have len: "length A + length B = sb_size sb" using f(1) length_ladder [of sb] si(1) by (simp add: sb_def)
  define nu where "nu = (\<lambda>i. new_entry p q i)"
  consider (room) "sb_size sb < length (sb_e sb)" | (refuse) "sb_size sb = length (sb_e sb)" "A = []"
    | (evict) "sb_size sb = length (sb_e sb)" "A \<noteq> []"
    using si(1) by linarith
  then show ?thesis
  proof cases
    case room
    define sb' where "sb' = (shift_up sb (length A))\<lparr>sb_size := sb_size sb + 1\<rparr>"
    have a: "add_order b s p q = place_level b s sb' (length A) p q"
      using room by (simp add: add_order_absent [OF q f(2,5)] Let_def sb'_def sb_def)
    have "spec_add_order (ob_abs b) s p q = spec_store (ob_abs b) (s = Side_buy) (ob_lookup b s) p q"
      using room none q card si(4) by (simp add: spec_add_order_def ob_abs_side)
    moreover note lad = ladder_insert [of sb A B, OF _ room, folded sb'_def]
    have ld: "ladder (sb'\<lparr>sb_e := (sb_e sb')[length A := new_entry p q (ob_next_id b)]\<rparr>) = A @ new_entry p q (ob_next_id b) # B"
      using lad(1) f(1) by (simp add: sb_def)
    have l2: "length (sb_e sb') = length (sb_e (side_book b s))" "sb_size sb' \<le> length (sb_e sb')"
      using lad(2) f(1) room by (simp_all add: sb_def sb'_def)
    have "ordered s (A @ new_entry p q (ob_next_id b) # B)"
      using si(2) f(3,4) by (intro ordered_between) simp_all
    moreover have "\<forall>x \<in> set (A @ new_entry p q (ob_next_id b) # B). entry_ok x" using si(3) nw by auto
    moreover have "lookup_of (A @ new_entry p q (ob_next_id b) # B) = (ob_lookup b s)(p \<mapsto> new_entry p q (ob_next_id b))"
      using notA by (simp add: lookup_of_insert look)
    ultimately show ?thesis using place_level_spec [OF inv l2 ld] by (simp add: a)
  next
    case refuse
    have a: "add_order b s p q = (b\<lparr>ob_overflows := ob_overflows b + 1\<rparr>, kNoLevel)"
      using refuse by (simp add: add_order_absent [OF q f(2,5)] Let_def sb_def)
    have "dom (ob_lookup b s) = {} \<or> better s (worst_price (s = Side_buy) (dom (ob_lookup b s))) p"
      using refuse f(4) worst_price_hd [OF si(2)] by (cases B) (simp_all add: look)
    then have "spec_add_order (ob_abs b) s p q = (ob_abs b, 0)"
      using refuse none q card si(4) by (auto simp: spec_add_order_def ob_abs_side Let_def)
    then show ?thesis using inv by (simp add: a kNoLevel_def)
  next
    case evict
    define b' where "b' = b\<lparr>ob_overflows := ob_overflows b + 1\<rparr>"
    define sb' where "sb' = shift_down sb 1 (length A)"
    have a: "add_order b s p q = place_level b' s sb' (length A - 1) p q"
      using evict by (simp add: add_order_absent [OF q f(2,5)] Let_def sb'_def b'_def sb_def)
    define w where "w = worst_price (s = Side_buy) (dom (ob_lookup b s))"
    have w: "w = entry_price (hd A)" using worst_price_hd [OF si(2)] evict by (simp add: look w_def)
    have "better s p w" using evict f(3) by (simp add: w)
    then have "\<not> better s w p" by (rule better_asym)
    moreover have "dom (ob_lookup b s) \<noteq> {}" using evict by (simp add: look dom_lookup_of)
    ultimately have sp: "spec_add_order (ob_abs b) s p q =
        spec_store (ob_abs b) (s = Side_buy) ((ob_lookup b s)(w := None)) p q"
      using evict none q card si(4) by (simp add: spec_add_order_def ob_abs_side Let_def w_def)
    note lad = ladder_evict [of sb A B, OF _ evict(2) si(1), folded sb'_def]
    have inv': "ob_inv b'" using inv by (simp add: b'_def)
    have ld: "ladder (sb'\<lparr>sb_e := (sb_e sb')[length A - 1 := new_entry p q (ob_next_id b')]\<rparr>) =
        tl A @ new_entry p q (ob_next_id b') # B"
      using lad(1) f(1) by (simp add: sb_def)
    have l2: "length (sb_e sb') = length (sb_e (side_book b' s))" "sb_size sb' \<le> length (sb_e sb')"
      using lad(2) f(1) si(1) by (simp_all add: sb_def sb'_def b'_def shift_down_def)
    have A: "A = hd A # tl A" using evict by simp
    have "ordered s (tl A @ B)" using si(2) A by (metis append_Cons ordered_Cons)
    then have "ordered s (tl A @ new_entry p q (ob_next_id b') # B)"
      using f(3,4) evict by (intro ordered_between) (auto dest: list.set_sel(2))
    moreover have "\<forall>x \<in> set (tl A @ new_entry p q (ob_next_id b') # B). entry_ok x"
      using si(3) nw evict by (auto dest: list.set_sel(2))
    moreover have "lookup_of (tl A @ B) = (ob_lookup b s)(w := None)"
      using lookup_of_delete [of s "[]" "hd A" "tl A @ B"] si(2) A look w by (metis append_Cons append_Nil)
    then have "lookup_of (tl A @ new_entry p q (ob_next_id b') # B) =
        ((ob_lookup b s)(w := None))(p \<mapsto> new_entry p q (ob_next_id b'))"
      using notA evict by (subst lookup_of_insert) (auto dest: list.set_sel(2))
    ultimately have "ob_inv (fst (place_level b' s sb' (length A - 1) p q))"
      "map_prod ob_abs id (place_level b' s sb' (length A - 1) p q) =
        spec_store (ob_abs b') (s = Side_buy) ((ob_lookup b s)(w := None)) p q"
      by (rule place_level_spec [OF inv' l2 ld])+
    then show ?thesis by (simp add: a sp b'_def)
  qed
qed

lemma add_order_refines:
  assumes "ob_inv b"
  shows "ob_inv (fst (add_order b s p q))"
    "map_prod ob_abs id (add_order b s p q) = spec_add_order (ob_abs b) s p q"
proof -
  have "ob_inv (fst (add_order b s p q)) \<and>
    map_prod ob_abs id (add_order b s p q) = spec_add_order (ob_abs b) s p q"
  proof (cases "q = 0")
    case True
    then show ?thesis using assms by (simp add: add_order_def spec_add_order_def kNoLevel_def)
  next
    case False
    show ?thesis
    proof (rule search_cases [OF ob_inv_side(1) [OF assms, of s], of p])
      fix A e B
      assume "ladder (side_book b s) = A @ e # B" "find_pos (side_book b s) s p = length A" "entry_price e = p"
        "length A < sb_size (side_book b s)" "sb_e (side_book b s) ! length A = e"
      then show ?thesis by (rule add_order_joins [OF assms False])
    next
      fix A B
      assume "ladder (side_book b s) = A @ B" "find_pos (side_book b s) s p = length A"
        "\<forall>x\<in>set A. better s p (entry_price x)" "\<forall>x\<in>set B. better s (entry_price x) p"
        "\<not> (length A < sb_size (side_book b s) \<and> entry_price (sb_e (side_book b s) ! length A) = p)"
      then show ?thesis by (rule add_order_new [OF assms False])
    qed
  qed
  then show "ob_inv (fst (add_order b s p q))"
    "map_prod ob_abs id (add_order b s p q) = spec_add_order (ob_abs b) s p q" by blast+
qed

lemma take_qty_refines:
  assumes inv: "ob_inv b"
  shows "ob_inv (fst (take_qty b s p q lid whole)) \<and>
    map_prod ob_abs id (take_qty b s p q lid whole) = spec_take (ob_abs b) s p q lid whole"
proof (rule search_cases [OF ob_inv_side(1) [OF inv, of s], of p])
  fix A B
  assume f: "ladder (side_book b s) = A @ B" "find_pos (side_book b s) s p = length A"
    "\<forall>x\<in>set A. better s p (entry_price x)" "\<forall>x\<in>set B. better s (entry_price x) p"
    "\<not> (length A < sb_size (side_book b s) \<and> entry_price (sb_e (side_book b s) ! length A) = p)"
  have "p \<notin> entry_price ` set (A @ B)" using f(3,4) by auto
  then have "ob_lookup b s p = None" unfolding ob_lookup_def f(1) by (rule lookup_of_none)
  then have "spec_take (ob_abs b) s p q lid whole = (ob_abs b, False)"
    by (simp add: spec_take_def ob_abs_side)
  moreover have "take_qty b s p q lid whole = (b, False)" using f(2,5) by (auto simp: take_qty_def Let_def)
  ultimately show ?thesis using inv by simp
next
  fix A e B
  assume f: "ladder (side_book b s) = A @ e # B" "find_pos (side_book b s) s p = length A" "entry_price e = p"
    "length A < sb_size (side_book b s)" "sb_e (side_book b s) ! length A = e"
  define sb where "sb = side_book b s"
  have si: "sb_size sb \<le> length (sb_e sb)" "ordered s (A @ e # B)" "\<forall>x \<in> set (A @ e # B). entry_ok x"
    using ob_inv_side(2-4) [OF inv, of s] f(1) by (simp_all add: sb_def)
  have lad: "ladder sb = A @ e # B" using f(1) by (simp add: sb_def)
  have look: "ob_lookup b s p = Some e"
    using lookup_of_mem [OF si(2), of e] f(1,3) by (simp add: ob_lookup_def)
  define b' where "b' = b\<lparr>ob_updates := ob_updates b + 1\<rparr>"
  have inv': "ob_inv b'" and side': "side_book b' s = sb" using inv by (simp_all add: b'_def sb_def)
  consider (no) "q = 0 \<or> (lid \<noteq> 0 \<and> en_id e \<noteq> lid) \<or> lv_qty (en_lv e) < q"
    | (drop) "q \<noteq> 0" "\<not> (lid \<noteq> 0 \<and> en_id e \<noteq> lid)" "q = lv_qty (en_lv e)"
    | (keep) "q \<noteq> 0" "\<not> (lid \<noteq> 0 \<and> en_id e \<noteq> lid)" "q < lv_qty (en_lv e)"
    by (meson linorder_cases)
  then show ?thesis
  proof cases
    case no
    then have "take_qty b s p q lid whole = (b, False)"
      using f(2-5) by (auto simp: take_qty_def Let_def kNoLevel_def)
    moreover have "spec_take (ob_abs b) s p q lid whole = (ob_abs b, False)"
      using no look by (auto simp: spec_take_def ob_abs_side word_less_nat_alt)
    ultimately show ?thesis using inv by simp
  next
    case drop
    define sb1 where "sb1 = sb\<lparr>sb_e := (sb_e sb)[length A := e\<lparr>en_lv := (en_lv e)\<lparr>lv_qty := 0\<rparr>\<rparr>]\<rparr>"
    define sb2 where "sb2 = (shift_down sb1 (length A + 1) (sb_size sb))\<lparr>sb_size := sb_size sb - 1\<rparr>"
    have t: "take_qty b s p q lid whole = (set_side_book b' s sb2, True)"
      using drop f(2-5) by (auto simp: take_qty_def Let_def kNoLevel_def b'_def sb2_def sb1_def sb_def)
    have L2: "ladder sb2 = A @ B" and len: "length (sb_e sb2) = length (sb_e (side_book b' s))"
      using ladder_erase [OF lad si(1)] by (simp_all add: sb2_def sb1_def side')
    have sz: "sb_size sb2 \<le> length (sb_e sb2)" using len si(1) side' by (simp add: sb2_def)
    have "\<forall>x \<in> set (ladder sb2). entry_ok x" using si(3) by (simp add: L2)
    with set_side_ok [OF inv' len sz] ordered_delete [OF si(2)] L2
    have ok: "ob_inv (set_side_book b' s sb2)"
      "ob_abs (set_side_book b' s sb2) =
        (ob_abs b)\<lparr>ab_side := (ab_side (ob_abs b))((s = Side_buy) := lookup_of (A @ B))\<rparr>"
      by (simp_all add: b'_def)
    have "spec_take (ob_abs b) s p q lid whole =
        ((ob_abs b)\<lparr>ab_side := (ab_side (ob_abs b))((s = Side_buy) := (ob_lookup b s)(p := None))\<rparr>, True)"
      using drop look by (auto simp: spec_take_def ob_abs_side)
    moreover have "lookup_of (A @ B) = (ob_lookup b s)(p := None)"
      using lookup_of_delete [OF si(2)] f(1,3) by (simp add: ob_lookup_def)
    ultimately show ?thesis using ok by (simp add: t)
  next
    case keep
    define e' where "e' = reduced_entry e q whole"
    define sb2 where "sb2 = sb\<lparr>sb_e := (sb_e sb)[length A := e']\<rparr>"
    have nz: "lv_qty (en_lv e) - q \<noteq> 0" using keep(3) by auto
    have t: "take_qty b s p q lid whole = (set_side_book b' s sb2, True)"
      using keep f(2-5) nz
      by (auto simp: take_qty_def Let_def kNoLevel_def b'_def sb2_def sb_def e'_def reduced_entry_def not_less)
    have L2: "ladder sb2 = A @ e' # B" unfolding sb2_def by (rule ladder_write [OF lad si(1)])
    have len: "length (sb_e sb2) = length (sb_e (side_book b' s))" and sz: "sb_size sb2 \<le> length (sb_e sb2)"
      using si(1) by (simp_all add: sb2_def side')
    have "q \<noteq> lv_qty (en_lv e)" using keep(3) by auto
    then have "entry_ok e'" using si(3) reduced_entry_ok by (simp add: e'_def)
    with si(3) have oks: "\<forall>x \<in> set (ladder sb2). entry_ok x" by (simp add: L2)
    have "ordered s (ladder sb2)" using ordered_replace [OF si(2), of e'] by (simp add: L2 e'_def)
    note ok = set_side_ok [OF inv' len sz this oks]
    have "spec_take (ob_abs b) s p q lid whole =
        ((ob_abs b)\<lparr>ab_side := (ab_side (ob_abs b))((s = Side_buy) := (ob_lookup b s)(p \<mapsto> e'))\<rparr>, True)"
      using keep look \<open>q \<noteq> lv_qty (en_lv e)\<close>
      by (auto simp: spec_take_def ob_abs_side e'_def word_less_nat_alt)
    moreover have "lookup_of (A @ e' # B) = (ob_lookup b s)(p \<mapsto> e')"
      using lookup_of_replace [OF si(2), of e'] f(1,3) by (simp add: ob_lookup_def e'_def)
    ultimately show ?thesis using ok by (simp add: t L2 b'_def)
  qed
qed

section \<open>Queries\<close>

lemma nth_side_ladder:
  "ob_inv b \<Longrightarrow> i < sb_size (side_book b s) \<Longrightarrow> sb_e (side_book b s) ! i = ladder (side_book b s) ! i"
  by (simp add: nth_ladder)

lemma qty_at_lookup:
  assumes "ob_inv b"
  shows "qty_at b s p = (case ob_lookup b s p of None \<Rightarrow> 0 | Some e \<Rightarrow> lv_qty (en_lv e))"
proof (rule search_cases [OF ob_inv_side(1) [OF assms, of s], of p])
  fix A e B
  assume f: "ladder (side_book b s) = A @ e # B" "find_pos (side_book b s) s p = length A" "entry_price e = p"
    "length A < sb_size (side_book b s)" "sb_e (side_book b s) ! length A = e"
  have "ob_lookup b s p = Some e"
    using lookup_of_mem [OF ob_inv_side(3) [OF assms, of s], of e] f(1,3) by (simp add: ob_lookup_def)
  then show ?thesis using f by (simp add: qty_at_def Let_def)
next
  fix A B
  assume f: "ladder (side_book b s) = A @ B" "find_pos (side_book b s) s p = length A"
    "\<forall>x\<in>set A. better s p (entry_price x)" "\<forall>x\<in>set B. better s (entry_price x) p"
    "\<not> (length A < sb_size (side_book b s) \<and> entry_price (sb_e (side_book b s) ! length A) = p)"
  have "p \<notin> entry_price ` set (A @ B)" using f(3,4) by auto
  then have "ob_lookup b s p = None" unfolding ob_lookup_def f(1) by (rule lookup_of_none)
  then show ?thesis unfolding qty_at_def Let_def f(2) using f(5) by (simp only: if_False option.case)
qed

lemma best_lookup:
  assumes "ob_inv b"
  shows "best b s = None \<longleftrightarrow> dom (ob_lookup b s) = {}"
    and "best b s = Some lv \<Longrightarrow> (\<exists>e. ob_lookup b s (lv_price lv) = Some e \<and> en_lv e = lv) \<and>
      (\<forall>p \<in> dom (ob_lookup b s). p = lv_price lv \<or> better s (lv_price lv) p)"
proof -
  define L where "L = ladder (side_book b s)"
  have ord: "ordered s L" and len: "length L = sb_size (side_book b s)"
    using ob_inv_side [OF assms, of s] length_ladder by (simp_all add: L_def)
  have best: "best b s = (if L = [] then None else Some (en_lv (last L)))"
    using len nth_ladder [of "sb_size (side_book b s) - 1" "side_book b s"]
    by (auto simp: best_def Let_def last_conv_nth L_def)
  have dm: "ob_lookup b s = lookup_of L" by (simp add: ob_lookup_def L_def)
  show "best b s = None \<longleftrightarrow> dom (ob_lookup b s) = {}" by (simp add: best dm dom_lookup_of)
  assume "best b s = Some lv"
  then have ne: "L \<noteq> []" and lv: "lv = en_lv (last L)" using best by (auto split: if_splits)
  have split: "L = butlast L @ [last L]" using ne by simp
  have "\<forall>x \<in> set (butlast L). better s (entry_price (last L)) (entry_price x)"
    using ord unfolding split [symmetric] by (metis split ordered_append list.set_intros(1))
  moreover have "set L = insert (last L) (set (butlast L))" by (subst split) simp
  ultimately have "\<forall>p \<in> dom (lookup_of L). p = lv_price lv \<or> better s (lv_price lv) p"
    by (auto simp: dom_lookup_of lv)
  moreover have "lookup_of L (entry_price (last L)) = Some (last L)" using ord ne by (intro lookup_of_mem) auto
  ultimately show "(\<exists>e. ob_lookup b s (lv_price lv) = Some e \<and> en_lv e = lv) \<and>
      (\<forall>p \<in> dom (ob_lookup b s). p = lv_price lv \<or> better s (lv_price lv) p)"
    by (simp add: dm lv)
qed

lemma level_ordered:
  assumes "ob_inv b" "i < j" "j < depth b s"
  shows "better s (lv_price (level b s i)) (lv_price (level b s j))"
proof -
  define L where "L = ladder (side_book b s)"
  have L: "ordered s L" "length L = depth b s"
    using ob_inv_side [OF assms(1), of s] length_ladder by (simp_all add: L_def depth_def)
  have lev: "level b s k = en_lv (L ! (depth b s - 1 - k))" if "k < depth b s" for k
    using that nth_ladder [of "depth b s - 1 - k" "side_book b s"] by (simp add: level_def Let_def L_def depth_def)
  show ?thesis using ordered_nth [OF L(1), of "depth b s - 1 - j" "depth b s - 1 - i"] assms(2,3) L(2)
    by (simp add: lev)
qed

lemma total_qty_loop_spec:
  assumes "unat acc + sum_list (map (\<lambda>k. unat (lv_qty (en_lv (sb_e sb ! (sb_size sb - 1 - k))))) [i..<i + n]) = t"
    "unat acc < 2 ^ 32 - 1 \<or> n = 0 \<and> unat acc < 2 ^ 32"
  shows "unat (total_qty_loop sb n i acc) = min t (2 ^ 32 - 1)"
  using assms
proof (induction n arbitrary: i acc)
  case 0
  then have "t < 2 ^ 32" "unat acc = t" by auto
  then show ?case by (simp add: unsigned_ucast_eq take_bit_nat_eq_self min_def)
next
  case (Suc n)
  define q where "q = lv_qty (en_lv (sb_e sb ! (sb_size sb - 1 - i)))"
  have q: "unat q < 2 ^ 32" using unsigned_less [of q] by simp
  have uq: "unat (ucast q :: u64) = unat q" by (simp add: unsigned_ucast_eq take_bit_nat_eq_self order_less_trans [OF q])
  have acc: "unat acc < 2 ^ 32 - 1" using Suc.prems(2) by simp
  define acc' where "acc' = acc + ucast q"
  have ua: "unat acc' = unat acc + unat q"
    unfolding acc'_def using q acc uq by (subst unat_add_no_overflow) simp_all
  have sp: "[i..<i + Suc n] = i # [Suc i..<Suc i + n]" by (simp add: upt_conv_Cons)
  have t: "unat acc' + sum_list (map (\<lambda>k. unat (lv_qty (en_lv (sb_e sb ! (sb_size sb - 1 - k))))) [Suc i..<Suc i + n]) = t"
    using Suc.prems(1) unfolding sp ua q_def by simp
  have mx: "unat (ucast kQtyMax :: u64) = 2 ^ 32 - 1" "unat kQtyMax = 2 ^ 32 - 1"
    using unat_minus_one [where 'a = 32] by (simp_all add: kQtyMax_def unsigned_ucast_eq)
  have step: "total_qty_loop sb (Suc n) i acc =
      (if acc' \<ge> ucast kQtyMax then kQtyMax else total_qty_loop sb n (Suc i) acc')"
    by (simp add: acc'_def q_def Let_def)
  show ?case
  proof (cases "acc' \<ge> ucast kQtyMax")
    case True
    then have "2 ^ 32 - 1 \<le> unat acc'" unfolding word_le_nat_alt mx .
    with t have "min t (2 ^ 32 - 1) = 2 ^ 32 - 1" by simp
    with True mx(2) show ?thesis by (simp only: step if_True)
  next
    case False
    then have "unat acc' < 2 ^ 32 - 1" unfolding word_le_nat_alt mx by simp
    then show ?thesis unfolding step using Suc.IH [OF t] False by (simp only: if_False simp_thms)
  qed
qed

section \<open>The contract MarketBooks relies on\<close>

text \<open>
  A book of price levels as its client sees it. \<open>lookup\<close> is the tracked level at a price, \<open>nxt\<close> the
  id the next new level gets. Adding joins a tracked level or creates one with a fresh id; nothing
  else appears, levels may be forgotten. Taking from a level acts exactly on the incarnation named.
\<close>

locale level_book =
  fixes lookup :: "'b \<Rightarrow> bool \<Rightarrow> Price \<rightharpoonup> Entry"
    and nxt :: "'b \<Rightarrow> LevelId"
    and invar :: "'b \<Rightarrow> bool"
    and add_at :: "'b \<Rightarrow> Side \<Rightarrow> Price \<Rightarrow> Qty \<Rightarrow> 'b \<times> LevelId"
    and take_at :: "'b \<Rightarrow> Side \<Rightarrow> Price \<Rightarrow> Qty \<Rightarrow> LevelId \<Rightarrow> bool \<Rightarrow> 'b \<times> bool"
  assumes entry_known: "invar b \<Longrightarrow> lookup b d p = Some e \<Longrightarrow>
      entry_price e = p \<and> 0 < lv_qty (en_lv e) \<and> 1 \<le> lv_orders (en_lv e) \<and> en_id e \<noteq> 0 \<and> en_id e < nxt b"
    and add_invar: "invar b \<Longrightarrow> nxt b \<noteq> - 1 \<Longrightarrow> invar (fst (add_at b s p q))"
    and add_nxt: "invar b \<Longrightarrow> nxt (fst (add_at b s p q)) = nxt b \<or>
      snd (add_at b s p q) = nxt b \<and> nxt (fst (add_at b s p q)) = nxt b + 1"
    and add_refused: "invar b \<Longrightarrow> snd (add_at b s p q) = 0 \<Longrightarrow> nxt b \<noteq> 0 \<Longrightarrow> lookup (fst (add_at b s p q)) = lookup b"
    and add_other: "invar b \<Longrightarrow> lookup (fst (add_at b s p q)) d r = Some e \<Longrightarrow> (d, r) \<noteq> (s = Side_buy, p) \<Longrightarrow>
      lookup b d r = Some e"
    and add_stored: "invar b \<Longrightarrow> snd (add_at b s p q) \<noteq> 0 \<Longrightarrow>
      \<exists>e. lookup (fst (add_at b s p q)) (s = Side_buy) p = Some e \<and> en_id e = snd (add_at b s p q) \<and>
        (case lookup b (s = Side_buy) p of
           None \<Rightarrow> e = new_entry p q (nxt b) \<and> en_id e = nxt b
         | Some e0 \<Rightarrow> e = joined_entry e0 q \<and> unat (lv_qty (en_lv e0)) + unat q < 2 ^ 32 \<and>
             unat (lv_orders (en_lv e0)) < 2 ^ 32 - 1)"
    and take_invar: "invar b \<Longrightarrow> invar (fst (take_at b s p q lid whole)) \<and> nxt (fst (take_at b s p q lid whole)) = nxt b"
    and take_lookup: "invar b \<Longrightarrow> lid \<noteq> 0 \<Longrightarrow>
      lookup (fst (take_at b s p q lid whole)) =
        (case lookup b (s = Side_buy) p of
           None \<Rightarrow> lookup b
         | Some e \<Rightarrow>
             if q = 0 \<or> en_id e \<noteq> lid \<or> lv_qty (en_lv e) < q then lookup b
             else (lookup b)(s = Side_buy := (lookup b (s = Side_buy))
                    (p := if q = lv_qty (en_lv e) then None else Some (reduced_entry e q whole))))"
begin

text \<open>Taking from a level that has been forgotten, or recreated since, does nothing.\<close>

lemma take_stale:
  assumes "invar b" "lid \<noteq> 0" "\<forall>e. lookup b (s = Side_buy) p = Some e \<longrightarrow> en_id e \<noteq> lid"
  shows "lookup (fst (take_at b s p q lid whole)) = lookup b"
  using assms by (auto simp: take_lookup split: option.splits)

lemma take_other:
  assumes "invar b" "lid \<noteq> 0" "(d, r) \<noteq> (s = Side_buy, p)"
  shows "lookup (fst (take_at b s p q lid whole)) d r = lookup b d r"
  using assms by (auto simp: take_lookup split: option.splits)

lemma take_hit:
  assumes "invar b" "lid \<noteq> 0" "lookup b (s = Side_buy) p = Some e" "en_id e = lid" "q \<noteq> 0" "q \<le> lv_qty (en_lv e)"
  shows "lookup (fst (take_at b s p q lid whole)) (s = Side_buy) p =
    (if q = lv_qty (en_lv e) then None else Some (reduced_entry e q whole))"
  using assms by (auto simp: take_lookup)

end

definition lb_inv :: "OrderBook \<Rightarrow> bool" where
  "lb_inv b = (ob_inv b \<and> ob_next_id b \<noteq> 0 \<and>
     (\<forall>d p e. ab_side (ob_abs b) d p = Some e \<longrightarrow> en_id e \<noteq> 0 \<and> en_id e < ob_next_id b))"

lemma ob_abs_entry:
  assumes "ob_inv b" "ab_side (ob_abs b) d p = Some e"
  shows "entry_price e = p" "entry_ok e"
proof -
  define s where "s = (if d then Side_buy else Side_sell)"
  have "lookup_of (ladder (side_book b s)) p = Some e" using assms(2) by (simp add: ob_abs_def ob_lookup_def s_def)
  from lookup_of_SomeD [OF this] ob_inv_side(4) [OF assms(1), of s] show "entry_price e = p" "entry_ok e" by auto
qed

text \<open>What a successful or refused \<^verbatim>\<open>add\<close> does to the abstract book, case by case.\<close>

lemma spec_add_order_cases:
  obtains (refused) "spec_add_order a s p q = (a, 0)"
  | (joined) e where "ab_side a (s = Side_buy) p = Some e" "unat (lv_qty (en_lv e)) + unat q < 2 ^ 32"
      "unat (lv_orders (en_lv e)) \<noteq> 2 ^ 32 - 1"
      "spec_add_order a s p q = (a\<lparr>ab_side := (ab_side a)((s = Side_buy) :=
         (ab_side a (s = Side_buy))(p \<mapsto> joined_entry e q))\<rparr>, en_id e)"
  | (stored) m where "ab_side a (s = Side_buy) p = None" "m \<subseteq>\<^sub>m ab_side a (s = Side_buy)" "q \<noteq> 0"
      "spec_add_order a s p q = spec_store a (s = Side_buy) m p q"
proof -
  define m where "m = ab_side a (s = Side_buy)"
  define w where "w = worst_price (s = Side_buy) (dom m)"
  have sub: "m(w := None) \<subseteq>\<^sub>m m" by (auto simp: map_le_def)
  show thesis
  proof (cases "m p")
    case None
    show thesis
    proof (cases "q = 0 \<or> \<not> card (dom m) < ab_cap a \<and> (dom m = {} \<or> better s w p)")
      case True
      with None show thesis by (intro refused) (auto simp: spec_add_order_def m_def w_def Let_def)
    next
      case False
      with None have "spec_add_order a s p q =
          spec_store a (s = Side_buy) (if card (dom m) < ab_cap a then m else m(w := None)) p q"
        by (auto simp: spec_add_order_def m_def w_def Let_def)
      then show thesis using stored None sub False m_def by (metis map_le_refl)
    qed
  next
    case (Some e)
    show thesis
    proof (cases "q = 0 \<or> 2 ^ 32 \<le> unat (lv_qty (en_lv e)) + unat q \<or> unat (lv_orders (en_lv e)) = 2 ^ 32 - 1")
      case True
      with Some show thesis by (intro refused) (auto simp: spec_add_order_def m_def Let_def)
    next
      case False
      with Some show thesis by (intro joined) (auto simp: spec_add_order_def m_def Let_def)
    qed
  qed
qed

lemma add_order_abs:
  assumes "ob_inv b"
  shows "ob_abs (fst (add_order b s p q)) = fst (spec_add_order (ob_abs b) s p q)"
    "snd (add_order b s p q) = snd (spec_add_order (ob_abs b) s p q)"
  using add_order_refines(2) [OF assms, of s p q] by (cases "add_order b s p q"; simp add: prod_eq_iff)+

lemma take_qty_abs:
  assumes "ob_inv b"
  shows "ob_inv (fst (take_qty b s p q lid whole))"
    "ob_abs (fst (take_qty b s p q lid whole)) = fst (spec_take (ob_abs b) s p q lid whole)"
    "snd (take_qty b s p q lid whole) = snd (spec_take (ob_abs b) s p q lid whole)"
  using take_qty_refines [OF assms, of s p q lid whole]
  by (cases "take_qty b s p q lid whole"; simp add: prod_eq_iff)+

lemma spec_store_sel [simp]:
  "ab_side (fst (spec_store a d m p q)) = (ab_side a)(d := m(p \<mapsto> new_entry p q (ab_next a)))"
  "ab_next (fst (spec_store a d m p q)) = ab_next a + 1" "snd (spec_store a d m p q) = ab_next a"
  by (simp_all add: spec_store_def)

lemma spec_take_next [simp]: "ab_next (fst (spec_take a s p q lid whole)) = ab_next a"
  by (auto simp: spec_take_def Let_def split: option.splits)

lemma spec_take_subset:
  "ab_side (fst (spec_take a s p q lid whole)) d r = Some e \<Longrightarrow>
   \<exists>e0. ab_side a d r = Some e0 \<and> en_id e0 = en_id e"
  by (auto simp: spec_take_def Let_def split: option.splits if_splits)

lemma ob_next_abs: "ob_next_id b = ab_next (ob_abs b)"
  by simp

lemma map_le_SomeD: "m \<subseteq>\<^sub>m m' \<Longrightarrow> m x = Some y \<Longrightarrow> m' x = Some y"
  by (metis domI map_le_def)

lemma add_order_lb_inv:
  assumes "lb_inv b" "ob_next_id b \<noteq> - 1"
  shows "lb_inv (fst (add_order b s p q))"
proof -
  have inv: "ob_inv b" and nz: "ob_next_id b \<noteq> 0"
    and ids: "\<And>d r e. ab_side (ob_abs b) d r = Some e \<Longrightarrow> en_id e \<noteq> 0 \<and> en_id e < ob_next_id b"
    using assms(1) by (auto simp: lb_inv_def)
  let ?b = "fst (add_order b s p q)"
  have "ab_next (ob_abs ?b) \<noteq> 0 \<and>
    (\<forall>d r e. ab_side (ob_abs ?b) d r = Some e \<longrightarrow> en_id e \<noteq> 0 \<and> en_id e < ab_next (ob_abs ?b))"
  proof (cases rule: spec_add_order_cases [of "ob_abs b" s p q])
    case refused
    then show ?thesis using nz ids by (simp add: add_order_abs [OF inv])
  next
    case (joined e)
    then show ?thesis using nz ids by (auto simp: add_order_abs [OF inv] split: if_splits)
  next
    case (stored m)
    have "en_id e \<noteq> 0 \<and> en_id e < ob_next_id b" if "m r = Some e" for r e
      using stored(2) that ids by (metis domI map_le_def)
    then show ?thesis using nz ids word_less_plus_one [OF assms(2)] stored(4)
      by (auto simp: add_order_abs [OF inv] split: if_splits)
  qed
  then show ?thesis using add_order_refines(1) [OF inv] by (simp add: lb_inv_def)
qed

lemma take_qty_lb_inv:
  assumes "lb_inv b"
  shows "lb_inv (fst (take_qty b s p q lid whole))"
    "ob_next_id (fst (take_qty b s p q lid whole)) = ob_next_id b"
proof -
  have inv: "ob_inv b" using assms by (simp add: lb_inv_def)
  have eq: "ab_next (ob_abs (fst (take_qty b s p q lid whole))) = ab_next (ob_abs b)"
    by (simp only: take_qty_abs(2) [OF inv] spec_take_next)
  then show nx: "ob_next_id (fst (take_qty b s p q lid whole)) = ob_next_id b" by simp
  show "lb_inv (fst (take_qty b s p q lid whole))"
    using assms take_qty_abs(1) [OF inv] unfolding lb_inv_def nx take_qty_abs(2) [OF inv]
    by (metis spec_take_subset)
qed

interpretation ob: level_book "\<lambda>b. ab_side (ob_abs b)" ob_next_id lb_inv add_order take_qty
proof unfold_locales
  fix b d p e assume "lb_inv b" "ab_side (ob_abs b) d p = Some e"
  then show "entry_price e = p \<and> 0 < lv_qty (en_lv e) \<and> 1 \<le> lv_orders (en_lv e) \<and> en_id e \<noteq> 0 \<and> en_id e < ob_next_id b"
    using ob_abs_entry [of b d p e] by (auto simp: lb_inv_def entry_ok_def)
next
  fix b s p q assume "lb_inv b" "ob_next_id b \<noteq> - 1"
  then show "lb_inv (fst (add_order b s p q))" by (rule add_order_lb_inv)
next
  fix b s p q assume i: "lb_inv b"
  then have inv: "ob_inv b" by (simp add: lb_inv_def)
  show "ob_next_id (fst (add_order b s p q)) = ob_next_id b \<or>
      snd (add_order b s p q) = ob_next_id b \<and> ob_next_id (fst (add_order b s p q)) = ob_next_id b + 1"
    by (cases rule: spec_add_order_cases [of "ob_abs b" s p q])
      (simp_all add: ob_next_abs add_order_abs [OF inv] del: ob_abs_next)
next
  fix b s p q assume i: "lb_inv b" and z: "snd (add_order b s p q) = 0"
  then have inv: "ob_inv b" and nz: "ob_next_id b \<noteq> 0" by (simp_all add: lb_inv_def)
  show "ab_side (ob_abs (fst (add_order b s p q))) = ab_side (ob_abs b)"
    using z nz i unfolding add_order_abs [OF inv]
    by (cases rule: spec_add_order_cases [of "ob_abs b" s p q]) (auto simp: lb_inv_def)
next
  fix b s p q d r e
  assume i: "lb_inv b" and l: "ab_side (ob_abs (fst (add_order b s p q))) d r = Some e" "(d, r) \<noteq> (s = Side_buy, p)"
  then have inv: "ob_inv b" by (simp add: lb_inv_def)
  show "ab_side (ob_abs b) d r = Some e"
    using l unfolding add_order_abs [OF inv]
    by (cases rule: spec_add_order_cases [of "ob_abs b" s p q])
      (auto split: if_splits dest: map_le_SomeD)
next
  fix b s p q assume i: "lb_inv b" and z: "snd (add_order b s p q) \<noteq> 0"
  then have inv: "ob_inv b" by (simp add: lb_inv_def)
  have lt: "unat (lv_orders (en_lv x)) < 2 ^ 32" for x using unsigned_less [of "lv_orders (en_lv x)"] by simp
  show "\<exists>e. ab_side (ob_abs (fst (add_order b s p q))) (s = Side_buy) p = Some e \<and> en_id e = snd (add_order b s p q) \<and>
        (case ab_side (ob_abs b) (s = Side_buy) p of
           None \<Rightarrow> e = new_entry p q (ob_next_id b) \<and> en_id e = ob_next_id b
         | Some e0 \<Rightarrow> e = joined_entry e0 q \<and> unat (lv_qty (en_lv e0)) + unat q < 2 ^ 32 \<and>
             unat (lv_orders (en_lv e0)) < 2 ^ 32 - 1)"
  proof (cases rule: spec_add_order_cases [of "ob_abs b" s p q])
    case (joined e)
    then show ?thesis using lt [of e] by (simp add: add_order_abs [OF inv])
  qed (use z in \<open>simp_all add: add_order_abs [OF inv]\<close>)
next
  fix b s p q lid whole assume i: "lb_inv b"
  then show "lb_inv (fst (take_qty b s p q lid whole)) \<and> ob_next_id (fst (take_qty b s p q lid whole)) = ob_next_id b"
    by (simp add: take_qty_lb_inv)
next
  fix b s p q whole and lid :: LevelId
  assume i: "lb_inv b" and z: "lid \<noteq> 0"
  then have inv: "ob_inv b" by (simp add: lb_inv_def)
  show "ab_side (ob_abs (fst (take_qty b s p q lid whole))) =
        (case ab_side (ob_abs b) (s = Side_buy) p of
           None \<Rightarrow> ab_side (ob_abs b)
         | Some e \<Rightarrow>
             if q = 0 \<or> en_id e \<noteq> lid \<or> lv_qty (en_lv e) < q then ab_side (ob_abs b)
             else (ab_side (ob_abs b))(s = Side_buy := (ab_side (ob_abs b) (s = Side_buy))
                    (p := if q = lv_qty (en_lv e) then None else Some (reduced_entry e q whole))))"
    using z unfolding take_qty_abs [OF inv]
    by (auto simp: spec_take_def Let_def word_less_nat_alt split: option.splits)
qed

section \<open>The properties of the book\<close>

datatype book_call = Call_add Side Price Qty | Call_remove Side Price Qty | Call_reduce Side Price Qty
  | Call_add_order Side Price Qty | Call_remove_order Side Price Qty LevelId | Call_reduce_order Side Price Qty LevelId

datatype book_reply = Reply_bool bool | Reply_id LevelId

fun book_step :: "book_call \<Rightarrow> OrderBook \<Rightarrow> OrderBook \<times> book_reply" where
  "book_step (Call_add s p q) b = map_prod id Reply_bool (add b s p q)"
| "book_step (Call_remove s p q) b = map_prod id Reply_bool (remove_lvl b s p q)"
| "book_step (Call_reduce s p q) b = map_prod id Reply_bool (reduce_lvl b s p q)"
| "book_step (Call_add_order s p q) b = map_prod id Reply_id (add_order b s p q)"
| "book_step (Call_remove_order s p q i) b = map_prod id Reply_bool (remove_order b s p q i)"
| "book_step (Call_reduce_order s p q i) b = map_prod id Reply_bool (reduce_order b s p q i)"

fun spec_step :: "book_call \<Rightarrow> abs_book \<Rightarrow> abs_book \<times> book_reply" where
  "spec_step (Call_add s p q) a = map_prod id (\<lambda>i. Reply_bool (i \<noteq> 0)) (spec_add_order a s p q)"
| "spec_step (Call_remove s p q) a = map_prod id Reply_bool (spec_take a s p q 0 True)"
| "spec_step (Call_reduce s p q) a = map_prod id Reply_bool (spec_take a s p q 0 False)"
| "spec_step (Call_add_order s p q) a = map_prod id Reply_id (spec_add_order a s p q)"
| "spec_step (Call_remove_order s p q i) a =
     (if i = 0 then (a, Reply_bool False) else map_prod id Reply_bool (spec_take a s p q i True))"
| "spec_step (Call_reduce_order s p q i) a =
     (if i = 0 then (a, Reply_bool False) else map_prod id Reply_bool (spec_take a s p q i False))"

primrec run_calls :: "('c \<Rightarrow> 's \<Rightarrow> 's \<times> 'r) \<Rightarrow> 'c list \<Rightarrow> 's \<Rightarrow> 's \<times> 'r list" where
  "run_calls step [] b = (b, [])"
| "run_calls step (c # cs) b = (let (b1, r) = step c b; (b2, rs) = run_calls step cs b1 in (b2, r # rs))"

lemma book_step_refines:
  assumes "ob_inv b"
  shows "ob_inv (fst (book_step c b)) \<and> map_prod ob_abs id (book_step c b) = spec_step c (ob_abs b)"
  using assms
  by (cases c) (auto simp: add_def remove_lvl_def reduce_lvl_def remove_order_def reduce_order_def kNoLevel_def
      add_order_refines(1) add_order_abs take_qty_abs prod_eq_iff case_prod_beta Let_def)

lemma run_calls_refines:
  assumes "ob_inv b"
  shows "ob_inv (fst (run_calls book_step cs b)) \<and>
    map_prod ob_abs id (run_calls book_step cs b) = run_calls spec_step cs (ob_abs b)"
  using assms
proof (induction cs arbitrary: b)
  case (Cons c cs)
  have s: "ob_inv (fst (book_step c b))" "map_prod ob_abs id (book_step c b) = spec_step c (ob_abs b)"
    using book_step_refines [OF Cons.prems] by blast+
  obtain b1 r where b1: "book_step c b = (b1, r)" by fastforce
  obtain b2 rs where b2: "run_calls book_step cs b1 = (b2, rs)" by fastforce
  have "spec_step c (ob_abs b) = (ob_abs b1, r)" using s(2) b1 by simp
  moreover have "ob_inv b2" "run_calls spec_step cs (ob_abs b1) = (ob_abs b2, rs)"
    using Cons.IH [of b1] s(1) b1 b2 by (auto simp: map_prod_def)
  ultimately show ?case by (simp add: b1 b2)
qed simp

lemma OrderBook_new_inv: "ob_inv (OrderBook_new n)" "lb_inv (OrderBook_new n)"
  "ob_abs (OrderBook_new n) = \<lparr>ab_side = (\<lambda>d. Map.empty), ab_next = 1, ab_cap = n\<rparr>"
proof -
  have "ladder (side_book (OrderBook_new n) s) = []" for s
    by (simp add: ladder_def side_book_def OrderBook_new_def SideBook_new_def)
  then show a: "ob_abs (OrderBook_new n) = \<lparr>ab_side = (\<lambda>d. Map.empty), ab_next = 1, ab_cap = n\<rparr>"
    by (simp add: ob_abs_def ob_lookup_def max_levels_per_side_def) (simp add: OrderBook_new_def SideBook_new_def)
  show "ob_inv (OrderBook_new n)"
    by (simp add: ob_inv_def sb_inv_def ladder_def OrderBook_new_def SideBook_new_def)
  then show "lb_inv (OrderBook_new n)" by (simp add: lb_inv_def a) (simp add: OrderBook_new_def)
qed

text \<open>
  Claim C3: for any sequence of calls on a new \<^verbatim>\<open>OrderBook\<close>, every reply and the resulting book are
  those of the specification, a map from prices to levels bounded by \<^verbatim>\<open>max_levels_per_side\<close> that
  evicts the worst price and refuses a worse one; and the ladder invariant of the header comment
  (strict order, quantity above 0, at least one order per level) holds at the end of it.
\<close>

theorem order_book_refines_spec:
  "map_prod ob_abs id (run_calls book_step calls (OrderBook_new n)) =
     run_calls spec_step calls \<lparr>ab_side = (\<lambda>d. Map.empty), ab_next = 1, ab_cap = n\<rparr> \<and>
   ob_inv (fst (run_calls book_step calls (OrderBook_new n)))"
  using run_calls_refines [OF OrderBook_new_inv(1)] by (simp add: OrderBook_new_inv(3))

text \<open>
  The search of \<^verbatim>\<open>find_pos\<close> (the window over the last eight levels, then a binary search
  of the rest) returns, on every ladder the class can hold, the number of levels strictly worse
  than the price, which a plain linear search from the front would return.
\<close>

lemma find_pos_is_linear_search:
  assumes "ob_inv b"
  shows "find_pos (side_book b s) s price =
    length (takeWhile (\<lambda>e. better s price (entry_price e)) (ladder (side_book b s)))"
  using find_pos_eq [OF ob_inv_side(1) [OF assms]] by (simp add: worse_prefix_def)

text \<open>
  The queries agree with the tracked levels. \<^verbatim>\<open>best\<close> is the level at the best tracked
  price, \<^verbatim>\<open>level(side, i)\<close> runs from the best price to the worst, \<^verbatim>\<open>qty_at\<close> is the quantity tracked at
  a price (0 when there is none), and \<^verbatim>\<open>total_qty\<close> is the exact sum over the best levels, saturated
  at the largest \<^verbatim>\<open>Qty\<close>.
\<close>

lemma book_queries_correct:
  assumes "ob_inv b"
  shows "(best b s = None \<longleftrightarrow> dom (ob_lookup b s) = {}) \<and>
    (\<forall>lv. best b s = Some lv \<longrightarrow> map_option en_lv (ob_lookup b s (lv_price lv)) = Some lv \<and>
       (\<forall>p \<in> dom (ob_lookup b s). p = lv_price lv \<or> better s (lv_price lv) p)) \<and>
    (\<forall>i j. i < j \<and> j < depth b s \<longrightarrow> better s (lv_price (level b s i)) (lv_price (level b s j))) \<and>
    qty_at b s price = (case ob_lookup b s price of None \<Rightarrow> 0 | Some e \<Rightarrow> lv_qty (en_lv e)) \<and>
    unat (total_qty b s n) = min (2 ^ 32 - 1) (\<Sum>i\<leftarrow>[0..<min n (depth b s)]. unat (lv_qty (level b s i)))"
proof -
  define k where "k = min n (depth b s)"
  have "(\<Sum>i\<leftarrow>[0..<k]. unat (lv_qty (en_lv (sb_e (side_book b s) ! (sb_size (side_book b s) - 1 - i))))) =
      (\<Sum>i\<leftarrow>[0..<k]. unat (lv_qty (level b s i)))"
    by (rule arg_cong [of _ _ sum_list]) (auto simp: level_def Let_def depth_def k_def)
  then have "unat (total_qty_loop (side_book b s) k 0 0) =
      min (\<Sum>i\<leftarrow>[0..<k]. unat (lv_qty (level b s i))) (2 ^ 32 - 1)"
    by (intro total_qty_loop_spec) simp_all
  then have "unat (total_qty b s n) = min (2 ^ 32 - 1) (\<Sum>i\<leftarrow>[0..<k]. unat (lv_qty (level b s i)))"
    by (simp add: total_qty_def Let_def k_def depth_def min.commute)
  then show ?thesis
    using best_lookup [OF assms, of s] level_ordered [OF assms, of _ _ s] qty_at_lookup [OF assms, of s price]
    by (auto simp: k_def)
qed

text \<open>The overflow policy: while orders only arrive, the tracked prices are the best ones seen.\<close>

definition keeps_best :: "Side \<Rightarrow> nat \<Rightarrow> Price set \<Rightarrow> Price set \<Rightarrow> bool" where
  "keeps_best s n seen T = (finite seen \<and> T \<subseteq> seen \<and> card T = min n (card seen) \<and>
     (\<forall>x \<in> T. \<forall>y \<in> seen - T. better s x y))"

lemma worst_price_props:
  assumes "finite P" "P \<noteq> {}"
  shows "worst_price (s = Side_buy) P \<in> P" "x \<in> P \<Longrightarrow> x \<noteq> worst_price (s = Side_buy) P \<Longrightarrow> better s x (worst_price (s = Side_buy) P)"
  using assms by (auto simp: worst_price_def better_def order_less_le)

lemma keeps_best_insert_room:
  assumes k: "keeps_best s n seen T" and "card T < n"
  shows "keeps_best s n (insert p seen) (insert p T)"
proof -
  have "card T = card seen" "T \<subseteq> seen" "finite seen" using assms by (auto simp: keeps_best_def min_def split: if_splits)
  then have "T = seen" by (simp add: card_subset_eq)
  then show ?thesis using assms by (cases "p \<in> seen") (auto simp: keeps_best_def insert_absorb)
qed

lemma keeps_best_insert_full:
  assumes k: "keeps_best s n seen T" and full: "\<not> card T < n" and p: "p \<notin> T"
  defines "w \<equiv> worst_price (s = Side_buy) T"
  shows "keeps_best s n (insert p seen) (if T = {} \<or> better s w p then T else insert p (T - {w}))"
proof -
  have fin: "finite seen" "finite T" and sub: "T \<subseteq> seen" and card: "card T = n"
    and sep: "\<And>x y. x \<in> T \<Longrightarrow> y \<in> seen \<Longrightarrow> y \<notin> T \<Longrightarrow> better s x y"
    using k full finite_subset by (auto simp: keeps_best_def)
  have "card T \<le> card seen" using fin(1) sub by (rule card_mono)
  moreover have "card seen \<le> card (insert p seen)" using fin(1) by (simp add: card_insert_le)
  ultimately have mn: "min n (card (insert p seen)) = n" using card by simp
  show ?thesis
  proof (cases "T = {} \<or> better s w p")
    case True
    have "better s x p" if "x \<in> T" for x
      using worst_price_props(2) [OF fin(2), of x s] that True better_trans unfolding w_def by blast
    with True sep fin sub card mn show ?thesis by (auto simp: keeps_best_def)
  next
    case False
    then have w: "w \<in> T" and pw: "better s p w"
      using worst_price_props(1) [OF fin(2)] p better_total [of w p s] by (auto simp: w_def)
    have xw: "better s x w" if "x \<in> T" "x \<noteq> w" for x
      using worst_price_props(2) [OF fin(2)] that unfolding w_def by blast
    have "card (insert p (T - {w})) = n" using w p fin(2) card card_gt_0_iff [of T] by auto
    moreover have "better s x y" if "x \<in> insert p (T - {w})" "y \<in> insert p seen - insert p (T - {w})" for x y
      using that xw pw sep w better_trans by blast
    ultimately show ?thesis using False fin sub mn by (auto simp: keeps_best_def)
  qed
qed

lemma spec_add_order_dom:
  fixes a :: abs_book and s :: Side
  assumes "q \<noteq> 0"
  defines "T \<equiv> dom (ab_side a (s = Side_buy))"
  shows "dom (ab_side (fst (spec_add_order a s p q)) (s = Side_buy)) =
    (if p \<in> T then T
     else if card T < ab_cap a then insert p T
     else if T = {} \<or> better s (worst_price (s = Side_buy) T) p then T
     else insert p (T - {worst_price (s = Side_buy) T}))"
  using assms by (auto simp: spec_add_order_def Let_def split: option.splits)

lemma ob_lookup_abs: "ob_lookup b s = ab_side (ob_abs b) (s = Side_buy)"
  by (simp add: ob_abs_side)

definition add_all :: "OrderBook \<Rightarrow> Side \<Rightarrow> (Price \<times> Qty) list \<Rightarrow> OrderBook" where
  "add_all b s pqs = foldl (\<lambda>b (p, q). fst (add b s p q)) b pqs"

lemma max_levels_add_order: "ob_inv b \<Longrightarrow> max_levels_per_side (fst (add_order b s p q)) = max_levels_per_side b"
  using arg_cong [OF add_order_abs(1), of b ab_cap s p q]
  by (cases rule: spec_add_order_cases [of "ob_abs b" s p q]) (simp_all add: spec_store_def)

lemma add_all_keeps_best:
  "ob_inv (add_all (OrderBook_new n) s pqs) \<and> max_levels_per_side (add_all (OrderBook_new n) s pqs) = n \<and>
   keeps_best s n (fst ` {x \<in> set pqs. snd x \<noteq> 0}) (dom (ob_lookup (add_all (OrderBook_new n) s pqs) s))"
proof (induction pqs rule: rev_induct)
  case Nil
  have "max_levels_per_side (OrderBook_new n) = n"
    by (simp add: max_levels_per_side_def OrderBook_new_def SideBook_new_def)
  then show ?case using OrderBook_new_inv [of n] by (simp add: add_all_def keeps_best_def ob_lookup_abs)
next
  case (snoc x pqs)
  obtain p q where x: "x = (p, q)" by fastforce
  define b where "b = add_all (OrderBook_new n) s pqs"
  define seen where "seen = fst ` {x \<in> set pqs. snd x \<noteq> 0}"
  have IH: "ob_inv b" "max_levels_per_side b = n" "keeps_best s n seen (dom (ob_lookup b s))"
    using snoc by (simp_all add: b_def seen_def)
  have step: "add_all (OrderBook_new n) s (pqs @ [x]) = fst (add_order b s p q)"
    by (simp add: add_all_def b_def x add_def case_prod_beta Let_def)
  have inv: "ob_inv (fst (add_order b s p q))" "max_levels_per_side (fst (add_order b s p q)) = n"
    using IH add_order_refines(1) max_levels_add_order by simp_all
  show ?case
  proof (cases "q = 0")
    case True
    then have "fst (add_order b s p q) = b" by (simp add: add_order_def)
    moreover have "{y \<in> set (pqs @ [x]). snd y \<noteq> 0} = {x \<in> set pqs. snd x \<noteq> 0}" using True x by auto
    ultimately show ?thesis using IH by (simp only: step seen_def simp_thms)
  next
    case False
    define T where "T = dom (ob_lookup b s)"
    have sn: "fst ` {y \<in> set (pqs @ [x]). snd y \<noteq> 0} = insert p seen" using False x by (force simp: seen_def)
    have "dom (ob_lookup (fst (add_order b s p q)) s) =
      (if p \<in> T then T else if card T < n then insert p T
       else if T = {} \<or> better s (worst_price (s = Side_buy) T) p then T
       else insert p (T - {worst_price (s = Side_buy) T}))"
      unfolding ob_lookup_abs add_order_abs [OF IH(1)] spec_add_order_dom [OF False] T_def
      by (simp add: IH(2))
    moreover have "p \<in> T \<Longrightarrow> insert p seen = seen" using IH(3) by (auto simp: keeps_best_def T_def)
    ultimately have "keeps_best s n (insert p seen) (dom (ob_lookup (fst (add_order b s p q)) s))"
      using IH(3) keeps_best_insert_room [of s n seen T p] keeps_best_insert_full [of s n seen T p]
      unfolding T_def [symmetric] by (simp split: if_splits)
    then show ?thesis using inv by (simp only: step sn simp_thms)
  qed
qed

text \<open>
  The overflow policy. After any sequence of adds on one side of a new book, the tracked
  prices are a subset of the prices added with a positive quantity, as many of them as fit, and
  every tracked price is strictly better than every price that was forgotten or refused.
\<close>

lemma adds_keep_best_prices:
  "let T = dom (ob_lookup (add_all (OrderBook_new n) s pqs) s); seen = {p. \<exists>q. (p, q) \<in> set pqs \<and> q \<noteq> 0} in
   T \<subseteq> seen \<and> card T = min n (card seen) \<and> (\<forall>x y. x \<in> T \<and> y \<in> seen - T \<longrightarrow> better s x y)"
proof -
  have "fst ` {x \<in> set pqs. snd x \<noteq> 0} = {p. \<exists>q. (p, q) \<in> set pqs \<and> q \<noteq> 0}" by force
  then show ?thesis using add_all_keeps_best [of n s pqs] by (simp add: keeps_best_def Let_def)
qed

end
