(* ===== verification/Itch_Messages.thy ===== *)
theory Itch_Messages
  imports Prelude
begin

text \<open>
  The decoded ITCH 5.0 messages of \<^verbatim>\<open>src/include/optitrade/itch/messages.hpp\<close>: one record per struct
  with the fields in declaration order, the wire lengths, and a sum type standing for the overloads
  of a handler's \<^verbatim>\<open>on()\<close>.
\<close>

record Header =
  h_locate :: Locate
  h_tracking :: u16
  h_timestamp :: Nanos

record SystemEvent =
  se_h :: Header
  se_event_code :: u8

record StockDirectory =
  sd_h :: Header
  sd_symbol :: Symbol
  sd_market_category :: u8
  sd_financial_status :: u8
  sd_round_lot_size :: Qty
  sd_round_lots_only :: u8
  sd_issue_classification :: u8
  sd_issue_subtype :: "u8 list"
  sd_authenticity :: u8
  sd_short_sale_threshold :: u8
  sd_ipo_flag :: u8
  sd_luld_tier :: u8
  sd_etp_flag :: u8
  sd_etp_leverage :: u32
  sd_inverse :: u8

record AddOrder =
  ao_h :: Header
  ao_ref :: OrderRef
  ao_side :: Side
  ao_shares :: Qty
  ao_symbol :: Symbol
  ao_price :: Price
  ao_has_attribution :: bool
  ao_mpid :: "u8 list"

record OrderExecuted =
  oe_h :: Header
  oe_ref :: OrderRef
  oe_shares :: Qty
  oe_match :: u64

record OrderExecutedPrice =
  oep_h :: Header
  oep_ref :: OrderRef
  oep_shares :: Qty
  oep_match :: u64
  oep_printable :: bool
  oep_price :: Price

record OrderCancel =
  oc_h :: Header
  oc_ref :: OrderRef
  oc_shares :: Qty

record OrderDelete =
  od_h :: Header
  od_ref :: OrderRef

record OrderReplace =
  orp_h :: Header
  orp_old_ref :: OrderRef
  orp_new_ref :: OrderRef
  orp_shares :: Qty
  orp_price :: Price

record Trade =
  tr_h :: Header
  tr_ref :: OrderRef
  tr_side :: Side
  tr_shares :: Qty
  tr_symbol :: Symbol
  tr_price :: Price
  tr_match :: u64

datatype itch_message = IM_SystemEvent SystemEvent | IM_StockDirectory StockDirectory
  | IM_AddOrder AddOrder | IM_OrderExecuted OrderExecuted | IM_OrderExecutedPrice OrderExecutedPrice
  | IM_OrderCancel OrderCancel | IM_OrderDelete OrderDelete | IM_OrderReplace OrderReplace | IM_Trade Trade

definition kSystemEventLength :: nat where "kSystemEventLength = 12"
definition kStockDirectoryLength :: nat where "kStockDirectoryLength = 39"
definition kAddOrderLength :: nat where "kAddOrderLength = 36"
definition kAddOrderMpidLength :: nat where "kAddOrderMpidLength = 40"
definition kOrderExecutedLength :: nat where "kOrderExecutedLength = 31"
definition kOrderExecutedPriceLength :: nat where "kOrderExecutedPriceLength = 36"
definition kOrderCancelLength :: nat where "kOrderCancelLength = 23"
definition kOrderDeleteLength :: nat where "kOrderDeleteLength = 19"
definition kOrderReplaceLength :: nat where "kOrderReplaceLength = 35"
definition kTradeLength :: nat where "kTradeLength = 44"

definition kMaxMessageLength :: nat where "kMaxMessageLength = kTradeLength"
definition kFrameHeaderSize :: nat where "kFrameHeaderSize = 2"

lemmas itch_length_defs = kSystemEventLength_def kStockDirectoryLength_def kAddOrderLength_def
  kAddOrderMpidLength_def kOrderExecutedLength_def kOrderExecutedPriceLength_def kOrderCancelLength_def
  kOrderDeleteLength_def kOrderReplaceLength_def kTradeLength_def kMaxMessageLength_def kFrameHeaderSize_def

definition message_length :: "u8 \<Rightarrow> nat" where
  "message_length ty =
     (if ty = asc CHR ''S'' then kSystemEventLength
      else if ty = asc CHR ''R'' then kStockDirectoryLength
      else if ty = asc CHR ''A'' then kAddOrderLength
      else if ty = asc CHR ''F'' then kAddOrderMpidLength
      else if ty = asc CHR ''E'' then kOrderExecutedLength
      else if ty = asc CHR ''C'' then kOrderExecutedPriceLength
      else if ty = asc CHR ''X'' then kOrderCancelLength
      else if ty = asc CHR ''D'' then kOrderDeleteLength
      else if ty = asc CHR ''U'' then kOrderReplaceLength
      else if ty = asc CHR ''P'' then kTradeLength
      else 0)"

lemma message_length_max: "message_length ty \<le> kMaxMessageLength"
  by (simp add: message_length_def itch_length_defs)

end
