(* ===== verification/Market_Books.thy ===== *)
theory Market_Books
  imports Order_Book Flat_Hash_Map Itch_Messages
begin

text \<open>
  The books of every instrument on the feed, \<^verbatim>\<open>src/include/optitrade/book/market_books.hpp\<close>: the table
  of live orders and the symbol map are the FlatHashMap of the theory above, the per-locate slots a
  directory of 256 pages allocated on first use. Whether an allocation made while a message is
  applied succeeds is a parameter of the message (\<open>alloc\<close>). A result \<^term>\<open>None\<close> is the dereference of a
  null pointer; the theory shows that it never happens, that each level shows exactly the remaining
  quantity of the live orders on it, and what each message does to the table of live orders.
\<close>

section \<open>State\<close>

record Config =
  cf_max_orders :: nat
  cf_max_levels_per_side :: nat
  cf_max_symbols :: nat

record OrderInfo =
  oi_locate :: Locate
  oi_side :: Side
  oi_price :: Price
  oi_qty :: Qty

record OrderRecord =
  or_info :: OrderInfo
  or_level :: LevelId

record Slot =
  sl_book :: "OrderBook option"
  sl_symbol :: Symbol
  sl_last_trade :: Price

type_synonym Page = "Slot list"

record MarketBooks =
  mb_config :: Config
  mb_orders :: "(OrderRef, OrderRecord) fhm"
  mb_by_symbol :: "(Symbol, Locate) fhm"
  mb_pages :: "Page option list"
  mb_applied :: u64
  mb_overflows :: u64

text \<open>Do the page and the book allocation succeed, should this message need them?\<close>

record alloc =
  al_page :: bool
  al_book :: bool

definition kLocates :: nat where "kLocates = 65536"
definition kPageBits :: nat where "kPageBits = 8"
definition kPageSize :: nat where "kPageSize = 256"
definition kPages :: nat where "kPages = 256"

definition Slot_new :: Slot where
  "Slot_new = \<lparr>sl_book = None, sl_symbol = Symbol_blank, sl_last_trade = 0\<rparr>"

definition Page_new :: Page where
  "Page_new = replicate kPageSize Slot_new"

definition MarketBooks_new :: "Config \<Rightarrow> MarketBooks option" where
  "MarketBooks_new config = do {
     orders \<leftarrow> fhm_new (cf_max_orders config);
     by_symbol \<leftarrow> fhm_new (min (cf_max_symbols config) kLocates);
     Some \<lparr>mb_config = config, mb_orders = orders, mb_by_symbol = by_symbol,
           mb_pages = replicate kPages None, mb_applied = 0, mb_overflows = 0\<rparr> }"

section \<open>Slots\<close>

definition page_of :: "Locate \<Rightarrow> nat" where
  "page_of l = drop_bit kPageBits (unat l)"

definition slot_in_page :: "Locate \<Rightarrow> nat" where
  "slot_in_page l = unat l AND (kPageSize - 1)"

definition find_slot :: "MarketBooks \<Rightarrow> Locate \<Rightarrow> Slot option" where
  "find_slot mb l = map_option (\<lambda>page. page ! slot_in_page l) (mb_pages mb ! page_of l)"

text \<open>Writing through a slot pointer.\<close>

definition set_slot :: "MarketBooks \<Rightarrow> Locate \<Rightarrow> Slot \<Rightarrow> MarketBooks" where
  "set_slot mb l sl = mb\<lparr>mb_pages := (mb_pages mb)[page_of l :=
     map_option (\<lambda>page. page[slot_in_page l := sl]) (mb_pages mb ! page_of l)]\<rparr>"

text \<open>The slot of \<open>l\<close> with the page allocated on the way; \<^term>\<open>None\<close> when that fails.\<close>

definition slot_for :: "alloc \<Rightarrow> MarketBooks \<Rightarrow> Locate \<Rightarrow> MarketBooks \<times> Slot option" where
  "slot_for al mb l =
     (case mb_pages mb ! page_of l of
        None \<Rightarrow>
          if al_page al then
            (mb\<lparr>mb_pages := (mb_pages mb)[page_of l := Some Page_new]\<rparr>, Some (Page_new ! slot_in_page l))
          else (mb, None)
      | Some page \<Rightarrow> (mb, Some (page ! slot_in_page l)))"

definition ensure_book :: "alloc \<Rightarrow> MarketBooks \<Rightarrow> Slot \<Rightarrow> (Slot \<times> OrderBook) option" where
  "ensure_book al mb sl =
     (case sl_book sl of
        None \<Rightarrow>
          if al_book al then
            (let b = OrderBook_new (cf_max_levels_per_side (mb_config mb)) in Some (sl\<lparr>sl_book := Some b\<rparr>, b))
          else None
      | Some b \<Rightarrow> Some (sl, b))"

section \<open>The order table and the ladders\<close>

definition insert_order ::
  "alloc \<Rightarrow> MarketBooks \<Rightarrow> OrderRef \<Rightarrow> Locate \<Rightarrow> Side \<Rightarrow> Price \<Rightarrow> Qty \<Rightarrow> MarketBooks \<times> bool" where
  "insert_order al mb ref loc side price qty =
     (case slot_for al mb loc of
        (mb, None) \<Rightarrow> (mb, False)
      | (mb, Some sl) \<Rightarrow>
          (case ensure_book al mb sl of
             None \<Rightarrow> (mb, False)
           | Some (sl, bk) \<Rightarrow>
               let (bk', lid) = add_order bk side price qty;
                   mb = set_slot mb loc (sl\<lparr>sl_book := Some bk'\<rparr>);
                   mb = mb\<lparr>mb_overflows := mb_overflows mb + (ob_overflows bk' - ob_overflows bk)\<rparr>;
                   rec = \<lparr>or_info = \<lparr>oi_locate = loc, oi_side = side, oi_price = price, oi_qty = qty\<rparr>, or_level = lid\<rparr> in
               (mb\<lparr>mb_orders := fst (fhm_insert Hash_u64 (mb_orders mb) ref rec)\<rparr>, lid \<noteq> kNoLevel)))"

text \<open>\<^verbatim>\<open>slot_of(loc).book->f(...)\<close>.\<close>

definition on_book :: "MarketBooks \<Rightarrow> Locate \<Rightarrow> (OrderBook \<Rightarrow> OrderBook \<times> bool) \<Rightarrow> MarketBooks option" where
  "on_book mb loc f = do {
     sl \<leftarrow> find_slot mb loc;
     bk \<leftarrow> sl_book sl;
     Some (set_slot mb loc (sl\<lparr>sl_book := Some (fst (f bk))\<rparr>)) }"

definition drop_order :: "MarketBooks \<Rightarrow> OrderRef \<Rightarrow> MarketBooks option" where
  "drop_order mb ref = do {
     rec \<leftarrow> fhm_find Hash_u64 (mb_orders mb) ref;
     let i = or_info rec;
     mb \<leftarrow> (if or_level rec \<noteq> kNoLevel
           then on_book mb (oi_locate i) (\<lambda>bk. remove_order bk (oi_side i) (oi_price i) (oi_qty i) (or_level rec))
           else Some mb);
     Some (mb\<lparr>mb_orders := fst (fhm_erase Hash_u64 (mb_orders mb) ref)\<rparr>) }"

definition set_last_trade :: "MarketBooks \<Rightarrow> Locate \<Rightarrow> Price \<Rightarrow> MarketBooks option" where
  "set_last_trade mb loc traded = do {
     sl \<leftarrow> find_slot mb loc;
     Some (set_slot mb loc (sl\<lparr>sl_last_trade := traded\<rparr>)) }"

definition mb_reduce ::
  "MarketBooks \<Rightarrow> OrderRef \<Rightarrow> Qty \<Rightarrow> Price option \<Rightarrow> bool \<Rightarrow> (MarketBooks \<times> Applied) option" where
  "mb_reduce mb ref shares trade_price execution =
     (case fhm_find Hash_u64 (mb_orders mb) ref of
        None \<Rightarrow> Some (mb, Ap_unknown_order)
      | Some rec \<Rightarrow>
          if shares = 0 then Some (mb, Ap_invalid)
          else if shares > oi_qty (or_info rec) then do { mb \<leftarrow> drop_order mb ref; Some (mb, Ap_invalid) }
          else do {
            let i = or_info rec;
            let loc = oi_locate i;
            let traded = (case trade_price of Some p \<Rightarrow> p | None \<Rightarrow> oi_price i);
            mb \<leftarrow> (if shares = oi_qty i then drop_order mb ref
                  else do {
                    mb \<leftarrow> (if or_level rec \<noteq> kNoLevel
                          then on_book mb loc (\<lambda>bk. reduce_order bk (oi_side i) (oi_price i) shares (or_level rec))
                          else Some mb);
                    Some (mb\<lparr>mb_orders := fhm_store Hash_u64 (mb_orders mb) ref
                                (rec\<lparr>or_info := i\<lparr>oi_qty := oi_qty i - shares\<rparr>\<rparr>)\<rparr>) });
            mb \<leftarrow> (if execution then set_last_trade mb loc traded else Some mb);
            Some (mb\<lparr>mb_applied := mb_applied mb + 1\<rparr>, Ap_ok) })"

section \<open>Messages\<close>

definition on_StockDirectory :: "alloc \<Rightarrow> MarketBooks \<Rightarrow> StockDirectory \<Rightarrow> MarketBooks \<times> Applied" where
  "on_StockDirectory al mb m =
     (let loc = h_locate (sd_h m) in
      if Symbol_empty (sd_symbol m) then (mb, Ap_invalid)
      else case fhm_find Hash_Symbol (mb_by_symbol mb) (sd_symbol m) of
        Some bound \<Rightarrow> (mb, if bound = loc then Ap_ignored else Ap_invalid)
      | None \<Rightarrow>
          if (case find_slot mb loc of None \<Rightarrow> False | Some existing \<Rightarrow> \<not> Symbol_empty (sl_symbol existing))
          then (mb, Ap_invalid)
          else if fhm_size (mb_by_symbol mb) \<ge> fhm_max (mb_by_symbol mb) then (mb, Ap_capacity)
          else
            (case slot_for al mb loc of
               (mb, None) \<Rightarrow> (mb, Ap_capacity)
             | (mb, Some sl) \<Rightarrow>
                 (case ensure_book al mb sl of
                    None \<Rightarrow> (mb, Ap_capacity)
                  | Some (sl, bk) \<Rightarrow>
                      (set_slot (mb\<lparr>mb_by_symbol := fst (fhm_insert Hash_Symbol (mb_by_symbol mb) (sd_symbol m) loc)\<rparr>)
                         loc (sl\<lparr>sl_symbol := sd_symbol m\<rparr>), Ap_ok))))"

definition on_AddOrder :: "alloc \<Rightarrow> MarketBooks \<Rightarrow> AddOrder \<Rightarrow> MarketBooks \<times> Applied" where
  "on_AddOrder al mb m =
     (if ao_shares m = 0 \<or> (ao_side m \<noteq> Side_buy \<and> ao_side m \<noteq> Side_sell) then (mb, Ap_invalid)
      else if fhm_find Hash_u64 (mb_orders mb) (ao_ref m) \<noteq> None then (mb, Ap_duplicate_order)
      else if fhm_size (mb_orders mb) \<ge> fhm_max (mb_orders mb) then (mb, Ap_capacity)
      else
        let (mb, stored) = insert_order al mb (ao_ref m) (h_locate (ao_h m)) (ao_side m) (ao_price m) (ao_shares m) in
        if \<not> stored then (mb, Ap_capacity)
        else (mb\<lparr>mb_applied := mb_applied mb + 1\<rparr>, Ap_ok))"

definition on_OrderExecuted :: "MarketBooks \<Rightarrow> OrderExecuted \<Rightarrow> (MarketBooks \<times> Applied) option" where
  "on_OrderExecuted mb m = mb_reduce mb (oe_ref m) (oe_shares m) None True"

definition on_OrderExecutedPrice :: "MarketBooks \<Rightarrow> OrderExecutedPrice \<Rightarrow> (MarketBooks \<times> Applied) option" where
  "on_OrderExecutedPrice mb m = mb_reduce mb (oep_ref m) (oep_shares m) (Some (oep_price m)) True"

definition on_OrderCancel :: "MarketBooks \<Rightarrow> OrderCancel \<Rightarrow> (MarketBooks \<times> Applied) option" where
  "on_OrderCancel mb m = mb_reduce mb (oc_ref m) (oc_shares m) None False"

definition on_OrderDelete :: "MarketBooks \<Rightarrow> OrderDelete \<Rightarrow> (MarketBooks \<times> Applied) option" where
  "on_OrderDelete mb m =
     (if fhm_find Hash_u64 (mb_orders mb) (od_ref m) = None then Some (mb, Ap_unknown_order)
      else do {
        mb \<leftarrow> drop_order mb (od_ref m);
        Some (mb\<lparr>mb_applied := mb_applied mb + 1\<rparr>, Ap_ok) })"

definition on_OrderReplace :: "alloc \<Rightarrow> MarketBooks \<Rightarrow> OrderReplace \<Rightarrow> (MarketBooks \<times> Applied) option" where
  "on_OrderReplace al mb m =
     (case fhm_find Hash_u64 (mb_orders mb) (orp_old_ref m) of
        None \<Rightarrow> Some (mb, Ap_unknown_order)
      | Some old \<Rightarrow>
          if orp_shares m = 0 then Some (mb, Ap_invalid)
          else if fhm_find Hash_u64 (mb_orders mb) (orp_new_ref m) \<noteq> None then Some (mb, Ap_duplicate_order)
          else do {
            let prev = or_info old;
            mb \<leftarrow> drop_order mb (orp_old_ref m);
            let (mb, on_ladder) = insert_order al mb (orp_new_ref m) (oi_locate prev) (oi_side prev) (orp_price m) (orp_shares m);
            if \<not> on_ladder then Some (mb, Ap_capacity)
            else Some (mb\<lparr>mb_applied := mb_applied mb + 1\<rparr>, Ap_ok) })"

definition on_Trade :: "alloc \<Rightarrow> MarketBooks \<Rightarrow> Trade \<Rightarrow> MarketBooks \<times> Applied" where
  "on_Trade al mb m =
     (case slot_for al mb (h_locate (tr_h m)) of
        (mb, None) \<Rightarrow> (mb, Ap_ignored)
      | (mb, Some sl) \<Rightarrow> (set_slot mb (h_locate (tr_h m)) (sl\<lparr>sl_last_trade := tr_price m\<rparr>), Ap_ignored))"

definition on_SystemEvent :: "MarketBooks \<Rightarrow> SystemEvent \<Rightarrow> MarketBooks \<times> Applied" where
  "on_SystemEvent mb m = (mb, Ap_ignored)"

text \<open>Overload resolution of \<^verbatim>\<open>books.on(m)\<close>.\<close>

fun mb_on :: "alloc \<Rightarrow> itch_message \<Rightarrow> MarketBooks \<Rightarrow> (MarketBooks \<times> Applied) option" where
  "mb_on al (IM_SystemEvent m) mb = Some (on_SystemEvent mb m)"
| "mb_on al (IM_StockDirectory m) mb = Some (on_StockDirectory al mb m)"
| "mb_on al (IM_AddOrder m) mb = Some (on_AddOrder al mb m)"
| "mb_on al (IM_OrderExecuted m) mb = on_OrderExecuted mb m"
| "mb_on al (IM_OrderExecutedPrice m) mb = on_OrderExecutedPrice mb m"
| "mb_on al (IM_OrderCancel m) mb = on_OrderCancel mb m"
| "mb_on al (IM_OrderDelete m) mb = on_OrderDelete mb m"
| "mb_on al (IM_OrderReplace m) mb = on_OrderReplace al mb m"
| "mb_on al (IM_Trade m) mb = Some (on_Trade al mb m)"

section \<open>Queries\<close>

definition mb_book :: "MarketBooks \<Rightarrow> Locate \<Rightarrow> OrderBook option" where
  "mb_book mb l = (case find_slot mb l of None \<Rightarrow> None | Some sl \<Rightarrow> sl_book sl)"

definition mb_locate :: "MarketBooks \<Rightarrow> Symbol \<Rightarrow> Locate option" where
  "mb_locate mb s = fhm_find Hash_Symbol (mb_by_symbol mb) s"

definition mb_symbol :: "MarketBooks \<Rightarrow> Locate \<Rightarrow> Symbol" where
  "mb_symbol mb l = (case find_slot mb l of None \<Rightarrow> Symbol_blank | Some sl \<Rightarrow> sl_symbol sl)"

definition mb_order :: "MarketBooks \<Rightarrow> OrderRef \<Rightarrow> OrderInfo option" where
  "mb_order mb ref = map_option or_info (fhm_find Hash_u64 (mb_orders mb) ref)"

definition mb_live_orders :: "MarketBooks \<Rightarrow> nat" where
  "mb_live_orders mb = fhm_size (mb_orders mb)"

definition mb_last_trade :: "MarketBooks \<Rightarrow> Locate \<Rightarrow> Price" where
  "mb_last_trade mb l = (case find_slot mb l of None \<Rightarrow> 0 | Some sl \<Rightarrow> sl_last_trade sl)"

section \<open>Conservation: a level shows what its live orders hold\<close>

text \<open>
  The accounting is stated over the table of live orders as a map \<open>OT\<close> and the books as a map \<open>B\<close>
  from locates, so that the proofs below use only the contract of the book.
\<close>

definition on_level :: "(OrderRef \<rightharpoonup> OrderRecord) \<Rightarrow> Locate \<Rightarrow> bool \<Rightarrow> Price \<Rightarrow> LevelId \<Rightarrow> OrderRef set" where
  "on_level OT l d p i = {r. \<exists>rec. OT r = Some rec \<and> oi_locate (or_info rec) = l \<and>
     (oi_side (or_info rec) = Side_buy) = d \<and> oi_price (or_info rec) = p \<and> or_level rec = i}"

definition remaining :: "(OrderRef \<rightharpoonup> OrderRecord) \<Rightarrow> OrderRef \<Rightarrow> nat" where
  "remaining OT r = (case OT r of None \<Rightarrow> 0 | Some rec \<Rightarrow> unat (oi_qty (or_info rec)))"

definition level_exact :: "(OrderRef \<rightharpoonup> OrderRecord) \<Rightarrow> Locate \<Rightarrow> bool \<Rightarrow> Price \<Rightarrow> Entry \<Rightarrow> bool" where
  "level_exact OT l d p e =
     (unat (lv_qty (en_lv e)) = (\<Sum>r\<in>on_level OT l d p (en_id e). remaining OT r) \<and>
      unat (lv_orders (en_lv e)) = card (on_level OT l d p (en_id e)))"

definition order_ok :: "(Locate \<rightharpoonup> OrderBook) \<Rightarrow> OrderRecord \<Rightarrow> bool" where
  "order_ok B rec =
     (valid_side (oi_side (or_info rec)) \<and> oi_qty (or_info rec) \<noteq> 0 \<and>
      (\<exists>b. B (oi_locate (or_info rec)) = Some b \<and> or_level rec < ob_next_id b))"

definition conserve :: "(OrderRef \<rightharpoonup> OrderRecord) \<Rightarrow> (Locate \<rightharpoonup> OrderBook) \<Rightarrow> bool" where
  "conserve OT B =
     (finite (dom OT) \<and> (\<forall>r rec. OT r = Some rec \<longrightarrow> order_ok B rec) \<and>
      (\<forall>l b. B l = Some b \<longrightarrow> lb_inv b \<and>
         (\<forall>d p e. ab_side (ob_abs b) d p = Some e \<longrightarrow> level_exact OT l d p e)))"

lemma conserveI:
  assumes "finite (dom OT)" "\<And>r rec. OT r = Some rec \<Longrightarrow> order_ok B rec"
    "\<And>l b. B l = Some b \<Longrightarrow> lb_inv b"
    "\<And>l b d p e. B l = Some b \<Longrightarrow> ab_side (ob_abs b) d p = Some e \<Longrightarrow> level_exact OT l d p e"
  shows "conserve OT B"
  using assms by (auto simp: conserve_def)

lemma conserveD:
  assumes "conserve OT B"
  shows "finite (dom OT)" "OT r = Some rec \<Longrightarrow> order_ok B rec" "B l = Some b \<Longrightarrow> lb_inv b"
    "B l = Some b \<Longrightarrow> ab_side (ob_abs b) d p = Some e \<Longrightarrow> level_exact OT l d p e"
  using assms by (auto simp: conserve_def)

lemma on_level_finite [simp]: "finite (dom OT) \<Longrightarrow> finite (on_level OT l d p i)"
  by (rule finite_subset [of _ "dom OT"]) (auto simp: on_level_def)

text \<open>The level, side and price an order sits on.\<close>

definition sits :: "OrderRecord \<Rightarrow> Locate \<Rightarrow> bool \<Rightarrow> Price \<Rightarrow> LevelId \<Rightarrow> bool" where
  "sits rec l d p i = (oi_locate (or_info rec) = l \<and> (oi_side (or_info rec) = Side_buy) = d \<and>
     oi_price (or_info rec) = p \<and> or_level rec = i)"

lemma on_level_sits: "on_level OT l d p i = {r. \<exists>rec. OT r = Some rec \<and> sits rec l d p i}"
  by (simp add: on_level_def sits_def)

lemma on_level_insert:
  "OT r = None \<Longrightarrow> on_level (OT(r \<mapsto> rec)) l d p i = (if sits rec l d p i then insert r (on_level OT l d p i) else on_level OT l d p i)"
  by (auto simp: on_level_sits)

lemma on_level_delete: "on_level (OT(r := None)) l d p i = on_level OT l d p i - {r}"
  by (auto simp: on_level_sits)

lemma on_level_update:
  "OT r = Some rec0 \<Longrightarrow> (\<And>l d p i. sits rec l d p i = sits rec0 l d p i) \<Longrightarrow> on_level (OT(r \<mapsto> rec)) l d p i = on_level OT l d p i"
  by (auto simp: on_level_sits)

lemma remaining_upd: "r \<noteq> x \<Longrightarrow> remaining (OT(x := v)) r = remaining OT r"
  by (simp add: remaining_def)

lemma sum_remaining_upd: "x \<notin> S \<Longrightarrow> (\<Sum>r\<in>S. remaining (OT(x := v)) r) = (\<Sum>r\<in>S. remaining OT r)"
  by (rule sum.cong) (metis remaining_upd)+

lemma on_level_mem: "OT r = Some rec \<Longrightarrow> r \<in> on_level OT l d p i \<longleftrightarrow> sits rec l d p i"
  by (auto simp: on_level_sits)

lemma level_exact_insert:
  assumes "finite (dom OT)" "OT r = None" "\<not> sits rec l d p (en_id e)"
  shows "level_exact (OT(r \<mapsto> rec)) l d p e = level_exact OT l d p e"
proof -
  have "r \<notin> on_level OT l d p (en_id e)" using assms(2) by (simp add: on_level_def)
  then show ?thesis using assms by (simp add: level_exact_def on_level_insert sum_remaining_upd)
qed

lemma level_exact_insert_on:
  assumes "finite (dom OT)" "OT r = None" "sits rec l d p i" "en_id e = i"
    "unat (lv_qty (en_lv e)) = (\<Sum>r\<in>on_level OT l d p i. remaining OT r) + unat (oi_qty (or_info rec))"
    "unat (lv_orders (en_lv e)) = card (on_level OT l d p i) + 1"
  shows "level_exact (OT(r \<mapsto> rec)) l d p e"
proof -
  have nin: "r \<notin> on_level OT l d p i" using assms(2) by (simp add: on_level_def)
  have "remaining (OT(r \<mapsto> rec)) r = unat (oi_qty (or_info rec))" by (simp add: remaining_def)
  then show ?thesis
    using assms nin by (simp add: level_exact_def on_level_insert sum_remaining_upd)
qed

lemma level_exact_delete:
  assumes "finite (dom OT)" "\<And>rec. OT r = Some rec \<Longrightarrow> \<not> sits rec l d p (en_id e)"
  shows "level_exact (OT(r := None)) l d p e = level_exact OT l d p e"
proof -
  have nin: "r \<notin> on_level OT l d p (en_id e)" using assms(2) by (auto simp: on_level_sits)
  then show ?thesis by (simp add: level_exact_def on_level_delete sum_remaining_upd)
qed

lemma level_exact_split:
  assumes "finite (dom OT)" "OT r = Some rec" "sits rec l d p i"
  shows "(\<Sum>x\<in>on_level OT l d p i. remaining OT x) =
      (\<Sum>x\<in>on_level OT l d p i - {r}. remaining OT x) + unat (oi_qty (or_info rec))"
    "card (on_level OT l d p i) = card (on_level OT l d p i - {r}) + 1"
proof -
  have mem: "r \<in> on_level OT l d p i" using assms(2,3) by (simp add: on_level_mem)
  then show "(\<Sum>x\<in>on_level OT l d p i. remaining OT x) =
      (\<Sum>x\<in>on_level OT l d p i - {r}. remaining OT x) + unat (oi_qty (or_info rec))"
    using assms(1,2) sum.remove [of "on_level OT l d p i" r "remaining OT"] by (simp add: remaining_def)
  show "card (on_level OT l d p i) = card (on_level OT l d p i - {r}) + 1"
    using assms(1) mem card.remove [of "on_level OT l d p i" r] by simp
qed

lemma sits_simps:
  "sits \<lparr>or_info = \<lparr>oi_locate = l, oi_side = s, oi_price = p, oi_qty = q\<rparr>, or_level = i\<rparr> l' d p' i' \<longleftrightarrow>
     l = l' \<and> (s = Side_buy) = d \<and> p = p' \<and> i = i'"
  by (simp add: sits_def)

lemma order_ok_grow:
  assumes "order_ok B rec" "B l = Some b" "ob_next_id b \<le> ob_next_id b'"
  shows "order_ok (B(l \<mapsto> b')) rec"
  using assms by (auto simp: order_ok_def intro: order_less_le_trans)

lemma joined_counts:
  assumes "unat (lv_qty (en_lv e)) + unat q < 2 ^ 32" "unat (lv_orders (en_lv e)) < 2 ^ 32 - 1"
  shows "unat (lv_qty (en_lv (joined_entry e q))) = unat (lv_qty (en_lv e)) + unat q"
    "unat (lv_orders (en_lv (joined_entry e q))) = unat (lv_orders (en_lv e)) + 1"
proof -
  show "unat (lv_qty (en_lv (joined_entry e q))) = unat (lv_qty (en_lv e)) + unat q"
    using assms(1) by (simp add: joined_entry_def unat_add_no_overflow)
  have "lv_orders (en_lv e) \<noteq> - 1" using assms(2) word_eq_max_iff [of "lv_orders (en_lv e)"] by auto
  then show "unat (lv_orders (en_lv (joined_entry e q))) = unat (lv_orders (en_lv e)) + 1"
    by (simp add: joined_entry_def unat_plus_one)
qed

lemma add_order_next_mono:
  assumes "lb_inv b" "ob_next_id b \<noteq> - 1"
  shows "ob_next_id b \<le> ob_next_id (fst (add_order b s p q))"
  using ob.add_nxt [OF assms(1), of s p q] word_less_plus_one(1) [OF assms(2)] by auto

lemma conserve_add:
  assumes c: "conserve OT B" and b: "B l = Some b" and r: "OT r = None" and q: "q \<noteq> 0" "valid_side s"
    and nx: "ob_next_id b \<noteq> - 1" and a: "add_order b s p q = (b', i)"
  defines "rec \<equiv> \<lparr>or_info = \<lparr>oi_locate = l, oi_side = s, oi_price = p, oi_qty = q\<rparr>, or_level = i\<rparr>"
  shows "conserve (OT(r \<mapsto> rec)) (B(l \<mapsto> b'))"
proof (rule conserveI)
  note [simp] = a [THEN arg_cong [of _ _ fst], simplified] a [THEN arg_cong [of _ _ snd], simplified]
  have lb: "lb_inv b" using conserveD(3) [OF c b] .
  have lb': "lb_inv b'" using ob.add_invar [OF lb nx, of s p q] by simp
  have nz: "ob_next_id b \<noteq> 0" "ob_next_id b' \<noteq> 0" using lb lb' by (auto simp: lb_inv_def)
  have fin: "finite (dom OT)" using conserveD(1) [OF c] .
  show "finite (dom (OT(r \<mapsto> rec)))" using fin by simp
  show "lb_inv x" if "(B(l \<mapsto> b')) l' = Some x" for l' x
    using that lb' conserveD(3) [OF c] by (auto split: if_splits)
  have "i < ob_next_id b'"
  proof (cases "i = 0")
    case True
    with nz show ?thesis by (simp add: word_gt_0)
  next
    case False
    with ob.add_stored [OF lb, of s p q] obtain e where "ab_side (ob_abs b') (s = Side_buy) p = Some e" "en_id e = i" by auto
    with ob.entry_known [OF lb'] show ?thesis by blast
  qed
  then have "order_ok (B(l \<mapsto> b')) rec" using q by (simp add: order_ok_def rec_def)
  then show "order_ok (B(l \<mapsto> b')) x" if "(OT(r \<mapsto> rec)) y = Some x" for y x
    using that conserveD(2) [OF c] order_ok_grow [of B x l b b'] b add_order_next_mono [OF lb nx, of s p q]
    by (auto split: if_splits)
  show "level_exact (OT(r \<mapsto> rec)) l' d p' e"
    if x: "(B(l \<mapsto> b')) l' = Some x" and e: "ab_side (ob_abs x) d p' = Some e" for l' x d p' e
  proof (cases "l' = l")
    case False
    then have "level_exact OT l' d p' e" using x e conserveD(4) [OF c] by auto
    with False show ?thesis using level_exact_insert [OF fin r] by (simp add: rec_def sits_simps)
  next
    case True
    with x e have e': "ab_side (ob_abs b') d p' = Some e" by simp
    consider (other) "(d, p') \<noteq> (s = Side_buy, p)" | (refused) "(d, p') = (s = Side_buy, p)" "i = 0"
      | (stored) "(d, p') = (s = Side_buy, p)" "i \<noteq> 0" by blast
    then show ?thesis
    proof cases
      case other
      with ob.add_other [OF lb, of s p q] e' have "ab_side (ob_abs b) d p' = Some e" by simp
      then have "level_exact OT l d p' e" using conserveD(4) [OF c b] by blast
      with other True show ?thesis by (subst level_exact_insert [OF fin r]) (auto simp: rec_def sits_simps)
    next
      case refused
      then have "ab_side (ob_abs b) d p' = Some e" using ob.add_refused [OF lb, of s p q] e' nz by simp
      then have "level_exact OT l d p' e" "en_id e \<noteq> 0"
        using conserveD(4) [OF c b] ob.entry_known [OF lb] by blast+
      with refused True show ?thesis by (subst level_exact_insert [OF fin r]) (auto simp: rec_def sits_simps)
    next
      case stored
      have st: "en_id e = i" "case ab_side (ob_abs b) (s = Side_buy) p of
           None \<Rightarrow> e = new_entry p q (ob_next_id b) \<and> en_id e = ob_next_id b
         | Some e0 \<Rightarrow> e = joined_entry e0 q \<and> unat (lv_qty (en_lv e0)) + unat q < 2 ^ 32 \<and>
             unat (lv_orders (en_lv e0)) < 2 ^ 32 - 1"
        using ob.add_stored [OF lb, of s p q] stored e' by auto
      have sit: "sits rec l' d p' i" using True stored by (simp add: rec_def sits_simps)
      show ?thesis
      proof (cases "ab_side (ob_abs b) (s = Side_buy) p")
        case None
        with st have e: "e = new_entry p q i" "i = ob_next_id b" by auto
        have "on_level OT l d p' i = {}"
          using conserveD(2) [OF c] b by (fastforce simp: on_level_def order_ok_def e(2))
        then show ?thesis using e True by (intro level_exact_insert_on [OF fin r sit st(1)]) (simp_all add: new_entry_def rec_def)
      next
        case (Some e0)
        with st have e0: "e = joined_entry e0 q" "en_id e0 = i" "unat (lv_qty (en_lv e0)) + unat q < 2 ^ 32"
          "unat (lv_orders (en_lv e0)) < 2 ^ 32 - 1" by auto
        have "level_exact OT l (s = Side_buy) p e0" using conserveD(4) [OF c b Some] .
        then show ?thesis using e0 True stored joined_counts [OF e0(3,4)]
          by (intro level_exact_insert_on [OF fin r sit st(1)]) (simp_all add: level_exact_def rec_def)
      qed
    qed
  qed
qed

text \<open>The book side of taking shares off an order that is on the ladder.\<close>

lemma order_level_cases:
  assumes c: "conserve OT B" and r: "OT r = Some rec" and b: "B (oi_locate (or_info rec)) = Some b"
    and e: "ab_side (ob_abs b) (oi_side (or_info rec) = Side_buy) (oi_price (or_info rec)) = Some e"
    and i: "en_id e = or_level rec"
  shows "unat (lv_qty (en_lv e)) = (\<Sum>x\<in>on_level OT (oi_locate (or_info rec)) (oi_side (or_info rec) = Side_buy)
        (oi_price (or_info rec)) (en_id e) - {r}. remaining OT x) + unat (oi_qty (or_info rec))"
    "unat (lv_orders (en_lv e)) = card (on_level OT (oi_locate (or_info rec)) (oi_side (or_info rec) = Side_buy)
        (oi_price (or_info rec)) (en_id e) - {r}) + 1"
    "oi_qty (or_info rec) \<le> lv_qty (en_lv e)"
proof -
  have "sits rec (oi_locate (or_info rec)) (oi_side (or_info rec) = Side_buy) (oi_price (or_info rec)) (en_id e)"
    using i by (simp add: sits_def)
  from level_exact_split [OF conserveD(1) [OF c] r this] conserveD(4) [OF c b e]
  show "unat (lv_qty (en_lv e)) = (\<Sum>x\<in>on_level OT (oi_locate (or_info rec)) (oi_side (or_info rec) = Side_buy)
        (oi_price (or_info rec)) (en_id e) - {r}. remaining OT x) + unat (oi_qty (or_info rec))"
    "unat (lv_orders (en_lv e)) = card (on_level OT (oi_locate (or_info rec)) (oi_side (or_info rec) = Side_buy)
        (oi_price (or_info rec)) (en_id e) - {r}) + 1"
    by (simp_all add: level_exact_def)
  then show "oi_qty (or_info rec) \<le> lv_qty (en_lv e)" by (simp add: word_le_nat_alt)
qed

lemma conserve_forget:
  assumes c: "conserve OT B" and r: "OT r = Some rec" and z: "or_level rec = 0"
  shows "conserve (OT(r := None)) B"
proof (rule conserveI)
  show "finite (dom (OT(r := None)))" using conserveD(1) [OF c] by simp
  show "order_ok B x" if "(OT(r := None)) y = Some x" for x y using that conserveD(2) [OF c] by (auto split: if_splits)
  show "lb_inv b" if "B l = Some b" for l b using that conserveD(3) [OF c] by blast
  show "level_exact (OT(r := None)) l d p e" if "B l = Some b" "ab_side (ob_abs b) d p = Some e" for l b d p e
  proof -
    have "en_id e \<noteq> 0" "level_exact OT l d p e"
      using that ob.entry_known conserveD [OF c] by blast+
    then show ?thesis using r z by (subst level_exact_delete [OF conserveD(1) [OF c]]) (auto simp: sits_def)
  qed
qed

lemma conserve_drop:
  assumes c: "conserve OT B" and r: "OT r = Some rec" and b: "B (oi_locate (or_info rec)) = Some b"
    and z: "or_level rec \<noteq> 0"
  defines "i \<equiv> or_info rec"
  defines "b' \<equiv> fst (remove_order b (oi_side i) (oi_price i) (oi_qty i) (or_level rec))"
  shows "conserve (OT(r := None)) (B(oi_locate i \<mapsto> b'))"
proof (rule conserveI)
  have b': "b' = fst (take_qty b (oi_side i) (oi_price i) (oi_qty i) (or_level rec) True)"
    using z by (simp add: b'_def remove_order_def kNoLevel_def)
  have lb: "lb_inv b" using conserveD(3) [OF c b] .
  have fin: "finite (dom OT)" using conserveD(1) [OF c] .
  have inv: "lb_inv b'" "ob_next_id b' = ob_next_id b" using ob.take_invar [OF lb] by (auto simp: b')
  show "finite (dom (OT(r := None)))" using fin by simp
  show "lb_inv x" if "(B(oi_locate i \<mapsto> b')) l = Some x" for l x
    using that inv conserveD(3) [OF c] by (auto split: if_splits)
  show "order_ok (B(oi_locate i \<mapsto> b')) x" if "(OT(r := None)) y = Some x" for x y
    using that conserveD(2) [OF c] order_ok_grow [of B x "oi_locate i" b b'] b inv(2) by (auto simp: i_def split: if_splits)
  show "level_exact (OT(r := None)) l d p e"
    if x: "(B(oi_locate i \<mapsto> b')) l = Some x" and e: "ab_side (ob_abs x) d p = Some e" for l x d p e
  proof (cases "l = oi_locate i \<and> d = (oi_side i = Side_buy) \<and> p = oi_price i")
    case False
    have "\<exists>b1. B l = Some b1 \<and> ab_side (ob_abs b1) d p = Some e"
    proof (cases "l = oi_locate i")
      case True
      with False have "(d, p) \<noteq> (oi_side i = Side_buy, oi_price i)" by auto
      with ob.take_other [OF lb z this] e x have "ab_side (ob_abs b) d p = Some e" by (auto simp: b' True)
      with b True show ?thesis by (simp add: i_def)
    qed (use x e in auto)
    then have "level_exact OT l d p e" using conserveD(4) [OF c] by blast
    with False show ?thesis using r by (subst level_exact_delete [OF fin]) (auto simp: sits_def i_def)
  next
    case True
    with x e have e': "ab_side (ob_abs b') (oi_side i = Side_buy) (oi_price i) = Some e" by simp
    show ?thesis
    proof (cases "\<exists>e0. ab_side (ob_abs b) (oi_side i = Side_buy) (oi_price i) = Some e0 \<and> en_id e0 = or_level rec")
      case False
      then have "ab_side (ob_abs b) (oi_side i = Side_buy) (oi_price i) = Some e"
        using ob.take_stale [OF lb z] e' by (auto simp: b')
      moreover from this False have "en_id e \<noteq> or_level rec" by blast
      moreover have "level_exact OT l d p e" using calculation(1) conserveD(4) [OF c b] True i_def by simp
      ultimately show ?thesis using r by (subst level_exact_delete [OF fin]) (auto simp: sits_def)
    next
      case hit: True
      then obtain e0 where e0: "ab_side (ob_abs b) (oi_side i = Side_buy) (oi_price i) = Some e0" "en_id e0 = or_level rec" by blast
      note cnt = order_level_cases [OF c r b e0(1) [unfolded i_def] e0(2), folded i_def]
      have q: "oi_qty i \<noteq> 0" using conserveD(2) [OF c r] by (simp add: order_ok_def i_def)
      have hit: "oi_qty i \<noteq> lv_qty (en_lv e0)" "e = reduced_entry e0 (oi_qty i) True"
        using ob.take_hit [OF lb z e0 q cnt(3), of True] e' by (auto simp: b' split: if_splits)
      define S where "S = on_level OT (oi_locate i) (oi_side i = Side_buy) (oi_price i) (en_id e0) - {r}"
      have "(\<Sum>x\<in>S. remaining OT x) \<noteq> 0" using hit(1) cnt(1) S_def by (metis add_0 word_unat_eq_iff)
      then have "S \<noteq> {}" "finite S" using fin by (auto simp: S_def)
      then have "card S \<ge> 1" by (simp add: Suc_leI card_gt_0_iff)
      then have more: "lv_orders (en_lv e0) > 1" using cnt(2) by (simp add: word_less_nat_alt S_def)
      then have "unat (lv_orders (en_lv e)) = card S"
        using cnt(2) unat_minus_le [of 1 "lv_orders (en_lv e0)"] by (simp add: hit(2) reduced_entry_def S_def)
      moreover have "unat (lv_qty (en_lv e)) = (\<Sum>x\<in>S. remaining OT x)"
        using cnt(1,3) by (simp add: hit(2) reduced_entry_def unat_minus_le S_def)
      moreover have "on_level (OT(r := None)) l d p (en_id e) = S" using True hit(2) by (simp add: on_level_delete S_def)
      moreover have "r \<notin> S" by (simp add: S_def)
      ultimately show ?thesis by (simp add: level_exact_def sum_remaining_upd)
    qed
  qed
qed

lemma conserve_reduce_unlisted:
  assumes c: "conserve OT B" and r: "OT r = Some rec" and z: "or_level rec = 0" and q: "q \<noteq> 0"
  shows "conserve (OT(r \<mapsto> rec\<lparr>or_info := (or_info rec)\<lparr>oi_qty := q\<rparr>\<rparr>)) B"
proof (rule conserveI)
  let ?rec = "rec\<lparr>or_info := (or_info rec)\<lparr>oi_qty := q\<rparr>\<rparr>"
  show "finite (dom (OT(r \<mapsto> ?rec)))" using conserveD(1) [OF c] by simp
  have "order_ok B ?rec" using conserveD(2) [OF c r] q by (simp add: order_ok_def)
  then show "order_ok B x" if "(OT(r \<mapsto> ?rec)) y = Some x" for x y
    using that conserveD(2) [OF c] by (auto split: if_splits)
  show "lb_inv b" if "B l = Some b" for l b using that conserveD(3) [OF c] by blast
  show "level_exact (OT(r \<mapsto> ?rec)) l d p e" if "B l = Some b" "ab_side (ob_abs b) d p = Some e" for l b d p e
  proof -
    have e: "en_id e \<noteq> 0" "level_exact OT l d p e"
      using that ob.entry_known conserveD [OF c] by blast+
    have "on_level (OT(r \<mapsto> ?rec)) l d p (en_id e) = on_level OT l d p (en_id e)"
      using r by (intro on_level_update) (simp_all add: sits_def)
    moreover have "r \<notin> on_level OT l d p (en_id e)" using r z e(1) by (simp add: on_level_def)
    ultimately show ?thesis using e(2) by (simp add: level_exact_def sum_remaining_upd)
  qed
qed

lemma conserve_reduce:
  assumes c: "conserve OT B" and r: "OT r = Some rec" and b: "B (oi_locate (or_info rec)) = Some b"
    and z: "or_level rec \<noteq> 0" and q: "q \<noteq> 0" "q < oi_qty (or_info rec)"
  defines "i \<equiv> or_info rec"
  defines "b' \<equiv> fst (reduce_order b (oi_side i) (oi_price i) q (or_level rec))"
  shows "conserve (OT(r \<mapsto> rec\<lparr>or_info := i\<lparr>oi_qty := oi_qty i - q\<rparr>\<rparr>)) (B(oi_locate i \<mapsto> b'))"
    (is "conserve (OT(r \<mapsto> ?rec)) _")
proof (rule conserveI)
  have b': "b' = fst (take_qty b (oi_side i) (oi_price i) q (or_level rec) False)"
    using z by (simp add: b'_def reduce_order_def kNoLevel_def)
  have lb: "lb_inv b" using conserveD(3) [OF c b] .
  have fin: "finite (dom OT)" using conserveD(1) [OF c] .
  have inv: "lb_inv b'" "ob_next_id b' = ob_next_id b" using ob.take_invar [OF lb] by (auto simp: b')
  show "finite (dom (OT(r \<mapsto> ?rec)))" using fin by simp
  show "lb_inv x" if "(B(oi_locate i \<mapsto> b')) l = Some x" for l x
    using that inv conserveD(3) [OF c] by (auto split: if_splits)
  have "oi_qty i - q \<noteq> 0" using q(2) by (auto simp: i_def)
  then have "order_ok B ?rec" using conserveD(2) [OF c r] by (simp add: order_ok_def i_def)
  then show "order_ok (B(oi_locate i \<mapsto> b')) x" if "(OT(r \<mapsto> ?rec)) y = Some x" for x y
    using that conserveD(2) [OF c] order_ok_grow [of B x "oi_locate i" b b'] b inv(2) by (auto simp: i_def split: if_splits)
  have same: "on_level (OT(r \<mapsto> ?rec)) l d p j = on_level OT l d p j" for l d p j
    using r by (intro on_level_update) (simp_all add: sits_def i_def)
  have off: "level_exact (OT(r \<mapsto> ?rec)) l d p e" if "level_exact OT l d p e" "\<not> sits rec l d p (en_id e)" for l d p e
    using that on_level_mem [of OT r rec, OF r] by (simp add: level_exact_def same sum_remaining_upd)
  show "level_exact (OT(r \<mapsto> ?rec)) l d p e"
    if x: "(B(oi_locate i \<mapsto> b')) l = Some x" and e: "ab_side (ob_abs x) d p = Some e" for l x d p e
  proof (cases "l = oi_locate i \<and> d = (oi_side i = Side_buy) \<and> p = oi_price i")
    case False
    have "\<exists>b1. B l = Some b1 \<and> ab_side (ob_abs b1) d p = Some e"
    proof (cases "l = oi_locate i")
      case True
      with False have "(d, p) \<noteq> (oi_side i = Side_buy, oi_price i)" by auto
      with ob.take_other [OF lb z this] e x have "ab_side (ob_abs b) d p = Some e" by (auto simp: b' True)
      with b True show ?thesis by (simp add: i_def)
    qed (use x e in auto)
    then have "level_exact OT l d p e" using conserveD(4) [OF c] by blast
    with False show ?thesis by (intro off) (auto simp: sits_def i_def)
  next
    case True
    with x e have e': "ab_side (ob_abs b') (oi_side i = Side_buy) (oi_price i) = Some e" by simp
    show ?thesis
    proof (cases "\<exists>e0. ab_side (ob_abs b) (oi_side i = Side_buy) (oi_price i) = Some e0 \<and> en_id e0 = or_level rec")
      case False
      then have "ab_side (ob_abs b) (oi_side i = Side_buy) (oi_price i) = Some e"
        using ob.take_stale [OF lb z] e' by (auto simp: b')
      moreover from this False have "en_id e \<noteq> or_level rec" by blast
      moreover have "level_exact OT l d p e" using calculation(1) conserveD(4) [OF c b] True i_def by simp
      ultimately show ?thesis by (intro off) (auto simp: sits_def)
    next
      case hit: True
      then obtain e0 where e0: "ab_side (ob_abs b) (oi_side i = Side_buy) (oi_price i) = Some e0" "en_id e0 = or_level rec" by blast
      note cnt = order_level_cases [OF c r b e0(1) [unfolded i_def] e0(2), folded i_def]
      have le: "q \<le> lv_qty (en_lv e0)" "q \<noteq> lv_qty (en_lv e0)" using q(2) cnt(3) by (auto simp: i_def)
      have hit: "e = reduced_entry e0 q False"
        using ob.take_hit [OF lb z e0 q(1) le(1), of False] e' le(2) by (auto simp: b')
      define S where "S = on_level OT (oi_locate i) (oi_side i = Side_buy) (oi_price i) (en_id e0)"
      have mem: "r \<in> S" "finite S" "r \<notin> S - {r}" using r e0(2) fin by (auto simp: S_def on_level_mem sits_def i_def)
      have "remaining (OT(r \<mapsto> ?rec)) r = unat (oi_qty i) - unat q"
        using q(2) by (simp add: remaining_def unat_minus_le i_def)
      then have "(\<Sum>x\<in>S. remaining (OT(r \<mapsto> ?rec)) x) = (\<Sum>x\<in>S - {r}. remaining OT x) + (unat (oi_qty i) - unat q)"
        using mem sum_remaining_upd [OF mem(3)] by (simp add: sum.remove)
      moreover have "unat q < unat (oi_qty i)" using q(2) by (simp add: word_less_nat_alt i_def)
      moreover have "unat (lv_qty (en_lv e)) = unat (lv_qty (en_lv e0)) - unat q"
        using le(1) by (simp add: hit reduced_entry_def unat_minus_le)
      ultimately have "unat (lv_qty (en_lv e)) = (\<Sum>x\<in>S. remaining (OT(r \<mapsto> ?rec)) x)"
        using cnt(1) by (simp add: S_def)
      moreover have "card S = card (S - {r}) + 1" using mem(1,2) card.remove [of S r] by simp
      then have "unat (lv_orders (en_lv e)) = card S" using cnt(2) by (simp add: S_def hit reduced_entry_def)
      ultimately show ?thesis using True hit by (simp add: level_exact_def same S_def)
    qed
  qed
qed

section \<open>The page directory as a table of slots\<close>

definition pages_ok :: "Page option list \<Rightarrow> bool" where
  "pages_ok ps = (length ps = 256 \<and> (\<forall>page. Some page \<in> set ps \<longrightarrow> length page = 256))"

lemma page_of_less: "page_of l < 256" and slot_in_page_less: "slot_in_page l < 256"
  and locate_split: "unat l = 256 * page_of l + slot_in_page l"
proof -
  have "unat l < 2 ^ 16" using unsigned_less [of l] by simp
  moreover have p: "page_of l = unat l div 256" by (simp add: page_of_def kPageBits_def drop_bit_eq_div)
  moreover have s: "slot_in_page l = unat l mod 256"
    using nat_and_mask_eq_mod [of "unat l" 8] by (simp add: slot_in_page_def kPageSize_def)
  ultimately show "page_of l < 256" "slot_in_page l < 256" by auto
  show "unat l = 256 * page_of l + slot_in_page l" by (simp add: p s)
qed

lemma page_slot_inj: "page_of l = page_of l' \<Longrightarrow> slot_in_page l = slot_in_page l' \<Longrightarrow> l = l'"
  by (metis locate_split word_unat_eq_iff)

lemma pages_ok_nth: "pages_ok ps \<Longrightarrow> ps ! page_of l = Some page \<Longrightarrow> length page = 256"
  using page_of_less [of l] by (auto simp: pages_ok_def intro!: nth_mem [of _ ps, THEN back_subst [of "\<lambda>x. x \<in> set ps"]])

lemma find_slot_set_slot:
  assumes "pages_ok (mb_pages mb)"
  shows "find_slot (set_slot mb l sl) l' =
    (if l' = l then map_option (\<lambda>_. sl) (find_slot mb l) else find_slot mb l')"
proof -
  have len: "length (mb_pages mb) = 256" using assms by (simp add: pages_ok_def)
  show ?thesis
  proof (cases "page_of l' = page_of l")
    case False
    then show ?thesis by (auto simp: find_slot_def set_slot_def)
  next
    case True
    show ?thesis
    proof (cases "mb_pages mb ! page_of l")
      case None
      with True show ?thesis using page_of_less [of l] len by (auto simp: find_slot_def set_slot_def)
    next
      case (Some page)
      then have "length page = 256" using pages_ok_nth [OF assms] by blast
      moreover have "slot_in_page l' \<noteq> slot_in_page l" if "l' \<noteq> l" using True that page_slot_inj by blast
      ultimately show ?thesis using Some True page_of_less [of l] slot_in_page_less [of l] len
        by (auto simp: find_slot_def set_slot_def)
    qed
  qed
qed

lemma pages_ok_set_slot:
  assumes "pages_ok (mb_pages mb)"
  shows "pages_ok (mb_pages (set_slot mb l sl))"
proof -
  have "length page = 256" if "Some page \<in> set (mb_pages (set_slot mb l sl))" for page
    using that assms pages_ok_nth [OF assms, of l]
    by (cases "mb_pages mb ! page_of l") (auto simp: set_slot_def pages_ok_def dest!: set_update_subset_insert [THEN subsetD])
  then show ?thesis using assms by (simp add: pages_ok_def set_slot_def)
qed

lemma set_slot_sel [simp]:
  "mb_config (set_slot mb l sl) = mb_config mb" "mb_orders (set_slot mb l sl) = mb_orders mb"
  "mb_by_symbol (set_slot mb l sl) = mb_by_symbol mb" "mb_applied (set_slot mb l sl) = mb_applied mb"
  "mb_overflows (set_slot mb l sl) = mb_overflows mb"
  by (simp_all add: set_slot_def)

lemma find_slot_upd [simp]:
  "find_slot (mb\<lparr>mb_orders := x1\<rparr>) l = find_slot mb l" "find_slot (mb\<lparr>mb_by_symbol := x2\<rparr>) l = find_slot mb l"
  "find_slot (mb\<lparr>mb_applied := x3\<rparr>) l = find_slot mb l" "find_slot (mb\<lparr>mb_overflows := x3\<rparr>) l = find_slot mb l"
  by (simp_all add: find_slot_def)

text \<open>A page allocated on the way is full of empty slots, which no query can tell from no page.\<close>

lemma slot_for_spec:
  assumes "pages_ok (mb_pages mb)" "slot_for al mb l = (mb', r)"
  shows "pages_ok (mb_pages mb')"
    "\<exists>ps. mb' = mb\<lparr>mb_pages := ps\<rparr>"
    "r = find_slot mb' l"
    "r = None \<Longrightarrow> mb' = mb" "find_slot mb l = Some sl \<Longrightarrow> r = Some sl \<and> mb' = mb"
    "find_slot mb' l' = find_slot mb l' \<or> find_slot mb l' = None \<and> find_slot mb' l' = Some Slot_new"
proof -
  have len: "length (mb_pages mb) = 256" "page_of l < 256" using assms(1) page_of_less by (simp_all add: pages_ok_def)
  have new: "length Page_new = 256" "Page_new ! slot_in_page x = Slot_new" for x
    using slot_in_page_less [of x] by (simp_all add: Page_new_def kPageSize_def)
  consider (old) page where "mb_pages mb ! page_of l = Some page" "mb' = mb" "r = Some (page ! slot_in_page l)"
    | (alloc) "mb_pages mb ! page_of l = None" "mb' = mb\<lparr>mb_pages := (mb_pages mb)[page_of l := Some Page_new]\<rparr>" "r = Some Slot_new"
    | (fail) "mb_pages mb ! page_of l = None" "mb' = mb" "r = None"
    using assms(2) new(2) by (auto simp: slot_for_def split: option.splits if_splits)
  then have "pages_ok (mb_pages mb') \<and> (\<exists>ps. mb' = mb\<lparr>mb_pages := ps\<rparr>) \<and> r = find_slot mb' l \<and> (r = None \<longrightarrow> mb' = mb)
    \<and> (\<forall>sl. find_slot mb l = Some sl \<longrightarrow> r = Some sl \<and> mb' = mb)
    \<and> (\<forall>l'. find_slot mb' l' = find_slot mb l' \<or> find_slot mb l' = None \<and> find_slot mb' l' = Some Slot_new)"
  proof cases
    case old
    then show ?thesis using assms(1) by (auto simp: find_slot_def intro: exI [of _ "mb_pages mb"])
  next
    case alloc
    have "pages_ok (mb_pages mb')"
      using assms(1) new(1) alloc(2) by (auto simp: pages_ok_def dest!: set_update_subset_insert [THEN subsetD])
    moreover have "find_slot mb' l' = find_slot mb l' \<or> find_slot mb l' = None \<and> find_slot mb' l' = Some Slot_new" for l'
      using alloc len new(2) by (cases "page_of l' = page_of l") (auto simp: find_slot_def)
    moreover have "find_slot mb' l = Some Slot_new" "find_slot mb l = None"
      using alloc len new(2) by (simp_all add: find_slot_def)
    ultimately show ?thesis using alloc by auto
  next
    case fail
    then show ?thesis using assms(1) by (auto simp: find_slot_def intro: exI [of _ "mb_pages mb"])
  qed
  then show "pages_ok (mb_pages mb')" "\<exists>ps. mb' = mb\<lparr>mb_pages := ps\<rparr>"
    "r = find_slot mb' l" "r = None \<Longrightarrow> mb' = mb" "find_slot mb l = Some sl \<Longrightarrow> r = Some sl \<and> mb' = mb"
    "find_slot mb' l' = find_slot mb l' \<or> find_slot mb l' = None \<and> find_slot mb' l' = Some Slot_new"
    by blast+
qed

lemma slot_for_queries:
  assumes "pages_ok (mb_pages mb)" "slot_for al mb l = (mb', r)"
  shows "mb_book mb' = mb_book mb" "mb_symbol mb' = mb_symbol mb" "mb_last_trade mb' = mb_last_trade mb"
    "mb_orders mb' = mb_orders mb" "mb_by_symbol mb' = mb_by_symbol mb" "mb_config mb' = mb_config mb"
    "mb_applied mb' = mb_applied mb" "mb_overflows mb' = mb_overflows mb"
proof -
  have "mb_book mb' l' = mb_book mb l' \<and> mb_symbol mb' l' = mb_symbol mb l' \<and> mb_last_trade mb' l' = mb_last_trade mb l'" for l'
    using slot_for_spec(6) [OF assms, of l']
    by (auto simp: mb_book_def mb_symbol_def mb_last_trade_def Slot_new_def)
  then show "mb_book mb' = mb_book mb" "mb_symbol mb' = mb_symbol mb" "mb_last_trade mb' = mb_last_trade mb"
    by (simp_all add: fun_eq_iff)
  show "mb_orders mb' = mb_orders mb" "mb_by_symbol mb' = mb_by_symbol mb" "mb_config mb' = mb_config mb"
    "mb_applied mb' = mb_applied mb" "mb_overflows mb' = mb_overflows mb"
    using slot_for_spec(2) [OF assms] by auto
qed

lemma set_slot_queries:
  assumes "pages_ok (mb_pages mb)" "find_slot mb l = Some sl0"
  shows "mb_book (set_slot mb l sl) = (mb_book mb)(l := sl_book sl)"
    "mb_symbol (set_slot mb l sl) = (mb_symbol mb)(l := sl_symbol sl)"
    "mb_last_trade (set_slot mb l sl) = (mb_last_trade mb)(l := sl_last_trade sl)"
  using assms(2)
  by (auto simp: mb_book_def mb_symbol_def mb_last_trade_def find_slot_set_slot [OF assms(1)] fun_eq_iff)

section \<open>The invariant and what each step keeps\<close>

abbreviation live :: "MarketBooks \<Rightarrow> OrderRef \<rightharpoonup> OrderRecord" where
  "live mb \<equiv> fhm_find Hash_u64 (mb_orders mb)"

abbreviation bound :: "MarketBooks \<Rightarrow> Symbol \<rightharpoonup> Locate" where
  "bound mb \<equiv> fhm_find Hash_Symbol (mb_by_symbol mb)"

text \<open>\<open>k\<close> bounds the level ids handed out so far; it grows by at most one per message.\<close>

definition mb_inv :: "nat \<Rightarrow> MarketBooks \<Rightarrow> bool" where
  "mb_inv k mb =
     (fhm_inv Hash_u64 (mb_orders mb) \<and> fhm_inv Hash_Symbol (mb_by_symbol mb) \<and> pages_ok (mb_pages mb) \<and>
      conserve (live mb) (mb_book mb) \<and>
      (\<forall>l b. mb_book mb l = Some b \<longrightarrow> unat (ob_next_id b) \<le> k) \<and>
      (\<forall>s l. bound mb s = Some l \<longleftrightarrow> mb_symbol mb l = s \<and> \<not> Symbol_empty s))"

lemma mb_invD:
  assumes "mb_inv k mb"
  shows "fhm_inv Hash_u64 (mb_orders mb)" "fhm_inv Hash_Symbol (mb_by_symbol mb)" "pages_ok (mb_pages mb)"
    "conserve (live mb) (mb_book mb)" "mb_book mb l = Some b \<Longrightarrow> unat (ob_next_id b) \<le> k"
    "bound mb s = Some l \<longleftrightarrow> mb_symbol mb l = s \<and> \<not> Symbol_empty s"
  using assms by (auto simp: mb_inv_def)

lemma query_upd [simp]:
  "mb_book (mb\<lparr>mb_orders := x1\<rparr>) = mb_book mb" "mb_symbol (mb\<lparr>mb_orders := x1\<rparr>) = mb_symbol mb"
  "mb_last_trade (mb\<lparr>mb_orders := x1\<rparr>) = mb_last_trade mb"
  "mb_book (mb\<lparr>mb_applied := x\<rparr>) = mb_book mb" "mb_symbol (mb\<lparr>mb_applied := x\<rparr>) = mb_symbol mb"
  "mb_last_trade (mb\<lparr>mb_applied := x\<rparr>) = mb_last_trade mb"
  "mb_book (mb\<lparr>mb_overflows := x\<rparr>) = mb_book mb" "mb_symbol (mb\<lparr>mb_overflows := x\<rparr>) = mb_symbol mb"
  "mb_last_trade (mb\<lparr>mb_overflows := x\<rparr>) = mb_last_trade mb"
  "mb_book (mb\<lparr>mb_by_symbol := y\<rparr>) = mb_book mb" "mb_symbol (mb\<lparr>mb_by_symbol := y\<rparr>) = mb_symbol mb"
  "mb_last_trade (mb\<lparr>mb_by_symbol := y\<rparr>) = mb_last_trade mb"
  by (simp_all add: mb_book_def mb_symbol_def mb_last_trade_def fun_eq_iff)

lemma mb_inv_applied [simp]: "mb_inv k (mb\<lparr>mb_applied := x\<rparr>) = mb_inv k mb"
  by (simp add: mb_inv_def)

lemma mb_inv_mono: "mb_inv k mb \<Longrightarrow> k \<le> k' \<Longrightarrow> mb_inv k' mb"
  by (auto simp: mb_inv_def intro: order_trans)

lemma conserve_new_book:
  assumes "conserve OT B" "B l = None"
  shows "conserve OT (B(l \<mapsto> OrderBook_new n))"
proof (rule conserveI)
  show "finite (dom OT)" using conserveD(1) [OF assms(1)] .
  show "order_ok (B(l \<mapsto> OrderBook_new n)) x" if "OT r = Some x" for r x
    using conserveD(2) [OF assms(1) that] assms(2) by (auto simp: order_ok_def)
  show "lb_inv b" if "(B(l \<mapsto> OrderBook_new n)) l' = Some b" for l' b
    using that conserveD(3) [OF assms(1)] OrderBook_new_inv(2) by (auto split: if_splits)
  show "level_exact OT l' d p e" if "(B(l \<mapsto> OrderBook_new n)) l' = Some b" "ab_side (ob_abs b) d p = Some e" for l' b d p e
    using that conserveD(4) [OF assms(1)] by (auto simp: OrderBook_new_inv(3) split: if_splits)
qed

lemma ensure_book_spec:
  assumes "ensure_book al mb sl = Some (sl', b)" "conserve OT B" "B l = sl_book sl"
  shows "sl_book sl' = Some b" "sl_symbol sl' = sl_symbol sl" "sl_last_trade sl' = sl_last_trade sl"
    "conserve OT (B(l \<mapsto> b))"
    "sl_book sl = Some b \<or> sl_book sl = None \<and> ob_next_id b = 1"
  using assms conserve_new_book [OF assms(2), of l]
  by (auto simp: ensure_book_def Let_def OrderBook_new_def fun_upd_idem split: option.splits if_splits)

text \<open>The effect of \<^verbatim>\<open>insert_order\<close> on everything that can be observed.\<close>

lemma insert_order_spec:
  assumes inv: "mb_inv k mb" and r: "live mb ref = None" and room: "fhm_size (mb_orders mb) < fhm_max (mb_orders mb)"
    and q: "q \<noteq> 0" "valid_side s" and k: "1 \<le> k" "k < 2 ^ 64 - 1"
    and ins: "insert_order al mb ref loc s p q = (mb', ok)"
  shows "mb_inv (k + 1) mb' \<and> mb_symbol mb' = mb_symbol mb \<and> mb_last_trade mb' = mb_last_trade mb \<and>
    mb_by_symbol mb' = mb_by_symbol mb \<and> mb_applied mb' = mb_applied mb \<and> mb_config mb' = mb_config mb \<and>
    (live mb' = live mb \<and> mb_book mb' = mb_book mb \<and> \<not> ok \<and> mb_book mb loc = None \<or>
     (\<exists>i. live mb' = (live mb)(ref \<mapsto> \<lparr>or_info = \<lparr>oi_locate = loc, oi_side = s, oi_price = p, oi_qty = q\<rparr>, or_level = i\<rparr>) \<and>
       ok = (i \<noteq> 0) \<and> (\<forall>l. l \<noteq> loc \<longrightarrow> mb_book mb' l = mb_book mb l)))"
proof -
  obtain mb1 so where sf: "slot_for al mb loc = (mb1, so)" by fastforce
  note pk = mb_invD(3) [OF inv]
  note sp = slot_for_spec [OF pk sf] and sq [simp] = slot_for_queries [OF pk sf]
  have inv1: "mb_inv (k + 1) mb1" using inv sp(1) by (auto simp: mb_inv_def intro: le_SucI)
  show ?thesis
  proof (cases so)
    case None
    then have "mb' = mb1" "\<not> ok" using ins sf by (auto simp: insert_order_def)
    moreover have "mb_book mb loc = None" using None sp(3,4) by (simp add: mb_book_def)
    ultimately show ?thesis using inv1 by simp
  next
    case (Some sl)
    then have fs: "find_slot mb1 loc = Some sl" using sp(3) by simp
    then have bk: "mb_book mb loc = sl_book sl" using sq(1) by (metis mb_book_def option.case(2))
    have syl: "mb_symbol mb loc = sl_symbol sl" "mb_last_trade mb loc = sl_last_trade sl"
      using fs sq(2,3) by (metis mb_symbol_def option.case(2), metis mb_last_trade_def option.case(2))
    show ?thesis
    proof (cases "ensure_book al mb1 sl")
      case None
      then have "mb' = mb1" "\<not> ok" using ins sf Some by (auto simp: insert_order_def)
      moreover have "sl_book sl = None" using None by (auto simp: ensure_book_def Let_def split: option.splits)
      ultimately show ?thesis using inv1 bk by simp
    next
      case (Some slb)
      obtain sl' b where slb: "slb = (sl', b)" by fastforce
      note eb = ensure_book_spec [OF Some [unfolded slb] mb_invD(4) [OF inv] bk]
      obtain b' i where ab: "add_order b s p q = (b', i)" by fastforce
      define rec where "rec = \<lparr>or_info = \<lparr>oi_locate = loc, oi_side = s, oi_price = p, oi_qty = q\<rparr>, or_level = i\<rparr>"
      define mb2 where "mb2 = set_slot mb1 loc (sl'\<lparr>sl_book := Some b'\<rparr>)"
      have mb': "mb' = mb2\<lparr>mb_overflows := mb_overflows mb2 + (ob_overflows b' - ob_overflows b),
          mb_orders := fst (fhm_insert Hash_u64 (mb_orders mb2) ref rec)\<rparr>" and ok: "ok = (i \<noteq> 0)"
        using ins sf \<open>so = Some sl\<close> Some slb ab by (auto simp: insert_order_def Let_def rec_def mb2_def kNoLevel_def)
      have bq: "mb_book mb2 = (mb_book mb)(loc \<mapsto> b')" "mb_symbol mb2 = mb_symbol mb" "mb_last_trade mb2 = mb_last_trade mb"
        unfolding mb2_def set_slot_queries [OF sp(1) fs] using eb(2,3) by (simp_all add: fun_eq_iff syl)
      have nb: "ob_next_id b \<noteq> - 1" "unat (ob_next_id b) \<le> k"
        using eb(5) mb_invD(5) [OF inv, of loc b] bk k word_eq_max_iff [of "ob_next_id b"] by auto
      have lb: "lb_inv b" using conserveD(3) [OF eb(4), of loc] by simp
      have nb': "unat (ob_next_id b') \<le> k + 1"
        using ob.add_nxt [OF lb, of s p q] nb unat_plus_one [OF nb(1)] ab by auto
      have cons: "conserve ((live mb)(ref \<mapsto> rec)) ((mb_book mb)(loc \<mapsto> b'))"
        using conserve_add [OF eb(4) _ r q nb(1) ab, of loc] by (simp add: rec_def)
      have o: "mb_orders mb2 = mb_orders mb" "mb_by_symbol mb2 = mb_by_symbol mb" "mb_applied mb2 = mb_applied mb"
        "mb_config mb2 = mb_config mb" "pages_ok (mb_pages mb2)"
        using pages_ok_set_slot [OF sp(1)] by (simp_all add: mb2_def)
      note fi = fhm.insert_fst [OF mb_invD(1) [OF inv] r room, of rec]
      have "mb_inv (k + 1) mb'"
        unfolding mb_inv_def mb' using mb_invD(2,5,6) [OF inv] fi cons nb' by (simp add: bq o le_SucI)
      then show ?thesis using fi(2) by (auto simp: mb' bq o ok rec_def)
    qed
  qed
qed

lemma mb_book_slot: "mb_book mb l = Some b \<Longrightarrow> \<exists>sl. find_slot mb l = Some sl \<and> sl_book sl = Some b"
  by (auto simp: mb_book_def split: option.splits)

lemma on_book_spec:
  assumes "pages_ok (mb_pages mb)" "mb_book mb l = Some b"
  shows "\<exists>mb'. on_book mb l f = Some mb' \<and> pages_ok (mb_pages mb') \<and> mb_book mb' = (mb_book mb)(l \<mapsto> fst (f b)) \<and>
    mb_symbol mb' = mb_symbol mb \<and> mb_last_trade mb' = mb_last_trade mb \<and> mb_orders mb' = mb_orders mb \<and>
    mb_by_symbol mb' = mb_by_symbol mb \<and> mb_applied mb' = mb_applied mb \<and> mb_config mb' = mb_config mb"
proof -
  obtain sl where sl: "find_slot mb l = Some sl" "sl_book sl = Some b" using mb_book_slot [OF assms(2)] by blast
  define mb' where "mb' = set_slot mb l (sl\<lparr>sl_book := Some (fst (f b))\<rparr>)"
  have "on_book mb l f = Some mb'" by (simp add: on_book_def sl mb'_def)
  moreover have "mb_symbol mb' = mb_symbol mb" "mb_last_trade mb' = mb_last_trade mb" "mb_book mb' = (mb_book mb)(l \<mapsto> fst (f b))"
    unfolding mb'_def set_slot_queries [OF assms(1) sl(1)] by (simp_all add: fun_eq_iff mb_symbol_def mb_last_trade_def sl)
  ultimately show ?thesis using pages_ok_set_slot [OF assms(1)] by (simp add: mb'_def)
qed

text \<open>Only the table of live orders and one book change, and the next level id of that book does not.\<close>

definition same_but_orders :: "MarketBooks \<Rightarrow> MarketBooks \<Rightarrow> bool" where
  "same_but_orders mb mb' = (mb_symbol mb' = mb_symbol mb \<and> mb_by_symbol mb' = mb_by_symbol mb \<and>
     mb_config mb' = mb_config mb \<and> mb_last_trade mb' = mb_last_trade mb \<and> mb_applied mb' = mb_applied mb)"

lemma order_book_exists:
  assumes "mb_inv k mb" "live mb r = Some rec"
  obtains b where "mb_book mb (oi_locate (or_info rec)) = Some b"
  using conserveD(2) [OF mb_invD(4) [OF assms(1)] assms(2)] by (auto simp: order_ok_def)

lemma drop_order_spec:
  assumes inv: "mb_inv k mb" and r: "live mb ref = Some rec"
  shows "\<exists>mb'. drop_order mb ref = Some mb' \<and> mb_inv k mb' \<and> live mb' = (live mb)(ref := None) \<and>
    same_but_orders mb mb' \<and> fhm_size (mb_orders mb') < fhm_max (mb_orders mb') \<and>
    (\<forall>l. l \<noteq> oi_locate (or_info rec) \<longrightarrow> mb_book mb' l = mb_book mb l) \<and>
    mb_book mb' (oi_locate (or_info rec)) \<noteq> None"
proof -
  obtain b where b: "mb_book mb (oi_locate (or_info rec)) = Some b" using order_book_exists [OF inv r] .
  note er = fhm.erase_fst [OF mb_invD(1) [OF inv], of ref] fhm.erase_makes_room [OF mb_invD(1) [OF inv] r]
  show ?thesis
  proof (cases "or_level rec = 0")
    case True
    have "drop_order mb ref = Some (mb\<lparr>mb_orders := fst (fhm_erase Hash_u64 (mb_orders mb) ref)\<rparr>)"
      using True r by (simp add: drop_order_def kNoLevel_def)
    then show ?thesis using mb_invD(2,3,5,6) [OF inv] er b conserve_forget [OF mb_invD(4) [OF inv] r True]
      by (simp add: mb_inv_def same_but_orders_def)
  next
    case False
    define f where "f = (\<lambda>bk. remove_order bk (oi_side (or_info rec)) (oi_price (or_info rec)) (oi_qty (or_info rec)) (or_level rec))"
    obtain mb1 where m1: "on_book mb (oi_locate (or_info rec)) f = Some mb1" "pages_ok (mb_pages mb1)"
      "mb_book mb1 = (mb_book mb)(oi_locate (or_info rec) \<mapsto> fst (f b))" "mb_symbol mb1 = mb_symbol mb"
      "mb_last_trade mb1 = mb_last_trade mb" "mb_orders mb1 = mb_orders mb" "mb_by_symbol mb1 = mb_by_symbol mb"
      "mb_applied mb1 = mb_applied mb" "mb_config mb1 = mb_config mb"
      using on_book_spec [OF mb_invD(3) [OF inv] b, of f] by blast
    have d: "drop_order mb ref = Some (mb1\<lparr>mb_orders := fst (fhm_erase Hash_u64 (mb_orders mb) ref)\<rparr>)"
      using False r m1(1,6) by (simp add: drop_order_def kNoLevel_def f_def)
    have "lb_inv b" using conserveD(3) [OF mb_invD(4) [OF inv] b] .
    then have "ob_next_id (fst (f b)) = ob_next_id b"
      using ob.take_invar False by (simp add: f_def remove_order_def kNoLevel_def)
    then show ?thesis
      using d mb_invD(2,5,6) [OF inv] er b m1 conserve_drop [OF mb_invD(4) [OF inv] r b False]
      by (simp add: mb_inv_def same_but_orders_def f_def)
  qed
qed

lemma set_last_trade_spec:
  assumes inv: "mb_inv k mb" and b: "mb_book mb l \<noteq> None"
  shows "\<exists>mb'. set_last_trade mb l p = Some mb' \<and> mb_inv k mb' \<and> mb_orders mb' = mb_orders mb \<and>
    mb_book mb' = mb_book mb \<and> mb_symbol mb' = mb_symbol mb \<and> mb_by_symbol mb' = mb_by_symbol mb \<and>
    mb_last_trade mb' = (mb_last_trade mb)(l := p) \<and> mb_applied mb' = mb_applied mb \<and> mb_config mb' = mb_config mb"
proof -
  obtain sl where sl: "find_slot mb l = Some sl" using b by (auto simp: mb_book_def split: option.splits)
  define mb' where "mb' = set_slot mb l (sl\<lparr>sl_last_trade := p\<rparr>)"
  have q: "mb_symbol mb' = mb_symbol mb" "mb_last_trade mb' = (mb_last_trade mb)(l := p)" "mb_book mb' = mb_book mb"
    unfolding mb'_def set_slot_queries [OF mb_invD(3) [OF inv] sl]
    by (simp_all add: fun_eq_iff mb_symbol_def mb_book_def sl)
  have "mb_inv k mb'"
    using inv q pages_ok_set_slot [OF mb_invD(3) [OF inv]] by (simp add: mb_inv_def mb'_def)
  then show ?thesis using q by (simp add: set_last_trade_def sl mb'_def)
qed

text \<open>The partial branch of \<^verbatim>\<open>reduce\<close>.\<close>

lemma partial_reduce_spec:
  assumes inv: "mb_inv k mb" and r: "live mb ref = Some rec" and q: "q \<noteq> 0" "q < oi_qty (or_info rec)"
  defines "i \<equiv> or_info rec"
  defines "rec' \<equiv> rec\<lparr>or_info := i\<lparr>oi_qty := oi_qty i - q\<rparr>\<rparr>"
  shows "\<exists>mb1. (if or_level rec \<noteq> kNoLevel
        then on_book mb (oi_locate i) (\<lambda>bk. reduce_order bk (oi_side i) (oi_price i) q (or_level rec)) else Some mb) = Some mb1 \<and>
      mb_orders mb1 = mb_orders mb \<and> mb_book mb1 (oi_locate i) \<noteq> None \<and>
      mb_inv k (mb1\<lparr>mb_orders := fhm_store Hash_u64 (mb_orders mb) ref rec'\<rparr>) \<and>
      fhm_find Hash_u64 (fhm_store Hash_u64 (mb_orders mb) ref rec') = (live mb)(ref \<mapsto> rec') \<and> same_but_orders mb mb1"
proof -
  obtain b where b: "mb_book mb (oi_locate i) = Some b" using order_book_exists [OF inv r] by (auto simp: i_def)
  note st = fhm.store_old [OF mb_invD(1) [OF inv] r, of rec']
  show ?thesis
  proof (cases "or_level rec = 0")
    case True
    have "oi_qty i - q \<noteq> 0" using q(2) by (auto simp: i_def)
    from conserve_reduce_unlisted [OF mb_invD(4) [OF inv] r True this] have "conserve ((live mb)(ref \<mapsto> rec')) (mb_book mb)"
      by (simp add: rec'_def i_def)
    then show ?thesis using True b st mb_invD(2,3,5,6) [OF inv]
      by (simp add: kNoLevel_def mb_inv_def same_but_orders_def)
  next
    case False
    define f where "f = (\<lambda>bk. reduce_order bk (oi_side i) (oi_price i) q (or_level rec))"
    obtain mb1 where m1: "on_book mb (oi_locate i) f = Some mb1" "pages_ok (mb_pages mb1)"
      "mb_book mb1 = (mb_book mb)(oi_locate i \<mapsto> fst (f b))" "mb_symbol mb1 = mb_symbol mb"
      "mb_last_trade mb1 = mb_last_trade mb" "mb_orders mb1 = mb_orders mb" "mb_by_symbol mb1 = mb_by_symbol mb"
      "mb_applied mb1 = mb_applied mb" "mb_config mb1 = mb_config mb"
      using on_book_spec [OF mb_invD(3) [OF inv] b, of f] by blast
    have "lb_inv b" using conserveD(3) [OF mb_invD(4) [OF inv] b] .
    then have nx: "ob_next_id (fst (f b)) = ob_next_id b"
      using ob.take_invar False by (simp add: f_def reduce_order_def kNoLevel_def)
    have "conserve ((live mb)(ref \<mapsto> rec')) ((mb_book mb)(oi_locate i \<mapsto> fst (f b)))"
      using conserve_reduce [OF mb_invD(4) [OF inv] r b [unfolded i_def] False q] by (simp add: f_def i_def rec'_def)
    then have "mb_inv k (mb1\<lparr>mb_orders := fhm_store Hash_u64 (mb_orders mb) ref rec'\<rparr>)"
      using m1 nx st b mb_invD(2,5,6) [OF inv] by (simp add: mb_inv_def)
    then show ?thesis using m1 st False by (simp add: kNoLevel_def same_but_orders_def f_def)
  qed
qed

text \<open>
  What a reduction does to the table of live orders: nothing for an unknown order or 0 shares, the
  order goes when it is consumed or over-executed, and otherwise it keeps the rest.
\<close>

definition reduced_table :: "(OrderRef \<rightharpoonup> OrderInfo) \<Rightarrow> OrderRef \<Rightarrow> Qty \<Rightarrow> (OrderRef \<rightharpoonup> OrderInfo)" where
  "reduced_table T ref shares =
     (case T ref of
        None \<Rightarrow> T
      | Some i \<Rightarrow> if shares = 0 then T
                 else if shares \<ge> oi_qty i then T(ref := None)
                 else T(ref \<mapsto> i\<lparr>oi_qty := oi_qty i - shares\<rparr>))"

definition reduced_result :: "(OrderRef \<rightharpoonup> OrderInfo) \<Rightarrow> OrderRef \<Rightarrow> Qty \<Rightarrow> Applied" where
  "reduced_result T ref shares =
     (case T ref of
        None \<Rightarrow> Ap_unknown_order
      | Some i \<Rightarrow> if shares = 0 \<or> shares > oi_qty i then Ap_invalid else Ap_ok)"

lemma mb_order_live: "mb_order mb = (\<lambda>r. map_option or_info (live mb r))"
  by (simp add: mb_order_def fun_eq_iff)

lemma mb_reduce_spec:
  assumes inv: "mb_inv k mb"
  shows "\<exists>mb' res. mb_reduce mb ref shares tp ex = Some (mb', res) \<and> mb_inv k mb' \<and>
    mb_order mb' = reduced_table (mb_order mb) ref shares \<and> res = reduced_result (mb_order mb) ref shares \<and>
    mb_symbol mb' = mb_symbol mb \<and> mb_by_symbol mb' = mb_by_symbol mb \<and>
    mb_applied mb' = (if res = Ap_ok then mb_applied mb + 1 else mb_applied mb) \<and>
    (res = Ap_unknown_order \<or> shares = 0 \<longrightarrow> mb' = mb) \<and>
    mb_last_trade mb' = (case mb_order mb ref of
        Some i \<Rightarrow> if res = Ap_ok \<and> ex then (mb_last_trade mb)(oi_locate i := case tp of Some p \<Rightarrow> p | None \<Rightarrow> oi_price i)
                  else mb_last_trade mb
      | None \<Rightarrow> mb_last_trade mb)"
proof (cases "live mb ref")
  case None
  then show ?thesis using inv by (simp add: mb_reduce_def reduced_table_def reduced_result_def mb_order_def)
next
  case (Some rec)
  define i where "i = or_info rec"
  have oi: "mb_order mb ref = Some i" using Some by (simp add: mb_order_def i_def)
  consider (zero) "shares = 0" | (over) "shares \<noteq> 0" "shares > oi_qty i" | (all) "shares \<noteq> 0" "shares = oi_qty i"
    | (part) "shares \<noteq> 0" "shares < oi_qty i" by (meson linorder_cases)
  then show ?thesis
  proof cases
    case zero
    then show ?thesis using inv Some oi by (simp add: mb_reduce_def reduced_table_def reduced_result_def)
  next
    case over
    obtain mb1 where d: "drop_order mb ref = Some mb1" "mb_inv k mb1" "live mb1 = (live mb)(ref := None)" "same_but_orders mb mb1"
      using drop_order_spec [OF inv Some] by blast
    have "mb_order mb1 = (mb_order mb)(ref := None)" using d(3) by (auto simp: mb_order_live)
    then show ?thesis using over d Some oi
      by (simp add: mb_reduce_def reduced_table_def reduced_result_def i_def [symmetric] same_but_orders_def order.strict_implies_order)
  next
    case all
    obtain mb1 where d: "drop_order mb ref = Some mb1" "mb_inv k mb1" "live mb1 = (live mb)(ref := None)" "same_but_orders mb mb1"
      "mb_book mb1 (oi_locate i) \<noteq> None"
      using drop_order_spec [OF inv Some] by (auto simp: i_def)
    define px where "px = (case tp of Some p \<Rightarrow> p | None \<Rightarrow> oi_price i)"
    obtain mb2 where s2: "set_last_trade mb1 (oi_locate i) px = Some mb2" "mb_inv k mb2" "mb_orders mb2 = mb_orders mb1"
      "mb_symbol mb2 = mb_symbol mb1" "mb_by_symbol mb2 = mb_by_symbol mb1" "mb_applied mb2 = mb_applied mb1"
      "mb_last_trade mb2 = (mb_last_trade mb1)(oi_locate i := px)"
      using set_last_trade_spec [OF d(2,5), of px] by blast
    have t: "mb_order mb1 = (mb_order mb)(ref := None)" "mb_order mb2 = mb_order mb1"
      using d(3) s2(3) by (auto simp: mb_order_live)
    have red: "mb_reduce mb ref shares tp ex = Some ((if ex then mb2 else mb1)\<lparr>mb_applied := mb_applied (if ex then mb2 else mb1) + 1\<rparr>, Ap_ok)"
      using all d(1) s2(1) Some by (simp add: mb_reduce_def i_def [symmetric] px_def [symmetric] Let_def)
    have up: "mb_order (m\<lparr>mb_applied := x\<rparr>) = mb_order m" for m x by (simp add: mb_order_live)
    show ?thesis using all d s2 t oi unfolding red
      by (simp add: reduced_table_def reduced_result_def same_but_orders_def px_def up)
  next
    case part
    define rec' where "rec' = rec\<lparr>or_info := i\<lparr>oi_qty := oi_qty i - shares\<rparr>\<rparr>"
    obtain mb0 where m0: "(if or_level rec \<noteq> kNoLevel
        then on_book mb (oi_locate i) (\<lambda>bk. reduce_order bk (oi_side i) (oi_price i) shares (or_level rec)) else Some mb) = Some mb0"
      "mb_orders mb0 = mb_orders mb" "mb_book mb0 (oi_locate i) \<noteq> None"
      "mb_inv k (mb0\<lparr>mb_orders := fhm_store Hash_u64 (mb_orders mb) ref rec'\<rparr>)"
      "fhm_find Hash_u64 (fhm_store Hash_u64 (mb_orders mb) ref rec') = (live mb)(ref \<mapsto> rec')" "same_but_orders mb mb0"
      using partial_reduce_spec [OF inv Some part(1)] part(2) unfolding i_def rec'_def by blast
    define mb1 where "mb1 = mb0\<lparr>mb_orders := fhm_store Hash_u64 (mb_orders mb) ref rec'\<rparr>"
    define px where "px = (case tp of Some p \<Rightarrow> p | None \<Rightarrow> oi_price i)"
    have inv1: "mb_inv k mb1" and bk1: "mb_book mb1 (oi_locate i) \<noteq> None" using m0 by (simp_all add: mb1_def)
    obtain mb2 where s2: "set_last_trade mb1 (oi_locate i) px = Some mb2" "mb_inv k mb2" "mb_orders mb2 = mb_orders mb1"
      "mb_symbol mb2 = mb_symbol mb1" "mb_by_symbol mb2 = mb_by_symbol mb1" "mb_applied mb2 = mb_applied mb1"
      "mb_last_trade mb2 = (mb_last_trade mb1)(oi_locate i := px)"
      using set_last_trade_spec [OF inv1 bk1, of px] by blast
    have t: "mb_order mb1 = (mb_order mb)(ref \<mapsto> i\<lparr>oi_qty := oi_qty i - shares\<rparr>)" "mb_order mb2 = mb_order mb1"
      using m0(5) s2(3) by (auto simp: mb_order_live mb1_def rec'_def fun_eq_iff)
    have m1: "mb_symbol mb1 = mb_symbol mb" "mb_by_symbol mb1 = mb_by_symbol mb" "mb_applied mb1 = mb_applied mb"
      "mb_last_trade mb1 = mb_last_trade mb" using m0(6) by (simp_all add: mb1_def same_but_orders_def)
    have nle: "\<not> oi_qty i \<le> shares" "shares \<noteq> oi_qty i" "\<not> oi_qty i < shares" using part by auto
    have red: "mb_reduce mb ref shares tp ex = Some ((if ex then mb2 else mb1)\<lparr>mb_applied := mb_applied (if ex then mb2 else mb1) + 1\<rparr>, Ap_ok)"
      unfolding mb_reduce_def Let_def i_def [symmetric] Some option.case m0(1)
      using part nle s2(1) by (simp add: i_def [symmetric] m0(1,2) rec'_def [symmetric] mb1_def [symmetric] px_def)
    have up: "mb_order (m\<lparr>mb_applied := x\<rparr>) = mb_order m" for m x by (simp add: mb_order_live)
    show ?thesis using part nle inv1 s2 t oi m1 unfolding red
      by (simp add: reduced_table_def reduced_result_def px_def up)
  qed
qed

text \<open>
  What one message does to the table of live orders, whatever the books have room for: the rules
  of the header comment of \<^verbatim>\<open>market_books.hpp\<close> in their order of precedence. \<open>T\<close> and \<open>T'\<close> are the
  tables before and after the message.
\<close>

fun order_effect :: "itch_message \<Rightarrow> (OrderRef \<rightharpoonup> OrderInfo) \<Rightarrow> (OrderRef \<rightharpoonup> OrderInfo) \<Rightarrow> Applied \<Rightarrow> bool" where
  "order_effect (IM_AddOrder m) T T' res =
     (if ao_shares m = 0 \<or> \<not> valid_side (ao_side m) then res = Ap_invalid \<and> T' = T
      else if T (ao_ref m) \<noteq> None then res = Ap_duplicate_order \<and> T' = T
      else res = Ap_capacity \<and> T' = T \<or>
        res \<in> {Ap_ok, Ap_capacity} \<and> T' = T(ao_ref m \<mapsto>
          \<lparr>oi_locate = h_locate (ao_h m), oi_side = ao_side m, oi_price = ao_price m, oi_qty = ao_shares m\<rparr>))"
| "order_effect (IM_OrderExecuted m) T T' res =
     (res = reduced_result T (oe_ref m) (oe_shares m) \<and> T' = reduced_table T (oe_ref m) (oe_shares m))"
| "order_effect (IM_OrderExecutedPrice m) T T' res =
     (res = reduced_result T (oep_ref m) (oep_shares m) \<and> T' = reduced_table T (oep_ref m) (oep_shares m))"
| "order_effect (IM_OrderCancel m) T T' res =
     (res = reduced_result T (oc_ref m) (oc_shares m) \<and> T' = reduced_table T (oc_ref m) (oc_shares m))"
| "order_effect (IM_OrderDelete m) T T' res =
     (if T (od_ref m) = None then res = Ap_unknown_order \<and> T' = T else res = Ap_ok \<and> T' = T(od_ref m := None))"
| "order_effect (IM_OrderReplace m) T T' res =
     (case T (orp_old_ref m) of
        None \<Rightarrow> res = Ap_unknown_order \<and> T' = T
      | Some i \<Rightarrow>
          if orp_shares m = 0 then res = Ap_invalid \<and> T' = T
          else if T (orp_new_ref m) \<noteq> None then res = Ap_duplicate_order \<and> T' = T
          else res \<in> {Ap_ok, Ap_capacity} \<and>
            T' = (T(orp_old_ref m := None))(orp_new_ref m \<mapsto> i\<lparr>oi_price := orp_price m, oi_qty := orp_shares m\<rparr>))"
| "order_effect (IM_StockDirectory m) T T' res = (T' = T \<and> res \<in> {Ap_ok, Ap_ignored, Ap_invalid, Ap_capacity})"
| "order_effect (IM_Trade m) T T' res = (T' = T \<and> res = Ap_ignored)"
| "order_effect (IM_SystemEvent m) T T' res = (T' = T \<and> res = Ap_ignored)"

lemma mb_order_upd [simp]:
  "mb_order (mb\<lparr>mb_applied := x\<rparr>) = mb_order mb" "mb_order (mb\<lparr>mb_overflows := x\<rparr>) = mb_order mb"
  "mb_order (mb\<lparr>mb_by_symbol := y\<rparr>) = mb_order mb" "mb_order (set_slot mb l sl) = mb_order mb"
  by (simp_all add: mb_order_live)

lemma on_AddOrder_spec:
  assumes inv: "mb_inv k mb" and k: "1 \<le> k" "k < 2 ^ 64 - 1" and run: "on_AddOrder al mb m = (mb', res)"
  shows "mb_inv (k + 1) mb' \<and> order_effect (IM_AddOrder m) (mb_order mb) (mb_order mb') res \<and>
    (res = Ap_invalid \<or> res = Ap_duplicate_order \<longrightarrow> mb' = mb) \<and>
    mb_symbol mb' = mb_symbol mb \<and> mb_by_symbol mb' = mb_by_symbol mb"
proof -
  define bad where "bad = (ao_shares m = 0 \<or> \<not> valid_side (ao_side m))"
  have inv1: "mb_inv (k + 1) mb" using mb_inv_mono [OF inv] by simp
  consider "bad" | "\<not> bad" "live mb (ao_ref m) \<noteq> None"
    | "\<not> bad" "live mb (ao_ref m) = None" "fhm_size (mb_orders mb) \<ge> fhm_max (mb_orders mb)"
    | (go) "\<not> bad" "live mb (ao_ref m) = None" "fhm_size (mb_orders mb) < fhm_max (mb_orders mb)"
    by (meson not_le)
  then show ?thesis
  proof cases
    case go
    obtain mb1 ok where io: "insert_order al mb (ao_ref m) (h_locate (ao_h m)) (ao_side m) (ao_price m) (ao_shares m) = (mb1, ok)"
      by fastforce
    have q: "ao_shares m \<noteq> 0" "valid_side (ao_side m)" using go(1) by (simp_all add: bad_def)
    note sp = insert_order_spec [OF inv go(2,3) q k io]
    have r: "(mb', res) = (if ok then (mb1\<lparr>mb_applied := mb_applied mb1 + 1\<rparr>, Ap_ok) else (mb1, Ap_capacity))"
      using run go q io by (auto simp: on_AddOrder_def valid_side_def)
    have none: "mb_order mb (ao_ref m) = None" using go(2) by (simp add: mb_order_def)
    have "live mb1 = live mb \<and> \<not> ok \<or> (\<exists>i. live mb1 = (live mb)(ao_ref m \<mapsto>
        \<lparr>or_info = \<lparr>oi_locate = h_locate (ao_h m), oi_side = ao_side m, oi_price = ao_price m, oi_qty = ao_shares m\<rparr>, or_level = i\<rparr>))"
      using sp by blast
    then have "mb_order mb1 = mb_order mb \<and> \<not> ok \<or> mb_order mb1 = (mb_order mb)(ao_ref m \<mapsto>
        \<lparr>oi_locate = h_locate (ao_h m), oi_side = ao_side m, oi_price = ao_price m, oi_qty = ao_shares m\<rparr>)"
      by (auto simp: mb_order_live fun_eq_iff)
    then show ?thesis using sp r q none by (cases ok) auto
  qed (use run inv1 in \<open>auto simp: on_AddOrder_def bad_def valid_side_def mb_order_def\<close>)
qed

lemma on_OrderDelete_spec:
  assumes inv: "mb_inv k mb"
  shows "\<exists>mb' res. on_OrderDelete mb m = Some (mb', res) \<and> mb_inv k mb' \<and>
    order_effect (IM_OrderDelete m) (mb_order mb) (mb_order mb') res \<and> (res = Ap_unknown_order \<longrightarrow> mb' = mb) \<and>
    mb_symbol mb' = mb_symbol mb \<and> mb_by_symbol mb' = mb_by_symbol mb"
proof (cases "live mb (od_ref m)")
  case None
  then show ?thesis using inv by (simp add: on_OrderDelete_def mb_order_def)
next
  case (Some rec)
  obtain mb1 where d: "drop_order mb (od_ref m) = Some mb1" "mb_inv k mb1" "live mb1 = (live mb)(od_ref m := None)" "same_but_orders mb mb1"
    using drop_order_spec [OF inv Some] by blast
  have "mb_order mb1 = (mb_order mb)(od_ref m := None)" using d(3) by (auto simp: mb_order_live)
  then show ?thesis using d Some by (simp add: on_OrderDelete_def same_but_orders_def) (simp add: mb_order_def)
qed

lemma on_OrderReplace_spec:
  assumes inv: "mb_inv k mb" and k: "1 \<le> k" "k < 2 ^ 64 - 1"
  shows "\<exists>mb' res. on_OrderReplace al mb m = Some (mb', res) \<and> mb_inv (k + 1) mb' \<and>
    order_effect (IM_OrderReplace m) (mb_order mb) (mb_order mb') res \<and>
    (res \<in> {Ap_unknown_order, Ap_invalid, Ap_duplicate_order} \<longrightarrow> mb' = mb) \<and>
    mb_symbol mb' = mb_symbol mb \<and> mb_by_symbol mb' = mb_by_symbol mb"
proof (cases "live mb (orp_old_ref m)")
  case None
  then show ?thesis using mb_inv_mono [OF inv] by (simp add: on_OrderReplace_def mb_order_def)
next
  case (Some rec)
  define i where "i = or_info rec"
  have oi: "mb_order mb (orp_old_ref m) = Some i" using Some by (simp add: mb_order_def i_def)
  show ?thesis
  proof (cases "orp_shares m = 0 \<or> live mb (orp_new_ref m) \<noteq> None")
    case True
    then show ?thesis using Some oi mb_inv_mono [OF inv] by (auto simp: on_OrderReplace_def mb_order_def)
  next
    case False
    then have q: "orp_shares m \<noteq> 0" "live mb (orp_new_ref m) = None" by auto
    obtain mb1 where d: "drop_order mb (orp_old_ref m) = Some mb1" "mb_inv k mb1" "live mb1 = (live mb)(orp_old_ref m := None)"
      "same_but_orders mb mb1" "fhm_size (mb_orders mb1) < fhm_max (mb_orders mb1)" "mb_book mb1 (oi_locate i) \<noteq> None"
      using drop_order_spec [OF inv Some] unfolding i_def by blast
    obtain mb2 ok where io: "insert_order al mb1 (orp_new_ref m) (oi_locate i) (oi_side i) (orp_price m) (orp_shares m) = (mb2, ok)"
      by fastforce
    have n1: "live mb1 (orp_new_ref m) = None" using d(3) q(2) by simp
    have vs: "valid_side (oi_side i)" using conserveD(2) [OF mb_invD(4) [OF inv] Some] by (simp add: order_ok_def i_def)
    note sp = insert_order_spec [OF d(2) n1 d(5) q(1) vs k io]
    then obtain lid where l2: "live mb2 = (live mb1)(orp_new_ref m \<mapsto>
        \<lparr>or_info = \<lparr>oi_locate = oi_locate i, oi_side = oi_side i, oi_price = orp_price m, oi_qty = orp_shares m\<rparr>, or_level = lid\<rparr>)"
      using d(6) by blast
    have i': "\<lparr>oi_locate = oi_locate i, oi_side = oi_side i, oi_price = orp_price m, oi_qty = orp_shares m\<rparr> =
        i\<lparr>oi_price := orp_price m, oi_qty := orp_shares m\<rparr>" by simp
    have t: "mb_order mb2 = ((mb_order mb)(orp_old_ref m := None))(orp_new_ref m \<mapsto> i\<lparr>oi_price := orp_price m, oi_qty := orp_shares m\<rparr>)"
      using l2 d(3) unfolding i' by (auto simp: mb_order_live fun_eq_iff)
    have r: "on_OrderReplace al mb m = Some (if ok then (mb2\<lparr>mb_applied := mb_applied mb2 + 1\<rparr>, Ap_ok) else (mb2, Ap_capacity))"
      using Some q d(1) io by (simp add: on_OrderReplace_def i_def [symmetric] Let_def)
    have none: "mb_order mb (orp_new_ref m) = None" using q(2) by (simp add: mb_order_def)
    show ?thesis unfolding r using sp t q oi none d(4) by (cases ok) (simp_all add: same_but_orders_def)
  qed
qed

lemma mb_symbol_unnamed:
  "(case find_slot mb l of None \<Rightarrow> False | Some sl \<Rightarrow> \<not> Symbol_empty (sl_symbol sl)) \<longleftrightarrow> \<not> Symbol_empty (mb_symbol mb l)"
  by (auto simp: mb_symbol_def split: option.splits)

lemma on_StockDirectory_spec:
  assumes inv: "mb_inv k mb" and k: "1 \<le> k" and run: "on_StockDirectory al mb m = (mb', res)"
  shows "mb_inv k mb' \<and> mb_order mb' = mb_order mb \<and> res \<in> {Ap_ok, Ap_ignored, Ap_invalid, Ap_capacity} \<and>
    (res = Ap_invalid \<or> res = Ap_ignored \<longrightarrow> mb' = mb) \<and>
    mb_locate mb' = (if res = Ap_ok then (mb_locate mb)(sd_symbol m \<mapsto> h_locate (sd_h m)) else mb_locate mb)"
proof -
  define loc where "loc = h_locate (sd_h m)"
  define sym where "sym = sd_symbol m"
  consider (stop) "mb' = mb" "res \<in> {Ap_ignored, Ap_invalid, Ap_capacity}"
    | (go) "\<not> Symbol_empty sym" "bound mb sym = None" "Symbol_empty (mb_symbol mb loc)"
        "fhm_size (mb_by_symbol mb) < fhm_max (mb_by_symbol mb)"
        "(case slot_for al mb loc of
               (mb, None) \<Rightarrow> (mb, Ap_capacity)
             | (mb, Some sl) \<Rightarrow>
                 (case ensure_book al mb sl of
                    None \<Rightarrow> (mb, Ap_capacity)
                  | Some (sl, bk) \<Rightarrow>
                      (set_slot (mb\<lparr>mb_by_symbol := fst (fhm_insert Hash_Symbol (mb_by_symbol mb) sym loc)\<rparr>)
                         loc (sl\<lparr>sl_symbol := sym\<rparr>), Ap_ok))) = (mb', res)"
    using run unfolding on_StockDirectory_def Let_def mb_symbol_unnamed loc_def [symmetric] sym_def [symmetric]
    by (auto simp: not_le split: if_splits option.splits)
  then show ?thesis
  proof cases
    case stop
    then show ?thesis using inv by auto
  next
    case go
    obtain mb1 so where sf: "slot_for al mb loc = (mb1, so)" by fastforce
    note pk = mb_invD(3) [OF inv]
    note sp = slot_for_spec [OF pk sf] and sq [simp] = slot_for_queries [OF pk sf]
    have inv1: "mb_inv k mb1" using inv sp(1) by (simp add: mb_inv_def)
    have o1: "mb_order mb1 = mb_order mb" "mb_locate mb1 = mb_locate mb" by (simp_all add: mb_order_live mb_locate_def fun_eq_iff)
    show ?thesis
    proof (cases "so = None \<or> ensure_book al mb1 (the so) = None")
      case True
      then have "mb' = mb1" "res = Ap_capacity" using go(5) sf by (auto split: option.splits)
      then show ?thesis using inv1 o1 by simp
    next
      case False
      then obtain sl sl' b where sl: "so = Some sl" "ensure_book al mb1 sl = Some (sl', b)" by auto
      have fs: "find_slot mb1 loc = Some sl" using sl sp(3) by simp
      have bk: "mb_book mb loc = sl_book sl" using fs sq(1) by (metis mb_book_def option.case(2))
      note eb = ensure_book_spec [OF sl(2) mb_invD(4) [OF inv] bk]
      have lt: "mb_last_trade mb loc = sl_last_trade sl" using fs sq(3) by (metis mb_last_trade_def option.case(2))
      define bs where "bs = fst (fhm_insert Hash_Symbol (mb_by_symbol mb) sym loc)"
      note fi = fhm.insert_fst [OF mb_invD(2) [OF inv] go(2,4), of loc, folded bs_def]
      define mb2 where "mb2 = mb1\<lparr>mb_by_symbol := bs\<rparr>"
      have fs2: "find_slot mb2 loc = Some sl" and pk2: "pages_ok (mb_pages mb2)" using fs sp(1) by (simp_all add: mb2_def)
      have mb': "mb' = set_slot mb2 loc (sl'\<lparr>sl_symbol := sym\<rparr>)" "res = Ap_ok"
        using go(5) sf sl by (simp_all add: mb2_def bs_def)
      have q: "mb_book mb' = (mb_book mb)(loc \<mapsto> b)" "mb_symbol mb' = (mb_symbol mb)(loc := sym)"
        unfolding mb'(1) set_slot_queries [OF pk2 fs2] using eb(1) by (simp_all add: mb2_def)
      have s: "mb_orders mb' = mb_orders mb" "mb_by_symbol mb' = bs" "pages_ok (mb_pages mb')"
        using pages_ok_set_slot [OF pk2] by (simp_all add: mb'(1) mb2_def)
      have nb: "unat (ob_next_id b) \<le> k" using eb(5) mb_invD(5) [OF inv, of loc b] bk k by auto
      have bind: "((bound mb)(sym \<mapsto> loc)) s = Some l \<longleftrightarrow> ((mb_symbol mb)(loc := sym)) l = s \<and> \<not> Symbol_empty s" for s l
        using mb_invD(6) [OF inv, of s l] mb_invD(6) [OF inv, of sym l] mb_invD(6) [OF inv, of s loc] go(1-3) by auto
      have "mb_inv k mb'" unfolding mb_inv_def s q using mb_invD(1,5) [OF inv] fi(1,2) eb(4) nb bind s(3) by auto
      moreover have "mb_locate mb' = (mb_locate mb)(sym \<mapsto> loc)" using fi(2) by (simp add: mb_locate_def fun_eq_iff s)
      moreover have "mb_order mb' = mb_order mb" by (simp add: mb_order_live s)
      ultimately show ?thesis using mb'(2) by (simp add: loc_def sym_def)
    qed
  qed
qed

lemma on_Trade_spec:
  assumes inv: "mb_inv k mb" and run: "on_Trade al mb m = (mb', res)"
  shows "mb_inv k mb' \<and> mb_order mb' = mb_order mb \<and> res = Ap_ignored \<and> mb_by_symbol mb' = mb_by_symbol mb \<and>
    mb_book mb' = mb_book mb"
proof -
  define loc where "loc = h_locate (tr_h m)"
  obtain mb1 so where sf: "slot_for al mb loc = (mb1, so)" by fastforce
  note pk = mb_invD(3) [OF inv]
  note sp = slot_for_spec [OF pk sf] and sq [simp] = slot_for_queries [OF pk sf]
  have inv1: "mb_inv k mb1" using inv sp(1) by (simp add: mb_inv_def)
  have o1: "mb_order mb1 = mb_order mb" by (simp add: mb_order_live)
  show ?thesis
  proof (cases so)
    case None
    then have "mb' = mb1" "res = Ap_ignored" using run sf by (simp_all add: on_Trade_def loc_def [symmetric])
    then show ?thesis using inv1 o1 by (simp only: sq simp_thms)
  next
    case (Some sl)
    then have fs: "find_slot mb1 loc = Some sl" using sp(3) by simp
    have mb': "mb' = set_slot mb1 loc (sl\<lparr>sl_last_trade := tr_price m\<rparr>)" "res = Ap_ignored"
      using run sf Some by (simp_all add: on_Trade_def loc_def [symmetric])
    have syl: "mb_symbol mb loc = sl_symbol sl" "mb_book mb loc = sl_book sl"
      using fs sq(1,2) by (metis mb_symbol_def option.case(2), metis mb_book_def option.case(2))
    have q: "mb_book mb' = mb_book mb" "mb_symbol mb' = mb_symbol mb"
      unfolding mb'(1) set_slot_queries [OF sp(1) fs] by (simp_all add: fun_eq_iff syl)
    have "mb_inv k mb'" using inv1 q pages_ok_set_slot [OF sp(1)] by (simp add: mb_inv_def mb'(1))
    then show ?thesis using o1 q mb' by simp
  qed
qed

text \<open>One message, whatever it is.\<close>

lemma mb_on_spec:
  assumes inv: "mb_inv k mb" and k: "1 \<le> k" "k < 2 ^ 64 - 1"
  shows "\<exists>mb' res. mb_on al m mb = Some (mb', res) \<and> mb_inv (k + 1) mb' \<and>
    order_effect m (mb_order mb) (mb_order mb') res"
proof (cases m)
  case (IM_SystemEvent x)
  then show ?thesis using mb_inv_mono [OF inv] by (simp add: on_SystemEvent_def)
next
  case (IM_StockDirectory x)
  then show ?thesis using on_StockDirectory_spec [OF inv k(1), of al x] mb_inv_mono by (cases "on_StockDirectory al mb x") fastforce
next
  case (IM_AddOrder x)
  then show ?thesis using on_AddOrder_spec [OF inv k, of al x] by (cases "on_AddOrder al mb x") auto
next
  case (IM_OrderExecuted x)
  then show ?thesis using mb_reduce_spec [OF inv, of "oe_ref x" "oe_shares x" None True] mb_inv_mono [of k _ "k + 1"]
    by (auto simp: on_OrderExecuted_def)
next
  case (IM_OrderExecutedPrice x)
  then show ?thesis using mb_reduce_spec [OF inv, of "oep_ref x" "oep_shares x" "Some (oep_price x)" True] mb_inv_mono [of k _ "k + 1"]
    by (auto simp: on_OrderExecutedPrice_def)
next
  case (IM_OrderCancel x)
  then show ?thesis using mb_reduce_spec [OF inv, of "oc_ref x" "oc_shares x" None False] mb_inv_mono [of k _ "k + 1"]
    by (auto simp: on_OrderCancel_def)
next
  case (IM_OrderDelete x)
  obtain mb' res where "on_OrderDelete mb x = Some (mb', res)" "mb_inv k mb'"
    "order_effect (IM_OrderDelete x) (mb_order mb) (mb_order mb') res"
    using on_OrderDelete_spec [OF inv, of x] by blast
  then show ?thesis using mb_inv_mono [of k mb' "k + 1"]
    by (intro exI [of _ mb'] exI [of _ res]) (simp add: IM_OrderDelete del: order_effect.simps)
next
  case (IM_OrderReplace x)
  then show ?thesis using on_OrderReplace_spec [OF inv k, of al x] by (simp del: order_effect.simps) blast
next
  case (IM_Trade x)
  then show ?thesis using on_Trade_spec [OF inv, of al x] mb_inv_mono [of k _ "k + 1"] by (cases "on_Trade al mb x") auto
qed

section \<open>Runs of the feed\<close>

primrec run_feed :: "(alloc \<times> itch_message) list \<Rightarrow> MarketBooks \<Rightarrow> (MarketBooks \<times> Applied list) option" where
  "run_feed [] mb = Some (mb, [])"
| "run_feed (am # ams) mb = do {
     (mb1, r) \<leftarrow> mb_on (fst am) (snd am) mb;
     (mb2, rs) \<leftarrow> run_feed ams mb1;
     Some (mb2, r # rs) }"

lemma run_feed_spec:
  assumes "mb_inv k mb" "1 \<le> k" "k + length ams < 2 ^ 64"
  shows "\<exists>mb' rs. run_feed ams mb = Some (mb', rs) \<and> mb_inv (k + length ams) mb'"
  using assms
proof (induction ams arbitrary: k mb)
  case (Cons am ams)
  obtain mb1 r where 1: "mb_on (fst am) (snd am) mb = Some (mb1, r)" "mb_inv (k + 1) mb1"
    using mb_on_spec [OF Cons.prems(1,2), of "fst am" "snd am"] Cons.prems(3) by auto
  obtain mb2 rs where "run_feed ams mb1 = Some (mb2, rs)" "mb_inv (k + 1 + length ams) mb2"
    using Cons.IH [OF 1(2)] Cons.prems(3) by auto
  then show ?case using 1(1) by simp
qed simp

lemma MarketBooks_new_inv:
  assumes "MarketBooks_new cfg = Some mb"
  shows "mb_inv 1 mb" "mb_order mb = Map.empty"
proof -
  obtain ot sy where n: "fhm_new (cf_max_orders cfg) = Some ot" "fhm_new (min (cf_max_symbols cfg) kLocates) = Some sy"
    and mb: "mb = \<lparr>mb_config = cfg, mb_orders = ot, mb_by_symbol = sy, mb_pages = replicate kPages None, mb_applied = 0, mb_overflows = 0\<rparr>"
    using assms by (auto simp: MarketBooks_new_def bind_eq_Some_conv)
  have "find_slot mb l = None" for l using page_of_less [of l] by (simp add: find_slot_def mb kPages_def)
  then have q: "mb_book mb = Map.empty" "mb_symbol mb = (\<lambda>_. Symbol_blank)" by (simp_all add: mb_book_def mb_symbol_def fun_eq_iff)
  have f: "fhm_find h ot = Map.empty" "fhm_find h' sy = Map.empty" "fhm_inv h ot" "fhm_inv h' sy" for h h'
    using fhm_new_find [OF n(1)] fhm_new_find [OF n(2)] fhm_new_spec [OF n(1)] fhm_new_spec [OF n(2)] by auto
  show "mb_inv 1 mb" unfolding mb_inv_def q using f by (simp add: mb pages_ok_def kPages_def conserve_def)
  show "mb_order mb = Map.empty" using f by (simp add: mb_order_live mb)
qed

text \<open>The state after a feed of fewer than \<open>2 ^ 64 - 1\<close> messages.\<close>

lemma feed_state:
  assumes "MarketBooks_new cfg = Some mb0" "length ams < 2 ^ 64 - 1"
  obtains mb rs where "run_feed ams mb0 = Some (mb, rs)" "mb_inv (1 + length ams) mb"
  using run_feed_spec [OF MarketBooks_new_inv(1) [OF assms(1)], of ams] assms(2) by auto

text \<open>A message of kind E, C or X that takes more than the order has left.\<close>

fun over_reduction :: "itch_message \<Rightarrow> (OrderRef \<rightharpoonup> OrderInfo) \<Rightarrow> bool" where
  "over_reduction (IM_OrderExecuted m) T = (\<exists>i. T (oe_ref m) = Some i \<and> oe_shares m > oi_qty i)"
| "over_reduction (IM_OrderExecutedPrice m) T = (\<exists>i. T (oep_ref m) = Some i \<and> oep_shares m > oi_qty i)"
| "over_reduction (IM_OrderCancel m) T = (\<exists>i. T (oc_ref m) = Some i \<and> oc_shares m > oi_qty i)"
| "over_reduction _ T = False"

lemma mb_reduce_rejected:
  assumes "mb_inv k mb" "mb_reduce mb ref q tp ex = Some (mb', res)"
    "res \<in> {Ap_unknown_order, Ap_duplicate_order, Ap_invalid}" "\<not> (\<exists>i. mb_order mb ref = Some i \<and> q > oi_qty i)"
  shows "mb' = mb"
  using mb_reduce_spec [OF assms(1), of ref q tp ex] assms(2-4)
  by (auto simp: reduced_result_def split: option.splits if_splits)

lemma mb_on_rejected:
  assumes inv: "mb_inv k mb" "1 \<le> k" "k < 2 ^ 64 - 1" and on: "mb_on al m mb = Some (mb', res)"
    and res: "res \<in> {Ap_unknown_order, Ap_duplicate_order, Ap_invalid}" and ov: "\<not> over_reduction m (mb_order mb)"
  shows "mb' = mb"
proof (cases m)
  case (IM_StockDirectory x)
  then show ?thesis using on_StockDirectory_spec [OF inv(1,2), of al x mb' res] on res by auto
next
  case (IM_AddOrder x)
  then have "on_AddOrder al mb x = (mb', res)" using on by simp
  note sp = on_AddOrder_spec [OF inv this]
  then have "res \<noteq> Ap_unknown_order" by (auto split: if_splits)
  then show ?thesis using sp res by auto
next
  case (IM_OrderExecuted x)
  then show ?thesis using mb_reduce_rejected [OF inv(1) _ res] on ov by (auto simp: on_OrderExecuted_def)
next
  case (IM_OrderExecutedPrice x)
  then show ?thesis using mb_reduce_rejected [OF inv(1) _ res] on ov by (auto simp: on_OrderExecutedPrice_def)
next
  case (IM_OrderCancel x)
  then show ?thesis using mb_reduce_rejected [OF inv(1) _ res] on ov by (auto simp: on_OrderCancel_def)
next
  case (IM_OrderDelete x)
  then show ?thesis using on_OrderDelete_spec [OF inv(1), of x] on res by (auto split: if_splits)
next
  case (IM_OrderReplace x)
  then have "on_OrderReplace al mb x = Some (mb', res)" using on by simp
  then show ?thesis using on_OrderReplace_spec [OF inv, of al x] res by auto
next
  case (IM_Trade x)
  then show ?thesis using on_Trade_spec [OF inv(1), of al x mb' res] on res by auto
qed (use on res in \<open>simp add: on_SystemEvent_def\<close>)

text \<open>
  Claim C5: after any feed, whatever the messages and the outcome of the allocations, processing
  never dereferences a null pointer (the run returns), and every level of every book shows exactly
  the live orders on it: its quantity is the sum of the remaining quantities of the live orders
  that were added to that incarnation of the level, and its order count is the number of them.
\<close>

theorem market_books_levels_exact:
  assumes "MarketBooks_new cfg = Some mb0" "length ams < 2 ^ 64 - 1"
  shows "\<exists>mb rs. run_feed ams mb0 = Some (mb, rs) \<and>
    (\<forall>l b s p e. mb_book mb l = Some b \<and> ob_lookup b s p = Some e \<longrightarrow>
       unat (lv_qty (en_lv e)) = (\<Sum>r\<in>on_level (live mb) l (s = Side_buy) p (en_id e). remaining (live mb) r) \<and>
       unat (lv_orders (en_lv e)) = card (on_level (live mb) l (s = Side_buy) p (en_id e)))"
proof -
  obtain mb rs where r: "run_feed ams mb0 = Some (mb, rs)" "mb_inv (1 + length ams) mb" using feed_state [OF assms] .
  have "level_exact (live mb) l (s = Side_buy) p e" if "mb_book mb l = Some b" "ob_lookup b s p = Some e" for l b s p e
    using conserveD(4) [OF mb_invD(4) [OF r(2)] that(1)] that(2) by (simp add: ob_lookup_abs)
  then show ?thesis using r(1) by (auto simp: level_exact_def)
qed

definition sample_config :: Config where
  "sample_config = \<lparr>cf_max_orders = 2, cf_max_levels_per_side = 2, cf_max_symbols = 1\<rparr>"

definition sample_add :: itch_message where
  "sample_add = IM_AddOrder \<lparr>ao_h = \<lparr>h_locate = 3, h_tracking = 0, h_timestamp = 0\<rparr>, ao_ref = 9, ao_side = Side_buy,
     ao_shares = 5, ao_symbol = Symbol_blank, ao_price = 100, ao_has_attribution = False, ao_mpid = [0, 0, 0, 0]\<rparr>"

definition sample_alloc :: alloc where
  "sample_alloc = \<lparr>al_page = True, al_book = True\<rparr>"

lemma sample_new: "MarketBooks_new sample_config = Some (the (MarketBooks_new sample_config))"
  by (simp add: MarketBooks_new_def sample_config_def fhm_new_def fhm_table_size_def kLocates_def)

theorem market_books_levels_exact_witness:
  "\<exists>mb rs. run_feed [(sample_alloc, sample_add)] (the (MarketBooks_new sample_config)) = Some (mb, rs) \<and>
    (\<forall>l b s p e. mb_book mb l = Some b \<and> ob_lookup b s p = Some e \<longrightarrow>
       unat (lv_qty (en_lv e)) = (\<Sum>r\<in>on_level (live mb) l (s = Side_buy) p (en_id e). remaining (live mb) r) \<and>
       unat (lv_orders (en_lv e)) = card (on_level (live mb) l (s = Side_buy) p (en_id e)))"
  by (rule market_books_levels_exact [OF sample_new]) simp

text \<open>
  A message that is answered \<^verbatim>\<open>unknown_order\<close>, \<^verbatim>\<open>duplicate_order\<close> or \<^verbatim>\<open>invalid\<close> changes
  nothing at all, except the over-execution or over-cancel that drops its order.
\<close>

lemma rejected_message_changes_nothing:
  assumes "MarketBooks_new cfg = Some mb0" "length ams < 2 ^ 64 - 2" "run_feed ams mb0 = Some (mb, rs)"
    "mb_on al m mb = Some (mb', res)" "res \<in> {Ap_unknown_order, Ap_duplicate_order, Ap_invalid}"
    "\<not> over_reduction m (mb_order mb)"
  shows "mb' = mb"
proof -
  have "length ams < 2 ^ 64 - 1" using assms(2) by simp
  then have "mb_inv (1 + length ams) mb" using feed_state [OF assms(1), of ams] assms(3) by auto
  from mb_on_rejected [OF this _ _ assms(4-6)] assms(2) show ?thesis by simp
qed

text \<open>
  After any feed, the directory is a one-to-one binding. \<^verbatim>\<open>locate(symbol)\<close> is \<open>l\<close> exactly
  when \<^verbatim>\<open>symbol(l)\<close> is that symbol and it is not blank, so no symbol names two locates and no locate
  carries two symbols.
\<close>

lemma directory_is_one_to_one:
  assumes "MarketBooks_new cfg = Some mb0" "length ams < 2 ^ 64 - 1" "run_feed ams mb0 = Some (mb, rs)"
  shows "mb_locate mb s = Some l \<longleftrightarrow> mb_symbol mb l = s \<and> \<not> Symbol_empty s"
proof -
  have "mb_inv (1 + length ams) mb" using feed_state [OF assms(1,2)] assms(3) by auto
  then show ?thesis using mb_invD(6) by (simp add: mb_locate_def)
qed

end
