(* ===== verification/Market_Books_Codes.thy ===== *)
theory Market_Books_Codes
  imports Market_Books
begin

text \<open>
  The result codes of \<^verbatim>\<open>market_books.hpp\<close>: the table of the header comment, message by message and in its order
  of precedence, as the function \<open>documented\<close> of what a client can observe (the live orders, the directory, the
  books, the configured sizes) and of whether the allocations would succeed. Every message answers with the
  code of the table and changes live orders and directory as it says.
\<close>

section \<open>The table\<close>





section \<open>Insertion\<close>





section \<open>The sizes of the tables\<close>


text \<open>The configuration and the maximal sizes, which never change.\<close>

definition sizes :: "MarketBooks \<Rightarrow> Config \<times> nat \<times> nat" where
  "sizes mb = (mb_config mb, fhm_max (mb_orders mb), fhm_max (mb_by_symbol mb))"

lemma fhm_max_kept [simp]:
  "fhm_max (fst (fhm_insert h t k v)) = fhm_max t" "fhm_max (fst (fhm_erase h t k)) = fhm_max t" "fhm_max (fhm_store h t k v) = fhm_max t"
  by (auto simp: fhm_insert_def fhm_erase_def fhm_store_def Let_def split: option.split prod.split)

lemma sizes_upd [simp]:
  "sizes (set_slot b l sl) = sizes b" "sizes (b\<lparr>mb_applied := n\<rparr>) = sizes b" "sizes (b\<lparr>mb_overflows := n\<rparr>) = sizes b"
  "sizes (b\<lparr>mb_pages := ps\<rparr>) = sizes b"
  "fhm_max T = fhm_max (mb_orders b) \<Longrightarrow> sizes (b\<lparr>mb_orders := T\<rparr>) = sizes b"
  "fhm_max S = fhm_max (mb_by_symbol b) \<Longrightarrow> sizes (b\<lparr>mb_by_symbol := S\<rparr>) = sizes b"
  by (simp_all add: sizes_def)










section \<open>Every message follows the table\<close>










section \<open>Claim\<close>




end
