(* ===== verification/Risk_Engine.thy ===== *)
theory Risk_Engine
  imports Prelude "HOL-Library.Signed_Division"
begin

text \<open>
  Pre-trade limits, exposure bookkeeping and average-cost accounting,
  \<^verbatim>\<open>src/include/optitrade/risk/limits.hpp\<close>, \<^verbatim>\<open>reject.hpp\<close> and \<^verbatim>\<open>risk_engine.hpp\<close>. Signed quantities are
  exact integers; the theory shows that every value the code stores fits its 64 bits
  (\<^verbatim>\<open>Risk_Checked\<close> follows the intermediate values), that the running totals equal the sums over the instruments,
  that the rate window counts exactly the admissions of the last second, and that an instrument
  whose orders all passed the check can never be filled beyond its position limit.
\<close>

section \<open>Limits and verdicts\<close>

record Limits =
  lm_max_order_qty :: Qty
  lm_max_order_notional :: int
  lm_max_position :: int
  lm_max_gross_position :: int
  lm_price_band_bps :: u32
  lm_require_reference :: bool
  lm_max_orders_per_second :: u32
  lm_max_open_orders :: u32
  lm_max_loss :: int

datatype Reject = Rj_none | Rj_kill_switch | Rj_invalid_order | Rj_order_qty | Rj_order_notional | Rj_position
  | Rj_gross_position | Rj_price_band | Rj_no_reference | Rj_rate_limit | Rj_open_orders

section \<open>State\<close>

record Position =
  ps_qty :: int
  ps_avg_price :: Price
  ps_realized :: int

definition kInt64Max :: int where
  "kInt64Max = 2 ^ 63 - 1"

definition clamp64 :: "int \<Rightarrow> int" where
  "clamp64 v = (if v > kInt64Max then kInt64Max else if v < - kInt64Max then - kInt64Max else v)"

definition magnitude :: "int \<Rightarrow> int" where
  "magnitude v = (if v < 0 then - v else v)"

definition valid :: "Side \<Rightarrow> bool" where
  "valid s = (s = Side_buy \<or> s = Side_sell)"

text \<open>The two-element arrays \<^verbatim>\<open>open\<close> and \<^verbatim>\<open>open_count\<close> are functions of the side that indexes them.\<close>

record RSlot =
  rs_pos :: Position
  rs_mark :: Price
  rs_unrealized :: int
  rs_exposure :: int
  rs_open :: "Side \<Rightarrow> int"
  rs_open_count :: "Side \<Rightarrow> u32"

record RiskEngine =
  re_limits :: Limits
  re_slots :: "RSlot list"
  re_rate_ring :: "Nanos list"
  re_rate_next :: nat
  re_rate_filled :: nat
  re_rate_latest :: Nanos
  re_realized_total :: int
  re_unrealized_total :: int
  re_gross :: int
  re_peak_pnl :: int
  re_max_drawdown :: int
  re_open_orders :: u64
  re_kill_switch :: bool

definition kFlat :: Position where
  "kFlat = \<lparr>ps_qty = 0, ps_avg_price = 0, ps_realized = 0\<rparr>"

definition RSlot_new :: RSlot where
  "RSlot_new = \<lparr>rs_pos = kFlat, rs_mark = 0, rs_unrealized = 0, rs_exposure = 0, rs_open = (\<lambda>_. 0), rs_open_count = (\<lambda>_. 0)\<rparr>"

definition kMaxLocates :: nat where "kMaxLocates = 2 ^ 16"
definition kRateWindowNs :: Nanos where "kRateWindowNs = 1000000000"
definition kMaxRateRing :: nat where "kMaxRateRing = 2 ^ 20"
definition kBasisPoints :: int where "kBasisPoints = 10000"

definition RiskEngine_new :: "Limits \<Rightarrow> nat \<Rightarrow> RiskEngine" where
  "RiskEngine_new limits max_locates =
     \<lparr>re_limits = limits,
      re_slots = replicate (min max_locates kMaxLocates) RSlot_new,
      re_rate_ring = replicate (if unat (lm_max_orders_per_second limits) \<le> kMaxRateRing
                                then unat (lm_max_orders_per_second limits) else 0) 0,
      re_rate_next = 0, re_rate_filled = 0, re_rate_latest = 0,
      re_realized_total = 0, re_unrealized_total = 0, re_gross = 0, re_peak_pnl = 0, re_max_drawdown = 0,
      re_open_orders = 0, re_kill_switch = False\<rparr>"

section \<open>The rate window\<close>

definition rate_has_room :: "RiskEngine \<Rightarrow> Nanos \<Rightarrow> bool" where
  "rate_has_room re now =
     (if re_rate_ring re = [] \<or> re_rate_filled re < length (re_rate_ring re) then True
      else let oldest = re_rate_ring re ! re_rate_next re in
        now \<ge> oldest \<and> now - oldest \<ge> kRateWindowNs)"

definition rate_record :: "RiskEngine \<Rightarrow> Nanos \<Rightarrow> RiskEngine" where
  "rate_record re now =
     (if re_rate_ring re = [] then re
      else
        let latest = max (re_rate_latest re) now;
            ring = (re_rate_ring re)[re_rate_next re := latest];
            nxt = re_rate_next re + 1;
            nxt = (if nxt = length ring then 0 else nxt) in
        re\<lparr>re_rate_latest := latest, re_rate_ring := ring, re_rate_next := nxt,
           re_rate_filled := (if re_rate_filled re < length ring then re_rate_filled re + 1 else re_rate_filled re)\<rparr>)"

definition admit :: "RiskEngine \<Rightarrow> Nanos \<Rightarrow> RiskEngine" where
  "admit re now = rate_record re now"

section \<open>The verdict\<close>

definition slot_at :: "RiskEngine \<Rightarrow> Locate \<Rightarrow> RSlot option" where
  "slot_at re l = (if unat l < length (re_slots re) then Some (re_slots re ! unat l) else None)"

definition leg :: "RSlot \<Rightarrow> Side \<Rightarrow> int \<Rightarrow> int" where
  "leg s side extra =
     (if side = Side_buy then ps_qty (rs_pos s) + rs_open s side + extra
      else ps_qty (rs_pos s) - rs_open s side - extra)"

definition assess :: "RiskEngine \<Rightarrow> Locate \<Rightarrow> Side \<Rightarrow> Price \<Rightarrow> Qty \<Rightarrow> Qty \<Rightarrow> bool \<Rightarrow> Price \<Rightarrow> Nanos \<Rightarrow> Reject" where
  "assess re locate side price qty add replacing reference now =
     (let lim = re_limits re;
          adds = (\<not> replacing \<or> add \<noteq> 0) in
      if re_kill_switch re \<and> adds then Rj_kill_switch
      else if unat locate \<ge> length (re_slots re) \<or> \<not> valid side \<or> qty = 0 \<or> price \<le> 0 then Rj_invalid_order
      else if qty > lm_max_order_qty lim then Rj_order_qty
      else if lm_max_order_notional lim > 0 \<and> price * uint qty > lm_max_order_notional lim then Rj_order_notional
      else
        let s = re_slots re ! unat locate;
            same_leg = magnitude (leg s side (uint add));
            other_leg = magnitude (leg s (opposite side) 0);
            gross_after = re_gross re - rs_exposure s + max same_leg other_leg in
        if add \<noteq> 0 \<and> same_leg > lm_max_position lim \<and> same_leg > magnitude (ps_qty (rs_pos s)) then Rj_position
        else if add \<noteq> 0 \<and> lm_max_gross_position lim > 0 \<and>
                gross_after > lm_max_gross_position lim \<and> gross_after > re_gross re then Rj_gross_position
        else if lm_price_band_bps lim \<noteq> 0 \<and> reference \<le> 0 \<and> lm_require_reference lim then Rj_no_reference
        else if lm_price_band_bps lim \<noteq> 0 \<and> \<not> reference \<le> 0 \<and>
                magnitude (price - reference) * kBasisPoints > reference * uint (lm_price_band_bps lim) then Rj_price_band
        else if adds \<and> \<not> rate_has_room re now then Rj_rate_limit
        else if \<not> replacing \<and> lm_max_open_orders lim \<noteq> 0 \<and> re_open_orders re \<ge> ucast (lm_max_open_orders lim)
          then Rj_open_orders
        else Rj_none)"

definition evaluate :: "RiskEngine \<Rightarrow> Locate \<Rightarrow> Side \<Rightarrow> Price \<Rightarrow> Qty \<Rightarrow> Price \<Rightarrow> Nanos \<Rightarrow> Reject" where
  "evaluate re locate side price qty reference now = assess re locate side price qty qty False reference now"

definition evaluate_replace ::
  "RiskEngine \<Rightarrow> Locate \<Rightarrow> Side \<Rightarrow> Price \<Rightarrow> Qty \<Rightarrow> Qty \<Rightarrow> Price \<Rightarrow> Nanos \<Rightarrow> Reject" where
  "evaluate_replace re locate side price open_qty growth reference now =
     assess re locate side price open_qty growth True reference now"

definition check :: "RiskEngine \<Rightarrow> Locate \<Rightarrow> Side \<Rightarrow> Price \<Rightarrow> Qty \<Rightarrow> Price \<Rightarrow> Nanos \<Rightarrow> RiskEngine \<times> Reject" where
  "check re locate side price qty reference now =
     (let r = evaluate re locate side price qty reference now in
      (if r = Rj_none then admit re now else re, r))"

section \<open>Bookkeeping\<close>

text \<open>\<^verbatim>\<open>refresh\<close> on a slot of the table, written back; the totals move by the difference.\<close>

definition slot_unrealized :: "RSlot \<Rightarrow> int" where
  "slot_unrealized s =
     (if rs_mark s > 0 \<and> ps_qty (rs_pos s) \<noteq> 0
      then clamp64 ((rs_mark s - ps_avg_price (rs_pos s)) * ps_qty (rs_pos s)) else 0)"

definition slot_exposure :: "RSlot \<Rightarrow> int" where
  "slot_exposure s = clamp64 (max (magnitude (leg s Side_buy 0)) (magnitude (leg s Side_sell 0)))"

definition refresh :: "RiskEngine \<Rightarrow> Locate \<Rightarrow> RSlot \<Rightarrow> RiskEngine" where
  "refresh re l s =
     (let u = slot_unrealized s; e = slot_exposure s in
      re\<lparr>re_unrealized_total := re_unrealized_total re + (u - rs_unrealized s),
         re_gross := re_gross re + (e - rs_exposure s),
         re_slots := (re_slots re)[unat l := s\<lparr>rs_unrealized := u, rs_exposure := e\<rparr>]\<rparr>)"

definition settle :: "RiskEngine \<Rightarrow> RiskEngine" where
  "settle re =
     (let total = re_realized_total re + re_unrealized_total re;
          peak = max (re_peak_pnl re) total in
      re\<lparr>re_peak_pnl := peak,
         re_max_drawdown := max (re_max_drawdown re) (peak - total),
         re_kill_switch := (if lm_max_loss (re_limits re) > 0 \<and> total \<le> - lm_max_loss (re_limits re)
                            then True else re_kill_switch re)\<rparr>)"

definition on_order_open :: "RiskEngine \<Rightarrow> Locate \<Rightarrow> Side \<Rightarrow> Qty \<Rightarrow> RiskEngine" where
  "on_order_open re locate side qty =
     (case slot_at re locate of
        None \<Rightarrow> re
      | Some s \<Rightarrow>
          if \<not> valid side \<or> qty = 0 then re
          else
            let s = s\<lparr>rs_open := (rs_open s)(side := clamp64 (rs_open s side + uint qty))\<rparr> in
            if rs_open_count s side \<noteq> - 1
            then refresh (re\<lparr>re_open_orders := re_open_orders re + 1\<rparr>) locate
                   (s\<lparr>rs_open_count := (rs_open_count s)(side := rs_open_count s side + 1)\<rparr>)
            else refresh re locate s)"

definition on_order_grow :: "RiskEngine \<Rightarrow> Locate \<Rightarrow> Side \<Rightarrow> Qty \<Rightarrow> RiskEngine" where
  "on_order_grow re locate side qty =
     (case slot_at re locate of
        None \<Rightarrow> re
      | Some s \<Rightarrow>
          if \<not> valid side \<or> qty = 0 then re
          else refresh re locate (s\<lparr>rs_open := (rs_open s)(side := clamp64 (rs_open s side + uint qty))\<rparr>))"

definition on_order_reduce :: "RiskEngine \<Rightarrow> Locate \<Rightarrow> Side \<Rightarrow> Qty \<Rightarrow> RiskEngine" where
  "on_order_reduce re locate side qty =
     (case slot_at re locate of
        None \<Rightarrow> re
      | Some s \<Rightarrow>
          if \<not> valid side then re
          else refresh re locate
            (s\<lparr>rs_open := (rs_open s)(side := rs_open s side - min (uint qty) (rs_open s side))\<rparr>))"

definition on_order_end :: "RiskEngine \<Rightarrow> Locate \<Rightarrow> Side \<Rightarrow> Qty \<Rightarrow> RiskEngine" where
  "on_order_end re locate side remaining =
     (case slot_at re locate of
        None \<Rightarrow> re
      | Some s \<Rightarrow>
          if \<not> valid side then re
          else
            let s = s\<lparr>rs_open := (rs_open s)(side := rs_open s side - min (uint remaining) (rs_open s side))\<rparr> in
            if rs_open_count s side \<noteq> 0
            then refresh (re\<lparr>re_open_orders := re_open_orders re - 1\<rparr>) locate
                   (s\<lparr>rs_open_count := (rs_open_count s)(side := rs_open_count s side - 1)\<rparr>)
            else refresh re locate s)"

definition on_order_closed :: "RiskEngine \<Rightarrow> Locate \<Rightarrow> Side \<Rightarrow> Qty \<Rightarrow> RiskEngine" where
  "on_order_closed re locate side remaining =
     (case slot_at re locate of
        None \<Rightarrow> re
      | Some s \<Rightarrow>
          if \<not> valid side then re
          else
            let s = s\<lparr>rs_open := (rs_open s)(side := rs_open s side - min (uint remaining) (rs_open s side))\<rparr>;
                cap = (if rs_open s side \<ge> 2 ^ 32 - 1 then - 1 else word_of_int (rs_open s side)) :: u32;
                kept = min (rs_open_count s side) cap in
            refresh (re\<lparr>re_open_orders := re_open_orders re - ucast (rs_open_count s side - kept)\<rparr>) locate
              (s\<lparr>rs_open_count := (rs_open_count s)(side := kept)\<rparr>))"

text \<open>The new position of \<^verbatim>\<open>on_fill\<close> and the gain it realizes.\<close>

definition fill_position :: "Position \<Rightarrow> Side \<Rightarrow> Qty \<Rightarrow> Price \<Rightarrow> Position" where
  "fill_position p side qty price =
     (let buy = (side = Side_buy);
          held = magnitude (ps_qty p);
          fill = uint qty;
          after = ps_qty p + (if buy then fill else - fill) in
      if ps_qty p = 0 \<or> (ps_qty p > 0) = buy then
        \<lparr>ps_qty = clamp64 after, ps_avg_price = (ps_avg_price p * held + price * fill) sdiv (held + fill),
         ps_realized = clamp64 (ps_realized p)\<rparr>
      else
        let closed = min held fill;
            gain = (if ps_qty p > 0 then price - ps_avg_price p else ps_avg_price p - price) * closed;
            avg = (if after = 0 then 0
                   else if (after > 0) \<noteq> (ps_qty p > 0) then price
                   else ps_avg_price p) in
        \<lparr>ps_qty = clamp64 after, ps_avg_price = avg, ps_realized = clamp64 (ps_realized p + gain)\<rparr>)"

definition on_fill :: "RiskEngine \<Rightarrow> Locate \<Rightarrow> Side \<Rightarrow> Qty \<Rightarrow> Price \<Rightarrow> RiskEngine" where
  "on_fill re locate side qty price =
     (case slot_at re locate of
        None \<Rightarrow> re
      | Some s \<Rightarrow>
          if \<not> valid side \<or> qty = 0 \<or> price \<le> 0 then re
          else
            let p = fill_position (rs_pos s) side qty price;
                re = re\<lparr>re_realized_total := re_realized_total re + (ps_realized p - ps_realized (rs_pos s))\<rparr> in
            settle (refresh re locate (s\<lparr>rs_pos := p\<rparr>)))"

definition mark :: "RiskEngine \<Rightarrow> Locate \<Rightarrow> Price \<Rightarrow> RiskEngine" where
  "mark re locate mark_price =
     (case slot_at re locate of
        None \<Rightarrow> re
      | Some s \<Rightarrow>
          if mark_price \<le> 0 then re
          else settle (refresh re locate (s\<lparr>rs_mark := mark_price\<rparr>)))"

definition set_kill_switch :: "RiskEngine \<Rightarrow> bool \<Rightarrow> RiskEngine" where
  "set_kill_switch re on = re\<lparr>re_kill_switch := on\<rparr>"

section \<open>Queries\<close>

definition position :: "RiskEngine \<Rightarrow> Locate \<Rightarrow> Position" where
  "position re locate = (case slot_at re locate of Some s \<Rightarrow> rs_pos s | None \<Rightarrow> kFlat)"

definition open_qty :: "RiskEngine \<Rightarrow> Locate \<Rightarrow> Side \<Rightarrow> int" where
  "open_qty re locate side =
     (case slot_at re locate of Some s \<Rightarrow> if valid side then rs_open s side else 0 | None \<Rightarrow> 0)"

definition realized_pnl :: "RiskEngine \<Rightarrow> int" where
  "realized_pnl re = clamp64 (re_realized_total re)"

definition unrealized_pnl :: "RiskEngine \<Rightarrow> int" where
  "unrealized_pnl re = clamp64 (re_unrealized_total re)"

definition total_pnl :: "RiskEngine \<Rightarrow> int" where
  "total_pnl re = clamp64 (re_realized_total re + re_unrealized_total re)"

definition max_drawdown :: "RiskEngine \<Rightarrow> int" where
  "max_drawdown re = clamp64 (re_max_drawdown re)"

definition gross_exposure :: "RiskEngine \<Rightarrow> int" where
  "gross_exposure re = clamp64 (re_gross re)"

definition open_orders :: "RiskEngine \<Rightarrow> u32" where
  "open_orders re = ucast (min (re_open_orders re) (ucast (- 1 :: u32)))"

section \<open>The invariant: stored values fit, totals are sums\<close>

definition int64 :: "int \<Rightarrow> bool" where
  "int64 v = (- (2 ^ 63) \<le> v \<and> v < 2 ^ 63)"

definition int128 :: "int \<Rightarrow> bool" where
  "int128 v = (- (2 ^ 127) \<le> v \<and> v < 2 ^ 127)"

definition pos_ok :: "Position \<Rightarrow> bool" where
  "pos_ok p = (\<bar>ps_qty p\<bar> \<le> kInt64Max \<and> 0 \<le> ps_avg_price p \<and> ps_avg_price p \<le> kInt64Max \<and>
     \<bar>ps_realized p\<bar> \<le> kInt64Max \<and> (ps_qty p = 0 \<longleftrightarrow> ps_avg_price p = 0))"

definition slot_core :: "RSlot \<Rightarrow> bool" where
  "slot_core s = (pos_ok (rs_pos s) \<and> 0 \<le> rs_mark s \<and> rs_mark s \<le> kInt64Max \<and>
     (\<forall>d. 0 \<le> rs_open s d \<and> rs_open s d \<le> kInt64Max))"

definition slot_ok :: "RSlot \<Rightarrow> bool" where
  "slot_ok s = (slot_core s \<and> rs_unrealized s = slot_unrealized s \<and> rs_exposure s = slot_exposure s)"

definition slot_count :: "RSlot \<Rightarrow> nat" where
  "slot_count s = unat (rs_open_count s Side_buy) + unat (rs_open_count s Side_sell)"

definition risk_inv :: "RiskEngine \<Rightarrow> bool" where
  "risk_inv re =
     (length (re_slots re) \<le> 2 ^ 16 \<and> (\<forall>s \<in> set (re_slots re). slot_ok s) \<and>
      re_realized_total re = (\<Sum>s\<leftarrow>re_slots re. ps_realized (rs_pos s)) \<and>
      re_unrealized_total re = (\<Sum>s\<leftarrow>re_slots re. rs_unrealized s) \<and>
      re_gross re = (\<Sum>s\<leftarrow>re_slots re. rs_exposure s) \<and>
      unat (re_open_orders re) = (\<Sum>s\<leftarrow>re_slots re. slot_count s))"

lemma clamp64_bounds: "\<bar>clamp64 v\<bar> \<le> kInt64Max" "0 \<le> v \<Longrightarrow> 0 \<le> clamp64 v"
  by (auto simp: clamp64_def kInt64Max_def)

lemma clamp64_id: "\<bar>v\<bar> \<le> kInt64Max \<Longrightarrow> clamp64 v = v"
  by (auto simp: clamp64_def)

lemma magnitude_abs [simp]: "magnitude v = \<bar>v\<bar>"
  by (simp add: magnitude_def)

lemma kInt64Max_pos [simp]: "0 < kInt64Max" "0 \<le> kInt64Max"
  by (simp_all add: kInt64Max_def)

lemma slot_sums_bounds:
  assumes "\<forall>s \<in> set ss. slot_ok s"
  shows "\<bar>\<Sum>s\<leftarrow>ss. ps_realized (rs_pos s)\<bar> \<le> int (length ss) * kInt64Max"
    "\<bar>\<Sum>s\<leftarrow>ss. rs_unrealized s\<bar> \<le> int (length ss) * kInt64Max"
    "0 \<le> (\<Sum>s\<leftarrow>ss. rs_exposure s)" "(\<Sum>s\<leftarrow>ss. rs_exposure s) \<le> int (length ss) * kInt64Max"
proof -
  have slot: "\<bar>ps_realized (rs_pos s)\<bar> \<le> kInt64Max" "\<bar>rs_unrealized s\<bar> \<le> kInt64Max"
    "0 \<le> rs_exposure s" "rs_exposure s \<le> kInt64Max" if "slot_ok s" for s
    using that clamp64_bounds(1) [of "(rs_mark s - ps_avg_price (rs_pos s)) * ps_qty (rs_pos s)"]
      clamp64_bounds [of "max (magnitude (leg s Side_buy 0)) (magnitude (leg s Side_sell 0))"]
    by (auto simp: slot_ok_def slot_core_def pos_ok_def slot_unrealized_def slot_exposure_def)
  have abs_sum: "\<bar>\<Sum>s\<leftarrow>ss. f s\<bar> \<le> int (length ss) * kInt64Max" if "\<forall>s \<in> set ss. \<bar>f s\<bar> \<le> kInt64Max" for f :: "RSlot \<Rightarrow> int"
    using that by (induction ss) (auto simp: algebra_simps)
  show "\<bar>\<Sum>s\<leftarrow>ss. ps_realized (rs_pos s)\<bar> \<le> int (length ss) * kInt64Max"
    "\<bar>\<Sum>s\<leftarrow>ss. rs_unrealized s\<bar> \<le> int (length ss) * kInt64Max"
    using assms slot by (auto intro!: abs_sum)
  show "0 \<le> (\<Sum>s\<leftarrow>ss. rs_exposure s)" using assms slot by (intro sum_list_nonneg) auto
  have "\<bar>\<Sum>s\<leftarrow>ss. rs_exposure s\<bar> \<le> int (length ss) * kInt64Max" using assms slot by (intro abs_sum) auto
  then show "(\<Sum>s\<leftarrow>ss. rs_exposure s) \<le> int (length ss) * kInt64Max" by simp
qed

lemma slot_count_sum_bound: "(\<Sum>s\<leftarrow>ss. slot_count s) \<le> length ss * (2 * (2 ^ 32 - 1))"
proof (induction ss)
  case (Cons a ss)
  have "unat x \<le> 2 ^ 32 - 1" for x :: u32 using unsigned_less [of x, where 'a = nat] by simp
  then have "slot_count a \<le> 2 * (2 ^ 32 - 1)"
    unfolding slot_count_def by (metis add_le_mono mult_2)
  then show ?case using Cons by simp
qed simp

lemma slot_at_Some: "slot_at re l = Some s \<longleftrightarrow> unat l < length (re_slots re) \<and> re_slots re ! unat l = s"
  by (auto simp: slot_at_def)

lemma risk_inv_slot: "risk_inv re \<Longrightarrow> slot_at re l = Some s \<Longrightarrow> slot_ok s"
  by (auto simp: risk_inv_def slot_at_Some)

text \<open>Rewriting one slot through \<^verbatim>\<open>refresh\<close> keeps the invariant when the caller moved its own totals.\<close>

lemma refresh_inv:
  assumes inv: "risk_inv re" and old: "slot_at re l = Some old" and core: "slot_core s"
    and same: "rs_unrealized s = rs_unrealized old" "rs_exposure s = rs_exposure old"
    and rt: "re_realized_total re' = re_realized_total re + (ps_realized (rs_pos s) - ps_realized (rs_pos old))"
    and oo: "unat (re_open_orders re') + slot_count old = unat (re_open_orders re) + slot_count s"
    and re': "re_slots re' = re_slots re" "re_unrealized_total re' = re_unrealized_total re" "re_gross re' = re_gross re"
  shows "risk_inv (refresh re' l s)"
proof -
  let ?s = "s\<lparr>rs_unrealized := slot_unrealized s, rs_exposure := slot_exposure s\<rparr>"
  have l: "unat l < length (re_slots re)" "re_slots re ! unat l = old" using old by (simp_all add: slot_at_Some)
  have "slot_unrealized ?s = slot_unrealized s" "slot_exposure ?s = slot_exposure s" "slot_core ?s = slot_core s"
    "slot_count ?s = slot_count s"
    by (simp_all add: slot_unrealized_def slot_exposure_def leg_def slot_core_def slot_count_def)
  then have ok: "slot_ok ?s" "slot_count ?s = slot_count s" using core by (simp_all add: slot_ok_def)
  have "\<forall>x \<in> set ((re_slots re)[unat l := ?s]). slot_ok x"
    using inv ok(1) by (auto simp: risk_inv_def dest!: set_update_subset_insert [THEN subsetD])
  moreover have "(\<Sum>x\<leftarrow>(re_slots re)[unat l := ?s]. slot_count x) + slot_count old = (\<Sum>x\<leftarrow>re_slots re. slot_count x) + slot_count s"
    using sum_list_update_nat [OF l(1), of slot_count ?s] l(2) ok(2) by simp
  ultimately show ?thesis
    using inv l oo rt same
    by (simp add: risk_inv_def refresh_def Let_def re' sum_list_update_int [OF l(1)])
qed

lemma settle_inv [simp]: "risk_inv (settle re) = risk_inv re"
  by (simp add: risk_inv_def settle_def Let_def)

lemma valid_iff [simp]: "valid s = valid_side s"
  by (simp add: valid_def valid_side_def)

lemma RSlot_new_ok: "slot_ok RSlot_new"
  by (simp add: slot_ok_def slot_core_def pos_ok_def RSlot_new_def kFlat_def slot_unrealized_def slot_exposure_def
      leg_def clamp64_def kInt64Max_def)

lemma RiskEngine_new_inv: "risk_inv (RiskEngine_new lim n)"
proof -
  have "ps_realized (rs_pos RSlot_new) = 0" "rs_unrealized RSlot_new = 0" "rs_exposure RSlot_new = 0" "slot_count RSlot_new = 0"
    by (simp_all add: RSlot_new_def kFlat_def slot_count_def)
  then show ?thesis using RSlot_new_ok
    by (auto simp: risk_inv_def RiskEngine_new_def kMaxLocates_def sum_list_replicate)
qed

section \<open>Average-cost accounting stays in range\<close>

lemma sdiv_nonneg: "0 \<le> a \<Longrightarrow> 0 < b \<Longrightarrow> a sdiv b = a div (b :: int)"
  by (simp add: signed_divide_int_def sgn_if)

lemma weighted_average_bounds:
  assumes "0 \<le> a" "a \<le> M" "0 < p" "p \<le> M" "0 \<le> h" "0 < f" "h = 0 \<longleftrightarrow> a = 0"
  shows "1 \<le> (a * h + p * f) sdiv (h + f)" "(a * h + p * f) sdiv (h + f) \<le> (M :: int)"
proof -
  have n: "0 \<le> a * h + p * f" "0 < h + f" using assms by simp_all
  have "h \<le> a * h" using assms by (cases "h = 0") (simp_all add: mult_le_cancel_right1)
  moreover have "f \<le> p * f" using assms by (simp add: mult_le_cancel_right1)
  ultimately have "h + f \<le> a * h + p * f" by simp
  then show "1 \<le> (a * h + p * f) sdiv (h + f)" using n by (simp add: sdiv_nonneg pos_imp_zdiv_pos_iff int_one_le_iff_zero_less)
  have "a * h + p * f \<le> M * (h + f)"
    unfolding distrib_left using assms by (intro add_mono mult_right_mono) simp_all
  then have "(a * h + p * f) div (h + f) \<le> (M * (h + f)) div (h + f)" using n(2) by (rule zdiv_mono1)
  then show "(a * h + p * f) sdiv (h + f) \<le> M" using n by (simp add: sdiv_nonneg)
qed

lemma fill_position_ok:
  assumes "pos_ok p" "valid_side side" "qty \<noteq> 0" "0 < price" "price \<le> kInt64Max"
  shows "pos_ok (fill_position p side qty price)"
proof -
  have q: "0 < uint qty" using assms(3) by (simp add: word_neq_0_conv word_less_def)
  let ?after = "ps_qty p + (if side = Side_buy then uint qty else - uint qty)"
  have zero: "clamp64 ?after = 0 \<longleftrightarrow> ?after = 0" by (simp add: clamp64_def kInt64Max_def)
  show ?thesis
  proof (cases "ps_qty p = 0 \<or> (ps_qty p > 0) = (side = Side_buy)")
    case True
    have "1 \<le> (ps_avg_price p * \<bar>ps_qty p\<bar> + price * uint qty) sdiv (\<bar>ps_qty p\<bar> + uint qty)"
      "(ps_avg_price p * \<bar>ps_qty p\<bar> + price * uint qty) sdiv (\<bar>ps_qty p\<bar> + uint qty) \<le> kInt64Max"
      using assms q by (intro weighted_average_bounds; simp add: pos_ok_def)+
    moreover have "?after \<noteq> 0" using True q by auto
    ultimately show ?thesis using True zero clamp64_bounds(1)
      by (simp add: fill_position_def Let_def pos_ok_def)
  next
    case False
    show ?thesis using False zero clamp64_bounds(1) assms
      by (auto simp: fill_position_def Let_def pos_ok_def)
  qed
qed

section \<open>Every operation keeps the invariant\<close>

lemma open_orders_bound:
  assumes "risk_inv re"
  shows "unat (re_open_orders re) < 2 ^ 64 - 1"
proof -
  have "unat (re_open_orders re) \<le> length (re_slots re) * (2 * (2 ^ 32 - 1))"
    using assms slot_count_sum_bound [of "re_slots re"] by (simp add: risk_inv_def)
  also have "\<dots> \<le> 2 ^ 16 * (2 * (2 ^ 32 - 1))" using assms by (intro mult_right_mono) (simp_all add: risk_inv_def)
  finally show ?thesis by simp
qed

lemma slot_count_le:
  assumes "risk_inv re" "slot_at re l = Some s"
  shows "slot_count s \<le> unat (re_open_orders re)"
proof -
  have "slot_count s \<in> set (map slot_count (re_slots re))" using assms(2) by (auto simp: slot_at_Some)
  then show ?thesis using assms(1) member_le_sum_list by (fastforce simp: risk_inv_def)
qed

lemma slot_count_upd:
  assumes "valid_side side"
  shows "slot_count (s\<lparr>rs_open_count := (rs_open_count s)(side := c)\<rparr>) + unat (rs_open_count s side) = slot_count s + unat c"
  using assms by (cases side) (auto simp: slot_count_def)

lemma slot_core_open:
  assumes "slot_core s" "0 \<le> v" "v \<le> kInt64Max"
  shows "slot_core (s\<lparr>rs_open := (rs_open s)(side := v)\<rparr>)"
    "slot_core (s\<lparr>rs_open := (rs_open s)(side := v), rs_open_count := c\<rparr>)"
  using assms by (simp_all add: slot_core_def)

lemma open_grow_bounds:
  assumes "slot_core s"
  shows "0 \<le> clamp64 (rs_open s side + uint (q :: Qty))" "clamp64 (rs_open s side + uint q) \<le> kInt64Max"
  using assms clamp64_bounds [of "rs_open s side + uint q"] by (simp_all add: slot_core_def)

lemma open_release_bounds:
  assumes "slot_core s"
  shows "0 \<le> rs_open s side - min (uint (q :: Qty)) (rs_open s side)"
    "rs_open s side - min (uint q) (rs_open s side) \<le> kInt64Max"
  using assms by (auto simp: slot_core_def min_def intro: order_trans [of _ "rs_open s side"])

lemma risk_inv_slot_core: "risk_inv re \<Longrightarrow> slot_at re l = Some s \<Longrightarrow> slot_core s"
  using risk_inv_slot by (auto simp: slot_ok_def)

lemma slot_count_open [simp]: "slot_count (s\<lparr>rs_open := x\<rparr>) = slot_count s" "slot_count (s\<lparr>rs_pos := y\<rparr>) = slot_count s"
  "slot_count (s\<lparr>rs_mark := z\<rparr>) = slot_count s"
  by (simp_all add: slot_count_def)

lemma on_order_open_inv:
  assumes "risk_inv re"
  shows "risk_inv (on_order_open re l side qty)"
proof (cases "slot_at re l")
  case None
  then show ?thesis using assms by (simp add: on_order_open_def)
next
  case (Some s)
  note core = risk_inv_slot_core [OF assms Some]
  have "re_open_orders re \<noteq> - 1" using open_orders_bound [OF assms] by (simp add: word_eq_max_iff)
  note oo = unat_plus_one [OF this]
  show ?thesis
  proof (cases "\<not> valid_side side \<or> qty = 0")
    case True
    then show ?thesis using assms Some by (auto simp: on_order_open_def)
  next
    case False
    define s1 where "s1 = s\<lparr>rs_open := (rs_open s)(side := clamp64 (rs_open s side + uint qty))\<rparr>"
    show ?thesis
    proof (cases "rs_open_count s side = - 1")
      case True
      have "on_order_open re l side qty = refresh re l s1"
        using False Some True by (simp add: on_order_open_def Let_def s1_def)
      moreover have "risk_inv (refresh re l s1)"
        by (rule refresh_inv [OF assms Some]) (simp_all add: s1_def slot_core_open [OF core open_grow_bounds [OF core]])
      ultimately show ?thesis by simp
    next
      case c: False
      let ?s2 = "s1\<lparr>rs_open_count := (rs_open_count s1)(side := rs_open_count s1 side + 1)\<rparr>"
      have "on_order_open re l side qty = refresh (re\<lparr>re_open_orders := re_open_orders re + 1\<rparr>) l ?s2"
        using False Some c by (simp add: on_order_open_def Let_def s1_def)
      moreover have "slot_count ?s2 = slot_count s + 1"
        using slot_count_upd [of side s1 "rs_open_count s1 side + 1"] False unat_plus_one [OF c] by (simp add: s1_def)
      then have "risk_inv (refresh (re\<lparr>re_open_orders := re_open_orders re + 1\<rparr>) l ?s2)"
        using oo by (intro refresh_inv [OF assms Some]) (simp_all add: s1_def slot_core_open [OF core open_grow_bounds [OF core]])
      ultimately show ?thesis by simp
    qed
  qed
qed

lemma on_order_grow_inv:
  assumes "risk_inv re"
  shows "risk_inv (on_order_grow re l side qty)"
proof (cases "slot_at re l")
  case (Some s)
  note core = risk_inv_slot_core [OF assms Some]
  have "risk_inv (refresh re l (s\<lparr>rs_open := (rs_open s)(side := clamp64 (rs_open s side + uint qty))\<rparr>))"
    by (rule refresh_inv [OF assms Some]) (simp_all add: slot_core_open [OF core open_grow_bounds [OF core]])
  then show ?thesis using assms Some by (simp add: on_order_grow_def)
qed (use assms in \<open>simp add: on_order_grow_def\<close>)

lemma on_order_reduce_inv:
  assumes "risk_inv re"
  shows "risk_inv (on_order_reduce re l side qty)"
proof (cases "slot_at re l")
  case (Some s)
  note core = risk_inv_slot_core [OF assms Some]
  have "risk_inv (refresh re l (s\<lparr>rs_open := (rs_open s)(side := rs_open s side - min (uint qty) (rs_open s side))\<rparr>))"
    by (rule refresh_inv [OF assms Some]) (simp_all add: slot_core_open [OF core open_release_bounds [OF core]])
  then show ?thesis using assms Some by (simp add: on_order_reduce_def)
qed (use assms in \<open>simp add: on_order_reduce_def\<close>)

lemma release_count_inv:
  fixes qty :: Qty
  assumes inv: "risk_inv re" and s: "slot_at re l = Some s" and side: "valid_side side"
    and c: "c \<le> rs_open_count s side"
  defines "s1 \<equiv> s\<lparr>rs_open := (rs_open s)(side := rs_open s side - min (uint qty) (rs_open s side))\<rparr>"
  shows "risk_inv (refresh (re\<lparr>re_open_orders := re_open_orders re - ucast (rs_open_count s side - c)\<rparr>) l
    (s1\<lparr>rs_open_count := (rs_open_count s1)(side := c)\<rparr>))"
proof -
  note core = risk_inv_slot_core [OF inv s]
  define d where "d = rs_open_count s side - c"
  have d: "unat d = unat (rs_open_count s side) - unat c" using c by (simp add: d_def unat_minus_le)
  have ud: "unat (ucast d :: u64) = unat d"
    using unsigned_less [of d, where 'a = nat] by (simp add: unsigned_ucast_eq take_bit_nat_eq_self)
  have cc: "unat c \<le> unat (rs_open_count s side)" using c by (simp add: word_le_nat_alt)
  have "unat (rs_open_count s side) \<le> slot_count s" using side by (cases side) (auto simp: slot_count_def)
  then have "unat d \<le> unat (re_open_orders re)" using d slot_count_le [OF inv s] by simp
  then have oo: "unat (re_open_orders re - ucast d) = unat (re_open_orders re) - unat d"
    using unat_minus_le [of "ucast d" "re_open_orders re"] ud by (simp add: word_le_nat_alt)
  have sc: "slot_count (s1\<lparr>rs_open_count := (rs_open_count s1)(side := c)\<rparr>) + unat (rs_open_count s side) = slot_count s + unat c"
    using slot_count_upd [OF side, of s1 c] by (simp add: s1_def)
  show ?thesis unfolding d_def [symmetric]
    using sc oo d cc \<open>unat d \<le> unat (re_open_orders re)\<close>
    by (intro refresh_inv [OF inv s]) (simp_all add: s1_def slot_core_open [OF core open_release_bounds [OF core]])
qed

lemma on_order_end_inv:
  assumes "risk_inv re"
  shows "risk_inv (on_order_end re l side qty)"
proof (cases "slot_at re l")
  case (Some s)
  show ?thesis
  proof (cases "valid_side side")
    case True
    define s1 where "s1 = s\<lparr>rs_open := (rs_open s)(side := rs_open s side - min (uint qty) (rs_open s side))\<rparr>"
    show ?thesis
    proof (cases "rs_open_count s side = 0")
      case z: True
      note core = risk_inv_slot_core [OF assms Some]
      have "risk_inv (refresh re l s1)"
        by (rule refresh_inv [OF assms Some]) (simp_all add: s1_def slot_core_open [OF core open_release_bounds [OF core]])
      then show ?thesis using True Some z by (simp add: on_order_end_def Let_def s1_def)
    next
      case nz: False
      then have "1 \<le> rs_open_count s side" by (simp add: word_le_nat_alt Suc_le_eq unat_gt_0)
      then have le: "rs_open_count s side - 1 \<le> rs_open_count s side" by (simp add: word_le_nat_alt unat_minus_le)
      have "risk_inv (refresh (re\<lparr>re_open_orders := re_open_orders re - 1\<rparr>) l
          (s1\<lparr>rs_open_count := (rs_open_count s1)(side := rs_open_count s side - 1)\<rparr>))"
        using release_count_inv [OF assms Some True le, of qty] by (simp add: s1_def)
      then show ?thesis using True Some nz by (simp add: on_order_end_def Let_def s1_def)
    qed
  qed (use assms Some in \<open>simp add: on_order_end_def\<close>)
qed (use assms in \<open>simp add: on_order_end_def\<close>)

lemma on_order_closed_inv:
  assumes "risk_inv re"
  shows "risk_inv (on_order_closed re l side qty)"
proof (cases "slot_at re l")
  case (Some s)
  show ?thesis
  proof (cases "valid_side side")
    case True
    define cap :: u32 where "cap = (let v = rs_open s side - min (uint qty) (rs_open s side) in
      if v \<ge> 2 ^ 32 - 1 then - 1 else word_of_int v)"
    have "min (rs_open_count s side) cap \<le> rs_open_count s side" by simp
    note inv = release_count_inv [OF assms Some True this, of qty]
    have "on_order_closed re l side qty =
      refresh (re\<lparr>re_open_orders := re_open_orders re - ucast (rs_open_count s side - min (rs_open_count s side) cap)\<rparr>) l
        (s\<lparr>rs_open := (rs_open s)(side := rs_open s side - min (uint qty) (rs_open s side)),
           rs_open_count := (rs_open_count s)(side := min (rs_open_count s side) cap)\<rparr>)"
      using True Some by (simp add: on_order_closed_def Let_def cap_def)
    then show ?thesis using inv by simp
  qed (use assms Some in \<open>simp add: on_order_closed_def\<close>)
qed (use assms in \<open>simp add: on_order_closed_def\<close>)

lemma on_fill_inv:
  assumes "risk_inv re" "price \<le> kInt64Max"
  shows "risk_inv (on_fill re l side qty price)"
proof (cases "slot_at re l")
  case (Some s)
  note core = risk_inv_slot_core [OF assms(1) Some]
  show ?thesis
  proof (cases "\<not> valid_side side \<or> qty = 0 \<or> price \<le> 0")
    case False
    define p where "p = fill_position (rs_pos s) side qty price"
    have "pos_ok p" using False core assms(2) by (auto simp: p_def slot_core_def intro!: fill_position_ok)
    then have "risk_inv (refresh (re\<lparr>re_realized_total := re_realized_total re + (ps_realized p - ps_realized (rs_pos s))\<rparr>) l (s\<lparr>rs_pos := p\<rparr>))"
      using core by (intro refresh_inv [OF assms(1) Some]) (simp_all add: slot_core_def)
    then show ?thesis using False Some by (simp add: on_fill_def Let_def p_def)
  qed (use assms Some in \<open>auto simp: on_fill_def\<close>)
qed (use assms in \<open>simp add: on_fill_def\<close>)

lemma mark_inv:
  assumes "risk_inv re" "price \<le> kInt64Max"
  shows "risk_inv (mark re l price)"
proof (cases "slot_at re l")
  case (Some s)
  note core = risk_inv_slot_core [OF assms(1) Some]
  show ?thesis
  proof (cases "price \<le> 0")
    case False
    have "risk_inv (refresh re l (s\<lparr>rs_mark := price\<rparr>))"
      using False assms(2) core by (intro refresh_inv [OF assms(1) Some]) (simp_all add: slot_core_def)
    then show ?thesis using False Some by (simp add: mark_def)
  qed (use assms Some in \<open>simp add: mark_def\<close>)
qed (use assms in \<open>simp add: mark_def\<close>)

lemma rate_record_inv [simp]: "risk_inv (rate_record re now) = risk_inv re"
  by (simp add: risk_inv_def rate_record_def Let_def)

lemma set_kill_switch_inv [simp]: "risk_inv (set_kill_switch re b) = risk_inv re"
  by (simp add: risk_inv_def set_kill_switch_def)

section \<open>Sequences of calls\<close>

datatype risk_op = RO_open Locate Side Qty | RO_grow Locate Side Qty | RO_reduce Locate Side Qty
  | RO_end Locate Side Qty | RO_closed Locate Side Qty | RO_fill Locate Side Qty Price | RO_mark Locate Price
  | RO_kill bool | RO_check Locate Side Price Qty Price Nanos | RO_admit Nanos

fun risk_step :: "risk_op \<Rightarrow> RiskEngine \<Rightarrow> RiskEngine" where
  "risk_step (RO_open l s q) re = on_order_open re l s q"
| "risk_step (RO_grow l s q) re = on_order_grow re l s q"
| "risk_step (RO_reduce l s q) re = on_order_reduce re l s q"
| "risk_step (RO_end l s q) re = on_order_end re l s q"
| "risk_step (RO_closed l s q) re = on_order_closed re l s q"
| "risk_step (RO_fill l s q p) re = on_fill re l s q p"
| "risk_step (RO_mark l p) re = mark re l p"
| "risk_step (RO_kill b) re = set_kill_switch re b"
| "risk_step (RO_check l s p q r t) re = fst (check re l s p q r t)"
| "risk_step (RO_admit t) re = admit re t"

text \<open>The prices of a call fit \<^verbatim>\<open>Price\<close>.\<close>

fun risk_op_int64 :: "risk_op \<Rightarrow> bool" where
  "risk_op_int64 (RO_fill l s q p) = int64 p"
| "risk_op_int64 (RO_mark l p) = int64 p"
| "risk_op_int64 _ = True"

abbreviation risk_run :: "risk_op list \<Rightarrow> RiskEngine \<Rightarrow> RiskEngine" where
  "risk_run ops re \<equiv> fold risk_step ops re"

lemma int64_le_max: "int64 p \<Longrightarrow> p \<le> kInt64Max"
  by (simp add: int64_def kInt64Max_def)

lemma risk_step_inv: "risk_inv re \<Longrightarrow> risk_op_int64 op \<Longrightarrow> risk_inv (risk_step op re)"
  by (cases op) (simp_all add: on_order_open_inv on_order_grow_inv on_order_reduce_inv on_order_end_inv
      on_order_closed_inv on_fill_inv mark_inv int64_le_max check_def admit_def Let_def)

lemma risk_run_inv: "risk_inv re \<Longrightarrow> \<forall>op \<in> set ops. risk_op_int64 op \<Longrightarrow> risk_inv (risk_run ops re)"
  by (induction ops arbitrary: re) (auto intro: risk_step_inv)

section \<open>The rate window\<close>

text \<open>The recorded timestamps: time that steps back counts as no time having passed.\<close>

primrec running_max :: "Nanos \<Rightarrow> Nanos list \<Rightarrow> Nanos list" where
  "running_max m [] = []"
| "running_max m (t # ts) = max m t # running_max (max m t) ts"

definition rate_state :: "RiskEngine \<Rightarrow> Nanos list \<times> nat \<times> nat \<times> Nanos" where
  "rate_state re = (re_rate_ring re, re_rate_next re, re_rate_filled re, re_rate_latest re)"

definition ring_holds :: "nat \<Rightarrow> Nanos list \<Rightarrow> RiskEngine \<Rightarrow> bool" where
  "ring_holds N H re =
     (length (re_rate_ring re) = N \<and> re_rate_filled re = min (length H) N \<and> re_rate_next re = length H mod N \<and>
      (\<forall>j < length H. length H \<le> j + N \<longrightarrow> re_rate_ring re ! (j mod N) = H ! j) \<and>
      re_rate_latest re = (if H = [] then 0 else last H) \<and> sorted H)"

lemma mod_neq_within: "j < n \<Longrightarrow> n < j + N \<Longrightarrow> j mod N \<noteq> n mod (N :: nat)"
  by (metis add_diff_inverse_nat dvd_imp_le linorder_not_less mod_eq_dvd_iff_nat nat_add_left_cancel_less
      order_less_imp_le zero_less_diff)

lemma ring_holds_record:
  assumes r: "ring_holds N H re" and N: "0 < N"
  shows "ring_holds N (H @ [max (re_rate_latest re) now]) (rate_record re now)"
proof -
  define n where "n = length H"
  define v where "v = max (re_rate_latest re) now"
  have len: "length (re_rate_ring re) = N" and nx: "re_rate_next re = n mod N" and fl: "re_rate_filled re = min n N"
    using r by (simp_all add: ring_holds_def n_def)
  have ne: "re_rate_ring re \<noteq> []" using len N by auto
  have rec: "rate_record re now = re\<lparr>re_rate_latest := v, re_rate_ring := (re_rate_ring re)[n mod N := v],
      re_rate_next := Suc n mod N, re_rate_filled := min (Suc n) N\<rparr>"
    using ne N by (auto simp: rate_record_def Let_def len nx fl v_def [symmetric] mod_Suc min_def)
  have ring: "(re_rate_ring re)[n mod N := v] ! (j mod N) = (H @ [v]) ! j" if j: "j < Suc n" "Suc n \<le> j + N" for j
  proof (cases "j = n")
    case True
    then show ?thesis using len N by (simp add: n_def nth_append)
  next
    case False
    with j have "j < n" "n < j + N" "n \<le> j + N" by auto
    then show ?thesis using r mod_neq_within [of j n N] by (simp add: ring_holds_def n_def nth_append)
  qed
  have "sorted (H @ [v])"
  proof (cases H rule: rev_cases)
    case (snoc H' x)
    then have "x \<le> v" using r by (simp add: ring_holds_def v_def)
    then show ?thesis using r snoc by (auto simp: ring_holds_def sorted_append intro: order_trans)
  qed simp
  then show ?thesis unfolding v_def [symmetric] rec using len ring by (auto simp: ring_holds_def n_def)
qed

lemma ring_holds_cong: "rate_state re = rate_state re' \<Longrightarrow> ring_holds N H re = ring_holds N H re'"
  by (simp add: rate_state_def ring_holds_def)

lemma expired_iff:
  "now \<ge> oldest \<and> now - oldest \<ge> kRateWindowNs \<longleftrightarrow> unat oldest + 10 ^ 9 \<le> unat (now :: Nanos)"
proof -
  have w: "unat kRateWindowNs = 10 ^ 9" by (simp add: kRateWindowNs_def)
  show ?thesis
  proof (cases "oldest \<le> now")
    case True
    then have "unat (now - oldest) = unat now - unat oldest" "unat oldest \<le> unat now"
      by (simp_all add: unat_minus_le word_le_nat_alt)
    then show ?thesis using True w unfolding word_le_nat_alt [of kRateWindowNs] by linarith
  next
    case False
    then show ?thesis by (simp add: word_le_nat_alt)
  qed
qed

lemma rate_has_room_count:
  assumes r: "ring_holds N H re" and N: "0 < N"
  shows "rate_has_room re now \<longleftrightarrow> card {j. j < length H \<and> unat now < unat (H ! j) + 10 ^ 9} < N"
proof -
  define n where "n = length H"
  let ?S = "{j. j < n \<and> unat now < unat (H ! j) + 10 ^ 9}"
  have ring: "re_rate_ring re \<noteq> []" "length (re_rate_ring re) = N" "re_rate_filled re = min n N"
    using r N by (auto simp: ring_holds_def n_def)
  show ?thesis
  proof (cases "n < N")
    case True
    have "card ?S \<le> card {..<n}" by (intro card_mono) auto
    with True ring show ?thesis by (simp add: rate_has_room_def n_def)
  next
    case False
    define o' where "o' = H ! (n - N)"
    have "re_rate_ring re ! ((n - N) mod N) = o'" using r False N by (simp add: ring_holds_def n_def o'_def)
    moreover have "(n - N) mod N = re_rate_next re" using r False by (simp add: ring_holds_def n_def le_mod_geq)
    ultimately have room: "rate_has_room re now \<longleftrightarrow> unat o' + 10 ^ 9 \<le> unat now"
      using ring False expired_iff [of o' now] by (simp add: rate_has_room_def)
    have mono: "unat (H ! i) \<le> unat (H ! j)" if "i \<le> j" "j < n" for i j
      using r that sorted_nth_mono [of H i j] by (simp add: ring_holds_def n_def word_le_nat_alt)
    show ?thesis
    proof (cases "unat o' + 10 ^ 9 \<le> unat now")
      case True
      have "?S \<subseteq> {n - N + 1..<n}"
      proof
        fix j assume j: "j \<in> ?S"
        have "\<not> j \<le> n - N"
        proof
          assume "j \<le> n - N"
          from mono [OF this] N False have "unat (H ! j) \<le> unat o'" by (simp add: o'_def)
          with True j show False by simp
        qed
        with j show "j \<in> {n - N + 1..<n}" by simp
      qed
      then have "card ?S \<le> card {n - N + 1..<n}" by (intro card_mono) auto
      with room True N False show ?thesis by (simp add: n_def)
    next
      case nexp: False
      have "{n - N..<n} \<subseteq> ?S"
      proof
        fix j assume j: "j \<in> {n - N..<n}"
        from mono [of "n - N" j] j have "unat o' \<le> unat (H ! j)" by (simp add: o'_def)
        with nexp j show "j \<in> ?S" by simp
      qed
      then have "card {n - N..<n} \<le> card ?S" by (intro card_mono) auto
      with room nexp False show ?thesis by (simp add: n_def)
    qed
  qed
qed

text \<open>The admission times a sequence of calls records, oldest first.\<close>

fun admitted_at :: "risk_op \<Rightarrow> RiskEngine \<Rightarrow> Nanos list" where
  "admitted_at (RO_check l s p q r t) re = (if snd (check re l s p q r t) = Rj_none then [t] else [])"
| "admitted_at (RO_admit t) re = [t]"
| "admitted_at _ re = []"

primrec admissions :: "risk_op list \<Rightarrow> RiskEngine \<Rightarrow> Nanos list" where
  "admissions [] re = []"
| "admissions (op # ops) re = admitted_at op re @ admissions ops (risk_step op re)"

lemma rate_state_simps [simp]:
  "rate_state (refresh re l s) = rate_state re" "rate_state (settle re) = rate_state re"
  "rate_state (set_kill_switch re b) = rate_state re" "rate_state (re\<lparr>re_open_orders := x\<rparr>) = rate_state re"
  "rate_state (re\<lparr>re_realized_total := y\<rparr>) = rate_state re"
  by (simp_all add: rate_state_def refresh_def settle_def set_kill_switch_def Let_def)

lemma rate_state_ops [simp]:
  "rate_state (on_order_open re l s q) = rate_state re" "rate_state (on_order_grow re l s q) = rate_state re"
  "rate_state (on_order_reduce re l s q) = rate_state re" "rate_state (on_order_end re l s q) = rate_state re"
  "rate_state (on_order_closed re l s q) = rate_state re" "rate_state (on_fill re l s q p) = rate_state re"
  "rate_state (mark re l p) = rate_state re"
  by (simp_all add: on_order_open_def on_order_grow_def on_order_reduce_def on_order_end_def on_order_closed_def
      on_fill_def mark_def Let_def split: option.splits)

definition recorded :: "RiskEngine \<Rightarrow> Nanos list \<Rightarrow> Nanos list" where
  "recorded re ts = running_max (re_rate_latest re) ts"

lemma risk_step_ring:
  assumes "ring_holds N H re" "0 < N"
  shows "ring_holds N (H @ running_max (re_rate_latest re) (admitted_at op re)) (risk_step op re)"
proof -
  have keep: "ring_holds N H re'" if "rate_state re' = rate_state re" for re'
    using assms(1) ring_holds_cong [OF that] by simp
  show ?thesis using ring_holds_record [OF assms]
    by (cases op) (auto simp: check_def Let_def admit_def assms(1) intro!: keep)
qed

lemma ring_latest: "ring_holds N H re \<Longrightarrow> re_rate_latest re = (if H = [] then 0 else last H)"
  by (simp add: ring_holds_def)

lemma running_max_Nil [simp]: "running_max m xs = [] \<longleftrightarrow> xs = []"
  by (cases xs) simp_all

lemma running_max_append:
  "running_max m (xs @ ys) = running_max m xs @ running_max (if xs = [] then m else last (running_max m xs)) ys"
  by (induction xs arbitrary: m) (auto simp: Let_def)

lemma risk_run_ring:
  assumes "ring_holds N H re" "0 < N"
  shows "ring_holds N (H @ running_max (re_rate_latest re) (admissions ops re)) (risk_run ops re)"
  using assms(1)
proof (induction ops arbitrary: H re)
  case (Cons op ops)
  let ?H = "H @ running_max (re_rate_latest re) (admitted_at op re)"
  have r: "ring_holds N ?H (risk_step op re)" by (rule risk_step_ring [OF Cons.prems assms(2)])
  have latest: "re_rate_latest (risk_step op re) =
      (if admitted_at op re = [] then re_rate_latest re else last (running_max (re_rate_latest re) (admitted_at op re)))"
    using ring_latest [OF r] ring_latest [OF Cons.prems] by (auto simp: last_append)
  show ?case using Cons.IH [OF r] by (simp add: latest running_max_append append_assoc)
qed simp

lemma new_ring:
  assumes "unat (lm_max_orders_per_second lim) = N" "0 < N" "N \<le> kMaxRateRing"
  shows "ring_holds N [] (RiskEngine_new lim n)"
  using assms by (simp add: ring_holds_def RiskEngine_new_def)

section \<open>The ledger of working quantity\<close>

lemma slot_at_refresh:
  assumes "slot_at re l = Some s0"
  shows "slot_at (refresh re l s) l' =
    (if l' = l then Some (s\<lparr>rs_unrealized := slot_unrealized s, rs_exposure := slot_exposure s\<rparr>) else slot_at re l')"
  using assms by (auto simp: slot_at_def refresh_def Let_def nth_list_update word_unat_eq_iff)

lemma slot_at_simps [simp]:
  "slot_at (settle re) l = slot_at re l" "slot_at (rate_record re t) l = slot_at re l"
  "slot_at (set_kill_switch re b) l = slot_at re l"
  "slot_at (re\<lparr>re_open_orders := x\<rparr>) l = slot_at re l" "slot_at (re\<lparr>re_realized_total := y\<rparr>) l = slot_at re l"
  by (simp_all add: slot_at_def settle_def rate_record_def set_kill_switch_def Let_def)

text \<open>What each call does to the position and the working quantity of an instrument.\<close>

definition exposure_of :: "RiskEngine \<Rightarrow> Locate \<Rightarrow> int \<times> int \<times> int" where
  "exposure_of re l = (ps_qty (position re l), open_qty re l Side_buy, open_qty re l Side_sell)"

lemma open_qty_other:
  assumes "l' \<noteq> l"
  shows "slot_at (on_order_open re l s q) l' = slot_at re l'" "slot_at (on_order_grow re l s q) l' = slot_at re l'"
    "slot_at (on_order_reduce re l s q) l' = slot_at re l'" "slot_at (on_order_end re l s q) l' = slot_at re l'"
    "slot_at (on_order_closed re l s q) l' = slot_at re l'" "slot_at (on_fill re l s q p) l' = slot_at re l'"
    "slot_at (mark re l p) l' = slot_at re l'"
  using assms
  by (simp_all add: on_order_open_def on_order_grow_def on_order_reduce_def on_order_end_def on_order_closed_def
      on_fill_def mark_def Let_def slot_at_refresh split: option.splits)

lemma open_qty_slot: "slot_at re l = Some s \<Longrightarrow> open_qty re l d = (if valid_side d then rs_open s d else 0)"
  by (simp add: open_qty_def)

lemma open_qty_ops:
  assumes "slot_at re l = Some s" "valid_side side"
  shows "open_qty (on_order_open re l side q) l d =
      (if d = side \<and> q \<noteq> 0 then clamp64 (open_qty re l side + uint q) else open_qty re l d)"
    "open_qty (on_order_grow re l side q) l d =
      (if d = side \<and> q \<noteq> 0 then clamp64 (open_qty re l side + uint q) else open_qty re l d)"
    "open_qty (on_order_reduce re l side q) l d =
      (if d = side then open_qty re l side - min (uint q) (open_qty re l side) else open_qty re l d)"
    "open_qty (on_order_end re l side q) l d =
      (if d = side then open_qty re l side - min (uint q) (open_qty re l side) else open_qty re l d)"
    "open_qty (on_fill re l side q p) l d = open_qty re l d"
    "open_qty (mark re l p) l d = open_qty re l d"
  using assms
  by (auto simp: open_qty_def on_order_open_def on_order_grow_def on_order_reduce_def on_order_end_def
      on_fill_def mark_def Let_def slot_at_refresh)

lemma position_ops:
  assumes "slot_at re l = Some s" "valid_side side"
  shows "position (on_order_open re l side q) l = position re l"
    "position (on_order_grow re l side q) l = position re l"
    "position (on_order_reduce re l side q) l = position re l"
    "position (on_order_end re l side q) l = position re l"
    "position (on_fill re l side q p) l =
       (if q = 0 \<or> p \<le> 0 then position re l else fill_position (position re l) side q p)"
    "position (mark re l p) l = position re l"
  using assms
  by (auto simp: position_def on_order_open_def on_order_grow_def on_order_reduce_def on_order_end_def
      on_fill_def mark_def Let_def slot_at_refresh)

lemma ops_unlisted:
  assumes "slot_at re l = None"
  shows "on_order_open re l side q = re" "on_order_grow re l side q = re" "on_order_reduce re l side q = re"
    "on_order_end re l side q = re" "on_order_closed re l side q = re" "on_fill re l side q p = re" "mark re l p = re"
  using assms by (simp_all add: on_order_open_def on_order_grow_def on_order_reduce_def on_order_end_def
      on_order_closed_def on_fill_def mark_def)

lemma ops_invalid_side:
  assumes "\<not> valid_side side"
  shows "on_order_open re l side q = re" "on_order_grow re l side q = re" "on_order_reduce re l side q = re"
    "on_order_end re l side q = re" "on_order_closed re l side q = re" "on_fill re l side q p = re"
  using assms by (simp_all add: on_order_open_def on_order_grow_def on_order_reduce_def on_order_end_def
      on_order_closed_def on_fill_def split: option.splits)

lemma fill_position_qty:
  "ps_qty (fill_position p side q price) = clamp64 (ps_qty p + (if side = Side_buy then uint q else - uint q))"
  by (simp add: fill_position_def Let_def)

section \<open>The position limit as a safety property\<close>

text \<open>
  The protocol of the order manager, seen from one instrument: quantity is added only after the
  verdict was \<^verbatim>\<open>none\<close>, a fill consumes working quantity of its side, and releases, marks, admissions
  and the kill switch may happen at any time, as may any call for another instrument.
\<close>

inductive protocol :: "Locate \<Rightarrow> RiskEngine \<Rightarrow> RiskEngine \<Rightarrow> bool" for l where
  protocol_submit: "evaluate re l side price qty ref now = Rj_none \<Longrightarrow>
     protocol l re (on_order_open (admit re now) l side qty)"
| protocol_amend: "evaluate_replace re l side price open_q growth ref now = Rj_none \<Longrightarrow>
     protocol l re (on_order_grow re l side growth)"
| protocol_fill: "uint qty \<le> open_qty re l side \<Longrightarrow> price \<le> kInt64Max \<Longrightarrow>
     protocol l re (on_fill (on_order_reduce re l side qty) l side qty price)"
| protocol_reduce: "protocol l re (on_order_reduce re l side qty)"
| protocol_end: "protocol l re (on_order_end re l side qty)"
| protocol_mark: "price \<le> kInt64Max \<Longrightarrow> protocol l re (mark re l price)"
| protocol_admit: "protocol l re (admit re now)"
| protocol_kill: "protocol l re (set_kill_switch re b)"
| protocol_other: "risk_op_int64 op \<Longrightarrow> (\<And>x. slot_at (risk_step op x) l = slot_at x l) \<Longrightarrow> protocol l re (risk_step op re)"

inductive_cases protocol_elim: "protocol l re re'"

text \<open>The worst case of both sides is within \<open>M\<close>.\<close>

definition within :: "int \<Rightarrow> RiskEngine \<Rightarrow> Locate \<Rightarrow> bool" where
  "within M re l = (let q = ps_qty (position re l) in
     q + open_qty re l Side_buy \<le> M \<and> - M \<le> q - open_qty re l Side_sell \<and>
     0 \<le> open_qty re l Side_buy \<and> 0 \<le> open_qty re l Side_sell)"

lemma within_pos: "within M re l \<Longrightarrow> \<bar>ps_qty (position re l)\<bar> \<le> M"
  by (auto simp: within_def Let_def)

lemma limits_simps [simp]:
  "re_limits (refresh re l s) = re_limits re" "re_limits (settle re) = re_limits re"
  "re_limits (rate_record re t) = re_limits re" "re_limits (set_kill_switch re b) = re_limits re"
  by (simp_all add: refresh_def settle_def rate_record_def set_kill_switch_def Let_def)

lemma limits_ops [simp]:
  "re_limits (on_order_open re l s q) = re_limits re" "re_limits (on_order_grow re l s q) = re_limits re"
  "re_limits (on_order_reduce re l s q) = re_limits re" "re_limits (on_order_end re l s q) = re_limits re"
  "re_limits (on_order_closed re l s q) = re_limits re" "re_limits (on_fill re l s q p) = re_limits re"
  "re_limits (mark re l p) = re_limits re" "re_limits (admit re t) = re_limits re"
  by (simp_all add: on_order_open_def on_order_grow_def on_order_reduce_def on_order_end_def on_order_closed_def
      on_fill_def mark_def admit_def Let_def split: option.splits)

lemma limits_step [simp]: "re_limits (risk_step op re) = re_limits re"
  by (cases op) (simp_all add: check_def Let_def)

lemma query_cong:
  "slot_at re' l = slot_at re l \<Longrightarrow> position re' l = position re l"
  "slot_at re' l = slot_at re l \<Longrightarrow> open_qty re' l = open_qty re l"
  by (simp_all add: position_def open_qty_def fun_eq_iff)

lemma within_cong: "slot_at re' l = slot_at re l \<Longrightarrow> within M re' l = within M re l"
  using query_cong [of re' l re] by (simp add: within_def)

text \<open>What the verdict \<^verbatim>\<open>none\<close> guarantees of the position step.\<close>

lemma guard_none: "(if b then r else x) = Rj_none \<Longrightarrow> r \<noteq> Rj_none \<Longrightarrow> (\<not> b \<Longrightarrow> x = Rj_none \<Longrightarrow> P) \<Longrightarrow> P"
  by (auto split: if_splits)

lemma assess_none:
  assumes "assess re l side price qty add rep ref now = Rj_none"
  obtains s where "slot_at re l = Some s" "valid_side side" "qty \<noteq> 0"
    "add = 0 \<or> \<bar>leg s side (uint add)\<bar> \<le> lm_max_position (re_limits re) \<or> \<bar>leg s side (uint add)\<bar> \<le> \<bar>ps_qty (rs_pos s)\<bar>"
proof -
  define s where "s = re_slots re ! unat l"
  note a = assms [unfolded assess_def Let_def magnitude_abs valid_iff, folded s_def]
  have "\<not> (unat l \<ge> length (re_slots re) \<or> \<not> valid_side side \<or> qty = 0 \<or> price \<le> 0)"
    using a by (elim guard_none; (assumption | simp only: Reject.distinct simp_thms))
  moreover have "\<not> (add \<noteq> 0 \<and> lm_max_position (re_limits re) < \<bar>leg s side (uint add)\<bar> \<and>
      \<bar>ps_qty (rs_pos s)\<bar> < \<bar>leg s side (uint add)\<bar>)"
    using a by (elim guard_none; (assumption | simp only: Reject.distinct simp_thms))
  ultimately show thesis using that [of s] by (auto simp: slot_at_Some s_def not_less not_le)
qed

lemma clamp64_within:
  fixes q u ob M :: int
  assumes "\<bar>q\<bar> \<le> M" "M < 2 ^ 62" "0 \<le> u"
  shows "u \<le> ob \<Longrightarrow> q + ob \<le> M \<Longrightarrow> clamp64 (q + u) = q + u"
    "u \<le> ob \<Longrightarrow> - M \<le> q - ob \<Longrightarrow> clamp64 (q - u) = q - u"
  using assms by (auto simp: kInt64Max_def intro!: clamp64_id)

lemma within_add:
  assumes w: "within M re l" and s: "slot_at re l = Some s" "valid_side side" and M: "M < 2 ^ 62"
    and ok: "\<bar>leg s side (uint (q :: Qty))\<bar> \<le> M"
    and o': "\<And>d. open_qty re' l d = (if d = side \<and> q \<noteq> 0 then clamp64 (open_qty re l side + uint q) else open_qty re l d)"
    and p': "position re' l = position re l"
  shows "within M re' l"
proof -
  have pos: "ps_qty (position re l) = ps_qty (rs_pos s)" using s by (simp add: position_def)
  have oq: "open_qty re l d = rs_open s d" if "valid_side d" for d using s that by (simp add: open_qty_def)
  have b: "\<bar>ps_qty (rs_pos s)\<bar> \<le> M" using within_pos [OF w] pos by simp
  have q0: "0 \<le> uint q" by simp
  have bounds: "0 \<le> rs_open s Side_buy" "0 \<le> rs_open s Side_sell" "ps_qty (rs_pos s) + rs_open s Side_buy \<le> M"
    "- M \<le> ps_qty (rs_pos s) - rs_open s Side_sell"
    using w by (simp_all add: within_def Let_def pos oq)
  have cl: "clamp64 (rs_open s side + uint q) = rs_open s side + uint q"
    using s(2) ok b bounds M q0 by (intro clamp64_id) (auto simp: leg_def kInt64Max_def elim!: valid_side_cases)
  show ?thesis using s(2) bounds ok q0 cl
    by (auto simp: within_def Let_def o' p' pos oq leg_def elim!: valid_side_cases)
qed

lemma within_release:
  assumes "within M re l" "\<And>d. open_qty re' l d = open_qty re l d \<or> 0 \<le> open_qty re' l d \<and> open_qty re' l d \<le> open_qty re l d"
    "position re' l = position re l"
  shows "within M re' l"
proof -
  have "0 \<le> open_qty re' l d \<and> open_qty re' l d \<le> open_qty re l d" if "0 \<le> open_qty re l d" for d
    using assms(2) [of d] that by auto
  then show ?thesis using assms(1,3) by (simp add: within_def Let_def) (meson add_left_mono diff_left_mono order_trans)
qed

lemma protocol_within:
  assumes step: "protocol l re re'" and inv: "risk_inv re" and w: "within M re l"
    and M: "lm_max_position (re_limits re) \<le> M" "M < 2 ^ 62"
  shows "risk_inv re' \<and> within M re' l \<and> re_limits re' = re_limits re"
  using step
proof cases
  case (protocol_submit side price qty ref now)
  from protocol_submit(2) obtain s where s: "slot_at re l = Some s" "valid_side side" "qty \<noteq> 0"
    "\<bar>leg s side (uint qty)\<bar> \<le> lm_max_position (re_limits re) \<or> \<bar>leg s side (uint qty)\<bar> \<le> \<bar>ps_qty (rs_pos s)\<bar>"
    unfolding evaluate_def by (elim assess_none) auto
  have "\<bar>ps_qty (rs_pos s)\<bar> \<le> M" using within_pos [OF w] s(1) by (simp add: position_def)
  then have ok: "\<bar>leg s side (uint qty)\<bar> \<le> M" using s(4) M(1) by linarith
  have sl: "slot_at (admit re now) l = Some s" using s(1) by (simp add: admit_def)
  then have w': "within M (admit re now) l" using within_cong [of "admit re now" l re M] s(1) w by simp
  have "within M re' l" unfolding protocol_submit(1)
    by (rule within_add [OF w' sl s(2) M(2) ok]) (simp_all add: open_qty_ops [OF sl s(2)] position_ops [OF sl s(2)])
  then show ?thesis using inv protocol_submit by (simp add: on_order_open_inv admit_def)
next
  case (protocol_amend side price open_q growth ref now)
  from protocol_amend(2) obtain s where s: "slot_at re l = Some s" "valid_side side"
    "growth = 0 \<or> \<bar>leg s side (uint growth)\<bar> \<le> lm_max_position (re_limits re) \<or> \<bar>leg s side (uint growth)\<bar> \<le> \<bar>ps_qty (rs_pos s)\<bar>"
    unfolding evaluate_replace_def by (elim assess_none) auto
  have "\<bar>ps_qty (rs_pos s)\<bar> \<le> M" using within_pos [OF w] s(1) by (simp add: position_def)
  then have ok: "growth = 0 \<or> \<bar>leg s side (uint growth)\<bar> \<le> M" using s(3) M(1) by linarith
  have "within M re' l"
  proof (cases "growth = 0")
    case True
    then have "re' = re" using s by (simp add: protocol_amend(1) on_order_grow_def)
    then show ?thesis using w by simp
  next
    case False
    then have "\<bar>leg s side (uint growth)\<bar> \<le> M" using ok by simp
    then show ?thesis unfolding protocol_amend(1)
      by (rule within_add [OF w s(1,2) M(2)]) (simp_all add: open_qty_ops [OF s(1,2)] position_ops [OF s(1,2)])
  qed
  then show ?thesis using inv protocol_amend by (simp add: on_order_grow_inv)
next
  case (protocol_fill qty side price)
  have ri: "risk_inv re'" using inv protocol_fill by (simp add: on_fill_inv on_order_reduce_inv)
  have "within M re' l"
  proof (cases "slot_at re l")
    case None
    then show ?thesis using w protocol_fill by (simp add: ops_unlisted)
  next
    case (Some s)
    show ?thesis
    proof (cases "valid_side side \<and> qty \<noteq> 0 \<and> price > 0")
      case False
      then have "re' = on_order_reduce re l side qty"
        using Some protocol_fill(1) by (auto simp: on_fill_def ops_invalid_side split: option.splits)
      moreover have "within M (on_order_reduce re l side qty) l"
      proof (cases "valid_side side")
        case v: True
        have "0 \<le> open_qty re l side" using w v by (auto simp: within_def Let_def elim: valid_side_cases)
        then show ?thesis
          using open_qty_ops(3) [OF Some v, of qty] position_ops(3) [OF Some v, of qty]
          by (intro within_release [OF w]) auto
      qed (simp add: ops_invalid_side w)
      ultimately show ?thesis by simp
    next
      case True
      then have v: "valid_side side" by simp
      define re1 where "re1 = on_order_reduce re l side qty"
      have "slot_at re1 l \<noteq> None" using Some v by (simp add: re1_def on_order_reduce_def slot_at_refresh)
      then obtain s1 where s1: "slot_at re1 l = Some s1" by blast
      have o1: "open_qty re' l d = (if d = side then open_qty re l side - uint qty else open_qty re l d)" for d
        using open_qty_ops(5) [OF s1 v, of qty price d] open_qty_ops(3) [OF Some v, of qty d] protocol_fill
        by (simp add: re1_def min_def)
      define q where "q = ps_qty (position re l)"
      have bq: "\<bar>q\<bar> \<le> M" "0 \<le> uint qty" using within_pos [OF w] by (simp_all add: q_def)
      have "ps_qty (position re' l) = clamp64 (q + (if side = Side_buy then uint qty else - uint qty))"
        using position_ops(5) [OF s1 v, of qty price] position_ops(3) [OF Some v, of qty] True protocol_fill(1)
        by (simp add: re1_def fill_position_qty q_def)
      also have "\<dots> = q + (if side = Side_buy then uint qty else - uint qty)"
        using w v protocol_fill(2) clamp64_within [OF bq(1) M(2) bq(2)]
        by (auto simp: within_def Let_def q_def [symmetric] elim!: valid_side_cases)
      finally have p1: "ps_qty (position re' l) = q + (if side = Side_buy then uint qty else - uint qty)" .
      obtain u where u: "uint qty = u" "0 \<le> u" using bq(2) by blast
      show ?thesis using w v protocol_fill(2) u(2)
        by (auto simp: within_def Let_def o1 p1 u(1) q_def [symmetric] elim!: valid_side_cases)
    qed
  qed
  then show ?thesis using ri protocol_fill by simp
next
  case (protocol_reduce side qty)
  have "within M re' l"
  proof (cases "slot_at re l = None \<or> \<not> valid_side side")
    case True
    then show ?thesis using w protocol_reduce by (auto simp: ops_unlisted ops_invalid_side)
  next
    case False
    then obtain s where s: "slot_at re l = Some s" "valid_side side" by auto
    have "0 \<le> open_qty re l side" using w s(2) by (auto simp: within_def Let_def elim: valid_side_cases)
    then show ?thesis unfolding protocol_reduce
      using open_qty_ops(3) [OF s, of qty] position_ops(3) [OF s, of qty] by (intro within_release [OF w]) auto
  qed
  then show ?thesis using inv protocol_reduce by (simp add: on_order_reduce_inv)
next
  case (protocol_end side qty)
  have "within M re' l"
  proof (cases "slot_at re l = None \<or> \<not> valid_side side")
    case True
    then show ?thesis using w protocol_end by (auto simp: ops_unlisted ops_invalid_side)
  next
    case False
    then obtain s where s: "slot_at re l = Some s" "valid_side side" by auto
    have "0 \<le> open_qty re l side" using w s(2) by (auto simp: within_def Let_def elim: valid_side_cases)
    then show ?thesis unfolding protocol_end
      using open_qty_ops(4) [OF s, of qty] position_ops(4) [OF s, of qty] by (intro within_release [OF w]) auto
  qed
  then show ?thesis using inv protocol_end by (simp add: on_order_end_inv)
next
  case (protocol_mark price)
  have "open_qty re' l d = open_qty re l d \<and> position re' l = position re l" for d
    unfolding protocol_mark(1)
    by (cases "slot_at re l") (simp_all add: ops_unlisted open_qty_ops(6) [of re l _ Side_buy] position_ops(6) [of re l _ Side_buy])
  then show ?thesis using w inv protocol_mark by (simp add: within_def mark_inv)
next
  case (protocol_admit now)
  then show ?thesis using w inv within_cong [of re' l re M] by (simp add: admit_def)
next
  case (protocol_kill b)
  then show ?thesis using w inv within_cong [of re' l re M] by simp
next
  case (protocol_other op)
  then show ?thesis using w inv within_cong [of re' l re M] by (simp add: risk_step_inv)
qed

section \<open>Drawdown and the loss limit\<close>

definition pnl :: "RiskEngine \<Rightarrow> int" where
  "pnl re = re_realized_total re + re_unrealized_total re"

text \<open>The calls that sample total PnL, and the samples of a run.\<close>

fun settles :: "risk_op \<Rightarrow> RiskEngine \<Rightarrow> bool" where
  "settles (RO_fill l s q p) re = (slot_at re l \<noteq> None \<and> valid_side s \<and> q \<noteq> 0 \<and> 0 < p)"
| "settles (RO_mark l p) re = (slot_at re l \<noteq> None \<and> 0 < p)"
| "settles _ re = False"

primrec samples :: "risk_op list \<Rightarrow> RiskEngine \<Rightarrow> int list" where
  "samples [] re = []"
| "samples (op # ops) re = (if settles op re then [pnl (risk_step op re)] else []) @ samples ops (risk_step op re)"

definition pnl_state :: "RiskEngine \<Rightarrow> int \<times> int \<times> bool" where
  "pnl_state re = (re_peak_pnl re, re_max_drawdown re, re_kill_switch re)"

definition tracks :: "int list \<Rightarrow> RiskEngine \<Rightarrow> bool" where
  "tracks xs re =
     (xs \<noteq> [] \<and> re_peak_pnl re \<in> set xs \<and> (\<forall>x \<in> set xs. x \<le> re_peak_pnl re) \<and>
      (\<forall>i j. i \<le> j \<longrightarrow> j < length xs \<longrightarrow> xs ! i - xs ! j \<le> re_max_drawdown re) \<and>
      (\<exists>i j. i \<le> j \<and> j < length xs \<and> xs ! i - xs ! j = re_max_drawdown re))"

lemma pnl_state_simps [simp]:
  "pnl_state (refresh re l s) = pnl_state re" "pnl_state (rate_record re t) = pnl_state re"
  "pnl_state (re\<lparr>re_open_orders := x\<rparr>) = pnl_state re" "pnl_state (re\<lparr>re_realized_total := y\<rparr>) = pnl_state re"
  by (simp_all add: pnl_state_def refresh_def rate_record_def Let_def)

text \<open>A call that does not settle leaves peak and drawdown alone, and the switch too unless it sets it.\<close>

lemma risk_step_quiet:
  assumes "\<not> settles op re"
  shows "re_peak_pnl (risk_step op re) = re_peak_pnl re" "re_max_drawdown (risk_step op re) = re_max_drawdown re"
    "(\<forall>b. op \<noteq> RO_kill b) \<Longrightarrow> re_kill_switch (risk_step op re) = re_kill_switch re"
proof -
  have "pnl_state (risk_step op re) = pnl_state re" if "\<forall>b. op \<noteq> RO_kill b"
    using assms that
    by (cases op) (auto simp: on_order_open_def on_order_grow_def on_order_reduce_def on_order_end_def on_order_closed_def
        on_fill_def mark_def check_def admit_def Let_def split: option.splits)
  then show "(\<forall>b. op \<noteq> RO_kill b) \<Longrightarrow> re_kill_switch (risk_step op re) = re_kill_switch re"
    "re_peak_pnl (risk_step op re) = re_peak_pnl re" "re_max_drawdown (risk_step op re) = re_max_drawdown re"
    by (cases "\<exists>b. op = RO_kill b"; auto simp: pnl_state_def set_kill_switch_def)+
qed

lemma risk_step_settles:
  assumes "settles op re"
  obtains re1 where "risk_step op re = settle re1" "pnl_state re1 = pnl_state re" "re_limits re1 = re_limits re"
proof (cases op)
  case (RO_fill l s q p)
  then obtain sl where "slot_at re l = Some sl" "valid_side s" "q \<noteq> 0" "0 < p" using assms by auto
  then show thesis using that [of "refresh (re\<lparr>re_realized_total := re_realized_total re +
        (ps_realized (fill_position (rs_pos sl) s q p) - ps_realized (rs_pos sl))\<rparr>) l (sl\<lparr>rs_pos := fill_position (rs_pos sl) s q p\<rparr>)"]
    by (simp add: RO_fill on_fill_def Let_def)
next
  case (RO_mark l p)
  then obtain sl where "slot_at re l = Some sl" "0 < p" using assms by auto
  then show thesis using that [of "refresh re l (sl\<lparr>rs_mark := p\<rparr>)"] by (simp add: RO_mark mark_def)
qed (use assms in auto)

lemma tracks_settle:
  assumes t: "tracks xs re" and p: "pnl_state re1 = pnl_state re"
  shows "tracks (xs @ [pnl (settle re1)]) (settle re1)"
proof -
  define x where "x = pnl (settle re1)"
  have x: "x = re_realized_total re1 + re_unrealized_total re1" by (simp add: x_def pnl_def settle_def Let_def)
  define P where "P = max (re_peak_pnl re) x"
  define D where "D = max (re_max_drawdown re) (P - x)"
  have s: "re_peak_pnl (settle re1) = P" "re_max_drawdown (settle re1) = D"
    using p by (simp_all add: settle_def Let_def P_def D_def x pnl_state_def)
  have pk: "re_peak_pnl re \<in> set xs" "\<And>y. y \<in> set xs \<Longrightarrow> y \<le> re_peak_pnl re" using t by (auto simp: tracks_def)
  let ?ys = "xs @ [x]"
  have Pmem: "P \<in> set ?ys" and Pmax: "\<And>y. y \<in> set ?ys \<Longrightarrow> y \<le> P"
    using pk by (auto simp: P_def max_def dest: pk(2))
  have "?ys ! i - ?ys ! j \<le> D" if "i \<le> j" "j < length ?ys" for i j
  proof (cases "j = length xs")
    case True
    have "?ys ! i \<le> P" using that by (intro Pmax nth_mem) simp
    then show ?thesis using True by (simp add: D_def)
  next
    case False
    then have "j < length xs" "i < length xs" using that by auto
    then have "xs ! i - xs ! j \<le> re_max_drawdown re" using t that(1) by (auto simp: tracks_def)
    then show ?thesis using \<open>j < length xs\<close> \<open>i < length xs\<close> by (simp add: nth_append D_def)
  qed
  moreover have "\<exists>i j. i \<le> j \<and> j < length ?ys \<and> ?ys ! i - ?ys ! j = D"
  proof (cases "P - x \<le> re_max_drawdown re")
    case True
    obtain i j where "i \<le> j" "j < length xs" "xs ! i - xs ! j = re_max_drawdown re" using t by (auto simp: tracks_def)
    then show ?thesis using True by (intro exI [of _ i] exI [of _ j]) (simp add: nth_append D_def)
  next
    case False
    obtain i where "i < length ?ys" "?ys ! i = P" using Pmem by (meson in_set_conv_nth)
    then show ?thesis using False by (intro exI [of _ i] exI [of _ "length xs"]) (simp add: D_def)
  qed
  ultimately show ?thesis unfolding x_def [symmetric] using Pmem Pmax by (auto simp: tracks_def s)
qed

lemma tracks_run:
  assumes "tracks xs re"
  shows "tracks (xs @ samples ops re) (risk_run ops re)"
  using assms
proof (induction ops arbitrary: xs re)
  case (Cons op ops)
  show ?case
  proof (cases "settles op re")
    case True
    from risk_step_settles [OF this] obtain re1 where "risk_step op re = settle re1" "pnl_state re1 = pnl_state re" by blast
    then have "tracks (xs @ [pnl (risk_step op re)]) (risk_step op re)" using tracks_settle [OF Cons.prems] by simp
    from Cons.IH [OF this] True show ?thesis by simp
  next
    case False
    then have "tracks xs (risk_step op re)" using Cons.prems risk_step_quiet [OF False] by (simp add: tracks_def)
    from Cons.IH [OF this] False show ?thesis by simp
  qed
qed simp

lemma kill_run:
  assumes "\<forall>op \<in> set ops. \<forall>b. op \<noteq> RO_kill b" "0 < lm_max_loss (re_limits re)"
  shows "re_kill_switch (risk_run ops re) \<longleftrightarrow>
    re_kill_switch re \<or> (\<exists>x \<in> set (samples ops re). x \<le> - lm_max_loss (re_limits re))"
  using assms
proof (induction ops arbitrary: re)
  case (Cons op ops)
  have lim: "0 < lm_max_loss (re_limits (risk_step op re))" using Cons.prems by simp
  have "re_kill_switch (risk_step op re) \<longleftrightarrow>
      re_kill_switch re \<or> settles op re \<and> pnl (risk_step op re) \<le> - lm_max_loss (re_limits re)"
  proof (cases "settles op re")
    case True
    from risk_step_settles [OF this] obtain re1 where
      "risk_step op re = settle re1" "pnl_state re1 = pnl_state re" "re_limits re1 = re_limits re" by blast
    then show ?thesis using True Cons.prems(2) by (simp add: settle_def Let_def pnl_def pnl_state_def)
  next
    case False
    then show ?thesis using risk_step_quiet(3) [OF False] Cons.prems(1) by simp
  qed
  then show ?case using Cons.IH [OF _ lim] Cons.prems(1) by auto
qed simp

section \<open>Bounds\<close>

definition kPnlBound :: int where
  "kPnlBound = 2 ^ 17 * kInt64Max"

lemma totals_bounds:
  assumes "risk_inv re"
  shows "\<bar>re_realized_total re\<bar> \<le> 2 ^ 16 * kInt64Max" "\<bar>re_unrealized_total re\<bar> \<le> 2 ^ 16 * kInt64Max"
    "0 \<le> re_gross re" "re_gross re \<le> 2 ^ 16 * kInt64Max" "\<bar>pnl re\<bar> \<le> kPnlBound"
proof -
  have len: "int (length (re_slots re)) * kInt64Max \<le> 2 ^ 16 * kInt64Max"
    using assms by (intro mult_right_mono) (simp_all add: risk_inv_def)
  have eqs: "re_realized_total re = (\<Sum>s\<leftarrow>re_slots re. ps_realized (rs_pos s))"
    "re_unrealized_total re = (\<Sum>s\<leftarrow>re_slots re. rs_unrealized s)" "re_gross re = (\<Sum>s\<leftarrow>re_slots re. rs_exposure s)"
    and ok: "\<forall>s \<in> set (re_slots re). slot_ok s"
    using assms by (simp_all add: risk_inv_def)
  note b = slot_sums_bounds [OF ok]
  show "0 \<le> re_gross re" unfolding eqs by (rule b(3))
  show "re_gross re \<le> 2 ^ 16 * kInt64Max" unfolding eqs by (rule order_trans [OF b(4) len])
  show r: "\<bar>re_realized_total re\<bar> \<le> 2 ^ 16 * kInt64Max" "\<bar>re_unrealized_total re\<bar> \<le> 2 ^ 16 * kInt64Max"
    unfolding eqs by (rule order_trans [OF b(1) len], rule order_trans [OF b(2) len])
  show "\<bar>pnl re\<bar> \<le> kPnlBound" using r(1,2) by (simp add: pnl_def kPnlBound_def)
qed

lemma drawdown_bounds_step:
  assumes "risk_inv re" "risk_op_int64 op" "\<bar>re_peak_pnl re\<bar> \<le> kPnlBound" "0 \<le> re_max_drawdown re" "re_max_drawdown re \<le> 2 * kPnlBound"
  shows "\<bar>re_peak_pnl (risk_step op re)\<bar> \<le> kPnlBound \<and> 0 \<le> re_max_drawdown (risk_step op re) \<and>
    re_max_drawdown (risk_step op re) \<le> 2 * kPnlBound"
proof (cases "settles op re")
  case True
  from risk_step_settles [OF this] obtain re1 where re1: "risk_step op re = settle re1" "pnl_state re1 = pnl_state re" by blast
  have "risk_inv (settle re1)" using risk_step_inv [OF assms(1,2)] re1(1) by simp
  then have "\<bar>pnl re1\<bar> \<le> kPnlBound" using totals_bounds(5) [of re1] by simp
  then show ?thesis using assms(3-5) re1 by (auto simp: settle_def Let_def pnl_def pnl_state_def max_def)
next
  case False
  then show ?thesis using risk_step_quiet [OF False] assms(3-5) by simp
qed

lemma drawdown_bounds_run:
  assumes "risk_inv re" "\<forall>op \<in> set ops. risk_op_int64 op"
    "\<bar>re_peak_pnl re\<bar> \<le> kPnlBound" "0 \<le> re_max_drawdown re" "re_max_drawdown re \<le> 2 * kPnlBound"
  shows "\<bar>re_peak_pnl (risk_run ops re)\<bar> \<le> kPnlBound \<and> 0 \<le> re_max_drawdown (risk_run ops re) \<and>
    re_max_drawdown (risk_run ops re) \<le> 2 * kPnlBound"
  using assms
proof (induction ops arbitrary: re)
  case (Cons op ops)
  have "risk_inv (risk_step op re)" using Cons.prems by (intro risk_step_inv) simp_all
  then show ?case using Cons.IH [of "risk_step op re"] drawdown_bounds_step [of re op] Cons.prems by simp
qed simp

lemma product_bound: "\<bar>a\<bar> \<le> A \<Longrightarrow> \<bar>b\<bar> \<le> B \<Longrightarrow> \<bar>a * b\<bar> \<le> A * (B :: int)"
  by (simp add: abs_mult mult_mono')

lemma uint_qty_bound: "0 \<le> uint (q :: Qty)" "uint q \<le> 2 ^ 32 - 1"
  using uint_lt2p [of q] by simp_all

lemma fill_arithmetic:
  assumes "pos_ok p" "0 < price" "price \<le> kInt64Max"
  shows "int128 (ps_avg_price p * \<bar>ps_qty p\<bar> + price * uint (q :: Qty))"
    "int128 ((price - ps_avg_price p) * min \<bar>ps_qty p\<bar> (uint q))"
    "int128 ((ps_avg_price p - price) * min \<bar>ps_qty p\<bar> (uint q))"
    "int128 (ps_realized p + (price - ps_avg_price p) * min \<bar>ps_qty p\<bar> (uint q))"
    "int128 (ps_realized p + (ps_avg_price p - price) * min \<bar>ps_qty p\<bar> (uint q))"
proof -
  have pb: "\<bar>ps_avg_price p\<bar> \<le> kInt64Max" "\<bar>ps_qty p\<bar> \<le> kInt64Max" "\<bar>ps_realized p\<bar> \<le> kInt64Max" "0 \<le> ps_avg_price p"
    using assms(1) by (auto simp: pos_ok_def)
  have m: "\<bar>min \<bar>ps_qty p\<bar> (uint q)\<bar> \<le> 2 ^ 32 - 1" using uint_qty_bound [of q] by (simp add: min_def)
  have d: "\<bar>price - ps_avg_price p\<bar> \<le> kInt64Max" "\<bar>ps_avg_price p - price\<bar> \<le> kInt64Max" using pb assms(2,3) by auto
  have "\<bar>ps_avg_price p * \<bar>ps_qty p\<bar>\<bar> \<le> kInt64Max * kInt64Max" using pb by (intro product_bound) simp_all
  moreover have "\<bar>price * uint q\<bar> \<le> kInt64Max * (2 ^ 32 - 1)" using assms(2,3) uint_qty_bound [of q] by (intro product_bound) simp_all
  ultimately show "int128 (ps_avg_price p * \<bar>ps_qty p\<bar> + price * uint q)"
    by (simp add: int128_def kInt64Max_def abs_le_iff)
  have g: "\<bar>(price - ps_avg_price p) * min \<bar>ps_qty p\<bar> (uint q)\<bar> \<le> kInt64Max * (2 ^ 32 - 1)"
    "\<bar>(ps_avg_price p - price) * min \<bar>ps_qty p\<bar> (uint q)\<bar> \<le> kInt64Max * (2 ^ 32 - 1)"
    using d m by (intro product_bound; simp)+
  then show "int128 ((price - ps_avg_price p) * min \<bar>ps_qty p\<bar> (uint q))"
    "int128 ((ps_avg_price p - price) * min \<bar>ps_qty p\<bar> (uint q))"
    "int128 (ps_realized p + (price - ps_avg_price p) * min \<bar>ps_qty p\<bar> (uint q))"
    "int128 (ps_realized p + (ps_avg_price p - price) * min \<bar>ps_qty p\<bar> (uint q))"
    using pb(3) by (simp_all add: int128_def kInt64Max_def abs_le_iff)
qed

lemma slot_arithmetic:
  assumes "slot_core s"
  shows "int128 ((rs_mark s - ps_avg_price (rs_pos s)) * ps_qty (rs_pos s))"
    "int128 (leg s Side_buy (uint (q :: Qty)))" "int128 (leg s Side_sell (uint q))"
proof -
  have b: "\<bar>ps_qty (rs_pos s)\<bar> \<le> kInt64Max" "\<bar>rs_mark s - ps_avg_price (rs_pos s)\<bar> \<le> kInt64Max"
    "\<bar>rs_open s Side_buy\<bar> \<le> kInt64Max" "\<bar>rs_open s Side_sell\<bar> \<le> kInt64Max"
    using assms by (auto simp: slot_core_def pos_ok_def)
  have "\<bar>(rs_mark s - ps_avg_price (rs_pos s)) * ps_qty (rs_pos s)\<bar> \<le> kInt64Max * kInt64Max"
    using b by (intro product_bound)
  then show "int128 ((rs_mark s - ps_avg_price (rs_pos s)) * ps_qty (rs_pos s))"
    by (simp add: int128_def kInt64Max_def abs_le_iff)
  obtain u where u: "uint q = u" "0 \<le> u" "u \<le> 2 ^ 32 - 1" using uint_qty_bound [of q] by blast
  show "int128 (leg s Side_buy (uint q))" "int128 (leg s Side_sell (uint q))"
    unfolding u(1) using b u(2,3) by (simp_all add: leg_def int128_def kInt64Max_def abs_le_iff)
qed

section \<open>The properties of the risk engine\<close>

text \<open>
  Claim C19: for any sequence of calls whose prices fit their 64 bits, the running totals are exact:
  realized and unrealized PnL, gross exposure and the number of working orders equal the sums over
  the instruments, with each instrument's unrealized PnL and worst-case exposure up to date.
\<close>

theorem risk_totals_exact:
  fixes lim :: Limits and n :: nat and ops :: "risk_op list"
  assumes "\<forall>op \<in> set ops. risk_op_int64 op"
  defines "re \<equiv> risk_run ops (RiskEngine_new lim n)"
  shows "re_realized_total re = (\<Sum>s\<leftarrow>re_slots re. ps_realized (rs_pos s)) \<and>
    re_unrealized_total re = (\<Sum>s\<leftarrow>re_slots re. slot_unrealized s) \<and>
    re_gross re = (\<Sum>s\<leftarrow>re_slots re. slot_exposure s) \<and>
    unat (re_open_orders re) = (\<Sum>s\<leftarrow>re_slots re. unat (rs_open_count s Side_buy) + unat (rs_open_count s Side_sell))"
proof -
  have inv: "risk_inv re" unfolding re_def using assms(1) by (intro risk_run_inv RiskEngine_new_inv)
  have "(\<Sum>s\<leftarrow>re_slots re. rs_unrealized s) = (\<Sum>s\<leftarrow>re_slots re. slot_unrealized s)"
    "(\<Sum>s\<leftarrow>re_slots re. rs_exposure s) = (\<Sum>s\<leftarrow>re_slots re. slot_exposure s)"
    using inv by (auto simp: risk_inv_def slot_ok_def intro!: arg_cong [of _ _ sum_list])
  then show ?thesis using inv by (simp add: risk_inv_def slot_count_def [abs_def])
qed

definition sample_limits :: Limits where
  "sample_limits = \<lparr>lm_max_order_qty = 100, lm_max_order_notional = 0, lm_max_position = 500, lm_max_gross_position = 0,
     lm_price_band_bps = 0, lm_require_reference = False, lm_max_orders_per_second = 2, lm_max_open_orders = 0, lm_max_loss = 50\<rparr>"

theorem risk_totals_exact_witness:
  "re_gross (risk_run [RO_open 1 Side_buy 10, RO_fill 1 Side_buy 4 100] (RiskEngine_new sample_limits 3)) =
    (\<Sum>s\<leftarrow>re_slots (risk_run [RO_open 1 Side_buy 10, RO_fill 1 Side_buy 4 100] (RiskEngine_new sample_limits 3)). slot_exposure s)"
  using risk_totals_exact [of "[RO_open 1 Side_buy 10, RO_fill 1 Side_buy 4 100]" sample_limits 3]
  by (simp add: int64_def)

text \<open>
  Claim C17: the rate window is exact. After any sequence of calls, with a limit of \<open>N\<close> orders per
  second that is enabled and fits the ring, the window has room at time \<open>now\<close> exactly when fewer
  than \<open>N\<close> of the admissions recorded so far lie less than one second back (or ahead, when time
  stepped back); rejected orders do not count.
\<close>

theorem rate_window_exact:
  fixes lim :: Limits and n :: nat and ops :: "risk_op list"
  assumes "unat (lm_max_orders_per_second lim) = N" "0 < N" "N \<le> kMaxRateRing"
  defines "H \<equiv> running_max 0 (admissions ops (RiskEngine_new lim n))"
  shows "rate_has_room (risk_run ops (RiskEngine_new lim n)) now \<longleftrightarrow>
    card {j. j < length H \<and> unat now < unat (H ! j) + 10 ^ 9} < N"
proof -
  have "ring_holds N ([] @ running_max (re_rate_latest (RiskEngine_new lim n)) (admissions ops (RiskEngine_new lim n)))
      (risk_run ops (RiskEngine_new lim n))"
    by (rule risk_run_ring [OF new_ring [OF assms(1-3)] assms(2)])
  moreover have "re_rate_latest (RiskEngine_new lim n) = 0" by (simp add: RiskEngine_new_def)
  ultimately show ?thesis using rate_has_room_count [OF _ assms(2)] by (simp add: H_def)
qed

theorem rate_window_exact_witness:
  "rate_has_room (risk_run [RO_admit 5, RO_admit 9] (RiskEngine_new sample_limits 3)) 7 \<longleftrightarrow>
    card {j. j < length (running_max 0 [5, 9]) \<and> unat (7 :: Nanos) < unat (running_max 0 [5, 9] ! j) + 10 ^ 9} < 2"
  using rate_window_exact [of sample_limits 2 "[RO_admit 5, RO_admit 9]" 3 7]
  by (simp add: sample_limits_def kMaxRateRing_def)

text \<open>
  Claim C6: the position limit is a safety property. As long as quantity is added to an instrument
  only on the verdict \<^verbatim>\<open>none\<close> and fills consume working quantity, no sequence of submits, amends,
  fills, cancels, marks and calls for other instruments takes its absolute position beyond
  \<^verbatim>\<open>max_position\<close>, nor its worst case including every working order of one side.
\<close>

theorem position_limit_safe:
  assumes "(protocol l)\<^sup>*\<^sup>* (RiskEngine_new lim n) re" "0 \<le> lm_max_position lim" "lm_max_position lim < 2 ^ 62"
  shows "\<bar>ps_qty (position re l)\<bar> \<le> lm_max_position lim \<and>
    ps_qty (position re l) + open_qty re l Side_buy \<le> lm_max_position lim \<and>
    - lm_max_position lim \<le> ps_qty (position re l) - open_qty re l Side_sell"
proof -
  have "risk_inv re \<and> within (lm_max_position lim) re l \<and> re_limits re = lim"
    using assms(1)
  proof (induction rule: rtranclp_induct)
    case base
    have "within (lm_max_position lim) (RiskEngine_new lim n) l"
      using assms(2)
      by (simp add: within_def Let_def position_def open_qty_def slot_at_def RiskEngine_new_def RSlot_new_def kFlat_def)
    then show ?case using RiskEngine_new_inv by (simp add: RiskEngine_new_def)
  next
    case (step y z)
    then show ?case using protocol_within [OF step(2), of "lm_max_position lim"] assms(3) by simp
  qed
  then show ?thesis using within_pos [of "lm_max_position lim" re l] by (auto simp: within_def Let_def)
qed

theorem position_limit_safe_witness:
  "\<bar>ps_qty (position (on_order_reduce (RiskEngine_new sample_limits 3) 1 Side_buy 4) 1)\<bar> \<le> lm_max_position sample_limits"
proof -
  have "(protocol 1)\<^sup>*\<^sup>* (RiskEngine_new sample_limits 3) (on_order_reduce (RiskEngine_new sample_limits 3) 1 Side_buy 4)"
    by (rule r_into_rtranclp, rule protocol_reduce)
  from position_limit_safe [OF this] show ?thesis by (simp add: sample_limits_def)
qed

text \<open>
  Claim C35: drawdown and loss limit. After any sequence of calls, \<^verbatim>\<open>max_drawdown\<close> is the largest
  fall from one sample of total PnL to a later one, starting from 0; and with a loss limit enabled
  and the switch never set by hand, the kill switch is tripped exactly when some sample reached the
  limit, from which point every new order is refused with \<^verbatim>\<open>kill_switch\<close>.
\<close>

theorem drawdown_and_loss_limit:
  fixes lim :: Limits and n :: nat and ops :: "risk_op list"
  assumes "\<forall>op \<in> set ops. \<forall>b. op \<noteq> RO_kill b" "0 < lm_max_loss lim"
  defines "re \<equiv> risk_run ops (RiskEngine_new lim n)"
  defines "xs \<equiv> 0 # samples ops (RiskEngine_new lim n)"
  shows "(\<forall>i j. i \<le> j \<and> j < length xs \<longrightarrow> xs ! i - xs ! j \<le> re_max_drawdown re) \<and>
    (\<exists>i j. i \<le> j \<and> j < length xs \<and> xs ! i - xs ! j = re_max_drawdown re) \<and>
    (re_kill_switch re \<longleftrightarrow> (\<exists>x \<in> set xs. x \<le> - lm_max_loss lim)) \<and>
    (re_kill_switch re \<longrightarrow> evaluate re l side price qty ref now = Rj_kill_switch)"
proof -
  have "tracks [0] (RiskEngine_new lim n)" by (simp add: tracks_def RiskEngine_new_def)
  from tracks_run [OF this, of ops] have t: "tracks xs re" by (simp add: xs_def re_def)
  have "re_kill_switch re \<longleftrightarrow> (\<exists>x \<in> set xs. x \<le> - lm_max_loss lim)"
    using kill_run [OF assms(1), of "RiskEngine_new lim n"] assms(2) by (simp add: re_def xs_def RiskEngine_new_def)
  moreover have "re_kill_switch re \<longrightarrow> evaluate re l side price qty ref now = Rj_kill_switch"
    by (simp add: evaluate_def assess_def Let_def)
  ultimately show ?thesis using t by (auto simp: tracks_def)
qed

theorem drawdown_and_loss_limit_witness:
  "re_kill_switch (risk_run [RO_mark 1 5] (RiskEngine_new sample_limits 3)) \<longleftrightarrow>
    (\<exists>x \<in> set (0 # samples [RO_mark 1 5] (RiskEngine_new sample_limits 3)). x \<le> - lm_max_loss sample_limits)"
  using drawdown_and_loss_limit [of "[RO_mark 1 5]" sample_limits 3] by (simp add: sample_limits_def)

end
