(* ===== verification/Risk_Checked.thy ===== *)
theory Risk_Checked
  imports Risk_Engine "HOL-Library.Monad_Syntax"
begin

text \<open>
  The arithmetic of \<^verbatim>\<open>src/include/optitrade/risk/risk_engine.hpp\<close> at its widths. Every operation of the
  risk engine is given a second time as a checked execution in the option monad: each signed sum,
  difference, negation, product and quotient of the source, in the order and under the conditions
  the source evaluates it, is computed and must fit the type it is computed in (128 bits for
  \<^verbatim>\<open>Int128\<close>, 64 bits for the direct \<^verbatim>\<open>int64_t\<close> operations); the first that does not makes the whole
  call \<^term>\<open>None\<close>. The theory shows that no call sequence reaches \<^term>\<open>None\<close>: the checked execution
  returns exactly what the operations of \<^verbatim>\<open>Risk_Engine\<close>, whose integers are unbounded, return.
\<close>

section \<open>Checked signed arithmetic\<close>

definition i64 :: "int \<Rightarrow> int option" where
  "i64 v = (if int64 v then Some v else None)"

definition i128 :: "int \<Rightarrow> int option" where
  "i128 v = (if int128 v then Some v else None)"

definition magnitude_ck :: "int \<Rightarrow> int option" where
  "magnitude_ck v = (if v < 0 then i128 (- v) else Some v)"

definition leg_ck :: "RSlot \<Rightarrow> Side \<Rightarrow> int \<Rightarrow> int option" where
  "leg_ck s side extra =
     (if side = Side_buy then do { a \<leftarrow> i128 (ps_qty (rs_pos s) + rs_open s side); i128 (a + extra) }
      else do { a \<leftarrow> i128 (ps_qty (rs_pos s) - rs_open s side); i128 (a - extra) })"

section \<open>The verdict\<close>

text \<open>The notional, exposure and price-band steps of \<^verbatim>\<open>assess\<close>, each with the verdict it gives.\<close>

definition notional_ck :: "Limits \<Rightarrow> Price \<Rightarrow> Qty \<Rightarrow> Reject option" where
  "notional_ck lim price qty =
     (if lm_max_order_notional lim > 0
      then do { v \<leftarrow> i128 (price * uint qty); Some (if v > lm_max_order_notional lim then Rj_order_notional else Rj_none) }
      else Some Rj_none)"

definition gross_ck :: "RiskEngine \<Rightarrow> RSlot \<Rightarrow> Side \<Rightarrow> int \<Rightarrow> Reject option" where
  "gross_ck re s side same_leg =
     (if lm_max_gross_position (re_limits re) > 0
      then do {
        other \<leftarrow> leg_ck s (opposite side) 0;
        other_leg \<leftarrow> magnitude_ck other;
        rest \<leftarrow> i128 (re_gross re - rs_exposure s);
        gross_after \<leftarrow> i128 (rest + max same_leg other_leg);
        Some (if gross_after > lm_max_gross_position (re_limits re) \<and> gross_after > re_gross re
              then Rj_gross_position else Rj_none) }
      else Some Rj_none)"

definition exposure_ck :: "RiskEngine \<Rightarrow> RSlot \<Rightarrow> Side \<Rightarrow> Qty \<Rightarrow> Reject option" where
  "exposure_ck re s side add =
     (if add = 0 then Some Rj_none
      else do {
        same \<leftarrow> leg_ck s side (uint add);
        same_leg \<leftarrow> magnitude_ck same;
        over \<leftarrow> (if same_leg > lm_max_position (re_limits re)
                then do { held \<leftarrow> magnitude_ck (ps_qty (rs_pos s)); Some (same_leg > held) }
                else Some False);
        if over then Some Rj_position else gross_ck re s side same_leg })"

definition band_ck :: "Limits \<Rightarrow> Price \<Rightarrow> Price \<Rightarrow> Reject option" where
  "band_ck lim price reference =
     (if lm_price_band_bps lim = 0 then Some Rj_none
      else if reference \<le> 0 then Some (if lm_require_reference lim then Rj_no_reference else Rj_none)
      else do {
        diff \<leftarrow> i128 (price - reference);
        dist \<leftarrow> magnitude_ck diff;
        lhs \<leftarrow> i128 (dist * kBasisPoints);
        rhs \<leftarrow> i128 (reference * uint (lm_price_band_bps lim));
        Some (if lhs > rhs then Rj_price_band else Rj_none) })"

text \<open>The first step that refuses decides; the later ones are not evaluated.\<close>

definition or_verdict :: "Reject option \<Rightarrow> Reject option \<Rightarrow> Reject option" where
  "or_verdict r later = do { v \<leftarrow> r; if v \<noteq> Rj_none then Some v else later }"

definition assess_ck ::
  "RiskEngine \<Rightarrow> Locate \<Rightarrow> Side \<Rightarrow> Price \<Rightarrow> Qty \<Rightarrow> Qty \<Rightarrow> bool \<Rightarrow> Price \<Rightarrow> Nanos \<Rightarrow> Reject option" where
  "assess_ck re locate side price qty add replacing reference now =
     (let lim = re_limits re;
          adds = (\<not> replacing \<or> add \<noteq> 0) in
      if re_kill_switch re \<and> adds then Some Rj_kill_switch
      else if unat locate \<ge> length (re_slots re) \<or> \<not> valid side \<or> qty = 0 \<or> price \<le> 0 then Some Rj_invalid_order
      else if qty > lm_max_order_qty lim then Some Rj_order_qty
      else
        or_verdict (notional_ck lim price qty)
          (or_verdict (exposure_ck re (re_slots re ! unat locate) side add)
            (or_verdict (band_ck lim price reference)
              (Some (if adds \<and> \<not> rate_has_room re now then Rj_rate_limit
                     else if \<not> replacing \<and> lm_max_open_orders lim \<noteq> 0 \<and>
                             re_open_orders re \<ge> ucast (lm_max_open_orders lim) then Rj_open_orders
                     else Rj_none)))))"

section \<open>Bookkeeping\<close>

definition unrealized_ck :: "RSlot \<Rightarrow> int option" where
  "unrealized_ck s =
     (if rs_mark s > 0 \<and> ps_qty (rs_pos s) \<noteq> 0
      then do { d \<leftarrow> i128 (rs_mark s - ps_avg_price (rs_pos s)); v \<leftarrow> i128 (d * ps_qty (rs_pos s)); Some (clamp64 v) }
      else Some 0)"

definition refresh_ck :: "RiskEngine \<Rightarrow> Locate \<Rightarrow> RSlot \<Rightarrow> RiskEngine option" where
  "refresh_ck re l s = do {
     u \<leftarrow> unrealized_ck s;
     du \<leftarrow> i128 (u - rs_unrealized s);
     total \<leftarrow> i128 (re_unrealized_total re + du);
     buys \<leftarrow> leg_ck s Side_buy 0;
     buys \<leftarrow> magnitude_ck buys;
     sells \<leftarrow> leg_ck s Side_sell 0;
     sells \<leftarrow> magnitude_ck sells;
     e \<leftarrow> Some (clamp64 (max buys sells));
     de \<leftarrow> i128 (e - rs_exposure s);
     gross \<leftarrow> i128 (re_gross re + de);
     Some (re\<lparr>re_unrealized_total := total, re_gross := gross,
              re_slots := (re_slots re)[unat l := s\<lparr>rs_unrealized := u, rs_exposure := e\<rparr>]\<rparr>) }"

definition settle_ck :: "RiskEngine \<Rightarrow> RiskEngine option" where
  "settle_ck re = do {
     total \<leftarrow> i128 (re_realized_total re + re_unrealized_total re);
     fall \<leftarrow> i128 (max (re_peak_pnl re) total - total);
     lost \<leftarrow> (if lm_max_loss (re_limits re) > 0
             then do { floor \<leftarrow> i128 (- lm_max_loss (re_limits re)); Some (total \<le> floor) } else Some False);
     Some (re\<lparr>re_peak_pnl := max (re_peak_pnl re) total, re_max_drawdown := max (re_max_drawdown re) fall,
              re_kill_switch := (if lost then True else re_kill_switch re)\<rparr>) }"

text \<open>\<^verbatim>\<open>open[i]\<close> grows in 128 bits and is clamped; it shrinks in 64 bits.\<close>

definition open_grow_ck :: "RSlot \<Rightarrow> Side \<Rightarrow> Qty \<Rightarrow> RSlot option" where
  "open_grow_ck s side qty = do {
     v \<leftarrow> i128 (rs_open s side + uint qty);
     Some (s\<lparr>rs_open := (rs_open s)(side := clamp64 v)\<rparr>) }"

definition open_release_ck :: "RSlot \<Rightarrow> Side \<Rightarrow> Qty \<Rightarrow> RSlot option" where
  "open_release_ck s side qty = do {
     v \<leftarrow> i64 (rs_open s side - min (uint qty) (rs_open s side));
     Some (s\<lparr>rs_open := (rs_open s)(side := v)\<rparr>) }"

definition on_order_open_ck :: "RiskEngine \<Rightarrow> Locate \<Rightarrow> Side \<Rightarrow> Qty \<Rightarrow> RiskEngine option" where
  "on_order_open_ck re locate side qty =
     (case slot_at re locate of
        None \<Rightarrow> Some re
      | Some s \<Rightarrow>
          if \<not> valid side \<or> qty = 0 then Some re
          else do {
            s \<leftarrow> open_grow_ck s side qty;
            if rs_open_count s side \<noteq> - 1
            then refresh_ck (re\<lparr>re_open_orders := re_open_orders re + 1\<rparr>) locate
                   (s\<lparr>rs_open_count := (rs_open_count s)(side := rs_open_count s side + 1)\<rparr>)
            else refresh_ck re locate s })"

definition on_order_grow_ck :: "RiskEngine \<Rightarrow> Locate \<Rightarrow> Side \<Rightarrow> Qty \<Rightarrow> RiskEngine option" where
  "on_order_grow_ck re locate side qty =
     (case slot_at re locate of
        None \<Rightarrow> Some re
      | Some s \<Rightarrow>
          if \<not> valid side \<or> qty = 0 then Some re
          else do { s \<leftarrow> open_grow_ck s side qty; refresh_ck re locate s })"

definition on_order_reduce_ck :: "RiskEngine \<Rightarrow> Locate \<Rightarrow> Side \<Rightarrow> Qty \<Rightarrow> RiskEngine option" where
  "on_order_reduce_ck re locate side qty =
     (case slot_at re locate of
        None \<Rightarrow> Some re
      | Some s \<Rightarrow>
          if \<not> valid side then Some re
          else do { s \<leftarrow> open_release_ck s side qty; refresh_ck re locate s })"

definition on_order_end_ck :: "RiskEngine \<Rightarrow> Locate \<Rightarrow> Side \<Rightarrow> Qty \<Rightarrow> RiskEngine option" where
  "on_order_end_ck re locate side remaining =
     (case slot_at re locate of
        None \<Rightarrow> Some re
      | Some s \<Rightarrow>
          if \<not> valid side then Some re
          else do {
            s \<leftarrow> open_release_ck s side remaining;
            if rs_open_count s side \<noteq> 0
            then refresh_ck (re\<lparr>re_open_orders := re_open_orders re - 1\<rparr>) locate
                   (s\<lparr>rs_open_count := (rs_open_count s)(side := rs_open_count s side - 1)\<rparr>)
            else refresh_ck re locate s })"

definition on_order_closed_ck :: "RiskEngine \<Rightarrow> Locate \<Rightarrow> Side \<Rightarrow> Qty \<Rightarrow> RiskEngine option" where
  "on_order_closed_ck re locate side remaining =
     (case slot_at re locate of
        None \<Rightarrow> Some re
      | Some s \<Rightarrow>
          if \<not> valid side then Some re
          else do {
            s \<leftarrow> open_release_ck s side remaining;
            let cap = (if rs_open s side \<ge> 2 ^ 32 - 1 then - 1 else word_of_int (rs_open s side)) :: u32;
                kept = min (rs_open_count s side) cap in
            refresh_ck (re\<lparr>re_open_orders := re_open_orders re - ucast (rs_open_count s side - kept)\<rparr>) locate
              (s\<lparr>rs_open_count := (rs_open_count s)(side := kept)\<rparr>) })"

text \<open>The quotient is narrowed to \<^verbatim>\<open>Price\<close>; a zero divisor has no result.\<close>

definition average_ck :: "Price \<Rightarrow> int \<Rightarrow> Price \<Rightarrow> int \<Rightarrow> Price option" where
  "average_ck avg held price fill = do {
     a \<leftarrow> i128 (avg * held);
     b \<leftarrow> i128 (price * fill);
     num \<leftarrow> i128 (a + b);
     den \<leftarrow> i128 (held + fill);
     if den = 0 then None else i64 (num sdiv den) }"

definition fill_position_ck :: "Position \<Rightarrow> Side \<Rightarrow> Qty \<Rightarrow> Price \<Rightarrow> Position option" where
  "fill_position_ck p side qty price = do {
     held \<leftarrow> magnitude_ck (ps_qty p);
     signed \<leftarrow> (if side = Side_buy then Some (uint qty) else i128 (- uint qty));
     after \<leftarrow> i128 (ps_qty p + signed);
     if ps_qty p = 0 \<or> (ps_qty p > 0) = (side = Side_buy) then do {
       avg \<leftarrow> average_ck (ps_avg_price p) held price (uint qty);
       realized \<leftarrow> i128 (ps_realized p + 0);
       Some \<lparr>ps_qty = clamp64 after, ps_avg_price = avg, ps_realized = clamp64 realized\<rparr> }
     else do {
       diff \<leftarrow> (if ps_qty p > 0 then i128 (price - ps_avg_price p) else i128 (ps_avg_price p - price));
       gain \<leftarrow> i128 (diff * min held (uint qty));
       realized \<leftarrow> i128 (ps_realized p + gain);
       Some \<lparr>ps_qty = clamp64 after,
             ps_avg_price = (if after = 0 then 0 else if (after > 0) \<noteq> (ps_qty p > 0) then price else ps_avg_price p),
             ps_realized = clamp64 realized\<rparr> } }"

definition on_fill_ck :: "RiskEngine \<Rightarrow> Locate \<Rightarrow> Side \<Rightarrow> Qty \<Rightarrow> Price \<Rightarrow> RiskEngine option" where
  "on_fill_ck re locate side qty price =
     (case slot_at re locate of
        None \<Rightarrow> Some re
      | Some s \<Rightarrow>
          if \<not> valid side \<or> qty = 0 \<or> price \<le> 0 then Some re
          else do {
            p \<leftarrow> fill_position_ck (rs_pos s) side qty price;
            delta \<leftarrow> i128 (ps_realized p - ps_realized (rs_pos s));
            total \<leftarrow> i128 (re_realized_total re + delta);
            re \<leftarrow> refresh_ck (re\<lparr>re_realized_total := total\<rparr>) locate (s\<lparr>rs_pos := p\<rparr>);
            settle_ck re })"

definition mark_ck :: "RiskEngine \<Rightarrow> Locate \<Rightarrow> Price \<Rightarrow> RiskEngine option" where
  "mark_ck re locate mark_price =
     (case slot_at re locate of
        None \<Rightarrow> Some re
      | Some s \<Rightarrow>
          if mark_price \<le> 0 then Some re
          else do { re \<leftarrow> refresh_ck re locate (s\<lparr>rs_mark := mark_price\<rparr>); settle_ck re })"

definition total_pnl_ck :: "RiskEngine \<Rightarrow> int option" where
  "total_pnl_ck re = do { total \<leftarrow> i128 (re_realized_total re + re_unrealized_total re); Some (clamp64 total) }"

section \<open>Checked call sequences\<close>

fun risk_step_ck :: "risk_op \<Rightarrow> RiskEngine \<Rightarrow> RiskEngine option" where
  "risk_step_ck (RO_open l s q) re = on_order_open_ck re l s q"
| "risk_step_ck (RO_grow l s q) re = on_order_grow_ck re l s q"
| "risk_step_ck (RO_reduce l s q) re = on_order_reduce_ck re l s q"
| "risk_step_ck (RO_end l s q) re = on_order_end_ck re l s q"
| "risk_step_ck (RO_closed l s q) re = on_order_closed_ck re l s q"
| "risk_step_ck (RO_fill l s q p) re = on_fill_ck re l s q p"
| "risk_step_ck (RO_mark l p) re = mark_ck re l p"
| "risk_step_ck (RO_kill b) re = Some (set_kill_switch re b)"
| "risk_step_ck (RO_check l s p q r t) re =
     do { v \<leftarrow> assess_ck re l s p q q False r t; Some (if v = Rj_none then admit re t else re) }"
| "risk_step_ck (RO_admit t) re = Some (admit re t)"

primrec risk_run_ck :: "risk_op list \<Rightarrow> RiskEngine \<Rightarrow> RiskEngine option" where
  "risk_run_ck [] re = Some re"
| "risk_run_ck (op # ops) re = do { re \<leftarrow> risk_step_ck op re; risk_run_ck ops re }"

text \<open>The typing of the calls and the limits: every price and every signed limit is an \<^verbatim>\<open>int64_t\<close>.\<close>

fun call_int64 :: "risk_op \<Rightarrow> bool" where
  "call_int64 (RO_fill l s q p) = int64 p"
| "call_int64 (RO_mark l p) = int64 p"
| "call_int64 (RO_check l s p q r t) = (int64 p \<and> int64 r)"
| "call_int64 _ = True"

definition limits_int64 :: "Limits \<Rightarrow> bool" where
  "limits_int64 lim = (int64 (lm_max_order_notional lim) \<and> int64 (lm_max_position lim) \<and>
     int64 (lm_max_gross_position lim) \<and> int64 (lm_max_loss lim))"

text \<open>The state a call starts from: the invariant, and a peak PnL that is a sample of the total.\<close>

definition risk_safe :: "RiskEngine \<Rightarrow> bool" where
  "risk_safe re = (risk_inv re \<and> \<bar>re_peak_pnl re\<bar> \<le> kPnlBound \<and> 0 \<le> re_max_drawdown re \<and>
     re_max_drawdown re \<le> 2 * kPnlBound \<and> limits_int64 (re_limits re))"

section \<open>No checked operation leaves its width\<close>

lemma i128_fits: "\<bar>v\<bar> \<le> 2 ^ 127 - 1 \<Longrightarrow> i128 v = Some v"
  by (simp add: i128_def int128_def abs_le_iff)

lemma i128_int128: "int128 v \<Longrightarrow> i128 v = Some v"
  by (simp add: i128_def)

lemma i64_fits: "\<bar>v\<bar> \<le> kInt64Max \<Longrightarrow> i64 v = Some v"
  by (simp add: i64_def int64_def kInt64Max_def abs_le_iff)

lemma magnitude_fits: "\<bar>v\<bar> \<le> 2 ^ 127 - 1 \<Longrightarrow> magnitude_ck v = Some \<bar>v\<bar>"
  by (simp add: magnitude_ck_def i128_fits)

lemma or_verdict_simps [simp]:
  "or_verdict (Some Rj_none) later = later"
  "r \<noteq> Rj_none \<Longrightarrow> or_verdict (if b then Some r else v) later = (if b then Some r else or_verdict v later)"
  by (simp_all add: or_verdict_def)

lemma slot_core_bounds:
  assumes "slot_core s"
  shows "\<bar>ps_qty (rs_pos s)\<bar> \<le> kInt64Max" "0 \<le> ps_avg_price (rs_pos s)" "ps_avg_price (rs_pos s) \<le> kInt64Max"
    "\<bar>ps_realized (rs_pos s)\<bar> \<le> kInt64Max" "0 \<le> rs_mark s" "rs_mark s \<le> kInt64Max"
    "0 \<le> rs_open s d" "rs_open s d \<le> kInt64Max"
  using assms by (auto simp: slot_core_def pos_ok_def)

lemma leg_bound:
  assumes "slot_core s" "0 \<le> e" "e \<le> 2 ^ 32"
  shows "\<bar>leg s side e\<bar> \<le> 2 * kInt64Max + 2 ^ 32"
  using slot_core_bounds(1) [OF assms(1)] slot_core_bounds(7,8) [OF assms(1), of side] assms(2,3)
  by (cases "side = Side_buy") (simp_all add: leg_def abs_le_iff)

lemma leg_ck_Some:
  assumes "slot_core s" "0 \<le> e" "e \<le> 2 ^ 32"
  shows "leg_ck s side e = Some (leg s side e)"
  using slot_core_bounds(1) [OF assms(1)] slot_core_bounds(7,8) [OF assms(1), of side] assms(2,3)
  by (cases "side = Side_buy") (simp_all add: leg_ck_def leg_def i128_def int128_def kInt64Max_def abs_le_iff)

lemma leg_magnitude_Some:
  assumes "slot_core s" "0 \<le> e" "e \<le> 2 ^ 32"
  shows "magnitude_ck (leg s side e) = Some \<bar>leg s side e\<bar>"
  using leg_bound [OF assms, of side] by (intro magnitude_fits) (simp add: kInt64Max_def)

lemma qty_le: "uint (q :: Qty) \<le> 2 ^ 32"
  using uint_qty_bound(2) [of q] by simp

lemma notional_ck_Some:
  assumes "0 < price" "int64 price"
  shows "notional_ck lim price qty =
    Some (if lm_max_order_notional lim > 0 \<and> price * uint qty > lm_max_order_notional lim then Rj_order_notional else Rj_none)"
proof -
  have "\<bar>price * uint qty\<bar> \<le> kInt64Max * (2 ^ 32 - 1)"
    using assms int64_le_max [OF assms(2)] uint_qty_bound [of qty] by (intro product_bound) simp_all
  then have "i128 (price * uint qty) = Some (price * uint qty)" by (intro i128_fits) (simp add: kInt64Max_def)
  then show ?thesis by (simp add: notional_ck_def)
qed

lemma exposure_range: "slot_ok s \<Longrightarrow> 0 \<le> rs_exposure s \<and> rs_exposure s \<le> kInt64Max"
  using clamp64_bounds [of "max (magnitude (leg s Side_buy 0)) (magnitude (leg s Side_sell 0))"]
  by (auto simp: slot_ok_def slot_exposure_def)

lemma gross_ck_Some:
  fixes re :: RiskEngine and s :: RSlot and side :: Side and same :: int
  assumes "risk_inv re" "slot_ok s" "0 \<le> same" "same \<le> 2 * kInt64Max + 2 ^ 32"
  defines "after \<equiv> re_gross re - rs_exposure s + max same \<bar>leg s (opposite side) 0\<bar>"
  shows "gross_ck re s side same =
    Some (if lm_max_gross_position (re_limits re) > 0 \<and> after > lm_max_gross_position (re_limits re) \<and> after > re_gross re
          then Rj_gross_position else Rj_none)"
proof -
  have core: "slot_core s" using assms(2) by (simp add: slot_ok_def)
  note g = totals_bounds(3,4) [OF assms(1)] exposure_range [OF assms(2)]
  have "i128 (re_gross re - rs_exposure s) = Some (re_gross re - rs_exposure s)"
    using g by (intro i128_fits) (simp add: kInt64Max_def abs_le_iff)
  moreover obtain m where m: "max same \<bar>leg s (opposite side) 0\<bar> = m" "0 \<le> m" "m \<le> 2 * kInt64Max + 2 ^ 32"
    using assms(3,4) leg_bound [OF core, of 0 "opposite side"] by simp
  then have "i128 (re_gross re - rs_exposure s + m) = Some after"
    unfolding after_def m(1) using g by (intro i128_fits) (simp add: kInt64Max_def abs_le_iff)
  ultimately show ?thesis
    by (simp add: gross_ck_def leg_ck_Some [OF core] leg_magnitude_Some [OF core] m(1))
qed

lemma exposure_ck_Some:
  fixes re :: RiskEngine and s :: RSlot and side :: Side and add :: Qty
  assumes "risk_inv re" "slot_ok s"
  defines "same \<equiv> \<bar>leg s side (uint add)\<bar>"
  defines "after \<equiv> re_gross re - rs_exposure s + max same \<bar>leg s (opposite side) 0\<bar>"
  shows "exposure_ck re s side add = Some
    (if add \<noteq> 0 \<and> same > lm_max_position (re_limits re) \<and> same > \<bar>ps_qty (rs_pos s)\<bar> then Rj_position
     else if add \<noteq> 0 \<and> lm_max_gross_position (re_limits re) > 0 \<and> after > lm_max_gross_position (re_limits re) \<and>
             after > re_gross re then Rj_gross_position
     else Rj_none)"
proof -
  have core: "slot_core s" using assms(2) by (simp add: slot_ok_def)
  have "magnitude_ck (ps_qty (rs_pos s)) = Some \<bar>ps_qty (rs_pos s)\<bar>"
    using slot_core_bounds(1) [OF core] by (intro magnitude_fits) (simp add: kInt64Max_def)
  moreover have "same \<le> 2 * kInt64Max + 2 ^ 32" "0 \<le> same"
    unfolding same_def using leg_bound [OF core _ qty_le] by simp_all
  note gross = gross_ck_Some [OF assms(1,2) this(2,1), of side, folded after_def]
  ultimately show ?thesis
    by (simp add: exposure_ck_def leg_ck_Some [OF core _ qty_le] leg_magnitude_Some [OF core _ qty_le] gross
        flip: same_def)
qed

lemma band_ck_Some:
  assumes "0 < price" "int64 price" "int64 reference"
  shows "band_ck lim price reference = Some
    (if lm_price_band_bps lim \<noteq> 0 \<and> reference \<le> 0 \<and> lm_require_reference lim then Rj_no_reference
     else if lm_price_band_bps lim \<noteq> 0 \<and> \<not> reference \<le> 0 \<and>
             \<bar>price - reference\<bar> * kBasisPoints > reference * uint (lm_price_band_bps lim) then Rj_price_band
     else Rj_none)"
proof (cases "0 < reference")
  case True
  note p = assms(1) int64_le_max [OF assms(2)] int64_le_max [OF assms(3)]
  have d: "\<bar>price - reference\<bar> \<le> kInt64Max" using p True by auto
  have "\<bar>reference * uint (lm_price_band_bps lim)\<bar> \<le> kInt64Max * (2 ^ 32 - 1)"
    using p True uint_qty_bound [of "lm_price_band_bps lim"] by (intro product_bound) simp_all
  then have rhs: "i128 (reference * uint (lm_price_band_bps lim)) = Some (reference * uint (lm_price_band_bps lim))"
    by (intro i128_fits) (simp add: kInt64Max_def)
  have lhs: "i128 (price - reference) = Some (price - reference)"
    "magnitude_ck (price - reference) = Some \<bar>price - reference\<bar>"
    "i128 (\<bar>price - reference\<bar> * kBasisPoints) = Some (\<bar>price - reference\<bar> * kBasisPoints)"
    using d by (simp_all add: i128_fits magnitude_fits kInt64Max_def kBasisPoints_def abs_mult)
  show ?thesis using True by (simp add: band_ck_def lhs rhs)
qed (simp add: band_ck_def)

lemma assess_ck_Some:
  assumes "risk_inv re" "int64 price" "int64 reference"
  shows "assess_ck re l side price qty add replacing reference now = Some (assess re l side price qty add replacing reference now)"
proof (cases "unat l \<ge> length (re_slots re) \<or> \<not> valid side \<or> qty = 0 \<or> price \<le> 0")
  case False
  then have "slot_ok (re_slots re ! unat l)" "0 < price" using assms(1) by (auto simp: risk_inv_def)
  note steps = notional_ck_Some [OF this(2) assms(2)] exposure_ck_Some [OF assms(1) this(1)]
    band_ck_Some [OF this(2) assms(2,3)]
  show ?thesis using False
    by (simp add: assess_ck_def assess_def Let_def steps if_distrib [of Some] cong: if_cong split del: if_split)
qed (auto simp: assess_ck_def assess_def Let_def)

section \<open>No bookkeeping operation leaves its width\<close>

lemma unrealized_range: "slot_ok s \<Longrightarrow> \<bar>rs_unrealized s\<bar> \<le> kInt64Max"
  using clamp64_bounds(1) [of "(rs_mark s - ps_avg_price (rs_pos s)) * ps_qty (rs_pos s)"]
  by (auto simp: slot_ok_def slot_unrealized_def)

lemma unrealized_ck_Some:
  assumes "slot_core s"
  shows "unrealized_ck s = Some (slot_unrealized s)"
proof -
  have "i128 (rs_mark s - ps_avg_price (rs_pos s)) = Some (rs_mark s - ps_avg_price (rs_pos s))"
    using slot_core_bounds(2,3,5,6) [OF assms] by (intro i128_fits) (simp add: kInt64Max_def abs_le_iff)
  then show ?thesis
    using i128_int128 [OF slot_arithmetic(1) [OF assms]] by (simp add: unrealized_ck_def slot_unrealized_def)
qed

lemma refresh_ck_Some:
  assumes inv: "risk_inv re" and old: "slot_at re l = Some old" and core: "slot_core s"
    and same: "rs_unrealized s = rs_unrealized old" "rs_exposure s = rs_exposure old"
    and re': "re_unrealized_total re' = re_unrealized_total re" "re_gross re' = re_gross re"
  shows "refresh_ck re' l s = Some (refresh re' l s)"
proof -
  note ok = risk_inv_slot [OF inv old]
  note t = totals_bounds(2-4) [OF inv]
  have u: "\<bar>slot_unrealized s\<bar> \<le> kInt64Max" using clamp64_bounds(1) by (simp add: slot_unrealized_def)
  have e: "\<bar>slot_exposure s\<bar> \<le> kInt64Max" using clamp64_bounds(1) by (simp add: slot_exposure_def)
  have "i128 (slot_unrealized s - rs_unrealized old) = Some (slot_unrealized s - rs_unrealized old)"
    "i128 (re_unrealized_total re + (slot_unrealized s - rs_unrealized old)) = Some (re_unrealized_total re + (slot_unrealized s - rs_unrealized old))"
    "i128 (slot_exposure s - rs_exposure old) = Some (slot_exposure s - rs_exposure old)"
    "i128 (re_gross re + (slot_exposure s - rs_exposure old)) = Some (re_gross re + (slot_exposure s - rs_exposure old))"
    using u e unrealized_range [OF ok] exposure_range [OF ok] t
    by (simp_all add: i128_fits kInt64Max_def abs_le_iff)
  then show ?thesis
    by (simp add: refresh_ck_def refresh_def Let_def unrealized_ck_Some [OF core] leg_ck_Some [OF core]
        leg_magnitude_Some [OF core] same re' slot_exposure_def [symmetric, simplified])
qed

lemma settle_ck_Some:
  assumes "risk_inv re" "\<bar>re_peak_pnl re\<bar> \<le> kPnlBound" "int64 (lm_max_loss (re_limits re))"
  shows "settle_ck re = Some (settle re)"
proof -
  have p: "\<bar>pnl re\<bar> \<le> kPnlBound" "pnl re = re_realized_total re + re_unrealized_total re"
    using totals_bounds(5) [OF assms(1)] by (simp_all add: pnl_def)
  have "\<bar>pnl re\<bar> \<le> 2 ^ 127 - 1" using p(1) by (simp add: kPnlBound_def kInt64Max_def)
  moreover have "\<bar>max (re_peak_pnl re) (pnl re) - pnl re\<bar> \<le> 2 ^ 127 - 1"
    using p(1) assms(2) by (simp add: kPnlBound_def kInt64Max_def abs_le_iff max_def)
  ultimately have "i128 (pnl re) = Some (pnl re)"
    "i128 (max (re_peak_pnl re) (pnl re) - pnl re) = Some (max (re_peak_pnl re) (pnl re) - pnl re)"
    by (simp_all only: i128_fits)
  moreover have "i128 (- lm_max_loss (re_limits re)) = Some (- lm_max_loss (re_limits re))"
    using assms(3) by (intro i128_fits) (simp add: int64_def abs_le_iff)
  ultimately show ?thesis by (simp add: settle_ck_def settle_def Let_def flip: p(2))
qed

lemma open_grow_ck_Some:
  assumes "slot_core s"
  shows "open_grow_ck s side qty = Some (s\<lparr>rs_open := (rs_open s)(side := clamp64 (rs_open s side + uint qty))\<rparr>)"
proof -
  have "i128 (rs_open s side + uint qty) = Some (rs_open s side + uint qty)"
    using slot_core_bounds(7,8) [OF assms, of side] uint_qty_bound [of qty]
    by (intro i128_fits) (simp add: kInt64Max_def abs_le_iff)
  then show ?thesis by (simp add: open_grow_ck_def)
qed

lemma open_release_ck_Some:
  assumes "slot_core s"
  shows "open_release_ck s side qty = Some (s\<lparr>rs_open := (rs_open s)(side := rs_open s side - min (uint qty) (rs_open s side))\<rparr>)"
proof -
  have "i64 (rs_open s side - min (uint qty) (rs_open s side)) = Some (rs_open s side - min (uint qty) (rs_open s side))"
    using open_release_bounds [OF assms, of side qty] by (intro i64_fits) simp
  then show ?thesis by (simp add: open_release_ck_def)
qed

lemma order_calls_Some:
  assumes "risk_inv re"
  shows "on_order_open_ck re l side qty = Some (on_order_open re l side qty)"
    "on_order_grow_ck re l side qty = Some (on_order_grow re l side qty)"
    "on_order_reduce_ck re l side qty = Some (on_order_reduce re l side qty)"
    "on_order_end_ck re l side qty = Some (on_order_end re l side qty)"
    "on_order_closed_ck re l side qty = Some (on_order_closed re l side qty)"
proof -
  have step: "refresh_ck re' l (s\<lparr>rs_open := (rs_open s)(side := v)\<rparr>) = Some (refresh re' l (s\<lparr>rs_open := (rs_open s)(side := v)\<rparr>))"
    "refresh_ck re' l (s\<lparr>rs_open := (rs_open s)(side := v), rs_open_count := c\<rparr>) =
      Some (refresh re' l (s\<lparr>rs_open := (rs_open s)(side := v), rs_open_count := c\<rparr>))"
    if "slot_at re l = Some s" "0 \<le> v" "v \<le> kInt64Max" "re_unrealized_total re' = re_unrealized_total re" "re_gross re' = re_gross re"
    for re' s v c
    using slot_core_open [OF risk_inv_slot_core [OF assms that(1)] that(2,3)] that
    by (simp_all add: refresh_ck_Some [OF assms that(1)])
  note defs = on_order_open_ck_def on_order_open_def on_order_grow_ck_def on_order_grow_def on_order_reduce_ck_def
    on_order_reduce_def on_order_end_ck_def on_order_end_def on_order_closed_ck_def on_order_closed_def
  note core = risk_inv_slot_core [OF assms]
  show "on_order_open_ck re l side qty = Some (on_order_open re l side qty)"
    "on_order_grow_ck re l side qty = Some (on_order_grow re l side qty)"
    "on_order_reduce_ck re l side qty = Some (on_order_reduce re l side qty)"
    "on_order_end_ck re l side qty = Some (on_order_end re l side qty)"
    "on_order_closed_ck re l side qty = Some (on_order_closed re l side qty)"
    by (simp_all add: defs step core open_grow_ck_Some open_release_ck_Some open_grow_bounds open_release_bounds Let_def
        split: option.split)
qed

section \<open>Fills, marks and the runs\<close>

lemma average_ck_Some:
  assumes "pos_ok p" "0 < price" "price \<le> kInt64Max" "qty \<noteq> 0"
  defines "num \<equiv> ps_avg_price p * \<bar>ps_qty p\<bar> + price * uint (qty :: Qty)"
  shows "average_ck (ps_avg_price p) \<bar>ps_qty p\<bar> price (uint qty) = Some (num sdiv (\<bar>ps_qty p\<bar> + uint qty))"
proof -
  have q: "0 < uint qty" using assms(4) by (simp add: word_neq_0_conv word_less_def)
  have "\<bar>ps_avg_price p * \<bar>ps_qty p\<bar>\<bar> \<le> kInt64Max * kInt64Max" using assms(1) by (intro product_bound) (simp_all add: pos_ok_def)
  moreover have "\<bar>price * uint qty\<bar> \<le> kInt64Max * (2 ^ 32 - 1)"
    using assms(2,3) uint_qty_bound [of qty] by (intro product_bound) simp_all
  ultimately have "i128 (ps_avg_price p * \<bar>ps_qty p\<bar>) = Some (ps_avg_price p * \<bar>ps_qty p\<bar>)"
    "i128 (price * uint qty) = Some (price * uint qty)"
    by (simp_all add: i128_fits kInt64Max_def)
  moreover have "i128 num = Some num" unfolding num_def by (rule i128_int128 [OF fill_arithmetic(1) [OF assms(1-3)]])
  moreover have "i128 (\<bar>ps_qty p\<bar> + uint qty) = Some (\<bar>ps_qty p\<bar> + uint qty)"
    using assms(1) uint_qty_bound [of qty] by (intro i128_fits) (simp add: pos_ok_def kInt64Max_def)
  moreover have "1 \<le> num sdiv (\<bar>ps_qty p\<bar> + uint qty)" "num sdiv (\<bar>ps_qty p\<bar> + uint qty) \<le> kInt64Max"
    unfolding num_def using assms q by (intro weighted_average_bounds; simp add: pos_ok_def)+
  then have "i64 (num sdiv (\<bar>ps_qty p\<bar> + uint qty)) = Some (num sdiv (\<bar>ps_qty p\<bar> + uint qty))" by (intro i64_fits) simp
  ultimately show ?thesis using q by (simp add: average_ck_def flip: num_def)
qed

lemma fill_position_ck_Some:
  assumes "pos_ok p" "0 < price" "price \<le> kInt64Max" "qty \<noteq> 0"
  shows "fill_position_ck p side qty price = Some (fill_position p side qty price)"
proof -
  have b: "\<bar>ps_qty p\<bar> \<le> kInt64Max" "\<bar>ps_realized p\<bar> \<le> kInt64Max" "0 \<le> ps_avg_price p" "ps_avg_price p \<le> kInt64Max"
    using assms(1) by (simp_all add: pos_ok_def)
  obtain u where u: "uint qty = u" "0 \<le> u" "u \<le> 2 ^ 32 - 1" using uint_qty_bound [of qty] by blast
  have "magnitude_ck (ps_qty p) = Some \<bar>ps_qty p\<bar>" "i128 (- uint qty) = Some (- uint qty)"
    "i128 (ps_qty p + uint qty) = Some (ps_qty p + uint qty)" "i128 (ps_qty p - uint qty) = Some (ps_qty p - uint qty)"
    "i128 (ps_realized p) = Some (ps_realized p)" "i128 0 = Some 0" "i128 (uint qty) = Some (uint qty)"
    "i128 (price - ps_avg_price p) = Some (price - ps_avg_price p)" "i128 (ps_avg_price p - price) = Some (ps_avg_price p - price)"
    unfolding u(1) using b u(2,3) assms(2,3) by (simp_all add: magnitude_fits i128_fits kInt64Max_def abs_le_iff)
  moreover obtain h where h: "\<bar>ps_qty p\<bar> = h" by blast
  ultimately show ?thesis
    using average_ck_Some [OF assms] fill_arithmetic [OF assms(1-3), of qty, THEN i128_int128] unfolding h
    by (simp add: fill_position_ck_def fill_position_def Let_def h)
qed

lemma fill_realized_bounds: "pos_ok p \<Longrightarrow> \<bar>ps_realized p\<bar> \<le> kInt64Max"
  by (simp add: pos_ok_def)

lemma on_fill_ck_Some:
  assumes "risk_safe re" "int64 price"
  shows "on_fill_ck re l side qty price = Some (on_fill re l side qty price)"
proof (cases "slot_at re l")
  case (Some s)
  show ?thesis
  proof (cases "valid_side side \<and> qty \<noteq> 0 \<and> 0 < price")
    case True
    have inv: "risk_inv re" using assms(1) by (simp add: risk_safe_def)
    have core: "slot_core s" "pos_ok (rs_pos s)" using risk_inv_slot_core [OF inv Some] by (simp_all add: slot_core_def)
    note le = int64_le_max [OF assms(2)]
    let ?p = "fill_position (rs_pos s) side qty price"
    let ?re = "re\<lparr>re_realized_total := re_realized_total re + (ps_realized ?p - ps_realized (rs_pos s))\<rparr>"
    have p: "pos_ok ?p" "slot_core (s\<lparr>rs_pos := ?p\<rparr>)" using fill_position_ok core True le by (simp_all add: slot_core_def)
    have d: "i128 (ps_realized ?p - ps_realized (rs_pos s)) = Some (ps_realized ?p - ps_realized (rs_pos s))"
      "i128 (re_realized_total re + (ps_realized ?p - ps_realized (rs_pos s))) = Some (re_realized_total ?re)"
      using fill_realized_bounds [OF p(1)] fill_realized_bounds [OF core(2)] totals_bounds(1) [OF inv]
      by (simp_all add: i128_fits kInt64Max_def abs_le_iff)
    have r: "refresh_ck ?re l (s\<lparr>rs_pos := ?p\<rparr>) = Some (refresh ?re l (s\<lparr>rs_pos := ?p\<rparr>))"
      using p(2) by (intro refresh_ck_Some [OF inv Some]) simp_all
    have "risk_inv (on_fill re l side qty price)" using inv le by (rule on_fill_inv)
    then have "risk_inv (refresh ?re l (s\<lparr>rs_pos := ?p\<rparr>))" using True Some by (simp add: on_fill_def Let_def)
    then have "settle_ck (refresh ?re l (s\<lparr>rs_pos := ?p\<rparr>)) = Some (settle (refresh ?re l (s\<lparr>rs_pos := ?p\<rparr>)))"
      using assms(1) by (intro settle_ck_Some) (simp_all add: risk_safe_def limits_int64_def refresh_def Let_def)
    then show ?thesis using True Some d(1) r d(2) fill_position_ck_Some [OF core(2) _ le]
      by (simp add: on_fill_ck_def on_fill_def Let_def)
  qed (use Some in \<open>auto simp: on_fill_ck_def on_fill_def\<close>)
qed (simp add: on_fill_ck_def on_fill_def)

lemma mark_ck_Some:
  assumes "risk_safe re" "int64 price"
  shows "mark_ck re l price = Some (mark re l price)"
proof (cases "slot_at re l")
  case (Some s)
  have inv: "risk_inv re" using assms(1) by (simp add: risk_safe_def)
  show ?thesis
  proof (cases "0 < price")
    case True
    have "slot_core (s\<lparr>rs_mark := price\<rparr>)"
      using risk_inv_slot_core [OF inv Some] True int64_le_max [OF assms(2)] by (simp add: slot_core_def)
    then have r: "refresh_ck re l (s\<lparr>rs_mark := price\<rparr>) = Some (refresh re l (s\<lparr>rs_mark := price\<rparr>))"
      by (intro refresh_ck_Some [OF inv Some]) simp_all
    have "risk_inv (mark re l price)" using inv int64_le_max [OF assms(2)] by (rule mark_inv)
    then have "risk_inv (refresh re l (s\<lparr>rs_mark := price\<rparr>))" using True Some by (simp add: mark_def)
    then have "settle_ck (refresh re l (s\<lparr>rs_mark := price\<rparr>)) = Some (settle (refresh re l (s\<lparr>rs_mark := price\<rparr>)))"
      using assms(1) by (intro settle_ck_Some) (simp_all add: risk_safe_def limits_int64_def refresh_def Let_def)
    then show ?thesis using True Some r by (simp add: mark_ck_def mark_def)
  qed (use Some in \<open>simp add: mark_ck_def mark_def\<close>)
qed (simp add: mark_ck_def mark_def)

lemma call_int64_op: "call_int64 op \<Longrightarrow> risk_op_int64 op"
  by (cases op) simp_all

lemma risk_step_ck_Some: "risk_safe re \<Longrightarrow> call_int64 op \<Longrightarrow> risk_step_ck op re = Some (risk_step op re)"
  by (cases op) (simp_all add: risk_safe_def order_calls_Some on_fill_ck_Some [unfolded risk_safe_def]
      mark_ck_Some [unfolded risk_safe_def] assess_ck_Some check_def evaluate_def Let_def)

lemma risk_step_safe: "risk_safe re \<Longrightarrow> call_int64 op \<Longrightarrow> risk_safe (risk_step op re)"
  using risk_step_inv [OF _ call_int64_op, of re op] drawdown_bounds_step [OF _ call_int64_op, of re op]
  by (simp add: risk_safe_def)

lemma risk_run_ck_Some:
  assumes "risk_safe re" "\<forall>op \<in> set ops. call_int64 op"
  shows "risk_run_ck ops re = Some (risk_run ops re)" "risk_safe (risk_run ops re)"
  using assms by (induction ops arbitrary: re) (simp_all add: risk_step_ck_Some risk_step_safe)

lemma RiskEngine_new_safe: "limits_int64 lim \<Longrightarrow> risk_safe (RiskEngine_new lim n)"
  using RiskEngine_new_inv [of lim n] by (simp add: risk_safe_def RiskEngine_new_def kPnlBound_def)

section \<open>No call reaches signed overflow\<close>

text \<open>
  Claim C34: no call can reach signed overflow. For any limits of 64 bits and any sequence of calls
  (open, grow, reduce, end, closed, fill, mark, kill switch, check, admit) whose prices fit their
  64 bits, the checked execution, in which every signed sum, difference, negation, product and
  quotient of the source must fit its 64 or 128 bits and every divisor is non-zero, reaches the end
  and ends in the very state the unbounded model ends in. There every stored quantity, price and
  PnL of every instrument is within \<open>\<plusminus>INT64_MAX\<close>, and the next verdict, for a new order or a
  replace and for any arguments, with its notional product, both exposure legs, the gross exposure
  after the order and both price-band products, and the reported total PnL are computed without
  overflow too and are those of the model.
\<close>

theorem risk_arithmetic_fits:
  fixes lim :: Limits and n :: nat and ops :: "risk_op list"
  assumes "limits_int64 lim" "\<forall>op \<in> set ops. call_int64 op" "int64 price" "int64 reference"
  defines "re \<equiv> risk_run ops (RiskEngine_new lim n)"
  shows "risk_run_ck ops (RiskEngine_new lim n) = Some re \<and>
    assess_ck re l side price qty add replacing reference now = Some (assess re l side price qty add replacing reference now) \<and>
    total_pnl_ck re = Some (total_pnl re) \<and>
    (\<forall>s \<in> set (re_slots re).
       \<bar>ps_qty (rs_pos s)\<bar> \<le> kInt64Max \<and> \<bar>ps_avg_price (rs_pos s)\<bar> \<le> kInt64Max \<and> \<bar>ps_realized (rs_pos s)\<bar> \<le> kInt64Max \<and>
       \<bar>rs_mark s\<bar> \<le> kInt64Max \<and> \<bar>rs_unrealized s\<bar> \<le> kInt64Max \<and> \<bar>rs_exposure s\<bar> \<le> kInt64Max \<and>
       \<bar>rs_open s Side_buy\<bar> \<le> kInt64Max \<and> \<bar>rs_open s Side_sell\<bar> \<le> kInt64Max)"
proof -
  note run = risk_run_ck_Some [OF RiskEngine_new_safe [OF assms(1)] assms(2), of n, folded re_def]
  then have inv: "risk_inv re" by (simp add: risk_safe_def)
  have "\<bar>pnl re\<bar> \<le> 2 ^ 127 - 1" using totals_bounds(5) [OF inv] by (simp add: kPnlBound_def kInt64Max_def)
  then have "total_pnl_ck re = Some (total_pnl re)"
    using i128_fits [of "pnl re"] by (simp add: total_pnl_ck_def total_pnl_def pnl_def)
  moreover have "slot_ok s" if "s \<in> set (re_slots re)" for s using inv that by (simp add: risk_inv_def)
  note ok = this this [THEN unrealized_range] this [THEN exposure_range]
  ultimately show ?thesis
    using run(1) assess_ck_Some [OF inv assms(3,4)] ok by (auto simp: slot_ok_def slot_core_def pos_ok_def)
qed

definition tight_limits :: Limits where
  "tight_limits = \<lparr>lm_max_order_qty = - 1, lm_max_order_notional = 2 ^ 63 - 1, lm_max_position = 2 ^ 63 - 1,
     lm_max_gross_position = 2 ^ 63 - 1, lm_price_band_bps = - 1, lm_require_reference = True,
     lm_max_orders_per_second = 2, lm_max_open_orders = 5, lm_max_loss = 2 ^ 63 - 1\<rparr>"

definition extreme_calls :: "risk_op list" where
  "extreme_calls = [RO_check 1 Side_buy 9223372036854775807 1 9223372036854775807 5, RO_open 1 Side_buy 4294967295,
     RO_fill 1 Side_buy 4294967295 9223372036854775807, RO_mark 1 1, RO_fill 1 Side_sell 4294967295 1, RO_kill False]"

theorem risk_arithmetic_fits_witness:
  "map_option (\<lambda>re. (realized_pnl re, max_drawdown re,
      assess_ck re 1 Side_buy 9223372036854775807 4294967295 4294967295 False 1 6))
     (risk_run_ck extreme_calls (RiskEngine_new tight_limits 3)) =
   Some (- 9223372036854775807, 9223372036854775807, Some Rj_order_notional)"
proof -
  let ?re = "risk_run extreme_calls (RiskEngine_new tight_limits 3)"
  have "limits_int64 tight_limits" "\<forall>op \<in> set extreme_calls. call_int64 op"
    by (simp_all add: limits_int64_def tight_limits_def extreme_calls_def int64_def)
  from risk_arithmetic_fits [OF this, of 9223372036854775807 1 3]
  have "risk_run_ck extreme_calls (RiskEngine_new tight_limits 3) = Some ?re"
    "assess_ck ?re 1 Side_buy 9223372036854775807 4294967295 4294967295 False 1 6 =
      Some (assess ?re 1 Side_buy 9223372036854775807 4294967295 4294967295 False 1 6)"
    by (simp_all add: int64_def)
  moreover have "replicate 2 (0 :: Nanos) = [0, 0]" "replicate 3 RSlot_new = [RSlot_new, RSlot_new, RSlot_new]"
    by (simp_all add: numeral_3_eq_3 numeral_2_eq_2)
  then have new: "RiskEngine_new tight_limits 3 =
      \<lparr>re_limits = tight_limits, re_slots = [RSlot_new, RSlot_new, RSlot_new], re_rate_ring = [0, 0], re_rate_next = 0,
       re_rate_filled = 0, re_rate_latest = 0, re_realized_total = 0, re_unrealized_total = 0, re_gross = 0,
       re_peak_pnl = 0, re_max_drawdown = 0, re_open_orders = 0, re_kill_switch = False\<rparr>"
    by (simp add: RiskEngine_new_def tight_limits_def kMaxLocates_def kMaxRateRing_def)
  have "realized_pnl ?re = - 9223372036854775807" "max_drawdown ?re = 9223372036854775807"
    "assess ?re 1 Side_buy 9223372036854775807 4294967295 4294967295 False 1 6 = Rj_order_notional"
    unfolding new by (code_simp, code_simp, code_simp)
  ultimately show ?thesis by simp
qed

end
