(* ===== verification/Ouch_Messages.thy ===== *)
theory Ouch_Messages
  imports Prelude
begin

text \<open>
  The OUCH 4.2 order-entry messages of \<^verbatim>\<open>src/include/optitrade/ouch/messages.hpp\<close>: the 14-character
  \<^verbatim>\<open>Token\<close> class with its parser and printer, one record per message struct, and the wire lengths.
\<close>

section \<open>Token\<close>

type_synonym Token = "u8 list"

definition kTokenSize :: nat where
  "kTokenSize = 14"

definition blank_token :: Token where
  "blank_token = replicate kTokenSize (asc CHR '' '')"

definition Token_kMaxId :: u64 where
  "Token_kMaxId = 99999999999999"

definition Token_invalid :: Token where
  "Token_invalid = replicate kTokenSize (asc CHR ''#'')"

text \<open>The loop of \<^verbatim>\<open>from_id\<close> fills the characters from the last to the first.\<close>

primrec from_id_loop :: "nat \<Rightarrow> u64 \<Rightarrow> Token \<Rightarrow> Token" where
  "from_id_loop 0 i t = t"
| "from_id_loop (Suc k) i t = from_id_loop k (i div 10) (t[k := asc CHR ''0'' + ucast (i mod 10)])"

definition from_id :: "u64 \<Rightarrow> Token" where
  "from_id i = (if i > Token_kMaxId then Token_invalid else from_id_loop kTokenSize i blank_token)"

definition Token_from_text :: "u8 list \<Rightarrow> Token" where
  "Token_from_text text = take kTokenSize text @ drop (length (take kTokenSize text)) blank_token"

text \<open>The digit loop of \<^verbatim>\<open>to_id\<close>: the value read and the characters it stopped at.\<close>

fun to_id_loop :: "u8 list \<Rightarrow> u64 \<Rightarrow> u64 \<times> u8 list" where
  "to_id_loop [] v = (v, [])"
| "to_id_loop (c # cs) v =
     (if asc CHR ''0'' \<le> c \<and> c \<le> asc CHR ''9'' then to_id_loop cs (v * 10 + ucast (c - asc CHR ''0''))
      else (v, c # cs))"

definition to_id :: "Token \<Rightarrow> u64 option" where
  "to_id t =
     (let (v, rest) = to_id_loop t 0 in
      if length rest = length t then None
      else if \<exists>c \<in> set rest. c \<noteq> asc CHR '' '' then None
      else Some v)"

definition Token_view :: "Token \<Rightarrow> u8 list" where
  "Token_view t = rev (dropWhile (\<lambda>c. c = asc CHR '' '') (rev t))"

section \<open>Messages\<close>

definition kTifIoc :: u32 where "kTifIoc = 0"
definition kTifMarketHours :: u32 where "kTifMarketHours = 99998"
definition kTifSystemHours :: u32 where "kTifSystemHours = 99999"

record EnterOrder =
  eo_token :: Token
  eo_side :: Side
  eo_short_sell :: bool
  eo_shares :: Qty
  eo_stock :: Symbol
  eo_price :: Price
  eo_time_in_force :: u32
  eo_firm :: "u8 list"
  eo_display :: u8
  eo_capacity :: u8
  eo_intermarket_sweep :: u8
  eo_min_qty :: Qty
  eo_cross_type :: u8
  eo_customer_type :: u8

definition EnterOrder_new :: EnterOrder where
  "EnterOrder_new = \<lparr>eo_token = blank_token, eo_side = Side_buy, eo_short_sell = False, eo_shares = 0,
     eo_stock = Symbol_blank, eo_price = 0, eo_time_in_force = kTifSystemHours,
     eo_firm = replicate 4 (asc CHR '' ''), eo_display = asc CHR ''Y'', eo_capacity = asc CHR ''P'',
     eo_intermarket_sweep = asc CHR ''N'', eo_min_qty = 0, eo_cross_type = asc CHR ''N'',
     eo_customer_type = asc CHR '' ''\<rparr>"

record ReplaceOrder =
  ro_existing :: Token
  ro_replacement :: Token
  ro_shares :: Qty
  ro_price :: Price
  ro_time_in_force :: u32
  ro_display :: u8
  ro_intermarket_sweep :: u8
  ro_min_qty :: Qty

definition ReplaceOrder_new :: ReplaceOrder where
  "ReplaceOrder_new = \<lparr>ro_existing = blank_token, ro_replacement = blank_token, ro_shares = 0, ro_price = 0,
     ro_time_in_force = kTifSystemHours, ro_display = asc CHR ''Y'', ro_intermarket_sweep = asc CHR ''N'', ro_min_qty = 0\<rparr>"

record CancelOrder =
  co_token :: Token
  co_shares :: Qty

record Accepted =
  ac_ts :: Nanos
  ac_token :: Token
  ac_side :: Side
  ac_shares :: Qty
  ac_stock :: Symbol
  ac_price :: Price
  ac_time_in_force :: u32
  ac_firm :: "u8 list"
  ac_display :: u8
  ac_ref :: OrderRef
  ac_capacity :: u8
  ac_intermarket_sweep :: u8
  ac_min_qty :: Qty
  ac_cross_type :: u8
  ac_order_state :: u8
  ac_bbo_weight :: u8

record Replaced =
  rp_a :: Accepted
  rp_previous :: Token

record Canceled =
  cn_ts :: Nanos
  cn_token :: Token
  cn_decrement :: Qty
  cn_reason :: u8

record Executed =
  ex_ts :: Nanos
  ex_token :: Token
  ex_shares :: Qty
  ex_price :: Price
  ex_liquidity :: u8
  ex_match :: u64

record Rejected =
  rj_ts :: Nanos
  rj_token :: Token
  rj_reason :: u8

section \<open>Wire lengths\<close>

definition kEnterOrderLength :: nat where "kEnterOrderLength = 49"
definition kReplaceOrderLength :: nat where "kReplaceOrderLength = 47"
definition kCancelOrderLength :: nat where "kCancelOrderLength = 19"
definition kAcceptedLength :: nat where "kAcceptedLength = 66"
definition kReplacedLength :: nat where "kReplacedLength = 80"
definition kCanceledLength :: nat where "kCanceledLength = 28"
definition kExecutedLength :: nat where "kExecutedLength = 40"
definition kRejectedLength :: nat where "kRejectedLength = 24"
definition ouch_kMaxMessageLength :: nat where "ouch_kMaxMessageLength = kReplacedLength"

lemmas ouch_length_defs = kEnterOrderLength_def kReplaceOrderLength_def kCancelOrderLength_def kAcceptedLength_def
  kReplacedLength_def kCanceledLength_def kExecutedLength_def kRejectedLength_def ouch_kMaxMessageLength_def

definition inbound_length :: "u8 \<Rightarrow> nat" where
  "inbound_length ty =
     (if ty = asc CHR ''O'' then kEnterOrderLength
      else if ty = asc CHR ''U'' then kReplaceOrderLength
      else if ty = asc CHR ''X'' then kCancelOrderLength
      else 0)"

definition outbound_length :: "u8 \<Rightarrow> nat" where
  "outbound_length ty =
     (if ty = asc CHR ''A'' then kAcceptedLength
      else if ty = asc CHR ''U'' then kReplacedLength
      else if ty = asc CHR ''C'' then kCanceledLength
      else if ty = asc CHR ''E'' then kExecutedLength
      else if ty = asc CHR ''J'' then kRejectedLength
      else 0)"

section \<open>Printing and parsing a token\<close>

text \<open>The \<open>k\<close> low decimal digits of a number, most significant first.\<close>

primrec digits_of :: "nat \<Rightarrow> u64 \<Rightarrow> u8 list" where
  "digits_of 0 i = []"
| "digits_of (Suc k) i = digits_of k (i div 10) @ [asc CHR ''0'' + ucast (i mod 10)]"

lemma length_digits_of [simp]: "length (digits_of k i) = k"
  by (induction k arbitrary: i) simp_all

lemma from_id_loop_digits: "k \<le> length t \<Longrightarrow> from_id_loop k i t = digits_of k i @ drop k t"
proof (induction k arbitrary: i t)
  case (Suc k)
  then have "drop k (t[k := asc CHR ''0'' + ucast (i mod 10)]) = (asc CHR ''0'' + ucast (i mod 10)) # drop (Suc k) t"
    by (simp add: drop_update_swap Cons_nth_drop_Suc [symmetric])
  then show ?case using Suc by simp
qed simp

lemma from_id_digits: "i \<le> Token_kMaxId \<Longrightarrow> from_id i = digits_of 14 i"
  by (auto simp: from_id_def from_id_loop_digits blank_token_def kTokenSize_def)

lemma length_from_id [simp]: "length (from_id i) = 14"
  by (cases "i \<le> Token_kMaxId") (simp_all add: from_id_digits, simp add: from_id_def Token_invalid_def kTokenSize_def not_le)

lemma digit_char:
  fixes d :: u64
  assumes "unat d < 10"
  shows "asc CHR ''0'' \<le> asc CHR ''0'' + ucast d" "asc CHR ''0'' + ucast d \<le> asc CHR ''9''"
    "ucast (asc CHR ''0'' + ucast d - asc CHR ''0'' :: u8) = d"
proof -
  have c: "asc CHR ''0'' = (48 :: u8)" "asc CHR ''9'' = (57 :: u8)" by (simp_all add: of_char_def horner_sum_bit_eq_take_bit)
  have u: "unat (ucast d :: u8) = unat d" using assms by (intro unat_ucast_small) simp
  have s: "unat (48 + ucast d :: u8) = 48 + unat d" using assms u by (subst unat_add_no_overflow) simp_all
  show "asc CHR ''0'' \<le> asc CHR ''0'' + ucast d" "asc CHR ''0'' + ucast d \<le> asc CHR ''9''"
    unfolding c word_le_nat_alt s using assms by simp_all
  show "ucast (asc CHR ''0'' + ucast d - asc CHR ''0'' :: u8) = d"
    using u unat_ucast_small [of "ucast d :: u8", where 'b = 64] assms by (simp add: word_unat_eq_iff)
qed

lemma to_id_loop_append:
  "to_id_loop xs v = (w, []) \<Longrightarrow> to_id_loop (xs @ ys) v = to_id_loop ys w"
  by (induction xs v rule: to_id_loop.induct) (auto split: if_splits)

lemma to_id_loop_digits:
  "k \<le> 19 \<Longrightarrow> \<exists>w. to_id_loop (digits_of k i) 0 = (w, []) \<and> unat w = unat i mod 10 ^ k"
proof (induction k arbitrary: i)
  case (Suc k)
  obtain w where w: "to_id_loop (digits_of k (i div 10)) 0 = (w, [])" "unat w = unat (i div 10) mod 10 ^ k"
    using Suc.IH [of "i div 10"] Suc.prems by auto
  have d: "unat (i mod 10) = unat i mod 10" "unat (i div 10) = unat i div 10" by (simp_all add: unat_mod unat_div)
  then have "unat (i mod 10) < 10" by simp
  note dc = digit_char [OF this]
  have "(10 :: nat) ^ k \<le> 10 ^ 18" using Suc.prems by (intro power_increasing) simp_all
  moreover have "unat w < 10 ^ k" using w(2) by simp
  ultimately have b: "unat w * 10 + 10 \<le> 10 ^ 19" by (simp add: less_eq_Suc_le)
  have "unat (w * 10) = unat w * 10" using b by (simp add: unat_word_ariths)
  then have "unat (w * 10 + i mod 10) = unat w * 10 + unat i mod 10"
    using b d by (subst unat_add_no_overflow) simp_all
  moreover have "unat i mod 10 ^ Suc k = (unat i div 10 mod 10 ^ k) * 10 + unat i mod 10"
    using mod_mult2_eq [of "unat i" 10 "10 ^ k"] by simp
  moreover have "to_id_loop (digits_of (Suc k) i) 0 = (w * 10 + i mod 10, [])"
    using dc by (simp add: to_id_loop_append [OF w(1)])
  ultimately show ?case using w(2) d by simp
qed simp

lemma to_id_from_id:
  assumes "i \<le> Token_kMaxId"
  shows "to_id (from_id i) = Some i"
proof -
  obtain w where w: "to_id_loop (digits_of 14 i) 0 = (w, [])" "unat w = unat i mod 10 ^ 14"
    using to_id_loop_digits [of 14 i] by auto
  have "unat i < 10 ^ 14" using assms by (simp add: Token_kMaxId_def word_le_nat_alt)
  then have "w = i" using w(2) by (simp add: word_unat_eq_iff)
  then show ?thesis using assms w(1) by (simp add: from_id_digits to_id_def)
qed

lemma to_id_invalid: "to_id Token_invalid = None"
proof -
  have "to_id_loop (asc CHR ''#'' # cs) v = (v, asc CHR ''#'' # cs)" for cs v by (simp add: of_char_def)
  then have "to_id_loop Token_invalid 0 = (0, Token_invalid)"
    by (simp add: Token_invalid_def kTokenSize_def numeral_eq_Suc)
  then show ?thesis by (simp add: to_id_def)
qed

lemma from_id_inj:
  assumes "i \<le> Token_kMaxId" "from_id i = from_id j"
  shows "i = j"
  using to_id_from_id [OF assms(1)] to_id_from_id [of j] to_id_invalid assms(2)
  by (cases "j \<le> Token_kMaxId") (auto simp: from_id_def not_le)

text \<open>
  A token printed for an id of at most 14 digits parses back to that id, so minting is
  injective and a report finds its order; an id that does not fit prints as a token that no parse
  accepts.
\<close>

lemma token_round_trip:
  "to_id (from_id i) = (if i \<le> Token_kMaxId then Some i else None)"
  using to_id_from_id [of i] to_id_invalid by (auto simp: from_id_def)

end
