(* ===== verification/Order_Manager.thy ===== *)
theory Order_Manager
  imports Flat_Hash_Map Risk_Engine Ouch_Messages
begin

text \<open>
  The order manager, \<^verbatim>\<open>src/include/optitrade/oms/types.hpp\<close>, \<^verbatim>\<open>interfaces.hpp\<close> and
  \<^verbatim>\<open>order_manager.hpp\<close>. The manager holds references to a gateway, a risk engine, a reference-price
  source, a symbol source and an optional listener. The risk engine is part of the modelled state
  (\<open>sy_risk\<close>); the others are the parameter \<open>env\<close>, functions on a world of any type. A callback of the
  listener is a function on the whole state because it may call the manager again. Slots of the
  order table are \<^typ>\<open>nat\<close>; \<open>kNone\<close> is the null link.
\<close>

section \<open>oms/types.hpp and oms/interfaces.hpp\<close>

type_synonym OrderId = u64

datatype Tif = Tif_day | Tif_ioc | Tif_other u8

record OrderRequest =
  rq_locate :: Locate
  rq_side :: Side
  rq_price :: Price
  rq_qty :: Qty
  rq_tif :: Tif

datatype OrderStatus = OS_pending_new | OS_live | OS_pending_cancel | OS_pending_replace | OS_filled | OS_canceled | OS_rejected

definition is_terminal :: "OrderStatus \<Rightarrow> bool" where
  "is_terminal s = (s = OS_filled \<or> s = OS_canceled \<or> s = OS_rejected)"

record OmsInfo =
  in_id :: OrderId
  in_req :: OrderRequest
  in_status :: OrderStatus
  in_cum_qty :: Qty
  in_leaves_qty :: Qty
  in_avg_price :: Price
  in_exchange_ref :: OrderRef
  in_last_update :: Nanos
  in_reason :: u8

record Fill =
  fl_id :: OrderId
  fl_locate :: Locate
  fl_side :: Side
  fl_qty :: Qty
  fl_price :: Price
  fl_ts :: Nanos
  fl_match :: u64

datatype SubmitStatus = SS_ok | SS_rejected_by_risk | SS_invalid_request | SS_unknown_order | SS_bad_state
  | SS_capacity | SS_gateway_busy

record SubmitResult =
  sr_status :: SubmitStatus
  sr_id :: OrderId
  sr_risk_reason :: Reject

section \<open>State of the manager\<close>

record OmConfig =
  oc_max_orders :: nat
  oc_first_token :: u64

record Stats =
  st_unknown_tokens :: u64
  st_late_reports :: u64
  st_invalid_reports :: u64
  st_clamped_reports :: u64

definition kMatchMemory :: nat where "kMatchMemory = 8"
definition kMaxWirePrice :: Price where "kMaxWirePrice = 0xFFFFFFFF"
definition kNone :: nat where "kNone = 0xFFFFFFFF"

record OmEntry =
  en_info :: OmsInfo
  en_token :: u64
  en_next_token :: u64
  en_replace_price :: Price
  en_replace_qty :: Qty
  en_reserved :: Qty
  en_notional :: u64
  en_matches :: "u64 list"
  en_match_count :: u32
  en_prev :: nat
  en_next :: nat
  en_accepted :: bool
  en_acked :: bool

definition OrderRequest_new :: OrderRequest where
  "OrderRequest_new = \<lparr>rq_locate = 0, rq_side = Side_buy, rq_price = 0, rq_qty = 0, rq_tif = Tif_day\<rparr>"

definition OmsInfo_new :: OmsInfo where
  "OmsInfo_new = \<lparr>in_id = 0, in_req = OrderRequest_new, in_status = OS_pending_new, in_cum_qty = 0, in_leaves_qty = 0,
     in_avg_price = 0, in_exchange_ref = 0, in_last_update = 0, in_reason = 0\<rparr>"

definition OmEntry_new :: OmEntry where
  "OmEntry_new = \<lparr>en_info = OmsInfo_new, en_token = 0, en_next_token = 0, en_replace_price = 0, en_replace_qty = 0,
     en_reserved = 0, en_notional = 0, en_matches = replicate kMatchMemory 0, en_match_count = 0,
     en_prev = kNone, en_next = kNone, en_accepted = False, en_acked = False\<rparr>"

record OrderManager =
  om_orders :: "OmEntry list"
  om_by_id :: "(OrderId, nat) fhm"
  om_tokens :: "(u64, nat) fhm"
  om_finished :: "nat list"
  om_finished_head :: nat
  om_finished_count :: nat
  om_fresh :: nat
  om_head :: nat
  om_tail :: nat
  om_next_id :: OrderId
  om_open :: nat
  om_next_token :: u64
  om_stats :: Stats

record 'w sys =
  sy_om :: OrderManager
  sy_risk :: RiskEngine
  sy_world :: 'w

record 'w listener =
  li_fill :: "Fill \<Rightarrow> 'w sys \<Rightarrow> 'w sys"
  li_update :: "OmsInfo \<Rightarrow> 'w sys \<Rightarrow> 'w sys"

record 'w env =
  ev_send_enter :: "EnterOrder \<Rightarrow> Nanos \<Rightarrow> 'w \<Rightarrow> 'w \<times> bool"
  ev_send_cancel :: "CancelOrder \<Rightarrow> Nanos \<Rightarrow> 'w \<Rightarrow> 'w \<times> bool"
  ev_send_replace :: "ReplaceOrder \<Rightarrow> Nanos \<Rightarrow> 'w \<Rightarrow> 'w \<times> bool"
  ev_reference :: "Locate \<Rightarrow> 'w \<Rightarrow> Price"
  ev_symbol :: "Locate \<Rightarrow> 'w \<Rightarrow> Symbol"
  ev_listener :: "'w listener option"

definition om_slot_count :: "nat \<Rightarrow> nat" where
  "om_slot_count n = min n (kNone - 1)"

definition OrderManager_new :: "OmConfig \<Rightarrow> OrderManager option" where
  "OrderManager_new config = do {
     let n = om_slot_count (oc_max_orders config);
     by_id \<leftarrow> fhm_new n;
     tokens \<leftarrow> fhm_new (2 * n);
     Some \<lparr>om_orders = replicate n OmEntry_new, om_by_id = by_id, om_tokens = tokens, om_finished = replicate n 0,
           om_finished_head = 0, om_finished_count = 0, om_fresh = 0, om_head = kNone, om_tail = kNone,
           om_next_id = 1, om_open = 0,
           om_next_token = (if oc_first_token config \<noteq> 0 then oc_first_token config else 1),
           om_stats = \<lparr>st_unknown_tokens = 0, st_late_reports = 0, st_invalid_reports = 0, st_clamped_reports = 0\<rparr>\<rparr> }"

abbreviation ent :: "'w sys \<Rightarrow> nat \<Rightarrow> OmEntry" where
  "ent sy s \<equiv> om_orders (sy_om sy) ! s"

definition om_upd :: "(OrderManager \<Rightarrow> OrderManager) \<Rightarrow> 'w sys \<Rightarrow> 'w sys" where
  "om_upd f sy = sy\<lparr>sy_om := f (sy_om sy)\<rparr>"

definition set_ent :: "nat \<Rightarrow> (OmEntry \<Rightarrow> OmEntry) \<Rightarrow> 'w sys \<Rightarrow> 'w sys" where
  "set_ent s f sy = om_upd (\<lambda>om. om\<lparr>om_orders := (om_orders om)[s := f (om_orders om ! s)]\<rparr>) sy"

definition info_upd :: "(OmsInfo \<Rightarrow> OmsInfo) \<Rightarrow> OmEntry \<Rightarrow> OmEntry" where
  "info_upd f e = e\<lparr>en_info := f (en_info e)\<rparr>"

section \<open>Small helpers\<close>

definition om_valid :: "OrderRequest \<Rightarrow> bool" where
  "om_valid r = ((rq_side r = Side_buy \<or> rq_side r = Side_sell) \<and> (rq_tif r = Tif_day \<or> rq_tif r = Tif_ioc) \<and>
     rq_qty r \<ge> 1 \<and> rq_qty r \<le> kMaxOrderQty \<and> rq_price r > 0 \<and> rq_price r \<le> kMaxWirePrice)"

definition wire_tif :: "Tif \<Rightarrow> u32" where
  "wire_tif t = (if t = Tif_ioc then kTifIoc else kTifSystemHours)"

definition token_available :: "OrderManager \<Rightarrow> bool" where
  "token_available om = (om_next_token om \<le> Token_kMaxId \<and> fhm_size (om_tokens om) < fhm_max (om_tokens om))"

definition slot_available :: "OrderManager \<Rightarrow> bool" where
  "slot_available om = (om_fresh om < length (om_orders om) \<or> om_finished_count om \<noteq> 0)"

definition next_slot :: "OrderManager \<Rightarrow> nat" where
  "next_slot om = (if om_fresh om < length (om_orders om) then om_fresh om else om_finished om ! om_finished_head om)"

definition take_slot :: "nat \<Rightarrow> OrderManager \<Rightarrow> OrderManager" where
  "take_slot slot om =
     (if om_fresh om < length (om_orders om) then om\<lparr>om_fresh := om_fresh om + 1\<rparr>
      else
        let old = om_orders om ! slot in
        om\<lparr>om_finished_head := (om_finished_head om + 1) mod length (om_finished om),
           om_finished_count := om_finished_count om - 1,
           om_by_id := fst (fhm_erase Hash_u64 (om_by_id om) (in_id (en_info old))),
           om_tokens := fst (fhm_erase Hash_u64 (om_tokens om) (en_token old))\<rparr>)"

definition entry_slot :: "OrderManager \<Rightarrow> OrderId \<Rightarrow> nat option" where
  "entry_slot om oid = fhm_find Hash_u64 (om_by_id om) oid"

definition link :: "nat \<Rightarrow> OrderManager \<Rightarrow> OrderManager" where
  "link slot om =
     (let es = (om_orders om)[slot := (om_orders om ! slot)\<lparr>en_prev := om_tail om, en_next := kNone\<rparr>] in
      if om_tail om \<noteq> kNone
      then om\<lparr>om_orders := es[om_tail om := (es ! om_tail om)\<lparr>en_next := slot\<rparr>], om_tail := slot\<rparr>
      else om\<lparr>om_orders := es, om_head := slot, om_tail := slot\<rparr>)"

definition unlink :: "nat \<Rightarrow> OrderManager \<Rightarrow> OrderManager" where
  "unlink slot om =
     (let p = en_prev (om_orders om ! slot); n = en_next (om_orders om ! slot);
          om = (if p \<noteq> kNone
                then om\<lparr>om_orders := (om_orders om)[p := (om_orders om ! p)\<lparr>en_next := n\<rparr>]\<rparr>
                else om\<lparr>om_head := n\<rparr>);
          om = (if n \<noteq> kNone
                then om\<lparr>om_orders := (om_orders om)[n := (om_orders om ! n)\<lparr>en_prev := p\<rparr>]\<rparr>
                else om\<lparr>om_tail := p\<rparr>) in
      om\<lparr>om_orders := (om_orders om)[slot := (om_orders om ! slot)\<lparr>en_prev := kNone, en_next := kNone\<rparr>]\<rparr>)"

definition late :: "'w sys \<Rightarrow> 'w sys" where
  "late sy = om_upd (\<lambda>om. om\<lparr>om_stats := (om_stats om)\<lparr>st_late_reports := st_late_reports (om_stats om) + 1\<rparr>\<rparr>) sy"

definition invalid :: "'w sys \<Rightarrow> 'w sys" where
  "invalid sy = om_upd (\<lambda>om. om\<lparr>om_stats := (om_stats om)\<lparr>st_invalid_reports := st_invalid_reports (om_stats om) + 1\<rparr>\<rparr>) sy"

definition clamped :: "'w sys \<Rightarrow> 'w sys" where
  "clamped sy = om_upd (\<lambda>om. om\<lparr>om_stats := (om_stats om)\<lparr>st_clamped_reports := st_clamped_reports (om_stats om) + 1\<rparr>\<rparr>) sy"

definition unknown :: "'w sys \<Rightarrow> 'w sys" where
  "unknown sy = om_upd (\<lambda>om. om\<lparr>om_stats := (om_stats om)\<lparr>st_unknown_tokens := st_unknown_tokens (om_stats om) + 1\<rparr>\<rparr>) sy"

text \<open>Token to slot; the flag says that the token was the replacement token.\<close>

definition resolve :: "Token \<Rightarrow> 'w sys \<Rightarrow> 'w sys \<times> (nat \<times> bool) option" where
  "resolve t sy =
     (case to_id t of
        None \<Rightarrow> (unknown sy, None)
      | Some tid \<Rightarrow>
          if from_id tid \<noteq> t then (unknown sy, None)
          else (case fhm_find Hash_u64 (om_tokens (sy_om sy)) tid of
             None \<Rightarrow> (unknown sy, None)
           | Some slot \<Rightarrow>
               if en_token (ent sy slot) = tid then (sy, Some (slot, False))
               else if en_next_token (ent sy slot) = tid then (sy, Some (slot, True))
               else (unknown sy, None)))"

definition active_order :: "Token \<Rightarrow> 'w sys \<Rightarrow> 'w sys \<times> nat option" where
  "active_order t sy =
     (case resolve t sy of
        (sy, None) \<Rightarrow> (sy, None)
      | (sy, Some (slot, replacement)) \<Rightarrow>
          if is_terminal (in_status (en_info (ent sy slot))) then (late sy, None)
          else if replacement then (invalid sy, None)
          else (sy, Some slot))"

definition seen_match :: "OmEntry \<Rightarrow> u64 \<Rightarrow> bool" where
  "seen_match e mn = (mn \<in> set (take (min (unat (en_match_count e)) kMatchMemory) (en_matches e)))"

definition remember_match :: "OmEntry \<Rightarrow> u64 \<Rightarrow> OmEntry" where
  "remember_match e mn = e\<lparr>en_matches := (en_matches e)[unat (en_match_count e) mod kMatchMemory := mn],
     en_match_count := en_match_count e + 1\<rparr>"

definition notify :: "'w env \<Rightarrow> OmsInfo \<Rightarrow> 'w sys \<Rightarrow> 'w sys" where
  "notify ev snapshot sy = (case ev_listener ev of None \<Rightarrow> sy | Some li \<Rightarrow> li_update li snapshot sy)"

section \<open>The exposure ledger\<close>

definition ledger_want :: "OmEntry \<Rightarrow> Qty" where
  "ledger_want e =
     (if en_next_token e \<noteq> 0 \<and> en_replace_qty e > in_cum_qty (en_info e)
      then max (in_leaves_qty (en_info e)) (en_replace_qty e - in_cum_qty (en_info e))
      else in_leaves_qty (en_info e))"

definition sync_ledger :: "nat \<Rightarrow> 'w sys \<Rightarrow> 'w sys" where
  "sync_ledger s sy =
     (let e = ent sy s; want = ledger_want e;
          loc = rq_locate (in_req (en_info e)); side = rq_side (in_req (en_info e));
          risk = (if want > en_reserved e then on_order_grow (sy_risk sy) loc side (want - en_reserved e)
                  else if want < en_reserved e then on_order_reduce (sy_risk sy) loc side (en_reserved e - want)
                  else sy_risk sy) in
      set_ent s (\<lambda>e. e\<lparr>en_reserved := want\<rparr>) (sy\<lparr>sy_risk := risk\<rparr>))"

definition drop_replacement :: "nat \<Rightarrow> 'w sys \<Rightarrow> 'w sys" where
  "drop_replacement s sy =
     (let nt = en_next_token (ent sy s) in
      set_ent s (\<lambda>e. e\<lparr>en_next_token := 0, en_replace_price := 0, en_replace_qty := 0\<rparr>)
        (if nt \<noteq> 0 then om_upd (\<lambda>om. om\<lparr>om_tokens := fst (fhm_erase Hash_u64 (om_tokens om) nt)\<rparr>) sy else sy))"

text \<open>\<^verbatim>\<open>finished_[(head + count) % size] = slot; ++count; --open_\<close>.\<close>

definition queue_finished :: "nat \<Rightarrow> OrderManager \<Rightarrow> OrderManager" where
  "queue_finished s om =
     om\<lparr>om_finished := (om_finished om)[(om_finished_head om + om_finished_count om) mod length (om_finished om) := s],
        om_finished_count := om_finished_count om + 1,
        om_open := om_open om - 1\<rparr>"

definition end_of_life :: "nat \<Rightarrow> OrderStatus option \<Rightarrow> 'w sys \<Rightarrow> 'w sys" where
  "end_of_life s outcome sy =
     (let sy = set_ent s (info_upd (\<lambda>i. i\<lparr>in_leaves_qty := 0\<rparr>)) sy;
          sy = drop_replacement s sy;
          info = en_info (ent sy s);
          status = (case outcome of Some st \<Rightarrow> st
                    | None \<Rightarrow> if in_cum_qty info \<ge> rq_qty (in_req info) then OS_filled else OS_canceled);
          sy = set_ent s (info_upd (\<lambda>i. i\<lparr>in_status := status\<rparr>)) sy;
          sy = sy\<lparr>sy_risk := on_order_end (sy_risk sy) (rq_locate (in_req info)) (rq_side (in_req info)) (en_reserved (ent sy s))\<rparr>;
          sy = set_ent s (\<lambda>e. e\<lparr>en_reserved := 0\<rparr>) sy in
      om_upd (\<lambda>om. queue_finished s (unlink s om)) sy)"

section \<open>OrderApi\<close>

definition fail :: "SubmitStatus \<Rightarrow> Reject \<Rightarrow> SubmitResult" where
  "fail st r = \<lparr>sr_status = st, sr_id = 0, sr_risk_reason = r\<rparr>"

text \<open>What \<^verbatim>\<open>submit\<close> writes once the gateway has taken the order.\<close>

definition book_order :: "OrderRequest \<Rightarrow> Nanos \<Rightarrow> nat \<Rightarrow> 'w sys \<Rightarrow> 'w sys" where
  "book_order req now slot sy =
     (let om = take_slot slot (sy_om sy);
          oid = om_next_id om;
          e = OmEntry_new\<lparr>en_info := OmsInfo_new\<lparr>in_id := oid, in_req := req, in_leaves_qty := rq_qty req, in_last_update := now\<rparr>,
                          en_token := om_next_token om, en_reserved := rq_qty req\<rparr>;
          om = om\<lparr>om_next_id := oid + 1, om_orders := (om_orders om)[slot := e],
                  om_by_id := fst (fhm_insert Hash_u64 (om_by_id om) oid slot)\<rparr>;
          om = link slot om;
          om = om\<lparr>om_next_token := om_next_token om + 1, om_open := om_open om + 1\<rparr> in
      sy\<lparr>sy_om := om, sy_risk := on_order_open (sy_risk sy) (rq_locate req) (rq_side req) (rq_qty req)\<rparr>)"

definition submit :: "'w env \<Rightarrow> OrderRequest \<Rightarrow> Nanos \<Rightarrow> 'w sys \<Rightarrow> 'w sys \<times> SubmitResult" where
  "submit ev req now sy =
     (if \<not> om_valid req then (sy, fail SS_invalid_request Rj_none)
      else
        let symbol = ev_symbol ev (rq_locate req) (sy_world sy) in
        if Symbol_empty symbol then (sy, fail SS_invalid_request Rj_none)
        else if \<not> slot_available (sy_om sy) \<or> \<not> token_available (sy_om sy) then (sy, fail SS_capacity Rj_none)
        else
          let verdict = evaluate (sy_risk sy) (rq_locate req) (rq_side req) (rq_price req) (rq_qty req)
                          (ev_reference ev (rq_locate req) (sy_world sy)) now in
          if verdict \<noteq> Rj_none then (sy, fail SS_rejected_by_risk verdict)
          else
            let tok = om_next_token (sy_om sy);
                msg = EnterOrder_new\<lparr>eo_token := from_id tok, eo_side := rq_side req, eo_shares := rq_qty req,
                        eo_stock := symbol, eo_price := rq_price req, eo_time_in_force := wire_tif (rq_tif req)\<rparr>;
                slot = next_slot (sy_om sy);
                (tokens, inserted) = fhm_insert Hash_u64 (om_tokens (sy_om sy)) tok slot in
            if \<not> snd inserted then (om_upd (\<lambda>om. om\<lparr>om_tokens := tokens\<rparr>) sy, fail SS_capacity Rj_none)
            else
              let sy = om_upd (\<lambda>om. om\<lparr>om_tokens := tokens\<rparr>) sy;
                  (w, sent) = ev_send_enter ev msg now (sy_world sy);
                  sy = sy\<lparr>sy_world := w\<rparr> in
              if \<not> sent then
                (om_upd (\<lambda>om. om\<lparr>om_tokens := fst (fhm_erase Hash_u64 (om_tokens om) tok)\<rparr>) sy, fail SS_gateway_busy Rj_none)
              else
                let sy = sy\<lparr>sy_risk := admit (sy_risk sy) now\<rparr>;
                    oid = om_next_id (sy_om sy);
                    sy = book_order req now slot sy in
                (notify ev (en_info (ent sy slot)) sy, \<lparr>sr_status = SS_ok, sr_id = oid, sr_risk_reason = Rj_none\<rparr>))"

definition cancel_entry :: "'w env \<Rightarrow> nat \<Rightarrow> Nanos \<Rightarrow> 'w sys \<Rightarrow> 'w sys \<times> SubmitStatus" where
  "cancel_entry ev s now sy =
     (let e = ent sy s in
      if is_terminal (in_status (en_info e)) \<or> in_status (en_info e) = OS_pending_cancel then (sy, SS_bad_state)
      else
        let target = (if en_next_token e \<noteq> 0 then en_next_token e else en_token e);
            (w, sent) = ev_send_cancel ev \<lparr>co_token = from_id target, co_shares = 0\<rparr> now (sy_world sy);
            sy = sy\<lparr>sy_world := w\<rparr> in
        if \<not> sent then (sy, SS_gateway_busy)
        else
          let sy = set_ent s (info_upd (\<lambda>i. i\<lparr>in_status := OS_pending_cancel, in_last_update := now\<rparr>)) sy in
          (notify ev (en_info (ent sy s)) sy, SS_ok))"

definition cancel :: "'w env \<Rightarrow> OrderId \<Rightarrow> Nanos \<Rightarrow> 'w sys \<Rightarrow> 'w sys \<times> SubmitStatus" where
  "cancel ev oid now sy =
     (case entry_slot (sy_om sy) oid of
        None \<Rightarrow> (sy, SS_unknown_order)
      | Some s \<Rightarrow> cancel_entry ev s now sy)"

definition replace :: "'w env \<Rightarrow> OrderId \<Rightarrow> Price \<Rightarrow> Qty \<Rightarrow> Nanos \<Rightarrow> 'w sys \<Rightarrow> 'w sys \<times> SubmitStatus" where
  "replace ev oid new_price new_qty now sy =
     (case entry_slot (sy_om sy) oid of
        None \<Rightarrow> (sy, SS_unknown_order)
      | Some s \<Rightarrow>
          let e = ent sy s; info = en_info e in
          if in_status info \<noteq> OS_live then (sy, SS_bad_state)
          else if new_price \<le> 0 \<or> new_price > kMaxWirePrice \<or> new_qty = 0 \<or> new_qty > kMaxOrderQty \<or> new_qty \<le> in_cum_qty info
            then (sy, SS_invalid_request)
          else if \<not> token_available (sy_om sy) then (sy, SS_capacity)
          else
            let open_after = new_qty - in_cum_qty info;
                growth = (if open_after > in_leaves_qty info then open_after - in_leaves_qty info else 0);
                loc = rq_locate (in_req info);
                verdict = evaluate_replace (sy_risk sy) loc (rq_side (in_req info)) new_price open_after growth
                            (ev_reference ev loc (sy_world sy)) now in
            if verdict \<noteq> Rj_none then (sy, SS_rejected_by_risk)
            else
              let tok = om_next_token (sy_om sy);
                  msg = ReplaceOrder_new\<lparr>ro_existing := from_id (en_token e), ro_replacement := from_id tok,
                          ro_shares := new_qty, ro_price := new_price, ro_time_in_force := wire_tif (rq_tif (in_req info))\<rparr>;
                  (tokens, inserted) = fhm_insert Hash_u64 (om_tokens (sy_om sy)) tok s in
              if \<not> snd inserted then (om_upd (\<lambda>om. om\<lparr>om_tokens := tokens\<rparr>) sy, SS_capacity)
              else
                let sy = om_upd (\<lambda>om. om\<lparr>om_tokens := tokens\<rparr>) sy;
                    (w, sent) = ev_send_replace ev msg now (sy_world sy);
                    sy = sy\<lparr>sy_world := w\<rparr> in
                if \<not> sent then
                  (om_upd (\<lambda>om. om\<lparr>om_tokens := fst (fhm_erase Hash_u64 (om_tokens om) tok)\<rparr>) sy, SS_gateway_busy)
                else
                  let sy = (if growth \<noteq> 0 then sy\<lparr>sy_risk := admit (sy_risk sy) now\<rparr> else sy);
                      sy = set_ent s (\<lambda>e. e\<lparr>en_next_token := tok, en_replace_price := new_price, en_replace_qty := new_qty\<rparr>)
                             (om_upd (\<lambda>om. om\<lparr>om_next_token := tok + 1\<rparr>) sy);
                      sy = sync_ledger s sy;
                      sy = set_ent s (info_upd (\<lambda>i. i\<lparr>in_status := OS_pending_replace, in_last_update := now\<rparr>)) sy in
                  (notify ev (en_info (ent sy s)) sy, SS_ok))"

definition om_find :: "'w sys \<Rightarrow> OrderId \<Rightarrow> OmsInfo option" where
  "om_find sy oid = map_option (\<lambda>s. en_info (ent sy s)) (entry_slot (sy_om sy) oid)"

definition reserved_qty :: "'w sys \<Rightarrow> OrderId \<Rightarrow> Qty" where
  "reserved_qty sy oid = (case entry_slot (sy_om sy) oid of Some s \<Rightarrow> en_reserved (ent sy s) | None \<Rightarrow> 0)"

text \<open>The loop of \<^verbatim>\<open>cancel_all\<close> follows the links of the list while callbacks may change it.\<close>

partial_function (option) cancel_all_from ::
  "'w env \<Rightarrow> Nanos \<Rightarrow> OrderId \<Rightarrow> nat \<Rightarrow> nat \<Rightarrow> 'w sys \<Rightarrow> ('w sys \<times> nat) option" where
  "cancel_all_from ev now lst s sent sy =
     (if s = kNone then Some (sy, sent)
      else
        let e = ent sy s in
        if in_id (en_info e) > lst then Some (sy, sent)
        else if in_status (en_info e) \<noteq> OS_pending_cancel then
          (case cancel_entry ev s now sy of
             (sy, st) \<Rightarrow> cancel_all_from ev now lst (en_next e) (if st = SS_ok then sent + 1 else sent) sy)
        else cancel_all_from ev now lst (en_next e) sent sy)"

definition cancel_all :: "'w env \<Rightarrow> Nanos \<Rightarrow> 'w sys \<Rightarrow> ('w sys \<times> nat) option" where
  "cancel_all ev now sy = cancel_all_from ev now (om_next_id (sy_om sy) - 1) (om_head (sy_om sy)) 0 sy"

section \<open>Exchange reports\<close>

definition on_accepted :: "'w env \<Rightarrow> Accepted \<Rightarrow> Nanos \<Rightarrow> 'w sys \<Rightarrow> 'w sys" where
  "on_accepted ev a now sy =
     (case active_order (ac_token a) sy of
        (sy, None) \<Rightarrow> sy
      | (sy, Some s) \<Rightarrow>
          if en_accepted (ent sy s) \<or> (ac_order_state a \<noteq> asc CHR ''L'' \<and> ac_order_state a \<noteq> asc CHR ''D'') then invalid sy
          else
            let sy = set_ent s (\<lambda>e. info_upd (\<lambda>i. i\<lparr>in_exchange_ref := ac_ref a, in_last_update := now\<rparr>)
                       (e\<lparr>en_accepted := True, en_acked := True\<rparr>)) sy;
                sy = (if ac_order_state a = asc CHR ''D'' then end_of_life s None sy
                      else if in_status (en_info (ent sy s)) = OS_pending_new
                        then set_ent s (info_upd (\<lambda>i. i\<lparr>in_status := OS_live\<rparr>)) sy
                      else sy) in
            notify ev (en_info (ent sy s)) sy)"

text \<open>The booking of an execution on its order.\<close>

definition book_execution :: "Executed \<Rightarrow> Nanos \<Rightarrow> OmEntry \<Rightarrow> OmEntry" where
  "book_execution x now e =
     (let e = remember_match e (ex_match x);
          notional = en_notional e + word_of_int (ex_price x) * ucast (ex_shares x);
          info = en_info e;
          cum = in_cum_qty info + ex_shares x;
          info = info\<lparr>in_cum_qty := cum,
                      in_leaves_qty := in_leaves_qty info - min (ex_shares x) (in_leaves_qty info),
                      in_req := (in_req info)\<lparr>rq_qty := max (rq_qty (in_req info)) cum\<rparr>,
                      in_avg_price := uint (notional div ucast cum),
                      in_last_update := now\<rparr> in
      e\<lparr>en_acked := True, en_notional := notional, en_info := info\<rparr>)"

definition on_executed :: "'w env \<Rightarrow> Executed \<Rightarrow> Nanos \<Rightarrow> 'w sys \<Rightarrow> 'w sys" where
  "on_executed ev x now sy =
     (case active_order (ex_token x) sy of
        (sy, None) \<Rightarrow> sy
      | (sy, Some s) \<Rightarrow>
          let info = en_info (ent sy s) in
          if ex_shares x = 0 \<or> ex_price x \<le> 0 \<or> ex_price x > kMaxWirePrice \<or>
             ex_shares x > kMaxOrderQty - in_cum_qty info then invalid sy
          else if seen_match (ent sy s) (ex_match x) then invalid sy
          else
            let sy = (if ex_shares x > in_leaves_qty info then clamped sy else sy);
                sy = set_ent s (book_execution x now) sy;
                info = en_info (ent sy s);
                sy = sy\<lparr>sy_risk := on_fill (sy_risk sy) (rq_locate (in_req info)) (rq_side (in_req info)) (ex_shares x) (ex_price x)\<rparr>;
                sy = (if in_leaves_qty info = 0 then end_of_life s (Some OS_filled) sy
                      else sync_ledger s (if in_status info = OS_pending_new
                             then set_ent s (info_upd (\<lambda>i. i\<lparr>in_status := OS_live\<rparr>)) sy else sy)) in
            (case ev_listener ev of
               None \<Rightarrow> sy
             | Some li \<Rightarrow>
                 let before = en_info (ent sy s);
                     fill = \<lparr>fl_id = in_id before, fl_locate = rq_locate (in_req before), fl_side = rq_side (in_req before),
                             fl_qty = ex_shares x, fl_price = ex_price x, fl_ts = now, fl_match = ex_match x\<rparr>;
                     sy = li_fill li fill sy in
                 (case entry_slot (sy_om sy) (in_id before) of
                    Some s' \<Rightarrow> notify ev (en_info (ent sy s')) sy
                  | None \<Rightarrow> li_update li before sy)))"

definition on_canceled :: "'w env \<Rightarrow> Canceled \<Rightarrow> Nanos \<Rightarrow> 'w sys \<Rightarrow> 'w sys" where
  "on_canceled ev c now sy =
     (case active_order (cn_token c) sy of
        (sy, None) \<Rightarrow> sy
      | (sy, Some s) \<Rightarrow>
          if cn_decrement c = 0 then invalid sy
          else
            let qty = min (cn_decrement c) (in_leaves_qty (en_info (ent sy s)));
                sy = (if qty \<noteq> cn_decrement c then clamped sy else sy);
                sy = set_ent s (\<lambda>e. info_upd (\<lambda>i. i\<lparr>in_leaves_qty := in_leaves_qty i - qty, in_reason := cn_reason c, in_last_update := now\<rparr>)
                       (e\<lparr>en_acked := True\<rparr>)) sy;
                sy = (if in_leaves_qty (en_info (ent sy s)) = 0 then end_of_life s None sy
                      else sync_ledger s (if in_status (en_info (ent sy s)) = OS_pending_new
                             then set_ent s (info_upd (\<lambda>i. i\<lparr>in_status := OS_live\<rparr>)) sy else sy)) in
            notify ev (en_info (ent sy s)) sy)"

definition on_rejected :: "'w env \<Rightarrow> Rejected \<Rightarrow> Nanos \<Rightarrow> 'w sys \<Rightarrow> 'w sys" where
  "on_rejected ev r now sy =
     (case resolve (rj_token r) sy of
        (sy, None) \<Rightarrow> sy
      | (sy, Some (s, replacement)) \<Rightarrow>
          if is_terminal (in_status (en_info (ent sy s))) then late sy
          else if \<not> replacement \<and> en_acked (ent sy s) then invalid sy
          else
            let sy = (if replacement
                      then sync_ledger s (set_ent s (info_upd (\<lambda>i. i\<lparr>in_status := OS_live\<rparr>)) (drop_replacement s sy))
                      else end_of_life s (Some OS_rejected) sy);
                sy = set_ent s (info_upd (\<lambda>i. i\<lparr>in_reason := rj_reason r, in_last_update := now\<rparr>)) sy in
            notify ev (en_info (ent sy s)) sy)"

text \<open>The token swap and the new terms that a \<^verbatim>\<open>Replaced\<close> brings.\<close>

definition book_replaced :: "Accepted \<Rightarrow> Nanos \<Rightarrow> OmEntry \<Rightarrow> OmEntry" where
  "book_replaced a now e =
     (let info = en_info e;
          total = en_replace_qty e;
          asked = (if total > in_cum_qty info then total - in_cum_qty info else 0);
          info = info\<lparr>in_req := (in_req info)\<lparr>rq_qty := max total (in_cum_qty info),
                                   rq_price := (if ac_price a > 0 \<and> ac_price a \<le> kMaxWirePrice then ac_price a else en_replace_price e)\<rparr>,
                      in_exchange_ref := (if ac_ref a \<noteq> 0 then ac_ref a else in_exchange_ref info),
                      in_leaves_qty := (if ac_order_state a = asc CHR ''D'' then 0 else min (ac_shares a) asked),
                      in_last_update := now\<rparr> in
      e\<lparr>en_token := en_next_token e, en_next_token := 0, en_replace_qty := 0, en_replace_price := 0, en_info := info\<rparr>)"

definition on_replaced :: "'w env \<Rightarrow> Replaced \<Rightarrow> Nanos \<Rightarrow> 'w sys \<Rightarrow> 'w sys" where
  "on_replaced ev rp now sy =
     (case resolve (ac_token (rp_a rp)) sy of
        (sy, None) \<Rightarrow> sy
      | (sy, Some (s, replacement)) \<Rightarrow>
          if is_terminal (in_status (en_info (ent sy s))) then late sy
          else
            let state = ac_order_state (rp_a rp); e = ent sy s in
            if \<not> replacement \<or> rp_previous rp \<noteq> from_id (en_token e) \<or> (state \<noteq> asc CHR ''L'' \<and> state \<noteq> asc CHR ''D'')
            then invalid sy
            else
              let total = en_replace_qty e;
                  asked = (if total > in_cum_qty (en_info e) then total - in_cum_qty (en_info e) else 0);
                  sy = om_upd (\<lambda>om. om\<lparr>om_tokens := fst (fhm_erase Hash_u64 (om_tokens om) (en_token e))\<rparr>) sy;
                  sy = (if state \<noteq> asc CHR ''D'' \<and> ac_shares (rp_a rp) > asked then clamped sy else sy);
                  sy = set_ent s (book_replaced (rp_a rp) now) sy;
                  sy = (if in_leaves_qty (en_info (ent sy s)) = 0 then end_of_life s None sy
                        else sync_ledger s (if in_status (en_info (ent sy s)) = OS_pending_replace
                               then set_ent s (info_upd (\<lambda>i. i\<lparr>in_status := OS_live\<rparr>)) sy else sy)) in
              notify ev (en_info (ent sy s)) sy)"

end
