(* ===== verification/Order_Manager_Inv.thy ===== *)
theory Order_Manager_Inv
  imports Order_Manager
begin

text \<open>
  The invariant of the order manager and the proof that every call and every exchange report keeps
  it: the id and token tables, the ring of finished slots, the doubly linked list of working orders
  and the exposure ledger all describe the same set of orders. The report handlers rewrite one
  order at a time, so the invariant is stated with a set of slots that are being rewritten and the
  steps of a handler are chained over it.
\<close>

section \<open>The linked list of working orders\<close>

fun hd_or :: "nat list \<Rightarrow> nat \<Rightarrow> nat" where
  "hd_or [] d = d"
| "hd_or (x # xs) d = x"

definition last_or :: "nat \<Rightarrow> nat list \<Rightarrow> nat" where
  "last_or d xs = (if xs = [] then d else last xs)"

lemma last_or_simps [simp]: "last_or d [] = d" "last_or d (x # xs) = last_or x xs"
  by (simp_all add: last_or_def)

lemma hd_or_append: "hd_or (xs @ ys) d = hd_or xs (hd_or ys d)"
  by (cases xs) simp_all

lemma last_or_append: "last_or d (xs @ ys) = last_or (last_or d xs) ys"
  by (simp add: last_or_def)

lemma hd_or_in: "hd_or xs d \<in> insert d (set xs)"
  by (cases xs) simp_all

lemma last_or_in: "last_or d xs \<in> insert d (set xs)"
  by (simp add: last_or_def)

fun lseg :: "OmEntry list \<Rightarrow> nat \<Rightarrow> nat list \<Rightarrow> nat \<Rightarrow> bool" where
  "lseg es p [] n = True"
| "lseg es p (x # xs) n = (en_prev (es ! x) = p \<and> en_next (es ! x) = hd_or xs n \<and> lseg es x xs n)"

lemma lseg_append: "lseg es p (xs @ ys) n \<longleftrightarrow> lseg es p xs (hd_or ys n) \<and> lseg es (last_or p xs) ys n"
  by (induction xs arbitrary: p) (auto simp: hd_or_append)

lemma lseg_cong:
  "(\<And>x. x \<in> set xs \<Longrightarrow> en_prev (es' ! x) = en_prev (es ! x) \<and> en_next (es' ! x) = en_next (es ! x)) \<Longrightarrow>
   lseg es' p xs n = lseg es p xs n"
  by (induction xs arbitrary: p) auto

lemma lseg_set_other: "z \<notin> set xs \<Longrightarrow> lseg (es[z := e]) p xs n = lseg es p xs n"
  by (rule lseg_cong) (metis nth_list_update_neq)

lemma lseg_set_same:
  "en_prev e = en_prev (es ! z) \<Longrightarrow> en_next e = en_next (es ! z) \<Longrightarrow> lseg (es[z := e]) p xs n = lseg es p xs n"
  by (rule lseg_cong) (metis list_update_beyond not_le nth_list_update)

lemma lseg_set_next:
  assumes "lseg es p xs n" "xs \<noteq> []" "distinct xs" "\<forall>x \<in> set xs. x < length es"
  shows "lseg (es[last xs := (es ! last xs)\<lparr>en_next := n'\<rparr>]) p xs n'"
proof -
  obtain ys z where xs: "xs = ys @ [z]" using assms(2) by (cases xs rule: rev_cases) auto
  then show ?thesis using assms by (simp add: lseg_append lseg_set_other)
qed

lemma lseg_set_prev:
  assumes "lseg es p xs n" "xs \<noteq> []" "distinct xs" "\<forall>x \<in> set xs. x < length es"
  shows "lseg (es[hd xs := (es ! hd xs)\<lparr>en_prev := p'\<rparr>]) p' xs n"
proof -
  obtain z ys where xs: "xs = z # ys" using assms(2) by (cases xs) auto
  then show ?thesis using assms by (simp add: lseg_set_other)
qed

definition dll :: "OrderManager \<Rightarrow> nat list \<Rightarrow> bool" where
  "dll om ws = (lseg (om_orders om) kNone ws kNone \<and> om_head om = hd_or ws kNone \<and> om_tail om = last_or kNone ws \<and>
     distinct ws \<and> (\<forall>x \<in> set ws. x < length (om_orders om)) \<and> length (om_orders om) < kNone)"

lemma dll_neq_kNone: "dll om ws \<Longrightarrow> x \<in> set ws \<Longrightarrow> x \<noteq> kNone"
  by (auto simp: dll_def)

lemma dll_link:
  assumes d: "dll om ws" and s: "s \<notin> set ws" "s < length (om_orders om)"
  shows "dll (link s om) (ws @ [s])"
proof -
  define es where "es = (om_orders om)[s := (om_orders om ! s)\<lparr>en_prev := om_tail om, en_next := kNone\<rparr>]"
  have t: "om_tail om = last_or kNone ws" using d by (simp add: dll_def)
  have seg: "lseg es kNone ws kNone" using d s by (simp add: dll_def es_def lseg_set_other)
  have es: "length es = length (om_orders om)" "en_prev (es ! s) = last_or kNone ws" "en_next (es ! s) = kNone"
    using s t by (simp_all add: es_def)
  show ?thesis
  proof (cases "ws = []")
    case True
    then have "link s om = om\<lparr>om_orders := es, om_head := s, om_tail := s\<rparr>"
      using t by (simp add: link_def Let_def es_def)
    then show ?thesis using d s es True by (simp add: dll_def)
  next
    case False
    then have tl: "om_tail om = last ws" "om_tail om \<noteq> kNone"
      using t dll_neq_kNone [OF d, of "last ws"] by (simp_all add: last_or_def)
    define es2 where "es2 = es[last ws := (es ! last ws)\<lparr>en_next := s\<rparr>]"
    have l: "link s om = om\<lparr>om_orders := es2, om_tail := s\<rparr>"
      using tl by (simp add: link_def Let_def es_def es2_def)
    have "\<forall>x \<in> set ws. x < length es" "distinct ws" using d es(1) by (auto simp: dll_def)
    then have "lseg es2 kNone ws s" unfolding es2_def by (intro lseg_set_next [OF seg False]) auto
    moreover have "es2 ! s = es ! s" using s False last_in_set [OF False] by (metis es2_def nth_list_update_neq)
    moreover have "om_head om = hd_or (ws @ [s]) kNone" using d False by (cases ws) (simp_all add: dll_def)
    ultimately show ?thesis using d s es False by (simp add: dll_def l lseg_append last_or_append es2_def)
  qed
qed

text \<open>Unlinking, on the two halves of the list around the slot.\<close>

lemma dll_unlink:
  assumes d: "dll om (xs @ s # ys)"
  shows "dll (unlink s om) (xs @ ys)"
proof -
  define es where "es = om_orders om"
  define p n where "p = last_or kNone xs" and "n = hd_or ys kNone"
  have seg: "lseg es kNone xs s" "lseg es s ys kNone" "en_prev (es ! s) = p" "en_next (es ! s) = n"
    using d by (simp_all add: dll_def lseg_append es_def p_def n_def)
  have dist: "distinct xs" "distinct ys" "s \<notin> set xs" "s \<notin> set ys" "set xs \<inter> set ys = {}"
    and bnd: "\<forall>x \<in> set xs. x < length es" "\<forall>x \<in> set ys. x < length es" "s < length es" "length es < kNone"
    using d by (auto simp: dll_def es_def)
  have pn: "p = kNone \<longleftrightarrow> xs = []" "n = kNone \<longleftrightarrow> ys = []"
    using dll_neq_kNone [OF d] by (auto simp: p_def last_or_def, cases ys, auto simp: n_def)
  define es1 where "es1 = (if p \<noteq> kNone then es[p := (es ! p)\<lparr>en_next := n\<rparr>] else es)"
  define es2 where "es2 = (if n \<noteq> kNone then es1[n := (es1 ! n)\<lparr>en_prev := p\<rparr>] else es1)"
  have p_xs: "xs \<noteq> [] \<Longrightarrow> p = last xs" by (simp add: p_def last_or_def)
  have n_ys: "ys \<noteq> [] \<Longrightarrow> n = hd ys" by (cases ys) (simp_all add: n_def)
  have s1: "lseg es1 kNone xs n" "lseg es1 s ys kNone"
    using seg dist bnd pn p_xs lseg_set_next [OF seg(1), of n] last_in_set [of xs]
    by (auto simp: es1_def lseg_set_other disjoint_iff)
  have l1: "length es1 = length es" by (simp add: es1_def)
  have "ys \<noteq> [] \<Longrightarrow> n \<notin> set xs" using n_ys dist hd_in_set [of ys] by auto
  then have s2: "lseg es2 kNone xs n" "lseg es2 p ys kNone"
    using s1 dist bnd pn n_ys lseg_set_prev [OF s1(2), of p] l1
    by (auto simp: es2_def lseg_set_other)
  have orders: "om_orders (unlink s om) = es2[s := (es2 ! s)\<lparr>en_prev := kNone, en_next := kNone\<rparr>]"
    and ends: "om_head (unlink s om) = (if p \<noteq> kNone then om_head om else n)"
      "om_tail (unlink s om) = (if n \<noteq> kNone then om_tail om else p)"
    using seg(3,4) by (simp_all add: unlink_def Let_def es_def [symmetric] es2_def es1_def)
  have "lseg es2 kNone (xs @ ys) kNone" using s2 by (simp add: lseg_append p_def n_def)
  then have "lseg (om_orders (unlink s om)) kNone (xs @ ys) kNone" using dist by (simp add: orders lseg_set_other)
  moreover have "om_head (unlink s om) = hd_or (xs @ ys) kNone"
    using d pn by (cases xs) (simp_all add: ends dll_def n_def)
  moreover have "om_tail (unlink s om) = last_or kNone (xs @ ys)"
    using d pn by (cases "ys = []") (simp_all add: ends dll_def p_def last_or_def)
  moreover have "length (om_orders (unlink s om)) = length es" by (simp add: orders es2_def l1)
  ultimately show ?thesis using dist bnd by (auto simp: dll_def)
qed

text \<open>What the list operations leave alone.\<close>

definition same_terms :: "OmEntry \<Rightarrow> OmEntry \<Rightarrow> bool" where
  "same_terms e e' = (e'\<lparr>en_prev := 0, en_next := 0\<rparr> = e\<lparr>en_prev := 0, en_next := 0\<rparr>)"

lemma same_terms_refl [simp]: "same_terms e e"
  by (simp add: same_terms_def)

lemma same_termsD:
  assumes "same_terms e e'"
  shows "en_info e' = en_info e" "en_token e' = en_token e" "en_next_token e' = en_next_token e"
    "en_replace_price e' = en_replace_price e" "en_replace_qty e' = en_replace_qty e" "en_reserved e' = en_reserved e"
    "en_notional e' = en_notional e" "en_matches e' = en_matches e" "en_match_count e' = en_match_count e"
    "en_accepted e' = en_accepted e" "en_acked e' = en_acked e"
  using assms by (cases e; cases e'; simp add: same_terms_def)+

lemma same_terms_links [simp]:
  "same_terms e (e\<lparr>en_prev := p\<rparr>)" "same_terms e (e\<lparr>en_next := n\<rparr>)" "same_terms e (e\<lparr>en_prev := p, en_next := n\<rparr>)"
  by (simp_all add: same_terms_def)

lemma same_terms_trans: "same_terms a b \<Longrightarrow> same_terms b c \<Longrightarrow> same_terms a c"
  by (simp add: same_terms_def)

definition relinked :: "OmEntry list \<Rightarrow> OmEntry list \<Rightarrow> bool" where
  "relinked es es' = (length es' = length es \<and> (\<forall>i < length es. same_terms (es ! i) (es' ! i)))"

lemma relinked_refl [simp]: "relinked es es"
  by (simp add: relinked_def)

lemma relinked_trans: "relinked a b \<Longrightarrow> relinked b c \<Longrightarrow> relinked a c"
  by (auto simp: relinked_def intro: same_terms_trans)

lemma relinked_set: "same_terms (es ! i) e \<Longrightarrow> relinked es (es[i := e])"
  unfolding relinked_def by (metis length_list_update nth_list_update_eq nth_list_update_neq same_terms_refl)

lemma relinked_link: "relinked (om_orders om) (om_orders (link s om))"
  unfolding link_def Let_def
  by (auto intro!: relinked_set relinked_trans [OF relinked_set relinked_set])

lemma relinked_unlink: "relinked (om_orders om) (om_orders (unlink s om))"
  unfolding unlink_def Let_def
  by (auto intro!: relinked_set intro: relinked_trans [OF relinked_set relinked_set]
      relinked_trans [OF relinked_set relinked_trans [OF relinked_set relinked_set]])

lemma link_frame [simp]:
  "om_by_id (link s om) = om_by_id om" "om_tokens (link s om) = om_tokens om" "om_finished (link s om) = om_finished om"
  "om_finished_head (link s om) = om_finished_head om" "om_finished_count (link s om) = om_finished_count om"
  "om_fresh (link s om) = om_fresh om" "om_next_id (link s om) = om_next_id om" "om_open (link s om) = om_open om"
  "om_next_token (link s om) = om_next_token om" "om_stats (link s om) = om_stats om"
  by (simp_all add: link_def Let_def)

lemma unlink_frame [simp]:
  "om_by_id (unlink s om) = om_by_id om" "om_tokens (unlink s om) = om_tokens om" "om_finished (unlink s om) = om_finished om"
  "om_finished_head (unlink s om) = om_finished_head om" "om_finished_count (unlink s om) = om_finished_count om"
  "om_fresh (unlink s om) = om_fresh om" "om_next_id (unlink s om) = om_next_id om" "om_open (unlink s om) = om_open om"
  "om_next_token (unlink s om) = om_next_token om" "om_stats (unlink s om) = om_stats om"
  by (simp_all add: unlink_def Let_def)

section \<open>The ring of finished slots\<close>

definition ring :: "OrderManager \<Rightarrow> nat list \<Rightarrow> bool" where
  "ring om fs = (length fs = om_finished_count om \<and> length fs \<le> length (om_finished om) \<and>
     (om_finished om \<noteq> [] \<longrightarrow> om_finished_head om < length (om_finished om)) \<and>
     (\<forall>i < length fs. om_finished om ! ((om_finished_head om + i) mod length (om_finished om)) = fs ! i))"

lemma ring_frame [simp]:
  "ring (om\<lparr>om_orders := a\<rparr>) = ring om" "ring (om\<lparr>om_by_id := b\<rparr>) = ring om" "ring (om\<lparr>om_tokens := c\<rparr>) = ring om"
  "ring (om\<lparr>om_fresh := f\<rparr>) = ring om" "ring (om\<lparr>om_next_id := g\<rparr>) = ring om" "ring (om\<lparr>om_open := i\<rparr>) = ring om"
  "ring (om\<lparr>om_next_token := j\<rparr>) = ring om" "ring (om\<lparr>om_stats := k\<rparr>) = ring om"
  "ring (link s om) = ring om" "ring (unlink s om) = ring om"
  by (simp_all add: ring_def fun_eq_iff)

lemma dll_frame [simp]:
  "dll (om\<lparr>om_by_id := b\<rparr>) = dll om" "dll (om\<lparr>om_tokens := c\<rparr>) = dll om"
  "dll (om\<lparr>om_fresh := f\<rparr>) = dll om" "dll (om\<lparr>om_next_id := g\<rparr>) = dll om" "dll (om\<lparr>om_open := i\<rparr>) = dll om"
  "dll (om\<lparr>om_next_token := j\<rparr>) = dll om" "dll (om\<lparr>om_stats := k\<rparr>) = dll om"
  "dll (om\<lparr>om_finished_head := l\<rparr>) = dll om" "dll (om\<lparr>om_finished_count := n\<rparr>) = dll om" "dll (queue_finished s om) = dll om"
  by (simp_all add: dll_def queue_finished_def fun_eq_iff)

lemma ring_push:
  assumes r: "ring om fs" and room: "length fs < length (om_finished om)"
  shows "ring (queue_finished s om) (fs @ [s])"
proof -
  define N h where "N = length (om_finished om)" and "h = om_finished_head om"
  have "(h + i) mod N \<noteq> (h + length fs) mod N" if "i < length fs" for i
    using mod_neq_within [of "h + i" "h + length fs" N] that room by (simp add: N_def)
  moreover have "(h + length fs) mod N < N" using room by (intro mod_less_divisor) (unfold N_def, linarith)
  ultimately show ?thesis using r room
    by (auto simp: ring_def queue_finished_def N_def [symmetric] h_def [symmetric] nth_append less_Suc_eq)
      (metis nth_list_update_neq)
qed

lemma ring_pop:
  assumes r: "ring om (s # fs)"
  shows "om_finished om ! om_finished_head om = s"
    "ring (om\<lparr>om_finished_head := (om_finished_head om + 1) mod length (om_finished om), om_finished_count := om_finished_count om - 1\<rparr>) fs"
proof -
  have ne: "om_finished om \<noteq> []" using r by (auto simp: ring_def)
  show "om_finished om ! om_finished_head om = s" using r ne by (force simp: ring_def)
  have "((om_finished_head om + 1) mod N + i) mod N = (om_finished_head om + Suc i) mod N" for i N
    by (simp add: mod_simps)
  then show "ring (om\<lparr>om_finished_head := (om_finished_head om + 1) mod length (om_finished om), om_finished_count := om_finished_count om - 1\<rparr>) fs"
    using r ne by (auto simp: ring_def dest: spec [of _ "Suc i" for i])
qed

section \<open>The exposure ledger\<close>

text \<open>What an order holds of the ledger of an instrument and a side, in shares and in orders.\<close>

definition holds :: "Locate \<Rightarrow> Side \<Rightarrow> OmEntry \<Rightarrow> bool" where
  "holds l d e = (rq_locate (in_req (en_info e)) = l \<and> rq_side (in_req (en_info e)) = d)"

definition share :: "Locate \<Rightarrow> Side \<Rightarrow> OmEntry \<Rightarrow> int" where
  "share l d e = (if holds l d e then uint (en_reserved e) else 0)"

definition counts :: "Locate \<Rightarrow> Side \<Rightarrow> OmEntry \<Rightarrow> nat" where
  "counts l d e = (if holds l d e \<and> en_reserved e \<noteq> 0 then 1 else 0)"

definition open_count :: "RiskEngine \<Rightarrow> Locate \<Rightarrow> Side \<Rightarrow> nat" where
  "open_count re l d = (case slot_at re l of Some s \<Rightarrow> unat (rs_open_count s d) | None \<Rightarrow> 0)"

definition ledger_ok :: "RiskEngine \<Rightarrow> OmEntry list \<Rightarrow> bool" where
  "ledger_ok re es = (risk_inv re \<and>
     (\<forall>l d. valid_side d \<longrightarrow> open_qty re l d = (\<Sum>e\<leftarrow>es. share l d e) \<and> open_count re l d = (\<Sum>e\<leftarrow>es. counts l d e)) \<and>
     (\<forall>e \<in> set es. en_reserved e \<le> kMaxOrderQty \<and>
        (en_reserved e \<noteq> 0 \<longrightarrow> slot_at re (rq_locate (in_req (en_info e))) \<noteq> None \<and> valid_side (rq_side (in_req (en_info e))))))"

lemma share_bounds: "0 \<le> share l d e" "en_reserved e \<le> kMaxOrderQty \<Longrightarrow> share l d e \<le> 999999"
  by (simp_all add: share_def kMaxOrderQty_def word_le_def)

lemma counts_le: "counts l d e \<le> 1"
  by (simp add: counts_def)

lemma share_sum_bounds:
  "0 \<le> (\<Sum>e\<leftarrow>es. share l d e)"
  "(\<forall>e \<in> set es. en_reserved e \<le> kMaxOrderQty) \<Longrightarrow> (\<Sum>e\<leftarrow>es. share l d e) \<le> 999999 * int (length es)"
  by (induction es) (auto simp: share_bounds add_nonneg_nonneg dest: share_bounds(2) [of _ l d])

lemma counts_sum_le: "(\<Sum>e\<leftarrow>es. counts l d e) \<le> length es"
  by (induction es) (use counts_le in \<open>auto intro: add_mono simp: Suc_le_eq le_SucI counts_def\<close>)

lemma share_le_sum: "e \<in> set es \<Longrightarrow> share l d e \<le> (\<Sum>e\<leftarrow>es. share l d e)"
  by (rule member_le_sum_list) (auto simp: share_bounds)

lemma counts_le_sum: "e \<in> set es \<Longrightarrow> counts l d e \<le> (\<Sum>e\<leftarrow>es. counts l d e)"
  by (rule member_le_sum_list) auto

text \<open>How a call on the risk engine moves the ledger.\<close>

definition moves :: "RiskEngine \<Rightarrow> RiskEngine \<Rightarrow> Locate \<Rightarrow> Side \<Rightarrow> int \<Rightarrow> int \<Rightarrow> bool" where
  "moves re re' l d q c = ((risk_inv re \<longrightarrow> risk_inv re') \<and> (\<forall>l'. (slot_at re' l' = None) = (slot_at re l' = None)) \<and>
     (\<forall>l' d'. valid_side d' \<longrightarrow>
        open_qty re' l' d' = open_qty re l' d' + (if l' = l \<and> d' = d then q else 0) \<and>
        int (open_count re' l' d') = int (open_count re l' d') + (if l' = l \<and> d' = d then c else 0)))"

lemma ledger_move:
  assumes ok: "ledger_ok re es" and m: "moves re re' l d q c" and s: "s < length es"
    and e: "holds l d e'" "en_reserved e' \<le> kMaxOrderQty"
      "en_reserved e' \<noteq> 0 \<Longrightarrow> slot_at re l \<noteq> None \<and> valid_side d"
      "q = uint (en_reserved e') - share l d (es ! s)" "c = int (counts l d e') - int (counts l d (es ! s))"
    and o: "\<And>l' d'. l' \<noteq> l \<or> d' \<noteq> d \<Longrightarrow> holds l' d' (es ! s) \<Longrightarrow> en_reserved (es ! s) = 0"
  shows "ledger_ok re' (es[s := e'])"
proof -
  have sh: "share l' d' e' - share l' d' (es ! s) = (if l' = l \<and> d' = d then q else 0)"
    "int (counts l' d' e') - int (counts l' d' (es ! s)) = (if l' = l \<and> d' = d then c else 0)" for l' d'
    using e(1,4,5) o [of l' d'] by (auto simp: share_def counts_def holds_def)
  have *: "int (\<Sum>e\<leftarrow>es[s := e']. counts l' d' e) = int (\<Sum>e\<leftarrow>es. counts l' d' e) + (if l' = l \<and> d' = d then c else 0)" for l' d'
    using sum_list_update_nat [OF s, of "counts l' d'" e'] sh(2) [of l' d'] counts_le_sum [OF nth_mem [OF s], of l' d'] by simp
  have cnt: "open_count re' l' d' = (\<Sum>e\<leftarrow>es[s := e']. counts l' d' e)" if "valid_side d'" for l' d'
  proof -
    have "int (open_count re' l' d') = int (\<Sum>e\<leftarrow>es[s := e']. counts l' d' e)"
      unfolding * using ok m that by (simp add: ledger_ok_def moves_def)
    then show ?thesis by simp
  qed
  have "open_qty re' l' d' = (\<Sum>e\<leftarrow>es[s := e']. share l' d' e)" if "valid_side d'" for l' d'
    using sum_list_update_int [OF s, of "share l' d'" e'] sh(1) [of l' d'] ok m that by (simp add: ledger_ok_def moves_def)
  moreover have "\<forall>e \<in> set (es[s := e']). en_reserved e \<le> kMaxOrderQty \<and> (en_reserved e \<noteq> 0 \<longrightarrow>
      slot_at re' (rq_locate (in_req (en_info e))) \<noteq> None \<and> valid_side (rq_side (in_req (en_info e))))"
  proof
    fix x assume "x \<in> set (es[s := e'])"
    then consider "x = e'" | "x \<in> set es" using set_update_subset_insert [of es s e'] by auto
    then show "en_reserved x \<le> kMaxOrderQty \<and> (en_reserved x \<noteq> 0 \<longrightarrow>
      slot_at re' (rq_locate (in_req (en_info x))) \<noteq> None \<and> valid_side (rq_side (in_req (en_info x))))"
      using ok m e(1-3) by cases (simp_all add: ledger_ok_def moves_def holds_def)
  qed
  moreover have "risk_inv re'" using ok m by (simp add: ledger_ok_def moves_def)
  ultimately show ?thesis using cnt unfolding ledger_ok_def by blast
qed

lemma ledger_same: "ledger_ok re es \<Longrightarrow> moves re re' l d 0 0 \<Longrightarrow> ledger_ok re' es"
  by (auto simp: ledger_ok_def moves_def)

lemma ledger_cong:
  assumes "ledger_ok re es" "length es' = length es"
    "\<And>i. i < length es \<Longrightarrow> en_reserved (es' ! i) = en_reserved (es ! i) \<and>
       rq_locate (in_req (en_info (es' ! i))) = rq_locate (in_req (en_info (es ! i))) \<and>
       rq_side (in_req (en_info (es' ! i))) = rq_side (in_req (en_info (es ! i)))"
  shows "ledger_ok re es'"
proof -
  have "map (share l d) es' = map (share l d) es" "map (counts l d) es' = map (counts l d) es" for l d
    using assms(2,3) by (auto intro!: nth_equalityI simp: share_def counts_def holds_def)
  moreover have "\<forall>e' \<in> set es'. \<exists>e \<in> set es. en_reserved e' = en_reserved e \<and>
      rq_locate (in_req (en_info e')) = rq_locate (in_req (en_info e)) \<and> rq_side (in_req (en_info e')) = rq_side (in_req (en_info e))"
    using assms(2,3) by (metis in_set_conv_nth)
  ultimately show ?thesis using assms(1) unfolding ledger_ok_def by (metis (no_types, lifting))
qed

lemma open_count_slot: "slot_at re l = Some s \<Longrightarrow> open_count re l d = unat (rs_open_count s d)"
  by (simp add: open_count_def)

lemma movesI:
  assumes "risk_inv re \<Longrightarrow> risk_inv re'" "\<And>l'. l' \<noteq> l \<Longrightarrow> slot_at re' l' = slot_at re l'"
    and "slot_at re l = Some s" "slot_at re' l = Some s'"
    and "\<And>d'. rs_open s' d' = rs_open s d' + (if d' = d then q else 0)"
    and "\<And>d'. uint (rs_open_count s' d') = uint (rs_open_count s d') + (if d' = d then c else 0)"
  shows "moves re re' l d q c"
proof -
  have "(slot_at re' l' = None) = (slot_at re l' = None)" for l' using assms(2-4) by (cases "l' = l") auto
  moreover have "open_qty re' l' d' = open_qty re l' d' + (if l' = l \<and> d' = d then q else 0) \<and>
      int (open_count re' l' d') = int (open_count re l' d') + (if l' = l \<and> d' = d then c else 0)"
    if "valid_side d'" for l' d'
    using assms(2-6) that by (cases "l' = l") (simp_all add: open_qty_def open_count_def)
  ultimately show ?thesis using assms(1) by (simp add: moves_def)
qed

lemma moves_open:
  assumes "slot_at re l = Some s" "valid_side d" "q \<noteq> 0" "open_qty re l d + uint q \<le> kInt64Max" "0 \<le> open_qty re l d"
    "open_count re l d < 2 ^ 32 - 1"
  shows "moves re (on_order_open re l d q) l d (uint q) 1"
proof -
  have c: "rs_open_count s d \<noteq> - 1" using assms(1,6) by (simp add: open_count_slot word_eq_max_iff)
  have "clamp64 (rs_open s d + uint q) = rs_open s d + uint q"
    using assms(1,2,4,5) by (intro clamp64_id) (simp add: open_qty_slot)
  moreover obtain s' where "slot_at (on_order_open re l d q) l = Some s'"
    "rs_open s' = (rs_open s)(d := clamp64 (rs_open s d + uint q))" "rs_open_count s' = (rs_open_count s)(d := rs_open_count s d + 1)"
    using assms(1-3) c by (simp add: on_order_open_def Let_def slot_at_refresh)
  moreover have "uint (rs_open_count s d + 1) = uint (rs_open_count s d) + 1"
    using unat_plus_one [OF c] by (simp add: uint_nat del: of_nat_unat)
  ultimately show ?thesis using assms(1) by (intro movesI [OF on_order_open_inv open_qty_other(1), where s = s and s' = s']) simp_all
qed

lemma moves_grow:
  assumes "slot_at re l = Some s" "valid_side d" "q \<noteq> 0" "open_qty re l d + uint q \<le> kInt64Max" "0 \<le> open_qty re l d"
  shows "moves re (on_order_grow re l d q) l d (uint q) 0"
proof -
  have "clamp64 (rs_open s d + uint q) = rs_open s d + uint q"
    using assms(1,2,4,5) by (intro clamp64_id) (simp add: open_qty_slot)
  moreover obtain s' where "slot_at (on_order_grow re l d q) l = Some s'"
    "rs_open s' = (rs_open s)(d := clamp64 (rs_open s d + uint q))" "rs_open_count s' = rs_open_count s"
    using assms(1-3) by (simp add: on_order_grow_def slot_at_refresh)
  ultimately show ?thesis using assms(1) by (intro movesI [OF on_order_grow_inv open_qty_other(2), where s = s and s' = s']) simp_all
qed

lemma moves_reduce:
  assumes "slot_at re l = Some s" "valid_side d" "uint q \<le> open_qty re l d"
  shows "moves re (on_order_reduce re l d q) l d (- uint q) 0"
proof -
  obtain s' where "slot_at (on_order_reduce re l d q) l = Some s'"
    "rs_open s' = (rs_open s)(d := rs_open s d - uint q)" "rs_open_count s' = rs_open_count s"
    using assms by (simp add: on_order_reduce_def slot_at_refresh open_qty_slot min_def)
  then show ?thesis using assms(1) by (intro movesI [OF on_order_reduce_inv open_qty_other(3), where s = s and s' = s']) simp_all
qed

lemma moves_end:
  assumes "slot_at re l = Some s" "valid_side d" "uint q \<le> open_qty re l d" "0 < open_count re l d"
  shows "moves re (on_order_end re l d q) l d (- uint q) (- 1)"
proof -
  have c: "rs_open_count s d \<noteq> 0" using assms(1,4) by (auto simp: open_count_slot)
  then have "1 \<le> rs_open_count s d" by (simp add: word_le_nat_alt Suc_le_eq unat_gt_0)
  then have "uint (rs_open_count s d - 1) = uint (rs_open_count s d) - 1"
    using c by (simp add: uint_nat unat_minus_le of_nat_diff unat_gt_0 Suc_le_eq del: of_nat_unat)
  moreover obtain s' where "slot_at (on_order_end re l d q) l = Some s'"
    "rs_open s' = (rs_open s)(d := rs_open s d - uint q)" "rs_open_count s' = (rs_open_count s)(d := rs_open_count s d - 1)"
    using assms(1-3) c by (simp add: on_order_end_def Let_def slot_at_refresh open_qty_slot min_def)
  ultimately show ?thesis using assms(1) by (intro movesI [OF on_order_end_inv open_qty_other(4), where s = s and s' = s']) simp_all
qed

lemma moves_none:
  "moves re re l d 0 0"
  "p \<le> kInt64Max \<Longrightarrow> moves re (on_fill re l' d' q p) l d 0 0"
  "p \<le> kInt64Max \<Longrightarrow> moves re (mark re l' p) l d 0 0"
  "moves re (admit re now) l d 0 0" "moves re (set_kill_switch re b) l d 0 0"
  by (auto simp: moves_def on_fill_inv mark_inv admit_def)
    (auto simp: open_qty_def open_count_def on_fill_def mark_def Let_def
      slot_at_refresh split: option.splits if_splits)

section \<open>The invariant\<close>

text \<open>The tokens by which the exchange may address an order.\<close>

definition owned :: "OmEntry \<Rightarrow> u64 set" where
  "owned e = insert (en_token e) (if en_next_token e = 0 then {} else {en_next_token e})"

definition tables_ok :: "OrderManager \<Rightarrow> bool" where
  "tables_ok om =
     (fhm_inv Hash_u64 (om_by_id om) \<and> fhm_max (om_by_id om) = length (om_orders om) \<and>
      fhm_inv Hash_u64 (om_tokens om) \<and> fhm_max (om_tokens om) = 2 * length (om_orders om) \<and>
      (\<forall>i s. fhm_find Hash_u64 (om_by_id om) i = Some s \<longleftrightarrow> s < om_fresh om \<and> in_id (en_info (om_orders om ! s)) = i) \<and>
      (\<forall>t s. fhm_find Hash_u64 (om_tokens om) t = Some s \<longleftrightarrow> s < om_fresh om \<and> t \<in> owned (om_orders om ! s)) \<and>
      (\<forall>s < om_fresh om. 0 < in_id (en_info (om_orders om ! s)) \<and> in_id (en_info (om_orders om ! s)) < om_next_id om \<and>
         en_token (om_orders om ! s) \<noteq> en_next_token (om_orders om ! s) \<and>
         (\<forall>t \<in> owned (om_orders om ! s). 0 < t \<and> t < om_next_token om \<and> t \<le> Token_kMaxId)) \<and>
      0 < om_next_id om \<and> om_next_id om \<le> om_next_token om)"

text \<open>
  What holds of one order. A finished order has nothing open and holds nothing; a working order
  has open quantity, and the ledger holds exactly what \<^verbatim>\<open>sync_ledger\<close> would want for it.
\<close>

definition terminal :: "OmEntry \<Rightarrow> bool" where
  "terminal e = is_terminal (in_status (en_info e))"

definition entry_core :: "OmEntry \<Rightarrow> bool" where
  "entry_core e =
     (let i = en_info e in
      unat (in_cum_qty i) + unat (in_leaves_qty i) \<le> unat (rq_qty (in_req i)) \<and> rq_qty (in_req i) \<le> kMaxOrderQty \<and>
      en_replace_qty e \<le> kMaxOrderQty \<and> valid_side (rq_side (in_req i)) \<and>
      length (en_matches e) = kMatchMemory \<and> en_match_count e \<le> in_cum_qty i \<and>
      unat (en_notional e) \<le> unat (in_cum_qty i) * 0xFFFFFFFF \<and>
      in_avg_price i = uint (en_notional e) div uint (in_cum_qty i))"

definition entry_ok :: "OmEntry \<Rightarrow> bool" where
  "entry_ok e = (entry_core e \<and>
     (if terminal e then in_leaves_qty (en_info e) = 0 \<and> en_reserved e = 0 \<and> en_next_token e = 0
      else in_leaves_qty (en_info e) \<noteq> 0 \<and> en_reserved e = ledger_want e \<and>
        (in_status (en_info e) = OS_pending_replace \<longrightarrow> en_next_token e \<noteq> 0) \<and>
        (en_next_token e \<noteq> 0 \<longrightarrow> in_status (en_info e) = OS_pending_replace \<or> in_status (en_info e) = OS_pending_cancel)))"

definition slots_ok :: "OrderManager \<Rightarrow> nat list \<Rightarrow> nat list \<Rightarrow> bool" where
  "slots_ok om ws fs =
     (dll om ws \<and> ring om fs \<and> length (om_finished om) = length (om_orders om) \<and> om_fresh om \<le> length (om_orders om) \<and>
      distinct (ws @ fs) \<and> set (ws @ fs) = {..< om_fresh om} \<and> om_open om = length ws \<and>
      sorted_wrt (<) (map (\<lambda>s. in_id (en_info (om_orders om ! s))) ws) \<and>
      (\<forall>s. om_fresh om \<le> s \<longrightarrow> s < length (om_orders om) \<longrightarrow> en_reserved (om_orders om ! s) = 0))"

text \<open>The slots in \<open>X\<close> are working orders whose terms are being rewritten.\<close>

definition om_at :: "nat set \<Rightarrow> nat list \<Rightarrow> nat list \<Rightarrow> 'w sys \<Rightarrow> bool" where
  "om_at X ws fs sy =
     (slots_ok (sy_om sy) ws fs \<and> tables_ok (sy_om sy) \<and> ledger_ok (sy_risk sy) (om_orders (sy_om sy)) \<and>
      X \<subseteq> set ws \<and> (\<forall>s \<in> set ws - X. entry_ok (ent sy s) \<and> \<not> terminal (ent sy s)) \<and>
      (\<forall>s \<in> X. valid_side (rq_side (in_req (en_info (ent sy s)))) \<and> en_reserved (ent sy s) \<noteq> 0) \<and>
      (\<forall>s \<in> set fs. entry_ok (ent sy s) \<and> terminal (ent sy s)))"

definition om_inv :: "'w sys \<Rightarrow> bool" where
  "om_inv sy = (\<exists>ws fs. om_at {} ws fs sy)"

section \<open>Rewriting one working order\<close>

lemma om_at_world [simp]: "om_at X ws fs (sy\<lparr>sy_world := w\<rparr>) = om_at X ws fs sy"
  by (simp add: om_at_def)

lemma om_at_stats_only:
  "slots_ok (om\<lparr>om_stats := st\<rparr>) ws fs = slots_ok om ws fs" "tables_ok (om\<lparr>om_stats := st\<rparr>) = tables_ok om"
  by (simp_all add: slots_ok_def dll_def ring_def tables_ok_def)

lemma om_at_stats [simp]:
  "om_at X ws fs (late sy) = om_at X ws fs sy" "om_at X ws fs (invalid sy) = om_at X ws fs sy"
  "om_at X ws fs (clamped sy) = om_at X ws fs sy" "om_at X ws fs (unknown sy) = om_at X ws fs sy"
  by (simp_all add: om_at_def late_def invalid_def clamped_def unknown_def om_upd_def om_at_stats_only)

lemma om_inv_frame [simp]:
  "om_inv (sy\<lparr>sy_world := w\<rparr>) = om_inv sy" "om_inv (late sy) = om_inv sy" "om_inv (invalid sy) = om_inv sy"
  "om_inv (clamped sy) = om_inv sy" "om_inv (unknown sy) = om_inv sy"
  by (simp_all add: om_inv_def)

lemma om_at_slots:
  assumes "om_at X ws fs sy"
  shows "\<And>s. s \<in> set ws \<Longrightarrow> s < om_fresh (sy_om sy)" "\<And>s. s \<in> set fs \<Longrightarrow> s < om_fresh (sy_om sy)"
    "om_fresh (sy_om sy) \<le> length (om_orders (sy_om sy))" "length (om_orders (sy_om sy)) < kNone"
    "set ws \<inter> set fs = {}" "\<And>s. s < om_fresh (sy_om sy) \<Longrightarrow> s \<in> set ws \<or> s \<in> set fs"
  using assms by (auto simp: om_at_def slots_ok_def dll_def)

lemma om_at_working: "om_at {} ws fs sy \<Longrightarrow> s < om_fresh (sy_om sy) \<Longrightarrow> s \<in> set ws \<longleftrightarrow> \<not> terminal (ent sy s)"
  using om_at_slots(5,6) [of "{}" ws fs sy] by (auto simp: om_at_def)

lemma ledger_want_ge: "in_leaves_qty (en_info e) \<le> ledger_want e"
  by (simp add: ledger_want_def)

lemma om_at_open:
  assumes "om_at {} ws fs sy" "s \<in> set ws"
  shows "om_at {s} ws fs sy"
proof -
  have "entry_ok (ent sy s)" "\<not> terminal (ent sy s)" using assms by (auto simp: om_at_def)
  then have "valid_side (rq_side (in_req (en_info (ent sy s))))" "en_reserved (ent sy s) \<noteq> 0"
    using ledger_want_ge [of "ent sy s"] by (auto simp: entry_ok_def entry_core_def Let_def)
  then show ?thesis using assms by (auto simp: om_at_def)
qed

lemma om_at_close: "om_at {s} ws fs sy \<Longrightarrow> entry_ok (ent sy s) \<Longrightarrow> \<not> terminal (ent sy s) \<Longrightarrow> om_at {} ws fs sy"
  by (auto simp: om_at_def)

definition retoken :: "nat \<Rightarrow> OmEntry \<Rightarrow> OrderManager \<Rightarrow> (u64, nat) fhm \<Rightarrow> u64 \<Rightarrow> bool" where
  "retoken s e' om T nt =
     (fhm_inv Hash_u64 T \<and> fhm_max T = fhm_max (om_tokens om) \<and> om_next_token om \<le> nt \<and> en_token e' \<noteq> en_next_token e' \<and>
      (\<forall>t. fhm_find Hash_u64 T t =
         (if t \<in> owned e' then Some s else if t \<in> owned (om_orders om ! s) then None else fhm_find Hash_u64 (om_tokens om) t)) \<and>
      (\<forall>t \<in> owned e'. t \<in> owned (om_orders om ! s) \<or> fhm_find Hash_u64 (om_tokens om) t = None) \<and>
      (\<forall>t \<in> owned e'. 0 < t \<and> t < nt \<and> t \<le> Token_kMaxId))"

lemma tables_update:
  assumes ok: "tables_ok om" and s: "s < om_fresh om" "om_fresh om \<le> length (om_orders om)"
    and same: "in_id (en_info e') = in_id (en_info (om_orders om ! s))" and rt: "retoken s e' om T nt"
  shows "tables_ok (om\<lparr>om_orders := (om_orders om)[s := e'], om_tokens := T, om_next_token := nt\<rparr>)"
proof -
  define es where "es = (om_orders om)[s := e']"
  have es: "es ! x = (if x = s then e' else om_orders om ! x)" for x
    using s by (cases "x = s") (simp_all add: es_def)
  have tok: "\<And>t x. fhm_find Hash_u64 (om_tokens om) t = Some x \<longleftrightarrow> x < om_fresh om \<and> t \<in> owned (om_orders om ! x)"
    using ok by (simp add: tables_ok_def)
  have "fhm_find Hash_u64 T t = Some x \<longleftrightarrow> x < om_fresh om \<and> t \<in> owned (es ! x)" for t x
  proof (cases "t \<in> owned e'")
    case True
    then have "t \<in> owned (om_orders om ! x) \<Longrightarrow> x < om_fresh om \<Longrightarrow> x = s"
      using rt tok [of t x] tok [of t s] s(1) by (auto simp: retoken_def)
    then show ?thesis using True rt s(1) by (auto simp: retoken_def es)
  next
    case False
    then have "fhm_find Hash_u64 T t = Some x \<longleftrightarrow> t \<notin> owned (om_orders om ! s) \<and> fhm_find Hash_u64 (om_tokens om) t = Some x"
      using rt by (simp add: retoken_def)
    then show ?thesis using False tok [of t x] tok [of t s] s(1) by (auto simp: es)
  qed
  moreover have "\<forall>i x. fhm_find Hash_u64 (om_by_id om) i = Some x \<longleftrightarrow> x < om_fresh om \<and> in_id (en_info (es ! x)) = i"
    using ok same by (simp add: tables_ok_def es)
  moreover have "0 < in_id (en_info (es ! x)) \<and> in_id (en_info (es ! x)) < om_next_id om \<and> en_token (es ! x) \<noteq> en_next_token (es ! x) \<and>
       (\<forall>t \<in> owned (es ! x). 0 < t \<and> t < nt \<and> t \<le> Token_kMaxId)" if "x < om_fresh om" for x
    using ok same rt that s(1) by (force simp: tables_ok_def es retoken_def)
  moreover have "length es = length (om_orders om)" "om_next_id om \<le> nt" "fhm_inv Hash_u64 T" "fhm_max T = 2 * length (om_orders om)"
    using ok rt by (auto simp: es_def tables_ok_def retoken_def intro: order_trans)
  ultimately show ?thesis using ok by (simp add: tables_ok_def es_def [symmetric])
qed

lemma slots_update:
  assumes ok: "slots_ok om ws fs" and s: "s \<in> set ws"
    and same: "in_id (en_info e') = in_id (en_info (om_orders om ! s))"
      "en_prev e' = en_prev (om_orders om ! s)" "en_next e' = en_next (om_orders om ! s)"
  shows "slots_ok (om\<lparr>om_orders := (om_orders om)[s := e'], om_tokens := T, om_next_token := nt\<rparr>) ws fs"
proof -
  have sf: "s < om_fresh om" "om_fresh om \<le> length (om_orders om)" using ok s by (auto simp: slots_ok_def)
  have "map (\<lambda>x. in_id (en_info ((om_orders om)[s := e'] ! x))) ws = map (\<lambda>x. in_id (en_info (om_orders om ! x))) ws"
    using sf same(1) by (auto simp: nth_list_update)
  then have "sorted_wrt (<) (map (\<lambda>x. in_id (en_info ((om_orders om)[s := e'] ! x))) ws)"
    using ok by (simp only: slots_ok_def)
  moreover have "en_reserved ((om_orders om)[s := e'] ! x) = en_reserved (om_orders om ! x)" if "om_fresh om \<le> x" for x
    using that sf by (metis not_le nth_list_update_neq)
  moreover have "dll (om\<lparr>om_orders := (om_orders om)[s := e'], om_tokens := T, om_next_token := nt\<rparr>) ws"
    using ok same(2,3) by (simp add: slots_ok_def dll_def lseg_set_same)
  moreover have "ring (om\<lparr>om_orders := (om_orders om)[s := e'], om_tokens := T, om_next_token := nt\<rparr>) fs"
    using ok by (simp add: slots_ok_def)
  ultimately show ?thesis using ok by (simp add: slots_ok_def)
qed

lemma om_at_update:
  assumes at: "om_at {s} ws fs sy" and rt: "retoken s e' (sy_om sy) T nt"
    and same: "in_id (en_info e') = in_id (en_info (ent sy s))" "en_prev e' = en_prev (ent sy s)" "en_next e' = en_next (ent sy s)"
    and e': "valid_side (rq_side (in_req (en_info e')))" "en_reserved e' \<noteq> 0"
    and led: "ledger_ok re' ((om_orders (sy_om sy))[s := e'])"
  shows "om_at {s} ws fs (sy\<lparr>sy_om := (sy_om sy)\<lparr>om_orders := (om_orders (sy_om sy))[s := e'], om_tokens := T, om_next_token := nt\<rparr>,
    sy_risk := re'\<rparr>)"
proof -
  have s: "s \<in> set ws" "s < om_fresh (sy_om sy)" "s < length (om_orders (sy_om sy))" "s \<notin> set fs"
    using at om_at_slots [OF at] by (auto simp: om_at_def intro: less_le_trans)
  have "(om_orders (sy_om sy))[s := e'] ! x = ent sy x" if "x \<in> set ws - {s} \<union> set fs" for x
    using that s(4) by (metis Diff_iff UnE insertI1 nth_list_update_neq)
  then show ?thesis using at s e' led
      slots_update [OF _ s(1) same, where fs = fs and T = T and nt = nt] tables_update [OF _ s(2) om_at_slots(3) [OF at] same(1) rt]
    by (simp add: om_at_def)
qed

lemma ledger_ok_entry:
  assumes "ledger_ok re es" "s < length es" "holds l d (es ! s)" "en_reserved (es ! s) \<noteq> 0" "length es < kNone"
  obtains r where "slot_at re l = Some r" "valid_side d" "0 < open_count re l d"
    "uint (en_reserved (es ! s)) \<le> open_qty re l d" "0 \<le> open_qty re l d" "open_qty re l d \<le> 2 ^ 52"
proof -
  have m: "es ! s \<in> set es" using assms(2) by simp
  have v: "valid_side d" and "slot_at re l \<noteq> None" using assms(1,3,4) m by (auto simp: ledger_ok_def holds_def)
  then obtain r where r: "slot_at re l = Some r" by auto
  have eq: "open_qty re l d = (\<Sum>e\<leftarrow>es. share l d e)" "open_count re l d = (\<Sum>e\<leftarrow>es. counts l d e)"
    and "\<forall>e \<in> set es. en_reserved e \<le> kMaxOrderQty" using assms(1) v by (auto simp: ledger_ok_def)
  then have "open_qty re l d \<le> 999999 * int (length es)" using share_sum_bounds(2) [of es l d] by simp
  moreover have "int (length es) < 2 ^ 32" using assms(5) by (simp add: kNone_def)
  ultimately have "open_qty re l d \<le> 2 ^ 52" by simp
  then show thesis
    using that [OF r v] eq share_le_sum [OF m, of l d] counts_le_sum [OF m, of l d] share_sum_bounds(1) [where es = es] assms(3,4)
    by (simp add: share_def counts_def)
qed

lemma sync_moves:
  assumes led: "ledger_ok re es" and s: "s < length es" "length es < kNone" and e: "holds l d (es ! s)" "en_reserved (es ! s) = r" "r \<noteq> 0"
    and want: "want \<noteq> 0" "want \<le> kMaxOrderQty"
  shows "moves re (if want > r then on_order_grow re l d (want - r) else if want < r then on_order_reduce re l d (r - want) else re)
    l d (uint want - uint r) 0"
proof -
  obtain sl where sl: "slot_at re l = Some sl" "valid_side d" "uint r \<le> open_qty re l d" "0 \<le> open_qty re l d" "open_qty re l d \<le> 2 ^ 52"
    using ledger_ok_entry [OF led s(1) e(1) _ s(2)] e by auto
  have w: "uint want \<le> 999999" using want(2) by (simp add: kMaxOrderQty_def word_le_def)
  consider "want > r" | "want < r" | "want = r" by (meson linorder_cases)
  then show ?thesis
  proof cases
    case 1
    then have d: "uint (want - r) = uint want - uint r" by (simp add: word_less_def uint_sub_if')
    moreover have "want - r \<noteq> 0" using 1 by auto
    moreover have "open_qty re l d + uint (want - r) \<le> kInt64Max"
    proof -
      have "uint (want - r) \<le> 999999" unfolding d using w unsigned_greater_eq [where 'a = int, of r] by linarith
      then show ?thesis using sl(5) by (simp add: kInt64Max_def)
    qed
    ultimately show ?thesis using 1 moves_grow [OF sl(1,2), of "want - r"] sl(4) by simp
  next
    case 2
    then have "uint (r - want) = uint r - uint want" by (simp add: word_less_def uint_sub_if')
    moreover have "uint r - uint want \<le> open_qty re l d"
      using sl(3) unsigned_greater_eq [where 'a = int, of want] by linarith
    moreover have "\<not> r < want" using 2 by simp
    ultimately show ?thesis using 2 moves_reduce [OF sl(1,2), of "r - want"] by simp
  next
    case 3
    then show ?thesis by (simp add: moves_none)
  qed
qed

section \<open>The steps of a report handler\<close>

lemma retoken_same:
  assumes "om_at X ws fs sy" "s \<in> set ws" "owned e' = owned (ent sy s)" "en_token e' \<noteq> en_next_token e'"
  shows "retoken s e' (sy_om sy) (om_tokens (sy_om sy)) (om_next_token (sy_om sy))"
  using assms om_at_slots(1) [OF assms(1,2)] by (auto simp: om_at_def tables_ok_def retoken_def)

text \<open>Writes that leave identity, tokens, links and the held quantity alone.\<close>

definition keeps :: "(OmEntry \<Rightarrow> OmEntry) \<Rightarrow> bool" where
  "keeps f = (\<forall>e. in_id (en_info (f e)) = in_id (en_info e) \<and> en_prev (f e) = en_prev e \<and> en_next (f e) = en_next e \<and>
     en_token (f e) = en_token e \<and> en_next_token (f e) = en_next_token e \<and> en_reserved (f e) = en_reserved e \<and>
     rq_locate (in_req (en_info (f e))) = rq_locate (in_req (en_info e)) \<and> rq_side (in_req (en_info (f e))) = rq_side (in_req (en_info e)))"

lemma om_at_len: "om_at X ws fs sy \<Longrightarrow> s \<in> set ws \<Longrightarrow> s < length (om_orders (sy_om sy))"
  using om_at_slots(1,3) [of X ws fs sy] by (auto intro: less_le_trans)

lemma om_at_token_neq: "om_at X ws fs sy \<Longrightarrow> s \<in> set ws \<Longrightarrow> en_token (ent sy s) \<noteq> en_next_token (ent sy s)"
  using om_at_slots(1) [of X ws fs sy s] by (auto simp: om_at_def tables_ok_def)

lemma ent_set_ent [simp]: "s < length (om_orders (sy_om sy)) \<Longrightarrow> ent (set_ent s f sy) s = f (ent sy s)"
  by (simp add: set_ent_def om_upd_def)

lemma set_ent_frame [simp]:
  "sy_risk (set_ent s f sy) = sy_risk sy" "sy_world (set_ent s f sy) = sy_world sy"
  "length (om_orders (sy_om (set_ent s f sy))) = length (om_orders (sy_om sy))"
  "om_tokens (sy_om (set_ent s f sy)) = om_tokens (sy_om sy)" "om_next_token (sy_om (set_ent s f sy)) = om_next_token (sy_om sy)"
  by (simp_all add: set_ent_def om_upd_def)

lemma om_at_set:
  assumes at: "om_at {s} ws fs sy" and k: "keeps f"
  shows "om_at {s} ws fs (set_ent s f sy)"
proof -
  have s: "s \<in> set ws" using at by (simp add: om_at_def)
  have kf: "owned (f (ent sy s)) = owned (ent sy s)" "en_token (f (ent sy s)) \<noteq> en_next_token (f (ent sy s))"
    using k om_at_token_neq [OF at s] by (simp_all add: keeps_def owned_def)
  have "ledger_ok (sy_risk sy) ((om_orders (sy_om sy))[s := f (ent sy s)])"
  proof (rule ledger_cong)
    show "ledger_ok (sy_risk sy) (om_orders (sy_om sy))" using at by (simp add: om_at_def)
  qed (use k om_at_len [OF at s] in \<open>simp_all add: keeps_def nth_list_update\<close>)
  then show ?thesis using at k om_at_update [OF at retoken_same [OF at s kf], of "sy_risk sy"]
    by (simp add: set_ent_def om_upd_def keeps_def om_at_def)
qed

lemma ledger_want_bounds:
  assumes "entry_core e" "in_leaves_qty (en_info e) \<noteq> 0"
  shows "ledger_want e \<noteq> 0" "ledger_want e \<le> kMaxOrderQty"
proof -
  show "ledger_want e \<noteq> 0" using assms(2) ledger_want_ge [of e] by auto
  have "en_replace_qty e > in_cum_qty (en_info e) \<Longrightarrow> en_replace_qty e - in_cum_qty (en_info e) \<le> en_replace_qty e"
    by (simp add: word_le_nat_alt word_less_nat_alt unat_minus_le)
  moreover have "in_leaves_qty (en_info e) \<le> kMaxOrderQty"
    using assms(1) by (simp add: entry_core_def Let_def word_le_nat_alt)
  ultimately show "ledger_want e \<le> kMaxOrderQty" using assms(1)
    by (auto simp: ledger_want_def entry_core_def Let_def intro: order_trans)
qed

lemma sync_ledger_ent:
  assumes "s < length (om_orders (sy_om sy))"
  shows "ent (sync_ledger s sy) s = (ent sy s)\<lparr>en_reserved := ledger_want (ent sy s)\<rparr>"
  using assms by (simp add: sync_ledger_def Let_def set_ent_def om_upd_def)

lemma om_at_sync:
  assumes at: "om_at {s} ws fs sy" and core: "entry_core (ent sy s)" "in_leaves_qty (en_info (ent sy s)) \<noteq> 0"
  shows "om_at {s} ws fs (sync_ledger s sy)"
proof -
  define e want where "e = ent sy s" and "want = ledger_want e"
  define l d where "l = rq_locate (in_req (en_info e))" and "d = rq_side (in_req (en_info e))"
  define re' where "re' = (if want > en_reserved e then on_order_grow (sy_risk sy) l d (want - en_reserved e)
    else if want < en_reserved e then on_order_reduce (sy_risk sy) l d (en_reserved e - want) else sy_risk sy)"
  have s: "s \<in> set ws" and r: "en_reserved e \<noteq> 0" "valid_side d" using at by (simp_all add: om_at_def e_def d_def)
  note len = om_at_len [OF at s] om_at_slots(4) [OF at]
  have led: "ledger_ok (sy_risk sy) (om_orders (sy_om sy))" using at by (simp add: om_at_def)
  note w = ledger_want_bounds [OF core, folded e_def want_def]
  have h: "holds l d e" by (simp add: holds_def l_def d_def)
  have "moves (sy_risk sy) re' l d (uint want - uint (en_reserved e)) 0"
    unfolding re'_def by (rule sync_moves [OF led len _ _ r(1) w]) (simp_all add: h e_def [symmetric])
  moreover have "slot_at (sy_risk sy) l \<noteq> None" using ledger_ok_entry [OF led len(1) _ _ len(2), of l d] h r(1) by (auto simp: e_def)
  ultimately have "ledger_ok re' ((om_orders (sy_om sy))[s := e\<lparr>en_reserved := want\<rparr>])"
    using w r h by (intro ledger_move [OF led, of re' l d _ 0]) (auto simp: len share_def counts_def holds_def e_def [symmetric])
  then have "om_at {s} ws fs (sy\<lparr>sy_om := (sy_om sy)\<lparr>om_orders := (om_orders (sy_om sy))[s := e\<lparr>en_reserved := want\<rparr>],
      om_tokens := om_tokens (sy_om sy), om_next_token := om_next_token (sy_om sy)\<rparr>, sy_risk := re'\<rparr>)"
    using r w om_at_token_neq [OF at s]
    by (intro om_at_update [OF at retoken_same [OF at s]]) (simp_all add: e_def d_def owned_def)
  moreover have "sync_ledger s sy = sy\<lparr>sy_om := (sy_om sy)\<lparr>om_orders := (om_orders (sy_om sy))[s := e\<lparr>en_reserved := want\<rparr>],
      om_tokens := om_tokens (sy_om sy), om_next_token := om_next_token (sy_om sy)\<rparr>, sy_risk := re'\<rparr>"
    by (simp add: sync_ledger_def Let_def set_ent_def om_upd_def re'_def want_def l_def d_def e_def)
  ultimately show ?thesis by simp
qed

text \<open>Closing a working order's rewrite with \<^verbatim>\<open>sync_ledger\<close>.\<close>

definition ready :: "OmEntry \<Rightarrow> bool" where
  "ready e = (entry_core e \<and> in_leaves_qty (en_info e) \<noteq> 0 \<and> \<not> terminal e \<and>
     (in_status (en_info e) = OS_pending_replace \<longrightarrow> en_next_token e \<noteq> 0) \<and>
     (en_next_token e \<noteq> 0 \<longrightarrow> in_status (en_info e) = OS_pending_replace \<or> in_status (en_info e) = OS_pending_cancel))"

lemma sync_closes:
  assumes at: "om_at {s} ws fs sy" and r: "ready (ent sy s)"
  shows "om_at {} ws fs (sync_ledger s sy)"
proof -
  have s: "s < length (om_orders (sy_om sy))" using om_at_len [OF at] at by (simp add: om_at_def)
  have "ledger_want ((ent sy s)\<lparr>en_reserved := x\<rparr>) = ledger_want (ent sy s)" for x by (simp add: ledger_want_def)
  then show ?thesis using om_at_sync [OF at] r
    by (intro om_at_close [of s]) (simp_all add: sync_ledger_ent [OF s] ready_def entry_ok_def entry_core_def terminal_def Let_def)
qed

section \<open>Dropping a replacement and the end of an order\<close>

lemma retoken_erase:
  assumes at: "om_at X ws fs sy" and s: "s \<in> set ws" and t: "t \<in> owned (ent sy s)" "owned e' = owned (ent sy s) - {t}"
    and neq: "en_token e' \<noteq> en_next_token e'"
  shows "retoken s e' (sy_om sy) (fst (fhm_erase Hash_u64 (om_tokens (sy_om sy)) t)) (om_next_token (sy_om sy))"
proof -
  have inv: "fhm_inv Hash_u64 (om_tokens (sy_om sy))" using at by (simp add: om_at_def tables_ok_def)
  have "fhm_find Hash_u64 (om_tokens (sy_om sy)) t = Some s" if "t \<in> owned (ent sy s)" for t
    using at om_at_slots(1) [OF at s] that by (simp add: om_at_def tables_ok_def)
  moreover have "0 < t \<and> t < om_next_token (sy_om sy) \<and> t \<le> Token_kMaxId" if "t \<in> owned e'" for t
    using at om_at_slots(1) [OF at s] that t(2) by (auto simp: om_at_def tables_ok_def)
  ultimately show ?thesis using t neq by (auto simp: retoken_def fhm.erase_fst [OF inv])
qed

definition without_replacement :: "OmEntry \<Rightarrow> OmEntry" where
  "without_replacement e = e\<lparr>en_next_token := 0, en_replace_price := 0, en_replace_qty := 0\<rparr>"

lemma drop_replacement_eq:
  "drop_replacement s sy = sy\<lparr>sy_om := (sy_om sy)\<lparr>om_orders := (om_orders (sy_om sy))[s := without_replacement (ent sy s)],
     om_tokens := (if en_next_token (ent sy s) \<noteq> 0 then fst (fhm_erase Hash_u64 (om_tokens (sy_om sy)) (en_next_token (ent sy s)))
                   else om_tokens (sy_om sy))\<rparr>\<rparr>"
  by (simp add: drop_replacement_def set_ent_def om_upd_def Let_def without_replacement_def)

lemma token_nonzero: "om_at X ws fs sy \<Longrightarrow> s \<in> set ws \<Longrightarrow> en_token (ent sy s) \<noteq> 0"
  using om_at_slots(1) [of X ws fs sy s] by (auto simp: om_at_def tables_ok_def owned_def)

lemma retoken_drop:
  assumes at: "om_at X ws fs sy" and s: "s \<in> set ws" and e': "en_token e' = en_token (ent sy s)" "en_next_token e' = 0"
  shows "retoken s e' (sy_om sy)
    (if en_next_token (ent sy s) \<noteq> 0 then fst (fhm_erase Hash_u64 (om_tokens (sy_om sy)) (en_next_token (ent sy s)))
     else om_tokens (sy_om sy)) (om_next_token (sy_om sy))"
proof -
  have neq: "en_token e' \<noteq> en_next_token e'" using token_nonzero [OF at s] e' by simp
  show ?thesis
  proof (cases "en_next_token (ent sy s) = 0")
    case True
    then show ?thesis using retoken_same [OF at s _ neq] e' by (simp add: owned_def)
  next
    case False
    then have "owned e' = owned (ent sy s) - {en_next_token (ent sy s)}" "en_next_token (ent sy s) \<in> owned (ent sy s)"
      using e' om_at_token_neq [OF at s] by (auto simp: owned_def)
    then show ?thesis using False retoken_erase [OF at s _ _ neq] by simp
  qed
qed

lemma om_at_drop:
  assumes at: "om_at {s} ws fs sy"
  shows "om_at {s} ws fs (drop_replacement s sy)"
proof -
  have s: "s \<in> set ws" and e: "valid_side (rq_side (in_req (en_info (ent sy s))))" "en_reserved (ent sy s) \<noteq> 0"
    using at by (simp_all add: om_at_def)
  have "ledger_ok (sy_risk sy) ((om_orders (sy_om sy))[s := without_replacement (ent sy s)])"
  proof (rule ledger_cong)
    show "ledger_ok (sy_risk sy) (om_orders (sy_om sy))" using at by (simp add: om_at_def)
  qed (use om_at_len [OF at s] in \<open>simp_all add: without_replacement_def nth_list_update\<close>)
  moreover note rt = retoken_drop [OF at s, of "without_replacement (ent sy s)"]
  ultimately show ?thesis using om_at_update [OF at rt, of "sy_risk sy"] e
    by (simp add: drop_replacement_eq without_replacement_def)
qed

lemma relinked_nth: "relinked es es' \<Longrightarrow> i < length es \<Longrightarrow> same_terms (es ! i) (es' ! i)"
  by (simp add: relinked_def)

lemma tables_relink:
  assumes "tables_ok om" "relinked (om_orders om) (om_orders om')" "om_fresh om \<le> length (om_orders om)"
    "om_by_id om' = om_by_id om" "om_tokens om' = om_tokens om" "om_fresh om' = om_fresh om"
    "om_next_id om' = om_next_id om" "om_next_token om' = om_next_token om"
  shows "tables_ok om'"
proof -
  have "in_id (en_info (om_orders om' ! s)) = in_id (en_info (om_orders om ! s)) \<and>
      en_token (om_orders om' ! s) = en_token (om_orders om ! s) \<and>
      en_next_token (om_orders om' ! s) = en_next_token (om_orders om ! s) \<and> owned (om_orders om' ! s) = owned (om_orders om ! s)"
    if "s < om_fresh om" for s
    using same_termsD [OF relinked_nth [OF assms(2), of s]] that assms(3) by (simp add: owned_def)
  moreover have "length (om_orders om') = length (om_orders om)" using assms(2) by (simp add: relinked_def)
  ultimately show ?thesis using assms(1,4-8) by (simp add: tables_ok_def cong: conj_cong)
qed

lemma ledger_relink: "ledger_ok re es \<Longrightarrow> relinked es es' \<Longrightarrow> ledger_ok re es'"
  by (erule ledger_cong) (auto simp: relinked_def same_termsD)

lemma terminal_relink: "same_terms e e' \<Longrightarrow> terminal e' = terminal e"
  by (simp add: terminal_def same_termsD)

lemma entry_ok_relink: "same_terms e e' \<Longrightarrow> entry_ok e' = entry_ok e"
  by (simp add: entry_ok_def entry_core_def terminal_def ledger_want_def Let_def same_termsD)

definition finish_entry :: "OrderStatus option \<Rightarrow> OmEntry \<Rightarrow> OmEntry" where
  "finish_entry oc e =
     (without_replacement e)\<lparr>en_info := (en_info e)\<lparr>in_leaves_qty := 0, in_status :=
       (case oc of Some st \<Rightarrow> st
        | None \<Rightarrow> if in_cum_qty (en_info e) \<ge> rq_qty (in_req (en_info e)) then OS_filled else OS_canceled)\<rparr>, en_reserved := 0\<rparr>"

lemma upd_commute:
  "om\<lparr>om_tokens := T, om_orders := es\<rparr> = om\<lparr>om_orders := es, om_tokens := T\<rparr>"
  "sy\<lparr>sy_risk := re, sy_om := om'\<rparr> = sy\<lparr>sy_om := om', sy_risk := re\<rparr>"
  by (cases om, simp) (cases sy, simp)

lemma end_of_life_eq:
  assumes "s < length (om_orders (sy_om sy))"
  shows "end_of_life s oc sy = sy\<lparr>
    sy_om := queue_finished s (unlink s ((sy_om sy)\<lparr>om_orders := (om_orders (sy_om sy))[s := finish_entry oc (ent sy s)],
      om_tokens := (if en_next_token (ent sy s) \<noteq> 0 then fst (fhm_erase Hash_u64 (om_tokens (sy_om sy)) (en_next_token (ent sy s)))
                   else om_tokens (sy_om sy))\<rparr>)),
    sy_risk := on_order_end (sy_risk sy) (rq_locate (in_req (en_info (ent sy s)))) (rq_side (in_req (en_info (ent sy s))))
      (en_reserved (ent sy s))\<rparr>"
  using assms
  by (cases "en_next_token (ent sy s) = 0")
    (simp_all add: end_of_life_def drop_replacement_def set_ent_def om_upd_def Let_def finish_entry_def without_replacement_def
      info_upd_def upd_commute cong: option.case_cong)

lemma finish_entry_ok:
  assumes "entry_core e" "oc = None \<or> oc = Some OS_filled \<or> oc = Some OS_rejected"
  shows "entry_ok (finish_entry oc e)" "terminal (finish_entry oc e)"
  using assms
  by (auto simp: entry_ok_def entry_core_def finish_entry_def without_replacement_def terminal_def is_terminal_def Let_def)

lemma slots_finish:
  assumes ok: "slots_ok om (xs @ s # ys) fs"
  shows "slots_ok (queue_finished s (unlink s om)) (xs @ ys) (fs @ [s])"
proof -
  define om' where "om' = queue_finished s (unlink s om)"
  have rel: "relinked (om_orders om) (om_orders om')" using relinked_unlink [of om s] by (simp add: om'_def queue_finished_def)
  have dist: "distinct (xs @ s # ys @ fs)" and set: "set (xs @ s # ys @ fs) = {..< om_fresh om}"
    and fresh: "om_fresh om \<le> length (om_orders om)" "length (om_finished om) = length (om_orders om)"
    using ok by (auto simp: slots_ok_def)
  have "length (xs @ s # ys @ fs) = om_fresh om" using distinct_card [OF dist] set by simp
  then have room: "length fs < length (om_finished (unlink s om))" using fresh by simp
  have "x < length (om_orders om)" if "x \<in> set (xs @ ys)" for x
  proof -
    have "x \<in> {..< om_fresh om}" using that unfolding set [symmetric] by auto
    then show ?thesis using fresh(1) by simp
  qed
  then have "map (\<lambda>x. in_id (en_info (om_orders om' ! x))) (xs @ ys) = map (\<lambda>x. in_id (en_info (om_orders om ! x))) (xs @ ys)"
    using same_termsD(1) [OF relinked_nth [OF rel]] by (auto intro!: map_cong)
  moreover have "sorted_wrt (<) (map (\<lambda>x. in_id (en_info (om_orders om ! x))) (xs @ ys))"
    using ok by (auto simp: slots_ok_def sorted_wrt_append)
  ultimately have "sorted_wrt (<) (map (\<lambda>x. in_id (en_info (om_orders om' ! x))) (xs @ ys))" by (simp only:)
  moreover have "dll om' (xs @ ys)" using ok dll_unlink by (simp add: slots_ok_def om'_def)
  moreover have "ring om' (fs @ [s])" using ok ring_push [OF _ room] by (simp add: slots_ok_def om'_def)
  moreover have "\<forall>x. om_fresh om \<le> x \<longrightarrow> x < length (om_orders om) \<longrightarrow> en_reserved (om_orders om' ! x) = 0"
    using ok same_termsD(6) [OF relinked_nth [OF rel]] by (simp add: slots_ok_def)
  moreover have "om_fresh om' = om_fresh om" "om_open om' = om_open om - 1" "length (om_finished om') = length (om_finished om)"
    "length (om_orders om') = length (om_orders om)"
    using rel by (simp_all add: om'_def queue_finished_def relinked_def)
  ultimately show ?thesis using ok dist set unfolding om'_def [symmetric] by (auto simp: slots_ok_def)
qed

lemma om_at_end:
  assumes at: "om_at {s} ws fs sy" and core: "entry_core (ent sy s)"
    and oc: "oc = None \<or> oc = Some OS_filled \<or> oc = Some OS_rejected"
  obtains xs ys where "ws = xs @ s # ys" "om_at {} (xs @ ys) (fs @ [s]) (end_of_life s oc sy)"
proof -
  define e e' where "e = ent sy s" and "e' = finish_entry oc (ent sy s)"
  define l d where "l = rq_locate (in_req (en_info e))" and "d = rq_side (in_req (en_info e))"
  define T where "T = (if en_next_token e \<noteq> 0 then fst (fhm_erase Hash_u64 (om_tokens (sy_om sy)) (en_next_token e)) else om_tokens (sy_om sy))"
  define om1 where "om1 = (sy_om sy)\<lparr>om_orders := (om_orders (sy_om sy))[s := e'], om_tokens := T, om_next_token := om_next_token (sy_om sy)\<rparr>"
  define om2 where "om2 = queue_finished s (unlink s om1)"
  define re' where "re' = on_order_end (sy_risk sy) l d (en_reserved e)"
  have s: "s \<in> set ws" and r: "en_reserved e \<noteq> 0" "valid_side d" using at by (simp_all add: om_at_def e_def d_def)
  then obtain xs ys where ws: "ws = xs @ s # ys" by (meson split_list)
  note len = om_at_len [OF at s] om_at_slots(4) [OF at] om_at_slots(1,3) [OF at]
  have eq: "end_of_life s oc sy = sy\<lparr>sy_om := om2, sy_risk := re'\<rparr>"
    unfolding end_of_life_eq [OF len(1)] by (simp add: om2_def om1_def e'_def T_def re'_def l_def d_def e_def)
  have same: "in_id (en_info e') = in_id (en_info (ent sy s))" "en_prev e' = en_prev (ent sy s)" "en_next e' = en_next (ent sy s)"
    "en_token e' = en_token (ent sy s)" "en_next_token e' = 0" "en_reserved e' = 0" "holds l d e'"
    by (simp_all add: e'_def finish_entry_def without_replacement_def holds_def l_def d_def e_def)
  have rt: "retoken s e' (sy_om sy) T (om_next_token (sy_om sy))"
    unfolding T_def e_def by (rule retoken_drop [OF at s same(4,5)])
  have tab: "tables_ok om1" unfolding om1_def
    using at by (intro tables_update [OF _ _ _ same(1) rt]) (auto simp: om_at_def len(3) [OF s] len(4))
  have slots: "slots_ok om1 (xs @ s # ys) fs" unfolding om1_def ws [symmetric]
    using at by (intro slots_update [OF _ s same(1-3)]) (simp add: om_at_def)
  have led: "ledger_ok (sy_risk sy) (om_orders (sy_om sy))" using at by (simp add: om_at_def)
  have h: "holds l d (ent sy s)" by (simp add: holds_def l_def d_def e_def)
  obtain sl where sl: "slot_at (sy_risk sy) l = Some sl" "0 < open_count (sy_risk sy) l d" "uint (en_reserved e) \<le> open_qty (sy_risk sy) l d"
    using ledger_ok_entry [OF led len(1) h _ len(2)] r(1) by (auto simp: e_def)
  have "ledger_ok re' (om_orders om1)" unfolding om1_def
    using same(6,7) h r(1) len(1) moves_end [OF sl(1) r(2) sl(3,2)]
    by (simp add: om1_def re'_def, intro ledger_move [OF led, of _ l d])
      (auto simp: share_def counts_def holds_def e_def)
  moreover have rel: "relinked (om_orders om1) (om_orders om2)"
    using relinked_unlink [of om1 s] by (simp add: om2_def queue_finished_def)
  ultimately have led2: "ledger_ok re' (om_orders om2)" by (rule ledger_relink)
  have tab2: "tables_ok om2" by (rule tables_relink [OF tab rel]) (use len(4) in \<open>simp_all add: om2_def om1_def queue_finished_def\<close>)
  have nth: "om_orders om1 ! s = e'" "\<And>x. x \<noteq> s \<Longrightarrow> om_orders om1 ! x = ent sy x"
    using len(1) by (simp_all add: om1_def)
  have st: "same_terms (om_orders om1 ! x) (om_orders om2 ! x)" if "x \<in> set ws \<union> set fs" for x
    using that relinked_nth [OF rel] len(3,4) om_at_slots(2) [OF at] by (auto simp: om1_def intro: less_le_trans)
  have new: "entry_ok e'" "terminal e'" using finish_entry_ok [OF core oc] by (simp_all add: e'_def)
  have ne: "s \<notin> set xs" "s \<notin> set ys" "s \<notin> set fs" using slots by (auto simp: slots_ok_def)
  have eo: "entry_ok (om_orders om2 ! x) = entry_ok (om_orders om1 ! x)" "terminal (om_orders om2 ! x) = terminal (om_orders om1 ! x)"
    if "x \<in> set ws \<union> set fs" for x using st [OF that] by (simp_all add: entry_ok_relink terminal_relink)
  have "entry_ok (om_orders om2 ! x) \<and> \<not> terminal (om_orders om2 ! x)" if "x \<in> set (xs @ ys)" for x
  proof -
    have "x \<in> set ws - {s}" "x \<noteq> s" using that ne ws by auto
    then show ?thesis using eo [of x] nth(2) [of x] at by (simp add: om_at_def)
  qed
  moreover have "entry_ok (om_orders om2 ! x) \<and> terminal (om_orders om2 ! x)" if "x \<in> set (fs @ [s])" for x
  proof (cases "x = s")
    case True
    then show ?thesis using eo [of s] s new nth(1) by simp
  next
    case False
    then show ?thesis using eo [of x] nth(2) [of x] at that by (simp add: om_at_def)
  qed
  ultimately have "om_at {} (xs @ ys) (fs @ [s]) (sy\<lparr>sy_om := om2, sy_risk := re'\<rparr>)"
    using slots_finish [OF slots, folded om2_def] tab2 led2 by (simp add: om_at_def)
  then show thesis using that [OF ws] by (simp add: eq)
qed

section \<open>Booking a new order\<close>

lemma by_id_room:
  assumes "tables_ok om" "om_fresh om < length (om_orders om)"
  shows "fhm_size (om_by_id om) < fhm_max (om_by_id om)"
proof -
  have inv: "fhm_inv Hash_u64 (om_by_id om)" using assms(1) by (simp add: tables_ok_def)
  have "dom (fhm_find Hash_u64 (om_by_id om)) \<subseteq> (\<lambda>s. in_id (en_info (om_orders om ! s))) ` {..< om_fresh om}"
    using assms(1) by (auto simp: tables_ok_def dom_def)
  then have "card (dom (fhm_find Hash_u64 (om_by_id om))) \<le> om_fresh om"
    using surj_card_le [of "{..< om_fresh om}"] by simp
  then show ?thesis using assms fhm.size_card [OF inv] by (simp add: tables_ok_def)
qed

text \<open>The state after \<^verbatim>\<open>take_slot\<close>, the token of the new order being in the table already.\<close>

definition vacant :: "nat \<Rightarrow> OrderManager \<Rightarrow> OrderManager \<Rightarrow> bool" where
  "vacant slot om om1 =
     (om_orders om1 = om_orders om \<and> om_finished om1 = om_finished om \<and> om_head om1 = om_head om \<and> om_tail om1 = om_tail om \<and>
      om_next_id om1 = om_next_id om \<and> om_open om1 = om_open om \<and> om_next_token om1 = om_next_token om \<and>
      slot < om_fresh om1 \<and> om_fresh om1 \<le> length (om_orders om) \<and> {..< om_fresh om1} = insert slot {..< om_fresh om} \<and>
      fhm_inv Hash_u64 (om_by_id om1) \<and> fhm_max (om_by_id om1) = length (om_orders om) \<and> fhm_size (om_by_id om1) < fhm_max (om_by_id om1) \<and>
      fhm_inv Hash_u64 (om_tokens om1) \<and> fhm_max (om_tokens om1) = 2 * length (om_orders om) \<and>
      (\<forall>i x. fhm_find Hash_u64 (om_by_id om1) i = Some x \<longleftrightarrow> x < om_fresh om \<and> x \<noteq> slot \<and> in_id (en_info (om_orders om ! x)) = i) \<and>
      (\<forall>t x. fhm_find Hash_u64 (om_tokens om1) t = Some x \<longleftrightarrow>
         (if t = om_next_token om then x = slot else x < om_fresh om \<and> x \<noteq> slot \<and> t \<in> owned (om_orders om ! x))))"

lemma take_slot_vacant:
  assumes at: "om_at {} ws fs sy" and av: "slot_available (sy_om sy)"
    and T: "fhm_inv Hash_u64 T" "fhm_max T = fhm_max (om_tokens (sy_om sy))"
      "fhm_find Hash_u64 T = (fhm_find Hash_u64 (om_tokens (sy_om sy)))(om_next_token (sy_om sy) \<mapsto> next_slot (sy_om sy))"
  obtains fs' where "vacant (next_slot (sy_om sy)) (sy_om sy) (take_slot (next_slot (sy_om sy)) ((sy_om sy)\<lparr>om_tokens := T\<rparr>))"
    "ring (take_slot (next_slot (sy_om sy)) ((sy_om sy)\<lparr>om_tokens := T\<rparr>)) fs'" "next_slot (sy_om sy) \<notin> set fs'" "distinct fs'"
    "insert (next_slot (sy_om sy)) (set fs') = insert (next_slot (sy_om sy)) (set fs)" "next_slot (sy_om sy) \<notin> set ws"
proof -
  define om slot om1 where "om = sy_om sy" and "slot = next_slot om" and "om1 = take_slot slot (om\<lparr>om_tokens := T\<rparr>)"
  have tab: "tables_ok om" and slots: "slots_ok om ws fs" using at by (simp_all add: om_at_def om_def)
  have tok: "fhm_find Hash_u64 (om_tokens om) t = Some x \<longleftrightarrow> x < om_fresh om \<and> t \<in> owned (om_orders om ! x)" for t x
    using tab by (simp add: tables_ok_def)
  have lt: "x < om_fresh om \<Longrightarrow> t \<in> owned (om_orders om ! x) \<Longrightarrow> t < om_next_token om" for t x using tab by (auto simp: tables_ok_def)
  have Tm: "fhm_find Hash_u64 T t = Some x \<longleftrightarrow> (if t = om_next_token om then x = slot else x < om_fresh om \<and> t \<in> owned (om_orders om ! x))" for t x
    using T(3) tok by (auto simp: om_def slot_def)
  show thesis
  proof (cases "om_fresh om < length (om_orders om)")
    case True
    then have s: "slot = om_fresh om" and o1: "om1 = om\<lparr>om_tokens := T, om_fresh := om_fresh om + 1\<rparr>"
      by (simp_all add: slot_def next_slot_def om1_def take_slot_def)
    have "fhm_inv Hash_u64 (om_by_id om)" "fhm_max (om_by_id om) = length (om_orders om)" "fhm_max (om_tokens om) = 2 * length (om_orders om)"
      and idf: "\<And>i x. fhm_find Hash_u64 (om_by_id om) i = Some x \<longleftrightarrow> x < om_fresh om \<and> in_id (en_info (om_orders om ! x)) = i"
      using tab by (simp_all add: tables_ok_def)
    moreover have "{..< Suc (om_fresh om)} = insert (om_fresh om) {..< om_fresh om}" by auto
    moreover have "x < om_fresh om \<Longrightarrow> x \<noteq> slot" for x by (simp add: s)
    ultimately have "vacant slot om om1" using T(1,2) Tm True by_id_room [OF tab True]
      unfolding vacant_def by (intro conjI allI) (simp_all add: o1 om_def [symmetric] s cong: conj_cong)
    moreover have "slot \<notin> set fs \<union> set ws" "distinct fs" "ring om1 fs" using slots by (auto simp: slots_ok_def s o1)
    ultimately show thesis using that [of fs] by (simp add: om_def slot_def om1_def)
  next
    case False
    then have "om_finished_count om \<noteq> 0" using av by (simp add: slot_available_def om_def)
    then obtain f fs' where fs: "fs = f # fs'" using slots by (cases fs) (auto simp: slots_ok_def ring_def)
    have r: "ring om (f # fs')" using slots fs by (simp add: slots_ok_def)
    have s: "slot = f" using ring_pop(1) [OF r] False by (simp add: slot_def next_slot_def)
    have sf: "slot < om_fresh om" "slot \<notin> set fs'" "slot \<notin> set ws" "distinct fs'" using slots fs s by (auto simp: slots_ok_def)
    define old where "old = om_orders om ! slot"
    have o1: "om1 = om\<lparr>om_tokens := fst (fhm_erase Hash_u64 T (en_token old)),
        om_finished_head := (om_finished_head om + 1) mod length (om_finished om), om_finished_count := om_finished_count om - 1,
        om_by_id := fst (fhm_erase Hash_u64 (om_by_id om) (in_id (en_info old)))\<rparr>"
      using False by (simp add: om1_def take_slot_def Let_def old_def)
    have ring: "ring om1 fs'" using ring_pop(2) [OF r] by (simp add: o1 ring_def)
    have trm: "terminal old" "entry_ok old" using at fs s by (auto simp: om_at_def old_def om_def)
    then have own: "owned old = {en_token old}" by (simp add: owned_def entry_ok_def)
    have ib: "fhm_inv Hash_u64 (om_by_id om)" and idf: "\<And>i x. fhm_find Hash_u64 (om_by_id om) i = Some x \<longleftrightarrow> x < om_fresh om \<and> in_id (en_info (om_orders om ! x)) = i"
      using tab by (simp_all add: tables_ok_def)
    have oldid: "fhm_find Hash_u64 (om_by_id om) (in_id (en_info old)) = Some slot" using idf sf(1) by (simp add: old_def)
    have oldtok: "fhm_find Hash_u64 (om_tokens om) (en_token old) = Some slot" using tok own sf(1) by (simp add: old_def)
    have ntok: "en_token old \<noteq> om_next_token om" using lt [OF sf(1), of "en_token old"] own by (auto simp: old_def)
    have F1: "fhm_find Hash_u64 (om_by_id om1) i = Some x \<longleftrightarrow> x < om_fresh om \<and> x \<noteq> slot \<and> in_id (en_info (om_orders om ! x)) = i" for i x
      using idf [of i x] oldid by (auto simp: o1 fhm.erase_fst [OF ib] old_def)
    have F2: "fhm_find Hash_u64 (om_tokens om1) t = Some x \<longleftrightarrow>
         (if t = om_next_token om then x = slot else x < om_fresh om \<and> x \<noteq> slot \<and> t \<in> owned (om_orders om ! x))" for t x
    proof (cases "t = en_token old")
      case True
      then show ?thesis using ntok tok [of t x] oldtok by (auto simp: o1 fhm.erase_fst [OF T(1)])
    next
      case False
      then have "t \<notin> owned (om_orders om ! slot)" using own by (simp add: old_def)
      then show ?thesis using False Tm [of t x] by (auto simp: o1 fhm.erase_fst [OF T(1)])
    qed
    have A: "fhm_max (om_by_id om) = length (om_orders om)" "fhm_max (om_tokens om) = 2 * length (om_orders om)"
      "om_fresh om \<le> length (om_orders om)" "{..< om_fresh om} = insert slot {..< om_fresh om}"
      using tab slots sf(1) by (auto simp: tables_ok_def slots_ok_def)
    have B: "om_orders om1 = om_orders om" "om_finished om1 = om_finished om" "om_head om1 = om_head om" "om_tail om1 = om_tail om"
      "om_next_id om1 = om_next_id om" "om_open om1 = om_open om" "om_next_token om1 = om_next_token om" "om_fresh om1 = om_fresh om"
      by (simp_all add: o1)
    have C: "fhm_inv Hash_u64 (om_by_id om1)" "fhm_max (om_by_id om1) = fhm_max (om_by_id om)"
      "fhm_inv Hash_u64 (om_tokens om1)" "fhm_max (om_tokens om1) = fhm_max (om_tokens om)" "fhm_size (om_by_id om1) < fhm_max (om_by_id om)"
      using fhm.erase_makes_room [OF ib oldid] T(2) by (simp_all add: o1 fhm.erase_fst [OF ib] fhm.erase_fst [OF T(1)] om_def [symmetric])
    have "vacant slot om om1" unfolding vacant_def B C(2,4) A(1,2) [symmetric]
      using A(3,4) C(1,3,5) sf(1) by (intro conjI allI F1 F2) (simp_all add: A(1,2))
    then show thesis using that [of fs'] ring sf fs s by (simp add: om_def slot_def om1_def)
  qed
qed

definition new_entry :: "OrderRequest \<Rightarrow> Nanos \<Rightarrow> OrderManager \<Rightarrow> OmEntry" where
  "new_entry req now om = OmEntry_new\<lparr>en_info := OmsInfo_new\<lparr>in_id := om_next_id om, in_req := req, in_leaves_qty := rq_qty req,
     in_last_update := now\<rparr>, en_token := om_next_token om, en_reserved := rq_qty req\<rparr>"

lemma new_entry_ok:
  assumes "valid_side (rq_side req)" "rq_qty req \<noteq> 0" "rq_qty req \<le> kMaxOrderQty"
  shows "entry_ok (new_entry req now om)" "\<not> terminal (new_entry req now om)" "en_reserved (new_entry req now om) = rq_qty req"
    "owned (new_entry req now om) = {om_next_token om}" "in_id (en_info (new_entry req now om)) = om_next_id om"
    "en_token (new_entry req now om) = om_next_token om" "en_next_token (new_entry req now om) = 0"
    "in_req (en_info (new_entry req now om)) = req"
  using assms
  by (simp_all add: new_entry_def entry_ok_def entry_core_def OmEntry_new_def OmsInfo_new_def terminal_def is_terminal_def
      ledger_want_def owned_def Let_def kMatchMemory_def)

definition insert_entry :: "nat \<Rightarrow> OmEntry \<Rightarrow> OrderManager \<Rightarrow> OrderManager" where
  "insert_entry slot e om1 = om1\<lparr>om_next_id := om_next_id om1 + 1, om_orders := (om_orders om1)[slot := e],
     om_by_id := fst (fhm_insert Hash_u64 (om_by_id om1) (om_next_id om1) slot)\<rparr>"

lemma book_order_eq:
  "book_order req now slot sy =
     (let om1 = take_slot slot (sy_om sy); om3 = link slot (insert_entry slot (new_entry req now om1) om1) in
      sy\<lparr>sy_om := om3\<lparr>om_next_token := om_next_token om3 + 1, om_open := om_open om3 + 1\<rparr>,
         sy_risk := on_order_open (sy_risk sy) (rq_locate req) (rq_side req) (rq_qty req)\<rparr>)"
  by (simp add: book_order_def Let_def insert_entry_def new_entry_def)

lemma insert_tables:
  assumes tab: "tables_ok om" and v: "vacant slot om om1" and e: "in_id (en_info e) = om_next_id om" "en_token e = om_next_token om" "en_next_token e = 0"
    and tk: "om_next_token om \<le> Token_kMaxId"
  shows "tables_ok ((insert_entry slot e om1)\<lparr>om_next_token := om_next_token om1 + 1\<rparr>)"
proof -
  define es where "es = (om_orders om)[slot := e]"
  have slot: "slot < om_fresh om1" "slot < length (om_orders om)" and o1: "om_orders om1 = om_orders om" "om_next_id om1 = om_next_id om"
      "om_next_token om1 = om_next_token om" and below: "\<And>x. x < om_fresh om1 \<longleftrightarrow> x < om_fresh om \<or> x = slot"
    using v by (auto simp: vacant_def set_eq_iff)
  have es: "es ! x = (if x = slot then e else om_orders om ! x)" for x using slot(2) by (simp add: es_def)
  have own: "owned e = {om_next_token om}" using e by (simp add: owned_def)
  have ids: "x < om_fresh om \<Longrightarrow> in_id (en_info (om_orders om ! x)) < om_next_id om" for x using tab by (simp add: tables_ok_def)
  have ib: "fhm_inv Hash_u64 (om_by_id om1)" "fhm_size (om_by_id om1) < fhm_max (om_by_id om1)" using v by (simp_all add: vacant_def)
  have idf: "fhm_find Hash_u64 (om_by_id om1) i = Some x \<longleftrightarrow> x < om_fresh om \<and> x \<noteq> slot \<and> in_id (en_info (om_orders om ! x)) = i" for i x
    using v by (simp add: vacant_def)
  have fresh_id: "fhm_find Hash_u64 (om_by_id om1) (om_next_id om) = None"
    using idf [of "om_next_id om"] ids by (metis less_irrefl option.exhaust)
  note ins = fhm.insert_fst [OF ib(1) fresh_id ib(2), of slot]
  have nx: "om_next_token om < om_next_token om + 1" "om_next_id om < om_next_id om + 1" "om_next_id om + 1 \<le> om_next_token om + 1"
  proof -
    have le: "om_next_id om \<le> om_next_token om" using tab by (simp add: tables_ok_def)
    have "\<not> (- 1 \<le> Token_kMaxId)" by (simp add: Token_kMaxId_def word_le_nat_alt unsigned_minus_1_eq_mask mask_eq_exp_minus_1)
    then have "om_next_token om \<noteq> - 1" "om_next_id om \<noteq> - 1" using tk order_trans [OF le tk] by metis+
    then show "om_next_token om < om_next_token om + 1" "om_next_id om < om_next_id om + 1" "om_next_id om + 1 \<le> om_next_token om + 1"
      using le by (simp_all add: word_less_plus_one unat_plus_one word_le_nat_alt)
  qed
  have F1: "fhm_find Hash_u64 (fst (fhm_insert Hash_u64 (om_by_id om1) (om_next_id om) slot)) i = Some x \<longleftrightarrow>
      x < om_fresh om1 \<and> in_id (en_info (es ! x)) = i" for i x
    using idf [of i x] ids [of x] slot(1) e(1) by (auto simp: ins es below)
  have F2: "fhm_find Hash_u64 (om_tokens om1) t = Some x \<longleftrightarrow> x < om_fresh om1 \<and> t \<in> owned (es ! x)" for t x
  proof -
    have "x < om_fresh om \<Longrightarrow> om_next_token om \<notin> owned (om_orders om ! x)" using tab by (auto simp: tables_ok_def)
    then show ?thesis using v by (auto simp: vacant_def es below own)
  qed
  have F3: "0 < in_id (en_info (es ! x)) \<and> in_id (en_info (es ! x)) < om_next_id om + 1 \<and> en_token (es ! x) \<noteq> en_next_token (es ! x) \<and>
      (\<forall>t \<in> owned (es ! x). 0 < t \<and> t < om_next_token om + 1 \<and> t \<le> Token_kMaxId)" if "x < om_fresh om1" for x
  proof (cases "x = slot")
    case True
    have "0 < om_next_id om" "0 < om_next_token om" using tab by (auto simp: tables_ok_def intro: less_le_trans)
    then show ?thesis using True nx e tk own by (auto simp: es)
  next
    case False
    then have "x < om_fresh om" using that below by simp
    then have "0 < in_id (en_info (om_orders om ! x)) \<and> in_id (en_info (om_orders om ! x)) < om_next_id om \<and>
        en_token (om_orders om ! x) \<noteq> en_next_token (om_orders om ! x) \<and>
        (\<forall>t \<in> owned (om_orders om ! x). 0 < t \<and> t < om_next_token om \<and> t \<le> Token_kMaxId)"
      using tab by (simp add: tables_ok_def)
    then show ?thesis using False less_trans [OF _ nx(1)] less_trans [OF _ nx(2)] by (auto simp: es)
  qed
  show ?thesis using F1 F2 F3 nx v ins tab
    unfolding tables_ok_def insert_entry_def
    by (intro conjI allI impI) (simp_all add: o1 es_def [symmetric] vacant_def, simp_all add: es_def, auto intro: less_trans)
qed

lemma insert_slots:
  assumes slots: "slots_ok om ws fs" and tab: "tables_ok om" and v: "vacant slot om om1" and ring: "ring om1 fs'"
    and fs': "slot \<notin> set fs'" "distinct fs'" "insert slot (set fs') = insert slot (set fs)" and ws: "slot \<notin> set ws"
    and e: "in_id (en_info e) = om_next_id om"
  defines "om3 \<equiv> link slot (insert_entry slot e om1)"
  shows "slots_ok (om3\<lparr>om_next_token := nt, om_open := om_open om3 + 1\<rparr>) (ws @ [slot]) fs'"
proof -
  define om2 where "om2 = insert_entry slot e om1"
  have o1: "om_orders om1 = om_orders om" "om_finished om1 = om_finished om" "om_head om1 = om_head om" "om_tail om1 = om_tail om"
    "om_open om1 = om_open om" "slot < om_fresh om1" "om_fresh om1 \<le> length (om_orders om)" "{..< om_fresh om1} = insert slot {..< om_fresh om}"
    using v by (simp_all add: vacant_def)
  have rel: "relinked (om_orders om2) (om_orders om3)" using relinked_link by (simp add: om3_def om2_def)
  have len: "length (om_orders om3) = length (om_orders om)" using rel o1(1) by (simp add: relinked_def om2_def insert_entry_def)
  have d: "dll om ws" and set: "set (ws @ fs) = {..< om_fresh om}" and dist: "distinct (ws @ fs)" using slots by (simp_all add: slots_ok_def)
  have "dll om2 ws" using d ws o1(1,3,4) by (simp add: dll_def om2_def insert_entry_def lseg_set_other)
  then have dll: "dll om3 (ws @ [slot])" unfolding om3_def om2_def
    using dll_link [of _ ws slot] ws o1(1,6,7) by (simp add: insert_entry_def)
  have info: "en_info (om_orders om3 ! x) = en_info (om_orders om2 ! x)" "en_reserved (om_orders om3 ! x) = en_reserved (om_orders om2 ! x)"
    if "x < length (om_orders om)" for x
    using same_termsD(1,6) [OF relinked_nth [OF rel, of x]] that o1(1) by (simp_all add: om2_def insert_entry_def)
  have bound: "x < length (om_orders om)" if "x \<in> set ws" for x using d that by (simp add: dll_def)
  have ids: "map (\<lambda>x. in_id (en_info (om_orders om3 ! x))) ws = map (\<lambda>x. in_id (en_info (om_orders om ! x))) ws"
    using info(1) [OF bound] ws o1(1) by (intro map_cong refl) (simp add: om2_def insert_entry_def, metis nth_list_update_neq)
  have "sorted_wrt (<) (map (\<lambda>x. in_id (en_info (om_orders om3 ! x))) ws)"
    unfolding ids using slots by (simp add: slots_ok_def)
  moreover have "in_id (en_info (om_orders om3 ! slot)) = om_next_id om"
    using info(1) [of slot] o1(1,6,7) e by (simp add: om2_def insert_entry_def)
  moreover have "in_id (en_info (om_orders om3 ! x)) < om_next_id om" if "x \<in> set ws" for x
    using tab set that ids by (auto simp: tables_ok_def)
  ultimately have sorted: "sorted_wrt (<) (map (\<lambda>x. in_id (en_info (om_orders om3 ! x))) (ws @ [slot]))"
    by (simp add: sorted_wrt_append)
  have "en_reserved (om_orders om3 ! x) = 0" if "om_fresh om1 \<le> x" "x < length (om_orders om)" for x
  proof -
    have "x \<notin> {..< om_fresh om1}" using that by simp
    then have "x \<noteq> slot" "om_fresh om \<le> x" using o1(8) by auto
    then show ?thesis using info(2) [OF that(2)] slots that(2) o1(1) by (simp add: om2_def insert_entry_def slots_ok_def)
  qed
  moreover have "om_fresh om3 = om_fresh om1" "om_finished om3 = om_finished om" "om_open om3 = om_open om"
    using o1 by (simp_all add: om3_def insert_entry_def)
  moreover have "set ((ws @ [slot]) @ fs') = {..< om_fresh om1}" using set o1(8) fs'(3) by auto
  moreover have "distinct ((ws @ [slot]) @ fs')" using dist ws fs' by auto
  moreover have "ring om3 fs'" using ring by (simp add: om3_def insert_entry_def)
  ultimately show ?thesis using slots dll sorted len o1(7) by (simp add: slots_ok_def)
qed

lemma om_at_book:
  fixes sy :: "'w sys"
  assumes at: "om_at {} ws fs sy" and av: "slot_available (sy_om sy)" and tk: "om_next_token (sy_om sy) \<le> Token_kMaxId"
    and T: "fhm_inv Hash_u64 T" "fhm_max T = fhm_max (om_tokens (sy_om sy))"
      "fhm_find Hash_u64 T = (fhm_find Hash_u64 (om_tokens (sy_om sy)))(om_next_token (sy_om sy) \<mapsto> next_slot (sy_om sy))"
    and req: "valid_side (rq_side req)" "rq_qty req \<noteq> 0" "rq_qty req \<le> kMaxOrderQty" "slot_at (sy_risk sy) (rq_locate req) = Some sl"
  obtains fs' where "om_at {} (ws @ [next_slot (sy_om sy)]) fs' (book_order req now (next_slot (sy_om sy)) (sy\<lparr>sy_om := (sy_om sy)\<lparr>om_tokens := T\<rparr>\<rparr>))"
proof -
  define om slot om1 where "om = sy_om sy" and "slot = next_slot om" and "om1 = take_slot slot (om\<lparr>om_tokens := T\<rparr>)"
  define e where "e = new_entry req now om1"
  define om3 where "om3 = link slot (insert_entry slot e om1)"
  define om4 where "om4 = om3\<lparr>om_next_token := om_next_token om1 + 1, om_open := om_open om3 + 1\<rparr>"
  define l d re' where "l = rq_locate req" and "d = rq_side req" and "re' = on_order_open (sy_risk sy) l d (rq_qty req)"
  obtain fs' where v: "vacant slot om om1" and ring: "ring om1 fs'" and fs': "slot \<notin> set fs'" "distinct fs'"
      "insert slot (set fs') = insert slot (set fs)" and ws: "slot \<notin> set ws"
    using take_slot_vacant [OF at av T] unfolding om_def [symmetric] slot_def [symmetric] om1_def [symmetric] by metis
  have eq: "book_order req now slot (sy\<lparr>sy_om := om\<lparr>om_tokens := T\<rparr>\<rparr>) = sy\<lparr>sy_om := om4, sy_risk := re'\<rparr>"
    by (simp add: book_order_eq Let_def om1_def [symmetric] e_def [symmetric] om3_def [symmetric] om4_def re'_def l_def d_def)
      (simp add: om3_def insert_entry_def)
  have tab: "tables_ok om" and slots: "slots_ok om ws fs" and led: "ledger_ok (sy_risk sy) (om_orders om)"
    using at by (simp_all add: om_at_def om_def)
  have o1: "om_next_id om1 = om_next_id om" "om_next_token om1 = om_next_token om" "om_orders om1 = om_orders om"
    "slot < om_fresh om1" "om_fresh om1 \<le> length (om_orders om)" "{..< om_fresh om1} = insert slot {..< om_fresh om}"
    using v by (simp_all add: vacant_def)
  note e = new_entry_ok [OF req(1-3), of now om1, folded e_def, unfolded o1]
  have len: "slot < length (om_orders om)" "length (om_orders om) < kNone" using o1 om_at_slots(4) [OF at] by (simp_all add: om_def)
  define om2 where "om2 = (insert_entry slot e om1)\<lparr>om_next_token := om_next_token om1 + 1\<rparr>"
  have rel: "relinked (om_orders om2) (om_orders om4)"
    using relinked_link [of "insert_entry slot e om1" slot] by (simp add: om2_def om4_def om3_def)
  have "tables_ok om2" unfolding om2_def using tk by (intro insert_tables [OF tab v]) (simp_all add: e om_def)
  then have tab4: "tables_ok om4"
    by (rule tables_relink [OF _ rel]) (use o1 in \<open>simp_all add: om2_def om4_def om3_def insert_entry_def\<close>)
  have slots4: "slots_ok om4 (ws @ [slot]) fs'"
    unfolding om4_def om3_def using insert_slots [OF slots tab v ring fs' ws e(5)] by simp
  have old0: "en_reserved (om_orders om ! slot) = 0"
  proof (cases "slot < om_fresh om")
    case True
    then have "slot \<in> set fs" using ws om_at_slots(6) [OF at] by (auto simp: om_def)
    then show ?thesis using at by (auto simp: om_at_def om_def entry_ok_def)
  next
    case False
    then show ?thesis using slots len(1) by (simp add: slots_ok_def)
  qed
  have qty: "open_qty (sy_risk sy) l d = (\<Sum>x\<leftarrow>om_orders om. share l d x)" "open_count (sy_risk sy) l d = (\<Sum>x\<leftarrow>om_orders om. counts l d x)"
      "\<forall>x \<in> set (om_orders om). en_reserved x \<le> kMaxOrderQty"
    using led req(1) by (simp_all add: ledger_ok_def d_def)
  have nonneg: "0 \<le> open_qty (sy_risk sy) l d" unfolding qty(1) by (rule share_sum_bounds)
  have "open_qty (sy_risk sy) l d \<le> 2 ^ 52"
    using share_sum_bounds(2) [OF qty(3), of l d] len(2) unfolding qty(1) kNone_def by simp
  moreover have "uint (rq_qty req) \<le> 999999" using req(3) by (simp add: kMaxOrderQty_def word_le_def)
  moreover have "open_count (sy_risk sy) l d < 2 ^ 32 - 1"
    using counts_sum_le [of l d "om_orders om"] len(2) unfolding qty(2) kNone_def by simp
  ultimately have mv: "moves (sy_risk sy) re' l d (uint (rq_qty req)) 1" unfolding re'_def
    using req nonneg by (intro moves_open) (simp_all add: l_def d_def kInt64Max_def)
  have "ledger_ok re' ((om_orders om)[slot := e])"
    using req e(3,8) old0 by (intro ledger_move [OF led mv len(1)]) (auto simp: holds_def share_def counts_def l_def d_def)
  then have led4: "ledger_ok re' (om_orders om4)"
    by (intro ledger_relink [OF _ rel]) (simp add: om2_def insert_entry_def o1)
  have st: "same_terms (if x = slot then e else om_orders om ! x) (om_orders om4 ! x)" if "x < length (om_orders om)" for x
    using relinked_nth [OF rel, of x] that o1(3) by (cases "x = slot") (simp_all add: om2_def insert_entry_def)
  have lt: "x < length (om_orders om)" if "x \<in> set ws \<union> set fs'" for x
  proof -
    have "x \<in> insert slot (set (ws @ fs))" using that fs'(3) by auto
    also have "\<dots> = {..< om_fresh om1}" using slots o1(6) by (simp add: slots_ok_def)
    finally show ?thesis using o1(5) by simp
  qed
  show thesis
  proof (rule that [of fs'])
    have "entry_ok (om_orders om4 ! x) \<and> \<not> terminal (om_orders om4 ! x)" if "x \<in> set (ws @ [slot])" for x
      using st [of x] lt [of x] that len(1) e(1,2) at
      by (cases "x = slot") (auto simp: entry_ok_relink terminal_relink om_at_def om_def)
    moreover have "entry_ok (om_orders om4 ! x) \<and> terminal (om_orders om4 ! x)" if "x \<in> set fs'" for x
    proof -
      have "x \<noteq> slot" "x \<in> set fs" using that fs' by auto
      then show ?thesis using st [of x] lt [of x] that at by (auto simp: entry_ok_relink terminal_relink om_at_def om_def)
    qed
    ultimately show "om_at {} (ws @ [next_slot (sy_om sy)]) fs' (book_order req now (next_slot (sy_om sy)) (sy\<lparr>sy_om := (sy_om sy)\<lparr>om_tokens := T\<rparr>\<rparr>))"
      unfolding om_def [symmetric] slot_def [symmetric] eq using tab4 slots4 led4 by (simp add: om_at_def)
  qed
qed

end
