(* ===== verification/Order_Manager_Correct.thy ===== *)
theory Order_Manager_Correct
  imports Order_Manager_Inv
begin

text \<open>
  Every call of the order manager and every exchange report keeps the invariant, with any listener
  whose callbacks act through the manager's own calls. The first part takes the operations without
  a listener, the second shows that with one they are those operations followed by what the
  callbacks do, and the last states the properties of the manager.
\<close>

section \<open>Operations without a listener\<close>

definition quiet :: "'w env \<Rightarrow> 'w env" where
  "quiet ev = ev\<lparr>ev_listener := None\<rparr>"

lemma quiet_simps [simp]:
  "ev_listener (quiet ev) = None" "ev_send_enter (quiet ev) = ev_send_enter ev" "ev_send_cancel (quiet ev) = ev_send_cancel ev"
  "ev_send_replace (quiet ev) = ev_send_replace ev" "ev_reference (quiet ev) = ev_reference ev" "ev_symbol (quiet ev) = ev_symbol ev"
  "notify (quiet ev) i sy = sy"
  by (simp_all add: quiet_def notify_def)

lemma om_invI: "om_at {} ws fs sy \<Longrightarrow> om_inv sy"
  by (auto simp: om_inv_def)

text \<open>What a report's token leads to.\<close>

lemma resolve_cases:
  assumes "om_at {} ws fs sy" "resolve t sy = (sy', r)"
  obtains "r = None" "sy' = unknown sy"
  | s where "r = Some (s, False)" "sy' = sy" "s < om_fresh (sy_om sy)"
  | s where "r = Some (s, True)" "sy' = sy" "s < om_fresh (sy_om sy)" "en_next_token (ent sy s) \<noteq> 0"
proof -
  have tok: "\<And>t s. fhm_find Hash_u64 (om_tokens (sy_om sy)) t = Some s \<Longrightarrow> s < om_fresh (sy_om sy) \<and> t \<noteq> 0"
    using assms(1) by (auto simp: om_at_def tables_ok_def)
  show thesis using assms(2) tok that
    by (auto simp: resolve_def split: option.splits if_splits)
qed

lemma active_order_cases:
  assumes "om_at {} ws fs sy" "active_order t sy = (sy', r)"
  obtains "r = None" "sy' \<in> {unknown sy, late sy, invalid sy}"
  | s where "r = Some s" "sy' = sy" "s \<in> set ws" "entry_ok (ent sy s)" "\<not> terminal (ent sy s)"
proof -
  obtain sy1 r1 where r: "resolve t sy = (sy1, r1)" by fastforce
  show thesis
  proof (cases rule: resolve_cases [OF assms(1) r])
    case 1
    then show ?thesis using assms(2) r that(1) by (simp add: active_order_def)
  next
    case (2 s)
    then show ?thesis
    proof (cases "terminal (ent sy s)")
      case True
      then show ?thesis using 2 assms(2) r that(1) by (simp add: active_order_def terminal_def)
    next
      case False
      then have "s \<in> set ws" using om_at_working [OF assms(1) 2(3)] by simp
      then show ?thesis using 2 False assms r that(2) [of s] by (auto simp: active_order_def terminal_def om_at_def)
    qed
  next
    case (3 s)
    then show ?thesis using assms(2) r that(1)
      by (cases "terminal (ent sy s)") (simp_all add: active_order_def terminal_def)
  qed
qed

lemma entry_ok_core: "entry_ok e \<Longrightarrow> entry_core e"
  by (simp add: entry_ok_def)

lemma keeps_simps [simp]:
  "keeps (info_upd (\<lambda>i. i\<lparr>in_status := st\<rparr>))" "keeps (info_upd (\<lambda>i. i\<lparr>in_status := st, in_last_update := now\<rparr>))"
  "keeps (info_upd (\<lambda>i. i\<lparr>in_reason := rs, in_last_update := now\<rparr>))"
  "keeps (\<lambda>e. info_upd (\<lambda>i. i\<lparr>in_exchange_ref := xr, in_last_update := now\<rparr>) (e\<lparr>en_accepted := True, en_acked := True\<rparr>))"
  "keeps (\<lambda>e. info_upd (\<lambda>i. i\<lparr>in_leaves_qty := in_leaves_qty i - q, in_reason := rs, in_last_update := now\<rparr>) (e\<lparr>en_acked := True\<rparr>))"
  "keeps (book_execution x now)"
  by (simp_all add: keeps_def info_upd_def book_execution_def remember_match_def Let_def)

text \<open>Writes that do not touch quantities, tokens or the status of an order, finished or not.\<close>

lemma om_at_cosmetic:
  assumes at: "om_at {} ws fs sy" and s: "s \<in> set ws \<union> set fs" and k: "keeps f"
    and ok: "entry_ok (f (ent sy s)) = entry_ok (ent sy s)" "terminal (f (ent sy s)) = terminal (ent sy s)"
  shows "om_at {} ws fs (set_ent s f sy)"
proof -
  define om es where "om = sy_om sy" and "es = (om_orders om)[s := f (om_orders om ! s)]"
  have len: "s < om_fresh om" "s < length (om_orders om)"
    using s om_at_slots(1,2,3) [OF at] by (auto simp: om_def intro: less_le_trans)
  have es: "es ! x = (if x = s then f (om_orders om ! x) else om_orders om ! x)" for x using len by (simp add: es_def)
  have same: "in_id (en_info (es ! x)) = in_id (en_info (om_orders om ! x))" "en_prev (es ! x) = en_prev (om_orders om ! x)"
    "en_next (es ! x) = en_next (om_orders om ! x)" "owned (es ! x) = owned (om_orders om ! x)"
    "en_token (es ! x) = en_token (om_orders om ! x)" "en_next_token (es ! x) = en_next_token (om_orders om ! x)"
    "en_reserved (es ! x) = en_reserved (om_orders om ! x)"
    "rq_locate (in_req (en_info (es ! x))) = rq_locate (in_req (en_info (om_orders om ! x)))"
    "rq_side (in_req (en_info (es ! x))) = rq_side (in_req (en_info (om_orders om ! x)))" for x
    using k by (simp_all add: es keeps_def owned_def)
  have l: "length es = length (om_orders om)" by (simp add: es_def)
  have "tables_ok (om\<lparr>om_orders := es\<rparr>) = tables_ok om" by (simp add: tables_ok_def same l)
  moreover have "slots_ok (om\<lparr>om_orders := es\<rparr>) ws fs = slots_ok om ws fs"
    using lseg_cong [of ws es "om_orders om" kNone kNone] by (simp add: slots_ok_def same l dll_def)
  moreover have led: "ledger_ok (sy_risk sy) (om_orders om)" using at by (simp add: om_at_def om_def)
  have "ledger_ok (sy_risk sy) es" by (rule ledger_cong [OF led]) (simp_all add: same l)
  moreover have "entry_ok (es ! x) = entry_ok (om_orders om ! x)" "terminal (es ! x) = terminal (om_orders om ! x)" for x
    using ok by (simp_all add: es om_def)
  ultimately show ?thesis using at by (simp add: om_at_def set_ent_def om_upd_def om_def [symmetric] es_def [symmetric])
qed

lemma book_execution_core:
  assumes e: "entry_core e" and x: "ex_shares x \<noteq> 0" "0 < ex_price x" "ex_price x \<le> kMaxWirePrice"
    "ex_shares x \<le> kMaxOrderQty - in_cum_qty (en_info e)"
  shows "entry_core (book_execution x now e)"
proof -
  define c q sh lv n :: nat where "c = unat (in_cum_qty (en_info e))" and "q = unat (rq_qty (in_req (en_info e)))"
    and "sh = unat (ex_shares x)" and "lv = unat (in_leaves_qty (en_info e))" and "n = unat (en_notional e)"
  define p where "p = nat (ex_price x)"
  note defs = c_def q_def sh_def lv_def n_def
  have E: "c + lv \<le> q" "q \<le> 999999" "n \<le> c * 4294967295" "unat (en_match_count e) \<le> c"
    using e by (simp_all add: entry_core_def Let_def defs kMaxOrderQty_def word_le_nat_alt)
  have P: "p \<le> 4294967295" "0 < p" "int p = ex_price x" using x by (auto simp: p_def kMaxWirePrice_def)
  have "unat (kMaxOrderQty - in_cum_qty (en_info e)) = 999999 - c"
    using E(1,2) by (subst unat_minus_le) (simp_all add: kMaxOrderQty_def word_le_nat_alt c_def)
  then have S: "sh \<le> 999999 - c" "0 < sh" using x by (simp_all add: word_le_nat_alt sh_def unat_gt_0)
  have c': "unat (in_cum_qty (en_info e) + ex_shares x) = c + sh"
    using S E by (subst unat_add_no_overflow) (simp_all add: defs)
  have m': "unat (en_match_count e + 1) = unat (en_match_count e) + 1"
    using E S by (subst unat_add_no_overflow) simp_all
  have mn: "unat (min (ex_shares x) (in_leaves_qty (en_info e))) = min sh lv"
    by (simp add: min_def word_le_nat_alt sh_def lv_def)
  have l': "unat (in_leaves_qty (en_info e) - min (ex_shares x) (in_leaves_qty (en_info e))) = lv - min sh lv"
    by (subst unat_minus_le) (simp_all add: mn lv_def)
  have mx: "unat (max (rq_qty (in_req (en_info e))) (in_cum_qty (en_info e) + ex_shares x)) = max q (c + sh)"
    by (simp add: max_def word_le_nat_alt c' q_def)
  have ps: "p * sh \<le> 4294967295 * 999999" using P(1) S(1) by (intro mult_mono) simp_all
  have "unat (word_of_int (ex_price x) :: u64) = p" using P by (simp add: P(3) [symmetric] unsigned_of_nat take_bit_nat_eq_self del: P)
  moreover have "unat (ucast (ex_shares x) :: u64) = sh" by (simp add: sh_def unsigned_ucast_eq take_bit_nat_eq_self less_trans [OF unsigned_less [where 'a = nat]])
  ultimately have pr: "unat (word_of_int (ex_price x) * ucast (ex_shares x) :: u64) = p * sh"
    using ps by (simp add: unat_word_ariths)
  have nb: "c * 4294967295 + p * sh \<le> (c + sh) * 4294967295" using P(1) by (simp add: add_mult_distrib mult.commute)
  have cs: "(c + sh) * 4294967295 \<le> 999999 * 4294967295" using S(1) E(1,2) by (intro mult_right_mono) simp_all
  have "n + p * sh < 2 ^ 64" using order_trans [OF add_right_mono [OF E(3)] order_trans [OF nb cs]] by simp
  then have n': "unat (en_notional e + word_of_int (ex_price x) * ucast (ex_shares x)) = n + p * sh"
    by (subst unat_add_no_overflow) (simp_all add: pr n_def)
  have av: "uint (w div ucast (in_cum_qty (en_info e) + ex_shares x)) = uint w div uint (in_cum_qty (en_info e) + ex_shares x)" for w :: u64
    by (simp add: uint_div_distrib uint_up_ucast is_up)
  have e3: "en_replace_qty e \<le> kMaxOrderQty" "valid_side (rq_side (in_req (en_info e)))" "length (en_matches e) = kMatchMemory"
    using e by (simp_all add: entry_core_def Let_def)
  have le: "c + sh + (lv - min sh lv) \<le> max q (c + sh)" using E(1) by (auto simp: min_def max_def)
  have nn: "n + p * sh \<le> (c + sh) * 4294967295" by (rule order_trans [OF add_right_mono [OF E(3)] nb])
  have mq: "max q (c + sh) \<le> 999999" "unat (en_match_count e) + 1 \<le> c + sh" using E(2,4) S by auto
  have "max (rq_qty (in_req (en_info e))) (in_cum_qty (en_info e) + ex_shares x) \<le> kMaxOrderQty"
    unfolding word_le_nat_alt mx using mq(1) by (simp add: kMaxOrderQty_def)
  moreover have "en_match_count e + 1 \<le> in_cum_qty (en_info e) + ex_shares x" unfolding word_le_nat_alt m' c' by (rule mq(2))
  moreover note le [folded c' l' mx] nn [folded n' c'] av [of "en_notional e + word_of_int (ex_price x) * ucast (ex_shares x)"]
  ultimately show ?thesis using e3 by (simp add: entry_core_def book_execution_def remember_match_def Let_def)
qed

section \<open>The report handlers\<close>

lemma om_at_entry: "om_at {} ws fs sy \<Longrightarrow> s \<in> set ws \<Longrightarrow> entry_ok (ent sy s) \<and> \<not> terminal (ent sy s)"
  by (simp add: om_at_def)

lemma om_at_risk:
  assumes "om_at X ws fs sy" "\<And>l d. moves (sy_risk sy) re l d 0 0"
  shows "om_at X ws fs (sy\<lparr>sy_risk := re\<rparr>)"
  using assms ledger_same [OF _ assms(2)] by (simp add: om_at_def)

lemma om_at_endI:
  assumes "om_at {s} ws fs sy" "entry_core (ent sy s)" "oc = None \<or> oc = Some OS_filled \<or> oc = Some OS_rejected"
  shows "om_inv (end_of_life s oc sy)"
  using om_at_end [OF assms] om_invI by metis

lemma on_accepted_inv:
  assumes "om_inv sy"
  shows "om_inv (on_accepted (quiet ev) a now sy)"
proof -
  obtain ws fs where at: "om_at {} ws fs sy" using assms by (auto simp: om_inv_def)
  obtain sy1 r where r: "active_order (ac_token a) sy = (sy1, r)" by fastforce
  show ?thesis
  proof (cases rule: active_order_cases [OF at r])
    case 1
    then show ?thesis using assms r by (auto simp: on_accepted_def)
  next
    case (2 s)
    define f where "f = (\<lambda>e. info_upd (\<lambda>i. i\<lparr>in_exchange_ref := ac_ref a, in_last_update := now\<rparr>) (e\<lparr>en_accepted := True, en_acked := True\<rparr>))"
    note len = om_at_len [OF at 2(3)]
    have at1: "om_at {s} ws fs (set_ent s f sy)" using om_at_set [OF om_at_open [OF at 2(3)]] by (simp add: f_def)
    have core: "entry_core (f e) = entry_core e" for e by (simp add: entry_core_def f_def info_upd_def Let_def)
    have ok: "entry_ok (f (ent sy s))" "\<not> terminal (f (ent sy s))" using 2(4,5)
      by (simp_all add: entry_ok_def core) (simp_all add: f_def info_upd_def terminal_def ledger_want_def)
    have "om_inv (end_of_life s None (set_ent s f sy))"
      using at1 len entry_ok_core [OF 2(4)] by (intro om_at_endI [OF at1]) (simp_all add: core)
    moreover have "om_inv (set_ent s f sy)" using om_at_close [OF at1] ok len by (intro om_invI) simp
    moreover have "om_inv (set_ent s (info_upd (\<lambda>i. i\<lparr>in_status := OS_live\<rparr>)) (set_ent s f sy))"
      if "in_status (en_info (ent (set_ent s f sy) s)) = OS_pending_new"
      using that ok len
      by (intro om_invI [OF om_at_close [OF om_at_set [OF at1]]])
        (auto simp: entry_ok_def entry_core_def info_upd_def terminal_def is_terminal_def ledger_want_def Let_def)
    ultimately show ?thesis using assms by (simp add: on_accepted_def r 2(1,2) Let_def f_def [symmetric])
  qed
qed

text \<open>The common end of the handlers that change the open quantity.\<close>

lemma settle_order:
  assumes at: "om_at {s} ws fs sy" and core: "entry_core (ent sy s)" and oc: "oc = None \<or> oc = Some OS_filled"
    and st: "\<not> terminal (ent sy s)"
      "in_status (en_info (ent sy s)) = OS_pending_replace \<longrightarrow> en_next_token (ent sy s) \<noteq> 0"
      "en_next_token (ent sy s) \<noteq> 0 \<longrightarrow> in_status (en_info (ent sy s)) = OS_pending_replace \<or> in_status (en_info (ent sy s)) = OS_pending_cancel"
    and pend: "old = OS_pending_new \<or> old = OS_pending_replace \<and> en_next_token (ent sy s) = 0"
  shows "om_inv (if in_leaves_qty (en_info (ent sy s)) = 0 then end_of_life s oc sy
    else sync_ledger s (if in_status (en_info (ent sy s)) = old then set_ent s (info_upd (\<lambda>i. i\<lparr>in_status := OS_live\<rparr>)) sy else sy))"
proof (cases "in_leaves_qty (en_info (ent sy s)) = 0")
  case True
  then show ?thesis using om_at_endI [OF at core] oc by auto
next
  case False
  define sy1 where "sy1 = (if in_status (en_info (ent sy s)) = old then set_ent s (info_upd (\<lambda>i. i\<lparr>in_status := OS_live\<rparr>)) sy else sy)"
  have len: "s < length (om_orders (sy_om sy))" using at om_at_len [OF at] by (simp add: om_at_def)
  have "om_at {s} ws fs sy1" using at om_at_set [OF at] by (simp add: sy1_def)
  moreover have "ready (ent sy1 s)" using core False st pend len
    by (auto simp: sy1_def ready_def entry_core_def info_upd_def terminal_def is_terminal_def Let_def)
  ultimately show ?thesis using False sync_closes om_invI by (simp add: sy1_def [symmetric]) blast
qed

lemma entry_ok_status:
  assumes "entry_ok e" "\<not> terminal e"
  shows "in_status (en_info e) = OS_pending_replace \<longrightarrow> en_next_token e \<noteq> 0"
    "en_next_token e \<noteq> 0 \<longrightarrow> in_status (en_info e) = OS_pending_replace \<or> in_status (en_info e) = OS_pending_cancel"
  using assms by (simp_all add: entry_ok_def)

lemma on_executed_inv:
  assumes "om_inv sy"
  shows "om_inv (on_executed (quiet ev) x now sy)"
proof -
  obtain ws fs where at: "om_at {} ws fs sy" using assms by (auto simp: om_inv_def)
  obtain sy1 r where r: "active_order (ex_token x) sy = (sy1, r)" by fastforce
  show ?thesis
  proof (cases rule: active_order_cases [OF at r])
    case 1
    then show ?thesis using assms r by (auto simp: on_executed_def)
  next
    case (2 s)
    define e where "e = ent sy s"
    show ?thesis
    proof (cases "ex_shares x = 0 \<or> ex_price x \<le> 0 \<or> ex_price x > kMaxWirePrice \<or> ex_shares x > kMaxOrderQty - in_cum_qty (en_info e) \<or>
        seen_match e (ex_match x)")
      case True
      then show ?thesis using assms by (auto simp: on_executed_def r 2(1,2) Let_def e_def)
    next
      case False
      define sy2 where "sy2 = set_ent s (book_execution x now) (if ex_shares x > in_leaves_qty (en_info e) then clamped sy else sy)"
      define info where "info = en_info (ent sy2 s)"
      define sy3 where "sy3 = sy2\<lparr>sy_risk := on_fill (sy_risk sy2) (rq_locate (in_req info)) (rq_side (in_req info)) (ex_shares x) (ex_price x)\<rparr>"
      have at0: "om_at {s} ws fs (if ex_shares x > in_leaves_qty (en_info e) then clamped sy else sy)" using om_at_open [OF at 2(3)] by simp
      have p: "ex_price x \<le> kInt64Max" using False by (simp add: kInt64Max_def kMaxWirePrice_def)
      have "om_at {s} ws fs sy2" unfolding sy2_def by (rule om_at_set [OF at0]) simp
      then have at3: "om_at {s} ws fs sy3" unfolding sy3_def by (rule om_at_risk) (rule moves_none(2) [OF p])
      have ent: "ent sy3 s = book_execution x now e" "ent sy2 s = book_execution x now e"
        using om_at_len [OF at 2(3)] by (simp_all add: sy3_def sy2_def e_def set_ent_def om_upd_def clamped_def)
      have core: "entry_core (ent sy3 s)" unfolding ent
        using False entry_ok_core [OF 2(4)] by (intro book_execution_core) (auto simp: e_def)
      have st: "in_status (en_info (ent sy3 s)) = in_status (en_info e)" "en_next_token (ent sy3 s) = en_next_token e"
        by (simp_all add: ent book_execution_def remember_match_def Let_def)
      have "om_inv (if in_leaves_qty (en_info (ent sy3 s)) = 0 then end_of_life s (Some OS_filled) sy3
        else sync_ledger s (if in_status (en_info (ent sy3 s)) = OS_pending_new then set_ent s (info_upd (\<lambda>i. i\<lparr>in_status := OS_live\<rparr>)) sy3 else sy3))"
        using 2(4,5) entry_ok_status [OF 2(4,5)]
        by (intro settle_order [OF at3 core]) (simp_all add: st terminal_def e_def)
      moreover have "en_info (ent sy3 s) = info" by (simp add: info_def ent)
      moreover have "on_executed (quiet ev) x now sy = (if in_leaves_qty info = 0 then end_of_life s (Some OS_filled) sy3
        else sync_ledger s (if in_status info = OS_pending_new then set_ent s (info_upd (\<lambda>i. i\<lparr>in_status := OS_live\<rparr>)) sy3 else sy3))"
        unfolding sy3_def info_def sy2_def e_def using False [unfolded e_def]
        by (simp add: on_executed_def r 2(1,2) Let_def split del: if_split)
      ultimately show ?thesis by (simp only:)
    qed
  qed
qed

lemma on_canceled_inv:
  assumes "om_inv sy"
  shows "om_inv (on_canceled (quiet ev) c now sy)"
proof -
  obtain ws fs where at: "om_at {} ws fs sy" using assms by (auto simp: om_inv_def)
  obtain sy1 r where r: "active_order (cn_token c) sy = (sy1, r)" by fastforce
  show ?thesis
  proof (cases rule: active_order_cases [OF at r])
    case 1
    then show ?thesis using assms r by (auto simp: on_canceled_def)
  next
    case (2 s)
    show ?thesis
    proof (cases "cn_decrement c = 0")
      case True
      then show ?thesis using assms by (simp add: on_canceled_def r 2(1,2))
    next
      case False
      define qty where "qty = min (cn_decrement c) (in_leaves_qty (en_info (ent sy s)))"
      define f where "f = (\<lambda>e. info_upd (\<lambda>i. i\<lparr>in_leaves_qty := in_leaves_qty i - qty, in_reason := cn_reason c, in_last_update := now\<rparr>)
                       (e\<lparr>en_acked := True\<rparr>))"
      define sy2 where "sy2 = set_ent s f (if qty \<noteq> cn_decrement c then clamped sy else sy)"
      have "om_at {s} ws fs (if qty \<noteq> cn_decrement c then clamped sy else sy)" using om_at_open [OF at 2(3)] by simp
      then have at2: "om_at {s} ws fs sy2" unfolding sy2_def by (rule om_at_set) (simp add: f_def)
      have ent: "ent sy2 s = f (ent sy s)"
        using om_at_len [OF at 2(3)] by (simp add: sy2_def set_ent_def om_upd_def clamped_def)
      have "unat (in_leaves_qty (en_info (ent sy s)) - qty) \<le> unat (in_leaves_qty (en_info (ent sy s)))"
        by (simp add: qty_def unat_minus_le)
      then have core: "entry_core (ent sy2 s)"
        using entry_ok_core [OF 2(4)] by (auto simp: ent f_def entry_core_def info_upd_def Let_def)
      have "om_inv (if in_leaves_qty (en_info (ent sy2 s)) = 0 then end_of_life s None sy2
        else sync_ledger s (if in_status (en_info (ent sy2 s)) = OS_pending_new then set_ent s (info_upd (\<lambda>i. i\<lparr>in_status := OS_live\<rparr>)) sy2 else sy2))"
        using 2(5) entry_ok_status [OF 2(4,5)]
        by (intro settle_order [OF at2 core]) (simp_all add: ent f_def info_upd_def terminal_def)
      moreover have "on_canceled (quiet ev) c now sy = (if in_leaves_qty (en_info (ent sy2 s)) = 0 then end_of_life s None sy2
        else sync_ledger s (if in_status (en_info (ent sy2 s)) = OS_pending_new then set_ent s (info_upd (\<lambda>i. i\<lparr>in_status := OS_live\<rparr>)) sy2 else sy2))"
        unfolding sy2_def f_def qty_def using False by (simp add: on_canceled_def r 2(1,2) Let_def split del: if_split)
      ultimately show ?thesis by (simp only:)
    qed
  qed
qed

lemma on_rejected_inv:
  assumes "om_inv sy"
  shows "om_inv (on_rejected (quiet ev) rj now sy)"
proof -
  obtain ws fs where at: "om_at {} ws fs sy" using assms by (auto simp: om_inv_def)
  obtain sy1 r where r: "resolve (rj_token rj) sy = (sy1, r)" by fastforce
  define f where "f = info_upd (\<lambda>i. i\<lparr>in_reason := rj_reason rj, in_last_update := now\<rparr>)"
  have f: "keeps f" "\<And>e. entry_ok (f e) = entry_ok e" "\<And>e. terminal (f e) = terminal e"
    by (simp_all add: f_def) (simp_all add: info_upd_def entry_ok_def entry_core_def terminal_def ledger_want_def Let_def)
  have last: "om_inv (set_ent s f sy')" if "om_at {} ws' fs' sy'" "s \<in> set ws' \<union> set fs'" for s ws' fs' and sy' :: "'a sys"
    using om_at_cosmetic [OF that f(1)] f(2,3) om_invI by metis
  show ?thesis
  proof (cases rule: resolve_cases [OF at r])
    case 1
    then show ?thesis using assms r by (simp add: on_rejected_def)
  next
    case (2 s)
    show ?thesis
    proof (cases "terminal (ent sy s) \<or> en_acked (ent sy s)")
      case True
      then show ?thesis using assms 2 r by (auto simp: on_rejected_def terminal_def)
    next
      case False
      then have s: "s \<in> set ws" using om_at_working [OF at 2(3)] by simp
      then have "entry_core (ent sy s)" using om_at_entry [OF at s] entry_ok_core by simp
      then obtain ws' fs' where "om_at {} ws' (fs' @ [s]) (end_of_life s (Some OS_rejected) sy)"
        using om_at_end [OF om_at_open [OF at s], of "Some OS_rejected"] by metis
      then show ?thesis using last [of ws' "fs' @ [s]"] False 2 r
        by (simp add: on_rejected_def terminal_def Let_def f_def [symmetric])
    qed
  next
    case (3 s)
    show ?thesis
    proof (cases "terminal (ent sy s)")
      case True
      then show ?thesis using assms 3 r by (auto simp: on_rejected_def terminal_def)
    next
      case False
      then have s: "s \<in> set ws" using om_at_working [OF at 3(3)] by simp
      define sy2 where "sy2 = set_ent s (info_upd (\<lambda>i. i\<lparr>in_status := OS_live\<rparr>)) (drop_replacement s sy)"
      have at2: "om_at {s} ws fs sy2" unfolding sy2_def by (intro om_at_set om_at_drop om_at_open at s) simp
      have len: "s < length (om_orders (sy_om (drop_replacement s sy)))" "ent (drop_replacement s sy) s = without_replacement (ent sy s)"
        using om_at_len [OF at s] by (simp_all add: drop_replacement_eq)
      have "ready (ent sy2 s)" using om_at_entry [OF at s] False len
        by (auto simp: sy2_def ready_def entry_ok_def entry_core_def info_upd_def without_replacement_def terminal_def is_terminal_def Let_def)
      then have "om_at {} ws fs (sync_ledger s sy2)" by (rule sync_closes [OF at2])
      then show ?thesis using last s False 3 r
        by (simp add: on_rejected_def terminal_def Let_def f_def [symmetric] sy2_def [symmetric])
    qed
  qed
qed

lemma book_replaced_core:
  assumes "entry_core e"
  shows "entry_core (book_replaced a now e)"
proof -
  define c r asked where "c = in_cum_qty (en_info e)" and "r = en_replace_qty e" and "asked = (if r > c then r - c else 0)"
  define lv where "lv = (if ac_order_state a = asc CHR ''D'' then 0 else min (ac_shares a) asked)"
  have cr: "c \<le> kMaxOrderQty" "r \<le> kMaxOrderQty"
    using assms by (auto simp: entry_core_def Let_def c_def r_def word_le_nat_alt)
  have "unat lv \<le> unat asked" by (auto simp: lv_def word_le_nat_alt [symmetric])
  moreover have "unat c + unat asked \<le> unat (max r c)"
    by (auto simp: asked_def word_less_nat_alt unat_minus_le max_def word_le_nat_alt)
  ultimately have "unat c + unat lv \<le> unat (max r c)" by simp
  moreover have "max r c \<le> kMaxOrderQty" using cr by simp
  moreover have "in_leaves_qty (en_info (book_replaced a now e)) = lv" "rq_qty (in_req (en_info (book_replaced a now e))) = max r c"
    "in_cum_qty (en_info (book_replaced a now e)) = c" "en_replace_qty (book_replaced a now e) = 0"
    by (simp_all add: book_replaced_def Let_def lv_def asked_def c_def r_def)
  moreover have "rq_side (in_req (en_info (book_replaced a now e))) = rq_side (in_req (en_info e))"
    "en_matches (book_replaced a now e) = en_matches e" "en_match_count (book_replaced a now e) = en_match_count e"
    "en_notional (book_replaced a now e) = en_notional e" "in_avg_price (en_info (book_replaced a now e)) = in_avg_price (en_info e)"
    by (simp_all add: book_replaced_def Let_def)
  ultimately show ?thesis using assms by (simp add: entry_core_def Let_def c_def)
qed

lemma om_at_replaced:
  assumes at: "om_at {s} ws fs sy" and nt: "en_next_token (ent sy s) \<noteq> 0"
  shows "om_at {s} ws fs (set_ent s (book_replaced a now)
    (om_upd (\<lambda>om. om\<lparr>om_tokens := fst (fhm_erase Hash_u64 (om_tokens om) (en_token (ent sy s)))\<rparr>) sy))"
proof -
  have s: "s \<in> set ws" and e: "valid_side (rq_side (in_req (en_info (ent sy s))))" "en_reserved (ent sy s) \<noteq> 0"
    using at by (simp_all add: om_at_def)
  have same: "in_id (en_info (book_replaced a now e)) = in_id (en_info e)" "en_prev (book_replaced a now e) = en_prev e"
    "en_next (book_replaced a now e) = en_next e" "en_token (book_replaced a now e) = en_next_token e" "en_next_token (book_replaced a now e) = 0"
    "en_reserved (book_replaced a now e) = en_reserved e"
    "rq_side (in_req (en_info (book_replaced a now e))) = rq_side (in_req (en_info e))"
    "rq_locate (in_req (en_info (book_replaced a now e))) = rq_locate (in_req (en_info e))" for e
    by (simp_all add: book_replaced_def Let_def)
  have rt: "retoken s (book_replaced a now (ent sy s)) (sy_om sy) (fst (fhm_erase Hash_u64 (om_tokens (sy_om sy)) (en_token (ent sy s)))) (om_next_token (sy_om sy))"
    using nt om_at_token_neq [OF at s] by (intro retoken_erase [OF at s]) (auto simp: owned_def same)
  have "ledger_ok (sy_risk sy) ((om_orders (sy_om sy))[s := book_replaced a now (ent sy s)])"
  proof (rule ledger_cong)
    show "ledger_ok (sy_risk sy) (om_orders (sy_om sy))" using at by (simp add: om_at_def)
  qed (use om_at_len [OF at s] in \<open>simp_all add: same nth_list_update\<close>)
  then show ?thesis using om_at_update [OF at rt, of "sy_risk sy"] e
    by (simp add: set_ent_def om_upd_def same upd_commute)
qed

lemma on_replaced_inv:
  assumes "om_inv sy"
  shows "om_inv (on_replaced (quiet ev) rp now sy)"
proof -
  obtain ws fs where at: "om_at {} ws fs sy" using assms by (auto simp: om_inv_def)
  obtain sy1 r where r: "resolve (ac_token (rp_a rp)) sy = (sy1, r)" by fastforce
  define state where "state = ac_order_state (rp_a rp)"
  show ?thesis
  proof (cases rule: resolve_cases [OF at r])
    case 1
    then show ?thesis using assms r by (simp add: on_replaced_def)
  next
    case (2 s)
    then show ?thesis using assms r by (auto simp: on_replaced_def Let_def)
  next
    case (3 s)
    define e where "e = ent sy s"
    show ?thesis
    proof (cases "terminal e \<or> rp_previous rp \<noteq> from_id (en_token e) \<or> (state \<noteq> asc CHR ''L'' \<and> state \<noteq> asc CHR ''D'')")
      case True
      then show ?thesis using assms 3 r by (auto simp: on_replaced_def terminal_def Let_def e_def state_def)
    next
      case False
      then have s: "s \<in> set ws" using om_at_working [OF at 3(3)] by (simp add: e_def)
      define asked where "asked = (if en_replace_qty e > in_cum_qty (en_info e) then en_replace_qty e - in_cum_qty (en_info e) else 0)"
      define syb where "syb = om_upd (\<lambda>om. om\<lparr>om_tokens := fst (fhm_erase Hash_u64 (om_tokens om) (en_token e))\<rparr>) sy"
      define sy2 where "sy2 = set_ent s (book_replaced (rp_a rp) now) (if state \<noteq> asc CHR ''D'' \<and> ac_shares (rp_a rp) > asked then clamped syb else syb)"
      have cl: "sy2 = (if state \<noteq> asc CHR ''D'' \<and> ac_shares (rp_a rp) > asked then clamped (set_ent s (book_replaced (rp_a rp) now) syb)
          else set_ent s (book_replaced (rp_a rp) now) syb)"
        by (cases "sy_om syb") (simp add: sy2_def clamped_def set_ent_def om_upd_def)
      have at2: "om_at {s} ws fs sy2" unfolding cl syb_def e_def
        using om_at_replaced [OF om_at_open [OF at s] 3(4)] by simp
      have ent: "ent sy2 s = book_replaced (rp_a rp) now e"
        using om_at_len [OF at s] by (simp add: cl syb_def set_ent_def om_upd_def clamped_def e_def)
      note ok = om_at_entry [OF at s, folded e_def]
      have core: "entry_core (ent sy2 s)" unfolding ent using ok entry_ok_core by (intro book_replaced_core) simp
      have st: "in_status (en_info (ent sy2 s)) = in_status (en_info e)" "en_next_token (ent sy2 s) = 0"
        by (simp_all add: ent book_replaced_def Let_def)
      have "om_inv (if in_leaves_qty (en_info (ent sy2 s)) = 0 then end_of_life s None sy2
        else sync_ledger s (if in_status (en_info (ent sy2 s)) = OS_pending_replace then set_ent s (info_upd (\<lambda>i. i\<lparr>in_status := OS_live\<rparr>)) sy2 else sy2))"
      proof (cases "in_leaves_qty (en_info (ent sy2 s)) = 0")
        case True
        then show ?thesis using om_at_endI [OF at2 core] by simp
      next
        case lv: False
        define sy3 where "sy3 = (if in_status (en_info (ent sy2 s)) = OS_pending_replace then set_ent s (info_upd (\<lambda>i. i\<lparr>in_status := OS_live\<rparr>)) sy2 else sy2)"
        have "om_at {s} ws fs sy3" using at2 om_at_set [OF at2] by (simp add: sy3_def)
        moreover have "ready (ent sy3 s)" using core lv ok st om_at_len [OF at2 s]
          by (auto simp: sy3_def ready_def entry_core_def info_upd_def terminal_def is_terminal_def Let_def)
        ultimately show ?thesis using lv sync_closes om_invI by (simp add: sy3_def [symmetric]) blast
      qed
      moreover have "on_replaced (quiet ev) rp now sy = (if in_leaves_qty (en_info (ent sy2 s)) = 0 then end_of_life s None sy2
        else sync_ledger s (if in_status (en_info (ent sy2 s)) = OS_pending_replace then set_ent s (info_upd (\<lambda>i. i\<lparr>in_status := OS_live\<rparr>)) sy2 else sy2))"
      proof -
        have "state = asc CHR ''L'' \<or> state = asc CHR ''D''" using False by auto
        then show ?thesis unfolding sy2_def syb_def asked_def e_def state_def using False [unfolded e_def state_def] 3
          by (elim disjE) (simp_all add: on_replaced_def r Let_def terminal_def split del: if_split cong: if_cong)
      qed
      ultimately show ?thesis by (simp only:)
    qed
  qed
qed

section \<open>The calls\<close>

lemma cancel_entry_at:
  assumes at: "om_at {} ws fs sy" and s: "s < om_fresh (sy_om sy)"
  shows "om_at {} ws fs (fst (cancel_entry (quiet ev) s now sy))"
proof (cases "terminal (ent sy s) \<or> in_status (en_info (ent sy s)) = OS_pending_cancel")
  case True
  then show ?thesis using at by (auto simp: cancel_entry_def terminal_def Let_def)
next
  case False
  then have sw: "s \<in> set ws" using om_at_working [OF at s] by simp
  obtain w sent where send: "ev_send_cancel ev \<lparr>co_token = from_id (if en_next_token (ent sy s) \<noteq> 0 then en_next_token (ent sy s) else en_token (ent sy s)),
      co_shares = 0\<rparr> now (sy_world sy) = (w, sent)" by fastforce
  define sy1 where "sy1 = sy\<lparr>sy_world := w\<rparr>"
  have at1: "om_at {} ws fs sy1" using at by (simp add: sy1_def)
  define f where "f = info_upd (\<lambda>i. i\<lparr>in_status := OS_pending_cancel, in_last_update := now\<rparr>)"
  have at2: "om_at {s} ws fs (set_ent s f sy1)" by (intro om_at_set om_at_open at1 sw) (simp add: f_def)
  have "entry_ok (f (ent sy1 s))" "\<not> terminal (f (ent sy1 s))" using om_at_entry [OF at1 sw]
    by (auto simp: f_def info_upd_def entry_ok_def entry_core_def terminal_def is_terminal_def ledger_want_def Let_def)
  then have "om_at {} ws fs (set_ent s f sy1)" using om_at_len [OF at1 sw] om_at_close [OF at2] by simp
  then show ?thesis using at1 False send
    by (simp add: cancel_entry_def terminal_def Let_def sy1_def [symmetric] f_def [symmetric])
qed

lemma entry_slot_fresh: "om_at X ws fs sy \<Longrightarrow> entry_slot (sy_om sy) oid = Some s \<Longrightarrow> s < om_fresh (sy_om sy)"
  by (auto simp: om_at_def tables_ok_def entry_slot_def)

lemma cancel_inv:
  assumes "om_inv sy"
  shows "om_inv (fst (cancel (quiet ev) oid now sy))"
proof -
  obtain ws fs where at: "om_at {} ws fs sy" using assms by (auto simp: om_inv_def)
  show ?thesis
    using assms cancel_entry_at [OF at entry_slot_fresh [OF at], THEN om_invI] by (simp add: cancel_def split: option.splits)
qed

lemma token_insert:
  assumes at: "om_at X ws fs sy" and av: "token_available (sy_om sy)"
  obtains T where "fhm_insert Hash_u64 (om_tokens (sy_om sy)) (om_next_token (sy_om sy)) s = (T, (Some s, True))"
    "fhm_inv Hash_u64 T" "fhm_max T = fhm_max (om_tokens (sy_om sy))"
    "fhm_find Hash_u64 T = (fhm_find Hash_u64 (om_tokens (sy_om sy)))(om_next_token (sy_om sy) \<mapsto> s)"
    "fhm_find Hash_u64 (om_tokens (sy_om sy)) (om_next_token (sy_om sy)) = None"
    "fhm_find Hash_u64 (fst (fhm_erase Hash_u64 T (om_next_token (sy_om sy)))) = fhm_find Hash_u64 (om_tokens (sy_om sy))"
    "fhm_inv Hash_u64 (fst (fhm_erase Hash_u64 T (om_next_token (sy_om sy))))"
    "fhm_max (fst (fhm_erase Hash_u64 T (om_next_token (sy_om sy)))) = fhm_max (om_tokens (sy_om sy))"
proof -
  have inv: "fhm_inv Hash_u64 (om_tokens (sy_om sy))" and tok: "\<And>t s. fhm_find Hash_u64 (om_tokens (sy_om sy)) t = Some s \<Longrightarrow> t < om_next_token (sy_om sy)"
    using at by (auto simp: om_at_def tables_ok_def)
  have none: "fhm_find Hash_u64 (om_tokens (sy_om sy)) (om_next_token (sy_om sy)) = None"
    using tok by (metis less_irrefl option.exhaust)
  have room: "fhm_size (om_tokens (sy_om sy)) < fhm_max (om_tokens (sy_om sy))" using av by (simp add: token_available_def)
  obtain T where T: "fhm_insert Hash_u64 (om_tokens (sy_om sy)) (om_next_token (sy_om sy)) s = (T, (Some s, True))" "fhm_inv Hash_u64 T"
    "fhm_find Hash_u64 T = (fhm_find Hash_u64 (om_tokens (sy_om sy)))(om_next_token (sy_om sy) \<mapsto> s)" "fhm_max T = fhm_max (om_tokens (sy_om sy))"
    using fhm.insert_new [OF inv none room, of s] by auto
  show thesis
    by (rule that [OF T(1,2,4,3) none]) (use none in \<open>simp_all add: fhm.erase_fst [OF T(2)] T(3,4) fun_upd_idem\<close>)
qed

lemma om_at_tokens_cong:
  assumes "om_at X ws fs sy" "fhm_inv Hash_u64 T" "fhm_max T = fhm_max (om_tokens (sy_om sy))"
    "fhm_find Hash_u64 T = fhm_find Hash_u64 (om_tokens (sy_om sy))"
  shows "om_at X ws fs (sy\<lparr>sy_om := (sy_om sy)\<lparr>om_tokens := T\<rparr>\<rparr>)"
proof -
  have "tables_ok ((sy_om sy)\<lparr>om_tokens := T\<rparr>)" using assms(1) unfolding om_at_def tables_ok_def by (simp add: assms(2-4))
  moreover have "slots_ok ((sy_om sy)\<lparr>om_tokens := T\<rparr>) ws fs = slots_ok (sy_om sy) ws fs" by (simp add: slots_ok_def)
  ultimately show ?thesis using assms(1) by (simp add: om_at_def)
qed

lemma submit_at:
  assumes at: "om_at {} ws fs sy"
  obtains "om_at {} ws fs (fst (submit (quiet ev) req now sy))" "sr_status (snd (submit (quiet ev) req now sy)) \<noteq> SS_ok"
      "om_orders (sy_om (fst (submit (quiet ev) req now sy))) = om_orders (sy_om sy)"
      "om_next_id (sy_om (fst (submit (quiet ev) req now sy))) = om_next_id (sy_om sy)"
      "om_by_id (sy_om (fst (submit (quiet ev) req now sy))) = om_by_id (sy_om sy)"
  | fs' T w re where "om_at {} (ws @ [next_slot (sy_om sy)]) fs' (fst (submit (quiet ev) req now sy))"
      "sr_status (snd (submit (quiet ev) req now sy)) = SS_ok" "om_valid req"
      "evaluate (sy_risk sy) (rq_locate req) (rq_side req) (rq_price req) (rq_qty req) (ev_reference ev (rq_locate req) (sy_world sy)) now = Rj_none"
      "fst (submit (quiet ev) req now sy) =
         book_order req now (next_slot (sy_om sy)) (sy\<lparr>sy_om := (sy_om sy)\<lparr>om_tokens := T\<rparr>, sy_world := w, sy_risk := re\<rparr>)"
proof -
  define symbol where "symbol = ev_symbol ev (rq_locate req) (sy_world sy)"
  define verdict where "verdict = evaluate (sy_risk sy) (rq_locate req) (rq_side req) (rq_price req) (rq_qty req)
    (ev_reference ev (rq_locate req) (sy_world sy)) now"
  show thesis
  proof (cases "om_valid req \<and> \<not> Symbol_empty symbol \<and> slot_available (sy_om sy) \<and> token_available (sy_om sy) \<and> verdict = Rj_none")
    case False
    then show ?thesis using at that(1) by (auto simp: submit_def Let_def fail_def symbol_def verdict_def)
  next
    case True
    define slot tok where "slot = next_slot (sy_om sy)" and "tok = om_next_token (sy_om sy)"
    obtain T where T: "fhm_insert Hash_u64 (om_tokens (sy_om sy)) tok slot = (T, (Some slot, True))"
      "fhm_inv Hash_u64 T" "fhm_max T = fhm_max (om_tokens (sy_om sy))"
      "fhm_find Hash_u64 T = (fhm_find Hash_u64 (om_tokens (sy_om sy)))(tok \<mapsto> slot)"
      "fhm_find Hash_u64 (fst (fhm_erase Hash_u64 T tok)) = fhm_find Hash_u64 (om_tokens (sy_om sy))"
      "fhm_inv Hash_u64 (fst (fhm_erase Hash_u64 T tok))" "fhm_max (fst (fhm_erase Hash_u64 T tok)) = fhm_max (om_tokens (sy_om sy))"
      using token_insert [OF at, of slot] True by (auto simp: tok_def)
    obtain w sent where send: "ev_send_enter ev (EnterOrder_new\<lparr>eo_token := from_id tok, eo_side := rq_side req, eo_shares := rq_qty req,
        eo_stock := symbol, eo_price := rq_price req, eo_time_in_force := wire_tif (rq_tif req)\<rparr>) now (sy_world sy) = (w, sent)" by fastforce
    define sy1 where "sy1 = sy\<lparr>sy_om := (sy_om sy)\<lparr>om_tokens := T\<rparr>, sy_world := w\<rparr>"
    have sub: "submit (quiet ev) req now sy =
      (if sent then (book_order req now slot (sy1\<lparr>sy_risk := admit (sy_risk sy) now\<rparr>), \<lparr>sr_status = SS_ok, sr_id = om_next_id (sy_om sy), sr_risk_reason = Rj_none\<rparr>)
       else (sy1\<lparr>sy_om := (sy_om sy)\<lparr>om_tokens := fst (fhm_erase Hash_u64 T tok)\<rparr>\<rparr>, fail SS_gateway_busy Rj_none))"
      using True T(1) send
      by (simp add: submit_def Let_def symbol_def verdict_def slot_def tok_def om_upd_def sy1_def)
    show ?thesis
    proof (cases sent)
      case False
      have "sy1\<lparr>sy_om := (sy_om sy)\<lparr>om_tokens := fst (fhm_erase Hash_u64 T tok)\<rparr>\<rparr> =
        (sy\<lparr>sy_om := (sy_om sy)\<lparr>om_tokens := fst (fhm_erase Hash_u64 T tok)\<rparr>\<rparr>)\<lparr>sy_world := w\<rparr>" by (cases sy) (simp add: sy1_def)
      then have "om_at {} ws fs (fst (submit (quiet ev) req now sy))"
        using False sub om_at_tokens_cong [OF at T(6,7,5)] by simp
      then show ?thesis using that(1) False sub by (simp add: fail_def sy1_def)
    next
      case sent: True
      define sy2 where "sy2 = sy\<lparr>sy_world := w, sy_risk := admit (sy_risk sy) now\<rparr>"
      have at2: "om_at {} ws fs sy2"
        using om_at_risk [of "{}" ws fs "sy\<lparr>sy_world := w\<rparr>" "admit (sy_risk sy) now"] at moves_none(4) by (simp add: sy2_def)
      have eq: "sy1\<lparr>sy_risk := admit (sy_risk sy) now\<rparr> = sy2\<lparr>sy_om := (sy_om sy2)\<lparr>om_tokens := T\<rparr>\<rparr>"
        by (cases sy) (simp add: sy1_def sy2_def)
      have om2: "sy_om sy2 = sy_om sy" by (simp add: sy2_def)
      obtain sl where "slot_at (sy_risk sy) (rq_locate req) = Some sl"
        using True assess_none unfolding verdict_def evaluate_def by metis
      then have sl: "slot_at (sy_risk sy2) (rq_locate req) = Some sl" by (simp add: sy2_def admit_def)
      have tk: "om_next_token (sy_om sy2) \<le> Token_kMaxId" "slot_available (sy_om sy2)"
        "fhm_max T = fhm_max (om_tokens (sy_om sy2))"
        "fhm_find Hash_u64 T = (fhm_find Hash_u64 (om_tokens (sy_om sy2)))(om_next_token (sy_om sy2) \<mapsto> next_slot (sy_om sy2))"
        using True T(3,4) by (simp_all add: om2 token_available_def tok_def slot_def)
      have rq: "valid_side (rq_side req)" "rq_qty req \<noteq> 0" "rq_qty req \<le> kMaxOrderQty" using True by (auto simp: om_valid_def)
      obtain fs' where "om_at {} (ws @ [slot]) fs' (book_order req now slot (sy2\<lparr>sy_om := (sy_om sy2)\<lparr>om_tokens := T\<rparr>\<rparr>))"
        using om_at_book [OF at2 tk(2,1) T(2) tk(3,4) rq sl] unfolding slot_def om2 by metis
      then show ?thesis using that(2) [where fs' = fs' and T = T and w = w and re = "admit (sy_risk sy) now"] sub sent True
        by (simp add: eq [symmetric] slot_def verdict_def sy1_def)
    qed
  qed
qed

lemma submit_inv:
  assumes "om_inv sy"
  shows "om_inv (fst (submit (quiet ev) req now sy))"
proof -
  obtain ws fs where at: "om_at {} ws fs sy" using assms by (auto simp: om_inv_def)
  then show ?thesis by (rule submit_at [of _ _ _ ev req now]) (blast intro: om_invI)+
qed

lemma sync_ledger_frame:
  "om_next_id (sy_om (sync_ledger s sy)) = om_next_id (sy_om sy)"
  "en_info (ent (sync_ledger s sy) x) = en_info (ent sy x)"
proof -
  show "om_next_id (sy_om (sync_ledger s sy)) = om_next_id (sy_om sy)"
    by (simp add: sync_ledger_def set_ent_def om_upd_def Let_def)
  show "en_info (ent (sync_ledger s sy) x) = en_info (ent sy x)"
    by (cases "x = s \<and> s < length (om_orders (sy_om sy))") (auto simp: sync_ledger_def set_ent_def om_upd_def Let_def list_update_beyond)
qed

lemma en_info_set_ent:
  "en_info (ent (set_ent s f sy) x) = (if x = s \<and> s < length (om_orders (sy_om sy)) then en_info (f (ent sy s)) else en_info (ent sy x))"
  by (cases "s < length (om_orders (sy_om sy))") (auto simp: set_ent_def om_upd_def list_update_beyond)

definition replacing :: "u64 \<Rightarrow> Price \<Rightarrow> Qty \<Rightarrow> OmEntry \<Rightarrow> OmEntry" where
  "replacing tok p q e = e\<lparr>en_next_token := tok, en_replace_price := p, en_replace_qty := q\<rparr>"

lemma om_at_replacing:
  assumes at: "om_at {s} ws fs sy" and nt: "en_next_token (ent sy s) = 0" and av: "om_next_token (sy_om sy) \<le> Token_kMaxId"
    and T: "fhm_inv Hash_u64 T" "fhm_max T = fhm_max (om_tokens (sy_om sy))"
      "fhm_find Hash_u64 T = (fhm_find Hash_u64 (om_tokens (sy_om sy)))(om_next_token (sy_om sy) \<mapsto> s)"
      "fhm_find Hash_u64 (om_tokens (sy_om sy)) (om_next_token (sy_om sy)) = None"
  shows "om_at {s} ws fs (sy\<lparr>sy_om := (sy_om sy)\<lparr>om_orders := (om_orders (sy_om sy))[s := replacing (om_next_token (sy_om sy)) p q (ent sy s)],
    om_tokens := T, om_next_token := om_next_token (sy_om sy) + 1\<rparr>\<rparr>)"
proof -
  define tok e e' where "tok = om_next_token (sy_om sy)" and "e = ent sy s" and "e' = replacing tok p q e"
  have s: "s \<in> set ws" and ev: "valid_side (rq_side (in_req (en_info e)))" "en_reserved e \<noteq> 0"
    using at by (simp_all add: om_at_def e_def)
  have tab: "tables_ok (sy_om sy)" using at by (simp add: om_at_def)
  note sf = om_at_slots(1) [OF at s]
  have b: "0 < t \<and> t < tok \<and> t \<le> Token_kMaxId" if "t \<in> owned e" for t
    using tab sf that by (simp add: tables_ok_def e_def tok_def)
  have own: "owned e = {en_token e}" "en_token e \<noteq> tok" "0 < tok" using nt b [of "en_token e"] by (auto simp: owned_def e_def)
  then have own': "owned e' = {en_token e, tok}" "en_token e' \<noteq> en_next_token e'"
    by (auto simp: e'_def replacing_def owned_def)
  have "tok \<noteq> - 1" using av by (auto simp: tok_def Token_kMaxId_def word_le_nat_alt unsigned_minus_1_eq_mask mask_eq_exp_minus_1)
  note inc = word_less_plus_one [OF this]
  have "fhm_find Hash_u64 (om_tokens (sy_om sy)) (en_token e) = Some s" using tab sf own(1) by (simp add: tables_ok_def e_def)
  then have rt: "retoken s e' (sy_om sy) T (tok + 1)"
    using T av own own' b [of "en_token e"] inc by (auto simp: retoken_def tok_def [symmetric] e_def [symmetric] order.strict_implies_order)
  have led: "ledger_ok (sy_risk sy) ((om_orders (sy_om sy))[s := e'])"
  proof (rule ledger_cong)
    show "ledger_ok (sy_risk sy) (om_orders (sy_om sy))" using at by (simp add: om_at_def)
  qed (use om_at_len [OF at s] in \<open>simp_all add: e'_def e_def replacing_def nth_list_update\<close>)
  show ?thesis using om_at_update [OF at rt _ _ _ _ _ led] ev
    by (simp add: e'_def e_def tok_def replacing_def)
qed

text \<open>The effect of a call on the orders that were working before it.\<close>

definition keeps_orders :: "'w sys \<Rightarrow> 'w sys \<Rightarrow> bool" where
  "keeps_orders sy sy' = (om_next_id (sy_om sy') = om_next_id (sy_om sy) \<and>
     (\<forall>x. in_id (en_info (ent sy' x)) = in_id (en_info (ent sy x)) \<and>
       (in_status (en_info (ent sy x)) = OS_pending_cancel \<longrightarrow> in_status (en_info (ent sy' x)) = OS_pending_cancel)))"

lemma keeps_orders_frame: "om_orders (sy_om sy') = om_orders (sy_om sy) \<Longrightarrow> om_next_id (sy_om sy') = om_next_id (sy_om sy) \<Longrightarrow> keeps_orders sy sy'"
  by (simp add: keeps_orders_def)

lemma replace_at:
  assumes at: "om_at {} ws fs sy"
  shows "om_at {} ws fs (fst (replace (quiet ev) oid p q now sy)) \<and> keeps_orders sy (fst (replace (quiet ev) oid p q now sy))"
proof (cases "entry_slot (sy_om sy) oid")
  case None
  then show ?thesis using at by (simp add: replace_def keeps_orders_frame)
next
  case (Some s)
  define e where "e = ent sy s"
  define growth where "growth = (if q - in_cum_qty (en_info e) > in_leaves_qty (en_info e)
    then q - in_cum_qty (en_info e) - in_leaves_qty (en_info e) else 0)"
  define verdict where "verdict = evaluate_replace (sy_risk sy) (rq_locate (in_req (en_info e))) (rq_side (in_req (en_info e))) p
    (q - in_cum_qty (en_info e)) growth (ev_reference ev (rq_locate (in_req (en_info e))) (sy_world sy)) now"
  define bad where "bad = (p \<le> 0 \<or> p > kMaxWirePrice \<or> q = 0 \<or> q > kMaxOrderQty \<or> q \<le> in_cum_qty (en_info e))"
  show ?thesis
  proof (cases "in_status (en_info e) = OS_live \<and> \<not> bad \<and> token_available (sy_om sy) \<and> verdict = Rj_none")
    case False
    then show ?thesis using at Some by (auto simp: replace_def Let_def e_def growth_def verdict_def bad_def keeps_orders_frame)
  next
    case True
    define tok where "tok = om_next_token (sy_om sy)"
    have s: "s \<in> set ws" using om_at_working [OF at entry_slot_fresh [OF at Some]] True by (auto simp: e_def terminal_def is_terminal_def)
    note ok = om_at_entry [OF at s, folded e_def]
    have nt: "en_next_token e = 0" using ok True by (auto simp: entry_ok_def)
    obtain T where T: "fhm_insert Hash_u64 (om_tokens (sy_om sy)) tok s = (T, (Some s, True))"
      "fhm_inv Hash_u64 T" "fhm_max T = fhm_max (om_tokens (sy_om sy))"
      "fhm_find Hash_u64 T = (fhm_find Hash_u64 (om_tokens (sy_om sy)))(tok \<mapsto> s)" "fhm_find Hash_u64 (om_tokens (sy_om sy)) tok = None"
      "fhm_find Hash_u64 (fst (fhm_erase Hash_u64 T tok)) = fhm_find Hash_u64 (om_tokens (sy_om sy))"
      "fhm_inv Hash_u64 (fst (fhm_erase Hash_u64 T tok))" "fhm_max (fst (fhm_erase Hash_u64 T tok)) = fhm_max (om_tokens (sy_om sy))"
      using token_insert [OF at, of s] True by (auto simp: tok_def)
    obtain w sent where send: "ev_send_replace ev (ReplaceOrder_new\<lparr>ro_existing := from_id (en_token e), ro_replacement := from_id tok,
        ro_shares := q, ro_price := p, ro_time_in_force := wire_tif (rq_tif (in_req (en_info e)))\<rparr>) now (sy_world sy) = (w, sent)" by fastforce
    define re where "re = (if growth \<noteq> 0 then admit (sy_risk sy) now else sy_risk sy)"
    define sy2 where "sy2 = sy\<lparr>sy_om := (sy_om sy)\<lparr>om_orders := (om_orders (sy_om sy))[s := replacing tok p q e],
      om_tokens := T, om_next_token := tok + 1\<rparr>, sy_world := w, sy_risk := re\<rparr>"
    define f where "f = info_upd (\<lambda>i. i\<lparr>in_status := OS_pending_replace, in_last_update := now\<rparr>)"
    have rep: "fst (replace (quiet ev) oid p q now sy) =
      (if sent then set_ent s f (sync_ledger s sy2)
       else sy\<lparr>sy_om := (sy_om sy)\<lparr>om_tokens := fst (fhm_erase Hash_u64 T tok)\<rparr>, sy_world := w\<rparr>)"
    proof -
      have "set_ent s (\<lambda>e. e\<lparr>en_next_token := tok, en_replace_price := p, en_replace_qty := q\<rparr>)
          (om_upd (\<lambda>om. om\<lparr>om_next_token := tok + 1\<rparr>)
            (if growth \<noteq> 0 then sy\<lparr>sy_om := (sy_om sy)\<lparr>om_tokens := T\<rparr>, sy_world := w, sy_risk := admit (sy_risk sy) now\<rparr>
             else sy\<lparr>sy_om := (sy_om sy)\<lparr>om_tokens := T\<rparr>, sy_world := w\<rparr>)) = sy2"
        by (cases sy; cases "sy_om sy") (simp add: sy2_def set_ent_def om_upd_def replacing_def re_def e_def)
      moreover have "\<not> p \<le> 0" "\<not> kMaxWirePrice < p" "q \<noteq> 0" "\<not> kMaxOrderQty < q" "\<not> q \<le> in_cum_qty (en_info e)" "\<not> \<not> token_available (sy_om sy)"
        "in_status (en_info e) = OS_live" "verdict = Rj_none"
        using True by (auto simp: bad_def)
      moreover have "om_upd f (sy\<lparr>sy_om := (sy_om sy)\<lparr>om_tokens := T\<rparr>, sy_world := w\<rparr>) =
          sy\<lparr>sy_om := f ((sy_om sy)\<lparr>om_tokens := T\<rparr>), sy_world := w\<rparr>" for f by (cases sy) (simp add: om_upd_def)
      moreover have "om_upd (\<lambda>om. om\<lparr>om_tokens := T\<rparr>) sy = sy\<lparr>sy_om := (sy_om sy)\<lparr>om_tokens := T\<rparr>\<rparr>" by (simp add: om_upd_def)
      ultimately show ?thesis using T(1) send Some
        by (cases sent) (simp_all add: replace_def Let_def e_def [symmetric] tok_def [symmetric] growth_def [symmetric] verdict_def [symmetric]
            f_def [symmetric] split del: if_split cong: if_cong)
    qed
    show ?thesis
    proof (cases sent)
      case False
      then show ?thesis using rep om_at_tokens_cong [OF at T(7,8,6)] by (simp add: keeps_orders_frame)
    next
      case sent: True
      have a1: "om_at {s} ws fs (sy\<lparr>sy_om := (sy_om sy)\<lparr>om_orders := (om_orders (sy_om sy))[s := replacing tok p q e],
          om_tokens := T, om_next_token := tok + 1\<rparr>\<rparr>)"
        unfolding tok_def e_def using True nt T
        by (intro om_at_replacing om_at_open at s) (simp_all add: token_available_def tok_def e_def)
      have at2: "om_at {s} ws fs sy2" unfolding sy2_def
        by (rule om_at_risk) (use a1 in \<open>simp_all add: re_def moves_none\<close>)
      have ent2: "ent sy2 s = replacing tok p q e" using om_at_len [OF at s] by (simp add: sy2_def)
      have core: "entry_core (ent sy2 s)" using ok True
        by (auto simp: ent2 replacing_def entry_ok_def entry_core_def Let_def bad_def)
      have lv: "in_leaves_qty (en_info (ent sy2 s)) \<noteq> 0" using ok by (auto simp: ent2 replacing_def entry_ok_def)
      have at3: "om_at {s} ws fs (set_ent s f (sync_ledger s sy2))"
        by (intro om_at_set om_at_sync at2 core lv) (simp add: f_def)
      have len2: "s < length (om_orders (sy_om sy2))" using om_at_len [OF at2 s] .
      have ent3: "ent (set_ent s f (sync_ledger s sy2)) s = f ((ent sy2 s)\<lparr>en_reserved := ledger_want (ent sy2 s)\<rparr>)"
        using om_at_len [OF om_at_sync [OF at2 core lv] s] sync_ledger_ent [OF len2] by simp
      have tok0: "tok \<noteq> 0" using at by (auto simp: om_at_def tables_ok_def tok_def)
      have "entry_ok (f ((ent sy2 s)\<lparr>en_reserved := ledger_want (ent sy2 s)\<rparr>))"
        "\<not> terminal (f ((ent sy2 s)\<lparr>en_reserved := ledger_want (ent sy2 s)\<rparr>))"
        using core lv tok0 by (auto simp: f_def info_upd_def entry_ok_def entry_core_def terminal_def is_terminal_def ledger_want_def Let_def ent2 replacing_def)
      then have "om_at {} ws fs (set_ent s f (sync_ledger s sy2))" using om_at_close [OF at3] by (simp add: ent3)
      moreover have "en_info (ent sy2 x) = en_info (ent sy x)" for x
        using om_at_len [OF at s] by (simp add: sy2_def nth_list_update replacing_def e_def)
      then have "keeps_orders sy (set_ent s f (sync_ledger s sy2))" using True
        by (auto simp: keeps_orders_def en_info_set_ent f_def info_upd_def sync_ledger_frame e_def)
          (simp_all add: set_ent_def om_upd_def sync_ledger_frame sy2_def)
      ultimately show ?thesis using rep sent by simp
    qed
  qed
qed

lemma replace_inv: "om_inv sy \<Longrightarrow> om_inv (fst (replace (quiet ev) oid p q now sy))"
  using replace_at by (metis om_inv_def)

section \<open>Listeners\<close>

text \<open>
  One step of what a callback may do: a call of the manager (its own callback apart), a change of
  the world outside, or the kill switch. A callback that makes finitely many such steps is an
  \<^emph>\<open>API listener\<close>; nested callbacks are part of the sequence.
\<close>

inductive api_step :: "'w env \<Rightarrow> 'w sys \<Rightarrow> 'w sys \<Rightarrow> bool" for ev where
  api_submit: "api_step ev sy (fst (submit (quiet ev) req now sy))"
| api_cancel: "api_step ev sy (fst (cancel (quiet ev) oid now sy))"
| api_replace: "api_step ev sy (fst (replace (quiet ev) oid p q now sy))"
| api_world: "api_step ev sy (sy\<lparr>sy_world := w\<rparr>)"
| api_kill: "api_step ev sy (sy\<lparr>sy_risk := set_kill_switch (sy_risk sy) b\<rparr>)"

inductive_cases api_stepE: "api_step ev sy sy'"

definition api_listener :: "'w env \<Rightarrow> bool" where
  "api_listener ev = (\<forall>li. ev_listener ev = Some li \<longrightarrow>
     (\<forall>f sy. (api_step ev)\<^sup>*\<^sup>* sy (li_fill li f sy)) \<and> (\<forall>i sy. (api_step ev)\<^sup>*\<^sup>* sy (li_update li i sy)))"

lemma notify_api: "api_listener ev \<Longrightarrow> (api_step ev)\<^sup>*\<^sup>* sy (notify ev i sy)"
  by (auto simp: api_listener_def notify_def split: option.splits)

text \<open>Each operation with a listener is the operation without one followed by the callbacks.\<close>

lemma cancel_entry_listener:
  assumes "api_listener ev"
  shows "(api_step ev)\<^sup>*\<^sup>* (fst (cancel_entry (quiet ev) s now sy)) (fst (cancel_entry ev s now sy))"
    "snd (cancel_entry ev s now sy) = snd (cancel_entry (quiet ev) s now sy)"
  using notify_api [OF assms] by (simp_all add: cancel_entry_def Let_def split: prod.splits)

lemma submit_listener:
  assumes "api_listener ev"
  shows "(api_step ev)\<^sup>*\<^sup>* (fst (submit (quiet ev) req now sy)) (fst (submit ev req now sy))"
    "snd (submit ev req now sy) = snd (submit (quiet ev) req now sy)"
  using notify_api [OF assms] by (simp_all add: submit_def Let_def split: prod.splits)

lemma replace_listener:
  assumes "api_listener ev"
  shows "(api_step ev)\<^sup>*\<^sup>* (fst (replace (quiet ev) oid p q now sy)) (fst (replace ev oid p q now sy))"
    "snd (replace ev oid p q now sy) = snd (replace (quiet ev) oid p q now sy)"
  using notify_api [OF assms] by (simp_all add: replace_def Let_def split: prod.splits option.splits)

lemma cancel_listener:
  assumes "api_listener ev"
  shows "(api_step ev)\<^sup>*\<^sup>* (fst (cancel (quiet ev) oid now sy)) (fst (cancel ev oid now sy))"
  using cancel_entry_listener [OF assms] by (simp add: cancel_def split: option.splits)

lemma star_if: "R\<^sup>*\<^sup>* x y \<Longrightarrow> R\<^sup>*\<^sup>* x' y' \<Longrightarrow> R\<^sup>*\<^sup>* (if b then x else x') (if b then y else y')"
  by simp

lemma report_listener:
  assumes "api_listener ev"
  shows "(api_step ev)\<^sup>*\<^sup>* (on_accepted (quiet ev) a now sy) (on_accepted ev a now sy)"
    "(api_step ev)\<^sup>*\<^sup>* (on_canceled (quiet ev) c now sy) (on_canceled ev c now sy)"
    "(api_step ev)\<^sup>*\<^sup>* (on_rejected (quiet ev) rj now sy) (on_rejected ev rj now sy)"
    "(api_step ev)\<^sup>*\<^sup>* (on_replaced (quiet ev) rp now sy) (on_replaced ev rp now sy)"
  unfolding on_accepted_def on_canceled_def on_rejected_def on_replaced_def Let_def quiet_simps
  by (simp_all split: prod.splits option.splits split del: if_split)
    (safe; intro star_if notify_api assms rtranclp.rtrancl_refl)+

lemma on_executed_listener:
  assumes "api_listener ev"
  shows "(api_step ev)\<^sup>*\<^sup>* (on_executed (quiet ev) x now sy) (on_executed ev x now sy)"
proof (cases "ev_listener ev")
  case None
  then have "quiet ev = ev" by (simp add: quiet_def)
  then show ?thesis by simp
next
  case (Some li)
  have step: "(api_step ev)\<^sup>*\<^sup>* sy (case entry_slot (sy_om (li_fill li f sy)) oid of
      Some s \<Rightarrow> notify ev (en_info (ent (li_fill li f sy) s)) (li_fill li f sy) | None \<Rightarrow> li_update li i (li_fill li f sy))" for f oid i sy
    using assms Some rtranclp_trans [of "api_step ev" sy "li_fill li f sy"] notify_api [OF assms]
    by (auto simp: api_listener_def split: option.splits)
  obtain sy1 r where r: "active_order (ex_token x) sy = (sy1, r)" by fastforce
  show ?thesis
  proof (cases r)
    case None
    then show ?thesis by (simp add: on_executed_def r)
  next
    case (Some s)
    show ?thesis unfolding on_executed_def r Some \<open>ev_listener ev = Some li\<close> prod.case option.case Let_def quiet_simps
      by (intro star_if step rtranclp.rtrancl_refl)
  qed
qed

section \<open>What the calls do to the other orders\<close>

text \<open>
  A call appends at most one order to the working list, leaves the ids of the others alone and
  cannot take back a cancel request.
\<close>

definition grows :: "'w sys \<Rightarrow> nat list \<Rightarrow> 'w sys \<Rightarrow> nat list \<Rightarrow> bool" where
  "grows sy ws sy' zs =
     ((\<exists>fs'. om_at {} (ws @ zs) fs' sy') \<and> om_next_id (sy_om sy) \<le> om_next_id (sy_om sy') \<and>
      (\<forall>s \<in> set ws. in_id (en_info (ent sy' s)) = in_id (en_info (ent sy s)) \<and>
         (in_status (en_info (ent sy s)) = OS_pending_cancel \<longrightarrow> in_status (en_info (ent sy' s)) = OS_pending_cancel)) \<and>
      (\<forall>z \<in> set zs. om_next_id (sy_om sy) \<le> in_id (en_info (ent sy' z))))"

lemma grows_refl: "om_at {} ws fs sy \<Longrightarrow> grows sy ws sy []"
  by (auto simp: grows_def)

lemma grows_trans: "grows sy ws sy' zs \<Longrightarrow> grows sy' (ws @ zs) sy'' zs' \<Longrightarrow> grows sy ws sy'' (zs @ zs')"
  by (auto simp: grows_def intro: order_trans)

lemma cancel_entry_frame:
  fixes sy :: "'w sys" and ev :: "'w env" and s :: nat and now :: Nanos
  defines "sy' \<equiv> fst (cancel_entry (quiet ev) s now sy)"
  shows "om_next_id (sy_om sy') = om_next_id (sy_om sy)" "in_id (en_info (ent sy' x)) = in_id (en_info (ent sy x))"
    "in_status (en_info (ent sy x)) = OS_pending_cancel \<Longrightarrow> in_status (en_info (ent sy' x)) = OS_pending_cancel"
proof -
  obtain w where "sy' = sy\<lparr>sy_world := w\<rparr> \<or>
      sy' = set_ent s (info_upd (\<lambda>i. i\<lparr>in_status := OS_pending_cancel, in_last_update := now\<rparr>)) (sy\<lparr>sy_world := w\<rparr>)"
  proof (cases "is_terminal (in_status (en_info (ent sy s))) \<or> in_status (en_info (ent sy s)) = OS_pending_cancel")
    case True
    then show ?thesis using that [of "sy_world sy"] by (auto simp: sy'_def cancel_entry_def Let_def)
  next
    case False
    obtain w sent where "ev_send_cancel ev \<lparr>co_token = from_id (if en_next_token (ent sy s) \<noteq> 0 then en_next_token (ent sy s) else en_token (ent sy s)),
      co_shares = 0\<rparr> now (sy_world sy) = (w, sent)" by fastforce
    then show ?thesis using False that [of w] by (cases sent) (simp_all add: sy'_def cancel_entry_def Let_def)
  qed
  then show "om_next_id (sy_om sy') = om_next_id (sy_om sy)" "in_id (en_info (ent sy' x)) = in_id (en_info (ent sy x))"
    "in_status (en_info (ent sy x)) = OS_pending_cancel \<Longrightarrow> in_status (en_info (ent sy' x)) = OS_pending_cancel"
    by (auto simp: en_info_set_ent info_upd_def) (simp add: set_ent_def om_upd_def)
qed

lemma book_order_frame:
  fixes sy :: "'w sys" and req :: OrderRequest and now :: Nanos and slot :: nat
  defines "sy' \<equiv> book_order req now slot sy"
  shows "om_next_id (sy_om sy') = om_next_id (sy_om sy) + 1"
    "om_fresh (sy_om sy') = (if om_fresh (sy_om sy) < length (om_orders (sy_om sy)) then om_fresh (sy_om sy) + 1 else om_fresh (sy_om sy))"
    "length (om_orders (sy_om sy')) = length (om_orders (sy_om sy))"
    "x < length (om_orders (sy_om sy)) \<Longrightarrow> en_info (ent sy' x) =
       (if x = slot then OmsInfo_new\<lparr>in_id := om_next_id (sy_om sy), in_req := req, in_leaves_qty := rq_qty req, in_last_update := now\<rparr>
        else en_info (ent sy x))"
proof -
  define om1 where "om1 = take_slot slot (sy_om sy)"
  define om2 where "om2 = insert_entry slot (new_entry req now om1) om1"
  have o1: "om_orders om1 = om_orders (sy_om sy)" "om_next_id om1 = om_next_id (sy_om sy)"
    "om_fresh om1 = (if om_fresh (sy_om sy) < length (om_orders (sy_om sy)) then om_fresh (sy_om sy) + 1 else om_fresh (sy_om sy))"
    by (simp_all add: om1_def take_slot_def Let_def)
  have om: "om_orders (sy_om sy') = om_orders (link slot om2)" "om_next_id (sy_om sy') = om_next_id om2" "om_fresh (sy_om sy') = om_fresh om2"
    by (simp_all add: sy'_def book_order_eq Let_def om1_def om2_def)
  note rel = relinked_link [of om2 slot, folded om(1)]
  show "om_next_id (sy_om sy') = om_next_id (sy_om sy) + 1"
    "om_fresh (sy_om sy') = (if om_fresh (sy_om sy) < length (om_orders (sy_om sy)) then om_fresh (sy_om sy) + 1 else om_fresh (sy_om sy))"
    by (simp_all add: om(2,3) om2_def insert_entry_def o1)
  show len: "length (om_orders (sy_om sy')) = length (om_orders (sy_om sy))"
    using rel by (simp add: relinked_def om2_def insert_entry_def o1)
  assume x: "x < length (om_orders (sy_om sy))"
  then have "en_info (ent sy' x) = en_info (om_orders om2 ! x)"
    using same_termsD(1) [OF relinked_nth [OF rel, of x]] by (simp add: om2_def insert_entry_def o1)
  then show "en_info (ent sy' x) =
       (if x = slot then OmsInfo_new\<lparr>in_id := om_next_id (sy_om sy), in_req := req, in_leaves_qty := rq_qty req, in_last_update := now\<rparr>
        else en_info (ent sy x))"
    using x by (simp add: om2_def insert_entry_def o1 new_entry_def)
qed

lemma submit_grows:
  assumes at: "om_at {} ws fs sy"
  obtains zs where "grows sy ws (fst (submit (quiet ev) req now sy)) zs"
proof (cases rule: submit_at [OF at, of ev req now])
  case 1
  then have "grows sy ws (fst (submit (quiet ev) req now sy)) []" by (auto simp: grows_def)
  then show ?thesis by (rule that)
next
  case (2 fs' T w re)
  define sy' slot where "sy' = fst (submit (quiet ev) req now sy)" and "slot = next_slot (sy_om sy)"
  note fr = book_order_frame [where req = req and now = now and slot = "next_slot (sy_om sy)" and sy = "sy\<lparr>sy_om := (sy_om sy)\<lparr>om_tokens := T\<rparr>, sy_world := w, sy_risk := re\<rparr>",
      folded 2(5), folded sy'_def slot_def, simplified]
  have at': "om_at {} (ws @ [slot]) fs' sy'" using 2(1) by (simp add: sy'_def slot_def)
  then have new: "slot \<notin> set ws" by (auto simp: om_at_def slots_ok_def)
  have len: "x < length (om_orders (sy_om sy))" if "x \<in> set ws \<or> x = slot" for x
    using om_at_len [OF at', of x] that fr(3) by auto
  have "in_id (en_info (ent sy' slot)) < om_next_id (sy_om sy')"
    using at' om_at_slots(1) [OF at', of slot] by (simp add: om_at_def tables_ok_def)
  then have "grows sy ws sy' [slot]" using at' new len fr(1,4) by (auto simp: grows_def)
  then show ?thesis using that by (simp add: sy'_def)
qed

lemma keeps_grows: "om_at {} ws fs sy' \<Longrightarrow> keeps_orders sy sy' \<Longrightarrow> grows sy ws sy' []"
  by (auto simp: grows_def keeps_orders_def)

lemma cancel_keeps: "keeps_orders sy (fst (cancel_entry (quiet ev) s now sy))"
  by (simp add: keeps_orders_def cancel_entry_frame)

lemma api_grows:
  assumes "api_step ev sy sy'" "om_at {} ws fs sy"
  obtains zs where "grows sy ws sy' zs"
  using assms(1)
proof cases
  case (api_submit req now)
  then show ?thesis using submit_grows [OF assms(2), of ev req now] that by metis
next
  case (api_cancel oid now)
  have "om_at {} ws fs sy' \<and> keeps_orders sy sy'"
    using api_cancel assms(2) cancel_entry_at [OF assms(2) entry_slot_fresh [OF assms(2)]] cancel_keeps
    by (auto simp: cancel_def keeps_orders_frame split: option.splits)
  then show ?thesis using that keeps_grows by blast
next
  case (api_replace oid p q now)
  then show ?thesis using that keeps_grows replace_at [OF assms(2)] by metis
next
  case (api_world w)
  then show ?thesis using that keeps_grows [of ws fs sy' sy] assms(2) by (auto simp: keeps_orders_frame)
next
  case (api_kill b)
  then have "om_at {} ws fs sy'" using om_at_risk [OF assms(2) moves_none(5)] by simp
  then show ?thesis using that keeps_grows [of ws fs sy' sy] api_kill by (auto simp: keeps_orders_frame)
qed

lemma api_star_grows:
  assumes "(api_step ev)\<^sup>*\<^sup>* sy sy'" "om_at {} ws fs sy"
  shows "\<exists>zs. grows sy ws sy' zs"
  using assms
proof (induction rule: rtranclp_induct)
  case base
  then show ?case using grows_refl by blast
next
  case (step y z)
  then obtain zs fs' where g: "grows sy ws y zs" "om_at {} (ws @ zs) fs' y" by (auto simp: grows_def)
  then show ?case using api_grows [OF step(2) g(2)] grows_trans [OF g(1)] by metis
qed

lemma api_star_inv: "(api_step ev)\<^sup>*\<^sup>* sy sy' \<Longrightarrow> om_inv sy \<Longrightarrow> om_inv sy'"
  using api_star_grows by (metis grows_def om_inv_def)

section \<open>Consequences of the invariant\<close>

lemma om_find_slot:
  assumes "om_at {} ws fs sy"
  shows "om_find sy oid = Some i \<longleftrightarrow> (\<exists>s < om_fresh (sy_om sy). en_info (ent sy s) = i \<and> in_id i = oid)"
proof -
  have "fhm_find Hash_u64 (om_by_id (sy_om sy)) oid = Some s \<longleftrightarrow> s < om_fresh (sy_om sy) \<and> in_id (en_info (ent sy s)) = oid" for s
    using assms by (simp add: om_at_def tables_ok_def)
  then show ?thesis by (auto simp: om_find_def entry_slot_def)
qed

lemma om_at_all_entries: "om_at {} ws fs sy \<Longrightarrow> s < om_fresh (sy_om sy) \<Longrightarrow> entry_ok (ent sy s)"
  using om_at_slots(6) [of "{}" ws fs sy s] by (auto simp: om_at_def)

text \<open>The average price is the exact quotient of what was executed.\<close>

lemma entry_core_bounds:
  assumes "entry_core e"
  shows "0 \<le> in_avg_price (en_info e)" "in_avg_price (en_info e) \<le> kMaxWirePrice"
    "in_cum_qty (en_info e) \<le> rq_qty (in_req (en_info e))" "rq_qty (in_req (en_info e)) \<le> kMaxOrderQty"
    "unat (in_cum_qty (en_info e)) + unat (in_leaves_qty (en_info e)) \<le> unat (rq_qty (in_req (en_info e)))"
proof -
  define c n where "c = uint (in_cum_qty (en_info e))" and "n = uint (en_notional e)"
  have "int (unat (en_notional e)) \<le> int (unat (in_cum_qty (en_info e)) * 0xFFFFFFFF)"
    using assms unfolding entry_core_def Let_def of_nat_le_iff by blast
  then have n: "n \<le> c * 0xFFFFFFFF" "0 \<le> n" "0 \<le> c" by (simp_all add: n_def c_def)
  have a: "in_avg_price (en_info e) = n div c" using assms by (simp add: entry_core_def Let_def n_def c_def)
  show "0 \<le> in_avg_price (en_info e)" using n by (simp add: a div_int_pos_iff)
  have "n div c \<le> 0xFFFFFFFF"
  proof (cases "c = 0")
    case False
    then show ?thesis using n div_le_mono [of "nat n" "nat c * 0xFFFFFFFF" "nat c"] zdiv_mono1 [OF n(1), of c] by simp
  qed simp
  then show "in_avg_price (en_info e) \<le> kMaxWirePrice" by (simp add: a kMaxWirePrice_def)
qed (use assms in \<open>simp_all add: entry_core_def Let_def word_le_nat_alt\<close>)

text \<open>A full token table means that every slot holds a working order.\<close>

lemma token_table_room:
  assumes at: "om_at {} ws fs sy" and w: "length ws < length (om_orders (sy_om sy))"
  shows "fhm_size (om_tokens (sy_om sy)) < fhm_max (om_tokens (sy_om sy))"
proof -
  define own where "own s = owned (ent sy s)" for s
  have inv: "fhm_inv Hash_u64 (om_tokens (sy_om sy))" and mx: "fhm_max (om_tokens (sy_om sy)) = 2 * length (om_orders (sy_om sy))"
    and tok: "\<And>t s. fhm_find Hash_u64 (om_tokens (sy_om sy)) t = Some s \<longleftrightarrow> s < om_fresh (sy_om sy) \<and> t \<in> own s"
    using at by (simp_all add: om_at_def tables_ok_def own_def)
  have part: "set (ws @ fs) = {..< om_fresh (sy_om sy)}" "distinct (ws @ fs)" using at by (simp_all add: om_at_def slots_ok_def)
  have le: "length ws + length fs \<le> length (om_orders (sy_om sy))"
    using distinct_card [OF part(2)] part(1) om_at_slots(3) [OF at] by simp
  have card2: "card (own s) \<le> 2" for s by (simp add: own_def owned_def card_insert_if)
  have card1: "card (own s) = 1" if "s \<in> set fs" for s
    using at that by (auto simp: om_at_def entry_ok_def own_def owned_def)
  have "dom (fhm_find Hash_u64 (om_tokens (sy_om sy))) = (\<Union>s \<in> set (ws @ fs). own s)" unfolding part(1) using tok by fastforce
  then have "fhm_size (om_tokens (sy_om sy)) = card (\<Union>s \<in> set (ws @ fs). own s)" using fhm.size_card [OF inv] by simp
  also have "\<dots> \<le> (\<Sum>s \<in> set (ws @ fs). card (own s))" by (rule card_UN_le) simp
  also have "\<dots> = (\<Sum>s \<in> set ws. card (own s)) + (\<Sum>s \<in> set fs. card (own s))"
    using part(2) by (simp add: sum.union_disjoint)
  also have "\<dots> \<le> 2 * length ws + length fs"
    using sum_bounded_above [of "set ws" "\<lambda>s. card (own s)" 2] card2 card1 part(2) by (simp add: distinct_card)
  finally show ?thesis using w le mx by simp
qed

lemma slot_room:
  assumes "om_at {} ws fs sy" "length ws < length (om_orders (sy_om sy))"
  shows "slot_available (sy_om sy)"
proof -
  have part: "set (ws @ fs) = {..< om_fresh (sy_om sy)}" "distinct (ws @ fs)" "om_finished_count (sy_om sy) = length fs"
    using assms(1) by (simp_all add: om_at_def slots_ok_def ring_def)
  then show ?thesis using assms(2) distinct_card [OF part(2)] by (auto simp: slot_available_def)
qed

section \<open>Finished orders stay as they are\<close>

text \<open>A step that rewrites the terms of one slot only.\<close>

definition touches :: "'w sys \<Rightarrow> nat \<Rightarrow> 'w sys \<Rightarrow> bool" where
  "touches sy s sy' = (om_by_id (sy_om sy') = om_by_id (sy_om sy) \<and> om_next_id (sy_om sy') = om_next_id (sy_om sy) \<and>
     length (om_orders (sy_om sy')) = length (om_orders (sy_om sy)) \<and>
     (\<forall>x < length (om_orders (sy_om sy)). x \<noteq> s \<longrightarrow> en_info (ent sy' x) = en_info (ent sy x)))"

lemma touches_refl: "touches sy s sy"
  by (simp add: touches_def)

lemma touches_trans: "touches sy s sy1 \<Longrightarrow> touches sy1 s sy2 \<Longrightarrow> touches sy s sy2"
  by (simp add: touches_def)

lemma touches_steps:
  "touches sy s (set_ent s f sy)" "touches sy s (sync_ledger s sy)" "touches sy s (drop_replacement s sy)"
  "touches sy s (sy\<lparr>sy_risk := re\<rparr>)" "touches sy s (sy\<lparr>sy_world := w\<rparr>)" "touches sy s (late sy)" "touches sy s (invalid sy)" "touches sy s (clamped sy)" "touches sy s (unknown sy)"
  "touches sy s (om_upd (\<lambda>om. om\<lparr>om_tokens := T om\<rparr>) sy)"  "touches sy s (om_upd (\<lambda>om. om\<lparr>om_next_token := nt\<rparr>) sy)"
  by (auto simp: touches_def en_info_set_ent sync_ledger_frame drop_replacement_eq late_def invalid_def clamped_def unknown_def om_upd_def)
    (simp_all add: set_ent_def om_upd_def sync_ledger_def Let_def)

lemma touches_end: "s < length (om_orders (sy_om sy)) \<Longrightarrow> touches sy s (end_of_life s oc sy)"
proof -
  assume s: "s < length (om_orders (sy_om sy))"
  define om1 where "om1 = (sy_om sy)\<lparr>om_orders := (om_orders (sy_om sy))[s := finish_entry oc (ent sy s)],
      om_tokens := (if en_next_token (ent sy s) \<noteq> 0 then fst (fhm_erase Hash_u64 (om_tokens (sy_om sy)) (en_next_token (ent sy s)))
                   else om_tokens (sy_om sy))\<rparr>"
  have om: "sy_om (end_of_life s oc sy) = queue_finished s (unlink s om1)" by (simp add: end_of_life_eq [OF s] om1_def)
  have "en_info (om_orders (unlink s om1) ! x) = en_info (om_orders om1 ! x)" if "x < length (om_orders (sy_om sy))" for x
    using same_termsD(1) [OF relinked_nth [OF relinked_unlink, of x om1 s]] that by (simp add: om1_def)
  moreover have "length (om_orders (unlink s om1)) = length (om_orders om1)" using relinked_unlink [of om1 s] by (simp add: relinked_def)
  ultimately show ?thesis by (simp add: touches_def om queue_finished_def) (simp add: om1_def)
qed

lemmas touch_intros = touches_trans [OF _ touches_steps(1)] touches_trans [OF _ touches_steps(2)] touches_trans [OF _ touches_steps(3)]
  touches_trans [OF _ touches_steps(4)] touches_trans [OF _ touches_steps(8)]

lemma touches_if: "touches sy s x \<Longrightarrow> touches sy s y \<Longrightarrow> touches sy s (if b then x else y)"
  by simp

lemma touches_end_trans: "touches sy s sy1 \<Longrightarrow> s < length (om_orders (sy_om sy)) \<Longrightarrow> touches sy s (end_of_life s oc sy1)"
  using touches_trans touches_end by (metis touches_def)

definition kept :: "'w sys \<Rightarrow> 'w sys \<Rightarrow> bool" where
  "kept sy sy' = (om_next_id (sy_om sy) \<le> om_next_id (sy_om sy') \<and>
     (\<forall>oid i'. oid < om_next_id (sy_om sy) \<longrightarrow> om_find sy' oid = Some i' \<longrightarrow>
        (\<exists>i. om_find sy oid = Some i \<and> (is_terminal (in_status i) \<longrightarrow> i' = i))))"

lemma kept_refl: "kept sy sy"
  by (auto simp: kept_def)

lemma kept_trans:
  assumes "kept sy sy1" "kept sy1 sy2"
  shows "kept sy sy2"
proof -
  have "\<exists>i. om_find sy oid = Some i \<and> (is_terminal (in_status i) \<longrightarrow> i2 = i)"
    if l: "oid < om_next_id (sy_om sy)" and f: "om_find sy2 oid = Some i2" for oid i2
  proof -
    have "oid < om_next_id (sy_om sy1)" using l assms(1) by (auto simp: kept_def)
    then obtain i1 where i1: "om_find sy1 oid = Some i1" "is_terminal (in_status i1) \<longrightarrow> i2 = i1" using assms(2) f by (auto simp: kept_def)
    then obtain i where "om_find sy oid = Some i" "is_terminal (in_status i) \<longrightarrow> i1 = i" using assms(1) l by (auto simp: kept_def)
    then show ?thesis using i1 by auto
  qed
  then show ?thesis using assms by (auto simp: kept_def)
qed

lemma touches_kept:
  assumes at: "om_at {} ws fs sy" and s: "s \<in> set ws" and t: "touches sy s sy'"
  shows "kept sy sy'"
proof -
  have "\<exists>i. om_find sy oid = Some i \<and> (is_terminal (in_status i) \<longrightarrow> i' = i)" if f: "om_find sy' oid = Some i'" for oid i'
  proof -
    obtain x where x: "entry_slot (sy_om sy) oid = Some x" "i' = en_info (ent sy' x)"
      using f t by (auto simp: om_find_def entry_slot_def touches_def)
    have "x < length (om_orders (sy_om sy))" using entry_slot_fresh [OF at x(1)] om_at_slots(3) [OF at] by simp
    then show ?thesis using x t om_at_entry [OF at s] by (cases "x = s") (auto simp: om_find_def touches_def terminal_def)
  qed
  then show ?thesis using t by (simp add: kept_def touches_def)
qed

lemma same_kept:
  "om_by_id (sy_om sy') = om_by_id (sy_om sy) \<Longrightarrow> om_orders (sy_om sy') = om_orders (sy_om sy) \<Longrightarrow> om_next_id (sy_om sy') = om_next_id (sy_om sy) \<Longrightarrow> kept sy sy'"
  by (auto simp: kept_def om_find_def entry_slot_def)

lemma stats_kept [simp]:
  "kept sy (late sy)" "kept sy (invalid sy)" "kept sy (unknown sy)" "kept sy (clamped sy)" "kept sy (sy\<lparr>sy_world := w\<rparr>)" "kept sy (sy\<lparr>sy_risk := re\<rparr>)"
  by (simp_all add: same_kept late_def invalid_def unknown_def clamped_def om_upd_def)

lemma report_kept:
  assumes "om_inv sy"
  shows "kept sy (on_accepted (quiet ev) a now sy)" "kept sy (on_executed (quiet ev) x now sy)" "kept sy (on_canceled (quiet ev) c now sy)"
    "kept sy (on_rejected (quiet ev) rj now sy)" "kept sy (on_replaced (quiet ev) rp now sy)"
proof -
  obtain ws fs where at: "om_at {} ws fs sy" using assms by (auto simp: om_inv_def)
  have act: "kept sy (case active_order t sy of (sy, None) \<Rightarrow> sy | (sy, Some s) \<Rightarrow> F s sy)"
    if F: "\<And>s. s < length (om_orders (sy_om sy)) \<Longrightarrow> touches sy s (F s sy)" for t F
  proof -
    obtain sy1 r where r: "active_order t sy = (sy1, r)" by fastforce
    show ?thesis
    proof (cases rule: active_order_cases [OF at r])
      case (2 s)
      then show ?thesis using touches_kept [OF at 2(3) F [OF om_at_len [OF at 2(3)]]] r by simp
    qed (use r in auto)
  qed
  have res: "kept sy (case resolve t sy of (sy, None) \<Rightarrow> sy | (sy, Some (s, replacement)) \<Rightarrow>
      if is_terminal (in_status (en_info (ent sy s))) then late sy else F s replacement sy)"
    if F: "\<And>s b. s < length (om_orders (sy_om sy)) \<Longrightarrow> touches sy s (F s b sy)" for t F
  proof -
    obtain sy1 r where r: "resolve t sy = (sy1, r)" by fastforce
    have K: "kept sy (F s b sy)" if "s < om_fresh (sy_om sy)" "\<not> is_terminal (in_status (en_info (ent sy s)))" for s b
      using touches_kept [OF at _ F] om_at_working [OF at that(1)] om_at_len [OF at, of s] that(2) by (simp add: terminal_def)
    show ?thesis by (cases rule: resolve_cases [OF at r]) (use r K in auto)
  qed
  show "kept sy (on_accepted (quiet ev) a now sy)" unfolding on_accepted_def Let_def quiet_simps
    by (rule act) (intro touches_if touch_intros touches_end_trans touches_steps touches_refl)
  show "kept sy (on_executed (quiet ev) x now sy)" unfolding on_executed_def Let_def quiet_simps option.case
    by (rule act) (intro touches_if touch_intros touches_end_trans touches_steps touches_refl)
  show "kept sy (on_canceled (quiet ev) c now sy)" unfolding on_canceled_def Let_def quiet_simps
    by (rule act) (intro touches_if touch_intros touches_end_trans touches_steps touches_refl)
  show "kept sy (on_rejected (quiet ev) rj now sy)" unfolding on_rejected_def Let_def quiet_simps
    by (rule res) (intro touches_if touch_intros touches_end_trans touches_steps touches_refl)
  show "kept sy (on_replaced (quiet ev) rp now sy)" unfolding on_replaced_def Let_def quiet_simps
    by (rule res) (intro touches_if touch_intros touches_end_trans touches_steps touches_refl)
qed

lemma touches_cancel_entry: "touches sy s (fst (cancel_entry (quiet ev) s now sy))"
  unfolding cancel_entry_def Let_def
  by (auto split: prod.splits intro: touches_refl touches_steps touch_intros)

lemma cancel_entry_kept:
  assumes at: "om_at {} ws fs sy" and s: "s < om_fresh (sy_om sy)"
  shows "kept sy (fst (cancel_entry (quiet ev) s now sy))"
proof (cases "s \<in> set ws")
  case True
  then show ?thesis using touches_kept [OF at True touches_cancel_entry] by simp
next
  case False
  then have "is_terminal (in_status (en_info (ent sy s)))" using om_at_working [OF at s] by (simp add: terminal_def)
  then show ?thesis by (simp add: cancel_entry_def kept_refl)
qed

lemma replace_kept:
  assumes at: "om_at {} ws fs sy"
  shows "kept sy (fst (replace (quiet ev) oid p q now sy))"
proof (cases "entry_slot (sy_om sy) oid")
  case None
  then show ?thesis by (simp add: replace_def kept_refl)
next
  case (Some s)
  show ?thesis
  proof (cases "in_status (en_info (ent sy s)) = OS_live")
    case True
    then have s: "s \<in> set ws"
      using om_at_working [OF at entry_slot_fresh [OF at Some]] by (simp add: terminal_def is_terminal_def)
    have "touches sy s (fst (replace (quiet ev) oid p q now sy))"
      unfolding replace_def Some option.case Let_def
      by (auto split: prod.splits intro!: touches_refl touches_steps(5) touches_steps(10) touch_intros
          touches_trans [OF _ touches_steps(5)] touches_trans [OF _ touches_steps(10)] touches_trans [OF _ touches_steps(11)])
    then show ?thesis by (rule touches_kept [OF at s])
  next
    case False
    then show ?thesis by (simp add: replace_def Some kept_refl)
  qed
qed

lemma submit_kept:
  assumes at: "om_at {} ws fs sy"
  shows "kept sy (fst (submit (quiet ev) req now sy))"
proof (cases rule: submit_at [OF at, of ev req now])
  case 1
  then show ?thesis by (intro same_kept) simp_all
next
  case (2 fs' T w re)
  define sy' slot where "sy' = fst (submit (quiet ev) req now sy)" and "slot = next_slot (sy_om sy)"
  note fr = book_order_frame [where req = req and now = now and slot = "next_slot (sy_om sy)" and sy = "sy\<lparr>sy_om := (sy_om sy)\<lparr>om_tokens := T\<rparr>, sy_world := w, sy_risk := re\<rparr>",
      folded 2(5), folded sy'_def slot_def, simplified]
  have at': "om_at {} (ws @ [slot]) fs' sy'" using 2(1) by (simp add: sy'_def slot_def)
  have "om_find sy oid = Some i'" if oid: "oid < om_next_id (sy_om sy)" and f: "om_find sy' oid = Some i'" for oid i'
  proof -
    obtain s where s: "s < om_fresh (sy_om sy')" "en_info (ent sy' s) = i'" "in_id i' = oid" using f om_find_slot [OF at'] by auto
    have len: "s < length (om_orders (sy_om sy))" using s(1) om_at_slots(3) [OF at'] fr(3) by simp
    have "s \<noteq> slot" using s(2,3) oid fr(4) [OF len] by auto
    then have "s < om_fresh (sy_om sy)" using s(1) fr(2) by (auto simp: slot_def next_slot_def split: if_splits)
    then show ?thesis using s \<open>s \<noteq> slot\<close> fr(4) [OF len] om_find_slot [OF at] by auto
  qed
  moreover have "in_id (en_info (ent sy' slot)) < om_next_id (sy_om sy')"
    using at' om_at_slots(1) [OF at', of slot] by (simp add: om_at_def tables_ok_def)
  then have "om_next_id (sy_om sy) \<le> om_next_id (sy_om sy')"
    using fr(4) [of slot] om_at_len [OF at', of slot] fr(3) by simp
  ultimately show ?thesis by (auto simp: kept_def sy'_def)
qed

lemma api_kept:
  assumes "api_step ev sy sy'" "om_inv sy"
  shows "kept sy sy'"
proof -
  obtain ws fs where at: "om_at {} ws fs sy" using assms(2) by (auto simp: om_inv_def)
  show ?thesis using assms(1)
  proof cases
    case (api_cancel oid now)
    then show ?thesis using cancel_entry_kept [OF at entry_slot_fresh [OF at]] kept_refl
      by (auto simp: cancel_def split: option.splits)
  qed (use submit_kept [OF at] replace_kept [OF at] in simp_all)
qed

lemma api_star_kept: "(api_step ev)\<^sup>*\<^sup>* sy sy' \<Longrightarrow> om_inv sy \<Longrightarrow> kept sy sy'"
proof (induction rule: rtranclp_induct)
  case (step y z)
  then show ?case using api_kept [of ev y z] api_star_inv [of ev sy y] kept_trans by blast
qed (rule kept_refl)

section \<open>cancel_all\<close>

definition gateway_takes_cancels :: "'w env \<Rightarrow> bool" where
  "gateway_takes_cancels ev = (\<forall>m now w. snd (ev_send_cancel ev m now w))"

lemma cancel_entry_sent:
  assumes "om_at {} ws fs sy" "s \<in> set ws" "gateway_takes_cancels ev"
  shows "in_status (en_info (ent (fst (cancel_entry (quiet ev) s now sy)) s)) = OS_pending_cancel"
proof -
  have nt: "\<not> is_terminal (in_status (en_info (ent sy s)))" using om_at_entry [OF assms(1,2)] by (simp add: terminal_def)
  obtain w sent where send: "ev_send_cancel ev \<lparr>co_token = from_id (if en_next_token (ent sy s) \<noteq> 0 then en_next_token (ent sy s) else en_token (ent sy s)),
      co_shares = 0\<rparr> now (sy_world sy) = (w, sent)" by fastforce
  then have "sent" using assms(3) unfolding gateway_takes_cancels_def by (metis snd_conv)
  then show ?thesis using nt send om_at_len [OF assms(1,2)]
    by (simp add: cancel_entry_def Let_def en_info_set_ent info_upd_def)
qed

lemma cancel_all_walk:
  assumes li: "api_listener ev" and at: "om_at {} (us @ rs @ vs) fs sy" and lst: "lst < om_next_id (sy_om sy)"
    and vs: "\<forall>z \<in> set vs. lst < in_id (en_info (ent sy z))" and c: "c = kNone \<or> c \<in> set vs"
  shows "\<exists>sy' n. cancel_all_from ev now lst (hd_or rs c) sent sy = Some (sy', n) \<and>
    (\<exists>zs. grows sy (us @ rs @ vs) sy' zs) \<and> kept sy sy' \<and> (\<forall>s \<in> set rs. gateway_takes_cancels ev \<longrightarrow> in_id (en_info (ent sy s)) \<le> lst \<longrightarrow>
      in_status (en_info (ent sy' s)) = OS_pending_cancel)"
  using at lst vs c
proof (induction rs arbitrary: us vs fs sy c sent)
  case Nil
  then have "\<exists>zs. grows sy (us @ [] @ vs) sy zs" using grows_refl [of "us @ [] @ vs"] by blast
  then show ?case using Nil.prems(3,4) by (subst cancel_all_from.simps) (auto simp: Let_def kept_refl)
next
  case (Cons s rs)
  have ne: "s \<noteq> kNone" using Cons.prems(1) dll_neq_kNone [of "sy_om sy" "us @ s # rs @ vs" s] by (auto simp: om_at_def slots_ok_def)
  show ?case
  proof (cases "in_id (en_info (ent sy s)) > lst")
    case True
    have "sorted_wrt (<) (map (\<lambda>s. in_id (en_info (ent sy s))) (us @ (s # rs) @ vs))"
      using Cons.prems(1) by (simp add: om_at_def slots_ok_def)
    then have "lst < in_id (en_info (ent sy x))" if "x \<in> set (s # rs)" for x
      using True that by (auto simp: sorted_wrt_append intro: less_trans)
    then have "\<forall>x \<in> set (s # rs). \<not> in_id (en_info (ent sy x)) \<le> lst" by (auto simp: not_le)
    then show ?thesis using True ne grows_refl [OF Cons.prems(1)] by (subst cancel_all_from.simps) (auto simp: Let_def kept_refl)
  next
    case False
    define c' where "c' = hd_or vs kNone"
    have c': "c' = kNone \<or> c' \<in> set vs" using hd_or_in [of vs kNone] by (auto simp: c'_def)
    have nx: "en_next (ent sy s) = hd_or rs c'"
      using Cons.prems(1) by (simp add: om_at_def slots_ok_def dll_def lseg_append c'_def hd_or_append)
    define sy1 where "sy1 = (if in_status (en_info (ent sy s)) \<noteq> OS_pending_cancel then fst (cancel_entry ev s now sy) else sy)"
    define n where "n = (if in_status (en_info (ent sy s)) \<noteq> OS_pending_cancel \<and> snd (cancel_entry ev s now sy) = SS_ok then sent + 1 else sent)"
    have un: "cancel_all_from ev now lst (hd_or (s # rs) c) sent sy = cancel_all_from ev now lst (hd_or rs c') n sy1"
      using ne False by (subst cancel_all_from.simps) (simp add: Let_def nx sy1_def n_def split: prod.splits)
    note sw = om_at_slots(1) [OF Cons.prems(1), of s]
    obtain zs where g: "grows sy (us @ (s # rs) @ vs) sy1 zs" and kp: "kept sy sy1"
      and pc: "gateway_takes_cancels ev \<Longrightarrow> in_status (en_info (ent sy1 s)) = OS_pending_cancel"
    proof (cases "in_status (en_info (ent sy s)) = OS_pending_cancel")
      case True
      then show ?thesis using that [of "[]"] grows_refl [OF Cons.prems(1)] by (simp add: sy1_def kept_refl)
    next
      case pend: False
      define syq where "syq = fst (cancel_entry (quiet ev) s now sy)"
      have q: "om_at {} (us @ (s # rs) @ vs) fs syq" using cancel_entry_at [OF Cons.prems(1)] sw by (simp add: syq_def)
      then have gq: "grows sy (us @ (s # rs) @ vs) syq []" by (rule keeps_grows) (simp add: syq_def cancel_keeps)
      have star: "(api_step ev)\<^sup>*\<^sup>* syq sy1" using cancel_entry_listener(1) [OF li] pend by (simp add: sy1_def syq_def)
      have "kept sy syq" using cancel_entry_kept [OF Cons.prems(1)] sw by (simp add: syq_def)
      then have "kept sy sy1" using api_star_kept [OF star om_invI [OF q]] kept_trans by blast
      moreover obtain zs where gz: "grows syq (us @ (s # rs) @ vs) sy1 zs" using api_star_grows star q by blast
      moreover have "grows sy (us @ (s # rs) @ vs) sy1 zs" using grows_trans [OF gq, of sy1 zs] gz by simp
      moreover have "in_status (en_info (ent sy1 s)) = OS_pending_cancel" if "gateway_takes_cancels ev"
        using cancel_entry_sent [OF Cons.prems(1) _ that, of s now] gz by (simp add: syq_def [symmetric] grows_def)
      ultimately show ?thesis using that by blast
    qed
    obtain fs1 where at1: "om_at {} ((us @ [s]) @ rs @ (vs @ zs)) fs1 sy1" using g by (auto simp: grows_def)
    have lst1: "lst < om_next_id (sy_om sy1)" using g Cons.prems(2) by (auto simp: grows_def)
    have vs1: "\<forall>z \<in> set (vs @ zs). lst < in_id (en_info (ent sy1 z))" using g Cons.prems(2,3) by (auto simp: grows_def)
    obtain sy' m zs' where r: "cancel_all_from ev now lst (hd_or rs c') n sy1 = Some (sy', m)"
      "grows sy1 ((us @ [s]) @ rs @ vs @ zs) sy' zs'" "kept sy1 sy'"
      "\<forall>x \<in> set rs. gateway_takes_cancels ev \<longrightarrow> in_id (en_info (ent sy1 x)) \<le> lst \<longrightarrow> in_status (en_info (ent sy' x)) = OS_pending_cancel"
      using Cons.IH [OF at1 lst1 vs1, of c' n] c' by auto
    have "grows sy (us @ (s # rs) @ vs) sy' (zs @ zs')" using grows_trans [OF g, of sy' zs'] r(2) by simp
    moreover have "in_status (en_info (ent sy' s)) = OS_pending_cancel" if "gateway_takes_cancels ev"
      using pc [OF that] r(2) by (simp add: grows_def)
    moreover have "in_id (en_info (ent sy1 x)) = in_id (en_info (ent sy x))" if "x \<in> set rs" for x using g that by (simp add: grows_def)
    moreover have "kept sy sy'" using kept_trans [OF kp r(3)] .
    ultimately show ?thesis using r(1,4) un by auto
  qed
qed

section \<open>Runs of the manager\<close>

datatype om_call =
    Call_submit OrderRequest Nanos | Call_cancel OrderId Nanos | Call_replace OrderId Price Qty Nanos | Call_cancel_all Nanos
  | Rep_accepted Accepted Nanos | Rep_executed Executed Nanos | Rep_canceled Canceled Nanos
  | Rep_rejected Rejected Nanos | Rep_replaced Replaced Nanos
  | Call_mark Locate Price | Call_kill bool

fun om_exec :: "'w env \<Rightarrow> om_call \<Rightarrow> 'w sys \<Rightarrow> 'w sys option" where
  "om_exec ev (Call_submit req now) sy = Some (fst (submit ev req now sy))"
| "om_exec ev (Call_cancel oid now) sy = Some (fst (cancel ev oid now sy))"
| "om_exec ev (Call_replace oid p q now) sy = Some (fst (replace ev oid p q now sy))"
| "om_exec ev (Call_cancel_all now) sy = map_option fst (cancel_all ev now sy)"
| "om_exec ev (Rep_accepted a now) sy = Some (on_accepted ev a now sy)"
| "om_exec ev (Rep_executed x now) sy = Some (on_executed ev x now sy)"
| "om_exec ev (Rep_canceled c now) sy = Some (on_canceled ev c now sy)"
| "om_exec ev (Rep_rejected r now) sy = Some (on_rejected ev r now sy)"
| "om_exec ev (Rep_replaced r now) sy = Some (on_replaced ev r now sy)"
| "om_exec ev (Call_mark l p) sy = Some (sy\<lparr>sy_risk := mark (sy_risk sy) l p\<rparr>)"
| "om_exec ev (Call_kill b) sy = Some (sy\<lparr>sy_risk := set_kill_switch (sy_risk sy) b\<rparr>)"

text \<open>A price is a 64-bit signed integer.\<close>

fun om_call_int64 :: "om_call \<Rightarrow> bool" where
  "om_call_int64 (Call_mark l p) = int64 p"
| "om_call_int64 _ = True"

fun om_run :: "'w env \<Rightarrow> om_call list \<Rightarrow> 'w sys \<Rightarrow> 'w sys option" where
  "om_run ev [] sy = Some sy"
| "om_run ev (c # cs) sy = (case om_exec ev c sy of None \<Rightarrow> None | Some sy \<Rightarrow> om_run ev cs sy)"

lemma cancel_all_returns:
  assumes li: "api_listener ev" and at: "om_at {} ws fs sy"
  shows "\<exists>sy' n. cancel_all ev now sy = Some (sy', n) \<and> (\<exists>zs. grows sy ws sy' zs) \<and> kept sy sy' \<and>
    (\<forall>s \<in> set ws. gateway_takes_cancels ev \<longrightarrow> in_status (en_info (ent sy' s)) = OS_pending_cancel)"
proof -
  have pos: "0 < om_next_id (sy_om sy)" using at by (simp add: om_at_def tables_ok_def)
  then have lst: "om_next_id (sy_om sy) - 1 < om_next_id (sy_om sy)"
    by (simp add: word_less_nat_alt unat_minus_le word_le_nat_alt unat_gt_0 Suc_le_eq)
  have le: "in_id (en_info (ent sy s)) \<le> om_next_id (sy_om sy) - 1" if "s \<in> set ws" for s
  proof -
    have "in_id (en_info (ent sy s)) < om_next_id (sy_om sy)" using at om_at_slots(1) [OF at that] by (simp add: om_at_def tables_ok_def)
    then show ?thesis using pos by (simp add: word_le_nat_alt word_less_nat_alt unat_minus_le Suc_le_eq)
  qed
  have hd: "om_head (sy_om sy) = hd_or ws kNone" using at by (simp add: om_at_def slots_ok_def dll_def)
  show ?thesis using cancel_all_walk [OF li, of "[]" ws "[]" fs sy "om_next_id (sy_om sy) - 1" kNone now 0] at lst le
    unfolding cancel_all_def hd by auto
qed

lemma cancel_all_pending:
  assumes "api_listener ev" and at: "om_at {} ws fs sy" and c: "cancel_all ev now sy = Some (sy', n)" and gw: "gateway_takes_cancels ev"
    and f: "om_find sy oid = Some i" "\<not> is_terminal (in_status i)"
  shows "\<exists>i'. om_find sy' oid = Some i' \<and> in_status i' = OS_pending_cancel"
proof -
  obtain zs where g: "grows sy ws sy' zs"
    and pc: "\<forall>s \<in> set ws. gateway_takes_cancels ev \<longrightarrow> in_status (en_info (ent sy' s)) = OS_pending_cancel"
    using cancel_all_returns [OF assms(1) at, of now] c by auto
  obtain fs' where at': "om_at {} (ws @ zs) fs' sy'" using g by (auto simp: grows_def)
  obtain s where s: "s < om_fresh (sy_om sy)" "en_info (ent sy s) = i" "in_id i = oid" using f om_find_slot [OF at] by auto
  then have ws: "s \<in> set ws" using om_at_working [OF at s(1)] f by (simp add: terminal_def)
  then have "in_id (en_info (ent sy' s)) = oid" "s < om_fresh (sy_om sy')" using g s om_at_slots(1) [OF at', of s] by (auto simp: grows_def)
  then show ?thesis using pc ws gw om_find_slot [OF at'] by auto
qed

lemma om_exec_inv:
  assumes li: "api_listener ev" and inv: "om_inv sy" and c: "om_call_int64 c"
  shows "\<exists>sy'. om_exec ev c sy = Some sy' \<and> om_inv sy'"
proof (cases c)
  case (Call_cancel_all now)
  obtain ws fs where "om_at {} ws fs sy" using inv by (auto simp: om_inv_def)
  then show ?thesis using cancel_all_returns [OF li, of ws fs sy now] Call_cancel_all by (auto simp: grows_def om_inv_def)
next
  case (Call_mark l p)
  then have "p \<le> kInt64Max" using c int64_le_max by simp
  then show ?thesis using Call_mark inv om_at_risk moves_none(3) by (fastforce simp: om_inv_def)
next
  case (Call_kill b)
  then show ?thesis using inv om_at_risk moves_none(5) by (fastforce simp: om_inv_def)
qed (use api_star_inv [OF submit_listener(1) [OF li] submit_inv [OF inv]] api_star_inv [OF cancel_listener [OF li] cancel_inv [OF inv]]
    api_star_inv [OF replace_listener(1) [OF li] replace_inv [OF inv]]
    api_star_inv [OF report_listener(1) [OF li] on_accepted_inv [OF inv]] api_star_inv [OF on_executed_listener [OF li] on_executed_inv [OF inv]]
    api_star_inv [OF report_listener(2) [OF li] on_canceled_inv [OF inv]] api_star_inv [OF report_listener(3) [OF li] on_rejected_inv [OF inv]]
    api_star_inv [OF report_listener(4) [OF li] on_replaced_inv [OF inv]] in \<open>simp_all\<close>)

lemma om_run_inv:
  assumes "api_listener ev" "om_inv sy" "\<forall>c \<in> set cs. om_call_int64 c"
  shows "\<exists>sy'. om_run ev cs sy = Some sy' \<and> om_inv sy'"
  using assms(2,3)
proof (induction cs arbitrary: sy)
  case (Cons c cs)
  then obtain sy1 where "om_exec ev c sy = Some sy1" "om_inv sy1" using om_exec_inv [OF assms(1)] by fastforce
  then show ?case using Cons by simp
qed simp

definition om_start :: "OrderManager \<Rightarrow> Limits \<Rightarrow> nat \<Rightarrow> 'w \<Rightarrow> 'w sys" where
  "om_start om lim locates w = \<lparr>sy_om = om, sy_risk = RiskEngine_new lim locates, sy_world = w\<rparr>"

lemma om_start_inv:
  assumes "OrderManager_new cfg = Some om"
  shows "om_inv (om_start om lim locates w)"
proof -
  define n where "n = om_slot_count (oc_max_orders cfg)"
  obtain b t :: "(u64, nat) fhm" where bt: "fhm_new n = Some b" "fhm_new (2 * n) = Some t"
    and om: "om = \<lparr>om_orders = replicate n OmEntry_new, om_by_id = b, om_tokens = t, om_finished = replicate n 0,
           om_finished_head = 0, om_finished_count = 0, om_fresh = 0, om_head = kNone, om_tail = kNone,
           om_next_id = 1, om_open = 0, om_next_token = (if oc_first_token cfg \<noteq> 0 then oc_first_token cfg else 1),
           om_stats = \<lparr>st_unknown_tokens = 0, st_late_reports = 0, st_invalid_reports = 0, st_clamped_reports = 0\<rparr>\<rparr>"
    using assms by (auto simp: OrderManager_new_def n_def Let_def bind_eq_Some_conv)
  have inv: "fhm_inv Hash_u64 b" "fhm_max b = n" "fhm_inv Hash_u64 t" "fhm_max t = 2 * n"
    using fhm_new_spec [OF bt(1)] fhm_new_spec [OF bt(2)] by auto
  have emp: "fhm_find Hash_u64 b = Map.empty" "fhm_find Hash_u64 t = Map.empty" using bt by (simp_all add: fhm_new_find)
  have "n < kNone" by (simp add: n_def om_slot_count_def kNone_def)
  then have "slots_ok om [] []" by (auto simp: om slots_ok_def dll_def ring_def OmEntry_new_def)
  moreover have "1 \<le> om_next_token om" by (simp add: om word_le_nat_alt Suc_le_eq unat_gt_0)
  then have "tables_ok om" using inv emp by (simp add: om tables_ok_def)
  moreover have "open_qty (RiskEngine_new lim locates) l d = 0" "open_count (RiskEngine_new lim locates) l d = 0" for l d
    by (simp_all add: open_qty_def open_count_def slot_at_def RiskEngine_new_def RSlot_new_def)
  then have "ledger_ok (RiskEngine_new lim locates) (om_orders om)"
    by (auto simp: ledger_ok_def RiskEngine_new_inv om share_def counts_def OmEntry_new_def sum_list_replicate)
  ultimately show ?thesis by (intro om_invI [of "[]" "[]"]) (simp add: om_at_def om_start_def)
qed

lemma om_exec_kept:
  assumes li: "api_listener ev" and inv: "om_inv sy" and c: "om_exec ev c sy = Some sy'"
  shows "kept sy sy'"
proof (cases c)
  case (Call_cancel_all now)
  obtain ws fs where "om_at {} ws fs sy" using inv by (auto simp: om_inv_def)
  then show ?thesis using cancel_all_returns [OF li, of ws fs sy now] Call_cancel_all c by auto
next
  case (Call_submit req now)
  then show ?thesis using c kept_trans [OF _ api_star_kept [OF submit_listener(1) [OF li] submit_inv [OF inv]]]
    api_kept [OF api_submit inv] by auto
next
  case (Call_cancel oid now)
  then show ?thesis using c kept_trans [OF _ api_star_kept [OF cancel_listener [OF li] cancel_inv [OF inv]]]
    api_kept [OF api_cancel inv] by auto
next
  case (Call_replace oid p q now)
  then show ?thesis using c kept_trans [OF _ api_star_kept [OF replace_listener(1) [OF li] replace_inv [OF inv]]]
    api_kept [OF api_replace inv] by auto
qed (use c kept_trans [OF report_kept(1) [OF inv] api_star_kept [OF report_listener(1) [OF li] on_accepted_inv [OF inv]]]
    kept_trans [OF report_kept(2) [OF inv] api_star_kept [OF on_executed_listener [OF li] on_executed_inv [OF inv]]]
    kept_trans [OF report_kept(3) [OF inv] api_star_kept [OF report_listener(2) [OF li] on_canceled_inv [OF inv]]]
    kept_trans [OF report_kept(4) [OF inv] api_star_kept [OF report_listener(3) [OF li] on_rejected_inv [OF inv]]]
    kept_trans [OF report_kept(5) [OF inv] api_star_kept [OF report_listener(4) [OF li] on_replaced_inv [OF inv]]] in auto)

lemma om_run_kept:
  assumes "api_listener ev" "om_inv sy" "\<forall>c \<in> set cs. om_call_int64 c" "om_run ev cs sy = Some sy'"
  shows "kept sy sy'"
  using assms(2-4)
proof (induction cs arbitrary: sy)
  case Nil
  then show ?case by (simp add: kept_refl)
next
  case (Cons c cs)
  obtain sy1 where "om_exec ev c sy = Some sy1" "om_inv sy1" using om_exec_inv [OF assms(1) Cons.prems(1)] Cons.prems(2) by fastforce
  then show ?case using Cons om_exec_kept [OF assms(1) Cons.prems(1)] kept_trans by fastforce
qed

lemma om_run_at:
  assumes "OrderManager_new cfg = Some om" "api_listener ev" "\<forall>c \<in> set cs. om_call_int64 c"
  obtains sy ws fs where "om_run ev cs (om_start om lim locates w) = Some sy" "om_at {} ws fs sy"
  using om_run_inv [OF assms(2) om_start_inv [OF assms(1), of lim locates w] assms(3)] by (auto simp: om_inv_def)

section \<open>The properties\<close>

definition sample_env :: "unit env" where
  "sample_env = \<lparr>ev_send_enter = (\<lambda>m now w. (w, True)), ev_send_cancel = (\<lambda>m now w. (w, True)), ev_send_replace = (\<lambda>m now w. (w, True)),
     ev_reference = (\<lambda>l w. 0), ev_symbol = (\<lambda>l w. replicate 8 65), ev_listener = None\<rparr>"

definition sample_oms_calls :: "om_call list" where
  "sample_oms_calls = [Call_submit \<lparr>rq_locate = 1, rq_side = Side_buy, rq_price = 1000, rq_qty = 100, rq_tif = Tif_day\<rparr> 5, Call_mark 1 1000, Call_cancel_all 9]"

lemma sample_env_ok: "api_listener sample_env" "gateway_takes_cancels sample_env" "\<forall>c \<in> set sample_oms_calls. om_call_int64 c"
  by (simp_all add: api_listener_def sample_env_def gateway_takes_cancels_def sample_oms_calls_def int64_def)

lemma sample_manager: "\<exists>om. OrderManager_new \<lparr>oc_max_orders = 4, oc_first_token = 1\<rparr> = Some om"
proof -
  have "om_slot_count 4 = 4" by (simp add: om_slot_count_def kNone_def)
  moreover obtain a b :: "(u64, nat) fhm" where "fhm_new 4 = Some a" "fhm_new 8 = Some b"
    using fhm_new_returns [of 4] fhm_new_returns [of 8] by auto
  ultimately show ?thesis by (auto simp: OrderManager_new_def Let_def)
qed

text \<open>
  Claim C1: the exposure ledger is exact. After any sequence of calls and exchange reports, with
  any listener that acts through the manager, the working quantity the risk engine holds for an
  instrument and side is the sum of what the orders in the table hold, and its count of working
  orders is their number; an order holds nothing exactly when it is finished, and at least its open
  quantity otherwise.
\<close>

theorem oms_ledger_exact:
  assumes "OrderManager_new cfg = Some om" "api_listener ev" "\<forall>c \<in> set cs. om_call_int64 c"
  shows "\<exists>sy. om_run ev cs (om_start om lim locates w) = Some sy \<and>
    (\<forall>l. \<forall>d \<in> {Side_buy, Side_sell}. open_qty (sy_risk sy) l d = (\<Sum>e\<leftarrow>om_orders (sy_om sy). share l d e) \<and>
       open_count (sy_risk sy) l d = (\<Sum>e\<leftarrow>om_orders (sy_om sy). counts l d e)) \<and>
    (\<forall>oid i. om_find sy oid = Some i \<longrightarrow>
       (reserved_qty sy oid = 0 \<longleftrightarrow> is_terminal (in_status i)) \<and> in_leaves_qty i \<le> reserved_qty sy oid)"
proof -
  obtain sy ws fs where run: "om_run ev cs (om_start om lim locates w) = Some sy" and at: "om_at {} ws fs sy"
    by (rule om_run_at [OF assms])
  have "(reserved_qty sy oid = 0 \<longleftrightarrow> is_terminal (in_status i)) \<and> in_leaves_qty i \<le> reserved_qty sy oid"
    if f: "om_find sy oid = Some i" for oid i
  proof -
    obtain s where s: "entry_slot (sy_om sy) oid = Some s" "i = en_info (ent sy s)" using f by (auto simp: om_find_def)
    have "entry_ok (ent sy s)" by (rule om_at_all_entries [OF at entry_slot_fresh [OF at s(1)]])
    then show ?thesis using s ledger_want_ge [of "ent sy s"] by (auto simp: reserved_qty_def entry_ok_def terminal_def split: if_splits)
  qed
  moreover have "ledger_ok (sy_risk sy) (om_orders (sy_om sy))" using at by (simp add: om_at_def)
  ultimately show ?thesis using run by (auto simp: ledger_ok_def)
qed

theorem oms_ledger_exact_witness:
  "\<exists>om sy. OrderManager_new \<lparr>oc_max_orders = 4, oc_first_token = 1\<rparr> = Some om \<and>
     om_run sample_env sample_oms_calls (om_start om sample_limits 8 ()) = Some sy \<and>
     open_qty (sy_risk sy) 1 Side_buy = (\<Sum>e\<leftarrow>om_orders (sy_om sy). share 1 Side_buy e)"
proof -
  obtain om where om: "OrderManager_new \<lparr>oc_max_orders = 4, oc_first_token = 1\<rparr> = Some om" using sample_manager ..
  show ?thesis using oms_ledger_exact [OF om sample_env_ok(1,3), of sample_limits 8 "()"] om by blast
qed

text \<open>
  Claim C18: every order the manager knows is well formed: it is found under its own id, executed
  and open quantity never exceed the order size nor the largest order size, nothing is open exactly
  when it is finished, the average price is a price the exchange can quote, and the count of open
  orders is the number of orders that are not finished.
\<close>

theorem oms_orders_well_formed:
  assumes "OrderManager_new cfg = Some om" "api_listener ev" "\<forall>c \<in> set cs. om_call_int64 c"
  shows "\<exists>sy. om_run ev cs (om_start om lim locates w) = Some sy \<and>
    (\<forall>oid i. om_find sy oid = Some i \<longrightarrow> in_id i = oid \<and> 0 < oid \<and> oid < om_next_id (sy_om sy) \<and>
       unat (in_cum_qty i) + unat (in_leaves_qty i) \<le> unat (rq_qty (in_req i)) \<and> rq_qty (in_req i) \<le> kMaxOrderQty \<and>
       (in_leaves_qty i = 0 \<longleftrightarrow> is_terminal (in_status i)) \<and> 0 \<le> in_avg_price i \<and> in_avg_price i \<le> kMaxWirePrice) \<and>
    om_open (sy_om sy) = card {oid. \<exists>i. om_find sy oid = Some i \<and> \<not> is_terminal (in_status i)}"
proof -
  obtain sy ws fs where run: "om_run ev cs (om_start om lim locates w) = Some sy" and at: "om_at {} ws fs sy"
    by (rule om_run_at [OF assms])
  define nid where "nid s = in_id (en_info (ent sy s))" for s
  have tab: "tables_ok (sy_om sy)" using at by (simp add: om_at_def)
  have "in_id i = oid \<and> 0 < oid \<and> oid < om_next_id (sy_om sy) \<and>
       unat (in_cum_qty i) + unat (in_leaves_qty i) \<le> unat (rq_qty (in_req i)) \<and> rq_qty (in_req i) \<le> kMaxOrderQty \<and>
       (in_leaves_qty i = 0 \<longleftrightarrow> is_terminal (in_status i)) \<and> 0 \<le> in_avg_price i \<and> in_avg_price i \<le> kMaxWirePrice"
    if f: "om_find sy oid = Some i" for oid i
  proof -
    obtain s where s: "s < om_fresh (sy_om sy)" "i = en_info (ent sy s)" "in_id i = oid" using f om_find_slot [OF at] by auto
    note ok = om_at_all_entries [OF at s(1)]
    have "0 < nid s \<and> nid s < om_next_id (sy_om sy)" using tab s(1) by (simp add: tables_ok_def nid_def)
    moreover have "in_leaves_qty i = 0 \<longleftrightarrow> is_terminal (in_status i)" using ok s(2) by (auto simp: entry_ok_def terminal_def split: if_splits)
    ultimately show ?thesis using entry_core_bounds [OF entry_ok_core [OF ok]] s by (simp add: nid_def)
  qed
  moreover have "om_open (sy_om sy) = card {oid. \<exists>i. om_find sy oid = Some i \<and> \<not> is_terminal (in_status i)}"
  proof -
    have "{oid. \<exists>i. om_find sy oid = Some i \<and> \<not> is_terminal (in_status i)} = nid ` set ws"
      using om_at_working [OF at] om_at_slots(1) [OF at] unfolding om_find_slot [OF at] by (auto simp: nid_def terminal_def image_iff)
    moreover have "inj_on nid (set ws)"
    proof (rule inj_onI)
      fix x y assume xy: "x \<in> set ws" "y \<in> set ws" "nid x = nid y"
      have "fhm_find Hash_u64 (om_by_id (sy_om sy)) (nid z) = Some z" if "z \<in> set ws" for z
        using tab om_at_slots(1) [OF at that] by (simp add: tables_ok_def nid_def)
      then show "x = y" using xy by (metis option.inject)
    qed
    moreover have "om_open (sy_om sy) = length ws" "distinct ws" using at by (auto simp: om_at_def slots_ok_def)
    ultimately show ?thesis by (simp add: card_image distinct_card)
  qed
  ultimately show ?thesis using run by blast
qed

theorem oms_orders_well_formed_witness:
  "\<exists>om sy. OrderManager_new \<lparr>oc_max_orders = 4, oc_first_token = 1\<rparr> = Some om \<and>
     om_run sample_env sample_oms_calls (om_start om sample_limits 8 ()) = Some sy \<and>
     om_open (sy_om sy) = card {oid. \<exists>i. om_find sy oid = Some i \<and> \<not> is_terminal (in_status i)}"
proof -
  obtain om where om: "OrderManager_new \<lparr>oc_max_orders = 4, oc_first_token = 1\<rparr> = Some om" using sample_manager ..
  show ?thesis using oms_orders_well_formed [OF om sample_env_ok(1,3), of sample_limits 8 "()"] om by blast
qed

text \<open>
  Claim C21: a finished order is final and ids are never reissued. Once an order is finished, no
  later call or report changes what the manager tells about it, except that its slot may be reused
  and the id then resolves to nothing; an id that resolves to nothing never resolves again.
\<close>

theorem oms_finished_orders_final:
  assumes "OrderManager_new cfg = Some om" "api_listener ev" "\<forall>c \<in> set (cs @ cs'). om_call_int64 c"
  shows "\<exists>sy sy'. om_run ev cs (om_start om lim locates w) = Some sy \<and> om_run ev cs' sy = Some sy' \<and>
    (\<forall>oid i. om_find sy oid = Some i \<and> is_terminal (in_status i) \<longrightarrow> om_find sy' oid = Some i \<or> om_find sy' oid = None) \<and>
    (\<forall>oid < om_next_id (sy_om sy). om_find sy oid = None \<longrightarrow> om_find sy' oid = None)"
proof -
  obtain sy where run: "om_run ev cs (om_start om lim locates w) = Some sy" and inv: "om_inv sy"
    using om_run_inv [OF assms(2) om_start_inv [OF assms(1), of lim locates w], of cs] assms(3) by auto
  obtain sy' where run': "om_run ev cs' sy = Some sy'" using om_run_inv [OF assms(2) inv, of cs'] assms(3) by auto
  obtain ws fs where at: "om_at {} ws fs sy" using inv by (auto simp: om_inv_def)
  have k: "kept sy sy'" using om_run_kept [OF assms(2) inv _ run'] assms(3) by simp
  have "oid < om_next_id (sy_om sy)" if "om_find sy oid = Some i" for oid i
    using that at om_find_slot [OF at] by (auto simp: om_at_def tables_ok_def)
  then have "om_find sy' oid = Some i \<or> om_find sy' oid = None" if "om_find sy oid = Some i \<and> is_terminal (in_status i)" for oid i
    using k that by (cases "om_find sy' oid") (fastforce simp: kept_def)+
  moreover have "om_find sy' oid = None" if "oid < om_next_id (sy_om sy)" "om_find sy oid = None" for oid
    using k that by (cases "om_find sy' oid") (fastforce simp: kept_def)+
  ultimately show ?thesis using run run' by blast
qed

theorem oms_finished_orders_final_witness:
  "\<exists>om sy sy'. OrderManager_new \<lparr>oc_max_orders = 4, oc_first_token = 1\<rparr> = Some om \<and>
     om_run sample_env sample_oms_calls (om_start om sample_limits 8 ()) = Some sy \<and> om_run sample_env sample_oms_calls sy = Some sy' \<and>
     (\<forall>oid < om_next_id (sy_om sy). om_find sy oid = None \<longrightarrow> om_find sy' oid = None)"
proof -
  obtain om where om: "OrderManager_new \<lparr>oc_max_orders = 4, oc_first_token = 1\<rparr> = Some om" using sample_manager ..
  have "\<forall>c \<in> set (sample_oms_calls @ sample_oms_calls). om_call_int64 c" using sample_env_ok(3) by simp
  then show ?thesis using oms_finished_orders_final [OF om sample_env_ok(1), of _ _ sample_limits 8 "()"] om by blast
qed

text \<open>
  \<^verbatim>\<open>submit\<close> refuses for lack of capacity only when every slot of the table holds a working
  order or the token space is used up; finished orders never block new ones.
\<close>

lemma submit_capacity_only_when_full:
  assumes "OrderManager_new cfg = Some om" "api_listener ev" "\<forall>c \<in> set cs. om_call_int64 c"
  shows "\<exists>sy. om_run ev cs (om_start om lim locates w) = Some sy \<and>
    (sr_status (snd (submit ev req now sy)) = SS_capacity \<longrightarrow>
       om_open (sy_om sy) = length (om_orders (sy_om sy)) \<or> Token_kMaxId < om_next_token (sy_om sy))"
proof -
  obtain sy ws fs where run: "om_run ev cs (om_start om lim locates w) = Some sy" and at: "om_at {} ws fs sy"
    by (rule om_run_at [OF assms])
  have "om_open (sy_om sy) = length ws" "length ws \<le> length (om_orders (sy_om sy))"
    using at om_at_slots(3) [OF at] distinct_card [of ws] card_mono [of "{..< om_fresh (sy_om sy)}" "set ws"]
    by (auto simp: om_at_def slots_ok_def intro: order_trans)
  moreover have "sr_status (snd (submit ev req now sy)) \<noteq> SS_capacity"
    if len: "length ws < length (om_orders (sy_om sy))" and tk: "om_next_token (sy_om sy) \<le> Token_kMaxId"
  proof -
    have av: "slot_available (sy_om sy)" "token_available (sy_om sy)"
      using slot_room [OF at len] token_table_room [OF at len] tk by (simp_all add: token_available_def)
    obtain T where "fhm_insert Hash_u64 (om_tokens (sy_om sy)) (om_next_token (sy_om sy)) (next_slot (sy_om sy)) = (T, (Some (next_slot (sy_om sy)), True))"
      using token_insert [OF at av(2)] by metis
    then show ?thesis using av by (simp add: submit_def Let_def fail_def split: prod.splits)
  qed
  ultimately show ?thesis using run by (metis le_neq_implies_less not_le)
qed

text \<open>
  Claim C22: \<^verbatim>\<open>cancel_all\<close> always returns, also when the callbacks submit, replace and cancel orders while
  it walks the list, and if the gateway takes every cancel it reaches every order: each order that
  was working at the call then has a cancel in flight.
\<close>

theorem cancel_all_reaches_every_order:
  assumes "OrderManager_new cfg = Some om" "api_listener ev" "\<forall>c \<in> set cs. om_call_int64 c"
  shows "\<exists>sy sy' n. om_run ev cs (om_start om lim locates w) = Some sy \<and> cancel_all ev now sy = Some (sy', n) \<and>
    (gateway_takes_cancels ev \<longrightarrow> (\<forall>oid i. om_find sy oid = Some i \<and> \<not> is_terminal (in_status i) \<longrightarrow>
       (\<exists>i'. om_find sy' oid = Some i' \<and> in_status i' = OS_pending_cancel)))"
proof -
  obtain sy ws fs where run: "om_run ev cs (om_start om lim locates w) = Some sy" and at: "om_at {} ws fs sy"
    by (rule om_run_at [OF assms])
  obtain sy' n where c: "cancel_all ev now sy = Some (sy', n)" using cancel_all_returns [OF assms(2) at, of now] by blast
  show ?thesis using run c cancel_all_pending [OF assms(2) at c] by blast
qed

theorem cancel_all_reaches_every_order_witness:
  "\<exists>om sy sy' n. OrderManager_new \<lparr>oc_max_orders = 4, oc_first_token = 1\<rparr> = Some om \<and>
     om_run sample_env sample_oms_calls (om_start om sample_limits 8 ()) = Some sy \<and> cancel_all sample_env 11 sy = Some (sy', n) \<and>
     (\<forall>oid i. om_find sy oid = Some i \<and> \<not> is_terminal (in_status i) \<longrightarrow> (\<exists>i'. om_find sy' oid = Some i' \<and> in_status i' = OS_pending_cancel))"
proof -
  obtain om where om: "OrderManager_new \<lparr>oc_max_orders = 4, oc_first_token = 1\<rparr> = Some om" using sample_manager ..
  show ?thesis using cancel_all_reaches_every_order [OF om sample_env_ok(1,3), of sample_limits 8 "()" 11] om sample_env_ok(2) by blast
qed

end
