(* ===== verification/Framing.thy ===== *)
theory Framing
  imports Endian
begin

text \<open>
  Length-prefixed streams. The ITCH decoder (\<^verbatim>\<open>itch::decode_stream\<close>) and the OUCH decoder
  (\<^verbatim>\<open>ouch::detail::deframe\<close>) both walk a buffer of \<^verbatim>\<open>[u16 big-endian length][message]\<close> frames and
  report a \<^verbatim>\<open>StreamResult\<close>. The locale \<open>framed_stream\<close> states what such a loop is given (a decoder
  that returns on every span) and what it does in one turn; inside it the loop is shown to be one
  left-to-right delivery of the frames that a byte-level reference splitter finds, which gives the
  resumption law the headers promise: cutting the input at any byte changes nothing.
\<close>

record StreamResult =
  sr_consumed :: nat
  sr_messages :: nat
  sr_skipped :: nat
  sr_last_error :: DecodeStatus

definition StreamResult_new :: StreamResult where
  "StreamResult_new = \<lparr>sr_consumed = 0, sr_messages = 0, sr_skipped = 0, sr_last_error = DS_ok\<rparr>"

text \<open>What one complete frame of \<open>n\<close> bytes adds to the counters.\<close>

definition tally :: "DecodeStatus \<Rightarrow> nat \<Rightarrow> StreamResult \<Rightarrow> StreamResult" where
  "tally st n r =
     (let r = (if st = DS_ok then r\<lparr>sr_messages := sr_messages r + 1\<rparr>
               else r\<lparr>sr_skipped := sr_skipped r + 1, sr_last_error := st\<rparr>)
      in r\<lparr>sr_consumed := sr_consumed r + n\<rparr>)"

text \<open>The result of two calls, the second on what the first left.\<close>

definition merge_results :: "StreamResult \<Rightarrow> StreamResult \<Rightarrow> StreamResult" where
  "merge_results r s = \<lparr>sr_consumed = sr_consumed r + sr_consumed s, sr_messages = sr_messages r + sr_messages s,
     sr_skipped = sr_skipped r + sr_skipped s,
     sr_last_error = (if sr_skipped s = 0 then sr_last_error r else sr_last_error s)\<rparr>"

section \<open>The reference splitter\<close>

fun split_frames :: "u8 list \<Rightarrow> u8 list list" where
  "split_frames (a # b # bs) =
     (let n = unat ((push_bit 8 (ucast a) OR ucast b) :: u16)
      in if length bs < n then [] else take n bs # split_frames (drop n bs))"
| "split_frames bs = []"

declare split_frames.simps [simp del]

definition frame :: "u8 list \<Rightarrow> u8 list" where
  "frame m = be_bytes16 (of_nat (length m)) @ m"

definition frames_size :: "u8 list list \<Rightarrow> nat" where
  "frames_size ms = (\<Sum>m\<leftarrow>ms. 2 + length m)"

lemma frames_size_simps [simp]:
  "frames_size [] = 0" "frames_size (m # ms) = 2 + length m + frames_size ms"
  "frames_size (ms @ ns) = frames_size ms + frames_size ns"
  by (simp_all add: frames_size_def)

lemma split_frames_short [simp]: "length bs < 2 \<Longrightarrow> split_frames bs = []"
  by (cases bs rule: split_frames.cases) (auto simp: split_frames.simps)

lemma split_frames_load:
  assumes "2 \<le> length bs" "be_load16 bs 0 = Some w"
  shows "split_frames bs = (if length bs - 2 < unat w then []
     else take (unat w) (drop 2 bs) # split_frames (drop (2 + unat w) bs))"
  using assms by (cases bs rule: split_frames.cases)
    (auto simp: split_frames.simps be_load16_def rd8_def Let_def)

lemma split_frames_fits: "frames_size (split_frames bs) \<le> length bs"
proof (induction bs rule: split_frames.induct)
  case (1 a b bs)
  then show ?case by (auto simp: split_frames.simps Let_def not_less)
qed simp_all

lemma split_frames_append:
  "split_frames (a @ b) = split_frames a @ split_frames (drop (frames_size (split_frames a)) a @ b)"
proof (induction a rule: split_frames.induct)
  case (1 x y bs)
  then show ?case by (simp add: split_frames.simps(1) Let_def not_less add.commute)
qed (simp_all add: split_frames.simps)

lemma split_frames_rest: "split_frames (drop (frames_size (split_frames bs)) bs) = []"
  using split_frames_append [of bs "[]"] by simp

lemma split_frames_frame:
  assumes "length m < 65536"
  shows "split_frames (frame m @ bs) = m # split_frames bs"
proof -
  have "rd_bytes (frame m @ bs) 0 2 = Some (be_bytes16 (of_nat (length m)))"
    by (simp add: frame_def rd_bytes_def)
  then have "be_load16 (frame m @ bs) 0 = Some (of_nat (length m))" by (rule be_load16_block)
  moreover have "unat (of_nat (length m) :: u16) = length m" using assms by (simp add: unat_of_nat)
  moreover have "drop 2 (frame m @ bs) = m @ bs" "drop (2 + length m) (frame m @ bs) = bs"
    by (simp_all add: frame_def)
  moreover have "length (frame m @ bs) = 2 + length m + length bs" by (simp add: frame_def)
  ultimately show ?thesis using split_frames_load [of "frame m @ bs" "of_nat (length m)"] by simp
qed

lemma split_frames_concat:
  "\<forall>m \<in> set ms. length m < 65536 \<Longrightarrow> split_frames (concat (map frame ms)) = ms"
  by (induction ms) (simp_all add: split_frames_frame)

lemma be_load16_drop: "be_load16 (drop i p) 0 = be_load16 p i"
  by (simp add: be_load16_def rd8_def less_diff_conv add.commute)

section \<open>The loop over frames\<close>

locale framed_stream =
  fixes decode_one :: "u8 list \<Rightarrow> 'h \<Rightarrow> (DecodeStatus \<times> 'h) option"
    and stream :: "u8 list \<Rightarrow> StreamResult \<Rightarrow> 'h \<Rightarrow> (StreamResult \<times> 'h) option"
  assumes decode_one_returns: "\<exists>st h'. decode_one m h = Some (st, h')"
    and stream_turn: "stream buf r h =
      (if 2 \<le> length buf - sr_consumed r then do {
         w \<leftarrow> be_load16 buf (sr_consumed r);
         if length buf - sr_consumed r - 2 < unat w then Some (r, h)
         else do {
           (st, h') \<leftarrow> decode_one (take (unat w) (drop (sr_consumed r + 2) buf)) h;
           stream buf (tally st (2 + unat w) r) h' } }
       else Some (r, h))"
begin

primrec deliver :: "u8 list list \<Rightarrow> StreamResult \<Rightarrow> 'h \<Rightarrow> (StreamResult \<times> 'h) option" where
  "deliver [] r h = Some (r, h)"
| "deliver (m # ms) r h = do {
     (st, h') \<leftarrow> decode_one m h;
     deliver ms (tally st (2 + length m) r) h' }"

lemma deliver_returns:
  "\<exists>r' h'. deliver ms r h = Some (r', h') \<and> sr_consumed r' = sr_consumed r + frames_size ms"
proof (induction ms arbitrary: r h)
  case (Cons m ms)
  obtain st h1 where "decode_one m h = Some (st, h1)" using decode_one_returns by blast
  moreover have "sr_consumed (tally st (2 + length m) r) = sr_consumed r + (2 + length m)"
    by (simp add: tally_def Let_def)
  ultimately show ?case using Cons [of "tally st (2 + length m) r" h1] by auto
qed simp

lemma deliver_append:
  "deliver (ms @ ns) r h = do { (r', h') \<leftarrow> deliver ms r h; deliver ns r' h' }"
  by (induction ms arbitrary: r h) (auto simp: split_def)

lemma merge_tally: "merge_results r (tally st n s) = tally st n (merge_results r s)"
  by (simp add: merge_results_def tally_def Let_def)

lemma deliver_merge:
  "deliver ms (merge_results r s) h = map_option (\<lambda>(s', h'). (merge_results r s', h')) (deliver ms s h)"
  by (induction ms arbitrary: s h)
    (auto simp: merge_tally [symmetric] decode_one_returns split: prod.splits option.splits bind_splits)

lemma merge_new: "merge_results r StreamResult_new = r"
  by (simp add: merge_results_def StreamResult_new_def)

lemma deliver_from: "deliver ms r h = map_option (\<lambda>(s, h'). (merge_results r s, h')) (deliver ms StreamResult_new h)"
  using deliver_merge [of ms r StreamResult_new h] by (simp add: merge_new)

lemma stream_deliver:
  "sr_consumed r \<le> length buf \<Longrightarrow> stream buf r h = deliver (split_frames (drop (sr_consumed r) buf)) r h"
proof (induction "length buf - sr_consumed r" arbitrary: r h rule: less_induct)
  case less
  let ?bs = "drop (sr_consumed r) buf"
  show ?case
  proof (cases "2 \<le> length ?bs")
    case False
    then show ?thesis by (simp add: stream_turn)
  next
    case True
    then obtain w where w: "be_load16 ?bs 0 = Some w" using be_load16_Some [of 0 ?bs] by auto
    show ?thesis
    proof (cases "length ?bs - 2 < unat w")
      case True
      with \<open>2 \<le> length ?bs\<close> w show ?thesis
        using split_frames_load [OF \<open>2 \<le> length ?bs\<close> w] by (subst stream_turn) (simp add: be_load16_drop)
    next
      case False
      let ?m = "take (unat w) (drop 2 ?bs)"
      obtain st h1 where d: "decode_one ?m h = Some (st, h1)" using decode_one_returns by blast
      let ?r = "tally st (2 + unat w) r"
      have c: "sr_consumed ?r = sr_consumed r + (2 + unat w)" by (simp add: tally_def Let_def)
      have len: "length ?m = unat w" using False True by simp
      have "stream buf r h = stream buf ?r h1"
        using True False w d by (subst stream_turn) (simp add: be_load16_drop add.commute)
      also have "\<dots> = deliver (split_frames (drop (sr_consumed ?r) buf)) ?r h1"
        by (rule less.hyps) (use c True False in simp_all)
      also have "\<dots> = deliver (split_frames ?bs) r h"
        using split_frames_load [OF True w] False d len c by (simp add: add.commute)
      finally show ?thesis .
    qed
  qed
qed

lemma stream_new: "stream buf StreamResult_new h = deliver (split_frames buf) StreamResult_new h"
  using stream_deliver [of StreamResult_new buf h] by (simp add: StreamResult_new_def)

theorem stream_returns:
  "\<exists>r h'. stream buf StreamResult_new h = Some (r, h') \<and> sr_consumed r = frames_size (split_frames buf)
     \<and> sr_consumed r \<le> length buf \<and> split_frames (drop (sr_consumed r) buf) = []"
  using deliver_returns [of "split_frames buf" StreamResult_new h] split_frames_fits [of buf]
    split_frames_rest [of buf] by (fastforce simp: stream_new StreamResult_new_def [THEN arg_cong [of _ _ sr_consumed]])

theorem stream_resumes:
  "stream (a @ b) StreamResult_new h = do {
     (r1, h1) \<leftarrow> stream a StreamResult_new h;
     (r2, h2) \<leftarrow> stream (drop (sr_consumed r1) a @ b) StreamResult_new h1;
     Some (merge_results r1 r2, h2) }"
proof -
  obtain r1 h1 where d: "deliver (split_frames a) StreamResult_new h = Some (r1, h1)"
      and c: "sr_consumed r1 = frames_size (split_frames a)"
    using deliver_returns [of "split_frames a" StreamResult_new h] by (auto simp: StreamResult_new_def)
  show ?thesis
    using d by (simp add: stream_new split_frames_append [of a b] deliver_append c
        deliver_from [of _ r1] bind_map_option map_conv_bind_option split_def comp_def)
qed

theorem stream_of_frames:
  "\<forall>m \<in> set ms. length m < 65536 \<Longrightarrow> stream (concat (map frame ms)) StreamResult_new h = deliver ms StreamResult_new h"
  by (simp add: stream_new split_frames_concat)

end

end
