(* ===== verification/Itch_Codec.thy ===== *)
theory Itch_Codec
  imports Itch_Messages Framing
begin

text \<open>
  The ITCH decoder and encoder, \<^verbatim>\<open>src/include/optitrade/itch/decoder.hpp\<close> and \<^verbatim>\<open>encoder.hpp\<close>. A span
  is a byte list; every access to it goes through \<open>rd8\<close> / \<open>wr8\<close>, so \<^term>\<open>None\<close> is an access outside
  the span. The handler is a state \<open>h\<close> and a function \<open>on\<close> for its overload set: \<open>on m h\<close> is
  \<^verbatim>\<open>handler.on(m)\<close>. An encoder maps the output span to the number of bytes written and the new span.
\<close>

section \<open>decoder.hpp\<close>

definition byte_char :: "u8 list \<Rightarrow> nat \<Rightarrow> u8 option" where
  "byte_char p i = rd8 p i"

definition read_header :: "u8 list \<Rightarrow> Header option" where
  "read_header p = do {
     locate \<leftarrow> be_load16 p 1;
     tracking \<leftarrow> be_load16 p 3;
     timestamp \<leftarrow> be_load48 p 5;
     Some \<lparr>h_locate = locate, h_tracking = tracking, h_timestamp = timestamp\<rparr> }"

definition read_symbol :: "u8 list \<Rightarrow> nat \<Rightarrow> Symbol option" where
  "read_symbol p i = rd_bytes p i kSymbolSize"

definition read_price :: "u8 list \<Rightarrow> nat \<Rightarrow> Price option" where
  "read_price p i = map_option uint (be_load32 p i)"

text \<open>\<^term>\<open>Some None\<close> is the result \<^verbatim>\<open>false\<close>.\<close>

definition read_side :: "u8 list \<Rightarrow> nat \<Rightarrow> Side option option" where
  "read_side p i = do {
     c \<leftarrow> byte_char p i;
     Some (if c = asc CHR ''B'' then Some Side_buy
           else if c = asc CHR ''S'' then Some Side_sell
           else None) }"

definition decode_system_event :: "(itch_message \<Rightarrow> 'h \<Rightarrow> 'h) \<Rightarrow> u8 list \<Rightarrow> 'h \<Rightarrow> (DecodeStatus \<times> 'h) option" where
  "decode_system_event on p h = do {
     hd \<leftarrow> read_header p;
     event_code \<leftarrow> byte_char p 11;
     Some (DS_ok, on (IM_SystemEvent \<lparr>se_h = hd, se_event_code = event_code\<rparr>) h) }"

definition decode_stock_directory :: "(itch_message \<Rightarrow> 'h \<Rightarrow> 'h) \<Rightarrow> u8 list \<Rightarrow> 'h \<Rightarrow> (DecodeStatus \<times> 'h) option" where
  "decode_stock_directory on p h = do {
     hd \<leftarrow> read_header p;
     symbol \<leftarrow> read_symbol p 11;
     market_category \<leftarrow> byte_char p 19;
     financial_status \<leftarrow> byte_char p 20;
     round_lot_size \<leftarrow> be_load32 p 21;
     round_lots_only \<leftarrow> byte_char p 25;
     issue_classification \<leftarrow> byte_char p 26;
     subtype0 \<leftarrow> byte_char p 27;
     subtype1 \<leftarrow> byte_char p 28;
     authenticity \<leftarrow> byte_char p 29;
     short_sale_threshold \<leftarrow> byte_char p 30;
     ipo_flag \<leftarrow> byte_char p 31;
     luld_tier \<leftarrow> byte_char p 32;
     etp_flag \<leftarrow> byte_char p 33;
     etp_leverage \<leftarrow> be_load32 p 34;
     inverse \<leftarrow> byte_char p 38;
     Some (DS_ok, on (IM_StockDirectory \<lparr>sd_h = hd, sd_symbol = symbol, sd_market_category = market_category,
       sd_financial_status = financial_status, sd_round_lot_size = round_lot_size,
       sd_round_lots_only = round_lots_only, sd_issue_classification = issue_classification,
       sd_issue_subtype = [subtype0, subtype1], sd_authenticity = authenticity,
       sd_short_sale_threshold = short_sale_threshold, sd_ipo_flag = ipo_flag, sd_luld_tier = luld_tier,
       sd_etp_flag = etp_flag, sd_etp_leverage = etp_leverage, sd_inverse = inverse\<rparr>) h) }"

definition decode_add_order :: "(itch_message \<Rightarrow> 'h \<Rightarrow> 'h) \<Rightarrow> u8 list \<Rightarrow> bool \<Rightarrow> 'h \<Rightarrow> (DecodeStatus \<times> 'h) option" where
  "decode_add_order on p attributed h = do {
     hd \<leftarrow> read_header p;
     ref \<leftarrow> be_load64 p 11;
     side \<leftarrow> read_side p 19;
     case side of None \<Rightarrow> Some (DS_bad_field, h) | Some side \<Rightarrow> do {
       shares \<leftarrow> be_load32 p 20;
       if shares = 0 then Some (DS_bad_field, h) else do {
         symbol \<leftarrow> read_symbol p 24;
         price \<leftarrow> read_price p 32;
         mpid \<leftarrow> (if attributed then rd_bytes p 36 4 else Some (replicate 4 0));
         Some (DS_ok, on (IM_AddOrder \<lparr>ao_h = hd, ao_ref = ref, ao_side = side, ao_shares = shares,
           ao_symbol = symbol, ao_price = price, ao_has_attribution = attributed, ao_mpid = mpid\<rparr>) h) } } }"

definition decode_order_executed :: "(itch_message \<Rightarrow> 'h \<Rightarrow> 'h) \<Rightarrow> u8 list \<Rightarrow> 'h \<Rightarrow> (DecodeStatus \<times> 'h) option" where
  "decode_order_executed on p h = do {
     hd \<leftarrow> read_header p;
     ref \<leftarrow> be_load64 p 11;
     shares \<leftarrow> be_load32 p 19;
     mtch \<leftarrow> be_load64 p 23;
     Some (DS_ok, on (IM_OrderExecuted \<lparr>oe_h = hd, oe_ref = ref, oe_shares = shares, oe_match = mtch\<rparr>) h) }"

definition decode_order_executed_price :: "(itch_message \<Rightarrow> 'h \<Rightarrow> 'h) \<Rightarrow> u8 list \<Rightarrow> 'h \<Rightarrow> (DecodeStatus \<times> 'h) option" where
  "decode_order_executed_price on p h = do {
     hd \<leftarrow> read_header p;
     ref \<leftarrow> be_load64 p 11;
     shares \<leftarrow> be_load32 p 19;
     mtch \<leftarrow> be_load64 p 23;
     printable \<leftarrow> byte_char p 31;
     price \<leftarrow> read_price p 32;
     Some (DS_ok, on (IM_OrderExecutedPrice \<lparr>oep_h = hd, oep_ref = ref, oep_shares = shares, oep_match = mtch,
       oep_printable = (printable = asc CHR ''Y''), oep_price = price\<rparr>) h) }"

definition decode_order_cancel :: "(itch_message \<Rightarrow> 'h \<Rightarrow> 'h) \<Rightarrow> u8 list \<Rightarrow> 'h \<Rightarrow> (DecodeStatus \<times> 'h) option" where
  "decode_order_cancel on p h = do {
     hd \<leftarrow> read_header p;
     ref \<leftarrow> be_load64 p 11;
     shares \<leftarrow> be_load32 p 19;
     Some (DS_ok, on (IM_OrderCancel \<lparr>oc_h = hd, oc_ref = ref, oc_shares = shares\<rparr>) h) }"

definition decode_order_delete :: "(itch_message \<Rightarrow> 'h \<Rightarrow> 'h) \<Rightarrow> u8 list \<Rightarrow> 'h \<Rightarrow> (DecodeStatus \<times> 'h) option" where
  "decode_order_delete on p h = do {
     hd \<leftarrow> read_header p;
     ref \<leftarrow> be_load64 p 11;
     Some (DS_ok, on (IM_OrderDelete \<lparr>od_h = hd, od_ref = ref\<rparr>) h) }"

definition decode_order_replace :: "(itch_message \<Rightarrow> 'h \<Rightarrow> 'h) \<Rightarrow> u8 list \<Rightarrow> 'h \<Rightarrow> (DecodeStatus \<times> 'h) option" where
  "decode_order_replace on p h = do {
     hd \<leftarrow> read_header p;
     old_ref \<leftarrow> be_load64 p 11;
     new_ref \<leftarrow> be_load64 p 19;
     shares \<leftarrow> be_load32 p 27;
     price \<leftarrow> read_price p 31;
     Some (DS_ok, on (IM_OrderReplace \<lparr>orp_h = hd, orp_old_ref = old_ref, orp_new_ref = new_ref,
       orp_shares = shares, orp_price = price\<rparr>) h) }"

definition decode_trade :: "(itch_message \<Rightarrow> 'h \<Rightarrow> 'h) \<Rightarrow> u8 list \<Rightarrow> 'h \<Rightarrow> (DecodeStatus \<times> 'h) option" where
  "decode_trade on p h = do {
     hd \<leftarrow> read_header p;
     ref \<leftarrow> be_load64 p 11;
     side \<leftarrow> read_side p 19;
     case side of None \<Rightarrow> Some (DS_bad_field, h) | Some side \<Rightarrow> do {
       shares \<leftarrow> be_load32 p 20;
       symbol \<leftarrow> read_symbol p 24;
       price \<leftarrow> read_price p 32;
       mtch \<leftarrow> be_load64 p 36;
       Some (DS_ok, on (IM_Trade \<lparr>tr_h = hd, tr_ref = ref, tr_side = side, tr_shares = shares,
         tr_symbol = symbol, tr_price = price, tr_match = mtch\<rparr>) h) } }"

definition decode :: "(itch_message \<Rightarrow> 'h \<Rightarrow> 'h) \<Rightarrow> u8 list \<Rightarrow> 'h \<Rightarrow> (DecodeStatus \<times> 'h) option" where
  "decode on msg h =
     (if msg = [] then Some (DS_truncated, h)
      else do {
        ty \<leftarrow> byte_char msg 0;
        let len = message_length ty;
        if len = 0 then Some (DS_unknown_type, h)
        else if length msg < len then Some (DS_truncated, h)
        else if length msg > len then Some (DS_bad_length, h)
        else if ty = asc CHR ''S'' then decode_system_event on msg h
        else if ty = asc CHR ''R'' then decode_stock_directory on msg h
        else if ty = asc CHR ''A'' then decode_add_order on msg False h
        else if ty = asc CHR ''F'' then decode_add_order on msg True h
        else if ty = asc CHR ''E'' then decode_order_executed on msg h
        else if ty = asc CHR ''C'' then decode_order_executed_price on msg h
        else if ty = asc CHR ''X'' then decode_order_cancel on msg h
        else if ty = asc CHR ''D'' then decode_order_delete on msg h
        else if ty = asc CHR ''U'' then decode_order_replace on msg h
        else if ty = asc CHR ''P'' then decode_trade on msg h
        else Some (DS_unknown_type, h) })"

text \<open>The loop of \<^verbatim>\<open>decode_stream\<close>, from the counters \<open>r\<close> on.\<close>

function decode_stream_from ::
  "(itch_message \<Rightarrow> 'h \<Rightarrow> 'h) \<Rightarrow> u8 list \<Rightarrow> StreamResult \<Rightarrow> 'h \<Rightarrow> (StreamResult \<times> 'h) option" where
  "decode_stream_from on buf r h =
     (if length buf - sr_consumed r \<ge> kFrameHeaderSize then do {
        len \<leftarrow> map_option unat (be_load16 buf (sr_consumed r));
        let available = length buf - sr_consumed r - kFrameHeaderSize;
        if available < len then Some (r, h)
        else do {
          (st, h) \<leftarrow> decode on (take len (drop (sr_consumed r + kFrameHeaderSize) buf)) h;
          let r = (if st = DS_ok then r\<lparr>sr_messages := sr_messages r + 1\<rparr>
                   else r\<lparr>sr_skipped := sr_skipped r + 1, sr_last_error := st\<rparr>);
          decode_stream_from on buf (r\<lparr>sr_consumed := sr_consumed r + (kFrameHeaderSize + len)\<rparr>) h } }
      else Some (r, h))"
  by pat_completeness auto
termination
  by (relation "measure (\<lambda>(on, buf, r, h). length buf - sr_consumed r)") (auto simp: kFrameHeaderSize_def)

declare decode_stream_from.simps [simp del]

definition decode_stream ::
  "(itch_message \<Rightarrow> 'h \<Rightarrow> 'h) \<Rightarrow> u8 list \<Rightarrow> 'h \<Rightarrow> (StreamResult \<times> 'h) option" where
  "decode_stream on buf h = decode_stream_from on buf StreamResult_new h"

section \<open>encoder.hpp\<close>

definition fits_wire_price :: "Price \<Rightarrow> bool" where
  "fits_wire_price px = (px \<ge> 0 \<and> px \<le> 0xFFFFFFFF)"

definition put_char :: "u8 list \<Rightarrow> nat \<Rightarrow> u8 \<Rightarrow> u8 list option" where
  "put_char p i c = wr8 p i c"

definition put_header :: "u8 list \<Rightarrow> u8 \<Rightarrow> Header \<Rightarrow> u8 list option" where
  "put_header p ty h = do {
     p \<leftarrow> put_char p 0 ty;
     p \<leftarrow> be_store16 p 1 (h_locate h);
     p \<leftarrow> be_store16 p 3 (h_tracking h);
     be_store48 p 5 (h_timestamp h) }"

definition put_symbol :: "u8 list \<Rightarrow> nat \<Rightarrow> Symbol \<Rightarrow> u8 list option" where
  "put_symbol p i s = wr_bytes p i s"

definition put_price :: "u8 list \<Rightarrow> nat \<Rightarrow> Price \<Rightarrow> u8 list option" where
  "put_price p i px = be_store32 p i (word_of_int px)"

definition side_char :: "Side \<Rightarrow> u8" where
  "side_char s = (if s = Side_sell then asc CHR ''S'' else asc CHR ''B'')"

definition encode_SystemEvent :: "SystemEvent \<Rightarrow> u8 list \<Rightarrow> (nat \<times> u8 list) option" where
  "encode_SystemEvent m out =
     (if length out < kSystemEventLength then Some (0, out)
      else do {
        p \<leftarrow> put_header out (asc CHR ''S'') (se_h m);
        p \<leftarrow> put_char p 11 (se_event_code m);
        Some (kSystemEventLength, p) })"

definition encode_StockDirectory :: "StockDirectory \<Rightarrow> u8 list \<Rightarrow> (nat \<times> u8 list) option" where
  "encode_StockDirectory m out =
     (if length out < kStockDirectoryLength then Some (0, out)
      else do {
        p \<leftarrow> put_header out (asc CHR ''R'') (sd_h m);
        p \<leftarrow> put_symbol p 11 (sd_symbol m);
        p \<leftarrow> put_char p 19 (sd_market_category m);
        p \<leftarrow> put_char p 20 (sd_financial_status m);
        p \<leftarrow> be_store32 p 21 (sd_round_lot_size m);
        p \<leftarrow> put_char p 25 (sd_round_lots_only m);
        p \<leftarrow> put_char p 26 (sd_issue_classification m);
        p \<leftarrow> put_char p 27 (sd_issue_subtype m ! 0);
        p \<leftarrow> put_char p 28 (sd_issue_subtype m ! 1);
        p \<leftarrow> put_char p 29 (sd_authenticity m);
        p \<leftarrow> put_char p 30 (sd_short_sale_threshold m);
        p \<leftarrow> put_char p 31 (sd_ipo_flag m);
        p \<leftarrow> put_char p 32 (sd_luld_tier m);
        p \<leftarrow> put_char p 33 (sd_etp_flag m);
        p \<leftarrow> be_store32 p 34 (sd_etp_leverage m);
        p \<leftarrow> put_char p 38 (sd_inverse m);
        Some (kStockDirectoryLength, p) })"

definition encode_AddOrder :: "AddOrder \<Rightarrow> u8 list \<Rightarrow> (nat \<times> u8 list) option" where
  "encode_AddOrder m out =
     (let len = (if ao_has_attribution m then kAddOrderMpidLength else kAddOrderLength) in
      if length out < len \<or> \<not> fits_wire_price (ao_price m) then Some (0, out)
      else do {
        p \<leftarrow> put_header out (if ao_has_attribution m then asc CHR ''F'' else asc CHR ''A'') (ao_h m);
        p \<leftarrow> be_store64 p 11 (ao_ref m);
        p \<leftarrow> put_char p 19 (side_char (ao_side m));
        p \<leftarrow> be_store32 p 20 (ao_shares m);
        p \<leftarrow> put_symbol p 24 (ao_symbol m);
        p \<leftarrow> put_price p 32 (ao_price m);
        p \<leftarrow> (if ao_has_attribution m then wr_bytes p 36 (ao_mpid m) else Some p);
        Some (len, p) })"

definition encode_OrderExecuted :: "OrderExecuted \<Rightarrow> u8 list \<Rightarrow> (nat \<times> u8 list) option" where
  "encode_OrderExecuted m out =
     (if length out < kOrderExecutedLength then Some (0, out)
      else do {
        p \<leftarrow> put_header out (asc CHR ''E'') (oe_h m);
        p \<leftarrow> be_store64 p 11 (oe_ref m);
        p \<leftarrow> be_store32 p 19 (oe_shares m);
        p \<leftarrow> be_store64 p 23 (oe_match m);
        Some (kOrderExecutedLength, p) })"

definition encode_OrderExecutedPrice :: "OrderExecutedPrice \<Rightarrow> u8 list \<Rightarrow> (nat \<times> u8 list) option" where
  "encode_OrderExecutedPrice m out =
     (if length out < kOrderExecutedPriceLength \<or> \<not> fits_wire_price (oep_price m) then Some (0, out)
      else do {
        p \<leftarrow> put_header out (asc CHR ''C'') (oep_h m);
        p \<leftarrow> be_store64 p 11 (oep_ref m);
        p \<leftarrow> be_store32 p 19 (oep_shares m);
        p \<leftarrow> be_store64 p 23 (oep_match m);
        p \<leftarrow> put_char p 31 (if oep_printable m then asc CHR ''Y'' else asc CHR ''N'');
        p \<leftarrow> put_price p 32 (oep_price m);
        Some (kOrderExecutedPriceLength, p) })"

definition encode_OrderCancel :: "OrderCancel \<Rightarrow> u8 list \<Rightarrow> (nat \<times> u8 list) option" where
  "encode_OrderCancel m out =
     (if length out < kOrderCancelLength then Some (0, out)
      else do {
        p \<leftarrow> put_header out (asc CHR ''X'') (oc_h m);
        p \<leftarrow> be_store64 p 11 (oc_ref m);
        p \<leftarrow> be_store32 p 19 (oc_shares m);
        Some (kOrderCancelLength, p) })"

definition encode_OrderDelete :: "OrderDelete \<Rightarrow> u8 list \<Rightarrow> (nat \<times> u8 list) option" where
  "encode_OrderDelete m out =
     (if length out < kOrderDeleteLength then Some (0, out)
      else do {
        p \<leftarrow> put_header out (asc CHR ''D'') (od_h m);
        p \<leftarrow> be_store64 p 11 (od_ref m);
        Some (kOrderDeleteLength, p) })"

definition encode_OrderReplace :: "OrderReplace \<Rightarrow> u8 list \<Rightarrow> (nat \<times> u8 list) option" where
  "encode_OrderReplace m out =
     (if length out < kOrderReplaceLength \<or> \<not> fits_wire_price (orp_price m) then Some (0, out)
      else do {
        p \<leftarrow> put_header out (asc CHR ''U'') (orp_h m);
        p \<leftarrow> be_store64 p 11 (orp_old_ref m);
        p \<leftarrow> be_store64 p 19 (orp_new_ref m);
        p \<leftarrow> be_store32 p 27 (orp_shares m);
        p \<leftarrow> put_price p 31 (orp_price m);
        Some (kOrderReplaceLength, p) })"

definition encode_Trade :: "Trade \<Rightarrow> u8 list \<Rightarrow> (nat \<times> u8 list) option" where
  "encode_Trade m out =
     (if length out < kTradeLength \<or> \<not> fits_wire_price (tr_price m) then Some (0, out)
      else do {
        p \<leftarrow> put_header out (asc CHR ''P'') (tr_h m);
        p \<leftarrow> be_store64 p 11 (tr_ref m);
        p \<leftarrow> put_char p 19 (side_char (tr_side m));
        p \<leftarrow> be_store32 p 20 (tr_shares m);
        p \<leftarrow> put_symbol p 24 (tr_symbol m);
        p \<leftarrow> put_price p 32 (tr_price m);
        p \<leftarrow> be_store64 p 36 (tr_match m);
        Some (kTradeLength, p) })"

text \<open>The overload set \<^verbatim>\<open>encode(const M&, out)\<close>.\<close>

fun encode :: "itch_message \<Rightarrow> u8 list \<Rightarrow> (nat \<times> u8 list) option" where
  "encode (IM_SystemEvent m) out = encode_SystemEvent m out"
| "encode (IM_StockDirectory m) out = encode_StockDirectory m out"
| "encode (IM_AddOrder m) out = encode_AddOrder m out"
| "encode (IM_OrderExecuted m) out = encode_OrderExecuted m out"
| "encode (IM_OrderExecutedPrice m) out = encode_OrderExecutedPrice m out"
| "encode (IM_OrderCancel m) out = encode_OrderCancel m out"
| "encode (IM_OrderDelete m) out = encode_OrderDelete m out"
| "encode (IM_OrderReplace m) out = encode_OrderReplace m out"
| "encode (IM_Trade m) out = encode_Trade m out"

text \<open>\<^verbatim>\<open>out.subspan(2)\<close> aliases the bytes of \<open>out\<close> behind the prefix.\<close>

definition encode_framed :: "itch_message \<Rightarrow> u8 list \<Rightarrow> (nat \<times> u8 list) option" where
  "encode_framed m out =
     (if length out < kFrameHeaderSize then Some (0, out)
      else do {
        (len, sub) \<leftarrow> encode m (drop kFrameHeaderSize out);
        let out = take kFrameHeaderSize out @ sub;
        if len = 0 then Some (0, out)
        else do {
          out \<leftarrow> be_store16 out 0 (of_nat len);
          Some (kFrameHeaderSize + len, out) } })"

section \<open>The wire image of a message\<close>

text \<open>
  The bytes of a message field by field, the table of the ITCH 5.0 specification. The encoders write
  exactly these bytes and the decoder reads a message back from them.
\<close>

definition header_bytes :: "u8 \<Rightarrow> Header \<Rightarrow> u8 list" where
  "header_bytes ty h = [ty] @ be_bytes16 (h_locate h) @ be_bytes16 (h_tracking h) @ be_bytes48 (h_timestamp h)"

fun itch_bytes :: "itch_message \<Rightarrow> u8 list" where
  "itch_bytes (IM_SystemEvent m) = header_bytes (asc CHR ''S'') (se_h m) @ [se_event_code m]"
| "itch_bytes (IM_StockDirectory m) = header_bytes (asc CHR ''R'') (sd_h m) @ sd_symbol m @
     [sd_market_category m] @ [sd_financial_status m] @ be_bytes32 (sd_round_lot_size m) @ [sd_round_lots_only m] @
     [sd_issue_classification m] @ [sd_issue_subtype m ! 0] @ [sd_issue_subtype m ! 1] @ [sd_authenticity m] @
     [sd_short_sale_threshold m] @ [sd_ipo_flag m] @ [sd_luld_tier m] @ [sd_etp_flag m] @
     be_bytes32 (sd_etp_leverage m) @ [sd_inverse m]"
| "itch_bytes (IM_AddOrder m) = header_bytes (if ao_has_attribution m then asc CHR ''F'' else asc CHR ''A'') (ao_h m) @
     be_bytes64 (ao_ref m) @ [side_char (ao_side m)] @ be_bytes32 (ao_shares m) @ ao_symbol m @
     be_bytes32 (word_of_int (ao_price m)) @ (if ao_has_attribution m then ao_mpid m else [])"
| "itch_bytes (IM_OrderExecuted m) = header_bytes (asc CHR ''E'') (oe_h m) @ be_bytes64 (oe_ref m) @
     be_bytes32 (oe_shares m) @ be_bytes64 (oe_match m)"
| "itch_bytes (IM_OrderExecutedPrice m) = header_bytes (asc CHR ''C'') (oep_h m) @ be_bytes64 (oep_ref m) @
     be_bytes32 (oep_shares m) @ be_bytes64 (oep_match m) @
     [if oep_printable m then asc CHR ''Y'' else asc CHR ''N''] @ be_bytes32 (word_of_int (oep_price m))"
| "itch_bytes (IM_OrderCancel m) = header_bytes (asc CHR ''X'') (oc_h m) @ be_bytes64 (oc_ref m) @ be_bytes32 (oc_shares m)"
| "itch_bytes (IM_OrderDelete m) = header_bytes (asc CHR ''D'') (od_h m) @ be_bytes64 (od_ref m)"
| "itch_bytes (IM_OrderReplace m) = header_bytes (asc CHR ''U'') (orp_h m) @ be_bytes64 (orp_old_ref m) @
     be_bytes64 (orp_new_ref m) @ be_bytes32 (orp_shares m) @ be_bytes32 (word_of_int (orp_price m))"
| "itch_bytes (IM_Trade m) = header_bytes (asc CHR ''P'') (tr_h m) @ be_bytes64 (tr_ref m) @
     [side_char (tr_side m)] @ be_bytes32 (tr_shares m) @ tr_symbol m @ be_bytes32 (word_of_int (tr_price m)) @
     be_bytes64 (tr_match m)"

text \<open>The array sizes that the C++ types fix.\<close>

fun itch_sized :: "itch_message \<Rightarrow> bool" where
  "itch_sized (IM_StockDirectory m) = (length (sd_symbol m) = 8 \<and> length (sd_issue_subtype m) = 2)"
| "itch_sized (IM_AddOrder m) = (length (ao_symbol m) = 8 \<and> length (ao_mpid m) = 4)"
| "itch_sized (IM_Trade m) = (length (tr_symbol m) = 8)"
| "itch_sized m = True"

fun itch_price :: "itch_message \<Rightarrow> Price" where
  "itch_price (IM_AddOrder m) = ao_price m"
| "itch_price (IM_OrderExecutedPrice m) = oep_price m"
| "itch_price (IM_OrderReplace m) = orp_price m"
| "itch_price (IM_Trade m) = tr_price m"
| "itch_price m = 0"

fun itch_header :: "itch_message \<Rightarrow> Header" where
  "itch_header (IM_SystemEvent m) = se_h m"
| "itch_header (IM_StockDirectory m) = sd_h m"
| "itch_header (IM_AddOrder m) = ao_h m"
| "itch_header (IM_OrderExecuted m) = oe_h m"
| "itch_header (IM_OrderExecutedPrice m) = oep_h m"
| "itch_header (IM_OrderCancel m) = oc_h m"
| "itch_header (IM_OrderDelete m) = od_h m"
| "itch_header (IM_OrderReplace m) = orp_h m"
| "itch_header (IM_Trade m) = tr_h m"

text \<open>The protocol's rules for field values, which the decoder enforces.\<close>

fun itch_fields_ok :: "itch_message \<Rightarrow> bool" where
  "itch_fields_ok (IM_AddOrder m) = (valid_side (ao_side m) \<and> ao_shares m \<noteq> 0 \<and>
     (ao_has_attribution m \<or> ao_mpid m = replicate 4 0))"
| "itch_fields_ok (IM_Trade m) = valid_side (tr_side m)"
| "itch_fields_ok m = True"

definition wire_valid :: "itch_message \<Rightarrow> bool" where
  "wire_valid m = (itch_sized m \<and> itch_fields_ok m \<and> fits_wire_price (itch_price m) \<and>
     take_bit 48 (h_timestamp (itch_header m)) = h_timestamp (itch_header m))"

section \<open>The encoders write the wire image\<close>

lemma length_header_bytes [simp]: "length (header_bytes ty h) = 11"
  by (simp add: header_bytes_def)

lemma put_header_wr: "put_header p ty h = wr_bytes p 0 (header_bytes ty h)"
  by (simp add: put_header_def put_char_def wr8_wr_bytes mem_simps header_bytes_def wr_bytes_bind_append)

lemmas encoder_simps = put_header_wr put_char_def wr8_wr_bytes be_store16_wr be_store32_wr be_store64_wr
  put_symbol_def put_price_def wr_bytes_bind_append

lemma encode_bytes:
  assumes "itch_sized m"
  shows "encode m out =
    (if length out < length (itch_bytes m) \<or> \<not> fits_wire_price (itch_price m) then Some (0, out)
     else Some (length (itch_bytes m), itch_bytes m @ drop (length (itch_bytes m)) out))"
  using assms by (cases m)
    (auto simp: encode_SystemEvent_def encode_StockDirectory_def encode_AddOrder_def encode_OrderExecuted_def
      encode_OrderExecutedPrice_def encode_OrderCancel_def encode_OrderDelete_def encode_OrderReplace_def
      encode_Trade_def itch_length_defs encoder_simps wr_bytes_bind_more wr_bytes_front wr_bytes_behind Let_def fits_wire_price_def)

section \<open>Reading a wire image\<close>

lemma length_itch_bytes: "itch_sized m \<Longrightarrow> length (itch_bytes m) = message_length (hd (itch_bytes m))"
  by (cases m) (auto simp: message_length_def itch_length_defs header_bytes_def)

lemma read_header_image:
  "read_header (header_bytes ty h @ bs) = Some (h\<lparr>h_timestamp := take_bit 48 (h_timestamp h)\<rparr>)"
  by (simp add: read_header_def header_bytes_def image_simps)

lemma read_side_char: "rd8 p i = Some (side_char s) \<Longrightarrow> valid_side s \<Longrightarrow> read_side p i = Some (Some s)"
  by (auto simp: read_side_def byte_char_def side_char_def elim!: valid_side_cases)

lemma read_price_word: "be_load32 p i = Some (word_of_int px) \<Longrightarrow> fits_wire_price px \<Longrightarrow> read_price p i = Some px"
  by (simp add: read_price_def fits_wire_price_def word_of_int_inverse take_bit_int_eq_self unsigned_of_int)

lemmas decoder_simps = read_header_image byte_char_def read_symbol_def kSymbolSize_def
  decode_system_event_def decode_stock_directory_def decode_add_order_def decode_order_executed_def
  decode_order_executed_price_def decode_order_cancel_def decode_order_delete_def decode_order_replace_def
  decode_trade_def

lemma two_chars: "length xs = 2 \<Longrightarrow> [xs ! 0, xs ! Suc 0] = xs"
  by (cases xs; cases "tl xs") auto

text \<open>The type switch at the end of \<^verbatim>\<open>decode\<close>, behind the length checks.\<close>

definition decode_body :: "(itch_message \<Rightarrow> 'h \<Rightarrow> 'h) \<Rightarrow> u8 \<Rightarrow> u8 list \<Rightarrow> 'h \<Rightarrow> (DecodeStatus \<times> 'h) option" where
  "decode_body on ty msg h =
     (if ty = asc CHR ''S'' then decode_system_event on msg h
      else if ty = asc CHR ''R'' then decode_stock_directory on msg h
      else if ty = asc CHR ''A'' then decode_add_order on msg False h
      else if ty = asc CHR ''F'' then decode_add_order on msg True h
      else if ty = asc CHR ''E'' then decode_order_executed on msg h
      else if ty = asc CHR ''C'' then decode_order_executed_price on msg h
      else if ty = asc CHR ''X'' then decode_order_cancel on msg h
      else if ty = asc CHR ''D'' then decode_order_delete on msg h
      else if ty = asc CHR ''U'' then decode_order_replace on msg h
      else if ty = asc CHR ''P'' then decode_trade on msg h
      else Some (DS_unknown_type, h))"

lemma decode_dispatch:
  "decode on msg h =
     (if msg = [] then Some (DS_truncated, h)
      else if message_length (hd msg) = 0 then Some (DS_unknown_type, h)
      else if length msg < message_length (hd msg) then Some (DS_truncated, h)
      else if length msg > message_length (hd msg) then Some (DS_bad_length, h)
      else decode_body on (hd msg) msg h)"
  by (auto simp: decode_def byte_char_def rd8_def hd_conv_nth Let_def decode_body_def)

lemma hd_header_bytes: "hd (header_bytes ty h @ bs) = ty"
  by (simp add: header_bytes_def)

lemma decode_body_image:
  assumes "wire_valid m"
  shows "decode_body on (hd (itch_bytes m)) (itch_bytes m) h = Some (DS_ok, on m h)"
proof (cases m)
  case (IM_SystemEvent x)
  with assms show ?thesis by (cases x) (simp add: decode_body_def hd_header_bytes decoder_simps image_simps wire_valid_def)
next
  case (IM_StockDirectory x)
  with assms show ?thesis
    by (cases x) (simp add: decode_body_def hd_header_bytes decoder_simps image_simps wire_valid_def two_chars)
next
  case (IM_AddOrder x)
  with assms show ?thesis
    by (cases x) (auto simp: decode_body_def hd_header_bytes decoder_simps image_simps wire_valid_def read_side_char read_price_word)
next
  case (IM_OrderExecuted x)
  with assms show ?thesis by (cases x) (simp add: decode_body_def hd_header_bytes decoder_simps image_simps wire_valid_def)
next
  case (IM_OrderExecutedPrice x)
  with assms show ?thesis
    by (cases x) (simp add: decode_body_def hd_header_bytes decoder_simps image_simps wire_valid_def read_price_word)
next
  case (IM_OrderCancel x)
  with assms show ?thesis by (cases x) (simp add: decode_body_def hd_header_bytes decoder_simps image_simps wire_valid_def)
next
  case (IM_OrderDelete x)
  with assms show ?thesis by (cases x) (simp add: decode_body_def hd_header_bytes decoder_simps image_simps wire_valid_def)
next
  case (IM_OrderReplace x)
  with assms show ?thesis
    by (cases x) (simp add: decode_body_def hd_header_bytes decoder_simps image_simps wire_valid_def read_price_word)
next
  case (IM_Trade x)
  with assms show ?thesis
    by (cases x) (simp add: decode_body_def hd_header_bytes decoder_simps image_simps wire_valid_def read_side_char read_price_word)
qed

lemma decode_image:
  assumes "wire_valid m"
  shows "decode on (itch_bytes m) h = Some (DS_ok, on m h)"
proof -
  have *: "length (itch_bytes m) = message_length (hd (itch_bytes m))"
    using assms by (simp add: wire_valid_def length_itch_bytes)
  moreover have **: "itch_bytes m \<noteq> []" by (cases m) (simp_all add: header_bytes_def)
  ultimately have "0 < message_length (hd (itch_bytes m))" by (metis length_greater_0_conv)
  with * ** show ?thesis using decode_body_image [OF assms, of on h] by (auto simp: decode_dispatch)
qed

section \<open>The decoder returns on every span\<close>

text \<open>
  The illegal fields of the comment above \<^verbatim>\<open>decode\<close>, on the bytes of a message: a side other than B and S (A, F,
  P), or no shares (A, F). Every byte of a message carries over into the decoded struct except one: a
  printable flag other than Y is read as N.
\<close>

definition itch_bad_field :: "u8 list \<Rightarrow> bool" where
  "itch_bad_field msg \<longleftrightarrow>
     hd msg \<in> {asc CHR ''A'', asc CHR ''F'', asc CHR ''P''} \<and> msg ! 19 \<notin> {asc CHR ''B'', asc CHR ''S''} \<or>
     hd msg \<in> {asc CHR ''A'', asc CHR ''F''} \<and> take 4 (drop 20 msg) = replicate 4 0"

definition itch_canonical :: "u8 list \<Rightarrow> u8 list" where
  "itch_canonical msg = (if hd msg = asc CHR ''C'' \<and> msg ! 31 \<noteq> asc CHR ''Y'' then msg[31 := asc CHR ''N''] else msg)"

text \<open>
  What a decoder may do with the handler: nothing, because of an illegal field, or deliver the one message
  that has these bytes.
\<close>

definition decoded :: "u8 list \<Rightarrow> (itch_message \<Rightarrow> 'h \<Rightarrow> 'h) \<Rightarrow> 'h \<Rightarrow> (DecodeStatus \<times> 'h) option \<Rightarrow> bool" where
  "decoded p on h res \<longleftrightarrow> (\<exists>st h'. res = Some (st, h') \<and>
     (st = DS_ok \<and> \<not> itch_bad_field p \<and> (\<exists>m. wire_valid m \<and> itch_bytes m = itch_canonical p \<and> h' = on m h) \<or>
      st = DS_bad_field \<and> itch_bad_field p \<and> h' = h))"

lemma decoded_bind:
  "\<exists>x. v = Some x \<Longrightarrow> (\<And>x. v = Some x \<Longrightarrow> decoded p on h (f x)) \<Longrightarrow> decoded p on h (v \<bind> f)"
  by auto

lemma decoded_error: "itch_bad_field p \<Longrightarrow> decoded p on h (Some (DS_bad_field, h))"
  by (simp add: decoded_def)

lemma decoded_message:
  "wire_valid m \<Longrightarrow> itch_bytes m = itch_canonical p \<Longrightarrow> \<not> itch_bad_field p \<Longrightarrow> decoded p on h (Some (DS_ok, on m h))"
  by (auto simp: decoded_def)

lemma load48_timestamp: "be_load48 p i = Some t \<Longrightarrow> take_bit 48 t = t"
proof -
  assume "be_load48 p i = Some t"
  then obtain a b where "t = push_bit 32 (ucast (a :: u16)) OR ucast (b :: u32)"
    by (auto simp: be_load48_def bind_eq_Some_conv)
  moreover have "bit a n \<Longrightarrow> n < 16" "bit b n \<Longrightarrow> n < 32" for n
    using bit_imp_le_length [of a n] bit_imp_le_length [of b n] by simp_all
  ultimately show ?thesis by (intro bit_word_eqI) (fastforce simp: bit_simps)
qed

lemma read_header_ok:
  "11 \<le> length p \<Longrightarrow> \<exists>hdr. read_header p = Some hdr"
  "read_header p = Some hdr \<Longrightarrow> take_bit 48 (h_timestamp hdr) = h_timestamp hdr \<and> header_bytes (hd p) hdr = take 11 p"
proof -
  show "11 \<le> length p \<Longrightarrow> \<exists>hdr. read_header p = Some hdr"
    using be_load16_Some [of 1 p] be_load16_Some [of 3 p] be_load48_Some [of 5 p] by (auto simp: read_header_def)
  assume "read_header p = Some hdr"
  then have r: "be_load16 p 1 = Some (h_locate hdr)" "be_load16 p 3 = Some (h_tracking hdr)" "be_load48 p 5 = Some (h_timestamp hdr)"
    by (auto simp: read_header_def bind_eq_Some_conv)
  have n: "11 \<le> length p" using be_load48_bytes [OF r(3)] by simp
  then have "p \<noteq> []" by auto
  then have "hd p = p ! 0" "p ! 0 # take 10 (drop 1 p) = take 11 p" using slice_glue(3) [of 0 p 1 10] by (simp_all add: hd_conv_nth)
  then show "take_bit 48 (h_timestamp hdr) = h_timestamp hdr \<and> header_bytes (hd p) hdr = take 11 p"
    using n load48_timestamp [OF r(3)] be_load16_bytes [OF r(1)] be_load16_bytes [OF r(2)] be_load48_bytes [OF r(3)] by (simp add: header_bytes_def slice_glue)
qed

lemma read_price_ok:
  "i + 4 \<le> length p \<Longrightarrow> \<exists>px. read_price p i = Some px"
  "read_price p i = Some px \<Longrightarrow> fits_wire_price px \<and> be_bytes32 (word_of_int px) = take 4 (drop i p)"
proof -
  show "i + 4 \<le> length p \<Longrightarrow> \<exists>px. read_price p i = Some px"
    using be_load32_Some [of i p] by (auto simp: read_price_def)
  assume "read_price p i = Some px"
  then obtain w :: u32 where w: "px = uint w" "be_load32 p i = Some w" by (auto simp: read_price_def)
  then show "fits_wire_price px \<and> be_bytes32 (word_of_int px) = take 4 (drop i p)"
    using unsigned_less [where 'a = int, of w] be_load32_bytes [OF w(2)] by (simp add: fits_wire_price_def)
qed

lemma read_side_ok:
  "i < length p \<Longrightarrow> \<exists>s. read_side p i = Some s"
  "read_side p i = Some (Some s) \<Longrightarrow> valid_side s \<and> i < length p \<and> side_char s = p ! i"
  "read_side p i = Some so \<Longrightarrow> (so = None) = (p ! i \<notin> {asc CHR ''B'', asc CHR ''S''})"
  by (auto simp: read_side_def byte_char_def rd8_def side_char_def split: if_splits)

lemma fits_wire_price_0: "fits_wire_price 0"
  by (simp add: fits_wire_price_def)

lemmas read_ok = read_header_ok(1) read_price_ok(1) read_side_ok(1) rd_block_ok(1) load_total

lemma decode_add_order_decoded:
  assumes "length p = (if attributed then 40 else 36)" "hd p = (if attributed then asc CHR ''F'' else asc CHR ''A'')"
  shows "decoded p on h (decode_add_order on p attributed h)"
  unfolding decode_add_order_def
proof (intro decoded_bind read_ok)
  fix hdr ref side
  assume hdr: "read_header p = Some hdr" and ref: "be_load64 p 11 = Some ref" and side: "read_side p 19 = Some side"
  have t: "hd p \<in> {asc CHR ''A'', asc CHR ''F'', asc CHR ''P''}" "hd p \<in> {asc CHR ''A'', asc CHR ''F''}" "itch_canonical p = p"
    using assms(2) by (simp_all add: itch_canonical_def)
  show "decoded p on h (case side of None \<Rightarrow> Some (DS_bad_field, h) | Some side \<Rightarrow> do {
       shares \<leftarrow> be_load32 p 20;
       if shares = 0 then Some (DS_bad_field, h) else do {
         symbol \<leftarrow> read_symbol p 24;
         price \<leftarrow> read_price p 32;
         mpid \<leftarrow> (if attributed then rd_bytes p 36 4 else Some (replicate 4 0));
         Some (DS_ok, on (IM_AddOrder \<lparr>ao_h = hdr, ao_ref = ref, ao_side = side, ao_shares = shares,
           ao_symbol = symbol, ao_price = price, ao_has_attribution = attributed, ao_mpid = mpid\<rparr>) h) } })"
  proof (cases side)
    case None
    then have "itch_bad_field p" using t(1) read_side_ok(3) [OF side] by (simp add: itch_bad_field_def)
    then show ?thesis using None by (simp add: decoded_error)
  next
    case (Some s)
    have s: "valid_side s" "side_char s = p ! 19" "p ! 19 \<in> {asc CHR ''B'', asc CHR ''S''}"
      using Some side read_side_ok(2) [of p 19 s] read_side_ok(3) [OF side] by auto
    have "\<exists>sh. be_load32 p 20 = Some sh" by (rule be_load32_Some) (use assms in \<open>simp split: if_splits\<close>)
    then obtain sh where sh: "be_load32 p 20 = Some sh" ..
    have bad: "itch_bad_field p = (sh = 0)" using t s(3) be_load32_zero [OF sh] by (auto simp: itch_bad_field_def)
    obtain sym pr where f: "rd_bytes p 24 8 = Some sym" "read_price p 32 = Some pr"
      using rd_block_ok(1) [of 24 8 p] read_price_ok(1) [of 32 p] assms(1) by (auto split: if_splits)
    have hb: "header_bytes (if attributed then asc CHR ''F'' else asc CHR ''A'') hdr = take 11 p" "take_bit 48 (h_timestamp hdr) = h_timestamp hdr"
      using read_header_ok(2) [OF hdr] assms(2) by simp_all
    note b = hb be_load64_bytes [OF ref] be_load32_bytes [OF sh] rd_bytes_at [OF f(1)] read_price_ok(2) [OF f(2)] s(1,2)
    show ?thesis
    proof (cases attributed)
      case True
      then have "rd_bytes p 36 4 = Some (drop 36 p)" using assms(1) by (simp add: rd_bytes_def)
      then show ?thesis using True b bad sh f t(3) assms(1) Some
        by (auto simp: read_symbol_def kSymbolSize_def wire_valid_def slice_glue intro!: decoded_error decoded_message)
    next
      case False
      then show ?thesis using b bad sh f t(3) assms(1) Some
        by (auto simp: read_symbol_def kSymbolSize_def wire_valid_def slice_glue intro!: decoded_error decoded_message)
    qed
  qed
qed (use assms in \<open>simp_all split: if_splits\<close>)

lemma decode_trade_decoded:
  assumes "length p = 44" "hd p = asc CHR ''P''"
  shows "decoded p on h (decode_trade on p h)"
  unfolding decode_trade_def
proof (intro decoded_bind read_ok)
  fix hdr ref side
  assume hdr: "read_header p = Some hdr" and ref: "be_load64 p 11 = Some ref" and side: "read_side p 19 = Some side"
  have t: "itch_canonical p = p" "itch_bad_field p = (side = None)"
    using assms(2) read_side_ok(3) [OF side] by (auto simp: itch_canonical_def itch_bad_field_def)
  have hb: "header_bytes (asc CHR ''P'') hdr = take 11 p" "take_bit 48 (h_timestamp hdr) = h_timestamp hdr"
    using read_header_ok(2) [OF hdr] assms(2) by simp_all
  note b = t hb be_load64_bytes [OF ref]
  show "decoded p on h (case side of None \<Rightarrow> Some (DS_bad_field, h) | Some side \<Rightarrow> do {
       shares \<leftarrow> be_load32 p 20;
       symbol \<leftarrow> read_symbol p 24;
       price \<leftarrow> read_price p 32;
       mtch \<leftarrow> be_load64 p 36;
       Some (DS_ok, on (IM_Trade \<lparr>tr_h = hdr, tr_ref = ref, tr_side = side, tr_shares = shares,
         tr_symbol = symbol, tr_price = price, tr_match = mtch\<rparr>) h) })"
    using assms side b
    by (auto simp: read_symbol_def kSymbolSize_def wire_valid_def slice_glue split: option.split
        intro!: decoded_bind read_ok decoded_error decoded_message
        dest!: read_side_ok(2) read_price_ok(2) rd_bytes_at be_load32_bytes be_load64_bytes)
qed (use assms in simp_all)

lemma printable_canonical:
  "hd p = asc CHR ''C'' \<Longrightarrow> length p = 36 \<Longrightarrow> itch_canonical p = take 31 p @ [if p ! 31 = asc CHR ''Y'' then asc CHR ''Y'' else asc CHR ''N''] @ drop 32 p"
  using id_take_nth_drop [of 31 p] by (auto simp: itch_canonical_def upd_conv_take_nth_drop)

lemma length_canonical: "length (itch_canonical p) = length p"
  by (simp add: itch_canonical_def)

lemma plain_canonical: "hd p \<noteq> asc CHR ''C'' \<Longrightarrow> itch_canonical p = p"
  by (simp add: itch_canonical_def)

lemma plain_fields: "hd p \<notin> {asc CHR ''A'', asc CHR ''F'', asc CHR ''P''} \<Longrightarrow> \<not> itch_bad_field p"
  by (auto simp: itch_bad_field_def)

lemma decode_body_decoded:
  assumes "length p = message_length (hd p)" "message_length (hd p) \<noteq> 0"
  shows "decoded p on h (decode_body on (hd p) p h)"
  using assms unfolding decode_body_def message_length_def itch_length_defs
  by (auto simp: decode_system_event_def decode_stock_directory_def decode_order_executed_def
      decode_order_executed_price_def decode_order_cancel_def decode_order_delete_def decode_order_replace_def
      byte_char_def read_symbol_def kSymbolSize_def wire_valid_def fits_wire_price_0 slice_glue printable_canonical plain_canonical plain_fields
      intro!: decode_add_order_decoded decode_trade_decoded decoded_bind read_ok decoded_error decoded_message
      dest!: read_header_ok(2) read_price_ok(2) rd_bytes_at be_load32_bytes be_load64_bytes rd8_at)

lemma decode_returns: "\<exists>st h'. decode on msg h = Some (st, h')"
  using decode_body_decoded [of msg on h] by (auto simp: decode_dispatch decoded_def)

interpretation itch_stream: framed_stream "decode on" "decode_stream_from on"
  for on :: "itch_message \<Rightarrow> 'h \<Rightarrow> 'h"
proof
  show "\<exists>st h'. decode on m h = Some (st, h')" for m h by (rule decode_returns)
  show "decode_stream_from on buf r h =
      (if 2 \<le> length buf - sr_consumed r then do {
         w \<leftarrow> be_load16 buf (sr_consumed r);
         if length buf - sr_consumed r - 2 < unat w then Some (r, h)
         else do {
           (st, h') \<leftarrow> decode on (take (unat w) (drop (sr_consumed r + 2) buf)) h;
           decode_stream_from on buf (tally st (2 + unat w) r) h' } }
       else Some (r, h))" for buf r h
    by (subst decode_stream_from.simps)
      (simp add: kFrameHeaderSize_def tally_def bind_map_option comp_def Let_def cong: if_cong)
qed

lemma encode_framed_bytes:
  assumes "itch_sized m"
  shows "encode_framed m out =
    (if length out < 2 + length (itch_bytes m) \<or> \<not> fits_wire_price (itch_price m) then Some (0, out)
     else Some (2 + length (itch_bytes m), frame (itch_bytes m) @ drop (2 + length (itch_bytes m)) out))"
proof -
  have "0 < length (itch_bytes m)" by (cases m) (simp_all add: header_bytes_def)
  then show ?thesis
    by (auto simp: encode_framed_def encode_bytes [OF assms] kFrameHeaderSize_def be_store16_wr wr_bytes_def blit_def
        frame_def Let_def)
qed

lemma itch_bytes_short: "itch_sized m \<Longrightarrow> length (itch_bytes m) \<le> kMaxMessageLength"
  by (simp add: length_itch_bytes message_length_max)

text \<open>The bytes that a framed message occupies, written into a buffer large enough for any message.\<close>

definition framed_chunk :: "itch_message \<Rightarrow> u8 list" where
  "framed_chunk m = (case encode_framed m (replicate (kFrameHeaderSize + kMaxMessageLength) 0) of
     Some (n, out) \<Rightarrow> take n out | None \<Rightarrow> [])"

lemma framed_chunk_frame: "wire_valid m \<Longrightarrow> framed_chunk m = frame (itch_bytes m)"
  using itch_bytes_short [of m]
  by (simp add: framed_chunk_def encode_framed_bytes wire_valid_def kFrameHeaderSize_def) (simp add: frame_def)

lemma deliver_images:
  "\<forall>m \<in> set ms. wire_valid m \<Longrightarrow>
     itch_stream.deliver on (map itch_bytes ms) r h =
       Some (r\<lparr>sr_consumed := sr_consumed r + frames_size (map itch_bytes ms), sr_messages := sr_messages r + length ms\<rparr>,
             fold on ms h)"
  by (induction ms arbitrary: r h) (simp_all add: decode_image tally_def)

definition sample_add :: itch_message where
  "sample_add = IM_AddOrder \<lparr>ao_h = \<lparr>h_locate = 7, h_tracking = 0, h_timestamp = 34200000000000\<rparr>, ao_ref = 42,
     ao_side = Side_sell, ao_shares = 100, ao_symbol = Symbol_blank, ao_price = 1500000,
     ao_has_attribution = True, ao_mpid = replicate 4 (asc CHR ''N'')\<rparr>"

lemma sample_add_valid: "wire_valid sample_add" "length (itch_bytes sample_add) = 40"
  by (simp_all add: sample_add_def wire_valid_def fits_wire_price_def)

section \<open>Claims\<close>

text \<open>
  Claim C26: \<^verbatim>\<open>itch::decode\<close> returns on every byte string without reading outside it. The handler is
  called exactly once when the status is \<^verbatim>\<open>ok\<close>, and not at all otherwise. The message it gets satisfies every
  field rule of the protocol and encodes back to the bytes it was read from (a printable flag other than Y
  comes back as N). The other statuses are reported exactly when the comment above \<^verbatim>\<open>decode\<close> says:
  \<^verbatim>\<open>truncated\<close>, \<^verbatim>\<open>unknown_type\<close> and \<^verbatim>\<open>bad_length\<close> by type byte and length, and \<^verbatim>\<open>bad_field\<close> for a message of the
  right length whose side is not B or S (A, F, P) or whose shares are 0 (A, F).
\<close>

theorem itch_decode_total:
  "\<exists>st h'. decode on msg h = Some (st, h') \<and>
     (if st = DS_ok
      then \<exists>m. wire_valid m \<and> encode m (replicate (length msg) 0) = Some (length msg, itch_canonical msg) \<and> h' = on m h
      else h' = h) \<and>
     (st = DS_truncated) = (msg = [] \<or> length msg < message_length (hd msg)) \<and>
     (st = DS_unknown_type) = (msg \<noteq> [] \<and> message_length (hd msg) = 0) \<and>
     (st = DS_bad_length) = (msg \<noteq> [] \<and> 0 < message_length (hd msg) \<and> message_length (hd msg) < length msg) \<and>
     (st = DS_bad_field) = (msg \<noteq> [] \<and> length msg = message_length (hd msg) \<and> itch_bad_field msg)"
proof (cases "msg \<noteq> [] \<and> message_length (hd msg) \<noteq> 0 \<and> length msg = message_length (hd msg)")
  case True
  have enc: "encode m (replicate (length msg) 0) = Some (length msg, itch_canonical msg)"
    if "wire_valid m" "itch_bytes m = itch_canonical msg" for m
    using that encode_bytes [of m "replicate (length msg) 0"] by (simp add: wire_valid_def length_canonical)
  from True show ?thesis
    using decode_body_decoded [of msg on h] enc by (auto simp: decode_dispatch decoded_def)
next
  case False
  then show ?thesis by (auto simp: decode_dispatch)
qed

text \<open>
  Claim C28: encoding an ITCH message either writes nothing and returns 0, exactly when the buffer is
  too small or the price does not fit the 32-bit wire field, or writes the message at the front of the
  buffer and touches nothing behind it. When the message obeys the field rules of the protocol (a
  timestamp of at most 48 bits among them), decoding the written bytes delivers the same message.
\<close>

theorem itch_encode_round_trip:
  assumes "itch_sized m"
  shows "\<exists>n out'. encode m out = Some (n, out') \<and> length out' = length out \<and> drop n out' = drop n out \<and>
    (n = 0) = (length out < length (itch_bytes m) \<or> \<not> fits_wire_price (itch_price m)) \<and>
    (n \<noteq> 0 \<and> wire_valid m \<longrightarrow> decode on (take n out') h = Some (DS_ok, on m h))"
proof -
  have "0 < length (itch_bytes m)" by (cases m) (simp_all add: header_bytes_def)
  then show ?thesis using decode_image [of m on h] by (auto simp: encode_bytes [OF assms])
qed

theorem itch_encode_round_trip_witness:
  "\<exists>n out'. encode sample_add (replicate 50 0) = Some (n, out') \<and> n \<noteq> 0 \<and>
     decode (#) (take n out') [] = Some (DS_ok, [sample_add])"
  using itch_encode_round_trip [of sample_add "replicate 50 0" "(#)" "[]"] sample_add_valid
  by (auto simp: wire_valid_def)

text \<open>
  \<^verbatim>\<open>itch::decode_stream\<close> returns for every buffer, consumes whole frames only and leaves
  less than one frame, and may be resumed: cutting a stream at any byte and calling again with the
  unconsumed tail in front of the rest delivers the same messages to the handler in the same order
  and adds up to the same counters as one call on the whole stream.
\<close>

lemma itch_stream_resumes:
  "(\<exists>r h'. decode_stream on a h = Some (r, h') \<and> sr_consumed r \<le> length a \<and>
      split_frames (drop (sr_consumed r) a) = []) \<and>
   decode_stream on (a @ b) h = do {
     (r1, h1) \<leftarrow> decode_stream on a h;
     (r2, h2) \<leftarrow> decode_stream on (drop (sr_consumed r1) a @ b) h1;
     Some (merge_results r1 r2, h2) }"
  unfolding decode_stream_def
  using itch_stream.stream_returns [of on a h] itch_stream.stream_resumes [of on a b h] by blast

text \<open>
  A stream written with \<^verbatim>\<open>encode_framed\<close>, one message after another, decodes to exactly
  those messages in order: nothing is skipped and every byte is consumed.
\<close>

lemma itch_framed_stream_round_trip:
  assumes "\<forall>m \<in> set ms. wire_valid m"
  shows "decode_stream on (concat (map framed_chunk ms)) h =
    Some (\<lparr>sr_consumed = length (concat (map framed_chunk ms)), sr_messages = length ms, sr_skipped = 0,
           sr_last_error = DS_ok\<rparr>, fold on ms h)"
proof -
  have chunks: "map framed_chunk ms = map frame (map itch_bytes ms)"
    using assms by (simp add: framed_chunk_frame)
  have "\<forall>b \<in> set (map itch_bytes ms). length b < 65536"
    using assms itch_bytes_short by (fastforce simp: wire_valid_def itch_length_defs)
  then have "decode_stream on (concat (map framed_chunk ms)) h =
      itch_stream.deliver on (map itch_bytes ms) StreamResult_new h"
    unfolding decode_stream_def chunks by (rule itch_stream.stream_of_frames)
  moreover have "frames_size (map itch_bytes ms) = length (concat (map framed_chunk ms))"
    unfolding chunks by (induction ms) (simp_all add: frame_def)
  ultimately show ?thesis using assms by (simp add: deliver_images StreamResult_new_def)
qed

end
