(* ===== verification/Ouch_Codec.thy ===== *)
theory Ouch_Codec
  imports Ouch_Messages Framing
begin

text \<open>
  The OUCH 4.2 codec, \<^verbatim>\<open>src/include/optitrade/ouch/codec.hpp\<close>: field offsets, one reader and one writer
  per message, the two decoders, the frame loop and the encoders. As in the ITCH codec a span is a
  byte list and \<^term>\<open>None\<close> an access outside it. A reader returns \<open>Some None\<close> for \<^verbatim>\<open>false\<close>; a writer
  gets the offset of its pointer in the output span and returns the flag and the new span.
\<close>

section \<open>Field offsets\<close>

definition at_enter_token :: nat where "at_enter_token = 1"
definition at_enter_side :: nat where "at_enter_side = 15"
definition at_enter_shares :: nat where "at_enter_shares = 16"
definition at_enter_stock :: nat where "at_enter_stock = 20"
definition at_enter_price :: nat where "at_enter_price = 28"
definition at_enter_tif :: nat where "at_enter_tif = 32"
definition at_enter_firm :: nat where "at_enter_firm = 36"
definition at_enter_display :: nat where "at_enter_display = 40"
definition at_enter_capacity :: nat where "at_enter_capacity = 41"
definition at_enter_sweep :: nat where "at_enter_sweep = 42"
definition at_enter_min_qty :: nat where "at_enter_min_qty = 43"
definition at_enter_cross :: nat where "at_enter_cross = 47"
definition at_enter_customer :: nat where "at_enter_customer = 48"

definition at_replace_existing :: nat where "at_replace_existing = 1"
definition at_replace_replacement :: nat where "at_replace_replacement = 15"
definition at_replace_shares :: nat where "at_replace_shares = 29"
definition at_replace_price :: nat where "at_replace_price = 33"
definition at_replace_tif :: nat where "at_replace_tif = 37"
definition at_replace_display :: nat where "at_replace_display = 41"
definition at_replace_sweep :: nat where "at_replace_sweep = 42"
definition at_replace_min_qty :: nat where "at_replace_min_qty = 43"

definition at_cancel_token :: nat where "at_cancel_token = 1"
definition at_cancel_shares :: nat where "at_cancel_shares = 15"

definition at_accepted_ts :: nat where "at_accepted_ts = 1"
definition at_accepted_token :: nat where "at_accepted_token = 9"
definition at_accepted_side :: nat where "at_accepted_side = 23"
definition at_accepted_shares :: nat where "at_accepted_shares = 24"
definition at_accepted_stock :: nat where "at_accepted_stock = 28"
definition at_accepted_price :: nat where "at_accepted_price = 36"
definition at_accepted_tif :: nat where "at_accepted_tif = 40"
definition at_accepted_firm :: nat where "at_accepted_firm = 44"
definition at_accepted_display :: nat where "at_accepted_display = 48"
definition at_accepted_ref :: nat where "at_accepted_ref = 49"
definition at_accepted_capacity :: nat where "at_accepted_capacity = 57"
definition at_accepted_sweep :: nat where "at_accepted_sweep = 58"
definition at_accepted_min_qty :: nat where "at_accepted_min_qty = 59"
definition at_accepted_cross :: nat where "at_accepted_cross = 63"
definition at_accepted_state :: nat where "at_accepted_state = 64"
definition at_accepted_bbo :: nat where "at_accepted_bbo = 65"

definition at_replaced_previous :: nat where "at_replaced_previous = 65"
definition at_replaced_bbo :: nat where "at_replaced_bbo = 79"

definition at_canceled_token :: nat where "at_canceled_token = 9"
definition at_canceled_decrement :: nat where "at_canceled_decrement = 23"
definition at_canceled_reason :: nat where "at_canceled_reason = 27"

definition at_executed_token :: nat where "at_executed_token = 9"
definition at_executed_shares :: nat where "at_executed_shares = 23"
definition at_executed_price :: nat where "at_executed_price = 27"
definition at_executed_liquidity :: nat where "at_executed_liquidity = 31"
definition at_executed_match :: nat where "at_executed_match = 32"

definition at_rejected_token :: nat where "at_rejected_token = 9"
definition at_rejected_reason :: nat where "at_rejected_reason = 23"

lemmas ouch_offsets =
  at_enter_token_def at_enter_side_def at_enter_shares_def at_enter_stock_def at_enter_price_def
  at_enter_tif_def at_enter_firm_def at_enter_display_def at_enter_capacity_def at_enter_sweep_def
  at_enter_min_qty_def at_enter_cross_def at_enter_customer_def at_replace_existing_def
  at_replace_replacement_def at_replace_shares_def at_replace_price_def at_replace_tif_def
  at_replace_display_def at_replace_sweep_def at_replace_min_qty_def at_cancel_token_def at_cancel_shares_def
  at_accepted_ts_def at_accepted_token_def at_accepted_side_def at_accepted_shares_def at_accepted_stock_def
  at_accepted_price_def at_accepted_tif_def at_accepted_firm_def at_accepted_display_def at_accepted_ref_def
  at_accepted_capacity_def at_accepted_sweep_def at_accepted_min_qty_def at_accepted_cross_def
  at_accepted_state_def at_accepted_bbo_def at_replaced_previous_def at_replaced_bbo_def at_canceled_token_def
  at_canceled_decrement_def at_canceled_reason_def at_executed_token_def at_executed_shares_def
  at_executed_price_def at_executed_liquidity_def at_executed_match_def at_rejected_token_def
  at_rejected_reason_def

lemma ouch_layouts:
  "at_enter_customer + 1 = kEnterOrderLength"
  "at_enter_cross = at_enter_min_qty + 4" "at_enter_min_qty = at_enter_sweep + 1"
  "at_replace_min_qty + 4 = kReplaceOrderLength"
  "at_cancel_shares + 4 = kCancelOrderLength"
  "at_accepted_bbo + 1 = kAcceptedLength"
  "at_accepted_state + 1 = at_accepted_bbo"
  "at_replaced_previous = at_accepted_state + 1"
  "at_replaced_bbo = at_replaced_previous + kTokenSize"
  "at_replaced_bbo + 1 = kReplacedLength"
  "at_canceled_reason + 1 = kCanceledLength"
  "at_executed_match + 8 = kExecutedLength"
  "at_rejected_reason + 1 = kRejectedLength"
  by (simp_all add: ouch_offsets ouch_length_defs kTokenSize_def)

section \<open>Readers\<close>

definition get_char :: "u8 list \<Rightarrow> nat \<Rightarrow> u8 option" where
  "get_char p i = rd8 p i"

definition ouch_put_char :: "u8 list \<Rightarrow> nat \<Rightarrow> u8 \<Rightarrow> u8 list option" where
  "ouch_put_char p i c = wr8 p i c"

definition valid_order_shares :: "Qty \<Rightarrow> bool" where
  "valid_order_shares q = (q \<ge> 1 \<and> q \<le> kMaxOrderQty)"

definition ouch_fits_wire_price :: "Price \<Rightarrow> bool" where
  "ouch_fits_wire_price p = (p \<ge> 0 \<and> p \<le> 0xFFFFFFFF)"

text \<open>The side and the short-sell flag, or \<^term>\<open>None\<close> for \<^verbatim>\<open>false\<close>.\<close>

definition parse_side :: "u8 \<Rightarrow> (Side \<times> bool) option" where
  "parse_side c =
     (if c = asc CHR ''B'' then Some (Side_buy, False)
      else if c = asc CHR ''S'' then Some (Side_sell, False)
      else if c = asc CHR ''T'' \<or> c = asc CHR ''E'' then Some (Side_sell, True)
      else None)"

definition ouch_side_char :: "Side \<Rightarrow> bool \<Rightarrow> u8" where
  "ouch_side_char side short_sell =
     (if side = Side_buy then asc CHR ''B''
      else if short_sell then asc CHR ''T'' else asc CHR ''S'')"

definition Token_from_wire :: "u8 list \<Rightarrow> nat \<Rightarrow> Token option" where
  "Token_from_wire p i = rd_bytes p i kTokenSize"

definition Symbol_from_wire :: "u8 list \<Rightarrow> nat \<Rightarrow> Symbol option" where
  "Symbol_from_wire p i = rd_bytes p i kSymbolSize"

definition wire_price :: "u8 list \<Rightarrow> nat \<Rightarrow> Price option" where
  "wire_price p i = map_option uint (be_load32 p i)"

definition read_EnterOrder :: "u8 list \<Rightarrow> EnterOrder option option" where
  "read_EnterOrder p = do {
     c \<leftarrow> get_char p at_enter_side;
     case parse_side c of None \<Rightarrow> Some None | Some (side, short_sell) \<Rightarrow> do {
       shares \<leftarrow> be_load32 p at_enter_shares;
       if \<not> valid_order_shares shares then Some None else do {
         token \<leftarrow> Token_from_wire p at_enter_token;
         stock \<leftarrow> Symbol_from_wire p at_enter_stock;
         price \<leftarrow> wire_price p at_enter_price;
         tif \<leftarrow> be_load32 p at_enter_tif;
         firm \<leftarrow> rd_bytes p at_enter_firm 4;
         display \<leftarrow> get_char p at_enter_display;
         capacity \<leftarrow> get_char p at_enter_capacity;
         sweep \<leftarrow> get_char p at_enter_sweep;
         min_qty \<leftarrow> be_load32 p at_enter_min_qty;
         cross_type \<leftarrow> get_char p at_enter_cross;
         customer_type \<leftarrow> get_char p at_enter_customer;
         Some (Some \<lparr>eo_token = token, eo_side = side, eo_short_sell = short_sell, eo_shares = shares,
           eo_stock = stock, eo_price = price, eo_time_in_force = tif, eo_firm = firm, eo_display = display,
           eo_capacity = capacity, eo_intermarket_sweep = sweep, eo_min_qty = min_qty,
           eo_cross_type = cross_type, eo_customer_type = customer_type\<rparr>) } } }"

definition read_ReplaceOrder :: "u8 list \<Rightarrow> ReplaceOrder option option" where
  "read_ReplaceOrder p = do {
     shares \<leftarrow> be_load32 p at_replace_shares;
     if \<not> valid_order_shares shares then Some None else do {
       existing \<leftarrow> Token_from_wire p at_replace_existing;
       replacement \<leftarrow> Token_from_wire p at_replace_replacement;
       price \<leftarrow> wire_price p at_replace_price;
       tif \<leftarrow> be_load32 p at_replace_tif;
       display \<leftarrow> get_char p at_replace_display;
       sweep \<leftarrow> get_char p at_replace_sweep;
       min_qty \<leftarrow> be_load32 p at_replace_min_qty;
       Some (Some \<lparr>ro_existing = existing, ro_replacement = replacement, ro_shares = shares, ro_price = price,
         ro_time_in_force = tif, ro_display = display, ro_intermarket_sweep = sweep, ro_min_qty = min_qty\<rparr>) } }"

definition read_CancelOrder :: "u8 list \<Rightarrow> CancelOrder option option" where
  "read_CancelOrder p = do {
     token \<leftarrow> Token_from_wire p at_cancel_token;
     shares \<leftarrow> be_load32 p at_cancel_shares;
     Some (Some \<lparr>co_token = token, co_shares = shares\<rparr>) }"

text \<open>\<^verbatim>\<open>bbo_weight\<close> keeps its member initializer here; the callers read it from their own offset.\<close>

definition read_accepted_common :: "u8 list \<Rightarrow> Accepted option option" where
  "read_accepted_common p = do {
     c \<leftarrow> get_char p at_accepted_side;
     case parse_side c of None \<Rightarrow> Some None | Some (side, ignored_short) \<Rightarrow> do {
       order_state \<leftarrow> get_char p at_accepted_state;
       if order_state \<noteq> asc CHR ''L'' \<and> order_state \<noteq> asc CHR ''D'' then Some None else do {
         ts \<leftarrow> be_load64 p at_accepted_ts;
         token \<leftarrow> Token_from_wire p at_accepted_token;
         shares \<leftarrow> be_load32 p at_accepted_shares;
         stock \<leftarrow> Symbol_from_wire p at_accepted_stock;
         price \<leftarrow> wire_price p at_accepted_price;
         tif \<leftarrow> be_load32 p at_accepted_tif;
         firm \<leftarrow> rd_bytes p at_accepted_firm 4;
         display \<leftarrow> get_char p at_accepted_display;
         ref \<leftarrow> be_load64 p at_accepted_ref;
         capacity \<leftarrow> get_char p at_accepted_capacity;
         sweep \<leftarrow> get_char p at_accepted_sweep;
         min_qty \<leftarrow> be_load32 p at_accepted_min_qty;
         cross_type \<leftarrow> get_char p at_accepted_cross;
         Some (Some \<lparr>ac_ts = ts, ac_token = token, ac_side = side, ac_shares = shares, ac_stock = stock,
           ac_price = price, ac_time_in_force = tif, ac_firm = firm, ac_display = display, ac_ref = ref,
           ac_capacity = capacity, ac_intermarket_sweep = sweep, ac_min_qty = min_qty,
           ac_cross_type = cross_type, ac_order_state = order_state, ac_bbo_weight = asc CHR '' ''\<rparr>) } } }"

definition read_Accepted :: "u8 list \<Rightarrow> Accepted option option" where
  "read_Accepted p = do {
     a \<leftarrow> read_accepted_common p;
     case a of None \<Rightarrow> Some None | Some m \<Rightarrow> do {
       bbo \<leftarrow> get_char p at_accepted_bbo;
       Some (Some (m\<lparr>ac_bbo_weight := bbo\<rparr>)) } }"

definition read_Replaced :: "u8 list \<Rightarrow> Replaced option option" where
  "read_Replaced p = do {
     a \<leftarrow> read_accepted_common p;
     case a of None \<Rightarrow> Some None | Some m \<Rightarrow> do {
       previous \<leftarrow> Token_from_wire p at_replaced_previous;
       bbo \<leftarrow> get_char p at_replaced_bbo;
       Some (Some \<lparr>rp_a = m\<lparr>ac_bbo_weight := bbo\<rparr>, rp_previous = previous\<rparr>) } }"

definition read_Canceled :: "u8 list \<Rightarrow> Canceled option option" where
  "read_Canceled p = do {
     ts \<leftarrow> be_load64 p at_accepted_ts;
     token \<leftarrow> Token_from_wire p at_canceled_token;
     decrement \<leftarrow> be_load32 p at_canceled_decrement;
     reason \<leftarrow> get_char p at_canceled_reason;
     Some (Some \<lparr>cn_ts = ts, cn_token = token, cn_decrement = decrement, cn_reason = reason\<rparr>) }"

definition read_Executed :: "u8 list \<Rightarrow> Executed option option" where
  "read_Executed p = do {
     ts \<leftarrow> be_load64 p at_accepted_ts;
     token \<leftarrow> Token_from_wire p at_executed_token;
     shares \<leftarrow> be_load32 p at_executed_shares;
     price \<leftarrow> wire_price p at_executed_price;
     liquidity \<leftarrow> get_char p at_executed_liquidity;
     mtch \<leftarrow> be_load64 p at_executed_match;
     Some (Some \<lparr>ex_ts = ts, ex_token = token, ex_shares = shares, ex_price = price,
       ex_liquidity = liquidity, ex_match = mtch\<rparr>) }"

definition read_Rejected :: "u8 list \<Rightarrow> Rejected option option" where
  "read_Rejected p = do {
     ts \<leftarrow> be_load64 p at_accepted_ts;
     token \<leftarrow> Token_from_wire p at_rejected_token;
     reason \<leftarrow> get_char p at_rejected_reason;
     Some (Some \<lparr>rj_ts = ts, rj_token = token, rj_reason = reason\<rparr>) }"

section \<open>Writers\<close>

definition write_EnterOrder :: "nat \<Rightarrow> EnterOrder \<Rightarrow> u8 list \<Rightarrow> (bool \<times> u8 list) option" where
  "write_EnterOrder b m p =
     (if \<not> ouch_fits_wire_price (eo_price m) then Some (False, p)
      else do {
        p \<leftarrow> ouch_put_char p b (asc CHR ''O'');
        p \<leftarrow> wr_bytes p (b + at_enter_token) (eo_token m);
        p \<leftarrow> ouch_put_char p (b + at_enter_side) (ouch_side_char (eo_side m) (eo_short_sell m));
        p \<leftarrow> be_store32 p (b + at_enter_shares) (eo_shares m);
        p \<leftarrow> wr_bytes p (b + at_enter_stock) (eo_stock m);
        p \<leftarrow> be_store32 p (b + at_enter_price) (word_of_int (eo_price m));
        p \<leftarrow> be_store32 p (b + at_enter_tif) (eo_time_in_force m);
        p \<leftarrow> wr_bytes p (b + at_enter_firm) (eo_firm m);
        p \<leftarrow> ouch_put_char p (b + at_enter_display) (eo_display m);
        p \<leftarrow> ouch_put_char p (b + at_enter_capacity) (eo_capacity m);
        p \<leftarrow> ouch_put_char p (b + at_enter_sweep) (eo_intermarket_sweep m);
        p \<leftarrow> be_store32 p (b + at_enter_min_qty) (eo_min_qty m);
        p \<leftarrow> ouch_put_char p (b + at_enter_cross) (eo_cross_type m);
        p \<leftarrow> ouch_put_char p (b + at_enter_customer) (eo_customer_type m);
        Some (True, p) })"

definition write_ReplaceOrder :: "nat \<Rightarrow> ReplaceOrder \<Rightarrow> u8 list \<Rightarrow> (bool \<times> u8 list) option" where
  "write_ReplaceOrder b m p =
     (if \<not> ouch_fits_wire_price (ro_price m) then Some (False, p)
      else do {
        p \<leftarrow> ouch_put_char p b (asc CHR ''U'');
        p \<leftarrow> wr_bytes p (b + at_replace_existing) (ro_existing m);
        p \<leftarrow> wr_bytes p (b + at_replace_replacement) (ro_replacement m);
        p \<leftarrow> be_store32 p (b + at_replace_shares) (ro_shares m);
        p \<leftarrow> be_store32 p (b + at_replace_price) (word_of_int (ro_price m));
        p \<leftarrow> be_store32 p (b + at_replace_tif) (ro_time_in_force m);
        p \<leftarrow> ouch_put_char p (b + at_replace_display) (ro_display m);
        p \<leftarrow> ouch_put_char p (b + at_replace_sweep) (ro_intermarket_sweep m);
        p \<leftarrow> be_store32 p (b + at_replace_min_qty) (ro_min_qty m);
        Some (True, p) })"

definition write_CancelOrder :: "nat \<Rightarrow> CancelOrder \<Rightarrow> u8 list \<Rightarrow> (bool \<times> u8 list) option" where
  "write_CancelOrder b m p = do {
     p \<leftarrow> ouch_put_char p b (asc CHR ''X'');
     p \<leftarrow> wr_bytes p (b + at_cancel_token) (co_token m);
     p \<leftarrow> be_store32 p (b + at_cancel_shares) (co_shares m);
     Some (True, p) }"

definition write_accepted_common :: "nat \<Rightarrow> u8 \<Rightarrow> Accepted \<Rightarrow> u8 list \<Rightarrow> u8 list option" where
  "write_accepted_common b ty m p = do {
     p \<leftarrow> ouch_put_char p b ty;
     p \<leftarrow> be_store64 p (b + at_accepted_ts) (ac_ts m);
     p \<leftarrow> wr_bytes p (b + at_accepted_token) (ac_token m);
     p \<leftarrow> ouch_put_char p (b + at_accepted_side) (ouch_side_char (ac_side m) False);
     p \<leftarrow> be_store32 p (b + at_accepted_shares) (ac_shares m);
     p \<leftarrow> wr_bytes p (b + at_accepted_stock) (ac_stock m);
     p \<leftarrow> be_store32 p (b + at_accepted_price) (word_of_int (ac_price m));
     p \<leftarrow> be_store32 p (b + at_accepted_tif) (ac_time_in_force m);
     p \<leftarrow> wr_bytes p (b + at_accepted_firm) (ac_firm m);
     p \<leftarrow> ouch_put_char p (b + at_accepted_display) (ac_display m);
     p \<leftarrow> be_store64 p (b + at_accepted_ref) (ac_ref m);
     p \<leftarrow> ouch_put_char p (b + at_accepted_capacity) (ac_capacity m);
     p \<leftarrow> ouch_put_char p (b + at_accepted_sweep) (ac_intermarket_sweep m);
     p \<leftarrow> be_store32 p (b + at_accepted_min_qty) (ac_min_qty m);
     p \<leftarrow> ouch_put_char p (b + at_accepted_cross) (ac_cross_type m);
     ouch_put_char p (b + at_accepted_state) (ac_order_state m) }"

definition write_Accepted :: "nat \<Rightarrow> Accepted \<Rightarrow> u8 list \<Rightarrow> (bool \<times> u8 list) option" where
  "write_Accepted b m p =
     (if \<not> ouch_fits_wire_price (ac_price m) then Some (False, p)
      else do {
        p \<leftarrow> write_accepted_common b (asc CHR ''A'') m p;
        p \<leftarrow> ouch_put_char p (b + at_accepted_bbo) (ac_bbo_weight m);
        Some (True, p) })"

definition write_Replaced :: "nat \<Rightarrow> Replaced \<Rightarrow> u8 list \<Rightarrow> (bool \<times> u8 list) option" where
  "write_Replaced b m p =
     (if \<not> ouch_fits_wire_price (ac_price (rp_a m)) then Some (False, p)
      else do {
        p \<leftarrow> write_accepted_common b (asc CHR ''U'') (rp_a m) p;
        p \<leftarrow> wr_bytes p (b + at_replaced_previous) (rp_previous m);
        p \<leftarrow> ouch_put_char p (b + at_replaced_bbo) (ac_bbo_weight (rp_a m));
        Some (True, p) })"

definition write_Canceled :: "nat \<Rightarrow> Canceled \<Rightarrow> u8 list \<Rightarrow> (bool \<times> u8 list) option" where
  "write_Canceled b m p = do {
     p \<leftarrow> ouch_put_char p b (asc CHR ''C'');
     p \<leftarrow> be_store64 p (b + at_accepted_ts) (cn_ts m);
     p \<leftarrow> wr_bytes p (b + at_canceled_token) (cn_token m);
     p \<leftarrow> be_store32 p (b + at_canceled_decrement) (cn_decrement m);
     p \<leftarrow> ouch_put_char p (b + at_canceled_reason) (cn_reason m);
     Some (True, p) }"

definition write_Executed :: "nat \<Rightarrow> Executed \<Rightarrow> u8 list \<Rightarrow> (bool \<times> u8 list) option" where
  "write_Executed b m p =
     (if \<not> ouch_fits_wire_price (ex_price m) then Some (False, p)
      else do {
        p \<leftarrow> ouch_put_char p b (asc CHR ''E'');
        p \<leftarrow> be_store64 p (b + at_accepted_ts) (ex_ts m);
        p \<leftarrow> wr_bytes p (b + at_executed_token) (ex_token m);
        p \<leftarrow> be_store32 p (b + at_executed_shares) (ex_shares m);
        p \<leftarrow> be_store32 p (b + at_executed_price) (word_of_int (ex_price m));
        p \<leftarrow> ouch_put_char p (b + at_executed_liquidity) (ex_liquidity m);
        p \<leftarrow> be_store64 p (b + at_executed_match) (ex_match m);
        Some (True, p) })"

definition write_Rejected :: "nat \<Rightarrow> Rejected \<Rightarrow> u8 list \<Rightarrow> (bool \<times> u8 list) option" where
  "write_Rejected b m p = do {
     p \<leftarrow> ouch_put_char p b (asc CHR ''J'');
     p \<leftarrow> be_store64 p (b + at_accepted_ts) (rj_ts m);
     p \<leftarrow> wr_bytes p (b + at_rejected_token) (rj_token m);
     p \<leftarrow> ouch_put_char p (b + at_rejected_reason) (rj_reason m);
     Some (True, p) }"

text \<open>\<open>wr b\<close> is the writer of the message at hand at offset \<open>b\<close>.\<close>

definition emit :: "(nat \<Rightarrow> u8 list \<Rightarrow> (bool \<times> u8 list) option) \<Rightarrow> u8 list \<Rightarrow> nat \<Rightarrow> (nat \<times> u8 list) option" where
  "emit wr out len =
     (if length out < len then Some (0, out)
      else do {
        (written, out) \<leftarrow> wr 0 out;
        Some (if written then len else 0, out) })"

definition emit_framed :: "(nat \<Rightarrow> u8 list \<Rightarrow> (bool \<times> u8 list) option) \<Rightarrow> u8 list \<Rightarrow> nat \<Rightarrow> (nat \<times> u8 list) option" where
  "emit_framed wr out len =
     (if length out < len + 2 then Some (0, out)
      else do {
        (written, out) \<leftarrow> wr 2 out;
        if \<not> written then Some (0, out)
        else do {
          out \<leftarrow> be_store16 out 0 (of_nat len);
          Some (len + 2, out) } })"

section \<open>Decoding\<close>

datatype ouch_inbound = OI_EnterOrder EnterOrder | OI_ReplaceOrder ReplaceOrder | OI_CancelOrder CancelOrder

datatype ouch_outbound = OO_Accepted Accepted | OO_Replaced Replaced | OO_Canceled Canceled
  | OO_Executed Executed | OO_Rejected Rejected

text \<open>\<^verbatim>\<open>deliver<M>\<close>: \<open>rd\<close> is the result of \<^verbatim>\<open>read(p, m)\<close>, \<open>on\<close> the handler's overload for \<^verbatim>\<open>M\<close>.\<close>

definition deliver_one :: "('m \<Rightarrow> 'h \<Rightarrow> 'h) \<Rightarrow> 'm option option \<Rightarrow> 'h \<Rightarrow> (DecodeStatus \<times> 'h) option" where
  "deliver_one on rd h = do {
     m \<leftarrow> rd;
     case m of None \<Rightarrow> Some (DS_bad_field, h) | Some m \<Rightarrow> Some (DS_ok, on m h) }"

definition decode_inbound :: "(ouch_inbound \<Rightarrow> 'h \<Rightarrow> 'h) \<Rightarrow> u8 list \<Rightarrow> 'h \<Rightarrow> (DecodeStatus \<times> 'h) option" where
  "decode_inbound on msg h =
     (if msg = [] then Some (DS_truncated, h)
      else do {
        ty \<leftarrow> get_char msg 0;
        let len = inbound_length ty;
        if len = 0 then Some (DS_unknown_type, h)
        else if length msg < len then Some (DS_truncated, h)
        else if length msg > len then Some (DS_bad_length, h)
        else if ty = asc CHR ''O'' then deliver_one (\<lambda>m. on (OI_EnterOrder m)) (read_EnterOrder msg) h
        else if ty = asc CHR ''U'' then deliver_one (\<lambda>m. on (OI_ReplaceOrder m)) (read_ReplaceOrder msg) h
        else if ty = asc CHR ''X'' then deliver_one (\<lambda>m. on (OI_CancelOrder m)) (read_CancelOrder msg) h
        else Some (DS_unknown_type, h) })"

definition decode_outbound :: "(ouch_outbound \<Rightarrow> 'h \<Rightarrow> 'h) \<Rightarrow> u8 list \<Rightarrow> 'h \<Rightarrow> (DecodeStatus \<times> 'h) option" where
  "decode_outbound on msg h =
     (if msg = [] then Some (DS_truncated, h)
      else do {
        ty \<leftarrow> get_char msg 0;
        let len = outbound_length ty;
        if len = 0 then Some (DS_unknown_type, h)
        else if length msg < len then Some (DS_truncated, h)
        else if length msg > len then Some (DS_bad_length, h)
        else if ty = asc CHR ''A'' then deliver_one (\<lambda>m. on (OO_Accepted m)) (read_Accepted msg) h
        else if ty = asc CHR ''U'' then deliver_one (\<lambda>m. on (OO_Replaced m)) (read_Replaced msg) h
        else if ty = asc CHR ''C'' then deliver_one (\<lambda>m. on (OO_Canceled m)) (read_Canceled msg) h
        else if ty = asc CHR ''E'' then deliver_one (\<lambda>m. on (OO_Executed m)) (read_Executed msg) h
        else if ty = asc CHR ''J'' then deliver_one (\<lambda>m. on (OO_Rejected m)) (read_Rejected msg) h
        else Some (DS_unknown_type, h) })"

text \<open>The loop of \<^verbatim>\<open>deframe\<close>, from the counters \<open>r\<close> on. Its \<^verbatim>\<open>StreamResult\<close> has the fields of the ITCH one.\<close>

function deframe_from ::
  "(u8 list \<Rightarrow> 'h \<Rightarrow> (DecodeStatus \<times> 'h) option) \<Rightarrow> u8 list \<Rightarrow> StreamResult \<Rightarrow> 'h \<Rightarrow> (StreamResult \<times> 'h) option" where
  "deframe_from decode_one buf r h =
     (if length buf - sr_consumed r \<ge> 2 then do {
        len \<leftarrow> map_option unat (be_load16 buf (sr_consumed r));
        if length buf - sr_consumed r - 2 < len then Some (r, h)
        else do {
          (st, h) \<leftarrow> decode_one (take len (drop (sr_consumed r + 2) buf)) h;
          let r = (if st = DS_ok then r\<lparr>sr_messages := sr_messages r + 1\<rparr>
                   else r\<lparr>sr_skipped := sr_skipped r + 1, sr_last_error := st\<rparr>);
          deframe_from decode_one buf (r\<lparr>sr_consumed := sr_consumed r + (2 + len)\<rparr>) h } }
      else Some (r, h))"
  by pat_completeness auto
termination
  by (relation "measure (\<lambda>(d, buf, r, h). length buf - sr_consumed r)") auto

declare deframe_from.simps [simp del]

definition deframe ::
  "(u8 list \<Rightarrow> 'h \<Rightarrow> (DecodeStatus \<times> 'h) option) \<Rightarrow> u8 list \<Rightarrow> 'h \<Rightarrow> (StreamResult \<times> 'h) option" where
  "deframe decode_one buf h = deframe_from decode_one buf StreamResult_new h"

definition decode_inbound_stream ::
  "(ouch_inbound \<Rightarrow> 'h \<Rightarrow> 'h) \<Rightarrow> u8 list \<Rightarrow> 'h \<Rightarrow> (StreamResult \<times> 'h) option" where
  "decode_inbound_stream on buf h = deframe (decode_inbound on) buf h"

definition decode_outbound_stream ::
  "(ouch_outbound \<Rightarrow> 'h \<Rightarrow> 'h) \<Rightarrow> u8 list \<Rightarrow> 'h \<Rightarrow> (StreamResult \<times> 'h) option" where
  "decode_outbound_stream on buf h = deframe (decode_outbound on) buf h"

section \<open>Encoding\<close>

fun encode_inbound :: "ouch_inbound \<Rightarrow> u8 list \<Rightarrow> (nat \<times> u8 list) option" where
  "encode_inbound (OI_EnterOrder m) out = emit (\<lambda>b. write_EnterOrder b m) out kEnterOrderLength"
| "encode_inbound (OI_ReplaceOrder m) out = emit (\<lambda>b. write_ReplaceOrder b m) out kReplaceOrderLength"
| "encode_inbound (OI_CancelOrder m) out = emit (\<lambda>b. write_CancelOrder b m) out kCancelOrderLength"

fun encode_outbound :: "ouch_outbound \<Rightarrow> u8 list \<Rightarrow> (nat \<times> u8 list) option" where
  "encode_outbound (OO_Accepted m) out = emit (\<lambda>b. write_Accepted b m) out kAcceptedLength"
| "encode_outbound (OO_Replaced m) out = emit (\<lambda>b. write_Replaced b m) out kReplacedLength"
| "encode_outbound (OO_Canceled m) out = emit (\<lambda>b. write_Canceled b m) out kCanceledLength"
| "encode_outbound (OO_Executed m) out = emit (\<lambda>b. write_Executed b m) out kExecutedLength"
| "encode_outbound (OO_Rejected m) out = emit (\<lambda>b. write_Rejected b m) out kRejectedLength"

fun encode_framed_inbound :: "ouch_inbound \<Rightarrow> u8 list \<Rightarrow> (nat \<times> u8 list) option" where
  "encode_framed_inbound (OI_EnterOrder m) out = emit_framed (\<lambda>b. write_EnterOrder b m) out kEnterOrderLength"
| "encode_framed_inbound (OI_ReplaceOrder m) out = emit_framed (\<lambda>b. write_ReplaceOrder b m) out kReplaceOrderLength"
| "encode_framed_inbound (OI_CancelOrder m) out = emit_framed (\<lambda>b. write_CancelOrder b m) out kCancelOrderLength"

fun encode_framed_outbound :: "ouch_outbound \<Rightarrow> u8 list \<Rightarrow> (nat \<times> u8 list) option" where
  "encode_framed_outbound (OO_Accepted m) out = emit_framed (\<lambda>b. write_Accepted b m) out kAcceptedLength"
| "encode_framed_outbound (OO_Replaced m) out = emit_framed (\<lambda>b. write_Replaced b m) out kReplacedLength"
| "encode_framed_outbound (OO_Canceled m) out = emit_framed (\<lambda>b. write_Canceled b m) out kCanceledLength"
| "encode_framed_outbound (OO_Executed m) out = emit_framed (\<lambda>b. write_Executed b m) out kExecutedLength"
| "encode_framed_outbound (OO_Rejected m) out = emit_framed (\<lambda>b. write_Rejected b m) out kRejectedLength"

section \<open>Wire images and validity\<close>

fun inbound_bytes :: "ouch_inbound \<Rightarrow> u8 list" where
  "inbound_bytes (OI_EnterOrder m) = [asc CHR ''O''] @ eo_token m @ [ouch_side_char (eo_side m) (eo_short_sell m)] @
     be_bytes32 (eo_shares m) @ eo_stock m @ be_bytes32 (word_of_int (eo_price m)) @ be_bytes32 (eo_time_in_force m) @
     eo_firm m @ [eo_display m] @ [eo_capacity m] @ [eo_intermarket_sweep m] @ be_bytes32 (eo_min_qty m) @
     [eo_cross_type m] @ [eo_customer_type m]"
| "inbound_bytes (OI_ReplaceOrder m) = [asc CHR ''U''] @ ro_existing m @ ro_replacement m @ be_bytes32 (ro_shares m) @
     be_bytes32 (word_of_int (ro_price m)) @ be_bytes32 (ro_time_in_force m) @ [ro_display m] @
     [ro_intermarket_sweep m] @ be_bytes32 (ro_min_qty m)"
| "inbound_bytes (OI_CancelOrder m) = [asc CHR ''X''] @ co_token m @ be_bytes32 (co_shares m)"

definition accepted_bytes :: "u8 \<Rightarrow> Accepted \<Rightarrow> u8 list" where
  "accepted_bytes ty m = [ty] @ be_bytes64 (ac_ts m) @ ac_token m @ [ouch_side_char (ac_side m) False] @
     be_bytes32 (ac_shares m) @ ac_stock m @ be_bytes32 (word_of_int (ac_price m)) @ be_bytes32 (ac_time_in_force m) @
     ac_firm m @ [ac_display m] @ be_bytes64 (ac_ref m) @ [ac_capacity m] @ [ac_intermarket_sweep m] @
     be_bytes32 (ac_min_qty m) @ [ac_cross_type m] @ [ac_order_state m]"

fun outbound_bytes :: "ouch_outbound \<Rightarrow> u8 list" where
  "outbound_bytes (OO_Accepted m) = accepted_bytes (asc CHR ''A'') m @ [ac_bbo_weight m]"
| "outbound_bytes (OO_Replaced m) = accepted_bytes (asc CHR ''U'') (rp_a m) @ rp_previous m @ [ac_bbo_weight (rp_a m)]"
| "outbound_bytes (OO_Canceled m) = [asc CHR ''C''] @ be_bytes64 (cn_ts m) @ cn_token m @
     be_bytes32 (cn_decrement m) @ [cn_reason m]"
| "outbound_bytes (OO_Executed m) = [asc CHR ''E''] @ be_bytes64 (ex_ts m) @ ex_token m @ be_bytes32 (ex_shares m) @
     be_bytes32 (word_of_int (ex_price m)) @ [ex_liquidity m] @ be_bytes64 (ex_match m)"
| "outbound_bytes (OO_Rejected m) = [asc CHR ''J''] @ be_bytes64 (rj_ts m) @ rj_token m @ [rj_reason m]"

text \<open>The array sizes that the C++ types fix, and the price of a message.\<close>

fun inbound_sized :: "ouch_inbound \<Rightarrow> bool" where
  "inbound_sized (OI_EnterOrder m) = (length (eo_token m) = 14 \<and> length (eo_stock m) = 8 \<and> length (eo_firm m) = 4)"
| "inbound_sized (OI_ReplaceOrder m) = (length (ro_existing m) = 14 \<and> length (ro_replacement m) = 14)"
| "inbound_sized (OI_CancelOrder m) = (length (co_token m) = 14)"

definition accepted_sized :: "Accepted \<Rightarrow> bool" where
  "accepted_sized m = (length (ac_token m) = 14 \<and> length (ac_stock m) = 8 \<and> length (ac_firm m) = 4)"

fun outbound_sized :: "ouch_outbound \<Rightarrow> bool" where
  "outbound_sized (OO_Accepted m) = accepted_sized m"
| "outbound_sized (OO_Replaced m) = (accepted_sized (rp_a m) \<and> length (rp_previous m) = 14)"
| "outbound_sized (OO_Canceled m) = (length (cn_token m) = 14)"
| "outbound_sized (OO_Executed m) = (length (ex_token m) = 14)"
| "outbound_sized (OO_Rejected m) = (length (rj_token m) = 14)"

fun inbound_price :: "ouch_inbound \<Rightarrow> Price" where
  "inbound_price (OI_EnterOrder m) = eo_price m"
| "inbound_price (OI_ReplaceOrder m) = ro_price m"
| "inbound_price (OI_CancelOrder m) = 0"

fun outbound_price :: "ouch_outbound \<Rightarrow> Price" where
  "outbound_price (OO_Accepted m) = ac_price m"
| "outbound_price (OO_Replaced m) = ac_price (rp_a m)"
| "outbound_price (OO_Executed m) = ex_price m"
| "outbound_price m = 0"

text \<open>What a decoded message satisfies.\<close>

fun inbound_valid :: "ouch_inbound \<Rightarrow> bool" where
  "inbound_valid (OI_EnterOrder m) = (inbound_sized (OI_EnterOrder m) \<and> ouch_fits_wire_price (eo_price m) \<and>
     valid_order_shares (eo_shares m) \<and> valid_side (eo_side m) \<and> (eo_short_sell m \<longrightarrow> eo_side m = Side_sell))"
| "inbound_valid (OI_ReplaceOrder m) = (inbound_sized (OI_ReplaceOrder m) \<and> ouch_fits_wire_price (ro_price m) \<and>
     valid_order_shares (ro_shares m))"
| "inbound_valid (OI_CancelOrder m) = inbound_sized (OI_CancelOrder m)"

definition accepted_valid :: "Accepted \<Rightarrow> bool" where
  "accepted_valid m = (accepted_sized m \<and> ouch_fits_wire_price (ac_price m) \<and> valid_side (ac_side m) \<and>
     (ac_order_state m = asc CHR ''L'' \<or> ac_order_state m = asc CHR ''D''))"

fun outbound_valid :: "ouch_outbound \<Rightarrow> bool" where
  "outbound_valid (OO_Accepted m) = accepted_valid m"
| "outbound_valid (OO_Replaced m) = (accepted_valid (rp_a m) \<and> length (rp_previous m) = 14)"
| "outbound_valid (OO_Executed m) = (outbound_sized (OO_Executed m) \<and> ouch_fits_wire_price (ex_price m))"
| "outbound_valid m = outbound_sized m"

section \<open>The writers write the image\<close>

text \<open>A writer that stores the image \<open>bs\<close> at its offset when \<open>ok\<close> holds, and nothing otherwise.\<close>

definition writes :: "(nat \<Rightarrow> u8 list \<Rightarrow> (bool \<times> u8 list) option) \<Rightarrow> bool \<Rightarrow> u8 list \<Rightarrow> bool" where
  "writes wr ok bs = (\<forall>b p. wr b p = (if ok then map_option (Pair True) (wr_bytes p b bs) else Some (False, p)))"

lemma emit_image:
  assumes "writes wr ok bs" "length bs = len"
  shows "emit wr out len = (if length out < len \<or> \<not> ok then Some (0, out) else Some (len, bs @ drop len out))"
  using assms by (auto simp: emit_def writes_def wr_bytes_front)

lemma emit_framed_image:
  assumes "writes wr ok bs" "length bs = len"
  shows "emit_framed wr out len =
    (if length out < len + 2 \<or> \<not> ok then Some (0, out) else Some (len + 2, frame bs @ drop (len + 2) out))"
  using assms by (auto simp: emit_framed_def writes_def be_store16_wr wr_bytes_def blit_def frame_def add.commute)

lemmas writer_simps = ouch_put_char_def wr8_wr_bytes be_store16_wr be_store32_wr be_store64_wr
  wr_bytes_bind_append wr_bytes_bind_more ouch_offsets map_conv_bind_option comp_def

lemma write_accepted_image:
  "accepted_sized m \<Longrightarrow> write_accepted_common b ty m p = wr_bytes p b (accepted_bytes ty m)"
  by (simp add: write_accepted_common_def accepted_sized_def accepted_bytes_def writer_simps)

lemma length_accepted_bytes: "accepted_sized m \<Longrightarrow> length (accepted_bytes ty m) = 65"
  by (simp add: accepted_sized_def accepted_bytes_def)

lemma writers_image:
  "inbound_sized (OI_EnterOrder e) \<Longrightarrow>
     writes (\<lambda>b. write_EnterOrder b e) (ouch_fits_wire_price (eo_price e)) (inbound_bytes (OI_EnterOrder e))"
  "inbound_sized (OI_ReplaceOrder r) \<Longrightarrow>
     writes (\<lambda>b. write_ReplaceOrder b r) (ouch_fits_wire_price (ro_price r)) (inbound_bytes (OI_ReplaceOrder r))"
  "inbound_sized (OI_CancelOrder c) \<Longrightarrow> writes (\<lambda>b. write_CancelOrder b c) True (inbound_bytes (OI_CancelOrder c))"
  "outbound_sized (OO_Accepted a) \<Longrightarrow>
     writes (\<lambda>b. write_Accepted b a) (ouch_fits_wire_price (ac_price a)) (outbound_bytes (OO_Accepted a))"
  "outbound_sized (OO_Replaced rp) \<Longrightarrow>
     writes (\<lambda>b. write_Replaced b rp) (ouch_fits_wire_price (ac_price (rp_a rp))) (outbound_bytes (OO_Replaced rp))"
  "outbound_sized (OO_Canceled cn) \<Longrightarrow> writes (\<lambda>b. write_Canceled b cn) True (outbound_bytes (OO_Canceled cn))"
  "outbound_sized (OO_Executed x) \<Longrightarrow>
     writes (\<lambda>b. write_Executed b x) (ouch_fits_wire_price (ex_price x)) (outbound_bytes (OO_Executed x))"
  "outbound_sized (OO_Rejected j) \<Longrightarrow> writes (\<lambda>b. write_Rejected b j) True (outbound_bytes (OO_Rejected j))"
  by (simp_all add: writes_def write_EnterOrder_def write_ReplaceOrder_def write_CancelOrder_def write_Accepted_def
      write_Replaced_def write_Canceled_def write_Executed_def write_Rejected_def write_accepted_image
      length_accepted_bytes writer_simps)

lemma ouch_price_0 [simp]: "ouch_fits_wire_price 0"
  by (simp add: ouch_fits_wire_price_def)

lemma length_inbound_bytes:
  "inbound_sized m \<Longrightarrow> length (inbound_bytes m) = inbound_length (hd (inbound_bytes m))"
  by (cases m) (auto simp: inbound_length_def ouch_length_defs)

lemma hd_accepted_bytes: "hd (accepted_bytes ty m @ bs) = ty"
  by (simp add: accepted_bytes_def)

lemma length_outbound_bytes:
  "outbound_sized m \<Longrightarrow> length (outbound_bytes m) = outbound_length (hd (outbound_bytes m))"
  by (cases m) (auto simp: outbound_length_def ouch_length_defs length_accepted_bytes hd_accepted_bytes)

lemma encode_inbound_image:
  assumes "inbound_sized m"
  defines "n \<equiv> length (inbound_bytes m)"
  shows "encode_inbound m out =
      (if length out < n \<or> \<not> ouch_fits_wire_price (inbound_price m) then Some (0, out)
       else Some (n, inbound_bytes m @ drop n out))"
    and "encode_framed_inbound m out =
      (if length out < n + 2 \<or> \<not> ouch_fits_wire_price (inbound_price m) then Some (0, out)
       else Some (n + 2, frame (inbound_bytes m) @ drop (n + 2) out))"
  using assms length_inbound_bytes [OF assms(1)]
  by (cases m; simp add: emit_image [OF writers_image(1)] emit_image [OF writers_image(2)] emit_image [OF writers_image(3)]
      emit_framed_image [OF writers_image(1)] emit_framed_image [OF writers_image(2)]
      emit_framed_image [OF writers_image(3)] ouch_length_defs)+

lemma encode_outbound_image:
  assumes "outbound_sized m"
  defines "n \<equiv> length (outbound_bytes m)"
  shows "encode_outbound m out =
      (if length out < n \<or> \<not> ouch_fits_wire_price (outbound_price m) then Some (0, out)
       else Some (n, outbound_bytes m @ drop n out))"
    and "encode_framed_outbound m out =
      (if length out < n + 2 \<or> \<not> ouch_fits_wire_price (outbound_price m) then Some (0, out)
       else Some (n + 2, frame (outbound_bytes m) @ drop (n + 2) out))"
  using assms length_outbound_bytes [OF assms(1)]
  by (cases m; simp add: emit_image [OF writers_image(4)] emit_image [OF writers_image(5)] emit_image [OF writers_image(6)]
      emit_image [OF writers_image(7)] emit_image [OF writers_image(8)]
      emit_framed_image [OF writers_image(4)] emit_framed_image [OF writers_image(5)]
      emit_framed_image [OF writers_image(6)] emit_framed_image [OF writers_image(7)]
      emit_framed_image [OF writers_image(8)] ouch_length_defs length_accepted_bytes)+

section \<open>The readers read the image\<close>

lemma wire_price_word:
  "be_load32 p i = Some (word_of_int px) \<Longrightarrow> ouch_fits_wire_price px \<Longrightarrow> wire_price p i = Some px"
  by (simp add: wire_price_def ouch_fits_wire_price_def take_bit_int_eq_self unsigned_of_int)

lemma parse_side_char:
  "valid_side s \<Longrightarrow> (sh \<longrightarrow> s = Side_sell) \<Longrightarrow> parse_side (ouch_side_char s sh) = Some (s, sh)"
  "valid_side s \<Longrightarrow> \<exists>sh. parse_side (ouch_side_char s False) = Some (s, sh)"
  by (auto simp: parse_side_def ouch_side_char_def elim!: valid_side_cases)

lemmas reader_simps = get_char_def Token_from_wire_def Symbol_from_wire_def kTokenSize_def kSymbolSize_def
  ouch_offsets image_simps

lemma read_inbound_image:
  "inbound_valid (OI_EnterOrder e) \<Longrightarrow> read_EnterOrder (inbound_bytes (OI_EnterOrder e)) = Some (Some e)"
  "inbound_valid (OI_ReplaceOrder r) \<Longrightarrow> read_ReplaceOrder (inbound_bytes (OI_ReplaceOrder r)) = Some (Some r)"
  "inbound_valid (OI_CancelOrder c) \<Longrightarrow> read_CancelOrder (inbound_bytes (OI_CancelOrder c)) = Some (Some c)"
proof -
  show "inbound_valid (OI_EnterOrder e) \<Longrightarrow> read_EnterOrder (inbound_bytes (OI_EnterOrder e)) = Some (Some e)"
    by (cases e) (simp add: read_EnterOrder_def reader_simps wire_price_word parse_side_char)
  show "inbound_valid (OI_ReplaceOrder r) \<Longrightarrow> read_ReplaceOrder (inbound_bytes (OI_ReplaceOrder r)) = Some (Some r)"
    by (cases r) (simp add: read_ReplaceOrder_def reader_simps wire_price_word)
  show "inbound_valid (OI_CancelOrder c) \<Longrightarrow> read_CancelOrder (inbound_bytes (OI_CancelOrder c)) = Some (Some c)"
    by (cases c) (simp add: read_CancelOrder_def reader_simps)
qed

lemma read_accepted_image:
  assumes "accepted_valid m"
  shows "read_accepted_common (accepted_bytes ty m @ bs) = Some (Some (m\<lparr>ac_bbo_weight := asc CHR '' ''\<rparr>))"
  using assms parse_side_char(1) [of "ac_side m" False]
  by (cases m) (auto simp: read_accepted_common_def accepted_bytes_def accepted_valid_def accepted_sized_def reader_simps
      wire_price_word)

lemma read_outbound_image:
  "outbound_valid (OO_Accepted a) \<Longrightarrow> read_Accepted (outbound_bytes (OO_Accepted a)) = Some (Some a)"
  "outbound_valid (OO_Replaced rp) \<Longrightarrow> read_Replaced (outbound_bytes (OO_Replaced rp)) = Some (Some rp)"
  "outbound_valid (OO_Canceled cn) \<Longrightarrow> read_Canceled (outbound_bytes (OO_Canceled cn)) = Some (Some cn)"
  "outbound_valid (OO_Executed x) \<Longrightarrow> read_Executed (outbound_bytes (OO_Executed x)) = Some (Some x)"
  "outbound_valid (OO_Rejected j) \<Longrightarrow> read_Rejected (outbound_bytes (OO_Rejected j)) = Some (Some j)"
proof -
  show "outbound_valid (OO_Accepted a) \<Longrightarrow> read_Accepted (outbound_bytes (OO_Accepted a)) = Some (Some a)"
    by (simp add: read_Accepted_def read_accepted_image accepted_valid_def length_accepted_bytes reader_simps)
  show "outbound_valid (OO_Replaced rp) \<Longrightarrow> read_Replaced (outbound_bytes (OO_Replaced rp)) = Some (Some rp)"
    by (simp add: read_Replaced_def read_accepted_image accepted_valid_def length_accepted_bytes reader_simps)
  show "outbound_valid (OO_Canceled cn) \<Longrightarrow> read_Canceled (outbound_bytes (OO_Canceled cn)) = Some (Some cn)"
    by (cases cn) (simp add: read_Canceled_def reader_simps)
  show "outbound_valid (OO_Executed x) \<Longrightarrow> read_Executed (outbound_bytes (OO_Executed x)) = Some (Some x)"
    by (cases x) (simp add: read_Executed_def reader_simps wire_price_word)
  show "outbound_valid (OO_Rejected j) \<Longrightarrow> read_Rejected (outbound_bytes (OO_Rejected j)) = Some (Some j)"
    by (cases j) (simp add: read_Rejected_def reader_simps)
qed

text \<open>Both decoders run the same checks before the type switch.\<close>

definition inbound_body :: "(ouch_inbound \<Rightarrow> 'h \<Rightarrow> 'h) \<Rightarrow> u8 \<Rightarrow> u8 list \<Rightarrow> 'h \<Rightarrow> (DecodeStatus \<times> 'h) option" where
  "inbound_body on ty msg h =
     (if ty = asc CHR ''O'' then deliver_one (\<lambda>m. on (OI_EnterOrder m)) (read_EnterOrder msg) h
      else if ty = asc CHR ''U'' then deliver_one (\<lambda>m. on (OI_ReplaceOrder m)) (read_ReplaceOrder msg) h
      else if ty = asc CHR ''X'' then deliver_one (\<lambda>m. on (OI_CancelOrder m)) (read_CancelOrder msg) h
      else Some (DS_unknown_type, h))"

definition outbound_body :: "(ouch_outbound \<Rightarrow> 'h \<Rightarrow> 'h) \<Rightarrow> u8 \<Rightarrow> u8 list \<Rightarrow> 'h \<Rightarrow> (DecodeStatus \<times> 'h) option" where
  "outbound_body on ty msg h =
     (if ty = asc CHR ''A'' then deliver_one (\<lambda>m. on (OO_Accepted m)) (read_Accepted msg) h
      else if ty = asc CHR ''U'' then deliver_one (\<lambda>m. on (OO_Replaced m)) (read_Replaced msg) h
      else if ty = asc CHR ''C'' then deliver_one (\<lambda>m. on (OO_Canceled m)) (read_Canceled msg) h
      else if ty = asc CHR ''E'' then deliver_one (\<lambda>m. on (OO_Executed m)) (read_Executed msg) h
      else if ty = asc CHR ''J'' then deliver_one (\<lambda>m. on (OO_Rejected m)) (read_Rejected msg) h
      else Some (DS_unknown_type, h))"

lemma decode_inbound_dispatch:
  "decode_inbound on msg h =
     (if msg = [] then Some (DS_truncated, h)
      else if inbound_length (hd msg) = 0 then Some (DS_unknown_type, h)
      else if length msg < inbound_length (hd msg) then Some (DS_truncated, h)
      else if length msg > inbound_length (hd msg) then Some (DS_bad_length, h)
      else inbound_body on (hd msg) msg h)"
  by (auto simp: decode_inbound_def get_char_def rd8_def hd_conv_nth Let_def inbound_body_def)

lemma decode_outbound_dispatch:
  "decode_outbound on msg h =
     (if msg = [] then Some (DS_truncated, h)
      else if outbound_length (hd msg) = 0 then Some (DS_unknown_type, h)
      else if length msg < outbound_length (hd msg) then Some (DS_truncated, h)
      else if length msg > outbound_length (hd msg) then Some (DS_bad_length, h)
      else outbound_body on (hd msg) msg h)"
  by (auto simp: decode_outbound_def get_char_def rd8_def hd_conv_nth Let_def outbound_body_def)

lemma hd_inbound_bytes:
  "hd (inbound_bytes (OI_EnterOrder e)) = asc CHR ''O''" "hd (inbound_bytes (OI_ReplaceOrder r)) = asc CHR ''U''"
  "hd (inbound_bytes (OI_CancelOrder c)) = asc CHR ''X''"
  by simp_all

lemma hd_outbound_bytes:
  "hd (outbound_bytes (OO_Accepted a)) = asc CHR ''A''" "hd (outbound_bytes (OO_Replaced rp)) = asc CHR ''U''"
  "hd (outbound_bytes (OO_Canceled cn)) = asc CHR ''C''" "hd (outbound_bytes (OO_Executed x)) = asc CHR ''E''"
  "hd (outbound_bytes (OO_Rejected j)) = asc CHR ''J''"
  by (simp_all add: hd_accepted_bytes)

lemma valid_sized:
  "inbound_valid m \<Longrightarrow> inbound_sized m" "outbound_valid k \<Longrightarrow> outbound_sized k"
  "inbound_valid m \<Longrightarrow> ouch_fits_wire_price (inbound_price m)"
  "outbound_valid k \<Longrightarrow> ouch_fits_wire_price (outbound_price k)"
  by (cases m; cases k; simp add: accepted_valid_def)+

lemma decode_inbound_image:
  assumes "inbound_valid m"
  shows "decode_inbound on (inbound_bytes m) h = Some (DS_ok, on m h)"
proof -
  have len: "length (inbound_bytes m) = inbound_length (hd (inbound_bytes m))"
    using assms by (simp add: valid_sized length_inbound_bytes)
  have ne: "inbound_bytes m \<noteq> []" by (cases m) simp_all
  with len have "inbound_length (hd (inbound_bytes m)) \<noteq> 0" by (metis length_0_conv)
  moreover have "inbound_body on (hd (inbound_bytes m)) (inbound_bytes m) h = Some (DS_ok, on m h)"
    using assms by (cases m)
      (simp_all only: hd_inbound_bytes inbound_body_def read_inbound_image, simp_all add: deliver_one_def)
  ultimately show ?thesis using len ne by (simp add: decode_inbound_dispatch)
qed

lemma decode_outbound_image:
  assumes "outbound_valid m"
  shows "decode_outbound on (outbound_bytes m) h = Some (DS_ok, on m h)"
proof -
  have len: "length (outbound_bytes m) = outbound_length (hd (outbound_bytes m))"
    using assms by (simp add: valid_sized length_outbound_bytes)
  have ne: "outbound_bytes m \<noteq> []" by (cases m) (simp_all add: accepted_bytes_def)
  with len have "outbound_length (hd (outbound_bytes m)) \<noteq> 0" by (metis length_0_conv)
  moreover have "outbound_body on (hd (outbound_bytes m)) (outbound_bytes m) h = Some (DS_ok, on m h)"
    using assms by (cases m)
      (simp_all only: hd_outbound_bytes outbound_body_def read_outbound_image, simp_all add: deliver_one_def)
  ultimately show ?thesis using len ne by (simp add: decode_outbound_dispatch)
qed

section \<open>The decoders return on every span\<close>

text \<open>
  The illegal fields on the bytes of a message, as the comments of \<^verbatim>\<open>codec.hpp\<close> list them: a side character other
  than B, S, T and E, a quantity outside 1 to 999,999 in an order or a replacement, an order state other than
  L and D. Every byte carries over into the decoded struct but the side character: E (short, exempt) is
  read as T, and the client side of an accepted order has no short flag.
\<close>

definition ouch_sides :: "u8 set" where
  "ouch_sides = {asc CHR ''B'', asc CHR ''S'', asc CHR ''T'', asc CHR ''E''}"

definition bad_shares :: "u8 list \<Rightarrow> nat \<Rightarrow> bool" where
  "bad_shares msg i \<longleftrightarrow> (\<exists>q. be_load32 msg i = Some q \<and> \<not> (1 \<le> unat q \<and> unat q \<le> 999999))"

definition inbound_bad_field :: "u8 list \<Rightarrow> bool" where
  "inbound_bad_field msg \<longleftrightarrow> hd msg = asc CHR ''O'' \<and> (msg ! 15 \<notin> ouch_sides \<or> bad_shares msg 16) \<or>
     hd msg = asc CHR ''U'' \<and> bad_shares msg 29"

definition outbound_bad_field :: "u8 list \<Rightarrow> bool" where
  "outbound_bad_field msg \<longleftrightarrow> hd msg \<in> {asc CHR ''A'', asc CHR ''U''} \<and>
     (msg ! 23 \<notin> ouch_sides \<or> msg ! 64 \<notin> {asc CHR ''L'', asc CHR ''D''})"

definition inbound_canonical :: "u8 list \<Rightarrow> u8 list" where
  "inbound_canonical msg = (if hd msg = asc CHR ''O'' \<and> msg ! 15 = asc CHR ''E'' then msg[15 := asc CHR ''T''] else msg)"

definition outbound_canonical :: "u8 list \<Rightarrow> u8 list" where
  "outbound_canonical msg =
     (if hd msg \<in> {asc CHR ''A'', asc CHR ''U''} \<and> msg ! 23 \<in> {asc CHR ''T'', asc CHR ''E''} then msg[23 := asc CHR ''S''] else msg)"

lemma length_ouch_canonical: "length (inbound_canonical p) = length p" "length (outbound_canonical p) = length p"
  by (simp_all add: inbound_canonical_def outbound_canonical_def)

lemma set_byte: "i < length p \<Longrightarrow> (if c then p[i := x] else p) = take i p @ (if c then x else p ! i) # drop (Suc i) p"
  using id_take_nth_drop [of i p] by (simp add: upd_conv_take_nth_drop)

lemma order_canonical:
  "hd p = asc CHR ''O'' \<Longrightarrow> length p = 49 \<Longrightarrow>
     inbound_canonical p = take 15 p @ (if p ! 15 = asc CHR ''E'' then asc CHR ''T'' else p ! 15) # drop 16 p"
  using set_byte [of 15 p "p ! 15 = asc CHR ''E''" "asc CHR ''T''"] by (simp add: inbound_canonical_def)

lemma accepted_canonical:
  assumes "hd p \<in> {asc CHR ''A'', asc CHR ''U''}" "66 \<le> length p"
  shows "outbound_canonical p = take 23 p @ (if p ! 23 \<in> {asc CHR ''T'', asc CHR ''E''} then asc CHR ''S'' else p ! 23) # drop 24 p"
  using assms set_byte [of 23 p "p ! 23 \<in> {asc CHR ''T'', asc CHR ''E''}" "asc CHR ''S''"] by (simp add: outbound_canonical_def)

lemma plain_ouch:
  "hd p \<noteq> asc CHR ''O'' \<Longrightarrow> inbound_canonical p = p" "hd p \<notin> {asc CHR ''A'', asc CHR ''U''} \<Longrightarrow> outbound_canonical p = p"
  "hd p \<notin> {asc CHR ''A'', asc CHR ''U''} \<Longrightarrow> \<not> outbound_bad_field p"
  by (simp_all add: inbound_canonical_def outbound_canonical_def outbound_bad_field_def)

text \<open>A reader that stays inside its span, refuses exactly when \<open>B\<close>, and whose result otherwise satisfies \<open>P\<close>.\<close>

definition reads :: "bool \<Rightarrow> ('m \<Rightarrow> bool) \<Rightarrow> 'm option option \<Rightarrow> bool" where
  "reads B P rd \<longleftrightarrow> (\<exists>x. rd = Some x \<and> (case x of None \<Rightarrow> B | Some m \<Rightarrow> \<not> B \<and> P m))"

lemma reads_bind: "\<exists>x. v = Some x \<Longrightarrow> (\<And>x. v = Some x \<Longrightarrow> reads B P (f x)) \<Longrightarrow> reads B P (v \<bind> f)"
  by auto

lemma reads_refuse: "B \<Longrightarrow> reads B P (Some None)"
  by (simp add: reads_def)

lemma reads_accept: "P m \<Longrightarrow> \<not> B \<Longrightarrow> reads B P (Some (Some m))"
  by (simp add: reads_def)

lemma wire_price_ok:
  "i + 4 \<le> length p \<Longrightarrow> \<exists>px. wire_price p i = Some px"
  "wire_price p i = Some px \<Longrightarrow> ouch_fits_wire_price px \<and> be_bytes32 (word_of_int px) = take 4 (drop i p)"
proof -
  show "i + 4 \<le> length p \<Longrightarrow> \<exists>px. wire_price p i = Some px"
    using be_load32_Some [of i p] by (auto simp: wire_price_def)
  assume "wire_price p i = Some px"
  then obtain w :: u32 where w: "px = uint w" "be_load32 p i = Some w" by (auto simp: wire_price_def)
  then show "ouch_fits_wire_price px \<and> be_bytes32 (word_of_int px) = take 4 (drop i p)"
    using unsigned_less [where 'a = int, of w] be_load32_bytes [OF w(2)] by (simp add: ouch_fits_wire_price_def)
qed

lemma parse_side_None: "parse_side c = None \<longleftrightarrow> c \<notin> ouch_sides"
  by (simp add: parse_side_def ouch_sides_def)

lemma parse_side_ok:
  "parse_side c = Some (s, sh) \<Longrightarrow> c \<in> ouch_sides \<and> valid_side s \<and> (sh \<longrightarrow> s = Side_sell) \<and>
     ouch_side_char s sh = (if c = asc CHR ''E'' then asc CHR ''T'' else c) \<and>
     ouch_side_char s False = (if c \<in> {asc CHR ''T'', asc CHR ''E''} then asc CHR ''S'' else c)"
  by (auto simp: parse_side_def ouch_sides_def ouch_side_char_def split: if_splits)

lemma bad_shares_valid: "be_load32 p i = Some q \<Longrightarrow> bad_shares p i = (\<not> valid_order_shares q)"
  by (simp add: bad_shares_def valid_order_shares_def kMaxOrderQty_def word_le_nat_alt)

lemmas reader_total = wire_price_ok(1) rd_block_ok(1) load_total
lemmas reader_facts = wire_price_ok(2) rd_bytes_at be_load32_bytes be_load64_bytes rd8_at
lemmas reader_defs = get_char_def Token_from_wire_def Symbol_from_wire_def kTokenSize_def kSymbolSize_def ouch_offsets

text \<open>The type byte in front of the fields.\<close>

lemma type_front:
  assumes "p \<noteq> []" "hd p = c"
  shows "c # drop (Suc 0) p = p" "c # take n (drop (Suc 0) p) = take (Suc n) p" "c # take n (drop (Suc 0) p) @ zs = take (Suc n) p @ zs"
  using assms by (cases p; simp)+

lemma read_EnterOrder_reads:
  assumes "length p = 49" "hd p = asc CHR ''O''"
  shows "reads (inbound_bad_field p) (\<lambda>m. inbound_valid (OI_EnterOrder m) \<and> inbound_bytes (OI_EnterOrder m) = inbound_canonical p) (read_EnterOrder p)"
proof (cases "parse_side (p ! 15)")
  case None
  then have "inbound_bad_field p" using assms(2) parse_side_None by (auto simp: inbound_bad_field_def)
  then show ?thesis using assms(1) None by (simp add: read_EnterOrder_def reader_defs rd8_def reads_refuse)
next
  case (Some x)
  obtain s sh where x: "parse_side (p ! 15) = Some (s, sh)" using Some by (cases x) simp
  note sd = parse_side_ok [OF x]
  obtain q where q: "be_load32 p 16 = Some q" using be_load32_Some [of 16 p] assms(1) by auto
  have bad: "inbound_bad_field p = (\<not> valid_order_shares q)" using assms(2) sd bad_shares_valid [OF q] by (auto simp: inbound_bad_field_def)
  have "p \<noteq> []" using assms(1) by auto
  then show ?thesis
    using assms bad sd be_load32_bytes [OF q]
    by (auto simp: read_EnterOrder_def reader_defs rd8_def x q order_canonical [OF assms(2,1)] slice_glue type_front
        intro!: reads_bind reads_refuse reads_accept reader_total dest!: reader_facts)
qed

lemma read_ReplaceOrder_reads:
  assumes "length p = 47" "hd p = asc CHR ''U''"
  shows "reads (inbound_bad_field p) (\<lambda>m. inbound_valid (OI_ReplaceOrder m) \<and> inbound_bytes (OI_ReplaceOrder m) = inbound_canonical p) (read_ReplaceOrder p)"
proof -
  obtain q where q: "be_load32 p 29 = Some q" using be_load32_Some [of 29 p] assms(1) by auto
  have bad: "inbound_bad_field p = (\<not> valid_order_shares q)" using assms(2) bad_shares_valid [OF q] by (auto simp: inbound_bad_field_def)
  have "p \<noteq> []" using assms(1) by auto
  then show ?thesis
    using assms bad be_load32_bytes [OF q]
    by (auto simp: read_ReplaceOrder_def reader_defs q plain_ouch slice_glue type_front
        intro!: reads_bind reads_refuse reads_accept reader_total dest!: reader_facts)
qed

lemma read_CancelOrder_reads:
  assumes "length p = 19" "hd p = asc CHR ''X''"
  shows "reads (inbound_bad_field p) (\<lambda>m. inbound_valid (OI_CancelOrder m) \<and> inbound_bytes (OI_CancelOrder m) = inbound_canonical p) (read_CancelOrder p)"
proof -
  have "p \<noteq> []" using assms(1) by auto
  then show ?thesis
    using assms
    by (auto simp: read_CancelOrder_def reader_defs plain_ouch slice_glue type_front inbound_bad_field_def
        intro!: reads_bind reads_refuse reads_accept reader_total dest!: reader_facts)
qed

lemma accepted_reader:
  assumes "66 \<le> length p" "hd p = ty" "ty \<in> {asc CHR ''A'', asc CHR ''U''}"
  shows "reads (outbound_bad_field p) (\<lambda>m. accepted_valid m \<and> accepted_bytes ty m = take 65 (outbound_canonical p)) (read_accepted_common p)"
proof (cases "parse_side (p ! 23)")
  case None
  then have "outbound_bad_field p" using assms(2,3) parse_side_None by (auto simp: outbound_bad_field_def)
  then show ?thesis using assms(1) None by (simp add: read_accepted_common_def reader_defs rd8_def reads_refuse)
next
  case (Some x)
  obtain s sh where x: "parse_side (p ! 23) = Some (s, sh)" using Some by (cases x) simp
  note sd = parse_side_ok [OF x]
  have bad: "outbound_bad_field p = (p ! 64 \<notin> {asc CHR ''L'', asc CHR ''D''})" using assms(2,3) sd by (simp add: outbound_bad_field_def)
  obtain ts q px tif ref mq where r: "be_load64 p 1 = Some ts" "be_load32 p 24 = Some q" "wire_price p 36 = Some px"
      "be_load32 p 40 = Some tif" "be_load64 p 49 = Some ref" "be_load32 p 59 = Some mq"
    using be_load64_Some [of 1 p] be_load32_Some [of 24 p] wire_price_ok(1) [of 36 p] be_load32_Some [of 40 p] be_load64_Some [of 49 p]
      be_load32_Some [of 59 p] assms(1) by auto
  note b = be_load64_bytes [OF r(1)] be_load32_bytes [OF r(2)] wire_price_ok(2) [OF r(3)] be_load32_bytes [OF r(4)]
    be_load64_bytes [OF r(5)] be_load32_bytes [OF r(6)]
  have blocks: "rd_bytes p 9 14 = Some (take 14 (drop 9 p))" "rd_bytes p 28 8 = Some (take 8 (drop 28 p))" "rd_bytes p 44 4 = Some (take 4 (drop 44 p))"
    using assms(1) by (simp_all add: rd_bytes_def)
  have p: "p \<noteq> []" using assms(1) by auto
  have img: "take 65 (outbound_canonical p) = take 23 p @ ouch_side_char s False # take 41 (drop 24 p)"
    using accepted_canonical [of p] assms sd by (simp add: min_def take_Cons')
  define m where "m = \<lparr>ac_ts = ts, ac_token = take 14 (drop 9 p), ac_side = s, ac_shares = q, ac_stock = take 8 (drop 28 p),
     ac_price = px, ac_time_in_force = tif, ac_firm = take 4 (drop 44 p), ac_display = p ! 48, ac_ref = ref,
     ac_capacity = p ! 57, ac_intermarket_sweep = p ! 58, ac_min_qty = mq,
     ac_cross_type = p ! 63, ac_order_state = p ! 64, ac_bbo_weight = asc CHR '' ''\<rparr>"
  have rd: "read_accepted_common p = Some (if p ! 64 \<notin> {asc CHR ''L'', asc CHR ''D''} then None else Some m)"
    using assms(1) by (simp add: read_accepted_common_def reader_defs rd8_def x r [simplified] blocks m_def)
  have last: "[p ! 63, p ! 64] = take 2 (drop 63 p)" using assms(1) by (simp add: numeral_2_eq_2 Cons_nth_drop_Suc [symmetric])
  have bytes: "accepted_bytes ty m = take 65 (outbound_canonical p)"
    using assms(1) b p unfolding img m_def accepted_bytes_def by (simp add: slice_glue last type_front(3) [OF p assms(2)])
  have "accepted_valid m" if "p ! 64 \<in> {asc CHR ''L'', asc CHR ''D''}"
    using that b sd assms(1) by (simp add: m_def accepted_valid_def accepted_sized_def)
  then show ?thesis using rd bad bytes by (simp add: reads_def)
qed

lemma reads_result:
  assumes "reads B P rd" "\<And>m. P m \<Longrightarrow> \<not> B \<Longrightarrow> reads B Q (f (Some m))" "B \<Longrightarrow> reads B Q (f None)"
  shows "reads B Q (rd \<bind> f)"
proof -
  obtain x where x: "rd = Some x" "case x of None \<Rightarrow> B | Some m \<Rightarrow> \<not> B \<and> P m" using assms(1) by (auto simp: reads_def)
  then show ?thesis using assms(2,3) by (cases x) simp_all
qed

lemma accepted_weight [simp]:
  "accepted_valid (m\<lparr>ac_bbo_weight := w\<rparr>) = accepted_valid m" "accepted_bytes ty (m\<lparr>ac_bbo_weight := w\<rparr>) = accepted_bytes ty m"
  by (simp_all add: accepted_valid_def accepted_sized_def accepted_bytes_def)

text \<open>The bytes behind the common part of \<^verbatim>\<open>Accepted\<close> and \<^verbatim>\<open>Replaced\<close> are not changed.\<close>

lemma canonical_tail: "drop 65 (outbound_canonical p) = drop 65 p"
  by (simp add: outbound_canonical_def drop_update_cancel)

lemma read_Accepted_reads:
  assumes "length p = 66" "hd p = asc CHR ''A''"
  shows "reads (outbound_bad_field p) (\<lambda>m. outbound_valid (OO_Accepted m) \<and> outbound_bytes (OO_Accepted m) = outbound_canonical p) (read_Accepted p)"
proof -
  have "[p ! 65] = drop 65 p" using assms(1) by (intro slice_glue(9)) simp
  then have "take 65 (outbound_canonical p) @ [p ! 65] = outbound_canonical p" by (metis canonical_tail append_take_drop_id)
  then show ?thesis
    unfolding read_Accepted_def using assms
    by (intro reads_result [OF accepted_reader [OF _ assms(2)]]) (auto simp: reader_defs rd8_def intro!: reads_refuse reads_accept)
qed

lemma read_Replaced_reads:
  assumes "length p = 80" "hd p = asc CHR ''U''"
  shows "reads (outbound_bad_field p) (\<lambda>m. outbound_valid (OO_Replaced m) \<and> outbound_bytes (OO_Replaced m) = outbound_canonical p) (read_Replaced p)"
proof -
  have "take 14 (drop 65 p) @ [p ! 79] = drop 65 p" using assms(1) by (simp add: slice_glue)
  then have "take 65 (outbound_canonical p) @ take 14 (drop 65 p) @ [p ! 79] = outbound_canonical p" by (metis canonical_tail append_take_drop_id)
  then show ?thesis
    unfolding read_Replaced_def using assms
    by (intro reads_result [OF accepted_reader [OF _ assms(2)]]) (auto simp: reader_defs rd8_def rd_bytes_def intro!: reads_refuse reads_accept)
qed

lemma plain_readers:
  "length p = 28 \<Longrightarrow> hd p = asc CHR ''C'' \<Longrightarrow>
     reads (outbound_bad_field p) (\<lambda>m. outbound_valid (OO_Canceled m) \<and> outbound_bytes (OO_Canceled m) = outbound_canonical p) (read_Canceled p)"
  "length p = 40 \<Longrightarrow> hd p = asc CHR ''E'' \<Longrightarrow>
     reads (outbound_bad_field p) (\<lambda>m. outbound_valid (OO_Executed m) \<and> outbound_bytes (OO_Executed m) = outbound_canonical p) (read_Executed p)"
  "length p = 24 \<Longrightarrow> hd p = asc CHR ''J'' \<Longrightarrow>
     reads (outbound_bad_field p) (\<lambda>m. outbound_valid (OO_Rejected m) \<and> outbound_bytes (OO_Rejected m) = outbound_canonical p) (read_Rejected p)"
  unfolding read_Canceled_def read_Executed_def read_Rejected_def
  by (cases "p = []"; auto simp: reader_defs plain_ouch slice_glue type_front intro!: reads_bind reads_accept reader_total dest!: reader_facts)+

text \<open>
  What decoding may do with the handler: nothing, because of an illegal field, or one delivery of the message
  that has the canonical bytes \<open>c\<close>.
\<close>

definition delivers :: "bool \<Rightarrow> ('m \<Rightarrow> bool) \<Rightarrow> ('m \<Rightarrow> 'h \<Rightarrow> 'h) \<Rightarrow> 'h \<Rightarrow> (DecodeStatus \<times> 'h) option \<Rightarrow> bool" where
  "delivers B V on h res \<longleftrightarrow> (\<exists>st h'. res = Some (st, h') \<and>
     (st = DS_ok \<and> \<not> B \<and> (\<exists>m. V m \<and> h' = on m h) \<or> st = DS_bad_field \<and> B \<and> h' = h))"

lemma deliver_one_reads:
  assumes "reads B (\<lambda>m. V (C m)) rd"
  shows "delivers B V on h (deliver_one (\<lambda>m. on (C m)) rd h)"
proof -
  obtain x where x: "rd = Some x" "case x of None \<Rightarrow> B | Some m \<Rightarrow> \<not> B \<and> V (C m)" using assms by (auto simp: reads_def)
  then show ?thesis by (cases x) (auto simp: deliver_one_def delivers_def)
qed

lemma inbound_body_decoded:
  assumes "length msg = inbound_length (hd msg)" "inbound_length (hd msg) \<noteq> 0"
  shows "delivers (inbound_bad_field msg) (\<lambda>m. inbound_valid m \<and> inbound_bytes m = inbound_canonical msg) on h (inbound_body on (hd msg) msg h)"
  using assms unfolding inbound_body_def inbound_length_def ouch_length_defs
  by (auto simp del: inbound_valid.simps inbound_bytes.simps split: if_splits
      intro!: deliver_one_reads read_EnterOrder_reads read_ReplaceOrder_reads read_CancelOrder_reads)

lemma outbound_body_decoded:
  assumes "length msg = outbound_length (hd msg)" "outbound_length (hd msg) \<noteq> 0"
  shows "delivers (outbound_bad_field msg) (\<lambda>m. outbound_valid m \<and> outbound_bytes m = outbound_canonical msg) on h (outbound_body on (hd msg) msg h)"
  using assms unfolding outbound_body_def outbound_length_def ouch_length_defs
  by (auto simp del: outbound_valid.simps outbound_bytes.simps split: if_splits
      intro!: deliver_one_reads read_Accepted_reads read_Replaced_reads plain_readers)

lemma decode_inbound_returns: "\<exists>st h'. decode_inbound on msg h = Some (st, h')"
  using inbound_body_decoded [of msg on h] by (auto simp: decode_inbound_dispatch delivers_def)

lemma decode_outbound_returns: "\<exists>st h'. decode_outbound on msg h = Some (st, h')"
  using outbound_body_decoded [of msg on h] by (auto simp: decode_outbound_dispatch delivers_def)

lemma deframe_turn:
  "deframe_from decode_one buf r h =
      (if 2 \<le> length buf - sr_consumed r then do {
         w \<leftarrow> be_load16 buf (sr_consumed r);
         if length buf - sr_consumed r - 2 < unat w then Some (r, h)
         else do {
           (st, h') \<leftarrow> decode_one (take (unat w) (drop (sr_consumed r + 2) buf)) h;
           deframe_from decode_one buf (tally st (2 + unat w) r) h' } }
       else Some (r, h))"
  by (subst deframe_from.simps) (simp add: tally_def bind_map_option comp_def Let_def cong: if_cong)

interpretation inbound_stream: framed_stream "decode_inbound on" "deframe_from (decode_inbound on)"
  for on :: "ouch_inbound \<Rightarrow> 'h \<Rightarrow> 'h"
  by unfold_locales (rule decode_inbound_returns, rule deframe_turn)

interpretation outbound_stream: framed_stream "decode_outbound on" "deframe_from (decode_outbound on)"
  for on :: "ouch_outbound \<Rightarrow> 'h \<Rightarrow> 'h"
  by unfold_locales (rule decode_outbound_returns, rule deframe_turn)

definition sample_enter :: ouch_inbound where
  "sample_enter = OI_EnterOrder (EnterOrder_new\<lparr>eo_token := from_id 17, eo_shares := 250, eo_price := 1234500\<rparr>)"

definition sample_fill :: ouch_outbound where
  "sample_fill = OO_Executed \<lparr>ex_ts = 5, ex_token = from_id 17, ex_shares = 100, ex_price = 1234500,
     ex_liquidity = asc CHR ''A'', ex_match = 9\<rparr>"

lemma sample_messages_valid: "inbound_valid sample_enter" "outbound_valid sample_fill"
  by (simp_all add: sample_enter_def sample_fill_def EnterOrder_new_def ouch_fits_wire_price_def
      valid_order_shares_def kMaxOrderQty_def word_le_nat_alt)

lemma sample_messages_sized:
  "inbound_sized sample_enter" "outbound_sized sample_fill"
  "length (inbound_bytes sample_enter) = 49" "length (outbound_bytes sample_fill) = 40"
  by (simp_all add: sample_enter_def sample_fill_def EnterOrder_new_def)

section \<open>Claims\<close>

text \<open>
  Claim C27: the OUCH decoders return on every byte string without reading outside it, in both
  directions. The handler is called exactly once when the status is \<^verbatim>\<open>ok\<close>, and never otherwise. The message it
  gets satisfies the field policy and encodes back to the bytes it was read from, up to the side
  character (E comes back as T; an accepted order has no short flag, so T and E come back as S). The error
  statuses are reported exactly in the cases the header lists: \<^verbatim>\<open>truncated\<close>, \<^verbatim>\<open>unknown_type\<close> and \<^verbatim>\<open>bad_length\<close> by type byte
  and length, \<^verbatim>\<open>bad_field\<close> for a message of the right length with a side other than B, S, T and E, a quantity outside 1
  to 999,999 in an order or a replacement, or an order state other than L and D.
\<close>

theorem ouch_decode_total:
  "(\<exists>st h'. decode_inbound on msg h = Some (st, h') \<and>
     (if st = DS_ok
      then \<exists>m. inbound_valid m \<and> encode_inbound m (replicate (length msg) 0) = Some (length msg, inbound_canonical msg) \<and> h' = on m h
      else h' = h) \<and>
     (st = DS_truncated) = (msg = [] \<or> length msg < inbound_length (hd msg)) \<and>
     (st = DS_unknown_type) = (msg \<noteq> [] \<and> inbound_length (hd msg) = 0) \<and>
     (st = DS_bad_length) = (msg \<noteq> [] \<and> 0 < inbound_length (hd msg) \<and> inbound_length (hd msg) < length msg) \<and>
     (st = DS_bad_field) = (msg \<noteq> [] \<and> length msg = inbound_length (hd msg) \<and> inbound_bad_field msg)) \<and>
   (\<exists>st h'. decode_outbound on' msg h = Some (st, h') \<and>
     (if st = DS_ok
      then \<exists>m. outbound_valid m \<and> encode_outbound m (replicate (length msg) 0) = Some (length msg, outbound_canonical msg) \<and> h' = on' m h
      else h' = h) \<and>
     (st = DS_truncated) = (msg = [] \<or> length msg < outbound_length (hd msg)) \<and>
     (st = DS_unknown_type) = (msg \<noteq> [] \<and> outbound_length (hd msg) = 0) \<and>
     (st = DS_bad_length) = (msg \<noteq> [] \<and> 0 < outbound_length (hd msg) \<and> outbound_length (hd msg) < length msg) \<and>
     (st = DS_bad_field) = (msg \<noteq> [] \<and> length msg = outbound_length (hd msg) \<and> outbound_bad_field msg))"
  (is "?I \<and> ?O")
proof
  have enc: "encode_inbound m (replicate (length msg) 0) = Some (length msg, inbound_canonical msg)"
    if "inbound_valid m" "inbound_bytes m = inbound_canonical msg" for m
    using encode_inbound_image(1) [OF valid_sized(1) [OF that(1)], of "replicate (length msg) 0"] valid_sized(3) [OF that(1)] that(2)
    by (simp add: length_ouch_canonical)
  show ?I
  proof (cases "msg \<noteq> [] \<and> inbound_length (hd msg) \<noteq> 0 \<and> length msg = inbound_length (hd msg)")
    case True
    then show ?thesis
      using inbound_body_decoded [of msg on h] enc by (auto simp: decode_inbound_dispatch delivers_def)
  qed (auto simp: decode_inbound_dispatch)
  have enc: "encode_outbound m (replicate (length msg) 0) = Some (length msg, outbound_canonical msg)"
    if "outbound_valid m" "outbound_bytes m = outbound_canonical msg" for m
    using encode_outbound_image(1) [OF valid_sized(2) [OF that(1)], of "replicate (length msg) 0"] valid_sized(4) [OF that(1)] that(2)
    by (simp add: length_ouch_canonical)
  show ?O
  proof (cases "msg \<noteq> [] \<and> outbound_length (hd msg) \<noteq> 0 \<and> length msg = outbound_length (hd msg)")
    case True
    then show ?thesis
      using outbound_body_decoded [of msg on' h] enc by (auto simp: decode_outbound_dispatch delivers_def)
  qed (auto simp: decode_outbound_dispatch)
qed

text \<open>
  Claim C29: encoding an OUCH message either writes nothing and returns 0, exactly when the buffer is
  too small or the price does not fit the wire field, or writes the message at the front of the buffer
  and nothing behind it; a message within the field policy then decodes to itself, in both
  directions. (A short buy, which the wire cannot express, and a zero or oversized quantity are
  outside the policy.)
\<close>

theorem ouch_encode_round_trip:
  assumes "inbound_sized m" "outbound_sized k"
  shows "(\<exists>n out'. encode_inbound m out = Some (n, out') \<and> length out' = length out \<and> drop n out' = drop n out \<and>
      (n = 0) = (length out < length (inbound_bytes m) \<or> \<not> ouch_fits_wire_price (inbound_price m)) \<and>
      (n \<noteq> 0 \<and> inbound_valid m \<longrightarrow> decode_inbound on (take n out') h = Some (DS_ok, on m h))) \<and>
    (\<exists>n out'. encode_outbound k out = Some (n, out') \<and> length out' = length out \<and> drop n out' = drop n out \<and>
      (n = 0) = (length out < length (outbound_bytes k) \<or> \<not> ouch_fits_wire_price (outbound_price k)) \<and>
      (n \<noteq> 0 \<and> outbound_valid k \<longrightarrow> decode_outbound on' (take n out') h = Some (DS_ok, on' k h)))"
proof -
  have "0 < length (inbound_bytes m)" "0 < length (outbound_bytes k)"
    by (cases m; simp) (cases k; simp add: accepted_bytes_def)
  then show ?thesis
    using decode_inbound_image [of m on h] decode_outbound_image [of k on' h]
    by (auto simp: encode_inbound_image [OF assms(1)] encode_outbound_image [OF assms(2)])
qed

theorem ouch_encode_round_trip_witness:
  "(\<exists>n out'. encode_inbound sample_enter (replicate 80 0) = Some (n, out') \<and> n \<noteq> 0 \<and>
      decode_inbound (\<lambda>m h. h + 1) (take n out') (0 :: nat) = Some (DS_ok, 1)) \<and>
   (\<exists>n out'. encode_outbound sample_fill (replicate 80 0) = Some (n, out') \<and> n \<noteq> 0 \<and>
      decode_outbound (\<lambda>m h. h + 1) (take n out') (0 :: nat) = Some (DS_ok, 1))"
  using ouch_encode_round_trip [of sample_enter sample_fill "replicate 80 0" "\<lambda>m h. h + 1" "0 :: nat" "\<lambda>m h. h + 1"]
    sample_messages_valid sample_messages_sized valid_sized(3) [OF sample_messages_valid(1)]
    valid_sized(4) [OF sample_messages_valid(2)]
  by auto

text \<open>
  The OUCH stream decoders return for every buffer and leave less than one frame; cutting a
  stream at any byte and resuming with the unconsumed tail delivers the same messages and the same
  counters as one call, for the client-to-exchange and the exchange-to-client direction.
\<close>

lemma ouch_stream_resumes:
  "(\<exists>r h'. decode_inbound_stream on a h = Some (r, h') \<and> sr_consumed r \<le> length a \<and>
      split_frames (drop (sr_consumed r) a) = []) \<and>
   decode_inbound_stream on (a @ b) h = do {
     (r1, h1) \<leftarrow> decode_inbound_stream on a h;
     (r2, h2) \<leftarrow> decode_inbound_stream on (drop (sr_consumed r1) a @ b) h1;
     Some (merge_results r1 r2, h2) } \<and>
   (\<exists>r h'. decode_outbound_stream on' a h = Some (r, h') \<and> sr_consumed r \<le> length a \<and>
      split_frames (drop (sr_consumed r) a) = []) \<and>
   decode_outbound_stream on' (a @ b) h = do {
     (r1, h1) \<leftarrow> decode_outbound_stream on' a h;
     (r2, h2) \<leftarrow> decode_outbound_stream on' (drop (sr_consumed r1) a @ b) h1;
     Some (merge_results r1 r2, h2) }"
  unfolding decode_inbound_stream_def decode_outbound_stream_def deframe_def
  using inbound_stream.stream_returns [of on a h] outbound_stream.stream_returns [of on' a h]
  by (intro conjI inbound_stream.stream_resumes outbound_stream.stream_resumes) blast+

end
