(* ===== verification/Mold64.thy ===== *)
theory Mold64
  imports Framing
begin

text \<open>
  MoldUDP64 packets, \<^verbatim>\<open>src/include/optitrade/net/mold64.hpp\<close>: the header parser, the two-pass walk over
  the message blocks, the packet builder and the sequence tracker. Packets and buffers are byte lists
  accessed through \<open>rd8\<close> / \<open>wr8\<close> (\<^term>\<open>None\<close> is an access outside the span); the callback \<open>f\<close> of
  \<^verbatim>\<open>for_each_message\<close> is a function on a state \<open>s\<close>.
\<close>

section \<open>Packets\<close>

definition kHeaderSize :: nat where "kHeaderSize = 20"
definition kSessionSize :: nat where "kSessionSize = 10"
definition kEndOfSession :: u16 where "kEndOfSession = 0xFFFF"
definition kMaxMessageCount :: u16 where "kMaxMessageCount = 0xFFFE"
definition kMaxMessageSize :: nat where "kMaxMessageSize = 0xFFFF"

datatype Kind = Kind_data | Kind_heartbeat | Kind_end_of_session

record MoldHeader =
  mh_session :: "u8 list"
  mh_sequence :: u64
  mh_count :: u16
  mh_kind :: Kind

definition kind_of :: "u16 \<Rightarrow> Kind" where
  "kind_of count = (if count = 0 then Kind_heartbeat
     else if count = kEndOfSession then Kind_end_of_session else Kind_data)"

definition parse_header :: "u8 list \<Rightarrow> MoldHeader \<Rightarrow> (DecodeStatus \<times> MoldHeader) option" where
  "parse_header packet out =
     (if length packet < kHeaderSize then Some (DS_truncated, out)
      else do {
        session \<leftarrow> rd_bytes packet 0 kSessionSize;
        sequence \<leftarrow> be_load64 packet 10;
        count \<leftarrow> be_load16 packet 18;
        Some (DS_ok, \<lparr>mh_session = session, mh_sequence = sequence, mh_count = count, mh_kind = kind_of count\<rparr>) })"

text \<open>
  The loop of \<^verbatim>\<open>validate_blocks\<close> with \<open>k\<close> turns to go: \<^term>\<open>Inl\<close> is an early return, \<^term>\<open>Inr\<close> the position
  after the last block.
\<close>

primrec validate_loop :: "nat \<Rightarrow> u8 list \<Rightarrow> nat \<Rightarrow> (DecodeStatus + nat) option" where
  "validate_loop 0 packet pos = Some (Inr pos)"
| "validate_loop (Suc k) packet pos =
     (if length packet - pos < 2 then Some (Inl DS_truncated)
      else do {
        len \<leftarrow> map_option unat (be_load16 packet pos);
        let pos = pos + 2;
        if length packet - pos < len then Some (Inl DS_truncated)
        else validate_loop k packet (pos + len) })"

definition validate_blocks :: "u8 list \<Rightarrow> MoldHeader \<Rightarrow> DecodeStatus option" where
  "validate_blocks packet h =
     (if mh_kind h \<noteq> Kind_data then Some (if length packet = kHeaderSize then DS_ok else DS_bad_length)
      else do {
        r \<leftarrow> validate_loop (unat (mh_count h)) packet kHeaderSize;
        Some (case r of Inl st \<Rightarrow> st | Inr pos \<Rightarrow> if pos = length packet then DS_ok else DS_bad_length) })"

definition write_header :: "u8 list \<Rightarrow> u8 list \<Rightarrow> u64 \<Rightarrow> u16 \<Rightarrow> (nat \<times> u8 list) option" where
  "write_header out session sequence count =
     (if length out < kHeaderSize then Some (0, out)
      else do {
        out \<leftarrow> wr_bytes out 0 session;
        out \<leftarrow> be_store64 out 10 sequence;
        out \<leftarrow> be_store16 out 18 count;
        Some (kHeaderSize, out) })"

text \<open>The delivery loop of \<^verbatim>\<open>for_each_message\<close>, at block \<open>i\<close> with \<open>k\<close> turns to go.\<close>

primrec deliver_loop ::
  "(u64 \<Rightarrow> u8 list \<Rightarrow> 's \<Rightarrow> 's) \<Rightarrow> nat \<Rightarrow> u8 list \<Rightarrow> u64 \<Rightarrow> u16 \<Rightarrow> nat \<Rightarrow> 's \<Rightarrow> 's option" where
  "deliver_loop f 0 packet sequence i pos s = Some s"
| "deliver_loop f (Suc k) packet sequence i pos s = do {
     len \<leftarrow> map_option unat (be_load16 packet pos);
     let pos = pos + 2;
     msg \<leftarrow> rd_bytes packet pos len;
     deliver_loop f k packet sequence (i + 1) (pos + len) (f (sequence + ucast i) msg s) }"

definition for_each_message ::
  "(u64 \<Rightarrow> u8 list \<Rightarrow> 's \<Rightarrow> 's) \<Rightarrow> u8 list \<Rightarrow> MoldHeader \<Rightarrow> 's \<Rightarrow> (DecodeStatus \<times> MoldHeader \<times> 's) option" where
  "for_each_message f packet hdr s = do {
     (st, hdr) \<leftarrow> parse_header packet hdr;
     if st \<noteq> DS_ok then Some (st, hdr, s)
     else do {
       st \<leftarrow> validate_blocks packet hdr;
       if st \<noteq> DS_ok then Some (st, hdr, s)
       else if mh_kind hdr \<noteq> Kind_data then Some (DS_ok, hdr, s)
       else do {
         s \<leftarrow> deliver_loop f (unat (mh_count hdr)) packet (mh_sequence hdr) 0 kHeaderSize s;
         Some (DS_ok, hdr, s) } } }"

definition write_heartbeat :: "u8 list \<Rightarrow> u8 list \<Rightarrow> u64 \<Rightarrow> (nat \<times> u8 list) option" where
  "write_heartbeat out session next_sequence = write_header out session next_sequence 0"

definition write_end_of_session :: "u8 list \<Rightarrow> u8 list \<Rightarrow> u64 \<Rightarrow> (nat \<times> u8 list) option" where
  "write_end_of_session out session next_sequence = write_header out session next_sequence kEndOfSession"

section \<open>PacketBuilder\<close>

record PacketBuilder =
  pb_buf :: "u8 list"
  pb_size :: nat
  pb_count :: u16
  pb_sealed :: bool

definition PacketBuilder_new :: "u8 list \<Rightarrow> u8 list \<Rightarrow> u64 \<Rightarrow> PacketBuilder option" where
  "PacketBuilder_new buffer session first_seq = do {
     (n, buf) \<leftarrow> write_header buffer session first_seq 0;
     Some \<lparr>pb_buf = buf, pb_size = n, pb_count = 0, pb_sealed = False\<rparr> }"

definition pb_add :: "u8 list \<Rightarrow> PacketBuilder \<Rightarrow> (bool \<times> PacketBuilder) option" where
  "pb_add message b =
     (if pb_sealed b \<or> pb_size b = 0 \<or> pb_count b \<ge> kMaxMessageCount then Some (False, b)
      else if length message > kMaxMessageSize then Some (False, b)
      else let need = 2 + length message in
        if need > length (pb_buf b) - pb_size b then Some (False, b)
        else do {
          buf \<leftarrow> be_store16 (pb_buf b) (pb_size b) (of_nat (length message));
          buf \<leftarrow> (if message \<noteq> [] then wr_bytes buf (pb_size b + 2) message else Some buf);
          Some (True, b\<lparr>pb_buf := buf, pb_size := pb_size b + need, pb_count := pb_count b + 1\<rparr>) })"

definition pb_finish :: "PacketBuilder \<Rightarrow> (u8 list \<times> PacketBuilder) option" where
  "pb_finish b =
     (if pb_size b = 0 then Some ([], b)
      else do {
        b \<leftarrow> (if \<not> pb_sealed b then do {
                buf \<leftarrow> be_store16 (pb_buf b) 18 (pb_count b);
                Some (b\<lparr>pb_buf := buf, pb_sealed := True\<rparr>) }
              else Some b);
        span \<leftarrow> rd_bytes (pb_buf b) 0 (pb_size b);
        Some (span, b) })"

section \<open>SequenceTracker\<close>

datatype SequenceResult = SR_in_order | SR_gap | SR_duplicate | SR_session_changed

record SequenceCheck =
  sc_result :: SequenceResult
  sc_expected :: u64
  sc_received :: u64
  sc_missing :: u64

record SequenceTracker =
  st_session :: "u8 list"
  st_expected :: u64
  st_gaps :: u64
  st_missing :: u64
  st_duplicates :: u64
  st_synced :: bool

definition SequenceTracker_new :: SequenceTracker where
  "SequenceTracker_new = \<lparr>st_session = replicate kSessionSize 0, st_expected = 0, st_gaps = 0, st_missing = 0,
     st_duplicates = 0, st_synced = False\<rparr>"

definition kMax64 :: u64 where "kMax64 = - 1"

definition on_packet :: "MoldHeader \<Rightarrow> SequenceTracker \<Rightarrow> SequenceCheck \<times> SequenceTracker" where
  "on_packet h t =
     (let advance = (if mh_kind h = Kind_data then ucast (mh_count h) else 0);
          fin = mh_sequence h + advance;
          r = \<lparr>sc_result = SR_in_order, sc_expected = 0, sc_received = mh_sequence h, sc_missing = 0\<rparr>
      in if \<not> st_synced t then
           (r\<lparr>sc_expected := mh_sequence h\<rparr>,
            t\<lparr>st_synced := True, st_session := mh_session h, st_expected := fin\<rparr>)
         else let r = r\<lparr>sc_expected := st_expected t\<rparr> in
           if mh_session h \<noteq> st_session t then
             (r\<lparr>sc_result := SR_session_changed\<rparr>, t\<lparr>st_session := mh_session h, st_expected := fin\<rparr>)
           else if mh_sequence h = st_expected t then (r, t\<lparr>st_expected := fin\<rparr>)
           else if mh_sequence h > st_expected t then
             let missing = mh_sequence h - st_expected t in
             (r\<lparr>sc_result := SR_gap, sc_missing := missing\<rparr>,
              t\<lparr>st_gaps := st_gaps t + 1,
                st_missing := (if st_missing t > kMax64 - missing then kMax64 else st_missing t + missing),
                st_expected := fin\<rparr>)
           else
             (r\<lparr>sc_result := SR_duplicate\<rparr>,
              let t = t\<lparr>st_duplicates := st_duplicates t + 1\<rparr>
              in if fin > st_expected t then t\<lparr>st_expected := fin\<rparr> else t))"

section \<open>The two passes over the blocks\<close>

text \<open>What the callback sees: the messages of a packet, numbered from its sequence number.\<close>

definition number_from :: "u64 \<Rightarrow> nat \<Rightarrow> u8 list list \<Rightarrow> (u64 \<times> u8 list) list" where
  "number_from sq i ms = map (\<lambda>(j, m). (sq + of_nat j, m)) (enumerate i ms)"

lemma number_from_simps [simp]:
  "number_from sq i [] = []"
  "number_from sq i (m # ms) = (sq + of_nat i, m) # number_from sq (Suc i) ms"
  by (simp_all add: number_from_def)

definition deliver_all :: "(u64 \<Rightarrow> u8 list \<Rightarrow> 's \<Rightarrow> 's) \<Rightarrow> (u64 \<times> u8 list) list \<Rightarrow> 's \<Rightarrow> 's" where
  "deliver_all f ms s = fold (\<lambda>(q, m). f q m) ms s"

lemma deliver_all_simps [simp]:
  "deliver_all f [] s = s" "deliver_all f ((q, m) # ms) s = deliver_all f ms (f q m s)"
  by (simp_all add: deliver_all_def)

lemma length_frame [simp]: "length (frame m) = 2 + length m"
  by (simp add: frame_def)

lemma length_concat_frames [simp]: "length (concat (map frame ms)) = frames_size ms"
  by (induction ms) simp_all

lemma load_frame: "be_load16 (a @ frame m @ b) (length a) = Some (of_nat (length m))"
proof -
  have "rd_bytes (a @ frame m @ b) (length a) 2 = Some (be_bytes16 (of_nat (length m)))"
    by (simp add: frame_def rd_bytes_def)
  then show ?thesis by (rule be_load16_block)
qed

lemma unat_length16: "length m < 65536 \<Longrightarrow> unat (of_nat (length m) :: u16) = length m"
  by (simp add: unat_of_nat)

lemma load_is_frame:
  assumes "map_option unat (be_load16 p i) = Some n" "i + 2 + n \<le> length p"
  obtains m where "length m = n" "n < 65536" "take (2 + n) (drop i p) = frame m"
    "rd_bytes p (i + 2) n = Some m"
proof
  let ?m = "take n (drop (i + 2) p)"
  obtain w where w: "be_load16 p i = Some w" "n = unat w" using assms(1) by auto
  from w(1) obtain a b where ab: "i + 1 < length p" "a = p ! i" "b = p ! (i + 1)" "w = push_bit 8 (ucast a) OR ucast b"
    using assms(2) by (auto simp: be_load16_def rd8_def split: if_splits)
  have "\<not> bit b (8 + n)" for n using bit_imp_le_length [of b "8 + n"] by auto
  then have "be_bytes16 w = [a, b]"
    unfolding ab(4) be_bytes16_def by (auto intro!: bit_word_eqI simp: bit_simps)
  moreover have "take 2 (drop i p) = [a, b]"
    using ab by (simp add: numeral_2_eq_2 take_Suc_conv_app_nth)
  moreover show len: "length ?m = n" using assms(2) by simp
  moreover have "(of_nat n :: u16) = w" using w(2) by simp
  ultimately show "take (2 + n) (drop i p) = frame ?m"
    unfolding frame_def take_add len by (simp add: add.commute)
  show "n < 65536" using w(2) unsigned_less [where 'a = nat, of w] by simp
  show "rd_bytes p (i + 2) n = Some ?m" using assms(2) by (simp add: rd_bytes_def)
qed

lemma validate_frames:
  "\<forall>m \<in> set ms. length m < 65536 \<Longrightarrow>
     validate_loop (length ms) (a @ concat (map frame ms) @ b) (length a) = Some (Inr (length a + frames_size ms))"
proof (induction ms arbitrary: a)
  case (Cons m ms)
  have "validate_loop (length ms) ((a @ frame m) @ concat (map frame ms) @ b) (length (a @ frame m)) =
      Some (Inr (length (a @ frame m) + frames_size ms))"
    using Cons by (intro Cons.IH) simp
  then show ?case using Cons.prems by (simp add: add.assoc load_frame unat_length16)
qed simp

lemma deliver_frames:
  assumes "\<forall>m \<in> set ms. length m < 65536" "i + length ms \<le> 65536"
  shows "deliver_loop f (length ms) (a @ concat (map frame ms) @ b) sq (of_nat i) (length a) s =
    Some (deliver_all f (number_from sq i ms) s)"
  using assms
proof (induction ms arbitrary: a i s)
  case (Cons m ms)
  have "deliver_loop f (length ms) ((a @ frame m) @ concat (map frame ms) @ b) sq (of_nat (Suc i)) (length (a @ frame m))
      (f (sq + of_nat i) m s) = Some (deliver_all f (number_from sq (Suc i) ms) (f (sq + of_nat i) m s))"
    using Cons.prems by (intro Cons.IH) simp_all
  moreover have "rd_bytes (a @ frame m @ concat (map frame ms) @ b) (length a + 2) (length m) = Some m"
    by (simp add: frame_def rd_bytes_def)
  moreover have "ucast (of_nat i :: u16) = (of_nat i :: u64)"
    using Cons.prems by (simp add: word_unat_eq_iff unat_ucast_small unat_of_nat)
  ultimately show ?case using Cons.prems by (simp add: add.assoc add.commute load_frame unat_length16)
qed simp

lemma validate_loop_sound:
  assumes "pos \<le> length p"
  shows "validate_loop k p pos = Some (Inl DS_truncated) \<or>
    (\<exists>ms. length ms = k \<and> (\<forall>m \<in> set ms. length m < 65536) \<and> pos + frames_size ms \<le> length p \<and>
       take (frames_size ms) (drop pos p) = concat (map frame ms) \<and>
       validate_loop k p pos = Some (Inr (pos + frames_size ms)))"
  using assms
proof (induction k arbitrary: pos)
  case 0
  then show ?case by simp
next
  case (Suc k)
  show ?case
  proof (cases "2 \<le> length p - pos")
    case False
    then show ?thesis by simp
  next
    case True
    then have "pos + 2 \<le> length p" by simp
    then obtain w where "be_load16 p pos = Some w" using be_load16_Some by blast
    then obtain n where n: "map_option unat (be_load16 p pos) = Some n" by simp
    show ?thesis
    proof (cases "length p - (pos + 2) < n")
      case True
      then show ?thesis using n \<open>2 \<le> length p - pos\<close> by auto
    next
      case False
      with True have le: "pos + 2 + n \<le> length p" by simp
      from load_is_frame [OF n le] obtain m where m: "length m = n" "n < 65536" "take (2 + n) (drop pos p) = frame m"
        by blast
      have step: "validate_loop (Suc k) p pos = validate_loop k p (pos + 2 + n)" using True False n by auto
      from Suc.IH [OF le] show ?thesis
      proof (elim disjE exE conjE)
        fix ms assume ms: "length ms = k" "\<forall>m \<in> set ms. length m < 65536" "pos + 2 + n + frames_size ms \<le> length p"
          "take (frames_size ms) (drop (pos + 2 + n) p) = concat (map frame ms)"
          "validate_loop k p (pos + 2 + n) = Some (Inr (pos + 2 + n + frames_size ms))"
        have "take (frames_size (m # ms)) (drop pos p) =
            take (2 + n) (drop pos p) @ take (frames_size ms) (drop (2 + n) (drop pos p))"
          using m(1) by (simp only: frames_size_simps take_add)
        also have "\<dots> = concat (map frame (m # ms))" using m(3) ms(4) by (simp add: add.assoc add.commute)
        finally show ?thesis using m(1,2) ms step by (intro disjI2 exI [of _ "m # ms"]) (simp add: add.assoc)
      qed (simp only: step, simp)
    qed
  qed
qed

lemma parse_header_ok:
  assumes "20 \<le> length packet"
  obtains h where "parse_header packet out = Some (DS_ok, h)" "mh_kind h = kind_of (mh_count h)"
    "mh_session h = take 10 packet" "be_load64 packet 10 = Some (mh_sequence h)" "be_load16 packet 18 = Some (mh_count h)"
proof -
  obtain sq c where "be_load64 packet 10 = Some sq" "be_load16 packet 18 = Some c"
    using assms be_load64_Some [of 10 packet] be_load16_Some [of 18 packet] by auto
  with assms show ?thesis
    by (intro that [of "\<lparr>mh_session = take 10 packet, mh_sequence = sq, mh_count = c, mh_kind = kind_of c\<rparr>"])
      (simp_all add: parse_header_def kHeaderSize_def kSessionSize_def rd_bytes_def)
qed

lemma for_each_message_cases:
  "\<exists>st h s'. for_each_message f packet hdr s = Some (st, h, s') \<and>
     (if st \<noteq> DS_ok then s' = s
      else be_load16 packet 18 = Some (mh_count h) \<and> be_load64 packet 10 = Some (mh_sequence h) \<and>
        mh_session h = take 10 packet \<and> mh_kind h = kind_of (mh_count h) \<and>
        (\<exists>ms. packet = take 20 packet @ concat (map frame ms) \<and> s' = deliver_all f (number_from (mh_sequence h) 0 ms) s \<and>
           length ms = (if mh_kind h = Kind_data then unat (mh_count h) else 0)))"
proof (cases "20 \<le> length packet")
  case False
  then show ?thesis by (simp add: for_each_message_def parse_header_def kHeaderSize_def)
next
  case True
  obtain h where h: "parse_header packet hdr = Some (DS_ok, h)" "mh_kind h = kind_of (mh_count h)"
      "mh_session h = take 10 packet" "be_load64 packet 10 = Some (mh_sequence h)" "be_load16 packet 18 = Some (mh_count h)"
    using True by (rule parse_header_ok)
  show ?thesis
  proof (cases "mh_kind h = Kind_data")
    case False
    with h show ?thesis
      by (auto simp: for_each_message_def validate_blocks_def kHeaderSize_def intro!: exI [of _ "[] :: u8 list list"])
  next
    case data: True
    from validate_loop_sound [OF True, of "unat (mh_count h)"] show ?thesis
    proof (elim disjE exE conjE)
      assume "validate_loop (unat (mh_count h)) packet 20 = Some (Inl DS_truncated)"
      with h data show ?thesis by (simp add: for_each_message_def validate_blocks_def kHeaderSize_def)
    next
      fix ms assume ms: "length ms = unat (mh_count h)" "\<forall>m \<in> set ms. length m < 65536"
        "take (frames_size ms) (drop 20 packet) = concat (map frame ms)"
        "validate_loop (unat (mh_count h)) packet 20 = Some (Inr (20 + frames_size ms))"
      show ?thesis
      proof (cases "20 + frames_size ms = length packet")
        case False
        with h data ms(4) show ?thesis by (simp add: for_each_message_def validate_blocks_def kHeaderSize_def)
      next
        case all: True
        then have drop: "drop 20 packet = concat (map frame ms)" using ms(3) by simp
        then have pk: "packet = take 20 packet @ concat (map frame ms) @ []" by (metis append_Nil2 append_take_drop_id)
        have "unat (mh_count h) < 65536" using unsigned_less [where 'a = nat, of "mh_count h"] by simp
        then have "deliver_loop f (unat (mh_count h)) packet (mh_sequence h) 0 20 s =
            Some (deliver_all f (number_from (mh_sequence h) 0 ms) s)"
          using deliver_frames [OF ms(2), of 0 f "take 20 packet" "[]" "mh_sequence h" s] ms(1) True pk by simp
        then show ?thesis using h data ms(1,4) all pk
          by (simp add: for_each_message_def validate_blocks_def kHeaderSize_def) auto
      qed
    qed
  qed
qed

section \<open>Building a packet\<close>

definition mold_header :: "u8 list \<Rightarrow> u64 \<Rightarrow> u16 \<Rightarrow> u8 list" where
  "mold_header session sq c = session @ be_bytes64 sq @ be_bytes16 c"

text \<open>A builder in use: its buffer holds the header, one frame per accepted message and spare room.\<close>

definition pb_holds :: "u8 list \<Rightarrow> u64 \<Rightarrow> u8 list list \<Rightarrow> PacketBuilder \<Rightarrow> bool" where
  "pb_holds session sq ms b \<longleftrightarrow> length session = 10 \<and> length ms \<le> 65534 \<and> (\<forall>m \<in> set ms. length m < 65536) \<and>
     pb_count b = of_nat (length ms) \<and> pb_size b = 20 + frames_size ms \<and>
     (\<exists>spare. pb_buf b = mold_header session sq (if pb_sealed b then pb_count b else 0) @ concat (map frame ms) @ spare)"

lemma length_mold_header [simp]: "length session = 10 \<Longrightarrow> length (mold_header session sq c) = 20"
  by (simp add: mold_header_def)

lemma write_header_image:
  "length session = 10 \<Longrightarrow> 20 \<le> length out \<Longrightarrow>
     write_header out session sq c = Some (20, mold_header session sq c @ drop 20 out)"
  by (simp add: write_header_def kHeaderSize_def be_store64_wr be_store16_wr wr_bytes_bind_more wr_bytes_front wr_bytes_behind
      mold_header_def)

lemma PacketBuilder_new_holds:
  assumes "length session = 10" "20 \<le> length buffer"
  shows "\<exists>b. PacketBuilder_new buffer session sq = Some b \<and> pb_holds session sq [] b \<and> \<not> pb_sealed b
    \<and> length (pb_buf b) = length buffer"
  using assms by (simp add: PacketBuilder_new_def write_header_image pb_holds_def)

lemma unat_count: "n \<le> 65534 \<Longrightarrow> unat (of_nat n :: u16) = n"
  by (simp add: unat_of_nat)

text \<open>When \<^verbatim>\<open>add\<close> takes a message.\<close>

definition pb_takes :: "u8 list \<Rightarrow> PacketBuilder \<Rightarrow> bool" where
  "pb_takes m b = (\<not> pb_sealed b \<and> pb_size b \<noteq> 0 \<and> pb_count b < kMaxMessageCount \<and> length m \<le> kMaxMessageSize \<and>
     2 + length m \<le> length (pb_buf b) - pb_size b)"

lemma pb_add_refused: "\<not> pb_takes m b \<Longrightarrow> pb_add m b = Some (False, b)"
  by (auto simp: pb_add_def pb_takes_def Let_def)

lemma pb_add_taken:
  assumes "pb_holds session sq ms b" "pb_takes m b"
  shows "\<exists>b'. pb_add m b = Some (True, b') \<and> pb_holds session sq (ms @ [m]) b' \<and> \<not> pb_sealed b'
    \<and> length (pb_buf b') = length (pb_buf b)"
proof -
  obtain spare where b: "length session = 10" "length ms \<le> 65534" "\<forall>m \<in> set ms. length m < 65536"
      "pb_count b = of_nat (length ms)" "pb_size b = 20 + frames_size ms" "\<not> pb_sealed b"
      "pb_buf b = mold_header session sq 0 @ concat (map frame ms) @ spare"
    using assms by (auto simp: pb_holds_def pb_takes_def)
  have lt: "length ms < 65534" using assms(2) b(2,4)
    by (simp add: pb_takes_def kMaxMessageCount_def word_less_nat_alt unat_count)
  have room: "2 + length m \<le> length spare" "length m < 65536"
    using assms(2) b(1,5,7) by (auto simp: pb_takes_def kMaxMessageSize_def)
  let ?a = "mold_header session sq 0 @ concat (map frame ms)"
  have store: "wr_bytes (?a @ spare) (length ?a) (frame m) = Some (?a @ frame m @ drop (2 + length m) spare)"
    using room by (simp add: wr_bytes_def blit_def)
  have "(if m \<noteq> [] then wr_bytes p (pb_size b + 2) m else Some p) = wr_bytes p (pb_size b + 2) m"
    if "length p = length (pb_buf b)" for p
    using that b(1,5,7) room by (auto simp: wr_bytes_def blit_def)
  then have "pb_add m b = Some (True, b\<lparr>pb_buf := ?a @ frame m @ drop (2 + length m) spare,
      pb_size := pb_size b + (2 + length m), pb_count := pb_count b + 1\<rparr>)"
    using assms(2) store b room
    by (auto simp: pb_add_def pb_takes_def be_store16_wr wr_bytes_def blit_def frame_def)
  then show ?thesis using b lt room by (auto simp: pb_holds_def)
qed

text \<open>A run of \<^verbatim>\<open>add\<close> calls: the flags they return and the builder afterwards.\<close>

primrec pb_adds :: "u8 list list \<Rightarrow> PacketBuilder \<Rightarrow> (bool list \<times> PacketBuilder) option" where
  "pb_adds [] b = Some ([], b)"
| "pb_adds (m # ms) b = do {
     (ok, b) \<leftarrow> pb_add m b;
     (oks, b) \<leftarrow> pb_adds ms b;
     Some (ok # oks, b) }"

definition accepted :: "bool list \<Rightarrow> u8 list list \<Rightarrow> u8 list list" where
  "accepted oks ms = map snd (filter fst (zip oks ms))"

lemma pb_adds_hold:
  assumes "pb_holds session sq ks b" "\<not> pb_sealed b"
  shows "\<exists>oks b'. pb_adds ms b = Some (oks, b') \<and> length oks = length ms \<and>
    pb_holds session sq (ks @ accepted oks ms) b' \<and> \<not> pb_sealed b'"
  using assms
proof (induction ms arbitrary: b ks)
  case (Cons m ms)
  show ?case
  proof (cases "pb_takes m b")
    case True
    from pb_add_taken [OF Cons.prems(1) True] obtain b1 where b1: "pb_add m b = Some (True, b1)"
        "pb_holds session sq (ks @ [m]) b1" "\<not> pb_sealed b1" by blast
    from Cons.IH [OF b1(2,3)] b1(1) show ?thesis by (auto simp: accepted_def)
  next
    case False
    from Cons.IH [OF Cons.prems] show ?thesis by (auto simp: accepted_def pb_add_refused [OF False])
  qed
qed (simp add: accepted_def)

lemma pb_finish_packet:
  assumes "pb_holds session sq ms b"
  shows "\<exists>b'. pb_finish b = Some (mold_header session sq (of_nat (length ms)) @ concat (map frame ms), b') \<and>
    pb_sealed b' \<and> pb_holds session sq ms b'"
proof -
  obtain spare where b: "length session = 10" "pb_count b = of_nat (length ms)" "pb_size b = 20 + frames_size ms"
      "pb_buf b = mold_header session sq (if pb_sealed b then pb_count b else 0) @ concat (map frame ms) @ spare"
    using assms by (auto simp: pb_holds_def)
  have hdr: "be_store16 (mold_header session sq 0 @ bs) 18 c = Some (mold_header session sq c @ bs)" for c bs
    using b(1) by (simp add: be_store16_wr wr_bytes_def blit_def mold_header_def)
  show ?thesis
    using assms b by (cases "pb_sealed b") (auto simp: pb_finish_def hdr rd_bytes_def pb_holds_def)
qed

lemma parse_mold_header:
  assumes "length session = 10"
  shows "parse_header (mold_header session sq c @ bs) out =
    Some (DS_ok, \<lparr>mh_session = session, mh_sequence = sq, mh_count = c, mh_kind = kind_of c\<rparr>)"
  using assms by (simp add: parse_header_def mold_header_def kHeaderSize_def kSessionSize_def image_simps)

lemma kind_of_count:
  assumes "n \<le> 65534"
  shows "kind_of (of_nat n) = (if n = 0 then Kind_heartbeat else Kind_data)"
  using unat_count [OF assms] assms by (auto simp: kind_of_def kEndOfSession_def word_unat_eq_iff)

lemma for_each_built:
  assumes "length session = 10" "length ms \<le> 65534" "\<forall>m \<in> set ms. length m < 65536"
  shows "for_each_message f (mold_header session sq (of_nat (length ms)) @ concat (map frame ms)) hdr s =
    Some (DS_ok, \<lparr>mh_session = session, mh_sequence = sq, mh_count = of_nat (length ms),
      mh_kind = (if ms = [] then Kind_heartbeat else Kind_data)\<rparr>, deliver_all f (number_from sq 0 ms) s)"
proof -
  let ?h = "mold_header session sq (of_nat (length ms))"
  have "validate_loop (length ms) (?h @ concat (map frame ms)) 20 = Some (Inr (20 + frames_size ms))"
    using validate_frames [OF assms(3), of ?h "[]"] assms(1) by simp
  moreover have "deliver_loop f (length ms) (?h @ concat (map frame ms)) sq 0 20 s =
      Some (deliver_all f (number_from sq 0 ms) s)"
    using deliver_frames [OF assms(3), of 0 f ?h "[]" sq s] assms(1,2) by simp
  ultimately show ?thesis
    using assms kind_of_count [OF assms(2)] unat_count [OF assms(2)]
    by (auto simp: for_each_message_def parse_mold_header validate_blocks_def kHeaderSize_def)
qed

section \<open>Loss accounting\<close>

text \<open>The messages of a packet that the tracker had not counted before, from what it returns to its caller.\<close>

definition packet_messages :: "MoldHeader \<Rightarrow> nat" where
  "packet_messages h = (if mh_kind h = Kind_data then unat (mh_count h) else 0)"

definition fresh_messages :: "MoldHeader \<Rightarrow> SequenceCheck \<Rightarrow> nat" where
  "fresh_messages h r =
     (if sc_result r = SR_duplicate then unat (sc_received r) + packet_messages h - unat (sc_expected r)
      else packet_messages h)"

text \<open>One session whose sequence numbers do not wrap.\<close>

definition in_session :: "u8 list \<Rightarrow> MoldHeader \<Rightarrow> bool" where
  "in_session session h \<longleftrightarrow> mh_session h = session \<and> unat (mh_sequence h) + packet_messages h < 2 ^ 64"

primrec track :: "MoldHeader list \<Rightarrow> SequenceTracker \<Rightarrow> (MoldHeader \<times> SequenceCheck) list \<times> SequenceTracker" where
  "track [] t = ([], t)"
| "track (h # hs) t = (let (r, t) = on_packet h t; (rs, t) = track hs t in ((h, r) # rs, t))"

lemma packet_end:
  assumes "in_session session h"
  shows "unat (mh_sequence h + (if mh_kind h = Kind_data then ucast (mh_count h) else 0)) =
    unat (mh_sequence h) + packet_messages h"
proof -
  have "unat (ucast (mh_count h) :: u64) = unat (mh_count h)"
    using unsigned_less [where 'a = nat, of "mh_count h"] by (intro unat_ucast_small) simp
  then show ?thesis using assms unat_add_no_overflow [of "mh_sequence h" "ucast (mh_count h)"]
    by (auto simp: in_session_def packet_messages_def)
qed

text \<open>What one packet does to a synchronised tracker of its own session.\<close>

lemma on_packet_accounts:
  assumes "st_synced t" "st_session t = session" "in_session session h" "st_missing t \<le> st_expected t"
    and p: "on_packet h t = (r, t')"
  shows "st_synced t'" "st_session t' = session" "st_missing t' \<le> st_expected t'"
    "unat (st_expected t') = unat (st_expected t) + unat (sc_missing r) + fresh_messages h r"
    "unat (st_missing t') = unat (st_missing t) + unat (sc_missing r)"
proof -
  let ?fin = "mh_sequence h + (if mh_kind h = Kind_data then ucast (mh_count h) else 0)"
  have sess: "mh_session h = session" using assms(3) by (simp add: in_session_def)
  note fin = packet_end [OF assms(3)]
  consider (eq) "mh_sequence h = st_expected t" | (gap) "mh_sequence h > st_expected t" | (dup) "mh_sequence h < st_expected t"
    using less_linear by blast
  then have "st_synced t' \<and> st_session t' = session \<and> st_missing t' \<le> st_expected t' \<and>
    unat (st_expected t') = unat (st_expected t) + unat (sc_missing r) + fresh_messages h r \<and>
    unat (st_missing t') = unat (st_missing t) + unat (sc_missing r)"
  proof cases
    case eq
    then have "r = \<lparr>sc_result = SR_in_order, sc_expected = st_expected t, sc_received = mh_sequence h, sc_missing = 0\<rparr>"
        "t' = t\<lparr>st_expected := ?fin\<rparr>"
      using p assms(1,2) sess by (simp_all add: on_packet_def Let_def)
    then show ?thesis using assms(1,2,4) fin eq by (simp add: fresh_messages_def word_le_nat_alt)
  next
    case gap
    let ?m = "mh_sequence h - st_expected t"
    have m: "unat ?m = unat (mh_sequence h) - unat (st_expected t)" using gap by (simp add: unat_minus_le)
    have lt: "unat (st_missing t) + unat ?m \<le> unat (mh_sequence h)"
      using assms(4) gap unfolding m word_le_nat_alt word_less_nat_alt by linarith
    then have nw: "unat (st_missing t) + unat ?m < 2 ^ 64"
      using unsigned_less [where 'a = nat, of "mh_sequence h"] by simp
    then have "\<not> st_missing t > kMax64 - ?m"
      by (simp add: kMax64_def word_gt_max_minus_iff)
    then have "r = \<lparr>sc_result = SR_gap, sc_expected = st_expected t, sc_received = mh_sequence h, sc_missing = ?m\<rparr>"
        "t' = t\<lparr>st_gaps := st_gaps t + 1, st_missing := st_missing t + ?m, st_expected := ?fin\<rparr>"
      using p [unfolded on_packet_def Let_def] assms(1,2) sess gap less_imp_neq [OF gap] by auto
    moreover have "unat (st_missing t + ?m) = unat (st_missing t) + unat ?m"
      using nw by (intro unat_add_no_overflow) simp
    ultimately show ?thesis using assms(1,2) fin m lt gap
      by (simp add: fresh_messages_def word_le_nat_alt word_less_nat_alt)
  next
    case dup
    then have "r = \<lparr>sc_result = SR_duplicate, sc_expected = st_expected t, sc_received = mh_sequence h, sc_missing = 0\<rparr>"
        "t' = (if ?fin > st_expected t then t\<lparr>st_duplicates := st_duplicates t + 1, st_expected := ?fin\<rparr>
               else t\<lparr>st_duplicates := st_duplicates t + 1\<rparr>)"
      using p [unfolded on_packet_def Let_def] assms(1,2) sess dup less_imp_neq [OF dup] less_not_sym [OF dup] by auto
    then show ?thesis using assms(1,2,4) fin
      by (simp add: fresh_messages_def word_le_nat_alt word_less_nat_alt)
  qed
  then show "st_synced t'" "st_session t' = session" "st_missing t' \<le> st_expected t'"
    "unat (st_expected t') = unat (st_expected t) + unat (sc_missing r) + fresh_messages h r"
    "unat (st_missing t') = unat (st_missing t) + unat (sc_missing r)" by simp_all
qed

lemma track_accounts:
  assumes "st_synced t" "st_session t = session" "\<forall>h \<in> set hs. in_session session h" "st_missing t \<le> st_expected t"
    and "track hs t = (rs, t')"
  shows "unat (st_expected t') = unat (st_expected t) + (\<Sum>(h, r)\<leftarrow>rs. unat (sc_missing r) + fresh_messages h r) \<and>
    unat (st_missing t') = unat (st_missing t) + (\<Sum>(h, r)\<leftarrow>rs. unat (sc_missing r))"
  using assms
proof (induction hs arbitrary: t rs)
  case (Cons h hs)
  obtain r t1 where r: "on_packet h t = (r, t1)" by (cases "on_packet h t")
  obtain rs1 t2 where rs: "track hs t1 = (rs1, t2)" by (cases "track hs t1")
  have 1: "on_packet h t = (r, t1)" "track hs t1 = (rs1, t')" "rs = (h, r) # rs1"
    using r rs Cons.prems(5) by auto
  note step = on_packet_accounts [OF Cons.prems(1,2) _ Cons.prems(4) 1(1)]
  have h: "in_session session h" using Cons.prems(3) by simp
  from Cons.IH [OF step(1) step(2) _ step(3) 1(2)] Cons.prems(3) h step(4,5) 1(3) show ?case by simp
qed simp

definition sample_session :: "u8 list" where
  "sample_session = replicate 10 (asc CHR ''S'')"

lemma length_sample_session: "length sample_session = 10"
  by (simp add: sample_session_def)

section \<open>Claims\<close>

text \<open>
  Claim C30: \<^verbatim>\<open>for_each_message\<close> returns on every byte string without reading outside it. The callback
  runs only when the status is \<^verbatim>\<open>ok\<close>; the packet is then the 20-byte header followed by exactly the
  announced number of length-prefixed blocks and nothing else (no block for a heartbeat or an end of
  session), and the callback has seen those blocks, in wire order, numbered consecutively from the
  header's sequence number.
\<close>

theorem mold_packet_all_or_nothing:
  "\<exists>st h s'. for_each_message f packet hdr s = Some (st, h, s') \<and>
     (if st \<noteq> DS_ok then s' = s
      else mh_session h = take 10 packet \<and> be_load64 packet 10 = Some (mh_sequence h) \<and>
        be_load16 packet 18 = Some (mh_count h) \<and> mh_kind h = kind_of (mh_count h) \<and>
        (\<exists>ms. packet = take 20 packet @ concat (map frame ms) \<and>
           length ms = (if mh_kind h = Kind_data then unat (mh_count h) else 0) \<and>
           s' = deliver_all f (number_from (mh_sequence h) 0 ms) s))"
  using for_each_message_cases [of f packet hdr s] by (auto split: if_splits)

text \<open>
  Claim C31: whatever sequence of messages is offered to a \<^verbatim>\<open>PacketBuilder\<close>, the finished packet parses
  back to exactly the messages that \<^verbatim>\<open>add\<close> accepted, in order and numbered from the builder's first
  sequence number; a finished builder refuses further messages and keeps returning the same packet.
\<close>

theorem packet_builder_round_trip:
  assumes "length session = 10" "20 \<le> length buffer"
  shows "\<exists>b0 oks b packet b'. PacketBuilder_new buffer session sq = Some b0 \<and> pb_adds ms b0 = Some (oks, b) \<and>
    length oks = length ms \<and> pb_finish b = Some (packet, b') \<and>
    (\<exists>h. for_each_message f packet hdr s = Some (DS_ok, h, deliver_all f (number_from sq 0 (accepted oks ms)) s) \<and>
       mh_session h = session \<and> mh_sequence h = sq \<and> packet_messages h = length (accepted oks ms)) \<and>
    pb_add m b' = Some (False, b') \<and> (\<exists>b''. pb_finish b' = Some (packet, b''))"
proof -
  obtain b0 where b0: "PacketBuilder_new buffer session sq = Some b0" "pb_holds session sq [] b0" "\<not> pb_sealed b0"
    using PacketBuilder_new_holds [OF assms] by blast
  obtain oks b where b: "pb_adds ms b0 = Some (oks, b)" "length oks = length ms" "pb_holds session sq (accepted oks ms) b"
    using pb_adds_hold [OF b0(2,3), of ms] by auto
  let ?p = "mold_header session sq (of_nat (length (accepted oks ms))) @ concat (map frame (accepted oks ms))"
  obtain b' where b': "pb_finish b = Some (?p, b')" "pb_sealed b'" "pb_holds session sq (accepted oks ms) b'"
    using pb_finish_packet [OF b(3)] by blast
  have "length (accepted oks ms) \<le> 65534" "\<forall>m \<in> set (accepted oks ms). length m < 65536"
    using b(3) by (simp_all add: pb_holds_def)
  note built = for_each_built [OF assms(1) this, of f sq hdr s] and count = unat_count [OF this(1)]
  have "pb_add m b' = Some (False, b')" using b'(2) by (intro pb_add_refused) (simp add: pb_takes_def)
  with b0(1) b(1,2) b'(1) pb_finish_packet [OF b'(3)] built count show ?thesis
    by (auto simp: packet_messages_def)
qed

theorem packet_builder_round_trip_witness:
  "\<exists>b0 oks b packet b'. PacketBuilder_new (replicate 64 0) sample_session 7 = Some b0 \<and>
     pb_adds [[1, 2], []] b0 = Some (oks, b) \<and> pb_finish b = Some (packet, b') \<and>
     (\<exists>h. for_each_message (\<lambda>q m s. s + 1) packet \<lparr>mh_session = [], mh_sequence = 0, mh_count = 0, mh_kind = Kind_data\<rparr> (0 :: nat) =
        Some (DS_ok, h, deliver_all (\<lambda>q m s. s + 1) (number_from 7 0 (accepted oks [[1, 2], []])) 0))"
  using packet_builder_round_trip [of sample_session "replicate 64 0" 7 "[[1, 2], []]" "\<lambda>q m s. s + 1"
      "\<lparr>mh_session = [], mh_sequence = 0, mh_count = 0, mh_kind = Kind_data\<rparr>" "0 :: nat" "[]"]
  by (simp add: length_sample_session) blast

text \<open>
  Claim C32: the sequence tracker's loss accounting is exact. Over any packets of one session whose
  numbers do not wrap, in any order and with any repetitions, the distance from the first packet's
  sequence number to the next expected one is the number of messages counted missing plus the number
  of messages that were new when their packet arrived, and the missing total is the sum of the gaps
  reported packet by packet.
\<close>

theorem sequence_tracker_accounts:
  assumes "\<forall>h \<in> set (h0 # hs). in_session session h"
  shows "\<exists>rs t. track (h0 # hs) SequenceTracker_new = (rs, t) \<and>
    unat (st_expected t) = unat (mh_sequence h0) + unat (st_missing t) + (\<Sum>(h, r)\<leftarrow>rs. fresh_messages h r) \<and>
    unat (st_missing t) = (\<Sum>(h, r)\<leftarrow>rs. unat (sc_missing r))"
proof -
  obtain r t1 where 1: "on_packet h0 SequenceTracker_new = (r, t1)" by (cases "on_packet h0 SequenceTracker_new")
  obtain rs t where 2: "track hs t1 = (rs, t)" by (cases "track hs t1")
  have h0: "in_session session h0" using assms by simp
  have t1: "st_synced t1" "st_session t1 = session" "st_missing t1 = 0" "sc_missing r = 0"
      "unat (st_expected t1) = unat (mh_sequence h0) + fresh_messages h0 r"
    using 1 h0 packet_end [OF h0]
    by (auto simp: on_packet_def SequenceTracker_new_def Let_def fresh_messages_def in_session_def)
  have "(\<Sum>(h, r)\<leftarrow>rs. unat (sc_missing r) + fresh_messages h r) =
      (\<Sum>(h, r)\<leftarrow>rs. unat (sc_missing r)) + (\<Sum>(h, r)\<leftarrow>rs. fresh_messages h r)"
    by (induction rs) auto
  with track_accounts [OF t1(1,2) _ _ 2] assms t1(3-5) 1 2 show ?thesis by (simp add: word_le_nat_alt)
qed

theorem sequence_tracker_accounts_witness:
  "\<exists>rs t. track [\<lparr>mh_session = sample_session, mh_sequence = 1, mh_count = 2, mh_kind = Kind_data\<rparr>,
                 \<lparr>mh_session = sample_session, mh_sequence = 9, mh_count = 0, mh_kind = Kind_heartbeat\<rparr>]
       SequenceTracker_new = (rs, t) \<and>
     unat (st_expected t) = 1 + unat (st_missing t) + (\<Sum>(h, r)\<leftarrow>rs. fresh_messages h r)"
  using sequence_tracker_accounts [of "\<lparr>mh_session = sample_session, mh_sequence = 1, mh_count = 2, mh_kind = Kind_data\<rparr>"
      "[\<lparr>mh_session = sample_session, mh_sequence = 9, mh_count = 0, mh_kind = Kind_heartbeat\<rparr>]" sample_session]
  by (simp add: in_session_def packet_messages_def) blast

end
