(* ===== verification/Slab_Pool.thy ===== *)
theory Slab_Pool
  imports Prelude
begin

text \<open>
  \<^verbatim>\<open>src/include/optitrade/core/slab_pool.hpp\<close>: the fixed-capacity pool with an intrusive LIFO free list.
  The pool is refined to a stack of free handles; the locale \<open>handle_pool\<close> is the interface its clients
  rely on.
\<close>

type_synonym Handle = u32

definition kNull :: Handle where "kNull = 0xFFFFFFFF"
definition kMaxCapacity :: nat where "kMaxCapacity = 0xFFFFFFFE"
definition kAllocated :: Handle where "kAllocated = kNull - 1"

record 'a Node =
  nd_value :: 'a
  nd_next :: Handle

record 'a SlabPool =
  sp_nodes :: "'a Node list"
  sp_free :: Handle
  sp_size :: nat

text \<open>The constructor; \<^term>\<open>None\<close> is the exception \<^verbatim>\<open>std::length_error\<close>. \<open>d\<close> is the value \<^verbatim>\<open>T{}\<close>.\<close>

definition sp_new :: "'a \<Rightarrow> nat \<Rightarrow> 'a SlabPool option" where
  "sp_new d capacity =
     (if capacity > kMaxCapacity then None
      else Some \<lparr>sp_nodes = map (\<lambda>i. \<lparr>nd_value = d, nd_next = if i + 1 < capacity then of_nat (i + 1) else kNull\<rparr>) [0..<capacity],
                 sp_free = if capacity \<noteq> 0 then 0 else kNull, sp_size = 0\<rparr>)"

definition sp_allocate :: "'a \<Rightarrow> 'a SlabPool \<Rightarrow> Handle \<times> 'a SlabPool" where
  "sp_allocate d p =
     (if sp_free p = kNull then (kNull, p)
      else let h = sp_free p; n = sp_nodes p ! unat h in
        (h, p\<lparr>sp_free := nd_next n, sp_nodes := (sp_nodes p)[unat h := \<lparr>nd_value = d, nd_next = kAllocated\<rparr>],
              sp_size := sp_size p + 1\<rparr>))"

definition sp_live :: "Handle \<Rightarrow> 'a SlabPool \<Rightarrow> bool" where
  "sp_live h p = (unat h < length (sp_nodes p) \<and> nd_next (sp_nodes p ! unat h) = kAllocated)"

definition sp_release :: "Handle \<Rightarrow> 'a SlabPool \<Rightarrow> 'a SlabPool" where
  "sp_release h p =
     (if \<not> sp_live h p then p
      else p\<lparr>sp_nodes := (sp_nodes p)[unat h := (sp_nodes p ! unat h)\<lparr>nd_next := sp_free p\<rparr>],
             sp_free := h, sp_size := sp_size p - 1\<rparr>)"

text \<open>\<^verbatim>\<open>operator[]\<close>, read and written through the reference it returns.\<close>

definition sp_get :: "Handle \<Rightarrow> 'a SlabPool \<Rightarrow> 'a" where
  "sp_get h p = nd_value (sp_nodes p ! unat h)"

definition sp_set :: "Handle \<Rightarrow> 'a \<Rightarrow> 'a SlabPool \<Rightarrow> 'a SlabPool" where
  "sp_set h v p = p\<lparr>sp_nodes := (sp_nodes p)[unat h := (sp_nodes p ! unat h)\<lparr>nd_value := v\<rparr>]\<rparr>"

definition sp_capacity :: "'a SlabPool \<Rightarrow> nat" where
  "sp_capacity p = length (sp_nodes p)"

section \<open>The free list\<close>

fun free_chain :: "'a Node list \<Rightarrow> Handle \<Rightarrow> Handle list \<Rightarrow> bool" where
  "free_chain ns h [] = (h = kNull)"
| "free_chain ns h (x # xs) = (h = x \<and> x \<noteq> kNull \<and> unat x < length ns \<and> free_chain ns (nd_next (ns ! unat x)) xs)"

text \<open>
  The pool with the free handles \<open>fs\<close>: they form the chain, each once; every other node is marked
  allocated.
\<close>

definition sp_stack :: "'a SlabPool \<Rightarrow> Handle list \<Rightarrow> bool" where
  "sp_stack p fs \<longleftrightarrow> length (sp_nodes p) \<le> kMaxCapacity \<and> distinct fs \<and> free_chain (sp_nodes p) (sp_free p) fs \<and>
     sp_size p + length fs = length (sp_nodes p) \<and>
     (\<forall>h. unat h < length (sp_nodes p) \<longrightarrow> (nd_next (sp_nodes p ! unat h) = kAllocated) = (h \<notin> set fs))"

lemma kNull_max: "unat kNull = 4294967295" "unat kAllocated = 4294967294"
  by (simp_all add: kNull_def kAllocated_def)

lemma in_range_neq: "unat h < n \<Longrightarrow> n \<le> kMaxCapacity \<Longrightarrow> h \<noteq> kNull \<and> h \<noteq> kAllocated"
  using kNull_max by (auto simp: kMaxCapacity_def)

lemma free_chain_range: "free_chain ns h xs \<Longrightarrow> x \<in> set xs \<Longrightarrow> unat x < length ns"
  by (induction xs arbitrary: h) auto

lemma free_chain_update:
  "free_chain ns h xs \<Longrightarrow> x \<notin> set xs \<Longrightarrow> free_chain (ns[unat x := n]) h xs"
proof (induction xs arbitrary: h)
  case (Cons y ys)
  then have "unat y \<noteq> unat x" by (auto simp: word_unat_eq_iff)
  with Cons show ?case by auto
qed simp

lemma free_chain_next:
  "free_chain ns h xs \<Longrightarrow> \<forall>i < length ns. nd_next (ns' ! i) = nd_next (ns ! i) \<Longrightarrow> length ns' = length ns \<Longrightarrow>
     free_chain ns' h xs"
  by (induction xs arbitrary: h) auto

lemma sp_stack_live: "sp_stack p fs \<Longrightarrow> sp_live h p \<longleftrightarrow> unat h < sp_capacity p \<and> h \<notin> set fs"
  by (auto simp: sp_stack_def sp_live_def sp_capacity_def)

lemma unat_handle: "i \<le> kMaxCapacity \<Longrightarrow> unat (of_nat i :: Handle) = i"
  by (simp add: unat_of_nat kMaxCapacity_def)

lemma upt_chain:
  assumes "n \<le> kMaxCapacity" "ns = map (\<lambda>i. \<lparr>nd_value = d, nd_next = if i + 1 < n then of_nat (i + 1) else kNull\<rparr>) [0..<n]"
  shows "k \<le> n \<Longrightarrow> free_chain ns (if k < n then of_nat k else kNull) (map of_nat [k..<n])"
proof (induction "n - k" arbitrary: k)
  case 0
  then show ?case by simp
next
  case (Suc m)
  then have k: "k < n" by simp
  then have u: "unat (of_nat k :: Handle) = k" using assms(1) by (intro unat_handle) simp
  have "free_chain ns (if Suc k < n then of_nat (Suc k) else kNull) (map of_nat [Suc k..<n])"
    using Suc k by (intro Suc.hyps) simp_all
  moreover have "(of_nat k :: Handle) \<noteq> kNull" using in_range_neq [of "of_nat k" n] u k assms(1) by simp
  moreover have "length ns = n" "nd_next (ns ! k) = (if Suc k < n then of_nat (Suc k) else kNull)"
    using k by (simp_all add: assms(2))
  moreover have "map of_nat [k..<n] = (of_nat k :: Handle) # map of_nat [Suc k..<n]" using k by (simp add: upt_conv_Cons)
  ultimately show ?case using k u by (simp del: of_nat_Suc upt_Suc)
qed

lemma distinct_handles: "n \<le> kMaxCapacity \<Longrightarrow> distinct (map (of_nat :: nat \<Rightarrow> Handle) [0..<n])"
proof -
  assume n: "n \<le> kMaxCapacity"
  have "inj_on (of_nat :: nat \<Rightarrow> Handle) {0..<n}"
  proof (rule inj_on_inverseI)
    show "unat (of_nat i :: Handle) = i" if "i \<in> {0..<n}" for i using that n by (intro unat_handle) simp
  qed
  then show ?thesis by (simp add: distinct_map)
qed

lemma handle_enum: "n \<le> kMaxCapacity \<Longrightarrow> (h :: Handle) \<in> of_nat ` {0..<n} \<longleftrightarrow> unat h < n"
proof
  assume "n \<le> kMaxCapacity" "h \<in> of_nat ` {0..<n}"
  then show "unat h < n" by (auto simp: unat_of_nat kMaxCapacity_def)
next
  assume "unat h < n"
  then show "h \<in> of_nat ` {0..<n}" by (intro image_eqI [of _ _ "unat h"]) simp_all
qed

lemma sp_new_stack:
  assumes "sp_new d n = Some p"
  shows "sp_stack p (map of_nat [0..<n])" "sp_capacity p = n"
proof -
  have n: "n \<le> kMaxCapacity" using assms by (simp add: sp_new_def split: if_splits)
  let ?ns = "map (\<lambda>i. \<lparr>nd_value = d, nd_next = if i + 1 < n then of_nat (i + 1) else kNull\<rparr>) [0..<n]"
  have p: "p = \<lparr>sp_nodes = ?ns, sp_free = if n \<noteq> 0 then 0 else kNull, sp_size = 0\<rparr>"
    using assms n by (auto simp: sp_new_def)
  have "nd_next (?ns ! i) \<noteq> kAllocated" if "i < n" for i
  proof (cases "i + 1 < n")
    case True
    then have "unat (of_nat (i + 1) :: Handle) = i + 1" using n by (intro unat_handle) simp
    then show ?thesis using in_range_neq [of "of_nat (i + 1)" n] True n that by auto
  next
    case False
    then show ?thesis using that by (simp add: kNull_def kAllocated_def)
  qed
  then show "sp_stack p (map of_nat [0..<n])"
    using upt_chain [OF n refl, of 0 d] distinct_handles [OF n] handle_enum [OF n] n
    by (auto simp: sp_stack_def p)
  show "sp_capacity p = n" by (simp add: sp_capacity_def p)
qed

section \<open>The operations on the stack of free handles\<close>

lemma sp_allocate_empty: "sp_stack p [] \<Longrightarrow> sp_allocate d p = (kNull, p)"
  by (simp add: sp_stack_def sp_allocate_def)

lemma sp_allocate_pop:
  assumes "sp_stack p (x # xs)"
  shows "\<exists>p'. sp_allocate d p = (x, p') \<and> sp_stack p' xs \<and> sp_capacity p' = sp_capacity p \<and> x \<noteq> kNull \<and>
    unat x < sp_capacity p \<and> sp_get x p' = d \<and> (\<forall>y. y \<noteq> x \<longrightarrow> sp_get y p' = sp_get y p)"
proof -
  have free: "sp_free p = x" "x \<noteq> kNull" "unat x < length (sp_nodes p)" "x \<notin> set xs"
      "free_chain (sp_nodes p) (nd_next (sp_nodes p ! unat x)) xs"
    using assms by (auto simp: sp_stack_def)
  let ?p = "p\<lparr>sp_free := nd_next (sp_nodes p ! unat x),
    sp_nodes := (sp_nodes p)[unat x := \<lparr>nd_value = d, nd_next = kAllocated\<rparr>], sp_size := sp_size p + 1\<rparr>"
  have "sp_allocate d p = (x, ?p)" using free by (simp add: sp_allocate_def Let_def)
  moreover have "sp_stack ?p xs"
    unfolding sp_stack_def
  proof (intro conjI allI impI)
    show "free_chain (sp_nodes ?p) (sp_free ?p) xs" using free(4,5) by (simp add: free_chain_update)
    fix h :: Handle assume "unat h < length (sp_nodes ?p)"
    then show "(nd_next (sp_nodes ?p ! unat h) = kAllocated) = (h \<notin> set xs)"
      using assms free(3,4) by (cases "h = x") (auto simp: sp_stack_def nth_list_update simp flip: word_unat_eq_iff)
  qed (use assms in \<open>auto simp: sp_stack_def\<close>)
  moreover have "sp_get y ?p = sp_get y p" if "y \<noteq> x" for y
    using that by (simp add: sp_get_def word_unat_eq_iff)
  ultimately show ?thesis using free by (auto simp: sp_capacity_def sp_get_def)
qed

lemma sp_release_push:
  assumes "sp_stack p fs" "sp_live h p"
  shows "sp_stack (sp_release h p) (h # fs)"
proof -
  have h: "unat h < length (sp_nodes p)" "h \<notin> set fs" "h \<noteq> kNull"
    using assms in_range_neq [of h "length (sp_nodes p)"] by (auto simp: sp_stack_def sp_live_def)
  have pos: "0 < sp_size p"
  proof (rule ccontr)
    assume "\<not> 0 < sp_size p"
    then have "length fs = length (sp_nodes p)" using assms(1) by (simp add: sp_stack_def)
    moreover have "set fs \<subseteq> {x. unat x < length (sp_nodes p)} - {h}"
      using assms(1) h(2) free_chain_range [of "sp_nodes p" "sp_free p" fs] by (auto simp: sp_stack_def)
    moreover have cap: "length (sp_nodes p) \<le> kMaxCapacity" using assms(1) by (simp add: sp_stack_def)
    have "{x :: Handle. unat x < length (sp_nodes p)} = of_nat ` {0..<length (sp_nodes p)}"
      using handle_enum [OF cap] by blast
    then have "finite {x :: Handle. unat x < length (sp_nodes p)}" "card {x :: Handle. unat x < length (sp_nodes p)} \<le> length (sp_nodes p)"
      using card_image_le [of "{0..<length (sp_nodes p)}" "of_nat :: nat \<Rightarrow> Handle"] by simp_all
    moreover have "card (set fs) = length fs" using assms(1) by (simp add: sp_stack_def distinct_card)
    ultimately show False using h(1)
      by (metis (no_types, lifting) card_Diff1_less card_mono finite_Diff leD le_trans less_le_trans mem_Collect_eq)
  qed
  show ?thesis
    unfolding sp_stack_def sp_release_def if_not_P [OF iffD2 [OF not_not assms(2)]]
  proof (intro conjI allI impI)
    let ?p = "p\<lparr>sp_nodes := (sp_nodes p)[unat h := (sp_nodes p ! unat h)\<lparr>nd_next := sp_free p\<rparr>],
      sp_free := h, sp_size := sp_size p - 1\<rparr>"
    have "free_chain (sp_nodes p) (sp_free p) fs" using assms(1) by (simp add: sp_stack_def)
    then show "free_chain (sp_nodes ?p) (sp_free ?p) (h # fs)" using h by (simp add: free_chain_update)
    have fr: "sp_free p \<noteq> kAllocated"
    proof (cases fs)
      case Nil
      then show ?thesis using assms(1) by (simp add: sp_stack_def kNull_def kAllocated_def)
    next
      case (Cons x xs)
      then show ?thesis using assms(1) in_range_neq [of x "length (sp_nodes p)"] by (auto simp: sp_stack_def)
    qed
    fix x :: Handle assume "unat x < length (sp_nodes ?p)"
    then show "(nd_next (sp_nodes ?p ! unat x) = kAllocated) = (x \<notin> set (h # fs))"
      using assms(1) h(1) fr by (cases "x = h") (auto simp: sp_stack_def nth_list_update simp flip: word_unat_eq_iff)
  qed (use assms(1) h(2) pos in \<open>auto simp: sp_stack_def\<close>)
qed

lemma sp_release_dead: "\<not> sp_live h p \<Longrightarrow> sp_release h p = p"
  by (simp add: sp_release_def)

lemma sp_release_frame:
  "sp_capacity (sp_release h p) = sp_capacity p" "sp_get y (sp_release h p) = sp_get y p"
  by (cases "unat y = unat h"; simp add: sp_release_def sp_capacity_def sp_get_def sp_live_def)+

lemma sp_set_stack:
  assumes "sp_stack p fs"
  shows "sp_stack (sp_set h v p) fs"
proof -
  have "nd_next (sp_nodes (sp_set h v p) ! i) = nd_next (sp_nodes p ! i)" if "i < length (sp_nodes p)" for i
    using that by (cases "i = unat h") (simp_all add: sp_set_def)
  moreover have "length (sp_nodes (sp_set h v p)) = length (sp_nodes p)" "sp_free (sp_set h v p) = sp_free p"
      "sp_size (sp_set h v p) = sp_size p"
    by (simp_all add: sp_set_def)
  ultimately show ?thesis
    using assms free_chain_next [of "sp_nodes p" "sp_free p" fs "sp_nodes (sp_set h v p)"] by (auto simp: sp_stack_def)
qed

lemma sp_set_get: "unat h < sp_capacity p \<Longrightarrow> sp_get y (sp_set h v p) = (if y = h then v else sp_get y p)"
  by (auto simp: sp_get_def sp_set_def sp_capacity_def word_unat_eq_iff)

section \<open>The interface of a handle pool\<close>

text \<open>Which handles a client owns after the calls, given what the allocations returned.\<close>

fun owned :: "Handle option list \<Rightarrow> Handle list \<Rightarrow> Handle set \<Rightarrow> Handle set" where
  "owned [] hs L = L"
| "owned (None # cs) (h # hs) L = owned cs hs (if h = kNull then L else insert h L)"
| "owned (Some h # cs) hs L = owned cs hs (L - {h})"
| "owned (None # cs) [] L = L"

text \<open>
  What a client of the pool relies on: a predicate \<open>ok p L\<close> saying that exactly the handles in \<open>L\<close> are
  live, an allocation that fails only when \<open>cap\<close> handles are live and otherwise returns a handle that was
  not live, and a release that frees exactly its argument.
\<close>

locale handle_pool =
  fixes ok :: "'p \<Rightarrow> Handle set \<Rightarrow> bool"
    and cap :: "'p \<Rightarrow> nat"
    and alloc :: "'p \<Rightarrow> Handle \<times> 'p"
    and release :: "Handle \<Rightarrow> 'p \<Rightarrow> 'p"
  assumes finite_live: "ok p L \<Longrightarrow> finite L \<and> card L \<le> cap p"
    and null_dead: "ok p L \<Longrightarrow> kNull \<notin> L"
    and alloc_ok: "ok p L \<Longrightarrow> alloc p = (h, p') \<Longrightarrow>
      (if card L = cap p then h = kNull \<and> p' = p else h \<noteq> kNull \<and> h \<notin> L \<and> ok p' (insert h L) \<and> cap p' = cap p)"
    and release_ok: "ok p L \<Longrightarrow> ok (release h p) (L - {h}) \<and> cap (release h p) = cap p"
begin

primrec run :: "Handle option list \<Rightarrow> 'p \<Rightarrow> Handle list \<times> 'p" where
  "run [] p = ([], p)"
| "run (c # cs) p = (case c of
     None \<Rightarrow> (let (h, p) = alloc p; (hs, p) = run cs p in (h # hs, p))
   | Some h \<Rightarrow> run cs (release h p))"

lemma run_owned:
  "ok p L \<Longrightarrow> run cs p = (hs, p') \<Longrightarrow> ok p' (owned cs hs L) \<and> cap p' = cap p"
proof (induction cs arbitrary: p L hs)
  case (Cons c cs)
  show ?case
  proof (cases c)
    case None
    obtain h p1 where 1: "alloc p = (h, p1)" by (cases "alloc p")
    obtain hs1 p2 where 2: "run cs p1 = (hs1, p2)" by (cases "run cs p1")
    from Cons.prems(2) None 1 2 have eq: "hs = h # hs1" "p2 = p'" by auto
    from alloc_ok [OF Cons.prems(1) 1] have "ok p1 (if h = kNull then L else insert h L) \<and> cap p1 = cap p"
      using Cons.prems(1) by (auto split: if_splits)
    with Cons.IH [of p1 "if h = kNull then L else insert h L" hs1] 2 eq None show ?thesis by simp
  next
    case (Some h)
    with Cons.prems release_ok [OF Cons.prems(1), of h] Cons.IH [of "release h p" "L - {h}" hs] show ?thesis by simp
  qed
qed simp

end

definition live_set :: "'a SlabPool \<Rightarrow> Handle set" where
  "live_set p = {h. sp_live h p}"

definition pool_ok :: "'a SlabPool \<Rightarrow> Handle set \<Rightarrow> bool" where
  "pool_ok p L \<longleftrightarrow> (\<exists>fs. sp_stack p fs) \<and> L = live_set p"

lemma live_set_stack: "sp_stack p fs \<Longrightarrow> live_set p = {h. unat h < sp_capacity p} - set fs"
  by (auto simp: live_set_def sp_stack_live)

lemma handles_below: "n \<le> kMaxCapacity \<Longrightarrow> finite {h :: Handle. unat h < n} \<and> card {h :: Handle. unat h < n} = n"
proof -
  assume n: "n \<le> kMaxCapacity"
  have "{h :: Handle. unat h < n} = set (map of_nat [0..<n])" using handle_enum [OF n] by auto
  then show ?thesis using distinct_card [OF distinct_handles [OF n]] by simp
qed

lemma live_card:
  assumes "sp_stack p fs"
  shows "finite (live_set p)" "card (live_set p) + length fs = sp_capacity p"
proof -
  have cap: "sp_capacity p \<le> kMaxCapacity" using assms by (simp add: sp_stack_def sp_capacity_def)
  note below = handles_below [OF cap]
  have sub: "set fs \<subseteq> {h. unat h < sp_capacity p}"
    using assms free_chain_range [of "sp_nodes p" "sp_free p" fs] by (auto simp: sp_stack_def sp_capacity_def)
  have fs: "card (set fs) = length fs" using assms by (simp add: sp_stack_def distinct_card)
  show "finite (live_set p)" using below by (simp add: live_set_stack [OF assms])
  show "card (live_set p) + length fs = sp_capacity p"
    using below sub fs card_mono [of "{h. unat h < sp_capacity p}" "set fs"]
    by (simp add: live_set_stack [OF assms] card_Diff_subset)
qed

interpretation pool: handle_pool pool_ok sp_capacity "sp_allocate d" sp_release for d :: 'a
proof
  fix p :: "'a SlabPool" and L h p'
  assume ok: "pool_ok p L"
  then obtain fs where fs: "sp_stack p fs" and L: "L = live_set p" by (auto simp: pool_ok_def)
  show "finite L \<and> card L \<le> sp_capacity p" using live_card [OF fs] L by simp
  show "kNull \<notin> L"
    using fs in_range_neq [of kNull "length (sp_nodes p)"] by (auto simp: L live_set_def sp_live_def sp_stack_def)
  show "if card L = sp_capacity p then h = kNull \<and> p' = p
      else h \<noteq> kNull \<and> h \<notin> L \<and> pool_ok p' (insert h L) \<and> sp_capacity p' = sp_capacity p"
    if "sp_allocate d p = (h, p')"
  proof (cases fs)
    case Nil
    then show ?thesis using that sp_allocate_empty [of p d] fs live_card [OF fs] L by simp
  next
    case (Cons x xs)
    then have "sp_stack p (x # xs)" using fs by simp
    from sp_allocate_pop [OF this, of d] that have p': "h = x" "sp_stack p' xs" "sp_capacity p' = sp_capacity p"
      "x \<noteq> kNull" "unat x < sp_capacity p" by auto
    have "x \<notin> set xs" using fs Cons by (simp add: sp_stack_def)
    then have "live_set p' = insert x (live_set p)" "x \<notin> live_set p"
      using p' live_set_stack [OF fs] live_set_stack [OF p'(2)] Cons by auto
    then show ?thesis using p' live_card [OF fs] Cons L by (auto simp: pool_ok_def)
  qed
  show "pool_ok (sp_release h p) (L - {h}) \<and> sp_capacity (sp_release h p) = sp_capacity p"
  proof (cases "sp_live h p")
    case True
    note st = sp_release_push [OF fs True]
    have "live_set (sp_release h p) = live_set p - {h}"
      using live_set_stack [OF fs] live_set_stack [OF st] by (auto simp: sp_release_frame)
    then show ?thesis using st L by (auto simp: pool_ok_def sp_release_frame)
  next
    case False
    then have "L - {h} = L" by (auto simp: L live_set_def)
    then show ?thesis using ok by (simp add: sp_release_dead [OF False])
  qed
qed

text \<open>A run of calls on a pool: \<^term>\<open>None\<close> is \<^verbatim>\<open>allocate()\<close>, \<^term>\<open>Some h\<close> is \<^verbatim>\<open>release(h)\<close>.\<close>

primrec pool_run :: "'a \<Rightarrow> Handle option list \<Rightarrow> 'a SlabPool \<Rightarrow> Handle list \<times> 'a SlabPool" where
  "pool_run d [] p = ([], p)"
| "pool_run d (c # cs) p = (case c of
     None \<Rightarrow> (let (h, p) = sp_allocate d p; (hs, p) = pool_run d cs p in (h # hs, p))
   | Some h \<Rightarrow> pool_run d cs (sp_release h p))"

lemma pool_run_eq: "pool_run d cs p = pool.run d cs p"
  by (induction cs arbitrary: p) (simp_all split: option.split)

section \<open>Claims\<close>

text \<open>
  Claim C16: a pool never hands out a handle twice. After any sequence of allocations and releases on a
  fresh pool (stale, repeated and bogus releases included) the live handles are exactly those that
  were handed out and not released since; an allocation fails exactly when \<^verbatim>\<open>capacity\<close> handles are live
  and otherwise returns a handle that is not live.
\<close>

theorem slab_pool_never_double_allocates:
  assumes "sp_new d n = Some p0" "pool_run d cs p0 = (hs, p)" "sp_allocate d p = (h, p')"
  shows "live_set p = owned cs hs {} \<and> (h = kNull) = (card (live_set p) = n) \<and>
    (h \<noteq> kNull \<longrightarrow> h \<notin> live_set p \<and> live_set p' = insert h (live_set p))"
proof -
  have st: "sp_stack p0 (map of_nat [0..<n])" "sp_capacity p0 = n" using sp_new_stack [OF assms(1)] by auto
  have "live_set p0 = {}" using live_card [OF st(1)] st(2) by simp
  then have "pool_ok p0 {}" using st(1) by (auto simp: pool_ok_def)
  from pool.run_owned [OF this assms(2) [unfolded pool_run_eq]] have p: "pool_ok p (owned cs hs {})" "sp_capacity p = n"
    using st(2) by simp_all
  then have "live_set p = owned cs hs {}" by (simp add: pool_ok_def)
  with pool.alloc_ok [OF p(1) assms(3)] p(2) show ?thesis by (auto simp: pool_ok_def split: if_splits)
qed

text \<open>A pool of two, an allocation, a release of it, a second release of the same handle, two allocations.\<close>

definition sample_pool :: "nat SlabPool" where
  "sample_pool = \<lparr>sp_nodes = [\<lparr>nd_value = 0, nd_next = 1\<rparr>, \<lparr>nd_value = 0, nd_next = kNull\<rparr>], sp_free = 0, sp_size = 0\<rparr>"

lemma sample_pool_new: "sp_new (0 :: nat) 2 = Some sample_pool"
  by (simp add: sp_new_def sample_pool_def kMaxCapacity_def upt_conv_Cons numeral_2_eq_2)

theorem slab_pool_never_double_allocates_witness:
  "\<exists>hs p h p'. sp_new (0 :: nat) 2 = Some sample_pool \<and> pool_run 0 [None, Some 0, Some 0, None] sample_pool = (hs, p) \<and>
     sp_allocate 0 p = (h, p') \<and> live_set p = owned [None, Some 0, Some 0, None] hs {} \<and>
     (h = kNull) = (card (live_set p) = 2)"
proof -
  obtain hs p where r: "pool_run 0 [None, Some 0, Some 0, None] sample_pool = (hs, p)" by (metis surj_pair)
  obtain h p' where a: "sp_allocate 0 p = (h, p')" by (metis surj_pair)
  from slab_pool_never_double_allocates [OF sample_pool_new r a] sample_pool_new r a show ?thesis by blast
qed

end
