(* ===== verification/Spsc_Ring.thy ===== *)
theory Spsc_Ring
  imports Prelude "HOL-Library.Sublist"
begin

text \<open>
  \<^verbatim>\<open>src/include/optitrade/core/spsc_ring.hpp\<close>: the single-producer single-consumer ring with free-running
  64-bit counters and a cached copy of the other side's counter.

  Both calls are cut at their accesses to the shared variables: \<open>producer_step\<close> and \<open>consumer_step\<close> perform
  one access each, and a run interleaves them in any order. The order of shared accesses is the
  program order of the source (release stores and acquire loads keep it; the model interleaves whole
  accesses). \<open>pushed\<close> and \<open>popped\<close> record the values whose call has returned \<^verbatim>\<open>true\<close>. Uninterrupted, the
  steps of a call are the sequential functions \<open>try_push\<close> and \<open>try_pop\<close>.
\<close>

record 'a SpscRing =
  rg_cap :: u64
  rg_mask :: u64
  rg_buf :: "'a list"
  rg_head :: u64
  rg_cached_tail :: u64
  rg_tail :: u64
  rg_cached_head :: u64

text \<open>\<^term>\<open>None\<close> is the exception \<^verbatim>\<open>std::length_error\<close>.\<close>

definition rounded_capacity :: "nat \<Rightarrow> u64 option" where
  "rounded_capacity capacity =
     (if capacity > 2 ^ 63 then None else Some (of_nat (bit_ceil (if capacity < 2 then 2 else capacity))))"

definition SpscRing_new :: "'a \<Rightarrow> nat \<Rightarrow> 'a SpscRing option" where
  "SpscRing_new d capacity = do {
     cap \<leftarrow> rounded_capacity capacity;
     Some \<lparr>rg_cap = cap, rg_mask = cap - 1, rg_buf = replicate (unat cap) d, rg_head = 0, rg_cached_tail = 0,
       rg_tail = 0, rg_cached_head = 0\<rparr> }"

definition try_push :: "'a \<Rightarrow> 'a SpscRing \<Rightarrow> bool \<times> 'a SpscRing" where
  "try_push v q =
     (let t = rg_tail q;
          q = (if t - rg_cached_head q \<ge> rg_cap q then q\<lparr>rg_cached_head := rg_head q\<rparr> else q)
      in if t - rg_cached_head q \<ge> rg_cap q then (False, q)
         else (True, q\<lparr>rg_buf := (rg_buf q)[unat (t AND rg_mask q) := v], rg_tail := t + 1\<rparr>))"

definition try_pop :: "'a SpscRing \<Rightarrow> 'a option \<times> 'a SpscRing" where
  "try_pop q =
     (let h = rg_head q;
          q = (if h = rg_cached_tail q then q\<lparr>rg_cached_tail := rg_tail q\<rparr> else q)
      in if h = rg_cached_tail q then (None, q)
         else (Some (rg_buf q ! unat (h AND rg_mask q)), q\<lparr>rg_head := h + 1\<rparr>))"

text \<open>The two loads of \<^verbatim>\<open>size_approx\<close>, the head first.\<close>

definition size_approx :: "u64 \<Rightarrow> u64 \<Rightarrow> 'a SpscRing \<Rightarrow> u64" where
  "size_approx h t q = min (t - h) (rg_cap q)"

section \<open>The two threads\<close>

datatype 'a producer = P_idle | P_reload 'a u64 | P_write 'a u64 | P_publish 'a u64

datatype 'a consumer = C_idle | C_reload u64 | C_read u64 | C_publish u64 'a

record 'a sys =
  ring :: "'a SpscRing"
  prod :: "'a producer"
  cons :: "'a consumer"
  pushed :: "'a list"
  popped :: "'a list"

text \<open>
  One access of the producer: the load of \<^verbatim>\<open>tail_\<close> with the check against the cached head, the
  reload of \<^verbatim>\<open>head_\<close>, the write of the slot, the store of \<^verbatim>\<open>tail_\<close>. An idle producer starts to push \<open>v\<close>.
\<close>

definition producer_step :: "'a \<Rightarrow> 'a sys \<Rightarrow> 'a sys" where
  "producer_step v s =
     (let q = ring s in
      case prod s of
        P_idle \<Rightarrow> let t = rg_tail q in
          s\<lparr>prod := if t - rg_cached_head q \<ge> rg_cap q then P_reload v t else P_write v t\<rparr>
      | P_reload v t \<Rightarrow> let q = q\<lparr>rg_cached_head := rg_head q\<rparr> in
          s\<lparr>ring := q, prod := if t - rg_cached_head q \<ge> rg_cap q then P_idle else P_write v t\<rparr>
      | P_write v t \<Rightarrow> s\<lparr>ring := q\<lparr>rg_buf := (rg_buf q)[unat (t AND rg_mask q) := v]\<rparr>, prod := P_publish v t\<rparr>
      | P_publish v t \<Rightarrow> s\<lparr>ring := q\<lparr>rg_tail := t + 1\<rparr>, prod := P_idle, pushed := pushed s @ [v]\<rparr>)"

definition consumer_step :: "'a sys \<Rightarrow> 'a sys" where
  "consumer_step s =
     (let q = ring s in
      case cons s of
        C_idle \<Rightarrow> let h = rg_head q in s\<lparr>cons := if h = rg_cached_tail q then C_reload h else C_read h\<rparr>
      | C_reload h \<Rightarrow> let q = q\<lparr>rg_cached_tail := rg_tail q\<rparr> in
          s\<lparr>ring := q, cons := if h = rg_cached_tail q then C_idle else C_read h\<rparr>
      | C_read h \<Rightarrow> s\<lparr>cons := C_publish h (rg_buf q ! unat (h AND rg_mask q))\<rparr>
      | C_publish h x \<Rightarrow> s\<lparr>ring := q\<lparr>rg_head := h + 1\<rparr>, cons := C_idle, popped := popped s @ [x]\<rparr>)"

definition start :: "'a SpscRing \<Rightarrow> 'a sys" where
  "start q = \<lparr>ring = q, prod = P_idle, cons = C_idle, pushed = [], popped = []\<rparr>"

inductive spsc_run :: "'a sys \<Rightarrow> 'a sys \<Rightarrow> bool" where
  run_start: "spsc_run s s"
| run_producer: "spsc_run s s' \<Longrightarrow> spsc_run s (producer_step v s')"
| run_consumer: "spsc_run s s' \<Longrightarrow> spsc_run s (consumer_step s')"

section \<open>Counters modulo \<open>2 ^ 64\<close>\<close>

lemma counter_distance: "c \<le> p \<Longrightarrow> p - c < 2 ^ 64 \<Longrightarrow> unat (of_nat p - of_nat c :: u64) = p - c"
  by (simp add: unat_of_nat flip: of_nat_diff)

lemma counter_eq: "c \<le> p \<Longrightarrow> p - c < 2 ^ 64 \<Longrightarrow> (of_nat c :: u64) = of_nat p \<longleftrightarrow> c = p"
  using counter_distance [of c p] by auto

lemma slot_index:
  assumes "k \<le> 63"
  shows "unat ((of_nat i :: u64) AND (of_nat (2 ^ k) - 1)) = i mod 2 ^ k"
proof -
  have "(of_nat (2 ^ k) - 1 :: u64) = mask k" by (simp add: mask_eq_exp_minus_1)
  then have "unat ((of_nat i :: u64) AND (of_nat (2 ^ k) - 1)) = unat (take_bit k (of_nat i :: u64))"
    by (simp add: take_bit_eq_mask)
  also have "\<dots> = take_bit k (take_bit 64 i)" by (simp add: unsigned_take_bit_eq unsigned_of_nat)
  also have "\<dots> = i mod 2 ^ k" using assms by (simp add: take_bit_eq_mod [symmetric] min_def)
  finally show ?thesis .
qed

section \<open>The invariant\<close>

text \<open>
  A ring of \<open>2 ^ k\<close> slots with \<open>p\<close> values published and \<open>c\<close> taken: the counters are \<open>p\<close> and \<open>c\<close> modulo
  \<open>2 ^ 64\<close>, the values in flight sit in their slots, and each cached counter is an older value of the
  counter it copies that is not too old.
\<close>

definition ring_ok :: "nat \<Rightarrow> 'a sys \<Rightarrow> bool" where
  "ring_ok k s \<longleftrightarrow> (let q = ring s; p = length (pushed s); c = length (popped s) in
     1 \<le> k \<and> k \<le> 63 \<and> rg_cap q = of_nat (2 ^ k) \<and> rg_mask q = of_nat (2 ^ k) - 1 \<and> length (rg_buf q) = 2 ^ k \<and>
     rg_tail q = of_nat p \<and> rg_head q = of_nat c \<and> c \<le> p \<and> popped s = take c (pushed s) \<and>
     (\<forall>i. c \<le> i \<and> i < p \<longrightarrow> rg_buf q ! (i mod 2 ^ k) = pushed s ! i) \<and>
     (\<exists>h \<le> c. rg_cached_head q = of_nat h \<and> p \<le> h + 2 ^ k) \<and>
     (\<exists>t \<le> p. rg_cached_tail q = of_nat t \<and> c \<le> t))"

definition producer_ok :: "nat \<Rightarrow> 'a sys \<Rightarrow> bool" where
  "producer_ok k s \<longleftrightarrow> (let q = ring s; p = length (pushed s); c = length (popped s) in
     case prod s of
       P_idle \<Rightarrow> True
     | P_reload v t \<Rightarrow> t = of_nat p
     | P_write v t \<Rightarrow> t = of_nat p \<and> p < c + 2 ^ k \<and> (\<exists>h \<le> c. rg_cached_head q = of_nat h \<and> p < h + 2 ^ k)
     | P_publish v t \<Rightarrow> t = of_nat p \<and> (\<exists>h \<le> c. rg_cached_head q = of_nat h \<and> p < h + 2 ^ k) \<and>
         rg_buf q ! (p mod 2 ^ k) = v)"

definition consumer_ok :: "'a sys \<Rightarrow> bool" where
  "consumer_ok s \<longleftrightarrow> (let p = length (pushed s); c = length (popped s) in
     case cons s of
       C_idle \<Rightarrow> True
     | C_reload h \<Rightarrow> h = of_nat c
     | C_read h \<Rightarrow> h = of_nat c \<and> c < p \<and> (\<exists>t \<le> p. rg_cached_tail (ring s) = of_nat t \<and> c < t)
     | C_publish h x \<Rightarrow> h = of_nat c \<and> c < p \<and> x = pushed s ! c \<and> (\<exists>t \<le> p. rg_cached_tail (ring s) = of_nat t \<and> c < t))"

definition spsc_inv :: "nat \<Rightarrow> 'a sys \<Rightarrow> bool" where
  "spsc_inv k s \<longleftrightarrow> ring_ok k s \<and> producer_ok k s \<and> consumer_ok s"

lemma slots_differ:
  assumes "c \<le> i" "i < p" "p < c + 2 ^ k"
  shows "i mod 2 ^ k \<noteq> p mod (2 ^ k :: nat)"
proof
  assume "i mod 2 ^ k = p mod (2 ^ k :: nat)"
  then have "2 ^ k dvd p - i" using assms by (metis mod_eq_dvd_iff_nat less_imp_le_nat)
  moreover have "0 < p - i" "p - i < 2 ^ k" using assms by simp_all
  ultimately show False by (simp add: nat_dvd_not_less)
qed

lemma power_small: "k \<le> 63 \<Longrightarrow> (2 :: nat) ^ k < 2 ^ 64"
  by (rule power_strict_increasing) simp_all

lemma unat_capacity: "k \<le> 63 \<Longrightarrow> unat (of_nat (2 ^ k) :: u64) = 2 ^ k"
  using power_small [of k] by (simp add: unat_of_nat del: of_nat_power)

lemma room_check:
  assumes "k \<le> 63" "h \<le> p" "p \<le> h + 2 ^ k"
  shows "(of_nat (2 ^ k) :: u64) \<le> of_nat p - of_nat h \<longleftrightarrow> p = h + 2 ^ k"
proof -
  have "p - h < 2 ^ 64" using assms power_small [of k] by linarith
  then show ?thesis
    using assms counter_distance [OF assms(2)] unat_capacity [OF assms(1)] by (auto simp: word_le_nat_alt)
qed

lemma producer_keeps:
  assumes "spsc_inv k s"
  shows "spsc_inv k (producer_step v s)"
proof -
  let ?q = "ring s" and ?p = "length (pushed s)" and ?c = "length (popped s)"
  from assms have q: "1 \<le> k" "k \<le> 63" "rg_cap ?q = of_nat (2 ^ k)" "rg_mask ?q = of_nat (2 ^ k) - 1"
      "length (rg_buf ?q) = 2 ^ k" "rg_tail ?q = of_nat ?p" "rg_head ?q = of_nat ?c" "?c \<le> ?p"
      "popped s = take ?c (pushed s)" "\<And>i. ?c \<le> i \<Longrightarrow> i < ?p \<Longrightarrow> rg_buf ?q ! (i mod 2 ^ k) = pushed s ! i"
    and tl: "\<exists>t \<le> ?p. rg_cached_tail ?q = of_nat t \<and> ?c \<le> t"
    by (auto simp: spsc_inv_def ring_ok_def Let_def)
  from assms obtain h where h: "h \<le> ?c" "rg_cached_head ?q = of_nat h" "?p \<le> h + 2 ^ k"
    by (auto simp: spsc_inv_def ring_ok_def Let_def)
  show ?thesis
  proof (cases "prod s")
    case P_idle
    have "\<not> of_nat (2 ^ k) \<le> (of_nat ?p - of_nat h :: u64) \<longleftrightarrow> ?p < h + 2 ^ k"
      using room_check [of k h ?p] h q(2,8) by auto
    with P_idle assms q(3,6) h show ?thesis
      by (auto simp: producer_step_def spsc_inv_def ring_ok_def producer_ok_def consumer_ok_def Let_def
          split: consumer.splits)
  next
    case (P_reload v t)
    have c: "?p \<le> ?c + 2 ^ k" using h by simp
    have "\<not> of_nat (2 ^ k) \<le> (of_nat ?p - of_nat ?c :: u64) \<longleftrightarrow> ?p < ?c + 2 ^ k"
      using room_check [of k ?c ?p] c q(2,8) by auto
    with P_reload assms q(3,7) c show ?thesis
      by (auto simp: producer_step_def spsc_inv_def ring_ok_def producer_ok_def consumer_ok_def Let_def
          split: consumer.splits)
  next
    case (P_write v t)
    then have t: "t = of_nat ?p" "?p < ?c + 2 ^ k" using assms by (auto simp: spsc_inv_def producer_ok_def Let_def)
    have ix: "unat (t AND rg_mask ?q) = ?p mod 2 ^ k" using t(1) q(2,4) by (simp add: slot_index del: of_nat_power)
    have "(rg_buf ?q)[?p mod 2 ^ k := v] ! (i mod 2 ^ k) = pushed s ! i" if "?c \<le> i" "i < ?p" for i
      using slots_differ [OF that t(2)] q(10) [OF that] by simp
    with P_write assms q(5) ix show ?thesis
      by (auto simp: producer_step_def spsc_inv_def ring_ok_def producer_ok_def consumer_ok_def Let_def
          split: consumer.splits)
  next
    case (P_publish v t)
    then have t: "t = of_nat ?p" "rg_buf ?q ! (?p mod 2 ^ k) = v" "\<exists>h \<le> ?c. rg_cached_head ?q = of_nat h \<and> ?p < h + 2 ^ k"
      using assms by (auto simp: spsc_inv_def producer_ok_def Let_def)
    have buf: "rg_buf ?q ! (i mod 2 ^ k) = (pushed s @ [v]) ! i" if "?c \<le> i" "i < Suc ?p" for i
      using that q(10) t(2) by (cases "i = ?p") (auto simp: nth_append)
    from P_publish have step: "producer_step v' s = s\<lparr>ring := ?q\<lparr>rg_tail := t + 1\<rparr>, prod := P_idle, pushed := pushed s @ [v]\<rparr>" for v'
      by (simp add: producer_step_def Let_def)
    have "ring_ok k (producer_step v s)"
      unfolding step ring_ok_def Let_def using q t buf tl by (auto intro: le_SucI Suc_leI)
    moreover have "consumer_ok (producer_step v s)"
      unfolding step using assms
      by (auto simp: spsc_inv_def consumer_ok_def Let_def nth_append split: consumer.splits intro: le_SucI)
    ultimately show ?thesis using step by (simp add: spsc_inv_def producer_ok_def Let_def)
  qed
qed

lemma consumer_keeps:
  assumes "spsc_inv k s"
  shows "spsc_inv k (consumer_step s)"
proof -
  let ?q = "ring s" and ?p = "length (pushed s)" and ?c = "length (popped s)"
  from assms have q: "1 \<le> k" "k \<le> 63" "rg_mask ?q = of_nat (2 ^ k) - 1"
      "rg_tail ?q = of_nat ?p" "rg_head ?q = of_nat ?c" "?c \<le> ?p"
      "popped s = take ?c (pushed s)" "\<And>i. ?c \<le> i \<Longrightarrow> i < ?p \<Longrightarrow> rg_buf ?q ! (i mod 2 ^ k) = pushed s ! i"
    and hd: "\<exists>h \<le> ?c. rg_cached_head ?q = of_nat h \<and> ?p \<le> h + 2 ^ k"
    by (auto simp: spsc_inv_def ring_ok_def Let_def)
  from assms obtain t where t: "t \<le> ?p" "rg_cached_tail ?q = of_nat t" "?c \<le> t"
    by (auto simp: spsc_inv_def ring_ok_def Let_def)
  have near: "?p - ?c < 2 ^ 64" using hd power_small [OF q(2)] by auto
  show ?thesis
  proof (cases "cons s")
    case C_idle
    have "(of_nat ?c :: u64) = of_nat t \<longleftrightarrow> ?c = t" using counter_eq [of ?c t] t near by simp
    with C_idle assms q(5,6) t show ?thesis
      by (auto simp: consumer_step_def spsc_inv_def ring_ok_def producer_ok_def consumer_ok_def Let_def
          split: producer.splits)
  next
    case (C_reload h)
    have "(of_nat ?c :: u64) = of_nat ?p \<longleftrightarrow> ?c = ?p" using counter_eq [of ?c ?p] q(6) near by simp
    with C_reload assms q(4,6) show ?thesis
      by (auto simp: consumer_step_def spsc_inv_def ring_ok_def producer_ok_def consumer_ok_def Let_def
          split: producer.splits)
  next
    case (C_read h)
    then have h: "h = of_nat ?c" "?c < ?p" using assms by (auto simp: spsc_inv_def consumer_ok_def Let_def)
    have "rg_buf ?q ! unat (h AND rg_mask ?q) = pushed s ! ?c"
      using h q(2,3) q(8) [of ?c] by (simp add: slot_index del: of_nat_power)
    with C_read assms show ?thesis
      by (auto simp: consumer_step_def spsc_inv_def ring_ok_def producer_ok_def consumer_ok_def Let_def
          split: producer.splits)
  next
    case (C_publish h x)
    then have h: "h = of_nat ?c" "?c < ?p" "x = pushed s ! ?c" "\<exists>t \<le> ?p. rg_cached_tail ?q = of_nat t \<and> ?c < t"
      using assms by (auto simp: spsc_inv_def consumer_ok_def Let_def)
    from C_publish have step: "consumer_step s = s\<lparr>ring := ?q\<lparr>rg_head := h + 1\<rparr>, cons := C_idle, popped := popped s @ [x]\<rparr>"
      by (simp add: consumer_step_def Let_def)
    have tk: "popped s @ [x] = take (Suc ?c) (pushed s)" using h(2,3) q(7) by (simp add: take_Suc_conv_app_nth)
    have "ring_ok k (consumer_step s)"
      unfolding step ring_ok_def Let_def using assms h tk hd
      by (auto simp: spsc_inv_def ring_ok_def Let_def intro: le_SucI)
    moreover have "producer_ok k (consumer_step s)"
      unfolding step using assms
      by (auto simp: spsc_inv_def producer_ok_def Let_def split: producer.splits intro: le_SucI)
    ultimately show ?thesis using step by (simp add: spsc_inv_def consumer_ok_def Let_def)
  qed
qed

lemma spsc_run_inv: "spsc_run s s' \<Longrightarrow> spsc_inv k s \<Longrightarrow> spsc_inv k s'"
  by (induction rule: spsc_run.induct) (simp_all add: producer_keeps consumer_keeps)

lemma start_inv:
  assumes "SpscRing_new d n = Some q"
  obtains k where "spsc_inv k (start q)" "rg_cap q = of_nat (2 ^ k)" "n \<le> 2 ^ k"
proof -
  let ?n = "if n < 2 then 2 else n"
  obtain k where k: "bit_ceil ?n = 2 ^ k" "?n \<le> 2 ^ k" "0 < k \<longrightarrow> 2 ^ (k - 1) < ?n"
    using bit_ceil_spec [of ?n] by blast
  have n: "n \<le> 2 ^ 63" using assms by (auto simp: SpscRing_new_def rounded_capacity_def split: if_splits)
  have k1: "1 \<le> k" using k(2) by (cases k) (auto split: if_splits)
  have k63: "k \<le> 63"
  proof (rule ccontr)
    assume "\<not> k \<le> 63"
    then have "(2 :: nat) ^ 63 \<le> 2 ^ (k - 1)" by (intro power_increasing) simp_all
    moreover have "2 ^ (k - 1) < ?n" using k(3) k1 by simp
    moreover have "?n \<le> 2 ^ 63" using n by simp
    ultimately show False by linarith
  qed
  have q: "q = \<lparr>rg_cap = of_nat (2 ^ k), rg_mask = of_nat (2 ^ k) - 1, rg_buf = replicate (2 ^ k) d, rg_head = 0,
      rg_cached_tail = 0, rg_tail = 0, rg_cached_head = 0\<rparr>"
    using assms n k(1) unat_capacity [OF k63] by (simp add: SpscRing_new_def rounded_capacity_def del: of_nat_power)
  have "spsc_inv k (start q)"
    using k1 k63 by (simp add: spsc_inv_def ring_ok_def producer_ok_def consumer_ok_def start_def q Let_def)
  with q k(2) show ?thesis by (intro that [of k]) (auto split: if_splits)
qed

section \<open>A call that is not interrupted\<close>

primrec iter :: "nat \<Rightarrow> ('s \<Rightarrow> 's) \<Rightarrow> 's \<Rightarrow> 's" where
  "iter 0 f s = s"
| "iter (Suc n) f s = iter n f (f s)"

lemma push_steps:
  assumes "prod s = P_idle"
  shows "\<exists>n. let (ok, q) = try_push v (ring s) in
    iter n (producer_step v) s = s\<lparr>ring := q, pushed := if ok then pushed s @ [v] else pushed s\<rparr>"
proof -
  let ?q = "ring s"
  consider (room) "\<not> rg_tail ?q - rg_cached_head ?q \<ge> rg_cap ?q"
    | (full) "rg_tail ?q - rg_cached_head ?q \<ge> rg_cap ?q" "rg_tail ?q - rg_head ?q \<ge> rg_cap ?q"
    | (stale) "rg_tail ?q - rg_cached_head ?q \<ge> rg_cap ?q" "\<not> rg_tail ?q - rg_head ?q \<ge> rg_cap ?q"
    by blast
  then show ?thesis
  proof cases
    case room
    with assms show ?thesis by (intro exI [of _ 3]) (simp add: try_push_def producer_step_def numeral_eq_Suc Let_def)
  next
    case full
    with assms show ?thesis by (intro exI [of _ 2]) (simp add: try_push_def producer_step_def numeral_eq_Suc Let_def)
  next
    case stale
    with assms show ?thesis by (intro exI [of _ 4]) (simp add: try_push_def producer_step_def numeral_eq_Suc Let_def)
  qed
qed

lemma pop_steps:
  assumes "cons s = C_idle"
  shows "\<exists>n. let (r, q) = try_pop (ring s) in
    iter n consumer_step s = s\<lparr>ring := q, popped := case r of None \<Rightarrow> popped s | Some x \<Rightarrow> popped s @ [x]\<rparr>"
proof -
  let ?q = "ring s"
  consider (seen) "rg_head ?q \<noteq> rg_cached_tail ?q"
    | (empty) "rg_head ?q = rg_cached_tail ?q" "rg_head ?q = rg_tail ?q"
    | (stale) "rg_head ?q = rg_cached_tail ?q" "rg_head ?q \<noteq> rg_tail ?q"
    by blast
  then show ?thesis
  proof cases
    case seen
    with assms show ?thesis by (intro exI [of _ 3]) (simp add: try_pop_def consumer_step_def numeral_eq_Suc Let_def)
  next
    case empty
    with assms show ?thesis by (intro exI [of _ 2]) (simp add: try_pop_def consumer_step_def numeral_eq_Suc Let_def)
  next
    case stale
    with assms show ?thesis by (intro exI [of _ 4]) (simp add: try_pop_def consumer_step_def numeral_eq_Suc Let_def)
  qed
qed

section \<open>Consequences of the invariant\<close>

lemma occupancy:
  assumes "spsc_inv k s"
  shows "length (popped s) \<le> length (pushed s)" "length (pushed s) \<le> length (popped s) + 2 ^ k"
    "prefix (popped s) (pushed s)" "k \<le> 63" "rg_cap (ring s) = of_nat (2 ^ k)" "rg_mask (ring s) = of_nat (2 ^ k) - 1"
    "rg_tail (ring s) = of_nat (length (pushed s))" "rg_head (ring s) = of_nat (length (popped s))"
proof -
  from assms have "popped s = take (length (popped s)) (pushed s)" by (auto simp: spsc_inv_def ring_ok_def Let_def)
  then show "prefix (popped s) (pushed s)" by (metis take_is_prefix)
qed (use assms in \<open>auto simp: spsc_inv_def ring_ok_def Let_def\<close>)

lemma distinct_slots:
  assumes "spsc_inv k s" "prod s = P_write v t" "cons s = C_read h"
  shows "unat (t AND rg_mask (ring s)) \<noteq> unat (h AND rg_mask (ring s))"
proof -
  let ?p = "length (pushed s)" and ?c = "length (popped s)"
  have "t = of_nat ?p" "?p < ?c + 2 ^ k" "h = of_nat ?c" "?c < ?p"
    using assms by (auto simp: spsc_inv_def producer_ok_def consumer_ok_def Let_def)
  then show ?thesis using occupancy [OF assms(1)] slots_differ [of ?c ?c ?p k]
    by (simp add: slot_index del: of_nat_power)
qed

lemma refused_push:
  assumes "spsc_inv k s" "prod s = P_reload v t" "prod (producer_step v' s) = P_idle"
  shows "length (pushed s) = length (popped s) + 2 ^ k"
proof -
  have "t = of_nat (length (pushed s))" using assms(1,2) by (auto simp: spsc_inv_def producer_ok_def Let_def)
  then have "of_nat (2 ^ k) \<le> (of_nat (length (pushed s)) - of_nat (length (popped s)) :: u64)"
    using assms(2,3) occupancy [OF assms(1)] by (simp add: producer_step_def Let_def del: of_nat_power split: if_splits)
  then show ?thesis using room_check occupancy [OF assms(1)] by blast
qed

lemma refused_pop:
  assumes "spsc_inv k s" "cons s = C_reload h" "cons (consumer_step s) = C_idle"
  shows "pushed s = popped s"
proof -
  note occ = occupancy [OF assms(1)]
  have "h = of_nat (length (popped s))" using assms(1,2) by (auto simp: spsc_inv_def consumer_ok_def Let_def)
  then have "(of_nat (length (popped s)) :: u64) = of_nat (length (pushed s))"
    using assms(2,3) occ by (simp add: consumer_step_def Let_def split: if_splits)
  moreover have "length (pushed s) - length (popped s) < 2 ^ 64" using occ(2) power_small [OF occ(4)] by linarith
  ultimately have "length (popped s) = length (pushed s)" using counter_eq [OF occ(1)] by blast
  then show ?thesis using occ(3) by (auto simp: prefix_def)
qed

section \<open>Claims\<close>

text \<open>
  Claim C13: however the two threads interleave and however often the 64-bit counters wrap, the values
  taken from the ring are a prefix of the values put in (nothing lost, repeated or reordered) and the
  ring never holds more than its capacity, which is at least the capacity asked for. The producer and
  the consumer never access the same slot at the same time, and a call that gives up does so only
  when the ring really was full (push) or empty (pop) at the moment it re-read the other counter.
\<close>

theorem spsc_ring_is_a_queue:
  assumes "SpscRing_new d n = Some q" "spsc_run (start q) s"
  shows "prefix (popped s) (pushed s) \<and> length (pushed s) - length (popped s) \<le> unat (rg_cap q) \<and> n \<le> unat (rg_cap q) \<and>
    (\<forall>v t h. prod s = P_write v t \<and> cons s = C_read h \<longrightarrow>
       unat (t AND rg_mask (ring s)) \<noteq> unat (h AND rg_mask (ring s))) \<and>
    (\<forall>v v' t. prod s = P_reload v t \<and> prod (producer_step v' s) = P_idle \<longrightarrow>
       length (pushed s) = length (popped s) + unat (rg_cap q)) \<and>
    (\<forall>h. cons s = C_reload h \<and> cons (consumer_step s) = C_idle \<longrightarrow> pushed s = popped s)"
proof -
  obtain k where k: "spsc_inv k (start q)" "rg_cap q = of_nat (2 ^ k)" "n \<le> 2 ^ k" using assms(1) by (rule start_inv)
  have inv: "spsc_inv k s" using spsc_run_inv [OF assms(2) k(1)] .
  have cap: "unat (rg_cap q) = 2 ^ k" using k(2) unat_capacity occupancy(4) [OF inv] by simp
  show ?thesis
    using occupancy [OF inv] distinct_slots [OF inv] refused_push [OF inv] refused_pop [OF inv] k(3) cap by auto
qed

theorem spsc_ring_is_a_queue_witness:
  "\<exists>q. SpscRing_new (0 :: nat) 3 = Some q \<and> spsc_run (start q) (consumer_step (producer_step 7 (start q))) \<and>
     prefix (popped (consumer_step (producer_step 7 (start q)))) (pushed (consumer_step (producer_step 7 (start q)))) \<and>
     3 \<le> unat (rg_cap q)"
proof -
  obtain q where q: "SpscRing_new (0 :: nat) 3 = Some q" by (simp add: SpscRing_new_def rounded_capacity_def)
  have run: "spsc_run (start q) (consumer_step (producer_step 7 (start q)))" by (intro spsc_run.intros)
  from spsc_ring_is_a_queue [OF q run] q run show ?thesis by blast
qed

end
