(* ===== verification/Linked_List.thy ===== *)
theory Linked_List
  imports Prelude
begin

text \<open>
  Intrusive doubly linked lists, independent of how the nodes are stored: \<open>pv\<close> and \<open>nx\<close> read the links
  of a node, \<open>nil\<close> is the null link. The simulator keeps one such list per instrument and side; the
  lemmas reduce appending at the tail and unlinking a node to \<open>xs @ [x]\<close> and \<open>xs @ ys\<close>.
\<close>

fun first_of :: "'n list \<Rightarrow> 'n \<Rightarrow> 'n" where
  "first_of [] d = d"
| "first_of (x # xs) d = x"

fun last_of :: "'n \<Rightarrow> 'n list \<Rightarrow> 'n" where
  "last_of d [] = d"
| "last_of d (x # xs) = last_of x xs"

fun seg :: "('n \<Rightarrow> 'n) \<Rightarrow> ('n \<Rightarrow> 'n) \<Rightarrow> 'n \<Rightarrow> 'n list \<Rightarrow> 'n \<Rightarrow> bool" where
  "seg pv nx p [] n = True"
| "seg pv nx p (x # xs) n = (pv x = p \<and> nx x = first_of xs n \<and> seg pv nx x xs n)"

definition dlist :: "('n \<Rightarrow> 'n) \<Rightarrow> ('n \<Rightarrow> 'n) \<Rightarrow> 'n \<Rightarrow> 'n \<Rightarrow> 'n \<Rightarrow> 'n list \<Rightarrow> bool" where
  "dlist pv nx nil h t xs \<longleftrightarrow> seg pv nx nil xs nil \<and> h = first_of xs nil \<and> t = last_of nil xs \<and> distinct xs \<and> nil \<notin> set xs"

lemma first_of_append: "first_of (xs @ ys) d = first_of xs (first_of ys d)"
  by (cases xs) simp_all

lemma last_of_append: "last_of d (xs @ ys) = last_of (last_of d xs) ys"
  by (induction xs arbitrary: d) simp_all

lemma last_of_nonempty: "xs \<noteq> [] \<Longrightarrow> last_of d xs = last xs"
  by (induction xs arbitrary: d) auto

lemma first_of_nonempty: "xs \<noteq> [] \<Longrightarrow> first_of xs d = hd xs"
  by (cases xs) auto

lemma seg_append: "seg pv nx p (xs @ ys) n \<longleftrightarrow> seg pv nx p xs (first_of ys n) \<and> seg pv nx (last_of p xs) ys n"
  by (induction xs arbitrary: p) (auto simp: first_of_append)

lemma seg_cong:
  "(\<And>x. x \<in> set xs \<Longrightarrow> pv' x = pv x \<and> nx' x = nx x) \<Longrightarrow> seg pv' nx' p xs n = seg pv nx p xs n"
  by (induction xs arbitrary: p) auto

lemma dlist_cong:
  "(\<And>x. x \<in> set xs \<Longrightarrow> pv' x = pv x \<and> nx' x = nx x) \<Longrightarrow> dlist pv' nx' nil h t xs = dlist pv nx nil h t xs"
  using seg_cong [of xs pv' pv nx' nx nil nil] by (simp add: dlist_def)

lemma seg_new_next:
  assumes "seg pv nx p xs n" "xs \<noteq> []" "distinct xs"
  shows "seg pv (nx(last xs := n')) p xs n'"
proof -
  obtain ys z where xs: "xs = ys @ [z]" using assms(2) by (cases xs rule: rev_cases) auto
  have "seg pv (nx(z := n')) p ys z = seg pv nx p ys z" using assms(3) xs by (intro seg_cong) auto
  then show ?thesis using assms(1) xs by (simp add: seg_append)
qed

lemma seg_new_prev:
  assumes "seg pv nx p xs n" "xs \<noteq> []" "distinct xs"
  shows "seg (pv(hd xs := p')) nx p' xs n"
proof -
  obtain z ys where xs: "xs = z # ys" using assms(2) by (cases xs) auto
  have "seg (pv(z := p')) nx z ys n = seg pv nx z ys n" using assms(3) xs by (intro seg_cong) auto
  then show ?thesis using assms(1) xs by simp
qed

lemma dlist_ends: "dlist pv nx nil h t xs \<Longrightarrow> (h = nil \<longleftrightarrow> xs = []) \<and> (t = nil \<longleftrightarrow> xs = [])"
  by (cases "xs = []") (auto simp: dlist_def last_of_nonempty first_of_nonempty)

lemma dlist_append:
  assumes d: "dlist pv nx nil h t xs" and x: "x \<notin> set xs" "x \<noteq> nil"
    and pv': "\<And>y. y \<in> insert x (set xs) \<Longrightarrow> pv' y = (if y = x then t else pv y)"
    and nx': "\<And>y. y \<in> insert x (set xs) \<Longrightarrow> nx' y = (if y = x then nil else if y = t then x else nx y)"
  shows "dlist pv' nx' nil (if t = nil then x else h) x (xs @ [x])"
proof (cases "xs = []")
  case True
  then show ?thesis using d x pv' [of x] nx' [of x] by (auto simp: dlist_def)
next
  case False
  then have t: "t = last xs" "t \<noteq> nil" using d dlist_ends [OF d] by (auto simp: dlist_def last_of_nonempty)
  have "seg pv (nx(last xs := x)) nil xs x" using d False by (intro seg_new_next) (auto simp: dlist_def)
  moreover have "seg pv' nx' nil xs x = seg pv (nx(last xs := x)) nil xs x"
    using pv' nx' x(1) t(1) by (intro seg_cong) auto
  ultimately show ?thesis
    using d x t False pv' [of x] nx' [of x] by (simp add: dlist_def seg_append first_of_append last_of_append) (cases xs, auto)
qed

lemma dlist_unlink:
  assumes d: "dlist pv nx nil h t (xs @ x # ys)"
    and pv': "\<And>y. y \<in> set (xs @ ys) \<Longrightarrow> pv' y = (if y = nx x then pv x else pv y)"
    and nx': "\<And>y. y \<in> set (xs @ ys) \<Longrightarrow> nx' y = (if y = pv x then nx x else nx y)"
  shows "dlist pv' nx' nil (if pv x = nil then nx x else h) (if nx x = nil then pv x else t) (xs @ ys)"
proof -
  have s: "seg pv nx nil xs x" "pv x = last_of nil xs" "nx x = first_of ys nil" "seg pv nx x ys nil"
    and dist: "distinct xs" "distinct ys" "set xs \<inter> set ys = {}" "x \<notin> set xs" "x \<notin> set ys" "nil \<notin> set xs" "nil \<notin> set ys"
    using d by (auto simp: dlist_def seg_append)
  have p: "xs \<noteq> [] \<Longrightarrow> pv x = last xs" "pv x = nil \<longleftrightarrow> xs = []"
    using s(2) dist(6) by (cases "xs = []"; auto simp: last_of_nonempty)+
  have n: "ys \<noteq> [] \<Longrightarrow> nx x = hd ys" "nx x = nil \<longleftrightarrow> ys = []"
    using s(3) dist(7) by (cases "ys = []"; auto simp: first_of_nonempty)+
  have nn: "nx x \<notin> set xs" using n dist(3,6) hd_in_set [of ys] by (cases "ys = []") (auto simp: disjoint_iff)
  have pp: "pv x \<notin> set ys" using p dist(3,7) last_in_set [of xs] by (cases "xs = []") (auto simp: disjoint_iff)
  have "seg pv' nx' nil xs (first_of ys nil)"
  proof (cases "xs = []")
    case False
    have "seg pv (nx(last xs := nx x)) nil xs (nx x)" using s(1) False dist(1) by (rule seg_new_next)
    moreover have "seg pv' nx' nil xs (nx x) = seg pv (nx(last xs := nx x)) nil xs (nx x)"
      using pv' nx' p(1) [OF False] nn by (intro seg_cong) auto
    ultimately show ?thesis using s(3) by simp
  qed simp
  moreover have "seg pv' nx' (last_of nil xs) ys nil"
  proof (cases "ys = []")
    case False
    have "seg (pv(hd ys := pv x)) nx (pv x) ys nil" using s(4) False dist(2) by (rule seg_new_prev)
    moreover have "seg pv' nx' (pv x) ys nil = seg (pv(hd ys := pv x)) nx (pv x) ys nil"
      using pv' nx' n(1) [OF False] pp by (intro seg_cong) auto
    ultimately show ?thesis using s(2) by simp
  qed simp
  ultimately show ?thesis
    using d p n s dist by (cases xs; cases ys rule: rev_cases)
      (auto simp: dlist_def seg_append last_of_append first_of_append)
qed

end
