(* ===== verification/Exchange_Sim.thy ===== *)
theory Exchange_Sim
  imports Market_Books Itch_Codec Ouch_Codec Slab_Pool
begin

text \<open>
  The exchange simulator, \<^verbatim>\<open>src/include/optitrade/sim/exchange_sim.hpp\<close>: the request queue, the order
  pool with its token index and its per-instrument lists, the private market books, matching, queue
  position and the report queue. Every method of the class is a function on the record \<open>ExchangeSim\<close>.
  The loops that follow the \<^verbatim>\<open>next\<close> links are \<^theory_text>\<open>partial_function\<close>s: \<^term>\<open>None\<close> is a loop that does not
  end (or, in the codecs, an access outside a span). \<open>al\<close> says whether the allocations of the books
  succeed, as in the theory of the books.
\<close>

record SimConfig =
  sc_order_latency_ns :: Nanos
  sc_report_latency_ns :: Nanos
  sc_max_orders :: nat
  sc_books :: Config

datatype RequestKind = RK_enter | RK_cancel | RK_replace

record Request =
  rq_arrival :: Nanos
  rq_kind :: RequestKind
  rq_token :: Token
  rq_replacement :: Token
  rq_side :: Side
  rq_shares :: Qty
  rq_stock :: Symbol
  rq_price :: Price
  rq_tif :: u32
  rq_firm :: "u8 list"
  rq_display :: u8
  rq_capacity :: u8
  rq_sweep :: u8
  rq_min_qty :: Qty
  rq_cross :: u8

definition Request_new :: Request where
  "Request_new = \<lparr>rq_arrival = 0, rq_kind = RK_enter, rq_token = blank_token, rq_replacement = blank_token,
     rq_side = Side_buy, rq_shares = 0, rq_stock = Symbol_blank, rq_price = 0, rq_tif = 0,
     rq_firm = replicate 4 (asc CHR '' ''), rq_display = asc CHR ''Y'', rq_capacity = asc CHR ''P'',
     rq_sweep = asc CHR ''N'', rq_min_qty = 0, rq_cross = asc CHR ''N''\<rparr>"

definition kNil :: Handle where "kNil = kNull"
definition kMaxPrice :: Price where "kMaxPrice = 2000000000"
definition kRemoved :: u8 where "kRemoved = asc CHR ''R''"
definition kAdded :: u8 where "kAdded = asc CHR ''A''"

record SimOrder =
  so_token :: Token
  so_locate :: Locate
  so_side :: Side
  so_price :: Price
  so_leaves :: Qty
  so_filled :: Qty
  so_ahead :: u64
  so_tif :: u32
  so_stock :: Symbol
  so_firm :: "u8 list"
  so_display :: u8
  so_capacity :: u8
  so_sweep :: u8
  so_min_qty :: Qty
  so_cross :: u8
  so_ref :: OrderRef
  so_resting :: bool
  so_prev :: Handle
  so_next :: Handle

definition SimOrder_new :: SimOrder where
  "SimOrder_new = \<lparr>so_token = blank_token, so_locate = 0, so_side = Side_buy, so_price = 0, so_leaves = 0,
     so_filled = 0, so_ahead = 0, so_tif = 0, so_stock = Symbol_blank, so_firm = replicate 4 (asc CHR '' ''),
     so_display = asc CHR ''Y'', so_capacity = asc CHR ''P'', so_sweep = asc CHR ''N'', so_min_qty = 0,
     so_cross = asc CHR ''N'', so_ref = 0, so_resting = False, so_prev = kNil, so_next = kNil\<rparr>"

record Report =
  rt_deliver :: Nanos
  rt_length :: nat
  rt_bytes :: "u8 list"

definition Report_new :: Report where
  "Report_new = \<lparr>rt_deliver = 0, rt_length = 0, rt_bytes = replicate ouch_kMaxMessageLength 0\<rparr>"

text \<open>\<^verbatim>\<open>memcpy\<close> of two overlapping runs of eight bytes; the value only chooses a slot of the index.\<close>

definition TokenHash :: "Token \<Rightarrow> u64" where
  "TokenHash t = mix64 (horner_sum ucast 256 (take 8 t) XOR mix64 (horner_sum ucast 256 (drop (kTokenSize - 8) t)))"

record ExchangeSim =
  es_cfg :: SimConfig
  es_books :: MarketBooks
  es_requests :: "Request list"
  es_req_head :: nat
  es_queued :: nat
  es_reserved :: nat
  es_orders :: "SimOrder SlabPool"
  es_by_token :: "(Token, Handle) fhm"
  es_heads :: "Handle list"
  es_tails :: "Handle list"
  es_reports :: "Report list"
  es_report_head :: nat
  es_report_count :: nat
  es_clock :: Nanos
  es_next_ref :: OrderRef
  es_match :: u64
  es_fills :: u64
  es_dropped_reports :: u64

definition ExchangeSim_new :: "SimConfig \<Rightarrow> ExchangeSim option" where
  "ExchangeSim_new config = do {
     books \<leftarrow> MarketBooks_new (sc_books config);
     orders \<leftarrow> sp_new SimOrder_new (sc_max_orders config);
     by_token \<leftarrow> fhm_new (sc_max_orders config);
     Some \<lparr>es_cfg = config, es_books = books, es_requests = replicate (sc_max_orders config) Request_new,
       es_req_head = 0, es_queued = 0, es_reserved = 0, es_orders = orders, es_by_token = by_token,
       es_heads = replicate (2 * kLocates) kNil, es_tails = replicate (2 * kLocates) kNil,
       es_reports = replicate (max 1024 (4 * sc_max_orders config)) Report_new, es_report_head = 0,
       es_report_count = 0, es_clock = 0, es_next_ref = 1, es_match = 0, es_fills = 0, es_dropped_reports = 0\<rparr> }"

text \<open>\<^verbatim>\<open>orders_[h]\<close>, read and written through the reference.\<close>

definition ord :: "ExchangeSim \<Rightarrow> Handle \<Rightarrow> SimOrder" where
  "ord es h = sp_get h (es_orders es)"

definition upd_ord :: "Handle \<Rightarrow> (SimOrder \<Rightarrow> SimOrder) \<Rightarrow> ExchangeSim \<Rightarrow> ExchangeSim" where
  "upd_ord h f es = es\<lparr>es_orders := sp_set h (f (ord es h)) (es_orders es)\<rparr>"

section \<open>Request and report queues\<close>

definition saturating_add :: "Nanos \<Rightarrow> Nanos \<Rightarrow> Nanos" where
  "saturating_add a b = (if a > - 1 - b then - 1 else a + b)"

definition report_cost :: "ExchangeSim \<Rightarrow> RequestKind \<Rightarrow> nat" where
  "report_cost es k = (if k = RK_cancel then 1 else cf_max_levels_per_side (sc_books (es_cfg es)) + 2)"

definition xs_enqueue :: "Request \<Rightarrow> Nanos \<Rightarrow> ExchangeSim \<Rightarrow> bool \<times> ExchangeSim" where
  "xs_enqueue r now es =
     (if es_queued es = length (es_requests es) then (False, es)
      else if es_report_count es + es_reserved es + report_cost es (rq_kind r) > length (es_reports es) then (False, es)
      else (True, es\<lparr>es_reserved := es_reserved es + report_cost es (rq_kind r),
              es_requests := (es_requests es)[(es_req_head es + es_queued es) mod length (es_requests es) :=
                r\<lparr>rq_arrival := saturating_add now (sc_order_latency_ns (es_cfg es))\<rparr>],
              es_queued := es_queued es + 1\<rparr>))"

definition xs_send_enter :: "EnterOrder \<Rightarrow> Nanos \<Rightarrow> ExchangeSim \<Rightarrow> bool \<times> ExchangeSim" where
  "xs_send_enter m now es = xs_enqueue (Request_new\<lparr>rq_kind := RK_enter, rq_token := eo_token m, rq_side := eo_side m,
     rq_shares := eo_shares m, rq_stock := eo_stock m, rq_price := eo_price m, rq_tif := eo_time_in_force m,
     rq_firm := eo_firm m, rq_display := eo_display m, rq_capacity := eo_capacity m, rq_sweep := eo_intermarket_sweep m,
     rq_min_qty := eo_min_qty m, rq_cross := eo_cross_type m\<rparr>) now es"

definition xs_send_cancel :: "CancelOrder \<Rightarrow> Nanos \<Rightarrow> ExchangeSim \<Rightarrow> bool \<times> ExchangeSim" where
  "xs_send_cancel m now es =
     xs_enqueue (Request_new\<lparr>rq_kind := RK_cancel, rq_token := co_token m, rq_shares := co_shares m\<rparr>) now es"

definition xs_send_replace :: "ReplaceOrder \<Rightarrow> Nanos \<Rightarrow> ExchangeSim \<Rightarrow> bool \<times> ExchangeSim" where
  "xs_send_replace m now es = xs_enqueue (Request_new\<lparr>rq_kind := RK_replace, rq_token := ro_existing m,
     rq_replacement := ro_replacement m, rq_shares := ro_shares m, rq_price := ro_price m, rq_tif := ro_time_in_force m,
     rq_display := ro_display m, rq_sweep := ro_intermarket_sweep m, rq_min_qty := ro_min_qty m\<rparr>) now es"

definition xs_emit :: "ouch_outbound \<Rightarrow> ExchangeSim \<Rightarrow> ExchangeSim option" where
  "xs_emit m es =
     (if es_report_count es = length (es_reports es)
      then Some (es\<lparr>es_dropped_reports := es_dropped_reports es + 1\<rparr>)
      else do {
        let i = (es_report_head es + es_report_count es) mod length (es_reports es);
        let r = es_reports es ! i;
        (n, bytes) \<leftarrow> encode_outbound m (rt_bytes r);
        let r = r\<lparr>rt_length := n, rt_bytes := bytes\<rparr>;
        if n = 0 then Some (es\<lparr>es_reports := (es_reports es)[i := r], es_dropped_reports := es_dropped_reports es + 1\<rparr>)
        else Some (es\<lparr>es_reports := (es_reports es)[i :=
                r\<lparr>rt_deliver := saturating_add (es_clock es) (sc_report_latency_ns (es_cfg es))\<rparr>],
              es_report_count := es_report_count es + 1\<rparr>) })"

text \<open>
  \<open>f\<close> is the callback with the simulator and its own state: it may call \<^verbatim>\<open>send\<close> on the simulator.
\<close>

partial_function (option) xs_drain_reports ::
  "Nanos \<Rightarrow> (u8 list \<Rightarrow> Nanos \<Rightarrow> ExchangeSim \<times> 's \<Rightarrow> ExchangeSim \<times> 's) \<Rightarrow> ExchangeSim \<Rightarrow> 's \<Rightarrow> (ExchangeSim \<times> 's) option" where
  "xs_drain_reports now f es s =
     (if es_report_count es = 0 then Some (es, s)
      else let r = es_reports es ! es_report_head es in
        if rt_deliver r > now then Some (es, s)
        else case f (take (rt_length r) (rt_bytes r)) (rt_deliver r) (es, s) of (es, s) \<Rightarrow>
          xs_drain_reports now f
            (es\<lparr>es_report_head := (es_report_head es + 1) mod length (es_reports es),
                es_report_count := es_report_count es - 1\<rparr>) s)"

section \<open>Order storage\<close>

definition list_slot :: "Locate \<Rightarrow> Side \<Rightarrow> nat" where
  "list_slot loc side = push_bit 1 (unat loc) OR side_index side"

definition xs_link_tail :: "Handle \<Rightarrow> ExchangeSim \<Rightarrow> ExchangeSim" where
  "xs_link_tail h es =
     (let s = list_slot (so_locate (ord es h)) (so_side (ord es h));
          tl = es_tails es ! s;
          es = upd_ord h (\<lambda>ob. ob\<lparr>so_prev := tl, so_next := kNil, so_resting := True\<rparr>) es;
          es = (if tl = kNil then es\<lparr>es_heads := (es_heads es)[s := h]\<rparr>
                else upd_ord tl (\<lambda>ob. ob\<lparr>so_next := h\<rparr>) es)
      in es\<lparr>es_tails := (es_tails es)[s := h]\<rparr>)"

definition xs_unlink :: "Handle \<Rightarrow> ExchangeSim \<Rightarrow> ExchangeSim" where
  "xs_unlink h es =
     (let s = list_slot (so_locate (ord es h)) (so_side (ord es h));
          ob = ord es h;
          es = (if so_prev ob = kNil then es\<lparr>es_heads := (es_heads es)[s := so_next ob]\<rparr>
                else upd_ord (so_prev ob) (\<lambda>p. p\<lparr>so_next := so_next ob\<rparr>) es);
          ob = ord es h;
          es = (if so_next ob = kNil then es\<lparr>es_tails := (es_tails es)[s := so_prev ob]\<rparr>
                else upd_ord (so_next ob) (\<lambda>n. n\<lparr>so_prev := so_prev ob\<rparr>) es)
      in upd_ord h (\<lambda>ob. ob\<lparr>so_prev := kNil, so_next := kNil, so_resting := False\<rparr>) es)"

text \<open>The loop of \<^verbatim>\<open>shrink_followers\<close>, from the order \<open>j\<close> on.\<close>

partial_function (option) shrink_from :: "Price \<Rightarrow> Qty \<Rightarrow> Handle \<Rightarrow> ExchangeSim \<Rightarrow> ExchangeSim option" where
  "shrink_from price removed j es =
     (if j = kNil then Some es
      else let es = (if so_price (ord es j) = price
                     then upd_ord j (\<lambda>f. f\<lparr>so_ahead := so_ahead f - min (so_ahead f) (ucast removed)\<rparr>) es else es)
           in shrink_from price removed (so_next (ord es j)) es)"

definition xs_shrink_followers :: "Handle \<Rightarrow> Qty \<Rightarrow> ExchangeSim \<Rightarrow> ExchangeSim option" where
  "xs_shrink_followers h removed es = shrink_from (so_price (ord es h)) removed (so_next (ord es h)) es"

definition xs_remove_order :: "Handle \<Rightarrow> ExchangeSim \<Rightarrow> ExchangeSim option" where
  "xs_remove_order h es = do {
     es \<leftarrow> (if so_resting (ord es h) then do {
              es \<leftarrow> xs_shrink_followers h (so_leaves (ord es h)) es;
              Some (xs_unlink h es) }
            else Some es);
     let es = es\<lparr>es_by_token := fst (fhm_erase TokenHash (es_by_token es) (so_token (ord es h)))\<rparr>;
     Some (es\<lparr>es_orders := sp_release h (es_orders es)\<rparr>) }"

section \<open>Matching\<close>

definition crosses :: "Side \<Rightarrow> Price \<Rightarrow> Price \<Rightarrow> bool" where
  "crosses side limit other = (if side = Side_buy then other \<le> limit else other \<ge> limit)"

definition xs_execute :: "Handle \<Rightarrow> Qty \<Rightarrow> Price \<Rightarrow> u8 \<Rightarrow> ExchangeSim \<Rightarrow> ExchangeSim option" where
  "xs_execute h qty price liquidity es =
     (let es = upd_ord h (\<lambda>ob. ob\<lparr>so_leaves := so_leaves ob - qty, so_filled := so_filled ob + qty\<rparr>) es;
          es = es\<lparr>es_fills := es_fills es + 1, es_match := es_match es + 1\<rparr>
      in xs_emit (OO_Executed \<lparr>ex_ts = es_clock es, ex_token = so_token (ord es h), ex_shares = qty, ex_price = price,
           ex_liquidity = liquidity, ex_match = es_match es\<rparr>) es)"

text \<open>The loop over the displayed levels of the opposite side, at level \<open>i\<close> with \<open>k\<close> levels to go.\<close>

primrec work_levels :: "nat \<Rightarrow> OrderBook \<Rightarrow> nat \<Rightarrow> Handle \<Rightarrow> ExchangeSim \<Rightarrow> ExchangeSim option" where
  "work_levels 0 bk i h es = Some es"
| "work_levels (Suc k) bk i h es =
     (let ob = ord es h; lv = level bk (opposite (so_side ob)) i in
      if \<not> (so_leaves ob > 0) then Some es
      else if \<not> crosses (so_side ob) (so_price ob) (lv_price lv) then Some es
      else do {
        es \<leftarrow> xs_execute h (min (so_leaves ob) (lv_qty lv)) (lv_price lv) kRemoved es;
        work_levels k bk (i + 1) h es })"

text \<open>The loop over our own orders at the same price: the pair (\<^verbatim>\<open>ahead\<close>, \<^verbatim>\<open>behind_own\<close>).\<close>

partial_function (option) queue_from :: "ExchangeSim \<Rightarrow> Price \<Rightarrow> Handle \<Rightarrow> u64 \<Rightarrow> u64 \<Rightarrow> (u64 \<times> u64) option" where
  "queue_from es price j ahead behind_own =
     (if j = kNil then Some (ahead, behind_own)
      else let e = ord es j in
        if so_price e \<noteq> price then queue_from es price (so_next e) ahead behind_own
        else queue_from es price (so_next e) (ahead + ucast (so_leaves e))
               (max behind_own (so_ahead e + ucast (so_leaves e))))"

definition xs_work :: "Handle \<Rightarrow> ExchangeSim \<Rightarrow> ExchangeSim option" where
  "xs_work h es = do {
     let bk = mb_book (es_books es) (so_locate (ord es h));
     es \<leftarrow> (case bk of None \<Rightarrow> Some es
            | Some b \<Rightarrow> work_levels (depth b (opposite (so_side (ord es h)))) b 0 h es);
     if so_leaves (ord es h) = 0 then xs_remove_order h es
     else if so_tif (ord es h) = kTifIoc then do {
       es \<leftarrow> xs_emit (OO_Canceled \<lparr>cn_ts = es_clock es, cn_token = so_token (ord es h), cn_decrement = so_leaves (ord es h),
               cn_reason = asc CHR ''I''\<rparr>) es;
       xs_remove_order h es }
     else do {
       let ob = ord es h;
       let ahead = (case bk of None \<Rightarrow> 0 | Some b \<Rightarrow> ucast (qty_at b (so_side ob) (so_price ob)));
       (ahead, behind_own) \<leftarrow> queue_from es (so_price ob) (es_heads es ! list_slot (so_locate ob) (so_side ob)) ahead 0;
       Some (xs_link_tail h (upd_ord h (\<lambda>ob. ob\<lparr>so_ahead := max ahead behind_own\<rparr>) es)) } }"

section \<open>Request processing\<close>

definition is_alnum :: "u8 \<Rightarrow> bool" where
  "is_alnum c = ((c \<ge> asc CHR ''0'' \<and> c \<le> asc CHR ''9'') \<or> (c \<ge> asc CHR ''A'' \<and> c \<le> asc CHR ''Z'') \<or>
     (c \<ge> asc CHR ''a'' \<and> c \<le> asc CHR ''z''))"

text \<open>The first loop stops at the first character that is not alphanumeric; the second wants spaces from there.\<close>

definition valid_token :: "Token \<Rightarrow> bool" where
  "valid_token t = (takeWhile is_alnum t \<noteq> [] \<and> (\<forall>c \<in> set (dropWhile is_alnum t). c = asc CHR '' ''))"

definition xs_reject :: "Token \<Rightarrow> u8 \<Rightarrow> ExchangeSim \<Rightarrow> ExchangeSim option" where
  "xs_reject token reason es = xs_emit (OO_Rejected \<lparr>rj_ts = es_clock es, rj_token = token, rj_reason = reason\<rparr>) es"

definition accepted_of :: "SimOrder \<Rightarrow> Qty \<Rightarrow> ExchangeSim \<Rightarrow> Accepted" where
  "accepted_of ob shares es = \<lparr>ac_ts = es_clock es, ac_token = so_token ob, ac_side = so_side ob, ac_shares = shares,
     ac_stock = so_stock ob, ac_price = so_price ob, ac_time_in_force = so_tif ob, ac_firm = so_firm ob,
     ac_display = so_display ob, ac_ref = so_ref ob, ac_capacity = so_capacity ob, ac_intermarket_sweep = so_sweep ob,
     ac_min_qty = so_min_qty ob, ac_cross_type = so_cross ob, ac_order_state = asc CHR ''L'', ac_bbo_weight = asc CHR '' ''\<rparr>"

definition xs_on_enter :: "Request \<Rightarrow> ExchangeSim \<Rightarrow> ExchangeSim option" where
  "xs_on_enter r es =
     (if \<not> valid_token (rq_token r) \<or> fhm_find TokenHash (es_by_token es) (rq_token r) \<noteq> None
      then xs_reject (rq_token r) (asc CHR ''O'') es
      else case mb_locate (es_books es) (rq_stock r) of
        None \<Rightarrow> xs_reject (rq_token r) (asc CHR ''S'') es
      | Some loc \<Rightarrow>
          if rq_shares r = 0 then xs_reject (rq_token r) (asc CHR ''O'') es
          else if rq_shares r > kMaxOrderQty then xs_reject (rq_token r) (asc CHR ''Z'') es
          else if rq_price r \<le> 0 \<or> rq_price r > kMaxPrice then xs_reject (rq_token r) (asc CHR ''X'') es
          else
            let (h, pool) = sp_allocate SimOrder_new (es_orders es) in
            if h = kNil then xs_reject (rq_token r) (asc CHR ''O'') es
            else
              let es = es\<lparr>es_orders := pool\<rparr>; (table, (slot, inserted)) = fhm_insert TokenHash (es_by_token es) (rq_token r) h in
              if slot = None then xs_reject (rq_token r) (asc CHR ''O'') (es\<lparr>es_orders := sp_release h (es_orders es)\<rparr>)
              else do {
                let es = es\<lparr>es_by_token := table\<rparr>;
                let es = upd_ord h (\<lambda>ob. ob\<lparr>so_token := rq_token r, so_locate := loc, so_side := rq_side r,
                  so_price := rq_price r, so_leaves := rq_shares r, so_tif := rq_tif r, so_stock := rq_stock r,
                  so_firm := rq_firm r, so_display := rq_display r, so_capacity := rq_capacity r, so_sweep := rq_sweep r,
                  so_min_qty := rq_min_qty r, so_cross := rq_cross r, so_ref := es_next_ref es\<rparr>) es;
                let es = es\<lparr>es_next_ref := es_next_ref es + 1\<rparr>;
                es \<leftarrow> xs_emit (OO_Accepted (accepted_of (ord es h) (so_leaves (ord es h)) es)) es;
                xs_work h es })"

definition xs_on_cancel :: "Request \<Rightarrow> ExchangeSim \<Rightarrow> ExchangeSim option" where
  "xs_on_cancel r es =
     (case fhm_find TokenHash (es_by_token es) (rq_token r) of
        None \<Rightarrow> Some es
      | Some h \<Rightarrow>
          let ob = ord es h;
              keep = (if rq_shares r > so_filled ob then rq_shares r - so_filled ob else 0)
          in if keep \<ge> so_leaves ob then Some es
             else do {
               let removed = so_leaves ob - keep;
               es \<leftarrow> xs_emit (OO_Canceled \<lparr>cn_ts = es_clock es, cn_token = so_token ob, cn_decrement = removed,
                       cn_reason = asc CHR ''U''\<rparr>) es;
               if keep = 0 then xs_remove_order h es
               else do {
                 es \<leftarrow> xs_shrink_followers h removed es;
                 Some (upd_ord h (\<lambda>ob. ob\<lparr>so_leaves := keep\<rparr>) es) } })"

definition xs_on_replace :: "Request \<Rightarrow> ExchangeSim \<Rightarrow> ExchangeSim option" where
  "xs_on_replace r es =
     (case fhm_find TokenHash (es_by_token es) (rq_token r) of
        None \<Rightarrow> Some es
      | Some h \<Rightarrow>
          if \<not> valid_token (rq_replacement r) \<or> fhm_find TokenHash (es_by_token es) (rq_replacement r) \<noteq> None then Some es
          else
            let ob = ord es h in
            if \<not> (rq_price r > 0 \<and> rq_price r \<le> kMaxPrice \<and> rq_shares r > so_filled ob \<and> rq_shares r \<le> kMaxOrderQty)
            then do {
              es \<leftarrow> xs_emit (OO_Canceled \<lparr>cn_ts = es_clock es, cn_token = so_token ob, cn_decrement = so_leaves ob,
                      cn_reason = asc CHR ''U''\<rparr>) es;
              xs_remove_order h es }
            else do {
              es \<leftarrow> xs_shrink_followers h (so_leaves ob) es;
              let es = xs_unlink h es;
              let previous = so_token (ord es h);
              let es = es\<lparr>es_by_token := fst (fhm_erase TokenHash (es_by_token es) previous)\<rparr>;
              let es = es\<lparr>es_by_token := fst (fhm_insert TokenHash (es_by_token es) (rq_replacement r) h)\<rparr>;
              let es = upd_ord h (\<lambda>ob. ob\<lparr>so_token := rq_replacement r, so_price := rq_price r,
                so_leaves := rq_shares r - so_filled ob, so_tif := rq_tif r, so_display := rq_display r,
                so_sweep := rq_sweep r, so_min_qty := rq_min_qty r, so_ref := es_next_ref es\<rparr>) es;
              let es = es\<lparr>es_next_ref := es_next_ref es + 1\<rparr>;
              es \<leftarrow> xs_emit (OO_Replaced \<lparr>rp_a = accepted_of (ord es h) (so_leaves (ord es h)) es, rp_previous = previous\<rparr>) es;
              xs_work h es })"

partial_function (option) xs_advance :: "Nanos \<Rightarrow> ExchangeSim \<Rightarrow> ExchangeSim option" where
  "xs_advance now es =
     (if es_queued es \<noteq> 0 \<and> rq_arrival (es_requests es ! es_req_head es) \<le> now then do {
        let r = es_requests es ! es_req_head es;
        let es = es\<lparr>es_req_head := (es_req_head es + 1) mod length (es_requests es), es_queued := es_queued es - 1,
                    es_reserved := es_reserved es - report_cost es (rq_kind r), es_clock := max (es_clock es) (rq_arrival r)\<rparr>;
        es \<leftarrow> (case rq_kind r of
                 RK_enter \<Rightarrow> xs_on_enter r es
               | RK_cancel \<Rightarrow> xs_on_cancel r es
               | RK_replace \<Rightarrow> xs_on_replace r es);
        xs_advance now es }
      else Some es)"

section \<open>Market data\<close>

text \<open>The loop of \<^verbatim>\<open>sweep_through\<close>, from the order \<open>h\<close> on.\<close>

partial_function (option) sweep_from :: "Side \<Rightarrow> Price \<Rightarrow> Handle \<Rightarrow> ExchangeSim \<Rightarrow> ExchangeSim option" where
  "sweep_from side added_price h es =
     (if h = kNil then Some es
      else do {
        let nxt = so_next (ord es h);
        es \<leftarrow> (if crosses side (so_price (ord es h)) added_price then do {
                 es \<leftarrow> xs_execute h (so_leaves (ord es h)) (so_price (ord es h)) kAdded es;
                 xs_remove_order h es }
               else Some es);
        sweep_from side added_price nxt es })"

definition xs_sweep_through :: "Locate \<Rightarrow> Side \<Rightarrow> Price \<Rightarrow> ExchangeSim \<Rightarrow> ExchangeSim option" where
  "xs_sweep_through loc added_side added_price es =
     (let side = opposite added_side in sweep_from side added_price (es_heads es ! list_slot loc side) es)"

text \<open>What \<^verbatim>\<open>consume\<close> does to one of our orders at the level.\<close>

definition consume_one :: "Side \<Rightarrow> Price \<Rightarrow> Qty \<Rightarrow> Handle \<Rightarrow> ExchangeSim \<Rightarrow> ExchangeSim option" where
  "consume_one side exec_price shares h es =
     (if ucast shares \<le> so_ahead (ord es h)
      then Some (upd_ord h (\<lambda>ob. ob\<lparr>so_ahead := so_ahead ob - ucast shares\<rparr>) es)
      else do {
        let excess = ucast shares - so_ahead (ord es h);
        let es = upd_ord h (\<lambda>ob. ob\<lparr>so_ahead := 0\<rparr>) es;
        let ob = ord es h;
        let px = (if side = Side_buy then min exec_price (so_price ob) else max exec_price (so_price ob));
        es \<leftarrow> xs_execute h (ucast (min (ucast (so_leaves ob)) (excess :: u64))) px kAdded es;
        if so_leaves (ord es h) = 0 then xs_remove_order h es else Some es })"

partial_function (option) consume_from ::
  "Side \<Rightarrow> Price \<Rightarrow> Price \<Rightarrow> Qty \<Rightarrow> Handle \<Rightarrow> ExchangeSim \<Rightarrow> ExchangeSim option" where
  "consume_from side level_price exec_price shares h es =
     (if h = kNil then Some es
      else do {
        let nxt = so_next (ord es h);
        es \<leftarrow> (if so_price (ord es h) = level_price then consume_one side exec_price shares h es else Some es);
        consume_from side level_price exec_price shares nxt es })"

definition xs_consume :: "Locate \<Rightarrow> Side \<Rightarrow> Price \<Rightarrow> Price \<Rightarrow> Qty \<Rightarrow> ExchangeSim \<Rightarrow> ExchangeSim option" where
  "xs_consume loc side level_price exec_price shares es =
     consume_from side level_price exec_price shares (es_heads es ! list_slot loc side) es"

text \<open>\<^verbatim>\<open>books_.on(m)\<close>, with its result.\<close>

definition xs_books_on :: "alloc \<Rightarrow> itch_message \<Rightarrow> ExchangeSim \<Rightarrow> (ExchangeSim \<times> Applied) option" where
  "xs_books_on al m es = map_option (\<lambda>(mb, r). (es\<lparr>es_books := mb\<rparr>, r)) (mb_on al m (es_books es))"

definition xs_apply_add :: "alloc \<Rightarrow> AddOrder \<Rightarrow> ExchangeSim \<Rightarrow> ExchangeSim option" where
  "xs_apply_add al m es = do {
     (es, r) \<leftarrow> xs_books_on al (IM_AddOrder m) es;
     if r = Ap_ok then xs_sweep_through (h_locate (ao_h m)) (ao_side m) (ao_price m) es else Some es }"

definition xs_apply_executed :: "alloc \<Rightarrow> OrderExecuted \<Rightarrow> ExchangeSim \<Rightarrow> ExchangeSim option" where
  "xs_apply_executed al m es =
     (case mb_order (es_books es) (oe_ref m) of
        None \<Rightarrow> map_option fst (xs_books_on al (IM_OrderExecuted m) es)
      | Some info \<Rightarrow> do {
          (es, r) \<leftarrow> xs_books_on al (IM_OrderExecuted m) es;
          if r = Ap_ok then xs_consume (oi_locate info) (oi_side info) (oi_price info) (oi_price info) (oe_shares m) es
          else Some es })"

definition xs_apply_executed_price :: "alloc \<Rightarrow> OrderExecutedPrice \<Rightarrow> ExchangeSim \<Rightarrow> ExchangeSim option" where
  "xs_apply_executed_price al m es =
     (case mb_order (es_books es) (oep_ref m) of
        None \<Rightarrow> map_option fst (xs_books_on al (IM_OrderExecutedPrice m) es)
      | Some info \<Rightarrow> do {
          (es, r) \<leftarrow> xs_books_on al (IM_OrderExecutedPrice m) es;
          if r = Ap_ok then xs_consume (oi_locate info) (oi_side info) (oi_price info) (oep_price m) (oep_shares m) es
          else Some es })"

definition xs_apply_replace :: "alloc \<Rightarrow> OrderReplace \<Rightarrow> ExchangeSim \<Rightarrow> ExchangeSim option" where
  "xs_apply_replace al m es =
     (case mb_order (es_books es) (orp_old_ref m) of
        None \<Rightarrow> map_option fst (xs_books_on al (IM_OrderReplace m) es)
      | Some info \<Rightarrow> do {
          (es, r) \<leftarrow> xs_books_on al (IM_OrderReplace m) es;
          if r = Ap_ok then xs_sweep_through (oi_locate info) (oi_side info) (orp_price m) es else Some es })"

text \<open>The overload set \<^verbatim>\<open>apply\<close>, to which \<^verbatim>\<open>Router::on\<close> forwards.\<close>

fun xs_apply :: "alloc \<Rightarrow> itch_message \<Rightarrow> ExchangeSim \<Rightarrow> ExchangeSim option" where
  "xs_apply al (IM_AddOrder m) es = xs_apply_add al m es"
| "xs_apply al (IM_OrderExecuted m) es = xs_apply_executed al m es"
| "xs_apply al (IM_OrderExecutedPrice m) es = xs_apply_executed_price al m es"
| "xs_apply al (IM_OrderReplace m) es = xs_apply_replace al m es"
| "xs_apply al m es = map_option fst (xs_books_on al m es)"

definition xs_on_itch :: "alloc \<Rightarrow> u8 list \<Rightarrow> Nanos \<Rightarrow> ExchangeSim \<Rightarrow> ExchangeSim option" where
  "xs_on_itch al msg now es = do {
     es \<leftarrow> xs_advance now es;
     let es = es\<lparr>es_clock := max (es_clock es) now\<rparr>;
     (st, h) \<leftarrow> decode (\<lambda>m h. h \<bind> xs_apply al m) msg (Some es);
     h }"

end
