(* ===== verification/Exchange_Sim_Inv.thy ===== *)
theory Exchange_Sim_Inv
  imports Exchange_Sim Linked_List
begin

text \<open>
  The order storage of the simulator: the pool, the token index and the per-instrument lists describe
  the same set of working orders. The invariant \<open>es_at X ws es\<close> names the lists \<open>ws\<close> (by slot) and the set
  \<open>X\<close> of orders that are being worked and are on no list; the lemmas give the exact effect of linking,
  unlinking, shrinking the queue behind an order and removing one.
\<close>

section \<open>Orders and reports\<close>

definition in_pool :: "ExchangeSim \<Rightarrow> Handle \<Rightarrow> bool" where
  "in_pool es h \<longleftrightarrow> unat h < sp_capacity (es_orders es)"

definition is_live :: "ExchangeSim \<Rightarrow> Handle \<Rightarrow> bool" where
  "is_live es h \<longleftrightarrow> sp_live h (es_orders es)"

lemma live_in_pool: "is_live es h \<Longrightarrow> in_pool es h"
  by (simp add: is_live_def in_pool_def sp_live_def sp_capacity_def)

lemma ord_upd: "in_pool es h \<Longrightarrow> ord (upd_ord h f es) k = (if k = h then f (ord es h) else ord es k)"
  by (simp add: ord_def upd_ord_def in_pool_def sp_set_get)

lemma upd_ord_frame [simp]:
  "es_by_token (upd_ord h f es) = es_by_token es" "es_heads (upd_ord h f es) = es_heads es"
  "es_tails (upd_ord h f es) = es_tails es" "es_clock (upd_ord h f es) = es_clock es"
  "es_books (upd_ord h f es) = es_books es" "es_cfg (upd_ord h f es) = es_cfg es"
  "es_match (upd_ord h f es) = es_match es" "es_next_ref (upd_ord h f es) = es_next_ref es"
  "es_queued (upd_ord h f es) = es_queued es" "es_requests (upd_ord h f es) = es_requests es"
  "es_req_head (upd_ord h f es) = es_req_head es" "es_reserved (upd_ord h f es) = es_reserved es"
  "es_reports (upd_ord h f es) = es_reports es" "es_report_head (upd_ord h f es) = es_report_head es"
  "es_report_count (upd_ord h f es) = es_report_count es"
  by (simp_all add: upd_ord_def)

lemma sp_set_live [simp]: "sp_live k (sp_set h v p) = sp_live k p" "sp_capacity (sp_set h v p) = sp_capacity p"
proof -
  show "sp_capacity (sp_set h v p) = sp_capacity p" by (simp add: sp_capacity_def sp_set_def)
  show "sp_live k (sp_set h v p) = sp_live k p"
    by (cases "unat k = unat h"; simp add: sp_live_def sp_set_def; auto)
qed

lemma upd_ord_live [simp]: "is_live (upd_ord h f es) k = is_live es k" "in_pool (upd_ord h f es) k = in_pool es k"
  by (simp_all add: is_live_def in_pool_def upd_ord_def)

text \<open>Two states whose order storage agrees.\<close>

definition same_store :: "ExchangeSim \<Rightarrow> ExchangeSim \<Rightarrow> bool" where
  "same_store es es' \<longleftrightarrow> es_orders es' = es_orders es \<and> es_by_token es' = es_by_token es \<and> es_heads es' = es_heads es \<and>
     es_tails es' = es_tails es"

lemma same_storeD:
  "same_store es es' \<Longrightarrow> ord es' = ord es" "same_store es es' \<Longrightarrow> is_live es' = is_live es"
  "same_store es es' \<Longrightarrow> in_pool es' = in_pool es" "same_store es es' \<Longrightarrow> es_by_token es' = es_by_token es"
  "same_store es es' \<Longrightarrow> es_heads es' = es_heads es" "same_store es es' \<Longrightarrow> es_tails es' = es_tails es"
  by (auto simp: same_store_def ord_def is_live_def in_pool_def fun_eq_iff)

lemma same_store_simps [simp]:
  "same_store es es"
  "same_store es (es\<lparr>es_clock := c\<rparr>)" "same_store es (es\<lparr>es_books := b\<rparr>)"
  "same_store es (es\<lparr>es_fills := f, es_match := m\<rparr>)" "same_store es (es\<lparr>es_next_ref := r\<rparr>)"
  "same_store es (es\<lparr>es_req_head := i, es_queued := n, es_reserved := v, es_clock := c\<rparr>)"
  by (simp_all add: same_store_def)

text \<open>
  The report ring: the reports that wait, oldest first. A step may only append reports, stamped with the
  clock plus the report latency.
\<close>

definition pending :: "ExchangeSim \<Rightarrow> Report list" where
  "pending es = map (\<lambda>i. es_reports es ! ((es_report_head es + i) mod length (es_reports es))) [0..<es_report_count es]"

definition report_ring :: "ExchangeSim \<Rightarrow> bool" where
  "report_ring es \<longleftrightarrow> es_report_head es < length (es_reports es) \<and> es_report_count es \<le> length (es_reports es) \<and>
     (\<forall>r \<in> set (es_reports es). length (rt_bytes r) = ouch_kMaxMessageLength)"

definition reported :: "ExchangeSim \<Rightarrow> ExchangeSim \<Rightarrow> bool" where
  "reported es es' \<longleftrightarrow> (report_ring es \<longrightarrow> report_ring es' \<and> (\<exists>new. pending es' = pending es @ new \<and>
     (\<forall>r \<in> set new. rt_deliver r = saturating_add (es_clock es) (sc_report_latency_ns (es_cfg es)))))"

lemma ring_slots:
  assumes "i < c" "c < n"
  shows "(h + i) mod n \<noteq> (h + c) mod (n :: nat)"
proof
  assume "(h + i) mod n = (h + c) mod n"
  then have "n dvd c - i" using assms(1) mod_eq_dvd_iff_nat [of "h + i" "h + c" n] by simp
  then have "n \<le> c - i" using assms(1) by (intro dvd_imp_le) simp_all
  then show False using assms by simp
qed

lemma pending_write:
  assumes "report_ring es" "es_report_count es < length (es_reports es)"
    and "i = (es_report_head es + es_report_count es) mod length (es_reports es)"
    and "es' = es\<lparr>es_reports := (es_reports es)[i := r], es_report_count := es_report_count es', es_dropped_reports := d\<rparr>"
  shows "es_report_count es' = es_report_count es \<Longrightarrow> pending es' = pending es"
    "es_report_count es' = es_report_count es + 1 \<Longrightarrow> pending es' = pending es @ [r]"
proof -
  let ?n = "length (es_reports es)"
  have f: "es_report_head es' = es_report_head es" "es_reports es' = (es_reports es)[i := r]" by (subst assms(4), simp)+
  have i: "i < ?n" using assms(2,3) by (auto intro!: mod_less_divisor)
  have old: "map (\<lambda>k. es_reports es' ! ((es_report_head es' + k) mod length (es_reports es'))) [0..<es_report_count es] = pending es"
    unfolding pending_def
  proof (rule map_cong [OF refl])
    fix k assume "k \<in> set [0..<es_report_count es]"
    then have "(es_report_head es + k) mod ?n \<noteq> i" using ring_slots [OF _ assms(2)] assms(3) by simp
    then show "es_reports es' ! ((es_report_head es' + k) mod length (es_reports es')) =
        es_reports es ! ((es_report_head es + k) mod ?n)" by (simp add: f)
  qed
  show "es_report_count es' = es_report_count es \<Longrightarrow> pending es' = pending es" using old by (simp add: pending_def [of es'])
  show "es_report_count es' = es_report_count es + 1 \<Longrightarrow> pending es' = pending es @ [r]"
    using old i assms(3) f by (simp add: pending_def [of es'])
qed

lemma reported_refl: "reported es es"
  by (auto simp: reported_def)

text \<open>What an emitted report changes, and that emitting always returns.\<close>

definition emits :: "ExchangeSim \<Rightarrow> ExchangeSim \<Rightarrow> bool" where
  "emits es es' \<longleftrightarrow> es' = es\<lparr>es_reports := es_reports es', es_report_count := es_report_count es',
     es_dropped_reports := es_dropped_reports es'\<rparr> \<and> reported es es'"

lemma xs_emit_returns:
  assumes "outbound_sized m"
  shows "\<exists>es'. xs_emit m es = Some es' \<and> emits es es'"
proof (cases "es_report_count es = length (es_reports es)")
  case True
  then show ?thesis by (auto simp: xs_emit_def emits_def reported_def report_ring_def pending_def)
next
  case False
  let ?i = "(es_report_head es + es_report_count es) mod length (es_reports es)"
  obtain n bytes where enc: "encode_outbound m (rt_bytes (es_reports es ! ?i)) = Some (n, bytes)"
    using encode_outbound_image(1) [OF assms] by (metis surj_pair)
  have len: "length bytes = length (rt_bytes (es_reports es ! ?i))"
    using enc by (auto simp: encode_outbound_image(1) [OF assms] split: if_splits)
  let ?r = "(es_reports es ! ?i)\<lparr>rt_length := n, rt_bytes := bytes\<rparr>"
  let ?lost = "es\<lparr>es_reports := (es_reports es)[?i := ?r], es_dropped_reports := es_dropped_reports es + 1\<rparr>"
  let ?at = "saturating_add (es_clock es) (sc_report_latency_ns (es_cfg es))"
  let ?sent = "es\<lparr>es_reports := (es_reports es)[?i := ?r\<lparr>rt_deliver := ?at\<rparr>], es_report_count := es_report_count es + 1\<rparr>"
  have sized: "length bytes = ouch_kMaxMessageLength" if "report_ring es"
  proof -
    have "0 < length (es_reports es)" using that by (auto simp: report_ring_def)
    then have "es_reports es ! ?i \<in> set (es_reports es)" by simp
    then show ?thesis using that len by (simp add: report_ring_def)
  qed
  have "xs_emit m es = Some (if n = 0 then ?lost else ?sent)" using False enc by (simp add: xs_emit_def Let_def)
  moreover have "reported es ?lost"
  proof -
    have "pending ?lost = pending es" if "report_ring es"
      by (rule pending_write(1) [OF that _ refl, where r = ?r and d = "es_dropped_reports es + 1"])
        (use that False in \<open>simp_all add: report_ring_def\<close>)
    then show ?thesis using sized by (auto simp: reported_def report_ring_def dest!: set_update_subset_insert [THEN subsetD])
  qed
  moreover have "reported es ?sent"
  proof -
    have "pending ?sent = pending es @ [?r\<lparr>rt_deliver := ?at\<rparr>]" if "report_ring es"
      by (rule pending_write(2) [OF that _ refl, where d = "es_dropped_reports es"])
        (use that False in \<open>simp_all add: report_ring_def\<close>)
    then show ?thesis using False sized by (auto simp: reported_def report_ring_def dest!: set_update_subset_insert [THEN subsetD])
  qed
  ultimately show ?thesis by (cases "n = 0") (simp_all add: emits_def)
qed

lemma emitsD:
  assumes "emits es es'"
  shows "same_store es es'" "es_clock es' = es_clock es" "es_books es' = es_books es" "es_cfg es' = es_cfg es"
    "es_queued es' = es_queued es" "es_requests es' = es_requests es" "es_req_head es' = es_req_head es"
    "es_reserved es' = es_reserved es" "es_next_ref es' = es_next_ref es"
proof -
  have e: "es' = es\<lparr>es_reports := es_reports es', es_report_count := es_report_count es',
     es_dropped_reports := es_dropped_reports es'\<rparr>"
    using assms by (simp add: emits_def)
  show "same_store es es'" "es_clock es' = es_clock es" "es_books es' = es_books es" "es_cfg es' = es_cfg es"
    "es_queued es' = es_queued es" "es_requests es' = es_requests es" "es_req_head es' = es_req_head es"
    "es_reserved es' = es_reserved es" "es_next_ref es' = es_next_ref es"
    unfolding same_store_def by (subst e, simp)+
qed

section \<open>The invariant\<close>

definition kSlots :: nat where "kSlots = 2 * kLocates"

definition slot_of :: "SimOrder \<Rightarrow> nat" where
  "slot_of ob = list_slot (so_locate ob) (so_side ob)"

lemma list_slot_bound:
  assumes "valid_side side"
  shows "list_slot loc side < kSlots"
proof -
  have loc: "unat loc < 65536" using unsigned_less [where 'a = nat, of loc] by simp
  have "(2 * n) OR i = 2 * n + i" if "i \<le> 1" for n i :: nat
    using that or_one_eq [of "2 * n"] by (cases i) simp_all
  then have "list_slot loc side = 2 * unat loc + side_index side" using assms
    by (auto simp: list_slot_def push_bit_eq_mult mult.commute elim!: valid_side_cases)
  then show ?thesis using assms loc by (auto simp: kSlots_def kLocates_def elim!: valid_side_cases)
qed

text \<open>
  The fields of an order that its place in the lists does not touch, and the rules its terms obey. Sizes of
  byte arrays are fixed by the C++ types.
\<close>

definition terms :: "SimOrder \<Rightarrow> SimOrder" where
  "terms ob = ob\<lparr>so_prev := kNil, so_next := kNil, so_resting := False\<rparr>"

definition sim_order_ok :: "SimOrder \<Rightarrow> bool" where
  "sim_order_ok ob \<longleftrightarrow> valid_side (so_side ob) \<and> unat (so_leaves ob) + unat (so_filled ob) \<le> 999999 \<and>
     0 < so_price ob \<and> so_price ob \<le> kMaxPrice \<and> length (so_token ob) = 14 \<and> length (so_stock ob) = 8 \<and>
     length (so_firm ob) = 4"

lemma terms_eqD:
  assumes "terms a = terms b"
  shows "sim_order_ok a = sim_order_ok b" "slot_of a = slot_of b" "so_leaves a = so_leaves b" "so_price a = so_price b"
    "so_token a = so_token b" "so_ahead a = so_ahead b" "so_filled a = so_filled b" "so_side a = so_side b"
    "so_locate a = so_locate b"
  using assms by (cases a; cases b; simp add: terms_def sim_order_ok_def slot_of_def)+

definition prevs :: "ExchangeSim \<Rightarrow> Handle \<Rightarrow> Handle" where "prevs es h = so_prev (ord es h)"
definition nexts :: "ExchangeSim \<Rightarrow> Handle \<Rightarrow> Handle" where "nexts es h = so_next (ord es h)"

definition pool_at :: "ExchangeSim \<Rightarrow> bool" where
  "pool_at es \<longleftrightarrow> (\<exists>fs. sp_stack (es_orders es) fs)"

definition table_at :: "ExchangeSim \<Rightarrow> bool" where
  "table_at es \<longleftrightarrow> fhm_inv TokenHash (es_by_token es) \<and> fhm_max (es_by_token es) = sp_capacity (es_orders es) \<and>
     (\<forall>t h. fhm_find TokenHash (es_by_token es) t = Some h \<longleftrightarrow> is_live es h \<and> so_token (ord es h) = t)"

definition lists_at :: "Handle set \<Rightarrow> (nat \<Rightarrow> Handle list) \<Rightarrow> ExchangeSim \<Rightarrow> bool" where
  "lists_at X ws es \<longleftrightarrow> length (es_heads es) = kSlots \<and> length (es_tails es) = kSlots \<and>
     (\<forall>s < kSlots. dlist (prevs es) (nexts es) kNil (es_heads es ! s) (es_tails es ! s) (ws s)) \<and>
     (\<forall>s < kSlots. \<forall>h. h \<in> set (ws s) \<longleftrightarrow> is_live es h \<and> h \<notin> X \<and> slot_of (ord es h) = s)"

definition orders_at :: "Handle set \<Rightarrow> ExchangeSim \<Rightarrow> bool" where
  "orders_at X es \<longleftrightarrow> (\<forall>h. is_live es h \<longrightarrow> sim_order_ok (ord es h) \<and> so_resting (ord es h) = (h \<notin> X))"

definition es_at :: "Handle set \<Rightarrow> (nat \<Rightarrow> Handle list) \<Rightarrow> ExchangeSim \<Rightarrow> bool" where
  "es_at X ws es \<longleftrightarrow> pool_at es \<and> table_at es \<and> lists_at X ws es \<and> orders_at X es"

lemma es_at_same:
  assumes "same_store es es'"
  shows "es_at X ws es' = es_at X ws es"
proof -
  have "prevs es' = prevs es" "nexts es' = nexts es" using assms by (auto simp: prevs_def nexts_def same_storeD)
  then show ?thesis using same_storeD [OF assms] assms
    by (simp add: es_at_def pool_at_def table_at_def lists_at_def orders_at_def same_store_def)
qed

lemma live_not_null: "pool_at es \<Longrightarrow> is_live es h \<Longrightarrow> h \<noteq> kNil"
  using pool.null_dead by (auto simp: pool_at_def is_live_def pool_ok_def live_set_def kNil_def)

lemma es_at_order:
  assumes "es_at X ws es" "is_live es h"
  shows "sim_order_ok (ord es h)" "so_resting (ord es h) = (h \<notin> X)"
    "h \<noteq> kNil" "slot_of (ord es h) < kSlots" "in_pool es h" "h \<notin> X \<Longrightarrow> h \<in> set (ws (slot_of (ord es h)))"
proof -
  show ok: "sim_order_ok (ord es h)" "so_resting (ord es h) = (h \<notin> X)"
    using assms by (auto simp: es_at_def orders_at_def)
  show "h \<noteq> kNil" using assms live_not_null by (auto simp: es_at_def)
  show sl: "slot_of (ord es h) < kSlots" using ok(1) list_slot_bound by (simp add: sim_order_ok_def slot_of_def)
  show "in_pool es h" using assms(2) by (rule live_in_pool)
  show "h \<notin> X \<Longrightarrow> h \<in> set (ws (slot_of (ord es h)))" using assms sl by (auto simp: es_at_def lists_at_def)
qed

lemma es_at_list:
  assumes "es_at X ws es" "s < kSlots"
  shows "dlist (prevs es) (nexts es) kNil (es_heads es ! s) (es_tails es ! s) (ws s)"
    "h \<in> set (ws s) \<longleftrightarrow> is_live es h \<and> h \<notin> X \<and> slot_of (ord es h) = s"
  using assms by (auto simp: es_at_def lists_at_def)

lemma upd_ord_stack: "pool_at es \<Longrightarrow> pool_at (upd_ord h f es)"
  by (auto simp: pool_at_def upd_ord_def intro: sp_set_stack)

text \<open>Changing the terms of an order without its identity, its instrument and its place.\<close>

lemma es_at_upd:
  assumes "es_at X ws es" "is_live es h"
    and "so_token (f (ord es h)) = so_token (ord es h)" "slot_of (f (ord es h)) = slot_of (ord es h)"
    and "so_prev (f (ord es h)) = so_prev (ord es h)" "so_next (f (ord es h)) = so_next (ord es h)"
    and "so_resting (f (ord es h)) = so_resting (ord es h)" "sim_order_ok (f (ord es h))"
  shows "es_at X ws (upd_ord h f es)"
proof -
  have o: "ord (upd_ord h f es) k = (if k = h then f (ord es h) else ord es k)" for k
    using assms(2) by (simp add: ord_upd live_in_pool)
  have links: "prevs (upd_ord h f es) = prevs es" "nexts (upd_ord h f es) = nexts es"
    using assms(5,6) by (auto simp: prevs_def nexts_def o fun_eq_iff)
  have "table_at (upd_ord h f es)"
    using assms(1,3) by (auto simp: es_at_def table_at_def o) (simp_all add: upd_ord_def)
  moreover have "lists_at X ws (upd_ord h f es)"
    using assms(1,4) by (auto simp: es_at_def lists_at_def o links)
  moreover have "orders_at X (upd_ord h f es)"
    using assms(1,2,7-8) by (auto simp: es_at_def orders_at_def o)
  ultimately show ?thesis using assms(1) upd_ord_stack by (auto simp: es_at_def)
qed

section \<open>Linking and unlinking\<close>

text \<open>
  A step that only moves orders between lists: the links and the list ends change, the terms, the live
  orders, the index and everything outside the order storage stay.
\<close>

definition es_relinked :: "ExchangeSim \<Rightarrow> ExchangeSim \<Rightarrow> bool" where
  "es_relinked es es' \<longleftrightarrow> es' = es\<lparr>es_orders := es_orders es', es_heads := es_heads es', es_tails := es_tails es'\<rparr> \<and>
     sp_capacity (es_orders es') = sp_capacity (es_orders es) \<and> (\<forall>h. is_live es' h = is_live es h) \<and>
     (\<forall>h. terms (ord es' h) = terms (ord es h)) \<and> (pool_at es \<longrightarrow> pool_at es')"

lemma es_relinkedD:
  assumes "es_relinked es es'"
  shows "is_live es' h = is_live es h" "in_pool es' h = in_pool es h" "terms (ord es' h) = terms (ord es h)"
    "es_by_token es' = es_by_token es" "es_clock es' = es_clock es" "es_books es' = es_books es" "es_cfg es' = es_cfg es"
proof -
  have r: "es' = es\<lparr>es_orders := es_orders es', es_heads := es_heads es', es_tails := es_tails es'\<rparr>"
    using assms by (simp add: es_relinked_def)
  show "es_by_token es' = es_by_token es" "es_clock es' = es_clock es" "es_books es' = es_books es" "es_cfg es' = es_cfg es"
    by (subst r, simp)+
qed (use assms in \<open>simp_all add: es_relinked_def in_pool_def\<close>)

lemma es_relinked_trans: "es_relinked a b \<Longrightarrow> es_relinked b c \<Longrightarrow> es_relinked a c"
  by (cases a; cases b; cases c; simp add: es_relinked_def)

lemma es_relinked_ends: "es_relinked es (es\<lparr>es_heads := hs\<rparr>)" "es_relinked es (es\<lparr>es_tails := ts\<rparr>)"
  by (simp_all add: es_relinked_def is_live_def ord_def pool_at_def)

lemma es_relinked_upd:
  assumes "in_pool es h" "terms (f (ord es h)) = terms (ord es h)"
  shows "es_relinked es (upd_ord h f es)"
proof -
  have "sp_capacity (es_orders (upd_ord h f es)) = sp_capacity (es_orders es)" by (simp add: upd_ord_def)
  moreover have "upd_ord h f es = es\<lparr>es_orders := es_orders (upd_ord h f es), es_heads := es_heads (upd_ord h f es),
      es_tails := es_tails (upd_ord h f es)\<rparr>"
    by (simp add: upd_ord_def)
  ultimately show ?thesis using assms upd_ord_stack [of es h f] by (simp add: es_relinked_def ord_upd)
qed

lemma es_at_moved:
  assumes "es_at X ws es" "es_relinked es es'" "lists_at X' ws' es'"
    and "\<And>h. is_live es h \<Longrightarrow> so_resting (ord es' h) = (h \<notin> X')"
  shows "es_at X' ws' es'"
proof -
  note r = es_relinkedD [OF assms(2)] and t = terms_eqD [OF es_relinkedD(3) [OF assms(2)]]
  have "sp_capacity (es_orders es') = sp_capacity (es_orders es)" using assms(2) by (simp add: es_relinked_def)
  then have "table_at es'" using assms(1) by (simp add: es_at_def table_at_def r t)
  moreover have "orders_at X' es'" using assms(1,4) by (auto simp: es_at_def orders_at_def r t)
  moreover have "pool_at es'" using assms(1,2) by (simp add: es_at_def es_relinked_def)
  ultimately show ?thesis using assms(3) by (simp add: es_at_def)
qed

text \<open>The rule of \<^verbatim>\<open>link_tail\<close>.\<close>

lemma ord_link_tail:
  assumes "in_pool es h" "tn = es_tails es ! slot_of (ord es h)" "tn \<noteq> kNil \<Longrightarrow> in_pool es tn" "tn \<noteq> h"
  shows "ord (xs_link_tail h es) k =
     (if k = h then (ord es h)\<lparr>so_prev := tn, so_next := kNil, so_resting := True\<rparr>
      else if tn \<noteq> kNil \<and> k = tn then (ord es tn)\<lparr>so_next := h\<rparr> else ord es k)"
    "es_relinked es (xs_link_tail h es)"
    "es_heads (xs_link_tail h es) = (if tn = kNil then (es_heads es)[slot_of (ord es h) := h] else es_heads es)"
    "es_tails (xs_link_tail h es) = (es_tails es)[slot_of (ord es h) := h]"
proof -
  have o: "ord (es1\<lparr>es_heads := x\<rparr>) = ord es1" "ord (es1\<lparr>es_tails := x\<rparr>) = ord es1" for es1 x
    by (simp_all add: fun_eq_iff ord_def)
  have tn: "es_tails es ! list_slot (so_locate (ord es h)) (so_side (ord es h)) = tn"
    using assms(2) by (simp add: slot_of_def)
  show "ord (xs_link_tail h es) k =
     (if k = h then (ord es h)\<lparr>so_prev := tn, so_next := kNil, so_resting := True\<rparr>
      else if tn \<noteq> kNil \<and> k = tn then (ord es tn)\<lparr>so_next := h\<rparr> else ord es k)"
    using assms(1,3,4) by (simp add: xs_link_tail_def Let_def tn o ord_upd)
  show "es_heads (xs_link_tail h es) = (if tn = kNil then (es_heads es)[slot_of (ord es h) := h] else es_heads es)"
    "es_tails (xs_link_tail h es) = (es_tails es)[slot_of (ord es h) := h]"
    by (simp_all add: xs_link_tail_def Let_def tn slot_of_def)
  let ?e1 = "upd_ord h (\<lambda>ob. ob\<lparr>so_prev := tn, so_next := kNil, so_resting := True\<rparr>) es"
  have 1: "es_relinked es ?e1" using assms(1) by (intro es_relinked_upd) (simp_all add: terms_def)
  have 2: "es_relinked ?e1 (upd_ord tn (\<lambda>ob. ob\<lparr>so_next := h\<rparr>) ?e1)" if "tn \<noteq> kNil"
    using assms(3) that by (intro es_relinked_upd) (simp_all add: terms_def)
  show "es_relinked es (xs_link_tail h es)"
    using es_relinked_trans [OF es_relinked_trans [OF 1 2] es_relinked_ends(2)]
      es_relinked_trans [OF es_relinked_trans [OF 1 es_relinked_ends(1)] es_relinked_ends(2)]
    by (cases "tn = kNil") (simp_all add: xs_link_tail_def Let_def tn slot_of_def)
qed

lemma es_at_link:
  assumes at: "es_at X ws es" and h: "is_live es h" "h \<in> X"
  defines "s \<equiv> slot_of (ord es h)"
  shows "es_at (X - {h}) (ws(s := ws s @ [h])) (xs_link_tail h es)" "es_relinked es (xs_link_tail h es)"
proof -
  let ?es = "xs_link_tail h es" and ?tl = "es_tails es ! s"
  have s: "s < kSlots" "in_pool es h" "h \<noteq> kNil" using es_at_order [OF at h(1)] by (simp_all add: s_def)
  note dl = es_at_list [OF at]
  have tn: "?tl \<noteq> kNil \<Longrightarrow> ?tl \<in> set (ws s)"
    using dl(1) [OF s(1)] dlist_ends [OF dl(1) [OF s(1)]] by (auto simp: dlist_def last_of_nonempty)
  then have tlp: "?tl \<noteq> kNil \<Longrightarrow> in_pool es ?tl" using dl(2) [OF s(1)] live_in_pool by blast
  have tlh: "?tl \<noteq> h" using tn dl(2) [OF s(1), of h] s(3) h(2) by (cases "?tl = kNil") auto
  note l = ord_link_tail [OF s(2) _ tlp tlh, folded s_def, OF refl]
  show r: "es_relinked es ?es" by (rule l(2))
  have len: "length (es_heads es) = kSlots" "length (es_tails es) = kSlots"
    using at by (simp_all add: es_at_def lists_at_def)
  have hn: "h \<notin> set (ws z)" if "z < kSlots" for z using dl(2) [OF that] h(2) by auto
  have "dlist (prevs ?es) (nexts ?es) kNil (es_heads ?es ! z) (es_tails ?es ! z) ((ws(s := ws s @ [h])) z)"
    if z: "z < kSlots" for z
  proof (cases "z = s")
    case True
    have nn: "kNil \<notin> set (ws s)" using dl(1) [OF s(1)] by (simp add: dlist_def)
    have "dlist (prevs ?es) (nexts ?es) kNil (if ?tl = kNil then h else es_heads es ! s) h (ws s @ [h])"
    proof (rule dlist_append [OF dl(1) [OF s(1)] hn [OF s(1)] s(3)])
      fix y assume y: "y \<in> insert h (set (ws s))"
      then have "y \<noteq> kNil" using nn s(3) by auto
      then show "prevs ?es y = (if y = h then ?tl else prevs es y)"
        "nexts ?es y = (if y = h then kNil else if y = ?tl then h else nexts es y)"
        by (simp_all add: prevs_def nexts_def l(1))
    qed
    then show ?thesis using True len s(1) by (cases "?tl = kNil") (simp_all add: l(3,4))
  next
    case False
    have "?tl \<notin> set (ws z)" if "?tl \<noteq> kNil"
      using tn [OF that] dl(2) [OF s(1)] dl(2) [OF z] False by auto
    then have "dlist (prevs ?es) (nexts ?es) kNil (es_heads es ! z) (es_tails es ! z) (ws z) =
        dlist (prevs es) (nexts es) kNil (es_heads es ! z) (es_tails es ! z) (ws z)"
      using hn [OF z] by (intro dlist_cong) (auto simp: prevs_def nexts_def l(1))
    then show ?thesis using False dl(1) [OF z] by (simp add: l(3,4))
  qed
  moreover have "k \<in> set ((ws(s := ws s @ [h])) z) \<longleftrightarrow> is_live ?es k \<and> k \<notin> X - {h} \<and> slot_of (ord ?es k) = z"
    if "z < kSlots" for z k
    using dl(2) [OF that] h hn [OF that] by (auto simp: es_relinkedD [OF r] terms_eqD(2) [OF es_relinkedD(3) [OF r]] s_def)
  ultimately have "lists_at (X - {h}) (ws(s := ws s @ [h])) ?es" using len by (simp add: lists_at_def l(3,4))
  then show "es_at (X - {h}) (ws(s := ws s @ [h])) ?es"
  proof (rule es_at_moved [OF at r])
    fix k assume "is_live es k"
    then show "so_resting (ord ?es k) = (k \<notin> X - {h})"
      using es_at_order(2) [OF at, of k] tlh by (auto simp: l(1))
  qed
qed

text \<open>The rule of \<^verbatim>\<open>unlink\<close>.\<close>

lemma ord_unlink:
  assumes p: "in_pool es h" "pv = so_prev (ord es h)" "nx = so_next (ord es h)"
    and "pv \<noteq> kNil \<Longrightarrow> in_pool es pv \<and> pv \<noteq> h" "nx \<noteq> kNil \<Longrightarrow> in_pool es nx \<and> nx \<noteq> h" "pv \<noteq> kNil \<Longrightarrow> pv \<noteq> nx"
  shows "ord (xs_unlink h es) k =
     (if k = h then (ord es h)\<lparr>so_prev := kNil, so_next := kNil, so_resting := False\<rparr>
      else if pv \<noteq> kNil \<and> k = pv then (ord es pv)\<lparr>so_next := nx\<rparr>
      else if nx \<noteq> kNil \<and> k = nx then (ord es nx)\<lparr>so_prev := pv\<rparr> else ord es k)"
    "es_relinked es (xs_unlink h es)"
    "es_heads (xs_unlink h es) = (if pv = kNil then (es_heads es)[slot_of (ord es h) := nx] else es_heads es)"
    "es_tails (xs_unlink h es) = (if nx = kNil then (es_tails es)[slot_of (ord es h) := pv] else es_tails es)"
proof -
  have o: "ord (es1\<lparr>es_heads := x\<rparr>) = ord es1" "ord (es1\<lparr>es_tails := x\<rparr>) = ord es1" for es1 x
    by (simp_all add: fun_eq_iff ord_def)
  have l: "is_live (es1\<lparr>es_heads := x\<rparr>) k = is_live es1 k" "is_live (es1\<lparr>es_tails := x\<rparr>) k = is_live es1 k"
    "in_pool (es1\<lparr>es_heads := x\<rparr>) k = in_pool es1 k" "in_pool (es1\<lparr>es_tails := x\<rparr>) k = in_pool es1 k" for es1 x k
    by (simp_all add: is_live_def in_pool_def)
  define e1 where "e1 = (if pv = kNil then es\<lparr>es_heads := (es_heads es)[slot_of (ord es h) := nx]\<rparr>
     else upd_ord pv (\<lambda>q. q\<lparr>so_next := nx\<rparr>) es)"
  have e1: "ord e1 k = (if pv \<noteq> kNil \<and> k = pv then (ord es pv)\<lparr>so_next := nx\<rparr> else ord es k)" "in_pool e1 k = in_pool es k"
      "es_relinked es e1" "ord e1 h = ord es h" "es_tails e1 = es_tails es" for k
    using assms es_relinked_ends(1) by (auto simp: e1_def o l ord_upd terms_def intro: es_relinked_upd)
  define e2 where "e2 = (if nx = kNil then e1\<lparr>es_tails := (es_tails es)[slot_of (ord es h) := pv]\<rparr>
     else upd_ord nx (\<lambda>q. q\<lparr>so_prev := pv\<rparr>) e1)"
  have e2: "ord e2 k = (if nx \<noteq> kNil \<and> k = nx then (ord es nx)\<lparr>so_prev := pv\<rparr> else ord e1 k)" "in_pool e2 k = in_pool es k"
      "es_relinked e1 e2" "ord e2 h = ord es h" for k
    using assms es_relinked_ends(2) by (auto simp: e2_def o l ord_upd e1 terms_def intro: es_relinked_upd)
  have u: "xs_unlink h es = upd_ord h (\<lambda>ob. ob\<lparr>so_prev := kNil, so_next := kNil, so_resting := False\<rparr>) e2"
  proof -
    have "xs_unlink h es = upd_ord h (\<lambda>ob. ob\<lparr>so_prev := kNil, so_next := kNil, so_resting := False\<rparr>)
       (if so_next (ord e1 h) = kNil then e1\<lparr>es_tails := (es_tails e1)[slot_of (ord es h) := so_prev (ord e1 h)]\<rparr>
        else upd_ord (so_next (ord e1 h)) (\<lambda>q. q\<lparr>so_prev := so_prev (ord e1 h)\<rparr>) e1)"
      unfolding e1_def p(2,3) by (simp only: xs_unlink_def Let_def slot_of_def)
    then show ?thesis by (simp add: e1(4,5) p e2_def)
  qed
  show "ord (xs_unlink h es) k =
     (if k = h then (ord es h)\<lparr>so_prev := kNil, so_next := kNil, so_resting := False\<rparr>
      else if pv \<noteq> kNil \<and> k = pv then (ord es pv)\<lparr>so_next := nx\<rparr>
      else if nx \<noteq> kNil \<and> k = nx then (ord es nx)\<lparr>so_prev := pv\<rparr> else ord es k)"
    using p(1) assms(6) by (simp add: u ord_upd e2 e1)
  have "es_relinked e2 (xs_unlink h es)" unfolding u using p(1) by (intro es_relinked_upd) (simp_all add: e2 terms_def)
  then show "es_relinked es (xs_unlink h es)" using e1(3) e2(3) es_relinked_trans by blast
  show "es_heads (xs_unlink h es) = (if pv = kNil then (es_heads es)[slot_of (ord es h) := nx] else es_heads es)"
    "es_tails (xs_unlink h es) = (if nx = kNil then (es_tails es)[slot_of (ord es h) := pv] else es_tails es)"
    by (simp_all add: u e2_def e1_def)
qed

lemma es_at_unlink:
  assumes at: "es_at X ws es" and s: "s < kSlots" and ws: "ws s = xs @ h # ys"
  shows "es_at (insert h X) (ws(s := xs @ ys)) (xs_unlink h es)" "es_relinked es (xs_unlink h es)"
proof -
  let ?es = "xs_unlink h es" and ?pv = "so_prev (ord es h)" and ?nx = "so_next (ord es h)"
  note dl = es_at_list [OF at]
  have h: "is_live es h" "h \<notin> X" "slot_of (ord es h) = s" using dl(2) [OF s, of h] ws by simp_all
  have d: "dlist (prevs es) (nexts es) kNil (es_heads es ! s) (es_tails es ! s) (xs @ h # ys)"
    using dl(1) [OF s] ws by simp
  then have ends: "?pv = last_of kNil xs" "?nx = first_of ys kNil" and dist: "distinct (xs @ h # ys)" "kNil \<notin> set (xs @ h # ys)"
    by (simp_all add: dlist_def seg_append prevs_def nexts_def)
  have pvx: "?pv \<noteq> kNil \<Longrightarrow> ?pv \<in> set xs" using ends(1) by (cases "xs = []") (auto simp: last_of_nonempty)
  have nxy: "?nx \<noteq> kNil \<Longrightarrow> ?nx \<in> set ys" using ends(2) by (cases ys) auto
  have pool: "in_pool es k" if "k \<in> set (xs @ ys)" for k
    using that dl(2) [OF s, of k] ws live_in_pool by auto
  note l = ord_unlink [OF live_in_pool [OF h(1)] refl refl, unfolded h(3)]
  have side: "?pv \<noteq> kNil \<Longrightarrow> in_pool es ?pv \<and> ?pv \<noteq> h" "?nx \<noteq> kNil \<Longrightarrow> in_pool es ?nx \<and> ?nx \<noteq> h" "?pv \<noteq> kNil \<Longrightarrow> ?pv \<noteq> ?nx"
    using pvx nxy pool dist by (auto; metis disjoint_iff)+
  note l = l [OF side]
  show r: "es_relinked es ?es" by (rule l(2))
  have len: "length (es_heads es) = kSlots" "length (es_tails es) = kSlots"
    using at by (simp_all add: es_at_def lists_at_def)
  have "dlist (prevs ?es) (nexts ?es) kNil (es_heads ?es ! z) (es_tails ?es ! z) ((ws(s := xs @ ys)) z)"
    if z: "z < kSlots" for z
  proof (cases "z = s")
    case True
    have "dlist (prevs ?es) (nexts ?es) kNil (if prevs es h = kNil then nexts es h else es_heads es ! s)
       (if nexts es h = kNil then prevs es h else es_tails es ! s) (xs @ ys)"
    proof (rule dlist_unlink [OF d])
      fix y assume y: "y \<in> set (xs @ ys)"
      have "y \<noteq> kNil" "y \<noteq> h" using y dist by auto
      then show "prevs ?es y = (if y = nexts es h then prevs es h else prevs es y)"
          "nexts ?es y = (if y = prevs es h then nexts es h else nexts es y)"
        using side(3) by (auto simp: prevs_def nexts_def l(1))
    qed
    then show ?thesis using True len s by (simp add: l(3,4) prevs_def nexts_def split: if_splits)
  next
    case False
    have "k \<notin> set (ws z)" if "k \<in> set (xs @ h # ys)" for k
      using that dl(2) [OF s, of k] dl(2) [OF z, of k] False ws by auto
    then have "dlist (prevs ?es) (nexts ?es) kNil (es_heads es ! z) (es_tails es ! z) (ws z) =
        dlist (prevs es) (nexts es) kNil (es_heads es ! z) (es_tails es ! z) (ws z)"
      using pvx nxy by (intro dlist_cong) (auto simp: prevs_def nexts_def l(1))
    then show ?thesis using False dl(1) [OF z] by (simp add: l(3,4))
  qed
  moreover have "k \<in> set ((ws(s := xs @ ys)) z) \<longleftrightarrow> is_live ?es k \<and> k \<notin> insert h X \<and> slot_of (ord ?es k) = z"
    if "z < kSlots" for z k
    using dl(2) [OF that, of k] dl(2) [OF s, of k] h(3) ws dist
    by (auto simp: es_relinkedD [OF r] terms_eqD(2) [OF es_relinkedD(3) [OF r]])
  ultimately have "lists_at (insert h X) (ws(s := xs @ ys)) ?es" using len by (simp add: lists_at_def l(3,4))
  then show "es_at (insert h X) (ws(s := xs @ ys)) ?es"
  proof (rule es_at_moved [OF at r])
    fix k assume "is_live es k"
    then show "so_resting (ord ?es k) = (k \<notin> insert h X)"
      using es_at_order(2) [OF at, of k] by (auto simp: l(1))
  qed
qed

section \<open>Shrinking the queue behind an order\<close>

text \<open>What a request handler leaves alone: the books, the clock and the request queue.\<close>

definition sim_kept :: "ExchangeSim \<Rightarrow> ExchangeSim \<Rightarrow> bool" where
  "sim_kept es es' \<longleftrightarrow> es_clock es' = es_clock es \<and> es_books es' = es_books es \<and> es_cfg es' = es_cfg es \<and>
     es_requests es' = es_requests es \<and> es_req_head es' = es_req_head es \<and> es_queued es' = es_queued es \<and>
     es_reserved es' = es_reserved es \<and> reported es es'"

lemma sim_kept_refl [simp]: "sim_kept es es"
  by (simp add: sim_kept_def reported_refl)

lemma sim_kept_trans: "sim_kept a b \<Longrightarrow> sim_kept b c \<Longrightarrow> sim_kept a c"
  by (fastforce simp: sim_kept_def reported_def)

lemma sim_kept_upd [simp]: "sim_kept a (upd_ord h f b) = sim_kept a b" "sim_kept a (b\<lparr>es_by_token := t\<rparr>) = sim_kept a b"
  "sim_kept a (b\<lparr>es_orders := p\<rparr>) = sim_kept a b" "sim_kept a (b\<lparr>es_next_ref := r\<rparr>) = sim_kept a b"
  "sim_kept a (b\<lparr>es_fills := n, es_match := m\<rparr>) = sim_kept a b"
  by (simp_all add: sim_kept_def reported_def pending_def report_ring_def)

lemma emits_sim_kept: "emits es es' \<Longrightarrow> sim_kept es es'"
  by (simp add: sim_kept_def emitsD) (simp add: emits_def)

definition shrunk :: "Price \<Rightarrow> Qty \<Rightarrow> SimOrder \<Rightarrow> SimOrder" where
  "shrunk price removed ob =
     (if so_price ob = price then ob\<lparr>so_ahead := so_ahead ob - min (so_ahead ob) (ucast removed)\<rparr> else ob)"

lemma shrunk_simps [simp]:
  "so_prev (shrunk p q ob) = so_prev ob" "so_next (shrunk p q ob) = so_next ob" "so_token (shrunk p q ob) = so_token ob"
  "so_resting (shrunk p q ob) = so_resting ob" "so_price (shrunk p q ob) = so_price ob" "so_leaves (shrunk p q ob) = so_leaves ob"
  "so_filled (shrunk p q ob) = so_filled ob" "so_locate (shrunk p q ob) = so_locate ob" "so_side (shrunk p q ob) = so_side ob"
  "so_tif (shrunk p q ob) = so_tif ob" "slot_of (shrunk p q ob) = slot_of ob" "sim_order_ok (shrunk p q ob) = sim_order_ok ob" "shrunk p 0 ob = ob"
  by (simp_all add: shrunk_def slot_of_def sim_order_ok_def)

text \<open>A step that only writes orders and reports, with the resulting contents of the pool.\<close>

definition rewritten :: "(Handle \<Rightarrow> SimOrder) \<Rightarrow> ExchangeSim \<Rightarrow> ExchangeSim \<Rightarrow> bool" where
  "rewritten g es es' \<longleftrightarrow> sim_kept es es' \<and> es_by_token es' = es_by_token es \<and> es_heads es' = es_heads es \<and>
     es_tails es' = es_tails es \<and> is_live es' = is_live es \<and> in_pool es' = in_pool es \<and>
     sp_capacity (es_orders es') = sp_capacity (es_orders es) \<and> (pool_at es \<longrightarrow> pool_at es') \<and> ord es' = g"

lemma rewritten_refl: "rewritten (ord es) es es"
  by (simp add: rewritten_def)

lemma rewritten_trans: "rewritten f a b \<Longrightarrow> rewritten g b c \<Longrightarrow> rewritten g a c"
  by (auto simp: rewritten_def intro: sim_kept_trans)

lemma rewritten_upd: "in_pool es h \<Longrightarrow> rewritten ((ord es)(h := f (ord es h))) es (upd_ord h f es)"
proof -
  assume h: "in_pool es h"
  have "sp_capacity (es_orders (upd_ord h f es)) = sp_capacity (es_orders es)"
    by (simp add: upd_ord_def)
  then show ?thesis using h upd_ord_stack [of es h f] by (simp add: rewritten_def fun_eq_iff ord_upd)
qed

lemma rewrittenD:
  assumes "rewritten g es es'"
  shows "is_live es' = is_live es" "in_pool es' = in_pool es" "ord es' = g" "es_by_token es' = es_by_token es"
    "es_heads es' = es_heads es" "es_tails es' = es_tails es" "sim_kept es es'"
    "sp_capacity (es_orders es') = sp_capacity (es_orders es)" "pool_at es \<Longrightarrow> pool_at es'"
  using assms by (simp_all add: rewritten_def)

lemma rewritten_same:
  assumes "same_store es es'" "sim_kept es es'"
  shows "rewritten (ord es) es es'"
proof -
  have "es_orders es' = es_orders es" using assms(1) by (simp add: same_store_def)
  then show ?thesis using assms same_storeD [OF assms(1)] by (simp add: rewritten_def pool_at_def)
qed

lemma rewritten_emit: "emits es es' \<Longrightarrow> rewritten (ord es) es es'"
  by (simp add: rewritten_same emitsD emits_sim_kept)

text \<open>The fields that decide where an order is filed.\<close>

definition same_place :: "SimOrder \<Rightarrow> SimOrder \<Rightarrow> bool" where
  "same_place a b \<longleftrightarrow> so_token a = so_token b \<and> slot_of a = slot_of b \<and> so_prev a = so_prev b \<and> so_next a = so_next b \<and>
     so_resting a = so_resting b"

lemma es_at_rewritten:
  assumes at: "es_at X ws es" and r: "rewritten g es es'"
    and g: "\<And>k. is_live es k \<Longrightarrow> same_place (g k) (ord es k) \<and> sim_order_ok (g k)"
  shows "es_at X ws es'"
proof -
  note d = rewrittenD [OF r]
  have "table_at es'" using at g by (auto simp: es_at_def table_at_def d same_place_def)
  moreover have "orders_at X es'" using at g by (auto simp: es_at_def orders_at_def d same_place_def)
  moreover have "dlist (prevs es') (nexts es') kNil (es_heads es ! s) (es_tails es ! s) (ws s)" if "s < kSlots" for s
    using es_at_list [OF at that] g
    by (subst dlist_cong [of "ws s" "prevs es'" "prevs es" "nexts es'" "nexts es"])
      (auto simp: prevs_def nexts_def d same_place_def)
  then have "lists_at X ws es'" using at g by (auto simp: es_at_def lists_at_def d same_place_def)
  ultimately show ?thesis using at d(9) by (simp add: es_at_def)
qed

lemma shrink_from_exact:
  assumes "seg (prevs es) (nexts es) p js kNil" "distinct js" "kNil \<notin> set js" "\<And>k. k \<in> set js \<Longrightarrow> in_pool es k"
  shows "\<exists>es'. shrink_from price q (first_of js kNil) es = Some es' \<and>
    rewritten (\<lambda>k. if k \<in> set js then shrunk price q (ord es k) else ord es k) es es'"
  using assms
proof (induction js arbitrary: es p)
  case Nil
  then show ?case using rewritten_refl [of es] by (subst shrink_from.simps) simp
next
  case (Cons j js)
  define e where "e = (if so_price (ord es j) = price
     then upd_ord j (\<lambda>f. f\<lparr>so_ahead := so_ahead f - min (so_ahead f) (ucast q)\<rparr>) es else es)"
  have jp: "in_pool es j" using Cons.prems(4) by simp
  have "rewritten ((ord es)(j := shrunk price q (ord es j))) es e"
    using rewritten_upd [OF jp, of "\<lambda>f. f\<lparr>so_ahead := so_ahead f - min (so_ahead f) (ucast q)\<rparr>"] rewritten_refl [of es]
    by (simp add: e_def shrunk_def)
  note e = this rewrittenD [OF this]
  have n: "so_next (ord e j) = first_of js kNil" "j \<noteq> kNil" using Cons.prems(1,3) by (auto simp: e(4) nexts_def)
  have "seg (prevs e) (nexts e) j js kNil = seg (prevs es) (nexts es) j js kNil"
    by (rule seg_cong) (simp add: prevs_def nexts_def e(4))
  then have "\<exists>es'. shrink_from price q (first_of js kNil) e = Some es' \<and>
     rewritten (\<lambda>k. if k \<in> set js then shrunk price q (ord e k) else ord e k) e es'"
    using Cons.prems by (intro Cons.IH) (simp_all add: e(3))
  then obtain es' where es': "shrink_from price q (first_of js kNil) e = Some es'"
    "rewritten (\<lambda>k. if k \<in> set js then shrunk price q (ord e k) else ord e k) e es'"
    by blast
  have "shrink_from price q (first_of (j # js) kNil) es = Some es'"
    using es'(1) n unfolding e_def by (subst shrink_from.simps) (simp only: Let_def first_of.simps if_False)
  moreover have "(\<lambda>k. if k \<in> set js then shrunk price q (ord e k) else ord e k) =
      (\<lambda>k. if k \<in> set (j # js) then shrunk price q (ord es k) else ord es k)"
    using Cons.prems(2) by (auto simp: fun_eq_iff e(4))
  ultimately show ?case using rewritten_trans [OF e(1) es'(2)] by (auto simp only:)
qed

lemma es_at_shrink:
  assumes at: "es_at X ws es" and s: "s < kSlots" and ws: "ws s = xs @ h # ys"
  shows "\<exists>es'. xs_shrink_followers h q es = Some es' \<and> es_at X ws es' \<and>
    rewritten (\<lambda>k. if k \<in> set ys then shrunk (so_price (ord es h)) q (ord es k) else ord es k) es es'"
proof -
  have d: "dlist (prevs es) (nexts es) kNil (es_heads es ! s) (es_tails es ! s) (xs @ h # ys)"
    using es_at_list(1) [OF at s] ws by simp
  then have "seg (prevs es) (nexts es) h ys kNil" "distinct ys" "kNil \<notin> set ys" "so_next (ord es h) = first_of ys kNil"
    by (simp_all add: dlist_def seg_append nexts_def)
  moreover have "in_pool es k" if "k \<in> set ys" for k using that es_at_list(2) [OF at s, of k] ws live_in_pool by simp
  ultimately obtain es' where es': "xs_shrink_followers h q es = Some es'"
    "rewritten (\<lambda>k. if k \<in> set ys then shrunk (so_price (ord es h)) q (ord es k) else ord es k) es es'"
    using shrink_from_exact [of es h ys "so_price (ord es h)" q] by (auto simp: xs_shrink_followers_def)
  have "es_at X ws es'" by (rule es_at_rewritten [OF at es'(2)]) (auto simp: same_place_def es_at_order(1) [OF at])
  then show ?thesis using es' by blast
qed

section \<open>Removing an order\<close>

lemma es_relinked_kept: "es_relinked es es' \<Longrightarrow> sim_kept es es'"
  unfolding sim_kept_def es_relinked_def reported_def pending_def report_ring_def
  by (elim conjE, intro conjI) (erule ssubst, simp)+

lemma es_at_drop:
  assumes at: "es_at X ws es" and h: "is_live es h" "h \<in> X"
    and es': "es' = es\<lparr>es_by_token := fst (fhm_erase TokenHash (es_by_token es) (so_token (ord es h))),
      es_orders := sp_release h (es_orders es)\<rparr>"
  shows "es_at (X - {h}) ws es'" "is_live es' k = (is_live es k \<and> k \<noteq> h)" "ord es' = ord es" "sim_kept es es'"
proof -
  have pa: "pool_at es" and ta: "table_at es" using at by (simp_all add: es_at_def)
  have lv: "is_live es' k = (is_live es k \<and> k \<noteq> h)" and pl: "pool_at es'" for k
  proof -
    have "pool_ok (es_orders es) (live_set (es_orders es))" using pa by (auto simp: pool_at_def pool_ok_def)
    from pool.release_ok [OF this, of h] have r: "pool_ok (es_orders es') (live_set (es_orders es) - {h})" by (simp add: es')
    then show "pool_at es'" by (auto simp: pool_at_def pool_ok_def)
    have "live_set (es_orders es') = live_set (es_orders es) - {h}" using r by (simp add: pool_ok_def)
    then show "is_live es' k = (is_live es k \<and> k \<noteq> h)" by (simp add: is_live_def live_set_def set_eq_iff)
  qed
  have o: "ord es' = ord es" by (simp add: es' ord_def fun_eq_iff sp_release_frame)
  have inv: "fhm_inv TokenHash (es_by_token es)" using ta by (simp add: table_at_def)
  have tk: "fhm_find TokenHash (es_by_token es) t = Some k \<longleftrightarrow> is_live es k \<and> so_token (ord es k) = t" for t k
    using ta by (simp add: table_at_def)
  have "fhm_map (es_by_token es) (so_token (ord es h)) = Some h" using tk h(1) inv by (simp add: fhm_find_map)
  then obtain t' where t': "fhm_erase TokenHash (es_by_token es) (so_token (ord es h)) = (t', True)" "fhm_inv TokenHash t'"
    "fhm_map t' = (fhm_map (es_by_token es))(so_token (ord es h) := None)" "fhm_max t' = fhm_max (es_by_token es)"
    using fhm_erase_present [OF inv] by metis
  have find: "fhm_find TokenHash (es_by_token es') t =
      (if t = so_token (ord es h) then None else fhm_find TokenHash (es_by_token es) t)" for t
    using t' inv by (simp add: es' fhm_find_map)
  have one: "k = h" if "is_live es k" "so_token (ord es k) = so_token (ord es h)" for k
    using that tk [of _ k] tk [of _ h] h(1) by (metis option.inject)
  have "table_at es'"
    unfolding table_at_def
  proof (intro conjI allI)
    show "fhm_inv TokenHash (es_by_token es')" using t' by (simp add: es')
    show "fhm_max (es_by_token es') = sp_capacity (es_orders es')"
      using ta t' by (simp add: es' table_at_def sp_release_frame)
    show "(fhm_find TokenHash (es_by_token es') t = Some k) = (is_live es' k \<and> so_token (ord es' k) = t)" for t k
      using tk [of t k] one [of k] h(1) by (auto simp: find lv o)
  qed
  moreover have "prevs es' = prevs es" "nexts es' = nexts es" "es_heads es' = es_heads es" "es_tails es' = es_tails es"
    by (simp_all add: prevs_def nexts_def o fun_eq_iff) (simp_all add: es')
  then have "lists_at (X - {h}) ws es'" using at h(2) by (auto simp: es_at_def lists_at_def lv o)
  moreover have "orders_at (X - {h}) es'" using at by (auto simp: es_at_def orders_at_def lv o)
  ultimately show "es_at (X - {h}) ws es'" using pl by (simp add: es_at_def)
  show "is_live es' k = (is_live es k \<and> k \<noteq> h)" "ord es' = ord es" using lv o by simp_all
  show "sim_kept es es'" by (simp add: es')
qed

lemma remove_working:
  assumes at: "es_at X ws es" and h: "is_live es h" "h \<in> X"
  shows "\<exists>es'. xs_remove_order h es = Some es' \<and> es_at (X - {h}) ws es' \<and> (\<forall>k. is_live es' k = (is_live es k \<and> k \<noteq> h)) \<and>
    ord es' = ord es \<and> sim_kept es es'"
  using es_at_drop [OF at h refl] es_at_order(2) [OF at h(1)] h(2) by (auto simp: xs_remove_order_def)

lemma remove_resting:
  assumes at: "es_at X ws es" and s: "s < kSlots" and ws: "ws s = xs @ h # ys"
  shows "\<exists>es'. xs_remove_order h es = Some es' \<and> es_at X (ws(s := xs @ ys)) es' \<and>
    (\<forall>k. is_live es' k = (is_live es k \<and> k \<noteq> h)) \<and> sim_kept es es' \<and>
    (\<forall>k. terms (ord es' k) =
       terms (if k \<in> set ys then shrunk (so_price (ord es h)) (so_leaves (ord es h)) (ord es k) else ord es k))"
proof -
  have h: "is_live es h" "h \<notin> X" using es_at_list(2) [OF at s, of h] ws by simp_all
  obtain e1 where e1: "xs_shrink_followers h (so_leaves (ord es h)) es = Some e1" "es_at X ws e1"
    "rewritten (\<lambda>k. if k \<in> set ys then shrunk (so_price (ord es h)) (so_leaves (ord es h)) (ord es k) else ord es k) es e1"
    using es_at_shrink [OF at s ws] by blast
  note u = es_at_unlink [OF e1(2) s ws]
  let ?e2 = "xs_unlink h e1"
  have l2: "is_live ?e2 k = is_live es k" for k using es_relinkedD(1) [OF u(2)] rewrittenD(1) [OF e1(3)] by simp
  then have h2: "is_live ?e2 h" "h \<in> insert h X" using h by simp_all
  note d = es_at_drop [OF u(1) h2 refl]
  have "X = insert h X - {h}" using h(2) by auto
  moreover have "sim_kept es ?e2" using rewrittenD(7) [OF e1(3)] es_relinked_kept [OF u(2)] by (rule sim_kept_trans)
  moreover have "xs_remove_order h es = Some (?e2\<lparr>es_by_token := fst (fhm_erase TokenHash (es_by_token ?e2) (so_token (ord ?e2 h))),
      es_orders := sp_release h (es_orders ?e2)\<rparr>)"
    using es_at_order(2) [OF at h(1)] h(2) e1(1) by (simp add: xs_remove_order_def)
  ultimately show ?thesis
    using d l2 es_relinkedD(3) [OF u(2)] rewrittenD(3) [OF e1(3)] by (auto intro: sim_kept_trans)
qed

end
