(* ===== verification/Sim_Queue.thy ===== *)
theory Sim_Queue
  imports Exchange_Sim_Inv
begin

text \<open>
  Queue positions. A list of our orders on one side of an instrument, in arrival order, is a fair queue
  when every order has in front of it (\<^verbatim>\<open>ahead\<close>) the whole of each earlier order at its price, and never
  more than a displayed quantity plus what is left of those earlier orders. The operations of the
  simulator on its lists are stated here on lists of orders, as numbers rather than machine words.
\<close>

definition lv :: "SimOrder \<Rightarrow> nat" where "lv ob = unat (so_leaves ob)"
definition ah :: "SimOrder \<Rightarrow> nat" where "ah ob = unat (so_ahead ob)"

definition fifo :: "SimOrder \<Rightarrow> SimOrder \<Rightarrow> bool" where
  "fifo x y \<longleftrightarrow> (so_price x = so_price y \<longrightarrow> ah x + lv x \<le> ah y)"

text \<open>The shares of our own orders at a price.\<close>

definition ours :: "Price \<Rightarrow> SimOrder list \<Rightarrow> nat" where
  "ours p obs = (\<Sum>x\<leftarrow>obs. if so_price x = p then lv x else 0)"

lemma ours_simps [simp]:
  "ours p [] = 0" "ours p (x # xs) = (if so_price x = p then lv x else 0) + ours p xs"
  "ours p (xs @ ys) = ours p xs + ours p ys"
  by (simp_all add: ours_def)

text \<open>The most that may be ahead at each price, once \<open>x\<close> has joined.\<close>

definition bump :: "(Price \<Rightarrow> nat) \<Rightarrow> SimOrder \<Rightarrow> Price \<Rightarrow> nat" where
  "bump w x p = w p + (if so_price x = p then lv x else 0)"

primrec within :: "(Price \<Rightarrow> nat) \<Rightarrow> SimOrder list \<Rightarrow> bool" where
  "within w [] = True"
| "within w (x # xs) = (ah x \<le> w (so_price x) \<and> within (bump w x) xs)"

definition queue_ok :: "SimOrder list \<Rightarrow> bool" where
  "queue_ok obs \<longleftrightarrow> sorted_wrt fifo obs \<and> within (\<lambda>_. 2 ^ 32) obs"

lemma within_append: "within w (xs @ ys) \<longleftrightarrow> within w xs \<and> within (\<lambda>p. w p + ours p xs) ys"
proof (induction xs arbitrary: w)
  case (Cons x xs)
  have "(\<lambda>p. bump w x p + ours p xs) = (\<lambda>p. w p + ours p (x # xs))"
    by (simp add: fun_eq_iff bump_def)
  then show ?case using Cons.IH by simp
qed simp

lemma within_mono: "within w xs \<Longrightarrow> (\<And>p. w p \<le> w' p) \<Longrightarrow> within w' xs"
proof (induction xs arbitrary: w w')
  case (Cons x xs)
  have "within (bump w x) xs" "bump w x p \<le> bump w' x p" for p using Cons.prems by (simp, simp add: bump_def)
  then have "within (bump w' x) xs" by (rule Cons.IH)
  then show ?case using Cons.prems(1) Cons.prems(2) [of "so_price x"] by simp
qed simp

text \<open>Only prices, open quantities and positions matter.\<close>

lemma terms_num: "terms a = terms b \<Longrightarrow> lv a = lv b \<and> ah a = ah b \<and> so_price a = so_price b"
  using terms_eqD [of a b] by (simp add: lv_def ah_def)

lemma queue_ok_cong:
  assumes "map terms xs = map terms ys"
  shows "queue_ok xs = queue_ok ys"
proof -
  have l: "list_all2 (\<lambda>a b. terms a = terms b) xs ys" using assms by (simp add: list_all2_conv_all_nth list_eq_iff_nth_eq)
  then have "within w xs = within w ys" for w
  proof (induction arbitrary: w rule: list_all2_induct)
    case (Cons x xs y ys)
    have "bump w x = bump w y" using terms_num [OF Cons.hyps(1)] by (simp add: bump_def fun_eq_iff)
    then show ?case using terms_num [OF Cons.hyps(1)] Cons.IH by simp
  qed simp
  moreover have "fifo (xs ! i) (xs ! j) = fifo (ys ! i) (ys ! j)" if "i < j" "j < length xs" for i j
    using list_all2_nthD [OF l, of i] list_all2_nthD [OF l, of j] that terms_num [of "xs ! i" "ys ! i"] terms_num [of "xs ! j" "ys ! j"]
    by (simp add: fifo_def)
  then have "sorted_wrt fifo xs = sorted_wrt fifo ys"
    using list_all2_lengthD [OF l] by (auto simp: sorted_wrt_iff_nth_less)
  ultimately show ?thesis by (simp add: queue_ok_def)
qed

lemma within_bound:
  assumes "within w xs" "x \<in> set xs" "\<And>y. y \<in> set xs \<Longrightarrow> lv y \<le> M"
  shows "ah x \<le> w (so_price x) + M * length xs"
  using assms
proof (induction xs arbitrary: w)
  case (Cons a xs)
  show ?case
  proof (cases "x = a")
    case False
    then have "ah x \<le> bump w a (so_price x) + M * length xs"
      using Cons.prems by (intro Cons.IH) auto
    also have "\<dots> \<le> w (so_price x) + M * length (a # xs)" using Cons.prems(3) [of a] by (simp add: bump_def)
    finally show ?thesis .
  qed (use Cons.prems in auto)
qed simp

lemma ours_bound: "(\<And>y. y \<in> set xs \<Longrightarrow> lv y \<le> M) \<Longrightarrow> ours p xs \<le> M * length xs"
  by (induction xs) (auto simp: le_add1 add_le_mono trans_le_add2)

section \<open>The operations on a fair queue\<close>

lemma queue_join:
  assumes "queue_ok obs" "disp \<le> 2 ^ 32"
    and "ah ob = Max (insert (disp + ours (so_price ob) obs) {ah x + lv x |x. x \<in> set obs \<and> so_price x = so_price ob})"
  shows "queue_ok (obs @ [ob])"
proof -
  let ?S = "{ah x + lv x |x. x \<in> set obs \<and> so_price x = so_price ob}"
  have fin: "finite ?S" by simp
  have "ah x + lv x \<le> ah ob" if "x \<in> set obs" "so_price x = so_price ob" for x
    using that assms(3) fin by (auto intro!: Max_ge)
  then have "\<forall>x \<in> set obs. fifo x ob" by (auto simp: fifo_def)
  moreover have "ah x + lv x \<le> 2 ^ 32 + ours p obs" if x: "x \<in> set obs" "so_price x = p" for x p
  proof -
    obtain xs ys where sp: "obs = xs @ x # ys" using split_list [OF x(1)] by blast
    then have "ah x \<le> 2 ^ 32 + ours p xs" using assms(1) x(2) by (simp add: queue_ok_def within_append)
    then show ?thesis using sp x(2) by simp
  qed
  then have "ah ob \<le> 2 ^ 32 + ours (so_price ob) obs" using assms(2,3) fin by (auto simp: Max_le_iff)
  ultimately show ?thesis using assms(1) by (auto simp: queue_ok_def sorted_wrt_append within_append)
qed

lemma queue_drop:
  assumes "queue_ok (xs @ h # ys)" "lv h = 0"
  shows "queue_ok (xs @ ys)"
proof -
  have "(\<lambda>p. 2 ^ 32 + ours p (xs @ [h])) = (\<lambda>p. 2 ^ 32 + ours p xs)" using assms(2) by (auto simp: fun_eq_iff)
  then have "within (\<lambda>p. 2 ^ 32 + ours p xs) ys"
    using assms(1) within_append [of "\<lambda>_. 2 ^ 32" "xs @ [h]" ys] by (simp add: queue_ok_def)
  then show ?thesis using assms(1) by (auto simp: queue_ok_def sorted_wrt_append within_append)
qed

lemma shrunk_num:
  assumes "unat q \<le> ah y" "so_price y = p"
  shows "ah (shrunk p q y) = ah y - unat q"
proof -
  have u: "unat (ucast q :: u64) = unat q" using unsigned_less [of q, where 'a = nat] by (intro unat_ucast_small) simp
  then have "(ucast q :: u64) \<le> so_ahead y" using assms(1) by (simp add: word_le_nat_alt ah_def)
  then have "min (so_ahead y) (ucast q) = ucast q" by (rule min_absorb2)
  then show ?thesis using assms u by (simp add: shrunk_def ah_def unat_minus_le word_le_nat_alt)
qed

lemma shrunk_other: "so_price y \<noteq> p \<Longrightarrow> shrunk p q y = y"
  by (simp add: shrunk_def)

lemma shrunk_lv [simp]: "lv (shrunk p q y) = lv y"
  by (simp add: lv_def)

lemma within_shrunk:
  assumes "within w ys" "w p = w' p + unat q" "\<And>r. r \<noteq> p \<Longrightarrow> w' r = w r"
    and "\<And>y. y \<in> set ys \<Longrightarrow> so_price y = p \<Longrightarrow> unat q \<le> ah y"
  shows "within w' (map (shrunk p q) ys)"
  using assms
proof (induction ys arbitrary: w w')
  case (Cons y ys)
  have "bump w' (shrunk p q y) = bump w' y" by (simp add: bump_def fun_eq_iff)
  moreover have "within (bump w y) ys" "bump w y p = bump w' y p + unat q" "r \<noteq> p \<Longrightarrow> bump w' y r = bump w y r" for r
    using Cons.prems(1) by simp (use Cons.prems(2,3) in \<open>simp_all add: bump_def\<close>)
  then have "within (bump w' y) (map (shrunk p q) ys)"
    using Cons.prems(4) by (intro Cons.IH [of "bump w y"]) simp_all
  moreover have "ah (shrunk p q y) \<le> w' (so_price y)"
    using Cons.prems(1-3) Cons.prems(4) [of y] by (cases "so_price y = p") (auto simp: shrunk_num shrunk_other)
  ultimately show ?case by simp
qed simp

lemma queue_reduce:
  assumes q: "queue_ok (xs @ h # ys)" "unat q \<le> lv h"
    and h': "so_price h' = so_price h" "ah h' = ah h" "lv h' = lv h - unat q"
  shows "queue_ok (xs @ h' # map (shrunk (so_price h) q) ys)"
proof -
  let ?p = "so_price h"
  have srt: "sorted_wrt fifo xs" "\<forall>x\<in>set xs. fifo x h \<and> (\<forall>y\<in>set ys. fifo x y)" "\<forall>y\<in>set ys. fifo h y" "sorted_wrt fifo ys"
    using q(1) by (auto simp: queue_ok_def sorted_wrt_append)
  have big: "ah h + lv h \<le> ah y" if "y \<in> set ys" "so_price y = ?p" for y using srt(3) that by (auto simp: fifo_def)
  then have sn: "ah (shrunk ?p q y) = ah y - unat q" if "y \<in> set ys" "so_price y = ?p" for y
    using that q(2) by (intro shrunk_num) fastforce+
  have keep: "fifo x (shrunk ?p q y)" if "y \<in> set ys" "fifo x h" "fifo x y" for x y
    using that sn [of y] big [of y] q(2) by (cases "so_price y = ?p") (auto simp: fifo_def shrunk_other)
  have "fifo h' (shrunk ?p q y)" if "y \<in> set ys" for y
    using srt(3) that sn [of y] big [of y] q(2) h' by (cases "so_price y = ?p") (auto simp: fifo_def shrunk_other)
  moreover have "fifo (shrunk ?p q x) (shrunk ?p q y)" if "x \<in> set ys" "y \<in> set ys" "fifo x y" for x y
    using that sn big q(2) by (cases "so_price y = ?p"; cases "so_price x = ?p") (fastforce simp: fifo_def shrunk_other)+
  then have "sorted_wrt fifo (map (shrunk ?p q) ys)"
    using srt(4) by (auto simp: sorted_wrt_map intro: sorted_wrt_mono_rel)
  moreover have "fifo x h'" if "x \<in> set xs" for x using srt(2) that h' by (auto simp: fifo_def)
  moreover have "within (\<lambda>p. 2 ^ 32 + ours p (xs @ [h'])) (map (shrunk ?p q) ys)"
    using q big h' within_append [of "\<lambda>_. 2 ^ 32" "xs @ [h]" ys]
    by (intro within_shrunk [of "\<lambda>p. 2 ^ 32 + ours p (xs @ [h])"]) (fastforce simp: queue_ok_def)+
  ultimately show ?thesis
    using q(1) srt h' keep within_append [of "\<lambda>_. 2 ^ 32" "xs @ [h']" "map (shrunk ?p q) ys"]
    by (auto simp: queue_ok_def sorted_wrt_append within_append)
qed

lemma within_filter_empty: "within w obs \<Longrightarrow> (\<And>x. x \<in> set obs \<Longrightarrow> \<not> P x \<Longrightarrow> lv x = 0) \<Longrightarrow> within w (filter P obs)"
proof (induction obs arbitrary: w)
  case (Cons x obs)
  have "bump w x = w" if "lv x = 0" using that by (simp add: bump_def fun_eq_iff)
  then show ?case using Cons by auto
qed simp

lemma queue_filter_empty:
  "queue_ok obs \<Longrightarrow> (\<And>x. x \<in> set obs \<Longrightarrow> \<not> P x \<Longrightarrow> lv x = 0) \<Longrightarrow> queue_ok (filter P obs)"
  by (simp add: queue_ok_def sorted_wrt_filter within_filter_empty)

lemma within_filter_prices: "within w obs \<Longrightarrow> (\<And>p. Q p \<Longrightarrow> w p \<le> w' p) \<Longrightarrow> within w' (filter (\<lambda>x. Q (so_price x)) obs)"
proof (induction obs arbitrary: w w')
  case (Cons x obs)
  have x: "ah x \<le> w (so_price x)" "within (bump w x) obs" using Cons.prems(1) by simp_all
  show ?case
  proof (cases "Q (so_price x)")
    case True
    have "within (bump w' x) (filter (\<lambda>x. Q (so_price x)) obs)"
      by (rule Cons.IH [OF x(2)]) (simp add: bump_def Cons.prems(2))
    then show ?thesis using True x(1) Cons.prems(2) [OF True] by simp
  next
    case False
    have "within w' (filter (\<lambda>x. Q (so_price x)) obs)"
      by (rule Cons.IH [OF x(2)]) (use False Cons.prems(2) in \<open>auto simp: bump_def\<close>)
    then show ?thesis using False by simp
  qed
qed simp

lemma queue_filter_prices: "queue_ok obs \<Longrightarrow> queue_ok (filter (\<lambda>x. Q (so_price x)) obs)"
  by (auto simp: queue_ok_def sorted_wrt_filter intro: within_filter_prices)

section \<open>A displayed execution\<close>

text \<open>What an execution of \<open>S\<close> shares at its level does to one of our orders there.\<close>

definition taken :: "Qty \<Rightarrow> SimOrder \<Rightarrow> Qty" where
  "taken S ob = (if ucast S \<le> so_ahead ob then 0 else ucast (min (ucast (so_leaves ob)) (ucast S - so_ahead ob :: u64)))"

definition consumed :: "Qty \<Rightarrow> SimOrder \<Rightarrow> SimOrder" where
  "consumed S ob = (if ucast S \<le> so_ahead ob then ob\<lparr>so_ahead := so_ahead ob - ucast S\<rparr>
     else ob\<lparr>so_ahead := 0, so_leaves := so_leaves ob - taken S ob, so_filled := so_filled ob + taken S ob\<rparr>)"

lemma unat_ucast_qty: "unat (ucast (q :: Qty) :: u64) = unat q"
  using unsigned_less [of q, where 'a = nat] by (intro unat_ucast_small) simp

lemma taken_num: "unat (taken S ob) = min (lv ob) (unat S - ah ob)"
proof (cases "ucast S \<le> so_ahead ob")
  case True
  then show ?thesis by (simp add: taken_def ah_def word_le_nat_alt unat_ucast_qty)
next
  case False
  then have le: "so_ahead ob \<le> ucast S" by simp
  have m: "unat (min a b) = min (unat a) (unat b)" for a b :: u64 by (simp add: min_def word_le_nat_alt)
  have "unat (min (ucast (so_leaves ob)) (ucast S - so_ahead ob :: u64)) = min (lv ob) (unat S - ah ob)"
    using le by (simp add: m unat_ucast_qty unat_minus_le lv_def ah_def)
  moreover have "min (lv ob) (unat S - ah ob) < 2 ^ 32"
    using unsigned_less [of "so_leaves ob", where 'a = nat] by (simp add: lv_def)
  ultimately show ?thesis using False by (simp add: taken_def unat_ucast_small)
qed

lemma consumed_num:
  "ah (consumed S ob) = ah ob - unat S" "lv (consumed S ob) = lv ob - (unat S - ah ob)" "so_price (consumed S ob) = so_price ob"
proof -
  have t: "unat (so_leaves ob - taken S ob) = lv ob - (unat S - ah ob)"
    using taken_num [of S ob] by (subst unat_minus_le) (auto simp: word_le_nat_alt lv_def)
  show "ah (consumed S ob) = ah ob - unat S"
    by (auto simp: consumed_def ah_def word_le_nat_alt unat_ucast_qty unat_minus_le)
  show "lv (consumed S ob) = lv ob - (unat S - ah ob)"
    using t by (auto simp: consumed_def word_le_nat_alt unat_ucast_qty lv_def ah_def)
  show "so_price (consumed S ob) = so_price ob" by (simp add: consumed_def)
qed

definition consume_list :: "Price \<Rightarrow> Qty \<Rightarrow> SimOrder list \<Rightarrow> SimOrder list" where
  "consume_list p S obs = map (\<lambda>x. if so_price x = p then consumed S x else x) obs"

text \<open>The fills of one execution add up to at most its shares, and go to our orders in arrival order.\<close>

lemma fills_bounded:
  assumes "sorted_wrt fifo obs" "\<And>x. x \<in> set obs \<Longrightarrow> so_price x = p \<Longrightarrow> a \<le> ah x"
  shows "(\<Sum>x\<leftarrow>obs. if so_price x = p then unat (taken S x) else 0) \<le> unat S - a"
  using assms
proof (induction obs arbitrary: a)
  case (Cons x obs)
  show ?case
  proof (cases "so_price x = p")
    case True
    have "(\<Sum>x\<leftarrow>obs. if so_price x = p then unat (taken S x) else 0) \<le> unat S - (ah x + lv x)"
      using Cons.prems(1) True by (intro Cons.IH) (auto simp: fifo_def)
    moreover have "a \<le> ah x" using Cons.prems(2) True by simp
    ultimately show ?thesis using True by (simp add: taken_num)
  qed (use Cons in auto)
qed simp

lemma ours_consumed:
  assumes "sorted_wrt fifo obs"
  shows "ours p obs \<le> ours p (consume_list p S obs) + unat S"
proof -
  have "ours p obs = ours p (consume_list p S obs) + (\<Sum>x\<leftarrow>obs. if so_price x = p then unat (taken S x) else 0)"
    by (induction obs) (auto simp: consume_list_def consumed_num taken_num)
  then show ?thesis using fills_bounded [OF assms, of p 0 S] by simp
qed

lemma ours_consumed_other: "r \<noteq> p \<Longrightarrow> ours r (consume_list p S obs) = ours r obs"
  by (induction obs) (auto simp: consume_list_def consumed_num)

lemma within_nth: "within w obs \<longleftrightarrow> (\<forall>i < length obs. ah (obs ! i) \<le> w (so_price (obs ! i)) + ours (so_price (obs ! i)) (take i obs))"
proof (induction obs rule: rev_induct)
  case (snoc x obs)
  then show ?case by (simp add: within_append nth_append less_Suc_eq all_conj_distrib imp_conjR)
qed simp

lemma queue_consume:
  assumes "queue_ok obs"
  shows "queue_ok (consume_list p S obs)"
proof -
  have srt: "sorted_wrt fifo obs" using assms by (simp add: queue_ok_def)
  have "sorted_wrt fifo (consume_list p S obs)"
    unfolding consume_list_def sorted_wrt_map
    by (rule sorted_wrt_mono_rel [OF _ srt]) (auto simp: fifo_def consumed_num)
  moreover have "within (\<lambda>_. 2 ^ 32) (consume_list p S obs)"
    unfolding within_nth
  proof (intro allI impI)
    fix i assume "i < length (consume_list p S obs)"
    then have i: "i < length obs" by (simp add: consume_list_def)
    have "ah (obs ! i) \<le> 2 ^ 32 + ours (so_price (obs ! i)) (take i obs)"
      using assms i by (simp add: queue_ok_def within_nth)
    moreover have "take i (consume_list p S obs) = consume_list p S (take i obs)" by (simp add: consume_list_def take_map)
    moreover have "sorted_wrt fifo (take i obs)" using srt by (rule sorted_wrt_take)
    note ours_consumed [OF this, of p S]
    ultimately show "ah (consume_list p S obs ! i) \<le>
        2 ^ 32 + ours (so_price (consume_list p S obs ! i)) (take i (consume_list p S obs))"
      using i by (cases "so_price (obs ! i) = p") (auto simp: consume_list_def consumed_num ours_consumed_other [unfolded consume_list_def])
  qed
  ultimately show ?thesis by (simp add: queue_ok_def)
qed

end
