(* ===== verification/Exchange_Sim_Steps.thy ===== *)
theory Exchange_Sim_Steps
  imports Sim_Queue
begin

text \<open>
  Every step of the simulator keeps \<open>sim_at\<close>: the storage invariant, no finished order among the working
  ones, and a fair queue per instrument and side. The lemmas also show that every loop over a list ends.
\<close>

definition sim_at :: "Handle set \<Rightarrow> (nat \<Rightarrow> Handle list) \<Rightarrow> ExchangeSim \<Rightarrow> bool" where
  "sim_at X ws es \<longleftrightarrow> es_at X ws es \<and> (\<forall>h. is_live es h \<and> h \<notin> X \<longrightarrow> so_leaves (ord es h) \<noteq> 0) \<and>
     (\<forall>s < kSlots. queue_ok (map (ord es) (ws s)))"

section \<open>Executions\<close>

definition executed :: "Qty \<Rightarrow> SimOrder \<Rightarrow> SimOrder" where
  "executed q ob = ob\<lparr>so_leaves := so_leaves ob - q, so_filled := so_filled ob + q\<rparr>"

lemma executed_simps [simp]:
  "so_token (executed q ob) = so_token ob" "so_price (executed q ob) = so_price ob" "so_side (executed q ob) = so_side ob"
  "so_locate (executed q ob) = so_locate ob" "so_tif (executed q ob) = so_tif ob" "slot_of (executed q ob) = slot_of ob"
  "so_prev (executed q ob) = so_prev ob" "so_next (executed q ob) = so_next ob" "so_resting (executed q ob) = so_resting ob"
  "same_place (executed q ob) x = same_place ob x"
  by (simp_all add: executed_def slot_of_def same_place_def)

lemma executed_ok:
  assumes "sim_order_ok ob" "q \<le> so_leaves ob"
  shows "sim_order_ok (executed q ob)"
proof -
  have n: "unat (so_leaves ob) + unat (so_filled ob) \<le> 999999" "unat q \<le> unat (so_leaves ob)"
    using assms by (simp_all add: sim_order_ok_def word_le_nat_alt)
  then have "unat (so_filled ob + q) = unat (so_filled ob) + unat q" by (intro unat_add_no_overflow) simp
  moreover have "unat (so_leaves ob - q) = unat (so_leaves ob) - unat q" using assms(2) by (rule unat_minus_le)
  ultimately show ?thesis using assms(1) n by (simp add: sim_order_ok_def executed_def)
qed

lemma emit_exact: "outbound_sized m \<Longrightarrow> \<exists>es'. xs_emit m es = Some es' \<and> rewritten (ord es) es es'"
  using xs_emit_returns [of m es] rewritten_emit by blast

lemma execute_exact:
  assumes h: "in_pool es h" "length (so_token (ord es h)) = 14"
  shows "\<exists>es'. xs_execute h q px liq es = Some es' \<and> rewritten ((ord es)(h := executed q (ord es h))) es es'"
proof -
  let ?e1 = "upd_ord h (\<lambda>ob. ob\<lparr>so_leaves := so_leaves ob - q, so_filled := so_filled ob + q\<rparr>) es"
  let ?e2 = "?e1\<lparr>es_fills := es_fills ?e1 + 1, es_match := es_match ?e1 + 1\<rparr>"
  have 1: "rewritten ((ord es)(h := executed q (ord es h))) es ?e1"
    unfolding executed_def by (rule rewritten_upd [OF h(1)])
  have 2: "rewritten (ord ?e1) ?e1 ?e2" by (rule rewritten_same) simp_all
  have "outbound_sized (OO_Executed \<lparr>ex_ts = es_clock ?e2, ex_token = so_token (ord ?e2 h), ex_shares = q, ex_price = px,
           ex_liquidity = liq, ex_match = es_match ?e2\<rparr>)"
    using h(2) rewrittenD(3) [OF 1] rewrittenD(3) [OF 2] by simp
  from emit_exact [OF this, of ?e2] obtain es' where es': "xs_execute h q px liq es = Some es'" "rewritten (ord ?e2) ?e2 es'"
    by (auto simp: xs_execute_def Let_def)
  have "ord ?e2 = (ord es)(h := executed q (ord es h))" using rewrittenD(3) [OF 1] rewrittenD(3) [OF 2] by simp
  then show ?thesis using es' rewritten_trans [OF 1 rewritten_trans [OF 2 es'(2)]] by auto
qed

lemma work_levels_exact:
  assumes "in_pool es h" "sim_order_ok (ord es h)"
  shows "\<exists>es' ob. work_levels n b i h es = Some es' \<and> rewritten ((ord es)(h := ob)) es es' \<and> same_place ob (ord es h) \<and>
    sim_order_ok ob \<and> so_price ob = so_price (ord es h) \<and> so_tif ob = so_tif (ord es h) \<and>
    so_locate ob = so_locate (ord es h) \<and> so_side ob = so_side (ord es h)"
  using assms
proof (induction n arbitrary: i es)
  case 0
  have "rewritten ((ord es)(h := ord es h)) es es" by (simp add: rewritten_refl)
  then show ?case using 0 by (fastforce simp: same_place_def)
next
  case (Suc n)
  let ?ob = "ord es h" and ?q = "min (so_leaves (ord es h)) (lv_qty (level b (opposite (so_side (ord es h))) i))"
  show ?case
  proof (cases "so_leaves ?ob > 0 \<and> crosses (so_side ?ob) (so_price ?ob) (lv_price (level b (opposite (so_side ?ob)) i))")
    case False
    have "rewritten ((ord es)(h := ?ob)) es es" by (simp add: rewritten_refl)
    then show ?thesis using Suc.prems False by (fastforce simp: same_place_def Let_def)
  next
    case True
    have "length (so_token ?ob) = 14" using Suc.prems(2) by (simp add: sim_order_ok_def)
    from execute_exact [OF Suc.prems(1) this] obtain e where
      e: "xs_execute h ?q (lv_price (level b (opposite (so_side ?ob)) i)) kRemoved es = Some e"
      "rewritten ((ord es)(h := executed ?q ?ob)) es e" by blast
    note d = rewrittenD [OF e(2)]
    have ok: "sim_order_ok (executed ?q ?ob)" using Suc.prems(2) by (rule executed_ok) simp
    then have "in_pool e h" "sim_order_ok (ord e h)" using Suc.prems(1) by (simp_all add: d)
    from Suc.IH [OF this, of "i + 1"] obtain es' ob where
      es': "work_levels n b (i + 1) h e = Some es'" "rewritten ((ord e)(h := ob)) e es'" "same_place ob (ord e h)"
      "sim_order_ok ob" "so_price ob = so_price (ord e h)" "so_tif ob = so_tif (ord e h)"
      "so_locate ob = so_locate (ord e h)" "so_side ob = so_side (ord e h)" by blast
    have "work_levels (Suc n) b i h es = Some es'" using True e(1) es'(1) by (simp add: Let_def)
    moreover have "rewritten ((ord es)(h := ob)) es es'" using rewritten_trans [OF e(2) es'(2)] by (simp add: d(3))
    moreover have "same_place ob ?ob" using es'(3) by (simp add: d(3) same_place_def executed_def slot_of_def)
    moreover have "so_price ob = so_price ?ob" "so_tif ob = so_tif ?ob" "so_locate ob = so_locate ?ob" "so_side ob = so_side ?ob"
      using es'(5-8) by (simp_all add: d(3))
    ultimately show ?thesis using es'(4) by blast
  qed
qed

text \<open>The loop that counts our own orders at the price.\<close>

lemma Max_insert_0: "finite S \<Longrightarrow> max a (Max (insert 0 S)) = Max (insert a S)" for a :: nat
  by (cases "S = {}") simp_all

lemma Max_insert_max: "finite S \<Longrightarrow> Max (insert (max a b) S) = Max (insert a (insert b S))" for a b :: nat
  by (cases "S = {}") (simp_all add: max.assoc)

lemma queue_from_exact:
  assumes "seg (prevs es) (nexts es) pv js kNil" "kNil \<notin> set js"
    and "unat a + ours p (map (ord es) js) < 2 ^ 64" "\<And>j. j \<in> set js \<Longrightarrow> ah (ord es j) + lv (ord es j) < 2 ^ 64"
  shows "\<exists>a' b'. queue_from es p (first_of js kNil) a b = Some (a', b') \<and> unat a' = unat a + ours p (map (ord es) js) \<and>
    unat b' = Max (insert (unat b) {ah x + lv x |x. x \<in> ord es ` set js \<and> so_price x = p})"
  using assms
proof (induction js arbitrary: a b pv)
  case Nil
  then show ?case by (subst queue_from.simps) simp
next
  case (Cons j js)
  let ?e = "ord es j"
  have n: "j \<noteq> kNil" "so_next ?e = first_of js kNil" "seg (prevs es) (nexts es) j js kNil" "kNil \<notin> set js"
    using Cons.prems(1,2) by auto (simp add: nexts_def)
  let ?S = "{ah x + lv x |x. x \<in> ord es ` set js \<and> so_price x = p}"
  show ?case
  proof (cases "so_price ?e = p")
    case False
    have "{ah x + lv x |x. x \<in> ord es ` set (j # js) \<and> so_price x = p} = ?S" using False by auto
    moreover have "queue_from es p (first_of (j # js) kNil) a b = queue_from es p (first_of js kNil) a b"
      using n False by (subst queue_from.simps) (simp add: Let_def)
    ultimately show ?thesis using Cons.IH [OF n(3,4), of a b] Cons.prems(3,4) False by simp
  next
    case True
    let ?a = "a + ucast (so_leaves ?e)" and ?b = "max b (so_ahead ?e + ucast (so_leaves ?e))"
    have ua: "unat ?a = unat a + lv ?e"
      using Cons.prems(3) True by (subst unat_add_no_overflow) (simp_all add: unat_ucast_qty lv_def)
    have "unat (so_ahead ?e + ucast (so_leaves ?e)) = ah ?e + lv ?e"
      using Cons.prems(4) [of j] by (subst unat_add_no_overflow) (simp_all add: unat_ucast_qty lv_def ah_def)
    then have ub: "unat ?b = max (unat b) (ah ?e + lv ?e)" by (simp add: max_def word_le_nat_alt)
    have "unat ?a + ours p (map (ord es) js) < 2 ^ 64" using Cons.prems(3) True ua by simp
    from Cons.IH [OF n(3,4) this, of ?b] Cons.prems(4) obtain a' b' where
      r: "queue_from es p (first_of js kNil) ?a ?b = Some (a', b')" "unat a' = unat ?a + ours p (map (ord es) js)"
      "unat b' = Max (insert (unat ?b) ?S)" by auto
    have S: "{ah x + lv x |x. x \<in> ord es ` set (j # js) \<and> so_price x = p} = insert (ah ?e + lv ?e) ?S" using True by auto
    have fin: "finite ?S" by simp
    note Max_insert_max [OF fin, of "unat b" "ah ?e + lv ?e"]
    then have "unat b' = Max (insert (unat b) {ah x + lv x |x. x \<in> ord es ` set (j # js) \<and> so_price x = p})"
      using r(3) by (simp only: ub S)
    moreover have "queue_from es p (first_of (j # js) kNil) a b = Some (a', b')"
      using n True r(1) by (subst queue_from.simps) (simp add: Let_def)
    ultimately show ?thesis using r(2) ua True by auto
  qed
qed

section \<open>Working an order\<close>

lemma sim_atD:
  assumes "sim_at X ws es"
  shows "es_at X ws es" "is_live es h \<Longrightarrow> h \<notin> X \<Longrightarrow> so_leaves (ord es h) \<noteq> 0" "s < kSlots \<Longrightarrow> queue_ok (map (ord es) (ws s))"
  using assms by (auto simp: sim_at_def)

lemma working_unlisted: "es_at X ws es \<Longrightarrow> h \<in> X \<Longrightarrow> s < kSlots \<Longrightarrow> h \<notin> set (ws s)"
  using es_at_list(2) by blast

lemma sim_at_write:
  assumes at: "sim_at X ws es" and h: "h \<in> X" and r: "rewritten ((ord es)(h := ob)) es e"
    and ob: "is_live es h \<Longrightarrow> same_place ob (ord es h) \<and> sim_order_ok ob"
  shows "sim_at X ws e"
proof -
  note a = sim_atD [OF at] and d = rewrittenD [OF r]
  have "es_at X ws e"
    by (rule es_at_rewritten [OF a(1) r]) (use ob es_at_order(1) [OF a(1)] in \<open>auto simp: same_place_def\<close>)
  moreover have "map (ord e) (ws s) = map (ord es) (ws s)" if "s < kSlots" for s
    using working_unlisted [OF a(1) h that] by (simp add: d(3))
  then have "queue_ok (map (ord e) (ws s))" if "s < kSlots" for s using a(3) [OF that] that by metis
  moreover have "so_leaves (ord e k) \<noteq> 0" if "is_live e k" "k \<notin> X" for k
    using that a(2) [of k] h by (cases "k = h") (simp_all add: d(1,3))
  ultimately show ?thesis by (simp add: sim_at_def)
qed

lemma sim_at_same: "same_store es es' \<Longrightarrow> sim_at X ws es' = sim_at X ws es"
  by (simp add: sim_at_def es_at_same same_storeD)

lemma sim_at_emit:
  assumes "sim_at X ws es" "outbound_sized m"
  shows "\<exists>es'. xs_emit m es = Some es' \<and> sim_at X ws es' \<and> sim_kept es es' \<and> same_store es es'"
  using xs_emit_returns [OF assms(2), of es] assms(1) emits_sim_kept emitsD(1) sim_at_same by blast

lemma drop_working:
  assumes at: "sim_at X ws es" and h: "is_live es h" "h \<in> X"
  shows "\<exists>es'. xs_remove_order h es = Some es' \<and> sim_at (X - {h}) ws es' \<and> sim_kept es es'"
proof -
  obtain es' where es': "xs_remove_order h es = Some es'" "es_at (X - {h}) ws es'"
    "\<forall>k. is_live es' k = (is_live es k \<and> k \<noteq> h)" "ord es' = ord es" "sim_kept es es'"
    using remove_working [OF sim_atD(1) [OF at] h] by blast
  then have "sim_at (X - {h}) ws es'" using sim_atD [OF at] by (auto simp: sim_at_def)
  then show ?thesis using es' by blast
qed

lemma list_small:
  assumes "es_at X ws es" "s < kSlots"
  shows "length (ws s) \<le> 2 ^ 32"
proof -
  have "distinct (ws s)" using es_at_list(1) [OF assms] by (simp add: dlist_def)
  then have "length (ws s) = card (set (ws s))" by (simp add: distinct_card)
  also have "\<dots> \<le> card (UNIV :: Handle set)" by (rule card_mono) simp_all
  finally show ?thesis by (simp add: card_word)
qed

lemma queue_sizes:
  assumes "sim_at X ws es" "s < kSlots"
  shows "ours p (map (ord es) (ws s)) \<le> 2 ^ 60" "j \<in> set (ws s) \<Longrightarrow> ah (ord es j) + lv (ord es j) \<le> 2 ^ 60"
proof -
  note a = sim_atD [OF assms(1)]
  have l: "lv x \<le> 999999" if x: "x \<in> set (map (ord es) (ws s))" for x
  proof -
    obtain k where "k \<in> set (ws s)" "x = ord es k" using x by auto
    then show ?thesis using es_at_list(2) [OF a(1) assms(2), of k] es_at_order(1) [OF a(1), of k] by (simp add: sim_order_ok_def lv_def)
  qed
  have n: "length (ws s) \<le> 4294967296" using list_small [OF a(1) assms(2)] by simp
  show "ours p (map (ord es) (ws s)) \<le> 2 ^ 60" using ours_bound [OF l, of "map (ord es) (ws s)" p] n by simp
  show "ah (ord es j) + lv (ord es j) \<le> 2 ^ 60" if "j \<in> set (ws s)"
  proof -
    have j: "ord es j \<in> set (map (ord es) (ws s))" using that by simp
    have "within (\<lambda>_. 2 ^ 32) (map (ord es) (ws s))" using a(3) [OF assms(2)] by (simp add: queue_ok_def)
    from within_bound [OF this j l] l [OF j] n show ?thesis by simp
  qed
qed

text \<open>Joining the back of the queue.\<close>

lemma rest_order:
  assumes at: "sim_at X ws es" and h: "is_live es h" "h \<in> X" "so_leaves (ord es h) \<noteq> 0"
  shows "\<exists>a b. queue_from es (so_price (ord es h)) (es_heads es ! slot_of (ord es h)) (ucast (disp :: Qty)) 0 = Some (a, b) \<and>
    sim_at (X - {h}) (ws(slot_of (ord es h) := ws (slot_of (ord es h)) @ [h]))
      (xs_link_tail h (upd_ord h (\<lambda>ob. ob\<lparr>so_ahead := max a b\<rparr>) es))"
proof -
  let ?s = "slot_of (ord es h)" and ?p = "so_price (ord es h)"
  note a = sim_atD [OF at]
  have s: "?s < kSlots" "in_pool es h" using es_at_order [OF a(1) h(1)] by simp_all
  have d: "dlist (prevs es) (nexts es) kNil (es_heads es ! ?s) (es_tails es ! ?s) (ws ?s)" by (rule es_at_list(1) [OF a(1) s(1)])
  have u: "unat (ucast disp :: u64) = unat disp" "unat disp < 4294967296"
    using unsigned_less [of disp, where 'a = nat] by (simp_all add: unat_ucast_qty)
  have "unat (ucast disp :: u64) + ours ?p (map (ord es) (ws ?s)) < 2 ^ 64" using queue_sizes(1) [OF at s(1), of ?p] u by simp
  moreover have "ah (ord es j) + lv (ord es j) < 2 ^ 64" if "j \<in> set (ws ?s)" for j using queue_sizes(2) [OF at s(1) that] by simp
  ultimately obtain c b where q: "queue_from es ?p (es_heads es ! ?s) (ucast disp) 0 = Some (c, b)"
      "unat c = unat disp + ours ?p (map (ord es) (ws ?s))"
      "unat b = Max (insert 0 {ah x + lv x |x. x \<in> ord es ` set (ws ?s) \<and> so_price x = ?p})"
    using queue_from_exact [of es kNil "ws ?s" "ucast disp" ?p 0] d u(1) by (auto simp: dlist_def)
  let ?e = "upd_ord h (\<lambda>ob. ob\<lparr>so_ahead := max c b\<rparr>) es" and ?ob = "(ord es h)\<lparr>so_ahead := max c b\<rparr>"
  have r: "rewritten ((ord es)(h := ?ob)) es ?e" by (rule rewritten_upd [OF s(2)])
  have e: "sim_at X ws ?e"
    by (rule sim_at_write [OF at h(2) r])
      (use es_at_order(1) [OF a(1) h(1)] in \<open>simp add: same_place_def slot_of_def sim_order_ok_def\<close>)
  note ea = sim_atD [OF e] and rd = rewrittenD [OF r]
  have se: "slot_of (ord ?e h) = ?s" "is_live ?e h" using h(1) by (simp_all add: rd slot_of_def)
  note l = es_at_link [OF ea(1) se(2) h(2), unfolded se(1)]
  let ?f = "xs_link_tail h ?e" and ?ws = "ws(?s := ws ?s @ [h])"
  have t: "terms (ord ?f k) = terms (ord ?e k)" "is_live ?f k = is_live ?e k" for k using es_relinkedD [OF l(2)] by simp_all
  have unl: "h \<notin> set (ws z)" if "z < kSlots" for z using working_unlisted [OF a(1) h(2) that] .
  have "queue_ok (map (ord es) (ws ?s) @ [?ob])"
  proof (rule queue_join [OF a(3) [OF s(1)]])
    show "unat disp \<le> 2 ^ 32" using u(2) by simp
    have fin: "finite {ah x + lv x |x. x \<in> ord es ` set (ws ?s) \<and> so_price x = ?p}" by simp
    have "ah ?ob = max (unat c) (unat b)" by (simp add: ah_def max_def word_le_nat_alt)
    also have "\<dots> = Max (insert (unat c) {ah x + lv x |x. x \<in> ord es ` set (ws ?s) \<and> so_price x = ?p})"
      unfolding q(3) using Max_insert_0 [OF fin] .
    finally show "ah ?ob = Max (insert (unat disp + ours (so_price ?ob) (map (ord es) (ws ?s)))
        {ah x + lv x |x. x \<in> set (map (ord es) (ws ?s)) \<and> so_price x = so_price ?ob})"
      using q(2) by simp
  qed
  note qj = this
  have mt: "map terms (map (ord ?f) (?ws z)) = map terms (if z = ?s then map (ord es) (ws ?s) @ [?ob] else map (ord es) (ws z))"
    if "z < kSlots" for z
    using unl [OF s(1)] unl [OF that] by (auto simp: t(1) rd(3))
  have "queue_ok (map (ord ?f) (?ws z))" if "z < kSlots" for z
    using queue_ok_cong [OF mt [OF that]] qj a(3) [OF that] by (cases "z = ?s") simp_all
  moreover have "so_leaves (ord ?f k) \<noteq> 0" if "is_live ?f k" "k \<notin> X - {h}" for k
    using that a(2) [of k] h(3) terms_eqD(3) [OF t(1), of k] t(2) [of k] by (auto simp: rd)
  ultimately have "sim_at (X - {h}) ?ws ?f" using l(1) by (simp add: sim_at_def)
  then show ?thesis using q(1) by blast
qed

lemma xs_work_ok:
  assumes at: "sim_at X ws es" and h: "is_live es h" "h \<in> X"
  shows "\<exists>es' ws'. xs_work h es = Some es' \<and> sim_at (X - {h}) ws' es' \<and> sim_kept es es'"
proof -
  note a = sim_atD [OF at]
  note ho = es_at_order [OF a(1) h(1)]
  let ?bk = "mb_book (es_books es) (so_locate (ord es h))"
  obtain e ob where e: "(case ?bk of None \<Rightarrow> Some es
      | Some b \<Rightarrow> work_levels (depth b (opposite (so_side (ord es h)))) b 0 h es) = Some e"
    "rewritten ((ord es)(h := ob)) es e" "same_place ob (ord es h)" "sim_order_ok ob"
    "so_price ob = so_price (ord es h)" "so_locate ob = so_locate (ord es h)" "so_side ob = so_side (ord es h)"
  proof (cases ?bk)
    case None
    have "rewritten ((ord es)(h := ord es h)) es es" by (simp add: rewritten_refl)
    then show ?thesis using that [of es "ord es h"] None ho(1) by (simp add: same_place_def)
  next
    case (Some b)
    then show ?thesis using that work_levels_exact [OF ho(5,1), of "depth b (opposite (so_side (ord es h)))" b 0] by auto
  qed
  note d = rewrittenD [OF e(2)]
  have at1: "sim_at X ws e" using sim_at_write [OF at h(2) e(2)] e(3,4) by simp
  have he: "is_live e h" "ord e h = ob" using h(1) by (simp_all add: d)
  have rest: ?thesis if nz: "so_leaves ob \<noteq> 0" "so_tif ob \<noteq> kTifIoc"
  proof -
    let ?disp = "case ?bk of None \<Rightarrow> 0 | Some b \<Rightarrow> qty_at b (so_side ob) (so_price ob)"
    have u: "(case ?bk of None \<Rightarrow> 0 | Some b \<Rightarrow> ucast (qty_at b (so_side ob) (so_price ob))) = (ucast ?disp :: u64)"
      by (cases ?bk) simp_all
    obtain c b where q: "queue_from e (so_price ob) (es_heads e ! slot_of ob) (ucast ?disp) 0 = Some (c, b)"
      "sim_at (X - {h}) (ws(slot_of ob := ws (slot_of ob) @ [h])) (xs_link_tail h (upd_ord h (\<lambda>ob. ob\<lparr>so_ahead := max c b\<rparr>) e))"
      using rest_order [OF at1 he(1) h(2), of ?disp] nz(1) he(2) by auto
    let ?r = "xs_link_tail h (upd_ord h (\<lambda>ob. ob\<lparr>so_ahead := max c b\<rparr>) e)"
    have "xs_work h es = Some ?r"
      using e(1) q(1) nz unfolding xs_work_def u [symmetric] by (simp add: he(2) slot_of_def Let_def)
    moreover have "sim_kept es ?r"
    proof -
      have "rewritten ((ord e)(h := (ord e h)\<lparr>so_ahead := max c b\<rparr>)) e (upd_ord h (\<lambda>ob. ob\<lparr>so_ahead := max c b\<rparr>) e)"
        using live_in_pool [OF he(1)] by (rule rewritten_upd)
      from sim_at_write [OF at1 h(2) this] have at2: "sim_at X ws (upd_ord h (\<lambda>ob. ob\<lparr>so_ahead := max c b\<rparr>) e)"
        using e(4) he(2) by (simp add: same_place_def slot_of_def sim_order_ok_def)
      have "is_live (upd_ord h (\<lambda>ob. ob\<lparr>so_ahead := max c b\<rparr>) e) h" using he(1) by simp
      note es_relinked_kept [OF es_at_link(2) [OF sim_atD(1) [OF at2] this h(2)]]
      moreover have "sim_kept es (upd_ord h (\<lambda>ob. ob\<lparr>so_ahead := max c b\<rparr>) e)" using d(7) by simp
      ultimately show ?thesis by (blast intro: sim_kept_trans)
    qed
    ultimately show ?thesis using q(2) by blast
  qed
  show ?thesis
  proof (cases "so_leaves ob = 0")
    case True
    then show ?thesis using drop_working [OF at1 he(1) h(2)] e(1) d(7) he(2) by (auto simp: xs_work_def intro: sim_kept_trans)
  next
    case False
    show ?thesis
    proof (cases "so_tif ob = kTifIoc")
      case True
      let ?m = "OO_Canceled \<lparr>cn_ts = es_clock e, cn_token = so_token ob, cn_decrement = so_leaves ob, cn_reason = asc CHR ''I''\<rparr>"
      have "outbound_sized ?m" using e(4) by (simp add: sim_order_ok_def)
      from sim_at_emit [OF at1 this] obtain f where f: "xs_emit ?m e = Some f" "sim_at X ws f" "sim_kept e f" "same_store e f" by blast
      have "is_live f h" using he(1) same_storeD(2) [OF f(4)] by simp
      from drop_working [OF f(2) this h(2)] obtain g where g: "xs_remove_order h f = Some g" "sim_at (X - {h}) ws g" "sim_kept f g"
        by blast
      have "xs_work h es = Some g" using f(1) g(1) e(1) False True he(2) by (simp add: xs_work_def)
      then show ?thesis using g(2) sim_kept_trans [OF sim_kept_trans [OF d(7) f(3)] g(3)] by blast
    qed (use rest False in blast)
  qed
qed

section \<open>Requests\<close>

lemma listed:
  assumes "es_at {} ws es" "is_live es h"
  obtains xs ys where "slot_of (ord es h) < kSlots" "ws (slot_of (ord es h)) = xs @ h # ys" "h \<notin> set xs" "h \<notin> set ys"
proof -
  have s: "slot_of (ord es h) < kSlots" "h \<in> set (ws (slot_of (ord es h)))" using es_at_order [OF assms] by simp_all
  then obtain xs ys where w: "ws (slot_of (ord es h)) = xs @ h # ys" using split_list by metis
  have "distinct (ws (slot_of (ord es h)))" using es_at_list(1) [OF assms(1) s(1)] by (simp add: dlist_def)
  with that [OF s(1) w] w show ?thesis by simp
qed

lemma queue_cut:
  assumes "queue_ok (xs @ h # ys)"
  shows "queue_ok (xs @ map (shrunk (so_price h) (so_leaves h)) ys)"
proof (rule queue_drop)
  show "queue_ok (xs @ h\<lparr>so_leaves := 0\<rparr> # map (shrunk (so_price h) (so_leaves h)) ys)"
    using assms by (rule queue_reduce) (simp_all add: lv_def ah_def)
qed (simp add: lv_def)

text \<open>Taking a working order out, whatever is left of it.\<close>

lemma remove_live:
  assumes at: "sim_at {} ws es" and h: "is_live es h"
  shows "\<exists>es' ws'. xs_remove_order h es = Some es' \<and> sim_at {} ws' es' \<and> sim_kept es es'"
proof -
  note a = sim_atD [OF at]
  obtain xs ys where s: "slot_of (ord es h) < kSlots" "ws (slot_of (ord es h)) = xs @ h # ys" "h \<notin> set xs" "h \<notin> set ys"
    using listed [OF a(1) h] .
  let ?s = "slot_of (ord es h)" and ?ws = "ws(slot_of (ord es h) := xs @ ys)"
  let ?g = "\<lambda>k. if k \<in> set ys then shrunk (so_price (ord es h)) (so_leaves (ord es h)) (ord es k) else ord es k"
  obtain es' where e: "xs_remove_order h es = Some es'" "es_at {} ?ws es'" "\<forall>k. is_live es' k = (is_live es k \<and> k \<noteq> h)"
    "sim_kept es es'" "\<forall>k. terms (ord es' k) = terms (?g k)"
    using remove_resting [OF a(1) s(1,2)] by blast
  have dist: "distinct (xs @ h # ys)" using es_at_list(1) [OF a(1) s(1)] s(2) by (simp add: dlist_def)
  have "queue_ok (map (ord es) xs @ map (shrunk (so_price (ord es h)) (so_leaves (ord es h))) (map (ord es) ys))"
    using a(3) [OF s(1)] s(2) by (intro queue_cut) simp
  moreover have "map terms (map (ord es') (xs @ ys)) =
      map terms (map (ord es) xs @ map (shrunk (so_price (ord es h)) (so_leaves (ord es h))) (map (ord es) ys))"
    using dist e(5) by auto
  ultimately have here: "queue_ok (map (ord es') (xs @ ys))" using queue_ok_cong by blast
  have "queue_ok (map (ord es') (ws z))" if z: "z < kSlots" "z \<noteq> ?s" for z
  proof -
    have "k \<notin> set ys" if "k \<in> set (ws z)" for k
      using that es_at_list(2) [OF a(1) z(1), of k] es_at_list(2) [OF a(1) s(1), of k] s(2) z(2) by auto
    then have "map terms (map (ord es') (ws z)) = map terms (map (ord es) (ws z))" using e(5) by auto
    then show ?thesis using queue_ok_cong a(3) [OF z(1)] by blast
  qed
  moreover have "so_leaves (ord es' k) \<noteq> 0" if "is_live es' k" for k
    using that e(3) a(2) [of k] terms_eqD(3) [OF spec [OF e(5)], of k] by (auto split: if_splits)
  ultimately have "sim_at {} ?ws es'" using e(2) here by (simp add: sim_at_def)
  then show ?thesis using e(1,4) by blast
qed

lemma find_live:
  assumes "es_at X ws es" "fhm_find TokenHash (es_by_token es) t = Some h"
  shows "is_live es h" "so_token (ord es h) = t"
  using assms by (auto simp: es_at_def table_at_def)

text \<open>A reduction keeps the order's place.\<close>

lemma reduce_live:
  assumes at: "sim_at {} ws es" and h: "is_live es h" and keep: "keep \<noteq> 0" "keep \<le> so_leaves (ord es h)"
  shows "\<exists>e. xs_shrink_followers h (so_leaves (ord es h) - keep) es = Some e \<and>
    sim_at {} ws (upd_ord h (\<lambda>ob. ob\<lparr>so_leaves := keep\<rparr>) e) \<and> sim_kept es (upd_ord h (\<lambda>ob. ob\<lparr>so_leaves := keep\<rparr>) e)"
proof -
  note a = sim_atD [OF at]
  let ?q = "so_leaves (ord es h) - keep" and ?p = "so_price (ord es h)" and ?s = "slot_of (ord es h)"
  obtain xs ys where s: "?s < kSlots" "ws ?s = xs @ h # ys" "h \<notin> set xs" "h \<notin> set ys" using listed [OF a(1) h] .
  obtain e where e: "xs_shrink_followers h ?q es = Some e" "es_at {} ws e"
    "rewritten (\<lambda>k. if k \<in> set ys then shrunk ?p ?q (ord es k) else ord es k) es e"
    using es_at_shrink [OF a(1) s(1,2)] by blast
  note d = rewrittenD [OF e(3)]
  let ?f = "upd_ord h (\<lambda>ob. ob\<lparr>so_leaves := keep\<rparr>) e" and ?h = "(ord es h)\<lparr>so_leaves := keep\<rparr>"
  have he: "is_live e h" "ord e h = ord es h" using h s(4) by (simp_all add: d)
  have r: "rewritten ((ord e)(h := ?h)) e ?f" using rewritten_upd [OF live_in_pool [OF he(1)]] he(2) by metis
  note rd = rewrittenD [OF r]
  have uq: "unat keep \<le> lv (ord es h)" "unat ?q = lv (ord es h) - unat keep"
    using keep(2) by (simp_all add: lv_def word_le_nat_alt unat_minus_le)
  have ok: "sim_order_ok ?h" using es_at_order(1) [OF a(1) h] uq(1) by (simp add: sim_order_ok_def lv_def)
  have f: "es_at {} ws ?f"
    by (rule es_at_rewritten [OF e(2) r]) (use ok es_at_order(1) [OF e(2)] he in \<open>auto simp: same_place_def slot_of_def\<close>)
  have o: "ord ?f k = (if k = h then ?h else if k \<in> set ys then shrunk ?p ?q (ord es k) else ord es k)" for k
    by (simp add: rd(3) d(3))
  have dist: "distinct (xs @ h # ys)" using es_at_list(1) [OF a(1) s(1)] s(2) by (simp add: dlist_def)
  have "queue_ok (map (ord es) xs @ ?h # map (shrunk ?p ?q) (map (ord es) ys))"
    using a(3) [OF s(1)] s(2) uq by (intro queue_reduce) (simp_all add: lv_def ah_def)
  moreover have "map (ord ?f) (xs @ h # ys) = map (ord es) xs @ ?h # map (shrunk ?p ?q) (map (ord es) ys)"
    using dist by (auto simp: o)
  ultimately have here: "queue_ok (map (ord ?f) (ws ?s))" by (simp only: s(2))
  have "queue_ok (map (ord ?f) (ws z))" if z: "z < kSlots" "z \<noteq> ?s" for z
  proof -
    have "k \<notin> set (h # ys)" if "k \<in> set (ws z)" for k
      using that es_at_list(2) [OF a(1) z(1), of k] es_at_list(2) [OF a(1) s(1), of k] s(2) z(2) by auto
    then have "map (ord ?f) (ws z) = map (ord es) (ws z)" by (auto simp: o)
    then show ?thesis using a(3) [OF z(1)] by (simp only:)
  qed
  moreover have "so_leaves (ord ?f k) \<noteq> 0" if "is_live ?f k" for k
    using that a(2) [of k] keep(1) by (auto simp: o rd(1) d(1))
  ultimately have "sim_at {} ws ?f" using f here unfolding sim_at_def by (metis empty_iff)
  then show ?thesis using e(1) sim_kept_trans [OF d(7) rd(7)] by blast
qed

lemma xs_on_cancel_ok:
  assumes at: "sim_at {} ws es"
  shows "\<exists>es' ws'. xs_on_cancel r es = Some es' \<and> sim_at {} ws' es' \<and> sim_kept es es'"
proof (cases "fhm_find TokenHash (es_by_token es) (rq_token r)")
  case None
  then show ?thesis using at by (auto simp: xs_on_cancel_def)
next
  case (Some h)
  have h: "is_live es h" using find_live [OF sim_atD(1) [OF at] Some] by simp
  let ?ob = "ord es h"
  define keep where "keep = (if rq_shares r > so_filled ?ob then rq_shares r - so_filled ?ob else 0)"
  show ?thesis
  proof (cases "keep \<ge> so_leaves ?ob")
    case True
    then show ?thesis using at Some by (auto simp: xs_on_cancel_def Let_def keep_def)
  next
    case False
    let ?m = "OO_Canceled \<lparr>cn_ts = es_clock es, cn_token = so_token ?ob, cn_decrement = so_leaves ?ob - keep, cn_reason = asc CHR ''U''\<rparr>"
    have "outbound_sized ?m" using es_at_order(1) [OF sim_atD(1) [OF at] h] by (simp add: sim_order_ok_def)
    from sim_at_emit [OF at this] obtain e where e: "xs_emit ?m es = Some e" "sim_at {} ws e" "sim_kept es e" "same_store es e" by blast
    have he: "is_live e h" "ord e h = ?ob" using h same_storeD(1,2) [OF e(4)] by simp_all
    have eq: "xs_on_cancel r es = (if keep = 0 then xs_remove_order h e else do {
        e \<leftarrow> xs_shrink_followers h (so_leaves ?ob - keep) e; Some (upd_ord h (\<lambda>ob. ob\<lparr>so_leaves := keep\<rparr>) e) })"
      using Some False e(1) unfolding xs_on_cancel_def option.case Let_def keep_def by simp
    show ?thesis
    proof (cases "keep = 0")
      case True
      then show ?thesis using remove_live [OF e(2) he(1)] eq sim_kept_trans [OF e(3)] by auto
    next
      case nz: False
      have "keep \<le> so_leaves (ord e h)" using False he(2) by simp
      then show ?thesis using reduce_live [OF e(2) he(1) nz] eq nz he(2) sim_kept_trans [OF e(3)] by auto
    qed
  qed
qed

text \<open>A new order: a fresh handle, its token in the index, its terms in the pool.\<close>

lemma enter_live:
  assumes at: "sim_at {} ws es" and new: "fhm_find TokenHash (es_by_token es) t = None"
    and al: "sp_allocate SimOrder_new (es_orders es) = (h, p)" "h \<noteq> kNil"
    and ob: "so_token (f SimOrder_new) = t" "so_resting (f SimOrder_new) = False" "sim_order_ok (f SimOrder_new)"
  shows "\<exists>table. fhm_insert TokenHash (es_by_token es) t h = (table, (Some h, True)) \<and>
    (let e = upd_ord h f (es\<lparr>es_orders := p, es_by_token := table\<rparr>) in sim_at {h} ws e \<and> is_live e h \<and> ord e h = f SimOrder_new)"
proof -
  note a = sim_atD [OF at]
  have pa: "pool_at es" and ta: "table_at es" and la: "lists_at {} ws es" and oa: "orders_at {} es" using a(1) by (simp_all add: es_at_def)
  have pok: "pool_ok (es_orders es) (live_set (es_orders es))" using pa by (auto simp: pool_at_def pool_ok_def)
  from pool.alloc_ok [OF this al(1)] al(2) have alloc: "card (live_set (es_orders es)) \<noteq> sp_capacity (es_orders es)"
    "\<not> is_live es h" "pool_ok p (insert h (live_set (es_orders es)))" "sp_capacity p = sp_capacity (es_orders es)"
    by (auto simp: kNil_def is_live_def live_set_def split: if_splits)
  obtain fs where fs: "sp_stack (es_orders es) fs" using pa by (auto simp: pool_at_def)
  then obtain x xs where st: "sp_stack (es_orders es) (x # xs)"
    using al sp_allocate_empty [of "es_orders es" SimOrder_new] by (cases fs) (auto simp: kNil_def)
  from sp_allocate_pop [OF this, of SimOrder_new] al have gets: "sp_get h p = SimOrder_new" "unat h < sp_capacity p"
    "y \<noteq> h \<Longrightarrow> sp_get y p = sp_get y (es_orders es)" for y by auto
  have inv: "fhm_inv TokenHash (es_by_token es)" and mx: "fhm_max (es_by_token es) = sp_capacity (es_orders es)"
    and tk: "\<And>t k. fhm_map (es_by_token es) t = Some k \<longleftrightarrow> is_live es k \<and> so_token (ord es k) = t"
    using ta by (auto simp: table_at_def fhm_find_map)
  have "card (dom (fhm_map (es_by_token es))) \<le> card (live_set (es_orders es))"
  proof (rule card_inj_on_le)
    show "inj_on (the \<circ> fhm_map (es_by_token es)) (dom (fhm_map (es_by_token es)))"
      using tk by (intro inj_onI) (metis comp_apply domD option.sel)
    show "(the \<circ> fhm_map (es_by_token es)) ` dom (fhm_map (es_by_token es)) \<subseteq> live_set (es_orders es)"
      using tk by (auto simp: live_set_def is_live_def) (metis option.sel)
    show "finite (live_set (es_orders es))" using pool.finite_live [OF pok] by simp
  qed
  also have "\<dots> < sp_capacity (es_orders es)" using pool.finite_live [OF pok] alloc(1) by simp
  finally have room: "fhm_size (es_by_token es) < fhm_max (es_by_token es)" using fhm_size_card [OF inv] mx by simp
  have none: "fhm_map (es_by_token es) t = None" using new inv by (simp add: fhm_find_map)
  then obtain table where tb: "fhm_insert TokenHash (es_by_token es) t h = (table, (Some h, True))" "fhm_inv TokenHash table"
    "fhm_map table = (fhm_map (es_by_token es))(t \<mapsto> h)" "fhm_max table = fhm_max (es_by_token es)"
    using fhm_insert_new [OF inv _ room] by metis
  let ?base = "es\<lparr>es_orders := p, es_by_token := table\<rparr>"
  let ?e = "upd_ord h f ?base"
  have o0: "ord ?base k = (if k = h then SimOrder_new else ord es k)" for k using gets by (simp add: ord_def)
  have hp: "in_pool ?base h" using gets(2) by (simp add: in_pool_def)
  have o: "ord ?e k = (if k = h then f SimOrder_new else ord es k)" for k using ord_upd [OF hp] by (simp add: o0)
  have l0: "is_live ?base k = (k = h \<or> is_live es k)" for k
    using alloc(3) by (auto simp: pool_ok_def is_live_def live_set_def)
  have "pool_at ?base" using alloc(3) by (auto simp: pool_at_def pool_ok_def)
  then have "pool_at ?e" by (rule upd_ord_stack)
  moreover have "table_at ?e"
    unfolding table_at_def
  proof (intro conjI allI)
    show "fhm_max (es_by_token ?e) = sp_capacity (es_orders ?e)" using tb(4) mx alloc(4) by (simp add: upd_ord_def)
    show "(fhm_find TokenHash (es_by_token ?e) u = Some k) = (is_live ?e k \<and> so_token (ord ?e k) = u)" for u k
    proof -
      have "fhm_find TokenHash (es_by_token ?e) u = (if u = t then Some h else fhm_map (es_by_token es) u)"
        using tb(2,3) by (simp add: fhm_find_map)
      then show ?thesis
        using tk [of u k] alloc(2) ob(1) none by (cases "k = h"; cases "u = t") (auto simp: o l0)
    qed
  qed (use tb(2) in simp)
  moreover have nl: "h \<notin> set (ws z)" if "z < kSlots" for z using la that alloc(2) by (auto simp: lists_at_def)
  have "dlist (prevs ?e) (nexts ?e) kNil (es_heads es ! z) (es_tails es ! z) (ws z)" if "z < kSlots" for z
    using es_at_list(1) [OF a(1) that] nl [OF that]
    by (subst dlist_cong [of "ws z" "prevs ?e" "prevs es" "nexts ?e" "nexts es"]) (auto simp: prevs_def nexts_def o)
  then have "lists_at {h} ws ?e" using la alloc(2) by (auto simp: lists_at_def l0 o)
  moreover have "orders_at {h} ?e" using oa ob(2,3) by (auto simp: orders_at_def l0 o)
  ultimately have "es_at {h} ws ?e" by (simp add: es_at_def)
  moreover have "map (ord ?e) (ws z) = map (ord es) (ws z)" if "z < kSlots" for z using nl [OF that] by (auto simp: o)
  then have "queue_ok (map (ord ?e) (ws z))" if "z < kSlots" for z using that a(3) by metis
  moreover have "so_leaves (ord ?e k) \<noteq> 0" if "is_live ?e k" "k \<noteq> h" for k using that a(2) [of k] by (simp add: l0 o)
  ultimately have "sim_at {h} ws ?e" unfolding sim_at_def by auto
  then show ?thesis using tb(1) by (simp add: Let_def l0 o)
qed

lemma xs_reject_ok:
  "sim_at {} ws es \<Longrightarrow> length t = 14 \<Longrightarrow> \<exists>es' ws'. xs_reject t c es = Some es' \<and> sim_at {} ws' es' \<and> sim_kept es es'"
  unfolding xs_reject_def using sim_at_emit [of "{}" ws es "OO_Rejected \<lparr>rj_ts = es_clock es, rj_token = t, rj_reason = c\<rparr>"]
  by auto

text \<open>The shape of a request in the queue: its arrays have their sizes and an order names a side.\<close>

definition request_ok :: "Request \<Rightarrow> bool" where
  "request_ok r \<longleftrightarrow> length (rq_token r) = 14 \<and> length (rq_replacement r) = 14 \<and> length (rq_stock r) = 8 \<and>
     length (rq_firm r) = 4 \<and> valid_side (rq_side r)"

lemma accepted_sized_of: "sim_order_ok ob \<Longrightarrow> accepted_sized (accepted_of ob q es)"
  by (simp add: sim_order_ok_def accepted_of_def accepted_sized_def)

lemma xs_on_enter_ok:
  assumes at: "sim_at {} ws es" and r: "request_ok r"
  shows "\<exists>es' ws'. xs_on_enter r es = Some es' \<and> sim_at {} ws' es' \<and> sim_kept es es'"
proof -
  let ?t = "rq_token r"
  note rej = xs_reject_ok [OF at, of ?t] r [unfolded request_ok_def]
  obtain h p where al: "sp_allocate SimOrder_new (es_orders es) = (h, p)" by (cases "sp_allocate SimOrder_new (es_orders es)")
  show ?thesis
  proof (cases "(\<not> valid_token ?t \<or> fhm_find TokenHash (es_by_token es) ?t \<noteq> None) \<or> mb_locate (es_books es) (rq_stock r) = None \<or>
      rq_shares r = 0 \<or> rq_shares r > kMaxOrderQty \<or> rq_price r \<le> 0 \<or> rq_price r > kMaxPrice \<or> h = kNil")
    case True
    then show ?thesis using rej al unfolding xs_on_enter_def
      by (auto simp: Let_def split: option.split)
  next
    case False
    then obtain loc where loc: "mb_locate (es_books es) (rq_stock r) = Some loc" by auto
    let ?f = "\<lambda>ob. ob\<lparr>so_token := rq_token r, so_locate := loc, so_side := rq_side r,
                  so_price := rq_price r, so_leaves := rq_shares r, so_tif := rq_tif r, so_stock := rq_stock r,
                  so_firm := rq_firm r, so_display := rq_display r, so_capacity := rq_capacity r, so_sweep := rq_sweep r,
                  so_min_qty := rq_min_qty r, so_cross := rq_cross r, so_ref := es_next_ref es\<rparr>"
    have "unat (rq_shares r) \<le> 999999" using False by (simp add: word_less_nat_alt kMaxOrderQty_def)
    then have "sim_order_ok (?f SimOrder_new)"
      using False r by (simp add: sim_order_ok_def SimOrder_new_def request_ok_def)
    moreover have "fhm_find TokenHash (es_by_token es) ?t = None" "h \<noteq> kNil" using False by simp_all
    ultimately obtain table where tb: "fhm_insert TokenHash (es_by_token es) ?t h = (table, (Some h, True))"
      "sim_at {h} ws (upd_ord h ?f (es\<lparr>es_orders := p, es_by_token := table\<rparr>))"
      "is_live (upd_ord h ?f (es\<lparr>es_orders := p, es_by_token := table\<rparr>)) h"
      "ord (upd_ord h ?f (es\<lparr>es_orders := p, es_by_token := table\<rparr>)) h = ?f SimOrder_new"
      using enter_live [OF at _ al, of ?t ?f] by (auto simp: Let_def SimOrder_new_def)
    let ?e1 = "upd_ord h ?f (es\<lparr>es_orders := p, es_by_token := table\<rparr>)"
    let ?e2 = "?e1\<lparr>es_next_ref := es_next_ref ?e1 + 1\<rparr>"
    have ss: "same_store ?e1 ?e2" by simp
    have e2: "sim_at {h} ws ?e2" "is_live ?e2 h" "sim_kept es ?e2"
      using tb(2,3) sim_at_same [OF ss] same_storeD(2) [OF ss] by simp_all
    have "sim_order_ok (ord ?e2 h)" using es_at_order(1) [OF sim_atD(1) [OF e2(1)] e2(2)] .
    then have "outbound_sized (OO_Accepted (accepted_of (ord ?e2 h) (so_leaves (ord ?e2 h)) ?e2))"
      by (simp add: accepted_sized_of)
    from sim_at_emit [OF e2(1) this] obtain e3 where e3: "sim_at {h} ws e3" "sim_kept ?e2 e3" "same_store ?e2 e3"
      "xs_emit (OO_Accepted (accepted_of (ord ?e2 h) (so_leaves (ord ?e2 h)) ?e2)) ?e2 = Some e3" by blast
    have "is_live e3 h" using e2(2) same_storeD(2) [OF e3(3)] by simp
    from xs_work_ok [OF e3(1) this] obtain es' ws' where w: "xs_work h e3 = Some es'" "sim_at {} ws' es'" "sim_kept e3 es'" by auto
    have "xs_on_enter r es = Some es'"
      using False loc al tb(1) e3(4) w(1) by (simp add: xs_on_enter_def Let_def)
    then show ?thesis using w(2) sim_kept_trans [OF sim_kept_trans [OF e2(3) e3(2)] w(3)] by blast
  qed
qed

text \<open>Leaving the queue, as the first half of a replace.\<close>

lemma leave_queue:
  assumes at: "sim_at {} ws es" and h: "is_live es h"
  shows "\<exists>e ws'. xs_shrink_followers h (so_leaves (ord es h)) es = Some e \<and> sim_at {h} ws' (xs_unlink h e) \<and>
    sim_kept es (xs_unlink h e) \<and> es_by_token (xs_unlink h e) = es_by_token es \<and> (\<forall>k. is_live (xs_unlink h e) k = is_live es k) \<and>
    terms (ord (xs_unlink h e) h) = terms (ord es h)"
proof -
  note a = sim_atD [OF at]
  let ?q = "so_leaves (ord es h)" and ?p = "so_price (ord es h)" and ?s = "slot_of (ord es h)"
  obtain xs ys where s: "?s < kSlots" "ws ?s = xs @ h # ys" "h \<notin> set xs" "h \<notin> set ys" using listed [OF a(1) h] .
  let ?g = "\<lambda>k. if k \<in> set ys then shrunk ?p ?q (ord es k) else ord es k"
  obtain e where e: "xs_shrink_followers h ?q es = Some e" "es_at {} ws e" "rewritten ?g es e"
    using es_at_shrink [OF a(1) s(1,2)] by blast
  note d = rewrittenD [OF e(3)] and u = es_at_unlink [OF e(2) s(1,2)]
  let ?f = "xs_unlink h e" and ?ws = "ws(?s := xs @ ys)"
  have t: "terms (ord ?f k) = terms (?g k)" "is_live ?f k = is_live es k" for k
    using es_relinkedD(1,3) [OF u(2)] by (simp_all add: d)
  have dist: "distinct (xs @ h # ys)" using es_at_list(1) [OF a(1) s(1)] s(2) by (simp add: dlist_def)
  have "queue_ok (map (ord es) xs @ map (shrunk ?p ?q) (map (ord es) ys))" using a(3) [OF s(1)] s(2) by (intro queue_cut) simp
  moreover have "map terms (map (ord ?f) (xs @ ys)) = map terms (map (ord es) xs @ map (shrunk ?p ?q) (map (ord es) ys))"
    using dist by (auto simp: t)
  ultimately have here: "queue_ok (map (ord ?f) (xs @ ys))" using queue_ok_cong by blast
  have "queue_ok (map (ord ?f) (ws z))" if z: "z < kSlots" "z \<noteq> ?s" for z
  proof -
    have "k \<notin> set ys" if "k \<in> set (ws z)" for k
      using that es_at_list(2) [OF a(1) z(1), of k] es_at_list(2) [OF a(1) s(1), of k] s(2) z(2) by auto
    then have "map terms (map (ord ?f) (ws z)) = map terms (map (ord es) (ws z))" by (auto simp: t)
    then show ?thesis using queue_ok_cong a(3) [OF z(1)] by blast
  qed
  moreover have "so_leaves (ord ?f k) \<noteq> 0" if "is_live ?f k" for k
    using that a(2) [of k] terms_eqD(3) [OF t(1), of k] by (auto simp: t(2) split: if_splits)
  ultimately have "sim_at {h} ?ws ?f" using u(1) here by (simp add: sim_at_def)
  moreover have "sim_kept es ?f" using d(7) es_relinked_kept [OF u(2)] by (rule sim_kept_trans)
  moreover have "es_by_token ?f = es_by_token es" using es_relinkedD(4) [OF u(2)] d(4) by simp
  ultimately show ?thesis using e(1) t s(4) by auto
qed

text \<open>The token swap, with the new terms of the order.\<close>

lemma swap_token:
  assumes at: "sim_at X ws es" and h: "is_live es h" "h \<in> X" and new: "fhm_find TokenHash (es_by_token es) t = None"
    and f: "so_token (f (ord es h)) = t" "slot_of (f (ord es h)) = slot_of (ord es h)" "so_prev (f (ord es h)) = so_prev (ord es h)"
      "so_next (f (ord es h)) = so_next (ord es h)" "so_resting (f (ord es h)) = so_resting (ord es h)" "sim_order_ok (f (ord es h))"
    and tb: "tb1 = fst (fhm_erase TokenHash (es_by_token es) (so_token (ord es h)))" "tb2 = fst (fhm_insert TokenHash tb1 t h)"
  shows "sim_at X ws (upd_ord h f (es\<lparr>es_by_token := tb2\<rparr>))"
proof -
  note a = sim_atD [OF at]
  have ta: "table_at es" using a(1) by (simp add: es_at_def)
  then have inv: "fhm_inv TokenHash (es_by_token es)" and mx: "fhm_max (es_by_token es) = sp_capacity (es_orders es)"
    and tk: "\<And>t k. fhm_map (es_by_token es) t = Some k \<longleftrightarrow> is_live es k \<and> so_token (ord es k) = t"
    by (auto simp: table_at_def fhm_find_map)
  let ?old = "so_token (ord es h)"
  have old: "fhm_map (es_by_token es) ?old = Some h" using tk h(1) by simp
  obtain t1 where t1: "fhm_erase TokenHash (es_by_token es) ?old = (t1, True)" "fhm_inv TokenHash t1"
    "fhm_map t1 = (fhm_map (es_by_token es))(?old := None)" "fhm_size (es_by_token es) = fhm_size t1 + 1" "fhm_max t1 = fhm_max (es_by_token es)"
    using fhm_erase_present [OF inv old] by metis
  have none: "fhm_map (es_by_token es) t = None" using new inv by (simp add: fhm_find_map)
  have "fhm_size (es_by_token es) \<le> fhm_max (es_by_token es)" using fhm_invD [OF inv] by metis
  then have "fhm_size t1 < fhm_max t1" "fhm_map t1 t = None" using t1(3-5) none by simp_all
  then obtain t2 where t2: "fhm_insert TokenHash t1 t h = (t2, (Some h, True))" "fhm_inv TokenHash t2"
    "fhm_map t2 = (fhm_map t1)(t \<mapsto> h)" "fhm_max t2 = fhm_max t1"
    using fhm_insert_new [OF t1(2)] by metis
  have tb2: "tb2 = t2" using tb t1(1) t2(1) by simp
  let ?e = "upd_ord h f (es\<lparr>es_by_token := tb2\<rparr>)"
  have base: "ord (es\<lparr>es_by_token := x\<rparr>) = ord es" "is_live (es\<lparr>es_by_token := x\<rparr>) = is_live es"
      "in_pool (es\<lparr>es_by_token := x\<rparr>) = in_pool es" for x
    by (simp_all add: ord_def is_live_def in_pool_def fun_eq_iff)
  have o: "ord ?e k = (if k = h then f (ord es h) else ord es k)" for k
    using ord_upd [of "es\<lparr>es_by_token := tb2\<rparr>" h f k] live_in_pool [OF h(1)] by (simp add: base)
  have "pool_at (es\<lparr>es_by_token := tb2\<rparr>)" using a(1) by (simp add: es_at_def pool_at_def)
  then have "pool_at ?e" by (rule upd_ord_stack)
  moreover have "table_at ?e"
    unfolding table_at_def
  proof (intro conjI allI)
    show "fhm_inv TokenHash (es_by_token ?e)" using t2(2) tb2 by simp
    show "fhm_max (es_by_token ?e) = sp_capacity (es_orders ?e)" using mx t1(5) t2(4) tb2 by (simp add: upd_ord_def)
    show "(fhm_find TokenHash (es_by_token ?e) u = Some k) = (is_live ?e k \<and> so_token (ord ?e k) = u)" for u k
    proof -
      have "fhm_find TokenHash (es_by_token ?e) u = (if u = t then Some h else if u = ?old then None else fhm_map (es_by_token es) u)"
        using t1(3) t2(2,3) tb2 by (simp add: fhm_find_map)
      then show ?thesis
        using tk [of u k] tk [of ?old k] h(1) f(1) none old by (cases "k = h"; cases "u = t") (auto simp: o base)
    qed
  qed
  moreover have "lists_at X ws ?e"
  proof -
    have "prevs ?e = prevs es" "nexts ?e = nexts es" using f(3,4) by (auto simp: prevs_def nexts_def o fun_eq_iff)
    then show ?thesis using a(1) f(2) by (auto simp: es_at_def lists_at_def o base)
  qed
  moreover have "orders_at X ?e" using a(1) f(5,6) h(1) by (auto simp: es_at_def orders_at_def o base)
  ultimately have "es_at X ws ?e" by (simp add: es_at_def)
  moreover have "map (ord ?e) (ws z) = map (ord es) (ws z)" if "z < kSlots" for z
    using working_unlisted [OF a(1) h(2) that] by (auto simp: o)
  then have "queue_ok (map (ord ?e) (ws z))" if "z < kSlots" for z using that a(3) by metis
  moreover have "so_leaves (ord ?e k) \<noteq> 0" if "is_live ?e k" "k \<notin> X" for k
    using that a(2) [of k] h(2) by (auto simp: base o)
  ultimately show ?thesis unfolding sim_at_def by auto
qed

lemma replaced_ok:
  assumes "sim_order_ok ob" "0 < px" "px \<le> kMaxPrice" "n > so_filled ob" "n \<le> kMaxOrderQty" "length t = 14"
  shows "sim_order_ok (ob\<lparr>so_token := t, so_price := px, so_leaves := n - so_filled ob, so_tif := a, so_display := b,
    so_sweep := c, so_min_qty := d, so_ref := r\<rparr>)"
proof -
  have "unat (n - so_filled ob) = unat n - unat (so_filled ob)" using assms(4) by (intro unat_minus_le) simp
  moreover have "unat (so_filled ob) < unat n" "unat n \<le> 999999" using assms(4,5) by (simp_all add: word_less_nat_alt word_le_nat_alt kMaxOrderQty_def)
  ultimately show ?thesis using assms by (simp add: sim_order_ok_def)
qed

lemma xs_on_replace_ok:
  assumes at: "sim_at {} ws es" and r: "request_ok r"
  shows "\<exists>es' ws'. xs_on_replace r es = Some es' \<and> sim_at {} ws' es' \<and> sim_kept es es'"
proof (cases "fhm_find TokenHash (es_by_token es) (rq_token r) = None \<or> \<not> valid_token (rq_replacement r) \<or>
    fhm_find TokenHash (es_by_token es) (rq_replacement r) \<noteq> None")
  case True
  then show ?thesis using at by (auto simp: xs_on_replace_def split: option.split)
next
  case False
  let ?t = "rq_replacement r"
  obtain h where h: "fhm_find TokenHash (es_by_token es) (rq_token r) = Some h" using False by auto
  have new: "valid_token ?t" "fhm_find TokenHash (es_by_token es) ?t = None" using False by simp_all
  let ?ob = "ord es h"
  note a = sim_atD [OF at]
  have hl: "is_live es h" "sim_order_ok ?ob" using find_live [OF a(1) h] es_at_order(1) [OF a(1)] by simp_all
  show ?thesis
  proof (cases "rq_price r > 0 \<and> rq_price r \<le> kMaxPrice \<and> rq_shares r > so_filled ?ob \<and> rq_shares r \<le> kMaxOrderQty")
    case bad: False
    let ?m = "OO_Canceled \<lparr>cn_ts = es_clock es, cn_token = so_token ?ob, cn_decrement = so_leaves ?ob, cn_reason = asc CHR ''U''\<rparr>"
    have "outbound_sized ?m" using hl(2) by (simp add: sim_order_ok_def)
    from sim_at_emit [OF at this] obtain e where e: "xs_emit ?m es = Some e" "sim_at {} ws e" "sim_kept es e" "same_store es e" by blast
    have "is_live e h" using hl(1) same_storeD(2) [OF e(4)] by simp
    from remove_live [OF e(2) this] obtain es' ws' where "xs_remove_order h e = Some es'" "sim_at {} ws' es'" "sim_kept e es'" by blast
    moreover from this have "xs_on_replace r es = Some es'" using h new bad e(1) by (simp add: xs_on_replace_def Let_def)
    ultimately show ?thesis using sim_kept_trans [OF e(3)] by blast
  next
    case good: True
    obtain e ws' where e: "xs_shrink_followers h (so_leaves ?ob) es = Some e" "sim_at {h} ws' (xs_unlink h e)"
      "sim_kept es (xs_unlink h e)" "es_by_token (xs_unlink h e) = es_by_token es" "\<forall>k. is_live (xs_unlink h e) k = is_live es k"
      "terms (ord (xs_unlink h e) h) = terms ?ob"
      using leave_queue [OF at hl(1)] by blast
    let ?u = "xs_unlink h e"
    let ?o = "ord ?u h"
    let ?t1 = "fst (fhm_erase TokenHash (es_by_token ?u) (so_token ?o))"
    let ?t2 = "fst (fhm_insert TokenHash ?t1 ?t h)"
    let ?f = "\<lambda>ob. ob\<lparr>so_token := ?t, so_price := rq_price r,
                so_leaves := rq_shares r - so_filled ob, so_tif := rq_tif r, so_display := rq_display r,
                so_sweep := rq_sweep r, so_min_qty := rq_min_qty r, so_ref := es_next_ref ?u\<rparr>"
    let ?v = "upd_ord h ?f (?u\<lparr>es_by_token := ?t2\<rparr>)"
    have lu: "is_live ?u h" using hl(1) e(5) by simp
    have oku: "sim_order_ok ?o" "so_filled ?o = so_filled ?ob" using terms_eqD [OF e(6)] hl(2) by simp_all
    have okf: "sim_order_ok (?f ?o)" using good oku r by (intro replaced_ok) (simp_all add: request_ok_def)
    have v: "sim_at {h} ws' ?v"
      by (rule swap_token [OF e(2) lu _ _ _ _ _ _ _ _ refl refl, of ?t ?f]) (use new(2) e(4) okf in \<open>simp_all add: slot_of_def\<close>)
    let ?w = "?v\<lparr>es_next_ref := es_next_ref ?v + 1\<rparr>"
    have ss: "same_store ?v ?w" by simp
    have lb: "is_live (?u\<lparr>es_by_token := x\<rparr>) h" for x using lu by (simp add: is_live_def)
    have w: "sim_at {h} ws' ?w" "is_live ?w h" "sim_kept es ?w"
      using v sim_at_same [OF ss] same_storeD(2) [OF ss] e(3) lb by simp_all
    have okw: "sim_order_ok (ord ?w h)" using es_at_order(1) [OF sim_atD(1) [OF w(1)] w(2)] .
    let ?m = "OO_Replaced \<lparr>rp_a = accepted_of (ord ?w h) (so_leaves (ord ?w h)) ?w, rp_previous = so_token ?o\<rparr>"
    have "outbound_sized ?m" using okw oku(1) by (simp add: accepted_sized_of) (simp add: sim_order_ok_def)
    from sim_at_emit [OF w(1) this] obtain x where x: "sim_at {h} ws' x" "sim_kept ?w x" "same_store ?w x" "xs_emit ?m ?w = Some x" by blast
    have "is_live x h" using w(2) same_storeD(2) [OF x(3)] by simp
    from xs_work_ok [OF x(1) this] obtain es' ws'' where y: "xs_work h x = Some es'" "sim_at {} ws'' es'" "sim_kept x es'" by auto
    have "xs_on_replace r es = Some es'"
      using h new good e(1) x(4) y(1) by (simp add: xs_on_replace_def Let_def)
    then show ?thesis using y(2) sim_kept_trans [OF sim_kept_trans [OF w(3) x(2)] y(3)] by blast
  qed
qed

end
