(* ===== verification/Exchange_Sim_Market.thy ===== *)
theory Exchange_Sim_Market
  imports Exchange_Sim_Steps
begin

text \<open>
  The two loops that market messages run over one of our lists, \<^verbatim>\<open>sweep_through\<close> and \<^verbatim>\<open>consume\<close>. Both read the
  link of an order before they work on it, and the work changes that order only: it is rewritten in place
  or taken out. The locale \<open>order_walk\<close> states this contract and proves once what such a loop does to the
  whole list; both loops are interpretations of it.
\<close>

definition visited :: "(SimOrder \<Rightarrow> bool) \<Rightarrow> (SimOrder \<Rightarrow> SimOrder) \<Rightarrow> nat \<Rightarrow> Handle list \<Rightarrow> Handle list \<Rightarrow>
    (nat \<Rightarrow> Handle list) \<Rightarrow> ExchangeSim \<Rightarrow> ExchangeSim \<Rightarrow> bool" where
  "visited P g s xs ys ws es es' \<longleftrightarrow> sim_kept es es' \<and> es_at {} (ws(s := xs @ filter (\<lambda>h. P (ord es h)) ys)) es' \<and>
     (\<forall>k. is_live es' k = (is_live es k \<and> (k \<in> set ys \<longrightarrow> P (ord es k)))) \<and>
     (\<forall>k. is_live es' k \<longrightarrow> terms (ord es' k) = terms (if k \<in> set ys then g (ord es k) else ord es k))"

locale order_walk =
  fixes step :: "Handle \<Rightarrow> ExchangeSim \<Rightarrow> ExchangeSim option"
    and loop :: "Handle \<Rightarrow> ExchangeSim \<Rightarrow> ExchangeSim option"
    and P :: "SimOrder \<Rightarrow> bool"
    and g :: "SimOrder \<Rightarrow> SimOrder"
  assumes unfold: "loop h es = (if h = kNil then Some es else step h es \<bind> loop (so_next (ord es h)))"
    and step: "es_at {} ws es \<Longrightarrow> s < kSlots \<Longrightarrow> ws s = xs @ h # ys \<Longrightarrow>
      \<exists>e. step h es = Some e \<and> sim_kept es e \<and> es_at {} (if P (ord es h) then ws else ws(s := xs @ ys)) e \<and>
        (\<forall>k. is_live e k = (is_live es k \<and> (k = h \<longrightarrow> P (ord es k)))) \<and>
        (\<forall>k. is_live e k \<longrightarrow> terms (ord e k) = terms (if k = h then g (ord es k) else ord es k))"
    and P_terms: "terms a = terms b \<Longrightarrow> P a = P b"
    and g_terms: "terms a = terms b \<Longrightarrow> terms (g a) = terms (g b)"
begin

lemma walk:
  assumes "es_at {} ws es" "s < kSlots" "ws s = xs @ ys"
  shows "\<exists>es'. loop (first_of ys kNil) es = Some es' \<and> visited P g s xs ys ws es es'"
  using assms
proof (induction ys arbitrary: xs ws es)
  case Nil
  then have "ws(s := xs) = ws" by auto
  with Nil show ?case by (subst unfold) (simp add: visited_def)
next
  case (Cons h ys)
  let ?P = "\<lambda>k. P (ord es k)"
  obtain e where e: "step h es = Some e" "sim_kept es e" "es_at {} (if ?P h then ws else ws(s := xs @ ys)) e"
    "\<And>k. is_live e k = (is_live es k \<and> (k = h \<longrightarrow> ?P k))"
    "\<And>k. is_live e k \<Longrightarrow> terms (ord e k) = terms (if k = h then g (ord es k) else ord es k)"
    using step [OF Cons.prems] by blast
  have d: "dlist (prevs es) (nexts es) kNil (es_heads es ! s) (es_tails es ! s) (xs @ h # ys)"
    using es_at_list(1) [OF Cons.prems(1,2)] Cons.prems(3) by simp
  then have nx: "so_next (ord es h) = first_of ys kNil" "h \<noteq> kNil" and dist: "h \<notin> set xs" "h \<notin> set ys"
    by (auto simp: dlist_def seg_append nexts_def)
  have ylive: "is_live es k" if "k \<in> set ys" for k using that es_at_list(2) [OF Cons.prems(1,2), of k] Cons.prems(3) by simp
  have ty: "terms (ord e k) = terms (ord es k)" "P (ord e k) = ?P k" if "k \<in> set ys" for k
    using that dist ylive [OF that] e(4) [of k] e(5) [of k] P_terms [of "ord e k" "ord es k"] by (auto split: if_splits)
  define ws1 where "ws1 = (if ?P h then ws else ws(s := xs @ ys))"
  define xs1 where "xs1 = (if ?P h then xs @ [h] else xs)"
  have ws1: "ws1 s = xs1 @ ys" "es_at {} ws1 e" using Cons.prems(3) e(3) by (simp_all add: ws1_def xs1_def)
  from Cons.IH [OF ws1(2) Cons.prems(2) ws1(1)] obtain es' where
    es': "loop (first_of ys kNil) e = Some es'" "visited P g s xs1 ys ws1 e es'" by blast
  have "loop (first_of (h # ys) kNil) es = Some es'" using nx e(1) es'(1) by (subst unfold) simp
  moreover have "visited P g s xs (h # ys) ws es es'"
    unfolding visited_def
  proof (intro conjI allI impI)
    note v = es'(2) [unfolded visited_def]
    show "sim_kept es es'" using v e(2) sim_kept_trans by blast
    have "filter (\<lambda>h. P (ord e h)) ys = filter ?P ys" using ty(2) by (intro filter_cong) simp_all
    then have "ws1(s := xs1 @ filter (\<lambda>h. P (ord e h)) ys) = ws(s := xs @ filter ?P (h # ys))"
      by (auto simp: ws1_def xs1_def fun_eq_iff)
    then show "es_at {} (ws(s := xs @ filter ?P (h # ys))) es'" using v by metis
    show lv: "is_live es' k = (is_live es k \<and> (k \<in> set (h # ys) \<longrightarrow> ?P k))" for k
      using v e(4) [of k] ty(2) [of k] dist(2) by auto
    fix k assume k: "is_live es' k"
    then have kt: "terms (ord es' k) = terms (if k \<in> set ys then g (ord e k) else ord e k)" "is_live e k" using v by auto
    show "terms (ord es' k) = terms (if k \<in> set (h # ys) then g (ord es k) else ord es k)"
    proof (cases "k \<in> set ys")
      case True
      then show ?thesis using kt(1) g_terms [OF ty(1)] by simp
    next
      case False
      then show ?thesis using kt e(5) [OF kt(2)] by (cases "k = h") auto
    qed
  qed
  ultimately show ?case by blast
qed

end

section \<open>Trade-through\<close>

text \<open>Filling an order for its whole remainder, or for a part of it.\<close>

lemma fill_listed:
  assumes at: "es_at {} ws es" and s: "s < kSlots" "ws s = xs @ h # ys" and q: "q \<le> so_leaves (ord es h)"
  shows "\<exists>e. xs_execute h q px liq es = Some e \<and> es_at {} ws e \<and> rewritten ((ord es)(h := executed q (ord es h))) es e"
proof -
  have h: "is_live es h" using es_at_list(2) [OF at s(1), of h] s(2) by simp
  note o = es_at_order [OF at h]
  have "length (so_token (ord es h)) = 14" using o(1) by (simp add: sim_order_ok_def)
  from execute_exact [OF o(5) this] obtain e where
    e: "xs_execute h q px liq es = Some e" "rewritten ((ord es)(h := executed q (ord es h))) es e" by blast
  have "es_at {} ws e"
    by (rule es_at_rewritten [OF at e(2)]) (use es_at_order(1) [OF at] executed_ok [OF o(1) q] in \<open>auto simp: same_place_def executed_def slot_of_def\<close>)
  then show ?thesis using e by blast
qed

lemma remove_finished:
  assumes at: "es_at {} ws es" and s: "s < kSlots" "ws s = xs @ h # ys" and z: "so_leaves (ord es h) = 0"
  shows "\<exists>e. xs_remove_order h es = Some e \<and> es_at {} (ws(s := xs @ ys)) e \<and> sim_kept es e \<and>
    (\<forall>k. is_live e k = (is_live es k \<and> k \<noteq> h)) \<and> (\<forall>k. terms (ord e k) = terms (ord es k))"
  using remove_resting [OF at s] z by auto

definition sweep_step :: "Side \<Rightarrow> Price \<Rightarrow> Handle \<Rightarrow> ExchangeSim \<Rightarrow> ExchangeSim option" where
  "sweep_step side added_price h es =
     (if crosses side (so_price (ord es h)) added_price then do {
        es \<leftarrow> xs_execute h (so_leaves (ord es h)) (so_price (ord es h)) kAdded es;
        xs_remove_order h es }
      else Some es)"

interpretation sweep: order_walk "sweep_step side px" "sweep_from side px" "\<lambda>ob. \<not> crosses side (so_price ob) px" "\<lambda>ob. ob"
  for side px
proof
  show "sweep_from side px h es = (if h = kNil then Some es else sweep_step side px h es \<bind> sweep_from side px (so_next (ord es h)))"
    for h es
    by (subst sweep_from.simps) (simp add: sweep_step_def Let_def)
  show "\<exists>e. sweep_step side px h es = Some e \<and> sim_kept es e \<and>
      es_at {} (if \<not> crosses side (so_price (ord es h)) px then ws else ws(s := xs @ ys)) e \<and>
      (\<forall>k. is_live e k = (is_live es k \<and> (k = h \<longrightarrow> \<not> crosses side (so_price (ord es k)) px))) \<and>
      (\<forall>k. is_live e k \<longrightarrow> terms (ord e k) = terms (if k = h then ord es k else ord es k))"
    if at: "es_at {} ws es" and s: "s < kSlots" "ws s = xs @ h # ys" for ws es s xs h ys
  proof (cases "crosses side (so_price (ord es h)) px")
    case True
    obtain e where e: "xs_execute h (so_leaves (ord es h)) (so_price (ord es h)) kAdded es = Some e" "es_at {} ws e"
      "rewritten ((ord es)(h := executed (so_leaves (ord es h)) (ord es h))) es e"
      using fill_listed [OF at s, of "so_leaves (ord es h)"] by blast
    note d = rewrittenD [OF e(3)]
    have "so_leaves (ord e h) = 0" by (simp add: d executed_def)
    from remove_finished [OF e(2) s this] obtain f where
      f: "xs_remove_order h e = Some f" "es_at {} (ws(s := xs @ ys)) f" "sim_kept e f"
      "\<forall>k. is_live f k = (is_live e k \<and> k \<noteq> h)" "\<forall>k. terms (ord f k) = terms (ord e k)" by blast
    then show ?thesis using True e(1) sim_kept_trans [OF d(7) f(3)] by (auto simp: sweep_step_def d)
  qed (use at s in \<open>auto simp: sweep_step_def\<close>)
  show "(\<not> crosses side (so_price a) px) = (\<not> crosses side (so_price b) px)" if "terms a = terms b" for a b
    using terms_eqD(4) [OF that] by simp
qed

section \<open>Displayed executions\<close>

definition consume_step :: "Side \<Rightarrow> Price \<Rightarrow> Price \<Rightarrow> Qty \<Rightarrow> Handle \<Rightarrow> ExchangeSim \<Rightarrow> ExchangeSim option" where
  "consume_step side level_price exec_price shares h es =
     (if so_price (ord es h) = level_price then consume_one side exec_price shares h es else Some es)"

definition survives :: "Price \<Rightarrow> Qty \<Rightarrow> SimOrder \<Rightarrow> bool" where
  "survives p S ob \<longleftrightarrow> \<not> (so_price ob = p \<and> \<not> ucast S \<le> so_ahead ob \<and> so_leaves (consumed S ob) = 0)"

definition at_level :: "Price \<Rightarrow> Qty \<Rightarrow> SimOrder \<Rightarrow> SimOrder" where
  "at_level p S ob = (if so_price ob = p then consumed S ob else ob)"

lemma taken_le: "taken S ob \<le> so_leaves ob"
  using taken_num [of S ob] by (simp add: word_le_nat_alt lv_def)

lemma consumed_executed:
  "\<not> ucast S \<le> so_ahead ob \<Longrightarrow> consumed S ob = executed (taken S ob) (ob\<lparr>so_ahead := 0\<rparr>)"
  by (simp add: consumed_def executed_def)

lemma consume_one_exact:
  assumes at: "es_at {} ws es" and s: "s < kSlots" "ws s = xs @ h # ys" and p: "so_price (ord es h) = p"
  shows "\<exists>e. consume_one side px S h es = Some e \<and> sim_kept es e \<and> es_at {} (if survives p S (ord es h) then ws else ws(s := xs @ ys)) e \<and>
    (\<forall>k. is_live e k = (is_live es k \<and> (k = h \<longrightarrow> survives p S (ord es k)))) \<and>
    (\<forall>k. is_live e k \<longrightarrow> terms (ord e k) = terms (if k = h then consumed S (ord es k) else ord es k))"
proof -
  let ?ob = "ord es h"
  have h: "is_live es h" using es_at_list(2) [OF at s(1), of h] s(2) by simp
  note o = es_at_order [OF at h]
  have ahead: "es_at {} ws (upd_ord h (\<lambda>ob. ob\<lparr>so_ahead := a ob\<rparr>) es)"
      "rewritten ((ord es)(h := ?ob\<lparr>so_ahead := a ?ob\<rparr>)) es (upd_ord h (\<lambda>ob. ob\<lparr>so_ahead := a ob\<rparr>) es)" for a
  proof -
    show r: "rewritten ((ord es)(h := ?ob\<lparr>so_ahead := a ?ob\<rparr>)) es (upd_ord h (\<lambda>ob. ob\<lparr>so_ahead := a ob\<rparr>) es)"
      by (rule rewritten_upd [OF o(5)])
    show "es_at {} ws (upd_ord h (\<lambda>ob. ob\<lparr>so_ahead := a ob\<rparr>) es)"
      by (rule es_at_rewritten [OF at r]) (use es_at_order(1) [OF at] h in \<open>auto simp: same_place_def slot_of_def sim_order_ok_def\<close>)
  qed
  show ?thesis
  proof (cases "ucast S \<le> so_ahead ?ob")
    case True
    note r = ahead [of "\<lambda>ob. so_ahead ob - ucast S"]
    have "survives p S ?ob" using True by (simp add: survives_def)
    moreover have "consume_one side px S h es = Some (upd_ord h (\<lambda>ob. ob\<lparr>so_ahead := so_ahead ob - ucast S\<rparr>) es)"
      using True by (simp add: consume_one_def)
    moreover note rewrittenD(1,3,7) [OF r(2)]
    ultimately show ?thesis using r(1) True by (auto simp: consumed_def)
  next
    case False
    let ?e1 = "upd_ord h (\<lambda>ob. ob\<lparr>so_ahead := 0\<rparr>) es"
    let ?px = "if side = Side_buy then min px (so_price ?ob) else max px (so_price ?ob)"
    note r = ahead [of "\<lambda>_. 0"]
    note rd = rewrittenD [OF r(2)]
    have o1: "ord ?e1 h = ?ob\<lparr>so_ahead := 0\<rparr>" by (simp add: rd)
    have "taken S ?ob \<le> so_leaves (ord ?e1 h)" using taken_le by (simp add: o1)
    from fill_listed [OF r(1) s this, of ?px kAdded] obtain e where
      e: "xs_execute h (taken S ?ob) ?px kAdded ?e1 = Some e" "es_at {} ws e"
      "rewritten ((ord ?e1)(h := executed (taken S ?ob) (ord ?e1 h))) ?e1 e" by blast
    note d = rewrittenD [OF e(3)]
    have oe: "ord e k = (if k = h then consumed S ?ob else ord es k)" for k
      using consumed_executed [OF False] by (simp add: d(3) rd(3))
    have le: "is_live e = is_live es" "sim_kept es e" using d(1) rd(1) sim_kept_trans [OF rd(7) d(7)] by simp_all
    have eq: "consume_one side px S h es = (if so_leaves (ord e h) = 0 then xs_remove_order h e else Some e)"
      using False e(1) by (cases "side = Side_buy") (simp_all add: consume_one_def Let_def o1 taken_def)
    show ?thesis
    proof (cases "so_leaves (consumed S ?ob) = 0")
      case True
      from remove_finished [OF e(2) s, unfolded oe] True obtain f where
        f: "xs_remove_order h e = Some f" "es_at {} (ws(s := xs @ ys)) f" "sim_kept e f"
        "\<forall>k. is_live f k = (is_live e k \<and> k \<noteq> h)" "\<forall>k. terms (ord f k) = terms (ord e k)"
        by (auto simp: oe)
      have "\<not> survives p S ?ob" using True False p by (simp add: survives_def)
      then show ?thesis using f eq True sim_kept_trans [OF le(2) f(3)] by (auto simp: oe le)
    next
      case nz: False
      then have "survives p S ?ob" by (simp add: survives_def)
      then show ?thesis using eq nz e(2) le by (auto simp: oe)
    qed
  qed
qed

lemma consumed_terms: "terms a = terms b \<Longrightarrow> terms (consumed S a) = terms (consumed S b) \<and> survives p S a = survives p S b \<and>
    terms (at_level p S a) = terms (at_level p S b)"
  by (cases a; cases b; simp add: terms_def consumed_def survives_def at_level_def taken_def)

interpretation consume: order_walk "consume_step side p px S" "consume_from side p px S" "survives p S" "at_level p S"
  for side p px S
proof
  show "consume_from side p px S h es =
      (if h = kNil then Some es else consume_step side p px S h es \<bind> consume_from side p px S (so_next (ord es h)))" for h es
    by (subst consume_from.simps) (simp add: consume_step_def Let_def)
  show "\<exists>e. consume_step side p px S h es = Some e \<and> sim_kept es e \<and> es_at {} (if survives p S (ord es h) then ws else ws(s := xs @ ys)) e \<and>
      (\<forall>k. is_live e k = (is_live es k \<and> (k = h \<longrightarrow> survives p S (ord es k)))) \<and>
      (\<forall>k. is_live e k \<longrightarrow> terms (ord e k) = terms (if k = h then at_level p S (ord es k) else ord es k))"
    if "es_at {} ws es" "s < kSlots" "ws s = xs @ h # ys" for ws es s xs h ys
  proof (cases "so_price (ord es h) = p")
    case True
    then show ?thesis using consume_one_exact [OF that True, of side px S]
      by (simp add: consume_step_def at_level_def cong: if_cong)
  next
    case False
    then have "survives p S (ord es h)" by (simp add: survives_def)
    then show ?thesis using that False by (auto simp: consume_step_def at_level_def)
  qed
qed (use consumed_terms in blast)+

end
