(* ===== verification/Exchange_Sim_Reports.thy ===== *)
theory Exchange_Sim_Reports
  imports Exchange_Sim_Market
begin

text \<open>
  What the trade-through loop of \<^verbatim>\<open>src/include/optitrade/sim/exchange_sim.hpp\<close> tells the client: the
  reports it queues and the counters it moves. A report is read back through the client's decoder, so
  the statements are about messages and delivery times and not about the bytes of the ring.
\<close>

section \<open>Reports as messages\<close>

text \<open>The report \<open>r\<close> is delivered at \<open>at\<close> and its bytes decode to \<open>m\<close>.\<close>

definition carries :: "Nanos \<Rightarrow> ouch_outbound \<Rightarrow> Report \<Rightarrow> bool" where
  "carries at m r \<longleftrightarrow> rt_deliver r = at \<and>
     decode_outbound (\<lambda>m _. Some m) (take (rt_length r) (rt_bytes r)) None = Some (DS_ok, Some m)"

definition room :: "ExchangeSim \<Rightarrow> nat" where
  "room es = length (es_reports es) - es_report_count es"

text \<open>
  The messages \<open>ms\<close>, queued in order behind what waits, each stamped with the clock plus the report
  latency; those that find the ring full are counted as dropped.
\<close>

definition queues :: "ouch_outbound list \<Rightarrow> ExchangeSim \<Rightarrow> ExchangeSim \<Rightarrow> bool" where
  "queues ms es es' \<longleftrightarrow> es_clock es' = es_clock es \<and> es_cfg es' = es_cfg es \<and>
     (report_ring es \<longrightarrow> report_ring es' \<and> room es' = room es - length ms \<and>
       es_dropped_reports es' = es_dropped_reports es + of_nat (length ms - room es) \<and>
       (\<exists>rs. pending es' = pending es @ rs \<and>
          list_all2 (carries (saturating_add (es_clock es) (sc_report_latency_ns (es_cfg es)))) (take (room es) ms) rs))"

lemma queues_refl: "queues [] es es"
  by (simp add: queues_def)

lemma queues_trans:
  assumes "queues ms a b" "queues ns b c"
  shows "queues (ms @ ns) a c"
proof -
  let ?at = "saturating_add (es_clock a) (sc_report_latency_ns (es_cfg a))"
  have frame: "es_clock c = es_clock a" "es_cfg c = es_cfg a" "es_clock b = es_clock a" "es_cfg b = es_cfg a"
    using assms by (simp_all add: queues_def)
  have "report_ring c \<and> room c = room a - length (ms @ ns) \<and>
      es_dropped_reports c = es_dropped_reports a + of_nat (length (ms @ ns) - room a) \<and>
      (\<exists>rs. pending c = pending a @ rs \<and> list_all2 (carries ?at) (take (room a) (ms @ ns)) rs)" if ring: "report_ring a"
  proof -
    obtain rs where b: "report_ring b" "room b = room a - length ms"
      "es_dropped_reports b = es_dropped_reports a + of_nat (length ms - room a)"
      "pending b = pending a @ rs" "list_all2 (carries ?at) (take (room a) ms) rs"
      using assms(1) ring by (auto simp: queues_def)
    obtain qs where c: "report_ring c" "room c = room b - length ns"
      "es_dropped_reports c = es_dropped_reports b + of_nat (length ns - room b)"
      "pending c = pending b @ qs" "list_all2 (carries ?at) (take (room b) ns) qs"
      using assms(2) b(1) frame by (auto simp: queues_def)
    have "list_all2 (carries ?at) (take (room a) (ms @ ns)) (rs @ qs)"
      using b(2,5) c(5) by (simp add: list_all2_appendI)
    moreover have "length (ms @ ns) - room a = (length ms - room a) + (length ns - (room a - length ms))" by simp
    then have "es_dropped_reports c = es_dropped_reports a + of_nat (length (ms @ ns) - room a)"
      by (simp only: c(3) b(2,3) of_nat_add ac_simps)
    ultimately show ?thesis using b c by auto
  qed
  then show ?thesis using frame by (simp add: queues_def)
qed

text \<open>A step that touches neither the reports nor the counters of trades.\<close>

definition silent :: "ExchangeSim \<Rightarrow> ExchangeSim \<Rightarrow> bool" where
  "silent es es' \<longleftrightarrow> es_clock es' = es_clock es \<and> es_cfg es' = es_cfg es \<and> es_reports es' = es_reports es \<and>
     es_report_head es' = es_report_head es \<and> es_report_count es' = es_report_count es \<and>
     es_dropped_reports es' = es_dropped_reports es \<and> es_fills es' = es_fills es \<and> es_match es' = es_match es"

lemma upd_ord_counts [simp]:
  "es_dropped_reports (upd_ord h f es) = es_dropped_reports es" "es_fills (upd_ord h f es) = es_fills es"
  by (simp_all add: upd_ord_def)

lemma silent_simps [simp]:
  "silent es es" "silent es (upd_ord h f es') = silent es es'" "silent es (es'\<lparr>es_heads := hs\<rparr>) = silent es es'"
  "silent es (es'\<lparr>es_tails := ts\<rparr>) = silent es es'" "silent es (es'\<lparr>es_by_token := t\<rparr>) = silent es es'"
  "silent es (es'\<lparr>es_orders := p\<rparr>) = silent es es'"
  by (simp_all add: silent_def)

lemma silent_trans: "silent a b \<Longrightarrow> silent b c \<Longrightarrow> silent a c"
  by (simp add: silent_def)

lemma silent_queues: "silent a b \<Longrightarrow> queues ms b c \<Longrightarrow> queues ms a c" "queues ms a b \<Longrightarrow> silent b c \<Longrightarrow> queues ms a c"
  by (simp_all add: silent_def queues_def room_def report_ring_def pending_def)

lemma shrink_from_silent:
  assumes "shrink_from p q j es = Some es'"
  shows "silent es es'"
proof (rule shrink_from.raw_induct [where P = "\<lambda>p q j es es'. silent es es'", OF _ assms])
  fix shrink p q j es es'
  assume IH: "\<And>p q j es es'. shrink p q j es = Some es' \<Longrightarrow> silent es es'"
    and body: "(if j = kNil then Some es
      else let es = (if so_price (ord es j) = p
                     then upd_ord j (\<lambda>f. f\<lparr>so_ahead := so_ahead f - min (so_ahead f) (ucast q)\<rparr>) es else es)
           in shrink p q (so_next (ord es j)) es) = Some es'"
  let ?e = "if so_price (ord es j) = p then upd_ord j (\<lambda>f. f\<lparr>so_ahead := so_ahead f - min (so_ahead f) (ucast q)\<rparr>) es else es"
  have e: "silent es ?e" by simp
  show "silent es es'"
  proof (cases "j = kNil")
    case False
    then have "shrink p q (so_next (ord ?e j)) ?e = Some es'" using body by (simp only: Let_def if_False)
    then show ?thesis using silent_trans [OF e IH] by blast
  qed (use body in simp)
qed

lemma remove_order_silent: "xs_remove_order h es = Some es' \<Longrightarrow> silent es es'"
  by (auto simp: xs_remove_order_def xs_shrink_followers_def xs_unlink_def Let_def dest!: shrink_from_silent
      split: if_splits bind_splits)

lemma emit_queues:
  assumes "outbound_valid m" "xs_emit m es = Some es'"
  shows "queues [m] es es'"
proof -
  note sized = valid_sized(2) [OF assms(1)]
  have e: "emits es es'" using xs_emit_returns [OF sized, of es] assms(2) by simp
  have frame: "es_clock es' = es_clock es" "es_cfg es' = es_cfg es" using emitsD(2,4) [OF e] by simp_all
  let ?i = "(es_report_head es + es_report_count es) mod length (es_reports es)"
  let ?at = "saturating_add (es_clock es) (sc_report_latency_ns (es_cfg es))"
  have "report_ring es' \<and> room es' = room es - 1 \<and> es_dropped_reports es' = es_dropped_reports es + of_nat (1 - room es) \<and>
      (\<exists>rs. pending es' = pending es @ rs \<and> list_all2 (carries ?at) (take (room es) [m]) rs)" if ring: "report_ring es"
  proof (cases "es_report_count es = length (es_reports es)")
    case True
    then have "es' = es\<lparr>es_dropped_reports := es_dropped_reports es + 1\<rparr>" using assms(2) by (simp add: xs_emit_def)
    then show ?thesis using True ring by (simp add: room_def report_ring_def pending_def)
  next
    case False
    then have lt: "es_report_count es < length (es_reports es)" "0 < length (es_reports es)" using ring by (auto simp: report_ring_def)
    let ?r = "es_reports es ! ?i" and ?n = "length (outbound_bytes m)"
    have "length (rt_bytes ?r) = ouch_kMaxMessageLength" using ring lt(2) by (simp add: report_ring_def)
    moreover have "?n \<le> ouch_kMaxMessageLength" "0 < ?n"
      using sized by (cases m; simp add: ouch_length_defs length_accepted_bytes)+
    ultimately have enc: "encode_outbound m (rt_bytes ?r) = Some (?n, outbound_bytes m @ drop ?n (rt_bytes ?r))"
      using valid_sized(4) [OF assms(1)] by (simp add: encode_outbound_image(1) [OF sized])
    let ?new = "?r\<lparr>rt_length := ?n, rt_bytes := outbound_bytes m @ drop ?n (rt_bytes ?r), rt_deliver := ?at\<rparr>"
    have es': "es' = es\<lparr>es_reports := (es_reports es)[?i := ?new], es_report_count := es_report_count es + 1\<rparr>"
      using assms(2) False enc \<open>0 < ?n\<close> by (simp add: xs_emit_def Let_def)
    have "pending es' = pending es @ [?new]"
      by (rule pending_write(2) [OF ring lt(1) refl, where d = "es_dropped_reports es"]) (simp_all add: es')
    moreover have "carries ?at m ?new" using decode_outbound_image [OF assms(1)] by (simp add: carries_def)
    moreover have "report_ring es'" using e ring by (simp add: emits_def reported_def)
    moreover have "room es = Suc (room es')" "es_dropped_reports es' = es_dropped_reports es"
      using lt(1) by (simp_all add: room_def es')
    ultimately show ?thesis by simp
  qed
  then show ?thesis using frame by (simp add: queues_def)
qed

section \<open>Trades\<close>

text \<open>
  The execution reports of a run of trades, each given by its token, shares and price: liquidity added, one
  match number each, counting up from \<open>n\<close>.
\<close>

primrec executions :: "Nanos \<Rightarrow> u64 \<Rightarrow> (Token \<times> Qty \<times> Price) list \<Rightarrow> ouch_outbound list" where
  "executions now n [] = []"
| "executions now n (t # ts) =
     OO_Executed \<lparr>ex_ts = now, ex_token = fst t, ex_shares = fst (snd t), ex_price = snd (snd t), ex_liquidity = kAdded,
       ex_match = n + 1\<rparr> # executions now (n + 1) ts"

lemma executions_append: "executions now n (ts @ us) = executions now n ts @ executions now (n + of_nat (length ts)) us"
  by (induction ts arbitrary: n) (simp_all add: ac_simps)

definition traded :: "(Token \<times> Qty \<times> Price) list \<Rightarrow> ExchangeSim \<Rightarrow> ExchangeSim \<Rightarrow> bool" where
  "traded ts es es' \<longleftrightarrow> queues (executions (es_clock es) (es_match es) ts) es es' \<and>
     es_fills es' = es_fills es + of_nat (length ts) \<and> es_match es' = es_match es + of_nat (length ts)"

lemma traded_refl: "traded [] es es"
  by (simp add: traded_def queues_refl)

lemma traded_trans: "traded ts a b \<Longrightarrow> traded us b c \<Longrightarrow> traded (ts @ us) a c"
  by (auto simp: traded_def executions_append intro!: queues_trans) (simp add: queues_def)

lemma traded_silent: "traded ts a b \<Longrightarrow> silent b c \<Longrightarrow> traded ts a c"
  by (auto simp: traded_def intro: silent_queues) (simp_all add: silent_def)

lemma execute_trades:
  assumes "in_pool es h" "sim_order_ok (ord es h)" "ouch_fits_wire_price px" "xs_execute h q px kAdded es = Some es'"
  shows "traded [(so_token (ord es h), q, px)] es es'"
proof -
  let ?e1 = "upd_ord h (\<lambda>ob. ob\<lparr>so_leaves := so_leaves ob - q, so_filled := so_filled ob + q\<rparr>) es"
  let ?e2 = "?e1\<lparr>es_fills := es_fills ?e1 + 1, es_match := es_match ?e1 + 1\<rparr>"
  let ?m = "OO_Executed \<lparr>ex_ts = es_clock es, ex_token = so_token (ord es h), ex_shares = q, ex_price = px,
      ex_liquidity = kAdded, ex_match = es_match es + 1\<rparr>"
  have "so_token (ord ?e2 h) = so_token (ord es h)" using assms(1) ord_upd by (simp add: ord_def [of "_\<lparr>es_fills := _, es_match := _\<rparr>"] flip: ord_def)
  then have emit: "xs_emit ?m ?e2 = Some es'" using assms(4) by (simp add: xs_execute_def Let_def)
  have v: "outbound_valid ?m" using assms(2,3) by (simp add: sim_order_ok_def)
  have s: "queues [?m] ?e2 es'" by (rule emit_queues [OF v emit])
  have "emits ?e2 es'" using xs_emit_returns [OF valid_sized(2) [OF v], of ?e2] emit by simp
  then have e': "es' = ?e2\<lparr>es_reports := es_reports es', es_report_count := es_report_count es', es_dropped_reports := es_dropped_reports es'\<rparr>"
    by (simp add: emits_def)
  have "es_fills es' = es_fills ?e2" "es_match es' = es_match ?e2" by (subst e', simp)+
  then have "es_fills es' = es_fills es + 1" "es_match es' = es_match es + 1" by simp_all
  moreover have "queues [?m] es es'" using s by (simp add: queues_def room_def report_ring_def pending_def)
  ultimately show ?thesis by (simp add: traded_def)
qed

section \<open>The loop\<close>

text \<open>
  A walk whose step also leaves a trace \<open>out\<close> of the order it works on: the loop leaves the traces of the
  orders in the order of the list.
\<close>

locale traced_walk = order_walk step loop P g
  for step :: "Handle \<Rightarrow> ExchangeSim \<Rightarrow> ExchangeSim option"
    and loop :: "Handle \<Rightarrow> ExchangeSim \<Rightarrow> ExchangeSim option"
    and P :: "SimOrder \<Rightarrow> bool"
    and g :: "SimOrder \<Rightarrow> SimOrder" +
  fixes R :: "'a list \<Rightarrow> ExchangeSim \<Rightarrow> ExchangeSim \<Rightarrow> bool"
    and out :: "SimOrder \<Rightarrow> 'a list"
  assumes R_refl: "R [] es es"
    and R_trans: "R as e0 e1 \<Longrightarrow> R bs e1 e2 \<Longrightarrow> R (as @ bs) e0 e2"
    and step_R: "es_at {} ws es \<Longrightarrow> s < kSlots \<Longrightarrow> ws s = xs @ h # ys \<Longrightarrow> step h es = Some e \<Longrightarrow> R (out (ord es h)) es e"
    and out_terms: "terms a = terms b \<Longrightarrow> out a = out b"
begin

lemma walk_traces:
  assumes "es_at {} ws es" "s < kSlots" "ws s = xs @ ys" "loop (first_of ys kNil) es = Some es'"
  shows "R (concat (map (\<lambda>h. out (ord es h)) ys)) es es'"
  using assms
proof (induction ys arbitrary: xs ws es)
  case Nil
  then show ?case using unfold [of kNil es] R_refl by simp
next
  case (Cons h ys)
  obtain e where e: "step h es = Some e" "es_at {} (if P (ord es h) then ws else ws(s := xs @ ys)) e"
    "\<And>k. is_live e k = (is_live es k \<and> (k = h \<longrightarrow> P (ord es k)))"
    "\<And>k. is_live e k \<Longrightarrow> terms (ord e k) = terms (if k = h then g (ord es k) else ord es k)"
    using step [OF Cons.prems(1-3)] by blast
  have d: "dlist (prevs es) (nexts es) kNil (es_heads es ! s) (es_tails es ! s) (xs @ h # ys)"
    using es_at_list(1) [OF Cons.prems(1,2)] Cons.prems(3) by simp
  then have nx: "so_next (ord es h) = first_of ys kNil" "h \<noteq> kNil" and dist: "h \<notin> set ys"
    by (auto simp: dlist_def seg_append nexts_def)
  have tk: "terms (ord e k) = terms (ord es k)" if "k \<in> set ys" for k
  proof -
    have "k \<noteq> h" "is_live es k" using that dist es_at_list(2) [OF Cons.prems(1,2), of k] Cons.prems(3) by auto
    then show ?thesis using e(3,4) [of k] by simp
  qed
  have same: "map (\<lambda>k. out (ord e k)) ys = map (\<lambda>k. out (ord es k)) ys"
    by (intro map_cong refl out_terms tk)
  have "(if P (ord es h) then ws else ws(s := xs @ ys)) s = (if P (ord es h) then xs @ [h] else xs) @ ys"
    using Cons.prems(3) by simp
  moreover have "loop (first_of ys kNil) e = Some es'" using Cons.prems(4) nx e(1) unfold [of h es] by simp
  ultimately have "R (concat (map (\<lambda>k. out (ord e k)) ys)) e es'" by (rule Cons.IH [OF e(2) Cons.prems(2)])
  then show ?case using R_trans [OF step_R [OF Cons.prems(1-3) e(1)]] by (simp add: same)
qed

end

definition crossing_trades :: "Side \<Rightarrow> Price \<Rightarrow> SimOrder \<Rightarrow> (Token \<times> Qty \<times> Price) list" where
  "crossing_trades side px ob = (if crosses side (so_price ob) px then [(so_token ob, so_leaves ob, so_price ob)] else [])"

interpretation sweep_reports: traced_walk "sweep_step side px" "sweep_from side px" "\<lambda>ob. \<not> crosses side (so_price ob) px" "\<lambda>ob. ob"
    traded "crossing_trades side px"
  for side px
proof
  show "traded [] es es" for es by (rule traded_refl)
  show "traded (as @ bs) a c" if "traded as a b" "traded bs b c" for as bs a b c using that by (rule traded_trans)
  show "traded (crossing_trades side px (ord es h)) es e"
    if at: "es_at {} ws es" and s: "s < kSlots" "ws s = xs @ h # ys" and e: "sweep_step side px h es = Some e" for ws es s xs h ys e
  proof (cases "crosses side (so_price (ord es h)) px")
    case True
    have "is_live es h" using es_at_list(2) [OF at s(1), of h] s(2) by simp
    note o = es_at_order(1,5) [OF at this]
    have "ouch_fits_wire_price (so_price (ord es h))" using o(1) by (simp add: sim_order_ok_def ouch_fits_wire_price_def kMaxPrice_def)
    moreover obtain e1 where "xs_execute h (so_leaves (ord es h)) (so_price (ord es h)) kAdded es = Some e1" "xs_remove_order h e1 = Some e"
      using e True by (auto simp: sweep_step_def split: bind_splits)
    ultimately show ?thesis
      using traded_silent [OF execute_trades [OF o(2,1)] remove_order_silent] True by (simp add: crossing_trades_def)
  qed (use e in \<open>simp add: sweep_step_def crossing_trades_def traded_refl\<close>)
  show "crossing_trades side px a = crossing_trades side px b" if "terms a = terms b" for a b
    using terms_eqD(3-5) [OF that] by (simp add: crossing_trades_def)
qed

lemma concat_crossing: "concat (map (\<lambda>h. crossing_trades side px (ord es h)) hs) =
    map (\<lambda>h. (so_token (ord es h), so_leaves (ord es h), so_price (ord es h))) (filter (\<lambda>h. crosses side (so_price (ord es h)) px) hs)"
  by (induction hs) (simp_all add: crossing_trades_def)

end
