(* ===== verification/Exchange_Sim_Correct.thy ===== *)
theory Exchange_Sim_Correct
  imports Exchange_Sim_Reports
begin

text \<open>
  The simulator as a whole: the invariant \<open>sim_inv\<close> holds after construction and is sim_kept by every call, and
  every call returns. The claims state what it gives: the queue positions of our own orders, the fills of
  one execution, the sweep of crossed orders, and the report queue.
\<close>

section \<open>Market messages\<close>

lemma visited_sim:
  assumes at: "sim_at {} ws es" and s: "s < kSlots" and v: "visited P g s [] (ws s) ws es es'"
    and q: "queue_ok (map g (filter P (map (ord es) (ws s))))"
    and nz: "\<And>k. k \<in> set (ws s) \<Longrightarrow> P (ord es k) \<Longrightarrow> so_leaves (g (ord es k)) \<noteq> 0"
  shows "sim_at {} (ws(s := filter (\<lambda>h. P (ord es h)) (ws s))) es'"
proof -
  note a = sim_atD [OF at] and v = v [unfolded visited_def append_Nil]
  let ?ws = "ws(s := filter (\<lambda>h. P (ord es h)) (ws s))"
  have lv: "is_live es' k = (is_live es k \<and> (k \<in> set (ws s) \<longrightarrow> P (ord es k)))"
    and tm: "is_live es' k \<Longrightarrow> terms (ord es' k) = terms (if k \<in> set (ws s) then g (ord es k) else ord es k)" for k using v by auto
  have "so_leaves (ord es' k) \<noteq> 0" if "is_live es' k" for k
    using that a(2) [of k] nz [of k] terms_eqD(3) [OF tm [OF that]] lv [of k] by (auto split: if_splits)
  moreover have "queue_ok (map (ord es') (?ws z))" if z: "z < kSlots" for z
  proof (cases "z = s")
    case True
    have "terms (ord es' k) = terms (g (ord es k))" if "k \<in> set (ws s)" "P (ord es k)" for k
      using that tm [of k] lv [of k] es_at_list(2) [OF a(1) s, of k] by auto
    then have "map terms (map (ord es') (filter (\<lambda>h. P (ord es h)) (ws s))) = map terms (map g (filter P (map (ord es) (ws s))))"
      by (simp add: filter_map comp_def)
    then show ?thesis using True q queue_ok_cong by (metis fun_upd_same)
  next
    case False
    have "terms (ord es' k) = terms (ord es k)" if "k \<in> set (ws z)" for k
    proof -
      have k: "k \<notin> set (ws s)" "is_live es k"
        using that es_at_list(2) [OF a(1) z, of k] es_at_list(2) [OF a(1) s, of k] False by auto
      then show ?thesis using tm [of k] lv [of k] by simp
    qed
    then have "map terms (map (ord es') (ws z)) = map terms (map (ord es) (ws z))" by auto
    then show ?thesis using False a(3) [OF z] queue_ok_cong by (metis fun_upd_other)
  qed
  ultimately show ?thesis using v by (simp add: sim_at_def)
qed

lemma sweep_ok:
  assumes at: "sim_at {} ws es"
  shows "\<exists>es'. xs_sweep_through loc side px es = Some es' \<and> sim_kept es es' \<and>
    visited (\<lambda>ob. \<not> crosses (opposite side) (so_price ob) px) (\<lambda>ob. ob) (list_slot loc (opposite side)) []
      (ws (list_slot loc (opposite side))) ws es es' \<and> (\<exists>ws'. sim_at {} ws' es') \<and>
    traded (map (\<lambda>h. (so_token (ord es h), so_leaves (ord es h), so_price (ord es h)))
      (filter (\<lambda>h. crosses (opposite side) (so_price (ord es h)) px) (ws (list_slot loc (opposite side))))) es es'"
proof -
  let ?s = "list_slot loc (opposite side)" and ?P = "\<lambda>ob. \<not> crosses (opposite side) (so_price ob) px"
  note a = sim_atD [OF at]
  have s: "?s < kSlots" by (rule list_slot_bound) simp
  have hd: "es_heads es ! ?s = first_of (ws ?s) kNil" using es_at_list(1) [OF a(1) s] by (simp add: dlist_def)
  with sweep.walk [OF a(1) s, of "[]" "ws ?s" "opposite side" px] obtain es' where
    e: "xs_sweep_through loc side px es = Some es'" "visited ?P (\<lambda>ob. ob) ?s [] (ws ?s) ws es es'"
    by (auto simp: xs_sweep_through_def Let_def)
  note trades = sweep_reports.walk_traces [OF a(1) s, of "[]" "ws ?s" "opposite side" px es', unfolded concat_crossing]
  have "queue_ok (filter ?P (map (ord es) (ws ?s)))" by (rule queue_filter_prices [OF a(3) [OF s]])
  moreover have "so_leaves (ord es k) \<noteq> 0" if "k \<in> set (ws ?s)" for k
    using that es_at_list(2) [OF a(1) s, of k] a(2) [of k] by simp
  ultimately have "sim_at {} (ws(?s := filter (\<lambda>h. ?P (ord es h)) (ws ?s))) es'"
    by (intro visited_sim [OF at s e(2)]) simp_all
  then show ?thesis using e trades hd by (auto simp: visited_def xs_sweep_through_def Let_def)
qed

lemma survives_leaves: "so_leaves ob \<noteq> 0 \<Longrightarrow> survives p S ob \<longleftrightarrow> so_leaves (at_level p S ob) \<noteq> 0"
  by (auto simp: survives_def at_level_def consumed_def)

lemma consume_ok:
  assumes at: "sim_at {} ws es" and side: "valid_side side"
  shows "\<exists>es'. xs_consume loc side p px S es = Some es' \<and> sim_kept es es' \<and>
    visited (survives p S) (at_level p S) (list_slot loc side) [] (ws (list_slot loc side)) ws es es' \<and> (\<exists>ws'. sim_at {} ws' es')"
proof -
  let ?s = "list_slot loc side"
  let ?obs = "map (ord es) (ws ?s)"
  note a = sim_atD [OF at]
  have s: "?s < kSlots" using side by (rule list_slot_bound)
  have "es_heads es ! ?s = first_of (ws ?s) kNil" using es_at_list(1) [OF a(1) s] by (simp add: dlist_def)
  with consume.walk [OF a(1) s, of "[]" "ws ?s" side p px S] obtain es' where
    e: "xs_consume loc side p px S es = Some es'" "visited (survives p S) (at_level p S) ?s [] (ws ?s) ws es es'"
    by (auto simp: xs_consume_def)
  have nz: "so_leaves (ord es k) \<noteq> 0" if "k \<in> set (ws ?s)" for k
    using that es_at_list(2) [OF a(1) s, of k] a(2) [of k] by simp
  have "map (at_level p S) (filter (survives p S) ?obs) = filter (\<lambda>x. so_leaves x \<noteq> 0) (consume_list p S ?obs)"
  proof -
    have "filter (survives p S) ?obs = filter (\<lambda>x. so_leaves (at_level p S x) \<noteq> 0) ?obs"
      using nz survives_leaves by (intro filter_cong) auto
    then show ?thesis by (simp add: consume_list_def at_level_def [abs_def] filter_map comp_def)
  qed
  moreover have "queue_ok (filter (\<lambda>x. so_leaves x \<noteq> 0) (consume_list p S ?obs))"
    by (rule queue_filter_empty [OF queue_consume [OF a(3) [OF s]]]) (simp add: lv_def)
  ultimately have "queue_ok (map (at_level p S) (filter (survives p S) ?obs))" by (simp only:)
  then have "sim_at {} (ws(?s := filter (\<lambda>h. survives p S (ord es h)) (ws ?s))) es'"
    by (rule visited_sim [OF at s e(2)]) (use nz survives_leaves in blast)
  then show ?thesis using e by (auto simp: visited_def)
qed

section \<open>The invariant\<close>

definition requests_ok :: "ExchangeSim \<Rightarrow> bool" where
  "requests_ok es \<longleftrightarrow> (\<forall>r \<in> set (es_requests es). request_ok r) \<and> es_queued es \<le> length (es_requests es) \<and>
     (es_requests es \<noteq> [] \<longrightarrow> es_req_head es < length (es_requests es))"

text \<open>The waiting reports are in order of delivery, none later than one emitted now would be.\<close>

definition reports_ok :: "ExchangeSim \<Rightarrow> bool" where
  "reports_ok es \<longleftrightarrow> report_ring es \<and> sorted (map rt_deliver (pending es)) \<and>
     (\<forall>r \<in> set (pending es). rt_deliver r \<le> saturating_add (es_clock es) (sc_report_latency_ns (es_cfg es)))"

definition sim_inv :: "nat \<Rightarrow> ExchangeSim \<Rightarrow> bool" where
  "sim_inv n es \<longleftrightarrow> (\<exists>ws. sim_at {} ws es) \<and> mb_inv n (es_books es) \<and> requests_ok es \<and> reports_ok es"

lemma sim_kept_inv:
  assumes "sim_kept es es'"
  shows "requests_ok es \<Longrightarrow> requests_ok es'" "mb_inv n (es_books es') = mb_inv n (es_books es)" "reports_ok es \<Longrightarrow> reports_ok es'"
proof -
  show "requests_ok es \<Longrightarrow> requests_ok es'" "mb_inv n (es_books es') = mb_inv n (es_books es)"
    using assms by (simp_all add: sim_kept_def requests_ok_def)
  assume r: "reports_ok es"
  then obtain new where new: "report_ring es'" "pending es' = pending es @ new"
    "\<forall>r \<in> set new. rt_deliver r = saturating_add (es_clock es) (sc_report_latency_ns (es_cfg es))"
    using assms by (auto simp: sim_kept_def reported_def reports_ok_def)
  have "sorted (map rt_deliver new)" using new(3) by (induction new) auto
  then show "reports_ok es'" using r new assms by (auto simp: reports_ok_def sim_kept_def sorted_append)
qed

lemma saturating_mono: "a \<le> b \<Longrightarrow> saturating_add a l \<le> saturating_add b l"
proof -
  assume ab: "a \<le> b"
  show ?thesis
  proof (cases "b > - 1 - l")
    case True
    then show ?thesis by (simp add: saturating_add_def)
  next
    case False
    then have b: "unat b + unat l < 2 ^ 64" using False [unfolded word_gt_max_minus_iff] by simp
    moreover have "unat a \<le> unat b" using ab by (simp add: word_le_nat_alt)
    ultimately have a: "unat a + unat l < 2 ^ 64" by simp
    then have "\<not> a > - 1 - l" unfolding word_gt_max_minus_iff by simp
    moreover have "a + l \<le> b + l" using a b ab by (simp add: word_le_nat_alt unat_add_no_overflow)
    ultimately show ?thesis using False by (simp add: saturating_add_def)
  qed
qed

text \<open>Time goes on: the clock never steps back and no new report is due before it.\<close>

definition later :: "ExchangeSim \<Rightarrow> ExchangeSim \<Rightarrow> bool" where
  "later es es' \<longleftrightarrow> es_clock es \<le> es_clock es' \<and>
     (report_ring es \<longrightarrow> report_ring es' \<and> (\<exists>new. pending es' = pending es @ new \<and> (\<forall>r \<in> set new. es_clock es \<le> rt_deliver r)))"

lemma later_refl [simp]: "later es es"
  by (simp add: later_def)

lemma later_trans:
  assumes "later a b" "later b c"
  shows "later a c"
proof -
  have "\<exists>new. pending c = pending a @ new \<and> (\<forall>r \<in> set new. es_clock a \<le> rt_deliver r)" if ring: "report_ring a"
  proof -
    obtain n1 n2 where "pending b = pending a @ n1" "\<forall>r \<in> set n1. es_clock a \<le> rt_deliver r"
      "pending c = pending b @ n2" "\<forall>r \<in> set n2. es_clock b \<le> rt_deliver r" "es_clock a \<le> es_clock b"
      using assms ring by (auto simp: later_def)
    then show ?thesis by (intro exI [of _ "n1 @ n2"]) auto
  qed
  then show ?thesis using assms by (auto simp: later_def)
qed

lemma saturating_ge: "a \<le> saturating_add a l"
proof (cases "a > - 1 - l")
  case False
  then have "unat a + unat l < 2 ^ 64" using False [unfolded word_gt_max_minus_iff] by simp
  then show ?thesis using False by (simp add: saturating_add_def word_le_nat_alt unat_add_no_overflow)
qed (simp add: saturating_add_def)

lemma sim_kept_later: "sim_kept es es' \<Longrightarrow> later es es'"
  using saturating_ge by (auto simp: sim_kept_def reported_def later_def)

lemma later_fields:
  assumes "es_reports es' = es_reports es" "es_report_head es' = es_report_head es" "es_report_count es' = es_report_count es"
    "es_clock es \<le> es_clock es'"
  shows "later es es'"
  using assms by (simp add: later_def pending_def report_ring_def)

lemma order_side: "mb_inv n mb \<Longrightarrow> mb_order mb r = Some i \<Longrightarrow> valid_side (oi_side i)"
  using mb_invD(4) [of n mb] conserveD(2) [of "live mb" "mb_book mb" r]
  by (auto simp: mb_order_live Market_Books.order_ok_def)

lemma xs_books_on_ok:
  assumes inv: "sim_inv n es" and n: "1 \<le> n" "n < 2 ^ 64 - 1"
  shows "\<exists>es' res. xs_books_on al m es = Some (es', res) \<and> sim_inv (n + 1) es' \<and> es' = es\<lparr>es_books := es_books es'\<rparr> \<and> later es es'"
proof -
  have "mb_inv n (es_books es)" using inv by (auto simp: sim_inv_def)
  from mb_on_spec [OF this n, of al m] obtain mb res where mb: "mb_on al m (es_books es) = Some (mb, res)" "mb_inv (n + 1) mb"
    by blast
  have "same_store es (es\<lparr>es_books := mb\<rparr>)" by simp
  from sim_at_same [OF this] have "sim_inv (n + 1) (es\<lparr>es_books := mb\<rparr>)" using inv mb(2) 
    by (auto simp: sim_inv_def requests_ok_def reports_ok_def report_ring_def pending_def)
  then show ?thesis using mb(1) later_fields [of "es\<lparr>es_books := mb\<rparr>" es] by (auto simp: xs_books_on_def)
qed

lemma sim_inv_sweep: "sim_inv n es \<Longrightarrow> \<exists>es'. xs_sweep_through loc side px es = Some es' \<and> sim_inv n es' \<and> later es es'"
  unfolding sim_inv_def using sweep_ok sim_kept_inv sim_kept_later by blast

lemma sim_inv_consume: "sim_inv n es \<Longrightarrow> valid_side side \<Longrightarrow> \<exists>es'. xs_consume loc side p px S es = Some es' \<and> sim_inv n es' \<and> later es es'"
  unfolding sim_inv_def using consume_ok sim_kept_inv sim_kept_later by blast

lemma xs_apply_ok:
  assumes inv: "sim_inv n es" and n: "1 \<le> n" "n < 2 ^ 64 - 1"
  shows "\<exists>es'. xs_apply al m es = Some es' \<and> sim_inv (n + 1) es' \<and> later es es'"
proof -
  obtain e res where e: "xs_books_on al m es = Some (e, res)" "sim_inv (n + 1) e" "later es e" using xs_books_on_ok [OF assms] by blast
  have side: "valid_side (oi_side i)" if "mb_order (es_books es) r = Some i" for r i
    using order_side that inv by (auto simp: sim_inv_def)
  have "\<exists>es'. xs_sweep_through loc side px e = Some es' \<and> sim_inv (n + 1) es' \<and> later es es'" for loc side px
    using sim_inv_sweep [OF e(2)] later_trans [OF e(3)] by blast
  moreover have "\<exists>es'. xs_consume loc side p px S e = Some es' \<and> sim_inv (n + 1) es' \<and> later es es'" if "valid_side side" for loc side p px S
    using sim_inv_consume [OF e(2) that] later_trans [OF e(3)] by blast
  note loops = calculation this
  show ?thesis
    using e loops side
    by (cases m) (auto simp: xs_apply_add_def xs_apply_executed_def xs_apply_executed_price_def xs_apply_replace_def split: option.split)
qed

section \<open>Requests\<close>

lemma sim_inv_clock:
  assumes "sim_inv n es" "es_clock es \<le> c"
  shows "sim_inv n (es\<lparr>es_clock := c\<rparr>)"
proof -
  have ss: "same_store es (es\<lparr>es_clock := c\<rparr>)" by simp
  have "reports_ok (es\<lparr>es_clock := c\<rparr>)"
    using assms saturating_mono [OF assms(2)]
    by (auto simp: sim_inv_def reports_ok_def report_ring_def pending_def intro: order_trans)
  then show ?thesis using assms(1) sim_at_same [OF ss] by (auto simp: sim_inv_def requests_ok_def)
qed

text \<open>The request at the front leaves the queue; the clock moves to its arrival.\<close>

lemma sim_inv_dequeue:
  assumes inv: "sim_inv n es" and q: "es_queued es \<noteq> 0"
  shows "request_ok (es_requests es ! es_req_head es)"
    "sim_inv n (es\<lparr>es_req_head := (es_req_head es + 1) mod length (es_requests es), es_queued := es_queued es - 1,
       es_reserved := v, es_clock := max (es_clock es) c\<rparr>)"
proof -
  have ne: "es_requests es \<noteq> []" "es_req_head es < length (es_requests es)" using inv q by (auto simp: sim_inv_def requests_ok_def)
  then show "request_ok (es_requests es ! es_req_head es)" using inv by (auto simp: sim_inv_def requests_ok_def)
  let ?e = "es\<lparr>es_req_head := (es_req_head es + 1) mod length (es_requests es), es_queued := es_queued es - 1, es_reserved := v\<rparr>"
  have "same_store es ?e" by (simp add: same_store_def)
  from sim_at_same [OF this] have "sim_inv n ?e"
    using inv ne by (auto simp: sim_inv_def requests_ok_def reports_ok_def report_ring_def pending_def)
  from sim_inv_clock [OF this, of "max (es_clock es) c"]
  show "sim_inv n (es\<lparr>es_req_head := (es_req_head es + 1) mod length (es_requests es), es_queued := es_queued es - 1,
       es_reserved := v, es_clock := max (es_clock es) c\<rparr>)" by simp
qed

lemma sim_inv_kept:
  assumes "sim_inv n es" "sim_at {} ws es'" "sim_kept es es'"
  shows "sim_inv n es'"
  using assms sim_kept_inv [OF assms(3)] by (auto simp: sim_inv_def)

definition handle :: "Request \<Rightarrow> ExchangeSim \<Rightarrow> ExchangeSim option" where
  "handle r es = (case rq_kind r of RK_enter \<Rightarrow> xs_on_enter r es | RK_cancel \<Rightarrow> xs_on_cancel r es | RK_replace \<Rightarrow> xs_on_replace r es)"

lemma handle_ok:
  assumes inv: "sim_inv n es" and r: "request_ok r"
  shows "\<exists>es'. handle r es = Some es' \<and> sim_inv n es' \<and> sim_kept es es'"
proof -
  obtain ws where at: "sim_at {} ws es" using inv by (auto simp: sim_inv_def)
  have "\<exists>es' ws'. handle r es = Some es' \<and> sim_at {} ws' es' \<and> sim_kept es es'"
    using xs_on_enter_ok [OF at r] xs_on_cancel_ok [OF at, of r] xs_on_replace_ok [OF at r]
    by (cases "rq_kind r") (simp_all add: handle_def)
  then show ?thesis using sim_inv_kept [OF inv] by blast
qed

lemma advance_ok:
  "sim_inv n es \<Longrightarrow> \<exists>es'. xs_advance now es = Some es' \<and> sim_inv n es' \<and> later es es' \<and>
     (es_queued es' = 0 \<or> now < rq_arrival (es_requests es' ! es_req_head es'))"
proof (induction "es_queued es" arbitrary: es rule: less_induct)
  case less
  show ?case
  proof (cases "es_queued es \<noteq> 0 \<and> rq_arrival (es_requests es ! es_req_head es) \<le> now")
    case False
    then show ?thesis using less.prems by (subst xs_advance.simps) (auto simp: not_le)
  next
    case True
    let ?r = "es_requests es ! es_req_head es"
    let ?e = "es\<lparr>es_req_head := (es_req_head es + 1) mod length (es_requests es), es_queued := es_queued es - 1,
       es_reserved := es_reserved es - report_cost es (rq_kind ?r), es_clock := max (es_clock es) (rq_arrival ?r)\<rparr>"
    have ok: "request_ok ?r" "sim_inv n ?e" using sim_inv_dequeue [OF less.prems] True by blast+
    obtain e where e: "handle ?r ?e = Some e" "sim_inv n e" "sim_kept ?e e" using handle_ok [OF ok(2,1)] by blast
    then have "es_queued e < es_queued es" using True by (simp add: sim_kept_def)
    from less.hyps [OF this e(2)] obtain es' where es': "xs_advance now e = Some es'" "sim_inv n es'" "later e es'"
      "es_queued es' = 0 \<or> now < rq_arrival (es_requests es' ! es_req_head es')" by blast
    have "later es ?e" by (rule later_fields) simp_all
    then have l: "later es es'" using later_trans sim_kept_later [OF e(3)] es'(3) by blast
    have "xs_advance now es = Some es'"
      using True e(1) es'(1) by (subst xs_advance.simps) (simp add: Let_def handle_def)
    then show ?thesis using es'(2,4) l by blast
  qed
qed

section \<open>Sending and draining\<close>

text \<open>The overload set \<^verbatim>\<open>send\<close> of the gateway interface.\<close>

datatype sim_request = SR_enter EnterOrder | SR_cancel CancelOrder | SR_replace ReplaceOrder

fun xs_send :: "sim_request \<Rightarrow> Nanos \<Rightarrow> ExchangeSim \<Rightarrow> bool \<times> ExchangeSim" where
  "xs_send (SR_enter m) now es = xs_send_enter m now es"
| "xs_send (SR_cancel m) now es = xs_send_cancel m now es"
| "xs_send (SR_replace m) now es = xs_send_replace m now es"

text \<open>The sizes the C++ types fix, and an enumerator of \<^verbatim>\<open>Side\<close> in an enter.\<close>

fun sim_request_ok :: "sim_request \<Rightarrow> bool" where
  "sim_request_ok (SR_enter m) = (length (eo_token m) = 14 \<and> length (eo_stock m) = 8 \<and> length (eo_firm m) = 4 \<and> valid_side (eo_side m))"
| "sim_request_ok (SR_cancel m) = (length (co_token m) = 14)"
| "sim_request_ok (SR_replace m) = (length (ro_existing m) = 14 \<and> length (ro_replacement m) = 14)"

text \<open>A call that touches the request queue only.\<close>

definition requests_only :: "ExchangeSim \<Rightarrow> ExchangeSim \<Rightarrow> bool" where
  "requests_only es es' \<longleftrightarrow> es' = es\<lparr>es_requests := es_requests es', es_queued := es_queued es', es_reserved := es_reserved es'\<rparr> \<and>
     (requests_ok es \<longrightarrow> requests_ok es')"

lemma requests_only_refl: "requests_only es es"
  by (simp add: requests_only_def)

lemma requests_only_trans: "requests_only a b \<Longrightarrow> requests_only b c \<Longrightarrow> requests_only a c"
  by (cases a; cases b; cases c; simp add: requests_only_def)

lemma requests_only_inv:
  assumes "requests_only es es'" "sim_inv n es"
  shows "sim_inv n es'" "pending es' = pending es" "es_reports es' = es_reports es"
    "es_report_head es' = es_report_head es" "es_report_count es' = es_report_count es"
proof -
  have e: "es' = es\<lparr>es_requests := es_requests es', es_queued := es_queued es', es_reserved := es_reserved es'\<rparr>"
    using assms(1) by (simp add: requests_only_def)
  have f: "same_store es es'" "es_books es' = es_books es" "es_reports es' = es_reports es" "es_report_head es' = es_report_head es"
    "es_report_count es' = es_report_count es" "es_clock es' = es_clock es" "es_cfg es' = es_cfg es"
    unfolding same_store_def by (subst e, simp)+
  then show "pending es' = pending es" "es_reports es' = es_reports es" "es_report_head es' = es_report_head es"
    "es_report_count es' = es_report_count es" by (simp_all add: pending_def)
  show "sim_inv n es'" using assms sim_at_same [OF f(1)] f
    by (auto simp: sim_inv_def requests_only_def reports_ok_def report_ring_def pending_def)
qed

lemma xs_enqueue_only: "request_ok r \<Longrightarrow> requests_only es (snd (xs_enqueue r now es))"
proof -
  assume r: "request_ok r"
  have "request_ok (r\<lparr>rq_arrival := a\<rparr>)" for a using r by (simp add: request_ok_def)
  then show ?thesis
    using set_update_subset_insert [of "es_requests es"]
    by (auto simp: xs_enqueue_def requests_only_def requests_ok_def dest!: subsetD)
qed

lemma sizes_default: "length blank_token = 14" "length Symbol_blank = 8"
  by (simp_all add: blank_token_def kTokenSize_def Symbol_blank_def kSymbolSize_def)

lemma xs_send_only: "sim_request_ok m \<Longrightarrow> requests_only es (snd (xs_send m now es))"
  by (cases m) (auto simp: xs_send_enter_def xs_send_cancel_def xs_send_replace_def request_ok_def Request_new_def sizes_default
      intro!: xs_enqueue_only)

text \<open>A callback that answers each report with some sends, and keeps a log of what it was given.\<close>

definition send_all :: "(sim_request \<times> Nanos) list \<Rightarrow> ExchangeSim \<Rightarrow> ExchangeSim" where
  "send_all ms es = fold (\<lambda>(m, now) es. snd (xs_send m now es)) ms es"

definition answering :: "(u8 list \<Rightarrow> Nanos \<Rightarrow> (sim_request \<times> Nanos) list) \<Rightarrow> u8 list \<Rightarrow> Nanos \<Rightarrow>
    ExchangeSim \<times> (u8 list \<times> Nanos) list \<Rightarrow> ExchangeSim \<times> (u8 list \<times> Nanos) list" where
  "answering a bytes t st = (send_all (a bytes t) (fst st), snd st @ [(bytes, t)])"

definition answers_ok :: "(u8 list \<Rightarrow> Nanos \<Rightarrow> (sim_request \<times> Nanos) list) \<Rightarrow> bool" where
  "answers_ok a \<longleftrightarrow> (\<forall>bytes t. \<forall>m \<in> set (a bytes t). sim_request_ok (fst m))"

lemma send_all_only: "(\<And>m. m \<in> set ms \<Longrightarrow> sim_request_ok (fst m)) \<Longrightarrow> requests_only es (send_all ms es)"
proof (induction ms arbitrary: es)
  case Nil
  then show ?case by (simp add: send_all_def requests_only_refl)
next
  case (Cons m ms)
  have "requests_only es (snd (xs_send (fst m) (snd m) es))" by (rule xs_send_only) (use Cons.prems in simp)
  moreover have "requests_only (snd (xs_send (fst m) (snd m) es)) (send_all ms (snd (xs_send (fst m) (snd m) es)))"
    using Cons.prems by (intro Cons.IH) simp
  moreover have "send_all (m # ms) es = send_all ms (snd (xs_send (fst m) (snd m) es))"
    by (simp add: send_all_def case_prod_unfold)
  ultimately show ?case using requests_only_trans by simp
qed

lemma pending_Cons:
  assumes "report_ring es" "es_report_count es \<noteq> 0"
  shows "pending es = es_reports es ! es_report_head es #
    pending (es\<lparr>es_report_head := (es_report_head es + 1) mod length (es_reports es), es_report_count := es_report_count es - 1\<rparr>)"
proof -
  have h: "es_report_head es mod length (es_reports es) = es_report_head es" using assms(1) by (simp add: report_ring_def)
  have up: "[0..<es_report_count es] = 0 # map Suc [0..<es_report_count es - 1]"
    using assms(2) by (simp add: map_Suc_upt upt_conv_Cons)
  show ?thesis unfolding pending_def up by (simp add: h comp_def mod_add_left_eq)
qed

lemma reports_ok_pop:
  assumes "reports_ok es" "es_report_count es \<noteq> 0"
    and "e = es\<lparr>es_report_head := (es_report_head es + 1) mod length (es_reports es), es_report_count := es_report_count es - 1\<rparr>"
  shows "reports_ok e" "pending es = es_reports es ! es_report_head es # pending e"
proof -
  have ring: "report_ring es" using assms(1) by (simp add: reports_ok_def)
  show p: "pending es = es_reports es ! es_report_head es # pending e" using pending_Cons [OF ring assms(2)] assms(3) by simp
  have "report_ring e" using ring assms(3) by (auto simp: report_ring_def intro!: mod_less_divisor)
  then show "reports_ok e" using assms(1,3) p by (simp add: reports_ok_def)
qed

lemma sorted_due: "sorted (map f xs) \<Longrightarrow> x \<in> set xs \<Longrightarrow> hd (map f xs) \<le> f x" for f :: "'a \<Rightarrow> 'b::linorder"
  by (cases xs) auto

text \<open>
  The loop with any callback that only sends: what holds of its state and the reports handed over so far
  (\<open>I\<close>) still holds after the last report that is due, and so does what the callback keeps of the simulator and
  the ring of reports has no part in (\<open>Q\<close>).
\<close>

abbreviation handed :: "Nanos \<Rightarrow> ExchangeSim \<Rightarrow> (u8 list \<times> Nanos) list" where
  "handed now es \<equiv> map (\<lambda>r. (take (rt_length r) (rt_bytes r), rt_deliver r)) (filter (\<lambda>r. rt_deliver r \<le> now) (pending es))"

lemma drain_rule:
  assumes "sim_inv n es" "I log s" "Q es"
    and step: "\<And>es bytes t log s. sim_inv n es \<Longrightarrow> I log s \<Longrightarrow> Q es \<Longrightarrow>
      requests_only es (fst (f bytes t (es, s))) \<and> I (log @ [(bytes, t)]) (snd (f bytes t (es, s))) \<and> Q (fst (f bytes t (es, s)))"
    and pop: "\<And>es h c. Q es \<Longrightarrow> Q (es\<lparr>es_report_head := h, es_report_count := c\<rparr>)"
  shows "\<exists>es' s'. xs_drain_reports now f es s = Some (es', s') \<and> I (log @ handed now es) s' \<and> Q es' \<and>
    sim_inv n es' \<and> pending es' = filter (\<lambda>r. \<not> rt_deliver r \<le> now) (pending es)"
  using assms(1-3)
proof (induction "length (pending es)" arbitrary: es log s)
  case 0
  then have "es_report_count es = 0" "pending es = []" by (simp_all add: pending_def)
  then show ?case using 0 by (subst xs_drain_reports.simps) simp
next
  case (Suc k)
  have cnt: "es_report_count es \<noteq> 0" using Suc.hyps(2) by (auto simp: pending_def)
  have rok: "reports_ok es" using Suc.prems by (simp add: sim_inv_def)
  let ?r = "es_reports es ! es_report_head es"
  have hd: "pending es = ?r # tl (pending es)" using reports_ok_pop(2) [OF rok cnt refl] by simp
  show ?case
  proof (cases "rt_deliver ?r \<le> now")
    case False
    have "\<not> rt_deliver x \<le> now" if "x \<in> set (pending es)" for x
      using sorted_due [of rt_deliver "pending es" x] rok that hd False by (auto simp: reports_ok_def) (metis hd hd_map list.sel(1) list.distinct(1) order_trans)
    then have "filter (\<lambda>r. rt_deliver r \<le> now) (pending es) = []" "filter (\<lambda>r. \<not> rt_deliver r \<le> now) (pending es) = pending es"
      by (auto simp: filter_empty_conv filter_id_conv)
    then show ?thesis using Suc.prems cnt iffD1 [OF not_le False] by (subst xs_drain_reports.simps) simp
  next
    case True
    let ?b = "take (rt_length ?r) (rt_bytes ?r)"
    define e s1 where "e = fst (f ?b (rt_deliver ?r) (es, s))" and "s1 = snd (f ?b (rt_deliver ?r) (es, s))"
    have ro: "requests_only es e" and s1: "I (log @ [(?b, rt_deliver ?r)]) s1" and qe: "Q e"
      using step [OF Suc.prems, of ?b "rt_deliver ?r"] by (simp_all add: e_def s1_def)
    note q = requests_only_inv [OF ro Suc.prems(1)]
    let ?f = "e\<lparr>es_report_head := (es_report_head e + 1) mod length (es_reports e), es_report_count := es_report_count e - 1\<rparr>"
    have rest: "reports_ok ?f" "pending e = ?r # pending ?f"
      using reports_ok_pop [of e ?f] q cnt by (simp_all add: sim_inv_def)
    have ss: "same_store e ?f" by (simp add: same_store_def)
    have fi: "sim_inv n ?f" using q(1) rest(1) sim_at_same [OF ss] by (auto simp: sim_inv_def requests_ok_def)
    have "k = length (pending ?f)" using Suc.hyps(2) rest(2) q(2) by simp
    from Suc.hyps(1) [OF this fi s1 pop [OF qe]] obtain es' s' where
      es': "xs_drain_reports now f ?f s1 = Some (es', s')" "I ((log @ [(?b, rt_deliver ?r)]) @ handed now ?f) s'" "Q es'"
      "sim_inv n es'" "pending es' = filter (\<lambda>r. \<not> rt_deliver r \<le> now) (pending ?f)" by blast
    have "f ?b (rt_deliver ?r) (es, s) = (e, s1)" by (simp add: e_def s1_def)
    then have "xs_drain_reports now f es s = xs_drain_reports now f ?f s1"
      using cnt leD [OF True] by (subst xs_drain_reports.simps) (simp add: Let_def)
    moreover have "pending es = ?r # pending ?f" using rest(2) q(2) by simp
    ultimately show ?thesis using es' True by auto
  qed
qed

lemma drain_ok:
  assumes "sim_inv n es" "answers_ok a"
  shows "\<exists>es'. xs_drain_reports now (answering a) es log = Some (es', log @ handed now es) \<and>
    sim_inv n es' \<and> pending es' = filter (\<lambda>r. \<not> rt_deliver r \<le> now) (pending es)"
proof -
  have "requests_only e (fst (answering a b t (e, l))) \<and> snd (answering a b t (e, l)) = l @ [(b, t)]" for e b t l
    using assms(2) by (auto simp: answering_def answers_ok_def intro!: send_all_only)
  then show ?thesis using drain_rule [of n es "\<lambda>lg s. s = log @ lg" "[]" log "\<lambda>_. True" "answering a" now] assms(1) by auto
qed

section \<open>Runs\<close>

lemma decode_outcome: "\<exists>st h'. decode on msg h = Some (st, h') \<and> (if st = DS_ok then \<exists>m. h' = on m h else h' = h)"
  using decode_body_decoded [of msg on h] by (auto simp: decode_dispatch decoded_def)

text \<open>
  The calls of the interface, in any order: a send, time passing, a market message (with the outcome of
  the allocations it makes), and a drain whose callback may answer each report with sends.
\<close>

datatype sim_event =
  SE_send sim_request Nanos
| SE_advance Nanos
| SE_itch alloc "u8 list" Nanos
| SE_drain Nanos "u8 list \<Rightarrow> Nanos \<Rightarrow> (sim_request \<times> Nanos) list"

fun sim_step :: "sim_event \<Rightarrow> ExchangeSim \<Rightarrow> ExchangeSim option" where
  "sim_step (SE_send m now) es = Some (snd (xs_send m now es))"
| "sim_step (SE_advance now) es = xs_advance now es"
| "sim_step (SE_itch al msg now) es = xs_on_itch al msg now es"
| "sim_step (SE_drain now a) es = map_option fst (xs_drain_reports now (answering a) es [])"

primrec sim_run :: "sim_event list \<Rightarrow> ExchangeSim \<Rightarrow> ExchangeSim option" where
  "sim_run [] es = Some es"
| "sim_run (v # vs) es = sim_step v es \<bind> sim_run vs"

fun sim_event_ok :: "sim_event \<Rightarrow> bool" where
  "sim_event_ok (SE_send m now) = sim_request_ok m"
| "sim_event_ok (SE_advance now) = True"
| "sim_event_ok (SE_itch al msg now) = True"
| "sim_event_ok (SE_drain now a) = answers_ok a"

lemma xs_on_itch_ok:
  assumes inv: "sim_inv n es" and n: "1 \<le> n" "n < 2 ^ 64 - 1"
  shows "\<exists>es'. xs_on_itch al msg now es = Some es' \<and> sim_inv (n + 1) es' \<and>
    (\<exists>e. xs_advance now es = Some e \<and> later (e\<lparr>es_clock := max (es_clock e) now\<rparr>) es')"
proof -
  obtain e where e: "xs_advance now es = Some e" "sim_inv n e" "later es e" using advance_ok [OF inv] by blast
  let ?e = "e\<lparr>es_clock := max (es_clock e) now\<rparr>"
  have ce: "sim_inv n ?e" using e(2) by (rule sim_inv_clock) simp
  then have ce': "sim_inv (n + 1) ?e" using mb_inv_mono by (auto simp: sim_inv_def)
  obtain st h' where d: "decode (\<lambda>m h. h \<bind> xs_apply al m) msg (Some ?e) = Some (st, h')"
      "(if st = DS_ok then \<exists>m. h' = Some ?e \<bind> xs_apply al m else h' = Some ?e)"
    using decode_outcome [of "\<lambda>m h. h \<bind> xs_apply al m" msg "Some ?e"] by auto
  have "\<exists>es'. h' = Some es' \<and> sim_inv (n + 1) es' \<and> later ?e es'"
    using d(2) xs_apply_ok [OF ce n] ce' by (cases "st = DS_ok") auto
  then obtain es' where es': "h' = Some es'" "sim_inv (n + 1) es'" "later ?e es'" by blast
  then show ?thesis using e(1) d(1) by (auto simp: xs_on_itch_def)
qed

lemma sim_step_ok:
  assumes "sim_inv n es" "1 \<le> n" "n < 2 ^ 64 - 1" "sim_event_ok v"
  shows "\<exists>es'. sim_step v es = Some es' \<and> sim_inv (n + 1) es'"
proof -
  have up: "sim_inv (n + 1) x" if "sim_inv n x" for x using that mb_inv_mono by (auto simp: sim_inv_def)
  show ?thesis
  proof (cases v)
    case (SE_send m now)
    then show ?thesis using assms up requests_only_inv(1) [OF xs_send_only [of m es now] assms(1)] by auto
  next
    case (SE_advance now)
    then show ?thesis using advance_ok [OF assms(1)] up by fastforce
  next
    case (SE_itch al msg now)
    then show ?thesis using xs_on_itch_ok [OF assms(1-3), of al msg now] by auto
  next
    case (SE_drain now a)
    then show ?thesis using drain_ok [OF assms(1), of a now "[]"] assms(4) up by auto
  qed
qed

lemma sim_run_ok:
  "sim_inv n es \<Longrightarrow> 1 \<le> n \<Longrightarrow> n + length vs < 2 ^ 64 \<Longrightarrow> \<forall>v \<in> set vs. sim_event_ok v \<Longrightarrow>
     \<exists>es'. sim_run vs es = Some es' \<and> sim_inv (n + length vs) es'"
proof (induction vs arbitrary: n es)
  case (Cons v vs)
  obtain e where e: "sim_step v es = Some e" "sim_inv (n + 1) e" using sim_step_ok [of n es v] Cons.prems by auto
  then show ?case using Cons.IH [of "n + 1" e] Cons.prems by auto
qed simp

lemma ExchangeSim_new_inv:
  assumes "ExchangeSim_new config = Some es"
  shows "sim_inv 1 es" "pending es = []" "\<not> is_live es h"
proof -
  obtain mb p tb where n: "MarketBooks_new (sc_books config) = Some mb" "sp_new SimOrder_new (sc_max_orders config) = Some p"
    "fhm_new (sc_max_orders config) = Some tb"
    and es: "es = \<lparr>es_cfg = config, es_books = mb, es_requests = replicate (sc_max_orders config) Request_new,
       es_req_head = 0, es_queued = 0, es_reserved = 0, es_orders = p, es_by_token = tb,
       es_heads = replicate (2 * kLocates) kNil, es_tails = replicate (2 * kLocates) kNil,
       es_reports = replicate (max 1024 (4 * sc_max_orders config)) Report_new, es_report_head = 0,
       es_report_count = 0, es_clock = 0, es_next_ref = 1, es_match = 0, es_fills = 0, es_dropped_reports = 0\<rparr>"
    using assms by (auto simp: ExchangeSim_new_def bind_eq_Some_conv)
  note st = sp_new_stack [OF n(2)]
  have dead: "\<not> is_live es h" for h using live_card [OF st(1)] st(2) by (auto simp: is_live_def es live_set_def)
  have "table_at es"
    using fhm_new_spec [OF n(3)] fhm_new_find [OF n(3)] st(2) dead by (auto simp: table_at_def) (simp_all add: es)
  moreover have "pool_at es" using st(1) by (auto simp: pool_at_def es)
  moreover have "lists_at {} (\<lambda>_. []) es" using dead by (auto simp: lists_at_def kSlots_def dlist_def) (simp_all add: es)
  moreover have "orders_at {} es" using dead by (simp add: orders_at_def)
  ultimately have "sim_at {} (\<lambda>_. []) es" using dead by (simp add: sim_at_def es_at_def queue_ok_def)
  moreover have "requests_ok es" by (auto simp: requests_ok_def es request_ok_def Request_new_def sizes_default)
  moreover have p: "pending es = []" by (simp add: pending_def es)
  then have "reports_ok es" by (simp add: reports_ok_def report_ring_def) (simp add: es Report_new_def less_max_iff_disj)
  moreover have "mb_inv 1 (es_books es)" using MarketBooks_new_inv(1) [OF n(1)] by (simp add: es)
  ultimately show "sim_inv 1 es" by (auto simp: sim_inv_def)
  show "pending es = []" "\<not> is_live es h" using p dead by simp_all
qed

text \<open>The state after a run, with its lists.\<close>

lemma sim_state:
  assumes "ExchangeSim_new config = Some es0" "length vs < 2 ^ 64 - 1" "\<forall>v \<in> set vs. sim_event_ok v"
  obtains es ws where "sim_run vs es0 = Some es" "sim_inv (1 + length vs) es" "sim_at {} ws es"
proof -
  have "1 + length vs < 2 ^ 64" using assms(2) by simp
  from sim_run_ok [OF ExchangeSim_new_inv(1) [OF assms(1)] _ this assms(3)] show ?thesis using that by (auto simp: sim_inv_def)
qed

section \<open>Claims\<close>

text \<open>
  The handles of the working orders on one side of an instrument, in arrival order: what the links
  from the head of the list spell out.
\<close>

definition order_list :: "ExchangeSim \<Rightarrow> Locate \<Rightarrow> Side \<Rightarrow> Handle list \<Rightarrow> bool" where
  "order_list es loc side hs \<longleftrightarrow>
     dlist (prevs es) (nexts es) kNil (es_heads es ! list_slot loc side) (es_tails es ! list_slot loc side) hs \<and>
     (\<forall>h. h \<in> set hs \<longleftrightarrow> is_live es h \<and> slot_of (ord es h) = list_slot loc side)"

lemma order_list_at: "es_at {} ws es \<Longrightarrow> valid_side side \<Longrightarrow> order_list es loc side (ws (list_slot loc side))"
  using es_at_list [OF _ list_slot_bound] by (simp add: order_list_def)

lemma queue_nth:
  assumes "queue_ok (map (ord es) hs)" "i < j" "j < length hs" "so_price (ord es (hs ! i)) = so_price (ord es (hs ! j))"
  shows "ah (ord es (hs ! i)) + lv (ord es (hs ! i)) \<le> ah (ord es (hs ! j))"
  using assms sorted_wrt_nth_less [of fifo "map (ord es) hs" i j] by (simp add: queue_ok_def fifo_def)

text \<open>
  Claim C23: every call on the simulator returns, in any sequence of sends, market messages, passing time
  and drains. The loops over the order lists end, no message makes the codecs read outside a buffer.
  Afterwards each working order has a side, a positive open quantity, a legal price, and an open plus
  executed quantity of at most 999 999 shares; the token index finds exactly the working orders.
\<close>

theorem exchange_sim_always_returns:
  assumes "ExchangeSim_new config = Some es0" "length vs < 2 ^ 64 - 1" "\<forall>v \<in> set vs. sim_event_ok v"
  shows "\<exists>es. sim_run vs es0 = Some es \<and>
    (\<forall>h. is_live es h \<longrightarrow> valid_side (so_side (ord es h)) \<and> so_leaves (ord es h) \<noteq> 0 \<and>
       unat (so_leaves (ord es h)) + unat (so_filled (ord es h)) \<le> 999999 \<and>
       0 < so_price (ord es h) \<and> so_price (ord es h) \<le> kMaxPrice) \<and>
    (\<forall>t h. fhm_find TokenHash (es_by_token es) t = Some h \<longleftrightarrow> is_live es h \<and> so_token (ord es h) = t)"
proof -
  obtain es ws where r: "sim_run vs es0 = Some es" "sim_inv (1 + length vs) es" "sim_at {} ws es" using sim_state [OF assms] .
  note a = sim_atD [OF r(3)]
  have "sim_order_ok (ord es h) \<and> so_leaves (ord es h) \<noteq> 0" if "is_live es h" for h
    using es_at_order(1) [OF a(1) that] a(2) [OF that] by simp
  then show ?thesis using r(1) a(1) by (auto simp: sim_order_ok_def es_at_def table_at_def)
qed

text \<open>
  Claim C11: the order lists are intact after any run, and our own orders queue fairly. On each side of an
  instrument the links from head to tail spell out exactly the working orders there; an order that
  arrived later at a price has in front of it at least everything the earlier one has in front of it
  and the whole of that order. A later order is therefore never nearer to a fill than an earlier one,
  whatever cancels, replaces and executions came between.
\<close>

theorem exchange_sim_queue_is_fair:
  assumes "ExchangeSim_new config = Some es0" "length vs < 2 ^ 64 - 1" "\<forall>v \<in> set vs. sim_event_ok v"
    and "sim_run vs es0 = Some es" "valid_side side"
  shows "\<exists>hs. order_list es loc side hs \<and>
    (\<forall>i j. i < j \<and> j < length hs \<and> so_price (ord es (hs ! i)) = so_price (ord es (hs ! j)) \<longrightarrow>
       unat (so_ahead (ord es (hs ! i))) + unat (so_leaves (ord es (hs ! i))) \<le> unat (so_ahead (ord es (hs ! j))))"
proof -
  obtain ws where at: "sim_at {} ws es" using sim_state [OF assms(1-3)] assms(4) by auto
  note a = sim_atD [OF at]
  have "queue_ok (map (ord es) (ws (list_slot loc side)))" by (rule a(3) [OF list_slot_bound [OF assms(5)]])
  from queue_nth [OF this] show ?thesis
    using order_list_at [OF a(1) assms(5)] by (auto simp: ah_def lv_def)
qed

text \<open>
  Claim C12: one displayed execution is shared out among our orders at its level in arrival order. Each
  order there fills by what is left of the execution behind the shares in front of it; the fills add up to at
  most the executed shares; when an order fills at all, every earlier one at the level is completely
  filled. Orders at other prices, sides and instruments keep their terms.
\<close>

theorem execution_fills_in_arrival_order:
  assumes "ExchangeSim_new config = Some es0" "length vs < 2 ^ 64 - 1" "\<forall>v \<in> set vs. sim_event_ok v"
    and "sim_run vs es0 = Some es" "valid_side side"
  shows "\<exists>es' hs. xs_consume loc side p px S es = Some es' \<and> order_list es loc side hs \<and>
    (\<forall>h. is_live es' h \<longleftrightarrow> is_live es h \<and> \<not> (h \<in> set hs \<and> so_price (ord es h) = p \<and> unat (taken S (ord es h)) = unat (so_leaves (ord es h)))) \<and>
    (\<forall>h. is_live es' h \<longrightarrow> terms (ord es' h) = terms (if h \<in> set hs \<and> so_price (ord es h) = p then consumed S (ord es h) else ord es h)) \<and>
    (\<forall>h. unat (taken S (ord es h)) = min (unat (so_leaves (ord es h))) (unat S - unat (so_ahead (ord es h)))) \<and>
    (\<Sum>h\<leftarrow>hs. if so_price (ord es h) = p then unat (taken S (ord es h)) else 0) \<le> unat S \<and>
    (\<forall>i j. i < j \<and> j < length hs \<and> so_price (ord es (hs ! i)) = p \<and> so_price (ord es (hs ! j)) = p \<and> taken S (ord es (hs ! j)) \<noteq> 0 \<longrightarrow>
       taken S (ord es (hs ! i)) = so_leaves (ord es (hs ! i)))"
proof -
  obtain ws where at: "sim_at {} ws es" using sim_state [OF assms(1-3)] assms(4) by auto
  note a = sim_atD [OF at]
  let ?hs = "ws (list_slot loc side)"
  have ol: "order_list es loc side ?hs" by (rule order_list_at [OF a(1) assms(5)])
  have q: "queue_ok (map (ord es) ?hs)" by (rule a(3) [OF list_slot_bound [OF assms(5)]])
  obtain es' where e: "xs_consume loc side p px S es = Some es'"
    "visited (survives p S) (at_level p S) (list_slot loc side) [] ?hs ws es es'"
    using consume_ok [OF at assms(5)] by blast
  have surv: "survives p S (ord es h) \<longleftrightarrow> \<not> (so_price (ord es h) = p \<and> unat (taken S (ord es h)) = unat (so_leaves (ord es h)))"
    if "is_live es h" for h
    using a(2) [OF that] survives_leaves [of "ord es h" p S] consumed_num(2) [of S "ord es h"] taken_num [of S "ord es h"]
    by (auto simp: at_level_def lv_def unat_eq_0 min_def split: if_splits)
  have live: "\<forall>h. is_live es' h \<longleftrightarrow> is_live es h \<and> \<not> (h \<in> set ?hs \<and> so_price (ord es h) = p \<and> unat (taken S (ord es h)) = unat (so_leaves (ord es h)))"
    using e(2) surv by (auto simp: visited_def)
  have trm: "\<forall>h. is_live es' h \<longrightarrow> terms (ord es' h) = terms (if h \<in> set ?hs \<and> so_price (ord es h) = p then consumed S (ord es h) else ord es h)"
    using e(2) by (auto simp: visited_def at_level_def)
  have tot: "(\<Sum>h\<leftarrow>?hs. if so_price (ord es h) = p then unat (taken S (ord es h)) else 0) \<le> unat S"
    using fills_bounded [of "map (ord es) ?hs" p 0 S] q by (simp add: queue_ok_def comp_def)
  have "taken S (ord es (?hs ! i)) = so_leaves (ord es (?hs ! i))"
    if "i < j" "j < length ?hs" "so_price (ord es (?hs ! i)) = p" "so_price (ord es (?hs ! j)) = p" "taken S (ord es (?hs ! j)) \<noteq> 0" for i j
  proof -
    have "unat (taken S (ord es (?hs ! j))) \<noteq> 0" using that(5) by (simp add: unat_eq_0)
    then have "unat (taken S (ord es (?hs ! i))) = lv (ord es (?hs ! i))"
      using queue_nth [OF q that(1,2)] that(3,4) by (auto simp: taken_num intro!: min_absorb1)
    then show ?thesis by (simp add: lv_def word_unat_eq_iff)
  qed
  then show ?thesis using e(1) ol live trm tot taken_num by (auto simp: lv_def ah_def)
qed

text \<open>
  Claim C25: a displayed order that reaches our resting orders on the other side fills exactly those.
  The orders of that list whose limit the new price reaches are filled in list order, each for
  all its leaves at its own limit: the fill counter and the match number grow by their number,
  and one execution report per order is queued behind the reports that wait, in that order, stamped
  with the clock plus the report latency, whose bytes decode to the order's token, its leaves, its limit,
  liquidity added and its own match number; reports that find the ring full are counted as dropped.
  Afterwards these orders are gone, every other order is working with unchanged terms, and the list keeps its order.
\<close>

theorem sweep_fills_exactly_crossed_orders:
  assumes "ExchangeSim_new config = Some es0" "length vs < 2 ^ 64 - 1" "\<forall>v \<in> set vs. sim_event_ok v"
    and "sim_run vs es0 = Some es"
  shows "\<exists>es' hs cs ms rs. xs_sweep_through loc side px es = Some es' \<and> order_list es loc (opposite side) hs \<and>
    cs = filter (\<lambda>h. crosses (opposite side) (so_price (ord es h)) px) hs \<and>
    ms = executions (es_clock es) (es_match es) (map (\<lambda>h. (so_token (ord es h), so_leaves (ord es h), so_price (ord es h))) cs) \<and>
    es_fills es' = es_fills es + of_nat (length cs) \<and> es_match es' = es_match es + of_nat (length cs) \<and>
    pending es' = pending es @ rs \<and>
    list_all2 (carries (saturating_add (es_clock es) (sc_report_latency_ns (es_cfg es)))) (take (room es) ms) rs \<and>
    es_dropped_reports es' = es_dropped_reports es + of_nat (length ms - room es) \<and>
    order_list es' loc (opposite side) (filter (\<lambda>h. \<not> crosses (opposite side) (so_price (ord es h)) px) hs) \<and>
    (\<forall>h. is_live es' h \<longleftrightarrow> is_live es h \<and> h \<notin> set cs) \<and>
    (\<forall>h. is_live es' h \<longrightarrow> terms (ord es' h) = terms (ord es h))"
proof -
  obtain ws where at: "sim_at {} ws es" and ring: "report_ring es"
    using sim_state [OF assms(1-3)] assms(4) by (auto simp: sim_inv_def reports_ok_def)
  note a = sim_atD [OF at]
  let ?hs = "ws (list_slot loc (opposite side))"
  let ?cs = "filter (\<lambda>h. crosses (opposite side) (so_price (ord es h)) px) ?hs"
  obtain es' where e: "xs_sweep_through loc side px es = Some es'"
    "visited (\<lambda>ob. \<not> crosses (opposite side) (so_price ob) px) (\<lambda>ob. ob) (list_slot loc (opposite side)) [] ?hs ws es es'"
    "traded (map (\<lambda>h. (so_token (ord es h), so_leaves (ord es h), so_price (ord es h))) ?cs) es es'"
    using sweep_ok [OF at] by blast
  have at': "es_at {} (ws(list_slot loc (opposite side) := filter (\<lambda>h. \<not> crosses (opposite side) (so_price (ord es h)) px) ?hs)) es'"
    using e(2) by (simp add: visited_def)
  have "order_list es loc (opposite side) ?hs" by (rule order_list_at [OF a(1)]) simp
  moreover have "order_list es' loc (opposite side) (filter (\<lambda>h. \<not> crosses (opposite side) (so_price (ord es h)) px) ?hs)"
    using order_list_at [OF at', of "opposite side" loc] by simp
  ultimately show ?thesis using e ring by (auto simp: visited_def traded_def queues_def)
qed

text \<open>
  Claim C24: a drain hands over every report due at \<open>now\<close> and no other, each with its delivery time, in the order in
  which the reports were generated, which is the order of their delivery times; the callback may send
  requests meanwhile. The reports that are not yet due stay queued in order.
\<close>

theorem drain_delivers_due_reports_in_order:
  assumes "ExchangeSim_new config = Some es0" "length vs < 2 ^ 64 - 1" "\<forall>v \<in> set vs. sim_event_ok v"
    and "sim_run vs es0 = Some es" "answers_ok a"
  shows "sorted (map rt_deliver (pending es)) \<and>
    (\<exists>es'. xs_drain_reports now (answering a) es [] =
       Some (es', map (\<lambda>r. (take (rt_length r) (rt_bytes r), rt_deliver r)) (filter (\<lambda>r. rt_deliver r \<le> now) (pending es))) \<and>
     pending es' = filter (\<lambda>r. now < rt_deliver r) (pending es))"
proof -
  have inv: "sim_inv (1 + length vs) es" using sim_state [OF assms(1-3)] assms(4) by auto
  have "sorted (map rt_deliver (pending es))" using inv by (simp add: sim_inv_def reports_ok_def)
  then show ?thesis using drain_ok [OF inv assms(5), of now "[]"] by (auto simp: not_le)
qed

section \<open>Witnesses\<close>

text \<open>A small simulator, an order sent to it, two market messages (one of them garbage) and a drain.\<close>

definition sample_sim :: SimConfig where
  "sample_sim = \<lparr>sc_order_latency_ns = 5, sc_report_latency_ns = 5, sc_max_orders = 2, sc_books = sample_config\<rparr>"

definition sample_order :: EnterOrder where
  "sample_order = EnterOrder_new\<lparr>eo_shares := 100, eo_price := 10000\<rparr>"

definition sample_events :: "sim_event list" where
  "sample_events = [SE_send (SR_enter sample_order) 1, SE_advance 10, SE_itch sample_alloc [1, 2, 3] 12,
     SE_drain 20 (\<lambda>_ _. [(SR_enter sample_order, 20)])]"

lemma sample_sim_new: "\<exists>es0. ExchangeSim_new sample_sim = Some es0"
proof -
  obtain tb where "fhm_new 2 = Some (tb :: (Token, Handle) fhm)" using fhm_new_returns [of 2] by auto
  moreover obtain p where "sp_new SimOrder_new 2 = Some p" by (simp add: sp_new_def kMaxCapacity_def)
  moreover obtain mb where "MarketBooks_new sample_config = Some mb" using sample_new by blast
  ultimately show ?thesis by (simp add: ExchangeSim_new_def sample_sim_def)
qed

lemma sample_events_ok: "\<forall>v \<in> set sample_events. sim_event_ok v" "length sample_events < 2 ^ 64 - 1"
  by (auto simp: sample_events_def sample_order_def EnterOrder_new_def answers_ok_def sizes_default)

lemma sample_sim_run: "\<exists>es0 es. ExchangeSim_new sample_sim = Some es0 \<and> sim_run sample_events es0 = Some es"
  using sample_sim_new sim_state [OF _ sample_events_ok(2,1)] by metis

theorem exchange_sim_always_returns_witness:
  "\<exists>es0 es. ExchangeSim_new sample_sim = Some es0 \<and> sim_run sample_events es0 = Some es \<and>
    (\<forall>t h. fhm_find TokenHash (es_by_token es) t = Some h \<longleftrightarrow> is_live es h \<and> so_token (ord es h) = t)"
  using sample_sim_new exchange_sim_always_returns [OF _ sample_events_ok(2,1)] by blast

theorem exchange_sim_queue_is_fair_witness:
  "\<exists>es0 es hs. ExchangeSim_new sample_sim = Some es0 \<and> sim_run sample_events es0 = Some es \<and> order_list es 0 Side_buy hs"
  using sample_sim_run exchange_sim_queue_is_fair [OF _ sample_events_ok(2,1), where side = Side_buy] by fastforce

theorem execution_fills_in_arrival_order_witness:
  "\<exists>es0 es es' hs. ExchangeSim_new sample_sim = Some es0 \<and> sim_run sample_events es0 = Some es \<and>
    xs_consume 0 Side_buy 10000 10000 50 es = Some es' \<and> order_list es 0 Side_buy hs \<and>
    (\<Sum>h\<leftarrow>hs. if so_price (ord es h) = 10000 then unat (taken 50 (ord es h)) else 0) \<le> 50"
proof -
  obtain es0 es where r: "ExchangeSim_new sample_sim = Some es0" "sim_run sample_events es0 = Some es" using sample_sim_run by blast
  from execution_fills_in_arrival_order [OF r(1) sample_events_ok(2,1) r(2), of Side_buy 0 10000 10000 50] show ?thesis
    using r by auto
qed

theorem sweep_fills_exactly_crossed_orders_witness:
  "\<exists>es0 es es' hs cs rs. ExchangeSim_new sample_sim = Some es0 \<and> sim_run sample_events es0 = Some es \<and>
    xs_sweep_through 0 Side_sell 9000 es = Some es' \<and> order_list es 0 Side_buy hs \<and>
    cs = filter (\<lambda>h. crosses Side_buy (so_price (ord es h)) 9000) hs \<and> es_fills es' = es_fills es + of_nat (length cs) \<and>
    pending es' = pending es @ rs \<and> (\<forall>h. is_live es' h \<longleftrightarrow> is_live es h \<and> h \<notin> set cs)"
proof -
  obtain es0 es where r: "ExchangeSim_new sample_sim = Some es0" "sim_run sample_events es0 = Some es" using sample_sim_run by blast
  from sweep_fills_exactly_crossed_orders [OF r(1) sample_events_ok(2,1) r(2), of 0 Side_sell 9000] show ?thesis
    using r by auto
qed

theorem drain_delivers_due_reports_in_order_witness:
  "\<exists>es0 es. ExchangeSim_new sample_sim = Some es0 \<and> sim_run sample_events es0 = Some es \<and>
    sorted (map rt_deliver (pending es)) \<and>
    (\<exists>es' log. xs_drain_reports 30 (answering (\<lambda>_ _. [(SR_enter sample_order, 30)])) es [] = Some (es', log))"
proof -
  obtain es0 es where r: "ExchangeSim_new sample_sim = Some es0" "sim_run sample_events es0 = Some es" using sample_sim_run by blast
  have "answers_ok (\<lambda>_ _. [(SR_enter sample_order, 30)])"
    by (simp add: answers_ok_def sample_order_def EnterOrder_new_def sizes_default)
  from drain_delivers_due_reports_in_order [OF r(1) sample_events_ok(2,1) r(2) this, of 30] show ?thesis using r by blast
qed

end
