(* ===== verification/Engine.thy ===== *)
theory Engine
  imports Market_Books Itch_Codec Ouch_Codec Order_Manager_Correct
begin

text \<open>
  The trading engine, \<^verbatim>\<open>src/include/optitrade/engine/engine.hpp\<close>: one feed of market data, one strategy,
  the risk engine and the order manager wired together. The engine is the order manager's listener,
  reference-price source and symbol source, so its own members (books, strategy, counters, the halt
  flag) and the state of the gateway are the \<^emph>\<open>world\<close> of the order manager's model and the whole engine
  is a \<open>sys\<close> over that world. The gateway and the strategy are parameters: the gateway a record of its
  three \<^verbatim>\<open>send\<close> overloads, the strategy a record of its three callbacks, each a function on the whole
  engine because it may call back into the order API.
\<close>

section \<open>Configuration, counters, state\<close>

record EngineConfig =
  ec_books :: Config
  ec_limits :: Limits
  ec_oms :: OmConfig
  ec_max_locates :: nat

record EngineStats =
  et_itch_messages :: u64
  et_itch_skipped :: u64
  et_book_updates :: u64
  et_book_errors :: u64
  et_ouch_reports :: u64
  et_ouch_errors :: u64
  et_feed_gaps :: u64
  et_orders_sent :: u64
  et_risk_rejects :: u64
  et_fills :: u64
  et_capacity_rejects :: u64

definition EngineStats_new :: EngineStats where
  "EngineStats_new = \<lparr>et_itch_messages = 0, et_itch_skipped = 0, et_book_updates = 0, et_book_errors = 0,
     et_ouch_reports = 0, et_ouch_errors = 0, et_feed_gaps = 0, et_orders_sent = 0, et_risk_rejects = 0,
     et_fills = 0, et_capacity_rejects = 0\<rparr>"

record ('s, 'g) engine_world =
  eg_max_locates :: nat
  eg_books :: MarketBooks
  eg_strategy :: 's
  eg_trading :: bool
  eg_next_gap_retry :: Nanos
  eg_stats :: EngineStats
  eg_gateway :: 'g

type_synonym ('s, 'g) engine = "('s, 'g) engine_world sys"

record 'g gateway =
  gw_send_enter :: "EnterOrder \<Rightarrow> Nanos \<Rightarrow> 'g \<Rightarrow> 'g \<times> bool"
  gw_send_cancel :: "CancelOrder \<Rightarrow> Nanos \<Rightarrow> 'g \<Rightarrow> 'g \<times> bool"
  gw_send_replace :: "ReplaceOrder \<Rightarrow> Nanos \<Rightarrow> 'g \<Rightarrow> 'g \<times> bool"

text \<open>
  The callbacks of \<^verbatim>\<open>concept Strategy\<close>. The context they receive is the time and references to the books,
  the order API and the risk engine: the time is an argument, the rest is the engine itself.
\<close>

record ('s, 'g) strategy =
  sg_on_book_update :: "Locate \<Rightarrow> Nanos \<Rightarrow> ('s, 'g) engine \<Rightarrow> ('s, 'g) engine"
  sg_on_fill :: "Fill \<Rightarrow> Nanos \<Rightarrow> ('s, 'g) engine \<Rightarrow> ('s, 'g) engine"
  sg_on_order_update :: "OmsInfo \<Rightarrow> Nanos \<Rightarrow> ('s, 'g) engine \<Rightarrow> ('s, 'g) engine"

definition world_upd :: "('w \<Rightarrow> 'w) \<Rightarrow> 'w sys \<Rightarrow> 'w sys" where
  "world_upd f sy = sy\<lparr>sy_world := f (sy_world sy)\<rparr>"

definition stats_upd :: "(EngineStats \<Rightarrow> EngineStats) \<Rightarrow> ('s, 'g) engine \<Rightarrow> ('s, 'g) engine" where
  "stats_upd f = world_upd (\<lambda>w. w\<lparr>eg_stats := f (eg_stats w)\<rparr>)"

section \<open>Prices of the books\<close>

definition kMaxSpreadPerMid :: Price where "kMaxSpreadPerMid = 10"

definition mid_price :: "MarketBooks \<Rightarrow> Locate \<Rightarrow> Price" where
  "mid_price mb loc =
     (case mb_book mb loc of
        None \<Rightarrow> 0
      | Some b \<Rightarrow>
          (case (best b Side_buy, best b Side_sell) of
             (Some bid, Some ask) \<Rightarrow>
               if lv_price bid \<le> 0 \<or> lv_price bid \<ge> lv_price ask then 0
               else
                 let spread = lv_price ask - lv_price bid; mid = lv_price bid + spread div 2 in
                 if spread > mid div kMaxSpreadPerMid then 0 else mid
           | _ \<Rightarrow> 0))"

definition reference_price :: "MarketBooks \<Rightarrow> Locate \<Rightarrow> Price" where
  "reference_price mb loc = (let mid = mid_price mb loc in if mid > 0 then mid else mb_last_trade mb loc)"

section \<open>The engine as the order manager's environment\<close>

text \<open>\<^verbatim>\<open>OrderListener::on_fill\<close> and \<^verbatim>\<open>on_order_update\<close>.\<close>

definition engine_on_fill :: "('s, 'g) strategy \<Rightarrow> Fill \<Rightarrow> ('s, 'g) engine \<Rightarrow> ('s, 'g) engine" where
  "engine_on_fill sg f sy = sg_on_fill sg f (fl_ts f) (stats_upd (\<lambda>s. s\<lparr>et_fills := et_fills s + 1\<rparr>) sy)"

definition engine_on_order_update :: "('s, 'g) strategy \<Rightarrow> OmsInfo \<Rightarrow> ('s, 'g) engine \<Rightarrow> ('s, 'g) engine" where
  "engine_on_order_update sg i sy = sg_on_order_update sg i (in_last_update i) sy"

definition gw_call :: "('g \<Rightarrow> 'g \<times> bool) \<Rightarrow> ('s, 'g) engine_world \<Rightarrow> ('s, 'g) engine_world \<times> bool" where
  "gw_call send w = (let (g, sent) = send (eg_gateway w) in (w\<lparr>eg_gateway := g\<rparr>, sent))"

definition engine_env :: "'g gateway \<Rightarrow> ('s, 'g) strategy \<Rightarrow> ('s, 'g) engine_world env" where
  "engine_env gw sg = \<lparr>ev_send_enter = (\<lambda>m now. gw_call (gw_send_enter gw m now)),
     ev_send_cancel = (\<lambda>m now. gw_call (gw_send_cancel gw m now)),
     ev_send_replace = (\<lambda>m now. gw_call (gw_send_replace gw m now)),
     ev_reference = (\<lambda>l w. reference_price (eg_books w) l),
     ev_symbol = (\<lambda>l w. mb_symbol (eg_books w) l),
     ev_listener = Some \<lparr>li_fill = engine_on_fill sg, li_update = engine_on_order_update sg\<rparr>\<rparr>"

definition Engine_new :: "EngineConfig \<Rightarrow> 's \<Rightarrow> 'g \<Rightarrow> ('s, 'g) engine option" where
  "Engine_new config st g = do {
     books \<leftarrow> MarketBooks_new (ec_books config);
     orders \<leftarrow> OrderManager_new (ec_oms config);
     Some \<lparr>sy_om = orders, sy_risk = RiskEngine_new (ec_limits config) (ec_max_locates config),
           sy_world = \<lparr>eg_max_locates = ec_max_locates config, eg_books = books, eg_strategy = st, eg_trading = True,
             eg_next_gap_retry = 0, eg_stats = EngineStats_new, eg_gateway = g\<rparr>\<rparr> }"

section \<open>The order API the strategy sees\<close>

definition count_refusal :: "SubmitStatus \<Rightarrow> ('s, 'g) engine \<Rightarrow> ('s, 'g) engine" where
  "count_refusal s sy =
     (if s = SS_capacity \<or> s = SS_gateway_busy
      then stats_upd (\<lambda>x. x\<lparr>et_capacity_rejects := et_capacity_rejects x + 1\<rparr>) sy else sy)"

definition Api_submit ::
  "('s, 'g) engine_world env \<Rightarrow> OrderRequest \<Rightarrow> Nanos \<Rightarrow> ('s, 'g) engine \<Rightarrow> ('s, 'g) engine \<times> SubmitResult" where
  "Api_submit ev req now sy =
     (if \<not> eg_trading (sy_world sy) then (sy, fail SS_bad_state Rj_none)
      else
        let (sy, r) = submit ev req now sy;
            sy = (if sr_status r = SS_ok then stats_upd (\<lambda>x. x\<lparr>et_orders_sent := et_orders_sent x + 1\<rparr>) sy else sy);
            sy = (if sr_status r = SS_rejected_by_risk then stats_upd (\<lambda>x. x\<lparr>et_risk_rejects := et_risk_rejects x + 1\<rparr>) sy else sy) in
        (count_refusal (sr_status r) sy, r))"

definition Api_cancel ::
  "('s, 'g) engine_world env \<Rightarrow> OrderId \<Rightarrow> Nanos \<Rightarrow> ('s, 'g) engine \<Rightarrow> ('s, 'g) engine \<times> SubmitStatus" where
  "Api_cancel ev oid now sy = (let (sy, s) = cancel ev oid now sy in (count_refusal s sy, s))"

definition Api_replace ::
  "('s, 'g) engine_world env \<Rightarrow> OrderId \<Rightarrow> Price \<Rightarrow> Qty \<Rightarrow> Nanos \<Rightarrow> ('s, 'g) engine \<Rightarrow> ('s, 'g) engine \<times> SubmitStatus" where
  "Api_replace ev oid px qty now sy =
     (if \<not> eg_trading (sy_world sy) then (sy, SS_bad_state)
      else
        let (sy, s) = replace ev oid px qty now sy;
            sy = (if s = SS_rejected_by_risk then stats_upd (\<lambda>x. x\<lparr>et_risk_rejects := et_risk_rejects x + 1\<rparr>) sy else sy) in
        (count_refusal s sy, s))"

definition Api_find :: "('s, 'g) engine \<Rightarrow> OrderId \<Rightarrow> OmsInfo option" where
  "Api_find sy oid = om_find sy oid"

definition Api_open_orders :: "('s, 'g) engine \<Rightarrow> nat" where
  "Api_open_orders sy = om_open (sy_om sy)"

section \<open>Market data\<close>

fun kOrderFlow :: "itch_message \<Rightarrow> bool" where
  "kOrderFlow (IM_AddOrder m) = True"
| "kOrderFlow (IM_OrderExecuted m) = True"
| "kOrderFlow (IM_OrderExecutedPrice m) = True"
| "kOrderFlow (IM_OrderCancel m) = True"
| "kOrderFlow (IM_OrderDelete m) = True"
| "kOrderFlow (IM_OrderReplace m) = True"
| "kOrderFlow _ = False"

definition stored_locate :: "MarketBooks \<Rightarrow> OrderRef \<Rightarrow> Locate \<Rightarrow> Locate" where
  "stored_locate mb ref header = (case mb_order mb ref of Some i \<Rightarrow> oi_locate i | None \<Rightarrow> header)"

text \<open>The overloads of \<^verbatim>\<open>target_locate\<close>; it is instantiated for the order-flow messages only.\<close>

fun target_locate :: "MarketBooks \<Rightarrow> itch_message \<Rightarrow> Locate" where
  "target_locate mb (IM_AddOrder m) = h_locate (ao_h m)"
| "target_locate mb (IM_OrderReplace m) = stored_locate mb (orp_old_ref m) (h_locate (orp_h m))"
| "target_locate mb (IM_OrderExecuted m) = stored_locate mb (oe_ref m) (h_locate (oe_h m))"
| "target_locate mb (IM_OrderExecutedPrice m) = stored_locate mb (oep_ref m) (h_locate (oep_h m))"
| "target_locate mb (IM_OrderCancel m) = stored_locate mb (oc_ref m) (h_locate (oc_h m))"
| "target_locate mb (IM_OrderDelete m) = stored_locate mb (od_ref m) (h_locate (od_h m))"
| "target_locate mb (IM_SystemEvent m) = h_locate (se_h m)"
| "target_locate mb (IM_StockDirectory m) = h_locate (sd_h m)"
| "target_locate mb (IM_Trade m) = h_locate (tr_h m)"

definition book_changed :: "('s, 'g) strategy \<Rightarrow> Locate \<Rightarrow> Nanos \<Rightarrow> ('s, 'g) engine \<Rightarrow> ('s, 'g) engine" where
  "book_changed sg loc now sy =
     (let mb = eg_books (sy_world sy);
          mid = mid_price mb loc;
          mrk = (if mid \<le> 0 then mb_last_trade mb loc else mid);
          sy = (if mrk > 0 then sy\<lparr>sy_risk := mark (sy_risk sy) loc mrk\<rparr> else sy) in
      if eg_trading (sy_world sy) \<and> unat loc < eg_max_locates (sy_world sy)
      then sg_on_book_update sg loc now sy else sy)"

text \<open>\<^verbatim>\<open>apply(m, now)\<close>; \<open>al\<close> tells whether the allocations the books may make succeed.\<close>

definition engine_apply ::
  "('s, 'g) strategy \<Rightarrow> alloc \<Rightarrow> itch_message \<Rightarrow> Nanos \<Rightarrow> ('s, 'g) engine \<Rightarrow> ('s, 'g) engine option" where
  "engine_apply sg al m now sy = do {
     let sy = stats_upd (\<lambda>x. x\<lparr>et_itch_messages := et_itch_messages x + 1\<rparr>) sy;
     let loc = target_locate (eg_books (sy_world sy)) m;
     (mb, r) \<leftarrow> mb_on al m (eg_books (sy_world sy));
     let sy = world_upd (\<lambda>w. w\<lparr>eg_books := mb\<rparr>) sy;
     let count_error = stats_upd (\<lambda>x. x\<lparr>et_book_errors := et_book_errors x + 1\<rparr>);
     Some (if kOrderFlow m
           then if r = Ap_ok
                then book_changed sg loc now (stats_upd (\<lambda>x. x\<lparr>et_book_updates := et_book_updates x + 1\<rparr>) sy)
                else if r \<noteq> Ap_ignored then count_error sy else sy
           else if r \<noteq> Ap_ok \<and> r \<noteq> Ap_ignored then count_error sy else sy) }"

section \<open>The gap sweep\<close>

definition kGapRetryNs :: Nanos where "kGapRetryNs = 100000"

definition Engine_saturating_add :: "Nanos \<Rightarrow> Nanos \<Rightarrow> Nanos" where
  "Engine_saturating_add a b = (if a > NOT 0 - b then NOT 0 else a + b)"

definition retry_gap_cancels :: "'g gateway \<Rightarrow> ('s, 'g) strategy \<Rightarrow> Nanos \<Rightarrow> ('s, 'g) engine \<Rightarrow> ('s, 'g) engine option" where
  "retry_gap_cancels gw sg now sy =
     (if eg_trading (sy_world sy) \<or> now < eg_next_gap_retry (sy_world sy) \<or> om_open (sy_om sy) = 0 then Some sy
      else map_option fst (cancel_all (engine_env gw sg) now
             (world_upd (\<lambda>w. w\<lparr>eg_next_gap_retry := Engine_saturating_add now kGapRetryNs\<rparr>) sy)))"

section \<open>The engine's entry points\<close>

definition on_itch ::
  "'g gateway \<Rightarrow> ('s, 'g) strategy \<Rightarrow> alloc \<Rightarrow> u8 list \<Rightarrow> Nanos \<Rightarrow> ('s, 'g) engine \<Rightarrow> (('s, 'g) engine \<times> DecodeStatus) option" where
  "on_itch gw sg al msg now sy = do {
     (st, r) \<leftarrow> decode (\<lambda>m h. h \<bind> engine_apply sg al m now) msg (Some sy);
     sy \<leftarrow> r;
     let sy = (if st \<noteq> DS_ok then stats_upd (\<lambda>x. x\<lparr>et_itch_skipped := et_itch_skipped x + 1\<rparr>) sy else sy);
     sy \<leftarrow> retry_gap_cancels gw sg now sy;
     Some (sy, st) }"

text \<open>The five overloads of \<^verbatim>\<open>report(m, now)\<close>.\<close>

fun report :: "'g gateway \<Rightarrow> ('s, 'g) strategy \<Rightarrow> ouch_outbound \<Rightarrow> Nanos \<Rightarrow> ('s, 'g) engine \<Rightarrow> ('s, 'g) engine" where
  "report gw sg (OO_Accepted m) now sy =
     on_accepted (engine_env gw sg) m now (stats_upd (\<lambda>x. x\<lparr>et_ouch_reports := et_ouch_reports x + 1\<rparr>) sy)"
| "report gw sg (OO_Replaced m) now sy =
     on_replaced (engine_env gw sg) m now (stats_upd (\<lambda>x. x\<lparr>et_ouch_reports := et_ouch_reports x + 1\<rparr>) sy)"
| "report gw sg (OO_Canceled m) now sy =
     on_canceled (engine_env gw sg) m now (stats_upd (\<lambda>x. x\<lparr>et_ouch_reports := et_ouch_reports x + 1\<rparr>) sy)"
| "report gw sg (OO_Executed m) now sy =
     on_executed (engine_env gw sg) m now (stats_upd (\<lambda>x. x\<lparr>et_ouch_reports := et_ouch_reports x + 1\<rparr>) sy)"
| "report gw sg (OO_Rejected m) now sy =
     on_rejected (engine_env gw sg) m now (stats_upd (\<lambda>x. x\<lparr>et_ouch_reports := et_ouch_reports x + 1\<rparr>) sy)"

definition on_ouch ::
  "'g gateway \<Rightarrow> ('s, 'g) strategy \<Rightarrow> u8 list \<Rightarrow> Nanos \<Rightarrow> ('s, 'g) engine \<Rightarrow> (('s, 'g) engine \<times> DecodeStatus) option" where
  "on_ouch gw sg msg now sy = do {
     (st, sy) \<leftarrow> decode_outbound (\<lambda>m. report gw sg m now) msg sy;
     let sy = (if st \<noteq> DS_ok then stats_upd (\<lambda>x. x\<lparr>et_ouch_errors := et_ouch_errors x + 1\<rparr>) sy else sy);
     sy \<leftarrow> retry_gap_cancels gw sg now sy;
     Some (sy, st) }"

definition on_feed_gap :: "'g gateway \<Rightarrow> ('s, 'g) strategy \<Rightarrow> Nanos \<Rightarrow> ('s, 'g) engine \<Rightarrow> ('s, 'g) engine option" where
  "on_feed_gap gw sg now sy =
     map_option fst (cancel_all (engine_env gw sg) now
       (world_upd (\<lambda>w. w\<lparr>eg_trading := False, eg_next_gap_retry := Engine_saturating_add now kGapRetryNs\<rparr>)
         (stats_upd (\<lambda>x. x\<lparr>et_feed_gaps := et_feed_gaps x + 1\<rparr>) sy)))"

definition resume_trading :: "('s, 'g) engine \<Rightarrow> ('s, 'g) engine" where
  "resume_trading = world_upd (\<lambda>w. w\<lparr>eg_trading := True\<rparr>)"

end
