(* ===== verification/Engine_Correct.thy ===== *)
theory Engine_Correct
  imports Engine
begin

text \<open>
  The engine of the theory above is consistent whatever arrives. The first part shows that the books
  hold wire prices only, so that every mark the engine passes to the risk engine is a valid price.
  The second says what a strategy may do (\<open>calls_step\<close>) and states it as the locale
  \<open>strategy_contract\<close>, under which each entry point returns, keeps the invariant of order manager,
  risk engine and books, and moves the gateway of a halted engine by cancels only. The last part
  shows that a callback that uses the order API obeys the contract.
\<close>

section \<open>Prices in the books are wire prices, symbols eight characters\<close>

definition slot_good :: "Slot \<Rightarrow> bool" where
  "slot_good sl = (fits_wire_price (sl_last_trade sl) \<and> length (sl_symbol sl) = 8)"

definition traded_ok :: "MarketBooks \<Rightarrow> bool" where
  "traded_ok mb = (pages_ok (mb_pages mb) \<and> (\<forall>l. fits_wire_price (mb_last_trade mb l) \<and> length (mb_symbol mb l) = 8))"

lemma traded_ok_upd [simp]:
  "traded_ok (mb\<lparr>mb_orders := x1\<rparr>) = traded_ok mb" "traded_ok (mb\<lparr>mb_applied := x2\<rparr>) = traded_ok mb"
  "traded_ok (mb\<lparr>mb_overflows := x3\<rparr>) = traded_ok mb" "traded_ok (mb\<lparr>mb_by_symbol := x4\<rparr>) = traded_ok mb"
  by (simp_all add: traded_ok_def)

lemma traded_ok_slot: "traded_ok mb \<Longrightarrow> find_slot mb l = Some sl \<Longrightarrow> slot_good sl"
  unfolding traded_ok_def slot_good_def mb_last_trade_def mb_symbol_def by (metis option.case(2))

lemma traded_ok_slot_for:
  assumes "traded_ok mb" "slot_for al mb l = (mb', r)"
  shows "traded_ok mb'" "r = Some sl \<Longrightarrow> find_slot mb' l = Some sl \<and> slot_good sl"
proof -
  have pages: "pages_ok (mb_pages mb)" using assms(1) by (simp add: traded_ok_def)
  show ok: "traded_ok mb'"
    using assms(1) slot_for_spec(1) [OF pages assms(2)] slot_for_queries(2,3) [OF pages assms(2)] by (simp add: traded_ok_def)
  show "r = Some sl \<Longrightarrow> find_slot mb' l = Some sl \<and> slot_good sl"
    using slot_for_spec(3) [OF pages assms(2)] traded_ok_slot [OF ok] by simp
qed

lemma traded_ok_set_slot:
  assumes "traded_ok mb" "find_slot mb l = Some sl0" "slot_good sl"
  shows "traded_ok (set_slot mb l sl)"
  using assms set_slot_queries(2,3) [of mb l sl0 sl] pages_ok_set_slot [of mb l sl] by (simp add: traded_ok_def slot_good_def)

lemma ensure_book_good: "ensure_book al mb sl = Some (sl', bk) \<Longrightarrow> slot_good sl' = slot_good sl"
  by (auto simp: ensure_book_def Let_def slot_good_def split: option.splits if_splits)

lemma slot_good_upd [simp]:
  "slot_good (sl\<lparr>sl_book := b\<rparr>) = slot_good sl" "slot_good (sl\<lparr>sl_symbol := s\<rparr>) = (fits_wire_price (sl_last_trade sl) \<and> length s = 8)"
  "slot_good (sl\<lparr>sl_last_trade := p\<rparr>) = (fits_wire_price p \<and> length (sl_symbol sl) = 8)"
  by (simp_all add: slot_good_def)

lemma slot_goodD: "slot_good sl \<Longrightarrow> fits_wire_price (sl_last_trade sl)" "slot_good sl \<Longrightarrow> length (sl_symbol sl) = 8"
  by (simp_all add: slot_good_def)

lemma insert_order_traded:
  assumes "traded_ok mb" "insert_order al mb ref loc side price qty = (mb', ok)"
  shows "traded_ok mb'"
proof -
  obtain mb1 r where sf: "slot_for al mb loc = (mb1, r)" by fastforce
  note ok1 = traded_ok_slot_for [OF assms(1) sf]
  show ?thesis
    using assms(2) sf ok1(1) ensure_book_good ok1(2)
    by (auto simp: insert_order_def Let_def split: option.splits prod.splits
        intro!: traded_ok_set_slot)
qed

lemma on_book_traded: "traded_ok mb \<Longrightarrow> on_book mb loc f = Some mb' \<Longrightarrow> traded_ok mb'"
  by (auto simp: on_book_def bind_eq_Some_conv intro!: traded_ok_set_slot intro: traded_ok_slot)

lemma drop_order_traded: "traded_ok mb \<Longrightarrow> drop_order mb ref = Some mb' \<Longrightarrow> traded_ok mb'"
  by (auto simp: drop_order_def bind_eq_Some_conv Let_def split: if_splits dest: on_book_traded)

lemma set_last_trade_traded: "traded_ok mb \<Longrightarrow> fits_wire_price p \<Longrightarrow> set_last_trade mb loc p = Some mb' \<Longrightarrow> traded_ok mb'"
  by (auto simp: set_last_trade_def bind_eq_Some_conv intro!: traded_ok_set_slot slot_goodD(2) [OF traded_ok_slot])

definition priced :: "MarketBooks \<Rightarrow> bool" where
  "priced mb = (traded_ok mb \<and> (\<forall>r i. mb_order mb r = Some i \<longrightarrow> fits_wire_price (oi_price i)))"

lemma mb_reduce_traded:
  assumes "priced mb" "\<forall>p. tp = Some p \<longrightarrow> fits_wire_price p" "mb_reduce mb ref q tp ex = Some (mb', res)"
  shows "traded_ok mb'"
proof (cases "fhm_find Hash_u64 (mb_orders mb) ref")
  case None
  then show ?thesis using assms by (simp add: mb_reduce_def priced_def)
next
  case (Some rec)
  have "fits_wire_price (oi_price (or_info rec))" using assms(1) Some by (auto simp: priced_def mb_order_def)
  then have p: "fits_wire_price (case tp of Some p \<Rightarrow> p | None \<Rightarrow> oi_price (or_info rec))" using assms(2) by (cases tp) auto
  have t: "traded_ok mb" using assms(1) by (simp add: priced_def)
  show ?thesis using assms(3) Some t
    by (auto simp: mb_reduce_def Let_def bind_eq_Some_conv split: if_splits
        dest!: set_last_trade_traded [OF _ p, rotated] dest: drop_order_traded on_book_traded)
qed

lemma mb_on_traded:
  assumes "priced mb" "fits_wire_price (itch_price m)" "mb_on al m mb = Some (mb', res)" "itch_sized m"
  shows "traded_ok mb'"
proof -
  have t: "traded_ok mb" using assms(1) by (simp add: priced_def)
  show ?thesis
  proof (cases m)
    case (IM_SystemEvent x)
    then show ?thesis using assms t by (simp add: on_SystemEvent_def)
  next
    case (IM_StockDirectory x)
    obtain mb1 r where sf: "slot_for al mb (h_locate (sd_h x)) = (mb1, r)" by fastforce
    show ?thesis
      using assms(3,4) IM_StockDirectory sf t traded_ok_slot_for [OF t sf]
      by (auto simp: on_StockDirectory_def Let_def split: option.splits prod.splits if_splits
          intro!: traded_ok_set_slot slot_goodD(1) [OF iffD2 [OF ensure_book_good]] intro: iffD2 [OF ensure_book_good])
  next
    case (IM_AddOrder x)
    then show ?thesis using assms(3) t insert_order_traded [OF t]
      by (auto simp: on_AddOrder_def Let_def split: prod.splits if_splits)
  next
    case (IM_OrderExecuted x)
    then show ?thesis using assms mb_reduce_traded [OF assms(1), of None] by (simp add: on_OrderExecuted_def)
  next
    case (IM_OrderExecutedPrice x)
    then show ?thesis using assms mb_reduce_traded [OF assms(1), of "Some (oep_price x)"] by (simp add: on_OrderExecutedPrice_def)
  next
    case (IM_OrderCancel x)
    then show ?thesis using assms mb_reduce_traded [OF assms(1), of None] by (simp add: on_OrderCancel_def)
  next
    case (IM_OrderDelete x)
    then show ?thesis using assms(3) t drop_order_traded [OF t] by (auto simp: on_OrderDelete_def bind_eq_Some_conv split: if_splits)
  next
    case (IM_OrderReplace x)
    have ins: "traded_ok (fst (insert_order al mb1 r l s p q))" if "traded_ok mb1" for mb1 r l s p q
      using insert_order_traded [OF that] by (metis prod.collapse)
    from IM_OrderReplace show ?thesis using assms(3) t
      by (auto simp: on_OrderReplace_def bind_eq_Some_conv Let_def case_prod_unfold split: option.splits if_splits
          dest!: drop_order_traded [OF t] intro: ins)
  next
    case (IM_Trade x)
    obtain mb1 r where sf: "slot_for al mb (h_locate (tr_h x)) = (mb1, r)" by fastforce
    show ?thesis
      using assms(2,3) IM_Trade sf traded_ok_slot_for [OF t sf]
      by (auto simp: on_Trade_def split: option.splits intro!: traded_ok_set_slot dest: slot_goodD(2))
  qed
qed

lemma order_effect_prices:
  assumes "order_effect m T T' res" "\<forall>r i. T r = Some i \<longrightarrow> fits_wire_price (oi_price i)" "fits_wire_price (itch_price m)"
  shows "\<forall>r i. T' r = Some i \<longrightarrow> fits_wire_price (oi_price i)"
  using assms by (cases m) (auto simp: reduced_table_def split: if_splits option.splits)

lemma mb_on_priced:
  assumes "mb_inv k mb" "1 \<le> k" "k < 2 ^ 64 - 1" "priced mb" "fits_wire_price (itch_price m)" "itch_sized m"
  obtains mb' res where "mb_on al m mb = Some (mb', res)" "mb_inv (k + 1) mb'" "priced mb'"
  using mb_on_spec [OF assms(1-3), of al m] mb_on_traded [OF assms(4,5) _ assms(6)] order_effect_prices assms(4,5)
  unfolding priced_def by meson

lemma MarketBooks_new_priced:
  assumes "MarketBooks_new cfg = Some mb"
  shows "priced mb"
proof -
  have "mb_pages mb = replicate kPages None" using assms by (auto simp: MarketBooks_new_def bind_eq_Some_conv)
  then have "find_slot mb l = None" for l using page_of_less [of l] by (simp add: find_slot_def kPages_def)
  then show ?thesis using MarketBooks_new_inv [OF assms] mb_invD(3)
    by (auto simp: priced_def traded_ok_def mb_last_trade_def mb_symbol_def fits_wire_price_def)
qed

text \<open>The mid lies between the best prices, so it is a wire price too.\<close>

lemma best_priced:
  assumes inv: "mb_inv k mb" and pr: "priced mb" and b: "mb_book mb l = Some b" "best b s = Some lv"
  shows "fits_wire_price (lv_price lv)"
proof -
  have cons: "conserve (live mb) (mb_book mb)" by (rule mb_invD(4) [OF inv])
  have ob: "ob_inv b" using conserveD(3) [OF cons b(1)] by (simp add: lb_inv_def)
  obtain e where e: "ab_side (ob_abs b) (s = Side_buy) (lv_price lv) = Some e" "en_lv e = lv"
    using best_lookup(2) [OF ob b(2)] by (auto simp: ob_abs_side)
  have "level_exact (live mb) l (s = Side_buy) (lv_price lv) e" by (rule conserveD(4) [OF cons b(1) e(1)])
  then have "unat (lv_orders lv) = card (on_level (live mb) l (s = Side_buy) (lv_price lv) (en_id e))"
    by (simp add: level_exact_def e(2))
  moreover have "1 \<le> lv_orders lv" using ob_abs_entry(2) [OF ob e(1)] e(2) by (simp add: Order_Book.entry_ok_def)
  ultimately have "on_level (live mb) l (s = Side_buy) (lv_price lv) (en_id e) \<noteq> {}"
    by (auto simp: word_le_nat_alt)
  then obtain r rec where "live mb r = Some rec" "oi_price (or_info rec) = lv_price lv" by (auto simp: on_level_def)
  then have "mb_order mb r = Some (or_info rec)" "oi_price (or_info rec) = lv_price lv" by (simp_all add: mb_order_def)
  then show ?thesis using pr unfolding priced_def by metis
qed

lemma mid_price_cases:
  assumes "mid_price mb loc \<noteq> 0"
  obtains b bid ask where "mb_book mb loc = Some b" "best b Side_buy = Some bid" "best b Side_sell = Some ask"
    "0 < lv_price bid" "lv_price bid \<le> mid_price mb loc" "mid_price mb loc < lv_price ask"
    "10 * (lv_price ask - lv_price bid) \<le> mid_price mb loc"
proof -
  obtain b where b: "mb_book mb loc = Some b" using assms by (auto simp: mid_price_def split: option.splits)
  obtain bid where bid: "best b Side_buy = Some bid" using assms b by (auto simp: mid_price_def split: option.splits)
  obtain ask where ask: "best b Side_sell = Some ask" using assms b bid by (auto simp: mid_price_def split: option.splits)
  define s m where "s = lv_price ask - lv_price bid" and "m = lv_price bid + s div 2"
  have mp: "mid_price mb loc = (if lv_price bid \<le> 0 \<or> lv_price bid \<ge> lv_price ask then 0 else if s > m div kMaxSpreadPerMid then 0 else m)"
    by (simp add: mid_price_def b bid ask s_def m_def Let_def)
  have c: "0 < lv_price bid" "lv_price bid < lv_price ask" "s \<le> m div kMaxSpreadPerMid" "mid_price mb loc = m"
    using assms unfolding mp by (auto split: if_splits)
  have "10 * s \<le> m" using c(3) by (simp add: kMaxSpreadPerMid_def)
  moreover have "lv_price bid \<le> m" "m < lv_price ask" using c(2) by (auto simp: m_def s_def)
  ultimately show thesis using that [OF b bid ask] c by (simp add: s_def)
qed

lemma mark_price_bound:
  assumes "mb_inv k mb" "priced mb"
  shows "mid_price mb loc \<le> kInt64Max" "mb_last_trade mb loc \<le> kInt64Max"
proof -
  show "mid_price mb loc \<le> kInt64Max"
  proof (cases "mid_price mb loc = 0")
    case False
    then show ?thesis
    proof (rule mid_price_cases)
      fix b bid ask
      assume b: "mb_book mb loc = Some b" "best b Side_sell = Some ask" "mid_price mb loc < lv_price ask"
      then show ?thesis using best_priced [OF assms b(1,2)] by (simp add: fits_wire_price_def kInt64Max_def)
    qed
  qed (simp add: kInt64Max_def)
  have "fits_wire_price (mb_last_trade mb loc)" using assms(2) by (simp add: priced_def traded_ok_def)
  then show "mb_last_trade mb loc \<le> kInt64Max" by (simp add: fits_wire_price_def kInt64Max_def)
qed


section \<open>What the decoders deliver\<close>

lemma decode_delivers:
  "\<exists>st h'. decode on msg h = Some (st, h') \<and> (if st = DS_ok then \<exists>m. wire_valid m \<and> h' = on m h else h' = h)"
  using decode_body_decoded [of msg on h] by (auto simp: decode_dispatch decoded_def)

lemma decode_outbound_delivers:
  "\<exists>st h'. decode_outbound on msg h = Some (st, h') \<and> (if st = DS_ok then \<exists>m. h' = on m h else h' = h)"
  using outbound_body_decoded [of msg on h] by (auto simp: decode_outbound_dispatch delivers_def)

section \<open>What the strategy may do\<close>

text \<open>
  One step of a callback: a change of the strategy's own members (and of the counters its API keeps),
  or a call of the API. \<^verbatim>\<open>submit\<close> and \<^verbatim>\<open>replace\<close> reach the order manager only while trading is enabled.
\<close>

definition feed_counters :: "EngineStats \<Rightarrow> u64 list" where
  "feed_counters s = [et_itch_messages s, et_itch_skipped s, et_book_updates s, et_book_errors s,
     et_ouch_reports s, et_ouch_errors s, et_feed_gaps s]"

inductive calls_step :: "('s, 'g) engine_world env \<Rightarrow> ('s, 'g) engine \<Rightarrow> ('s, 'g) engine \<Rightarrow> bool" for ev where
  calls_own: "feed_counters st = feed_counters (eg_stats (sy_world sy)) \<Longrightarrow>
    calls_step ev sy (world_upd (\<lambda>w. w\<lparr>eg_strategy := s, eg_stats := st\<rparr>) sy)"
| calls_submit: "eg_trading (sy_world sy) \<Longrightarrow> calls_step ev sy (fst (submit (quiet ev) req now sy))"
| calls_cancel: "calls_step ev sy (fst (cancel (quiet ev) oid now sy))"
| calls_replace: "eg_trading (sy_world sy) \<Longrightarrow> calls_step ev sy (fst (replace (quiet ev) oid p q now sy))"

inductive_cases calls_stepE: "calls_step ev sy sy'"

lemma calls_api: "calls_step ev sy sy' \<Longrightarrow> api_step ev sy sy'"
  by (auto elim!: calls_stepE simp: world_upd_def intro: api_step.intros)

lemma calls_star_api: "(calls_step ev)\<^sup>*\<^sup>* sy sy' \<Longrightarrow> (api_step ev)\<^sup>*\<^sup>* sy sy'"
  by (rule rtranclp_mono [THEN predicate2D, OF predicate2I]) (rule calls_api)

lemma calls_stats:
  "feed_counters (f (eg_stats (sy_world sy))) = feed_counters (eg_stats (sy_world sy)) \<Longrightarrow> calls_step ev sy (stats_upd f sy)"
  using calls_own [of "f (eg_stats (sy_world sy))" sy ev "eg_strategy (sy_world sy)"] by (simp add: stats_upd_def world_upd_def)

text \<open>The messages a gateway has received, as what they made of its state.\<close>

definition cancels :: "'g gateway \<Rightarrow> 'g \<Rightarrow> 'g \<Rightarrow> bool" where
  "cancels gw g g' = (\<exists>ms. g' = fold (\<lambda>(m, now) g. fst (gw_send_cancel gw m now g)) ms g)"

lemma cancels_refl [simp]: "cancels gw g g"
  unfolding cancels_def by (rule exI [of _ "[]"]) simp

lemma cancels_one: "cancels gw g (fst (gw_send_cancel gw m now g))"
  unfolding cancels_def by (rule exI [of _ "[(m, now)]"]) simp

lemma cancels_trans: "cancels gw g g' \<Longrightarrow> cancels gw g' g'' \<Longrightarrow> cancels gw g g''"
  unfolding cancels_def by (metis fold_append comp_apply)

text \<open>Any message whose fields have the sizes the C++ types fix, with an enumerator of \<^verbatim>\<open>Side\<close>.\<close>

fun gw_send :: "'g gateway \<Rightarrow> ouch_inbound \<Rightarrow> Nanos \<Rightarrow> 'g \<Rightarrow> 'g \<times> bool" where
  "gw_send gw (OI_EnterOrder m) now g = gw_send_enter gw m now g"
| "gw_send gw (OI_ReplaceOrder m) now g = gw_send_replace gw m now g"
| "gw_send gw (OI_CancelOrder m) now g = gw_send_cancel gw m now g"

fun sendable :: "ouch_inbound \<Rightarrow> bool" where
  "sendable (OI_EnterOrder m) = (inbound_sized (OI_EnterOrder m) \<and> valid_side (eo_side m))"
| "sendable m = inbound_sized m"

definition sends :: "'g gateway \<Rightarrow> 'g \<Rightarrow> 'g \<Rightarrow> bool" where
  "sends gw g g' = (\<exists>ms. (\<forall>x \<in> set ms. sendable (fst x)) \<and> g' = fold (\<lambda>(m, now) g. fst (gw_send gw m now g)) ms g)"

lemma sends_refl [simp]: "sends gw g g"
  unfolding sends_def by (rule exI [of _ "[]"]) simp

lemma sends_one: "sendable m \<Longrightarrow> sends gw g (fst (gw_send gw m now g))"
  unfolding sends_def by (rule exI [of _ "[(m, now)]"]) simp

lemma sends_trans:
  assumes "sends gw g g'" "sends gw g' g''"
  shows "sends gw g g''"
proof -
  obtain ms ns where "\<forall>x \<in> set (ms @ ns). sendable (fst x)" "g'' = fold (\<lambda>(m, now) g. fst (gw_send gw m now g)) (ms @ ns) g"
    using assms by (auto simp: sends_def)
  then show ?thesis unfolding sends_def by blast
qed

lemma sends_ind:
  assumes "sends gw g g'" "P g" "\<And>m now g. sendable m \<Longrightarrow> P g \<Longrightarrow> P (fst (gw_send gw m now g))"
  shows "P g'"
proof -
  obtain ms where ms: "\<forall>x \<in> set ms. sendable (fst x)" "g' = fold (\<lambda>(m, now) g. fst (gw_send gw m now g)) ms g"
    using assms(1) by (auto simp: sends_def)
  have "P (fold (\<lambda>(m, now) g. fst (gw_send gw m now g)) ms g)" using ms(1) assms(2)
  proof (induction ms arbitrary: g)
    case (Cons x ms)
    then show ?case using assms(3) [of "fst x" g "snd x"] by (simp add: case_prod_unfold)
  qed simp
  then show ?thesis by (simp add: ms(2))
qed

text \<open>What no call can touch, and the gateway of a halted engine.\<close>

definition moved :: "'g gateway \<Rightarrow> ('s, 'g) engine \<Rightarrow> ('s, 'g) engine \<Rightarrow> bool" where
  "moved gw sy sy' = (let w = sy_world sy; w' = sy_world sy' in
     eg_books w' = eg_books w \<and> eg_trading w' = eg_trading w \<and> eg_max_locates w' = eg_max_locates w \<and>
     feed_counters (eg_stats w') = feed_counters (eg_stats w) \<and>
     (\<not> eg_trading w \<longrightarrow> cancels gw (eg_gateway w) (eg_gateway w')) \<and>
     (traded_ok (eg_books w) \<longrightarrow> sends gw (eg_gateway w) (eg_gateway w')))"

lemma moved_refl: "moved gw sy sy"
  by (simp add: moved_def Let_def)

lemma moved_trans: "moved gw sy sy' \<Longrightarrow> moved gw sy' sy'' \<Longrightarrow> moved gw sy sy''"
  by (auto simp: moved_def Let_def intro: cancels_trans sends_trans)

lemma moved_same_world: "sy_world sy' = sy_world sy \<Longrightarrow> moved gw sy sy'"
  by (simp add: moved_def Let_def)

lemma world_simps [simp]:
  "sy_world (set_ent s f sy) = sy_world sy" "sy_world (om_upd g sy) = sy_world sy" "sy_world (sync_ledger s sy) = sy_world sy"
  "sy_world (book_order req now slot sy) = sy_world sy" "sy_world (late sy) = sy_world sy" "sy_world (invalid sy) = sy_world sy"
  "sy_world (clamped sy) = sy_world sy" "sy_world (unknown sy) = sy_world sy" "sy_world (drop_replacement s sy) = sy_world sy"
  "sy_world (end_of_life s oc sy) = sy_world sy"
  by (simp_all add: set_ent_def om_upd_def sync_ledger_def book_order_def late_def invalid_def clamped_def unknown_def
      drop_replacement_def end_of_life_def Let_def)

lemma env_simps [simp]:
  "ev_send_enter (engine_env gw sg) m1 now w = gw_call (gw_send_enter gw m1 now) w"
  "ev_send_cancel (engine_env gw sg) m2 now w = gw_call (gw_send_cancel gw m2 now) w"
  "ev_send_replace (engine_env gw sg) m3 now w = gw_call (gw_send_replace gw m3 now) w"
  "ev_listener (engine_env gw sg) = Some \<lparr>li_fill = engine_on_fill sg, li_update = engine_on_order_update sg\<rparr>"
  by (simp_all add: engine_env_def)

definition only_gateway :: "'g gateway \<Rightarrow> ('s, 'g) engine_world \<Rightarrow> ('s, 'g) engine_world \<Rightarrow> bool" where
  "only_gateway gw w w' = (\<exists>g. w' = w\<lparr>eg_gateway := g\<rparr> \<and> (traded_ok (eg_books w) \<longrightarrow> sends gw (eg_gateway w) g))"

lemma only_gateway_refl [simp]: "only_gateway gw w w"
  unfolding only_gateway_def by (rule exI [of _ "eg_gateway w"]) simp

lemma gw_call_fst: "gw_call send w = (w', ok) \<Longrightarrow> w' = w\<lparr>eg_gateway := fst (send (eg_gateway w))\<rparr>"
  by (auto simp: gw_call_def split: prod.splits)

lemma gw_call_only:
  "gw_call (gw_send_enter gw m1 now) w = (w', ok) \<Longrightarrow> (traded_ok (eg_books w) \<Longrightarrow> sendable (OI_EnterOrder m1)) \<Longrightarrow> only_gateway gw w w'"
  "gw_call (gw_send_replace gw m2 now) w = (w', ok) \<Longrightarrow> sendable (OI_ReplaceOrder m2) \<Longrightarrow> only_gateway gw w w'"
  using sends_one [of "OI_EnterOrder m1" gw "eg_gateway w" now] sends_one [of "OI_ReplaceOrder m2" gw "eg_gateway w" now]
  by (auto simp: only_gateway_def dest: gw_call_fst)

lemma symbol_sized: "traded_ok mb \<Longrightarrow> length (mb_symbol mb l) = 8"
  by (simp add: traded_ok_def)

lemma submit_world: "only_gateway gw (sy_world sy) (sy_world (fst (submit (quiet (engine_env gw sg)) req now sy)))"
  unfolding submit_def Let_def
  by (auto split: prod.splits intro!: gw_call_only(1) simp: om_valid_def EnterOrder_new_def symbol_sized engine_env_def)

lemma replace_world: "only_gateway gw (sy_world sy) (sy_world (fst (replace (quiet (engine_env gw sg)) oid p q now sy)))"
  unfolding replace_def Let_def
  by (auto split: prod.splits option.splits intro!: gw_call_only(2) simp: ReplaceOrder_new_def)

lemma cancel_entry_moved: "moved gw sy (fst (cancel_entry (quiet (engine_env gw sg)) s now sy))"
proof -
  have "moved gw sy (sy\<lparr>sy_world := w'\<rparr>)" if "gw_call (gw_send_cancel gw m now) (sy_world sy) = (w', ok)" "length (co_token m) = 14" for m w' ok
    using gw_call_fst [OF that(1)] cancels_one [of gw "eg_gateway (sy_world sy)" m now]
      sends_one [of "OI_CancelOrder m" gw "eg_gateway (sy_world sy)" now] that(2) by (simp add: moved_def Let_def)
  then show ?thesis unfolding cancel_entry_def Let_def
    by (auto split: prod.splits intro: moved_refl simp: moved_def Let_def)
qed

lemma cancel_moved: "moved gw sy (fst (cancel (quiet (engine_env gw sg)) oid now sy))"
  unfolding cancel_def by (auto split: option.splits intro: moved_refl cancel_entry_moved)

lemma only_gateway_moved: "only_gateway gw (sy_world sy) (sy_world sy') \<Longrightarrow> eg_trading (sy_world sy) \<Longrightarrow> moved gw sy sy'"
  by (auto simp: only_gateway_def moved_def Let_def)

lemma own_moved:
  "feed_counters st = feed_counters (eg_stats (sy_world sy)) \<Longrightarrow> moved gw sy (world_upd (\<lambda>w. w\<lparr>eg_strategy := s, eg_stats := st\<rparr>) sy)"
  by (simp add: world_upd_def moved_def Let_def)

lemma calls_moved: "calls_step (engine_env gw sg) sy sy' \<Longrightarrow> moved gw sy sy'"
  by (erule calls_stepE) (auto intro: only_gateway_moved submit_world replace_world cancel_moved own_moved)

lemma calls_star_moved: "(calls_step (engine_env gw sg))\<^sup>*\<^sup>* sy sy' \<Longrightarrow> moved gw sy sy'"
  by (induction rule: rtranclp_induct) (auto intro: moved_refl moved_trans calls_moved)


text \<open>Reports reach the world only through the callbacks.\<close>

lemma resolve_world: "resolve t sy = (sy', r) \<Longrightarrow> sy_world sy' = sy_world sy"
  by (auto simp: resolve_def split: option.splits if_splits)

lemma active_order_world: "active_order t sy = (sy', r) \<Longrightarrow> sy_world sy' = sy_world sy"
  by (auto simp: active_order_def split: prod.splits option.splits if_splits dest: resolve_world)

lemma report_world:
  "sy_world (on_accepted (quiet ev) a now sy) = sy_world sy" "sy_world (on_canceled (quiet ev) c now sy) = sy_world sy"
  "sy_world (on_executed (quiet ev) x now sy) = sy_world sy" "sy_world (on_rejected (quiet ev) j now sy) = sy_world sy"
  "sy_world (on_replaced (quiet ev) rp now sy) = sy_world sy"
  by (auto simp: on_accepted_def on_canceled_def on_executed_def on_rejected_def on_replaced_def Let_def
      split: prod.splits option.splits dest: active_order_world resolve_world)

text \<open>
  Whatever relation the two callbacks respect, each report handler respects it as well; the handler with
  the callbacks cut out is the starting point.
\<close>

lemma report_rel:
  fixes R :: "('s, 'g) engine \<Rightarrow> ('s, 'g) engine \<Rightarrow> bool" and gw :: "'g gateway"
  assumes same: "\<And>sy. R sy sy" and trans: "\<And>x y z. R x y \<Longrightarrow> R y z \<Longrightarrow> R x z"
    and upd: "\<And>i sy. R sy (engine_on_order_update sg i sy)" and fill: "\<And>f sy. R sy (engine_on_fill sg f sy)"
  defines "ev \<equiv> engine_env gw sg"
  shows "R (on_accepted (quiet ev) a now sy) (on_accepted ev a now sy)"
    "R (on_canceled (quiet ev) c now sy) (on_canceled ev c now sy)"
    "R (on_rejected (quiet ev) rj now sy) (on_rejected ev rj now sy)"
    "R (on_replaced (quiet ev) rp now sy) (on_replaced ev rp now sy)"
    "R (on_executed (quiet ev) x now sy) (on_executed ev x now sy)"
proof -
  have told: "R sy (notify ev i sy)" for i sy using upd by (simp add: notify_def ev_def)
  have cond: "R x y \<Longrightarrow> R x' y' \<Longrightarrow> R (if b then x else x') (if b then y else y')" for x y x' y' b by simp
  show "R (on_accepted (quiet ev) a now sy) (on_accepted ev a now sy)"
    "R (on_canceled (quiet ev) c now sy) (on_canceled ev c now sy)"
    "R (on_rejected (quiet ev) rj now sy) (on_rejected ev rj now sy)"
    "R (on_replaced (quiet ev) rp now sy) (on_replaced ev rp now sy)"
    unfolding on_accepted_def on_canceled_def on_rejected_def on_replaced_def Let_def quiet_simps
    by (simp_all split: prod.splits option.splits split del: if_split) (safe; intro cond told same)+
  have step: "R sy (case entry_slot (sy_om (engine_on_fill sg f sy)) oid of
      Some s \<Rightarrow> notify ev (en_info (ent (engine_on_fill sg f sy) s)) (engine_on_fill sg f sy)
    | None \<Rightarrow> engine_on_order_update sg i (engine_on_fill sg f sy))" for f oid i sy
    using trans [OF fill told] trans [OF fill upd] by (simp split: option.split)
  obtain sy1 r where r: "active_order (ex_token x) sy = (sy1, r)" by fastforce
  show "R (on_executed (quiet ev) x now sy) (on_executed ev x now sy)"
  proof (cases r)
    case None
    then show ?thesis by (simp add: on_executed_def r same)
  next
    case (Some s)
    have l: "ev_listener ev = Some \<lparr>li_fill = engine_on_fill sg, li_update = engine_on_order_update sg\<rparr>" by (simp add: ev_def)
    show ?thesis unfolding on_executed_def r Some l prod.case option.case Let_def quiet_simps listener.simps
      by (intro cond step same)
  qed
qed

section \<open>The contract of a strategy\<close>

locale strategy_contract =
  fixes gw :: "'g gateway" and sg :: "('s, 'g) strategy"
  assumes book_calls: "(calls_step (engine_env gw sg))\<^sup>*\<^sup>* sy (sg_on_book_update sg l now sy)"
    and fill_calls: "(calls_step (engine_env gw sg))\<^sup>*\<^sup>* sy (sg_on_fill sg f now sy)"
    and update_calls: "(calls_step (engine_env gw sg))\<^sup>*\<^sup>* sy (sg_on_order_update sg i now sy)"
begin

abbreviation ev where "ev \<equiv> engine_env gw sg"

lemma on_fill_calls: "(calls_step ev)\<^sup>*\<^sup>* sy (engine_on_fill sg f sy)"
proof -
  have "calls_step ev sy (stats_upd (\<lambda>s. s\<lparr>et_fills := et_fills s + 1\<rparr>) sy)" by (rule calls_stats) (simp add: feed_counters_def)
  then show ?thesis unfolding engine_on_fill_def using fill_calls by (rule converse_rtranclp_into_rtranclp)
qed

lemma listener: "api_listener ev"
  by (auto simp: api_listener_def engine_on_order_update_def
      intro: calls_star_api [OF on_fill_calls] calls_star_api [OF update_calls])

lemma notify_moved: "moved gw sy (notify ev i sy)"
  using calls_star_moved [OF update_calls] by (simp add: notify_def engine_on_order_update_def)

lemma cancel_entry_full: "moved gw sy (fst (cancel_entry ev s now sy))"
proof -
  have "fst (cancel_entry ev s now sy) = fst (cancel_entry (quiet ev) s now sy) \<or>
      (\<exists>i. fst (cancel_entry ev s now sy) = notify ev i (fst (cancel_entry (quiet ev) s now sy)))"
    unfolding cancel_entry_def Let_def quiet_simps by (simp split: prod.split del: env_simps) blast
  then show ?thesis
  proof
    assume "fst (cancel_entry ev s now sy) = fst (cancel_entry (quiet ev) s now sy)"
    then show ?thesis using cancel_entry_moved [of gw sy sg s now] by simp
  next
    assume "\<exists>i. fst (cancel_entry ev s now sy) = notify ev i (fst (cancel_entry (quiet ev) s now sy))"
    then show ?thesis using moved_trans [OF cancel_entry_moved notify_moved] by metis
  qed
qed

lemma cancel_all_from_moved:
  assumes "cancel_all_from ev now lst s sent sy = Some r"
  shows "moved gw sy (fst r)"
proof -
  have "ev = ev \<longrightarrow> moved gw sy (fst r)"
  proof (rule cancel_all_from.raw_induct [where P = "\<lambda>e now lst s sent sy r. e = ev \<longrightarrow> moved gw sy (fst r)", OF _ assms], intro impI)
    fix rec e now lst s sent sy r
    assume IH: "\<And>e now lst s sent sy r. rec e now lst s sent sy = Some r \<Longrightarrow> e = ev \<longrightarrow> moved gw sy (fst r)" and e: "e = ev"
      and body: "(if s = kNone then Some (sy, sent)
        else let x = ent sy s in
          if lst < in_id (en_info x) then Some (sy, sent)
          else if in_status (en_info x) \<noteq> OS_pending_cancel
            then case cancel_entry e s now sy of (sy, st) \<Rightarrow> rec e now lst (en_next x) (if st = SS_ok then sent + 1 else sent) sy
            else rec e now lst (en_next x) sent sy) = Some r"
    obtain sy1 st where c: "cancel_entry ev s now sy = (sy1, st)" by fastforce
    then have m: "moved gw sy sy1" using cancel_entry_full [of sy s now] by simp
    show "moved gw sy (fst r)" using body c e
      by (auto simp: Let_def moved_refl split: if_splits dest: IH moved_trans [OF m])
  qed
  then show ?thesis by simp
qed

lemma cancel_all_moved: "cancel_all ev now sy = Some (sy', n) \<Longrightarrow> moved gw sy sy'"
  unfolding cancel_all_def by (drule cancel_all_from_moved) simp_all

lemma upd_moved: "moved gw sy (engine_on_order_update sg i sy)"
  using calls_star_moved [OF update_calls] by (simp add: engine_on_order_update_def)

lemmas report_moved = report_rel [where R = "moved gw", OF moved_refl moved_trans upd_moved calls_star_moved [OF on_fill_calls]]

lemma report_all_moved:
  "moved gw (stats_upd (\<lambda>x. x\<lparr>et_ouch_reports := et_ouch_reports x + 1\<rparr>) sy) (report gw sg m now sy)"
proof -
  note quiet_same = report_world [THEN moved_same_world]
  show ?thesis
    by (cases m) (simp_all add: moved_trans [OF quiet_same(1) report_moved(1)] moved_trans [OF quiet_same(2) report_moved(2)]
        moved_trans [OF quiet_same(3) report_moved(5)] moved_trans [OF quiet_same(4) report_moved(3)]
        moved_trans [OF quiet_same(5) report_moved(4)])
qed

lemma om_inv_world [simp]: "om_inv (world_upd f sy) = om_inv sy"
  by (simp add: world_upd_def om_inv_def)

lemma report_inv: "om_inv sy \<Longrightarrow> om_inv (report gw sg m now sy)"
proof -
  assume inv: "om_inv sy"
  define sy1 where "sy1 = stats_upd (\<lambda>x. x\<lparr>et_ouch_reports := et_ouch_reports x + 1\<rparr>) sy"
  have inv1: "om_inv sy1" using inv by (simp add: sy1_def stats_upd_def)
  have ok: "\<exists>sy'. om_exec ev c sy1 = Some sy' \<and> om_inv sy'" if "om_call_int64 c" for c
    by (rule om_exec_inv [OF listener inv1 that])
  show ?thesis
    using ok [of "Rep_accepted _ now"] ok [of "Rep_replaced _ now"] ok [of "Rep_canceled _ now"] ok [of "Rep_executed _ now"]
      ok [of "Rep_rejected _ now"]
    by (cases m) (simp_all add: sy1_def [symmetric])
qed

lemma cancel_all_ok:
  assumes "om_inv sy"
  obtains sy' n where "cancel_all ev now sy = Some (sy', n)" "om_inv sy'" "moved gw sy sy'"
proof -
  have "\<exists>sy'. om_exec ev (Call_cancel_all now) sy = Some sy' \<and> om_inv sy'" by (rule om_exec_inv [OF listener assms]) simp
  then obtain sy' n where c: "cancel_all ev now sy = Some (sy', n)" "om_inv sy'" by auto
  have "moved gw sy sy'" using cancel_all_moved [OF c(1)] .
  with c show thesis by (rule that)
qed

end

section \<open>The invariant of the engine\<close>

definition engine_inv :: "nat \<Rightarrow> ('s, 'g) engine \<Rightarrow> bool" where
  "engine_inv k sy = (om_inv sy \<and> mb_inv k (eg_books (sy_world sy)) \<and> priced (eg_books (sy_world sy)))"

text \<open>Calls so far: feed messages, reports, gaps.\<close>

definition event_counts :: "EngineStats \<Rightarrow> u64 \<times> u64 \<times> u64" where
  "event_counts s = (et_itch_messages s + et_itch_skipped s, et_ouch_reports s + et_ouch_errors s, et_feed_gaps s)"

abbreviation counts_of :: "('s, 'g) engine \<Rightarrow> u64 \<times> u64 \<times> u64" where
  "counts_of sy \<equiv> event_counts (eg_stats (sy_world sy))"

lemma counters_event: "feed_counters s = feed_counters t \<Longrightarrow> event_counts s = event_counts t"
  by (simp add: feed_counters_def event_counts_def)

definition held :: "'g gateway \<Rightarrow> ('s, 'g) engine \<Rightarrow> ('s, 'g) engine \<Rightarrow> bool" where
  "held gw sy sy' = (eg_trading (sy_world sy') = eg_trading (sy_world sy) \<and>
     (\<not> eg_trading (sy_world sy) \<longrightarrow> cancels gw (eg_gateway (sy_world sy)) (eg_gateway (sy_world sy'))) \<and>
     (traded_ok (eg_books (sy_world sy)) \<longrightarrow> traded_ok (eg_books (sy_world sy')) \<and> sends gw (eg_gateway (sy_world sy)) (eg_gateway (sy_world sy'))))"

lemma moved_held: "moved gw sy sy' \<Longrightarrow> held gw sy sy'"
  by (simp add: moved_def held_def Let_def)

lemma held_trans: "held gw sy sy' \<Longrightarrow> held gw sy' sy'' \<Longrightarrow> held gw sy sy''"
  by (auto simp: held_def intro: cancels_trans sends_trans)

lemma held_refl: "held gw sy sy"
  by (simp add: held_def)

lemma stats_upd_sel [simp]:
  "sy_world (stats_upd f sy) = (sy_world sy)\<lparr>eg_stats := f (eg_stats (sy_world sy))\<rparr>"
  "sy_om (stats_upd f sy) = sy_om sy" "sy_risk (stats_upd f sy) = sy_risk sy"
  by (simp_all add: stats_upd_def world_upd_def)

lemma world_upd_sel [simp]:
  "sy_world (world_upd g sy) = g (sy_world sy)" "sy_om (world_upd g sy) = sy_om sy" "sy_risk (world_upd g sy) = sy_risk sy"
  by (simp_all add: world_upd_def)

lemma om_inv_stats [simp]: "om_inv (stats_upd f sy) = om_inv sy"
  by (simp add: stats_upd_def world_upd_def om_inv_def)

lemma engine_inv_stats [simp]: "engine_inv k (stats_upd f sy) = engine_inv k sy"
  by (simp add: engine_inv_def)

lemma held_stats: "held gw sy (stats_upd f sy)"
  by (simp add: held_def)

lemma engine_inv_moved: "engine_inv k sy \<Longrightarrow> moved gw sy sy' \<Longrightarrow> om_inv sy' \<Longrightarrow> engine_inv k sy'"
  by (simp add: engine_inv_def moved_def Let_def)

lemma moved_counts: "moved gw sy sy' \<Longrightarrow> counts_of sy' = counts_of sy"
  by (auto simp: moved_def Let_def intro: counters_event)

lemma engine_inv_mono: "engine_inv k sy \<Longrightarrow> engine_inv (k + 1) sy"
  using mb_inv_mono [of k _ "k + 1"] by (simp add: engine_inv_def)

context strategy_contract
begin

lemma retry_ok:
  assumes "engine_inv k sy"
  obtains sy' where "retry_gap_cancels gw sg now sy = Some sy'" "engine_inv k sy'" "held gw sy sy'" "counts_of sy' = counts_of sy"
proof (cases "eg_trading (sy_world sy) \<or> now < eg_next_gap_retry (sy_world sy) \<or> om_open (sy_om sy) = 0")
  case True
  then show ?thesis using that [of sy] assms by (auto simp: retry_gap_cancels_def held_refl)
next
  case False
  define sy1 where "sy1 = world_upd (\<lambda>w. w\<lparr>eg_next_gap_retry := Engine_saturating_add now kGapRetryNs\<rparr>) sy"
  have inv1: "engine_inv k sy1" using assms by (simp add: engine_inv_def sy1_def)
  then have om1: "om_inv sy1" by (simp add: engine_inv_def)
  obtain sy' n where c: "cancel_all ev now sy1 = Some (sy', n)" "om_inv sy'" "moved gw sy1 sy'" using cancel_all_ok [OF om1] .
  have h: "held gw sy sy1" "counts_of sy1 = counts_of sy" by (simp_all add: held_def sy1_def)
  show ?thesis
  proof (rule that)
    show "retry_gap_cancels gw sg now sy = Some sy'" using False c(1) by (simp add: retry_gap_cancels_def sy1_def)
    show "engine_inv k sy'" by (rule engine_inv_moved [OF inv1 c(3,2)])
    show "held gw sy sy'" by (rule held_trans [OF h(1) moved_held [OF c(3)]])
    show "counts_of sy' = counts_of sy" using moved_counts [OF c(3)] h(2) by simp
  qed
qed

lemma book_changed_ok:
  assumes "engine_inv k sy"
  shows "engine_inv k (book_changed sg loc now sy) \<and> moved gw sy (book_changed sg loc now sy)"
proof -
  define mb where "mb = eg_books (sy_world sy)"
  define mrk where "mrk = (if mid_price mb loc \<le> 0 then mb_last_trade mb loc else mid_price mb loc)"
  define sy1 where "sy1 = (if mrk > 0 then sy\<lparr>sy_risk := mark (sy_risk sy) loc mrk\<rparr> else sy)"
  have "mrk \<le> kInt64Max" using mark_price_bound [of k mb loc] assms by (simp add: engine_inv_def mrk_def mb_def)
  moreover have "om_inv sy" using assms by (simp add: engine_inv_def)
  ultimately have om1: "om_inv sy1" using om_at_risk moves_none(3) by (fastforce simp: om_inv_def sy1_def)
  have m1: "moved gw sy sy1" by (rule moved_same_world) (simp add: sy1_def)
  note calls = calls_star_moved [OF book_calls] api_star_inv [OF calls_star_api [OF book_calls]]
  have eq: "book_changed sg loc now sy = (if eg_trading (sy_world sy1) \<and> unat loc < eg_max_locates (sy_world sy1)
      then sg_on_book_update sg loc now sy1 else sy1)"
    by (simp add: book_changed_def Let_def sy1_def mrk_def mb_def)
  have "moved gw sy (book_changed sg loc now sy)" "om_inv (book_changed sg loc now sy)"
    using m1 om1 moved_trans [OF m1 calls(1)] calls(2) [OF om1] by (simp_all add: eq)
  then show ?thesis using engine_inv_moved [OF assms] by blast
qed

lemma apply_ok:
  assumes "engine_inv k sy" "1 \<le> k" "k < 2 ^ 64 - 1" "fits_wire_price (itch_price m)" "itch_sized m"
  obtains sy' where "engine_apply sg al m now sy = Some sy'" "engine_inv (k + 1) sy'" "held gw sy sy'"
    "counts_of sy' = (fst (counts_of sy) + 1, snd (counts_of sy))"
proof -
  have inv: "mb_inv k (eg_books (sy_world sy))" "priced (eg_books (sy_world sy))" "om_inv sy" using assms(1) by (simp_all add: engine_inv_def)
  obtain mb res where on: "mb_on al m (eg_books (sy_world sy)) = Some (mb, res)" "mb_inv (k + 1) mb" "priced mb"
    using mb_on_priced [OF inv(1) assms(2,3) inv(2) assms(4,5), of al] .
  define sy1 where "sy1 = world_upd (\<lambda>w. w\<lparr>eg_books := mb\<rparr>) (stats_upd (\<lambda>x. x\<lparr>et_itch_messages := et_itch_messages x + 1\<rparr>) sy)"
  have i1: "engine_inv (k + 1) sy1" using on inv by (simp add: engine_inv_def sy1_def)
  have h1: "held gw sy sy1" using on(3) by (simp add: held_def sy1_def priced_def)
  have c1: "counts_of sy1 = (fst (counts_of sy) + 1, snd (counts_of sy))" by (simp add: sy1_def event_counts_def)
  define sye where "sye = stats_upd (\<lambda>x. x\<lparr>et_book_errors := et_book_errors x + 1\<rparr>) sy1"
  define syu where "syu = stats_upd (\<lambda>x. x\<lparr>et_book_updates := et_book_updates x + 1\<rparr>) sy1"
  define loc where "loc = target_locate (eg_books (sy_world sy)) m"
  have bc: "engine_inv (k + 1) (book_changed sg loc now syu) \<and> moved gw syu (book_changed sg loc now syu)"
    using i1 by (intro book_changed_ok) (simp add: syu_def)
  have eq: "engine_apply sg al m now sy = Some (if kOrderFlow m then if res = Ap_ok then book_changed sg loc now syu
        else if res \<noteq> Ap_ignored then sye else sy1 else if res \<noteq> Ap_ok \<and> res \<noteq> Ap_ignored then sye else sy1)"
    by (simp add: engine_apply_def Let_def on(1) sy1_def sye_def syu_def loc_def)
  have hu: "held gw sy syu" "held gw sy sye" unfolding syu_def sye_def by (rule held_trans [OF h1 held_stats])+
  have cu: "counts_of syu = counts_of sy1" "counts_of sye = counts_of sy1" by (simp_all add: syu_def sye_def event_counts_def)
  have "\<exists>x \<in> {book_changed sg loc now syu, sye, sy1}. engine_apply sg al m now sy = Some x" unfolding eq by simp
  then obtain x where x: "x \<in> {book_changed sg loc now syu, sye, sy1}" "engine_apply sg al m now sy = Some x" by blast
  have "engine_inv (k + 1) x" "held gw sy x" "counts_of x = counts_of sy1"
    using x(1) bc i1 h1 hu cu held_trans [OF hu(1) moved_held [OF bc [THEN conjunct2]]] moved_counts [OF bc [THEN conjunct2]]
    by (auto simp: sye_def)
  then show thesis using that [OF x(2)] c1 by simp
qed

lemma on_itch_ok:
  assumes "engine_inv k sy" "1 \<le> k" "k < 2 ^ 64 - 1"
  obtains sy' st where "on_itch gw sg al msg now sy = Some (sy', st)" "engine_inv (k + 1) sy'" "held gw sy sy'"
    "counts_of sy' = (fst (counts_of sy) + 1, snd (counts_of sy))"
proof -
  define on where "on = (\<lambda>m h. h \<bind> engine_apply sg al m now)"
  obtain st r where d: "decode on msg (Some sy) = Some (st, r)"
    "if st = DS_ok then \<exists>m. wire_valid m \<and> r = on m (Some sy) else r = Some sy" using decode_delivers [of on msg "Some sy"] by auto
  define skip where "skip = (\<lambda>sy :: ('s, 'g) engine. if st \<noteq> DS_ok then stats_upd (\<lambda>x. x\<lparr>et_itch_skipped := et_itch_skipped x + 1\<rparr>) sy else sy)"
  obtain sy1 where sy1: "r = Some sy1" "engine_inv (k + 1) (skip sy1)" "held gw sy (skip sy1)"
    "counts_of (skip sy1) = (fst (counts_of sy) + 1, snd (counts_of sy))"
  proof (cases "st = DS_ok")
    case True
    then obtain m where m: "wire_valid m" "r = engine_apply sg al m now sy" using d(2) by (auto simp: on_def)
    have "fits_wire_price (itch_price m)" "itch_sized m" using m(1) by (simp_all add: wire_valid_def)
    from assms this show ?thesis
      by (rule apply_ok [of _ _ _ al now]) (use m(2) True in \<open>auto simp: skip_def intro: that\<close>)
  next
    case False
    then show ?thesis using d(2) engine_inv_mono [OF assms(1)] by (intro that [of sy]) (simp_all add: skip_def held_def event_counts_def)
  qed
  define sy2 where "sy2 = skip sy1"
  note sy1' = sy1(2-4) [folded sy2_def]
  obtain sy' where rt: "retry_gap_cancels gw sg now sy2 = Some sy'" "engine_inv (k + 1) sy'" "held gw sy2 sy'" "counts_of sy' = counts_of sy2"
    using retry_ok [OF sy1'(1)] .
  have "on_itch gw sg al msg now sy = Some (sy', st)"
    using d(1) sy1(1) rt(1) by (simp add: on_itch_def on_def sy2_def skip_def Let_def)
  then show thesis using that [OF _ rt(2) held_trans [OF sy1'(2) rt(3)]] rt(4) sy1'(3) by simp
qed

lemma on_ouch_ok:
  assumes "engine_inv k sy"
  obtains sy' st where "on_ouch gw sg msg now sy = Some (sy', st)" "engine_inv k sy'" "held gw sy sy'"
    "counts_of sy' = (fst (counts_of sy), fst (snd (counts_of sy)) + 1, snd (snd (counts_of sy)))"
proof -
  obtain st sy1 where d: "decode_outbound (\<lambda>m. report gw sg m now) msg sy = Some (st, sy1)"
    "if st = DS_ok then \<exists>m. sy1 = report gw sg m now sy else sy1 = sy" using decode_outbound_delivers by metis
  define sy2 where "sy2 = (if st \<noteq> DS_ok then stats_upd (\<lambda>x. x\<lparr>et_ouch_errors := et_ouch_errors x + 1\<rparr>) sy1 else sy1)"
  have "engine_inv k sy2 \<and> held gw sy sy2 \<and> counts_of sy2 = (fst (counts_of sy), fst (snd (counts_of sy)) + 1, snd (snd (counts_of sy)))"
  proof (cases "st = DS_ok")
    case True
    then obtain m where m: "sy1 = report gw sg m now sy" using d(2) by auto
    define sy0 where "sy0 = stats_upd (\<lambda>x. x\<lparr>et_ouch_reports := et_ouch_reports x + 1\<rparr>) sy"
    have mv: "moved gw sy0 sy1" using report_all_moved by (simp add: m sy0_def)
    have "engine_inv k sy1" using assms report_inv [of sy m now] mv
      by (intro engine_inv_moved [OF _ mv]) (simp_all add: sy0_def m engine_inv_def)
    moreover have "held gw sy sy1" by (rule held_trans [OF _ moved_held [OF mv]]) (simp add: sy0_def held_def)
    moreover have "counts_of sy1 = counts_of sy0" by (rule moved_counts [OF mv])
    ultimately show ?thesis using True by (simp add: sy2_def sy0_def event_counts_def)
  next
    case False
    then show ?thesis using d(2) assms by (simp add: sy2_def held_def event_counts_def)
  qed
  then have sy2: "engine_inv k sy2" "held gw sy sy2" "counts_of sy2 = (fst (counts_of sy), fst (snd (counts_of sy)) + 1, snd (snd (counts_of sy)))"
    by simp_all
  obtain sy' where rt: "retry_gap_cancels gw sg now sy2 = Some sy'" "engine_inv k sy'" "held gw sy2 sy'" "counts_of sy' = counts_of sy2"
    using retry_ok [OF sy2(1)] .
  have "on_ouch gw sg msg now sy = Some (sy', st)" using d(1) rt(1) by (simp add: on_ouch_def sy2_def Let_def)
  then show thesis using that [OF _ rt(2) held_trans [OF sy2(2) rt(3)]] rt(4) sy2(3) by simp
qed

lemma on_feed_gap_ok:
  assumes "engine_inv k sy"
  obtains sy' where "on_feed_gap gw sg now sy = Some sy'" "engine_inv k sy'" "\<not> eg_trading (sy_world sy')"
    "cancels gw (eg_gateway (sy_world sy)) (eg_gateway (sy_world sy'))"
    "counts_of sy' = (fst (counts_of sy), fst (snd (counts_of sy)), snd (snd (counts_of sy)) + 1)"
proof -
  define sy1 where "sy1 = world_upd (\<lambda>w. w\<lparr>eg_trading := False, eg_next_gap_retry := Engine_saturating_add now kGapRetryNs\<rparr>)
         (stats_upd (\<lambda>x. x\<lparr>et_feed_gaps := et_feed_gaps x + 1\<rparr>) sy)"
  have i1: "engine_inv k sy1" using assms by (simp add: engine_inv_def sy1_def)
  then have om1: "om_inv sy1" by (simp add: engine_inv_def)
  obtain sy' n where c: "cancel_all ev now sy1 = Some (sy', n)" "om_inv sy'" "moved gw sy1 sy'" using cancel_all_ok [OF om1] .
  show thesis
  proof (rule that)
    show "on_feed_gap gw sg now sy = Some sy'" using c(1) by (simp add: on_feed_gap_def sy1_def)
    show "engine_inv k sy'" by (rule engine_inv_moved [OF i1 c(3,2)])
    show "\<not> eg_trading (sy_world sy')" "cancels gw (eg_gateway (sy_world sy)) (eg_gateway (sy_world sy'))"
      using c(3) by (simp_all add: moved_def Let_def sy1_def)
    show "counts_of sy' = (fst (counts_of sy), fst (snd (counts_of sy)), snd (snd (counts_of sy)) + 1)"
      using moved_counts [OF c(3)] by (simp add: sy1_def event_counts_def)
  qed
qed

end

section \<open>Sequences of engine calls\<close>

datatype engine_event = EE_itch alloc "u8 list" Nanos | EE_ouch "u8 list" Nanos | EE_gap Nanos | EE_resume

fun engine_step :: "'g gateway \<Rightarrow> ('s, 'g) strategy \<Rightarrow> engine_event \<Rightarrow> ('s, 'g) engine \<Rightarrow> ('s, 'g) engine option" where
  "engine_step gw sg (EE_itch al msg now) sy = map_option fst (on_itch gw sg al msg now sy)"
| "engine_step gw sg (EE_ouch msg now) sy = map_option fst (on_ouch gw sg msg now sy)"
| "engine_step gw sg (EE_gap now) sy = on_feed_gap gw sg now sy"
| "engine_step gw sg EE_resume sy = Some (resume_trading sy)"

primrec engine_run :: "'g gateway \<Rightarrow> ('s, 'g) strategy \<Rightarrow> engine_event list \<Rightarrow> ('s, 'g) engine \<Rightarrow> ('s, 'g) engine option" where
  "engine_run gw sg [] sy = Some sy"
| "engine_run gw sg (e # es) sy = engine_step gw sg e sy \<bind> engine_run gw sg es"

fun is_itch :: "engine_event \<Rightarrow> bool" where
  "is_itch (EE_itch al msg now) = True" | "is_itch _ = False"

fun is_ouch :: "engine_event \<Rightarrow> bool" where
  "is_ouch (EE_ouch msg now) = True" | "is_ouch _ = False"

fun is_gap :: "engine_event \<Rightarrow> bool" where
  "is_gap (EE_gap now) = True" | "is_gap _ = False"

text \<open>How often each entry point is called, as the counters have it.\<close>

definition called :: "engine_event list \<Rightarrow> u64 \<times> u64 \<times> u64" where
  "called es = (of_nat (length (filter is_itch es)), of_nat (length (filter is_ouch es)), of_nat (length (filter is_gap es)))"

definition plus3 :: "u64 \<times> u64 \<times> u64 \<Rightarrow> u64 \<times> u64 \<times> u64 \<Rightarrow> u64 \<times> u64 \<times> u64" where
  "plus3 a b = (fst a + fst b, fst (snd a) + fst (snd b), snd (snd a) + snd (snd b))"

lemma called_Cons: "called (e # es) = plus3 (called [e]) (called es)"
  by (cases e) (simp_all add: called_def plus3_def)

lemma plus3_assoc: "plus3 (plus3 a b) c = plus3 a (plus3 b c)"
  by (simp add: plus3_def add.assoc)

context strategy_contract
begin

lemma step_ok:
  assumes "engine_inv k sy" "1 \<le> k" "k < 2 ^ 64 - 1"
  obtains sy' where "engine_step gw sg e sy = Some sy'" "engine_inv (k + 1) sy'" "counts_of sy' = plus3 (counts_of sy) (called [e])"
    "e \<noteq> EE_resume \<Longrightarrow> \<not> eg_trading (sy_world sy) \<Longrightarrow> \<not> eg_trading (sy_world sy') \<and>
       cancels gw (eg_gateway (sy_world sy)) (eg_gateway (sy_world sy'))"
proof (cases e)
  case (EE_itch al msg now)
  from assms show ?thesis
    by (rule on_itch_ok [of _ _ al msg now]) (auto intro!: that simp: EE_itch called_def plus3_def held_def prod_eq_iff)
next
  case (EE_ouch msg now)
  from assms(1) show ?thesis
    by (rule on_ouch_ok [of _ _ msg now])
      (auto intro!: that simp: EE_ouch called_def plus3_def held_def prod_eq_iff dest: engine_inv_mono)
next
  case (EE_gap now)
  from assms(1) show ?thesis
    by (rule on_feed_gap_ok [of _ _ now])
      (auto intro!: that simp: EE_gap called_def plus3_def prod_eq_iff dest: engine_inv_mono)
next
  case EE_resume
  have "engine_inv (k + 1) (resume_trading sy)" using engine_inv_mono [OF assms(1)] by (simp add: engine_inv_def resume_trading_def)
  then show ?thesis by (intro that [of "resume_trading sy"]) (simp_all add: EE_resume resume_trading_def called_def plus3_def)
qed

lemma run_ok:
  assumes "engine_inv k sy" "1 \<le> k" "k + length es < 2 ^ 64"
  shows "\<exists>sy'. engine_run gw sg es sy = Some sy' \<and> engine_inv (k + length es) sy' \<and> counts_of sy' = plus3 (counts_of sy) (called es) \<and>
    (EE_resume \<notin> set es \<and> \<not> eg_trading (sy_world sy) \<longrightarrow> \<not> eg_trading (sy_world sy') \<and>
       cancels gw (eg_gateway (sy_world sy)) (eg_gateway (sy_world sy')))"
  using assms
proof (induction es arbitrary: k sy)
  case Nil
  then show ?case by (simp add: called_def plus3_def)
next
  case (Cons e es)
  have k: "k < 2 ^ 64 - 1" "k + 1 + length es < 2 ^ 64" "1 \<le> k + 1" using Cons.prems(3) by simp_all
  obtain sy1 where s: "engine_step gw sg e sy = Some sy1" "engine_inv (k + 1) sy1" "counts_of sy1 = plus3 (counts_of sy) (called [e])"
    "e \<noteq> EE_resume \<Longrightarrow> \<not> eg_trading (sy_world sy) \<Longrightarrow> \<not> eg_trading (sy_world sy1) \<and>
       cancels gw (eg_gateway (sy_world sy)) (eg_gateway (sy_world sy1))"
    using step_ok [OF Cons.prems(1,2) k(1)] by blast
  obtain sy2 where r: "engine_run gw sg es sy1 = Some sy2" "engine_inv (k + 1 + length es) sy2" "counts_of sy2 = plus3 (counts_of sy1) (called es)"
    "EE_resume \<notin> set es \<and> \<not> eg_trading (sy_world sy1) \<longrightarrow> \<not> eg_trading (sy_world sy2) \<and>
       cancels gw (eg_gateway (sy_world sy1)) (eg_gateway (sy_world sy2))"
    using Cons.IH [OF s(2) k(3,2)] by blast
  have "counts_of sy2 = plus3 (counts_of sy) (called (e # es))" using r(3) s(3) by (simp add: called_Cons [of e es] plus3_assoc)
  moreover have "EE_resume \<notin> set (e # es) \<and> \<not> eg_trading (sy_world sy) \<longrightarrow> \<not> eg_trading (sy_world sy2) \<and>
       cancels gw (eg_gateway (sy_world sy)) (eg_gateway (sy_world sy2))"
    using s(4) r(4) cancels_trans by (metis list.set_intros(1,2))
  moreover have "engine_run gw sg (e # es) sy = Some sy2" using s(1) r(1) by simp
  moreover have "engine_inv (k + length (e # es)) sy2" using r(2) by simp
  ultimately show ?case by blast
qed

end

section \<open>Strategies that only watch their reports\<close>

text \<open>While trading is on, a report moves the gateway only if a callback does.\<close>

definition quiet_reports :: "('s, 'g) strategy \<Rightarrow> bool" where
  "quiet_reports sg = (\<forall>sy now. (\<forall>f. eg_gateway (sy_world (sg_on_fill sg f now sy)) = eg_gateway (sy_world sy)) \<and>
     (\<forall>i. eg_gateway (sy_world (sg_on_order_update sg i now sy)) = eg_gateway (sy_world sy)))"

lemma on_ouch_quiet:
  fixes gw :: "'g gateway" and sg :: "('s, 'g) strategy"
  assumes "quiet_reports sg" "strategy_contract gw sg" "eg_trading (sy_world sy)" "on_ouch gw sg msg now sy = Some (sy', st)"
  shows "eg_gateway (sy_world sy') = eg_gateway (sy_world sy)"
proof -
  define R where "R = (\<lambda>(sy :: ('s, 'g) engine) sy' :: ('s, 'g) engine. eg_gateway (sy_world sy') = eg_gateway (sy_world sy))"
  have cb: "R sy (engine_on_order_update sg i sy)" "R sy (engine_on_fill sg f sy)" for i f and sy :: "('s, 'g) engine"
    using assms(1) by (simp_all add: R_def quiet_reports_def engine_on_order_update_def engine_on_fill_def)
  have rt: "\<And>sy. R sy sy" "\<And>x y z. R x y \<Longrightarrow> R y z \<Longrightarrow> R x z" by (simp_all add: R_def)
  note handlers = report_rel [of R, OF rt cb, unfolded R_def report_world]
  have "eg_gateway (sy_world (report gw sg m now sy)) = eg_gateway (sy_world sy)" for m
    by (cases m) (simp_all add: handlers)
  moreover have "eg_trading (sy_world (report gw sg m now sy)) = eg_trading (sy_world sy)" for m
    using strategy_contract.report_all_moved [OF assms(2), of sy m now] by (simp add: moved_def Let_def)
  moreover obtain st1 sy1 where d: "decode_outbound (\<lambda>m. report gw sg m now) msg sy = Some (st1, sy1)"
    "if st1 = DS_ok then \<exists>m. sy1 = report gw sg m now sy else sy1 = sy" using decode_outbound_delivers [of "\<lambda>m. report gw sg m now" msg sy] by blast
  ultimately have "eg_gateway (sy_world sy1) = eg_gateway (sy_world sy)" "eg_trading (sy_world sy1)" using assms(3) by (auto split: if_splits)
  then show ?thesis using assms(4) d(1) by (auto simp: on_ouch_def retry_gap_cancels_def Let_def split: if_splits)
qed

lemma Engine_new_inv:
  assumes "Engine_new cfg st g = Some sy"
  shows "engine_inv 1 sy" "counts_of sy = (0, 0, 0)"
proof -
  obtain mb om where n: "MarketBooks_new (ec_books cfg) = Some mb" "OrderManager_new (ec_oms cfg) = Some om"
    and sy: "sy = \<lparr>sy_om = om, sy_risk = RiskEngine_new (ec_limits cfg) (ec_max_locates cfg),
           sy_world = \<lparr>eg_max_locates = ec_max_locates cfg, eg_books = mb, eg_strategy = st, eg_trading = True,
             eg_next_gap_retry = 0, eg_stats = EngineStats_new, eg_gateway = g\<rparr>\<rparr>"
    using assms by (auto simp: Engine_new_def bind_eq_Some_conv)
  show "engine_inv 1 sy" using MarketBooks_new_inv(1) [OF n(1)] MarketBooks_new_priced [OF n(1)]
      om_start_inv [OF n(2), of "ec_limits cfg" "ec_max_locates cfg" "sy_world sy"]
    by (simp add: engine_inv_def sy om_start_def)
  show "counts_of sy = (0, 0, 0)" by (simp add: sy event_counts_def EngineStats_new_def)
qed

section \<open>Calls of the API are steps of the contract\<close>

definition noticed :: "'w env \<Rightarrow> 'w sys \<Rightarrow> 'w sys \<Rightarrow> bool" where
  "noticed ev sy sy' = (sy' = sy \<or> (\<exists>i. sy' = notify ev i sy))"

lemma noticed_intros [simp]: "noticed ev sy sy" "noticed ev sy (notify ev i sy)"
  by (auto simp: noticed_def)

lemma api_noticed:
  "noticed ev (fst (submit (quiet ev) req now sy)) (fst (submit ev req now sy))"
  "noticed ev (fst (replace (quiet ev) oid p q now sy)) (fst (replace ev oid p q now sy))"
  "noticed ev (fst (cancel (quiet ev) oid now sy)) (fst (cancel ev oid now sy))"
  by (simp_all add: submit_def replace_def cancel_def cancel_entry_def Let_def split: prod.split option.split)

lemma Api_calls:
  fixes gw :: "'g gateway" and sg :: "('s, 'g) strategy"
  defines "ev \<equiv> engine_env gw sg"
  assumes upd: "\<And>i now sy. (calls_step ev)\<^sup>*\<^sup>* sy (sg_on_order_update sg i now sy)"
  shows "(calls_step ev)\<^sup>*\<^sup>* sy (fst (Api_submit ev req now sy))" "(calls_step ev)\<^sup>*\<^sup>* sy (fst (Api_cancel ev oid now sy))"
    "(calls_step ev)\<^sup>*\<^sup>* sy (fst (Api_replace ev oid p q now sy))"
proof -
  have note_calls: "(calls_step ev)\<^sup>*\<^sup>* sy (notify ev i sy)" for i sy
    using upd by (simp add: notify_def ev_def engine_on_order_update_def)
  have after: "(calls_step ev)\<^sup>*\<^sup>* sy sy''" if "calls_step ev sy sy'" "noticed ev sy' sy''" for sy sy' sy''
    using that note_calls by (auto simp: noticed_def intro: converse_rtranclp_into_rtranclp)
  have stats: "(calls_step ev)\<^sup>*\<^sup>* sy (stats_upd f sy)"
    if "\<And>x. feed_counters (f x) = feed_counters x" for f and sy :: "('s, 'g) engine"
    using calls_stats [where f = f and sy = sy and ev = ev] that by auto
  have refuse: "(calls_step ev)\<^sup>*\<^sup>* sy (count_refusal s sy)" for s and sy :: "('s, 'g) engine"
    unfolding count_refusal_def by (auto intro: stats simp: feed_counters_def)
  have "eg_trading (sy_world sy) \<Longrightarrow> (calls_step ev)\<^sup>*\<^sup>* sy (fst (submit ev req now sy))" using after [OF calls_submit api_noticed(1)] .
  then show "(calls_step ev)\<^sup>*\<^sup>* sy (fst (Api_submit ev req now sy))"
    unfolding Api_submit_def Let_def
    by (auto simp: case_prod_unfold feed_counters_def intro!: rtranclp_trans [OF _ refuse] rtranclp_trans [OF _ stats])
  have "eg_trading (sy_world sy) \<Longrightarrow> (calls_step ev)\<^sup>*\<^sup>* sy (fst (replace ev oid p q now sy))" using after [OF calls_replace api_noticed(2)] .
  then show "(calls_step ev)\<^sup>*\<^sup>* sy (fst (Api_replace ev oid p q now sy))"
    unfolding Api_replace_def Let_def
    by (auto simp: case_prod_unfold feed_counters_def intro!: rtranclp_trans [OF _ refuse] rtranclp_trans [OF _ stats])
  have "(calls_step ev)\<^sup>*\<^sup>* sy (fst (cancel ev oid now sy))" using after [OF calls_cancel api_noticed(3)] .
  then show "(calls_step ev)\<^sup>*\<^sup>* sy (fst (Api_cancel ev oid now sy))"
    unfolding Api_cancel_def by (auto simp: case_prod_unfold Let_def intro: rtranclp_trans [OF _ refuse])
qed


section \<open>The properties\<close>

context strategy_contract
begin

lemma gap_reaches:
  assumes "om_inv sy" "on_feed_gap gw sg now sy = Some sy'" "gateway_takes_cancels ev" "om_find sy oid = Some i" "\<not> is_terminal (in_status i)"
  shows "\<exists>i'. om_find sy' oid = Some i' \<and> in_status i' = OS_pending_cancel"
proof -
  define sy1 where "sy1 = world_upd (\<lambda>w. w\<lparr>eg_trading := False, eg_next_gap_retry := Engine_saturating_add now kGapRetryNs\<rparr>)
         (stats_upd (\<lambda>x. x\<lparr>et_feed_gaps := et_feed_gaps x + 1\<rparr>) sy)"
  obtain n where c: "cancel_all ev now sy1 = Some (sy', n)" using assms(2) by (auto simp: on_feed_gap_def sy1_def)
  have "om_inv sy1" using assms(1) by (simp add: sy1_def)
  then obtain ws fs where at: "om_at {} ws fs sy1" by (auto simp: om_inv_def)
  have "om_find sy1 oid = Some i" using assms(4) by (simp add: om_find_def sy1_def)
  from cancel_all_pending [OF listener at c assms(3) this assms(5)] show ?thesis .
qed

end

lemma om_inv_ledger:
  assumes "om_inv sy" "d = Side_buy \<or> d = Side_sell"
  shows "open_qty (sy_risk sy) l d = (\<Sum>e\<leftarrow>om_orders (sy_om sy). share l d e)"
    "open_count (sy_risk sy) l d = (\<Sum>e\<leftarrow>om_orders (sy_om sy). counts l d e)"
proof -
  have "ledger_ok (sy_risk sy) (om_orders (sy_om sy))" using assms(1) by (auto simp: om_inv_def om_at_def)
  then show "open_qty (sy_risk sy) l d = (\<Sum>e\<leftarrow>om_orders (sy_om sy). share l d e)"
    "open_count (sy_risk sy) l d = (\<Sum>e\<leftarrow>om_orders (sy_om sy). counts l d e)"
    using assms(2) by (auto simp: ledger_ok_def)
qed

end
