(* ===== verification/Strategies.thy ===== *)
theory Strategies
  imports Engine_Correct
begin

text \<open>
  The strategies, \<^verbatim>\<open>src/include/optitrade/strategy/strategy.hpp\<close>, \<^verbatim>\<open>ema_cross.hpp\<close>,
  \<^verbatim>\<open>imbalance_taker.hpp\<close> and \<^verbatim>\<open>microprice_maker.hpp\<close>. A strategy object is the component \<open>eg_strategy\<close> of
  the engine's world. A callback is a function on the whole engine; because the order manager calls
  the strategy back while a submit is under way, the strategy's state is read again after each call
  of the API. Signed 64-bit values are \<^typ>\<open>int\<close>; C++ division truncates and is \<open>sdiv\<close> where an
  operand may be negative, an arithmetic right shift is the floor division \<open>div\<close>.
\<close>

section \<open>strategy.hpp\<close>

definition clamp_int :: "int \<Rightarrow> int \<Rightarrow> int \<Rightarrow> int" where
  "clamp_int v lo hi = (if v < lo then lo else if hi < v then hi else v)"

definition clamp_u32 :: "u32 \<Rightarrow> u32 \<Rightarrow> u32 \<Rightarrow> u32" where
  "clamp_u32 v lo hi = (if v < lo then lo else if hi < v then hi else v)"

definition kPositionBound :: int where "kPositionBound = 2 ^ 40"

definition position_of :: "RiskEngine \<Rightarrow> Locate \<Rightarrow> int" where
  "position_of risk l = clamp_int (ps_qty (position risk l)) (- kPositionBound) kPositionBound"

record Touch =
  th_bid :: Price
  th_ask :: Price
  th_bid_qty :: Qty
  th_ask_qty :: Qty

definition touch_of :: "OrderBook option \<Rightarrow> Touch option" where
  "touch_of b =
     (case b of
        None \<Rightarrow> None
      | Some b \<Rightarrow>
          (case (best b Side_buy, best b Side_sell) of
             (Some bid, Some ask) \<Rightarrow>
               if lv_price bid \<le> 0 \<or> lv_price ask \<le> 0 \<or> lv_price bid \<ge> lv_price ask then None
               else if lv_qty bid = 0 \<or> lv_qty ask = 0 then None
               else Some \<lparr>th_bid = lv_price bid, th_ask = lv_price ask, th_bid_qty = lv_qty bid, th_ask_qty = lv_qty ask\<rparr>
           | _ \<Rightarrow> None))"

record OrderGate =
  og_inflight :: OrderId
  og_last :: Nanos
  og_has_last :: bool

definition OrderGate_new :: OrderGate where
  "OrderGate_new = \<lparr>og_inflight = 0, og_last = 0, og_has_last = False\<rparr>"

definition gate_ready :: "(OrderId \<Rightarrow> OmsInfo option) \<Rightarrow> Nanos \<Rightarrow> Nanos \<Rightarrow> OrderGate \<Rightarrow> OrderGate \<times> bool" where
  "gate_ready look now cooldown g =
     (if og_inflight g \<noteq> 0 \<and> (case look (og_inflight g) of Some i \<Rightarrow> \<not> is_terminal (in_status i) | None \<Rightarrow> False) then (g, False)
      else
        let g = (if og_inflight g \<noteq> 0 then g\<lparr>og_inflight := 0\<rparr> else g) in
        (g, \<not> og_has_last g \<or> (now \<ge> og_last g \<and> now - og_last g \<ge> cooldown)))"

definition gate_sent :: "Nanos \<Rightarrow> SubmitResult \<Rightarrow> OrderGate \<Rightarrow> OrderGate" where
  "gate_sent now r g =
     (let g = g\<lparr>og_last := now, og_has_last := True\<rparr> in
      if sr_status r = SS_ok then g\<lparr>og_inflight := sr_id r\<rparr> else g)"

definition gate_on_update :: "OmsInfo \<Rightarrow> OrderGate \<Rightarrow> OrderGate" where
  "gate_on_update i g =
     (if og_inflight g \<noteq> 0 \<and> in_id i = og_inflight g \<and> is_terminal (in_status i) then g\<lparr>og_inflight := 0\<rparr> else g)"

text \<open>Access to the strategy object inside the engine.\<close>

abbreviation strat :: "('s, 'g) engine \<Rightarrow> 's" where
  "strat sy \<equiv> eg_strategy (sy_world sy)"

definition strat_upd :: "('s \<Rightarrow> 's) \<Rightarrow> ('s, 'g) engine \<Rightarrow> ('s, 'g) engine" where
  "strat_upd f = world_upd (\<lambda>w. w\<lparr>eg_strategy := f (eg_strategy w)\<rparr>)"

section \<open>ema\_cross.hpp\<close>

record EmaCrossConfig =
  xc_max_locates :: nat
  xc_fast_shift :: u32
  xc_slow_shift :: u32
  xc_warmup :: u32
  xc_confirm_ticks :: u32
  xc_order_qty :: Qty
  xc_max_position :: int
  xc_cooldown_ns :: Nanos

record EmaSlot =
  es_fast :: int
  es_slow :: int
  es_samples :: u32
  es_run :: u32
  es_sign :: int
  es_armed :: bool
  es_gate :: OrderGate

record EmaCross =
  xs_cfg :: EmaCrossConfig
  xs_slots :: "EmaSlot list"

definition kFrac :: nat where "kFrac = 8"

definition EmaSlot_new :: EmaSlot where
  "EmaSlot_new = \<lparr>es_fast = 0, es_slow = 0, es_samples = 0, es_run = 0, es_sign = 0, es_armed = False, es_gate = OrderGate_new\<rparr>"

definition ema_sanitize :: "EmaCrossConfig \<Rightarrow> EmaCrossConfig" where
  "ema_sanitize c =
     (let c = c\<lparr>xc_fast_shift := clamp_u32 (xc_fast_shift c) 1 30\<rparr>;
          c = c\<lparr>xc_slow_shift := clamp_u32 (xc_slow_shift c) (xc_fast_shift c + 1) 31\<rparr>;
          c = c\<lparr>xc_confirm_ticks := max (xc_confirm_ticks c) 1\<rparr>;
          c = c\<lparr>xc_order_qty := clamp_u32 (xc_order_qty c) 1 kMaxOrderQty\<rparr>;
          c = c\<lparr>xc_max_position := clamp_int (xc_max_position c) 0 kPositionBound\<rparr> in
      c\<lparr>xc_max_locates := min (xc_max_locates c) kMaxLocates\<rparr>)"

definition EmaCross_new :: "EmaCrossConfig \<Rightarrow> EmaCross" where
  "EmaCross_new cfg = (let c = ema_sanitize cfg in \<lparr>xs_cfg = c, xs_slots = replicate (xc_max_locates c) EmaSlot_new\<rparr>)"

definition ema_fast :: "EmaCross \<Rightarrow> Locate \<Rightarrow> int" where
  "ema_fast x l = (if unat l < length (xs_slots x) then es_fast (xs_slots x ! unat l) else 0)"

definition ema_slow :: "EmaCross \<Rightarrow> Locate \<Rightarrow> int" where
  "ema_slow x l = (if unat l < length (xs_slots x) then es_slow (xs_slots x ! unat l) else 0)"

definition ema_samples :: "EmaCross \<Rightarrow> Locate \<Rightarrow> u32" where
  "ema_samples x l = (if unat l < length (xs_slots x) then es_samples (xs_slots x ! unat l) else 0)"

text \<open>The first part of \<^verbatim>\<open>on_book_update\<close>: averages, warm-up, sign of the cross.\<close>

definition ema_sample :: "EmaCrossConfig \<Rightarrow> Touch \<Rightarrow> EmaSlot \<Rightarrow> EmaSlot" where
  "ema_sample cfg touch s =
     (let sample = (th_bid touch + th_ask touch) * 2 ^ kFrac;
          s = (if es_samples s = 0 then s\<lparr>es_fast := sample, es_slow := sample\<rparr>
               else s\<lparr>es_fast := es_fast s + (sample - es_fast s) div 2 ^ unat (xc_fast_shift cfg),
                      es_slow := es_slow s + (sample - es_slow s) div 2 ^ unat (xc_slow_shift cfg)\<rparr>);
          s = (if es_samples s \<noteq> 0xFFFFFFFF then s\<lparr>es_samples := es_samples s + 1\<rparr> else s);
          warm = (es_samples s \<ge> xc_warmup cfg);
          sign = (if es_fast s > es_slow s then 1 else if es_fast s < es_slow s then - 1 else 0) in
      if sign = 0 then s\<lparr>es_run := 0, es_armed := False\<rparr>
      else if sign = es_sign s then if es_run s \<noteq> 0xFFFFFFFF then s\<lparr>es_run := es_run s + 1\<rparr> else s
      else s\<lparr>es_sign := sign, es_run := 1, es_armed := warm\<rparr>)"

text \<open>The target position.\<close>

definition ema_target :: "EmaCrossConfig \<Rightarrow> EmaSlot \<Rightarrow> int \<Rightarrow> int" where
  "ema_target cfg s pos =
     (if es_armed s \<and> es_run s \<ge> xc_confirm_ticks cfg then es_sign s * min (uint (xc_order_qty cfg)) (xc_max_position cfg)
      else if pos \<noteq> 0 \<and> (pos > 0) \<noteq> (es_sign s > 0) then 0
      else pos)"

text \<open>The order that moves toward the target.\<close>

definition ema_order :: "EmaCrossConfig \<Rightarrow> Locate \<Rightarrow> Touch \<Rightarrow> int \<Rightarrow> int \<Rightarrow> OrderRequest" where
  "ema_order cfg l touch pos target =
     (let buy = (target > pos);
          price = (if buy then th_ask touch else th_bid touch);
          qty = word_of_int (min (if buy then target - pos else pos - target) (uint (xc_order_qty cfg))) in
      \<lparr>rq_locate = l, rq_side = (if buy then Side_buy else Side_sell), rq_price = price, rq_qty = qty, rq_tif = Tif_ioc\<rparr>)"

definition set_ema_slot :: "Locate \<Rightarrow> (EmaSlot \<Rightarrow> EmaSlot) \<Rightarrow> EmaCross \<Rightarrow> EmaCross" where
  "set_ema_slot l f x = x\<lparr>xs_slots := (xs_slots x)[unat l := f (xs_slots x ! unat l)]\<rparr>"

definition ema_on_book_update ::
  "(EmaCross, 'g) engine_world env \<Rightarrow> Locate \<Rightarrow> Nanos \<Rightarrow> (EmaCross, 'g) engine \<Rightarrow> (EmaCross, 'g) engine" where
  "ema_on_book_update ev l now sy =
     (let cfg = xs_cfg (strat sy) in
      if unat l \<ge> length (xs_slots (strat sy)) then sy
      else
        (case touch_of (mb_book (eg_books (sy_world sy)) l) of
           None \<Rightarrow> sy
         | Some touch \<Rightarrow>
             let sy = strat_upd (set_ema_slot l (ema_sample cfg touch)) sy;
                 s = xs_slots (strat sy) ! unat l in
             if es_samples s < xc_warmup cfg \<or> es_sign s = 0 then sy
             else
               let pos = position_of (sy_risk sy) l; target = ema_target cfg s pos in
               if target = pos then sy
               else
                 let (g, ok) = gate_ready (Api_find sy) now (xc_cooldown_ns cfg) (es_gate s);
                     sy = strat_upd (set_ema_slot l (\<lambda>s. s\<lparr>es_gate := g\<rparr>)) sy in
                 if \<not> ok then sy
                 else
                   let (sy, r) = Api_submit ev (ema_order cfg l touch pos target) now sy in
                   strat_upd (set_ema_slot l (\<lambda>s. s\<lparr>es_gate := gate_sent now r (es_gate s)\<rparr>)) sy))"

definition ema_on_fill :: "Fill \<Rightarrow> Nanos \<Rightarrow> (EmaCross, 'g) engine \<Rightarrow> (EmaCross, 'g) engine" where
  "ema_on_fill f now sy = sy"

definition ema_on_order_update :: "OmsInfo \<Rightarrow> Nanos \<Rightarrow> (EmaCross, 'g) engine \<Rightarrow> (EmaCross, 'g) engine" where
  "ema_on_order_update i now sy =
     (let l = rq_locate (in_req i) in
      if unat l < length (xs_slots (strat sy))
      then strat_upd (set_ema_slot l (\<lambda>s. s\<lparr>es_gate := gate_on_update i (es_gate s)\<rparr>)) sy else sy)"

section \<open>imbalance\_taker.hpp\<close>

record ImbalanceTakerConfig =
  ic_max_locates :: nat
  ic_depth :: nat
  ic_enter_bps :: int
  ic_exit_bps :: int
  ic_max_spread :: Price
  ic_order_qty :: Qty
  ic_max_position :: int
  ic_cooldown_ns :: Nanos

record ImbalanceTaker =
  it_cfg :: ImbalanceTakerConfig
  it_gates :: "OrderGate list"

definition taker_sanitize :: "ImbalanceTakerConfig \<Rightarrow> ImbalanceTakerConfig" where
  "taker_sanitize c =
     (let c = c\<lparr>ic_depth := max (ic_depth c) 1\<rparr>;
          c = c\<lparr>ic_enter_bps := clamp_int (ic_enter_bps c) 1 10000\<rparr>;
          c = c\<lparr>ic_exit_bps := clamp_int (ic_exit_bps c) 0 (ic_enter_bps c - 1)\<rparr>;
          c = c\<lparr>ic_order_qty := clamp_u32 (ic_order_qty c) 1 kMaxOrderQty\<rparr>;
          c = c\<lparr>ic_max_position := clamp_int (ic_max_position c) 0 kPositionBound\<rparr> in
      c\<lparr>ic_max_locates := min (ic_max_locates c) kMaxLocates\<rparr>)"

definition ImbalanceTaker_new :: "ImbalanceTakerConfig \<Rightarrow> ImbalanceTaker" where
  "ImbalanceTaker_new cfg =
     (let c = taker_sanitize cfg in \<lparr>it_cfg = c, it_gates = replicate (ic_max_locates c) OrderGate_new\<rparr>)"

definition imbalance_bps :: "int \<Rightarrow> int \<Rightarrow> int" where
  "imbalance_bps bid_qty ask_qty =
     (let total = bid_qty + ask_qty in if total = 0 then 0 else ((bid_qty - ask_qty) * 10000) sdiv total)"

text \<open>The rules: side, price and wanted quantity, (\<^verbatim>\<open>buy\<close>, 0, 0) when none matches.\<close>

definition taker_rules :: "ImbalanceTakerConfig \<Rightarrow> Touch \<Rightarrow> int \<Rightarrow> int \<Rightarrow> Side \<times> Price \<times> int" where
  "taker_rules cfg touch imb pos =
     (if pos > 0 \<and> imb \<le> ic_exit_bps cfg then (Side_sell, th_bid touch, pos)
      else if pos < 0 \<and> imb \<ge> - ic_exit_bps cfg then (Side_buy, th_ask touch, - pos)
      else if th_ask touch - th_bid touch \<le> ic_max_spread cfg then
        if imb \<ge> ic_enter_bps cfg \<and> pos < ic_max_position cfg then (Side_buy, th_ask touch, ic_max_position cfg - pos)
        else if imb \<le> - ic_enter_bps cfg \<and> - pos < ic_max_position cfg then (Side_sell, th_bid touch, ic_max_position cfg + pos)
        else (Side_buy, 0, 0)
      else (Side_buy, 0, 0))"

definition set_gate :: "Locate \<Rightarrow> (OrderGate \<Rightarrow> OrderGate) \<Rightarrow> ImbalanceTaker \<Rightarrow> ImbalanceTaker" where
  "set_gate l f x = x\<lparr>it_gates := (it_gates x)[unat l := f (it_gates x ! unat l)]\<rparr>"

definition taker_on_book_update ::
  "(ImbalanceTaker, 'g) engine_world env \<Rightarrow> Locate \<Rightarrow> Nanos \<Rightarrow> (ImbalanceTaker, 'g) engine \<Rightarrow> (ImbalanceTaker, 'g) engine" where
  "taker_on_book_update ev l now sy =
     (let cfg = it_cfg (strat sy); b = mb_book (eg_books (sy_world sy)) l in
      if unat l \<ge> length (it_gates (strat sy)) then sy
      else
        (case (b, touch_of b) of
           (Some b, Some touch) \<Rightarrow>
             let imb = imbalance_bps (uint (total_qty b Side_buy (ic_depth cfg))) (uint (total_qty b Side_sell (ic_depth cfg)));
                 pos = position_of (sy_risk sy) l;
                 (side, price, qty) = taker_rules cfg touch imb pos in
             if qty \<le> 0 \<or> price \<le> 0 then sy
             else
               let (g, ok) = gate_ready (Api_find sy) now (ic_cooldown_ns cfg) (it_gates (strat sy) ! unat l);
                   sy = strat_upd (set_gate l (\<lambda>_. g)) sy in
               if \<not> ok then sy
               else
                 let q = word_of_int (min qty (uint (ic_order_qty cfg)));
                     (sy, r) = Api_submit ev \<lparr>rq_locate = l, rq_side = side, rq_price = price, rq_qty = q, rq_tif = Tif_ioc\<rparr> now sy in
                 strat_upd (set_gate l (gate_sent now r)) sy
         | _ \<Rightarrow> sy))"

definition taker_on_fill :: "Fill \<Rightarrow> Nanos \<Rightarrow> (ImbalanceTaker, 'g) engine \<Rightarrow> (ImbalanceTaker, 'g) engine" where
  "taker_on_fill f now sy = sy"

definition taker_on_order_update :: "OmsInfo \<Rightarrow> Nanos \<Rightarrow> (ImbalanceTaker, 'g) engine \<Rightarrow> (ImbalanceTaker, 'g) engine" where
  "taker_on_order_update i now sy =
     (let l = rq_locate (in_req i) in
      if unat l < length (it_gates (strat sy)) then strat_upd (set_gate l (gate_on_update i)) sy else sy)"

section \<open>microprice\_maker.hpp\<close>

record MicropriceMakerConfig =
  mc_max_locates :: nat
  mc_half_spread :: Price
  mc_tick :: Price
  mc_skew_per_share :: Price
  mc_quote_qty :: Qty
  mc_max_inventory :: int
  mc_requote_ticks :: u32
  mc_max_spread :: Price

text \<open>\<^verbatim>\<open>OrderId id[2]\<close>, indexed by the side.\<close>

type_synonym Quotes = "OrderId list"

record MicropriceMaker =
  mm_cfg :: MicropriceMakerConfig
  mm_quotes :: "Quotes list"

definition maker_sanitize :: "MicropriceMakerConfig \<Rightarrow> MicropriceMakerConfig" where
  "maker_sanitize c =
     (let c = c\<lparr>mc_half_spread := clamp_int (mc_half_spread c) 1 (2 ^ 40)\<rparr>;
          c = c\<lparr>mc_tick := clamp_int (mc_tick c) 1 (2 ^ 40)\<rparr>;
          c = c\<lparr>mc_skew_per_share := clamp_int (mc_skew_per_share c) 0 1000000\<rparr>;
          c = c\<lparr>mc_quote_qty := clamp_u32 (mc_quote_qty c) 1 kMaxOrderQty\<rparr>;
          c = c\<lparr>mc_max_inventory := clamp_int (mc_max_inventory c) 0 1000000000\<rparr>;
          c = c\<lparr>mc_requote_ticks := max (mc_requote_ticks c) 1\<rparr>;
          c = c\<lparr>mc_max_spread := clamp_int (mc_max_spread c) 0 (2 ^ 31)\<rparr> in
      c\<lparr>mc_max_locates := min (mc_max_locates c) kMaxLocates\<rparr>)"

definition MicropriceMaker_new :: "MicropriceMakerConfig \<Rightarrow> MicropriceMaker" where
  "MicropriceMaker_new cfg =
     (let c = maker_sanitize cfg in \<lparr>mm_cfg = c, mm_quotes = replicate (mc_max_locates c) [0, 0]\<rparr>)"

definition microprice :: "Price \<Rightarrow> Price \<Rightarrow> Qty \<Rightarrow> Qty \<Rightarrow> Price" where
  "microprice bid ask bid_qty ask_qty = bid + ((ask - bid) * uint bid_qty) sdiv (uint bid_qty + uint ask_qty)"

definition bid_id :: "MicropriceMaker \<Rightarrow> Locate \<Rightarrow> OrderId" where
  "bid_id x l = (if unat l < length (mm_quotes x) then mm_quotes x ! unat l ! 0 else 0)"

definition ask_id :: "MicropriceMaker \<Rightarrow> Locate \<Rightarrow> OrderId" where
  "ask_id x l = (if unat l < length (mm_quotes x) then mm_quotes x ! unat l ! 1 else 0)"

abbreviation quote_id :: "(MicropriceMaker, 'g) engine \<Rightarrow> Locate \<Rightarrow> Side \<Rightarrow> OrderId" where
  "quote_id sy l s \<equiv> mm_quotes (strat sy) ! unat l ! side_index s"

definition set_quote_id :: "Locate \<Rightarrow> Side \<Rightarrow> OrderId \<Rightarrow> (MicropriceMaker, 'g) engine \<Rightarrow> (MicropriceMaker, 'g) engine" where
  "set_quote_id l s oid = strat_upd (\<lambda>x. x\<lparr>mm_quotes := (mm_quotes x)[unat l := (mm_quotes x ! unat l)[side_index s := oid]]\<rparr>)"

definition tracked :: "Locate \<Rightarrow> Side \<Rightarrow> (MicropriceMaker, 'g) engine \<Rightarrow> (MicropriceMaker, 'g) engine \<times> OmsInfo option" where
  "tracked l s sy =
     (if quote_id sy l s = 0 then (sy, None)
      else
        (case Api_find sy (quote_id sy l s) of
           None \<Rightarrow> (set_quote_id l s 0 sy, None)
         | Some i \<Rightarrow> if is_terminal (in_status i) then (set_quote_id l s 0 sy, None) else (sy, Some i)))"

definition pull ::
  "(MicropriceMaker, 'g) engine_world env \<Rightarrow> Locate \<Rightarrow> Side \<Rightarrow> Nanos \<Rightarrow> (MicropriceMaker, 'g) engine \<Rightarrow> (MicropriceMaker, 'g) engine" where
  "pull ev l s now sy =
     (case tracked l s sy of
        (sy, Some i) \<Rightarrow> if in_status i \<noteq> OS_pending_cancel then fst (Api_cancel ev (quote_id sy l s) now sy) else sy
      | (sy, None) \<Rightarrow> sy)"

definition manage ::
  "(MicropriceMaker, 'g) engine_world env \<Rightarrow> Locate \<Rightarrow> Side \<Rightarrow> Price \<Rightarrow> Qty \<Rightarrow> Nanos \<Rightarrow>
     (MicropriceMaker, 'g) engine \<Rightarrow> (MicropriceMaker, 'g) engine" where
  "manage ev l s target room now sy =
     (let cfg = mm_cfg (strat sy) in
      if target \<le> 0 \<or> room = 0 then pull ev l s now sy
      else
        (case tracked l s sy of
           (sy, None) \<Rightarrow>
             let (sy, r) = Api_submit ev \<lparr>rq_locate = l, rq_side = s, rq_price = target, rq_qty = room, rq_tif = Tif_day\<rparr> now sy in
             if sr_status r = SS_ok then set_quote_id l s (sr_id r) sy else sy
         | (sy, Some i) \<Rightarrow>
             if in_status i \<noteq> OS_live then sy
             else
               let moved = (if target > rq_price (in_req i) then target - rq_price (in_req i) else rq_price (in_req i) - target) in
               if moved < uint (mc_requote_ticks cfg) * mc_tick cfg then sy
               else
                 let total = ucast (in_cum_qty i) + ucast room :: u64 in
                 if total > ucast kMaxOrderQty then pull ev l s now sy
                 else fst (Api_replace ev (quote_id sy l s) target (ucast total) now sy)))"

text \<open>The quote prices and sizes for a touch and a clamped inventory.\<close>

definition maker_quotes :: "MicropriceMakerConfig \<Rightarrow> Touch \<Rightarrow> int \<Rightarrow> (Price \<times> Qty) \<times> (Price \<times> Qty)" where
  "maker_quotes cfg touch held_qty =
     (let fair = microprice (th_bid touch) (th_ask touch) (th_bid_qty touch) (th_ask_qty touch);
          skew = mc_skew_per_share cfg * held_qty;
          bid_raw = min (fair - mc_half_spread cfg - skew) (th_ask touch - mc_tick cfg);
          ask_raw = max (fair + mc_half_spread cfg - skew) (th_bid touch + mc_tick cfg);
          bid_room = word_of_int (min (uint (mc_quote_qty cfg)) (mc_max_inventory cfg - held_qty));
          ask_room = word_of_int (min (uint (mc_quote_qty cfg)) (mc_max_inventory cfg + held_qty)) in
      ((if bid_raw > 0 then bid_raw - bid_raw mod mc_tick cfg else 0, bid_room),
       (if ask_raw > 0 then (ask_raw + mc_tick cfg - 1) div mc_tick cfg * mc_tick cfg else 0, ask_room)))"

definition maker_on_book_update ::
  "(MicropriceMaker, 'g) engine_world env \<Rightarrow> Locate \<Rightarrow> Nanos \<Rightarrow> (MicropriceMaker, 'g) engine \<Rightarrow> (MicropriceMaker, 'g) engine" where
  "maker_on_book_update ev l now sy =
     (let cfg = mm_cfg (strat sy) in
      if unat l \<ge> length (mm_quotes (strat sy)) then sy
      else
        (case touch_of (mb_book (eg_books (sy_world sy)) l) of
           None \<Rightarrow> pull ev l Side_sell now (pull ev l Side_buy now sy)
         | Some touch \<Rightarrow>
             if th_ask touch - th_bid touch > mc_max_spread cfg then pull ev l Side_sell now (pull ev l Side_buy now sy)
             else
               let held_qty = clamp_int (position_of (sy_risk sy) l) (- mc_max_inventory cfg) (mc_max_inventory cfg);
                   ((bid, bid_room), (ask, ask_room)) = maker_quotes cfg touch held_qty in
               manage ev l Side_sell ask ask_room now (manage ev l Side_buy bid bid_room now sy)))"

definition maker_on_fill :: "Fill \<Rightarrow> Nanos \<Rightarrow> (MicropriceMaker, 'g) engine \<Rightarrow> (MicropriceMaker, 'g) engine" where
  "maker_on_fill f now sy = sy"

definition maker_on_order_update :: "OmsInfo \<Rightarrow> Nanos \<Rightarrow> (MicropriceMaker, 'g) engine \<Rightarrow> (MicropriceMaker, 'g) engine" where
  "maker_on_order_update i now sy =
     (let l = rq_locate (in_req i) in
      if unat l \<ge> length (mm_quotes (strat sy)) \<or> \<not> is_terminal (in_status i) then sy
      else strat_upd (\<lambda>x. x\<lparr>mm_quotes := (mm_quotes x)[unat l := map (\<lambda>oid. if oid = in_id i then 0 else oid) (mm_quotes x ! unat l)]\<rparr>) sy)"


section \<open>The strategies obey the contract\<close>

text \<open>The callbacks that the order manager makes while the strategy is inside an API call.\<close>

definition ema_callbacks :: "(EmaCross, 'g) strategy" where
  "ema_callbacks = \<lparr>sg_on_book_update = (\<lambda>l now sy. sy), sg_on_fill = ema_on_fill, sg_on_order_update = ema_on_order_update\<rparr>"

definition ema_strategy :: "'g gateway \<Rightarrow> (EmaCross, 'g) strategy" where
  "ema_strategy gw = ema_callbacks\<lparr>sg_on_book_update := ema_on_book_update (engine_env gw ema_callbacks)\<rparr>"

definition taker_callbacks :: "(ImbalanceTaker, 'g) strategy" where
  "taker_callbacks = \<lparr>sg_on_book_update = (\<lambda>l now sy. sy), sg_on_fill = taker_on_fill, sg_on_order_update = taker_on_order_update\<rparr>"

definition taker_strategy :: "'g gateway \<Rightarrow> (ImbalanceTaker, 'g) strategy" where
  "taker_strategy gw = taker_callbacks\<lparr>sg_on_book_update := taker_on_book_update (engine_env gw taker_callbacks)\<rparr>"

definition maker_callbacks :: "(MicropriceMaker, 'g) strategy" where
  "maker_callbacks = \<lparr>sg_on_book_update = (\<lambda>l now sy. sy), sg_on_fill = maker_on_fill, sg_on_order_update = maker_on_order_update\<rparr>"

definition maker_strategy :: "'g gateway \<Rightarrow> (MicropriceMaker, 'g) strategy" where
  "maker_strategy gw = maker_callbacks\<lparr>sg_on_book_update := maker_on_book_update (engine_env gw maker_callbacks)\<rparr>"

lemma engine_env_book [simp]: "engine_env gw (sg\<lparr>sg_on_book_update := f\<rparr>) = engine_env gw sg"
  by (simp add: engine_env_def engine_on_fill_def [abs_def] engine_on_order_update_def [abs_def])

lemma strat_upd_calls: "calls_step ev sy (strat_upd f sy)"
  using calls_own [of "eg_stats (sy_world sy)" sy ev "f (strat sy)"] by (simp add: strat_upd_def world_upd_def)

lemma strat_upd_star [intro]: "(calls_step ev)\<^sup>*\<^sup>* sy sy' \<Longrightarrow> (calls_step ev)\<^sup>*\<^sup>* sy (strat_upd f sy')"
  by (erule rtranclp.rtrancl_into_rtrancl) (rule strat_upd_calls)

lemma own_updates:
  "(calls_step ev1)\<^sup>*\<^sup>* sy1 (ema_on_order_update i now sy1)" "(calls_step ev2)\<^sup>*\<^sup>* sy2 (taker_on_order_update i now sy2)"
  "(calls_step ev3)\<^sup>*\<^sup>* sy3 (maker_on_order_update i now sy3)"
  unfolding ema_on_order_update_def taker_on_order_update_def maker_on_order_update_def Let_def by auto

lemma callbacks_sel [simp]:
  "sg_on_order_update ema_callbacks = ema_on_order_update" "sg_on_order_update taker_callbacks = taker_on_order_update"
  "sg_on_order_update maker_callbacks = maker_on_order_update"
  "sg_on_fill ema_callbacks = ema_on_fill" "sg_on_fill taker_callbacks = taker_on_fill" "sg_on_fill maker_callbacks = maker_on_fill"
  by (simp_all add: ema_callbacks_def taker_callbacks_def maker_callbacks_def)

lemma ema_api: "(calls_step (engine_env gw ema_callbacks))\<^sup>*\<^sup>* sy (fst (Api_submit (engine_env gw ema_callbacks) req now sy))"
  by (rule Api_calls(1)) (simp add: own_updates)

lemma taker_api: "(calls_step (engine_env gw taker_callbacks))\<^sup>*\<^sup>* sy (fst (Api_submit (engine_env gw taker_callbacks) req now sy))"
  by (rule Api_calls(1)) (simp add: own_updates)

lemma maker_api:
  "(calls_step (engine_env gw maker_callbacks))\<^sup>*\<^sup>* sy (fst (Api_submit (engine_env gw maker_callbacks) req now sy))"
  "(calls_step (engine_env gw maker_callbacks))\<^sup>*\<^sup>* sy (fst (Api_cancel (engine_env gw maker_callbacks) oid now sy))"
  "(calls_step (engine_env gw maker_callbacks))\<^sup>*\<^sup>* sy (fst (Api_replace (engine_env gw maker_callbacks) oid p q now sy))"
  by (rule Api_calls; simp add: own_updates)+

lemma ema_book_calls: "(calls_step (engine_env gw ema_callbacks))\<^sup>*\<^sup>* sy (ema_on_book_update (engine_env gw ema_callbacks) l now sy)"
  unfolding ema_on_book_update_def Let_def
  by (auto simp: case_prod_unfold split: option.split intro!: rtranclp_trans [OF _ ema_api])

lemma taker_book_calls: "(calls_step (engine_env gw taker_callbacks))\<^sup>*\<^sup>* sy (taker_on_book_update (engine_env gw taker_callbacks) l now sy)"
  unfolding taker_on_book_update_def Let_def
  by (auto simp: case_prod_unfold split: option.split intro!: rtranclp_trans [OF _ taker_api])

interpretation ema: strategy_contract gw "ema_strategy gw" for gw :: "'g gateway"
  by unfold_locales (simp_all add: ema_strategy_def ema_book_calls own_updates ema_on_fill_def)

interpretation taker: strategy_contract gw "taker_strategy gw" for gw :: "'g gateway"
  by unfold_locales (simp_all add: taker_strategy_def taker_book_calls own_updates taker_on_fill_def)


lemma tracked_calls: "tracked l s sy = (sy', r) \<Longrightarrow> (calls_step ev)\<^sup>*\<^sup>* sy sy'"
  by (auto simp: tracked_def set_quote_id_def split: if_splits option.splits)

lemma pull_calls: "(calls_step (engine_env gw maker_callbacks))\<^sup>*\<^sup>* sy (pull (engine_env gw maker_callbacks) l s now sy)"
  unfolding pull_def
  by (auto split: prod.split option.split dest: tracked_calls intro: rtranclp_trans [OF _ maker_api(2)])

lemma manage_calls: "(calls_step (engine_env gw maker_callbacks))\<^sup>*\<^sup>* sy (manage (engine_env gw maker_callbacks) l s target room now sy)"
proof (cases "target \<le> 0 \<or> room = 0")
  case True
  then show ?thesis by (simp add: manage_def pull_calls)
next
  case False
  obtain sy1 r where t: "tracked l s sy = (sy1, r)" by fastforce
  note t1 = tracked_calls [OF t]
  show ?thesis using False
    by (auto simp: manage_def t Let_def case_prod_unfold set_quote_id_def t1 split: option.split
        intro!: rtranclp_trans [OF t1 maker_api(1)] rtranclp_trans [OF t1 maker_api(3)] rtranclp_trans [OF t1 pull_calls])
qed

lemma maker_book_calls: "(calls_step (engine_env gw maker_callbacks))\<^sup>*\<^sup>* sy (maker_on_book_update (engine_env gw maker_callbacks) l now sy)"
  unfolding maker_on_book_update_def Let_def
  by (auto simp: case_prod_unfold split: option.split intro: rtranclp_trans [OF pull_calls pull_calls] rtranclp_trans [OF manage_calls manage_calls])

interpretation maker: strategy_contract gw "maker_strategy gw" for gw :: "'g gateway"
  by unfold_locales (simp_all add: maker_strategy_def maker_book_calls own_updates maker_on_fill_def)

section \<open>What the takers send\<close>

lemma touch_of_cases:
  assumes "touch_of b = Some touch"
  shows "0 < th_bid touch" "th_bid touch < th_ask touch" "th_bid_qty touch \<noteq> 0" "th_ask_qty touch \<noteq> 0"
  using assms by (auto simp: touch_of_def split: option.splits if_splits)

lemma clamp_int_range: "lo \<le> hi \<Longrightarrow> lo \<le> clamp_int v lo hi \<and> clamp_int v lo hi \<le> hi"
  by (simp add: clamp_int_def)

lemma clamp_u32_range: "lo \<le> hi \<Longrightarrow> lo \<le> clamp_u32 v lo hi \<and> clamp_u32 v lo hi \<le> hi"
  by (auto simp: clamp_u32_def)

lemma position_of_range: "\<bar>position_of risk l\<bar> \<le> kPositionBound"
  using clamp_int_range [of "- kPositionBound" kPositionBound "ps_qty (position risk l)"]
  by (simp add: position_of_def kPositionBound_def abs_le_iff)

lemma order_size:
  assumes "1 \<le> c" "c \<le> kMaxOrderQty" "0 < qty"
  defines "q \<equiv> word_of_int (min qty (uint c)) :: Qty"
  shows "uint q = min qty (uint c)" "1 \<le> q" "q \<le> c" "q \<le> kMaxOrderQty"
proof -
  have c: "uint c < 2 ^ 32" "0 < uint c" using assms(1) unsigned_less [where 'a = int, of c]
    by (simp_all add: word_le_def) 
  show u: "uint q = min qty (uint c)" using c assms(3) by (simp add: q_def word_of_int_inverse min_def uint_word_of_int_eq take_bit_int_eq_self)
  show "1 \<le> q" "q \<le> c" using u c assms(3) by (auto simp: word_le_def)
  then show "q \<le> kMaxOrderQty" using assms(2) by simp
qed

text \<open>
  An order of a taker: immediate-or-cancel at the opposite touch, of a size the order manager accepts.
\<close>

definition taking_order :: "Locate \<Rightarrow> Touch \<Rightarrow> Qty \<Rightarrow> OrderRequest \<Rightarrow> bool" where
  "taking_order l touch cap req \<longleftrightarrow> rq_locate req = l \<and> rq_tif req = Tif_ioc \<and> 1 \<le> rq_qty req \<and> rq_qty req \<le> cap \<and>
     (rq_side req = Side_buy \<and> rq_price req = th_ask touch \<or> rq_side req = Side_sell \<and> rq_price req = th_bid touch)"

text \<open>The position if the order fills completely.\<close>

definition filled_position :: "int \<Rightarrow> OrderRequest \<Rightarrow> int" where
  "filled_position pos req = (if rq_side req = Side_buy then pos + uint (rq_qty req) else pos - uint (rq_qty req))"

lemma taker_sanitize_range:
  "1 \<le> ic_order_qty (taker_sanitize c)" "ic_order_qty (taker_sanitize c) \<le> kMaxOrderQty"
  "0 \<le> ic_max_position (taker_sanitize c)" "ic_max_position (taker_sanitize c) \<le> kPositionBound"
  "0 \<le> ic_exit_bps (taker_sanitize c)" "ic_exit_bps (taker_sanitize c) < ic_enter_bps (taker_sanitize c)"
  using clamp_u32_range [of 1 kMaxOrderQty "ic_order_qty c"] clamp_int_range [of 0 kPositionBound "ic_max_position c"]
    clamp_int_range [of 1 10000 "ic_enter_bps c"] clamp_int_range [of 0 "clamp_int (ic_enter_bps c) 1 10000 - 1" "ic_exit_bps c"]
  by (simp_all add: taker_sanitize_def Let_def kMaxOrderQty_def kPositionBound_def)

lemma taker_rules_sound:
  fixes l :: Locate
  assumes "touch_of b = Some touch" "cfg = taker_sanitize c" "taker_rules cfg touch imb pos = (side, price, qty)" "0 < qty"
  defines "req \<equiv> \<lparr>rq_locate = l, rq_side = side, rq_price = price, rq_qty = word_of_int (min qty (uint (ic_order_qty cfg))), rq_tif = Tif_ioc\<rparr>"
  shows "taking_order l touch (ic_order_qty cfg) req"
    "\<bar>filled_position pos req\<bar> \<le> \<bar>pos\<bar> \<and> 0 \<le> pos * filled_position pos req \<and> pos \<noteq> 0 \<or>
     \<bar>filled_position pos req\<bar> \<le> ic_max_position cfg \<and> ic_enter_bps cfg \<le> \<bar>imb\<bar> \<and> th_ask touch - th_bid touch \<le> ic_max_spread cfg"
proof -
  note sz = order_size [OF taker_sanitize_range(1,2) assms(4), of c, folded assms(2)]
  have r: "rq_qty req = word_of_int (min qty (uint (ic_order_qty cfg)))" "rq_side req = side" "rq_price req = price" "rq_locate req = l" "rq_tif req = Tif_ioc"
    by (simp_all add: req_def)
  show "taking_order l touch (ic_order_qty cfg) req"
    using assms(3,4) sz by (auto simp: taking_order_def r taker_rules_def split: if_splits)
  have u: "uint (rq_qty req) = min qty (uint (ic_order_qty cfg))" using sz(1) by (simp add: r)
  have rg: "0 \<le> ic_max_position cfg" "0 \<le> ic_exit_bps cfg" "ic_exit_bps cfg < ic_enter_bps cfg" "0 < uint (ic_order_qty cfg)"
    using taker_sanitize_range [of c] by (simp_all add: assms(2) word_le_def)
  show "\<bar>filled_position pos req\<bar> \<le> \<bar>pos\<bar> \<and> 0 \<le> pos * filled_position pos req \<and> pos \<noteq> 0 \<or>
     \<bar>filled_position pos req\<bar> \<le> ic_max_position cfg \<and> ic_enter_bps cfg \<le> \<bar>imb\<bar> \<and> th_ask touch - th_bid touch \<le> ic_max_spread cfg"
  proof -
    define cap where "cap = uint (ic_order_qty cfg)"
    have c: "0 < cap" using rg(4) by (simp add: cap_def)
    consider (long) "0 < pos" "side = Side_sell" "qty = pos" | (short) "pos < 0" "side = Side_buy" "qty = - pos"
      | (buy) "0 \<le> pos" "side = Side_buy" "qty = ic_max_position cfg - pos" "ic_enter_bps cfg \<le> \<bar>imb\<bar>" "th_ask touch - th_bid touch \<le> ic_max_spread cfg"
      | (sell) "pos \<le> 0" "side = Side_sell" "qty = ic_max_position cfg + pos" "ic_enter_bps cfg \<le> \<bar>imb\<bar>" "th_ask touch - th_bid touch \<le> ic_max_spread cfg"
      using assms(3,4) rg(2,3) by (auto simp: taker_rules_def split: if_splits)
    then show ?thesis
    proof cases
      case long
      then have "filled_position pos req = pos - min pos cap" by (simp add: filled_position_def u r(2) cap_def)
      moreover have "0 \<le> pos - min pos cap" "pos - min pos cap \<le> pos" using long c by (auto simp: min_def)
      ultimately show ?thesis using long by simp
    next
      case short
      then have "filled_position pos req = pos + min (- pos) cap" by (simp add: filled_position_def u r(2) cap_def)
      moreover have "pos + min (- pos) cap \<le> 0" "pos \<le> pos + min (- pos) cap" using short c by (auto simp: min_def)
      ultimately show ?thesis using short by (simp add: mult_nonpos_nonpos)
    next
      case buy
      then have "filled_position pos req = pos + min (ic_max_position cfg - pos) cap" by (simp add: filled_position_def u r(2) cap_def)
      moreover have "0 \<le> pos + min (ic_max_position cfg - pos) cap" "pos + min (ic_max_position cfg - pos) cap \<le> ic_max_position cfg"
        using buy c assms(4) by (auto simp: min_def)
      ultimately show ?thesis using buy by simp
    next
      case sell
      then have "filled_position pos req = pos - min (ic_max_position cfg + pos) cap" by (simp add: filled_position_def u r(2) cap_def)
      moreover have "pos - min (ic_max_position cfg + pos) cap \<le> 0" "- ic_max_position cfg \<le> pos - min (ic_max_position cfg + pos) cap"
        using sell c assms(4) by (auto simp: min_def)
      ultimately show ?thesis using sell by simp
    qed
  qed
qed

lemma gate_ready_open:
  assumes "gate_ready look now cooldown g = (g', True)"
  shows "og_inflight g = 0 \<or> look (og_inflight g) = None \<or> (\<exists>i. look (og_inflight g) = Some i \<and> is_terminal (in_status i))"
    "og_has_last g \<longrightarrow> og_last g \<le> now \<and> cooldown \<le> now - og_last g" "og_inflight g' = 0"
  using assms by (auto simp: gate_ready_def Let_def split: if_splits option.splits)

definition paced :: "(OrderId \<Rightarrow> OmsInfo option) \<Rightarrow> Nanos \<Rightarrow> Nanos \<Rightarrow> OrderGate \<Rightarrow> bool" where
  "paced look now cooldown g \<longleftrightarrow>
     (og_inflight g = 0 \<or> look (og_inflight g) = None \<or> (\<exists>i. look (og_inflight g) = Some i \<and> is_terminal (in_status i))) \<and>
     (og_has_last g \<longrightarrow> og_last g \<le> now \<and> cooldown \<le> now - og_last g)"

text \<open>
  A book update either changes the strategy's own members only, or calls the API once, with \<open>req\<close>.
\<close>

definition own_change :: "('s, 'g) engine \<Rightarrow> ('s, 'g) engine \<Rightarrow> bool" where
  "own_change sy sy' \<longleftrightarrow> (\<exists>f. sy' = strat_upd f sy)"

definition sends_one :: "('s, 'g) engine_world env \<Rightarrow> OrderRequest \<Rightarrow> Nanos \<Rightarrow> ('s, 'g) engine \<Rightarrow> ('s, 'g) engine \<Rightarrow> bool" where
  "sends_one ev req now sy sy' \<longleftrightarrow> (\<exists>f g sy1 r. Api_submit ev req now (strat_upd g sy) = (sy1, r) \<and> sy' = strat_upd f sy1)"

lemma taker_update_cases:
  assumes "it_cfg (strat sy) = taker_sanitize c"
  shows "own_change sy (taker_on_book_update ev l now sy) \<or>
    (\<exists>req touch. sends_one ev req now sy (taker_on_book_update ev l now sy) \<and>
       touch_of (mb_book (eg_books (sy_world sy)) l) = Some touch \<and> unat l < length (it_gates (strat sy)) \<and>
       paced (Api_find sy) now (ic_cooldown_ns (taker_sanitize c)) (it_gates (strat sy) ! unat l) \<and>
       taking_order l touch (ic_order_qty (taker_sanitize c)) req \<and>
       (let pos = position_of (sy_risk sy) l in
        \<bar>filled_position pos req\<bar> \<le> \<bar>pos\<bar> \<and> 0 \<le> pos * filled_position pos req \<and> pos \<noteq> 0 \<or>
        \<bar>filled_position pos req\<bar> \<le> ic_max_position (taker_sanitize c)))"
    (is "?none \<or> ?one")
proof -
  define cfg where "cfg = taker_sanitize c"
  have idle: ?none if "taker_on_book_update ev l now sy = sy"
    using that unfolding own_change_def by (intro exI [of _ "\<lambda>x. x"]) (simp add: strat_upd_def world_upd_def)
  consider (skip) "taker_on_book_update ev l now sy = sy" | (go) b touch where
    "mb_book (eg_books (sy_world sy)) l = Some b" "touch_of (Some b) = Some touch" "unat l < length (it_gates (strat sy))"
  proof (cases "unat l < length (it_gates (strat sy)) \<and> mb_book (eg_books (sy_world sy)) l \<noteq> None \<and> touch_of (mb_book (eg_books (sy_world sy)) l) \<noteq> None")
    case True
    then show ?thesis using go by auto
  next
    case False
    then show ?thesis by (intro skip) (auto simp: taker_on_book_update_def Let_def touch_of_def split: option.splits)
  qed
  then show ?thesis
  proof cases
    case skip
    then show ?thesis using idle by simp
  next
    case go
    define pos where "pos = position_of (sy_risk sy) l"
    define imb where "imb = imbalance_bps (uint (total_qty b Side_buy (ic_depth cfg))) (uint (total_qty b Side_sell (ic_depth cfg)))"
    obtain side price qty where rules: "taker_rules cfg touch imb pos = (side, price, qty)" by (metis prod_cases3)
    obtain g ok where gate: "gate_ready (Api_find sy) now (ic_cooldown_ns cfg) (it_gates (strat sy) ! unat l) = (g, ok)" by fastforce
    define req where "req = \<lparr>rq_locate = l, rq_side = side, rq_price = price, rq_qty = word_of_int (min qty (uint (ic_order_qty cfg))), rq_tif = Tif_ioc\<rparr>"
    obtain sy1 r where sub: "Api_submit ev req now (strat_upd (set_gate l (\<lambda>_. g)) sy) = (sy1, r)" by fastforce
    have eq: "taker_on_book_update ev l now sy = (if qty \<le> 0 \<or> price \<le> 0 then sy else if \<not> ok then strat_upd (set_gate l (\<lambda>_. g)) sy
        else strat_upd (set_gate l (gate_sent now r)) sy1)"
      using go(3) sub unfolding taker_on_book_update_def Let_def assms cfg_def [symmetric] go(1,2)
      by (simp add: not_le pos_def [symmetric] imb_def [symmetric] rules gate req_def [symmetric])
    show ?thesis
    proof (cases "qty \<le> 0 \<or> price \<le> 0 \<or> \<not> ok")
      case True
      then show ?thesis using eq idle by (cases "qty \<le> 0 \<or> price \<le> 0") (auto simp: own_change_def)
    next
      case False
      then have q: "0 < qty" by simp
      note snd = taker_rules_sound [OF go(2) cfg_def rules q, of l, folded req_def]
      have "paced (Api_find sy) now (ic_cooldown_ns cfg) (it_gates (strat sy) ! unat l)"
        using False gate_ready_open [of "Api_find sy" now "ic_cooldown_ns cfg" "it_gates (strat sy) ! unat l" g] gate by (auto simp: paced_def)
      moreover have "sends_one ev req now sy (taker_on_book_update ev l now sy)" using eq False sub by (auto simp: sends_one_def)
      ultimately have ?one using snd go unfolding cfg_def [symmetric] pos_def [symmetric] Let_def by metis
      then show ?thesis ..
    qed
  qed
qed


text \<open>A step of an average stays between the old average and the sample.\<close>

lemma ema_step_between:
  fixes a x :: int
  shows "min a x \<le> a + (x - a) div 2 ^ k" "a + (x - a) div 2 ^ k \<le> max a x"
proof -
  have p: "(1 :: int) \<le> 2 ^ k" by simp
  have "0 \<le> d div 2 ^ k \<and> d div 2 ^ k \<le> d" if "0 \<le> d" for d :: int
    using that zdiv_mono2 [OF that zero_less_one p] by (simp add: pos_imp_zdiv_nonneg_iff)
  moreover have "d \<le> d div 2 ^ k \<and> d div 2 ^ k < 0" if "d < 0" for d :: int
  proof -
    have "d div 1 \<le> d div 2 ^ k" using that p by (intro zdiv_mono2_neg) auto
    then show ?thesis using that by (simp add: pos_imp_zdiv_neg_iff)
  qed
  ultimately have "(0 \<le> x - a \<longrightarrow> 0 \<le> (x - a) div 2 ^ k \<and> (x - a) div 2 ^ k \<le> x - a) \<and>
      (x - a < 0 \<longrightarrow> x - a \<le> (x - a) div 2 ^ k \<and> (x - a) div 2 ^ k < 0)" by blast
  then show "min a x \<le> a + (x - a) div 2 ^ k" "a + (x - a) div 2 ^ k \<le> max a x" by (auto simp: min_def max_def)
qed

definition ema_slot_ok :: "EmaSlot \<Rightarrow> bool" where
  "ema_slot_ok s \<longleftrightarrow> es_sign s \<in> {- 1, 0, 1} \<and> 0 \<le> es_fast s \<and> es_fast s \<le> 2 ^ 41 \<and> 0 \<le> es_slow s \<and> es_slow s \<le> 2 ^ 41"

lemma ema_sample_sign: "es_sign s \<in> {- 1, 0, 1} \<Longrightarrow> es_sign (ema_sample cfg touch s) \<in> {- 1, 0, 1}"
  unfolding ema_sample_def Let_def by simp

lemma ema_sample_ok:
  assumes "ema_slot_ok s" "0 < th_bid touch" "th_bid touch < th_ask touch" "fits_wire_price (th_ask touch)"
  shows "ema_slot_ok (ema_sample cfg touch s)"
proof -
  define x where "x = (th_bid touch + th_ask touch) * 2 ^ kFrac"
  have x: "0 \<le> x" "x \<le> 2 ^ 41" using assms(2-4) by (simp_all add: x_def kFrac_def fits_wire_price_def)
  have b: "0 \<le> a + (x - a) div 2 ^ k \<and> a + (x - a) div 2 ^ k \<le> 2 ^ 41" if "0 \<le> a" "a \<le> 2 ^ 41" for a k
    using ema_step_between [of a x k] that x by (auto simp: min_def max_def split: if_splits)
  have avg: "0 \<le> es_fast (ema_sample cfg touch s) \<and> es_fast (ema_sample cfg touch s) \<le> 2 ^ 41 \<and>
      0 \<le> es_slow (ema_sample cfg touch s) \<and> es_slow (ema_sample cfg touch s) \<le> 2 ^ 41"
    using assms(1) x b [of "es_fast s" "unat (xc_fast_shift cfg)"] b [of "es_slow s" "unat (xc_slow_shift cfg)"]
    unfolding ema_sample_def Let_def x_def [symmetric] ema_slot_ok_def by simp
  moreover have "es_sign (ema_sample cfg touch s) \<in> {- 1, 0, 1}"
    using assms(1) by (intro ema_sample_sign) (simp add: ema_slot_ok_def)
  ultimately show ?thesis by (simp add: ema_slot_ok_def)
qed

lemma ema_sanitize_range:
  "1 \<le> xc_order_qty (ema_sanitize c)" "xc_order_qty (ema_sanitize c) \<le> kMaxOrderQty"
  "0 \<le> xc_max_position (ema_sanitize c)" "xc_max_position (ema_sanitize c) \<le> kPositionBound"
  using clamp_u32_range [of 1 kMaxOrderQty "xc_order_qty c"] clamp_int_range [of 0 kPositionBound "xc_max_position c"]
  by (simp_all add: ema_sanitize_def Let_def kMaxOrderQty_def kPositionBound_def)

lemma ema_order_sound:
  fixes l :: Locate and touch :: Touch
  assumes "cfg = ema_sanitize c" "target = ema_target cfg s pos" "target \<noteq> pos" "es_sign s \<in> {- 1, 0, 1}"
  defines "req \<equiv> ema_order cfg l touch pos target"
  shows "taking_order l touch (xc_order_qty cfg) req" "\<bar>target\<bar> \<le> xc_max_position cfg"
    "min pos target \<le> filled_position pos req" "filled_position pos req \<le> max pos target" "filled_position pos req \<noteq> pos"
proof -
  define qty where "qty = (if target > pos then target - pos else pos - target)"
  have q: "0 < qty" using assms(3) by (simp add: qty_def)
  note sz = order_size [OF ema_sanitize_range(1,2) q, of c, folded assms(1)]
  have r: "rq_qty req = word_of_int (min qty (uint (xc_order_qty cfg)))" "rq_side req = (if target > pos then Side_buy else Side_sell)"
    "rq_price req = (if target > pos then th_ask touch else th_bid touch)" "rq_locate req = l" "rq_tif req = Tif_ioc"
    by (simp_all add: req_def ema_order_def Let_def qty_def)
  show "taking_order l touch (xc_order_qty cfg) req" using sz by (simp add: taking_order_def r)
  have rg: "0 \<le> xc_max_position cfg" "0 < uint (xc_order_qty cfg)" using ema_sanitize_range [of c] by (simp_all add: assms(1) word_le_def)
  show "\<bar>target\<bar> \<le> xc_max_position cfg" using assms(2-4) rg unfolding ema_target_def by (auto simp: min_def split: if_splits)
  have u: "uint (rq_qty req) = min qty (uint (xc_order_qty cfg))" using sz(1) by (simp add: r(1))
  show "min pos target \<le> filled_position pos req" "filled_position pos req \<le> max pos target" "filled_position pos req \<noteq> pos"
    using rg(2) assms(3) unfolding filled_position_def u r(2) qty_def by (auto simp: min_def max_def)
qed


lemma strat_upd_sel [simp]:
  "strat (strat_upd f sy) = f (strat sy)" "sy_risk (strat_upd f sy) = sy_risk sy" "Api_find (strat_upd f sy) = Api_find sy"
  "strat_upd g (strat_upd f sy) = strat_upd (\<lambda>x. g (f x)) sy"
  by (simp_all add: strat_upd_def world_upd_def Api_find_def om_find_def fun_eq_iff)

lemma ema_update_cases:
  assumes cfg: "xs_cfg (strat sy) = ema_sanitize c" and ok: "\<forall>s \<in> set (xs_slots (strat sy)). ema_slot_ok s"
  shows "own_change sy (ema_on_book_update ev l now sy) \<or>
    (\<exists>req touch target. sends_one ev req now sy (ema_on_book_update ev l now sy) \<and>
       touch_of (mb_book (eg_books (sy_world sy)) l) = Some touch \<and> unat l < length (xs_slots (strat sy)) \<and>
       paced (Api_find sy) now (xc_cooldown_ns (ema_sanitize c)) (es_gate (xs_slots (strat sy) ! unat l)) \<and>
       taking_order l touch (xc_order_qty (ema_sanitize c)) req \<and> \<bar>target\<bar> \<le> xc_max_position (ema_sanitize c) \<and>
       (let pos = position_of (sy_risk sy) l in
        min pos target \<le> filled_position pos req \<and> filled_position pos req \<le> max pos target \<and> filled_position pos req \<noteq> pos))"
    (is "?none \<or> ?one")
proof (cases "unat l < length (xs_slots (strat sy)) \<and> touch_of (mb_book (eg_books (sy_world sy)) l) \<noteq> None")
  case False
  then have "ema_on_book_update ev l now sy = strat_upd (\<lambda>x. x) sy"
    by (auto simp: ema_on_book_update_def Let_def strat_upd_def world_upd_def split: option.splits)
  then show ?thesis by (auto simp: own_change_def)
next
  case True
  then obtain touch where l: "unat l < length (xs_slots (strat sy))" and touch: "touch_of (mb_book (eg_books (sy_world sy)) l) = Some touch" by blast
  define s where "s = ema_sample (ema_sanitize c) touch (xs_slots (strat sy) ! unat l)"
  define pos where "pos = position_of (sy_risk sy) l"
  define target where "target = ema_target (ema_sanitize c) s pos"
  define h where "h = set_ema_slot l (ema_sample (ema_sanitize c) touch)"
  have s': "xs_slots (strat (strat_upd h sy)) ! unat l = s" using l by (simp add: h_def set_ema_slot_def s_def)
  have "es_sign (xs_slots (strat sy) ! unat l) \<in> {- 1, 0, 1}" using ok nth_mem [OF l] by (simp add: ema_slot_ok_def)
  then have sign: "es_sign s \<in> {- 1, 0, 1}" unfolding s_def by (rule ema_sample_sign)
  have gate_s: "es_gate s = es_gate (xs_slots (strat sy) ! unat l)" by (simp add: s_def ema_sample_def Let_def)
  obtain g okay where gate: "gate_ready (Api_find sy) now (xc_cooldown_ns (ema_sanitize c)) (es_gate s) = (g, okay)" by fastforce
  define h2 where "h2 = (\<lambda>x. set_ema_slot l (\<lambda>s. s\<lparr>es_gate := g\<rparr>) (h x))"
  define req where "req = ema_order (ema_sanitize c) l touch pos target"
  obtain sy1 r where sub: "Api_submit ev req now (strat_upd h2 sy) = (sy1, r)" by fastforce
  have eq: "ema_on_book_update ev l now sy =
      (if es_samples s < xc_warmup (ema_sanitize c) \<or> es_sign s = 0 \<or> target = pos then strat_upd h sy
       else if \<not> okay then strat_upd h2 sy
       else strat_upd (set_ema_slot l (\<lambda>s. s\<lparr>es_gate := gate_sent now r (es_gate s)\<rparr>)) sy1)"
    using l sub unfolding ema_on_book_update_def Let_def cfg touch option.case h_def [symmetric] s'
    by (simp add: not_le pos_def [symmetric] target_def [symmetric] gate h2_def [symmetric] req_def [symmetric])
  show ?thesis
  proof (cases "es_samples s < xc_warmup (ema_sanitize c) \<or> es_sign s = 0 \<or> target = pos \<or> \<not> okay")
    case True
    then show ?thesis unfolding eq by (cases "es_samples s < xc_warmup (ema_sanitize c) \<or> es_sign s = 0 \<or> target = pos") (auto simp: own_change_def)
  next
    case False
    have "paced (Api_find sy) now (xc_cooldown_ns (ema_sanitize c)) (es_gate (xs_slots (strat sy) ! unat l))"
      using False gate gate_ready_open [of "Api_find sy" now "xc_cooldown_ns (ema_sanitize c)" "es_gate s" g] by (auto simp: paced_def gate_s)
    moreover have "target \<noteq> pos" using False by simp
    moreover have "sends_one ev req now sy (ema_on_book_update ev l now sy)" using eq False sub by (auto simp: sends_one_def)
    moreover note snd = ema_order_sound(1,3-5) [OF refl target_def \<open>target \<noteq> pos\<close> sign, where l = l and touch = touch, folded req_def]
      ema_order_sound(2) [OF refl target_def \<open>target \<noteq> pos\<close> sign]
    ultimately have ?one unfolding Let_def pos_def [symmetric]
      by (intro exI [of _ req] exI [of _ touch] exI [of _ target] conjI l touch snd) assumption+
    then show ?thesis ..
  qed
qed

section \<open>What the maker quotes\<close>

lemma maker_sanitize_range:
  "1 \<le> mc_half_spread (maker_sanitize c)" "1 \<le> mc_tick (maker_sanitize c)" "0 \<le> mc_max_inventory (maker_sanitize c)"
  "1 \<le> mc_quote_qty (maker_sanitize c)" "mc_quote_qty (maker_sanitize c) \<le> kMaxOrderQty" "mc_max_inventory (maker_sanitize c) \<le> 1000000000"
  using clamp_int_range [of 1 "2 ^ 40" "mc_half_spread c"] clamp_int_range [of 1 "2 ^ 40" "mc_tick c"]
    clamp_int_range [of 0 1000000000 "mc_max_inventory c"] clamp_u32_range [of 1 kMaxOrderQty "mc_quote_qty c"]
  by (simp_all add: maker_sanitize_def Let_def kMaxOrderQty_def)

lemma microprice_textbook:
  assumes "bid \<le> ask" "bid_qty \<noteq> 0 \<or> ask_qty \<noteq> 0"
  shows "microprice bid ask bid_qty ask_qty = (bid * uint ask_qty + ask * uint bid_qty) div (uint bid_qty + uint ask_qty)"
proof -
  define n where "n = uint bid_qty + uint ask_qty"
  have "uint bid_qty \<noteq> 0 \<or> uint ask_qty \<noteq> 0" using assms(2) by (simp add: unsigned_eq_0_iff)
  moreover have "0 \<le> uint bid_qty" "0 \<le> uint ask_qty" by simp_all
  ultimately have n: "0 < n" unfolding n_def by linarith
  have "bid * uint ask_qty + ask * uint bid_qty = (ask - bid) * uint bid_qty + bid * n" by (simp add: n_def algebra_simps)
  then have "(bid * uint ask_qty + ask * uint bid_qty) div n = bid + (ask - bid) * uint bid_qty div n" using n by simp
  then show ?thesis using n assms(1) by (simp add: microprice_def sdiv_nonneg n_def)
qed

lemma int_div_less_of_mult: "(a :: int) < m * n \<Longrightarrow> 0 < n \<Longrightarrow> a div n < m"
proof -
  assume a: "a < m * n" "0 < n"
  have "a div n * n \<le> a" using a(2) by (simp add: minus_mod_eq_div_mult [symmetric])
  then have "a div n * n < m * n" using a(1) by simp
  then show ?thesis using a(2) by (simp add: mult_less_cancel_right)
qed

lemma microprice_range:
  assumes "bid < ask" "ask_qty \<noteq> 0"
  shows "bid \<le> microprice bid ask bid_qty ask_qty" "microprice bid ask bid_qty ask_qty < ask"
proof -
  have q: "0 < uint ask_qty" "0 \<le> uint bid_qty" using assms(2) by (simp_all add: unsigned_eq_0_iff order_less_le)
  have "(ask - bid) * uint bid_qty < (ask - bid) * (uint bid_qty + uint ask_qty)" using assms(1) q by simp
  then have "(ask - bid) * uint bid_qty div (uint bid_qty + uint ask_qty) < ask - bid"
    using q by (metis add_nonneg_pos int_div_less_of_mult)
  then show "bid \<le> microprice bid ask bid_qty ask_qty" "microprice bid ask bid_qty ask_qty < ask"
    using assms(1) q sdiv_nonneg [of "(ask - bid) * uint bid_qty" "uint bid_qty + uint ask_qty"]
    by (simp_all add: microprice_def pos_imp_zdiv_nonneg_iff add_nonneg_pos)
qed

lemma room_size:
  fixes m i :: int and c :: Qty
  assumes "0 \<le> m - i" "c \<le> kMaxOrderQty"
  defines "q \<equiv> word_of_int (min (uint c) (m - i)) :: Qty"
  shows "uint q = min (uint c) (m - i)"
proof -
  have "0 \<le> min (uint c) (m - i)" "min (uint c) (m - i) < 2 ^ 32" using assms(1) unsigned_less [where 'a = int, of c] by simp_all
  then show ?thesis by (simp add: q_def uint_word_of_int_eq take_bit_int_eq_self)
qed

lemma maker_quotes_sound:
  assumes touch: "touch_of b = Some touch" and cfg: "cfg = maker_sanitize c" and inv: "\<bar>i\<bar> \<le> mc_max_inventory cfg"
    and q: "maker_quotes cfg touch i = ((bid, bid_room), (ask, ask_room))"
  shows "bid \<le> th_ask touch - mc_tick cfg \<or> bid = 0" "th_bid touch + mc_tick cfg \<le> ask" "bid < ask" "mc_tick cfg dvd bid" "mc_tick cfg dvd ask"
    "bid_room \<le> mc_quote_qty cfg" "ask_room \<le> mc_quote_qty cfg"
    "i + uint bid_room \<le> mc_max_inventory cfg" "- mc_max_inventory cfg \<le> i - uint ask_room"
proof -
  define t where "t = mc_tick cfg"
  have t: "1 \<le> t" "1 \<le> mc_half_spread cfg" using maker_sanitize_range by (simp_all add: t_def cfg)
  define fair skew where "fair = microprice (th_bid touch) (th_ask touch) (th_bid_qty touch) (th_ask_qty touch)" and "skew = mc_skew_per_share cfg * i"
  define br ar where "br = min (fair - mc_half_spread cfg - skew) (th_ask touch - t)" and "ar = max (fair + mc_half_spread cfg - skew) (th_bid touch + t)"
  have e: "bid = (if br > 0 then br - br mod t else 0)" "ask = (if ar > 0 then (ar + t - 1) div t * t else 0)"
    "bid_room = word_of_int (min (uint (mc_quote_qty cfg)) (mc_max_inventory cfg - i))"
    "ask_room = word_of_int (min (uint (mc_quote_qty cfg)) (mc_max_inventory cfg + i))"
    using q [symmetric] unfolding maker_quotes_def Let_def prod.inject fair_def skew_def br_def ar_def t_def by blast+
  have ar0: "0 < ar" using touch_of_cases [OF touch] t by (simp add: ar_def)
  have lt: "br < ar" using t by (simp add: br_def ar_def)
  have md: "0 \<le> br mod t" "br mod t < t" using t by simp_all
  have "(ar + t - 1) div t * t = ar + t - 1 - (ar + t - 1) mod t" by (simp add: minus_mod_eq_div_mult)
  moreover have "0 \<le> (ar + t - 1) mod t" "(ar + t - 1) mod t \<le> t - 1" using t pos_mod_bound [of t "ar + t - 1"] by simp_all
  ultimately have ask: "ar \<le> ask" using ar0 by (simp add: e(2))
  show "bid \<le> th_ask touch - mc_tick cfg \<or> bid = 0" using md by (auto simp: e(1) br_def t_def)
  show "th_bid touch + mc_tick cfg \<le> ask" using ask by (simp add: ar_def t_def)
  show "bid < ask" using ask lt md ar0 by (auto simp: e(1))
  show "mc_tick cfg dvd bid" "mc_tick cfg dvd ask" by (simp_all add: e(1,2) t_def minus_mod_eq_mult_div)
  have rm: "uint bid_room = min (uint (mc_quote_qty cfg)) (mc_max_inventory cfg - i)" "uint ask_room = min (uint (mc_quote_qty cfg)) (mc_max_inventory cfg + i)"
    unfolding e(3,4) using inv room_size [of "mc_max_inventory cfg" i "mc_quote_qty cfg"] room_size [of "mc_max_inventory cfg" "- i" "mc_quote_qty cfg"]
      maker_sanitize_range(5) [of c] by (simp_all add: cfg)
  show "bid_room \<le> mc_quote_qty cfg" "ask_room \<le> mc_quote_qty cfg"
    "i + uint bid_room \<le> mc_max_inventory cfg" "- mc_max_inventory cfg \<le> i - uint ask_room"
    unfolding word_le_def rm by auto
qed

text \<open>
  The requote threshold of the maker is a product of two 64-bit values whose bounds after
  sanitising do not keep it inside 64 bits: \<^verbatim>\<open>requote_ticks\<close> has no upper clamp.
\<close>

lemma requote_threshold_can_overflow:
  "\<exists>c. uint (mc_requote_ticks (maker_sanitize c)) * mc_tick (maker_sanitize c) > kInt64Max"
proof -
  define c :: MicropriceMakerConfig where "c = \<lparr>mc_max_locates = 1, mc_half_spread = 1, mc_tick = 2 ^ 40, mc_skew_per_share = 0, mc_quote_qty = 1,
     mc_max_inventory = 0, mc_requote_ticks = 2 ^ 24, mc_max_spread = 0\<rparr>"
  have "mc_tick (maker_sanitize c) = 2 ^ 40" "mc_requote_ticks (maker_sanitize c) = 2 ^ 24"
    by (simp_all add: maker_sanitize_def Let_def c_def clamp_int_def)
  then show ?thesis by (intro exI [of _ c]) (simp add: kInt64Max_def)
qed

section \<open>The properties\<close>

text \<open>
  Claim C10: the two takers trade within their limits. A book update makes at most one order. Such an
  order is immediate-or-cancel at the opposite touch of a tradable book, for at least one and at most
  the configured number of shares, and it goes out only when the previous order of the instrument is
  finished and the cooldown has passed. If it fills completely, the imbalance taker's position moves
  toward flat without passing it, or stays within \<^verbatim>\<open>max_position\<close>; the crossover strategy's moves toward a target of at
  most \<^verbatim>\<open>max_position\<close> without passing it.
\<close>

theorem takers_trade_within_limits:
  assumes "it_cfg (strat sy) = taker_sanitize c" "xs_cfg (strat sx) = ema_sanitize d" "\<forall>s \<in> set (xs_slots (strat sx)). ema_slot_ok s"
  shows "(own_change sy (taker_on_book_update ev l now sy) \<or>
    (\<exists>req touch. sends_one ev req now sy (taker_on_book_update ev l now sy) \<and>
       touch_of (mb_book (eg_books (sy_world sy)) l) = Some touch \<and> unat l < length (it_gates (strat sy)) \<and>
       paced (Api_find sy) now (ic_cooldown_ns (taker_sanitize c)) (it_gates (strat sy) ! unat l) \<and>
       taking_order l touch (ic_order_qty (taker_sanitize c)) req \<and>
       (let pos = position_of (sy_risk sy) l in
        \<bar>filled_position pos req\<bar> \<le> \<bar>pos\<bar> \<and> 0 \<le> pos * filled_position pos req \<and> pos \<noteq> 0 \<or>
        \<bar>filled_position pos req\<bar> \<le> ic_max_position (taker_sanitize c)))) \<and>
    (own_change sx (ema_on_book_update ex l now sx) \<or>
    (\<exists>req touch target. sends_one ex req now sx (ema_on_book_update ex l now sx) \<and>
       touch_of (mb_book (eg_books (sy_world sx)) l) = Some touch \<and> unat l < length (xs_slots (strat sx)) \<and>
       paced (Api_find sx) now (xc_cooldown_ns (ema_sanitize d)) (es_gate (xs_slots (strat sx) ! unat l)) \<and>
       taking_order l touch (xc_order_qty (ema_sanitize d)) req \<and> \<bar>target\<bar> \<le> xc_max_position (ema_sanitize d) \<and>
       (let pos = position_of (sy_risk sx) l in
        min pos target \<le> filled_position pos req \<and> filled_position pos req \<le> max pos target \<and> filled_position pos req \<noteq> pos)))"
  by (rule conjI [OF taker_update_cases [OF assms(1)] ema_update_cases [OF assms(2,3)]])

definition sample_engine_config :: EngineConfig where
  "sample_engine_config = \<lparr>ec_books = sample_config, ec_limits = sample_limits, ec_oms = \<lparr>oc_max_orders = 4, oc_first_token = 1\<rparr>, ec_max_locates = 8\<rparr>"

definition sample_taker_config :: ImbalanceTakerConfig where
  "sample_taker_config = \<lparr>ic_max_locates = 8, ic_depth = 5, ic_enter_bps = 3000, ic_exit_bps = 500, ic_max_spread = 500,
     ic_order_qty = 100, ic_max_position = 500, ic_cooldown_ns = 1000000\<rparr>"

definition sample_ema_config :: EmaCrossConfig where
  "sample_ema_config = \<lparr>xc_max_locates = 8, xc_fast_shift = 3, xc_slow_shift = 6, xc_warmup = 64, xc_confirm_ticks = 3,
     xc_order_qty = 100, xc_max_position = 100, xc_cooldown_ns = 1000000\<rparr>"

lemma sample_engine: "\<exists>sy. Engine_new sample_engine_config st g = Some sy \<and> strat sy = st"
proof -
  obtain om where "OrderManager_new \<lparr>oc_max_orders = 4, oc_first_token = 1\<rparr> = Some om" using sample_manager ..
  moreover obtain mb where "MarketBooks_new sample_config = Some mb" using sample_new by blast
  ultimately show ?thesis by (simp add: Engine_new_def sample_engine_config_def)
qed

lemma EmaCross_new_ok: "\<forall>s \<in> set (xs_slots (EmaCross_new c)). ema_slot_ok s"
  by (auto simp: EmaCross_new_def Let_def EmaSlot_new_def ema_slot_ok_def)

theorem takers_trade_within_limits_witness:
  "\<exists>(sy :: (ImbalanceTaker, unit) engine) (sx :: (EmaCross, unit) engine).
    Engine_new sample_engine_config (ImbalanceTaker_new sample_taker_config) () = Some sy \<and>
    Engine_new sample_engine_config (EmaCross_new sample_ema_config) () = Some sx \<and>
    (\<forall>gw l now. own_change sy (taker_on_book_update (engine_env gw taker_callbacks) l now sy) \<or>
      (\<exists>req touch. sends_one (engine_env gw taker_callbacks) req now sy (taker_on_book_update (engine_env gw taker_callbacks) l now sy) \<and>
         taking_order l touch (ic_order_qty (taker_sanitize sample_taker_config)) req))"
proof -
  obtain sy :: "(ImbalanceTaker, unit) engine" where sy: "Engine_new sample_engine_config (ImbalanceTaker_new sample_taker_config) () = Some sy"
    "strat sy = ImbalanceTaker_new sample_taker_config" using sample_engine [of "ImbalanceTaker_new sample_taker_config" "()"] by blast
  obtain sx :: "(EmaCross, unit) engine" where sx: "Engine_new sample_engine_config (EmaCross_new sample_ema_config) () = Some sx"
    "strat sx = EmaCross_new sample_ema_config" using sample_engine [of "EmaCross_new sample_ema_config" "()"] by blast
  have c: "it_cfg (strat sy) = taker_sanitize sample_taker_config" "xs_cfg (strat sx) = ema_sanitize sample_ema_config"
    by (simp_all add: sy sx ImbalanceTaker_new_def EmaCross_new_def Let_def)
  have ok: "\<forall>s \<in> set (xs_slots (strat sx)). ema_slot_ok s" by (simp add: sx EmaCross_new_ok)
  have "own_change sy (taker_on_book_update (engine_env gw taker_callbacks) l now sy) \<or>
      (\<exists>req touch. sends_one (engine_env gw taker_callbacks) req now sy (taker_on_book_update (engine_env gw taker_callbacks) l now sy) \<and>
         taking_order l touch (ic_order_qty (taker_sanitize sample_taker_config)) req)" for gw l now
    using takers_trade_within_limits [OF c ok, of "engine_env gw taker_callbacks" l now, THEN conjunct1] by blast
  then show ?thesis using sy(1) sx(1) by blast
qed

text \<open>
  Claim C20: the market maker never quotes through the market. For a tradable book and an inventory
  within the limit, the bid stays at least one tick below the best ask (or is not quoted), the ask at
  least one tick above the best bid, the bid below the ask, both on the tick grid; the sizes are at most
  the quote size, and filling either quote keeps the inventory within \<^verbatim>\<open>max_inventory\<close>. The fair price
  the quotes are built on is the size-weighted mid of the touch, rounded down, and lies inside it.
\<close>

theorem maker_quotes_never_cross:
  assumes "touch_of b = Some touch" "\<bar>i\<bar> \<le> mc_max_inventory (maker_sanitize c)"
    "maker_quotes (maker_sanitize c) touch i = ((bid, bid_room), (ask, ask_room))"
  shows "(bid \<le> th_ask touch - mc_tick (maker_sanitize c) \<or> bid = 0) \<and> th_bid touch + mc_tick (maker_sanitize c) \<le> ask \<and> bid < ask \<and>
    mc_tick (maker_sanitize c) dvd bid \<and> mc_tick (maker_sanitize c) dvd ask \<and>
    bid_room \<le> mc_quote_qty (maker_sanitize c) \<and> ask_room \<le> mc_quote_qty (maker_sanitize c) \<and>
    i + uint bid_room \<le> mc_max_inventory (maker_sanitize c) \<and> - mc_max_inventory (maker_sanitize c) \<le> i - uint ask_room \<and>
    (let fair = microprice (th_bid touch) (th_ask touch) (th_bid_qty touch) (th_ask_qty touch) in
     fair = (th_bid touch * uint (th_ask_qty touch) + th_ask touch * uint (th_bid_qty touch)) div (uint (th_bid_qty touch) + uint (th_ask_qty touch)) \<and>
     th_bid touch \<le> fair \<and> fair < th_ask touch)"
  using maker_quotes_sound [OF assms(1) refl assms(2,3)] touch_of_cases [OF assms(1)]
    microprice_textbook [of "th_bid touch" "th_ask touch" "th_bid_qty touch" "th_ask_qty touch"]
    microprice_range [of "th_bid touch" "th_ask touch" "th_ask_qty touch" "th_bid_qty touch"]
  unfolding Let_def by (intro conjI) simp_all


definition sample_touch_book :: OrderBook where
  "sample_touch_book = fst (add_order (fst (add_order (OrderBook_new 2) Side_buy 100 5)) Side_sell 103 15)"

lemma sample_touch: "touch_of (Some sample_touch_book) = Some \<lparr>th_bid = 100, th_ask = 103, th_bid_qty = 5, th_ask_qty = 15\<rparr>"
  by code_simp

definition sample_maker_config :: MicropriceMakerConfig where
  "sample_maker_config = \<lparr>mc_max_locates = 8, mc_half_spread = 2, mc_tick = 1, mc_skew_per_share = 1, mc_quote_qty = 100,
     mc_max_inventory = 500, mc_requote_ticks = 2, mc_max_spread = 2000\<rparr>"

theorem maker_quotes_never_cross_witness:
  "\<exists>bid bid_room ask ask_room.
     maker_quotes (maker_sanitize sample_maker_config) \<lparr>th_bid = 100, th_ask = 103, th_bid_qty = 5, th_ask_qty = 15\<rparr> 3 =
       ((bid, bid_room), (ask, ask_room)) \<and> bid < ask \<and> 101 \<le> ask \<and> microprice 100 103 5 15 = 100"
proof -
  obtain bid bid_room ask ask_room where q:
    "maker_quotes (maker_sanitize sample_maker_config) \<lparr>th_bid = 100, th_ask = 103, th_bid_qty = 5, th_ask_qty = 15\<rparr> 3 =
       ((bid, bid_room), (ask, ask_room))" by (metis prod.collapse)
  have m: "mc_tick (maker_sanitize sample_maker_config) = 1" "mc_max_inventory (maker_sanitize sample_maker_config) = 500"
    by (simp_all add: maker_sanitize_def sample_maker_config_def Let_def clamp_int_def)
  show ?thesis using maker_quotes_never_cross [OF sample_touch _ q] q by (simp add: m Let_def)
qed

end
