(* ===== verification/Rng.thy ===== *)
theory Rng
  imports Prelude
begin

text \<open>
  The random number generator, \<^verbatim>\<open>src/include/optitrade/core/rng.hpp\<close>: xoshiro256** seeded through
  splitmix64, and Lemire's bounded draw. The rejection loop of \<^verbatim>\<open>bounded\<close> ends only when a draw is
  accepted, so it is a \<^theory_text>\<open>partial_function\<close>. The theory shows that the all-zero state is never reached,
  that \<^verbatim>\<open>bounded\<close> returns at the first accepted draw and that the accepted draws are spread evenly over
  the results.
\<close>

section \<open>The generator\<close>

type_synonym u128 = "128 word"

record Rng =
  rg_s0 :: u64
  rg_s1 :: u64
  rg_s2 :: u64
  rg_s3 :: u64

definition rotl :: "u64 \<Rightarrow> nat \<Rightarrow> u64" where
  "rotl x k = push_bit k x OR drop_bit (64 - k) x"

text \<open>One turn of the seeding loop: the new seed and the word it gives.\<close>

definition splitmix_mix :: "u64 \<Rightarrow> u64" where
  "splitmix_mix seed =
     (let z = seed;
          z = (z XOR drop_bit 30 z) * 0xBF58476D1CE4E5B9;
          z = (z XOR drop_bit 27 z) * 0x94D049BB133111EB in
      z XOR drop_bit 31 z)"

definition kGolden :: u64 where "kGolden = 0x9E3779B97F4A7C15"

definition Rng_new :: "u64 \<Rightarrow> Rng" where
  "Rng_new seed =
     (let seed = seed + kGolden; w0 = splitmix_mix seed;
          seed = seed + kGolden; w1 = splitmix_mix seed;
          seed = seed + kGolden; w2 = splitmix_mix seed;
          seed = seed + kGolden; w3 = splitmix_mix seed in
      \<lparr>rg_s0 = w0, rg_s1 = w1, rg_s2 = w2, rg_s3 = w3\<rparr>)"

definition rng_next :: "Rng \<Rightarrow> u64 \<times> Rng" where
  "rng_next g =
     (let result = rotl (rg_s1 g * 5) 7 * 9;
          t = push_bit 17 (rg_s1 g);
          g = g\<lparr>rg_s2 := rg_s2 g XOR rg_s0 g\<rparr>;
          g = g\<lparr>rg_s3 := rg_s3 g XOR rg_s1 g\<rparr>;
          g = g\<lparr>rg_s1 := rg_s1 g XOR rg_s2 g\<rparr>;
          g = g\<lparr>rg_s0 := rg_s0 g XOR rg_s3 g\<rparr>;
          g = g\<lparr>rg_s2 := rg_s2 g XOR t\<rparr>;
          g = g\<lparr>rg_s3 := rotl (rg_s3 g) 45\<rparr> in
      (result, g))"

section \<open>Bounded draws\<close>

definition wide_mul :: "u64 \<Rightarrow> u64 \<Rightarrow> u128" where
  "wide_mul x n = ucast x * ucast n"

definition low64 :: "u128 \<Rightarrow> u64" where
  "low64 m = ucast m"

partial_function (option) bounded_loop :: "u64 \<Rightarrow> u64 \<Rightarrow> u128 \<Rightarrow> Rng \<Rightarrow> (u128 \<times> Rng) option" where
  "bounded_loop n threshold m g =
     (if low64 m < threshold then (case rng_next g of (x, g) \<Rightarrow> bounded_loop n threshold (wide_mul x n) g)
      else Some (m, g))"

definition bounded :: "u64 \<Rightarrow> Rng \<Rightarrow> (u64 \<times> Rng) option" where
  "bounded n g = do {
     let (x, g) = rng_next g;
     let m = wide_mul x n;
     (m, g) \<leftarrow> (if low64 m < n then bounded_loop n ((0 - n) mod n) m g else Some (m, g));
     Some (ucast (drop_bit 64 m), g) }"

text \<open>\<^verbatim>\<open>lo\<close> and \<^verbatim>\<open>hi\<close> are 64-bit signed values.\<close>

definition rng_range :: "int \<Rightarrow> int \<Rightarrow> Rng \<Rightarrow> (int \<times> Rng) option" where
  "rng_range lo hi g = do {
     let ulo = (word_of_int lo :: u64);
     let span = word_of_int hi - ulo;
     (offset, g) \<leftarrow> (if span = - 1 then Some (rng_next g) else bounded (span + 1) g);
     Some (sint (ulo + offset), g) }"

definition chance :: "u64 \<Rightarrow> u64 \<Rightarrow> Rng \<Rightarrow> (bool \<times> Rng) option" where
  "chance num den g = do { (x, g) \<leftarrow> bounded den g; Some (x < num, g) }"

text \<open>The loop of \<^verbatim>\<open>geometric\<close>; \<open>left\<close> trials remain until the cap.\<close>

primrec geometric_loop :: "u64 \<Rightarrow> u64 \<Rightarrow> nat \<Rightarrow> u32 \<Rightarrow> Rng \<Rightarrow> (u32 \<times> Rng) option" where
  "geometric_loop num den 0 n g = Some (n, g)"
| "geometric_loop num den (Suc left) n g = do {
     (hit, g) \<leftarrow> chance num den g;
     if hit then Some (n, g) else geometric_loop num den left (n + 1) g }"

definition geometric :: "u64 \<Rightarrow> u64 \<Rightarrow> u32 \<Rightarrow> Rng \<Rightarrow> (u32 \<times> Rng) option" where
  "geometric num den cap g = geometric_loop num den (unat cap) 0 g"

section \<open>The state is never all zero\<close>

definition all_zero :: "Rng \<Rightarrow> bool" where
  "all_zero g \<longleftrightarrow> rg_s0 g = 0 \<and> rg_s1 g = 0 \<and> rg_s2 g = 0 \<and> rg_s3 g = 0"

lemma drop_bit_fixed:
  fixes d :: u64
  assumes "drop_bit k d = d" "0 < k"
  shows "d = 0"
proof -
  have "unat d div 2 ^ k = unat d" using assms(1) by (metis unat_drop_bit_eq drop_bit_eq_div)
  moreover have "(1 :: nat) < 2 ^ k" using one_less_power [of "2 :: nat" k] assms(2) by simp
  ultimately have "unat d = 0" by (metis bot_nat_0.not_eq_extremum div_less_dividend less_irrefl)
  then show ?thesis by (simp add: unsigned_eq_0_iff)
qed

lemma xorshift_inj:
  fixes x y :: u64
  assumes "x XOR drop_bit k x = y XOR drop_bit k y" "0 < k"
  shows "x = y"
proof -
  have "drop_bit k (x XOR y) = drop_bit k x XOR drop_bit k y" by (rule drop_bit_xor)
  also have "\<dots> = x XOR y" by (rule xor_swap [OF assms(1), symmetric])
  finally have "drop_bit k (x XOR y) = x XOR y" .
  then show ?thesis by (rule xor_zero [OF drop_bit_fixed [OF _ assms(2)]])
qed

lemma splitmix_inj:
  assumes "splitmix_mix a = splitmix_mix b"
  shows "a = b"
proof -
  have c: "(0xBF58476D1CE4E5B9 :: u64) * 0x96DE1B173F119089 = 1" "(0x94D049BB133111EB :: u64) * 0x319642B2D24D8EC3 = 1" by simp_all
  define f where "f = (\<lambda>z :: u64. (z XOR drop_bit 30 z) * 0xBF58476D1CE4E5B9)"
  define h where "h = (\<lambda>z :: u64. (z XOR drop_bit 27 z) * 0x94D049BB133111EB)"
  have "splitmix_mix z = h (f z) XOR drop_bit 31 (h (f z))" for z by (simp add: splitmix_mix_def Let_def f_def h_def)
  with assms have "h (f a) = h (f b)" using xorshift_inj [of "h (f a)" 31 "h (f b)"] by simp
  then have "f a XOR drop_bit 27 (f a) = f b XOR drop_bit 27 (f b)" unfolding h_def by (rule mult_unit_inj [OF _ c(2)])
  then have "f a = f b" by (rule xorshift_inj) simp
  then have "a XOR drop_bit 30 a = b XOR drop_bit 30 b" unfolding f_def by (rule mult_unit_inj [OF _ c(1)])
  then show ?thesis by (rule xorshift_inj) simp
qed

lemma Rng_new_nonzero: "\<not> all_zero (Rng_new seed)"
proof
  assume z: "all_zero (Rng_new seed)"
  then have "splitmix_mix (seed + kGolden) = splitmix_mix (seed + kGolden + kGolden)" by (simp add: all_zero_def Rng_new_def Let_def)
  then have "seed + kGolden = seed + kGolden + kGolden" by (rule splitmix_inj)
  then show False by (simp add: kGolden_def)
qed

lemma push_bit_fixed:
  fixes x :: u64
  assumes "push_bit k x = x" "0 < k"
  shows "x = 0"
proof (rule bit_word_eqI)
  fix n
  show "bit x n = bit (0 :: u64) n"
  proof (induction n rule: less_induct)
    case (less n)
    have "bit x n = bit (push_bit k x) n" by (simp add: assms(1))
    also have "\<dots> = (k \<le> n \<and> n < 64 \<and> bit x (n - k))" by (auto simp: bit_push_bit_iff dest: bit_imp_le_length)
    finally show ?case using less assms(2) by (cases "k \<le> n") auto
  qed
qed

lemma rotl_zero:
  assumes "rotl x 45 = 0"
  shows "x = 0"
proof (rule bit_word_eqI)
  fix n
  assume n: "n < LENGTH(64)"
  have z: "push_bit 45 x = 0" "drop_bit 19 x = 0" using assms by (simp_all add: rotl_def or_eq_0_iff)
  show "bit x n = bit (0 :: u64) n"
  proof (cases "n < 19")
    case True
    then show ?thesis using arg_cong [OF z(1), of "\<lambda>w. bit w (n + 45)"] by (simp add: bit_push_bit_iff)
  next
    case False
    then show ?thesis using arg_cong [OF z(2), of "\<lambda>w. bit w (n - 19)"] by (simp add: bit_drop_bit_eq)
  qed
qed

lemma next_nonzero:
  assumes "\<not> all_zero g"
  shows "\<not> all_zero (snd (rng_next g))"
proof
  assume z: "all_zero (snd (rng_next g))"
  define a b c d where "a = rg_s0 g" and "b = rg_s1 g" and "c = rg_s2 g" and "d = rg_s3 g"
  have e: "a XOR (d XOR b) = 0" "b XOR (c XOR a) = 0" "(c XOR a) XOR push_bit 17 b = 0" "rotl (d XOR b) 45 = 0"
    using z by (simp_all add: all_zero_def rng_next_def Let_def a_def b_def c_def d_def)
  have db: "d XOR b = 0" by (rule rotl_zero [OF e(4)])
  then have a: "a = 0" using e(1) by simp
  then have "c = b" using e(2) xor_zero [of b c] by simp
  then have "push_bit 17 b = b" using e(3) a xor_zero [of b "push_bit 17 b"] by simp
  then have "b = 0" by (rule push_bit_fixed) simp
  then have "all_zero g" using a xor_zero [OF db] \<open>c = b\<close> by (simp add: all_zero_def a_def b_def c_def d_def)
  with assms show False by simp
qed


section \<open>Bounded draws are uniform\<close>

definition pick :: "u64 \<Rightarrow> u64 \<Rightarrow> u64" where
  "pick n x = ucast (drop_bit 64 (wide_mul x n))"

definition accepted :: "u64 \<Rightarrow> u64 \<Rightarrow> bool" where
  "accepted n x \<longleftrightarrow> (0 - n) mod n \<le> low64 (wide_mul x n)"

lemma unat_u64: "unat (x :: u64) < 2 ^ 64"
  using unsigned_less [of x, where ?'a = nat] by simp

lemma unat_wide_mul: "unat (wide_mul x n) = unat x * unat n"
proof -
  have x: "unat (ucast x :: u128) = unat x" "unat (ucast n :: u128) = unat n"
    using unat_u64 [of x] unat_u64 [of n] by (simp_all add: unsigned_ucast_eq take_bit_nat_eq_self)
  have "unat x * unat n < 2 ^ 64 * 2 ^ 64"
    using unat_u64 [of x] unat_u64 [of n] by (intro mult_strict_mono) simp_all
  then show ?thesis by (simp add: wide_mul_def unat_word_ariths x)
qed

lemma unat_low: "unat (low64 (wide_mul x n)) = unat x * unat n mod 2 ^ 64"
  by (simp add: low64_def unsigned_ucast_eq unat_wide_mul take_bit_eq_mod)

lemma unat_pick: "unat (pick n x) = unat x * unat n div 2 ^ 64"
proof -
  have "unat x * unat n < 2 ^ 64 * 2 ^ 64"
    using unat_u64 [of x] unat_u64 [of n] by (intro mult_strict_mono) simp_all
  then have "unat x * unat n div 2 ^ 64 < 2 ^ 64" by (simp add: less_mult_imp_div_less)
  moreover have "unat (drop_bit 64 (wide_mul x n)) = unat x * unat n div 2 ^ 64"
    unfolding unat_drop_bit_eq unat_wide_mul by (rule drop_bit_eq_div)
  ultimately show ?thesis unfolding pick_def by (subst unat_ucast_small) simp_all
qed

lemma unat_threshold:
  fixes n :: u64
  assumes "n \<noteq> 0"
  shows "unat ((0 - n) mod n) = 2 ^ 64 mod unat n"
proof -
  have n: "0 < unat n" "unat n < 2 ^ 64" using assms unat_u64 [of n] by (simp_all add: unat_gt_0)
  have "unat (0 - n) = 2 ^ 64 - unat n" using n by (subst unat_sub_if_size) (simp add: word_size)
  then have "unat ((0 - n) mod n) = (2 ^ 64 - unat n) mod unat n" by (simp add: unat_mod_distrib)
  also have "\<dots> = 2 ^ 64 mod unat n" using n by (simp add: mod_if)
  finally show ?thesis .
qed

lemma accepted_iff: "n \<noteq> 0 \<Longrightarrow> accepted n x \<longleftrightarrow> 2 ^ 64 mod unat n \<le> unat x * unat n mod 2 ^ 64"
  unfolding accepted_def word_le_nat_alt unat_low by (subst unat_threshold) simp_all

lemma pick_less: "n \<noteq> 0 \<Longrightarrow> pick n x < n"
proof -
  assume "n \<noteq> 0"
  then have "unat x * unat n < unat n * 2 ^ 64" using unat_u64 [of x] by (simp add: unat_gt_0)
  then have "unat x * unat n div 2 ^ 64 < unat n" by (simp add: less_mult_imp_div_less)
  then show ?thesis by (simp add: word_less_nat_alt unat_pick)
qed

lemma card_multiples:
  assumes "0 < (n :: nat)"
  shows "card {x. a \<le> x * n \<and> x * n < a + q * n} = q"
proof -
  define c where "c = (a + n - 1) div n"
  have le: "a \<le> x * n \<longleftrightarrow> c \<le> x" for x
  proof -
    have "c \<le> x \<longleftrightarrow> a + n - 1 < (x + 1) * n" unfolding c_def using assms
      by (metis Suc_eq_plus1 div_less_iff_less_mult less_Suc_eq_le)
    also have "\<dots> \<longleftrightarrow> a \<le> x * n" using assms by auto
    finally show ?thesis by simp
  qed
  have "x * n < a + q * n \<longleftrightarrow> x < c + q" for x
  proof (cases "x < q")
    case True
    then have "x * n < q * n" using assms by simp
    then show ?thesis using True by (simp add: trans_less_add2)
  next
    case False
    then have "q * n \<le> x * n" by simp
    then have "x * n < a + q * n \<longleftrightarrow> \<not> a \<le> (x - q) * n" unfolding diff_mult_distrib by linarith
    then show ?thesis using False by (auto simp: le)
  qed
  then have "{x. a \<le> x * n \<and> x * n < a + q * n} = {c..<c + q}" using le by auto
  then show ?thesis by simp
qed

lemma block_iff:
  fixes y :: nat
  assumes "s + t = b" "0 < b"
  shows "t \<le> y mod b \<and> y div b = c \<longleftrightarrow> c * b + t \<le> y \<and> y < c * b + t + s"
proof -
  define d m where "d = y div b" and "m = y mod b"
  have y: "y = d * b + m" "m < b" using assms(2) by (simp_all add: d_def m_def)
  have "d = c" if "c * b + t \<le> y" "y < c * b + t + s"
    unfolding d_def using that assms(1) by (intro div_nat_eqI) (auto simp: mult.commute)
  then show ?thesis unfolding d_def [symmetric] m_def [symmetric] using y assms(1) by auto
qed

lemma draws_per_result:
  assumes "n \<noteq> 0" "v < n"
  shows "card {x. accepted n x \<and> pick n x = v} = 2 ^ 64 div unat n"
proof -
  define N q t where "N = unat n" and "q = 2 ^ 64 div N" and "t = 2 ^ 64 mod N"
  have N: "0 < N" using assms(1) by (simp add: N_def unat_gt_0)
  have qt: "q * N + t = 2 ^ 64" unfolding q_def t_def by (rule div_mult_mod_eq)
  define S where "S = {x. unat v * 2 ^ 64 + t \<le> x * N \<and> x * N < unat v * 2 ^ 64 + t + q * N}"
  have iff: "accepted n x \<and> pick n x = v \<longleftrightarrow> unat x \<in> S" for x
  proof -
    define y where "y = unat x * N"
    have "pick n x = v \<longleftrightarrow> y div 2 ^ 64 = unat v" by (simp add: word_unat_eq_iff unat_pick y_def N_def)
    moreover have "t \<le> y mod 2 ^ 64 \<and> y div 2 ^ 64 = c \<longleftrightarrow> c * 2 ^ 64 + t \<le> y \<and> y < c * 2 ^ 64 + t + q * N" for c
      by (rule block_iff [OF qt]) simp
    ultimately show ?thesis
      unfolding accepted_iff [OF assms(1)] S_def y_def [symmetric] N_def [symmetric] t_def [symmetric] mem_Collect_eq by simp
  qed
  have bound: "x < 2 ^ 64" if "x \<in> S" for x
  proof -
    have "x * N < (unat v + 1) * 2 ^ 64" using that qt by (simp add: S_def)
    also have "\<dots> \<le> N * 2 ^ 64" using assms(2) by (simp add: word_less_nat_alt N_def Suc_le_eq)
    finally show ?thesis by (simp add: mult.commute)
  qed
  have "bij_betw unat {x. accepted n x \<and> pick n x = v} S"
    unfolding bij_betw_def
  proof
    show "inj_on unat {x. accepted n x \<and> pick n x = v}" by (simp add: inj_on_def word_unat_eq_iff)
    show "unat ` {x. accepted n x \<and> pick n x = v} = S"
    proof
      show "S \<subseteq> unat ` {x. accepted n x \<and> pick n x = v}"
      proof
        fix x assume x: "x \<in> S"
        then have "unat (of_nat x :: u64) = x" using bound [OF x] by (simp add: unsigned_of_nat take_bit_nat_eq_self)
        then show "x \<in> unat ` {x. accepted n x \<and> pick n x = v}" using x iff [of "of_nat x"] by (metis (mono_tags) imageI mem_Collect_eq)
      qed
    qed (use iff in auto)
  qed
  then have "card {x. accepted n x \<and> pick n x = v} = card S" by (rule bij_betw_same_card)
  also have "\<dots> = q" unfolding S_def by (rule card_multiples [OF N])
  finally show ?thesis by (simp add: q_def N_def)
qed

text \<open>The draws of a generator.\<close>

primrec after :: "nat \<Rightarrow> Rng \<Rightarrow> Rng" where
  "after 0 g = g"
| "after (Suc k) g = after k (snd (rng_next g))"

definition draw :: "nat \<Rightarrow> Rng \<Rightarrow> u64" where
  "draw k g = fst (rng_next (after k g))"

definition first_accepted :: "u64 \<Rightarrow> nat \<Rightarrow> Rng \<Rightarrow> bool" where
  "first_accepted n k g \<longleftrightarrow> (\<forall>i < k. \<not> accepted n (draw i g)) \<and> accepted n (draw k g)"

lemma first_accepted_Suc:
  "\<not> accepted n (fst (rng_next g)) \<Longrightarrow> first_accepted n k (snd (rng_next g)) = first_accepted n (Suc k) g"
  by (auto simp: first_accepted_def draw_def less_Suc_eq_0_disj)

text \<open>The loop looks at the draw already made, then at the following ones.\<close>

lemma bounded_loop_returns:
  assumes "first_accepted n k g"
  shows "bounded_loop n ((0 - n) mod n) (wide_mul (fst (rng_next g)) n) (snd (rng_next g)) = Some (wide_mul (draw k g) n, after (Suc k) g)"
  using assms
proof (induction k arbitrary: g)
  case 0
  then show ?case by (subst bounded_loop.simps) (auto simp: first_accepted_def accepted_def draw_def)
next
  case (Suc k)
  have no: "\<not> accepted n (fst (rng_next g))" using Suc.prems by (auto simp: first_accepted_def draw_def)
  then have "first_accepted n k (snd (rng_next g))" using Suc.prems first_accepted_Suc by blast
  from Suc.IH [OF this] no show ?case
    by (subst bounded_loop.simps) (simp add: accepted_def not_le draw_def case_prod_unfold)
qed

lemma bounded_loop_first:
  assumes "bounded_loop n th m g' = Some r"
  shows "th = (0 - n) mod n \<longrightarrow> (\<forall>g. m = wide_mul (fst (rng_next g)) n \<and> g' = snd (rng_next g) \<longrightarrow> (\<exists>k. first_accepted n k g))"
proof (rule bounded_loop.raw_induct [where P = "\<lambda>n th m g' r. th = (0 - n) mod n \<longrightarrow>
      (\<forall>g. m = wide_mul (fst (rng_next g)) n \<and> g' = snd (rng_next g) \<longrightarrow> (\<exists>k. first_accepted n k g))", OF _ assms], intro impI allI, elim conjE)
  fix rec n th m g' r g
  assume IH: "\<And>n th m g' r. rec n th m g' = Some r \<Longrightarrow> th = (0 - n) mod n \<longrightarrow>
      (\<forall>g. m = wide_mul (fst (rng_next g)) n \<and> g' = snd (rng_next g) \<longrightarrow> (\<exists>k. first_accepted n k g))"
    and body: "(if low64 m < th then case rng_next g' of (x, g) \<Rightarrow> rec n th (wide_mul x n) g else Some (m, g')) = Some r"
    and th: "th = (0 - n) mod n" and m: "m = wide_mul (fst (rng_next g)) n" and g': "g' = snd (rng_next g)"
  show "\<exists>k. first_accepted n k g"
  proof (cases "accepted n (fst (rng_next g))")
    case True
    then show ?thesis by (intro exI [of _ 0]) (simp add: first_accepted_def draw_def)
  next
    case False
    then have "rec n th (wide_mul (fst (rng_next g')) n) (snd (rng_next g')) = Some r"
      using body by (simp add: accepted_def th m not_le case_prod_unfold)
    from IH [OF this] th obtain k where "first_accepted n k g'" by blast
    then show ?thesis using first_accepted_Suc [OF False] by (auto simp: g')
  qed
qed

lemma threshold_less: "n \<noteq> 0 \<Longrightarrow> (0 - n) mod n < n" for n :: u64
  unfolding word_less_nat_alt by (subst unat_threshold) (simp_all add: unat_gt_0)

lemma bounded_eq:
  assumes "n \<noteq> 0"
  shows "bounded n g = map_option (\<lambda>(m, g). (ucast (drop_bit 64 m), g))
    (bounded_loop n ((0 - n) mod n) (wide_mul (fst (rng_next g)) n) (snd (rng_next g)))"
proof (cases "low64 (wide_mul (fst (rng_next g)) n) < n")
  case True
  then show ?thesis by (cases "bounded_loop n ((0 - n) mod n) (wide_mul (fst (rng_next g)) n) (snd (rng_next g))")
      (auto simp: bounded_def Let_def case_prod_unfold)
next
  case False
  then have "\<not> low64 (wide_mul (fst (rng_next g)) n) < (0 - n) mod n" using threshold_less [OF assms] by auto
  then show ?thesis using False by (subst bounded_loop.simps) (simp add: bounded_def Let_def case_prod_unfold)
qed

lemma bounded_first:
  assumes "n \<noteq> 0" "first_accepted n k g"
  shows "bounded n g = Some (pick n (draw k g), after (Suc k) g)"
  using bounded_loop_returns [OF assms(2)] by (simp add: bounded_eq [OF assms(1)] pick_def)

lemma bounded_returned:
  assumes "n \<noteq> 0" "bounded n g = Some (v, g')"
  shows "\<exists>k. first_accepted n k g \<and> v = pick n (draw k g) \<and> g' = after (Suc k) g"
proof -
  obtain r where r: "bounded_loop n ((0 - n) mod n) (wide_mul (fst (rng_next g)) n) (snd (rng_next g)) = Some r"
    using assms by (auto simp: bounded_eq)
  obtain k where k: "first_accepted n k g" using bounded_loop_first [OF r] by blast
  then show ?thesis using bounded_first [OF assms(1) k] assms(2) by auto
qed

text \<open>The result of \<^verbatim>\<open>range\<close> lies between its bounds; \<^verbatim>\<open>geometric\<close> stops at its cap.\<close>

lemma sint_word_of_int: "- (2 ^ 63) \<le> v \<Longrightarrow> v < 2 ^ 63 \<Longrightarrow> sint (word_of_int v :: u64) = v"
  by (simp add: sint_sbintrunc' signed_take_bit_int_eq_self)

lemma rng_range_bounds:
  assumes "- (2 ^ 63) \<le> lo" "lo \<le> hi" "hi < 2 ^ 63" "rng_range lo hi g = Some (v, g')"
  shows "lo \<le> v \<and> v \<le> hi"
proof -
  define span :: u64 where "span = word_of_int hi - word_of_int lo"
  have "span = word_of_int (hi - lo)" unfolding span_def by (rule wi_hom_sub)
  then have us: "uint span = hi - lo" using assms(1-3) by (simp only: uint_word_of_int_eq) (simp add: take_bit_int_eq_self)
  obtain off where off: "v = sint (word_of_int lo + off :: u64)" "off \<le> span"
  proof (cases "span = - 1")
    case True
    then show ?thesis using that [of "fst (rng_next g)"] assms(4) by (auto simp: rng_range_def Let_def span_def [symmetric] split: prod.splits)
  next
    case False
    then obtain off g1 where b: "bounded (span + 1) g = Some (off, g1)" "v = sint (word_of_int lo + off :: u64)"
      using assms(4) by (auto simp: rng_range_def Let_def span_def [symmetric] bind_eq_Some_conv)
    have "span + 1 \<noteq> 0" using False by (metis add_eq_0_iff2)
    then have "off < span + 1" using bounded_returned [OF _ b(1)] pick_less by blast
    then show ?thesis using that [OF b(2)] False by (simp add: word_less_nat_alt word_le_nat_alt unat_plus_if' split: if_splits)
  qed
  have "uint off \<le> hi - lo" using off(2) us by (simp add: word_le_def)
  then have "sint (word_of_int (lo + uint off) :: u64) = lo + uint off" using assms(1-3) uint_ge_0 [of off] by (intro sint_word_of_int) linarith+
  moreover have "word_of_int lo + off = word_of_int (lo + uint off)" by simp
  ultimately have "v = lo + uint off" using off(1) by (simp only:)
  then show ?thesis using \<open>uint off \<le> hi - lo\<close> by simp
qed

lemma geometric_loop_cap: "geometric_loop num den left n g = Some (k, g') \<Longrightarrow> unat n + left < 2 ^ 32 \<Longrightarrow> unat k \<le> unat n + left"
proof (induction left arbitrary: n g)
  case (Suc left)
  obtain hit g1 where c: "chance num den g = Some (hit, g1)" using Suc.prems(1) by (cases "chance num den g") auto
  show ?case
  proof (cases hit)
    case False
    have "unat (n + 1) = unat n + 1" using Suc.prems(2) by (simp add: unat_plus_if' )
    then show ?thesis using Suc.IH [of "n + 1" g1] Suc.prems c False by simp
  qed (use Suc.prems c in auto)
qed simp

lemma geometric_cap: "geometric num den cap g = Some (k, g') \<Longrightarrow> k \<le> cap"
  using geometric_loop_cap [of num den "unat cap" 0 g k g'] unsigned_less [of cap, where ?'a = nat]
  by (simp add: geometric_def word_le_nat_alt)

section \<open>Every state recurs\<close>

text \<open>
  A step of the generator is linear and loses nothing, so the states of a generator form a cycle: a word
  that was drawn once is drawn again after any number of draws.
\<close>

lemma rotl_xor: "rotl (x XOR y) 45 = rotl x 45 XOR rotl y 45"
proof (rule bit_word_eqI)
  fix n
  assume "n < LENGTH(64)"
  then show "bit (rotl (x XOR y) 45) n = bit (rotl x 45 XOR rotl y 45) n"
    using bit_imp_le_length [of x "19 + n"] bit_imp_le_length [of y "19 + n"]
    by (cases "45 \<le> n") (auto simp: rotl_def bit_or_iff bit_xor_iff bit_push_bit_iff bit_drop_bit_eq)
qed

definition rng_xor :: "Rng \<Rightarrow> Rng \<Rightarrow> Rng" where
  "rng_xor g h = \<lparr>rg_s0 = rg_s0 g XOR rg_s0 h, rg_s1 = rg_s1 g XOR rg_s1 h, rg_s2 = rg_s2 g XOR rg_s2 h, rg_s3 = rg_s3 g XOR rg_s3 h\<rparr>"

lemma next_linear: "snd (rng_next (rng_xor g h)) = rng_xor (snd (rng_next g)) (snd (rng_next h))"
  by (simp add: rng_next_def rng_xor_def Let_def rotl_xor push_bit_xor ac_simps)

lemma rng_xor_zero: "all_zero (rng_xor g h) \<longleftrightarrow> g = h"
proof
  assume "all_zero (rng_xor g h)"
  then have "rg_s0 g = rg_s0 h" "rg_s1 g = rg_s1 h" "rg_s2 g = rg_s2 h" "rg_s3 g = rg_s3 h"
    by (auto simp: all_zero_def rng_xor_def dest: xor_zero)
  then show "g = h" by (cases g; cases h) simp
qed (simp add: all_zero_def rng_xor_def)

lemma next_inj: "snd (rng_next g) = snd (rng_next h) \<Longrightarrow> g = h"
  using next_nonzero [of "rng_xor g h"] by (auto simp: next_linear rng_xor_zero)

lemma after_add: "after (i + j) g = after j (after i g)"
  by (induction i arbitrary: g) simp_all

lemma after_Suc_last: "after (Suc k) g = snd (rng_next (after k g))"
  using after_add [of k 1 g] by simp

lemma after_inj: "after k g = after k h \<Longrightarrow> g = h"
  by (induction k arbitrary: g h) (auto dest: next_inj)

lemma recurs: "\<exists>p > 0. after p g = g"
proof -
  define f where "f = (\<lambda>k. (rg_s0 (after k g), rg_s1 (after k g), rg_s2 (after k g), rg_s3 (after k g)))"
  have "\<not> inj f"
  proof
    assume "inj f"
    moreover have "finite (range f)" by (rule finite)
    ultimately show False using finite_imageD [of f UNIV] infinite_UNIV_nat by blast
  qed
  then obtain i j where ij: "f i = f j" "i < j" unfolding inj_on_def by (metis linorder_less_linear)
  then have "after i g = after j g" by (cases "after i g"; cases "after j g") (simp add: f_def)
  then have "after i g = after i (after (j - i) g)" using ij(2) after_add [of "j - i" i g] by simp
  then have "after (j - i) g = g" by (metis after_inj)
  then show ?thesis using ij(2) by (intro exI [of _ "j - i"]) simp
qed

lemma recurs_late: "\<exists>j. after j (after k g) = g"
proof -
  obtain p where p: "0 < p" "after p g = g" using recurs by blast
  have "after (p * m) g = g" for m by (induction m) (simp_all add: after_add p(2))
  then have "after (p * k) g = g" .
  moreover have "k + (p * k - k) = p * k" using p(1) by simp
  ultimately have "after (p * k - k) (after k g) = g" using after_add [of k "p * k - k" g] by simp
  then show ?thesis ..
qed

lemma bounded_always_returns:
  assumes "n \<noteq> 0" "accepted n (draw 0 g)"
  shows "\<exists>x j. bounded n (after k g) = Some (x, after j g) \<and> x < n"
proof -
  obtain j where "after j (after k g) = g" using recurs_late by blast
  then have a: "accepted n (draw j (after k g))" using assms(2) by (simp add: draw_def)
  define l where "l = (LEAST l. accepted n (draw l (after k g)))"
  have "first_accepted n l (after k g)"
    unfolding first_accepted_def l_def using LeastI [of "\<lambda>l. accepted n (draw l (after k g))", OF a] not_less_Least by blast
  from bounded_first [OF assms(1) this] show ?thesis using pick_less [OF assms(1)] after_add [of k "Suc l" g] by metis
qed

text \<open>
  Claim C38: a bounded draw is uniform. For every \<open>n > 0\<close>, \<^verbatim>\<open>bounded(n)\<close> returns as soon as the generator
  yields an accepted word and only then, its result is the high half of that word's 128-bit product with
  \<open>n\<close> and is below \<open>n\<close>, and each of the \<open>n\<close> results is given by exactly \<open>2^64 div n\<close> of the 64-bit words, so
  that no result is favoured.
\<close>

theorem bounded_draws_are_uniform:
  assumes "n \<noteq> 0"
  shows "(\<forall>k. first_accepted n k g \<longrightarrow> bounded n g = Some (pick n (draw k g), after (Suc k) g)) \<and>
    (\<forall>v g'. bounded n g = Some (v, g') \<longrightarrow> v < n \<and> (\<exists>k. first_accepted n k g \<and> v = pick n (draw k g) \<and> g' = after (Suc k) g)) \<and>
    (\<forall>v < n. card {x. accepted n x \<and> pick n x = v} = 2 ^ 64 div unat n)"
  using bounded_first [OF assms] bounded_returned [OF assms] pick_less [OF assms] draws_per_result [OF assms] by blast

theorem bounded_draws_are_uniform_witness:
  "bounded 32 \<lparr>rg_s0 = 1, rg_s1 = 2, rg_s2 = 3, rg_s3 = 4\<rparr> = Some (0, \<lparr>rg_s0 = 7, rg_s1 = 0, rg_s2 = 262146, rg_s3 = 211106232532992\<rparr>) \<and>
   card {x. accepted 32 x \<and> pick 32 x = 7} = 2 ^ 59"
proof -
  let ?g = "\<lparr>rg_s0 = 1, rg_s1 = 2, rg_s2 = 3, rg_s3 = 4\<rparr>"
  have n: "rng_next ?g = (11520, \<lparr>rg_s0 = 7, rg_s1 = 0, rg_s2 = 262146, rg_s3 = 211106232532992\<rparr>)"
    by (simp add: rng_next_def rotl_def Let_def)
  then have f: "first_accepted 32 0 ?g" by (simp add: first_accepted_def draw_def accepted_def low64_def wide_mul_def)
  have p: "pick 32 11520 = 0" by (simp add: pick_def wide_mul_def)
  have "bounded 32 ?g = Some (pick 32 (draw 0 ?g), after (Suc 0) ?g)" using bounded_draws_are_uniform [of 32 ?g] f by auto
  moreover have "card {x. accepted 32 x \<and> pick 32 x = 7} = 2 ^ 64 div unat (32 :: u64)" using bounded_draws_are_uniform [of 32 ?g] by auto
  ultimately show ?thesis by (simp add: draw_def n p)
qed

end
