(* ===== verification/Digest.thy ===== *)
theory Digest
  imports Endian
begin

text \<open>
  \<^verbatim>\<open>core/digest.hpp\<close>: the 64-bit FNV-1a fingerprint of a stream of events. The two overloads of
  \<^verbatim>\<open>update\<close> are shown to be one (an integer is hashed as its eight little-endian bytes), and a step is
  shown to be injective in the state and in the byte, so that a change of one byte is always seen.
\<close>

section \<open>class Digest\<close>

record Digest =
  dg_h :: u64

definition Digest_new :: Digest where
  "Digest_new = \<lparr>dg_h = 0xCBF29CE484222325\<rparr>"

definition kFnvPrime :: u64 where "kFnvPrime = 0x100000001B3"

primrec digest_update_bytes :: "u8 list \<Rightarrow> Digest \<Rightarrow> Digest" where
  "digest_update_bytes [] d = d"
| "digest_update_bytes (b # bs) d =
     (let d = d\<lparr>dg_h := dg_h d XOR ucast b\<rparr>;
          d = d\<lparr>dg_h := dg_h d * kFnvPrime\<rparr> in
      digest_update_bytes bs d)"

text \<open>The loop of the integer overload from index \<open>i\<close> up.\<close>

function digest_update_from :: "nat \<Rightarrow> u64 \<Rightarrow> Digest \<Rightarrow> Digest" where
  "digest_update_from i v d =
     (if i < 8 then
        let d = d\<lparr>dg_h := dg_h d XOR (drop_bit (8 * i) v AND 0xFF)\<rparr>;
            d = d\<lparr>dg_h := dg_h d * kFnvPrime\<rparr> in
        digest_update_from (i + 1) v d
      else d)"
  by auto
termination by (relation "measure (\<lambda>(i, v, d). 8 - i)") auto

declare digest_update_from.simps [simp del]

definition digest_update :: "u64 \<Rightarrow> Digest \<Rightarrow> Digest" where
  "digest_update v d = digest_update_from 0 v d"

definition digest_value :: "Digest \<Rightarrow> u64" where
  "digest_value d = dg_h d"

section \<open>An integer is hashed as its little-endian bytes\<close>

lemma byte_of_word: "drop_bit n v AND 0xFF = ucast (ucast (drop_bit n v) :: u8)" for v :: u64
proof -
  have m: "(0xFF :: u64) = mask 8" by (simp add: mask_eq_exp_minus_1)
  show ?thesis unfolding m take_bit_eq_mask [symmetric] by (rule bit_word_eqI) (auto simp: bit_take_bit_iff bit_ucast_iff)
qed

lemma le_bytes64_map: "le_bytes64 v = map (\<lambda>i. ucast (drop_bit (8 * i) v)) [0..<8]"
  by (simp add: le_bytes64_def le_bytes32_def le_bytes16_def upt_rec) (auto intro!: bit_word_eqI simp: bit_ucast_iff bit_drop_bit_eq)

lemma le_bytes64_nth: "i < 8 \<Longrightarrow> le_bytes64 v ! i = ucast (drop_bit (8 * i) v)"
  by (simp add: le_bytes64_map)

lemma digest_update_from_bytes: "digest_update_from i v d = digest_update_bytes (drop i (le_bytes64 v)) d"
proof (induction i v d rule: digest_update_from.induct)
  case (1 i v d)
  show ?case
  proof (cases "i < 8")
    case True
    then have "drop i (le_bytes64 v) = ucast (drop_bit (8 * i) v) # drop (Suc i) (le_bytes64 v)"
      by (simp add: le_bytes64_nth flip: Cons_nth_drop_Suc)
    then show ?thesis using 1 [OF True refl refl] True
      by (subst digest_update_from.simps) (simp add: byte_of_word Let_def)
  qed (subst digest_update_from.simps, simp)
qed

lemma digest_update_eq: "digest_update v d = digest_update_bytes (le_bytes64 v) d"
  by (simp add: digest_update_def digest_update_from_bytes)

section \<open>A changed byte changes the digest\<close>

lemma digest_update_append: "digest_update_bytes (xs @ ys) d = digest_update_bytes ys (digest_update_bytes xs d)"
  by (induction xs arbitrary: d) (simp_all add: Let_def)

lemma fnv_prime_unit: "kFnvPrime * 0xCE965057AFF6957B = 1"
  by (simp add: kFnvPrime_def)

lemma digest_eqD: "d\<lparr>dg_h := x\<rparr> = e\<lparr>dg_h := y\<rparr> \<Longrightarrow> x = y"
  by (metis Digest.select_convs(1) Digest.surjective Digest.update_convs(1))

lemma ucast_ucast_id8: "ucast (ucast b :: u64) = b" for b :: u8
  by (rule bit_word_eqI) (simp add: bit_ucast_iff)

lemma digest_update_inj:
  assumes "digest_update_bytes bs d = digest_update_bytes bs e"
  shows "d = e"
  using assms
proof (induction bs arbitrary: d e)
  case (Cons b bs)
  have "d\<lparr>dg_h := (dg_h d XOR ucast b) * kFnvPrime\<rparr> = e\<lparr>dg_h := (dg_h e XOR ucast b) * kFnvPrime\<rparr>"
    by (rule Cons.IH) (use Cons.prems in \<open>simp add: Let_def\<close>)
  then have "(dg_h d XOR ucast b) * kFnvPrime = (dg_h e XOR ucast b) * kFnvPrime" by (rule digest_eqD)
  then have "dg_h d XOR ucast b = dg_h e XOR ucast b" by (rule mult_unit_inj [OF _ fnv_prime_unit])
  then show ?case using xor_zero [of "dg_h d" "dg_h e"] xor_swap [of "dg_h d" "ucast b" "dg_h e" "ucast b"] by (cases d; cases e) simp
qed simp

lemma digest_byte_inj:
  assumes "digest_update_bytes (b # bs) d = digest_update_bytes (c # bs) d"
  shows "b = c"
proof -
  have "(dg_h d XOR ucast b) * kFnvPrime = (dg_h d XOR ucast c) * kFnvPrime"
    using assms by (intro digest_eqD [OF digest_update_inj [of bs]]) (simp add: Let_def)
  then have "dg_h d XOR ucast b = dg_h d XOR ucast c" by (rule mult_unit_inj [OF _ fnv_prime_unit])
  then have "(ucast b :: u64) = ucast c" using xor_swap [of "dg_h d" "ucast b" "dg_h d" "ucast c"] xor_zero [of "ucast b :: u64" "ucast c"] by simp
  then show ?thesis by (metis ucast_ucast_id8)
qed

text \<open>
  Claim C39: the digest misses no single-byte change. Hashing an integer is hashing its eight little-endian
  bytes, whatever the platform; and two streams of bytes that are equal but for one byte leave every
  digest in different states, whatever was hashed before and whatever follows.
\<close>

theorem digest_sees_every_byte:
  "digest_update v d = digest_update_bytes (le_bytes64 v) d \<and>
   (b \<noteq> c \<longrightarrow> digest_value (digest_update_bytes (xs @ b # ys) d) \<noteq> digest_value (digest_update_bytes (xs @ c # ys) d))"
proof -
  have "b = c" if "digest_value (digest_update_bytes (xs @ b # ys) d) = digest_value (digest_update_bytes (xs @ c # ys) d)"
    using that by (intro digest_byte_inj [of b ys "digest_update_bytes xs d"]) (simp add: digest_update_append digest_value_def)
  then show ?thesis by (auto simp: digest_update_eq)
qed

theorem digest_sees_every_byte_witness:
  "digest_value (digest_update_bytes [1, 2, 3] Digest_new) \<noteq> digest_value (digest_update_bytes [1, 5, 3] Digest_new)"
  using digest_sees_every_byte [of 0 Digest_new 2 5 "[1]" "[3]"] by simp

end
