(* ===== verification/Capture.thy ===== *)
theory Capture
  imports Framing
begin

text \<open>
  \<^verbatim>\<open>replay/capture.hpp\<close>: the sources of timestamped messages (capture files, BinaryFILE files, an
  in-memory list) and the writer of capture files. A file is its bytes. What the operating system decides
  is an argument: whether \<^verbatim>\<open>fopen\<close>, \<^verbatim>\<open>fflush\<close> and \<^verbatim>\<open>fclose\<close> succeed, how many bytes an \<^verbatim>\<open>fwrite\<close> takes, and whether
  reading past the last readable byte is the end of the file or a read error. An access outside a buffer
  is \<^term>\<open>None\<close>.
\<close>

section \<open>stdio\<close>

record rstream =
  rf_data :: "u8 list"
  rf_fails :: bool
  rf_eof :: bool

text \<open>\<^verbatim>\<open>fread\<close> of \<open>n\<close> bytes into a buffer of \<open>cap\<close> bytes.\<close>

definition fread :: "nat \<Rightarrow> nat \<Rightarrow> rstream \<Rightarrow> (u8 list \<times> rstream) option" where
  "fread cap n s =
     (if cap < n then None
      else Some (take n (rf_data s), s\<lparr>rf_data := drop n (rf_data s), rf_eof := rf_eof s \<or> (length (rf_data s) < n \<and> \<not> rf_fails s)\<rparr>))"

definition fwrite :: "nat \<Rightarrow> u8 list \<Rightarrow> u8 list \<Rightarrow> nat \<times> u8 list" where
  "fwrite took bs f = (min took (length bs), f @ take took bs)"

section \<open>Records and the file format\<close>

record Record =
  rec_ts :: Nanos
  rec_payload :: "u8 list"

definition kCaptureHeaderSize :: nat where "kCaptureHeaderSize = 16"
definition kCaptureRecordHeaderSize :: nat where "kCaptureRecordHeaderSize = 10"
definition kCaptureMaxPayload :: nat where "kCaptureMaxPayload = 4096"
definition kCaptureVersion :: u32 where "kCaptureVersion = 1"

definition kCaptureMagic :: "u8 list" where
  "kCaptureMagic = map asc ''OTCAP001''"

section \<open>class CaptureWriter\<close>

record CaptureWriter =
  cw_file :: bool
  cw_ok :: bool
  cw_records :: u64
  cw_out :: "u8 list"

definition CaptureWriter_new :: "bool \<Rightarrow> nat \<Rightarrow> CaptureWriter option" where
  "CaptureWriter_new opened took =
     (let w = \<lparr>cw_file = opened, cw_ok = False, cw_records = 0, cw_out = []\<rparr> in
      if \<not> opened then Some w
      else do {
        let hdr = replicate kCaptureHeaderSize 0;
        hdr \<leftarrow> wr_bytes hdr 0 kCaptureMagic;
        hdr \<leftarrow> le_store32 hdr 8 kCaptureVersion;
        let (n, f) = fwrite took hdr (cw_out w);
        Some (w\<lparr>cw_ok := (n = length hdr), cw_out := f\<rparr>) })"

definition writer_ok :: "CaptureWriter \<Rightarrow> bool" where
  "writer_ok w \<longleftrightarrow> cw_file w \<and> cw_ok w"

definition capture_write :: "Nanos \<Rightarrow> u8 list \<Rightarrow> nat \<Rightarrow> nat \<Rightarrow> CaptureWriter \<Rightarrow> (bool \<times> CaptureWriter) option" where
  "capture_write ts payload took1 took2 w =
     (if \<not> writer_ok w \<or> payload = [] \<or> length payload > kCaptureMaxPayload then Some (False, w)
      else do {
        let hdr = replicate kCaptureRecordHeaderSize 0;
        hdr \<leftarrow> le_store64 hdr 0 ts;
        hdr \<leftarrow> le_store16 hdr 8 (of_nat (length payload));
        let (n, f) = fwrite took1 hdr (cw_out w);
        if n \<noteq> length hdr then Some (False, w\<lparr>cw_out := f, cw_ok := False\<rparr>)
        else do {
          let (n, f) = fwrite took2 payload f;
          if n \<noteq> length payload then Some (False, w\<lparr>cw_out := f, cw_ok := False\<rparr>)
          else Some (True, w\<lparr>cw_out := f, cw_records := cw_records w + 1\<rparr>) } })"

definition capture_close :: "bool \<Rightarrow> bool \<Rightarrow> CaptureWriter \<Rightarrow> bool \<times> CaptureWriter" where
  "capture_close flushed closed w =
     (let w = (if cw_file w then w\<lparr>cw_file := False, cw_ok := cw_ok w \<and> flushed \<and> closed\<rparr> else w) in
      (cw_ok w, w))"

section \<open>class CaptureReader\<close>

record CaptureReader =
  cr_file :: "rstream option"
  cr_header_ok :: bool
  cr_error :: DecodeStatus
  cr_records :: u64

definition CaptureReader_new :: "rstream option \<Rightarrow> CaptureReader option" where
  "CaptureReader_new file =
     (let r = \<lparr>cr_file = file, cr_header_ok = False, cr_error = DS_ok, cr_records = 0\<rparr> in
      case file of None \<Rightarrow> Some (r\<lparr>cr_error := DS_truncated\<rparr>)
      | Some s \<Rightarrow> do {
          (hdr, s) \<leftarrow> fread kCaptureHeaderSize kCaptureHeaderSize s;
          let r = r\<lparr>cr_file := Some s\<rparr>;
          if length hdr \<noteq> kCaptureHeaderSize then Some (r\<lparr>cr_error := DS_truncated\<rparr>)
          else do {
            magic \<leftarrow> rd_bytes hdr 0 (length kCaptureMagic);
            if magic \<noteq> kCaptureMagic then Some (r\<lparr>cr_error := DS_unknown_type\<rparr>)
            else do {
              version \<leftarrow> le_load32 hdr 8;
              if version \<noteq> kCaptureVersion then Some (r\<lparr>cr_error := DS_bad_field\<rparr>)
              else Some (r\<lparr>cr_header_ok := True\<rparr>) } } })"

definition capture_fail :: "DecodeStatus \<Rightarrow> CaptureReader \<Rightarrow> (Record option \<times> CaptureReader) option" where
  "capture_fail st r = Some (None, r\<lparr>cr_error := st\<rparr>)"

definition capture_next :: "CaptureReader \<Rightarrow> (Record option \<times> CaptureReader) option" where
  "capture_next r =
     (if \<not> cr_header_ok r \<or> cr_error r \<noteq> DS_ok then Some (None, r)
      else do {
        s \<leftarrow> cr_file r;
        (hdr, s) \<leftarrow> fread kCaptureRecordHeaderSize kCaptureRecordHeaderSize s;
        let r = r\<lparr>cr_file := Some s\<rparr>;
        if length hdr = 0 \<and> rf_eof s then Some (None, r)
        else if length hdr \<noteq> kCaptureRecordHeaderSize then capture_fail DS_truncated r
        else do {
          len \<leftarrow> map_option unat (le_load16 hdr 8);
          if len = 0 \<or> len > kCaptureMaxPayload then capture_fail DS_bad_length r
          else do {
            (payload, s) \<leftarrow> fread kCaptureMaxPayload len s;
            let r = r\<lparr>cr_file := Some s\<rparr>;
            if length payload \<noteq> len then capture_fail DS_truncated r
            else do {
              ts \<leftarrow> le_load64 hdr 0;
              Some (Some \<lparr>rec_ts = ts, rec_payload = payload\<rparr>, r\<lparr>cr_records := cr_records r + 1\<rparr>) } } } })"

section \<open>class ItchFileReader\<close>

record ItchFileReader =
  ir_file :: "rstream option"
  ir_error :: DecodeStatus
  ir_records :: u64
  ir_last_ts :: Nanos

definition kMaxFrame :: nat where "kMaxFrame = 0xFFFF"

definition ItchFileReader_new :: "rstream option \<Rightarrow> ItchFileReader" where
  "ItchFileReader_new file = \<lparr>ir_file = file, ir_error = (if file = None then DS_truncated else DS_ok), ir_records = 0, ir_last_ts = 0\<rparr>"

definition itch_file_fail :: "ItchFileReader \<Rightarrow> (Record option \<times> ItchFileReader) option" where
  "itch_file_fail r = Some (None, r\<lparr>ir_error := DS_truncated\<rparr>)"

partial_function (option) itch_file_loop :: "ItchFileReader \<Rightarrow> (Record option \<times> ItchFileReader) option" where
  "itch_file_loop r =
     (case ir_file r of None \<Rightarrow> None
      | Some s \<Rightarrow> (case fread 2 2 s of None \<Rightarrow> None
        | Some (hdr, s) \<Rightarrow>
          (let r = r\<lparr>ir_file := Some s\<rparr> in
           if length hdr = 0 \<and> rf_eof s then Some (None, r)
           else if length hdr \<noteq> 2 then itch_file_fail r
           else (case map_option unat (be_load16 hdr 0) of None \<Rightarrow> None
             | Some len \<Rightarrow>
               if len = 0 then itch_file_loop r
               else (case fread kMaxFrame len s of None \<Rightarrow> None
                 | Some (payload, s) \<Rightarrow>
                   (let r = r\<lparr>ir_file := Some s\<rparr> in
                    if length payload \<noteq> len then itch_file_fail r
                    else (case (if len \<ge> 11 then be_load48 payload 5 else Some (ir_last_ts r)) of None \<Rightarrow> None
                      | Some ts \<Rightarrow> Some (Some \<lparr>rec_ts = ts, rec_payload = payload\<rparr>,
                          r\<lparr>ir_last_ts := ts, ir_records := ir_records r + 1\<rparr>))))))))"

definition itch_file_next :: "ItchFileReader \<Rightarrow> (Record option \<times> ItchFileReader) option" where
  "itch_file_next r = (if ir_file r = None \<or> ir_error r \<noteq> DS_ok then Some (None, r) else itch_file_loop r)"

section \<open>class MemorySource\<close>

record SourceEntry =
  en_ts :: Nanos
  en_offset :: nat
  en_length :: nat

record MemorySource =
  ms_entries :: "SourceEntry list"
  ms_arena :: "u8 list"
  ms_cursor :: nat

definition MemorySource_new :: MemorySource where
  "MemorySource_new = \<lparr>ms_entries = [], ms_arena = [], ms_cursor = 0\<rparr>"

definition memory_add :: "Nanos \<Rightarrow> u8 list \<Rightarrow> MemorySource \<Rightarrow> MemorySource" where
  "memory_add ts payload s =
     (let s = s\<lparr>ms_entries := ms_entries s @ [\<lparr>en_ts = ts, en_offset = length (ms_arena s), en_length = length payload\<rparr>]\<rparr> in
      s\<lparr>ms_arena := ms_arena s @ payload\<rparr>)"

definition memory_next :: "MemorySource \<Rightarrow> (Record option \<times> MemorySource) option" where
  "memory_next s =
     (if ms_cursor s \<ge> length (ms_entries s) then Some (None, s)
      else do {
        let e = ms_entries s ! ms_cursor s;
        let s = s\<lparr>ms_cursor := ms_cursor s + 1\<rparr>;
        payload \<leftarrow> rd_bytes (ms_arena s) (en_offset e) (en_length e);
        Some (Some \<lparr>rec_ts = en_ts e, rec_payload = payload\<rparr>, s) })"

definition memory_rewind :: "MemorySource \<Rightarrow> MemorySource" where
  "memory_rewind s = s\<lparr>ms_cursor := 0\<rparr>"

definition memory_size :: "MemorySource \<Rightarrow> nat" where
  "memory_size s = length (ms_entries s)"

section \<open>Sources\<close>

text \<open>
  The concept \<^verbatim>\<open>RecordSource\<close>: a client calls \<^verbatim>\<open>next\<close> until it returns false. \<open>drain\<close> is that loop, and the
  contract of a source is that each call returns and each record uses up some of a finite stock.
\<close>

partial_function (option) drain :: "('s \<Rightarrow> (Record option \<times> 's) option) \<Rightarrow> 's \<Rightarrow> (Record list \<times> 's) option" where
  "drain nxt s =
     Option.bind (nxt s) (\<lambda>(r, s).
       case r of None \<Rightarrow> Some ([], s)
       | Some x \<Rightarrow> Option.bind (drain nxt s) (\<lambda>(rs, s). Some (x # rs, s)))"

lemma drain_end: "nxt s = Some (None, s') \<Longrightarrow> drain nxt s = Some ([], s')"
  by (subst drain.simps) simp

lemma drain_record: "nxt s = Some (Some r, s') \<Longrightarrow> drain nxt s' = Some (rs, s'') \<Longrightarrow> drain nxt s = Some (r # rs, s'')"
  by (subst drain.simps) simp

locale record_source =
  fixes nxt :: "'s \<Rightarrow> (Record option \<times> 's) option"
    and wf :: "'s \<Rightarrow> bool"
    and left :: "'s \<Rightarrow> nat"
  assumes next_returns: "wf s \<Longrightarrow> \<exists>r s'. nxt s = Some (r, s') \<and> wf s' \<and> (r \<noteq> None \<longrightarrow> left s' < left s)"
begin

lemma drain_returns:
  assumes "wf s"
  shows "\<exists>rs s'. drain nxt s = Some (rs, s') \<and> wf s' \<and> length rs \<le> left s"
  using assms
proof (induction "left s" arbitrary: s rule: less_induct)
  case less
  obtain r s' where n: "nxt s = Some (r, s')" "wf s'" "r \<noteq> None \<longrightarrow> left s' < left s"
    using next_returns [OF less.prems] by blast
  show ?case
  proof (cases r)
    case None
    then show ?thesis using n drain_end [of nxt s s'] by simp
  next
    case (Some x)
    then obtain rs s'' where "drain nxt s' = Some (rs, s'')" "wf s''" "length rs \<le> left s'" "left s' < left s"
      using less.hyps [of s'] n by auto
    then show ?thesis using drain_record [of nxt s x s' rs s''] n(1) Some by simp
  qed
qed

end

section \<open>The capture file format\<close>

definition record_bytes :: "Record \<Rightarrow> u8 list" where
  "record_bytes r = le_bytes64 (rec_ts r) @ le_bytes16 (of_nat (length (rec_payload r))) @ rec_payload r"

definition header_bytes :: "u8 list" where
  "header_bytes = kCaptureMagic @ le_bytes32 kCaptureVersion @ [0, 0, 0, 0]"

definition capture_bytes :: "Record list \<Rightarrow> u8 list" where
  "capture_bytes rs = header_bytes @ concat (map record_bytes rs)"

definition valid_record :: "Record \<Rightarrow> bool" where
  "valid_record r \<longleftrightarrow> rec_payload r \<noteq> [] \<and> length (rec_payload r) \<le> kCaptureMaxPayload"

lemmas capture_sizes = kCaptureHeaderSize_def kCaptureRecordHeaderSize_def kCaptureMaxPayload_def

lemma length_record_bytes: "length (record_bytes r) = 10 + length (rec_payload r)"
  by (simp add: record_bytes_def)

lemma record_bytes_nonempty [simp]: "record_bytes r \<noteq> []"
  using length_record_bytes [of r] by auto

lemma length_capture_header: "length header_bytes = 16"
  by (simp add: header_bytes_def kCaptureMagic_def)

lemma wr_bytes_prefix: "wr_bytes (bs @ replicate (length xs + n) 0) (length bs) xs = Some ((bs @ xs) @ replicate n 0)"
  by (simp add: wr_bytes_def blit_def)

lemma writer_header:
  "wr_bytes (replicate kCaptureHeaderSize 0) 0 kCaptureMagic = Some (kCaptureMagic @ replicate 8 0)"
  "le_store32 (kCaptureMagic @ replicate 8 0) 8 kCaptureVersion = Some header_bytes"
  using wr_bytes_prefix [of "[]" kCaptureMagic 8] wr_bytes_prefix [of kCaptureMagic "le_bytes32 kCaptureVersion" 4]
  by (simp_all add: capture_sizes header_bytes_def kCaptureMagic_def numeral_eq_Suc mem_simps)

lemma writer_record_header:
  "le_store64 (replicate kCaptureRecordHeaderSize 0) 0 ts = Some (le_bytes64 ts @ replicate 2 0)"
  "le_store16 (le_bytes64 ts @ replicate 2 0) 8 n = Some (le_bytes64 ts @ le_bytes16 n)"
  using wr_bytes_prefix [of "[]" "le_bytes64 ts" 2] wr_bytes_prefix [of "le_bytes64 ts" "le_bytes16 n" 0]
  by (simp_all add: capture_sizes mem_simps)

section \<open>A writer that closes without an error wrote its records\<close>

text \<open>A session: the writes in order, each with the number of bytes its two \<^verbatim>\<open>fwrite\<close>s take.\<close>

primrec write_all :: "(Record \<times> nat \<times> nat) list \<Rightarrow> CaptureWriter \<Rightarrow> CaptureWriter option" where
  "write_all [] w = Some w"
| "write_all (x # xs) w = do {
     (done, w) \<leftarrow> capture_write (rec_ts (fst x)) (rec_payload (fst x)) (fst (snd x)) (snd (snd x)) w;
     write_all xs w }"

lemma capture_write_cases:
  "capture_write ts payload took1 took2 w =
     (if \<not> writer_ok w \<or> \<not> valid_record \<lparr>rec_ts = ts, rec_payload = payload\<rparr> then Some (False, w)
      else if took1 < 10 then Some (False, w\<lparr>cw_out := cw_out w @ take took1 (le_bytes64 ts @ le_bytes16 (of_nat (length payload))), cw_ok := False\<rparr>)
      else if took2 < length payload then Some (False, w\<lparr>cw_out := cw_out w @ le_bytes64 ts @ le_bytes16 (of_nat (length payload)) @ take took2 payload, cw_ok := False\<rparr>)
      else Some (True, w\<lparr>cw_out := cw_out w @ record_bytes \<lparr>rec_ts = ts, rec_payload = payload\<rparr>, cw_records := cw_records w + 1\<rparr>))"
  by (auto simp: capture_write_def valid_record_def fwrite_def Let_def record_bytes_def writer_record_header min_def not_less)

lemma capture_write_bad: "\<not> cw_ok w \<Longrightarrow> capture_write ts p a b w = Some (False, w)"
  by (simp add: capture_write_cases writer_ok_def)

lemma write_all_bad: "\<not> cw_ok w \<Longrightarrow> write_all xs w = Some w"
  by (induction xs) (simp_all add: capture_write_bad)

lemma write_all_returns: "\<exists>w'. write_all xs w = Some w'"
  by (induction xs arbitrary: w) (auto simp: capture_write_cases)

lemma write_all_out:
  assumes "write_all xs w = Some w'" "cw_ok w'" "cw_file w"
  shows "cw_out w' = cw_out w @ concat (map record_bytes (filter valid_record (map fst xs))) \<and>
    cw_records w' = cw_records w + of_nat (length (filter valid_record (map fst xs))) \<and> cw_file w'"
  using assms
proof (induction xs arbitrary: w)
  case (Cons x xs)
  obtain d w1 where w1: "capture_write (rec_ts (fst x)) (rec_payload (fst x)) (fst (snd x)) (snd (snd x)) w = Some (d, w1)" "write_all xs w1 = Some w'"
    using Cons.prems(1) by (auto simp: bind_eq_Some_conv)
  have ok: "cw_ok w1" "cw_ok w" using Cons.prems(2) w1 write_all_bad [of w1 xs] capture_write_bad [of w] by fastforce+
  have f: "cw_file w1" using w1(1) Cons.prems(3) by (auto simp: capture_write_cases split: if_splits)
  have "cw_out w1 = cw_out w @ (if valid_record (fst x) then record_bytes (fst x) else []) \<and>
      cw_records w1 = cw_records w + (if valid_record (fst x) then 1 else 0)"
    using w1(1) ok Cons.prems(3) by (cases "fst x") (auto simp: capture_write_cases writer_ok_def split: if_splits)
  then show ?case using Cons.IH [OF w1(2) Cons.prems(2) f] by simp
qed simp

section \<open>The sources keep the contract\<close>

definition stock :: "rstream option \<Rightarrow> nat" where
  "stock file = (case file of None \<Rightarrow> 0 | Some s \<Rightarrow> length (rf_data s))"

lemma le_load_total:
  "i + 1 < length p \<Longrightarrow> \<exists>v. le_load16 p i = Some v"
  "i + 7 < length p \<Longrightarrow> \<exists>v. le_load64 p i = Some v"
  "i + 3 < length p \<Longrightarrow> \<exists>v. le_load32 p i = Some v"
  by (simp_all add: le_load16_def le_load32_def le_load64_def rd8_def)

lemma be_load_total:
  "i + 1 < length p \<Longrightarrow> \<exists>v. be_load16 p i = Some v"
  "i + 5 < length p \<Longrightarrow> \<exists>v. be_load48 p i = Some v"
  by (simp_all add: be_load16_def be_load32_def be_load48_def rd8_def)

definition capture_wf :: "CaptureReader \<Rightarrow> bool" where
  "capture_wf r \<longleftrightarrow> (cr_header_ok r \<longrightarrow> cr_file r \<noteq> None)"

lemma capture_next_returns:
  assumes "capture_wf r"
  shows "\<exists>x r'. capture_next r = Some (x, r') \<and> capture_wf r' \<and> (x \<noteq> None \<longrightarrow> stock (cr_file r') < stock (cr_file r))"
proof (cases "cr_header_ok r \<and> cr_error r = DS_ok")
  case True
  then obtain s where s: "cr_file r = Some s" using assms by (auto simp: capture_wf_def)
  show ?thesis
  proof (cases "10 \<le> length (rf_data s)")
    case long: True
    define hdr where "hdr = take 10 (rf_data s)"
    have hdr: "length hdr = 10" using long by (simp add: hdr_def)
    obtain n ts where l: "le_load16 hdr 8 = Some n" "le_load64 hdr 0 = Some ts" using le_load_total [of _ hdr] hdr by fastforce
    show ?thesis using True s hdr l
      by (auto simp: capture_next_def fread_def capture_sizes hdr_def [symmetric] Let_def capture_fail_def capture_wf_def stock_def)
  qed (use True s in \<open>auto simp: capture_next_def fread_def capture_sizes Let_def capture_fail_def capture_wf_def\<close>)
qed (use assms in \<open>auto simp: capture_next_def\<close>)

interpretation capture_src: record_source capture_next capture_wf "\<lambda>r. stock (cr_file r)"
  by unfold_locales (rule capture_next_returns)

definition memory_wf :: "MemorySource \<Rightarrow> bool" where
  "memory_wf s \<longleftrightarrow> (\<forall>e \<in> set (ms_entries s). en_offset e + en_length e \<le> length (ms_arena s))"

lemma memory_new_wf: "memory_wf MemorySource_new"
  by (simp add: memory_wf_def MemorySource_new_def)

lemma memory_add_wf: "memory_wf s \<Longrightarrow> memory_wf (memory_add ts p s)"
  by (auto simp: memory_wf_def memory_add_def Let_def trans_le_add1)

lemma memory_next_eq:
  assumes "memory_wf s" "ms_cursor s < length (ms_entries s)"
  shows "memory_next s = Some (Some \<lparr>rec_ts = en_ts (ms_entries s ! ms_cursor s),
    rec_payload = take (en_length (ms_entries s ! ms_cursor s)) (drop (en_offset (ms_entries s ! ms_cursor s)) (ms_arena s))\<rparr>,
    s\<lparr>ms_cursor := ms_cursor s + 1\<rparr>)"
  using assms by (simp add: memory_next_def memory_wf_def rd_bytes_ok Let_def not_le)

interpretation memory_src: record_source memory_next memory_wf "\<lambda>s. length (ms_entries s) - ms_cursor s"
proof
  fix s assume wf: "memory_wf s"
  show "\<exists>r s'. memory_next s = Some (r, s') \<and> memory_wf s' \<and> (r \<noteq> None \<longrightarrow> length (ms_entries s') - ms_cursor s' < length (ms_entries s) - ms_cursor s)"
  proof (cases "ms_cursor s < length (ms_entries s)")
    case True
    then show ?thesis using memory_next_eq [OF wf True] wf by (simp add: memory_wf_def diff_less_mono2)
  qed (use wf in \<open>simp add: memory_next_def\<close>)
qed

lemma itch_file_loop_returns:
  assumes "ir_file r = Some s"
  shows "\<exists>x r'. itch_file_loop r = Some (x, r') \<and> ir_file r' \<noteq> None \<and> (x \<noteq> None \<longrightarrow> stock (ir_file r') < stock (ir_file r))"
  using assms
proof (induction "length (rf_data s)" arbitrary: r s rule: less_induct)
  case less
  show ?case
  proof (cases "2 \<le> length (rf_data s)")
    case False
    then show ?thesis using less.prems by (subst itch_file_loop.simps) (auto simp: fread_def Let_def itch_file_fail_def)
  next
    case True
    define hdr where "hdr = take 2 (rf_data s)"
    have hdr: "length hdr = 2" using True by (simp add: hdr_def)
    obtain n where l: "be_load16 hdr 0 = Some n" using be_load_total(1) [of 0 hdr] hdr by auto
    define s1 where "s1 = s\<lparr>rf_data := drop 2 (rf_data s), rf_eof := rf_eof s\<rparr>"
    show ?thesis
    proof (cases "n = 0")
      case z: True
      have "\<exists>x r'. itch_file_loop (r\<lparr>ir_file := Some s1\<rparr>) = Some (x, r') \<and> ir_file r' \<noteq> None \<and>
          (x \<noteq> None \<longrightarrow> stock (ir_file r') < stock (ir_file (r\<lparr>ir_file := Some s1\<rparr>)))"
        by (rule less.hyps [of s1]) (use True in \<open>simp_all add: s1_def\<close>)
      moreover have "itch_file_loop r = itch_file_loop (r\<lparr>ir_file := Some s1\<rparr>)"
        using less.prems hdr l z True by (subst itch_file_loop.simps) (auto simp: fread_def Let_def hdr_def [symmetric] s1_def not_less)
      moreover have "stock (ir_file (r\<lparr>ir_file := Some s1\<rparr>)) \<le> stock (ir_file r)" using less.prems by (simp add: stock_def s1_def)
      ultimately show ?thesis by force
    next
      case nz: False
      have cap: "\<not> kMaxFrame < unat n" using unsigned_less [of n, where ?'a = nat] by (simp add: kMaxFrame_def)
      define p where "p = take (unat n) (drop 2 (rf_data s))"
      have ts: "\<exists>ts. be_load48 p 5 = Some ts" if "length p = unat n" "11 \<le> unat n" using be_load_total(2) [of 5 p] that by simp
      show ?thesis
      proof (cases "length p = unat n \<and> 11 \<le> unat n")
        case full: True
        then obtain v where v: "be_load48 p 5 = Some v" using ts by blast
        show ?thesis
          using less.prems hdr l nz cap True full v
          by (subst itch_file_loop.simps)
            (simp add: fread_def Let_def hdr_def [symmetric] p_def [symmetric] itch_file_fail_def stock_def unat_eq_0 not_less; auto simp: p_def)
      next
        case part: False
        show ?thesis
          using less.prems hdr l nz cap True part
          by (subst itch_file_loop.simps)
            (simp add: fread_def Let_def hdr_def [symmetric] p_def [symmetric] itch_file_fail_def stock_def unat_eq_0 not_less; auto simp: p_def)
      qed
    qed
  qed
qed

interpretation itch_file_src: record_source itch_file_next "\<lambda>r. True" "\<lambda>r. stock (ir_file r)"
proof
  fix r :: ItchFileReader
  show "\<exists>x r'. itch_file_next r = Some (x, r') \<and> True \<and> (x \<noteq> None \<longrightarrow> stock (ir_file r') < stock (ir_file r))"
    using itch_file_loop_returns [of r] by (cases "ir_file r") (auto simp: itch_file_next_def)
qed

section \<open>Reading what was written, cut anywhere\<close>

text \<open>The records that lie wholly in the first \<open>k\<close> bytes, and whether those bytes end with a record.\<close>

primrec whole :: "Record list \<Rightarrow> nat \<Rightarrow> Record list" where
  "whole [] k = []"
| "whole (r # rs) k = (if length (record_bytes r) \<le> k then r # whole rs (k - length (record_bytes r)) else [])"

primrec on_boundary :: "Record list \<Rightarrow> nat \<Rightarrow> bool" where
  "on_boundary [] k = True"
| "on_boundary (r # rs) k = (if length (record_bytes r) \<le> k then on_boundary rs (k - length (record_bytes r)) else k = 0)"

lemma whole_all: "length (concat (map record_bytes rs)) \<le> k \<Longrightarrow> whole rs k = rs \<and> on_boundary rs k"
  by (induction rs arbitrary: k) auto

definition reading :: "CaptureReader \<Rightarrow> u8 list \<Rightarrow> bool \<Rightarrow> bool" where
  "reading r bs fails \<longleftrightarrow> cr_header_ok r \<and> cr_error r = DS_ok \<and> cr_file r = Some \<lparr>rf_data = bs, rf_fails = fails, rf_eof = False\<rparr>"

lemma record_bytes_load:
  assumes "valid_record x"
  shows "le_load16 (take 10 (record_bytes x)) 8 = Some (of_nat (length (rec_payload x)))"
    "le_load64 (take 10 (record_bytes x)) 0 = Some (rec_ts x)" "unat (of_nat (length (rec_payload x)) :: u16) = length (rec_payload x)"
  using assms by (auto intro!: le_load16_block le_load64_block simp: record_bytes_def rd_bytes_def valid_record_def capture_sizes unat_of_nat)

lemma capture_next_record:
  assumes "reading r (record_bytes x @ bs) fails" "valid_record x"
  shows "\<exists>r'. capture_next r = Some (Some x, r') \<and> reading r' bs fails \<and> cr_records r' = cr_records r + 1"
proof -
  have t: "take 10 (record_bytes x @ bs) = take 10 (record_bytes x)" "drop 10 (record_bytes x @ bs) = rec_payload x @ bs"
    by (simp_all add: record_bytes_def)
  then show ?thesis using assms record_bytes_load [OF assms(2)]
    by (simp add: capture_next_def reading_def fread_def capture_sizes length_record_bytes valid_record_def Let_def)
qed

lemma capture_next_cut:
  assumes "reading r (take k (record_bytes x)) fails" "valid_record x" "k < length (record_bytes x)" "k = 0 \<longrightarrow> fails"
  shows "\<exists>r'. capture_next r = Some (None, r') \<and> cr_error r' = DS_truncated \<and> cr_records r' = cr_records r"
proof (cases "k < 10")
  case True
  then show ?thesis using assms
    by (auto simp: capture_next_def reading_def fread_def capture_sizes length_record_bytes Let_def capture_fail_def)
next
  case False
  then have t: "take 10 (take k (record_bytes x)) = take 10 (record_bytes x)" "drop 10 (take k (record_bytes x)) = take (k - 10) (rec_payload x)"
    by (simp_all add: min_def record_bytes_def)
  show ?thesis using assms False record_bytes_load [OF assms(2)]
    by (auto simp: capture_next_def reading_def fread_def capture_sizes t length_record_bytes valid_record_def Let_def capture_fail_def min_def)
qed

lemma capture_next_end:
  assumes "reading r [] fails"
  shows "\<exists>r'. capture_next r = Some (None, r') \<and> cr_error r' = (if fails then DS_truncated else DS_ok) \<and> cr_records r' = cr_records r"
  using assms by (auto simp: capture_next_def reading_def fread_def capture_sizes Let_def capture_fail_def)

lemma drain_capture:
  assumes "reading r (take k (concat (map record_bytes rs))) fails" "\<forall>x \<in> set rs. valid_record x"
  shows "\<exists>r'. drain capture_next r = Some (whole rs k, r') \<and> cr_error r' = (if on_boundary rs k \<and> \<not> fails then DS_ok else DS_truncated) \<and>
    cr_records r' = cr_records r + of_nat (length (whole rs k))"
  using assms
proof (induction rs arbitrary: r k)
  case Nil
  then show ?case using capture_next_end [of r fails] drain_end [of capture_next r] by auto
next
  case (Cons x rs)
  let ?n = "length (record_bytes x)"
  show ?case
  proof (cases "?n \<le> k")
    case True
    then have "reading r (record_bytes x @ take (k - ?n) (concat (map record_bytes rs))) fails" using Cons.prems(1) by simp
    from capture_next_record [OF this] Cons.prems(2) obtain r1 where r1: "capture_next r = Some (Some x, r1)"
      "reading r1 (take (k - ?n) (concat (map record_bytes rs))) fails" "cr_records r1 = cr_records r + 1" by auto
    from Cons.IH [OF r1(2)] Cons.prems(2) obtain r2 where "drain capture_next r1 = Some (whole rs (k - ?n), r2)"
      "cr_error r2 = (if on_boundary rs (k - ?n) \<and> \<not> fails then DS_ok else DS_truncated)" "cr_records r2 = cr_records r1 + of_nat (length (whole rs (k - ?n)))" by auto
    then show ?thesis using True r1 drain_record [of capture_next r x r1] by simp
  next
    case False
    then have "reading r (take k (record_bytes x)) fails" using Cons.prems(1) by simp
    then have "\<exists>r1. capture_next r = Some (None, r1) \<and> cr_error r1 = (if k = 0 \<and> \<not> fails then DS_ok else DS_truncated) \<and> cr_records r1 = cr_records r"
      using capture_next_cut [of r k x fails] capture_next_end [of r fails] Cons.prems(2) False by (cases "k = 0 \<and> \<not> fails") auto
    then show ?thesis using False drain_end [of capture_next r] by auto
  qed
qed

lemma CaptureReader_new_header:
  assumes "k < 16"
  shows "\<exists>r. CaptureReader_new (Some \<lparr>rf_data = take k (capture_bytes rs), rf_fails = fails, rf_eof = False\<rparr>) = Some r \<and>
    \<not> cr_header_ok r \<and> cr_error r = DS_truncated"
  using assms by (simp add: CaptureReader_new_def fread_def capture_sizes capture_bytes_def length_capture_header min_def)

lemma CaptureReader_new_reading:
  "\<exists>r. CaptureReader_new (Some \<lparr>rf_data = header_bytes @ bs, rf_fails = fails, rf_eof = False\<rparr>) = Some r \<and> reading r bs fails \<and> cr_records r = 0"
proof -
  have "length kCaptureMagic = 8" by (simp add: kCaptureMagic_def)
  then have "rd_bytes header_bytes 0 8 = Some kCaptureMagic" "le_load32 header_bytes 8 = Some kCaptureVersion"
    by (auto intro!: le_load32_block simp: header_bytes_def rd_bytes_def)
  then show ?thesis using \<open>length kCaptureMagic = 8\<close>
    by (simp add: CaptureReader_new_def fread_def capture_sizes length_capture_header reading_def Let_def)
qed

text \<open>
  Claim C36: capture files survive truncation. Whatever the operating system does to a session of
  \<^verbatim>\<open>CaptureWriter\<close>, if \<^verbatim>\<open>close()\<close> returns true then the file is the header and the valid records in order, and
  nothing else. A reader of the first \<open>k\<close> bytes of that file returns, always, exactly the records that lie
  wholly in them; \<^verbatim>\<open>error()\<close> is ok if and only if the cut falls on a record boundary and no read failed, and
  truncated otherwise. If the cut is in the header the reader is not ok.
\<close>

theorem capture_file_round_trip:
  assumes "CaptureWriter_new opened took = Some w0" "write_all xs w0 = Some w1" "capture_close flushed closed w1 = (True, w)"
  defines "rs \<equiv> filter valid_record (map fst xs)"
  shows "cw_out w = capture_bytes rs \<and> cw_records w = of_nat (length rs) \<and>
    (\<forall>k fails. \<exists>r. CaptureReader_new (Some \<lparr>rf_data = take k (cw_out w), rf_fails = fails, rf_eof = False\<rparr>) = Some r \<and>
       (if k < 16 then \<not> cr_header_ok r \<and> cr_error r = DS_truncated
        else \<exists>r'. drain capture_next r = Some (whole rs (k - 16), r') \<and> cr_records r' = of_nat (length (whole rs (k - 16))) \<and>
          cr_error r' = (if on_boundary rs (k - 16) \<and> \<not> fails then DS_ok else DS_truncated)))"
proof -
  have ok: "cw_ok w1" "cw_out w = cw_out w1" "cw_records w = cw_records w1" using assms(3) by (auto simp: capture_close_def Let_def split: if_splits)
  then have "cw_ok w0" using write_all_bad [of w0 xs] assms(2) by auto
  then have w0: "cw_file w0" "cw_out w0 = header_bytes" "cw_records w0 = 0"
    using assms(1) by (auto simp: CaptureWriter_new_def Let_def writer_header fwrite_def min_def split: if_splits)
  have out: "cw_out w = capture_bytes rs" "cw_records w = of_nat (length rs)"
    using write_all_out [OF assms(2) ok(1) w0(1)] w0 ok by (simp_all add: capture_bytes_def rs_def)
  have "\<exists>r. CaptureReader_new (Some \<lparr>rf_data = take k (capture_bytes rs), rf_fails = fails, rf_eof = False\<rparr>) = Some r \<and>
      (\<exists>r'. drain capture_next r = Some (whole rs (k - 16), r') \<and> cr_records r' = of_nat (length (whole rs (k - 16))) \<and>
          cr_error r' = (if on_boundary rs (k - 16) \<and> \<not> fails then DS_ok else DS_truncated))" if "16 \<le> k" for k fails
  proof -
    obtain r where r: "CaptureReader_new (Some \<lparr>rf_data = header_bytes @ take (k - 16) (concat (map record_bytes rs)), rf_fails = fails, rf_eof = False\<rparr>) = Some r"
      "reading r (take (k - 16) (concat (map record_bytes rs))) fails" "cr_records r = 0" using CaptureReader_new_reading by blast
    then show ?thesis using drain_capture [OF r(2)] that by (auto simp: rs_def capture_bytes_def length_capture_header)
  qed
  then have "\<exists>r. CaptureReader_new (Some \<lparr>rf_data = take k (cw_out w), rf_fails = fails, rf_eof = False\<rparr>) = Some r \<and>
       (if k < 16 then \<not> cr_header_ok r \<and> cr_error r = DS_truncated
        else \<exists>r'. drain capture_next r = Some (whole rs (k - 16), r') \<and> cr_records r' = of_nat (length (whole rs (k - 16))) \<and>
          cr_error r' = (if on_boundary rs (k - 16) \<and> \<not> fails then DS_ok else DS_truncated))" for k fails
    using CaptureReader_new_header [of k rs fails] by (cases "k < 16") (simp_all only: if_True if_False not_less [THEN iffD1] out(1))
  then show ?thesis using out by blast
qed

theorem capture_file_round_trip_witness:
  "let x = \<lparr>rec_ts = 5, rec_payload = [1, 2]\<rparr>; y = \<lparr>rec_ts = 9, rec_payload = [3]\<rparr>; e = \<lparr>rec_ts = 7, rec_payload = []\<rparr>;
     file = \<lparr>rf_data = take 30 (capture_bytes [x, y]), rf_fails = False, rf_eof = False\<rparr> in
   \<exists>r r'. CaptureReader_new (Some file) = Some r \<and> drain capture_next r = Some ([x], r') \<and> cr_error r' = DS_truncated"
proof -
  let ?x = "\<lparr>rec_ts = 5, rec_payload = [1, 2]\<rparr>" and ?y = "\<lparr>rec_ts = 9, rec_payload = [3]\<rparr>" and ?e = "\<lparr>rec_ts = 7, rec_payload = []\<rparr>"
  obtain w0 where w0: "CaptureWriter_new True 16 = Some w0" "cw_file w0" "cw_ok w0"
    by (auto simp: CaptureWriter_new_def Let_def writer_header fwrite_def length_capture_header)
  obtain w1 where w1: "write_all [(?x, 10, 2), (?e, 0, 0), (?y, 10, 1)] w0 = Some w1" "cw_file w1" "cw_ok w1"
    using w0 by (auto simp: capture_write_cases writer_ok_def valid_record_def capture_sizes)
  then have c: "capture_close True True w1 = (True, w1\<lparr>cw_file := False\<rparr>)" by (simp add: capture_close_def)
  have f: "filter valid_record (map fst [(?x, 10, 2), (?e, 0, 0), (?y, 10, 1)]) = [?x, ?y]" by (simp add: valid_record_def capture_sizes)
  have "whole [?x, ?y] 14 = [?x]" "\<not> on_boundary [?x, ?y] 14" by (simp_all add: length_record_bytes)
  then show ?thesis
    using capture_file_round_trip [OF w0(1) w1(1) c, unfolded f, THEN conjunct2, THEN conjunct2, rule_format, of 30 False]
      capture_file_round_trip [OF w0(1) w1(1) c, unfolded f, THEN conjunct1] by (auto simp: Let_def)
qed

section \<open>BinaryFILE files and the frame splitter\<close>

text \<open>The records of a list of frames: the empty ones are dropped, a short one keeps the last timestamp.\<close>

primrec stamped :: "Nanos \<Rightarrow> u8 list list \<Rightarrow> Record list" where
  "stamped t0 [] = []"
| "stamped t0 (m # ms) =
     (if m = [] then stamped t0 ms
      else let ts = (if 11 \<le> length m then the (be_load48 m 5) else t0) in \<lparr>rec_ts = ts, rec_payload = m\<rparr> # stamped ts ms)"

definition itch_reading :: "ItchFileReader \<Rightarrow> u8 list \<Rightarrow> bool \<Rightarrow> bool" where
  "itch_reading r bs fails \<longleftrightarrow> ir_error r = DS_ok \<and> ir_file r = Some \<lparr>rf_data = bs, rf_fails = fails, rf_eof = False\<rparr>"

lemma itch_next_short:
  assumes "itch_reading r bs fails" "length bs < 2"
  shows "\<exists>r'. itch_file_next r = Some (None, r') \<and> ir_error r' = (if bs = [] \<and> \<not> fails then DS_ok else DS_truncated) \<and> ir_records r' = ir_records r"
  using assms by (auto simp: itch_reading_def itch_file_next_def itch_file_loop.simps [of r] fread_def Let_def itch_file_fail_def)

lemma itch_next_frame:
  assumes "itch_reading r bs fails" "2 \<le> length bs" "be_load16 bs 0 = Some n"
  defines "m \<equiv> take (unat n) (drop 2 bs)"
  shows "n = 0 \<Longrightarrow> \<exists>r1. itch_file_next r = itch_file_next r1 \<and> itch_reading r1 (drop 2 bs) fails \<and> ir_last_ts r1 = ir_last_ts r \<and> ir_records r1 = ir_records r"
    and "n \<noteq> 0 \<Longrightarrow> length bs - 2 < unat n \<Longrightarrow> \<exists>r'. itch_file_next r = Some (None, r') \<and> ir_error r' = DS_truncated \<and> ir_records r' = ir_records r"
    and "n \<noteq> 0 \<Longrightarrow> unat n \<le> length bs - 2 \<Longrightarrow>
      \<exists>r'. itch_file_next r = Some (Some \<lparr>rec_ts = (if 11 \<le> length m then the (be_load48 m 5) else ir_last_ts r), rec_payload = m\<rparr>, r') \<and>
        itch_reading r' (drop (2 + unat n) bs) fails \<and> ir_records r' = ir_records r + 1 \<and>
        ir_last_ts r' = (if 11 \<le> length m then the (be_load48 m 5) else ir_last_ts r)"
proof -
  have hdr: "length (take 2 bs) = 2" using assms(2) by simp
  have l: "be_load16 (take 2 bs) 0 = Some n" using assms(2,3) by (auto simp: be_load16_def rd8_def split: if_splits)
  have cap: "\<not> kMaxFrame < unat n" using unsigned_less [of n, where ?'a = nat] by (simp add: kMaxFrame_def)
  have f: "fread 2 2 \<lparr>rf_data = bs, rf_fails = fails, rf_eof = False\<rparr> = Some (take 2 bs, \<lparr>rf_data = drop 2 bs, rf_fails = fails, rf_eof = False\<rparr>)"
    using assms(2) by (simp add: fread_def)
  define r1 where "r1 = r\<lparr>ir_file := Some \<lparr>rf_data = drop 2 bs, rf_fails = fails, rf_eof = False\<rparr>\<rparr>"
  have r1: "itch_reading r1 (drop 2 bs) fails" "ir_last_ts r1 = ir_last_ts r" "ir_records r1 = ir_records r"
    using assms(1) by (simp_all add: r1_def itch_reading_def)
  note step = itch_file_loop.simps [of r]
  show "\<exists>r1. itch_file_next r = itch_file_next r1 \<and> itch_reading r1 (drop 2 bs) fails \<and> ir_last_ts r1 = ir_last_ts r \<and> ir_records r1 = ir_records r" if "n = 0"
  proof -
    have "itch_file_loop r = itch_file_loop r1" using assms(1) hdr l that by (subst step) (simp add: itch_reading_def f Let_def r1_def)
    then show ?thesis using r1 assms(1) by (intro exI [of _ r1]) (simp add: itch_file_next_def itch_reading_def)
  qed
  show "\<exists>r'. itch_file_next r = Some (None, r') \<and> ir_error r' = DS_truncated \<and> ir_records r' = ir_records r" if "n \<noteq> 0" "length bs - 2 < unat n"
    using assms(1) hdr l cap that
    by (simp add: itch_file_next_def itch_reading_def step f Let_def unat_eq_0 fread_def [of kMaxFrame] itch_file_fail_def)
  show "\<exists>r'. itch_file_next r = Some (Some \<lparr>rec_ts = (if 11 \<le> length m then the (be_load48 m 5) else ir_last_ts r), rec_payload = m\<rparr>, r') \<and>
        itch_reading r' (drop (2 + unat n) bs) fails \<and> ir_records r' = ir_records r + 1 \<and>
        ir_last_ts r' = (if 11 \<le> length m then the (be_load48 m 5) else ir_last_ts r)" if "n \<noteq> 0" "unat n \<le> length bs - 2"
  proof -
    have m: "length m = unat n" using that(2) by (simp add: m_def)
    have "fread kMaxFrame (unat n) \<lparr>rf_data = drop 2 bs, rf_fails = fails, rf_eof = False\<rparr> =
        Some (m, \<lparr>rf_data = drop (2 + unat n) bs, rf_fails = fails, rf_eof = False\<rparr>)"
      using cap that(2) by (simp add: fread_def m_def add.commute)
    moreover obtain v where "11 \<le> unat n \<longrightarrow> be_load48 m 5 = Some v" using be_load_total(2) [of 5 m] m by fastforce
    ultimately show ?thesis using assms(1) hdr l that m
      by (cases "11 \<le> unat n") (simp_all add: itch_file_next_def itch_reading_def step f Let_def unat_eq_0)
  qed
qed

lemma drain_itch:
  assumes "itch_reading r bs fails"
  shows "\<exists>r'. drain itch_file_next r = Some (stamped (ir_last_ts r) (split_frames bs), r') \<and>
    ir_error r' = (if frames_size (split_frames bs) = length bs \<and> \<not> fails then DS_ok else DS_truncated)"
  using assms
proof (induction "length bs" arbitrary: r bs rule: less_induct)
  case less
  show ?case
  proof (cases "length bs < 2")
    case True
    then show ?thesis using itch_next_short [OF less.prems True] drain_end [of itch_file_next r] by auto
  next
    case False
    then have long: "2 \<le> length bs" by simp
    then obtain n where n: "be_load16 bs 0 = Some n" using be_load_total(1) [of 0 bs] by auto
    note split = split_frames_load [OF long n]
    consider (zero) "n = 0" | (short) "n \<noteq> 0" "length bs - 2 < unat n" | (fits) "n \<noteq> 0" "unat n \<le> length bs - 2" by fastforce
    then show ?thesis
    proof cases
      case zero
      from itch_next_frame(1) [OF less.prems long n zero] obtain r1 where r1: "itch_file_next r = itch_file_next r1"
        "itch_reading r1 (drop 2 bs) fails" "ir_last_ts r1 = ir_last_ts r" by blast
      have "drain itch_file_next r = drain itch_file_next r1" by (subst (1 2) drain.simps) (simp only: r1(1))
      moreover have "length (drop 2 bs) < length bs" using long by simp
      ultimately show ?thesis using less.hyps [OF _ r1(2)] r1(3) zero long by (auto simp: split)
    next
      case short
      then show ?thesis using itch_next_frame(2) [OF less.prems long n short] drain_end [of itch_file_next r] long by (auto simp: split)
    next
      case fits
      define m where "m = take (unat n) (drop 2 bs)"
      have m: "m \<noteq> []" "length m = unat n" using fits long by (auto simp: m_def unat_eq_0 simp flip: length_0_conv)
      from itch_next_frame(3) [OF less.prems long n fits] obtain r1 where
        r1: "itch_file_next r = Some (Some \<lparr>rec_ts = ir_last_ts r1, rec_payload = m\<rparr>, r1)" "itch_reading r1 (drop (2 + unat n) bs) fails"
          "ir_last_ts r1 = (if 11 \<le> length m then the (be_load48 m 5) else ir_last_ts r)" unfolding m_def by auto
      have "length (drop (2 + unat n) bs) < length bs" using long by simp
      from less.hyps [OF this r1(2)] obtain r2 where r2: "drain itch_file_next r1 = Some (stamped (ir_last_ts r1) (split_frames (drop (2 + unat n) bs)), r2)"
        "ir_error r2 = (if frames_size (split_frames (drop (2 + unat n) bs)) = length (drop (2 + unat n) bs) \<and> \<not> fails then DS_ok else DS_truncated)" by blast
      have s: "split_frames bs = m # split_frames (drop (2 + unat n) bs)" using fits by (simp add: split m_def)
      show ?thesis using drain_record [OF r1(1) r2(1)] r2(2) m fits long by (auto simp: s r1(3) Let_def)
    qed
  qed
qed

section \<open>MemorySource gives back what was added\<close>

definition memory_records :: "MemorySource \<Rightarrow> Record list" where
  "memory_records s = map (\<lambda>e. \<lparr>rec_ts = en_ts e, rec_payload = take (en_length e) (drop (en_offset e) (ms_arena s))\<rparr>) (ms_entries s)"

lemma memory_add_records:
  "memory_wf s \<Longrightarrow> memory_records (memory_add ts p s) = memory_records s @ [\<lparr>rec_ts = ts, rec_payload = p\<rparr>]"
  by (auto simp: memory_records_def memory_add_def Let_def memory_wf_def)

lemma drain_memory:
  assumes "memory_wf s"
  shows "drain memory_next s = Some (drop (ms_cursor s) (memory_records s), s\<lparr>ms_cursor := max (ms_cursor s) (memory_size s)\<rparr>)"
  using assms
proof (induction "memory_size s - ms_cursor s" arbitrary: s)
  case 0
  then have "memory_next s = Some (None, s)" by (simp add: memory_next_def memory_size_def)
  then show ?case using 0 by (simp add: drain_end memory_records_def memory_size_def max_def)
next
  case (Suc k)
  have c: "ms_cursor s < length (ms_entries s)" using Suc.hyps(2) by (simp add: memory_size_def)
  let ?s = "s\<lparr>ms_cursor := ms_cursor s + 1\<rparr>"
  have "drain memory_next ?s = Some (drop (ms_cursor s + 1) (memory_records s), s\<lparr>ms_cursor := max (ms_cursor s + 1) (memory_size s)\<rparr>)"
    using Suc.hyps(1) [of ?s] Suc.hyps(2) Suc.prems by (simp add: memory_wf_def memory_records_def memory_size_def)
  from drain_record [OF memory_next_eq [OF Suc.prems c] this] show ?case
    using c by (simp add: memory_size_def memory_records_def max_def Cons_nth_drop_Suc [symmetric])
qed

text \<open>
  Claim C37: the three sources agree. A BinaryFILE reader returns exactly the non-empty frames that the frame splitter
  of the decoders finds in the same bytes, stamped with the last timestamp seen, and its error is ok if and only if
  the file ends on a frame boundary without a read error. A rewound in-memory list returns, in order, exactly the
  records added to it, the earlier ones unharmed by the growth of the arena.
\<close>

theorem sources_deliver_their_records:
  "(\<exists>r'. drain itch_file_next (ItchFileReader_new (Some \<lparr>rf_data = bs, rf_fails = fails, rf_eof = False\<rparr>)) = Some (stamped 0 (split_frames bs), r') \<and>
      ir_error r' = (if frames_size (split_frames bs) = length bs \<and> \<not> fails then DS_ok else DS_truncated)) \<and>
   (\<exists>s'. drain memory_next (memory_rewind (fold (\<lambda>x. memory_add (rec_ts x) (rec_payload x)) xs MemorySource_new)) = Some (xs, s'))"
proof
  show "\<exists>r'. drain itch_file_next (ItchFileReader_new (Some \<lparr>rf_data = bs, rf_fails = fails, rf_eof = False\<rparr>)) = Some (stamped 0 (split_frames bs), r') \<and>
      ir_error r' = (if frames_size (split_frames bs) = length bs \<and> \<not> fails then DS_ok else DS_truncated)"
    using drain_itch [of "ItchFileReader_new (Some \<lparr>rf_data = bs, rf_fails = fails, rf_eof = False\<rparr>)" bs fails]
    by (simp add: itch_reading_def ItchFileReader_new_def)
  have "memory_wf (fold (\<lambda>x. memory_add (rec_ts x) (rec_payload x)) xs s) \<and>
      memory_records (fold (\<lambda>x. memory_add (rec_ts x) (rec_payload x)) xs s) = memory_records s @ xs" if "memory_wf s" for s
    using that by (induction xs arbitrary: s) (simp_all add: memory_add_wf memory_add_records)
  from this [OF memory_new_wf] show "\<exists>s'. drain memory_next (memory_rewind (fold (\<lambda>x. memory_add (rec_ts x) (rec_payload x)) xs MemorySource_new)) = Some (xs, s')"
    using drain_memory [of "memory_rewind (fold (\<lambda>x. memory_add (rec_ts x) (rec_payload x)) xs MemorySource_new)"]
    by (simp add: memory_rewind_def memory_wf_def memory_records_def MemorySource_new_def)
qed

end
