(* ===== verification/Backtest.thy ===== *)
theory Backtest
  imports Engine_Correct Exchange_Sim_Correct Digest Capture
begin

text \<open>
  \<^verbatim>\<open>replay/backtest.hpp\<close>: a source of timestamped messages is replayed through the engine while the exchange
  simulator answers its orders. The simulator and the digest are shared by the gateway and the loop; they
  live in the state of the gateway, inside the engine's world, and the loop reaches them there. What an
  allocation for a message yields is an argument, first for the simulator, then for the engine.
\<close>

section \<open>Configuration and report\<close>

record BacktestConfig =
  bc_engine :: EngineConfig
  bc_sim :: SimConfig

record BacktestReport =
  br_messages :: u64
  br_book_updates :: u64
  br_orders_sent :: u64
  br_orders_rejected_risk :: u64
  br_fills :: u64
  br_volume :: u64
  br_realized_pnl :: int
  br_unrealized_pnl :: int
  br_total_pnl :: int
  br_max_drawdown :: int
  br_digest :: u64
  br_dropped_reports :: u64
  br_capacity_rejects :: u64
  br_book_errors :: u64
  br_itch_skipped :: u64

definition kMaxFlushRounds :: nat where "kMaxFlushRounds = 64"
definition kTagOrder :: u64 where "kTagOrder = 1"
definition kTagReport :: u64 where "kTagReport = 2"

section \<open>class DigestGateway\<close>

text \<open>\<open>dgw_fault\<close> records that an encoder left its buffer; it is proved never to be set.\<close>

record DigestGateway =
  dgw_sim :: ExchangeSim
  dgw_digest :: Digest
  dgw_fault :: bool

fun sim_send :: "ouch_inbound \<Rightarrow> Nanos \<Rightarrow> ExchangeSim \<Rightarrow> bool \<times> ExchangeSim" where
  "sim_send (OI_EnterOrder m) now es = xs_send_enter m now es"
| "sim_send (OI_ReplaceOrder m) now es = xs_send_replace m now es"
| "sim_send (OI_CancelOrder m) now es = xs_send_cancel m now es"

definition dgw_forward :: "ouch_inbound \<Rightarrow> Nanos \<Rightarrow> DigestGateway \<Rightarrow> DigestGateway \<times> bool" where
  "dgw_forward m now g =
     (case encode_inbound m (replicate ouch_kMaxMessageLength 0) of
        None \<Rightarrow> (g\<lparr>dgw_fault := True\<rparr>, False)
      | Some (n, wire) \<Rightarrow>
          let (accepted, es) = sim_send m now (dgw_sim g);
              d = digest_update kTagOrder (dgw_digest g);
              d = digest_update now d;
              d = digest_update (if accepted then 1 else 0) d;
              d = digest_update (of_nat n) d;
              d = digest_update_bytes (take n wire) d in
          (g\<lparr>dgw_sim := es, dgw_digest := d\<rparr>, accepted))"

definition digest_gateway :: "DigestGateway gateway" where
  "digest_gateway = \<lparr>gw_send_enter = \<lambda>m. dgw_forward (OI_EnterOrder m), gw_send_cancel = \<lambda>m. dgw_forward (OI_CancelOrder m),
     gw_send_replace = \<lambda>m. dgw_forward (OI_ReplaceOrder m)\<rparr>"

section \<open>The loop\<close>

fun volume_on :: "ouch_outbound \<Rightarrow> u64 \<Rightarrow> u64" where
  "volume_on (OO_Executed e) shares = shares + ucast (ex_shares e)"
| "volume_on m shares = shares"

record 's backtest =
  bt_engine :: "('s, DigestGateway) engine"
  bt_volume :: u64

abbreviation bt_gateway :: "'s backtest \<Rightarrow> DigestGateway" where
  "bt_gateway b \<equiv> eg_gateway (sy_world (bt_engine b))"

definition gateway_upd :: "(DigestGateway \<Rightarrow> DigestGateway) \<Rightarrow> 's backtest \<Rightarrow> 's backtest" where
  "gateway_upd f b = b\<lparr>bt_engine := world_upd (\<lambda>w. w\<lparr>eg_gateway := f (eg_gateway w)\<rparr>) (bt_engine b)\<rparr>"

text \<open>The callback of \<open>deliver\<close>, on the simulator of the drain and the state and count of the loop.\<close>

definition on_report ::
  "('s, DigestGateway) strategy \<Rightarrow> u8 list \<Rightarrow> Nanos \<Rightarrow> ExchangeSim \<times> ('s backtest \<times> nat) option \<Rightarrow> ExchangeSim \<times> ('s backtest \<times> nat) option" where
  "on_report sg msg at st =
     (case st of (es, None) \<Rightarrow> (es, None)
      | (es, Some (b, delivered)) \<Rightarrow>
          let b = gateway_upd (\<lambda>g. g\<lparr>dgw_sim := es\<rparr>) b;
              b = gateway_upd (\<lambda>g. g\<lparr>dgw_digest :=
                    digest_update_bytes msg (digest_update (of_nat (length msg)) (digest_update at (digest_update kTagReport (dgw_digest g))))\<rparr>) b in
          case do {
            (st, volume) \<leftarrow> decode_outbound volume_on msg (bt_volume b);
            (sy, st) \<leftarrow> on_ouch digest_gateway sg msg at (bt_engine b);
            Some (b\<lparr>bt_engine := sy, bt_volume := volume\<rparr>) } of
            None \<Rightarrow> (es, None)
          | Some b \<Rightarrow> (dgw_sim (bt_gateway b), Some (b, delivered + 1)))"

definition bt_deliver :: "('s, DigestGateway) strategy \<Rightarrow> Nanos \<Rightarrow> 's backtest \<Rightarrow> ('s backtest \<times> nat) option" where
  "bt_deliver sg until b = do {
     (es, r) \<leftarrow> xs_drain_reports until (on_report sg) (dgw_sim (bt_gateway b)) (Some (b, 0));
     (b, delivered) \<leftarrow> r;
     Some (gateway_upd (\<lambda>g. g\<lparr>dgw_sim := es\<rparr>) b, delivered) }"

definition bt_advance :: "Nanos \<Rightarrow> 's backtest \<Rightarrow> 's backtest option" where
  "bt_advance now b = do {
     es \<leftarrow> xs_advance now (dgw_sim (bt_gateway b));
     Some (gateway_upd (\<lambda>g. g\<lparr>dgw_sim := es\<rparr>) b) }"

definition bt_record ::
  "('s, DigestGateway) strategy \<Rightarrow> alloc \<times> alloc \<Rightarrow> Record \<Rightarrow> Nanos \<times> 's backtest \<Rightarrow> (Nanos \<times> 's backtest) option" where
  "bt_record sg al rec st = do {
     let (now, b) = st;
     let now = max now (rec_ts rec);
     b \<leftarrow> bt_advance now b;
     (b, delivered) \<leftarrow> bt_deliver sg now b;
     es \<leftarrow> xs_on_itch (fst al) (rec_payload rec) now (dgw_sim (bt_gateway b));
     let b = gateway_upd (\<lambda>g. g\<lparr>dgw_sim := es\<rparr>) b;
     (sy, st) \<leftarrow> on_itch digest_gateway sg (snd al) (rec_payload rec) now (bt_engine b);
     Some (now, b\<lparr>bt_engine := sy\<rparr>) }"

partial_function (option) bt_loop ::
  "('src \<Rightarrow> (Record option \<times> 'src) option) \<Rightarrow> ('s, DigestGateway) strategy \<Rightarrow> (u64 \<Rightarrow> alloc \<times> alloc) \<Rightarrow>
   'src \<Rightarrow> u64 \<Rightarrow> Nanos \<times> 's backtest \<Rightarrow> (u64 \<times> Nanos \<times> 's backtest) option" where
  "bt_loop nxt sg al src messages st =
     Option.bind (nxt src) (\<lambda>(r, src).
       case r of None \<Rightarrow> Some (messages, st)
       | Some rec \<Rightarrow> Option.bind (bt_record sg (al messages) rec st) (bt_loop nxt sg al src (messages + 1)))"

definition kEndOfTime :: Nanos where "kEndOfTime = NOT 0"

primrec bt_flush :: "('s, DigestGateway) strategy \<Rightarrow> nat \<Rightarrow> 's backtest \<Rightarrow> 's backtest option" where
  "bt_flush sg 0 b = Some b"
| "bt_flush sg (Suc rounds) b = do {
     b \<leftarrow> bt_advance kEndOfTime b;
     (b, delivered) \<leftarrow> bt_deliver sg kEndOfTime b;
     if delivered = 0 then Some b else bt_flush sg rounds b }"

definition bt_report :: "u64 \<Rightarrow> 's backtest \<Rightarrow> BacktestReport" where
  "bt_report messages b =
     (let st = eg_stats (sy_world (bt_engine b)); risk = sy_risk (bt_engine b) in
      \<lparr>br_messages = messages, br_book_updates = et_book_updates st, br_orders_sent = et_orders_sent st,
       br_orders_rejected_risk = et_risk_rejects st, br_fills = et_fills st, br_volume = bt_volume b,
       br_realized_pnl = realized_pnl risk, br_unrealized_pnl = unrealized_pnl risk, br_total_pnl = total_pnl risk,
       br_max_drawdown = max_drawdown risk, br_digest = digest_value (dgw_digest (bt_gateway b)),
       br_dropped_reports = es_dropped_reports (dgw_sim (bt_gateway b)), br_capacity_rejects = et_capacity_rejects st,
       br_book_errors = et_book_errors st, br_itch_skipped = et_itch_skipped st\<rparr>)"

definition bt_start :: "BacktestConfig \<Rightarrow> 's \<Rightarrow> 's backtest option" where
  "bt_start config strategy = do {
     exchange \<leftarrow> ExchangeSim_new (bc_sim config);
     eng \<leftarrow> Engine_new (bc_engine config) strategy \<lparr>dgw_sim = exchange, dgw_digest = Digest_new, dgw_fault = False\<rparr>;
     Some \<lparr>bt_engine = eng, bt_volume = 0\<rparr> }"

definition run_backtest ::
  "('src \<Rightarrow> (Record option \<times> 'src) option) \<Rightarrow> ('s, DigestGateway) strategy \<Rightarrow> (u64 \<Rightarrow> alloc \<times> alloc) \<Rightarrow>
   'src \<Rightarrow> BacktestConfig \<Rightarrow> 's \<Rightarrow> BacktestReport option" where
  "run_backtest nxt sg al src config strategy = do {
     b \<leftarrow> bt_start config strategy;
     (messages, now, b) \<leftarrow> bt_loop nxt sg al src 0 (0, b);
     b \<leftarrow> bt_flush sg kMaxFlushRounds b;
     Some (bt_report messages b) }"

section \<open>The gateway only sends\<close>

lemma sim_send_only: "sendable m \<Longrightarrow> requests_only es (snd (sim_send m now es))"
  using xs_send_only [of "SR_enter _" es now] xs_send_only [of "SR_cancel _" es now] xs_send_only [of "SR_replace _" es now]
  by (cases m) simp_all

lemma gw_send_digest: "gw_send digest_gateway m now g = dgw_forward m now g"
  by (cases m) (simp_all add: digest_gateway_def)

lemma forward_ok:
  assumes "sendable m"
  shows "requests_only (dgw_sim g) (dgw_sim (fst (dgw_forward m now g)))" "dgw_fault (fst (dgw_forward m now g)) = dgw_fault g"
proof -
  have "inbound_sized m" using assms by (cases m) simp_all
  then obtain n wire where "encode_inbound m (replicate ouch_kMaxMessageLength 0) = Some (n, wire)"
    by (cases "encode_inbound m (replicate ouch_kMaxMessageLength 0)") (auto simp: encode_inbound_image split: if_splits)
  then show "requests_only (dgw_sim g) (dgw_sim (fst (dgw_forward m now g)))" "dgw_fault (fst (dgw_forward m now g)) = dgw_fault g"
    using sim_send_only [OF assms, of "dgw_sim g" now] by (simp_all add: dgw_forward_def case_prod_unfold Let_def)
qed

lemma sends_digest:
  assumes "sends digest_gateway g g'"
  shows "requests_only (dgw_sim g) (dgw_sim g')" "dgw_fault g' = dgw_fault g"
proof -
  have "requests_only (dgw_sim g) (dgw_sim g') \<and> dgw_fault g' = dgw_fault g"
    by (rule sends_ind [OF assms, of "\<lambda>x. requests_only (dgw_sim g) (dgw_sim x) \<and> dgw_fault x = dgw_fault g"])
      (auto simp: gw_send_digest forward_ok requests_only_refl intro: requests_only_trans forward_ok)
  then show "requests_only (dgw_sim g) (dgw_sim g')" "dgw_fault g' = dgw_fault g" by simp_all
qed

end
