(* ===== verification/Backtest_Correct.thy ===== *)
theory Backtest_Correct
  imports Backtest Strategies
begin

text \<open>
  The backtest of the theory above always ends, and engine and simulator stay consistent throughout. The
  strategy is the locale \<open>backtest_strategy\<close>, the contract of a strategy on the gateway of the backtest, and
  the source is a \<open>record_source\<close>. What the engine is told, and when, is the sequence of the calls
  \<^verbatim>\<open>on_itch\<close> and \<^verbatim>\<open>on_ouch\<close> that lead from one state to the next (\<open>calls\<close>).
\<close>

section \<open>The calls the engine gets\<close>

datatype bt_call = Call_itch "u8 list" Nanos | Call_ouch "u8 list" Nanos

fun call_time :: "bt_call \<Rightarrow> Nanos" where
  "call_time (Call_itch m t) = t"
| "call_time (Call_ouch m t) = t"

fun is_itch :: "bt_call \<Rightarrow> bool" where
  "is_itch (Call_itch m t) = True"
| "is_itch (Call_ouch m t) = False"

text \<open>
  The state \<open>b'\<close> is reached from \<open>b\<close> by these calls on the engine, in this order; between them only the
  simulator and the digest behind the gateway move.
\<close>

inductive calls :: "('s, DigestGateway) strategy \<Rightarrow> 's backtest \<Rightarrow> bt_call list \<Rightarrow> 's backtest \<Rightarrow> bool" for sg b where
  calls_nil: "calls sg b [] b"
| calls_sim: "calls sg b cs b1 \<Longrightarrow> calls sg b cs (gateway_upd (\<lambda>g. g\<lparr>dgw_sim := es\<rparr>) b1)"
| calls_digest: "calls sg b cs b1 \<Longrightarrow> calls sg b cs (gateway_upd (\<lambda>g. g\<lparr>dgw_digest := d\<rparr>) b1)"
| calls_ouch: "calls sg b cs b1 \<Longrightarrow> decode_outbound volume_on m (bt_volume b1) = Some (s, v) \<Longrightarrow>
    on_ouch digest_gateway sg m t (bt_engine b1) = Some (sy, st) \<Longrightarrow>
    calls sg b (cs @ [Call_ouch m t]) (b1\<lparr>bt_engine := sy, bt_volume := v\<rparr>)"
| calls_itch: "calls sg b cs b1 \<Longrightarrow> on_itch digest_gateway sg al m t (bt_engine b1) = Some (sy, st) \<Longrightarrow>
    calls sg b (cs @ [Call_itch m t]) (b1\<lparr>bt_engine := sy\<rparr>)"

lemma calls_trans:
  assumes "calls sg b ds c" "calls sg a cs b"
  shows "calls sg a (cs @ ds) c"
  using assms(1)
proof induction
  case calls_nil
  then show ?case using assms(2) by simp
qed (use calls.intros in \<open>auto simp flip: append_assoc\<close>)

text \<open>How often each entry point is called.\<close>

definition call_counts :: "bt_call list \<Rightarrow> u64 \<times> u64 \<times> u64" where
  "call_counts cs = (of_nat (length (filter is_itch cs)), of_nat (length (filter (\<lambda>c. \<not> is_itch c) cs)), 0)"

lemma call_counts_append: "call_counts (cs @ ds) = plus3 (call_counts cs) (call_counts ds)"
  by (simp add: call_counts_def plus3_def)

text \<open>The reports \<open>rs\<close> of the simulator as calls: the bytes, at the time of the delivery stamp.\<close>

definition report_call :: "Report \<Rightarrow> bt_call" where
  "report_call r = Call_ouch (take (rt_length r) (rt_bytes r)) (rt_deliver r)"

definition due :: "Nanos \<Rightarrow> ExchangeSim \<Rightarrow> bt_call list" where
  "due t es = map report_call (filter (\<lambda>r. rt_deliver r \<le> t) (pending es))"

lemma due_handed: "due t es = map (\<lambda>(m, at). Call_ouch m at) (handed t es)"
  by (simp add: due_def report_call_def)

lemma due_calls [simp]: "filter is_itch (due t es) = []" "filter (\<lambda>c. \<not> is_itch c) (due t es) = due t es"
  "length (due t es) = length (handed t es)" "map call_time (due t es) = filter (\<lambda>s. s \<le> t) (map rt_deliver (pending es))"
  by (simp_all add: due_def report_call_def filter_map comp_def)

lemma call_counts_due: "call_counts (due t es) = (0, of_nat (length (handed t es)), 0)"
  by (simp add: call_counts_def)

text \<open>
  Replaying records: for each, at the largest timestamp so far, the reports that are due once the simulator
  has worked off its requests, and then the record.
\<close>

inductive replayed :: "('s, DigestGateway) strategy \<Rightarrow> Nanos \<Rightarrow> 's backtest \<Rightarrow> Record list \<Rightarrow> bt_call list \<Rightarrow> Nanos \<Rightarrow> 's backtest \<Rightarrow> bool"
  for sg where
  replayed_nil: "replayed sg now b [] [] now b"
| replayed_record: "t = max now (rec_ts x) \<Longrightarrow> xs_advance t (dgw_sim (bt_gateway b)) = Some es \<Longrightarrow>
    cs = due t es @ [Call_itch (rec_payload x) t] \<Longrightarrow> calls sg b cs b1 \<Longrightarrow> replayed sg t b1 xs tr now' b' \<Longrightarrow>
    replayed sg now b (x # xs) (cs @ tr) now' b'"

text \<open>
  Flushing: each round works off the requests and hands over every report that waits then, at least one. The
  state after the last round may differ from \<open>b'\<close> in the simulator only.
\<close>

inductive flushed :: "('s, DigestGateway) strategy \<Rightarrow> 's backtest \<Rightarrow> bt_call list list \<Rightarrow> 's backtest \<Rightarrow> bool" for sg where
  flushed_nil: "calls sg b [] b' \<Longrightarrow> flushed sg b [] b'"
| flushed_round: "xs_advance kEndOfTime (dgw_sim (bt_gateway b)) = Some es \<Longrightarrow> cs = map report_call (pending es) \<Longrightarrow> cs \<noteq> [] \<Longrightarrow>
    calls sg b cs b1 \<Longrightarrow> flushed sg b1 rounds b' \<Longrightarrow> flushed sg b (cs # rounds) b'"

lemma replayed_calls: "replayed sg now b rs tr now' b' \<Longrightarrow> calls sg b tr b'"
proof (induction rule: replayed.induct)
  case (replayed_record t now x b es cs b1 xs tr now' b')
  show ?case by (rule calls_trans [OF replayed_record.IH replayed_record.hyps(4)])
qed (rule calls_nil)

lemma flushed_calls: "flushed sg b rounds b' \<Longrightarrow> calls sg b (concat rounds) b'"
  by (induction rule: flushed.induct) (auto intro: calls_trans)

lemma flushed_reports: "flushed sg b rounds b' \<Longrightarrow> cs \<in> set rounds \<Longrightarrow> cs \<noteq> [] \<and> (\<forall>c \<in> set cs. \<not> is_itch c)"
  by (induction rule: flushed.induct) (auto simp: report_call_def)

text \<open>The calls for the records themselves, at the largest timestamp so far.\<close>

primrec record_calls :: "Nanos \<Rightarrow> Record list \<Rightarrow> bt_call list" where
  "record_calls now [] = []"
| "record_calls now (x # xs) = Call_itch (rec_payload x) (max now (rec_ts x)) # record_calls (max now (rec_ts x)) xs"

lemma replayed_records: "replayed sg now b rs tr now' b' \<Longrightarrow> filter is_itch tr = record_calls now rs \<and> now' = fold max (map rec_ts rs) now"
  by (induction rule: replayed.induct) (simp_all add: max.commute)

text \<open>Calls whose times never step back and stay between \<open>lo\<close> and \<open>hi\<close>.\<close>

definition in_order :: "Nanos \<Rightarrow> Nanos \<Rightarrow> bt_call list \<Rightarrow> bool" where
  "in_order lo hi cs \<longleftrightarrow> sorted (map call_time cs) \<and> (\<forall>c \<in> set cs. lo \<le> call_time c \<and> call_time c \<le> hi)"

lemma in_order_append:
  "in_order a b cs \<Longrightarrow> in_order b c ds \<Longrightarrow> a \<le> b \<Longrightarrow> b \<le> c \<Longrightarrow> in_order a c (cs @ ds)"
  by (fastforce simp: in_order_def sorted_append)

section \<open>The invariant of a run\<close>

definition bt_inv :: "nat \<Rightarrow> 's backtest \<Rightarrow> bool" where
  "bt_inv n b \<longleftrightarrow> engine_inv n (bt_engine b) \<and> sim_inv n (dgw_sim (bt_gateway b)) \<and> \<not> dgw_fault (bt_gateway b)"

lemma gateway_upd_sel [simp]:
  "bt_gateway (gateway_upd f b) = f (bt_gateway b)" "bt_volume (gateway_upd f b) = bt_volume b"
  "engine_inv n (bt_engine (gateway_upd f b)) = engine_inv n (bt_engine b)"
  "counts_of (bt_engine (gateway_upd f b)) = counts_of (bt_engine b)"
  "eg_trading (sy_world (bt_engine (gateway_upd f b))) = eg_trading (sy_world (bt_engine b))"
  by (simp_all add: gateway_upd_def engine_inv_def world_upd_def om_inv_def)

lemma bt_inv_sim: "bt_inv n b \<Longrightarrow> sim_inv n es \<Longrightarrow> bt_inv n (gateway_upd (\<lambda>g. g\<lparr>dgw_sim := es\<rparr>) b)"
  by (simp add: bt_inv_def)

abbreviation trading :: "'s backtest \<Rightarrow> bool" where
  "trading b \<equiv> eg_trading (sy_world (bt_engine b))"

text \<open>What the callback of a drain keeps: the count, the calls made so far, the invariant, and the number of messages seen.\<close>

definition draining :: "('s, DigestGateway) strategy \<Rightarrow> nat \<Rightarrow> 's backtest \<Rightarrow> (u8 list \<times> Nanos) list \<Rightarrow> ('s backtest \<times> nat) option \<Rightarrow> bool" where
  "draining sg n b0 log st \<longleftrightarrow> (\<exists>b. st = Some (b, length log) \<and> calls sg b0 (map (\<lambda>(m, at). Call_ouch m at) log) b \<and> trading b = trading b0 \<and> engine_inv n (bt_engine b) \<and> \<not> dgw_fault (bt_gateway b) \<and>
     counts_of (bt_engine b) = plus3 (counts_of (bt_engine b0)) (0, of_nat (length log), 0))"

lemma bt_advance_ok:
  assumes "bt_inv n b"
  shows "\<exists>es b'. bt_advance now b = Some b' \<and> xs_advance now (dgw_sim (bt_gateway b)) = Some es \<and> b' = gateway_upd (\<lambda>g. g\<lparr>dgw_sim := es\<rparr>) b \<and> bt_inv n b' \<and>
    later (dgw_sim (bt_gateway b)) es \<and> (es_queued es = 0 \<or> now < rq_arrival (es_requests es ! es_req_head es))"
proof -
  have "sim_inv n (dgw_sim (bt_gateway b))" using assms by (simp add: bt_inv_def)
  from advance_ok [OF this, of now] obtain es where "xs_advance now (dgw_sim (bt_gateway b)) = Some es" "sim_inv n es"
    "later (dgw_sim (bt_gateway b)) es" "es_queued es = 0 \<or> now < rq_arrival (es_requests es ! es_req_head es)" by blast
  then show ?thesis using bt_inv_sim [OF assms] by (intro exI [of _ es]) (simp add: bt_advance_def)
qed

text \<open>A drain whose callbacks do not send leaves the queue of requests alone.\<close>

definition same_queue :: "ExchangeSim \<Rightarrow> ExchangeSim \<Rightarrow> bool" where
  "same_queue es es' \<longleftrightarrow> es_requests es' = es_requests es \<and> es_req_head es' = es_req_head es \<and> es_queued es' = es_queued es \<and>
     es_clock es' = es_clock es"

text \<open>Nothing that waits is due before \<open>t\<close>, and nothing that is emitted from now on will be.\<close>

definition clocked :: "Nanos \<Rightarrow> ExchangeSim \<Rightarrow> bool" where
  "clocked t es \<longleftrightarrow> t \<le> es_clock es \<and> (\<forall>r \<in> set (pending es). t \<le> rt_deliver r)"

lemma clocked_later: "clocked t es \<Longrightarrow> later es es' \<Longrightarrow> report_ring es \<Longrightarrow> clocked t es'"
  by (auto simp: clocked_def later_def dest: order_trans)

text \<open>Nothing is in flight.\<close>

definition settled :: "'s backtest \<Rightarrow> bool" where
  "settled b \<longleftrightarrow> es_queued (dgw_sim (bt_gateway b)) = 0 \<and> pending (dgw_sim (bt_gateway b)) = []"

lemma due_in_order:
  assumes "clocked lo es" "sim_inv n es"
  shows "in_order lo t (due t es)"
proof -
  have "sorted (map rt_deliver (pending es))" using assms(2) by (simp add: sim_inv_def reports_ok_def)
  then have "sorted (map call_time (due t es))" unfolding due_calls by (intro sorted_wrt_filter) simp
  then show ?thesis using assms(1) by (auto simp: in_order_def clocked_def due_def report_call_def)
qed

lemma requests_only_clock: "requests_only es es' \<Longrightarrow> es_clock es' = es_clock es"
  by (cases es'; simp add: requests_only_def)

section \<open>Any strategy that keeps the contract\<close>

locale backtest_strategy = strategy_contract digest_gateway sg for sg :: "('s, DigestGateway) strategy"
begin

lemma on_report_ok:
  assumes "sim_inv n es" "draining sg n b0 log st"
  shows "requests_only es (fst (on_report sg bytes t (es, st))) \<and> draining sg n b0 (log @ [(bytes, t)]) (snd (on_report sg bytes t (es, st))) \<and>
    (quiet_reports sg \<and> trading b0 \<longrightarrow> fst (on_report sg bytes t (es, st)) = es)"
proof -
  obtain b where b: "st = Some (b, length log)" "engine_inv n (bt_engine b)" "\<not> dgw_fault (bt_gateway b)"
    "counts_of (bt_engine b) = plus3 (counts_of (bt_engine b0)) (0, of_nat (length log), 0)" "trading b = trading b0"
    "calls sg b0 (map (\<lambda>(m, at). Call_ouch m at) log) b" using assms(2) by (auto simp: draining_def)
  define d where "d = digest_update_bytes bytes (digest_update (of_nat (length bytes)) (digest_update t (digest_update kTagReport (dgw_digest (bt_gateway b)))))"
  define b1 where "b1 = gateway_upd (\<lambda>g. g\<lparr>dgw_sim := es, dgw_digest := d\<rparr>) b"
  have b1: "engine_inv n (bt_engine b1)" "dgw_sim (bt_gateway b1) = es" "dgw_fault (bt_gateway b1) = dgw_fault (bt_gateway b)"
    "counts_of (bt_engine b1) = counts_of (bt_engine b)" "trading b1 = trading b" using b(2) by (simp_all add: b1_def)
  obtain sy' s where out: "on_ouch digest_gateway sg bytes t (bt_engine b1) = Some (sy', s)" "engine_inv n sy'" "held digest_gateway (bt_engine b1) sy'"
    "counts_of sy' = (fst (counts_of (bt_engine b1)), fst (snd (counts_of (bt_engine b1))) + 1, snd (snd (counts_of (bt_engine b1))))"
    using on_ouch_ok [OF b1(1)] by blast
  obtain v s' where v: "decode_outbound volume_on bytes (bt_volume b1) = Some (s', v)" using decode_outbound_delivers [of volume_on bytes "bt_volume b1"] by blast
  have "traded_ok (eg_books (sy_world (bt_engine b1)))" using b1(1) by (simp add: engine_inv_def priced_def)
  then have "sends digest_gateway (bt_gateway b1) (eg_gateway (sy_world sy'))" using out(3) by (simp add: held_def)
  note sd = sends_digest [OF this]
  have e: "on_report sg bytes t (es, st) = (dgw_sim (eg_gateway (sy_world sy')), Some (b1\<lparr>bt_engine := sy', bt_volume := v\<rparr>, length log + 1))"
    using out(1) v by (simp add: on_report_def b(1) b1_def d_def gateway_upd_def world_upd_def)
  have "b1 = gateway_upd (\<lambda>g. g\<lparr>dgw_digest := d\<rparr>) (gateway_upd (\<lambda>g. g\<lparr>dgw_sim := es\<rparr>) b)"
    by (simp add: b1_def gateway_upd_def world_upd_def)
  then have "calls sg b0 (map (\<lambda>(m, at). Call_ouch m at) log) b1" using b(6) by (auto intro: calls_sim calls_digest)
  from calls_ouch [OF this v out(1)]
  have "calls sg b0 (map (\<lambda>(m, at). Call_ouch m at) (log @ [(bytes, t)])) (b1\<lparr>bt_engine := sy', bt_volume := v\<rparr>)" by simp
  moreover have "counts_of sy' = plus3 (counts_of (bt_engine b0)) (0, of_nat (length (log @ [(bytes, t)])), 0)"
    unfolding out(4) b1(4) b(4) by (simp add: plus3_def ac_simps)
  moreover have "eg_gateway (sy_world sy') = bt_gateway b1" if "quiet_reports sg" "trading b0"
    using on_ouch_quiet [OF that(1) strategy_contract_axioms _ out(1)] that(2) b1(5) b(5) by simp
  moreover have "eg_trading (sy_world sy') = trading b0" using out(3) b1(5) b(5) by (simp add: held_def)
  ultimately show ?thesis unfolding e using sd b1(2,3) b(3) out(2) by (simp add: draining_def)
qed

lemma bt_deliver_ok:
  assumes "bt_inv n b"
  shows "\<exists>b' k. bt_deliver sg until b = Some (b', k) \<and> bt_inv n b' \<and> k = length (handed until (dgw_sim (bt_gateway b))) \<and>
    calls sg b (due until (dgw_sim (bt_gateway b))) b' \<and>
    counts_of (bt_engine b') = plus3 (counts_of (bt_engine b)) (0, of_nat k, 0) \<and>
    pending (dgw_sim (bt_gateway b')) = filter (\<lambda>r. \<not> rt_deliver r \<le> until) (pending (dgw_sim (bt_gateway b))) \<and>
    trading b' = trading b \<and> (quiet_reports sg \<and> trading b \<longrightarrow> same_queue (dgw_sim (bt_gateway b)) (dgw_sim (bt_gateway b')))"
proof -
  define Q where "Q = (\<lambda>es. quiet_reports sg \<and> trading b \<longrightarrow> same_queue (dgw_sim (bt_gateway b)) es)"
  have start: "sim_inv n (dgw_sim (bt_gateway b))" "draining sg n b [] (Some (b, 0))" "Q (dgw_sim (bt_gateway b))"
    using assms by (simp_all add: draining_def bt_inv_def plus3_def Q_def same_queue_def calls_nil)
  have step: "requests_only es (fst (on_report sg bytes t (es, st))) \<and> draining sg n b (log @ [(bytes, t)]) (snd (on_report sg bytes t (es, st))) \<and>
      Q (fst (on_report sg bytes t (es, st)))" if "sim_inv n es" "draining sg n b log st" "Q es" for es bytes t log st
    using on_report_ok [OF that(1,2), of bytes t] that(3) by (auto simp: Q_def)
  from drain_rule [of n _ "draining sg n b" "[]" "Some (b, 0)" Q "on_report sg" until, OF start step]
  obtain es' st where d: "xs_drain_reports until (on_report sg) (dgw_sim (bt_gateway b)) (Some (b, 0)) = Some (es', st)"
    "draining sg n b (handed until (dgw_sim (bt_gateway b))) st" "sim_inv n es'"
    "pending es' = filter (\<lambda>r. \<not> rt_deliver r \<le> until) (pending (dgw_sim (bt_gateway b)))" "Q es'" by (auto simp: Q_def same_queue_def)
  then obtain b1 where b1: "st = Some (b1, length (handed until (dgw_sim (bt_gateway b))))" "engine_inv n (bt_engine b1)"
    "\<not> dgw_fault (bt_gateway b1)" "counts_of (bt_engine b1) = plus3 (counts_of (bt_engine b)) (0, of_nat (length (handed until (dgw_sim (bt_gateway b)))), 0)" "trading b1 = trading b"
    "calls sg b (due until (dgw_sim (bt_gateway b))) b1" by (auto simp: draining_def due_handed)
  then show ?thesis using d calls_sim [OF b1(6)] by (simp add: bt_deliver_def bt_inv_def Q_def)
qed

lemma bt_record_ok:
  fixes rec :: Record and now :: Nanos
  assumes "bt_inv n b" "1 \<le> n" "n < 2 ^ 64 - 1"
  defines "t \<equiv> max now (rec_ts rec)"
  shows "\<exists>b' es cs. bt_record sg al rec (now, b) = Some (t, b') \<and> bt_inv (n + 1) b' \<and>
    xs_advance t (dgw_sim (bt_gateway b)) = Some es \<and> cs = due t es @ [Call_itch (rec_payload rec) t] \<and> calls sg b cs b' \<and>
    counts_of (bt_engine b') = plus3 (counts_of (bt_engine b)) (call_counts cs) \<and> trading b' = trading b \<and>
    (clocked now (dgw_sim (bt_gateway b)) \<longrightarrow> in_order now t cs) \<and>
    (quiet_reports sg \<and> trading b \<longrightarrow> clocked t (dgw_sim (bt_gateway b')))"
proof -
  obtain es b1 where b1: "bt_advance t b = Some b1" "b1 = gateway_upd (\<lambda>g. g\<lparr>dgw_sim := es\<rparr>) b" "bt_inv n b1"
    "es_queued es = 0 \<or> t < rq_arrival (es_requests es ! es_req_head es)" "xs_advance t (dgw_sim (bt_gateway b)) = Some es"
    "later (dgw_sim (bt_gateway b)) es" using bt_advance_ok [OF assms(1)] by blast
  have g: "dgw_sim (bt_gateway b1) = es" by (simp add: b1(2))
  obtain b2 k where b2: "bt_deliver sg t b1 = Some (b2, k)" "bt_inv n b2"
    "counts_of (bt_engine b2) = plus3 (counts_of (bt_engine b1)) (0, of_nat k, 0)" "k = length (handed t es)" "calls sg b1 (due t es) b2"
    "pending (dgw_sim (bt_gateway b2)) = filter (\<lambda>r. \<not> rt_deliver r \<le> t) (pending es)" "trading b2 = trading b1"
    "quiet_reports sg \<and> trading b1 \<longrightarrow> same_queue es (dgw_sim (bt_gateway b2))"
    using bt_deliver_ok [OF b1(3), of t] unfolding g by blast
  have s2: "sim_inv n (dgw_sim (bt_gateway b2))" using b2(2) by (simp add: bt_inv_def)
  obtain e es3 where es3: "xs_on_itch (fst al) (rec_payload rec) t (dgw_sim (bt_gateway b2)) = Some es3" "sim_inv (n + 1) es3"
    "xs_advance t (dgw_sim (bt_gateway b2)) = Some e" "later (e\<lparr>es_clock := max (es_clock e) t\<rparr>) es3"
    using xs_on_itch_ok [OF s2 assms(2,3)] by blast
  define b3 where "b3 = gateway_upd (\<lambda>g. g\<lparr>dgw_sim := es3\<rparr>) b2"
  have b3: "engine_inv n (bt_engine b3)" "dgw_sim (bt_gateway b3) = es3" "\<not> dgw_fault (bt_gateway b3)"
    using b2(2) by (simp_all add: b3_def bt_inv_def)
  obtain sy st where out: "on_itch digest_gateway sg (snd al) (rec_payload rec) t (bt_engine b3) = Some (sy, st)" "engine_inv (n + 1) sy"
    "held digest_gateway (bt_engine b3) sy" "counts_of sy = (fst (counts_of (bt_engine b3)) + 1, snd (counts_of (bt_engine b3)))"
    using on_itch_ok [OF b3(1) assms(2,3)] by blast
  let ?b' = "b3\<lparr>bt_engine := sy\<rparr>" and ?cs = "due t es @ [Call_itch (rec_payload rec) t]"
  have "traded_ok (eg_books (sy_world (bt_engine b3)))" using b3(1) by (simp add: engine_inv_def priced_def)
  then have "sends digest_gateway (bt_gateway b3) (eg_gateway (sy_world sy))" using out(3) by (simp add: held_def)
  note sd = sends_digest [OF this]
  have i3: "sim_inv (n + 1) (dgw_sim (bt_gateway b3))" using es3(2) by (simp only: b3(2))
  have i4: "sim_inv (n + 1) (dgw_sim (eg_gateway (sy_world sy)))" by (rule requests_only_inv(1) [OF sd(1) i3])
  have tr: "trading b2 = trading b" "trading b3 = trading b" "eg_trading (sy_world sy) = trading b"
    using out(3) b2(7) b1(2) by (simp_all add: held_def b3_def)
  have "clocked t (dgw_sim (eg_gateway (sy_world sy)))" if q: "quiet_reports sg" "trading b"
  proof -
    have "same_queue es (dgw_sim (bt_gateway b2))" using b2(8) q b1(2) by simp
    then have "e = dgw_sim (bt_gateway b2)" using es3(3) b1(4) by (subst (asm) xs_advance.simps) (auto simp: same_queue_def split: if_splits)
    then have "clocked t (e\<lparr>es_clock := max (es_clock e) t\<rparr>)" using b2(6) by (auto simp: clocked_def pending_def)
    moreover have "report_ring (e\<lparr>es_clock := max (es_clock e) t\<rparr>)"
      using s2 \<open>e = dgw_sim (bt_gateway b2)\<close> by (auto simp: sim_inv_def reports_ok_def report_ring_def)
    ultimately have "clocked t es3" using clocked_later es3(4) by blast
    then show ?thesis using requests_only_inv(2) [OF sd(1) i3] requests_only_clock [OF sd(1)] b3(2) by (simp add: clocked_def)
  qed
  moreover have "in_order now t ?cs" if "clocked now (dgw_sim (bt_gateway b))"
  proof -
    have "sim_inv n es" "report_ring (dgw_sim (bt_gateway b))"
      using b1(3) assms(1) g by (simp_all add: bt_inv_def sim_inv_def reports_ok_def)
    then have "in_order now t (due t es)" using due_in_order [OF clocked_later [OF that b1(6)]] by blast
    moreover have "in_order t t [Call_itch (rec_payload rec) t]" "now \<le> t" by (simp_all add: in_order_def t_def)
    ultimately show ?thesis using in_order_append by blast
  qed
  moreover have "bt_inv (n + 1) ?b'" using out(2) sd(2) b3(3) i4 by (simp add: bt_inv_def)
  moreover have "bt_record sg al rec (now, b) = Some (t, ?b')"
    using b1(1) b2(1) es3(1) out(1) by (simp add: bt_record_def t_def b3_def Let_def)
  moreover have "calls sg b [] b1" unfolding b1(2) by (rule calls_sim [OF calls_nil])
  then have "calls sg b (due t es) b3" unfolding b3_def using calls_trans [OF b2(5)] by (intro calls_sim) fastforce
  then have "calls sg b ?cs ?b'" by (rule calls_itch [OF _ out(1)])
  moreover have "counts_of sy = plus3 (counts_of (bt_engine b)) (call_counts ?cs)"
    unfolding call_counts_append call_counts_due using out(4) b2(3,4) b1(2) by (simp add: b3_def plus3_def call_counts_def)
  ultimately show ?thesis using b1(5) tr by (intro exI [of _ ?b'] exI [of _ es] exI [of _ ?cs]) simp
qed

lemma bt_loop_ok:
  assumes "record_source nxt valid_source left" "valid_source src" "bt_inv n b" "1 \<le> n" "n + left src < 2 ^ 64"
  shows "\<exists>rs src' now' b' tr. drain nxt src = Some (rs, src') \<and> bt_loop nxt sg al src messages (now, b) = Some (messages + of_nat (length rs), now', b') \<and>
    bt_inv (n + length rs) b' \<and> replayed sg now b rs tr now' b' \<and> counts_of (bt_engine b') = plus3 (counts_of (bt_engine b)) (call_counts tr) \<and>
    length rs \<le> left src \<and> trading b' = trading b \<and> now \<le> now' \<and>
    (quiet_reports sg \<and> trading b \<and> clocked now (dgw_sim (bt_gateway b)) \<longrightarrow> in_order now now' tr \<and> clocked now' (dgw_sim (bt_gateway b')))"
  using assms(2-)
proof (induction "left src" arbitrary: src n b messages now rule: less_induct)
  case less
  obtain r src' where nx: "nxt src = Some (r, src')" "valid_source src'" "r \<noteq> None \<longrightarrow> left src' < left src"
    using record_source.next_returns [OF assms(1) less.prems(1)] by blast
  show ?case
  proof (cases r)
    case None
    then have "bt_loop nxt sg al src messages (now, b) = Some (messages, now, b)" using nx by (subst bt_loop.simps) simp
    then show ?thesis using None nx less.prems drain_end [of nxt src src'] replayed_nil [of sg now b]
      by (intro exI [of _ "[]"] exI [of _ src'] exI [of _ now] exI [of _ b]) (simp add: call_counts_def plus3_def in_order_def)
  next
    case (Some rec)
    then have l: "left src' < left src" using nx(3) by simp
    then have n: "n < 2 ^ 64 - 1" "n + 1 + left src' < 2 ^ 64" using less.prems(4) by simp_all
    define t where "t = max now (rec_ts rec)"
    obtain b1 es cs where b1: "bt_record sg (al messages) rec (now, b) = Some (t, b1)" "bt_inv (n + 1) b1"
      "xs_advance t (dgw_sim (bt_gateway b)) = Some es" "cs = due t es @ [Call_itch (rec_payload rec) t]" "calls sg b cs b1"
      "counts_of (bt_engine b1) = plus3 (counts_of (bt_engine b)) (call_counts cs)" "trading b1 = trading b"
      "clocked now (dgw_sim (bt_gateway b)) \<longrightarrow> in_order now t cs" "quiet_reports sg \<and> trading b \<longrightarrow> clocked t (dgw_sim (bt_gateway b1))"
      using bt_record_ok [OF less.prems(2,3) n(1), of "al messages" rec now] unfolding t_def by blast
    obtain rs src2 now' b' tr where ih: "drain nxt src' = Some (rs, src2)"
      "bt_loop nxt sg al src' (messages + 1) (t, b1) = Some (messages + 1 + of_nat (length rs), now', b')"
      "bt_inv (n + 1 + length rs) b'" "replayed sg t b1 rs tr now' b'" "counts_of (bt_engine b') = plus3 (counts_of (bt_engine b1)) (call_counts tr)"
      "length rs \<le> left src'" "trading b' = trading b1" "t \<le> now'"
      "quiet_reports sg \<and> trading b1 \<and> clocked t (dgw_sim (bt_gateway b1)) \<longrightarrow> in_order t now' tr \<and> clocked now' (dgw_sim (bt_gateway b'))"
      using less.hyps [OF l nx(2) b1(2) le_add2 n(2), of "messages + 1" t] by blast
    have shift: "x + 1 + of_nat (length rs) = x + of_nat (length (rec # rs))" for x :: u64 by (simp add: ac_simps)
    have "bt_loop nxt sg al src messages (now, b) = Some (messages + of_nat (length (rec # rs)), now', b')"
      by (simp only: bt_loop.simps [of nxt sg al src] nx(1) Some bind.simps prod.case option.case b1(1) ih(2) [unfolded shift])
    moreover have "drain nxt src = Some (rec # rs, src2)" by (rule drain_record [OF nx(1) [unfolded Some] ih(1)])
    moreover have "replayed sg now b (rec # rs) (cs @ tr) now' b'" by (rule replayed_record [OF t_def b1(3-5) ih(4)])
    moreover have "counts_of (bt_engine b') = plus3 (counts_of (bt_engine b)) (call_counts (cs @ tr))"
      by (simp only: ih(5) b1(6) call_counts_append plus3_assoc)
    moreover have "now \<le> t" by (simp add: t_def)
    moreover have "in_order now now' (cs @ tr) \<and> clocked now' (dgw_sim (bt_gateway b'))"
      if "quiet_reports sg" "trading b" "clocked now (dgw_sim (bt_gateway b))"
      using that b1(7-9) ih(8,9) \<open>now \<le> t\<close> in_order_append by simp
    ultimately show ?thesis using ih(3,6-8) b1(7) l
      by (intro exI [of _ "rec # rs"] exI [of _ src2] exI [of _ now'] exI [of _ b'] exI [of _ "cs @ tr"]) (simp add: order_trans)
  qed
qed

text \<open>
  A round that delivers nothing leaves nothing in flight: no request is queued, no report is waiting. A
  strategy that sends nothing from its report callbacks needs one round.
\<close>

lemma bt_flush_ok:
  assumes "bt_inv n b"
  shows "\<exists>b' rounds. bt_flush sg N b = Some b' \<and> bt_inv n b' \<and> flushed sg b rounds b' \<and>
    counts_of (bt_engine b') = plus3 (counts_of (bt_engine b)) (call_counts (concat rounds)) \<and>
    length rounds \<le> N \<and> (length rounds < N \<longrightarrow> settled b') \<and> (settled b \<longrightarrow> rounds = []) \<and>
    (quiet_reports sg \<and> trading b \<longrightarrow> length rounds \<le> 1)"
  using assms
proof (induction N arbitrary: b)
  case 0
  then show ?case
    by (intro exI [of _ b] exI [of _ "[]"]) (simp add: flushed_nil calls_nil call_counts_def plus3_def)
next
  case (Suc N)
  obtain es b1 where b1: "bt_advance kEndOfTime b = Some b1" "b1 = gateway_upd (\<lambda>g. g\<lparr>dgw_sim := es\<rparr>) b" "bt_inv n b1"
    "es_queued es = 0 \<or> kEndOfTime < rq_arrival (es_requests es ! es_req_head es)" "xs_advance kEndOfTime (dgw_sim (bt_gateway b)) = Some es"
    using bt_advance_ok [OF Suc.prems] by blast
  have g: "dgw_sim (bt_gateway b1) = es" "trading b1 = trading b" "counts_of (bt_engine b1) = counts_of (bt_engine b)" by (simp_all add: b1(2))
  obtain b2 k where b2: "bt_deliver sg kEndOfTime b1 = Some (b2, k)" "bt_inv n b2"
    "counts_of (bt_engine b2) = plus3 (counts_of (bt_engine b1)) (0, of_nat k, 0)" "k = length (handed kEndOfTime es)"
    "calls sg b1 (due kEndOfTime es) b2" "pending (dgw_sim (bt_gateway b2)) = filter (\<lambda>r. \<not> rt_deliver r \<le> kEndOfTime) (pending es)"
    "trading b2 = trading b1" "quiet_reports sg \<and> trading b1 \<longrightarrow> same_queue es (dgw_sim (bt_gateway b2))"
    using bt_deliver_ok [OF b1(3), of kEndOfTime] unfolding g by blast
  have q: "es_queued es = 0" using b1(4) by (simp add: kEndOfTime_def)
  have p: "pending (dgw_sim (bt_gateway b2)) = []" using b2(6) by (simp add: kEndOfTime_def)
  have cs: "due kEndOfTime es = map report_call (pending es)" "k = length (pending es)" using b2(4) by (simp_all add: due_def kEndOfTime_def)
  have "calls sg b [] b1" unfolding b1(2) by (rule calls_sim [OF calls_nil])
  then have calls: "calls sg b (map report_call (pending es)) b2" using calls_trans [OF b2(5)] by (fastforce simp: cs)
  have idle: "pending es = []" if "settled b"
    using that b1(5) by (simp add: settled_def xs_advance.simps [of _ "dgw_sim (bt_gateway b)"])
  have call_counts: "call_counts (map report_call (pending es)) = (0, of_nat k, 0)"
    using call_counts_due [of kEndOfTime es] b2(4) by (simp add: cs(1))
  show ?case
  proof (cases "k = 0")
    case True
    then have "es_report_count es = 0" using cs(2) by (simp add: pending_def)
    then have "bt_deliver sg kEndOfTime b1 = Some (gateway_upd (\<lambda>g. g\<lparr>dgw_sim := es\<rparr>) b1, 0)"
      by (simp add: bt_deliver_def b1(2) xs_drain_reports.simps [of _ _ es])
    then have "dgw_sim (bt_gateway b2) = es" using b2(1) by auto
    then have "settled b2" using p q by (simp add: settled_def)
    moreover have "flushed sg b [] b2" using calls True cs(2) by (intro flushed_nil) simp
    ultimately show ?thesis using True b1(1) b2(1-3) g(3)
      by (intro exI [of _ b2] exI [of _ "[]"]) (simp add: call_counts_def)
  next
    case False
    obtain b3 rounds where b3: "bt_flush sg N b2 = Some b3" "bt_inv n b3" "flushed sg b2 rounds b3"
      "counts_of (bt_engine b3) = plus3 (counts_of (bt_engine b2)) (call_counts (concat rounds))" "length rounds \<le> N" "length rounds < N \<longrightarrow> settled b3"
      "settled b2 \<longrightarrow> rounds = []" using Suc.IH [OF b2(2)] by blast
    have "bt_flush sg (Suc N) b = Some b3" using b1(1) b2(1) b3(1) False by simp
    moreover have "flushed sg b (map report_call (pending es) # rounds) b3"
      using False cs(2) by (intro flushed_round [OF b1(5) refl _ calls b3(3)]) simp
    moreover have "counts_of (bt_engine b3) = plus3 (counts_of (bt_engine b)) (call_counts (concat (map report_call (pending es) # rounds)))"
      by (simp only: concat.simps call_counts_append call_counts b3(4) b2(3) g(3) plus3_assoc)
    moreover have "settled b2" if "quiet_reports sg" "trading b" using that b2(8) g(2) p q by (simp add: settled_def same_queue_def)
    ultimately show ?thesis using b3 idle False cs(2)
      by (intro exI [of _ b3] exI [of _ "map report_call (pending es) # rounds"]) auto
  qed
qed

end

lemma bt_start_inv:
  assumes "bt_start config st = Some b"
  shows "bt_inv 1 b" "counts_of (bt_engine b) = (0, 0, 0)" "trading b" "clocked 0 (dgw_sim (bt_gateway b))"
proof -
  obtain es eng where n: "ExchangeSim_new (bc_sim config) = Some es"
    "Engine_new (bc_engine config) st \<lparr>dgw_sim = es, dgw_digest = Digest_new, dgw_fault = False\<rparr> = Some eng" "b = \<lparr>bt_engine = eng, bt_volume = 0\<rparr>"
    using assms by (auto simp: bt_start_def bind_eq_Some_conv)
  have g: "eg_gateway (sy_world eng) = \<lparr>dgw_sim = es, dgw_digest = Digest_new, dgw_fault = False\<rparr>" "eg_trading (sy_world eng)"
    using n(2) by (auto simp: Engine_new_def bind_eq_Some_conv)
  show "bt_inv 1 b" "counts_of (bt_engine b) = (0, 0, 0)" "trading b" "clocked 0 (dgw_sim (bt_gateway b))"
    using Engine_new_inv [OF n(2)] ExchangeSim_new_inv(1,2) [OF n(1)] g by (simp_all add: bt_inv_def n(3) clocked_def)
qed

lemma flush_in_order:
  assumes "flushed sg b rounds b'" "length rounds \<le> 1" "bt_inv n b" "clocked now (dgw_sim (bt_gateway b))"
  shows "in_order now kEndOfTime (concat rounds)"
  using assms(1)
proof cases
  case (flushed_round es cs b1 rest)
  have s: "sim_inv n (dgw_sim (bt_gateway b))" using assms(3) by (simp add: bt_inv_def)
  then obtain e where e: "xs_advance kEndOfTime (dgw_sim (bt_gateway b)) = Some e" "sim_inv n e" "later (dgw_sim (bt_gateway b)) e"
    using advance_ok [OF s, of kEndOfTime] by blast
  have "report_ring (dgw_sim (bt_gateway b))" using s by (simp add: sim_inv_def reports_ok_def)
  then have "in_order now kEndOfTime (due kEndOfTime e)" using due_in_order [OF clocked_later [OF assms(4) e(3)] e(2)] by blast
  then show ?thesis using flushed_round e(1) assms(2) by (simp add: due_def kEndOfTime_def)
qed (simp add: in_order_def)

section \<open>Claims\<close>


text \<open>
  Claim C9: the strategy's clock never steps back, if the strategy sends orders only from its book updates. Over
  a whole backtest, from the start to the end of the flush, the times at which the engine is called, for
  reports and for records alike, never decrease; the calls for the records are made in the order of the source, each
  at the largest timestamp so far, and with its own payload. After the flush nothing is left in flight.
\<close>

theorem backtest_clock_never_steps_back:
  assumes "strategy_contract digest_gateway sg" "quiet_reports sg" "record_source nxt valid_source left" "valid_source src" "left src < 2 ^ 64 - 1"
    and "bt_start config st = Some b0"
  shows "\<exists>rs src' now b b' tr. drain nxt src = Some (rs, src') \<and> bt_loop nxt sg al src 0 (0, b0) = Some (of_nat (length rs), now, b) \<and>
    bt_flush sg kMaxFlushRounds b = Some b' \<and> calls sg b0 tr b' \<and> filter is_itch tr = record_calls 0 rs \<and>
    now = fold max (map rec_ts rs) 0 \<and> sorted (map call_time tr) \<and>
    es_queued (dgw_sim (bt_gateway b')) = 0 \<and> pending (dgw_sim (bt_gateway b')) = []"
proof -
  have st: "backtest_strategy sg" using assms(1) by (rule backtest_strategy.intro)
  have n: "1 + left src < 2 ^ 64" using assms(5) by simp
  note s0 = bt_start_inv [OF assms(6)]
  obtain rs src' now b tr where l: "drain nxt src = Some (rs, src')" "bt_loop nxt sg al src 0 (0, b0) = Some (0 + of_nat (length rs), now, b)"
    "bt_inv (1 + length rs) b" "replayed sg 0 b0 rs tr now b" "trading b" "in_order 0 now tr" "clocked now (dgw_sim (bt_gateway b))"
    using backtest_strategy.bt_loop_ok [OF st assms(3,4) s0(1) le_refl n, of al 0 0] s0(3,4) assms(2) by blast
  obtain b' rounds where f: "bt_flush sg kMaxFlushRounds b = Some b'" "flushed sg b rounds b'"
    "length rounds < kMaxFlushRounds \<longrightarrow> settled b'" "quiet_reports sg \<and> trading b \<longrightarrow> length rounds \<le> 1"
    using backtest_strategy.bt_flush_ok [OF st l(3), of kMaxFlushRounds] by blast
  have one: "length rounds \<le> 1" using f(4) l(5) assms(2) by simp
  have "in_order now kEndOfTime (concat rounds)" by (rule flush_in_order [OF f(2) one l(3,7)])
  then have "in_order 0 kEndOfTime (tr @ concat rounds)" using l(6) by (intro in_order_append) (simp_all add: kEndOfTime_def)
  moreover have "calls sg b0 (tr @ concat rounds) b'" using calls_trans [OF flushed_calls [OF f(2)] replayed_calls [OF l(4)]] .
  moreover have "settled b'" using f(3) one by (simp add: kMaxFlushRounds_def)
  moreover have "filter is_itch (concat rounds) = []" using flushed_reports [OF f(2)] by (auto simp: filter_empty_conv)
  ultimately show ?thesis using l(1,2) f(1) replayed_records [OF l(4)]
    by (intro exI [of _ rs] exI [of _ src'] exI [of _ now] exI [of _ b] exI [of _ b'] exI [of _ "tr @ concat rounds"])
      (simp add: in_order_def settled_def)
qed

section \<open>The shipped strategies\<close>

interpretation bt_taker: backtest_strategy "taker_strategy digest_gateway"
  by (rule backtest_strategy.intro) (rule taker.strategy_contract_axioms)

interpretation bt_ema: backtest_strategy "ema_strategy digest_gateway"
  by (rule backtest_strategy.intro) (rule ema.strategy_contract_axioms)

interpretation bt_maker: backtest_strategy "maker_strategy digest_gateway"
  by (rule backtest_strategy.intro) (rule maker.strategy_contract_axioms)

lemma shipped_quiet:
  "quiet_reports (taker_strategy digest_gateway)" "quiet_reports (ema_strategy digest_gateway)" "quiet_reports (maker_strategy digest_gateway)"
  by (simp_all add: quiet_reports_def taker_strategy_def ema_strategy_def maker_strategy_def strat_upd_def Let_def
      taker_on_fill_def ema_on_fill_def maker_on_fill_def taker_on_order_update_def ema_on_order_update_def maker_on_order_update_def)

definition sample_backtest :: BacktestConfig where
  "sample_backtest = \<lparr>bc_engine = sample_engine_config, bc_sim = sample_sim\<rparr>"

lemma sample_start: "\<exists>b. bt_start sample_backtest st = Some b"
proof -
  obtain es where es: "ExchangeSim_new sample_sim = Some es" using sample_sim_new ..
  moreover obtain sy where "Engine_new sample_engine_config st \<lparr>dgw_sim = es, dgw_digest = Digest_new, dgw_fault = False\<rparr> = Some sy"
    using sample_engine [of st "\<lparr>dgw_sim = es, dgw_digest = Digest_new, dgw_fault = False\<rparr>"] by blast
  ultimately show ?thesis by (simp add: bt_start_def sample_backtest_def)
qed

definition sample_source :: MemorySource where
  "sample_source = memory_add 5 [1, 2, 3] (memory_add 9 [7] MemorySource_new)"

lemma sample_source_ok: "memory_wf sample_source" "length (ms_entries sample_source) - ms_cursor sample_source = 2"
  by (simp_all add: sample_source_def memory_add_wf memory_new_wf) (simp add: memory_add_def MemorySource_new_def Let_def)

lemma sample_source_records:
  "drain memory_next sample_source = Some ([\<lparr>rec_ts = 9, rec_payload = [7]\<rparr>, \<lparr>rec_ts = 5, rec_payload = [1, 2, 3]\<rparr>], sample_source\<lparr>ms_cursor := 2\<rparr>)"
  by (simp add: drain.simps memory_next_def sample_source_def memory_add_def MemorySource_new_def Let_def rd_bytes_def)


theorem backtest_clock_never_steps_back_witness:
  "\<exists>b0 b' tr. bt_start sample_backtest (ImbalanceTaker_new sample_taker_config) = Some b0 \<and>
    calls (taker_strategy digest_gateway) b0 tr b' \<and> filter is_itch tr = [Call_itch [7] 9, Call_itch [1, 2, 3] 9] \<and> sorted (map call_time tr)"
proof -
  obtain b0 where b0: "bt_start sample_backtest (ImbalanceTaker_new sample_taker_config) = Some b0" using sample_start [of "ImbalanceTaker_new sample_taker_config"] by blast
  have "length (ms_entries sample_source) - ms_cursor sample_source < 2 ^ 64 - 1" by (simp add: sample_source_ok)
  from backtest_clock_never_steps_back [OF taker.strategy_contract_axioms [of digest_gateway] shipped_quiet(1) memory_src.record_source_axioms
      sample_source_ok(1) this b0, of "\<lambda>_. (sample_alloc, sample_alloc)"]
  show ?thesis using b0 by (auto simp: sample_source_records)
qed

section \<open>Answers to reports arrive late\<close>

lemma invalid_blank: "\<not> valid_token blank_token"
proof -
  have "blank_token = asc CHR '' '' # replicate 13 (asc CHR '' '')" by (simp add: blank_token_def kTokenSize_def numeral_eq_Suc)
  moreover have "\<not> is_alnum (asc CHR '' '')" by (simp add: is_alnum_def)
  ultimately show ?thesis unfolding valid_token_def by (metis takeWhile.simps(2))
qed

lemma stale_report:
  assumes "ExchangeSim_new sample_sim = Some es0"
  shows "\<exists>es. xs_on_itch al [] 100 (snd (xs_send (SR_enter sample_order) 1 es0)) = Some es \<and> map rt_deliver (pending es) = [11]"
proof -
  have f: "es_cfg es0 = sample_sim" "es_requests es0 = replicate 2 Request_new" "es_req_head es0 = 0" "es_queued es0 = 0" "es_reserved es0 = 0"
    "length (es_reports es0) = 1024" "es_reports es0 ! 0 = Report_new" "es_report_head es0 = 0" "es_report_count es0 = 0" "es_clock es0 = 0"
    using assms by (auto simp: ExchangeSim_new_def sample_sim_def bind_eq_Some_conv)
  have two: "replicate 2 Request_new = [Request_new, Request_new]" by (simp add: numeral_2_eq_2)
  define r where "r = Request_new\<lparr>rq_kind := RK_enter, rq_token := blank_token, rq_side := Side_buy,
     rq_shares := 100, rq_stock := Symbol_blank, rq_price := 10000, rq_tif := eo_time_in_force sample_order,
     rq_firm := eo_firm sample_order, rq_display := eo_display sample_order, rq_capacity := eo_capacity sample_order, rq_sweep := eo_intermarket_sweep sample_order,
     rq_min_qty := eo_min_qty sample_order, rq_cross := eo_cross_type sample_order, rq_arrival := 6\<rparr>"
  define e where "e = snd (xs_send (SR_enter sample_order) 1 es0)"
  have e: "e = es0\<lparr>es_reserved := report_cost es0 RK_enter, es_requests := [r, Request_new], es_queued := 1\<rparr>"
    by (simp add: e_def xs_send_enter_def xs_enqueue_def f r_def sample_order_def EnterOrder_new_def saturating_add_def sample_sim_def report_cost_def sample_config_def two)
  define m where "m = OO_Rejected \<lparr>rj_ts = 6, rj_token = blank_token, rj_reason = asc CHR ''O''\<rparr>"
  have r: "rq_kind r = RK_enter" "rq_arrival r = 6" "rq_token r = blank_token" by (simp_all add: r_def)
  define e1 where "e1 = e\<lparr>es_req_head := 1, es_queued := 0, es_reserved := es_reserved e - report_cost e RK_enter, es_clock := 6\<rparr>"
  have a1: "xs_advance 100 e = xs_on_enter r e1 \<bind> xs_advance 100"
    by (subst xs_advance.simps) (simp add: e1_def e f r max_def)
  have a2: "xs_on_enter r e1 = xs_emit m e1"
    by (simp add: m_def xs_on_enter_def r invalid_blank xs_reject_def e1_def)
  obtain n bytes where enc: "encode_outbound m (rt_bytes Report_new) = Some (n, bytes)" "n \<noteq> 0"
    by (simp add: m_def encode_outbound_image blank_token_def kTokenSize_def Report_new_def ouch_length_defs del: encode_outbound.simps)
  define e2 where "e2 = e1\<lparr>es_reports := (es_reports e1)[0 := Report_new\<lparr>rt_length := n, rt_bytes := bytes, rt_deliver := 11\<rparr>], es_report_count := 1\<rparr>"
  have e1: "es_report_count e1 = 0" "es_report_head e1 = 0" "length (es_reports e1) = 1024" "es_reports e1 ! 0 = Report_new" "es_clock e1 = 6"
    "es_cfg e1 = sample_sim" "es_queued e1 = 0" by (simp_all add: e1_def e f)
  have a3: "xs_emit m e1 = Some e2"
    using enc(2) by (simp add: xs_emit_def e1 enc(1) Let_def e2_def saturating_add_def sample_sim_def del: encode_outbound.simps)
  have a4: "xs_advance 100 e2 = Some e2" by (subst xs_advance.simps) (simp add: e2_def e1)
  have a5: "map rt_deliver (pending e2) = [11]" by (simp add: pending_def e2_def e1)
  have adv: "xs_advance 100 e = Some e2" by (simp only: a1 a2 a3 a4 bind.simps)
  have dec: "decode (\<lambda>m h. h \<bind> xs_apply al m) [] (Some x) = Some (DS_truncated, Some x)" for x by (simp add: decode_def)
  have "xs_on_itch al [] 100 e = Some (e2\<lparr>es_clock := max (es_clock e2) 100\<rparr>)"
    unfolding xs_on_itch_def adv by (simp add: dec)
  moreover have "map rt_deliver (pending (e2\<lparr>es_clock := max (es_clock e2) 100\<rparr>)) = [11]"
    using a5 by (simp add: pending_def)
  ultimately show ?thesis unfolding e_def [symmetric] by (rule_tac exI) (rule conjI)
qed

end
