(* ===== verification/Synthetic_Market.thy ===== *)
theory Synthetic_Market
  imports Rng Itch_Codec
begin

text \<open>
  The synthetic market, \<^verbatim>\<open>src/include/optitrade/sim/synthetic_market.hpp\<close>: a generator of ITCH messages with a
  shadow copy of every live order. \<^verbatim>\<open>orders(s, side)[i]\<close> is a slot of one flat array; a read or write outside an
  array, like a draw that never returns, is \<^term>\<open>None\<close>. \<^verbatim>\<open>best_of\<close> returns \<^verbatim>\<open>-1\<close> for an empty side, here
  \<^term>\<open>None\<close> inside the result.
\<close>

section \<open>Configuration and state\<close>

record SyntheticConfig =
  sc_seed :: u64
  sc_symbols :: u16
  sc_messages :: u64
  sc_start_price :: Price
  sc_tick :: Price
  sc_mean_gap_ns :: Nanos
  sc_regime_period :: u32

datatype Phase = PH_open | PH_directory | PH_preamble | PH_flow | PH_done

record Live =
  lo_ref :: OrderRef
  lo_price :: Price
  lo_qty :: Qty

record Sym =
  ym_name :: Symbol
  ym_fair :: Price
  ym_lo :: Price
  ym_hi :: Price
  ym_nb :: nat
  ym_na :: nat

record SyntheticMarket =
  sm_rng :: Rng
  sm_symbols :: u16
  sm_flow_total :: u64
  sm_tick :: Price
  sm_period :: u32
  sm_mean_gap :: Nanos
  sm_syms :: "Sym list"
  sm_book :: "Live list"
  sm_phase :: Phase
  sm_cursor :: nat
  sm_flow_index :: u64
  sm_emitted :: u64
  sm_next_ref :: OrderRef
  sm_match :: u64
  sm_event_toggle :: u32
  sm_ts :: Nanos
  sm_bull :: bool

definition kCap :: nat where "kCap = 128"
definition kPreambleLevels :: nat where "kPreambleLevels = 6"
definition kPreambleOrders :: nat where "kPreambleOrders = kPreambleLevels * 4"
definition kTargetPopulation :: int where "kTargetPopulation = 48"
definition kMaxTimestamp :: Nanos where "kMaxTimestamp = push_bit 48 1 - 1"
definition kSessionStart :: Nanos where "kSessionStart = 34200000000000"

section \<open>Helpers\<close>

text \<open>The digits of \<^verbatim>\<open>make_symbol\<close>, least significant first.\<close>

fun symbol_digits :: "nat \<Rightarrow> u8 list" where
  "symbol_digits v = (asc CHR ''0'' + of_nat (v mod 10)) # (if v div 10 = 0 then [] else symbol_digits (v div 10))"

definition make_symbol :: "nat \<Rightarrow> Symbol option" where
  "make_symbol i =
     (let buf = [asc CHR ''S'', asc CHR ''Y'', asc CHR ''M'', asc CHR ''0'', asc CHR ''0'', asc CHR '' '', asc CHR '' '', asc CHR '' ''];
          digits = symbol_digits i; nd = length digits;
          pos = (if nd < 2 then 3 + (2 - nd) else 3) in
      wr_bytes buf pos (rev digits))"

definition tick_round :: "Price \<Rightarrow> Price \<Rightarrow> Price" where
  "tick_round tick p = (p div tick) * tick"

definition clamp :: "int \<Rightarrow> int \<Rightarrow> int \<Rightarrow> int" where
  "clamp v lo hi = (if v < lo then lo else if hi < v then hi else v)"

text \<open>\<^verbatim>\<open>std::countl_zero\<close> of the lowest \<open>k\<close> bits.\<close>

primrec countl_zero :: "nat \<Rightarrow> u64 \<Rightarrow> nat" where
  "countl_zero 0 x = 0"
| "countl_zero (Suc k) x = (if bit x k then 0 else Suc (countl_zero k x))"

definition header :: "SyntheticMarket \<Rightarrow> Locate \<Rightarrow> Header" where
  "header sm locate = \<lparr>h_locate = locate, h_tracking = 0, h_timestamp = sm_ts sm\<rparr>"

definition locate_of :: "nat \<Rightarrow> Locate" where
  "locate_of s = of_nat (s + 1)"

definition drawn :: "(Rng \<Rightarrow> ('a \<times> Rng) option) \<Rightarrow> SyntheticMarket \<Rightarrow> ('a \<times> SyntheticMarket) option" where
  "drawn f sm = do { (x, g) \<leftarrow> f (sm_rng sm); Some (x, sm\<lparr>sm_rng := g\<rparr>) }"

definition advance_time :: "SyntheticMarket \<Rightarrow> SyntheticMarket option" where
  "advance_time sm = do {
     (gap, sm) \<leftarrow>
       (if sm_mean_gap sm \<noteq> 0 then do {
          (x, sm) \<leftarrow> drawn (\<lambda>g. Some (rng_next g)) sm;
          let k = of_nat (countl_zero 64 (x OR 1));
          (frac, sm) \<leftarrow> drawn (bounded 1024) sm;
          Some (sm_mean_gap sm * (k * 1024 + frac) div 1536, sm) }
        else Some (0, sm));
     Some (sm\<lparr>sm_ts := if gap > kMaxTimestamp - sm_ts sm then kMaxTimestamp else sm_ts sm + gap\<rparr>) }"

section \<open>The shadow model\<close>

fun count_of :: "Side \<Rightarrow> Sym \<Rightarrow> nat" where
  "count_of Side_buy y = ym_nb y"
| "count_of Side_sell y = ym_na y"
| "count_of (Side_other b) y = 0"

fun set_count :: "Side \<Rightarrow> nat \<Rightarrow> Sym \<Rightarrow> Sym" where
  "set_count Side_buy n y = y\<lparr>ym_nb := n\<rparr>"
| "set_count Side_sell n y = y\<lparr>ym_na := n\<rparr>"
| "set_count (Side_other b) n y = y"

definition sym_at :: "nat \<Rightarrow> SyntheticMarket \<Rightarrow> Sym option" where
  "sym_at s sm = (if s < length (sm_syms sm) then Some (sm_syms sm ! s) else None)"

definition set_sym :: "nat \<Rightarrow> Sym \<Rightarrow> SyntheticMarket \<Rightarrow> SyntheticMarket" where
  "set_sym s y sm = sm\<lparr>sm_syms := (sm_syms sm)[s := y]\<rparr>"

definition orders :: "nat \<Rightarrow> Side \<Rightarrow> nat" where
  "orders s side = (s * 2 + side_index side) * kCap"

definition live_at :: "nat \<Rightarrow> SyntheticMarket \<Rightarrow> Live option" where
  "live_at k sm = (if k < length (sm_book sm) then Some (sm_book sm ! k) else None)"

definition set_live :: "nat \<Rightarrow> Live \<Rightarrow> SyntheticMarket \<Rightarrow> SyntheticMarket option" where
  "set_live k v sm = (if k < length (sm_book sm) then Some (sm\<lparr>sm_book := (sm_book sm)[k := v]\<rparr>) else None)"

definition population :: "nat \<Rightarrow> SyntheticMarket \<Rightarrow> nat option" where
  "population s sm = do { y \<leftarrow> sym_at s sm; Some (ym_nb y + ym_na y) }"

definition remove_at :: "nat \<Rightarrow> Side \<Rightarrow> nat \<Rightarrow> SyntheticMarket \<Rightarrow> SyntheticMarket option" where
  "remove_at s side i sm = do {
     y \<leftarrow> sym_at s sm;
     let n = count_of side y;
     if n = 0 then None
     else do {
       v \<leftarrow> live_at (orders s side + (n - 1)) sm;
       sm \<leftarrow> set_live (orders s side + i) v sm;
       Some (set_sym s (set_count side (n - 1) y) sm) } }"

definition ahead_of :: "Side \<Rightarrow> Live \<Rightarrow> Live \<Rightarrow> bool" where
  "ahead_of side a b \<longleftrightarrow>
     (if side = Side_buy then lo_price a > lo_price b else lo_price a < lo_price b) \<or> (lo_price a = lo_price b \<and> lo_ref a < lo_ref b)"

primrec best_over :: "nat \<Rightarrow> Side \<Rightarrow> SyntheticMarket \<Rightarrow> nat list \<Rightarrow> nat option \<Rightarrow> nat option option" where
  "best_over s side sm [] best = Some best"
| "best_over s side sm (i # is) best =
     (case best of None \<Rightarrow> best_over s side sm is (Some i)
      | Some j \<Rightarrow> do {
          a \<leftarrow> live_at (orders s side + i) sm;
          b \<leftarrow> live_at (orders s side + j) sm;
          best_over s side sm is (if ahead_of side a b then Some i else best) })"

definition best_of :: "nat \<Rightarrow> Side \<Rightarrow> SyntheticMarket \<Rightarrow> nat option option" where
  "best_of s side sm = do { y \<leftarrow> sym_at s sm; best_over s side sm [0..<count_of side y] None }"

definition price_crosses :: "Side \<Rightarrow> Price \<Rightarrow> Price \<Rightarrow> bool" where
  "price_crosses side px opposite_best = (if side = Side_buy then px \<ge> opposite_best else px \<le> opposite_best)"

text \<open>The test that \<^verbatim>\<open>gen_add\<close> and \<^verbatim>\<open>gen_replace\<close> make on the opposite side.\<close>

definition meets :: "nat \<Rightarrow> Side \<Rightarrow> Price \<Rightarrow> SyntheticMarket \<Rightarrow> bool option" where
  "meets s side px sm = do {
     opp \<leftarrow> best_of s (opposite side) sm;
     case opp of None \<Rightarrow> Some False
     | Some j \<Rightarrow> do { v \<leftarrow> live_at (orders s (opposite side) + j) sm; Some (price_crosses side px (lo_price v)) } }"

definition pick_side :: "SyntheticMarket \<Rightarrow> (Side \<times> SyntheticMarket) option" where
  "pick_side sm = do {
     (buy, sm) \<leftarrow> drawn (chance (if sm_bull sm then 60 else 40) 100) sm;
     Some (if buy then Side_buy else Side_sell, sm) }"

definition random_qty :: "SyntheticMarket \<Rightarrow> (Qty \<times> SyntheticMarket) option" where
  "random_qty sm = do { (x, sm) \<leftarrow> drawn (bounded 10) sm; Some (ucast (100 * (1 + x)), sm) }"

definition removal_shares :: "Qty \<Rightarrow> nat \<Rightarrow> SyntheticMarket \<Rightarrow> (Qty \<times> SyntheticMarket) option" where
  "removal_shares qty pop sm =
     (if qty < 2 then Some (qty, sm)
      else do {
        let q = clamp (750 + (int pop - kTargetPopulation) * 15) 0 1000;
        (x, sm) \<leftarrow> drawn (bounded 1000) sm;
        if x < word_of_int q then Some (qty, sm)
        else do { (x, sm) \<leftarrow> drawn (bounded (ucast (qty - 1))) sm; Some (ucast (1 + x), sm) } })"

definition reduce :: "nat \<Rightarrow> Side \<Rightarrow> nat \<Rightarrow> Qty \<Rightarrow> SyntheticMarket \<Rightarrow> SyntheticMarket option" where
  "reduce s side i shares sm = do {
     v \<leftarrow> live_at (orders s side + i) sm;
     if shares \<ge> lo_qty v then remove_at s side i sm
     else set_live (orders s side + i) (v\<lparr>lo_qty := lo_qty v - shares\<rparr>) sm }"

definition push :: "nat \<Rightarrow> Side \<Rightarrow> OrderRef \<Rightarrow> Price \<Rightarrow> Qty \<Rightarrow> SyntheticMarket \<Rightarrow> SyntheticMarket option" where
  "push s side ref px qty sm = do {
     y \<leftarrow> sym_at s sm;
     let n = count_of side y;
     sm \<leftarrow> set_live (orders s side + n) \<lparr>lo_ref = ref, lo_price = px, lo_qty = qty\<rparr> sm;
     Some (set_sym s (set_count side (n + 1) y) sm) }"

definition pick_any :: "nat \<Rightarrow> SyntheticMarket \<Rightarrow> ((Side \<times> nat) \<times> SyntheticMarket) option" where
  "pick_any s sm = do {
     y \<leftarrow> sym_at s sm;
     let nb = (of_nat (ym_nb y) :: u64);
     (k, sm) \<leftarrow> drawn (bounded (nb + of_nat (ym_na y))) sm;
     Some (if k < nb then (Side_buy, unat k) else (Side_sell, unat (k - nb)), sm) }"

definition passive_price :: "nat \<Rightarrow> Side \<Rightarrow> SyntheticMarket \<Rightarrow> (Price \<times> SyntheticMarket) option" where
  "passive_price s side sm = do {
     (g, sm) \<leftarrow> drawn (geometric 1 3 15) sm;
     let dist = (1 + uint g) * sm_tick sm;
     y \<leftarrow> sym_at s sm;
     Some (if side = Side_buy then max (sm_tick sm) (ym_fair y - dist) else ym_fair y + dist, sm) }"

definition step_fair :: "nat \<Rightarrow> SyntheticMarket \<Rightarrow> SyntheticMarket option" where
  "step_fair s sm = do {
     (x, sm) \<leftarrow> drawn (bounded 32) sm;
     if x \<noteq> 0 then Some sm
     else do {
       (up, sm) \<leftarrow> drawn (chance (if sm_bull sm then 11 else 9) 20) sm;
       y \<leftarrow> sym_at s sm;
       Some (set_sym s (y\<lparr>ym_fair := clamp (ym_fair y + (if up then sm_tick sm else - sm_tick sm)) (ym_lo y) (ym_hi y)\<rparr>) sm) } }"

section \<open>Generators\<close>

text \<open>\<^verbatim>\<open>return itch::encode(m, out)\<close>: the length, the buffer and the state.\<close>

type_synonym generated = "(nat \<times> u8 list) \<times> SyntheticMarket"

definition sm_emit :: "itch_message \<Rightarrow> u8 list \<Rightarrow> SyntheticMarket \<Rightarrow> generated option" where
  "sm_emit m out sm = do { r \<leftarrow> encode m out; Some (r, sm) }"

definition gen_directory :: "u8 list \<Rightarrow> SyntheticMarket \<Rightarrow> generated option" where
  "gen_directory out sm = do {
     y \<leftarrow> sym_at (sm_cursor sm) sm;
     sm_emit (IM_StockDirectory \<lparr>sd_h = header sm (locate_of (sm_cursor sm)), sd_symbol = ym_name y, sd_market_category = asc CHR ''Q'',
       sd_financial_status = asc CHR ''N'', sd_round_lot_size = 100, sd_round_lots_only = asc CHR ''N'', sd_issue_classification = asc CHR ''C'',
       sd_issue_subtype = [asc CHR ''Z'', asc CHR '' ''], sd_authenticity = asc CHR ''P'', sd_short_sale_threshold = asc CHR ''N'',
       sd_ipo_flag = asc CHR '' '', sd_luld_tier = asc CHR ''1'', sd_etp_flag = asc CHR ''N'', sd_etp_leverage = 0, sd_inverse = asc CHR ''N''\<rparr>) out sm }"

definition emit_add :: "nat \<Rightarrow> Side \<Rightarrow> Price \<Rightarrow> Qty \<Rightarrow> bool \<Rightarrow> u8 list \<Rightarrow> SyntheticMarket \<Rightarrow> generated option" where
  "emit_add s side px qty attributed out sm = do {
     let ref = sm_next_ref sm;
     let sm = sm\<lparr>sm_next_ref := ref + 1\<rparr>;
     y \<leftarrow> sym_at s sm;
     let m = \<lparr>ao_h = header sm (locate_of s), ao_ref = ref, ao_side = side, ao_shares = qty, ao_symbol = ym_name y, ao_price = px,
       ao_has_attribution = attributed,
       ao_mpid = if attributed then [asc CHR ''S'', asc CHR ''Y'', asc CHR ''N'', asc CHR ''T''] else replicate 4 0\<rparr>;
     sm \<leftarrow> push s side ref px qty sm;
     sm_emit (IM_AddOrder m) out sm }"

definition gen_preamble :: "u8 list \<Rightarrow> SyntheticMarket \<Rightarrow> generated option" where
  "gen_preamble out sm = do {
     let s = sm_cursor sm div kPreambleOrders;
     let i = sm_cursor sm mod kPreambleOrders;
     let side = (if even (i div 2) then Side_buy else Side_sell);
     let dist = int (i div 4 + 1) * sm_tick sm;
     y \<leftarrow> sym_at s sm;
     let px = (if side = Side_buy then ym_fair y - dist else ym_fair y + dist);
     (qty, sm) \<leftarrow> random_qty sm;
     emit_add s side px qty False out sm }"

text \<open>The price of an execution with price, one in four of them a tick inside the displayed one.\<close>

definition printed_price :: "Side \<Rightarrow> Price \<Rightarrow> SyntheticMarket \<Rightarrow> (Price \<times> SyntheticMarket) option" where
  "printed_price target px sm = do {
     (inside, sm) \<leftarrow> drawn (chance 1 4) sm;
     let improved = (if target = Side_buy then px - sm_tick sm else px + sm_tick sm);
     Some (if inside \<and> improved \<ge> sm_tick sm then improved else px, sm) }"

text \<open>The two messages of \<^verbatim>\<open>gen_execute\<close>.\<close>

definition exec_message :: "bool \<Rightarrow> nat \<Rightarrow> Side \<Rightarrow> Live \<Rightarrow> Qty \<Rightarrow> u8 list \<Rightarrow> SyntheticMarket \<Rightarrow> generated option" where
  "exec_message with_price s target v shares out sm =
     (if with_price then do {
        (px, sm) \<leftarrow> printed_price target (lo_price v) sm;
        sm_emit (IM_OrderExecutedPrice \<lparr>oep_h = header sm (locate_of s), oep_ref = lo_ref v, oep_shares = shares, oep_match = sm_match sm,
          oep_printable = True, oep_price = px\<rparr>) out sm }
      else sm_emit (IM_OrderExecuted \<lparr>oe_h = header sm (locate_of s), oe_ref = lo_ref v, oe_shares = shares, oe_match = sm_match sm\<rparr>) out sm)"

text \<open>\<^verbatim>\<open>gen_add\<close>, \<^verbatim>\<open>gen_delete\<close> and \<^verbatim>\<open>gen_execute\<close> fall back on each other.\<close>

function gen_add :: "nat \<Rightarrow> u8 list \<Rightarrow> SyntheticMarket \<Rightarrow> generated option"
  and gen_delete :: "nat \<Rightarrow> u8 list \<Rightarrow> SyntheticMarket \<Rightarrow> generated option"
  and gen_execute :: "nat \<Rightarrow> Side \<Rightarrow> Qty \<Rightarrow> bool \<Rightarrow> u8 list \<Rightarrow> SyntheticMarket \<Rightarrow> generated option" where
  "gen_add s out sm = do {
     (side, sm) \<leftarrow> pick_side sm;
     (px, sm) \<leftarrow> passive_price s side sm;
     (qty, sm) \<leftarrow> random_qty sm;
     (attributed, sm) \<leftarrow> drawn (chance 1 10) sm;
     crossed \<leftarrow> meets s side px sm;
     if crossed then gen_execute s (opposite side) qty False out sm
     else do {
       y \<leftarrow> sym_at s sm;
       if count_of side y \<ge> kCap then gen_delete s out sm else emit_add s side px qty attributed out sm } }"
| "gen_delete s out sm = do {
     pop \<leftarrow> population s sm;
     if pop = 0 then gen_add s out sm
     else do {
       ((side, i), sm) \<leftarrow> pick_any s sm;
       v \<leftarrow> live_at (orders s side + i) sm;
       let m = \<lparr>od_h = header sm (locate_of s), od_ref = lo_ref v\<rparr>;
       sm \<leftarrow> remove_at s side i sm;
       sm_emit (IM_OrderDelete m) out sm } }"
| "gen_execute s target want with_price out sm = do {
     best \<leftarrow> best_of s target sm;
     case best of None \<Rightarrow> gen_add s out sm
     | Some i \<Rightarrow> do {
         v \<leftarrow> live_at (orders s target + i) sm;
         (shares, sm) \<leftarrow>
           (if want \<noteq> 0 then Some (min want (lo_qty v), sm)
            else do { pop \<leftarrow> population s sm; removal_shares (lo_qty v) pop sm });
         let sm = sm\<lparr>sm_match := sm_match sm + 1\<rparr>;
         (r, sm) \<leftarrow> exec_message with_price s target v shares out sm;
         sm \<leftarrow> reduce s target i shares sm;
         Some (r, sm) } }"
  by pat_completeness auto

text \<open>A fallback always lands where no further one is needed.\<close>

fun fallbacks :: "nat \<times> u8 list \<times> SyntheticMarket + nat \<times> u8 list \<times> SyntheticMarket + nat \<times> Side \<times> Qty \<times> bool \<times> u8 list \<times> SyntheticMarket \<Rightarrow> nat" where
  "fallbacks (Inl (s, out, sm)) = 2"
| "fallbacks (Inr (Inl (s, out, sm))) = (if population s sm = Some 0 then 3 else 1)"
| "fallbacks (Inr (Inr (s, target, want, with_price, out, sm))) = (if best_of s target sm = Some None then 3 else 1)"

lemma full_side_populated:
  assumes "sym_at s sm = Some y" "kCap \<le> count_of side y"
  shows "population s sm \<noteq> Some 0"
  using assms by (cases side) (simp_all add: population_def kCap_def)

termination gen_add
  by (relation "measure fallbacks")
    (auto simp: meets_def bind_eq_Some_conv full_side_populated split: option.splits)

declare gen_add.simps [simp del] gen_delete.simps [simp del] gen_execute.simps [simp del]

definition gen_cancel :: "nat \<Rightarrow> u8 list \<Rightarrow> SyntheticMarket \<Rightarrow> generated option" where
  "gen_cancel s out sm = do {
     pop \<leftarrow> population s sm;
     if pop = 0 then gen_add s out sm
     else do {
       ((side, i), sm) \<leftarrow> pick_any s sm;
       v \<leftarrow> live_at (orders s side + i) sm;
       pop \<leftarrow> population s sm;
       (shares, sm) \<leftarrow> removal_shares (lo_qty v) pop sm;
       let m = \<lparr>oc_h = header sm (locate_of s), oc_ref = lo_ref v, oc_shares = shares\<rparr>;
       sm \<leftarrow> reduce s side i shares sm;
       sm_emit (IM_OrderCancel m) out sm } }"

definition gen_exec_flow :: "nat \<Rightarrow> bool \<Rightarrow> u8 list \<Rightarrow> SyntheticMarket \<Rightarrow> generated option" where
  "gen_exec_flow s with_price out sm = do {
     (aggressor, sm) \<leftarrow> pick_side sm;
     y \<leftarrow> sym_at s sm;
     let target = (if count_of (opposite aggressor) y = 0 then aggressor else opposite aggressor);
     if count_of target y = 0 then gen_add s out sm else gen_execute s target 0 with_price out sm }"

definition gen_replace :: "nat \<Rightarrow> u8 list \<Rightarrow> SyntheticMarket \<Rightarrow> generated option" where
  "gen_replace s out sm = do {
     pop \<leftarrow> population s sm;
     if pop = 0 then gen_add s out sm
     else do {
       ((side, i), sm) \<leftarrow> pick_any s sm;
       v \<leftarrow> live_at (orders s side + i) sm;
       (px, sm) \<leftarrow> passive_price s side sm;
       (qty, sm) \<leftarrow> random_qty sm;
       crossed \<leftarrow> meets s side px sm;
       let px = (if crossed then lo_price v else px);
       let ref = sm_next_ref sm;
       let m = \<lparr>orp_h = header sm (locate_of s), orp_old_ref = lo_ref v, orp_new_ref = ref, orp_shares = qty, orp_price = px\<rparr>;
       let sm = sm\<lparr>sm_next_ref := ref + 1\<rparr>;
       sm \<leftarrow> set_live (orders s side + i) \<lparr>lo_ref = ref, lo_price = px, lo_qty = qty\<rparr> sm;
       sm_emit (IM_OrderReplace m) out sm } }"

definition trade_price :: "nat \<Rightarrow> SyntheticMarket \<Rightarrow> Price option" where
  "trade_price s sm = do {
     y \<leftarrow> sym_at s sm;
     bb \<leftarrow> best_of s Side_buy sm;
     ba \<leftarrow> best_of s Side_sell sm;
     case bb of None \<Rightarrow> Some (ym_fair y)
     | Some i \<Rightarrow> (case ba of None \<Rightarrow> Some (ym_fair y)
         | Some j \<Rightarrow> do {
             b \<leftarrow> live_at (orders s Side_buy + i) sm;
             a \<leftarrow> live_at (orders s Side_sell + j) sm;
             Some (tick_round (sm_tick sm) ((lo_price b + lo_price a) div 2)) }) }"

definition gen_trade :: "nat \<Rightarrow> u8 list \<Rightarrow> SyntheticMarket \<Rightarrow> generated option" where
  "gen_trade s out sm = do {
     (side, sm) \<leftarrow> pick_side sm;
     (x, sm) \<leftarrow> drawn (bounded 5) sm;
     px \<leftarrow> trade_price s sm;
     y \<leftarrow> sym_at s sm;
     let sm = sm\<lparr>sm_match := sm_match sm + 1\<rparr>;
     sm_emit (IM_Trade \<lparr>tr_h = header sm (locate_of s), tr_ref = 0, tr_side = side, tr_shares = ucast (100 * (1 + x)), tr_symbol = ym_name y,
       tr_price = px, tr_match = sm_match sm\<rparr>) out sm }"

text \<open>The choice of \<^verbatim>\<open>gen_flow\<close> among the kinds of message.\<close>

definition flow_message :: "u64 \<Rightarrow> nat \<Rightarrow> u8 list \<Rightarrow> SyntheticMarket \<Rightarrow> generated option" where
  "flow_message r s out sm =
     (if r < 410 then gen_add s out sm
      else if r < 636 then gen_delete s out sm
      else if r < 718 then gen_cancel s out sm
      else if r < 862 then gen_exec_flow s False out sm
      else if r < 944 then gen_replace s out sm
      else if r < 965 then gen_exec_flow s True out sm
      else if r < 996 then gen_trade s out sm
      else let code = (if even (unat (sm_event_toggle sm)) then asc CHR ''Q'' else asc CHR ''M'');
               sm = sm\<lparr>sm_event_toggle := sm_event_toggle sm + 1\<rparr> in
           sm_emit (IM_SystemEvent \<lparr>se_h = header sm 0, se_event_code = code\<rparr>) out sm)"

definition gen_flow :: "u8 list \<Rightarrow> SyntheticMarket \<Rightarrow> generated option" where
  "gen_flow out sm = do {
     (x, sm) \<leftarrow> drawn (bounded (ucast (sm_symbols sm))) sm;
     let s = unat x;
     sm \<leftarrow> step_fair s sm;
     (r, sm) \<leftarrow> drawn (bounded 1000) sm;
     flow_message r s out sm }"

section \<open>Construction and the stream\<close>

definition Sym_new :: "Price \<Rightarrow> Price \<Rightarrow> nat \<Rightarrow> Sym option" where
  "Sym_new tick start i = do {
     name \<leftarrow> make_symbol i;
     let fair = tick_round tick (start + int (i mod 32) * 4 * tick);
     Some \<lparr>ym_name = name, ym_fair = fair, ym_lo = tick_round tick (fair div 2), ym_hi = tick_round tick (fair + fair div 2), ym_nb = 0, ym_na = 0\<rparr> }"

definition SyntheticMarket_new :: "SyntheticConfig \<Rightarrow> SyntheticMarket option" where
  "SyntheticMarket_new cfg = do {
     let symbols = max (sc_symbols cfg) 1;
     let tick = clamp (sc_tick cfg) 1 1000000;
     let start = clamp (sc_start_price cfg) (32 * tick) 1000000000;
     syms \<leftarrow> those (map (Sym_new tick start) [0..<unat symbols]);
     Some \<lparr>sm_rng = Rng_new (sc_seed cfg), sm_symbols = symbols, sm_flow_total = sc_messages cfg, sm_tick = tick,
       sm_period = max (sc_regime_period cfg) 1, sm_mean_gap = min (sc_mean_gap_ns cfg) (push_bit 32 1), sm_syms = syms,
       sm_book = replicate (unat symbols * 2 * kCap) \<lparr>lo_ref = 0, lo_price = 0, lo_qty = 0\<rparr>,
       sm_phase = PH_open, sm_cursor = 0, sm_flow_index = 0, sm_emitted = 0, sm_next_ref = 1, sm_match = 0, sm_event_toggle = 0,
       sm_ts = kSessionStart, sm_bull = True\<rparr> }"

text \<open>The \<^verbatim>\<open>switch\<close> of \<^verbatim>\<open>next\<close>.\<close>

definition sm_generate :: "u8 list \<Rightarrow> SyntheticMarket \<Rightarrow> generated option" where
  "sm_generate out sm =
     (case sm_phase sm of
        PH_open \<Rightarrow> do {
          (r, sm) \<leftarrow> sm_emit (IM_SystemEvent \<lparr>se_h = header sm 0, se_event_code = asc CHR ''O''\<rparr>) out sm;
          Some (r, sm\<lparr>sm_phase := PH_directory\<rparr>) }
      | PH_directory \<Rightarrow> do {
          (r, sm) \<leftarrow> gen_directory out sm;
          let sm = sm\<lparr>sm_cursor := sm_cursor sm + 1\<rparr>;
          Some (r, if sm_cursor sm = unat (sm_symbols sm) then sm\<lparr>sm_cursor := 0, sm_phase := PH_preamble\<rparr> else sm) }
      | PH_preamble \<Rightarrow> do {
          (r, sm) \<leftarrow> gen_preamble out sm;
          let sm = sm\<lparr>sm_cursor := sm_cursor sm + 1\<rparr>;
          Some (r, if sm_cursor sm = unat (sm_symbols sm) * kPreambleOrders then sm\<lparr>sm_phase := PH_flow\<rparr> else sm) }
      | PH_flow \<Rightarrow> do {
          (r, sm) \<leftarrow> gen_flow out (sm\<lparr>sm_bull := even (unat (sm_flow_index sm div ucast (sm_period sm)))\<rparr>);
          Some (r, sm\<lparr>sm_flow_index := sm_flow_index sm + 1\<rparr>) }
      | PH_done \<Rightarrow> Some ((0, out), sm))"

text \<open>\<^verbatim>\<open>next(out, len, ts)\<close>: the result, the three reference arguments and the state.\<close>

definition sm_next :: "u8 list \<Rightarrow> Nanos \<Rightarrow> SyntheticMarket \<Rightarrow> (bool \<times> u8 list \<times> nat \<times> Nanos \<times> SyntheticMarket) option" where
  "sm_next out ts sm =
     (if length out < kMaxMessageLength then Some (False, out, 0, ts, sm)
      else let sm = (if sm_phase sm = PH_flow \<and> sm_flow_index sm \<ge> sm_flow_total sm then sm\<lparr>sm_phase := PH_done\<rparr> else sm) in
      if sm_phase sm = PH_done then Some (False, out, 0, ts, sm)
      else do {
        sm \<leftarrow> advance_time sm;
        ((n, out), sm) \<leftarrow> sm_generate out sm;
        let sm = sm\<lparr>sm_emitted := sm_emitted sm + 1\<rparr>;
        Some (n \<noteq> 0, out, n, sm_ts sm, sm) })"

definition preamble_length :: "SyntheticMarket \<Rightarrow> u64" where
  "preamble_length sm = 1 + ucast (sm_symbols sm) + ucast (sm_symbols sm) * of_nat kPreambleOrders"

end
