(* ===== verification/Synthetic_Market_Inv.thy ===== *)
theory Synthetic_Market_Inv
  imports Synthetic_Market
begin

text \<open>
  The shadow model of the synthetic market read as one list of orders for each symbol and side, the table a
  consumer of the feed keeps, the invariant, and the effect of every draw, search and change on them.
\<close>

section \<open>Calls that return\<close>

definition yields :: "'a option \<Rightarrow> ('a \<Rightarrow> bool) \<Rightarrow> bool" where
  "yields x Q \<longleftrightarrow> (\<exists>a. x = Some a \<and> Q a)"

lemma yields_Some: "yields (Some a) Q \<longleftrightarrow> Q a"
  by (simp add: yields_def)

lemma yields_bind: "yields x P \<Longrightarrow> (\<And>a. P a \<Longrightarrow> yields (f a) Q) \<Longrightarrow> yields (x \<bind> f) Q"
  by (auto simp: yields_def)

lemma yields_mono: "yields x P \<Longrightarrow> (\<And>a. P a \<Longrightarrow> Q a) \<Longrightarrow> yields x Q"
  by (auto simp: yields_def)

lemma yields_if: "(b \<Longrightarrow> yields x Q) \<Longrightarrow> (\<not> b \<Longrightarrow> yields y Q) \<Longrightarrow> yields (if b then x else y) Q"
  by simp

text \<open>A generator from which every draw of the market returns, however many draws have been made.\<close>

definition returning :: "u64 \<Rightarrow> Rng \<Rightarrow> bool" where
  "returning c g \<longleftrightarrow> (\<forall>n k. n \<noteq> 0 \<and> (n \<le> 1024 \<or> n = c) \<longrightarrow> (\<exists>x j. bounded n (after k g) = Some (x, after j (after k g)) \<and> x < n))"

lemma returning_after: "returning c g \<Longrightarrow> returning c (after k g)"
  unfolding returning_def after_add [symmetric] by blast

lemma returning_next: "returning c g \<Longrightarrow> returning c (snd (rng_next g))"
  using returning_after [of c g 1] by simp

lemma returning_bounded:
  assumes "returning c g" "n \<noteq> 0" "n \<le> 1024 \<or> n = c"
  shows "yields (bounded n g) (\<lambda>(x, g'). x < n \<and> returning c g')"
proof -
  obtain x j where "bounded n (after 0 g) = Some (x, after j (after 0 g))" "x < n"
    using assms unfolding returning_def by blast
  then show ?thesis using returning_after [OF assms(1), of j] by (simp add: yields_def)
qed

lemma returning_chance:
  assumes "returning c g" "n \<noteq> 0" "n \<le> 1024"
  shows "yields (chance m n g) (\<lambda>(b, g'). returning c g')"
  unfolding chance_def by (rule yields_bind [OF returning_bounded [OF assms(1,2)]]) (use assms in \<open>auto simp: yields_Some\<close>)

lemma returning_geometric_loop:
  assumes "returning c g" "n \<noteq> 0" "n \<le> 1024"
  shows "yields (geometric_loop m n l i g) (\<lambda>(b, g'). returning c g')"
  using assms(1)
proof (induction l arbitrary: i g)
  case (Suc l)
  show ?case unfolding geometric_loop.simps
    by (rule yields_bind [OF returning_chance [OF Suc.prems assms(2,3)]]) (use Suc.IH in \<open>auto simp: yields_Some\<close>)
qed (simp add: yields_Some)

lemma returning_geometric:
  assumes "returning c g" "n \<noteq> 0" "n \<le> 1024"
  shows "yields (geometric m n k g) (\<lambda>(b, g'). b \<le> k \<and> returning c g')"
  using returning_geometric_loop [OF assms, of m "unat k" 0] geometric_cap [of m n k g]
  by (auto simp: geometric_def yields_def)

lemma returning_Rng_new:
  assumes "\<And>n. n \<noteq> 0 \<and> (n \<le> 1024 \<or> n = c) \<Longrightarrow> accepted n (draw 0 g)"
  shows "returning c g"
  unfolding returning_def
proof (intro allI impI)
  fix n k
  assume n: "n \<noteq> 0 \<and> (n \<le> 1024 \<or> n = c)"
  from bounded_always_returns [OF _ assms [OF n], of "k"] n recurs_late [of k g]
  show "\<exists>x j. bounded n (after k g) = Some (x, after j (after k g)) \<and> x < n" by (metis after_add)
qed

section \<open>The lists of the shadow model\<close>

definition slot :: "nat \<Rightarrow> 'a list \<Rightarrow> 'a list" where
  "slot b xs = take kCap (drop (b * kCap) xs)"

lemma slot_update:
  assumes "i < kCap"
  shows "slot b' (xs[b * kCap + i := v]) = (if b' = b then (slot b xs)[i := v] else slot b' xs)"
proof -
  consider "b' = b" | "b' < b" | "b < b'" by linarith
  then show ?thesis
  proof cases
    case 1
    then show ?thesis by (simp add: slot_def drop_update_swap take_update_swap)
  next
    case 2
    then have "Suc b' * kCap \<le> b * kCap" by (intro mult_le_mono) auto
    then have "b' * kCap \<le> b * kCap + i" "kCap \<le> b * kCap + i - b' * kCap" by auto
    then show ?thesis using 2 by (simp add: slot_def drop_update_swap take_update_cancel)
  next
    case 3
    then have "Suc b * kCap \<le> b' * kCap" by (intro mult_le_mono) auto
    then have "b * kCap + i < b' * kCap" using assms by auto
    then show ?thesis using 3 by (simp add: slot_def drop_update_cancel)
  qed
qed

lemma length_slot: "(b + 1) * kCap \<le> length xs \<Longrightarrow> length (slot b xs) = kCap"
  by (simp add: slot_def)

definition side_list :: "SyntheticMarket \<Rightarrow> nat \<Rightarrow> Side \<Rightarrow> Live list" where
  "side_list sm s d = take (count_of d (sm_syms sm ! s)) (slot (s * 2 + side_index d) (sm_book sm))"

definition shape :: "SyntheticMarket \<Rightarrow> bool" where
  "shape sm \<longleftrightarrow> length (sm_syms sm) = unat (sm_symbols sm) \<and> length (sm_book sm) = unat (sm_symbols sm) * 2 * kCap \<and>
     (\<forall>s < unat (sm_symbols sm). \<forall>d. count_of d (sm_syms sm ! s) \<le> kCap)"

abbreviation on_market :: "SyntheticMarket \<Rightarrow> nat \<Rightarrow> Side \<Rightarrow> bool" where
  "on_market sm s d \<equiv> s < unat (sm_symbols sm) \<and> valid_side d"

lemma shape_fits:
  assumes "shape sm" "on_market sm s d"
  shows "(s * 2 + side_index d + 1) * kCap \<le> length (sm_book sm)"
proof -
  have "s * 2 + side_index d + 1 \<le> unat (sm_symbols sm) * 2" using assms(2) side_index_less [of d] by linarith
  from mult_le_mono1 [OF this, of kCap] show ?thesis using assms(1) by (simp add: shape_def)
qed

lemma length_side_list: "shape sm \<Longrightarrow> on_market sm s d \<Longrightarrow> length (side_list sm s d) = count_of d (sm_syms sm ! s)"
  using length_slot [OF shape_fits, of sm s d] by (simp add: side_list_def shape_def)

lemma length_side_list_cap: "shape sm \<Longrightarrow> on_market sm s d \<Longrightarrow> length (side_list sm s d) \<le> kCap"
  by (simp add: length_side_list shape_def)

lemma sym_at_ok: "shape sm \<Longrightarrow> s < unat (sm_symbols sm) \<Longrightarrow> sym_at s sm = Some (sm_syms sm ! s)"
  by (simp add: sym_at_def shape_def)

lemma orders_less:
  assumes "shape sm" "on_market sm s d" "i < kCap"
  shows "orders s d + i < length (sm_book sm)"
  using shape_fits [OF assms(1,2)] assms(3) by (simp add: orders_def algebra_simps)

lemma live_at_ok:
  assumes "shape sm" "on_market sm s d" "i < length (side_list sm s d)"
  shows "live_at (orders s d + i) sm = Some (side_list sm s d ! i)"
proof -
  have "i < kCap" using assms length_side_list_cap le_trans by fastforce
  then have k: "orders s d + i < length (sm_book sm)" "orders s d \<le> length (sm_book sm)" using orders_less [OF assms(1,2), of i] by simp_all
  have "i < count_of d (sm_syms sm ! s)" using assms length_side_list by simp
  then show ?thesis using k \<open>i < kCap\<close> by (simp add: live_at_def side_list_def slot_def orders_def)
qed

lemma side_list_rng [simp]: "side_list (sm\<lparr>sm_rng := g\<rparr>) = side_list sm" "side_list (sm\<lparr>sm_match := k\<rparr>) = side_list sm"
  "side_list (sm\<lparr>sm_next_ref := r\<rparr>) = side_list sm" "side_list (sm\<lparr>sm_event_toggle := e\<rparr>) = side_list sm" "side_list (sm\<lparr>sm_ts := ts\<rparr>) = side_list sm"
  "side_list (sm\<lparr>sm_phase := ph\<rparr>) = side_list sm" "side_list (sm\<lparr>sm_cursor := c\<rparr>) = side_list sm" "side_list (sm\<lparr>sm_flow_index := f\<rparr>) = side_list sm"
  "side_list (sm\<lparr>sm_emitted := f\<rparr>) = side_list sm" "side_list (sm\<lparr>sm_bull := b\<rparr>) = side_list sm"
  by (simp_all add: side_list_def fun_eq_iff)

lemma shape_rng [simp]: "shape (sm\<lparr>sm_rng := g\<rparr>) = shape sm" "shape (sm\<lparr>sm_match := k\<rparr>) = shape sm"
  "shape (sm\<lparr>sm_next_ref := r\<rparr>) = shape sm" "shape (sm\<lparr>sm_event_toggle := e\<rparr>) = shape sm" "shape (sm\<lparr>sm_ts := ts\<rparr>) = shape sm"
  "shape (sm\<lparr>sm_phase := ph\<rparr>) = shape sm" "shape (sm\<lparr>sm_cursor := c\<rparr>) = shape sm" "shape (sm\<lparr>sm_flow_index := f\<rparr>) = shape sm"
  "shape (sm\<lparr>sm_emitted := f\<rparr>) = shape sm" "shape (sm\<lparr>sm_bull := b\<rparr>) = shape sm"
  by (simp_all add: shape_def)

text \<open>What a symbol keeps when orders come and go.\<close>

definition quoting :: "Sym \<Rightarrow> Sym" where
  "quoting y = y\<lparr>ym_nb := 0, ym_na := 0\<rparr>"

text \<open>The list of one side becomes \<open>xs\<close>, nothing else changes.\<close>

definition restock :: "nat \<Rightarrow> Side \<Rightarrow> Live list \<Rightarrow> SyntheticMarket \<Rightarrow> SyntheticMarket \<Rightarrow> bool" where
  "restock s d xs sm sm' \<longleftrightarrow> (\<exists>syms book. sm' = sm\<lparr>sm_syms := syms, sm_book := book\<rparr> \<and> map quoting syms = map quoting (sm_syms sm)) \<and> shape sm' \<and>
     (\<forall>s' d'. on_market sm s' d' \<longrightarrow> side_list sm' s' d' = (if s' = s \<and> d' = d then xs else side_list sm s' d'))"

lemma count_set_count: "valid_side d \<Longrightarrow> count_of d' (set_count d n y) = (if d' = d then n else count_of d' y)"
  by (cases d; cases d') auto

lemma quoting_set_count: "quoting (set_count d n y) = quoting y"
  by (cases d) (simp_all add: quoting_def)

lemma restock_update:
  assumes "shape sm" "on_market sm s d" "i < kCap" "n \<le> kCap"
  shows "restock s d (take n ((slot (s * 2 + side_index d) (sm_book sm))[i := v])) sm
    (set_sym s (set_count d n (sm_syms sm ! s)) (sm\<lparr>sm_book := (sm_book sm)[orders s d + i := v]\<rparr>))" (is "restock s d _ sm ?sm")
proof -
  have shape: "shape ?sm"
    using assms by (auto simp: shape_def set_sym_def nth_list_update count_set_count)
  have "side_list ?sm s' d' = (if s' = s \<and> d' = d then take n ((slot (s * 2 + side_index d) (sm_book sm))[i := v]) else side_list sm s' d')"
    if on: "on_market sm s' d'" for s' d'
  proof -
    have "s' * 2 + side_index d' = s * 2 + side_index d \<longleftrightarrow> s' = s \<and> d' = d"
      using assms(2) on by (auto simp: valid_side_def) presburger+
    then show ?thesis using assms on
      by (auto simp: side_list_def set_sym_def orders_def slot_update nth_list_update count_set_count shape_def)
  qed
  moreover have "map quoting ((sm_syms sm)[s := set_count d n (sm_syms sm ! s)]) = map quoting (sm_syms sm)"
    by (simp add: map_update quoting_set_count list_update_id) (metis list_update_id map_update)
  ultimately show ?thesis unfolding restock_def using shape
    by (intro conjI exI [of _ "(sm_syms sm)[s := set_count d n (sm_syms sm ! s)]"] exI [of _ "(sm_book sm)[orders s d + i := v]"])
      (auto simp: set_sym_def)
qed

lemma set_count_same: "set_count d (count_of d y) y = y"
  by (cases d) simp_all

lemma set_live_ok:
  assumes "shape sm" "on_market sm s d" "i < length (side_list sm s d)"
  shows "yields (set_live (orders s d + i) v sm) (restock s d ((side_list sm s d)[i := v]) sm)"
proof -
  have i: "i < kCap" "count_of d (sm_syms sm ! s) \<le> kCap" using assms length_side_list_cap [OF assms(1,2)] by (auto simp: length_side_list)
  have "restock s d ((side_list sm s d)[i := v]) sm (sm\<lparr>sm_book := (sm_book sm)[orders s d + i := v]\<rparr>)"
    using restock_update [OF assms(1,2) i] assms(3) by (simp add: set_count_same set_sym_def side_list_def take_update_less length_side_list assms)
  then show ?thesis using orders_less [OF assms(1,2) i(1)] by (simp add: set_live_def yields_Some)
qed

lemma push_ok:
  assumes "shape sm" "on_market sm s d" "length (side_list sm s d) < kCap"
  shows "yields (push s d r px q sm) (restock s d (side_list sm s d @ [\<lparr>lo_ref = r, lo_price = px, lo_qty = q\<rparr>]) sm)"
proof -
  define n where "n = length (side_list sm s d)"
  have n: "n < kCap" "Suc n \<le> kCap" "n = count_of d (sm_syms sm ! s)" using assms by (auto simp: n_def length_side_list)
  have "length (slot (s * 2 + side_index d) (sm_book sm)) = kCap" by (rule length_slot [OF shape_fits [OF assms(1,2)]])
  then have "take (Suc n) ((slot (s * 2 + side_index d) (sm_book sm))[n := v]) = side_list sm s d @ [v]" for v
    using n(1) by (simp add: take_Suc_conv_app_nth side_list_def n(3) [symmetric] take_update_cancel)
  then show ?thesis using restock_update [OF assms(1,2) n(1,2)] orders_less [OF assms(1,2) n(1)] assms
    by (simp add: push_def sym_at_ok set_live_def yields_Some n(3) [symmetric])
qed

lemma remove_at_ok:
  assumes "shape sm" "on_market sm s d" "i < length (side_list sm s d)"
  shows "yields (remove_at s d i sm) (restock s d (butlast ((side_list sm s d)[i := last (side_list sm s d)])) sm)"
proof -
  define xs where "xs = side_list sm s d"
  have n: "length xs = count_of d (sm_syms sm ! s)" "length xs \<le> kCap" "i < length xs" "xs \<noteq> []"
    using assms length_side_list_cap [OF assms(1,2)] length_side_list [OF assms(1,2)] by (auto simp: xs_def)
  have "length xs - 1 < length (side_list sm s d)" using n(4) by (simp add: xs_def)
  from live_at_ok [OF assms(1,2) this] have l: "live_at (orders s d + (length xs - 1)) sm = Some (last xs)"
    unfolding xs_def [symmetric] last_conv_nth [OF n(4)] .
  have "take (length xs - 1) ((slot (s * 2 + side_index d) (sm_book sm))[i := last xs]) = butlast (xs[i := last xs])"
    unfolding butlast_conv_take by (subst xs_def) (simp add: side_list_def n(1) [symmetric] take_update_swap min_def)
  then have "restock s d (butlast (xs[i := last xs])) sm
     (set_sym s (set_count d (length xs - 1) (sm_syms sm ! s)) (sm\<lparr>sm_book := (sm_book sm)[orders s d + i := last xs]\<rparr>))"
    using restock_update [OF assms(1,2), of i "length xs - 1" "last xs"] n by simp
  then show ?thesis using n(2-4) assms(1,2) l orders_less [OF assms(1,2), of i]
    by (simp add: remove_at_def sym_at_ok set_live_def yields_Some n(1) [symmetric] xs_def [symmetric])
qed

section \<open>What a consumer keeps\<close>

text \<open>
  The table of a consumer of the feed: the resting orders by reference. A step fails when a message
  refers to an order that is not there or belongs to another instrument, reuses a reference, enters an
  order of no shares, takes nothing or more than an order holds, or executes an order that is not the first in price and time.
\<close>

type_synonym table = "OrderRef \<Rightarrow> (Locate \<times> Side \<times> Price \<times> Qty) option"

definition foremost :: "table \<Rightarrow> OrderRef \<Rightarrow> Locate \<Rightarrow> Side \<Rightarrow> Price \<Rightarrow> bool" where
  "foremost t r l d p \<longleftrightarrow> (\<forall>r' p' q'. t r' = Some (l, d, p', q') \<longrightarrow>
     r' = r \<or> (if d = Side_buy then p' < p else p < p') \<or> (p' = p \<and> r < r'))"

definition take_shares :: "bool \<Rightarrow> Locate \<Rightarrow> OrderRef \<Rightarrow> Qty \<Rightarrow> table \<Rightarrow> table option" where
  "take_shares first l r n t =
     (case t r of None \<Rightarrow> None
      | Some (l', d, p, q) \<Rightarrow>
          if l' = l \<and> 0 < n \<and> n \<le> q \<and> (first \<longrightarrow> foremost t r l d p)
          then Some (if n = q then t(r := None) else t(r \<mapsto> (l, d, p, q - n)))
          else None)"

fun feed_step :: "itch_message \<Rightarrow> table \<Rightarrow> table option" where
  "feed_step (IM_AddOrder m) t =
     (if t (ao_ref m) = None \<and> 0 < ao_shares m then Some (t(ao_ref m \<mapsto> (h_locate (ao_h m), ao_side m, ao_price m, ao_shares m))) else None)"
| "feed_step (IM_OrderExecuted m) t = take_shares True (h_locate (oe_h m)) (oe_ref m) (oe_shares m) t"
| "feed_step (IM_OrderExecutedPrice m) t = take_shares True (h_locate (oep_h m)) (oep_ref m) (oep_shares m) t"
| "feed_step (IM_OrderCancel m) t = take_shares False (h_locate (oc_h m)) (oc_ref m) (oc_shares m) t"
| "feed_step (IM_OrderDelete m) t =
     (case t (od_ref m) of None \<Rightarrow> None
      | Some (l, d, p, q) \<Rightarrow> if l = h_locate (od_h m) then Some (t(od_ref m := None)) else None)"
| "feed_step (IM_OrderReplace m) t =
     (case t (orp_old_ref m) of None \<Rightarrow> None
      | Some (l, d, p, q) \<Rightarrow>
          if l = h_locate (orp_h m) \<and> t (orp_new_ref m) = None \<and> 0 < orp_shares m
          then Some (t(orp_old_ref m := None, orp_new_ref m \<mapsto> (l, d, orp_price m, orp_shares m))) else None)"
| "feed_step (IM_SystemEvent m) t = Some t"
| "feed_step (IM_StockDirectory m) t = Some t"
| "feed_step (IM_Trade m) t = Some t"

primrec feed :: "itch_message list \<Rightarrow> table \<Rightarrow> table option" where
  "feed [] t = Some t"
| "feed (m # ms) t = feed_step m t \<bind> feed ms"

definition uncrossed :: "table \<Rightarrow> bool" where
  "uncrossed t \<longleftrightarrow> (\<forall>r r' l p p' q q'. t r = Some (l, Side_buy, p, q) \<and> t r' = Some (l, Side_sell, p', q') \<longrightarrow> p < p')"

text \<open>The shadow model holds exactly the table of the consumer.\<close>

definition shadows :: "SyntheticMarket \<Rightarrow> table \<Rightarrow> bool" where
  "shadows sm t \<longleftrightarrow> (\<forall>r l d p q. t r = Some (l, d, p, q) \<longleftrightarrow>
     (\<exists>s. on_market sm s d \<and> l = locate_of s \<and> \<lparr>lo_ref = r, lo_price = p, lo_qty = q\<rparr> \<in> set (side_list sm s d)))"

lemma locate_of_eq:
  assumes "s < unat (w :: u16)" "s' < unat w"
  shows "locate_of s = locate_of s' \<longleftrightarrow> s = s'"
proof -
  have "unat (of_nat (k + 1) :: u16) = k + 1" if "k < unat w" for k
    using that unsigned_less [of w, where ?'a = nat] take_bit_nat_eq_self [of "k + 1" 16] by (subst unsigned_of_nat) simp
  then show ?thesis using assms unfolding locate_of_def by (metis add_right_cancel)
qed

lemma Live_eq: "\<lparr>lo_ref = r, lo_price = p, lo_qty = q\<rparr> = u \<longleftrightarrow> r = lo_ref u \<and> p = lo_price u \<and> q = lo_qty u"
  by (cases u) auto

lemma shadowsD:
  assumes "shadows sm t" "on_market sm s d"
  shows "t r = Some (locate_of s, d, p, q) \<longleftrightarrow> \<lparr>lo_ref = r, lo_price = p, lo_qty = q\<rparr> \<in> set (side_list sm s d)"
  using assms unfolding shadows_def by (metis locate_of_eq)

lemma shadows_entry: "shadows sm t \<Longrightarrow> on_market sm s d \<Longrightarrow> v \<in> set (side_list sm s d) \<Longrightarrow> t (lo_ref v) = Some (locate_of s, d, lo_price v, lo_qty v)"
  using shadowsD [of sm t s d "lo_ref v" "lo_price v" "lo_qty v"] by (cases v) simp

lemma shadows_restock:
  assumes "shadows sm t" "restock s d xs sm sm'" "on_market sm s d"
    and "\<And>r p q. t' r = Some (locate_of s, d, p, q) \<longleftrightarrow> \<lparr>lo_ref = r, lo_price = p, lo_qty = q\<rparr> \<in> set xs"
    and "\<And>r l d' p q. (l, d') \<noteq> (locate_of s, d) \<Longrightarrow> t' r = Some (l, d', p, q) \<longleftrightarrow> t r = Some (l, d', p, q)"
  shows "shadows sm' t'"
  unfolding shadows_def
proof (intro allI)
  fix r l d' p q
  have sy: "sm_symbols sm' = sm_symbols sm" and l: "side_list sm' s' d' = (if s' = s \<and> d' = d then xs else side_list sm s' d')" if "on_market sm s' d'" for s' d'
    using assms(2) that by (auto simp: restock_def)
  have on: "on_market sm' s' d' \<longleftrightarrow> on_market sm s' d'" for s' d' using sy assms(3) by auto
  show "t' r = Some (l, d', p, q) \<longleftrightarrow> (\<exists>s. on_market sm' s d' \<and> l = locate_of s \<and> \<lparr>lo_ref = r, lo_price = p, lo_qty = q\<rparr> \<in> set (side_list sm' s d'))"
  proof (cases "(l, d') = (locate_of s, d)")
    case True
    then have "(\<exists>s. on_market sm' s d' \<and> l = locate_of s \<and> \<lparr>lo_ref = r, lo_price = p, lo_qty = q\<rparr> \<in> set (side_list sm' s d')) \<longleftrightarrow> \<lparr>lo_ref = r, lo_price = p, lo_qty = q\<rparr> \<in> set (side_list sm' s d)"
      using on assms(3) by (metis Pair_inject locate_of_eq)
    then show ?thesis using True assms(3,4) l by simp
  next
    case False
    have "(\<exists>s. on_market sm' s d' \<and> l = locate_of s \<and> \<lparr>lo_ref = r, lo_price = p, lo_qty = q\<rparr> \<in> set (side_list sm' s d')) \<longleftrightarrow>
      (\<exists>s. on_market sm s d' \<and> l = locate_of s \<and> \<lparr>lo_ref = r, lo_price = p, lo_qty = q\<rparr> \<in> set (side_list sm s d'))"
      using False on l by (intro ex_cong1) (auto split: if_splits)
    then show ?thesis using assms(5) [OF False] assms(1) by (simp add: shadows_def)
  qed
qed

lemma shadows_insert:
  assumes "shadows sm t" "restock s d xs sm sm'" "on_market sm s d" "set xs = insert v (set (side_list sm s d))" "t (lo_ref v) = None"
  shows "shadows sm' (t(lo_ref v \<mapsto> (locate_of s, d, lo_price v, lo_qty v)))"
proof (rule shadows_restock [OF assms(1-3)])
  fix r p q
  show "(t(lo_ref v \<mapsto> (locate_of s, d, lo_price v, lo_qty v))) r = Some (locate_of s, d, p, q) \<longleftrightarrow> \<lparr>lo_ref = r, lo_price = p, lo_qty = q\<rparr> \<in> set xs"
    unfolding assms(4) insert_iff Live_eq shadowsD [OF assms(1,3), symmetric] using assms(5) by auto
next
  fix r l d' p q
  assume "(l, d') \<noteq> (locate_of s, d)"
  then show "(t(lo_ref v \<mapsto> (locate_of s, d, lo_price v, lo_qty v))) r = Some (l, d', p, q) \<longleftrightarrow> t r = Some (l, d', p, q)"
    using assms(5) by auto
qed

lemma shadows_remove:
  assumes "shadows sm t" "restock s d xs sm sm'" "on_market sm s d" "set xs = set (side_list sm s d) - {u}" "u \<in> set (side_list sm s d)"
  shows "shadows sm' (t(lo_ref u := None))"
proof (rule shadows_restock [OF assms(1-3)])
  fix r p q
  show "(t(lo_ref u := None)) r = Some (locate_of s, d, p, q) \<longleftrightarrow> \<lparr>lo_ref = r, lo_price = p, lo_qty = q\<rparr> \<in> set xs"
    unfolding assms(4) Diff_iff singleton_iff Live_eq shadowsD [OF assms(1,3), symmetric] using shadows_entry [OF assms(1,3,5)] by auto
next
  fix r l d' p q
  assume "(l, d') \<noteq> (locate_of s, d)"
  then show "(t(lo_ref u := None)) r = Some (l, d', p, q) \<longleftrightarrow> t r = Some (l, d', p, q)"
    using shadows_entry [OF assms(1,3,5)] by auto
qed

lemma shadows_update:
  assumes "shadows sm t" "restock s d xs sm sm'" "on_market sm s d" "set xs = insert v (set (side_list sm s d) - {u})" "u \<in> set (side_list sm s d)"
    "t (lo_ref v) = None \<or> lo_ref v = lo_ref u"
  shows "shadows sm' (t(lo_ref u := None, lo_ref v \<mapsto> (locate_of s, d, lo_price v, lo_qty v)))"
proof (rule shadows_restock [OF assms(1-3)])
  fix r p q
  show "(t(lo_ref u := None, lo_ref v \<mapsto> (locate_of s, d, lo_price v, lo_qty v))) r = Some (locate_of s, d, p, q) \<longleftrightarrow> \<lparr>lo_ref = r, lo_price = p, lo_qty = q\<rparr> \<in> set xs"
    unfolding assms(4) Diff_iff insert_iff empty_iff Live_eq shadowsD [OF assms(1,3), symmetric] using shadows_entry [OF assms(1,3,5)] assms(6)
    by (cases "r = lo_ref v"; cases "r = lo_ref u") (auto simp del: not_None_eq)
next
  fix r l d' p q
  assume "(l, d') \<noteq> (locate_of s, d)"
  then show "(t(lo_ref u := None, lo_ref v \<mapsto> (locate_of s, d, lo_price v, lo_qty v))) r = Some (l, d', p, q) \<longleftrightarrow> t r = Some (l, d', p, q)"
    using shadows_entry [OF assms(1,3,5)] assms(6) by (cases "r = lo_ref v"; cases "r = lo_ref u") (auto simp del: not_None_eq)
qed

section \<open>The invariant\<close>

definition live_ok :: "OrderRef \<Rightarrow> Price \<Rightarrow> Live \<Rightarrow> bool" where
  "live_ok n tick v \<longleftrightarrow> tick \<le> lo_price v \<and> lo_price v \<le> 1800000000 \<and> 0 < lo_qty v \<and> lo_qty v \<le> 1000 \<and> lo_ref v < n"

definition side_ok :: "OrderRef \<Rightarrow> Price \<Rightarrow> Live list \<Rightarrow> bool" where
  "side_ok n tick xs \<longleftrightarrow> (\<forall>v \<in> set xs. live_ok n tick v) \<and> distinct (map lo_ref xs)"

definition apart :: "Live list \<Rightarrow> Live list \<Rightarrow> bool" where
  "apart bids asks \<longleftrightarrow> (\<forall>b \<in> set bids. \<forall>a \<in> set asks. lo_price b < lo_price a)"

definition sym_ok :: "Price \<Rightarrow> Sym \<Rightarrow> bool" where
  "sym_ok tick y \<longleftrightarrow> length (ym_name y) = 8 \<and> 16 * tick \<le> ym_lo y \<and> ym_lo y \<le> ym_fair y \<and> ym_fair y \<le> ym_hi y \<and> ym_hi y \<le> 1700000000"

definition market_inv :: "nat \<Rightarrow> SyntheticMarket \<Rightarrow> bool" where
  "market_inv n sm \<longleftrightarrow> shape sm \<and> 0 < unat (sm_symbols sm) \<and> 1 \<le> sm_tick sm \<and> sm_tick sm \<le> 1000000 \<and> (\<forall>y \<in> set (sm_syms sm). sym_ok (sm_tick sm) y) \<and>
     (\<forall>s d. on_market sm s d \<longrightarrow> side_ok (sm_next_ref sm) (sm_tick sm) (side_list sm s d)) \<and>
     (\<forall>s < unat (sm_symbols sm). apart (side_list sm s Side_buy) (side_list sm s Side_sell)) \<and>
     returning (ucast (sm_symbols sm)) (sm_rng sm) \<and> sm_ts sm \<le> kMaxTimestamp \<and> 0 < sm_next_ref sm \<and> unat (sm_next_ref sm) \<le> n"

lemma market_invD:
  assumes "market_inv n sm"
  shows "shape sm" "0 < unat (sm_symbols sm)" "1 \<le> sm_tick sm" "sm_tick sm \<le> 1000000" "returning (ucast (sm_symbols sm)) (sm_rng sm)"
    "\<And>s d. on_market sm s d \<Longrightarrow> side_ok (sm_next_ref sm) (sm_tick sm) (side_list sm s d)"
    "\<And>s. s < unat (sm_symbols sm) \<Longrightarrow> apart (side_list sm s Side_buy) (side_list sm s Side_sell)"
    "\<And>s. s < unat (sm_symbols sm) \<Longrightarrow> sym_ok (sm_tick sm) (sm_syms sm ! s)" "sm_ts sm \<le> kMaxTimestamp"
  using assms by (auto simp: market_inv_def shape_def)

text \<open>Draws change the generator only.\<close>

definition redrawn :: "SyntheticMarket \<Rightarrow> SyntheticMarket \<Rightarrow> bool" where
  "redrawn sm sm' \<longleftrightarrow> (\<exists>g. sm' = sm\<lparr>sm_rng := g\<rparr> \<and> returning (ucast (sm_symbols sm)) g)"

lemma redrawn_inv: "redrawn sm sm' \<Longrightarrow> market_inv n sm \<Longrightarrow> market_inv n sm'"
  by (auto simp: redrawn_def market_inv_def)

lemma redrawn_trans: "redrawn sm sm' \<Longrightarrow> redrawn sm' sm'' \<Longrightarrow> redrawn sm sm''"
  by (auto simp: redrawn_def)

lemma redrawn_refl: "market_inv n sm \<Longrightarrow> redrawn sm sm"
  unfolding redrawn_def by (intro exI [of _ "sm_rng sm"]) (auto dest: market_invD)

lemma drawn_redrawn:
  assumes "yields (f (sm_rng sm)) (\<lambda>(x, g). P x \<and> returning (ucast (sm_symbols sm)) g)"
  shows "yields (drawn f sm) (\<lambda>(x, sm'). P x \<and> redrawn sm sm')"
  unfolding drawn_def by (rule yields_bind [OF assms]) (auto simp: yields_Some redrawn_def)

lemma drawn_bounded:
  assumes "market_inv n sm" "k \<noteq> 0" "k \<le> 1024 \<or> k = ucast (sm_symbols sm)"
  shows "yields (drawn (bounded k) sm) (\<lambda>(x, sm'). x < k \<and> redrawn sm sm')"
  using assms by (intro drawn_redrawn returning_bounded) (auto dest: market_invD)

lemma drawn_chance:
  assumes "market_inv n sm" "k \<noteq> 0" "k \<le> 1024"
  shows "yields (drawn (chance m k) sm) (\<lambda>(x, sm'). redrawn sm sm')"
  using drawn_redrawn [of "chance m k" sm "\<lambda>_. True"] returning_chance [OF market_invD(5) [OF assms(1)] assms(2,3)] by simp

lemma pick_side_ok:
  assumes "market_inv n sm"
  shows "yields (pick_side sm) (\<lambda>(d, sm'). valid_side d \<and> redrawn sm sm')"
  unfolding pick_side_def by (rule yields_bind [OF drawn_chance [OF assms]]) (auto simp: yields_Some)

lemma hundreds_ok:
  fixes x :: u64
  assumes "x < 10"
  shows "0 < (ucast (100 * (1 + x)) :: u32)" "(ucast (100 * (1 + x)) :: u32) \<le> 1000"
proof -
  have "unat x < 10" using assms by (simp add: word_less_nat_alt)
  then have "unat (100 * (1 + x)) = 100 * (1 + unat x)" by (simp add: unat_word_ariths)
  then have "unat (ucast (100 * (1 + x)) :: u32) = 100 * (1 + unat x)" using \<open>unat x < 10\<close> by (subst unat_ucast_small) simp_all
  then show "0 < (ucast (100 * (1 + x)) :: u32)" "(ucast (100 * (1 + x)) :: u32) \<le> 1000"
    using \<open>unat x < 10\<close> by (simp_all add: word_less_nat_alt word_le_nat_alt)
qed

lemma random_qty_ok:
  assumes "market_inv n sm"
  shows "yields (random_qty sm) (\<lambda>(q, sm'). 0 < q \<and> q \<le> 1000 \<and> redrawn sm sm')"
  unfolding random_qty_def by (rule yields_bind [OF drawn_bounded [OF assms]]) (use hundreds_ok in \<open>auto simp: yields_Some\<close>)

lemma removal_shares_ok:
  assumes "market_inv n sm" "0 < q" "q \<le> 1000"
  shows "yields (removal_shares q pop sm) (\<lambda>(x, sm'). 0 < x \<and> x \<le> q \<and> redrawn sm sm')"
proof (cases "q < 2")
  case True
  then show ?thesis using assms redrawn_refl [OF assms(1)] by (simp add: removal_shares_def yields_Some)
next
  case False
  have q: "1 < unat q" "unat q \<le> 1000" using False assms(3) by (simp_all add: word_less_nat_alt word_le_nat_alt)
  have "unat (q - 1) = unat q - 1" using q(1) unat_minus_le [of 1 q] by (simp add: word_le_nat_alt)
  then have k: "unat (ucast (q - 1) :: u64) = unat q - 1" using q(2) by (subst unat_ucast_small) simp_all
  have k0: "(ucast (q - 1) :: u64) \<noteq> 0" "(ucast (q - 1) :: u64) \<le> 1024"
    using k q by (auto simp: word_le_nat_alt simp flip: unat_eq_0)
  have x: "0 < (ucast (1 + x) :: u32) \<and> ucast (1 + x) \<le> q" if "x < ucast (q - 1)" for x :: u64
  proof -
    have ux: "unat x < unat q - 1" using that k by (simp add: word_less_nat_alt)
    then have "unat (1 + x) = 1 + unat x" using q(2) by (simp add: unat_word_ariths)
    then have "unat (ucast (1 + x) :: u32) = 1 + unat x" using ux q(2) by (subst unat_ucast_small) simp_all
    then show ?thesis using ux by (simp add: word_less_nat_alt word_le_nat_alt)
  qed
  show ?thesis unfolding removal_shares_def if_not_P [OF False] Let_def
  proof (rule yields_bind [OF drawn_bounded [OF assms(1)]])
    fix a :: "u64 \<times> SyntheticMarket"
    assume a: "case a of (x, sm') \<Rightarrow> x < 1000 \<and> redrawn sm sm'"
    obtain y sm1 where [simp]: "a = (y, sm1)" by (cases a)
    have r: "redrawn sm sm1" "market_inv n sm1" using a redrawn_inv [OF _ assms(1)] by auto
    have "yields (drawn (bounded (ucast (q - 1))) sm1 \<bind> (\<lambda>(x, sm). Some (ucast (1 + x), sm))) (\<lambda>(x, sm'). 0 < x \<and> x \<le> q \<and> redrawn sm sm')"
      by (rule yields_bind [OF drawn_bounded [OF r(2) k0(1)]]) (use k0(2) x redrawn_trans [OF r(1)] in \<open>auto simp: yields_Some\<close>)
    then show "yields (case a of (x, sm) \<Rightarrow> if x < word_of_int (clamp (750 + (int pop - kTargetPopulation) * 15) 0 1000) then Some (q, sm)
        else drawn (bounded (ucast (q - 1))) sm \<bind> (\<lambda>(x, sm). Some (ucast (1 + x), sm))) (\<lambda>(x, sm'). 0 < x \<and> x \<le> q \<and> redrawn sm sm')"
      using r(1) assms(2) by (simp add: yields_Some)
  qed simp_all
qed

lemma population_ok:
  assumes "market_inv n sm" "s < unat (sm_symbols sm)"
  shows "population s sm = Some (length (side_list sm s Side_buy) + length (side_list sm s Side_sell))"
  using market_invD(1) [OF assms(1)] assms(2) by (simp add: population_def sym_at_ok length_side_list)

lemma pick_any_ok:
  assumes "market_inv n sm" "s < unat (sm_symbols sm)" "population s sm \<noteq> Some 0"
  shows "yields (pick_any s sm) (\<lambda>((d, i), sm'). valid_side d \<and> i < length (side_list sm s d) \<and> redrawn sm sm')"
proof -
  define nb na where "nb = length (side_list sm s Side_buy)" and "na = length (side_list sm s Side_sell)"
  have sh: "shape sm" by (rule market_invD [OF assms(1)])
  have n: "nb \<le> 128" "na \<le> 128" "nb + na \<noteq> 0" "sym_at s sm = Some (sm_syms sm ! s)" "ym_nb (sm_syms sm ! s) = nb" "ym_na (sm_syms sm ! s) = na"
    using length_side_list_cap [OF sh, of s Side_buy] length_side_list_cap [OF sh, of s Side_sell] length_side_list [OF sh, of s Side_buy]
      length_side_list [OF sh, of s Side_sell] population_ok [OF assms(1,2)] assms(2,3) sym_at_ok [OF sh]
    by (auto simp: nb_def na_def kCap_def)
  have u: "unat (of_nat nb :: u64) = nb" "unat (of_nat na :: u64) = na" using n(1,2) by (simp_all add: unsigned_of_nat take_bit_nat_eq_self)
  then have k: "unat (of_nat nb + of_nat na :: u64) = nb + na" using n(1,2) by (subst unat_add_no_overflow) simp_all
  have k0: "(of_nat nb + of_nat na :: u64) \<noteq> 0" "(of_nat nb + of_nat na :: u64) \<le> 1024"
    using k n(1-3) by (auto simp: word_le_nat_alt simp flip: unat_eq_0)
  have "(x < of_nat nb \<longrightarrow> unat x < length (side_list sm s Side_buy)) \<and> (\<not> x < of_nat nb \<longrightarrow> unat (x - of_nat nb) < length (side_list sm s Side_sell))"
    if "x < of_nat nb + of_nat na" for x :: u64 unfolding nb_def [symmetric] na_def [symmetric]
    using that u k unat_minus_le [of "of_nat nb" x] by (auto simp: word_less_nat_alt word_le_nat_alt)
  then show ?thesis unfolding pick_any_def n(4) bind.simps Let_def n(5,6)
    by (intro yields_bind [OF drawn_bounded [OF assms(1) k0(1)]]) (use k0(2) in \<open>auto simp: yields_Some split: if_splits\<close>)
qed

lemma passive_price_ok:
  assumes "market_inv n sm" "s < unat (sm_symbols sm)"
  shows "yields (passive_price s d sm) (\<lambda>(px, sm'). sm_tick sm \<le> px \<and> px \<le> 1720000000 \<and> redrawn sm sm')"
proof -
  have sy: "sym_ok (sm_tick sm) (sm_syms sm ! s)" by (rule market_invD(8) [OF assms])
  have t: "1 \<le> sm_tick sm" "sm_tick sm \<le> 1000000" "shape sm" using market_invD [OF assms(1)] by simp_all
  have g: "yields (drawn (geometric 1 3 15) sm) (\<lambda>(x, sm'). x \<le> 15 \<and> redrawn sm sm')"
    by (intro drawn_redrawn returning_geometric market_invD [OF assms(1)]) simp_all
  have p: "sm_tick sm \<le> (if d = Side_buy then max (sm_tick sm) (ym_fair y - (1 + uint x) * sm_tick sm) else ym_fair y + (1 + uint x) * sm_tick sm) \<and>
      (if d = Side_buy then max (sm_tick sm) (ym_fair y - (1 + uint x) * sm_tick sm) else ym_fair y + (1 + uint x) * sm_tick sm) \<le> 1720000000"
    if "x \<le> 15" "y = sm_syms sm ! s" for x :: u32 and y
  proof -
    have x: "0 \<le> uint x" "uint x \<le> 15" using that(1) by (simp_all add: word_le_def)
    define D where "D = (1 + uint x) * sm_tick sm"
    have "D \<le> 16 * 1000000" "1 * sm_tick sm \<le> D" using t x unfolding D_def by (intro mult_mono; simp)+
    then show ?thesis unfolding D_def [symmetric] using sy t that(2) by (auto simp: sym_ok_def)
  qed
  show ?thesis unfolding passive_price_def Let_def
  proof (rule yields_bind [OF g])
    fix a :: "u32 \<times> SyntheticMarket"
    assume a: "case a of (x, sm') \<Rightarrow> x \<le> 15 \<and> redrawn sm sm'"
    obtain x g where [simp]: "a = (x, sm\<lparr>sm_rng := g\<rparr>)" using a by (auto simp: redrawn_def)
    have "sym_at s (sm\<lparr>sm_rng := g\<rparr>) = Some (sm_syms sm ! s)" using sym_at_ok [of "sm\<lparr>sm_rng := g\<rparr>" s] t(3) assms(2) by simp
    then show "yields (case a of (g, sm) \<Rightarrow> sym_at s sm \<bind> (\<lambda>y. Some (if d = Side_buy then max (sm_tick sm) (ym_fair y - (1 + uint g) * sm_tick sm)
        else ym_fair y + (1 + uint g) * sm_tick sm, sm))) (\<lambda>(px, sm'). sm_tick sm \<le> px \<and> px \<le> 1720000000 \<and> redrawn sm sm')"
      using a p [of x "sm_syms sm ! s"] by (auto simp: yields_Some split: if_splits)
  qed
qed

section \<open>Best orders\<close>

lemma ahead_of_trans: "ahead_of d a b \<Longrightarrow> ahead_of d b c \<Longrightarrow> ahead_of d a c"
  by (auto simp: ahead_of_def split: if_splits)

lemma ahead_of_linear: "lo_ref a \<noteq> lo_ref b \<Longrightarrow> \<not> ahead_of d a b \<Longrightarrow> ahead_of d b a"
  by (auto simp: ahead_of_def split: if_splits)

definition leads :: "Side \<Rightarrow> Live list \<Rightarrow> nat \<Rightarrow> nat \<Rightarrow> bool" where
  "leads d xs k i \<longleftrightarrow> i < k \<and> (\<forall>j < k. j \<noteq> i \<longrightarrow> ahead_of d (xs ! i) (xs ! j))"

lemma leads_Suc:
  assumes "leads d xs k i" "lo_ref (xs ! k) \<noteq> lo_ref (xs ! i)"
  shows "leads d xs (Suc k) (if ahead_of d (xs ! k) (xs ! i) then k else i)"
  using assms ahead_of_trans [of d "xs ! k" "xs ! i"] ahead_of_linear [of "xs ! k" "xs ! i" d] by (auto simp: leads_def less_Suc_eq)

lemma best_over_ok:
  assumes "shape sm" "on_market sm s d" "distinct (map lo_ref (side_list sm s d))" "n = length (side_list sm s d)"
  shows "k \<le> n \<Longrightarrow> (case best of None \<Rightarrow> k = 0 | Some i \<Rightarrow> leads d (side_list sm s d) k i) \<Longrightarrow>
    yields (best_over s d sm [k..<n] best) (\<lambda>b. case b of None \<Rightarrow> n = 0 | Some i \<Rightarrow> leads d (side_list sm s d) n i)"
proof (induction "n - k" arbitrary: k best)
  case 0
  then show ?case by (simp add: yields_Some split: option.splits)
next
  case (Suc m)
  let ?xs = "side_list sm s d"
  have k: "k < n" "m = n - Suc k" "Suc k \<le> n" "[k..<n] = k # [Suc k..<n]" using Suc.hyps(2) by (simp_all add: upt_conv_Cons)
  show ?case
  proof (cases best)
    case None
    then have "leads d ?xs (Suc k) k" using Suc.prems by (simp add: leads_def)
    then show ?thesis using Suc.hyps(1) [OF k(2,3), of "Some k"] None unfolding k(4) by simp
  next
    case (Some i)
    then have i: "leads d ?xs k i" "i < k" using Suc.prems(2) by (simp_all add: leads_def)
    then have "lo_ref (?xs ! k) \<noteq> lo_ref (?xs ! i)" using k(1) assms(4) nth_eq_iff_index_eq [OF assms(3), of k i] by simp
    from leads_Suc [OF i(1) this] show ?thesis
      using Suc.hyps(1) [OF k(2,3), of "if ahead_of d (?xs ! k) (?xs ! i) then Some k else best"] Some k(1) i(2) assms(4) unfolding k(4)
      by (auto simp: live_at_ok [OF assms(1,2)])
  qed
qed

lemma best_of_ok:
  assumes "market_inv n sm" "on_market sm s d"
  shows "yields (best_of s d sm) (\<lambda>b. case b of None \<Rightarrow> side_list sm s d = [] | Some i \<Rightarrow> leads d (side_list sm s d) (length (side_list sm s d)) i)"
proof -
  have sh: "shape sm" "distinct (map lo_ref (side_list sm s d))" using market_invD(1,6) [OF assms(1)] assms(2) by (auto simp: side_ok_def)
  have l: "count_of d (sm_syms sm ! s) = length (side_list sm s d)" using length_side_list [OF sh(1) assms(2)] by simp
  from best_over_ok [OF sh(1) assms(2) sh(2) refl, of 0 None] show ?thesis
    using assms(2) by (simp add: best_of_def sym_at_ok [OF sh(1)] l)
qed

lemma leads_all:
  assumes "leads d xs (length xs) i" "v \<in> set xs"
  shows "v = xs ! i \<or> ahead_of d (xs ! i) v"
  using assms unfolding leads_def in_set_conv_nth by metis

lemma meets_ok:
  assumes "market_inv n sm" "on_market sm s d"
  shows "yields (meets s d px sm) (\<lambda>c. if c then side_list sm s (opposite d) \<noteq> [] else \<forall>v \<in> set (side_list sm s (opposite d)). \<not> price_crosses d px (lo_price v))"
proof -
  let ?xs = "side_list sm s (opposite d)"
  have on: "on_market sm s (opposite d)" using assms(2) by simp
  have sh: "shape sm" by (rule market_invD [OF assms(1)])
  obtain b where b: "best_of s (opposite d) sm = Some b" "case b of None \<Rightarrow> ?xs = [] | Some i \<Rightarrow> leads (opposite d) ?xs (length ?xs) i"
    using best_of_ok [OF assms(1) on] by (auto simp: yields_def)
  show ?thesis
  proof (cases b)
    case (Some i)
    then have i: "leads (opposite d) ?xs (length ?xs) i" "i < length ?xs" using b(2) by (auto simp: leads_def)
    have "\<not> price_crosses d px (lo_price v)" if "v \<in> set ?xs" "\<not> price_crosses d px (lo_price (?xs ! i))" for v
      using leads_all [OF i(1) that(1)] that(2) assms(2) by (auto simp: ahead_of_def price_crosses_def valid_side_def split: if_splits)
    then show ?thesis using b(1) Some i(2) by (auto simp: meets_def yields_Some live_at_ok [OF sh on])
  qed (use b in \<open>simp add: meets_def yields_Some\<close>)
qed

section \<open>Changes of one side\<close>

lemma swap_remove:
  assumes "side_ok n tick xs" "i < length xs"
  shows "set (butlast (xs[i := last xs])) = set xs - {xs ! i}" "side_ok n tick (butlast (xs[i := last xs]))"
proof -
  obtain zs z where xs: "xs = zs @ [z]" using assms(2) by (cases xs rule: rev_cases) auto
  have d: "distinct (map lo_ref zs)" "lo_ref z \<notin> lo_ref ` set zs" "distinct zs" using assms(1) by (auto simp: side_ok_def xs distinct_map)
  have "set (butlast (xs[i := last xs])) = set xs - {xs ! i} \<and> distinct (map lo_ref (butlast (xs[i := last xs])))"
  proof (cases "i < length zs")
    case True
    have "zs ! i \<noteq> z" using d(2) True by auto
    moreover have "distinct (map lo_ref (zs[i := z]))" unfolding map_update using d(1,2) by (intro distinct_list_update) auto
    ultimately show ?thesis using True set_update_distinct [OF d(3) True, of z] by (auto simp: xs list_update_append nth_append)
  next
    case False
    then have "i = length zs" using assms(2) by (simp add: xs)
    then show ?thesis using d by (auto simp: xs)
  qed
  then show "set (butlast (xs[i := last xs])) = set xs - {xs ! i}" "side_ok n tick (butlast (xs[i := last xs]))"
    using assms(1) by (auto simp: side_ok_def)
qed

lemma side_update:
  assumes "side_ok n tick xs" "i < length xs" "live_ok n tick v" "lo_ref v = lo_ref (xs ! i) \<or> lo_ref v \<notin> lo_ref ` set xs"
  shows "set (xs[i := v]) = insert v (set xs - {xs ! i})" "side_ok n tick (xs[i := v])"
proof -
  have d: "distinct (map lo_ref xs)" "distinct xs" using assms(1) by (auto simp: side_ok_def distinct_map)
  show s: "set (xs[i := v]) = insert v (set xs - {xs ! i})" by (rule set_update_distinct [OF d(2) assms(2)])
  have "distinct (map lo_ref (xs[i := v]))" unfolding map_update using d(1) assms(2,4) by (intro distinct_list_update) auto
  then show "side_ok n tick (xs[i := v])" using assms(1,3) s by (auto simp: side_ok_def)
qed

text \<open>A price that does not reach the opposite side.\<close>

definition beside :: "SyntheticMarket \<Rightarrow> nat \<Rightarrow> Side \<Rightarrow> Price \<Rightarrow> bool" where
  "beside sm s d p \<longleftrightarrow> (\<forall>v \<in> set (side_list sm s (opposite d)). \<not> price_crosses d p (lo_price v))"

lemma beside_iff: "beside sm s d p \<longleftrightarrow> (\<forall>v \<in> set (side_list sm s (opposite d)). if d = Side_buy then p < lo_price v else lo_price v < p)"
  by (auto simp: beside_def price_crosses_def not_le)

lemma beside_resting:
  assumes "market_inv n sm" "on_market sm s d" "v \<in> set (side_list sm s d)"
  shows "beside sm s d (lo_price v)"
  using market_invD(7) [OF assms(1), of s] assms(2,3) by (auto simp: beside_iff apart_def valid_side_def)

lemma quoting_sym_ok: "sym_ok tick (quoting y) = sym_ok tick y"
  by (simp add: sym_ok_def quoting_def)

lemma restock_inv:
  assumes "market_inv n sm" "restock s d xs sm sm'" "on_market sm s d" "side_ok (sm_next_ref sm) (sm_tick sm) xs" "\<And>x. x \<in> set xs \<Longrightarrow> beside sm s d (lo_price x)"
  shows "market_inv n sm'"
proof -
  obtain syms book where e: "sm' = sm\<lparr>sm_syms := syms, sm_book := book\<rparr>" "map quoting syms = map quoting (sm_syms sm)" and sh: "shape sm'"
    and l: "\<And>s' d'. on_market sm s' d' \<Longrightarrow> side_list sm' s' d' = (if s' = s \<and> d' = d then xs else side_list sm s' d')"
    using assms(2) by (auto simp: restock_def)
  have "quoting ` set syms = quoting ` set (sm_syms sm)" using arg_cong [OF e(2), of set] by simp
  then have "sym_ok (sm_tick sm) y" if "y \<in> set syms" for y
    using that assms(1) quoting_sym_ok unfolding market_inv_def by (metis imageE imageI)
  moreover have "apart (side_list sm' s' Side_buy) (side_list sm' s' Side_sell)" if "s' < unat (sm_symbols sm)" for s'
    using l [of s' Side_buy] l [of s' Side_sell] that assms(3,5) market_invD(7) [OF assms(1) that]
    by (auto simp: apart_def beside_iff valid_side_def split: if_splits)
  moreover have "side_ok (sm_next_ref sm) (sm_tick sm) (side_list sm' s' d')" if "on_market sm s' d'" for s' d'
    using l [OF that] assms(4) market_invD(6) [OF assms(1) that] by simp
  ultimately show ?thesis using assms(1) sh unfolding market_inv_def by (auto simp: e(1))
qed

text \<open>The fields that no generator changes.\<close>

definition settled :: "SyntheticMarket \<Rightarrow> u16 \<times> u64 \<times> Price \<times> u32 \<times> Nanos \<times> Phase \<times> nat \<times> u64 \<times> u64 \<times> Nanos" where
  "settled sm = (sm_symbols sm, sm_flow_total sm, sm_tick sm, sm_period sm, sm_mean_gap sm, sm_phase sm, sm_cursor sm, sm_flow_index sm, sm_emitted sm, sm_ts sm)"

lemma settled_simps [simp]: "settled (sm\<lparr>sm_rng := g\<rparr>) = settled sm" "settled (sm\<lparr>sm_match := k\<rparr>) = settled sm" "settled (sm\<lparr>sm_next_ref := r\<rparr>) = settled sm"
  "settled (sm\<lparr>sm_event_toggle := e\<rparr>) = settled sm" "settled (sm\<lparr>sm_bull := b\<rparr>) = settled sm" "settled (sm\<lparr>sm_syms := ys\<rparr>) = settled sm" "settled (sm\<lparr>sm_book := vs\<rparr>) = settled sm"
  by (simp_all add: settled_def)

lemma settledD: "settled sm' = settled sm \<Longrightarrow> sm_symbols sm' = sm_symbols sm \<and> sm_tick sm' = sm_tick sm \<and> sm_ts sm' = sm_ts sm"
  by (simp add: settled_def)

lemma shadows_simps [simp]: "shadows (sm\<lparr>sm_rng := g\<rparr>) = shadows sm" "shadows (sm\<lparr>sm_match := k\<rparr>) = shadows sm"
  "shadows (sm\<lparr>sm_next_ref := r\<rparr>) = shadows sm" "shadows (sm\<lparr>sm_event_toggle := e\<rparr>) = shadows sm" "shadows (sm\<lparr>sm_bull := b\<rparr>) = shadows sm"
  "shadows (sm\<lparr>sm_ts := ts\<rparr>) = shadows sm" "shadows (sm\<lparr>sm_phase := ph\<rparr>) = shadows sm" "shadows (sm\<lparr>sm_cursor := c\<rparr>) = shadows sm"
  "shadows (sm\<lparr>sm_flow_index := f\<rparr>) = shadows sm" "shadows (sm\<lparr>sm_emitted := f\<rparr>) = shadows sm"
  by (simp_all add: shadows_def fun_eq_iff)

lemma market_inv_simps [simp]: "market_inv n (sm\<lparr>sm_match := k\<rparr>) = market_inv n sm" "market_inv n (sm\<lparr>sm_event_toggle := e\<rparr>) = market_inv n sm"
  "market_inv n (sm\<lparr>sm_bull := b\<rparr>) = market_inv n sm" "market_inv n (sm\<lparr>sm_phase := ph\<rparr>) = market_inv n sm" "market_inv n (sm\<lparr>sm_cursor := c\<rparr>) = market_inv n sm"
  "market_inv n (sm\<lparr>sm_flow_index := f\<rparr>) = market_inv n sm" "market_inv n (sm\<lparr>sm_emitted := f\<rparr>) = market_inv n sm"
  by (simp_all add: market_inv_def)

lemma market_inv_mono: "market_inv n sm \<Longrightarrow> n \<le> m \<Longrightarrow> market_inv m sm"
  by (auto simp: market_inv_def)

lemma restock_settled: "restock s d xs sm sm' \<Longrightarrow> settled sm' = settled sm"
  by (auto simp: restock_def)

lemma remove_ok:
  assumes "market_inv n sm" "on_market sm s d" "i < length (side_list sm s d)" "v = side_list sm s d ! i"
  shows "yields (remove_at s d i sm) (\<lambda>sm'. market_inv n sm' \<and> settled sm' = settled sm \<and> (\<forall>t. shadows sm t \<longrightarrow> shadows sm' (t(lo_ref v := None))))"
proof -
  let ?xs = "side_list sm s d"
  have sh: "shape sm" and ok: "side_ok (sm_next_ref sm) (sm_tick sm) ?xs" using market_invD(1,6) [OF assms(1)] assms(2) by auto
  show ?thesis
  proof (rule yields_mono [OF remove_at_ok [OF sh assms(2,3)]])
    fix sm' assume r: "restock s d (butlast (?xs[i := last ?xs])) sm sm'"
    show "market_inv n sm' \<and> settled sm' = settled sm \<and> (\<forall>t. shadows sm t \<longrightarrow> shadows sm' (t(lo_ref v := None)))"
      using restock_inv [OF assms(1) r assms(2) swap_remove(2) [OF ok assms(3)]] restock_settled [OF r] swap_remove(1) [OF ok assms(3)]
        shadows_remove [OF _ r assms(2), where u = v] beside_resting [OF assms(1,2)] assms(3,4) by auto
  qed
qed

lemma reduce_ok:
  assumes "market_inv n sm" "on_market sm s d" "i < length (side_list sm s d)" "v = side_list sm s d ! i" "0 < k" "k \<le> lo_qty v"
  shows "yields (reduce s d i k sm) (\<lambda>sm'. market_inv n sm' \<and> settled sm' = settled sm \<and> (\<forall>t. shadows sm t \<longrightarrow>
    shadows sm' (if k = lo_qty v then t(lo_ref v := None) else t(lo_ref v \<mapsto> (locate_of s, d, lo_price v, lo_qty v - k)))))"
proof -
  let ?xs = "side_list sm s d"
  have sh: "shape sm" and ok: "side_ok (sm_next_ref sm) (sm_tick sm) ?xs" using market_invD(1,6) [OF assms(1)] assms(2) by auto
  have v: "v \<in> set ?xs" "live_at (orders s d + i) sm = Some v" using assms(3,4) live_at_ok [OF sh assms(2,3)] by simp_all
  show ?thesis
  proof (cases "k = lo_qty v")
    case True
    from remove_ok [OF assms(1-4)] show ?thesis using True v(2) by (simp add: reduce_def)
  next
    case False
    define w where "w = v\<lparr>lo_qty := lo_qty v - k\<rparr>"
    have "live_ok (sm_next_ref sm) (sm_tick sm) v" using ok v(1) by (simp add: side_ok_def)
    moreover have "k < lo_qty v" using False assms(6) by simp
    ultimately have w: "live_ok (sm_next_ref sm) (sm_tick sm) w" "lo_ref w = lo_ref v" "lo_price w = lo_price v" "lo_qty w = lo_qty v - k"
      using unat_minus_le [OF assms(6)] by (auto simp: live_ok_def w_def word_less_nat_alt word_le_nat_alt)
    note u = side_update [OF ok assms(3) w(1)]
    have "yields (set_live (orders s d + i) w sm) (\<lambda>sm'. market_inv n sm' \<and> settled sm' = settled sm \<and>
      (\<forall>t. shadows sm t \<longrightarrow> shadows sm' (t(lo_ref v \<mapsto> (locate_of s, d, lo_price v, lo_qty v - k)))))"
    proof (rule yields_mono [OF set_live_ok [OF sh assms(2,3)]])
      fix sm' assume r: "restock s d (?xs[i := w]) sm sm'"
      have "beside sm s d (lo_price x)" if "x \<in> set (?xs[i := w])" for x
        using that u(1) w(2,3) assms(4) beside_resting [OF assms(1,2)] v(1) by auto
      from restock_inv [OF assms(1) r assms(2) u(2) this] show "market_inv n sm' \<and> settled sm' = settled sm \<and>
        (\<forall>t. shadows sm t \<longrightarrow> shadows sm' (t(lo_ref v \<mapsto> (locate_of s, d, lo_price v, lo_qty v - k))))"
        using restock_settled [OF r] shadows_update [OF _ r assms(2), where v = w and u = v] u(1) v(1) w(2-4) assms(4) by auto
    qed
    then show ?thesis using False v(2) assms(6) by (simp add: reduce_def w_def)
  qed
qed

end
