(* ===== verification/Synthetic_Market_Correct.thy ===== *)
theory Synthetic_Market_Correct
  imports Synthetic_Market_Inv
begin

text \<open>
  The synthetic market produces a valid feed: every generator returns, writes one well-formed message and
  changes the shadow model as the message changes the table of a consumer.
\<close>

section \<open>The generators\<close>

text \<open>
  One turn: a well-formed message stamped with the current time is written at the front of the buffer,
  the invariant holds afterwards, and a consumer that agreed with the shadow model still does.
\<close>

definition turn :: "nat \<Rightarrow> u8 list \<Rightarrow> SyntheticMarket \<Rightarrow> generated \<Rightarrow> bool" where
  "turn n out sm r \<longleftrightarrow> (\<exists>m sm'. r = ((length (itch_bytes m), itch_bytes m @ drop (length (itch_bytes m)) out), sm') \<and> wire_valid m \<and>
     h_timestamp (itch_header m) = sm_ts sm \<and> market_inv (Suc n) sm' \<and> settled sm' = settled sm \<and>
     (\<forall>t. shadows sm t \<longrightarrow> (\<exists>t'. feed_step m t = Some t' \<and> shadows sm' t')))"

lemma turn_redrawn: "turn n out sm' r \<Longrightarrow> redrawn sm sm' \<Longrightarrow> turn n out sm r"
  unfolding turn_def redrawn_def by (elim exE conjE) (simp, blast)

lemma timestamp_ok:
  assumes "ts \<le> kMaxTimestamp"
  shows "take_bit 48 ts = ts"
proof -
  have "unat ts \<le> 2 ^ 48 - 1" using assms by (simp add: kMaxTimestamp_def word_le_nat_alt)
  then have "take_bit 48 (unat ts) = unat ts" by (simp add: take_bit_nat_eq_self)
  then show ?thesis by (simp add: word_unat_eq_iff unsigned_take_bit_eq)
qed

lemma sm_emit_ok:
  assumes "wire_valid m" "kMaxMessageLength \<le> length out"
  shows "sm_emit m out sm = Some ((length (itch_bytes m), itch_bytes m @ drop (length (itch_bytes m)) out), sm)"
  using assms itch_bytes_short [of m] by (simp add: sm_emit_def encode_bytes wire_valid_def)

lemma sm_emit_turn:
  assumes "wire_valid m" "kMaxMessageLength \<le> length out" "h_timestamp (itch_header m) = sm_ts sm" "market_inv (Suc n) sm'" "settled sm' = settled sm"
    "\<And>t. shadows sm t \<Longrightarrow> \<exists>t'. feed_step m t = Some t' \<and> shadows sm' t'"
  shows "yields (sm_emit m out sm') (turn n out sm)"
  unfolding sm_emit_ok [OF assms(1,2)] yields_Some turn_def using assms by blast

lemma header_simps [simp]: "h_locate (header sm l) = l" "h_timestamp (header sm l) = sm_ts sm"
  by (simp_all add: header_def)

lemma market_inv_next_ref:
  assumes "market_inv n sm" "Suc n < 2 ^ 64"
  shows "market_inv (Suc n) (sm\<lparr>sm_next_ref := sm_next_ref sm + 1\<rparr>)" "sm_next_ref sm < sm_next_ref sm + 1"
proof -
  have n: "unat (sm_next_ref sm) \<le> n" using assms(1) by (simp add: market_inv_def)
  then have u: "unat (sm_next_ref sm + 1) = Suc (unat (sm_next_ref sm))" using assms(2) by (subst unat_add_no_overflow) simp_all
  then show less: "sm_next_ref sm < sm_next_ref sm + 1" by (simp add: word_less_nat_alt)
  have "side_ok (sm_next_ref sm + 1) (sm_tick sm) xs" if "side_ok (sm_next_ref sm) (sm_tick sm) xs" for xs
    using that less order.strict_trans [OF _ less] by (auto simp: side_ok_def live_ok_def)
  moreover have "0 < sm_next_ref sm + 1" using u by (simp add: word_less_nat_alt)
  ultimately show "market_inv (Suc n) (sm\<lparr>sm_next_ref := sm_next_ref sm + 1\<rparr>)"
    using assms(1) u n by (auto simp: market_inv_def)
qed

lemma shadows_fresh:
  assumes "market_inv n sm" "shadows sm t"
  shows "t (sm_next_ref sm) = None"
proof (rule ccontr)
  assume "t (sm_next_ref sm) \<noteq> None"
  then obtain l d p q where "t (sm_next_ref sm) = Some (l, d, p, q)" by auto
  then obtain s where "on_market sm s d" "\<lparr>lo_ref = sm_next_ref sm, lo_price = p, lo_qty = q\<rparr> \<in> set (side_list sm s d)"
    using assms(2) by (auto simp: shadows_def)
  then show False using market_invD(6) [OF assms(1)] by (fastforce simp: side_ok_def live_ok_def)
qed

lemma emit_add_ok:
  assumes "market_inv n sm" "Suc n < 2 ^ 64" "on_market sm s d" "length (side_list sm s d) < kCap" "kMaxMessageLength \<le> length out"
    "sm_tick sm \<le> px" "px \<le> 1800000000" "0 < q" "q \<le> 1000" "beside sm s d px"
  shows "yields (emit_add s d px q a out sm) (\<lambda>r. turn n out sm r \<and>
    restock s d (side_list sm s d @ [\<lparr>lo_ref = sm_next_ref sm, lo_price = px, lo_qty = q\<rparr>]) (sm\<lparr>sm_next_ref := sm_next_ref sm + 1\<rparr>) (snd r))"
proof -
  define v where "v = \<lparr>lo_ref = sm_next_ref sm, lo_price = px, lo_qty = q\<rparr>"
  define sm1 where "sm1 = sm\<lparr>sm_next_ref := sm_next_ref sm + 1\<rparr>"
  note nr = market_inv_next_ref [OF assms(1,2)]
  have sm1: "market_inv (Suc n) sm1" "shape sm1" "side_list sm1 = side_list sm" "on_market sm1 s d" "sm_symbols sm1 = sm_symbols sm" "sm_ts sm1 = sm_ts sm" "sm_syms sm1 = sm_syms sm"
    "settled sm1 = settled sm" "shadows sm1 = shadows sm" "sm_next_ref sm1 = sm_next_ref sm + 1" "sm_tick sm1 = sm_tick sm"
    using nr(1) market_invD(1) [OF assms(1)] assms(3) by (simp_all add: sm1_def)
  have sy: "sym_at s sm1 = Some (sm_syms sm ! s)" "length (ym_name (sm_syms sm ! s)) = 8"
    using sym_at_ok [OF sm1(2), of s] market_invD(8) [OF assms(1), of s] assms(3) by (simp_all add: sm1 sym_ok_def)
  define m where "m = IM_AddOrder \<lparr>ao_h = header sm1 (locate_of s), ao_ref = sm_next_ref sm, ao_side = d, ao_shares = q, ao_symbol = ym_name (sm_syms sm ! s), ao_price = px,
       ao_has_attribution = a, ao_mpid = if a then [asc CHR ''S'', asc CHR ''Y'', asc CHR ''N'', asc CHR ''T''] else replicate 4 0\<rparr>"
  have wire: "wire_valid m" using assms(3,6-8) sy(2) market_invD(3,9) [OF assms(1)] timestamp_ok
    by (auto simp: m_def wire_valid_def fits_wire_price_def sm1(6))
  have ok: "side_ok (sm_next_ref sm) (sm_tick sm) (side_list sm s d)" by (rule market_invD(6) [OF assms(1,3)])
  have xs: "side_ok (sm_next_ref sm1) (sm_tick sm1) (side_list sm s d @ [v])"
    using ok nr(2) order.strict_trans [OF _ nr(2)] assms(6-9) by (auto simp: side_ok_def live_ok_def v_def sm1)
  have "yields (push s d (sm_next_ref sm) px q sm1 \<bind> sm_emit m out) (\<lambda>r. turn n out sm r \<and> restock s d (side_list sm s d @ [v]) sm1 (snd r))"
  proof (rule yields_bind [OF push_ok [OF sm1(2,4)]])
    fix sm' assume "restock s d (side_list sm1 s d @ [\<lparr>lo_ref = sm_next_ref sm, lo_price = px, lo_qty = q\<rparr>]) sm1 sm'"
    then have r: "restock s d (side_list sm s d @ [v]) sm1 sm'" by (simp add: sm1 v_def)
    have inv: "market_inv (Suc n) sm'"
      using beside_resting [OF assms(1,3)] assms(10) by (intro restock_inv [OF sm1(1) r sm1(4) xs]) (auto simp: v_def beside_def sm1)
    have "\<exists>t'. feed_step m t = Some t' \<and> shadows sm' t'" if "shadows sm t" for t
      using shadows_insert [OF _ r sm1(4), where t = t and v = v] shadows_fresh [OF assms(1) that] that assms(8) by (simp add: m_def sm1 v_def)
    moreover have "h_timestamp (itch_header m) = sm_ts sm" "settled sm' = settled sm" using restock_settled [OF r] by (simp_all add: m_def sm1)
    ultimately have "yields (sm_emit m out sm') (turn n out sm)" by (intro sm_emit_turn [OF wire assms(5) _ inv])
    then show "yields (sm_emit m out sm') (\<lambda>r. turn n out sm r \<and> restock s d (side_list sm s d @ [v]) sm1 (snd r))"
      using r by (simp add: sm_emit_ok [OF wire assms(5)] yields_Some)
  qed (use assms(4) in \<open>simp add: sm1\<close>)
  then show ?thesis by (simp add: emit_add_def Let_def sm1_def [symmetric] sy(1) m_def [symmetric] v_def [symmetric])
qed

lemma redrawnD:
  assumes "redrawn sm sm'"
  shows "side_list sm' = side_list sm" "sm_symbols sm' = sm_symbols sm" "sm_tick sm' = sm_tick sm" "sm_ts sm' = sm_ts sm" "sm_syms sm' = sm_syms sm" "shadows sm' = shadows sm"
    "settled sm' = settled sm" "population s sm' = population s sm" "sm_next_ref sm' = sm_next_ref sm" "beside sm' = beside sm"
  using assms by (auto simp: redrawn_def population_def sym_at_def beside_def fun_eq_iff)

lemma draw_bind:
  assumes "yields x (\<lambda>(a, sm'). P a \<and> redrawn sm sm')" "\<And>a sm'. P a \<Longrightarrow> redrawn sm sm' \<Longrightarrow> yields (f a sm') Q"
  shows "yields (x \<bind> (\<lambda>(a, sm). f a sm)) Q"
  by (rule yields_bind [OF assms(1)]) (use assms(2) in auto)

lemma draw_turn:
  assumes "yields x (\<lambda>(a, sm'). P a \<and> redrawn sm sm')" "\<And>a sm'. P a \<Longrightarrow> redrawn sm sm' \<Longrightarrow> yields (f a sm') (turn n out sm')"
  shows "yields (x \<bind> (\<lambda>(a, sm). f a sm)) (turn n out sm)"
proof (rule draw_bind [OF assms(1)])
  fix a sm'
  assume "P a" and r: "redrawn sm sm'"
  from assms(2) [OF this] show "yields (f a sm') (turn n out sm)" by (rule yields_mono) (rule turn_redrawn [OF _ r])
qed

lemma pick_any_turn:
  assumes "market_inv n sm" "s < unat (sm_symbols sm)" "population s sm \<noteq> Some 0"
    "\<And>d i sm'. market_inv n sm' \<Longrightarrow> on_market sm' s d \<Longrightarrow> i < length (side_list sm' s d) \<Longrightarrow> yields (f d i sm') (turn n out sm')"
  shows "yields (pick_any s sm \<bind> (\<lambda>((d, i), sm). f d i sm)) (turn n out sm)"
proof -
  have p: "yields (pick_any s sm) (\<lambda>(di, sm'). (valid_side (fst di) \<and> snd di < length (side_list sm s (fst di))) \<and> redrawn sm sm')"
    by (rule yields_mono [OF pick_any_ok [OF assms(1-3)]]) auto
  show ?thesis
  proof (rule draw_turn [OF p])
    fix di sm'
    assume di: "valid_side (fst di) \<and> snd di < length (side_list sm s (fst di))" and r: "redrawn sm sm'"
    show "yields ((case di of (d, i) \<Rightarrow> f d i) sm') (turn n out sm')"
      using assms(4) [OF redrawn_inv [OF r assms(1)], of "fst di" "snd di"] di redrawnD(1,2) [OF r] assms(2) by (simp add: case_prod_unfold)
  qed
qed

lemma gen_delete_hit:
  assumes "market_inv n sm" "s < unat (sm_symbols sm)" "population s sm \<noteq> Some 0" "kMaxMessageLength \<le> length out"
  shows "yields (gen_delete s out sm) (turn n out sm)"
proof -
  obtain p where p: "population s sm = Some p" "p \<noteq> 0" using population_ok [OF assms(1,2)] assms(3) by simp
  show ?thesis unfolding gen_delete.simps [of s out sm] p(1) bind.simps if_not_P [OF p(2)] Let_def
  proof (rule pick_any_turn [OF assms(1-3)])
    fix d i sm'
    assume inv: "market_inv n sm'" and on: "on_market sm' s d" "i < length (side_list sm' s d)"
    define v where "v = side_list sm' s d ! i"
    have v: "v \<in> set (side_list sm' s d)" "live_at (orders s d + i) sm' = Some v" using on(2) live_at_ok [OF market_invD(1) [OF inv] on] by (simp_all add: v_def)
    let ?m = "IM_OrderDelete \<lparr>od_h = header sm' (locate_of s), od_ref = lo_ref v\<rparr>"
    have "yields (remove_at s d i sm' \<bind> sm_emit ?m out) (turn n out sm')"
    proof (rule yields_bind [OF remove_ok [OF inv on v_def]])
      fix sm2 assume a: "market_inv n sm2 \<and> settled sm2 = settled sm' \<and> (\<forall>t. shadows sm' t \<longrightarrow> shadows sm2 (t(lo_ref v := None)))"
      have "feed_step ?m t = Some (t(lo_ref v := None))" if "shadows sm' t" for t
        using shadows_entry [OF that on(1) v(1)] by simp
      then show "yields (sm_emit ?m out sm2) (turn n out sm')"
        using a assms(4) timestamp_ok [OF market_invD(9) [OF inv]] market_inv_mono [of n sm2 "Suc n"]
        by (intro sm_emit_turn) (auto simp: wire_valid_def fits_wire_price_def simp del: feed_step.simps)
    qed
    then show "yields (live_at (orders s d + i) sm' \<bind> (\<lambda>v.
      remove_at s d i sm' \<bind> sm_emit (IM_OrderDelete \<lparr>od_h = header sm' (locate_of s), od_ref = lo_ref v\<rparr>) out)) (turn n out sm')"
      by (simp add: v(2))
  qed
qed

lemma printed_price_ok:
  assumes "market_inv n sm" "sm_tick sm \<le> p" "p \<le> 1800000000"
  shows "yields (printed_price d p sm) (\<lambda>(px, sm'). (0 \<le> px \<and> px \<le> 0xFFFFFFFF) \<and> redrawn sm sm')"
  unfolding printed_price_def Let_def
  by (rule yields_bind [OF drawn_chance [OF assms(1)]]) (use assms market_invD(3,4) [OF assms(1)] redrawnD(3) in \<open>auto simp: yields_Some\<close>)

lemma exec_message_ok:
  assumes "market_inv n sm" "sm_tick sm \<le> lo_price v" "lo_price v \<le> 1800000000" "kMaxMessageLength \<le> length out"
  shows "yields (exec_message wp s d v k out sm) (\<lambda>(r, sm'). redrawn sm sm' \<and> (\<exists>m. r = (length (itch_bytes m), itch_bytes m @ drop (length (itch_bytes m)) out) \<and>
    wire_valid m \<and> h_timestamp (itch_header m) = sm_ts sm \<and> feed_step m = take_shares True (locate_of s) (lo_ref v) k))"
proof -
  have ts: "take_bit 48 (sm_ts sm) = sm_ts sm" by (rule timestamp_ok [OF market_invD(9) [OF assms(1)]])
  have e: "yields (sm_emit m out sm') (\<lambda>(r, sm'). redrawn sm sm' \<and> (\<exists>m. r = (length (itch_bytes m), itch_bytes m @ drop (length (itch_bytes m)) out) \<and>
    wire_valid m \<and> h_timestamp (itch_header m) = sm_ts sm \<and> feed_step m = take_shares True (locate_of s) (lo_ref v) k))"
    if "wire_valid m" "h_timestamp (itch_header m) = sm_ts sm" "feed_step m = take_shares True (locate_of s) (lo_ref v) k" "redrawn sm sm'" for m sm'
    unfolding sm_emit_ok [OF that(1) assms(4)] yields_Some using that by auto
  show ?thesis
  proof (cases wp)
    case True
    show ?thesis unfolding exec_message_def if_P [OF True]
    proof (rule yields_bind [OF printed_price_ok [OF assms(1-3)]])
      fix a :: "Price \<times> SyntheticMarket"
      assume a: "case a of (px, sm') \<Rightarrow> (0 \<le> px \<and> px \<le> 0xFFFFFFFF) \<and> redrawn sm sm'"
      obtain px sm' where [simp]: "a = (px, sm')" by (cases a)
      have r: "redrawn sm sm'" "0 \<le> px" "px \<le> 0xFFFFFFFF" using a by auto
      show "yields (case a of (px, sm) \<Rightarrow> sm_emit (IM_OrderExecutedPrice \<lparr>oep_h = header sm (locate_of s), oep_ref = lo_ref v, oep_shares = k,
          oep_match = sm_match sm, oep_printable = True, oep_price = px\<rparr>) out sm) (\<lambda>(r, sm'). redrawn sm sm' \<and> (\<exists>m. r = (length (itch_bytes m), itch_bytes m @ drop (length (itch_bytes m)) out) \<and>
          wire_valid m \<and> h_timestamp (itch_header m) = sm_ts sm \<and> feed_step m = take_shares True (locate_of s) (lo_ref v) k))"
        unfolding \<open>a = _\<close> prod.case using r redrawnD(4) [OF r(1)] ts by (intro e) (auto simp: wire_valid_def fits_wire_price_def fun_eq_iff)
    qed
  next
    case False
    show ?thesis unfolding exec_message_def if_not_P [OF False]
      using ts redrawn_refl [OF assms(1)] by (intro e) (auto simp: wire_valid_def fits_wire_price_def fun_eq_iff)
  qed
qed

lemma take_shares_entry:
  assumes "t r = Some (l, d, p, q)" "0 < k" "k \<le> q" "f \<Longrightarrow> foremost t r l d p"
  shows "take_shares f l r k t = Some (if k = q then t(r := None) else t(r \<mapsto> (l, d, p, q - k)))"
  using assms by (auto simp: take_shares_def)

lemma leads_foremost:
  assumes "shadows sm t" "on_market sm s d" "leads d (side_list sm s d) (length (side_list sm s d)) i" "v = side_list sm s d ! i"
  shows "foremost t (lo_ref v) (locate_of s) d (lo_price v)"
  unfolding foremost_def
proof (intro allI impI)
  fix r' p' q'
  assume "t r' = Some (locate_of s, d, p', q')"
  then have "\<lparr>lo_ref = r', lo_price = p', lo_qty = q'\<rparr> \<in> set (side_list sm s d)" using shadowsD [OF assms(1,2)] by simp
  from leads_all [OF assms(3) this] show "r' = lo_ref v \<or> (if d = Side_buy then p' < lo_price v else lo_price v < p') \<or> p' = lo_price v \<and> lo_ref v < r'"
    unfolding assms(4) [symmetric] Live_eq by (auto simp: ahead_of_def)
qed

lemma gen_execute_hit:
  assumes "market_inv n sm" "on_market sm s d" "side_list sm s d \<noteq> []" "kMaxMessageLength \<le> length out"
  shows "yields (gen_execute s d want wp out sm) (turn n out sm)"
proof -
  let ?xs = "side_list sm s d"
  obtain i where b: "best_of s d sm = Some (Some i)" "leads d ?xs (length ?xs) i"
    using best_of_ok [OF assms(1,2)] assms(3) by (auto simp: yields_def split: option.splits)
  define v where "v = ?xs ! i"
  have i: "i < length ?xs" using b(2) by (simp add: leads_def)
  then have v: "v \<in> set ?xs" "live_at (orders s d + i) sm = Some v" using live_at_ok [OF market_invD(1) [OF assms(1)] assms(2) i] by (simp_all add: v_def)
  then have ok: "live_ok (sm_next_ref sm) (sm_tick sm) v" using market_invD(6) [OF assms(1,2)] by (simp add: side_ok_def)
  define draw_shares where "draw_shares = (if want \<noteq> 0 then Some (min want (lo_qty v), sm) else population s sm \<bind> (\<lambda>pop. removal_shares (lo_qty v) pop sm))"
  have k: "yields draw_shares (\<lambda>(k, sm'). (0 < k \<and> k \<le> lo_qty v) \<and> redrawn sm sm')"
    using removal_shares_ok [OF assms(1), of "lo_qty v"] ok population_ok [OF assms(1)] assms(2) redrawn_refl [OF assms(1)]
    by (auto simp: draw_shares_def live_ok_def yields_Some word_gt_0 min_def)
  have "yields (draw_shares \<bind> (\<lambda>(k, sm). exec_message wp s d v k out (sm\<lparr>sm_match := sm_match sm + 1\<rparr>) \<bind> (\<lambda>(r, sm).
      reduce s d i k sm \<bind> (\<lambda>sm. Some (r, sm))))) (turn n out sm)"
  proof (rule draw_turn [OF k])
    fix k sm1
    assume k: "0 < k \<and> k \<le> lo_qty v" and r: "redrawn sm sm1"
    define sm2 where "sm2 = sm1\<lparr>sm_match := sm_match sm1 + 1\<rparr>"
    have s2: "market_inv n sm2" "side_list sm2 = side_list sm" "sm_symbols sm2 = sm_symbols sm" "sm_tick sm2 = sm_tick sm" "sm_ts sm2 = sm_ts sm1" "settled sm2 = settled sm1" "shadows sm2 = shadows sm1"
      using redrawn_inv [OF r assms(1)] redrawnD [OF r] by (simp_all add: sm2_def)
    have p: "sm_tick sm2 \<le> lo_price v" "lo_price v \<le> 1800000000" using ok s2(4) by (simp_all add: live_ok_def)
    show "yields (exec_message wp s d v k out (sm1\<lparr>sm_match := sm_match sm1 + 1\<rparr>) \<bind> (\<lambda>(r, sm). reduce s d i k sm \<bind> (\<lambda>sm. Some (r, sm)))) (turn n out sm1)"
      unfolding sm2_def [symmetric]
    proof (rule yields_bind [OF exec_message_ok [OF s2(1) p assms(4)]], elim case_prodE conjE exE, clarsimp simp only: prod.case)
      fix sm3 m
      assume r3: "redrawn sm2 sm3" and m: "wire_valid m" "h_timestamp (itch_header m) = sm_ts sm2" "feed_step m = take_shares True (locate_of s) (lo_ref v) k"
      have on: "on_market sm3 s d" "i < length (side_list sm3 s d)" "v = side_list sm3 s d ! i" using redrawnD [OF r3] s2 assms(2) i by (simp_all add: v_def)
      show "yields (reduce s d i k sm3 \<bind> (\<lambda>sm. Some ((length (itch_bytes m), itch_bytes m @ drop (length (itch_bytes m)) out), sm))) (turn n out sm1)"
      proof (rule yields_bind [OF reduce_ok [OF redrawn_inv [OF r3 s2(1)] on]])
        fix sm4
        assume a: "market_inv n sm4 \<and> settled sm4 = settled sm3 \<and> (\<forall>t. shadows sm3 t \<longrightarrow>
          shadows sm4 (if k = lo_qty v then t(lo_ref v := None) else t(lo_ref v \<mapsto> (locate_of s, d, lo_price v, lo_qty v - k))))"
        have "\<exists>t'. feed_step m t = Some t' \<and> shadows sm4 t'" if t: "shadows sm1 t" for t
        proof -
          have t3: "shadows sm t" "shadows sm3 t" using t redrawnD(6) [OF r] redrawnD(6) [OF r3] s2(7) by simp_all
          show ?thesis unfolding m(3) using a t3(2) k
            take_shares_entry [where t = t and r = "lo_ref v", OF shadows_entry [OF t3(1) assms(2) v(1)], of k True]
            leads_foremost [OF t3(1) assms(2) b(2) v_def] by auto
        qed
        then show "yields (Some ((length (itch_bytes m), itch_bytes m @ drop (length (itch_bytes m)) out), sm4)) (turn n out sm1)"
          unfolding yields_Some turn_def using a m(1,2) s2(5,6) redrawnD(7) [OF r3] market_inv_mono [of n sm4 "Suc n"]
          by (intro exI [of _ m] exI [of _ sm4]) auto
      qed (use k in auto)
    qed
  qed
  then show ?thesis unfolding draw_shares_def by (subst gen_execute.simps) (simp add: b(1) v(2) Let_def)
qed

lemma gen_add_ok:
  assumes "market_inv n sm" "Suc n < 2 ^ 64" "s < unat (sm_symbols sm)" "kMaxMessageLength \<le> length out"
  shows "yields (gen_add s out sm) (turn n out sm)"
proof (subst gen_add.simps, rule draw_turn [OF pick_side_ok [OF assms(1)]])
  fix d sm1
  assume d: "valid_side d" and r1: "redrawn sm sm1"
  note i1 = redrawn_inv [OF r1 assms(1)]
  have s1: "s < unat (sm_symbols sm1)" using assms(3) redrawnD(2) [OF r1] by simp
  have px: "yields (passive_price s d sm1) (\<lambda>(px, sm'). (sm_tick sm1 \<le> px \<and> px \<le> 1720000000) \<and> redrawn sm1 sm')"
    using passive_price_ok [OF i1 s1, of d] by (simp add: conj_assoc)
  show "yields (passive_price s d sm1 \<bind> (\<lambda>(px, sm). random_qty sm \<bind> (\<lambda>(qty, sm). drawn (chance 1 10) sm \<bind> (\<lambda>(attributed, sm).
    meets s d px sm \<bind> (\<lambda>crossed. if crossed then gen_execute s (opposite d) qty False out sm else sym_at s sm \<bind> (\<lambda>y.
      if kCap \<le> count_of d y then gen_delete s out sm else emit_add s d px qty attributed out sm)))))) (turn n out sm1)"
  proof (rule draw_turn [OF px])
    fix px sm2
    assume px: "sm_tick sm1 \<le> px \<and> px \<le> 1720000000" and r2: "redrawn sm1 sm2"
    note i2 = redrawn_inv [OF r2 i1]
    have q: "yields (random_qty sm2) (\<lambda>(q, sm'). (0 < q \<and> q \<le> 1000) \<and> redrawn sm2 sm')" using random_qty_ok [OF i2] by (simp add: conj_assoc)
    show "yields (random_qty sm2 \<bind> (\<lambda>(qty, sm). drawn (chance 1 10) sm \<bind> (\<lambda>(attributed, sm).
      meets s d px sm \<bind> (\<lambda>crossed. if crossed then gen_execute s (opposite d) qty False out sm else sym_at s sm \<bind> (\<lambda>y.
        if kCap \<le> count_of d y then gen_delete s out sm else emit_add s d px qty attributed out sm))))) (turn n out sm2)"
    proof (rule draw_turn [OF q], rule draw_turn [where P = "\<lambda>_. True"])
      fix qty :: Qty and sm3
      assume r3: "redrawn sm2 sm3"
      show "yields (drawn (chance 1 10) sm3) (\<lambda>(a, sm'). True \<and> redrawn sm3 sm')" using drawn_chance [OF redrawn_inv [OF r3 i2], of 10 1] by simp
      fix attributed sm4
      assume qty: "0 < qty \<and> qty \<le> 1000" and r4: "redrawn sm3 sm4"
      have i4: "market_inv n sm4" using redrawn_inv [OF r4 redrawn_inv [OF r3 i2]] .
      have f: "on_market sm4 s d" "sm_tick sm4 \<le> px" using s1 d px redrawnD(2,3) [OF r2] redrawnD(2,3) [OF r3] redrawnD(2,3) [OF r4] by simp_all
      show "yields (meets s d px sm4 \<bind> (\<lambda>crossed. if crossed then gen_execute s (opposite d) qty False out sm4 else sym_at s sm4 \<bind> (\<lambda>y.
        if kCap \<le> count_of d y then gen_delete s out sm4 else emit_add s d px qty attributed out sm4))) (turn n out sm4)"
      proof (rule yields_bind [OF meets_ok [OF i4 f(1)]])
        fix c
        assume c: "if c then side_list sm4 s (opposite d) \<noteq> [] else \<forall>v \<in> set (side_list sm4 s (opposite d)). \<not> price_crosses d px (lo_price v)"
        have sy: "sym_at s sm4 = Some (sm_syms sm4 ! s)" "length (side_list sm4 s d) = count_of d (sm_syms sm4 ! s)"
          using sym_at_ok [OF market_invD(1) [OF i4]] length_side_list [OF market_invD(1) [OF i4] f(1)] f(1) by simp_all
        have "yields (emit_add s d px qty attributed out sm4) (turn n out sm4)" if "\<not> c" "\<not> kCap \<le> count_of d (sm_syms sm4 ! s)"
          using emit_add_ok [OF i4 assms(2) f(1) _ assms(4) f(2), of qty attributed] that c qty px sy(2) by (auto simp: beside_def elim: yields_mono)
        then show "yields (if c then gen_execute s (opposite d) qty False out sm4 else sym_at s sm4 \<bind> (\<lambda>y.
          if kCap \<le> count_of d y then gen_delete s out sm4 else emit_add s d px qty attributed out sm4)) (turn n out sm4)"
          using c f(1) sy(1) gen_execute_hit [OF i4 _ _ assms(4), of s "opposite d"] gen_delete_hit [OF i4 _ full_side_populated [OF sy(1)] assms(4)] by simp
      qed
    qed
  qed
qed

lemma gen_delete_ok:
  assumes "market_inv n sm" "Suc n < 2 ^ 64" "s < unat (sm_symbols sm)" "kMaxMessageLength \<le> length out"
  shows "yields (gen_delete s out sm) (turn n out sm)"
proof (cases "population s sm = Some 0")
  case True
  then show ?thesis using gen_add_ok [OF assms] by (subst gen_delete.simps) simp
qed (use gen_delete_hit assms in blast)

lemma gen_cancel_ok:
  assumes "market_inv n sm" "Suc n < 2 ^ 64" "s < unat (sm_symbols sm)" "kMaxMessageLength \<le> length out"
  shows "yields (gen_cancel s out sm) (turn n out sm)"
proof (cases "population s sm = Some 0")
  case True
  then show ?thesis using gen_add_ok [OF assms] by (simp add: gen_cancel_def)
next
  case False
  obtain p where p: "population s sm = Some p" "p \<noteq> 0" using population_ok [OF assms(1,3)] False by simp
  show ?thesis unfolding gen_cancel_def p(1) bind.simps if_not_P [OF p(2)] Let_def
  proof (rule pick_any_turn [OF assms(1,3) False])
    fix d i sm1
    assume inv: "market_inv n sm1" and on: "on_market sm1 s d" "i < length (side_list sm1 s d)"
    define v where "v = side_list sm1 s d ! i"
    have v: "v \<in> set (side_list sm1 s d)" "live_at (orders s d + i) sm1 = Some v" using on(2) live_at_ok [OF market_invD(1) [OF inv] on] by (simp_all add: v_def)
    then have q: "0 < lo_qty v" "lo_qty v \<le> 1000" using market_invD(6) [OF inv on(1)] by (auto simp: side_ok_def live_ok_def)
    obtain pop where pop: "population s sm1 = Some pop" using population_ok [OF inv] on(1) by blast
    have k: "yields (removal_shares (lo_qty v) pop sm1) (\<lambda>(k, sm'). (0 < k \<and> k \<le> lo_qty v) \<and> redrawn sm1 sm')"
      using removal_shares_ok [OF inv q] by (simp add: conj_assoc)
    have "yields (removal_shares (lo_qty v) pop sm1 \<bind> (\<lambda>(k, sm). reduce s d i k sm \<bind>
      sm_emit (IM_OrderCancel \<lparr>oc_h = header sm (locate_of s), oc_ref = lo_ref v, oc_shares = k\<rparr>) out)) (turn n out sm1)"
    proof (rule draw_turn [OF k])
      fix k sm2
      assume k: "0 < k \<and> k \<le> lo_qty v" and r: "redrawn sm1 sm2"
      let ?m = "IM_OrderCancel \<lparr>oc_h = header sm2 (locate_of s), oc_ref = lo_ref v, oc_shares = k\<rparr>"
      have on2: "on_market sm2 s d" "i < length (side_list sm2 s d)" "v = side_list sm2 s d ! i" "v \<in> set (side_list sm2 s d)"
        using on v(1) redrawnD(1,2) [OF r] by (simp_all add: v_def)
      note inv2 = redrawn_inv [OF r inv]
      show "yields (reduce s d i k sm2 \<bind> sm_emit ?m out) (turn n out sm2)"
      proof (rule yields_bind [OF reduce_ok [OF inv2 on2(1-3)]])
        fix sm3
        assume a: "market_inv n sm3 \<and> settled sm3 = settled sm2 \<and> (\<forall>t. shadows sm2 t \<longrightarrow>
          shadows sm3 (if k = lo_qty v then t(lo_ref v := None) else t(lo_ref v \<mapsto> (locate_of s, d, lo_price v, lo_qty v - k))))"
        have "\<exists>t'. feed_step ?m t = Some t' \<and> shadows sm3 t'" if t: "shadows sm2 t" for t
          using a t k take_shares_entry [where t = t and r = "lo_ref v", OF shadows_entry [OF t on2(1,4)], of k False] by auto
        then show "yields (sm_emit ?m out sm3) (turn n out sm2)"
          using a assms(4) timestamp_ok [OF market_invD(9) [OF inv2]] market_inv_mono [of n sm3 "Suc n"]
          by (intro sm_emit_turn) (auto simp: wire_valid_def fits_wire_price_def simp del: feed_step.simps)
      qed (use k in auto)
    qed
    then show "yields (live_at (orders s d + i) sm1 \<bind> (\<lambda>v. population s sm1 \<bind> (\<lambda>pop. removal_shares (lo_qty v) pop sm1 \<bind> (\<lambda>(k, sm).
      reduce s d i k sm \<bind> sm_emit (IM_OrderCancel \<lparr>oc_h = header sm (locate_of s), oc_ref = lo_ref v, oc_shares = k\<rparr>) out)))) (turn n out sm1)"
      by (simp add: v(2) pop)
  qed
qed

lemma gen_exec_flow_ok:
  assumes "market_inv n sm" "Suc n < 2 ^ 64" "s < unat (sm_symbols sm)" "kMaxMessageLength \<le> length out"
  shows "yields (gen_exec_flow s wp out sm) (turn n out sm)"
  unfolding gen_exec_flow_def
proof (rule draw_turn [OF pick_side_ok [OF assms(1)]])
  fix d sm1
  assume d: "valid_side d" and r: "redrawn sm sm1"
  note inv = redrawn_inv [OF r assms(1)]
  have s: "s < unat (sm_symbols sm1)" using assms(3) redrawnD(2) [OF r] by simp
  have sy: "sym_at s sm1 = Some (sm_syms sm1 ! s)" using sym_at_ok [OF market_invD(1) [OF inv] s] .
  have "yields (gen_execute s d' 0 wp out sm1) (turn n out sm1)" if "valid_side d'" "count_of d' (sm_syms sm1 ! s) \<noteq> 0" for d'
    using that s length_side_list [OF market_invD(1) [OF inv], of s d'] by (intro gen_execute_hit [OF inv _ _ assms(4)]) auto
  then show "yields (sym_at s sm1 \<bind> (\<lambda>y. let target = if count_of (opposite d) y = 0 then d else opposite d in
    if count_of target y = 0 then gen_add s out sm1 else gen_execute s target 0 wp out sm1)) (turn n out sm1)"
    using gen_add_ok [OF inv assms(2) s assms(4)] d by (simp add: sy Let_def)
qed

text \<open>A replacement keeps its place in the list and takes a new reference.\<close>

lemma replace_ok:
  assumes "market_inv n sm" "Suc n < 2 ^ 64" "on_market sm s d" "i < length (side_list sm s d)" "v = side_list sm s d ! i" "kMaxMessageLength \<le> length out"
    "sm_tick sm \<le> px" "px \<le> 1800000000" "0 < q" "q \<le> 1000" "beside sm s d px"
  shows "yields (set_live (orders s d + i) \<lparr>lo_ref = sm_next_ref sm, lo_price = px, lo_qty = q\<rparr> (sm\<lparr>sm_next_ref := sm_next_ref sm + 1\<rparr>) \<bind>
    sm_emit (IM_OrderReplace \<lparr>orp_h = header sm (locate_of s), orp_old_ref = lo_ref v, orp_new_ref = sm_next_ref sm, orp_shares = q, orp_price = px\<rparr>) out) (turn n out sm)"
proof -
  define w where "w = \<lparr>lo_ref = sm_next_ref sm, lo_price = px, lo_qty = q\<rparr>"
  define sm1 where "sm1 = sm\<lparr>sm_next_ref := sm_next_ref sm + 1\<rparr>"
  let ?m = "IM_OrderReplace \<lparr>orp_h = header sm (locate_of s), orp_old_ref = lo_ref v, orp_new_ref = sm_next_ref sm, orp_shares = q, orp_price = px\<rparr>"
  let ?xs = "side_list sm s d"
  note nr = market_inv_next_ref [OF assms(1,2)]
  have sm1: "market_inv (Suc n) sm1" "shape sm1" "side_list sm1 = side_list sm" "on_market sm1 s d" "settled sm1 = settled sm" "shadows sm1 = shadows sm"
    "sm_next_ref sm1 = sm_next_ref sm + 1" "sm_tick sm1 = sm_tick sm"
    using nr(1) market_invD(1) [OF assms(1)] assms(3) by (simp_all add: sm1_def)
  have ok: "side_ok (sm_next_ref sm) (sm_tick sm) ?xs" by (rule market_invD(6) [OF assms(1,3)])
  have v: "v \<in> set ?xs" using assms(4,5) by simp
  have fresh: "lo_ref w \<notin> lo_ref ` set ?xs" using ok by (auto simp: w_def side_ok_def live_ok_def)
  have "live_ok (sm_next_ref sm1) (sm_tick sm1) w" using assms(7-10) nr(2) by (simp add: live_ok_def w_def sm1)
  moreover have "side_ok (sm_next_ref sm1) (sm_tick sm1) ?xs" using market_invD(6) [OF sm1(1,4)] sm1(3) by simp
  ultimately have u: "set (?xs[i := w]) = insert w (set ?xs - {v})" "side_ok (sm_next_ref sm1) (sm_tick sm1) (?xs[i := w])"
    using side_update [OF _ assms(4)] fresh assms(5) by auto
  have "yields (set_live (orders s d + i) w sm1 \<bind> sm_emit ?m out) (turn n out sm)"
  proof (rule yields_bind [OF set_live_ok [OF sm1(2,4)]])
    fix sm' assume "restock s d ((side_list sm1 s d)[i := w]) sm1 sm'"
    then have r: "restock s d (?xs[i := w]) sm1 sm'" by (simp add: sm1)
    have inv: "market_inv (Suc n) sm'"
      using beside_resting [OF assms(1,3)] assms(11) u(1) by (intro restock_inv [OF sm1(1) r sm1(4) u(2)]) (auto simp: w_def beside_def sm1)
    have "\<exists>t'. feed_step ?m t = Some t' \<and> shadows sm' t'" if "shadows sm t" for t
      using shadows_update [OF _ r sm1(4), where t = t and v = w and u = v] shadows_fresh [OF assms(1) that] shadows_entry [OF that assms(3) v] that v u(1) assms(9)
      by (simp add: sm1 w_def)
    then show "yields (sm_emit ?m out sm') (turn n out sm)"
      using inv restock_settled [OF r] sm1(5) assms(6-8) timestamp_ok [OF market_invD(9) [OF assms(1)]] market_invD(3) [OF assms(1)]
      by (intro sm_emit_turn) (auto simp: wire_valid_def fits_wire_price_def simp del: feed_step.simps)
  qed (use assms(4) in \<open>simp add: sm1\<close>)
  then show ?thesis by (simp add: w_def sm1_def)
qed

lemma gen_replace_ok:
  assumes "market_inv n sm" "Suc n < 2 ^ 64" "s < unat (sm_symbols sm)" "kMaxMessageLength \<le> length out"
  shows "yields (gen_replace s out sm) (turn n out sm)"
proof (cases "population s sm = Some 0")
  case True
  then show ?thesis using gen_add_ok [OF assms] by (simp add: gen_replace_def)
next
  case False
  obtain p where p: "population s sm = Some p" "p \<noteq> 0" using population_ok [OF assms(1,3)] False by simp
  show ?thesis unfolding gen_replace_def p(1) bind.simps if_not_P [OF p(2)] Let_def
  proof (rule pick_any_turn [OF assms(1,3) False])
    fix d i sm1
    assume inv: "market_inv n sm1" and on: "on_market sm1 s d" "i < length (side_list sm1 s d)"
    define v where "v = side_list sm1 s d ! i"
    have v: "v \<in> set (side_list sm1 s d)" "live_at (orders s d + i) sm1 = Some v" using on(2) live_at_ok [OF market_invD(1) [OF inv] on] by (simp_all add: v_def)
    have px: "yields (passive_price s d sm1) (\<lambda>(px, sm'). (sm_tick sm1 \<le> px \<and> px \<le> 1720000000) \<and> redrawn sm1 sm')"
      using passive_price_ok [OF inv, of s d] on(1) by (simp add: conj_assoc)
    show "yields (live_at (orders s d + i) sm1 \<bind> (\<lambda>v. passive_price s d sm1 \<bind> (\<lambda>(px, sm). random_qty sm \<bind> (\<lambda>(qty, sm). meets s d px sm \<bind> (\<lambda>crossed.
      set_live (orders s d + i) \<lparr>lo_ref = sm_next_ref sm, lo_price = if crossed then lo_price v else px, lo_qty = qty\<rparr> (sm\<lparr>sm_next_ref := sm_next_ref sm + 1\<rparr>) \<bind>
      sm_emit (IM_OrderReplace \<lparr>orp_h = header sm (locate_of s), orp_old_ref = lo_ref v, orp_new_ref = sm_next_ref sm, orp_shares = qty,
        orp_price = if crossed then lo_price v else px\<rparr>) out))))) (turn n out sm1)"
      unfolding v(2) bind.simps
    proof (rule draw_turn [OF px])
      fix px sm2
      assume px: "sm_tick sm1 \<le> px \<and> px \<le> 1720000000" and r2: "redrawn sm1 sm2"
      note i2 = redrawn_inv [OF r2 inv]
      have q: "yields (random_qty sm2) (\<lambda>(q, sm'). (0 < q \<and> q \<le> 1000) \<and> redrawn sm2 sm')" using random_qty_ok [OF i2] by (simp add: conj_assoc)
      show "yields (random_qty sm2 \<bind> (\<lambda>(qty, sm). meets s d px sm \<bind> (\<lambda>crossed.
        set_live (orders s d + i) \<lparr>lo_ref = sm_next_ref sm, lo_price = if crossed then lo_price v else px, lo_qty = qty\<rparr> (sm\<lparr>sm_next_ref := sm_next_ref sm + 1\<rparr>) \<bind>
        sm_emit (IM_OrderReplace \<lparr>orp_h = header sm (locate_of s), orp_old_ref = lo_ref v, orp_new_ref = sm_next_ref sm, orp_shares = qty,
          orp_price = if crossed then lo_price v else px\<rparr>) out))) (turn n out sm2)"
      proof (rule draw_turn [OF q])
        fix qty :: Qty and sm3
        assume qty: "0 < qty \<and> qty \<le> 1000" and r3: "redrawn sm2 sm3"
        note i3 = redrawn_inv [OF r3 i2]
        have l: "side_list sm3 = side_list sm1" "sm_symbols sm3 = sm_symbols sm1" "sm_tick sm3 = sm_tick sm1" using redrawnD(1-3) [OF r2] redrawnD(1-3) [OF r3] by simp_all
        then have on3: "on_market sm3 s d" "i < length (side_list sm3 s d)" "v = side_list sm3 s d ! i" "v \<in> set (side_list sm3 s d)" using on v(1) by (simp_all add: v_def)
        have vp: "sm_tick sm3 \<le> lo_price v" "lo_price v \<le> 1800000000" using market_invD(6) [OF i3 on3(1)] on3(4) by (auto simp: side_ok_def live_ok_def)
        show "yields (meets s d px sm3 \<bind> (\<lambda>crossed.
          set_live (orders s d + i) \<lparr>lo_ref = sm_next_ref sm3, lo_price = if crossed then lo_price v else px, lo_qty = qty\<rparr> (sm3\<lparr>sm_next_ref := sm_next_ref sm3 + 1\<rparr>) \<bind>
          sm_emit (IM_OrderReplace \<lparr>orp_h = header sm3 (locate_of s), orp_old_ref = lo_ref v, orp_new_ref = sm_next_ref sm3, orp_shares = qty,
            orp_price = if crossed then lo_price v else px\<rparr>) out)) (turn n out sm3)"
          using beside_resting [OF i3 on3(1,4)] px qty vp l(3)
          by (intro yields_bind [OF meets_ok [OF i3 on3(1)]] replace_ok [OF i3 assms(2) on3(1-3) assms(4)]) (auto simp: beside_def split: if_splits)
      qed
    qed
  qed
qed

lemma tick_round_bounds: "1 \<le> t \<Longrightarrow> 0 \<le> p \<Longrightarrow> 0 \<le> tick_round t p \<and> tick_round t p \<le> p"
  by (simp add: tick_round_def pos_imp_zdiv_nonneg_iff) (metis minus_mod_eq_div_mult pos_mod_sign zle_diff1_eq diff_le_eq le_add_same_cancel1 zero_less_one order_less_le_trans)

lemma trade_price_ok:
  assumes "market_inv n sm" "s < unat (sm_symbols sm)"
  shows "yields (trade_price s sm) (\<lambda>p. 0 \<le> p \<and> p \<le> 0xFFFFFFFF)"
proof -
  have sh: "shape sm" and t: "1 \<le> sm_tick sm" using market_invD [OF assms(1)] by simp_all
  have on: "on_market sm s Side_buy" "on_market sm s Side_sell" using assms(2) by simp_all
  obtain bb ba where b: "best_of s Side_buy sm = Some bb" "best_of s Side_sell sm = Some ba"
    "\<And>i. bb = Some i \<Longrightarrow> i < length (side_list sm s Side_buy)" "\<And>i. ba = Some i \<Longrightarrow> i < length (side_list sm s Side_sell)"
    using best_of_ok [OF assms(1) on(1)] best_of_ok [OF assms(1) on(2)] by (auto simp: yields_def leads_def split: option.splits)
  have pr: "0 \<le> lo_price v \<and> lo_price v \<le> 1800000000" if "on_market sm s d" "v \<in> set (side_list sm s d)" for d v
    using market_invD(6) [OF assms(1) that(1)] that(2) t by (auto simp: side_ok_def live_ok_def)
  have mid: "0 \<le> tick_round (sm_tick sm) ((p + q) div 2) \<and> tick_round (sm_tick sm) ((p + q) div 2) \<le> 0xFFFFFFFF"
    if "0 \<le> p" "p \<le> 1800000000" "0 \<le> q" "q \<le> 1800000000" for p q
    using tick_round_bounds [OF t, of "(p + q) div 2"] that by linarith
  have fair: "0 \<le> ym_fair (sm_syms sm ! s)" "ym_fair (sm_syms sm ! s) \<le> 0xFFFFFFFF" using market_invD(8) [OF assms] t by (auto simp: sym_ok_def)
  show ?thesis unfolding trade_price_def
    using fair b mid pr [OF on(1) nth_mem] pr [OF on(2) nth_mem] by (auto simp: sym_at_ok [OF sh assms(2)] yields_Some live_at_ok [OF sh on(1)] live_at_ok [OF sh on(2)] split: option.splits)
qed

lemma sm_emit_quiet:
  assumes "market_inv n sm" "wire_valid m" "kMaxMessageLength \<le> length out" "h_timestamp (itch_header m) = sm_ts sm" "\<And>t. feed_step m t = Some t"
    "market_inv n sm'" "settled sm' = settled sm" "shadows sm' = shadows sm"
  shows "yields (sm_emit m out sm') (turn n out sm)"
  using assms market_inv_mono [of n sm' "Suc n"] by (intro sm_emit_turn) auto

lemma gen_trade_ok:
  assumes "market_inv n sm" "s < unat (sm_symbols sm)" "kMaxMessageLength \<le> length out"
  shows "yields (gen_trade s out sm) (turn n out sm)"
  unfolding gen_trade_def
proof (rule draw_turn [OF pick_side_ok [OF assms(1)]])
  fix d sm1
  assume d: "valid_side d" and r1: "redrawn sm sm1"
  note i1 = redrawn_inv [OF r1 assms(1)]
  show "yields (drawn (bounded 5) sm1 \<bind> (\<lambda>(x, sm). trade_price s sm \<bind> (\<lambda>px. sym_at s sm \<bind> (\<lambda>y. let sm = sm\<lparr>sm_match := sm_match sm + 1\<rparr> in
     sm_emit (IM_Trade \<lparr>tr_h = header sm (locate_of s), tr_ref = 0, tr_side = d, tr_shares = ucast (100 * (1 + x)), tr_symbol = ym_name y,
       tr_price = px, tr_match = sm_match sm\<rparr>) out sm)))) (turn n out sm1)"
  proof (rule draw_turn [OF drawn_bounded [OF i1]])
    fix x sm2
    assume r2: "redrawn sm1 sm2"
    note i2 = redrawn_inv [OF r2 i1]
    have s: "s < unat (sm_symbols sm2)" using assms(2) redrawnD(2) [OF r1] redrawnD(2) [OF r2] by simp
    have sy: "sym_at s sm2 = Some (sm_syms sm2 ! s)" "length (ym_name (sm_syms sm2 ! s)) = 8"
      using sym_at_ok [OF market_invD(1) [OF i2] s] market_invD(8) [OF i2 s] by (simp_all add: sym_ok_def)
    show "yields (trade_price s sm2 \<bind> (\<lambda>px. sym_at s sm2 \<bind> (\<lambda>y. let sm = sm2\<lparr>sm_match := sm_match sm2 + 1\<rparr> in
       sm_emit (IM_Trade \<lparr>tr_h = header sm (locate_of s), tr_ref = 0, tr_side = d, tr_shares = ucast (100 * (1 + x)), tr_symbol = ym_name y,
         tr_price = px, tr_match = sm_match sm\<rparr>) out sm))) (turn n out sm2)"
      unfolding sy(1) bind.simps Let_def
      using i2 d sy(2) assms(3) timestamp_ok [OF market_invD(9) [OF i2]]
      by (intro yields_bind [OF trade_price_ok [OF i2 s]] sm_emit_quiet [OF i2]) (auto simp: wire_valid_def fits_wire_price_def)
  qed simp_all
qed

lemma turn_same: "turn n out sm' r \<Longrightarrow> settled sm' = settled sm \<Longrightarrow> shadows sm' = shadows sm \<Longrightarrow> turn n out sm r"
  by (simp add: turn_def settledD [of sm' sm])

lemma step_fair_ok:
  assumes "market_inv n sm" "s < unat (sm_symbols sm)"
  shows "yields (step_fair s sm) (\<lambda>sm'. market_inv n sm' \<and> settled sm' = settled sm \<and> shadows sm' = shadows sm)"
proof -
  have moved: "market_inv n sm' \<and> settled sm' = settled sm2 \<and> shadows sm' = shadows sm2"
    if i2: "market_inv n sm2" and s: "s < unat (sm_symbols sm2)"
      and sm': "sm' = set_sym s ((sm_syms sm2 ! s)\<lparr>ym_fair := clamp p (ym_lo (sm_syms sm2 ! s)) (ym_hi (sm_syms sm2 ! s))\<rparr>) sm2" for p sm2 sm'
  proof -
    let ?y = "(sm_syms sm2 ! s)\<lparr>ym_fair := clamp p (ym_lo (sm_syms sm2 ! s)) (ym_hi (sm_syms sm2 ! s))\<rparr>"
    have y: "sym_ok (sm_tick sm2) ?y" using market_invD(8) [OF i2 s] by (auto simp: sym_ok_def clamp_def)
    have c: "count_of d (sm_syms sm' ! s') = count_of d (sm_syms sm2 ! s')" if "s' < unat (sm_symbols sm2)" for d s'
      using that s market_invD(1) [OF i2] by (cases d) (auto simp: sm' set_sym_def nth_list_update shape_def)
    have l: "side_list sm' s' d = side_list sm2 s' d" if "s' < unat (sm_symbols sm2)" for d s'
      using c [OF that] by (simp add: side_list_def) (simp add: sm' set_sym_def)
    have f: "sm' = sm2\<lparr>sm_syms := (sm_syms sm2)[s := ?y]\<rparr>" by (simp add: sm' set_sym_def)
    have "shape sm'" using market_invD(1) [OF i2] c by (auto simp: shape_def) (simp_all add: f)
    moreover have "\<forall>y \<in> set (sm_syms sm'). sym_ok (sm_tick sm2) y" using i2 y set_update_subset_insert [of "sm_syms sm2" s ?y] by (auto simp: f market_inv_def)
    ultimately show ?thesis using i2 l by (auto simp: market_inv_def shadows_def fun_eq_iff) (auto simp: f)
  qed
  show ?thesis unfolding step_fair_def
  proof (rule draw_bind [OF drawn_bounded [OF assms(1)]])
    fix x :: u64 and sm1
    assume r: "redrawn sm sm1"
    note i1 = redrawn_inv [OF r assms(1)]
    have d1: "settled sm1 = settled sm" "shadows sm1 = shadows sm" "s < unat (sm_symbols sm1)" using redrawnD [OF r] assms(2) by simp_all
    have "yields (drawn (chance (if sm_bull sm1 then 11 else 9) 20) sm1) (\<lambda>(up, sm'). True \<and> redrawn sm1 sm')" using drawn_chance [OF i1, of 20] by simp
    then have "yields (drawn (chance (if sm_bull sm1 then 11 else 9) 20) sm1 \<bind> (\<lambda>(up, sm). sym_at s sm \<bind> (\<lambda>y.
       Some (set_sym s (y\<lparr>ym_fair := clamp (ym_fair y + (if up then sm_tick sm else - sm_tick sm)) (ym_lo y) (ym_hi y)\<rparr>) sm))))
       (\<lambda>sm'. market_inv n sm' \<and> settled sm' = settled sm \<and> shadows sm' = shadows sm)"
    proof (rule draw_bind)
      fix up sm2
      assume r2: "redrawn sm1 sm2"
      have s2: "s < unat (sm_symbols sm2)" "market_inv n sm2" using redrawnD(2) [OF r2] d1(3) redrawn_inv [OF r2 i1] by simp_all
      show "yields (sym_at s sm2 \<bind> (\<lambda>y. Some (set_sym s (y\<lparr>ym_fair := clamp (ym_fair y + (if up then sm_tick sm2 else - sm_tick sm2)) (ym_lo y) (ym_hi y)\<rparr>) sm2)))
        (\<lambda>sm'. market_inv n sm' \<and> settled sm' = settled sm \<and> shadows sm' = shadows sm)"
        unfolding sym_at_ok [OF market_invD(1) [OF s2(2)] s2(1)] bind.simps yields_Some using moved [OF s2(2,1) refl] redrawnD(6,7) [OF r2] d1 by simp
    qed
    then show "yields (if x \<noteq> 0 then Some sm1 else drawn (chance (if sm_bull sm1 then 11 else 9) 20) sm1 \<bind> (\<lambda>(up, sm). sym_at s sm \<bind> (\<lambda>y.
       Some (set_sym s (y\<lparr>ym_fair := clamp (ym_fair y + (if up then sm_tick sm else - sm_tick sm)) (ym_lo y) (ym_hi y)\<rparr>) sm))))
       (\<lambda>sm'. market_inv n sm' \<and> settled sm' = settled sm \<and> shadows sm' = shadows sm)"
      using i1 d1 by (simp add: yields_Some)
  qed simp_all
qed

lemma flow_message_ok:
  assumes "market_inv n sm" "Suc n < 2 ^ 64" "s < unat (sm_symbols sm)" "kMaxMessageLength \<le> length out"
  shows "yields (flow_message r s out sm) (turn n out sm)"
proof -
  have "yields (let code = (if even (unat (sm_event_toggle sm)) then asc CHR ''Q'' else asc CHR ''M''); sm = sm\<lparr>sm_event_toggle := sm_event_toggle sm + 1\<rparr> in
     sm_emit (IM_SystemEvent \<lparr>se_h = header sm 0, se_event_code = code\<rparr>) out sm) (turn n out sm)"
    unfolding Let_def using assms(1,4) timestamp_ok [OF market_invD(9) [OF assms(1)]]
    by (intro sm_emit_quiet [OF assms(1)]) (auto simp: wire_valid_def fits_wire_price_def)
  then show ?thesis unfolding flow_message_def
    by (intro yields_if gen_add_ok [OF assms] gen_delete_ok [OF assms] gen_cancel_ok [OF assms] gen_exec_flow_ok [OF assms] gen_replace_ok [OF assms]
      gen_trade_ok [OF assms(1,3,4)])
qed

lemma gen_flow_ok:
  assumes "market_inv n sm" "Suc n < 2 ^ 64" "kMaxMessageLength \<le> length out"
  shows "yields (gen_flow out sm) (turn n out sm)"
proof -
  have z: "(ucast (sm_symbols sm) :: u64) \<noteq> 0" and u: "unat (ucast (sm_symbols sm) :: u64) = unat (sm_symbols sm)"
    using market_invD(2) [OF assms(1)] unsigned_less [of "sm_symbols sm", where ?'a = nat] by (simp_all add: unat_ucast_small flip: unat_eq_0)
  show ?thesis unfolding gen_flow_def Let_def
  proof (rule draw_turn [OF drawn_bounded [OF assms(1) z]])
    fix x :: u64 and sm1
    assume x: "x < ucast (sm_symbols sm)" and r1: "redrawn sm sm1"
    have i1: "market_inv n sm1" "unat x < unat (sm_symbols sm1)" using redrawn_inv [OF r1 assms(1)] x u redrawnD(2) [OF r1] by (simp_all add: word_less_nat_alt)
    show "yields (step_fair (unat x) sm1 \<bind> (\<lambda>sm. drawn (bounded 1000) sm \<bind> (\<lambda>(r, sm). flow_message r (unat x) out sm))) (turn n out sm1)"
    proof (rule yields_bind [OF step_fair_ok [OF i1]])
      fix sm2
      assume a: "market_inv n sm2 \<and> settled sm2 = settled sm1 \<and> shadows sm2 = shadows sm1"
      then have i2: "market_inv n sm2" "unat x < unat (sm_symbols sm2)" using i1(2) settledD [of sm2 sm1] by simp_all
      have "yields (drawn (bounded 1000) sm2 \<bind> (\<lambda>(r, sm). flow_message r (unat x) out sm)) (turn n out sm2)"
        using redrawn_inv [OF _ i2(1)] redrawnD(2) i2(2) by (intro draw_turn [OF drawn_bounded [OF i2(1)]] flow_message_ok [OF _ assms(2) _ assms(3)]) simp_all
      then show "yields (drawn (bounded 1000) sm2 \<bind> (\<lambda>(r, sm). flow_message r (unat x) out sm)) (turn n out sm1)"
        by (rule yields_mono) (use a in \<open>blast intro: turn_same\<close>)
    qed
  qed simp
qed

section \<open>The preamble\<close>

text \<open>The orders on each side after the first \<open>k\<close> preamble orders of a symbol, and their prices.\<close>

definition bids_placed :: "nat \<Rightarrow> nat" where
  "bids_placed k = 2 * (k div 4) + min 2 (k mod 4)"

definition asks_placed :: "nat \<Rightarrow> nat" where
  "asks_placed k = 2 * (k div 4) + (k mod 4 - 2)"

definition depth_ok :: "nat \<Rightarrow> SyntheticMarket \<Rightarrow> bool" where
  "depth_ok c sm \<longleftrightarrow> (\<forall>s < unat (sm_symbols sm).
     map lo_price (side_list sm s Side_buy) = map (\<lambda>j. ym_fair (sm_syms sm ! s) - int (j div 2 + 1) * sm_tick sm) [0..<bids_placed (min 24 (c - 24 * s))] \<and>
     map lo_price (side_list sm s Side_sell) = map (\<lambda>j. ym_fair (sm_syms sm ! s) + int (j div 2 + 1) * sm_tick sm) [0..<asks_placed (min 24 (c - 24 * s))])"

lemma placed_table: "\<forall>i \<in> set [0..<24]. bids_placed i \<le> 12 \<and> asks_placed i \<le> 12 \<and>
  (if even (i div 2) then bids_placed (Suc i) = Suc (bids_placed i) \<and> asks_placed (Suc i) = asks_placed i \<and> bids_placed i div 2 = i div 4
   else asks_placed (Suc i) = Suc (asks_placed i) \<and> bids_placed (Suc i) = bids_placed i \<and> asks_placed i div 2 = i div 4)"
  by code_simp

lemma placed_Suc:
  assumes "i < 24"
  shows "bids_placed i \<le> 12" "asks_placed i \<le> 12"
    "even (i div 2) \<Longrightarrow> bids_placed (Suc i) = Suc (bids_placed i) \<and> asks_placed (Suc i) = asks_placed i \<and> bids_placed i div 2 = i div 4"
    "odd (i div 2) \<Longrightarrow> asks_placed (Suc i) = Suc (asks_placed i) \<and> bids_placed (Suc i) = bids_placed i \<and> asks_placed i div 2 = i div 4"
  using bspec [OF placed_table, of i] assms by (simp_all split: if_splits)

lemma restock_fair:
  assumes "restock s d xs sm sm'" "s' < length (sm_syms sm)"
  shows "ym_fair (sm_syms sm' ! s') = ym_fair (sm_syms sm ! s')"
proof -
  obtain syms where e: "sm_syms sm' = syms" "map quoting syms = map quoting (sm_syms sm)" using assms(1) by (auto simp: restock_def)
  then have "s' < length syms" using assms(2) map_eq_imp_length_eq by fastforce
  then have "quoting (syms ! s') = quoting (sm_syms sm ! s')" using e(2) assms(2) by (metis nth_map)
  then show ?thesis unfolding e(1) quoting_def by (metis Sym.select_convs(2) Sym.surjective Sym.update_convs(5,6))
qed

lemma cursor_split:
  fixes c s :: nat
  shows "min 24 (c - 24 * (c div 24)) = c mod 24" "min 24 (Suc c - 24 * (c div 24)) = Suc (c mod 24)"
    "s \<noteq> c div 24 \<Longrightarrow> min 24 (Suc c - 24 * s) = min 24 (c - 24 * s)"
proof -
  define a b where "a = c div 24" and "b = c mod 24"
  have c: "c = 24 * a + b" "b < 24" by (simp_all add: a_def b_def)
  show "min 24 (c - 24 * (c div 24)) = c mod 24" "min 24 (Suc c - 24 * (c div 24)) = Suc (c mod 24)"
    unfolding a_def [symmetric] b_def [symmetric] using c by auto
  assume "s \<noteq> c div 24"
  then have "s < a \<or> a < s" unfolding a_def [symmetric] by auto
  then show "min 24 (Suc c - 24 * s) = min 24 (c - 24 * s)" using c by auto
qed

lemma depth_restock:
  assumes "depth_ok c sm" "shape sm" "c div 24 < unat (sm_symbols sm)" "d = (if even (c mod 24 div 2) then Side_buy else Side_sell)"
    "restock (c div 24) d (side_list sm (c div 24) d @ [v]) sm1 sm'" "side_list sm1 = side_list sm" "sm_symbols sm1 = sm_symbols sm" "sm_syms sm1 = sm_syms sm" "sm_tick sm1 = sm_tick sm"
    "lo_price v = (if d = Side_buy then ym_fair (sm_syms sm ! (c div 24)) - int (c mod 24 div 4 + 1) * sm_tick sm else ym_fair (sm_syms sm ! (c div 24)) + int (c mod 24 div 4 + 1) * sm_tick sm)"
  shows "depth_ok (Suc c) sm'"
  unfolding depth_ok_def
proof (intro allI impI)
  fix s'
  assume s'': "s' < unat (sm_symbols sm')"
  have e: "sm_symbols sm' = sm_symbols sm" "sm_tick sm' = sm_tick sm" using assms(5,7,9) by (auto simp: restock_def)
  then have s': "s' < unat (sm_symbols sm)" using s'' by simp
  then have f: "ym_fair (sm_syms sm' ! s') = ym_fair (sm_syms sm ! s')" using restock_fair [OF assms(5), of s'] assms(2,8) by (simp add: shape_def)
  have l: "side_list sm' s' d' = (if s' = c div 24 \<and> d' = d then side_list sm s' d' @ [v] else side_list sm s' d')" if "valid_side d'" for d'
    using assms(5,6,7) s' that by (auto simp: restock_def)
  note p = assms(1) [unfolded depth_ok_def, rule_format, OF s']
  show "map lo_price (side_list sm' s' Side_buy) = map (\<lambda>j. ym_fair (sm_syms sm' ! s') - int (j div 2 + 1) * sm_tick sm') [0..<bids_placed (min 24 (Suc c - 24 * s'))] \<and>
     map lo_price (side_list sm' s' Side_sell) = map (\<lambda>j. ym_fair (sm_syms sm' ! s') + int (j div 2 + 1) * sm_tick sm') [0..<asks_placed (min 24 (Suc c - 24 * s'))]"
  proof (cases "s' = c div 24")
    case True
    have "c mod 24 < 24" by simp
    note q = placed_Suc [OF this]
    show ?thesis
    proof (cases "even (c mod 24 div 2)")
      case even: True
      then show ?thesis using p l [of Side_buy] l [of Side_sell] q(3) [OF even] assms(4,10) unfolding f e unfolding True cursor_split(1,2) by simp
    next
      case odd: False
      then show ?thesis using p l [of Side_buy] l [of Side_sell] q(4) [OF odd] assms(4,10) unfolding f e unfolding True cursor_split(1,2) by simp
    qed
  next
    case False
    then show ?thesis using p l [of Side_buy] l [of Side_sell] unfolding f e cursor_split(3) [OF False] by simp
  qed
qed

lemma depth_rng [simp]: "depth_ok c (sm\<lparr>sm_rng := g\<rparr>) = depth_ok c sm" "depth_ok c (sm\<lparr>sm_ts := ts\<rparr>) = depth_ok c sm" "depth_ok c (sm\<lparr>sm_phase := ph\<rparr>) = depth_ok c sm"
  "depth_ok c (sm\<lparr>sm_cursor := k\<rparr>) = depth_ok c sm" "depth_ok c (sm\<lparr>sm_emitted := em\<rparr>) = depth_ok c sm" "depth_ok c (sm\<lparr>sm_bull := b\<rparr>) = depth_ok c sm"
  by (simp_all add: depth_ok_def)

lemma depth_beside:
  assumes "depth_ok c sm" "market_inv n sm" "on_market sm s d" "if d = Side_buy then px < ym_fair (sm_syms sm ! s) else ym_fair (sm_syms sm ! s) < px"
  shows "beside sm s d px"
  unfolding beside_iff
proof
  fix v
  assume v: "v \<in> set (side_list sm s (opposite d))"
  have t: "0 \<le> int k * sm_tick sm" for k using market_invD(3) [OF assms(2)] by simp
  have p: "map lo_price (side_list sm s Side_buy) = map (\<lambda>j. ym_fair (sm_syms sm ! s) - int (j div 2 + 1) * sm_tick sm) [0..<bids_placed (min 24 (c - 24 * s))]"
    "map lo_price (side_list sm s Side_sell) = map (\<lambda>j. ym_fair (sm_syms sm ! s) + int (j div 2 + 1) * sm_tick sm) [0..<asks_placed (min 24 (c - 24 * s))]"
    using assms(1,3) by (simp_all add: depth_ok_def)
  have m: "lo_price v \<in> set (map lo_price (side_list sm s (opposite d)))" using v by simp
  have "if d = Side_buy then ym_fair (sm_syms sm ! s) \<le> lo_price v else lo_price v \<le> ym_fair (sm_syms sm ! s)"
  proof (cases "d = Side_buy")
    case True
    obtain j where "lo_price v = ym_fair (sm_syms sm ! s) + int (j div 2 + 1) * sm_tick sm" using m unfolding True opposite_simps p(2) by auto
    then show ?thesis using True t [of "j div 2 + 1"] by simp
  next
    case False
    then have d: "d = Side_sell" using assms(3) by (auto simp: valid_side_def)
    obtain j where "lo_price v = ym_fair (sm_syms sm ! s) - int (j div 2 + 1) * sm_tick sm" using m unfolding d opposite_simps p(1) by auto
    then show ?thesis using d t [of "j div 2 + 1"] by simp
  qed
  then show "if d = Side_buy then px < lo_price v else lo_price v < px" using assms(4) by (auto split: if_splits)
qed

lemma gen_preamble_ok:
  assumes "market_inv n sm" "Suc n < 2 ^ 64" "kMaxMessageLength \<le> length out" "depth_ok (sm_cursor sm) sm" "sm_cursor sm < unat (sm_symbols sm) * 24"
  shows "yields (gen_preamble out sm) (\<lambda>r. turn n out sm r \<and> depth_ok (Suc (sm_cursor sm)) (snd r))"
proof -
  define c s i where "c = sm_cursor sm" and "s = c div 24" and "i = c mod 24"
  define d where "d = (if even (i div 2) then Side_buy else Side_sell)"
  define y where "y = sm_syms sm ! s"
  define dist where "dist = int (i div 4 + 1) * sm_tick sm"
  define px where "px = (if d = Side_buy then ym_fair y - dist else ym_fair y + dist)"
  have s: "s < unat (sm_symbols sm)" and i: "i < 24" using assms(5) by (simp_all add: s_def c_def i_def less_mult_imp_div_less)
  have on: "on_market sm s d" using s by (simp add: d_def)
  have t: "1 \<le> sm_tick sm" "sm_tick sm \<le> 1000000" and sh: "shape sm" using market_invD [OF assms(1)] by simp_all
  have "1 * sm_tick sm \<le> dist" "dist \<le> 6 * sm_tick sm" unfolding dist_def using i t by (intro mult_right_mono; simp)+
  then have px: "sm_tick sm \<le> px" "px \<le> 1800000000" "if d = Side_buy then px < ym_fair y else ym_fair y < px"
    using market_invD(8) [OF assms(1) s] t by (auto simp: px_def sym_ok_def y_def)
  have be: "beside sm s d px" by (rule depth_beside [OF assms(4,1) on px(3) [unfolded y_def]])
  have "map lo_price (side_list sm s Side_buy) = map (\<lambda>j. ym_fair y - int (j div 2 + 1) * sm_tick sm) [0..<bids_placed i]"
    "map lo_price (side_list sm s Side_sell) = map (\<lambda>j. ym_fair y + int (j div 2 + 1) * sm_tick sm) [0..<asks_placed i]"
    using assms(4) s cursor_split(1) [of c] unfolding depth_ok_def y_def i_def s_def c_def [symmetric] by metis+
  from arg_cong [OF this(1), of length] arg_cong [OF this(2), of length] have cap: "length (side_list sm s d) < kCap"
    using placed_Suc(1,2) [OF i] by (simp add: d_def kCap_def)
  have q: "yields (random_qty sm) (\<lambda>(q, sm'). (0 < q \<and> q \<le> 1000) \<and> redrawn sm sm')" using random_qty_ok [OF assms(1)] by (simp add: conj_assoc)
  have "yields (random_qty sm \<bind> (\<lambda>(qty, sm). emit_add s d px qty False out sm)) (\<lambda>r. turn n out sm r \<and> depth_ok (Suc c) (snd r))"
  proof (rule draw_bind [OF q])
    fix q :: Qty and sm1
    assume q: "0 < q \<and> q \<le> 1000" and r: "redrawn sm sm1"
    have s1: "market_inv n sm1" "on_market sm1 s d" "length (side_list sm1 s d) < kCap" "sm_tick sm1 \<le> px" "beside sm1 s d px" "side_list sm1 = side_list sm" "sm_syms sm1 = sm_syms sm"
      using redrawn_inv [OF r assms(1)] redrawnD [OF r] on cap px(1) be by simp_all
    let ?v = "\<lparr>lo_ref = sm_next_ref sm1, lo_price = px, lo_qty = q\<rparr>"
    have "yields (emit_add s d px q False out sm1) (\<lambda>r. turn n out sm1 r \<and> restock s d (side_list sm1 s d @ [?v]) (sm1\<lparr>sm_next_ref := sm_next_ref sm1 + 1\<rparr>) (snd r))"
      using q by (intro emit_add_ok [OF s1(1) assms(2) s1(2,3) assms(3) s1(4) px(2) _ _ s1(5)]) simp_all
    then show "yields (emit_add s d px q False out sm1) (\<lambda>r. turn n out sm r \<and> depth_ok (Suc c) (snd r))"
    proof (rule yields_mono)
      fix res
      assume a: "turn n out sm1 res \<and> restock s d (side_list sm1 s d @ [?v]) (sm1\<lparr>sm_next_ref := sm_next_ref sm1 + 1\<rparr>) (snd res)"
      have "depth_ok (Suc c) (snd res)"
        by (rule depth_restock [OF assms(4) [folded c_def] sh, where d = d and v = ?v and ?sm1.0 = "sm1\<lparr>sm_next_ref := sm_next_ref sm1 + 1\<rparr>"])
          (use a s s1(6,7) redrawnD(2,3) [OF r] in \<open>simp_all add: d_def i_def s_def px_def dist_def y_def\<close>)
      then show "turn n out sm res \<and> depth_ok (Suc c) (snd res)" using a turn_redrawn [OF _ r] by blast
    qed
  qed
  moreover have "gen_preamble out sm = random_qty sm \<bind> (\<lambda>(qty, sm). emit_add s d px qty False out sm)"
    using sym_at_ok [OF sh s] by (simp add: gen_preamble_def Let_def kPreambleOrders_def kPreambleLevels_def s_def i_def d_def px_def dist_def y_def c_def)
  ultimately show ?thesis by (simp add: c_def)
qed

lemma gen_directory_ok:
  assumes "market_inv n sm" "kMaxMessageLength \<le> length out" "sm_cursor sm < unat (sm_symbols sm)"
  shows "yields (gen_directory out sm) (\<lambda>r. turn n out sm r \<and> snd r = sm)"
proof -
  define m where "m = IM_StockDirectory \<lparr>sd_h = header sm (locate_of (sm_cursor sm)), sd_symbol = ym_name (sm_syms sm ! sm_cursor sm), sd_market_category = asc CHR ''Q'',
       sd_financial_status = asc CHR ''N'', sd_round_lot_size = 100, sd_round_lots_only = asc CHR ''N'', sd_issue_classification = asc CHR ''C'',
       sd_issue_subtype = [asc CHR ''Z'', asc CHR '' ''], sd_authenticity = asc CHR ''P'', sd_short_sale_threshold = asc CHR ''N'',
       sd_ipo_flag = asc CHR '' '', sd_luld_tier = asc CHR ''1'', sd_etp_flag = asc CHR ''N'', sd_etp_leverage = 0, sd_inverse = asc CHR ''N''\<rparr>"
  have sy: "sym_at (sm_cursor sm) sm = Some (sm_syms sm ! sm_cursor sm)" by (rule sym_at_ok [OF market_invD(1) [OF assms(1)] assms(3)])
  have "length (ym_name (sm_syms sm ! sm_cursor sm)) = 8" using market_invD(8) [OF assms(1,3)] by (simp add: sym_ok_def)
  then have w: "wire_valid m" using timestamp_ok [OF market_invD(9) [OF assms(1)]] by (simp add: m_def wire_valid_def fits_wire_price_def)
  have "h_timestamp (itch_header m) = sm_ts sm" "\<And>t. feed_step m t = Some t" by (simp_all add: m_def)
  from sm_emit_quiet [OF assms(1) w assms(2) this assms(1) refl refl] show ?thesis
    unfolding gen_directory_def sy bind.simps m_def [symmetric] sm_emit_ok [OF w assms(2)] yields_Some by simp
qed

section \<open>The stream\<close>

lemma advance_time_ok:
  assumes "market_inv n sm"
  shows "yields (advance_time sm) (\<lambda>sm'. \<exists>g ts. sm' = sm\<lparr>sm_rng := g, sm_ts := ts\<rparr> \<and> returning (ucast (sm_symbols sm)) g \<and> sm_ts sm \<le> ts \<and> ts \<le> kMaxTimestamp)"
proof -
  have stamp: "sm_ts sm \<le> (if gap > kMaxTimestamp - sm_ts sm then kMaxTimestamp else sm_ts sm + gap) \<and>
      (if gap > kMaxTimestamp - sm_ts sm then kMaxTimestamp else sm_ts sm + gap) \<le> kMaxTimestamp" for gap
  proof (cases "gap > kMaxTimestamp - sm_ts sm")
    case False
    then have g: "unat gap \<le> unat kMaxTimestamp - unat (sm_ts sm)" "unat (sm_ts sm) \<le> unat kMaxTimestamp"
      using unat_minus_le [OF market_invD(9) [OF assms]] market_invD(9) [OF assms] by (simp_all add: word_le_nat_alt not_less)
    then have "unat (sm_ts sm) + unat gap < 2 ^ 64" using unsigned_less [of kMaxTimestamp, where ?'a = nat] by simp
    then have "unat (sm_ts sm + gap) = unat (sm_ts sm) + unat gap" by (subst unat_add_no_overflow) simp_all
    then show ?thesis using False g by (simp add: word_le_nat_alt)
  qed (use market_invD(9) [OF assms] in simp)
  have gap: "yields (if sm_mean_gap sm \<noteq> 0 then drawn (\<lambda>g. Some (rng_next g)) sm \<bind> (\<lambda>(x, sm). let k = of_nat (countl_zero 64 (x OR 1)) in
      drawn (bounded 1024) sm \<bind> (\<lambda>(frac, sm). Some (sm_mean_gap sm * (k * 1024 + frac) div 1536, sm))) else Some (0, sm)) (\<lambda>(gap, sm'). True \<and> redrawn sm sm')"
  proof (rule yields_if)
    have "yields (drawn (\<lambda>g. Some (rng_next g)) sm) (\<lambda>(x, sm'). True \<and> redrawn sm sm')"
      using returning_next [OF market_invD(5) [OF assms]] by (intro drawn_redrawn) (simp add: yields_Some case_prod_unfold)
    then show "yields (drawn (\<lambda>g. Some (rng_next g)) sm \<bind> (\<lambda>(x, sm). let k = of_nat (countl_zero 64 (x OR 1)) in
      drawn (bounded 1024) sm \<bind> (\<lambda>(frac, sm). Some (sm_mean_gap sm * (k * 1024 + frac) div 1536, sm)))) (\<lambda>(gap, sm'). True \<and> redrawn sm sm')"
    proof (rule draw_bind, unfold Let_def)
      fix x :: u64 and sm1
      assume r: "redrawn sm sm1"
      show "yields (drawn (bounded 1024) sm1 \<bind> (\<lambda>(frac, sm). Some (sm_mean_gap sm * (of_nat (countl_zero 64 (x OR 1)) * 1024 + frac) div 1536, sm))) (\<lambda>(gap, sm'). True \<and> redrawn sm sm')"
        by (rule draw_bind [OF drawn_bounded [OF redrawn_inv [OF r assms]]]) (use redrawn_trans [OF r] in \<open>auto simp: yields_Some\<close>)
    qed
  qed (use redrawn_refl [OF assms] in \<open>simp add: yields_Some\<close>)
  show ?thesis unfolding advance_time_def
  proof (rule draw_bind [OF gap], unfold yields_Some)
    fix gap sm1
    assume "redrawn sm sm1"
    then obtain g where g: "sm1 = sm\<lparr>sm_rng := g\<rparr>" "returning (ucast (sm_symbols sm)) g" by (auto simp: redrawn_def)
    show "\<exists>g ts. sm1\<lparr>sm_ts := if gap > kMaxTimestamp - sm_ts sm1 then kMaxTimestamp else sm_ts sm1 + gap\<rparr> = sm\<lparr>sm_rng := g, sm_ts := ts\<rparr> \<and>
      returning (ucast (sm_symbols sm)) g \<and> sm_ts sm \<le> ts \<and> ts \<le> kMaxTimestamp"
      by (intro exI [of _ g] exI [of _ "if gap > kMaxTimestamp - sm_ts sm then kMaxTimestamp else sm_ts sm + gap"]) (use g stamp [of gap] in simp)
  qed
qed

text \<open>How far the stream has come, and what holds in each phase.\<close>

definition progress :: "SyntheticMarket \<Rightarrow> nat" where
  "progress sm = (case sm_phase sm of PH_open \<Rightarrow> 0 | PH_directory \<Rightarrow> 1 + sm_cursor sm | PH_preamble \<Rightarrow> 1 + unat (sm_symbols sm) + sm_cursor sm
     | PH_flow \<Rightarrow> 1 + unat (sm_symbols sm) * 25 + unat (sm_flow_index sm) | PH_done \<Rightarrow> 1 + unat (sm_symbols sm) * 25 + unat (sm_flow_total sm))"

definition stream_length :: "SyntheticMarket \<Rightarrow> nat" where
  "stream_length sm = 1 + unat (sm_symbols sm) * 25 + unat (sm_flow_total sm)"

definition stage_ok :: "SyntheticMarket \<Rightarrow> bool" where
  "stage_ok sm \<longleftrightarrow> (case sm_phase sm of
       PH_open \<Rightarrow> sm_cursor sm = 0 \<and> sm_flow_index sm = 0 \<and> depth_ok 0 sm
     | PH_directory \<Rightarrow> sm_cursor sm < unat (sm_symbols sm) \<and> sm_flow_index sm = 0 \<and> depth_ok 0 sm
     | PH_preamble \<Rightarrow> sm_cursor sm < unat (sm_symbols sm) * 24 \<and> sm_flow_index sm = 0 \<and> depth_ok (sm_cursor sm) sm
     | PH_flow \<Rightarrow> sm_flow_index sm \<le> sm_flow_total sm \<and> (sm_flow_index sm = 0 \<longrightarrow> depth_ok (unat (sm_symbols sm) * 24) sm)
     | PH_done \<Rightarrow> sm_flow_total sm = 0 \<longrightarrow> depth_ok (unat (sm_symbols sm) * 24) sm)"

definition streamed :: "nat \<Rightarrow> u8 list \<Rightarrow> SyntheticMarket \<Rightarrow> generated \<Rightarrow> bool" where
  "streamed n out sm r \<longleftrightarrow> (\<exists>m sm'. r = ((length (itch_bytes m), itch_bytes m @ drop (length (itch_bytes m)) out), sm') \<and> wire_valid m \<and>
     h_timestamp (itch_header m) = sm_ts sm \<and> market_inv (Suc n) sm' \<and> (\<forall>t. shadows sm t \<longrightarrow> (\<exists>t'. feed_step m t = Some t' \<and> shadows sm' t')) \<and>
     stage_ok sm' \<and> progress sm' = Suc (progress sm) \<and> sm_symbols sm' = sm_symbols sm \<and> sm_flow_total sm' = sm_flow_total sm \<and>
     sm_emitted sm' = sm_emitted sm \<and> sm_ts sm' = sm_ts sm)"

lemma turn_streamed:
  assumes "turn n out sm r" "sm' = (snd r)\<lparr>sm_cursor := c, sm_phase := ph, sm_flow_index := f\<rparr>" "stage_ok sm'" "progress sm' = Suc (progress sm)"
  shows "streamed n out sm (fst r, sm')"
proof -
  obtain m sm1 where "r = ((length (itch_bytes m), itch_bytes m @ drop (length (itch_bytes m)) out), sm1)" "wire_valid m" "h_timestamp (itch_header m) = sm_ts sm"
    "market_inv (Suc n) sm1" "settled sm1 = settled sm" "\<forall>t. shadows sm t \<longrightarrow> (\<exists>t'. feed_step m t = Some t' \<and> shadows sm1 t')"
    using assms(1) by (auto simp: turn_def)
  then show ?thesis using assms(2-4) unfolding streamed_def by (intro exI [of _ m] exI [of _ sm']) (simp add: settled_def)
qed

lemma turn_settled: "turn n out sm r \<Longrightarrow> settled (snd r) = settled sm"
  by (auto simp: turn_def)

lemma update_self: "sm\<lparr>sm_cursor := c\<rparr> = sm\<lparr>sm_cursor := c, sm_phase := sm_phase sm, sm_flow_index := sm_flow_index sm\<rparr>"
  "sm\<lparr>sm_cursor := c, sm_phase := ph\<rparr> = sm\<lparr>sm_cursor := c, sm_phase := ph, sm_flow_index := sm_flow_index sm\<rparr>"
  "sm\<lparr>sm_phase := ph\<rparr> = sm\<lparr>sm_cursor := sm_cursor sm, sm_phase := ph, sm_flow_index := sm_flow_index sm\<rparr>"
  "sm\<lparr>sm_flow_index := f\<rparr> = sm\<lparr>sm_cursor := sm_cursor sm, sm_phase := sm_phase sm, sm_flow_index := f\<rparr>"
  by simp_all

lemma generate_open:
  assumes "market_inv n sm" "kMaxMessageLength \<le> length out" "stage_ok sm" "sm_phase sm = PH_open"
  shows "yields (sm_generate out sm) (streamed n out sm)"
proof -
  let ?m = "IM_SystemEvent \<lparr>se_h = header sm 0, se_event_code = asc CHR ''O''\<rparr>"
  have w: "wire_valid ?m" using timestamp_ok [OF market_invD(9) [OF assms(1)]] by (simp add: wire_valid_def fits_wire_price_def)
  define r where "r = ((length (itch_bytes ?m), itch_bytes ?m @ drop (length (itch_bytes ?m)) out), sm)"
  have e: "sm_emit ?m out sm = Some r" unfolding r_def by (rule sm_emit_ok [OF w assms(2)])
  have "yields (sm_emit ?m out sm) (turn n out sm)" by (rule sm_emit_quiet [OF assms(1) w assms(2) _ _ assms(1) refl refl]) simp_all
  then have t: "turn n out sm r" "snd r = sm" by (simp_all only: e yields_Some) (simp add: r_def)
  have "streamed n out sm (fst r, (snd r)\<lparr>sm_phase := PH_directory\<rparr>)"
    using assms(3,4) market_invD(2) [OF assms(1)] t(2) by (intro turn_streamed [OF t(1) update_self(3)]) (simp_all add: stage_ok_def progress_def)
  then show ?thesis by (simp only: sm_generate_def assms(4) Phase.case e bind.simps case_prod_unfold yields_Some)
qed

lemma generate_directory:
  assumes "market_inv n sm" "kMaxMessageLength \<le> length out" "stage_ok sm" "sm_phase sm = PH_directory"
  shows "yields (sm_generate out sm) (streamed n out sm)"
proof -
  have c: "sm_cursor sm < unat (sm_symbols sm)" "sm_flow_index sm = 0" "depth_ok 0 sm" using assms(3,4) by (simp_all add: stage_ok_def)
  have "yields (gen_directory out sm \<bind> (\<lambda>(r, sm). Some (r, if sm_cursor sm + 1 = unat (sm_symbols sm) then sm\<lparr>sm_cursor := 0, sm_phase := PH_preamble\<rparr> else sm\<lparr>sm_cursor := sm_cursor sm + 1\<rparr>)))
    (streamed n out sm)"
  proof (rule yields_bind [OF gen_directory_ok [OF assms(1,2) c(1)]])
    fix r
    assume r: "turn n out sm r \<and> snd r = sm"
    have "streamed n out sm (fst r, sm\<lparr>sm_cursor := 0, sm_phase := PH_preamble\<rparr>)" if "sm_cursor sm + 1 = unat (sm_symbols sm)"
      using r that assms(4) c by (intro turn_streamed [where r = r and c = 0 and ph = PH_preamble and f = "sm_flow_index sm"]) (auto simp: stage_ok_def progress_def)
    moreover have "streamed n out sm (fst r, sm\<lparr>sm_cursor := sm_cursor sm + 1\<rparr>)" if "sm_cursor sm + 1 \<noteq> unat (sm_symbols sm)"
      using r that assms(4) c by (intro turn_streamed [where r = r and c = "sm_cursor sm + 1" and ph = "sm_phase sm" and f = "sm_flow_index sm"]) (auto simp: stage_ok_def progress_def)
    ultimately show "yields (case r of (r, sm) \<Rightarrow> Some (r, if sm_cursor sm + 1 = unat (sm_symbols sm) then sm\<lparr>sm_cursor := 0, sm_phase := PH_preamble\<rparr> else sm\<lparr>sm_cursor := sm_cursor sm + 1\<rparr>))
      (streamed n out sm)" using r by (simp add: case_prod_unfold yields_Some)
  qed
  then show ?thesis by (simp add: sm_generate_def assms(4) Let_def cong: if_cong)
qed

lemma generate_preamble:
  assumes "market_inv n sm" "Suc n < 2 ^ 64" "kMaxMessageLength \<le> length out" "stage_ok sm" "sm_phase sm = PH_preamble"
  shows "yields (sm_generate out sm) (streamed n out sm)"
proof -
  have c: "sm_cursor sm < unat (sm_symbols sm) * 24" "sm_flow_index sm = 0" "depth_ok (sm_cursor sm) sm" using assms(4,5) by (simp_all add: stage_ok_def)
  have "yields (gen_preamble out sm \<bind> (\<lambda>(r, sm). Some (r, if sm_cursor sm + 1 = unat (sm_symbols sm) * 24 then sm\<lparr>sm_cursor := sm_cursor sm + 1, sm_phase := PH_flow\<rparr>
    else sm\<lparr>sm_cursor := sm_cursor sm + 1\<rparr>))) (streamed n out sm)"
  proof (rule yields_bind [OF gen_preamble_ok [OF assms(1-3) c(3,1)]])
    fix r
    assume r: "turn n out sm r \<and> depth_ok (Suc (sm_cursor sm)) (snd r)"
    then have e: "sm_symbols (snd r) = sm_symbols sm" "sm_cursor (snd r) = sm_cursor sm" "sm_flow_index (snd r) = sm_flow_index sm" "sm_flow_total (snd r) = sm_flow_total sm" "sm_phase (snd r) = sm_phase sm"
      using turn_settled [of n out sm r] by (auto simp: settled_def)
    have "streamed n out sm (fst r, (snd r)\<lparr>sm_cursor := sm_cursor sm + 1, sm_phase := PH_flow\<rparr>)" if "sm_cursor sm + 1 = unat (sm_symbols sm) * 24"
      using r that assms(5) c by (intro turn_streamed [where r = r and c = "sm_cursor sm + 1" and ph = PH_flow and f = "sm_flow_index sm"]) (auto simp: stage_ok_def progress_def e)
    moreover have "streamed n out sm (fst r, (snd r)\<lparr>sm_cursor := sm_cursor sm + 1\<rparr>)" if "sm_cursor sm + 1 \<noteq> unat (sm_symbols sm) * 24"
      using r that assms(5) c by (intro turn_streamed [where r = r and c = "sm_cursor sm + 1" and ph = "sm_phase sm" and f = "sm_flow_index sm"]) (auto simp: stage_ok_def progress_def e)
    ultimately show "yields (case r of (r, sm) \<Rightarrow> Some (r, if sm_cursor sm + 1 = unat (sm_symbols sm) * 24 then sm\<lparr>sm_cursor := sm_cursor sm + 1, sm_phase := PH_flow\<rparr>
      else sm\<lparr>sm_cursor := sm_cursor sm + 1\<rparr>)) (streamed n out sm)" using e by (simp add: case_prod_unfold yields_Some)
  qed
  then show ?thesis by (simp add: sm_generate_def assms(5) Let_def kPreambleOrders_def kPreambleLevels_def cong: if_cong)
qed

lemma generate_flow:
  assumes "market_inv n sm" "Suc n < 2 ^ 64" "kMaxMessageLength \<le> length out" "stage_ok sm" "sm_phase sm = PH_flow" "sm_flow_index sm < sm_flow_total sm"
  shows "yields (sm_generate out sm) (streamed n out sm)"
proof -
  define sm0 where "sm0 = sm\<lparr>sm_bull := even (unat (sm_flow_index sm div ucast (sm_period sm)))\<rparr>"
  have s0: "market_inv n sm0" "settled sm0 = settled sm" "shadows sm0 = shadows sm" using assms(1) by (simp_all add: sm0_def)
  have u: "unat (sm_flow_index sm + 1) = unat (sm_flow_index sm) + 1"
    using assms(6) unsigned_less [of "sm_flow_total sm", where ?'a = nat] by (subst unat_add_no_overflow) (simp_all add: word_less_nat_alt)
  have "yields (gen_flow out sm0 \<bind> (\<lambda>(r, sm). Some (r, sm\<lparr>sm_flow_index := sm_flow_index sm + 1\<rparr>))) (streamed n out sm)"
  proof (rule yields_bind [OF gen_flow_ok [OF s0(1) assms(2,3)]])
    fix r
    assume "turn n out sm0 r"
    then have r: "turn n out sm r" by (rule turn_same [OF _ s0(2,3)])
    then have e: "sm_symbols (snd r) = sm_symbols sm" "sm_cursor (snd r) = sm_cursor sm" "sm_flow_index (snd r) = sm_flow_index sm" "sm_flow_total (snd r) = sm_flow_total sm" "sm_phase (snd r) = sm_phase sm"
      using turn_settled [of n out sm r] by (auto simp: settled_def)
    have "sm_flow_index sm + 1 \<noteq> 0" "sm_flow_index sm + 1 \<le> sm_flow_total sm" using u assms(6) by (auto simp: word_less_nat_alt word_le_nat_alt simp flip: unat_eq_0)
    then have "streamed n out sm (fst r, (snd r)\<lparr>sm_flow_index := sm_flow_index sm + 1\<rparr>)"
      using r assms(5) u by (intro turn_streamed [where r = r and c = "sm_cursor sm" and ph = "sm_phase sm" and f = "sm_flow_index sm + 1"]) (auto simp: stage_ok_def progress_def e)
    then show "yields (case r of (r, sm) \<Rightarrow> Some (r, sm\<lparr>sm_flow_index := sm_flow_index sm + 1\<rparr>)) (streamed n out sm)" using e by (simp add: case_prod_unfold yields_Some)
  qed
  then show ?thesis by (simp add: sm_generate_def assms(5) sm0_def)
qed

text \<open>The stage and the message counter.\<close>

definition stream_inv :: "nat \<Rightarrow> SyntheticMarket \<Rightarrow> bool" where
  "stream_inv n sm \<longleftrightarrow> market_inv n sm \<and> stage_ok sm \<and> sm_emitted sm = of_nat (progress sm)"

definition next_message :: "SyntheticMarket \<Rightarrow> itch_message \<Rightarrow> SyntheticMarket \<Rightarrow> bool" where
  "next_message sm m sm' \<longleftrightarrow> wire_valid m \<and> progress sm' = Suc (progress sm) \<and> sm_ts sm \<le> h_timestamp (itch_header m) \<and> h_timestamp (itch_header m) = sm_ts sm' \<and>
     (\<forall>t. shadows sm t \<longrightarrow> (\<exists>t'. feed_step m t = Some t' \<and> shadows sm' t'))"

lemma progress_less:
  assumes "stage_ok sm"
  shows "progress sm < stream_length sm \<longleftrightarrow> sm_phase sm \<noteq> PH_done \<and> (sm_phase sm = PH_flow \<longrightarrow> sm_flow_index sm < sm_flow_total sm)"
  using assms by (cases "sm_phase sm") (auto simp: stage_ok_def progress_def stream_length_def word_less_nat_alt)

lemma next_more:
  assumes "stream_inv n sm" "Suc n < 2 ^ 64" "kMaxMessageLength \<le> length out" "progress sm < stream_length sm"
  shows "\<exists>out' len ts' sm' m. sm_next out ts sm = Some (True, out', len, ts', sm') \<and> length out' = length out \<and> stream_inv (Suc n) sm' \<and>
    stream_length sm' = stream_length sm \<and> sm_symbols sm' = sm_symbols sm \<and> take len out' = itch_bytes m \<and> ts' = h_timestamp (itch_header m) \<and> next_message sm m sm'"
proof -
  have inv: "market_inv n sm" "stage_ok sm" "sm_emitted sm = of_nat (progress sm)" using assms(1) by (simp_all add: stream_inv_def)
  have ph: "sm_phase sm \<noteq> PH_done" "sm_phase sm = PH_flow \<longrightarrow> sm_flow_index sm < sm_flow_total sm" using progress_less [OF inv(2)] assms(4) by simp_all
  obtain g ts1 where adv: "advance_time sm = Some (sm\<lparr>sm_rng := g, sm_ts := ts1\<rparr>)" "returning (ucast (sm_symbols sm)) g" "sm_ts sm \<le> ts1" "ts1 \<le> kMaxTimestamp"
    using advance_time_ok [OF inv(1)] by (auto simp: yields_def)
  define sm1 where "sm1 = sm\<lparr>sm_rng := g, sm_ts := ts1\<rparr>"
  have s1: "market_inv n sm1" "stage_ok sm1" "progress sm1 = progress sm" "sm_emitted sm1 = sm_emitted sm" "shadows sm1 = shadows sm" "sm_ts sm1 = ts1" "stream_length sm1 = stream_length sm"
    "sm_phase sm1 = sm_phase sm" "sm_flow_index sm1 = sm_flow_index sm" "sm_flow_total sm1 = sm_flow_total sm" "sm_symbols sm1 = sm_symbols sm"
    using inv adv(2,4) by (auto simp: sm1_def market_inv_def stage_ok_def progress_def stream_length_def cong: Phase.case_cong)
  have "yields (sm_generate out sm1) (streamed n out sm1)"
    using ph generate_open [OF s1(1) assms(3) s1(2)] generate_directory [OF s1(1) assms(3) s1(2)] generate_preamble [OF s1(1) assms(2,3) s1(2)]
      generate_flow [OF s1(1) assms(2,3) s1(2)] s1(8-10) by (cases "sm_phase sm") simp_all
  then obtain m sm2 where gen: "sm_generate out sm1 = Some ((length (itch_bytes m), itch_bytes m @ drop (length (itch_bytes m)) out), sm2)" "wire_valid m" "h_timestamp (itch_header m) = ts1"
    "market_inv (Suc n) sm2" "\<forall>t. shadows sm t \<longrightarrow> (\<exists>t'. feed_step m t = Some t' \<and> shadows sm2 t')" "stage_ok sm2" "progress sm2 = Suc (progress sm)"
    "sm_symbols sm2 = sm_symbols sm" "sm_flow_total sm2 = sm_flow_total sm" "sm_emitted sm2 = sm_emitted sm" "sm_ts sm2 = ts1"
    by (auto simp: yields_def streamed_def s1)
  define sm3 where "sm3 = sm2\<lparr>sm_emitted := sm_emitted sm2 + 1\<rparr>"
  have s3: "market_inv (Suc n) sm3" "shadows sm3 = shadows sm2" "stage_ok sm3" "progress sm3 = progress sm2" "sm_emitted sm3 = of_nat (progress sm3)" "sm_ts sm3 = ts1" "stream_length sm3 = stream_length sm" "sm_symbols sm3 = sm_symbols sm"
    using gen inv(3) by (simp_all add: sm3_def stage_ok_def progress_def stream_length_def cong: Phase.case_cong)
  have len: "0 < length (itch_bytes m)" "length (itch_bytes m) \<le> length out" using gen(2) itch_bytes_short [of m] assms(3)
    by (auto simp: wire_valid_def) (cases m; simp add: header_bytes_def)
  have "sm_next out ts sm = Some (True, itch_bytes m @ drop (length (itch_bytes m)) out, length (itch_bytes m), ts1, sm3)"
    using ph adv(1) gen(1,11) len(1) assms(3) by (auto simp: sm_next_def sm1_def [symmetric] sm3_def [symmetric] Let_def s3(6) not_le)
  moreover have "next_message sm m sm3" using gen adv(3) s3 by (simp add: next_message_def)
  ultimately show ?thesis using s3 gen(3) len(2)
    by (intro exI [of _ "itch_bytes m @ drop (length (itch_bytes m)) out"] exI [of _ "length (itch_bytes m)"] exI [of _ ts1] exI [of _ sm3] exI [of _ m]) (simp add: stream_inv_def)
qed

lemma next_end:
  assumes "stream_inv n sm" "kMaxMessageLength \<le> length out" "\<not> progress sm < stream_length sm"
  shows "\<exists>sm'. sm_next out ts sm = Some (False, out, 0, ts, sm') \<and> stream_inv n sm' \<and> stream_length sm' = stream_length sm \<and> sm_symbols sm' = sm_symbols sm \<and> progress sm' = progress sm \<and>
    shadows sm' = shadows sm \<and> sm_ts sm' = sm_ts sm"
proof -
  have inv: "market_inv n sm" "stage_ok sm" "sm_emitted sm = of_nat (progress sm)" using assms(1) by (simp_all add: stream_inv_def)
  have ph: "sm_phase sm = PH_done \<or> sm_phase sm = PH_flow \<and> sm_flow_total sm \<le> sm_flow_index sm" using progress_less [OF inv(2)] assms(3) by auto
  define sm1 where "sm1 = sm\<lparr>sm_phase := PH_done\<rparr>"
  have "sm_next out ts sm = Some (False, out, 0, ts, sm1)" using ph assms(2) by (auto simp: sm_next_def sm1_def Let_def)
  moreover have "stage_ok sm1" "progress sm1 = progress sm" using ph inv(2) by (auto simp: stage_ok_def progress_def sm1_def)
  ultimately show ?thesis using inv by (intro exI [of _ sm1]) (simp add: stream_inv_def stream_length_def sm1_def)
qed

text \<open>\<open>k\<close> calls of \<^verbatim>\<open>next\<close> with one buffer; what each successful call wrote, and its time.\<close>

primrec sm_run :: "nat \<Rightarrow> u8 list \<Rightarrow> SyntheticMarket \<Rightarrow> ((u8 list \<times> Nanos) list \<times> SyntheticMarket) option" where
  "sm_run 0 out sm = Some ([], sm)"
| "sm_run (Suc k) out sm = do {
     (more, out, len, ts, sm) \<leftarrow> sm_next out 0 sm;
     (rs, sm) \<leftarrow> sm_run k out sm;
     Some ((if more then [(take len out, ts)] else []) @ rs, sm) }"

abbreviation written :: "itch_message \<Rightarrow> u8 list \<times> Nanos" where
  "written m \<equiv> (itch_bytes m, h_timestamp (itch_header m))"

abbreviation stamps :: "itch_message list \<Rightarrow> Nanos list" where
  "stamps ms \<equiv> map (\<lambda>m. h_timestamp (itch_header m)) ms"

lemma stream_inv_mono: "stream_inv n sm \<Longrightarrow> n \<le> m \<Longrightarrow> stream_inv m sm"
  using market_inv_mono by (auto simp: stream_inv_def)

lemma sm_run_ok:
  assumes "stream_inv n sm" "n + k < 2 ^ 64" "kMaxMessageLength \<le> length out"
  shows "\<exists>ms sm'. sm_run k out sm = Some (map written ms, sm') \<and> stream_inv (n + k) sm' \<and> sm_symbols sm' = sm_symbols sm \<and> length ms = min k (stream_length sm - progress sm) \<and>
    progress sm' = progress sm + length ms \<and> (\<forall>m \<in> set ms. wire_valid m \<and> sm_ts sm \<le> h_timestamp (itch_header m) \<and> h_timestamp (itch_header m) \<le> kMaxTimestamp) \<and>
    sorted (stamps ms) \<and> (\<forall>t. shadows sm t \<longrightarrow> (\<exists>t'. feed ms t = Some t' \<and> shadows sm' t'))"
  using assms
proof (induction k arbitrary: n out sm)
  case 0
  then show ?case by (intro exI [of _ "[]"] exI [of _ sm]) simp
next
  case (Suc k)
  have k: "Suc n + k < 2 ^ 64" "Suc n < 2 ^ 64" using Suc.prems(2) by simp_all
  show ?case
  proof (cases "progress sm < stream_length sm")
    case True
    obtain out' len ts' sm1 m where nx: "sm_next out 0 sm = Some (True, out', len, ts', sm1)" "length out' = length out" "stream_inv (Suc n) sm1"
      "stream_length sm1 = stream_length sm" "take len out' = itch_bytes m" "ts' = h_timestamp (itch_header m)" "sm_symbols sm1 = sm_symbols sm" and m: "next_message sm m sm1"
      using next_more [OF Suc.prems(1) k(2) Suc.prems(3) True, of 0] by blast
    obtain ms sm' where ih: "sm_run k out' sm1 = Some (map written ms, sm')" "stream_inv (Suc n + k) sm'" "length ms = min k (stream_length sm1 - progress sm1)"
      "progress sm' = progress sm1 + length ms" "\<forall>m \<in> set ms. wire_valid m \<and> sm_ts sm1 \<le> h_timestamp (itch_header m) \<and> h_timestamp (itch_header m) \<le> kMaxTimestamp"
      "sorted (stamps ms)" "\<And>t. shadows sm1 t \<Longrightarrow> \<exists>t'. feed ms t = Some t' \<and> shadows sm' t'" "sm_symbols sm' = sm_symbols sm1"
      using Suc.IH [OF nx(3) k(1), of out'] nx(2) Suc.prems(3) by auto
    have p: "progress sm1 = Suc (progress sm)" "wire_valid m" "sm_ts sm \<le> h_timestamp (itch_header m)" "h_timestamp (itch_header m) = sm_ts sm1"
      "\<And>t. shadows sm t \<Longrightarrow> \<exists>t'. feed_step m t = Some t' \<and> shadows sm1 t'" using m by (auto simp: next_message_def)
    have "sm_ts sm1 \<le> kMaxTimestamp" using nx(3) market_invD(9) by (auto simp: stream_inv_def)
    then have "\<forall>x \<in> set (m # ms). wire_valid x \<and> sm_ts sm \<le> h_timestamp (itch_header x) \<and> h_timestamp (itch_header x) \<le> kMaxTimestamp"
      using p(2-4) ih(5) by auto
    moreover have "sorted (stamps (m # ms))" using ih(5,6) p(4) by simp
    moreover have "\<exists>t'. feed (m # ms) t = Some t' \<and> shadows sm' t'" if "shadows sm t" for t using p(5) [OF that] ih(7) by auto
    moreover have "sm_run (Suc k) out sm = Some (map written (m # ms), sm')" using nx(1,5,6) ih(1) by simp
    moreover have "stream_inv (n + Suc k) sm'" "sm_symbols sm' = sm_symbols sm" using ih(2,8) nx(7) by simp_all
    moreover have "length (m # ms) = min (Suc k) (stream_length sm - progress sm)" "progress sm' = progress sm + length (m # ms)"
      using ih(3,4) p(1) nx(4) True by simp_all
    ultimately show ?thesis by blast
  next
    case False
    obtain sm1 where nx: "sm_next out 0 sm = Some (False, out, 0, 0, sm1)" "stream_inv n sm1" "stream_length sm1 = stream_length sm" "progress sm1 = progress sm"
      "shadows sm1 = shadows sm" "sm_ts sm1 = sm_ts sm" "sm_symbols sm1 = sm_symbols sm" using next_end [OF Suc.prems(1,3) False, of 0] by blast
    obtain ms sm' where ih: "sm_run k out sm1 = Some (map written ms, sm')" "stream_inv (Suc n + k) sm'" "length ms = min k (stream_length sm1 - progress sm1)"
      "progress sm' = progress sm1 + length ms" "\<forall>m \<in> set ms. wire_valid m \<and> sm_ts sm1 \<le> h_timestamp (itch_header m) \<and> h_timestamp (itch_header m) \<le> kMaxTimestamp"
      "sorted (stamps ms)" "\<forall>t. shadows sm1 t \<longrightarrow> (\<exists>t'. feed ms t = Some t' \<and> shadows sm' t')" "sm_symbols sm' = sm_symbols sm1"
      using Suc.IH [OF stream_inv_mono [OF nx(2)] k(1) Suc.prems(3)] by auto
    have "sm_run (Suc k) out sm = Some (map written ms, sm')" using nx(1) ih(1) by simp
    moreover have "stream_inv (n + Suc k) sm'" "length ms = min (Suc k) (stream_length sm - progress sm)" using ih(2,3) nx(3,4) False by simp_all
    ultimately show ?thesis using ih(4-8) nx by (intro exI [of _ ms] exI [of _ sm']) simp
  qed
qed

section \<open>Construction\<close>

lemma symbol_digits_length: "0 < k \<Longrightarrow> v < 10 ^ k \<Longrightarrow> length (symbol_digits v) \<le> k \<and> 0 < length (symbol_digits v)"
proof (induction v arbitrary: k rule: symbol_digits.induct)
  case (1 v)
  obtain j where j: "k = Suc j" using 1(2) by (cases k) auto
  show ?case
  proof (cases "v div 10 = 0")
    case False
    have "v div 10 < 10 ^ j" using 1(3) by (simp add: j less_mult_imp_div_less)
    moreover have "0 < j" using False calculation by (cases j) auto
    ultimately have "length (symbol_digits (v div 10)) \<le> j" using 1(1) [OF False] by blast
    then show ?thesis by (subst (1 2) symbol_digits.simps) (simp add: False j del: symbol_digits.simps)
  qed (subst (1 2) symbol_digits.simps, use j in simp)
qed

lemma make_symbol_ok:
  assumes "i < 100000"
  shows "yields (make_symbol i) (\<lambda>name. length name = 8)"
proof -
  have "length (symbol_digits i) \<le> 5" "0 < length (symbol_digits i)" using symbol_digits_length [of 5 i] assms by simp_all
  then show ?thesis unfolding make_symbol_def Let_def by (subst wr_bytes_ok) (auto simp: yields_Some simp del: symbol_digits.simps)
qed

lemma tick_round_ge:
  assumes "1 \<le> t" "k * t \<le> p"
  shows "k * t \<le> tick_round t p"
proof -
  have "k = k * t div t" using assms(1) by simp
  also have "\<dots> \<le> p div t" using assms by (intro zdiv_mono1) simp_all
  finally show ?thesis using assms(1) by (simp add: tick_round_def)
qed

lemma Sym_new_ok:
  assumes "1 \<le> tick" "tick \<le> 1000000" "32 * tick \<le> start" "start \<le> 1000000000" "i < 100000"
  shows "yields (Sym_new tick start i) (\<lambda>y. sym_ok tick y \<and> ym_nb y = 0 \<and> ym_na y = 0)"
proof -
  define p where "p = start + int (i mod 32) * 4 * tick"
  define fair where "fair = tick_round tick p"
  have "int (i mod 32) * 4 * tick \<le> 124 * 1000000" using assms(1,2) by (intro mult_mono) simp_all
  moreover have "0 \<le> int (i mod 32) * 4 * tick" using assms(1) by (intro mult_nonneg_nonneg) simp_all
  ultimately have p: "32 * tick \<le> p" "p \<le> 1124000000" using assms(3,4) unfolding p_def by linarith+
  have fair: "32 * tick \<le> fair" "fair \<le> p" using tick_round_ge [OF assms(1) p(1)] tick_round_bounds [OF assms(1), of p] p(1) assms(1) by (simp_all add: fair_def)
  have lo: "16 * tick \<le> tick_round tick (fair div 2)" "tick_round tick (fair div 2) \<le> fair div 2"
    using tick_round_ge [OF assms(1), of 16 "fair div 2"] tick_round_bounds [OF assms(1), of "fair div 2"] fair(1) assms(1) by simp_all
  have "fair \<le> tick_round tick (fair + fair div 2)"
    using tick_round_ge [OF assms(1), of "p div tick" "fair + fair div 2"] fair(1) assms(1) by (simp add: fair_def tick_round_def)
  moreover have "tick_round tick (fair + fair div 2) \<le> fair + fair div 2" using tick_round_bounds [OF assms(1), of "fair + fair div 2"] fair(1) assms(1) by simp
  moreover have "fair div 2 \<le> fair" "fair + fair div 2 \<le> 1700000000" using fair p assms(1) by linarith+
  ultimately show ?thesis unfolding Sym_new_def Let_def
    by (intro yields_bind [OF make_symbol_ok [OF assms(5)]]) (use lo fair p in \<open>simp add: yields_Some sym_ok_def p_def [symmetric] fair_def [symmetric]\<close>)
qed

lemma those_map:
  assumes "\<And>x. x \<in> set xs \<Longrightarrow> yields (f x) P"
  shows "yields (those (map f xs)) (\<lambda>ys. length ys = length xs \<and> (\<forall>y \<in> set ys. P y))"
  using assms
proof (induction xs)
  case (Cons x xs)
  obtain y where "f x = Some y" "P y" using Cons.prems [of x] by (auto simp: yields_def)
  moreover obtain ys where "those (map f xs) = Some ys" "length ys = length xs" "\<forall>y \<in> set ys. P y" using Cons by (auto simp: yields_def)
  ultimately show ?case by (simp add: yields_def)
qed (simp add: yields_def)

lemma empty_lists:
  assumes "\<forall>y \<in> set (sm_syms sm). ym_nb y = 0 \<and> ym_na y = 0" "length (sm_syms sm) = unat (sm_symbols sm)" "s < unat (sm_symbols sm)"
  shows "count_of d (sm_syms sm ! s) = 0" "side_list sm s d = []"
proof -
  have "sm_syms sm ! s \<in> set (sm_syms sm)" using assms(2,3) by simp
  then show "count_of d (sm_syms sm ! s) = 0" using assms(1) by (cases d) auto
  then show "side_list sm s d = []" by (simp add: side_list_def)
qed

lemma SyntheticMarket_new_ok:
  assumes "returning (ucast (max (sc_symbols cfg) 1)) (Rng_new (sc_seed cfg))"
  shows "\<exists>sm. SyntheticMarket_new cfg = Some sm \<and> stream_inv 1 sm \<and> progress sm = 0 \<and> shadows sm Map.empty \<and> sm_ts sm = kSessionStart \<and>
    sm_symbols sm = max (sc_symbols cfg) 1 \<and> sm_flow_total sm = sc_messages cfg"
proof -
  define symbols where "symbols = max (sc_symbols cfg) 1"
  define tick where "tick = clamp (sc_tick cfg) 1 1000000"
  define start where "start = clamp (sc_start_price cfg) (32 * tick) 1000000000"
  have n: "0 < unat symbols" "unat symbols < 65536" using unsigned_less [of symbols, where ?'a = nat] by (auto simp: symbols_def word_le_nat_alt max_def unat_gt_0 split: if_splits)
  have t: "1 \<le> tick" "tick \<le> 1000000" "32 * tick \<le> start" "start \<le> 1000000000" by (auto simp: tick_def start_def clamp_def)
  have "yields (those (map (Sym_new tick start) [0..<unat symbols])) (\<lambda>ys. length ys = length [0..<unat symbols] \<and> (\<forall>y \<in> set ys. sym_ok tick y \<and> ym_nb y = 0 \<and> ym_na y = 0))"
    using n(2) by (intro those_map Sym_new_ok [OF t]) simp
  then obtain syms where sy: "those (map (Sym_new tick start) [0..<unat symbols]) = Some syms" "length syms = unat symbols" "\<forall>y \<in> set syms. sym_ok tick y \<and> ym_nb y = 0 \<and> ym_na y = 0"
    by (auto simp: yields_def)
  define sm where "sm = \<lparr>sm_rng = Rng_new (sc_seed cfg), sm_symbols = symbols, sm_flow_total = sc_messages cfg, sm_tick = tick,
       sm_period = max (sc_regime_period cfg) 1, sm_mean_gap = min (sc_mean_gap_ns cfg) (push_bit 32 1), sm_syms = syms,
       sm_book = replicate (unat symbols * 2 * kCap) \<lparr>lo_ref = 0, lo_price = 0, lo_qty = 0\<rparr>,
       sm_phase = PH_open, sm_cursor = 0, sm_flow_index = 0, sm_emitted = 0, sm_next_ref = 1, sm_match = 0, sm_event_toggle = 0,
       sm_ts = kSessionStart, sm_bull = True\<rparr>"
  have new: "SyntheticMarket_new cfg = Some sm"
    unfolding SyntheticMarket_new_def Let_def symbols_def [symmetric] tick_def [symmetric] start_def [symmetric] sy(1) bind.simps sm_def ..
  have e: "count_of d (sm_syms sm ! s) = 0" "side_list sm s d = []" if "s < unat symbols" for s d
    using empty_lists [of sm s d] that sy(2,3) by (simp_all add: sm_def)
  have "shape sm" using e(1) sy(2) by (auto simp: shape_def) (simp_all add: sm_def)
  moreover have "kSessionStart \<le> kMaxTimestamp" by (simp add: kSessionStart_def kMaxTimestamp_def)
  moreover have "sm_symbols sm = symbols" "sm_tick sm = tick" "sm_syms sm = syms" "sm_rng sm = Rng_new (sc_seed cfg)" "sm_ts sm = kSessionStart" "sm_next_ref sm = 1"
    "sm_phase sm = PH_open" "sm_cursor sm = 0" "sm_flow_index sm = 0" "sm_emitted sm = 0" "sm_flow_total sm = sc_messages cfg" by (simp_all add: sm_def)
  ultimately show ?thesis using new e n(1) t(1,2) sy(3) assms unfolding symbols_def [symmetric]
    by (intro exI [of _ sm]) (simp add: stream_inv_def market_inv_def stage_ok_def progress_def depth_ok_def shadows_def side_ok_def apart_def bids_placed_def asks_placed_def)
qed

section \<open>Claims\<close>

text \<open>
  The rejection loop of a draw returns when a word of the generator is accepted. The words of a generator
  recur, so it is enough that the first one is accepted for every bound the market draws with.
\<close>

definition first_word_accepted :: "SyntheticConfig \<Rightarrow> bool" where
  "first_word_accepted cfg \<longleftrightarrow> (\<forall>n. n \<noteq> 0 \<and> (n \<le> 1024 \<or> n = ucast (max (sc_symbols cfg) 1)) \<longrightarrow> accepted n (fst (rng_next (Rng_new (sc_seed cfg)))))"

lemma first_word_returning: "first_word_accepted cfg \<Longrightarrow> returning (ucast (max (sc_symbols cfg) 1)) (Rng_new (sc_seed cfg))"
  by (intro returning_Rng_new) (simp add: first_word_accepted_def draw_def)

lemma shadows_uncrossed:
  assumes "market_inv n sm" "shadows sm t"
  shows "uncrossed t"
  unfolding uncrossed_def
proof (intro allI impI)
  fix r r' l p p' q q'
  assume "t r = Some (l, Side_buy, p, q) \<and> t r' = Some (l, Side_sell, p', q')"
  then obtain s s' where s: "s < unat (sm_symbols sm)" "l = locate_of s" "\<lparr>lo_ref = r, lo_price = p, lo_qty = q\<rparr> \<in> set (side_list sm s Side_buy)"
    "s' < unat (sm_symbols sm)" "l = locate_of s'" "\<lparr>lo_ref = r', lo_price = p', lo_qty = q'\<rparr> \<in> set (side_list sm s' Side_sell)"
    using assms(2) by (auto simp: shadows_def)
  have "s' = s" using locate_of_eq [OF s(4,1)] s(2,5) by simp
  then show "p < p'" using market_invD(7) [OF assms(1) s(1)] s(3,6) by (fastforce simp: apart_def)
qed

lemma synthetic_feed:
  assumes "first_word_accepted cfg" "k < 2 ^ 64 - 1" "kMaxMessageLength \<le> length out"
  shows "\<exists>sm0 ms sm t. SyntheticMarket_new cfg = Some sm0 \<and> sm_run k out sm0 = Some (map written ms, sm) \<and> stream_inv (1 + k) sm \<and>
    length ms = min k (1 + 25 * unat (max (sc_symbols cfg) 1) + unat (sc_messages cfg)) \<and> progress sm = length ms \<and>
    (\<forall>m \<in> set ms. wire_valid m \<and> kSessionStart \<le> h_timestamp (itch_header m) \<and> h_timestamp (itch_header m) \<le> kMaxTimestamp) \<and> sorted (stamps ms) \<and>
    feed ms Map.empty = Some t \<and> shadows sm t"
proof -
  obtain sm0 where sm0: "SyntheticMarket_new cfg = Some sm0" "stream_inv 1 sm0" "progress sm0 = 0" "shadows sm0 Map.empty" "sm_ts sm0 = kSessionStart"
    "sm_symbols sm0 = max (sc_symbols cfg) 1" "sm_flow_total sm0 = sc_messages cfg"
    using SyntheticMarket_new_ok [OF first_word_returning [OF assms(1)]] by blast
  have k: "1 + k < 2 ^ 64" using assms(2) by simp
  obtain ms sm where r: "sm_run k out sm0 = Some (map written ms, sm)" "stream_inv (1 + k) sm" "length ms = min k (stream_length sm0 - progress sm0)" "progress sm = progress sm0 + length ms"
    "\<forall>m \<in> set ms. wire_valid m \<and> sm_ts sm0 \<le> h_timestamp (itch_header m) \<and> h_timestamp (itch_header m) \<le> kMaxTimestamp" "sorted (stamps ms)"
    "\<forall>t. shadows sm0 t \<longrightarrow> (\<exists>t'. feed ms t = Some t' \<and> shadows sm t')"
    using sm_run_ok [OF sm0(2) k assms(3)] by blast
  obtain t where t: "feed ms Map.empty = Some t" "shadows sm t" using r(7) sm0(4) by blast
  have "length ms = min k (1 + 25 * unat (max (sc_symbols cfg) 1) + unat (sc_messages cfg))" "progress sm = length ms"
    using r(3,4) sm0(3,6,7) by (simp_all add: stream_length_def mult.commute)
  then show ?thesis using sm0(1) r(1,2) r(5,6) [unfolded sm0(5)] t by blast
qed

text \<open>
  Claim C14: the synthetic market is a valid feed. For every configuration whose first random word is accepted,
  any number of calls of \<^verbatim>\<open>next\<close> with a buffer of the documented size returns; the calls that succeed are the first ones,
  one for the opening event, 25 for each symbol and one for each configured flow message; each writes one message that obeys the rules of the protocol,
  with timestamps that never decrease, start at 09:30 at the earliest and fit 48 bits. A consumer that starts
  with an empty table accepts every message: no reference is unknown, reused or of another instrument, no
  removal takes nothing or more than the order holds, and an execution hits the best-priced order,
  the oldest at equal price. No instrument is ever crossed, and the shadow model is the consumer's table.
\<close>

theorem synthetic_stream_is_valid:
  assumes "first_word_accepted cfg" "k < 2 ^ 64 - 1" "kMaxMessageLength \<le> length out"
  shows "\<exists>sm0 ms sm t. SyntheticMarket_new cfg = Some sm0 \<and> sm_run k out sm0 = Some (map written ms, sm) \<and>
    length ms = min k (1 + 25 * unat (max (sc_symbols cfg) 1) + unat (sc_messages cfg)) \<and> sm_emitted sm = of_nat (length ms) \<and>
    (\<forall>m \<in> set ms. wire_valid m \<and> kSessionStart \<le> h_timestamp (itch_header m) \<and> h_timestamp (itch_header m) \<le> kMaxTimestamp) \<and> sorted (stamps ms) \<and>
    feed ms Map.empty = Some t \<and> uncrossed t \<and> shadows sm t"
proof -
  obtain sm0 ms sm t where r: "SyntheticMarket_new cfg = Some sm0" "sm_run k out sm0 = Some (map written ms, sm)" "stream_inv (1 + k) sm"
    "length ms = min k (1 + 25 * unat (max (sc_symbols cfg) 1) + unat (sc_messages cfg))" "progress sm = length ms"
    "\<forall>m \<in> set ms. wire_valid m \<and> kSessionStart \<le> h_timestamp (itch_header m) \<and> h_timestamp (itch_header m) \<le> kMaxTimestamp" "sorted (stamps ms)"
    "feed ms Map.empty = Some t" "shadows sm t" using synthetic_feed [OF assms] by blast
  have "uncrossed t" "sm_emitted sm = of_nat (length ms)" using r(3,5,9) shadows_uncrossed [of "1 + k" sm t] by (simp_all add: stream_inv_def)
  then show ?thesis using r by blast
qed

definition sample_market :: SyntheticConfig where
  "sample_market = \<lparr>sc_seed = 333, sc_symbols = 8, sc_messages = 100000, sc_start_price = 1000000, sc_tick = 100, sc_mean_gap_ns = 5000, sc_regime_period = 20000\<rparr>"

lemma sample_word: "fst (rng_next (Rng_new 333)) = 0xB3274A3F5E66A"
  by code_simp

lemma sample_market_accepted: "first_word_accepted sample_market"
  unfolding first_word_accepted_def
proof (intro allI impI)
  fix n :: u64
  let ?x = "0xB3274A3F5E66A :: u64"
  assume "n \<noteq> 0 \<and> (n \<le> 1024 \<or> n = ucast (max (sc_symbols sample_market) 1))"
  then have n: "n \<noteq> 0" "unat n \<le> 1024" by (auto simp: sample_market_def word_le_nat_alt)
  have "unat ?x * unat n \<le> unat ?x * 1024" using n(2) by simp
  then have "unat ?x * unat n mod 2 ^ 64 = unat ?x * unat n" by simp
  moreover have "2 ^ 64 mod unat n \<le> 1 * unat n" using n(1) mod_less_divisor [of "unat n" "2 ^ 64"] by (simp add: unat_gt_0)
  then have "2 ^ 64 mod unat n \<le> unat ?x * unat n" by (rule order_trans) (rule mult_right_mono, simp_all)
  ultimately show "accepted n (fst (rng_next (Rng_new (sc_seed sample_market))))" using n(1) by (simp add: sample_market_def sample_word accepted_iff)
qed

theorem synthetic_stream_is_valid_witness:
  "\<exists>sm0 ms sm. SyntheticMarket_new sample_market = Some sm0 \<and> sm_run 250 (replicate 44 0) sm0 = Some (map written ms, sm) \<and> length ms = 250 \<and> sorted (stamps ms)"
proof -
  have "(250 :: nat) < 2 ^ 64 - 1" "kMaxMessageLength \<le> length (replicate 44 (0 :: u8))" by (simp_all add: itch_length_defs)
  from synthetic_stream_is_valid [OF sample_market_accepted this] obtain sm0 ms sm where "SyntheticMarket_new sample_market = Some sm0"
    "sm_run 250 (replicate 44 0) sm0 = Some (map written ms, sm)" "length ms = min 250 (1 + 25 * unat (max (sc_symbols sample_market) 1) + unat (sc_messages sample_market))" "sorted (stamps ms)" by blast
  then show ?thesis by (intro exI [of _ sm0] exI [of _ ms] exI [of _ sm]) (simp add: sample_market_def)
qed

text \<open>
  Every book starts with six levels of depth on each side. After \<^verbatim>\<open>preamble_length()\<close> successful calls
  of \<^verbatim>\<open>next\<close> each symbol has twelve bids and twelve asks, two at each of the six prices one to six ticks below and
  above its fair value.
\<close>

lemma synthetic_book_starts_deep:
  assumes "first_word_accepted cfg" "kMaxMessageLength \<le> length out"
  shows "\<exists>sm0 rs sm. SyntheticMarket_new cfg = Some sm0 \<and> sm_run (unat (preamble_length sm0)) out sm0 = Some (rs, sm) \<and> length rs = unat (preamble_length sm0) \<and>
    (\<forall>s < unat (max (sc_symbols cfg) 1).
      map lo_price (side_list sm s Side_buy) = map (\<lambda>j. ym_fair (sm_syms sm ! s) - int (j div 2 + 1) * sm_tick sm) [0..<12] \<and>
      map lo_price (side_list sm s Side_sell) = map (\<lambda>j. ym_fair (sm_syms sm ! s) + int (j div 2 + 1) * sm_tick sm) [0..<12])"
proof -
  obtain sm0 where sm0: "SyntheticMarket_new cfg = Some sm0" "stream_inv 1 sm0" "progress sm0 = 0" "sm_symbols sm0 = max (sc_symbols cfg) 1"
    using SyntheticMarket_new_ok [OF first_word_returning [OF assms(1)]] by blast
  define N where "N = unat (sm_symbols sm0)"
  have N: "0 < N" "N < 65536" using market_invD(2) sm0(2) unsigned_less [of "sm_symbols sm0", where ?'a = nat] by (auto simp: N_def stream_inv_def)
  have "preamble_length sm0 = of_nat (1 + 25 * N)" by (simp add: preamble_length_def N_def kPreambleOrders_def kPreambleLevels_def unsigned_ucast_eq)
  then have pl: "unat (preamble_length sm0) = 1 + 25 * N" using N(2) take_bit_nat_eq_self [of "1 + 25 * N" 64] by (simp only: unsigned_of_nat) simp
  have k: "1 + (1 + 25 * N) < 2 ^ 64" using N(2) by simp
  obtain ms sm where r: "sm_run (1 + 25 * N) out sm0 = Some (map written ms, sm)" "stream_inv (1 + (1 + 25 * N)) sm" "length ms = min (1 + 25 * N) (stream_length sm0 - progress sm0)"
    "progress sm = progress sm0 + length ms" "sm_symbols sm = sm_symbols sm0" using sm_run_ok [OF sm0(2) k assms(2)] by blast
  have "length ms = 1 + 25 * N" using r(3) sm0(3) by (simp add: stream_length_def N_def)
  then have p: "progress sm = 1 + 25 * N" using r(4) sm0(3) by simp
  have "stage_ok sm" using r(2) by (simp add: stream_inv_def)
  then have d: "depth_ok (N * 24) sm" using p r(5) N(1) by (cases "sm_phase sm") (auto simp: stage_ok_def progress_def N_def unsigned_eq_0_iff)
  have "min 24 (N * 24 - 24 * s) = 24" if "s < N" for s using that by auto
  moreover have "bids_placed 24 = 12" "asks_placed 24 = 12" by (simp_all add: bids_placed_def asks_placed_def)
  ultimately have "\<forall>s < N. map lo_price (side_list sm s Side_buy) = map (\<lambda>j. ym_fair (sm_syms sm ! s) - int (j div 2 + 1) * sm_tick sm) [0..<12] \<and>
      map lo_price (side_list sm s Side_sell) = map (\<lambda>j. ym_fair (sm_syms sm ! s) + int (j div 2 + 1) * sm_tick sm) [0..<12]"
    using d r(5) unfolding depth_ok_def N_def by metis
  then show ?thesis using sm0(1,4) pl r(1) \<open>length ms = 1 + 25 * N\<close> unfolding N_def by (intro exI [of _ sm0] exI [of _ "map written ms"] exI [of _ sm]) simp
qed

end
