(* ===== verification/Synthetic_Books.thy ===== *)
theory Synthetic_Books
  imports Market_Books Synthetic_Market_Correct
begin

text \<open>
  The synthetic market and the books it is made for: \<^verbatim>\<open>MarketBooks\<close> fed with the messages of the generator. The
  table that a consumer keeps in \<open>Synthetic_Market_Inv\<close> is the order table of the books.
\<close>

section \<open>Books that follow the synthetic market\<close>

definition info_of :: "Locate \<times> Side \<times> Price \<times> Qty \<Rightarrow> OrderInfo" where
  "info_of = (\<lambda>(l, d, p, q). \<lparr>oi_locate = l, oi_side = d, oi_price = p, oi_qty = q\<rparr>)"

fun changes_orders :: "itch_message \<Rightarrow> bool" where
  "changes_orders (IM_SystemEvent m) = False"
| "changes_orders (IM_StockDirectory m) = False"
| "changes_orders (IM_Trade m) = False"
| "changes_orders m = True"

lemma take_shares_reduced:
  assumes "take_shares f l r n t = Some t'" "T = (\<lambda>r. map_option info_of (t r))"
  shows "reduced_result T r n = Ap_ok" "reduced_table T r n = (\<lambda>r. map_option info_of (t' r))"
proof -
  obtain d p q where t: "t r = Some (l, d, p, q)" "0 < n" "n \<le> q" "t' = (if n = q then t(r := None) else t(r \<mapsto> (l, d, p, q - n)))"
    using assms(1) by (auto simp: take_shares_def split: option.splits if_splits)
  then show "reduced_result T r n = Ap_ok" "reduced_table T r n = (\<lambda>r. map_option info_of (t' r))"
    using assms(2) by (auto simp: reduced_result_def reduced_table_def info_of_def fun_eq_iff)
qed

lemma books_follow_step:
  assumes "feed_step m t = Some t'" "T = (\<lambda>r. map_option info_of (t r))" "order_effect m T T' res" "res \<noteq> Ap_capacity" "wire_valid m"
  shows "T' = (\<lambda>r. map_option info_of (t' r))" "changes_orders m \<Longrightarrow> res = Ap_ok"
proof -
  have "T' = (\<lambda>r. map_option info_of (t' r)) \<and> (changes_orders m \<longrightarrow> res = Ap_ok)"
  proof (cases m)
    case (IM_OrderExecuted x)
    then show ?thesis using assms take_shares_reduced by auto
  next
    case (IM_OrderExecutedPrice x)
    then show ?thesis using assms take_shares_reduced by auto
  next
    case (IM_OrderCancel x)
    then show ?thesis using assms take_shares_reduced by auto
  next
    case (IM_AddOrder x)
    have "t (ao_ref x) = None" "ao_shares x \<noteq> 0" "valid_side (ao_side x)" "t' = t(ao_ref x \<mapsto> (h_locate (ao_h x), ao_side x, ao_price x, ao_shares x))"
      using assms(1,5) by (auto simp: IM_AddOrder wire_valid_def split: if_splits)
    then show ?thesis using assms(2-4) by (auto simp: IM_AddOrder info_of_def fun_eq_iff)
  next
    case (IM_OrderReplace x)
    obtain l d p q where "t (orp_old_ref x) = Some (l, d, p, q)" "t (orp_new_ref x) = None" "orp_shares x \<noteq> 0"
      "t' = t(orp_old_ref x := None, orp_new_ref x \<mapsto> (l, d, orp_price x, orp_shares x))"
      using assms(1) by (auto simp: IM_OrderReplace split: option.splits if_splits)
    then show ?thesis using assms(2-4) by (auto simp: IM_OrderReplace info_of_def fun_eq_iff)
  next
    case (IM_OrderDelete x)
    have "t (od_ref x) \<noteq> None" "t' = t(od_ref x := None)" using assms(1) by (auto simp: IM_OrderDelete split: option.splits if_splits)
    then show ?thesis using assms(2-4) by (auto simp: IM_OrderDelete fun_eq_iff)
  qed (use assms in auto)
  then show "T' = (\<lambda>r. map_option info_of (t' r))" "changes_orders m \<Longrightarrow> res = Ap_ok" by blast+
qed

lemma books_follow:
  assumes "feed ms t = Some t'" "mb_order mb = (\<lambda>r. map_option info_of (t r))" "run_feed (zip als ms) mb = Some (mb', rs)" "Ap_capacity \<notin> set rs"
    "length als = length ms" "\<forall>m \<in> set ms. wire_valid m" "mb_inv k mb" "1 \<le> k" "k + length ms < 2 ^ 64"
  shows "mb_order mb' = (\<lambda>r. map_option info_of (t' r)) \<and> list_all2 (\<lambda>m res. changes_orders m \<longrightarrow> res = Ap_ok) ms rs"
  using assms
proof (induction ms arbitrary: t mb als rs k)
  case (Cons m ms)
  obtain al als' where als: "als = al # als'" "length als' = length ms" using Cons.prems(5) by (cases als) auto
  obtain t1 where t1: "feed_step m t = Some t1" "feed ms t1 = Some t'" using Cons.prems(1) by (auto simp: bind_eq_Some_conv)
  obtain mb1 res rs' where r: "mb_on al m mb = Some (mb1, res)" "run_feed (zip als' ms) mb1 = Some (mb', rs')" "rs = res # rs'"
    using Cons.prems(3) by (auto simp: als(1) bind_eq_Some_conv)
  have mb1: "mb_inv (k + 1) mb1" "order_effect m (mb_order mb) (mb_order mb1) res" using mb_on_spec [OF Cons.prems(7,8), of al m] Cons.prems(9) r(1) by auto
  have s: "mb_order mb1 = (\<lambda>r. map_option info_of (t1 r))" "changes_orders m \<Longrightarrow> res = Ap_ok"
    using books_follow_step [OF t1(1) Cons.prems(2) mb1(2)] Cons.prems(4,6) r(3) by auto
  from Cons.IH [OF t1(2) s(1) r(2) _ als(2) _ mb1(1)] show ?case using Cons.prems(4,6,9) r(3) s(2) by auto
qed simp

text \<open>
  Claim C15: books that follow the synthetic market never meet an error. Feed the messages of any number of
  calls of \<^verbatim>\<open>next\<close> to a fresh \<^verbatim>\<open>MarketBooks\<close>, whatever its configuration and the outcome of its
  allocations: the run returns, and if no message was refused for lack of room, every order message was answered
  \<^verbatim>\<open>ok\<close> and the order table of the books is exactly the shadow model of the generator.
\<close>

theorem books_follow_the_synthetic_market:
  assumes "first_word_accepted cfg" "k < 2 ^ 64 - 1" "kMaxMessageLength \<le> length out" "MarketBooks_new books = Some mb0"
  shows "\<exists>sm0 ms sm. SyntheticMarket_new cfg = Some sm0 \<and> sm_run k out sm0 = Some (map written ms, sm) \<and>
    (\<forall>als. length als = length ms \<longrightarrow> (\<exists>mb rs. run_feed (zip als ms) mb0 = Some (mb, rs) \<and>
      (Ap_capacity \<notin> set rs \<longrightarrow> list_all2 (\<lambda>m res. changes_orders m \<longrightarrow> res = Ap_ok) ms rs \<and>
        (\<forall>r l d p q. mb_order mb r = Some \<lparr>oi_locate = l, oi_side = d, oi_price = p, oi_qty = q\<rparr> \<longleftrightarrow>
          (\<exists>s. on_market sm s d \<and> l = locate_of s \<and> \<lparr>lo_ref = r, lo_price = p, lo_qty = q\<rparr> \<in> set (side_list sm s d))))))"
proof -
  obtain sm0 ms sm t where s: "SyntheticMarket_new cfg = Some sm0" "sm_run k out sm0 = Some (map written ms, sm)"
    "length ms = min k (1 + 25 * unat (max (sc_symbols cfg) 1) + unat (sc_messages cfg))" "\<forall>m \<in> set ms. wire_valid m" "feed ms Map.empty = Some t" "shadows sm t"
    using synthetic_feed [OF assms(1-3)] by blast
  have "\<exists>mb rs. run_feed (zip als ms) mb0 = Some (mb, rs) \<and> (Ap_capacity \<notin> set rs \<longrightarrow> list_all2 (\<lambda>m res. changes_orders m \<longrightarrow> res = Ap_ok) ms rs \<and>
        (\<forall>r l d p q. mb_order mb r = Some \<lparr>oi_locate = l, oi_side = d, oi_price = p, oi_qty = q\<rparr> \<longleftrightarrow>
          (\<exists>s. on_market sm s d \<and> l = locate_of s \<and> \<lparr>lo_ref = r, lo_price = p, lo_qty = q\<rparr> \<in> set (side_list sm s d))))" if als: "length als = length ms" for als
  proof -
    have n: "length (zip als ms) < 2 ^ 64 - 1" "1 + length ms < 2 ^ 64" using s(3) assms(2) als by simp_all
    obtain mb rs where r: "run_feed (zip als ms) mb0 = Some (mb, rs)" using feed_state [OF assms(4) n(1)] by blast
    have e: "mb_order mb0 = (\<lambda>r. map_option info_of (Map.empty r))" using MarketBooks_new_inv(2) [OF assms(4)] by (simp add: mb_order_live)
    have "mb_order mb r = Some \<lparr>oi_locate = l, oi_side = d, oi_price = p, oi_qty = q\<rparr> \<longleftrightarrow> t r = Some (l, d, p, q)"
      if "mb_order mb = (\<lambda>r. map_option info_of (t r))" for r l d p q using that by (auto simp: info_of_def)
    then show ?thesis using r s(6) books_follow [OF s(5) e r _ als s(4) MarketBooks_new_inv(1) [OF assms(4)] le_refl n(2)] by (auto simp: shadows_def)
  qed
  then show ?thesis using s(1,2) by blast
qed

theorem books_follow_the_synthetic_market_witness:
  "\<exists>sm0 ms sm mb rs. SyntheticMarket_new sample_market = Some sm0 \<and> sm_run 250 (replicate 44 0) sm0 = Some (map written ms, sm) \<and>
     run_feed (zip (replicate (length ms) sample_alloc) ms) (the (MarketBooks_new sample_config)) = Some (mb, rs) \<and>
     (Ap_capacity \<notin> set rs \<longrightarrow> list_all2 (\<lambda>m res. changes_orders m \<longrightarrow> res = Ap_ok) ms rs)"
proof -
  have "(250 :: nat) < 2 ^ 64 - 1" "kMaxMessageLength \<le> length (replicate 44 (0 :: u8))" by (simp_all add: itch_length_defs)
  from books_follow_the_synthetic_market [OF sample_market_accepted this sample_new] obtain sm0 ms sm where
    s: "SyntheticMarket_new sample_market = Some sm0" "sm_run 250 (replicate 44 0) sm0 = Some (map written ms, sm)"
    "\<forall>als. length als = length ms \<longrightarrow> (\<exists>mb rs. run_feed (zip als ms) (the (MarketBooks_new sample_config)) = Some (mb, rs) \<and>
      (Ap_capacity \<notin> set rs \<longrightarrow> list_all2 (\<lambda>m res. changes_orders m \<longrightarrow> res = Ap_ok) ms rs \<and>
        (\<forall>r l d p q. mb_order mb r = Some \<lparr>oi_locate = l, oi_side = d, oi_price = p, oi_qty = q\<rparr> \<longleftrightarrow>
          (\<exists>s. on_market sm s d \<and> l = locate_of s \<and> \<lparr>lo_ref = r, lo_price = p, lo_qty = q\<rparr> \<in> set (side_list sm s d)))))" by blast
  from s(3) have "\<exists>mb rs. run_feed (zip (replicate (length ms) sample_alloc) ms) (the (MarketBooks_new sample_config)) = Some (mb, rs) \<and>
    (Ap_capacity \<notin> set rs \<longrightarrow> list_all2 (\<lambda>m res. changes_orders m \<longrightarrow> res = Ap_ok) ms rs)" by (metis length_replicate)
  then show ?thesis using s(1,2) by blast
qed

end
