(* ===== verification/Spec2Isabelle.thy ===== *)
theory Spec2Isabelle
  imports Prelude Endian Flat_Hash_Map Order_Book Itch_Messages Market_Books Market_Books_Codes Risk_Engine Risk_Checked
    Ouch_Messages Order_Manager Order_Manager_Inv Order_Manager_Correct Framing Itch_Codec Ouch_Codec Mold64
    Slab_Pool Spsc_Ring Linked_List Exchange_Sim Exchange_Sim_Inv Sim_Queue Exchange_Sim_Steps Exchange_Sim_Market
    Exchange_Sim_Reports Exchange_Sim_Correct Engine Engine_Correct Strategies Rng Digest
    Capture Backtest Backtest_Correct Synthetic_Market Synthetic_Market_Inv Synthetic_Market_Correct
    Synthetic_Books
begin

text \<open>
  A verification library of OptiTrade, a header-only C++20 trading client and research simulator
  (\<^verbatim>\<open>src/include/optitrade\<close>). The program decodes a Nasdaq ITCH 5.0 market data feed, keeps price-level
  books, runs a strategy, checks its orders against risk limits, manages them over OUCH 4.2, and replays
  recorded or synthetic feeds against a simulated exchange.

  \<^bold>\<open>How the parts interact.\<close> A feed arrives framed or in MoldUDP64 packets; \<^verbatim>\<open>itch::decode\<close> calls a handler with one
  message; \<^verbatim>\<open>MarketBooks\<close> applies it to its order table and to one \<^verbatim>\<open>OrderBook\<close> per instrument. Orders of a
  strategy pass \<^verbatim>\<open>RiskEngine::check\<close> inside \<^verbatim>\<open>OrderManager::submit\<close> and leave as OUCH messages through a
  gateway; the answers come back through \<^verbatim>\<open>ouch::decode_outbound\<close> into the handlers of the order manager,
  which keeps the risk ledger in step. \<^verbatim>\<open>ExchangeSim\<close> is such a gateway: it queues requests, matches them
  against its own \<^verbatim>\<open>MarketBooks\<close>, tracks queue positions and queues reports. \<^verbatim>\<open>FlatHashMap\<close>, \<^verbatim>\<open>SlabPool\<close>
  and \<^verbatim>\<open>SpscRing\<close> are the containers underneath.

  \<^bold>\<open>Conventions.\<close> Unsigned integers that wrap are words of their width, sizes and indexes of storage are
  \<^typ>\<open>nat\<close>, signed prices and quantities are \<^typ>\<open>int\<close>. For the risk engine \<open>Risk_Checked\<close> shows that no
  signed operation leaves its 64 or 128 bits; elsewhere the signed arithmetic of the source is taken as exact. It
  is not exact everywhere: the requote threshold of the market maker, \<^verbatim>\<open>requote_ticks * tick\<close>, leaves 64 bits for extreme parameters
  (\<open>requote_threshold_can_overflow\<close> in \<open>Strategies\<close>); no claim depends on that product. Characters are bytes. A function that may read or write outside a span, or run a loop that might not end, returns
  an option, and the claims prove that it returns. Overload sets are one function per overload plus a
  dispatch. Callbacks, the gateway, the reference and symbol sources and the outcome of allocations are
  parameters.

  \<^bold>\<open>Theories and what they model.\<close>
  \<^item> \<open>Prelude\<close>: the types of \<^verbatim>\<open>core/types.hpp\<close> and \<^verbatim>\<open>core/decode_status.hpp\<close>, bounded byte access, and the generic
    lemmas on lists, words and spans.
  \<^item> \<open>Endian\<close>: \<^verbatim>\<open>core/endian.hpp\<close>; every load of what a store wrote.
  \<^item> \<open>Flat_Hash_Map\<close>: \<^verbatim>\<open>core/flat_hash_map.hpp\<close>, with the locale \<open>bounded_map\<close> for its clients. The loops
    are proved to end; every sequence of calls behaves as on a bounded finite map.
  \<^item> \<open>Slab_Pool\<close>: \<^verbatim>\<open>core/slab_pool.hpp\<close>, with the locale \<open>handle_pool\<close>; live handles are never handed out again.
  \<^item> \<open>Spsc_Ring\<close>: \<^verbatim>\<open>core/spsc_ring.hpp\<close> as two threads whose shared accesses interleave; a bounded queue.
  \<^item> \<open>Order_Book\<close>: \<^verbatim>\<open>book/order_book.hpp\<close>; the ladder refines two finite maps from price to level, the two
    searches agree with a linear one, queries and eviction are exact.
  \<^item> \<open>Itch_Messages\<close>, \<open>Market_Books\<close>, \<open>Market_Books_Codes\<close>: \<^verbatim>\<open>itch/messages.hpp\<close>, \<^verbatim>\<open>book/market_books.hpp\<close>; the levels of every book are
    exactly the sums over the live orders, and the result code of every message, the order table and the directory are
    the function \<open>documented\<close> of the state before, which writes out the rules of the header comment.
  \<^item> \<open>Framing\<close>, \<open>Itch_Codec\<close>, \<open>Ouch_Messages\<close>, \<open>Ouch_Codec\<close>, \<open>Mold64\<close>: \<^verbatim>\<open>itch/decoder.hpp\<close>, \<^verbatim>\<open>itch/encoder.hpp\<close>,
    \<^verbatim>\<open>ouch/messages.hpp\<close>, \<^verbatim>\<open>ouch/codec.hpp\<close>, \<^verbatim>\<open>net/mold64.hpp\<close>; totality on arbitrary bytes with the exact status, round trips
    in both directions (a message encodes to bytes that decode to it, and what is decoded encodes to the bytes it came from),
    resumable streams (locale \<open>framed_stream\<close>), all-or-nothing packets and the accounting of sequence numbers.
  \<^item> \<open>Risk_Engine\<close>, \<open>Risk_Checked\<close>: \<^verbatim>\<open>risk/limits.hpp\<close>, \<^verbatim>\<open>risk/reject.hpp\<close>, \<^verbatim>\<open>risk/risk_engine.hpp\<close>; exact totals, the rate
    window, the position limit, drawdown and the loss limit. \<open>Risk_Checked\<close> has every operation a second time with each signed operation
    checked against its width, and shows that this execution never fails and agrees with the first.
  \<^item> \<open>Order_Manager\<close>, \<open>Order_Manager_Inv\<close>, \<open>Order_Manager_Correct\<close>: \<^verbatim>\<open>oms/types.hpp\<close>, \<^verbatim>\<open>oms/interfaces.hpp\<close>,
    \<^verbatim>\<open>oms/order_manager.hpp\<close>; the model, the invariant of table, token index and list, and the claims. Listener
    callbacks may re-enter the manager.
  \<^item> \<open>Exchange_Sim\<close>: \<^verbatim>\<open>sim/exchange_sim.hpp\<close>. \<open>Linked_List\<close> has the intrusive lists in general,
    \<open>Exchange_Sim_Inv\<close> the storage invariant and the effect of each list operation, \<open>Sim_Queue\<close> the fair queue as
    lists of numbers, \<open>Exchange_Sim_Steps\<close> the request handlers, \<open>Exchange_Sim_Market\<close> the two market loops
    (locale \<open>order_walk\<close>), \<open>Exchange_Sim_Reports\<close> the reports a loop queues, read back through the client's decoder (locale
    \<open>traced_walk\<close>), \<open>Exchange_Sim_Correct\<close> runs and claims.
  \<^item> \<open>Engine\<close>, \<open>Engine_Correct\<close>: \<^verbatim>\<open>engine/engine.hpp\<close>, the composition of feed decoder, books, strategy, risk, order
    manager and gateway. The engine's members are the world of the order manager's model; what a strategy may do is
    the locale \<open>strategy_contract\<close>. The claims about it are at the end of this theory.
  \<^item> \<open>Strategies\<close>: \<^verbatim>\<open>strategy/strategy.hpp\<close>, \<^verbatim>\<open>ema_cross.hpp\<close>, \<^verbatim>\<open>imbalance_taker.hpp\<close>, \<^verbatim>\<open>microprice_maker.hpp\<close>; each
    interprets the contract, and orders and quotes stay within their limits.

  \<^item> \<open>Rng\<close>, \<open>Digest\<close>: \<^verbatim>\<open>core/rng.hpp\<close>, \<^verbatim>\<open>core/digest.hpp\<close>; the zero state is unreachable, bounded draws are uniform,
    a changed byte always changes the digest.
  \<^item> \<open>Capture\<close>: \<^verbatim>\<open>replay/capture.hpp\<close>, capture files, BinaryFILE files and in-memory lists, with the locale
    \<open>record_source\<close> for the clients of \<^verbatim>\<open>next\<close>; files survive truncation at any byte.
  \<^item> \<open>Backtest\<close>, \<open>Backtest_Correct\<close>: \<^verbatim>\<open>replay/backtest.hpp\<close>, the whole of \<^verbatim>\<open>run_backtest\<close>: the digest gateway, the replay
    loop, the delivery of reports, the final flush and the report. The locale \<open>backtest_strategy\<close> is the contract of
    a strategy at this gateway, and the three strategies interpret it. The relation \<open>calls\<close>
    says which \<^verbatim>\<open>on_itch\<close> and \<^verbatim>\<open>on_ouch\<close> calls lead from one state to another. Every run over a source that ends
    returns and calls the engine with every record and every due report; with a strategy that sends nothing from a report callback the times of these calls never step back.

  \<^item> \<open>Synthetic_Market\<close>, \<open>Synthetic_Market_Inv\<close>, \<open>Synthetic_Market_Correct\<close>: \<^verbatim>\<open>sim/synthetic_market.hpp\<close>, the generator of test feeds
    with its shadow model, on \<open>Rng\<close> and \<open>Itch_Codec\<close>; the model, the invariant with the effect of each helper, and the generators.
    Its stream is accepted message by message by the table of a consumer, and \<open>Synthetic_Books\<close> shows that \<open>Market_Books\<close> is such a
    consumer.

  \<^bold>\<open>Loops and bounds.\<close> No fuel is used: loops that follow links or probe runs are \<^theory_text>\<open>partial_function\<close>s whose
  result is proved to exist from the invariant of the data structure. Claims over a feed or a run assume fewer than
  \<open>2 ^ 64 - 1\<close> messages, because level ids are 64-bit counters.
  Whether the rejection loop of \<^verbatim>\<open>Rng::bounded\<close> ends depends on the words of the generator: it is proved to
  return exactly when one of them is accepted. The words of a generator recur, so the claim about the synthetic market
  only asks that the first word of the seed is accepted for the bounds the market draws with.

  \<^bold>\<open>Not modelled.\<close> \<^verbatim>\<open>net/udp.hpp\<close> (POSIX sockets), \<^verbatim>\<open>src/apps\<close> (command line tools, printing, threads, timing)
  and the test and fuzz code. Prefetch hints, \<^verbatim>\<open>to_string\<close> labels and printing (\<^verbatim>\<open>print_report\<close>, \<^verbatim>\<open>format_units\<close>) have no effect
  on the state.
\<close>

section \<open>The composed engine\<close>

text \<open>
  Claim C2: the composed engine is consistent. From its construction, through any sequence of feed
  messages, exchange reports, feed gaps and resumes, with arbitrary bytes, any gateway and any strategy
  that acts through the order API, every call returns, the risk engine's open quantity and order count
  of every instrument and side are exactly those of the order manager's working orders, every level
  of every book shows exactly the live orders on it, and each call has been counted once.
\<close>

theorem engine_stays_consistent:
  assumes "strategy_contract gw sg" "Engine_new cfg st g = Some sy0" "length es < 2 ^ 64 - 1"
  shows "\<exists>sy. engine_run gw sg es sy0 = Some sy \<and>
    (\<forall>l. \<forall>d \<in> {Side_buy, Side_sell}. open_qty (sy_risk sy) l d = (\<Sum>e\<leftarrow>om_orders (sy_om sy). share l d e) \<and>
       open_count (sy_risk sy) l d = (\<Sum>e\<leftarrow>om_orders (sy_om sy). counts l d e)) \<and>
    (\<forall>l b s p e. mb_book (eg_books (sy_world sy)) l = Some b \<and> ob_lookup b s p = Some e \<longrightarrow>
       level_exact (live (eg_books (sy_world sy))) l (s = Side_buy) p e) \<and>
    counts_of sy = called es"
proof -
  obtain sy where run: "engine_run gw sg es sy0 = Some sy" "engine_inv (1 + length es) sy" "counts_of sy = plus3 (counts_of sy0) (called es)"
    using strategy_contract.run_ok [OF assms(1) Engine_new_inv(1) [OF assms(2)], of es] assms(3) by auto
  have inv: "om_inv sy" "conserve (live (eg_books (sy_world sy))) (mb_book (eg_books (sy_world sy)))"
    using run(2) mb_invD(4) by (auto simp: engine_inv_def)
  have "level_exact (live (eg_books (sy_world sy))) l (s = Side_buy) p e"
    if "mb_book (eg_books (sy_world sy)) l = Some b" "ob_lookup b s p = Some e" for l b s p e
    using conserveD(4) [OF inv(2) that(1)] that(2) by (simp add: ob_lookup_abs)
  moreover have "counts_of sy = called es" using run(3) Engine_new_inv(2) [OF assms(2)] by (simp add: plus3_def)
  ultimately show ?thesis using run(1) om_inv_ledger [OF inv(1)] by auto
qed

definition sample_gateway :: "(u64 list) gateway" where
  "sample_gateway = \<lparr>gw_send_enter = (\<lambda>m now g. (now # g, True)), gw_send_cancel = (\<lambda>m now g. (now # g, True)),
     gw_send_replace = (\<lambda>m now g. (now # g, False))\<rparr>"

definition sample_engine_events :: "engine_event list" where
  "sample_engine_events = [EE_itch sample_alloc (Itch_Codec.itch_bytes Market_Books.sample_add) 5, EE_itch sample_alloc [1, 2, 3] 6, EE_ouch [] 7]"

theorem engine_stays_consistent_witness:
  "\<exists>sy0 sy. Engine_new sample_engine_config (MicropriceMaker_new sample_maker_config) [] = Some sy0 \<and>
     engine_run sample_gateway (maker_strategy sample_gateway) sample_engine_events sy0 = Some sy \<and> counts_of sy = (2, 1, 0)"
proof -
  obtain sy0 :: "(MicropriceMaker, u64 list) engine" where sy0: "Engine_new sample_engine_config (MicropriceMaker_new sample_maker_config) [] = Some sy0"
    using sample_engine [of "MicropriceMaker_new sample_maker_config" "[] :: u64 list"] by blast
  have c: "called sample_engine_events = (2, 1, 0)" "length sample_engine_events < 2 ^ 64 - 1" by (simp_all add: called_def sample_engine_events_def)
  from engine_stays_consistent [OF maker.strategy_contract_axioms [of sample_gateway] sy0 c(2)] obtain sy where
    "engine_run sample_gateway (maker_strategy sample_gateway) sample_engine_events sy0 = Some sy" "counts_of sy = called sample_engine_events" by blast
  then show ?thesis using sy0 c(1) by (intro exI [of _ sy0] exI [of _ sy]) simp
qed

text \<open>
  Claim C7: a halted engine only cancels. Take any state of the engine and a feed gap there: the call
  returns, trading is off, and whatever arrives until \<^verbatim>\<open>resume_trading\<close> is called, trading stays off and
  the gateway receives cancel messages and nothing else. If the gateway takes every cancel, each order
  that was working at the gap has its cancel in flight when \<^verbatim>\<open>on_feed_gap\<close> returns.
\<close>

theorem halted_engine_only_cancels:
  assumes "strategy_contract gw sg" "Engine_new cfg st g = Some sy0" "engine_run gw sg es sy0 = Some sy"
    "length es + length es' < 2 ^ 64 - 1" "EE_resume \<notin> set es'"
  shows "\<exists>sy1 sy2. on_feed_gap gw sg now sy = Some sy1 \<and> engine_run gw sg es' sy1 = Some sy2 \<and>
    \<not> eg_trading (sy_world sy1) \<and> \<not> eg_trading (sy_world sy2) \<and>
    cancels gw (eg_gateway (sy_world sy)) (eg_gateway (sy_world sy1)) \<and>
    cancels gw (eg_gateway (sy_world sy1)) (eg_gateway (sy_world sy2)) \<and>
    (gateway_takes_cancels (engine_env gw sg) \<longrightarrow> (\<forall>oid i. om_find sy oid = Some i \<and> \<not> is_terminal (in_status i) \<longrightarrow>
       (\<exists>i'. om_find sy1 oid = Some i' \<and> in_status i' = OS_pending_cancel)))"
proof -
  have inv: "engine_inv (1 + length es) sy"
    using strategy_contract.run_ok [OF assms(1) Engine_new_inv(1) [OF assms(2)], of es] assms(3,4) by auto
  obtain sy1 where gap: "on_feed_gap gw sg now sy = Some sy1" "engine_inv (1 + length es) sy1" "\<not> eg_trading (sy_world sy1)"
    "cancels gw (eg_gateway (sy_world sy)) (eg_gateway (sy_world sy1))"
    using strategy_contract.on_feed_gap_ok [OF assms(1) inv, of now] by metis
  obtain sy2 where "engine_run gw sg es' sy1 = Some sy2" "\<not> eg_trading (sy_world sy2)"
    "cancels gw (eg_gateway (sy_world sy1)) (eg_gateway (sy_world sy2))"
    using strategy_contract.run_ok [OF assms(1) gap(2), of es'] gap(3) assms(4,5) by auto
  moreover have "om_inv sy" using inv by (simp add: engine_inv_def)
  ultimately show ?thesis using gap strategy_contract.gap_reaches [OF assms(1) _ gap(1)] by blast
qed

theorem halted_engine_only_cancels_witness:
  "\<exists>sy0 sy1 sy2. Engine_new sample_engine_config (ImbalanceTaker_new sample_taker_config) [] = Some sy0 \<and>
     on_feed_gap sample_gateway (taker_strategy sample_gateway) 9 sy0 = Some sy1 \<and>
     engine_run sample_gateway (taker_strategy sample_gateway) sample_engine_events sy1 = Some sy2 \<and>
     \<not> eg_trading (sy_world sy2) \<and> cancels sample_gateway (eg_gateway (sy_world sy1)) (eg_gateway (sy_world sy2))"
proof -
  obtain sy0 :: "(ImbalanceTaker, u64 list) engine" where sy0: "Engine_new sample_engine_config (ImbalanceTaker_new sample_taker_config) [] = Some sy0"
    using sample_engine [of "ImbalanceTaker_new sample_taker_config" "[] :: u64 list"] by blast
  have "engine_run sample_gateway (taker_strategy sample_gateway) [] sy0 = Some sy0" by simp
  moreover have "length ([] :: engine_event list) + length sample_engine_events < 2 ^ 64 - 1" "EE_resume \<notin> set sample_engine_events"
    by (simp_all add: sample_engine_events_def)
  ultimately show ?thesis
    using halted_engine_only_cancels [OF taker.strategy_contract_axioms [of sample_gateway] sy0, where now = 9] sy0 by blast
qed

end
